(* ===== verification/Prelude.thy ===== *)
theory Prelude
  imports Main "HOL-Library.Word" "HOL-Library.Monad_Syntax"
begin

text \<open>
  What every component of the model shares: the names of the machine types, Rust's fallible
  results (an early return with an error, or a panic), bounds-checked reads of slices, the
  arithmetic of \<^verbatim>\<open>usize\<close>, big-endian byte encodings, bounded queues, and two interfaces as
  locales: a fixed-width wire codec, and a state machine with an invariant.
\<close>

unbundle bit_operations_syntax

named_theorems res_simps \<open>rewriting of results, reads and slices\<close>
named_theorems wire_simps \<open>rewriting of byte encodings\<close>

section \<open>Machine types\<close>

text \<open>
  Fixed-width integers keep their width. \<^verbatim>\<open>usize\<close> values are lengths, indices and counters of
  a 64-bit target; they are \<open>nat\<close>, with the overflow branch of the checked and saturating
  operations written out.
\<close>

type_synonym byte = "8 word"
type_synonym bytes = "byte list"
type_synonym u16 = "16 word"
type_synonym u32 = "32 word"
type_synonym u64 = "64 word"

definition usize_max :: nat where
  "usize_max = 2 ^ 64 - 1"

definition checked_add :: "nat \<Rightarrow> nat \<Rightarrow> nat option" where
  "checked_add a b = (if a + b \<le> usize_max then Some (a + b) else None)"

definition checked_mul :: "nat \<Rightarrow> nat \<Rightarrow> nat option" where
  "checked_mul a b = (if a * b \<le> usize_max then Some (a * b) else None)"

definition saturating_add :: "nat \<Rightarrow> nat \<Rightarrow> nat" where
  "saturating_add a b = min (a + b) usize_max"

definition saturating_mul :: "nat \<Rightarrow> nat \<Rightarrow> nat" where
  "saturating_mul a b = min (a * b) usize_max"

lemma checked_add_Some [simp]: "a + b \<le> usize_max \<Longrightarrow> checked_add a b = Some (a + b)"
  by (simp add: checked_add_def)

lemma checked_add_SomeD: "checked_add a b = Some c \<Longrightarrow> c = a + b"
  by (simp add: checked_add_def split: if_splits)

lemma checked_mul_SomeD: "checked_mul a b = Some c \<Longrightarrow> c = a * b"
  by (simp add: checked_mul_def split: if_splits)

section \<open>Fallible results\<close>

text \<open>
  A Rust function that returns \<^verbatim>\<open>Result\<close> ends in a value, in an error of its own, or in a
  panic (an index out of range). The three are told apart, so that absence of panics is a
  statement about the model.
\<close>

datatype 'e fault = Panic | Fail 'e

type_synonym ('e, 'a) res = "'e fault + 'a"

definition and_then :: "('e, 'a) res \<Rightarrow> ('a \<Rightarrow> ('e, 'b) res) \<Rightarrow> ('e, 'b) res" where
  "and_then r f = (case r of Inl e \<Rightarrow> Inl e | Inr x \<Rightarrow> f x)"

definition ensure :: "bool \<Rightarrow> 'e \<Rightarrow> ('e, unit) res" where
  "ensure b e = (if b then Inr () else Inl (Fail e))"

definition ok_or :: "'a option \<Rightarrow> 'e \<Rightarrow> ('e, 'a) res" where
  "ok_or x e = (case x of None \<Rightarrow> Inl (Fail e) | Some v \<Rightarrow> Inr v)"

definition is_ok :: "('e, 'a) res \<Rightarrow> bool" where
  "is_ok r = (case r of Inl _ \<Rightarrow> False | Inr _ \<Rightarrow> True)"

definition no_panic :: "('e, 'a) res \<Rightarrow> bool" where
  "no_panic r = (case r of Inl Panic \<Rightarrow> False | _ \<Rightarrow> True)"

lemma and_then_simps [simp, res_simps]:
  "and_then (Inl e) f = Inl e"
  "and_then (Inr x) f = f x"
  by (simp_all add: and_then_def)

lemma ensure_simps [simp, res_simps]:
  "ensure True e = Inr ()"
  "ensure False e = Inl (Fail e)"
  by (simp_all add: ensure_def)

lemma ok_or_simps [simp, res_simps]:
  "ok_or None e = Inl (Fail e)"
  "ok_or (Some v) e = Inr v"
  by (simp_all add: ok_or_def)

lemma is_ok_simps [simp, res_simps]:
  "is_ok (Inl e) = False"
  "is_ok (Inr x) = True"
  by (simp_all add: is_ok_def)

lemma no_panic_simps [simp, res_simps]:
  "no_panic (Inl Panic) = False"
  "no_panic (Inl (Fail e)) = True"
  "no_panic (Inr x) = True"
  by (simp_all add: no_panic_def)

lemma and_then_Inr_conv: "and_then r f = Inr y \<longleftrightarrow> (\<exists>x. r = Inr x \<and> f x = Inr y)"
  by (cases r) auto

lemma ensure_Inr_conv [simp, res_simps]: "ensure b e = Inr u \<longleftrightarrow> b"
  by (cases b) auto

lemma ok_or_Inr_conv [simp, res_simps]: "ok_or x e = Inr v \<longleftrightarrow> x = Some v"
  by (cases x) auto

lemma no_panic_ensure [simp, intro]: "no_panic (ensure b e)"
  by (cases b) auto

lemma no_panic_ok_or [simp, intro]: "no_panic (ok_or x e)"
  by (cases x) auto

lemma no_panic_and_then [intro]:
  "no_panic r \<Longrightarrow> (\<And>x. r = Inr x \<Longrightarrow> no_panic (f x)) \<Longrightarrow> no_panic (and_then r f)"
  by (cases r) (auto simp: no_panic_def split: fault.splits)

lemma and_then_ensure: "and_then (ensure b e) f = (if b then f () else Inl (Fail e))"
  by (cases b) auto

section \<open>Reads and slices\<close>

text \<open>
  \<^verbatim>\<open>xs[i]\<close> and \<^verbatim>\<open>&xs[lo..hi]\<close> panic out of range; \<^verbatim>\<open>xs.get(lo..hi)\<close> returns an option.
\<close>

definition read_at :: "'a list \<Rightarrow> nat \<Rightarrow> ('e, 'a) res" where
  "read_at xs i = (if i < length xs then Inr (xs ! i) else Inl Panic)"

definition get_slice :: "'a list \<Rightarrow> nat \<Rightarrow> nat \<Rightarrow> 'a list option" where
  "get_slice xs lo hi =
     (if lo \<le> hi \<and> hi \<le> length xs then Some (take (hi - lo) (drop lo xs)) else None)"

definition slice :: "'a list \<Rightarrow> nat \<Rightarrow> nat \<Rightarrow> ('e, 'a list) res" where
  "slice xs lo hi =
     (case get_slice xs lo hi of None \<Rightarrow> Inl Panic | Some ys \<Rightarrow> Inr ys)"

definition sub_list :: "'a list \<Rightarrow> nat \<Rightarrow> nat \<Rightarrow> 'a list" where
  "sub_list xs lo hi = take (hi - lo) (drop lo xs)"

definition get_at :: "'a list \<Rightarrow> nat \<Rightarrow> 'a option" where
  "get_at xs i = (if i < length xs then Some (xs ! i) else None)"

lemma read_at_ok [simp, res_simps]: "i < length xs \<Longrightarrow> read_at xs i = Inr (xs ! i)"
  by (simp add: read_at_def)

lemma slice_ok [simp, res_simps]:
  "lo \<le> hi \<Longrightarrow> hi \<le> length xs \<Longrightarrow> slice xs lo hi = Inr (sub_list xs lo hi)"
  by (simp add: slice_def get_slice_def sub_list_def)

lemma get_slice_Some [simp, res_simps]:
  "lo \<le> hi \<Longrightarrow> hi \<le> length xs \<Longrightarrow> get_slice xs lo hi = Some (sub_list xs lo hi)"
  by (simp add: get_slice_def sub_list_def)

lemma get_slice_SomeD:
  "get_slice xs lo hi = Some ys \<Longrightarrow> lo \<le> hi \<and> hi \<le> length xs \<and> ys = sub_list xs lo hi"
  by (auto simp: get_slice_def sub_list_def split: if_splits)

lemma length_sub_list [simp]:
  "hi \<le> length xs \<Longrightarrow> length (sub_list xs lo hi) = hi - lo"
  by (simp add: sub_list_def)

lemma nth_sub_list [simp]:
  "i < hi - lo \<Longrightarrow> hi \<le> length xs \<Longrightarrow> sub_list xs lo hi ! i = xs ! (lo + i)"
  by (simp add: sub_list_def)

text \<open>Counting the elements of a list that is updated at one place.\<close>

lemma length_filter_update:
  "w < length xs \<Longrightarrow> length (filter P (xs[w := x])) + (if P (xs ! w) then 1 else 0)
     = length (filter P xs) + (if P x then 1 else 0)"
proof (induction xs arbitrary: w)
  case (Cons a xs)
  then show ?case by (cases w) auto
qed simp

text \<open>Prefixes: \<^verbatim>\<open>starts_with\<close> and \<^verbatim>\<open>strip_prefix\<close>.\<close>

definition starts_with :: "'a list \<Rightarrow> 'a list \<Rightarrow> bool" where
  "starts_with xs p = (take (length p) xs = p)"

definition strip_prefix :: "'a list \<Rightarrow> 'a list \<Rightarrow> 'a list option" where
  "strip_prefix xs p = (if starts_with xs p then Some (drop (length p) xs) else None)"

lemma starts_with_append [simp]: "starts_with (p @ xs) p"
  by (simp add: starts_with_def)

lemma strip_prefix_append [simp]: "strip_prefix (p @ xs) p = Some xs"
  by (simp add: strip_prefix_def)

lemma starts_with_iff: "starts_with xs p \<longleftrightarrow> (\<exists>ys. xs = p @ ys)"
  by (metis append_eq_conv_conj append_take_drop_id starts_with_def)

lemma strip_prefix_SomeD: "strip_prefix xs p = Some ys \<Longrightarrow> xs = p @ ys"
  by (auto simp: strip_prefix_def starts_with_iff split: if_splits)

text \<open>ASCII text as bytes: the source's byte-string literals.\<close>

definition ascii :: "string \<Rightarrow> bytes" where
  "ascii s = map (\<lambda>c. of_nat (of_char c)) s"

lemma length_ascii [simp]: "length (ascii s) = length s"
  by (simp add: ascii_def)

text \<open>A sum over a list one of whose entries changes.\<close>

lemma sum_map_update:
  fixes f :: "'a \<Rightarrow> nat"
  shows "i < length xs \<Longrightarrow> sum_list (map f (xs[i := x])) + f (xs ! i) = sum_list (map f xs) + f x"
proof (induction xs arbitrary: i)
  case (Cons a xs)
  then show ?case by (cases i) (auto simp: algebra_simps)
qed simp

end
