(* ===== verification/Bytes.thy ===== *)
theory Bytes
  imports Prelude
begin

text \<open>
  Big-endian integers on the wire (\<^verbatim>\<open>to_be_bytes\<close>, \<^verbatim>\<open>from_be_bytes\<close>) and the interface every
  fixed-width field and header of the protocols satisfies: a codec whose decoder reads back
  what its encoder wrote, whatever follows it.
\<close>

section \<open>Big-endian byte strings\<close>

fun be_bytes :: "nat \<Rightarrow> nat \<Rightarrow> bytes" where
  "be_bytes 0 n = []"
| "be_bytes (Suc k) n = be_bytes k (n div 256) @ [of_nat n]"

definition be_val :: "bytes \<Rightarrow> nat" where
  "be_val bs = foldl (\<lambda>v b. v * 256 + unat b) 0 bs"

lemma be_val_Nil [simp]: "be_val [] = 0"
  by (simp add: be_val_def)

lemma be_val_snoc [simp]: "be_val (bs @ [b]) = be_val bs * 256 + unat b"
  by (simp add: be_val_def)

lemma length_be_bytes [simp]: "length (be_bytes k n) = k"
  by (induction k arbitrary: n) auto

lemma unat_of_nat_byte [simp]: "unat (of_nat n :: byte) = n mod 256"
  by (simp add: unat_of_nat)

lemma unat_byte_less [simp]: "unat (b :: byte) < 256"
  using unsigned_less [of b] by simp

lemma be_val_be_bytes [wire_simps]: "be_val (be_bytes k n) = n mod 256 ^ k"
proof (induction k arbitrary: n)
  case 0
  show ?case by simp
next
  case (Suc k)
  have "be_val (be_bytes (Suc k) n) = (n div 256 mod 256 ^ k) * 256 + n mod 256"
    by (simp add: Suc.IH)
  also have "\<dots> = n mod (256 * 256 ^ k)"
    by (simp add: mod_mult2_eq)
  finally show ?case by simp
qed

lemma be_bytes_be_val [wire_simps]: "be_bytes (length bs) (be_val bs) = bs"
proof (induction bs rule: rev_induct)
  case Nil
  show ?case by simp
next
  case (snoc b bs)
  have "(be_val bs * 256 + unat b) div 256 = be_val bs"
    using unat_byte_less [of b] by (simp add: div_mult_self3)
  moreover have "(of_nat (be_val bs * 256 + unat b) :: byte) = b"
  proof -
    have "unat (of_nat (be_val bs * 256 + unat b) :: byte) = (be_val bs * 256 + unat b) mod 256"
      by (rule unat_of_nat_byte)
    also have "\<dots> = unat b"
      using unat_byte_less [of b] by simp
    finally show ?thesis
      by (simp only: word_unat_eq_iff)
  qed
  ultimately show ?case by (simp add: snoc.IH)
qed

lemma be_val_less: "be_val bs < 256 ^ length bs"
proof (induction bs rule: rev_induct)
  case Nil
  show ?case by simp
next
  case (snoc b bs)
  then have "be_val bs * 256 + unat b < (be_val bs + 1) * 256"
    using unat_byte_less [of b] by simp
  also have "\<dots> \<le> 256 ^ length bs * 256"
    using snoc.IH by (intro mult_right_mono) simp_all
  finally show ?case by simp
qed

section \<open>Words on the wire\<close>

definition be16 :: "u16 \<Rightarrow> bytes" where "be16 w = be_bytes 2 (unat w)"
definition be32 :: "u32 \<Rightarrow> bytes" where "be32 w = be_bytes 4 (unat w)"
definition be64 :: "u64 \<Rightarrow> bytes" where "be64 w = be_bytes 8 (unat w)"

definition of_be16 :: "bytes \<Rightarrow> u16" where "of_be16 bs = of_nat (be_val bs)"
definition of_be32 :: "bytes \<Rightarrow> u32" where "of_be32 bs = of_nat (be_val bs)"
definition of_be64 :: "bytes \<Rightarrow> u64" where "of_be64 bs = of_nat (be_val bs)"

definition be128 :: "128 word \<Rightarrow> bytes" where "be128 w = be_bytes 16 (unat w)"
definition of_be128 :: "bytes \<Rightarrow> 128 word" where "of_be128 bs = of_nat (be_val bs)"

text \<open>\<^verbatim>\<open>u16::from_be_bytes([a, b])\<close>, the way the sources read 16-bit fields.\<close>

definition u16_of :: "byte \<Rightarrow> byte \<Rightarrow> u16" where
  "u16_of a b = of_be16 [a, b]"

lemma length_be [simp]:
  "length (be16 w) = 2" "length (be32 x) = 4" "length (be64 y) = 8"
  by (simp_all add: be16_def be32_def be64_def)

lemma unat_u16_less: "unat (w :: u16) < 65536"
  using unsigned_less [of w] by simp

lemma unat_u32_less: "unat (w :: u32) < 4294967296"
  using unsigned_less [of w] by simp

lemma unat_u64_less: "unat (w :: u64) < 18446744073709551616"
  using unsigned_less [of w] by simp

lemma of_be16_be16 [simp, wire_simps]: "of_be16 (be16 w) = w"
  using unat_u16_less [of w]
  by (simp add: of_be16_def be16_def be_val_be_bytes)

lemma of_be32_be32 [simp, wire_simps]: "of_be32 (be32 w) = w"
  using unat_u32_less [of w]
  by (simp add: of_be32_def be32_def be_val_be_bytes)

lemma of_be64_be64 [simp, wire_simps]: "of_be64 (be64 w) = w"
  using unat_u64_less [of w]
  by (simp add: of_be64_def be64_def be_val_be_bytes)

lemma unat_of_be16: "length bs = 2 \<Longrightarrow> unat (of_be16 bs) = be_val bs"
  using be_val_less [of bs] by (simp add: of_be16_def unat_of_nat)

lemma unat_of_be32: "length bs = 4 \<Longrightarrow> unat (of_be32 bs) = be_val bs"
  using be_val_less [of bs] by (simp add: of_be32_def unat_of_nat)

lemma be16_of_be16: "length bs = 2 \<Longrightarrow> be16 (of_be16 bs) = bs"
  using be_bytes_be_val [of bs] by (simp add: be16_def unat_of_be16)

lemma be32_of_be32: "length bs = 4 \<Longrightarrow> be32 (of_be32 bs) = bs"
  using be_bytes_be_val [of bs] by (simp add: be32_def unat_of_be32)

lemma unat_of_be64: "length bs = 8 \<Longrightarrow> unat (of_be64 bs) = be_val bs"
  using be_val_less [of bs] by (simp add: of_be64_def unat_of_nat)

lemma be64_of_be64: "length bs = 8 \<Longrightarrow> be64 (of_be64 bs) = bs"
  using be_bytes_be_val [of bs] by (simp add: be64_def unat_of_be64)

lemma length_be128 [simp]: "length (be128 w) = 16"
  by (simp add: be128_def)

lemma of_be128_be128 [simp, wire_simps]: "of_be128 (be128 w) = w"
proof -
  have "unat w < 256 ^ 16" using unsigned_less [of w, where 'a = nat] by simp
  then show ?thesis by (simp add: of_be128_def be128_def be_val_be_bytes)
qed

lemma be16_two: "\<exists>a b. be16 w = [a, b]"
  by (simp add: be16_def numeral_2_eq_2)

lemma u16_of_be16 [simp]: "be16 w = [a, b] \<Longrightarrow> u16_of a b = w"
  by (metis of_be16_be16 u16_of_def)

lemma u16_of_nth_be16 [simp, wire_simps]: "u16_of (be16 w ! 0) (be16 w ! Suc 0) = w"
  using be16_two [of w] by (auto simp: u16_of_def) (metis of_be16_be16)

lemma unat_u16_of: "unat (u16_of a b) = unat a * 256 + unat b"
  using unat_of_be16 [of "[a, b]"] by (simp add: u16_of_def be_val_def)

section \<open>The codec interface\<close>

text \<open>
  A field of fixed width: the decoder reads back what the encoder wrote, whatever follows.
  The lemmas are what the parsers of the components rest on.
\<close>

locale wire_codec =
  fixes enc :: "'a \<Rightarrow> bytes"
    and dec :: "bytes \<Rightarrow> ('a \<times> bytes) option"
    and width :: nat
  assumes enc_length: "length (enc x) = width"
    and dec_enc: "dec (enc x @ rest) = Some (x, rest)"
    and dec_short: "length bs < width \<Longrightarrow> dec bs = None"
begin

lemma enc_inj: "enc x = enc y \<longleftrightarrow> x = y"
  by (metis dec_enc option.inject prod.inject)

lemma prefix_unique: "enc x @ r = enc y @ s \<Longrightarrow> x = y \<and> r = s"
  by (metis dec_enc option.inject prod.inject)

text \<open>A sequence of fields decodes field by field.\<close>

fun dec_many :: "nat \<Rightarrow> bytes \<Rightarrow> ('a list \<times> bytes) option" where
  "dec_many 0 bs = Some ([], bs)"
| "dec_many (Suc n) bs =
     (case dec bs of None \<Rightarrow> None
      | Some (x, bs') \<Rightarrow> map_option (\<lambda>(xs, r). (x # xs, r)) (dec_many n bs'))"

lemma dec_many_enc: "dec_many (length xs) (concat (map enc xs) @ rest) = Some (xs, rest)"
  by (induction xs) (simp_all add: dec_enc)

lemma dec_nonempty_width: "0 < width \<Longrightarrow> dec [] = None"
  by (simp add: dec_short)

end

definition dec_be16 :: "bytes \<Rightarrow> (u16 \<times> bytes) option" where
  "dec_be16 bs = (if length bs < 2 then None else Some (of_be16 (take 2 bs), drop 2 bs))"

definition dec_be64 :: "bytes \<Rightarrow> (u64 \<times> bytes) option" where
  "dec_be64 bs = (if length bs < 8 then None else Some (of_be64 (take 8 bs), drop 8 bs))"

interpretation be16_codec: wire_codec be16 dec_be16 2
  by unfold_locales (auto simp: dec_be16_def)

interpretation be64_codec: wire_codec be64 dec_be64 8
  by unfold_locales (auto simp: dec_be64_def)

end
