(* ===== verification/Machine.thy ===== *)
theory Machine
  imports Prelude
begin

text \<open>
  State machines: the run of a deterministic step function over a list of inputs, the states
  a step relation reaches, and the two interfaces the components' invariants are proved
  through. A component interprets the one its code has, and takes the lemmas about runs from
  it.
\<close>

section \<open>Deterministic machines with outputs\<close>

fun run :: "('s \<Rightarrow> 'l \<Rightarrow> 's \<times> 'o list) \<Rightarrow> 's \<Rightarrow> 'l list \<Rightarrow> 's \<times> 'o list" where
  "run step s [] = (s, [])"
| "run step s (l # ls) =
     (let (s1, o1) = step s l; (s2, o2) = run step s1 ls in (s2, o1 @ o2))"

lemma fst_run_Cons: "fst (run step s (l # ls)) = fst (run step (fst (step s l)) ls)"
  by (simp add: run.simps(2) Let_def split: prod.splits)

lemma snd_run_Cons:
  "snd (run step s (l # ls)) = snd (step s l) @ snd (run step (fst (step s l)) ls)"
  by (simp add: run.simps(2) Let_def split: prod.splits)

declare run.simps(2) [simp del]
declare fst_run_Cons [simp] snd_run_Cons [simp]

lemma run_append:
  "run step s (xs @ ys) =
     (let (s1, o1) = run step s xs; (s2, o2) = run step s1 ys in (s2, o1 @ o2))"
  by (induction xs arbitrary: s) (auto simp: run.simps(2) Let_def split: prod.splits)

lemma run_snoc:
  "run step s (xs @ [y]) =
     (let (s1, o1) = run step s xs; (s2, o2) = step s1 y in (s2, o1 @ o2))"
  by (simp add: run_append run.simps(2) Let_def split: prod.splits)

lemma fst_run_snoc: "fst (run step s (xs @ [y])) = fst (step (fst (run step s xs)) y)"
  by (simp add: run_snoc Let_def split: prod.splits)

lemma snd_run_snoc:
  "snd (run step s (xs @ [y])) = snd (run step s xs) @ snd (step (fst (run step s xs)) y)"
  by (simp add: run_snoc Let_def split: prod.splits)

text \<open>An invariant of the states, and a guarantee every output of a step satisfies.\<close>

locale machine =
  fixes step :: "'s \<Rightarrow> 'l \<Rightarrow> 's \<times> 'o list"
    and inv :: "'s \<Rightarrow> bool"
    and good :: "'o \<Rightarrow> bool"
  assumes step_inv: "inv s \<Longrightarrow> inv (fst (step s l))"
    and step_good: "inv s \<Longrightarrow> list_all good (snd (step s l))"
begin

lemma run_inv: "inv s \<Longrightarrow> inv (fst (run step s ls))"
proof (induction ls arbitrary: s)
  case (Cons l ls)
  show ?case
    unfolding fst_run_Cons by (rule Cons.IH, rule step_inv, rule Cons.prems)
qed simp

lemma run_good: "inv s \<Longrightarrow> list_all good (snd (run step s ls))"
proof (induction ls arbitrary: s)
  case (Cons l ls)
  show ?case
    unfolding snd_run_Cons list_all_append
    using step_good [OF Cons.prems] Cons.IH [OF step_inv [OF Cons.prems]] by simp
qed simp

end

section \<open>Transition systems\<close>

inductive reach :: "('s \<Rightarrow> bool) \<Rightarrow> ('s \<Rightarrow> 's \<Rightarrow> bool) \<Rightarrow> 's \<Rightarrow> bool"
  for init :: "'s \<Rightarrow> bool" and step :: "'s \<Rightarrow> 's \<Rightarrow> bool" where
  reach_init: "init s \<Longrightarrow> reach init step s"
| reach_step: "reach init step s \<Longrightarrow> step s t \<Longrightarrow> reach init step t"

locale transition_system =
  fixes init :: "'s \<Rightarrow> bool"
    and step :: "'s \<Rightarrow> 's \<Rightarrow> bool"
    and inv :: "'s \<Rightarrow> bool"
  assumes init_inv: "init s \<Longrightarrow> inv s"
    and step_inv: "inv s \<Longrightarrow> step s t \<Longrightarrow> inv t"
begin

lemma reach_inv: "reach init step s \<Longrightarrow> inv s"
  by (induction rule: reach.induct) (auto intro: init_inv step_inv)

end

end
