(* ===== verification/Packet.thy ===== *)
theory Packet
  imports Bytes Machine
begin

text \<open>
  The packet buffers of \<^verbatim>\<open>backend/packet.rs\<close>: a fixed storage with a live range that grows
  into a headroom and a tail, and the pool that hands the storages out. The pool is modelled
  twice: its operations as functions, and the interleaving of their atomic steps over any
  number of threads as a step relation.
\<close>

section \<open>Constants\<close>

definition PACKET_HEADROOM :: nat where "PACKET_HEADROOM = 64"
definition PACKET_CAPACITY :: nat where "PACKET_CAPACITY = 2304"
definition PACKET_POOL_PER_WORKER :: nat where "PACKET_POOL_PER_WORKER = 256"
definition PACKET_POOL_SHARED :: nat where "PACKET_POOL_SHARED = 512"
definition PACKET_POOL_RETAINED_MAX :: nat where "PACKET_POOL_RETAINED_MAX = 2048"

lemmas packet_consts =
  PACKET_HEADROOM_def PACKET_CAPACITY_def PACKET_POOL_PER_WORKER_def
  PACKET_POOL_SHARED_def PACKET_POOL_RETAINED_MAX_def

definition packet_pool_size :: "nat \<Rightarrow> nat" where
  "packet_pool_size workers =
     saturating_add (saturating_mul workers PACKET_POOL_PER_WORKER) PACKET_POOL_SHARED"

section \<open>Packet buffers\<close>

record packet_buf =
  storage :: bytes
  range_start :: nat
  range_end :: nat

datatype packet_error =
    ReadLengthExceedsCapacity
  | PrependExceedsHeadroom
  | TailLengthOverflow
  | TailExceedsCapacity
  | TrimExceedsLength
  | TruncateExceedsLength
  | RangeInvalid

text \<open>A buffer fresh from the pool holds a storage of full capacity and an empty range.\<close>

definition fresh_buf :: "bytes \<Rightarrow> packet_buf" where
  "fresh_buf st =
     \<lparr>storage = st, range_start = PACKET_HEADROOM, range_end = PACKET_HEADROOM\<rparr>"

definition buf_len :: "packet_buf \<Rightarrow> nat" where
  "buf_len p = range_end p - range_start p"

definition buf_is_empty :: "packet_buf \<Rightarrow> bool" where
  "buf_is_empty p = (\<not> range_start p < range_end p)"

definition as_slice :: "packet_buf \<Rightarrow> bytes" where
  "as_slice p = sub_list (storage p) (range_start p) (range_end p)"

text \<open>Writing through a mutable slice of the storage, from an absolute offset.\<close>

definition write_storage :: "packet_buf \<Rightarrow> nat \<Rightarrow> bytes \<Rightarrow> packet_buf" where
  "write_storage p off bs =
     p\<lparr>storage := take off (storage p) @ bs @ drop (off + length bs) (storage p)\<rparr>"

definition fill_read_area :: "packet_buf \<Rightarrow> bytes \<Rightarrow> packet_buf" where
  "fill_read_area p bs = write_storage p PACKET_HEADROOM bs"

definition set_read_len :: "packet_buf \<Rightarrow> nat \<Rightarrow> (packet_error, packet_buf) res" where
  "set_read_len p n =
     (if n > PACKET_CAPACITY - PACKET_HEADROOM then Inl (Fail ReadLengthExceedsCapacity)
      else Inr (p\<lparr>range_start := PACKET_HEADROOM, range_end := PACKET_HEADROOM + n\<rparr>))"

definition prepend :: "packet_buf \<Rightarrow> nat \<Rightarrow> (packet_error, packet_buf) res" where
  "prepend p n =
     (if n > range_start p then Inl (Fail PrependExceedsHeadroom)
      else Inr (p\<lparr>range_start := range_start p - n\<rparr>))"

definition extend_tail :: "packet_buf \<Rightarrow> nat \<Rightarrow> (packet_error, packet_buf) res" where
  "extend_tail p n =
     (case checked_add (range_end p) n of
        None \<Rightarrow> Inl (Fail TailLengthOverflow)
      | Some e \<Rightarrow>
          if e > PACKET_CAPACITY then Inl (Fail TailExceedsCapacity)
          else Inr (p\<lparr>range_end := e\<rparr>))"

definition trim_front :: "packet_buf \<Rightarrow> nat \<Rightarrow> (packet_error, packet_buf) res" where
  "trim_front p n =
     (if n > buf_len p then Inl (Fail TrimExceedsLength)
      else Inr (p\<lparr>range_start := range_start p + n\<rparr>))"

definition truncate :: "packet_buf \<Rightarrow> nat \<Rightarrow> (packet_error, packet_buf) res" where
  "truncate p n =
     (if n > buf_len p then Inl (Fail TruncateExceedsLength)
      else Inr (p\<lparr>range_end := range_start p + n\<rparr>))"

abbreviation truncate_buf :: "packet_buf \<Rightarrow> nat \<Rightarrow> (packet_error, packet_buf) res" where
  "truncate_buf \<equiv> truncate"

definition set_range :: "packet_buf \<Rightarrow> nat \<Rightarrow> nat \<Rightarrow> (packet_error, packet_buf) res" where
  "set_range p s e =
     (if s > e \<or> e > PACKET_CAPACITY then Inl (Fail RangeInvalid)
      else Inr (p\<lparr>range_start := s, range_end := e\<rparr>))"

text \<open>The representation invariant: every slice the operations take is in range.\<close>

definition wf_buf :: "packet_buf \<Rightarrow> bool" where
  "wf_buf p \<longleftrightarrow>
     length (storage p) = PACKET_CAPACITY
     \<and> range_start p \<le> range_end p \<and> range_end p \<le> PACKET_CAPACITY"

lemmas buf_op_defs =
  set_read_len_def prepend_def extend_tail_def trim_front_def truncate_def set_range_def

lemma wf_fresh_buf [simp]: "wf_buf (fresh_buf st) \<longleftrightarrow> length st = PACKET_CAPACITY"
  by (simp add: wf_buf_def fresh_buf_def packet_consts)

lemma wf_set_read_len: "wf_buf p \<Longrightarrow> set_read_len p n = Inr q \<Longrightarrow> wf_buf q"
  by (auto simp: wf_buf_def set_read_len_def packet_consts split: if_splits)

lemma wf_prepend: "wf_buf p \<Longrightarrow> prepend p n = Inr q \<Longrightarrow> wf_buf q"
  by (auto simp: wf_buf_def prepend_def split: if_splits)

lemma wf_extend_tail: "wf_buf p \<Longrightarrow> extend_tail p n = Inr q \<Longrightarrow> wf_buf q"
  by (auto simp: wf_buf_def extend_tail_def dest: checked_add_SomeD
      split: if_splits option.splits)

lemma wf_trim_front: "wf_buf p \<Longrightarrow> trim_front p n = Inr q \<Longrightarrow> wf_buf q"
  by (auto simp: wf_buf_def trim_front_def buf_len_def split: if_splits)

lemma wf_truncate: "wf_buf p \<Longrightarrow> truncate p n = Inr q \<Longrightarrow> wf_buf q"
  by (auto simp: wf_buf_def truncate_def buf_len_def split: if_splits)

lemma wf_set_range: "wf_buf p \<Longrightarrow> set_range p s e = Inr q \<Longrightarrow> wf_buf q"
  by (auto simp: wf_buf_def set_range_def split: if_splits)

lemma wf_write_storage:
  "wf_buf p \<Longrightarrow> off + length bs \<le> PACKET_CAPACITY \<Longrightarrow> wf_buf (write_storage p off bs)"
  by (auto simp: wf_buf_def write_storage_def)

lemmas wf_buf_ops =
  wf_set_read_len wf_prepend wf_extend_tail wf_trim_front wf_truncate wf_set_range

text \<open>Under the invariant the slice \<^verbatim>\<open>as_slice\<close> takes never panics and has the range's length.\<close>

lemma as_slice_no_panic:
  "wf_buf p \<Longrightarrow> slice (storage p) (range_start p) (range_end p) = Inr (as_slice p)"
  by (simp add: wf_buf_def as_slice_def)

lemma length_as_slice: "wf_buf p \<Longrightarrow> length (as_slice p) = buf_len p"
  by (simp add: wf_buf_def as_slice_def buf_len_def)

text \<open>What the operations do to the bytes of the packet.\<close>

lemma sub_list_split:
  assumes "lo \<le> mid" and "mid \<le> hi"
  shows "sub_list xs lo hi = sub_list xs lo mid @ sub_list xs mid hi"
proof -
  have "hi - lo = (mid - lo) + (hi - mid)" using assms by simp
  then show ?thesis
    using assms by (simp only: sub_list_def take_add drop_drop le_add_diff_inverse2)
qed

lemma as_slice_trim_front:
  "wf_buf p \<Longrightarrow> trim_front p n = Inr q \<Longrightarrow> as_slice q = drop n (as_slice p)"
  by (auto simp: trim_front_def as_slice_def sub_list_def drop_take buf_len_def
      add.commute split: if_splits)

lemma as_slice_truncate:
  "wf_buf p \<Longrightarrow> truncate p n = Inr q \<Longrightarrow> as_slice q = take n (as_slice p)"
  by (auto simp: truncate_def as_slice_def sub_list_def buf_len_def min_def split: if_splits)

text \<open>Writing a header into the headroom, and a trailer behind the payload.\<close>

definition prepend_bytes :: "packet_buf \<Rightarrow> bytes \<Rightarrow> (packet_error, packet_buf) res" where
  "prepend_bytes p bs =
     and_then (prepend p (length bs)) (\<lambda>q. Inr (write_storage q (range_start q) bs))"

definition append_bytes :: "packet_buf \<Rightarrow> bytes \<Rightarrow> (packet_error, packet_buf) res" where
  "append_bytes p bs =
     and_then (extend_tail p (length bs)) (\<lambda>q. Inr (write_storage q (range_end p) bs))"

definition load_bytes :: "packet_buf \<Rightarrow> bytes \<Rightarrow> (packet_error, packet_buf) res" where
  "load_bytes p bs = set_read_len (fill_read_area p bs) (length bs)"

lemma sub_list_write_at:
  assumes "off + length bs \<le> length xs"
  shows "sub_list (take off xs @ bs @ drop (off + length bs) xs) off (off + length bs) = bs"
  using assms by (simp add: sub_list_def)

lemma sub_list_write_after:
  assumes "off + length bs \<le> lo" and "hi \<le> length xs"
  shows "sub_list (take off xs @ bs @ drop (off + length bs) xs) lo hi = sub_list xs lo hi"
proof (cases "lo \<le> hi")
  case True
  then have "off + length bs \<le> length xs" using assms by simp
  then have "drop lo (take off xs @ bs @ drop (off + length bs) xs) = drop lo xs"
    using assms by (simp add: min_def)
  then show ?thesis by (simp add: sub_list_def)
qed (simp add: sub_list_def)

lemma sub_list_write_before:
  assumes "hi \<le> off" and "off \<le> length xs"
  shows "sub_list (take off xs @ bs @ drop (off + length bs) xs) lo hi = sub_list xs lo hi"
proof (cases "lo \<le> hi")
  case True
  then show ?thesis
    using assms by (simp add: sub_list_def drop_take)
qed (simp add: sub_list_def)

lemma prepend_bytes_ok:
  assumes "wf_buf p" and "prepend_bytes p bs = Inr q"
  shows "as_slice q = bs @ as_slice p" and "wf_buf q"
proof -
  from assms(2) have room: "length bs \<le> range_start p"
    and q: "q = write_storage (p\<lparr>range_start := range_start p - length bs\<rparr>)
                  (range_start p - length bs) bs"
    by (auto simp: prepend_bytes_def prepend_def split: if_splits)
  let ?s = "range_start p - length bs"
  have st: "storage q = take ?s (storage p) @ bs @ drop (?s + length bs) (storage p)"
    and rs: "range_start q = ?s" and re: "range_end q = range_end p"
    by (simp_all add: q write_storage_def)
  have fits: "?s + length bs \<le> length (storage p)"
    using room assms(1) by (simp add: wf_buf_def)
  have "as_slice q = sub_list (storage q) ?s (?s + length bs)
          @ sub_list (storage q) (?s + length bs) (range_end p)"
    unfolding as_slice_def rs re
    by (rule sub_list_split) (use room assms(1) in \<open>auto simp: wf_buf_def\<close>)
  also have "sub_list (storage q) ?s (?s + length bs) = bs"
    unfolding st by (rule sub_list_write_at [OF fits])
  also have "sub_list (storage q) (?s + length bs) (range_end p) = as_slice p"
    unfolding st as_slice_def using room assms(1)
    by (subst sub_list_write_after) (auto simp: wf_buf_def)
  finally show "as_slice q = bs @ as_slice p" .
  show "wf_buf q"
    using assms(1) room by (auto simp: q intro!: wf_write_storage) (auto simp: wf_buf_def)
qed

lemma append_bytes_ok:
  assumes "wf_buf p" and "append_bytes p bs = Inr q"
  shows "as_slice q = as_slice p @ bs" and "wf_buf q"
proof -
  let ?e = "range_end p + length bs"
  from assms(2) have room: "?e \<le> PACKET_CAPACITY"
    and q: "q = write_storage (p\<lparr>range_end := ?e\<rparr>) (range_end p) bs"
    by (auto simp: append_bytes_def extend_tail_def dest: checked_add_SomeD
        split: if_splits option.splits)
  have st: "storage q = take (range_end p) (storage p) @ bs @ drop ?e (storage p)"
    and rs: "range_start q = range_start p" and re: "range_end q = ?e"
    by (simp_all add: q write_storage_def)
  have fits: "?e \<le> length (storage p)"
    using room assms(1) by (simp add: wf_buf_def)
  have "as_slice q = sub_list (storage q) (range_start p) (range_end p)
          @ sub_list (storage q) (range_end p) ?e"
    unfolding as_slice_def rs re
    by (rule sub_list_split) (use assms(1) in \<open>auto simp: wf_buf_def\<close>)
  also have "sub_list (storage q) (range_start p) (range_end p) = as_slice p"
    unfolding st as_slice_def using fits by (intro sub_list_write_before) auto
  also have "sub_list (storage q) (range_end p) ?e = bs"
    unfolding st by (rule sub_list_write_at [OF fits])
  finally show "as_slice q = as_slice p @ bs" .
  show "wf_buf q"
    using assms(1) room by (auto simp: q intro!: wf_write_storage) (auto simp: wf_buf_def)
qed

lemma load_bytes_ok:
  assumes "wf_buf p" and "length bs \<le> PACKET_CAPACITY - PACKET_HEADROOM"
  obtains q where "load_bytes p bs = Inr q" and "as_slice q = bs" and "wf_buf q"
    and "range_start q = PACKET_HEADROOM" and "range_end q = PACKET_HEADROOM + length bs"
proof -
  have fits: "PACKET_HEADROOM + length bs \<le> length (storage p)"
    using assms by (simp add: wf_buf_def packet_consts)
  let ?q = "write_storage p PACKET_HEADROOM bs
      \<lparr>range_start := PACKET_HEADROOM, range_end := PACKET_HEADROOM + length bs\<rparr>"
  have ok: "load_bytes p bs = Inr ?q"
    using assms(2) by (simp add: load_bytes_def set_read_len_def fill_read_area_def)
  have "as_slice ?q = bs"
    unfolding as_slice_def write_storage_def
    using sub_list_write_at [OF fits] by simp
  moreover have "wf_buf ?q"
    using assms fits by (auto simp: wf_buf_def write_storage_def packet_consts)
  moreover have "range_start ?q = PACKET_HEADROOM" and "range_end ?q = PACKET_HEADROOM + length bs"
    by (rule packet_buf.select_convs packet_buf.surjective | simp)+
  ultimately show ?thesis using ok by (intro that)
qed

section \<open>The buffer as a byte string\<close>

text \<open>
  The contract of a buffer: a byte string, extended at either end while there is room, and cut
  at either end. The storage, the headroom and the offsets are hidden.
\<close>

datatype buf_op =
    LoadOp bytes
  | PrependOp bytes
  | AppendOp bytes
  | TrimFrontOp nat
  | TruncateOp nat

fun buf_apply :: "packet_buf \<Rightarrow> buf_op \<Rightarrow> (packet_error, packet_buf) res" where
  "buf_apply p (LoadOp bs) = load_bytes p bs"
| "buf_apply p (PrependOp bs) = prepend_bytes p bs"
| "buf_apply p (AppendOp bs) = append_bytes p bs"
| "buf_apply p (TrimFrontOp n) = trim_front p n"
| "buf_apply p (TruncateOp n) = truncate p n"

fun buf_spec :: "bytes \<Rightarrow> buf_op \<Rightarrow> bytes" where
  "buf_spec xs (LoadOp bs) = bs"
| "buf_spec xs (PrependOp bs) = bs @ xs"
| "buf_spec xs (AppendOp bs) = xs @ bs"
| "buf_spec xs (TrimFrontOp n) = drop n xs"
| "buf_spec xs (TruncateOp n) = take n xs"

fun buf_apply_all :: "packet_buf \<Rightarrow> buf_op list \<Rightarrow> (packet_error, packet_buf) res" where
  "buf_apply_all p [] = Inr p"
| "buf_apply_all p (x # xs) = and_then (buf_apply p x) (\<lambda>q. buf_apply_all q xs)"

lemma load_bytes_Inr:
  assumes "wf_buf p" and "load_bytes p bs = Inr q"
  shows "as_slice q = bs" and "wf_buf q"
proof -
  have fits: "length bs \<le> PACKET_CAPACITY - PACKET_HEADROOM"
    using assms(2) by (auto simp: load_bytes_def set_read_len_def split: if_splits)
  from load_bytes_ok [OF assms(1) fits] assms(2)
  show "as_slice q = bs" and "wf_buf q" by auto
qed

lemma buf_apply_refines:
  "wf_buf p \<Longrightarrow> buf_apply p x = Inr q \<Longrightarrow> as_slice q = buf_spec (as_slice p) x \<and> wf_buf q"
  by (cases x)
    (auto simp only: buf_apply.simps buf_spec.simps
      intro: load_bytes_Inr prepend_bytes_ok append_bytes_ok as_slice_trim_front
      as_slice_truncate wf_trim_front wf_truncate)

lemma buf_apply_all_refines:
  "wf_buf p \<Longrightarrow> buf_apply_all p xs = Inr q \<Longrightarrow>
     as_slice q = foldl buf_spec (as_slice p) xs \<and> wf_buf q"
proof (induction xs arbitrary: p)
  case (Cons x xs)
  from Cons.prems(2) obtain r where r: "buf_apply p x = Inr r" "buf_apply_all r xs = Inr q"
    by (auto simp: and_then_Inr_conv)
  have step: "as_slice r = buf_spec (as_slice p) x" "wf_buf r"
    using buf_apply_refines [OF Cons.prems(1) r(1)] by simp_all
  from Cons.IH [OF step(2) r(2)] show ?case by (simp add: step(1))
qed simp

lemma buf_apply_no_panic: "no_panic (buf_apply p x)"
  by (cases x) (auto simp: load_bytes_def set_read_len_def prepend_bytes_def prepend_def
      append_bytes_def extend_tail_def trim_front_def truncate_def split: option.splits)

lemma buf_apply_all_no_panic: "no_panic (buf_apply_all p xs)"
  by (induction xs arbitrary: p) (auto intro: buf_apply_no_panic)

text \<open>C6: Any sequence of reads, prepended headers, appended trailers and cuts of a packet
  buffer either stops with an error of the buffer, never a panic, or leaves exactly the bytes
  the same sequence gives on a plain byte string, with the range still inside the storage.\<close>

theorem packet_buf_refines_bytes:
  assumes "wf_buf p"
  shows "no_panic (buf_apply_all p xs) \<and>
    (\<forall>q. buf_apply_all p xs = Inr q \<longrightarrow>
      as_slice q = foldl buf_spec (as_slice p) xs \<and> wf_buf q)"
  using assms by (auto simp: buf_apply_all_no_panic dest: buf_apply_all_refines)

definition sample_ops :: "buf_op list" where
  "sample_ops =
     [LoadOp [1, 2, 3], PrependOp [7, 8], AppendOp [9], TrimFrontOp 1, TruncateOp 4]"

theorem packet_buf_refines_bytes_witness:
  "wf_buf (fresh_buf (replicate PACKET_CAPACITY 0)) \<and>
   (\<exists>q. buf_apply_all (fresh_buf (replicate PACKET_CAPACITY 0)) sample_ops = Inr q
      \<and> as_slice q = [8, 1, 2, 3])"
proof -
  let ?p = "fresh_buf (replicate PACKET_CAPACITY 0)"
  have wf: "wf_buf ?p" by simp
  have "is_ok (buf_apply_all ?p sample_ops)"
    by (simp add: sample_ops_def load_bytes_def fill_read_area_def write_storage_def
        set_read_len_def prepend_bytes_def prepend_def append_bytes_def extend_tail_def
        trim_front_def truncate_def buf_len_def fresh_buf_def packet_consts usize_max_def)
  then obtain q where q: "buf_apply_all ?p sample_ops = Inr q"
    by (cases "buf_apply_all ?p sample_ops") auto
  then have "as_slice q = foldl buf_spec (as_slice ?p) sample_ops"
    using packet_buf_refines_bytes [OF wf, of sample_ops] by blast
  then show ?thesis using wf q by (simp add: sample_ops_def)
qed

section \<open>The pool\<close>

text \<open>
  \<^verbatim>\<open>ArrayQueue\<close> (crossbeam) is a bounded first-in first-out queue: \<open>push\<close> fails when full.
\<close>

record packet_pool =
  idle :: "bytes list"
  retained_limit :: nat
  allocated :: nat
  allocation_limit :: nat

definition pool_new :: "nat \<Rightarrow> packet_pool" where
  "pool_new buffers =
     (let capacity = max buffers 1
      in \<lparr>idle = [], retained_limit = min capacity PACKET_POOL_RETAINED_MAX,
          allocated = 0, allocation_limit = capacity\<rparr>)"

definition zeroed :: "nat \<Rightarrow> bytes" where
  "zeroed n = replicate n 0"

definition try_acquire :: "packet_pool \<Rightarrow> (packet_buf \<times> packet_pool) option" where
  "try_acquire pl =
     (case idle pl of
        st # rest \<Rightarrow> Some (fresh_buf st, pl\<lparr>idle := rest\<rparr>)
      | [] \<Rightarrow>
          if allocated pl < allocation_limit pl
          then Some (fresh_buf (zeroed PACKET_CAPACITY), pl\<lparr>allocated := allocated pl + 1\<rparr>)
          else None)"

definition release :: "packet_pool \<Rightarrow> packet_buf \<Rightarrow> packet_pool" where
  "release pl p =
     (if length (storage p) \<noteq> PACKET_CAPACITY then pl\<lparr>allocated := allocated pl - 1\<rparr>
      else if length (idle pl) < retained_limit pl then pl\<lparr>idle := idle pl @ [storage p]\<rparr>
      else pl\<lparr>allocated := allocated pl - 1\<rparr>)"

text \<open>
  The buffers in use are those handed out and not yet dropped. The budget: what is allocated
  is what is in use or idle, and never exceeds the limit.
\<close>

definition pool_ok :: "packet_pool \<Rightarrow> packet_buf list \<Rightarrow> bool" where
  "pool_ok pl live \<longleftrightarrow>
     allocated pl = length (idle pl) + length live
     \<and> allocated pl \<le> allocation_limit pl
     \<and> length (idle pl) \<le> retained_limit pl
     \<and> list_all (\<lambda>st. length st = PACKET_CAPACITY) (idle pl)"

lemma pool_ok_new: "pool_ok (pool_new n) []"
  by (simp add: pool_ok_def pool_new_def Let_def)

lemma pool_ok_acquire:
  "pool_ok pl live \<Longrightarrow> try_acquire pl = Some (p, pl') \<Longrightarrow> pool_ok pl' (p # live) \<and> wf_buf p"
  by (auto simp: pool_ok_def try_acquire_def zeroed_def split: list.splits if_splits)

lemma try_acquire_None:
  "pool_ok pl live \<Longrightarrow> try_acquire pl = None \<longleftrightarrow> length live = allocation_limit pl"
  by (auto simp: pool_ok_def try_acquire_def split: list.splits)

lemma pool_ok_release:
  "pool_ok pl (xs @ p # ys) \<Longrightarrow> pool_ok (release pl p) (xs @ ys)"
  by (auto simp: pool_ok_def release_def)

text \<open>Taking as many buffers as the pool has, at most a number of them.\<close>

fun acquire_upto :: "nat \<Rightarrow> packet_pool \<Rightarrow> packet_buf list \<times> packet_pool" where
  "acquire_upto 0 pool = ([], pool)"
| "acquire_upto (Suc n) pool =
     (case try_acquire pool of
        None \<Rightarrow> ([], pool)
      | Some (p, pool') \<Rightarrow> let (ps, pool'') = acquire_upto n pool' in (p # ps, pool''))"

text \<open>A run of acquisitions and drops by one owner of all the live buffers.\<close>

datatype pool_op = Acquire | DropBuf nat

fun pool_step :: "packet_pool \<times> packet_buf list \<Rightarrow> pool_op \<Rightarrow>
    (packet_pool \<times> packet_buf list) \<times> packet_buf list" where
  "pool_step (pl, live) Acquire =
     (case try_acquire pl of None \<Rightarrow> ((pl, live), []) | Some (p, pl') \<Rightarrow> ((pl', p # live), [p]))"
| "pool_step (pl, live) (DropBuf i) =
     (if i < length live then ((release pl (live ! i), take i live @ drop (Suc i) live), [])
      else ((pl, live), []))"

interpretation pool: machine pool_step "\<lambda>(pl, live). pool_ok pl live" wf_buf
proof unfold_locales
  fix s :: "packet_pool \<times> packet_buf list" and l :: pool_op
  obtain pl live where s: "s = (pl, live)" by (cases s)
  assume inv: "case s of (pl, live) \<Rightarrow> pool_ok pl live"
  have split: "live = take i live @ live ! i # drop (Suc i) live" if "i < length live" for i
    by (rule id_take_nth_drop [OF that])
  show "case fst (pool_step s l) of (pl, live) \<Rightarrow> pool_ok pl live"
  proof (cases l)
    case Acquire
    then show ?thesis
      using inv by (auto simp: s split: option.splits dest: pool_ok_acquire)
  next
    case (DropBuf i)
    then show ?thesis
      using inv pool_ok_release [of pl "take i live" "live ! i" "drop (Suc i) live"] split [of i]
      by (auto simp: s)
  qed
  show "list_all wf_buf (snd (pool_step s l))"
    using inv by (cases l) (auto simp: s split: option.splits dest: pool_ok_acquire)
qed

section \<open>The pool shared by threads\<close>

text \<open>
  Acquisition and release are not atomic: a thread pops, and when the queue was empty it
  counts the new buffer later; a thread that drops a buffer pushes it, and when the queue was
  full it lowers the count later. The state keeps the threads caught in between: those that
  found the queue empty (\<open>growing\<close>), the storages on their way back (\<open>returning\<close>) and the
  threads whose push failed (\<open>forgetting\<close>).
\<close>

record shared_pool =
  sp :: packet_pool
  in_use :: "bytes list"
  growing :: nat
  returning :: "bytes list"
  forgetting :: nat

definition shared_pool_init :: "nat \<Rightarrow> shared_pool \<Rightarrow> bool" where
  "shared_pool_init n s \<longleftrightarrow>
     s = \<lparr>sp = pool_new n, in_use = [], growing = 0, returning = [], forgetting = 0\<rparr>"

inductive shared_step :: "shared_pool \<Rightarrow> shared_pool \<Rightarrow> bool" where
  pop_ok: "idle (sp s) = st # rest \<Longrightarrow>
     shared_step s (s\<lparr>sp := (sp s)\<lparr>idle := rest\<rparr>, in_use := st # in_use s\<rparr>)"
| pop_empty: "idle (sp s) = [] \<Longrightarrow> shared_step s (s\<lparr>growing := growing s + 1\<rparr>)"
| grow: "growing s = Suc k \<Longrightarrow> allocated (sp s) < allocation_limit (sp s) \<Longrightarrow>
     shared_step s (s\<lparr>sp := (sp s)\<lparr>allocated := allocated (sp s) + 1\<rparr>,
        in_use := zeroed PACKET_CAPACITY # in_use s, growing := k\<rparr>)"
| refuse: "growing s = Suc k \<Longrightarrow> \<not> allocated (sp s) < allocation_limit (sp s) \<Longrightarrow>
     shared_step s (s\<lparr>growing := k\<rparr>)"
| overwrite: "in_use s = xs @ st # ys \<Longrightarrow>
     shared_step s (s\<lparr>in_use := xs @ st' # ys\<rparr>)"
| drop_begin: "in_use s = xs @ st # ys \<Longrightarrow>
     shared_step s (s\<lparr>in_use := xs @ ys, returning := st # returning s\<rparr>)"
| push_ok: "returning s = xs @ st # ys \<Longrightarrow> length st = PACKET_CAPACITY \<Longrightarrow>
     length (idle (sp s)) < retained_limit (sp s) \<Longrightarrow>
     shared_step s (s\<lparr>sp := (sp s)\<lparr>idle := idle (sp s) @ [st]\<rparr>, returning := xs @ ys\<rparr>)"
| push_fails: "returning s = xs @ st # ys \<Longrightarrow>
     length st \<noteq> PACKET_CAPACITY \<or> \<not> length (idle (sp s)) < retained_limit (sp s) \<Longrightarrow>
     shared_step s (s\<lparr>returning := xs @ ys, forgetting := forgetting s + 1\<rparr>)"
| forget: "forgetting s = Suc k \<Longrightarrow>
     shared_step s (s\<lparr>sp := (sp s)\<lparr>allocated := allocated (sp s) - 1\<rparr>, forgetting := k\<rparr>)"

inductive_cases shared_stepE: "shared_step s t"

text \<open>
  Every counted buffer is idle, in use, on its way back, or about to be forgotten; a storage
  of another length never reaches the queue.
\<close>

definition shared_ok :: "nat \<Rightarrow> shared_pool \<Rightarrow> bool" where
  "shared_ok n s \<longleftrightarrow>
     allocated (sp s) =
       length (idle (sp s)) + length (in_use s) + length (returning s) + forgetting s
     \<and> allocated (sp s) \<le> allocation_limit (sp s)
     \<and> allocation_limit (sp s) = max n 1
     \<and> length (idle (sp s)) \<le> retained_limit (sp s)
     \<and> retained_limit (sp s) \<le> PACKET_POOL_RETAINED_MAX
     \<and> list_all (\<lambda>st. length st = PACKET_CAPACITY) (idle (sp s))"

interpretation shared_pool: transition_system "shared_pool_init n" shared_step "shared_ok n" for n
proof unfold_locales
  show "shared_ok n s" if "shared_pool_init n s" for s
    using that by (simp add: shared_ok_def shared_pool_init_def pool_new_def Let_def)
  show "shared_ok n t" if "shared_ok n s" and "shared_step s t" for s t
    using that(2,1) by (cases rule: shared_step.cases) (auto simp: shared_ok_def)
qed

text \<open>The functions of the sequential model are runs of the atomic steps.\<close>

lemma acquire_refines_pop:
  assumes "idle (sp s) \<noteq> []" and "try_acquire (sp s) = Some (p, pl)"
  shows "shared_step s (s\<lparr>sp := pl, in_use := storage p # in_use s\<rparr>)"
proof -
  from assms obtain st rest where "idle (sp s) = st # rest"
    by (cases "idle (sp s)") auto
  then show ?thesis
    using assms(2) pop_ok [of s st rest] by (auto simp: try_acquire_def fresh_buf_def)
qed

lemma acquire_refines_grow:
  assumes "idle (sp s) = []" and "try_acquire (sp s) = Some (p, pl)" and "growing s = k"
  shows "shared_step s (s\<lparr>growing := Suc k\<rparr>)"
    and "shared_step (s\<lparr>growing := Suc k\<rparr>) (s\<lparr>sp := pl, in_use := storage p # in_use s\<rparr>)"
proof -
  show "shared_step s (s\<lparr>growing := Suc k\<rparr>)"
    using pop_empty [OF assms(1)] assms(3) by simp
  show "shared_step (s\<lparr>growing := Suc k\<rparr>) (s\<lparr>sp := pl, in_use := storage p # in_use s\<rparr>)"
    using grow [of "s\<lparr>growing := Suc k\<rparr>" k] assms
    by (auto simp: try_acquire_def fresh_buf_def split: if_splits)
qed

text \<open>C7: Whatever the interleaving of threads that acquire and drop packet buffers, the
  buffers in use, idle and on their way back never outnumber the pool's limit, the retained
  queue never exceeds its bound, and a thread that lowers the count always finds it positive.\<close>

theorem shared_pool_budget:
  assumes "reach (shared_pool_init n) shared_step s"
  shows "length (in_use s) + length (idle (sp s)) + length (returning s) \<le> max n 1
    \<and> length (idle (sp s)) \<le> PACKET_POOL_RETAINED_MAX
    \<and> (0 < forgetting s \<longrightarrow> 0 < allocated (sp s))"
  using shared_pool.reach_inv [OF assms] by (auto simp: shared_ok_def)

theorem shared_pool_budget_witness:
  "\<exists>s. reach (shared_pool_init 1) shared_step s \<and> length (in_use s) = 1
     \<and> length (in_use s) + length (idle (sp s)) + length (returning s) \<le> 1"
proof -
  let ?s0 = "\<lparr>sp = pool_new 1, in_use = [], growing = 0, returning = [], forgetting = 0\<rparr>"
  let ?s1 = "?s0\<lparr>growing := 1\<rparr>"
  have "reach (shared_pool_init 1) shared_step ?s0"
    by (rule reach_init) (simp add: shared_pool_init_def)
  moreover have "shared_step ?s0 ?s1"
    using pop_empty [of ?s0] by (simp add: pool_new_def Let_def)
  ultimately have r1: "reach (shared_pool_init 1) shared_step ?s1"
    by (rule reach_step)
  have "\<exists>s. shared_step ?s1 s \<and> length (in_use s) = 1"
    using grow [of ?s1 0] by (intro exI conjI) (auto simp: pool_new_def Let_def)
  then obtain s where "shared_step ?s1 s" and one: "length (in_use s) = 1" by blast
  with r1 have r: "reach (shared_pool_init 1) shared_step s" by (blast intro: reach_step)
  from shared_pool_budget [OF r] one r show ?thesis by auto
qed

end
