(* ===== verification/Tables.thy ===== *)
theory Tables
  imports Prelude "HOL-Library.AList" "HOL-Library.Multiset"
begin

text \<open>
  The containers of the program. A \<^verbatim>\<open>HashMap\<close> whose iteration order is never observed is an
  association list with distinct keys (the library's \<open>AList\<close>), so that its size is computed; a
  \<^verbatim>\<open>Vec\<close> with \<^verbatim>\<open>swap_remove\<close> and \<^verbatim>\<open>position\<close> is a list.
\<close>

section \<open>Hash maps\<close>

type_synonym ('k, 'v) table = "('k \<times> 'v) list"

abbreviation tbl_ok :: "('k, 'v) table \<Rightarrow> bool" where
  "tbl_ok t \<equiv> distinct (map fst t)"

abbreviation tbl_set :: "'k \<Rightarrow> 'v \<Rightarrow> ('k, 'v) table \<Rightarrow> ('k, 'v) table" where
  "tbl_set \<equiv> AList.update"

abbreviation tbl_remove :: "'k \<Rightarrow> ('k, 'v) table \<Rightarrow> ('k, 'v) table" where
  "tbl_remove \<equiv> AList.delete"

definition tbl_has :: "('k, 'v) table \<Rightarrow> 'k \<Rightarrow> bool" where
  "tbl_has t k = (map_of t k \<noteq> None)"

definition tbl_get :: "('k, 'v) table \<Rightarrow> 'k \<Rightarrow> 'v \<Rightarrow> 'v" where
  "tbl_get t k d = (case map_of t k of None \<Rightarrow> d | Some v \<Rightarrow> v)"

definition tbl_sum :: "('v \<Rightarrow> nat) \<Rightarrow> ('k, 'v) table \<Rightarrow> nat" where
  "tbl_sum f t = sum_list (map (\<lambda>(k, v). f v) t)"

lemma tbl_has_iff: "tbl_has t k \<longleftrightarrow> k \<in> fst ` set t"
  by (simp add: tbl_has_def map_of_eq_None_iff)

lemma keys_tbl_set: "fst ` set (tbl_set k v t) = insert k (fst ` set t)"
  by (simp add: dom_update)

lemma tbl_ok_set [simp]: "tbl_ok (tbl_set k v t) \<longleftrightarrow> tbl_ok t"
  by (induction t) (auto simp: dom_update)

lemma tbl_ok_setI: "tbl_ok t \<Longrightarrow> tbl_ok (tbl_set k v t)"
  by simp

lemma length_tbl_set: "length (tbl_set k v t) = (if tbl_has t k then length t else Suc (length t))"
  by (induction t) (auto simp: tbl_has_def)

lemma tbl_set_get: "map_of (tbl_set k v t) j = (if j = k then Some v else map_of t j)"
  by (simp add: update_conv')

lemma tbl_has_set [simp]: "tbl_has (tbl_set k v t) j \<longleftrightarrow> j = k \<or> tbl_has t j"
  by (simp add: tbl_has_def update_conv')

lemma tbl_get_set: "tbl_get (tbl_set k v t) j d = (if j = k then v else tbl_get t j d)"
  by (simp add: tbl_get_def update_conv')

lemma tbl_sum_Nil [simp]: "tbl_sum f [] = 0"
  by (simp add: tbl_sum_def)

lemma tbl_sum_set_new: "map_of t k = None \<Longrightarrow> tbl_sum f (tbl_set k v t) = tbl_sum f t + f v"
  by (induction t) (auto simp: tbl_sum_def split: if_splits)

lemma tbl_sum_set_old:
  "map_of t k = Some v0 \<Longrightarrow> tbl_sum f (tbl_set k v t) + f v0 = tbl_sum f t + f v"
  by (induction t) (auto simp: tbl_sum_def split: if_splits)

lemma tbl_sum_ge: "map_of t k = Some v \<Longrightarrow> f v \<le> tbl_sum f t"
  by (induction t) (auto simp: tbl_sum_def split: if_splits)

lemma tbl_sum_zero: "(\<And>k v. map_of t k = Some v \<Longrightarrow> f v = 0) \<Longrightarrow> tbl_ok t \<Longrightarrow> tbl_sum f t = 0"
  by (auto simp: tbl_sum_def sum_list_eq_0_iff)

text \<open>
  The contract of a map, as its clients use it: what a lookup finds after an insertion and a
  removal. The tables satisfy it.
\<close>

locale keyed_store =
  fixes get :: "'m \<Rightarrow> 'k \<Rightarrow> 'v option"
    and put :: "'k \<Rightarrow> 'v \<Rightarrow> 'm \<Rightarrow> 'm"
    and del :: "'k \<Rightarrow> 'm \<Rightarrow> 'm"
  assumes get_put: "get (put k v m) j = (if j = k then Some v else get m j)"
    and get_del: "get (del k m) j = (if j = k then None else get m j)"
begin

lemma put_commute: "j \<noteq> k \<Longrightarrow> get (put j u (put k v m)) = get (put k v (put j u m))"
  by (rule ext) (simp add: get_put)

lemma del_put: "get (del k (put k v m)) = get (del k m)"
  by (rule ext) (simp add: get_put get_del)

lemma put_put: "get (put k v (put k u m)) = get (put k v m)"
  by (rule ext) (simp add: get_put)

lemma put_same: "get m k = Some v \<Longrightarrow> get (put k v m) = get m"
  by (rule ext) (simp add: get_put)

end

interpretation tbl: keyed_store map_of tbl_set tbl_remove
  by unfold_locales (auto simp: update_conv' delete_conv')

section \<open>Vectors\<close>

text \<open>\<^verbatim>\<open>iter().position(p)\<close>.\<close>

fun position :: "('a \<Rightarrow> bool) \<Rightarrow> 'a list \<Rightarrow> nat option" where
  "position P [] = None"
| "position P (x # xs) = (if P x then Some 0 else map_option Suc (position P xs))"

lemma position_None: "position P xs = None \<longleftrightarrow> (\<forall>x \<in> set xs. \<not> P x)"
  by (induction xs) auto

lemma position_Some: "position P xs = Some i \<Longrightarrow> i < length xs \<and> P (xs ! i)"
  by (induction xs arbitrary: i) (auto split: if_splits)

text \<open>\<^verbatim>\<open>swap_remove(i)\<close>: the last element takes the place of the removed one.\<close>

definition swap_remove :: "'a list \<Rightarrow> nat \<Rightarrow> 'a list" where
  "swap_remove xs i =
     (if Suc i = length xs then butlast xs else (butlast xs)[i := last xs])"

lemma length_swap_remove [simp]: "length (swap_remove xs i) = length xs - 1"
  by (simp add: swap_remove_def)

lemma mset_swap_remove:
  assumes "i < length xs"
  shows "mset xs = add_mset (xs ! i) (mset (swap_remove xs i))"
proof -
  from assms have ne: "xs \<noteq> []" by auto
  have split: "mset xs = add_mset (last xs) (mset (butlast xs))"
    by (subst append_butlast_last_id [OF ne, symmetric]) simp
  show ?thesis
  proof (cases "Suc i = length xs")
    case True
    then have "last xs = xs ! i" using ne by (simp add: last_conv_nth flip: True)
    then show ?thesis using split True by (simp add: swap_remove_def)
  next
    case False
    then have i: "i < length (butlast xs)" using assms by simp
    have "mset ((butlast xs)[i := last xs]) = add_mset (last xs) (mset (butlast xs) - {# butlast xs ! i #})"
      by (rule mset_update [OF i])
    moreover have "butlast xs ! i = xs ! i" by (rule nth_butlast [OF i])
    moreover have "butlast xs ! i \<in># mset (butlast xs)" using i by simp
    ultimately show ?thesis using split False by (simp add: swap_remove_def)
  qed
qed

lemma set_swap_remove: "i < length xs \<Longrightarrow> set (swap_remove xs i) \<subseteq> set xs"
  using mset_swap_remove [of i xs] by (metis set_mset_mset set_mset_add_mset_insert subset_insertI)

lemma distinct_map_swap_remove:
  assumes "i < length xs" and "distinct (map f xs)"
  shows "distinct (map f (swap_remove xs i)) \<and> f (xs ! i) \<notin> f ` set (swap_remove xs i)"
proof -
  have "mset (map f xs) = mset (map f (xs ! i # swap_remove xs i))"
    using mset_swap_remove [OF assms(1)] by simp
  from mset_eq_imp_distinct_iff [OF this] assms(2) show ?thesis by simp
qed

end
