(* ===== verification/FlowFrame.thy ===== *)
theory FlowFrame
  imports Bytes Tables Machine
begin

text \<open>
  The flow frames of \<^verbatim>\<open>backend/shared/flow_frame.rs\<close>, sending side: the 24-byte frame header,
  the flow identifier of a TCP packet, and the sequencer that numbers the frames of each flow.
\<close>

section \<open>Frame headers\<close>

definition FRAME_LEN :: nat where "FRAME_LEN = 24"
definition FRAME_MAGIC :: bytes where "FRAME_MAGIC = ascii ''CQF1''"
definition MAX_TRACKED_FLOWS :: nat where "MAX_TRACKED_FLOWS = 4096"

record frame_header =
  sender_id :: u64
  flow_id :: u64
  sequence :: u32

text \<open>\<^verbatim>\<open>encode\<close> writes into the caller's slice and says whether it did.\<close>

definition header_bytes :: "frame_header \<Rightarrow> bytes" where
  "header_bytes h = FRAME_MAGIC @ be64 (sender_id h) @ be64 (flow_id h) @ be32 (sequence h)"

definition header_encode :: "frame_header \<Rightarrow> bytes \<Rightarrow> bool \<times> bytes" where
  "header_encode h out =
     (if length out < FRAME_LEN then (False, out)
      else (True, header_bytes h @ drop FRAME_LEN out))"

definition header_decode :: "bytes \<Rightarrow> (frame_header \<times> bytes) option" where
  "header_decode packet =
     (if length packet < FRAME_LEN \<or> take 4 packet \<noteq> FRAME_MAGIC then None
      else Some (\<lparr>sender_id = of_be64 (sub_list packet 4 12),
                  flow_id = of_be64 (sub_list packet 12 20),
                  sequence = of_be32 (sub_list packet 20 24)\<rparr>,
                 drop FRAME_LEN packet))"

definition payload :: "bytes \<Rightarrow> bytes" where
  "payload packet = (case header_decode packet of None \<Rightarrow> packet | Some (_, rest) \<Rightarrow> rest)"

lemma length_FRAME_MAGIC [simp]: "length FRAME_MAGIC = 4"
  by (simp add: FRAME_MAGIC_def)

lemma length_header_bytes [simp]: "length (header_bytes h) = FRAME_LEN"
  by (simp add: header_bytes_def FRAME_LEN_def)

lemma sub_list_skip: "length p \<le> lo \<Longrightarrow> sub_list (p @ xs) lo hi = sub_list xs (lo - length p) (hi - length p)"
  by (simp add: sub_list_def)

lemma sub_list_whole: "length p = hi \<Longrightarrow> sub_list (p @ xs) 0 hi = p"
  by (simp add: sub_list_def)

lemma header_decode_encode: "header_decode (header_bytes h @ rest) = Some (h, rest)"
  by (simp add: header_decode_def header_bytes_def FRAME_LEN_def sub_list_skip sub_list_whole)

lemma header_decode_SomeD:
  assumes "header_decode packet = Some (h, rest)"
  shows "packet = header_bytes h @ rest"
proof -
  from assms have len: "24 \<le> length packet" and magic: "take 4 packet = FRAME_MAGIC"
    and h: "h = \<lparr>sender_id = of_be64 (sub_list packet 4 12),
        flow_id = of_be64 (sub_list packet 12 20), sequence = of_be32 (sub_list packet 20 24)\<rparr>"
    and rest: "rest = drop 24 packet"
    by (auto simp: header_decode_def FRAME_LEN_def split: if_splits)
  have "header_bytes h = take 4 packet @ sub_list packet 4 12 @ sub_list packet 12 20
          @ sub_list packet 20 24"
    using len by (simp add: header_bytes_def h magic be64_of_be64 be32_of_be32)
  also have "\<dots> = take (4 + (8 + (8 + 4))) packet"
    by (simp only: sub_list_def take_add drop_drop) (simp add: add.commute)
  finally show ?thesis by (simp add: rest)
qed

interpretation header_codec: wire_codec header_bytes header_decode FRAME_LEN
  by unfold_locales (rule length_header_bytes, rule header_decode_encode, simp add: header_decode_def)

section \<open>Flow identifiers\<close>

text \<open>An FNV-1a hash of the protocol, the addresses and the ports, finished by a mixer.\<close>

fun hash_bytes :: "u64 \<Rightarrow> bytes \<Rightarrow> u64" where
  "hash_bytes hash [] = hash"
| "hash_bytes hash (b # bs) = hash_bytes ((hash XOR ucast b) * 0x100000001b3) bs"

definition mix64 :: "u64 \<Rightarrow> u64" where
  "mix64 v0 =
     (let v1 = v0 XOR drop_bit 30 v0;
          v2 = v1 * 0xbf58476d1ce4e5b9;
          v3 = v2 XOR drop_bit 27 v2;
          v4 = v3 * 0x94d049bb133111eb
      in v4 XOR drop_bit 31 v4)"

text \<open>
  The match on the IP version: header length, protocol, source and destination. An absent
  result of the source is \<open>Fail ()\<close>; an index out of range would be \<open>Panic\<close>.
\<close>

definition ip_fields :: "bytes \<Rightarrow> (unit, nat \<times> byte \<times> bytes \<times> bytes) res" where
  "ip_fields packet =
     (if packet = [] then Inl (Fail ())
      else if drop_bit 4 (hd packet) = 4 then
        (if length packet < 20 then Inl (Fail ())
         else and_then (read_at packet 0) (\<lambda>b0.
           let header_len = unat (b0 AND 0x0f) * 4
           in if header_len < 20 \<or> length packet < header_len + 20 then Inl (Fail ())
              else and_then (read_at packet 9) (\<lambda>proto.
                   and_then (slice packet 12 16) (\<lambda>source.
                   and_then (slice packet 16 20) (\<lambda>destination.
                   Inr (header_len, proto, source, destination))))))
      else if drop_bit 4 (hd packet) = 6 then
        (if length packet < 60 then Inl (Fail ())
         else and_then (read_at packet 6) (\<lambda>proto.
              and_then (slice packet 8 24) (\<lambda>source.
              and_then (slice packet 24 40) (\<lambda>destination.
              Inr (40, proto, source, destination)))))
      else Inl (Fail ()))"

definition tcp_flow_id :: "bytes \<Rightarrow> (unit, u64) res" where
  "tcp_flow_id packet =
     and_then (ip_fields packet) (\<lambda>(header_len, proto, source, destination).
     if proto \<noteq> 6 then Inl (Fail ())
     else and_then (slice packet header_len (length packet)) (\<lambda>tcp.
     and_then (read_at tcp 12) (\<lambda>b12.
     let data_offset = unat (drop_bit 4 b12) * 4
     in if data_offset < 20 \<or> length tcp < data_offset then Inl (Fail ())
        else and_then (read_at tcp 13) (\<lambda>flags.
          if length tcp = data_offset \<and> flags AND 3 = 0 then Inl (Fail ())
          else and_then (slice tcp 0 4) (\<lambda>ports.
            Inr (mix64 (hash_bytes (hash_bytes (hash_bytes (hash_bytes
              0xcbf29ce484222325 [proto]) source) destination) ports)))))))"

text \<open>\<^verbatim>\<open>Option\<close> again, for the callers.\<close>

definition flow_of :: "bytes \<Rightarrow> u64 option" where
  "flow_of packet = (case tcp_flow_id packet of Inr f \<Rightarrow> Some f | Inl _ \<Rightarrow> None)"

lemma ip_fields_ok:
  "ip_fields packet = Inr (hl, proto, source, destination) \<Longrightarrow> hl + 20 \<le> length packet"
  by (auto simp: ip_fields_def and_then_Inr_conv Let_def read_at_def split: if_splits)

lemma ip_fields_no_panic: "no_panic (ip_fields packet)"
  by (auto simp: ip_fields_def Let_def)

lemma tcp_flow_id_no_panic: "no_panic (tcp_flow_id packet)"
  unfolding tcp_flow_id_def Let_def
  by (intro no_panic_and_then ip_fields_no_panic)
    (auto dest!: ip_fields_ok simp: Let_def)

section \<open>The sequencer\<close>

record flow_sequencer =
  fs_sender :: u64
  fs_sequences :: "(u64, u32) table"

definition with_sender_id :: "u64 \<Rightarrow> flow_sequencer" where
  "with_sender_id i = \<lparr>fs_sender = max i 1, fs_sequences = []\<rparr>"

definition forget_flows :: "u64 \<Rightarrow> flow_sequencer \<Rightarrow> flow_sequencer" where
  "forget_flows f s =
     (if length (fs_sequences s) = MAX_TRACKED_FLOWS \<and> \<not> tbl_has (fs_sequences s) f
      then \<lparr>fs_sender = max (mix64 (fs_sender s + 0x9e3779b97f4a7c15)) 1, fs_sequences = []\<rparr>
      else s)"

definition next_header :: "flow_sequencer \<Rightarrow> u64 \<Rightarrow> frame_header \<times> flow_sequencer" where
  "next_header s0 f =
     (let s = forget_flows f s0;
          n = tbl_get (fs_sequences s) f 0
      in (\<lparr>sender_id = fs_sender s, flow_id = f, sequence = n\<rparr>,
          s\<lparr>fs_sequences := tbl_set f (n + 1) (fs_sequences s)\<rparr>))"

definition next_frame :: "flow_sequencer \<Rightarrow> bytes \<Rightarrow> frame_header option \<times> flow_sequencer" where
  "next_frame s packet =
     (case flow_of packet of
        None \<Rightarrow> (None, s)
      | Some f \<Rightarrow> (let (h, s') = next_header s f in (Some h, s')))"

text \<open>The sequencer as a machine that reads packets and emits headers.\<close>

definition seq_step :: "flow_sequencer \<Rightarrow> bytes \<Rightarrow> flow_sequencer \<times> frame_header list" where
  "seq_step s packet =
     (case next_frame s packet of (None, s') \<Rightarrow> (s', []) | (Some h, s') \<Rightarrow> (s', [h]))"

definition sequencer_ok :: "flow_sequencer \<Rightarrow> bool" where
  "sequencer_ok s \<longleftrightarrow>
     tbl_ok (fs_sequences s) \<and> length (fs_sequences s) \<le> MAX_TRACKED_FLOWS \<and> fs_sender s \<noteq> 0"

lemma max_word_nonzero: "max (w :: u64) 1 \<noteq> 0"
  by (auto simp: max_def)

lemma sequencer_ok_new [simp]: "sequencer_ok (with_sender_id i)"
  by (simp add: sequencer_ok_def with_sender_id_def max_word_nonzero)

lemma sequencer_ok_forget: "sequencer_ok s \<Longrightarrow> sequencer_ok (forget_flows f s)"
  by (simp add: sequencer_ok_def forget_flows_def max_word_nonzero)

lemma forget_flows_room:
  "sequencer_ok s \<Longrightarrow> tbl_has (fs_sequences (forget_flows f s)) f
     \<or> length (fs_sequences (forget_flows f s)) < MAX_TRACKED_FLOWS"
  by (auto simp: sequencer_ok_def forget_flows_def MAX_TRACKED_FLOWS_def)

lemma sequencer_ok_next_header:
  assumes "sequencer_ok s" and "next_header s f = (h, s')"
  shows "sequencer_ok s'" and "sender_id h = fs_sender s'" and "sender_id h \<noteq> 0"
proof -
  have ok: "sequencer_ok (forget_flows f s)" by (rule sequencer_ok_forget [OF assms(1)])
  have h: "h = \<lparr>sender_id = fs_sender (forget_flows f s), flow_id = f,
        sequence = tbl_get (fs_sequences (forget_flows f s)) f 0\<rparr>"
    and s': "s' = (forget_flows f s)\<lparr>fs_sequences := tbl_set f (sequence h + 1)
        (fs_sequences (forget_flows f s))\<rparr>"
    using assms(2) by (auto simp: next_header_def Let_def)
  show "sequencer_ok s'"
    using ok forget_flows_room [OF assms(1), of f]
    by (auto simp: s' sequencer_ok_def length_tbl_set)
  show "sender_id h = fs_sender s'" and "sender_id h \<noteq> 0"
    using ok by (auto simp: h s' sequencer_ok_def)
qed

interpretation sequencer: machine seq_step sequencer_ok "\<lambda>h. sender_id h \<noteq> 0"
  by unfold_locales
    (auto simp: seq_step_def next_frame_def split: option.splits prod.splits
      dest: sequencer_ok_next_header)

text \<open>While the table has room for every flow of a run, no flow is forgotten.\<close>

definition tracked :: "flow_sequencer \<Rightarrow> u64 set" where
  "tracked s = fst ` set (fs_sequences s)"

definition packet_flows :: "bytes list \<Rightarrow> u64 set" where
  "packet_flows ps = {f. \<exists>p \<in> set ps. flow_of p = Some f}"

lemma packet_flows_simps [simp]:
  "packet_flows [] = {}"
  "packet_flows (p # ps) =
     (case flow_of p of None \<Rightarrow> packet_flows ps | Some f \<Rightarrow> insert f (packet_flows ps))"
  by (auto simp: packet_flows_def split: option.splits)

lemma finite_packet_flows [simp]: "finite (packet_flows ps)"
  by (induction ps) (auto split: option.splits)

lemma card_tracked: "sequencer_ok s \<Longrightarrow> card (tracked s) = length (fs_sequences s)"
  by (metis tracked_def sequencer_ok_def distinct_card length_map list.set_map)

lemma forget_flows_idle:
  assumes "sequencer_ok s" and "card (insert f (tracked s)) \<le> MAX_TRACKED_FLOWS"
  shows "forget_flows f s = s"
proof (cases "f \<in> tracked s")
  case True
  then show ?thesis by (simp add: forget_flows_def tbl_has_iff tracked_def)
next
  case False
  then have "length (fs_sequences s) < MAX_TRACKED_FLOWS"
    using assms card_tracked [OF assms(1)] by (simp add: tracked_def)
  then show ?thesis by (simp add: forget_flows_def)
qed

definition next_number :: "flow_sequencer \<Rightarrow> u64 \<Rightarrow> u32" where
  "next_number s f = tbl_get (fs_sequences s) f 0"

lemma next_header_idle:
  assumes "sequencer_ok s" and "card (insert f (tracked s)) \<le> MAX_TRACKED_FLOWS"
    and "next_header s f = (h, s')"
  shows "h = \<lparr>sender_id = fs_sender s, flow_id = f, sequence = next_number s f\<rparr>"
    and "fs_sender s' = fs_sender s" and "tracked s' = insert f (tracked s)"
    and "next_number s' g = (if g = f then next_number s f + 1 else next_number s g)"
proof -
  have hs: "h = \<lparr>sender_id = fs_sender s, flow_id = f, sequence = next_number s f\<rparr>"
      "s' = s\<lparr>fs_sequences := tbl_set f (next_number s f + 1) (fs_sequences s)\<rparr>"
    using assms(3)
    by (simp_all add: next_header_def forget_flows_idle [OF assms(1,2)] Let_def next_number_def)
  then show "h = \<lparr>sender_id = fs_sender s, flow_id = f, sequence = next_number s f\<rparr>"
    and "fs_sender s' = fs_sender s" and "tracked s' = insert f (tracked s)"
    and "next_number s' g = (if g = f then next_number s f + 1 else next_number s g)"
    by (simp_all add: tracked_def keys_tbl_set next_number_def tbl_get_set)
qed

definition flow_headers :: "u64 \<Rightarrow> frame_header list \<Rightarrow> frame_header list" where
  "flow_headers f hs = filter (\<lambda>h. flow_id h = f) hs"

definition numbered :: "u64 \<Rightarrow> u64 \<Rightarrow> u32 \<Rightarrow> nat \<Rightarrow> frame_header list" where
  "numbered i f start n =
     map (\<lambda>k. \<lparr>sender_id = i, flow_id = f, sequence = start + of_nat k\<rparr>) [0..<n]"

lemma numbered_Suc:
  "\<lparr>sender_id = i, flow_id = f, sequence = start\<rparr> # numbered i f (start + 1) n =
     numbered i f start (Suc n)"
  unfolding numbered_def
  by (subst upt_conv_Cons) (auto simp: map_Suc_upt [symmetric] add.assoc simp del: upt_Suc)

lemma seq_run_numbers:
  assumes "sequencer_ok s" and "card (tracked s \<union> packet_flows ps) \<le> MAX_TRACKED_FLOWS"
  shows "\<exists>n. flow_headers f (snd (run seq_step s ps)) = numbered (fs_sender s) f (next_number s f) n"
  using assms
proof (induction ps arbitrary: s)
  case Nil
  show ?case by (rule exI [of _ 0]) (simp add: flow_headers_def numbered_def)
next
  case (Cons p ps)
  show ?case
  proof (cases "flow_of p")
    case None
    then have "seq_step s p = (s, [])" by (simp add: seq_step_def next_frame_def)
    then show ?thesis using Cons None by (simp add: snd_run_Cons)
  next
    case (Some g)
    obtain h s' where hs: "next_header s g = (h, s')" by (cases "next_header s g")
    then have step: "seq_step s p = (s', [h])"
      by (simp add: seq_step_def next_frame_def Some)
    have "card (insert g (tracked s)) \<le> card (tracked s \<union> packet_flows (p # ps))"
      by (rule card_mono) (auto simp: Some tracked_def)
    then have room: "card (insert g (tracked s)) \<le> MAX_TRACKED_FLOWS"
      using Cons.prems(2) by simp
    note idle = next_header_idle [OF Cons.prems(1) room hs]
    have "tracked s' \<union> packet_flows ps = tracked s \<union> packet_flows (p # ps)"
      by (simp add: idle(3) Some)
    then obtain n where n: "flow_headers f (snd (run seq_step s' ps)) =
        numbered (fs_sender s') f (next_number s' f) n"
      using Cons.IH [OF sequencer_ok_next_header(1) [OF Cons.prems(1) hs]] Cons.prems(2) by auto
    have run: "snd (run seq_step s (p # ps)) = h # snd (run seq_step s' ps)"
      by (simp add: snd_run_Cons step)
    show ?thesis
    proof (cases "g = f")
      case True
      then have "flow_headers f (snd (run seq_step s (p # ps))) =
          numbered (fs_sender s) f (next_number s f) (Suc n)"
        using n by (simp add: run step flow_headers_def idle(1,2,4) numbered_Suc [symmetric])
      then show ?thesis by blast
    next
      case False
      then show ?thesis
        using n by (auto simp: run step flow_headers_def idle(1,2,4))
    qed
  qed
qed

text \<open>Until it has seen more flows than its table holds, the sequencer numbers the frames
  of every flow consecutively from zero, under one non-zero sender identifier, whatever other
  packets come in between.\<close>

theorem sequencer_numbers_flows:
  assumes "card (packet_flows ps) \<le> MAX_TRACKED_FLOWS"
  shows "\<exists>n. flow_headers f (snd (run seq_step (with_sender_id i) ps)) = numbered (max i 1) f 0 n"
  using seq_run_numbers [of "with_sender_id i" ps f] assms
  by (simp add: tracked_def with_sender_id_def next_number_def tbl_get_def
      sequencer_ok_new [unfolded with_sender_id_def])

definition sample_tcp :: bytes where
  "sample_tcp =
     [0x45, 0, 0, 41, 0, 0, 0, 0, 64, 6, 0, 0, 10, 0, 0, 2, 1, 1, 1, 1,
      3, 232, 1, 187, 0, 0, 0, 0, 0, 0, 0, 0, 0x50, 0x18, 0, 0, 0, 0, 0, 0, 42]"

theorem sequencer_numbers_flows_witness:
  "\<exists>n. flow_headers (the (flow_of sample_tcp))
       (snd (run seq_step (with_sender_id 7) [sample_tcp, sample_tcp]))
     = numbered 7 (the (flow_of sample_tcp)) 0 n"
proof -
  have "card (packet_flows [sample_tcp, sample_tcp]) \<le> MAX_TRACKED_FLOWS"
    by (auto simp: MAX_TRACKED_FLOWS_def split: option.splits)
  moreover have "max (7 :: u64) 1 = 7" by (simp add: max_def word_le_nat_alt)
  ultimately show ?thesis
    using sequencer_numbers_flows [of "[sample_tcp, sample_tcp]" "the (flow_of sample_tcp)" 7]
    by simp
qed

text \<open>Decoding never panics on hostile input, decodes exactly what encoding wrote into a
  large enough slice, and accepts nothing but frames that encoding can produce.\<close>

theorem frame_roundtrip:
  "header_encode h (replicate FRAME_LEN b @ rest) = (True, header_bytes h @ rest)
   \<and> header_decode (header_bytes h @ rest) = Some (h, rest)
   \<and> (header_decode packet = Some (h, rest) \<longleftrightarrow> packet = header_bytes h @ rest)
   \<and> payload (header_bytes h @ rest) = rest
   \<and> no_panic (tcp_flow_id packet)"
  using header_decode_SomeD [of packet h rest] tcp_flow_id_no_panic
  by (auto simp: header_encode_def header_decode_encode payload_def)

end
