(* ===== verification/Reassembly.thy ===== *)
theory Reassembly
  imports FlowFrame
begin

text \<open>
  The receiving side of \<^verbatim>\<open>backend/shared/flow_frame.rs\<close>: the reassembler that restores the
  order of the frames of each TCP flow, gives up on a gap after 12 ms, and bounds the frames it
  holds back. Times are milliseconds since the reassembler was made.
\<close>

definition MAX_PENDING_PER_FLOW :: nat where "MAX_PENDING_PER_FLOW = 96"
definition MAX_PENDING_TOTAL :: nat where "MAX_PENDING_TOTAL = 4096"
definition GAP_RELEASE_AFTER_MS :: nat where "GAP_RELEASE_AFTER_MS = 12"

type_synonym reassembly_key = "u64 \<times> u64"

record 'v pending =
  pend_seq :: u32
  pend_value :: 'v

record 'v flow_state =
  expected :: u32
  gap_started :: "nat option"
  held :: "'v pending list"

record 'v reassembler =
  flows :: "(reassembly_key, 'v flow_state) table"
  pending_total :: nat

definition new_flow :: "'v flow_state" where
  "new_flow = \<lparr>expected = 0, gap_started = None, held = []\<rparr>"

definition new_reassembler :: "'v reassembler" where
  "new_reassembler = \<lparr>flows = [], pending_total = 0\<rparr>"

definition is_forward :: "u32 \<Rightarrow> u32 \<Rightarrow> bool" where
  "is_forward s e \<longleftrightarrow> s \<noteq> e \<and> s - e < 2147483648"

section \<open>Releasing held frames\<close>

text \<open>
  \<^verbatim>\<open>drain_contiguous\<close> delivers held frames while the expected one is among them; every turn
  removes one.
\<close>

function drain_contiguous :: "'v flow_state \<Rightarrow> 'v flow_state \<times> 'v list" where
  "drain_contiguous st =
     (case position (\<lambda>p. pend_seq p = expected st) (held st) of
        None \<Rightarrow> (st, [])
      | Some i \<Rightarrow>
          let (st', out) = drain_contiguous
                (st\<lparr>held := swap_remove (held st) i, expected := expected st + 1\<rparr>)
          in (st', pend_value (held st ! i) # out))"
  by pat_completeness auto
termination
  by (relation "measure (\<lambda>st. length (held st))") (auto dest: position_Some)

declare drain_contiguous.simps [simp del]

text \<open>
  The index of the held frame closest ahead of the expected one: \<^verbatim>\<open>min_by_key\<close> over the
  forward frames, the first among equals.
\<close>

fun lowest_from :: "u32 \<Rightarrow> nat \<Rightarrow> 'v pending list \<Rightarrow> (nat \<times> u32) option" where
  "lowest_from e i [] = None"
| "lowest_from e i (p # ps) =
     (if is_forward (pend_seq p) e then
        (case lowest_from e (Suc i) ps of
           Some (j, d) \<Rightarrow> if d < pend_seq p - e then Some (j, d) else Some (i, pend_seq p - e)
         | None \<Rightarrow> Some (i, pend_seq p - e))
      else lowest_from e (Suc i) ps)"

definition release_lowest :: "nat \<Rightarrow> 'v flow_state \<Rightarrow> 'v flow_state \<times> 'v list" where
  "release_lowest now st =
     (case lowest_from (expected st) 0 (held st) of
        None \<Rightarrow> (st\<lparr>gap_started := None\<rparr>, [])
      | Some (i, _) \<Rightarrow>
          let p = held st ! i;
              (st', out) = drain_contiguous
                (st\<lparr>held := swap_remove (held st) i, expected := pend_seq p + 1,
                    gap_started := None\<rparr>)
          in (if held st' \<noteq> [] then st'\<lparr>gap_started := Some now\<rparr> else st', pend_value p # out))"

definition release_expired :: "nat \<Rightarrow> 'v flow_state \<Rightarrow> 'v flow_state \<times> 'v list" where
  "release_expired now st =
     (case gap_started st of
        Some started \<Rightarrow>
          if now - started \<ge> GAP_RELEASE_AFTER_MS then release_lowest now st else (st, [])
      | None \<Rightarrow> (st, []))"

section \<open>Pushing a frame\<close>

text \<open>
  After every release the total is lowered by as many frames as left the flow, both
  subtractions saturating.
\<close>

definition lower_total :: "nat \<Rightarrow> 'v flow_state \<Rightarrow> 'v flow_state \<Rightarrow> nat" where
  "lower_total n before after = n - (length (held before) - length (held after))"

definition with_frame :: "'v pending \<Rightarrow> 'v flow_state \<Rightarrow> 'v flow_state" where
  "with_frame p st = st\<lparr>held := held st @ [p]\<rparr>"

lemma with_frame_simps [simp]:
  "expected (with_frame p st) = expected st"
  "held (with_frame p st) = held st @ [p]"
  by (simp_all add: with_frame_def)

text \<open>The last part of \<^verbatim>\<open>push_at\<close>: the frame is held back.\<close>

definition hold_frame :: "nat \<Rightarrow> 'v flow_state \<Rightarrow> nat \<Rightarrow> u32 \<Rightarrow> 'v \<Rightarrow>
    'v flow_state \<times> nat \<times> 'v list" where
  "hold_frame now st0 total0 s v =
     (let st1 = with_frame \<lparr>pend_seq = s, pend_value = v\<rparr> st0;
          total1 = total0 + 1;
          (st2, out1) = (if total1 > MAX_PENDING_TOTAL then release_lowest now st1 else (st1, []));
          total2 = lower_total total1 st1 st2;
          st3 = (if gap_started st2 = None then st2\<lparr>gap_started := Some now\<rparr> else st2);
          (st4, out2) = release_expired now st3;
          total3 = lower_total total2 st3 st4
      in (st4, total3, out1 @ out2))"

text \<open>The middle part: a forward frame not held yet makes room, then is held.\<close>

definition make_room :: "nat \<Rightarrow> 'v flow_state \<Rightarrow> nat \<Rightarrow> u32 \<Rightarrow> 'v \<Rightarrow>
    'v flow_state \<times> nat \<times> 'v list" where
  "make_room now st0 total0 s v =
     (let (st1, out1) = (if length (held st0) = MAX_PENDING_PER_FLOW
                         then release_lowest now st0 else (st0, []));
          total1 = lower_total total0 st0 st1
      in if total1 = MAX_PENDING_TOTAL then
           (if held st1 = [] then
              (st1\<lparr>expected := s + 1, gap_started := None\<rparr>, total1, out1 @ [v])
            else
              let (st2, out2) = release_lowest now st1;
                  total2 = lower_total total1 st1 st2;
                  (st3, total3, out3) = hold_frame now st2 total2 s v
              in (st3, total3, out1 @ out2 @ out3))
         else
           let (st3, total3, out3) = hold_frame now st1 total1 s v
           in (st3, total3, out1 @ out3))"

definition push_flow :: "nat \<Rightarrow> 'v flow_state \<Rightarrow> nat \<Rightarrow> u32 \<Rightarrow> 'v \<Rightarrow>
    'v flow_state \<times> nat \<times> 'v list" where
  "push_flow now st0 total0 s v =
     (let (st1, out1) = release_expired now st0;
          total1 = lower_total total0 st0 st1
      in if s = expected st1 then
           let st2 = st1\<lparr>expected := expected st1 + 1, gap_started := None\<rparr>;
               (st3, out2) = drain_contiguous st2
           in (st3, lower_total total1 st2 st3, out1 @ v # out2)
         else if \<not> is_forward s (expected st1) \<or> list_ex (\<lambda>p. pend_seq p = s) (held st1) then
           (st1, total1, out1)
         else
           let (st2, total2, out2) = make_room now st1 total1 s v
           in (st2, total2, out1 @ out2))"

definition push_at :: "'v reassembler \<Rightarrow> frame_header \<Rightarrow> 'v \<Rightarrow> nat \<Rightarrow>
    'v reassembler \<times> 'v list" where
  "push_at r h v now =
     (let key = (sender_id h, flow_id h);
          r0 = (if length (flows r) = MAX_TRACKED_FLOWS \<and> \<not> tbl_has (flows r) key
                then new_reassembler else r);
          st = tbl_get (flows r0) key new_flow;
          (st', total1, out) = push_flow now st (pending_total r0) (sequence h) v
      in (\<lparr>flows = tbl_set key st' (flows r0), pending_total = total1\<rparr>, out))"

section \<open>What a release does\<close>

text \<open>Sequence numbers that go forward from the expected one, and the one expected after them.\<close>

fun advance :: "u32 \<Rightarrow> u32 list \<Rightarrow> u32 option" where
  "advance e [] = Some e"
| "advance e (s # ss) = (if s = e \<or> is_forward s e then advance (s + 1) ss else None)"

lemma advance_append:
  "advance e (xs @ ys) = (case advance e xs of None \<Rightarrow> None | Some e' \<Rightarrow> advance e' ys)"
  by (induction xs arbitrary: e) auto

text \<open>
  A delivery takes the delivered frames out of those held, and they go forward. The
  reassembler's releases are deliveries, and so is a push, of the state with the new frame.
\<close>

definition delivery :: "'v flow_state \<Rightarrow> 'v list \<Rightarrow> 'v flow_state \<Rightarrow> bool" where
  "delivery st out st' \<longleftrightarrow>
     (\<exists>ps. out = map pend_value ps \<and> mset (held st) = mset ps + mset (held st')
        \<and> advance (expected st) (map pend_seq ps) = Some (expected st'))"

lemma delivery_refl: "held st' = held st \<Longrightarrow> expected st' = expected st \<Longrightarrow> delivery st [] st'"
  by (auto simp: delivery_def)

lemma delivery_trans:
  "delivery a xs b \<Longrightarrow> delivery b ys c \<Longrightarrow> delivery a (xs @ ys) c"
  unfolding delivery_def
  by (elim exE conjE, rule_tac x = "ps @ psa" in exI) (simp add: advance_append ac_simps)

lemma delivery_frame: "delivery a xs b \<Longrightarrow> delivery (with_frame p a) xs (with_frame p b)"
  unfolding delivery_def by (elim exE, rule_tac x = ps in exI) simp

lemma delivery_one:
  assumes "mset (held a) = add_mset p (mset (held b))"
    and "pend_seq p = expected a \<or> is_forward (pend_seq p) (expected a)"
    and "expected b = pend_seq p + 1"
  shows "delivery a [pend_value p] b"
  unfolding delivery_def by (rule exI [of _ "[p]"]) (use assms in auto)

lemma delivery_length: "delivery a xs b \<Longrightarrow> length (held a) = length xs + length (held b)"
  unfolding delivery_def by (metis length_map mset_append size_mset length_append)

lemma delivery_mset:
  "delivery a xs b \<Longrightarrow>
     mset (map pend_value (held a)) = mset xs + mset (map pend_value (held b))"
  unfolding delivery_def by auto

lemma delivery_drain: "drain_contiguous st = (st', out) \<Longrightarrow> delivery st out st'"
proof (induction st arbitrary: st' out rule: drain_contiguous.induct)
  case (1 st)
  show ?case
  proof (cases "position (\<lambda>p. pend_seq p = expected st) (held st)")
    case None
    then show ?thesis using "1.prems"
      by (simp add: drain_contiguous.simps [of st] delivery_refl)
  next
    case (Some i)
    let ?st1 = "st\<lparr>held := swap_remove (held st) i, expected := expected st + 1\<rparr>"
    obtain st2 out2 where rest: "drain_contiguous ?st1 = (st2, out2)" by fastforce
    have res: "st' = st2" "out = pend_value (held st ! i) # out2"
      using "1.prems" by (simp_all add: drain_contiguous.simps [of st] Some rest)
    have at: "i < length (held st)" "pend_seq (held st ! i) = expected st"
      using position_Some [OF Some] by simp_all
    have "delivery st [pend_value (held st ! i)] ?st1"
      by (rule delivery_one) (use at mset_swap_remove [OF at(1)] in simp_all)
    from delivery_trans [OF this "1.IH" [OF Some rest]] show ?thesis by (simp add: res)
  qed
qed

lemma lowest_from_Some:
  "lowest_from e i ps = Some (j, d) \<Longrightarrow>
     i \<le> j \<and> j - i < length ps \<and> is_forward (pend_seq (ps ! (j - i))) e
     \<and> d = pend_seq (ps ! (j - i)) - e"
proof (induction e i ps arbitrary: j d rule: lowest_from.induct)
  case (2 e i p ps)
  have tail: ?case if "lowest_from e (Suc i) ps = Some (j, d)"
  proof -
    from "2.IH" [of j d] that have ih: "Suc i \<le> j" "j - Suc i < length ps"
      "is_forward (pend_seq (ps ! (j - Suc i))) e" "d = pend_seq (ps ! (j - Suc i)) - e"
      by (cases "is_forward (pend_seq p) e"; auto)+
    then have "j - i = Suc (j - Suc i)" by simp
    then show ?thesis using ih by simp
  qed
  show ?case
    using "2.prems" tail by (auto split: if_splits option.splits)
qed simp

lemma lowest_from_None:
  "lowest_from e i ps = None \<longleftrightarrow> (\<forall>p \<in> set ps. \<not> is_forward (pend_seq p) e)"
  by (induction e i ps rule: lowest_from.induct) (auto split: option.splits)

lemma lowest_from_min:
  "lowest_from e i ps = Some (j, d) \<Longrightarrow> p \<in> set ps \<Longrightarrow> is_forward (pend_seq p) e \<Longrightarrow>
     d \<le> pend_seq p - e"
proof (induction e i ps arbitrary: j d rule: lowest_from.induct)
  case (2 e i q ps)
  then show ?case
    by (auto split: if_splits option.splits simp: lowest_from_None)
qed simp

lemma delivery_lowest:
  assumes "release_lowest now st = (st', out)"
  shows "delivery st out st'"
    and "out = [] \<Longrightarrow> (\<forall>p \<in> set (held st). \<not> is_forward (pend_seq p) (expected st))
       \<and> held st' = held st \<and> expected st' = expected st"
proof -
  have "delivery st out st' \<and> (out = [] \<longrightarrow>
      (\<forall>p \<in> set (held st). \<not> is_forward (pend_seq p) (expected st))
      \<and> held st' = held st \<and> expected st' = expected st)"
  proof (cases "lowest_from (expected st) 0 (held st)")
    case None
    then have "st' = st\<lparr>gap_started := None\<rparr>" and "out = []"
      using assms by (simp_all add: release_lowest_def)
    then show ?thesis
      using None [unfolded lowest_from_None] by (simp add: delivery_refl)
  next
    case (Some r)
    obtain i d where r: "r = (i, d)" by (cases r)
    let ?p = "held st ! i"
    let ?st1 = "st\<lparr>held := swap_remove (held st) i, expected := pend_seq ?p + 1,
        gap_started := None\<rparr>"
    obtain st2 out2 where drain: "drain_contiguous ?st1 = (st2, out2)" by fastforce
    have at: "i < length (held st)" "is_forward (pend_seq ?p) (expected st)"
      using lowest_from_Some [OF Some [unfolded r]] by simp_all
    have "delivery st [pend_value ?p] ?st1"
      by (rule delivery_one) (use at mset_swap_remove [OF at(1)] in simp_all)
    from delivery_trans [OF this delivery_drain [OF drain]]
    have "delivery st (pend_value ?p # out2) st2" by simp
    moreover have "out = pend_value ?p # out2" and "held st' = held st2"
      and "expected st' = expected st2"
      using assms by (auto simp: release_lowest_def Some r Let_def drain split: if_splits)
    ultimately show ?thesis by (simp add: delivery_def)
  qed
  then show "delivery st out st'"
    and "out = [] \<Longrightarrow> (\<forall>p \<in> set (held st). \<not> is_forward (pend_seq p) (expected st))
       \<and> held st' = held st \<and> expected st' = expected st" by blast+
qed

lemma delivery_expired: "release_expired now st = (st', out) \<Longrightarrow> delivery st out st'"
  by (auto simp: release_expired_def delivery_refl dest: delivery_lowest(1)
      split: option.splits if_splits)

section \<open>What a push does\<close>

text \<open>The bookkeeping of one flow: the total moves with the frames the flow holds.\<close>

definition tallied :: "'v flow_state \<Rightarrow> nat \<Rightarrow> 'v flow_state \<Rightarrow> nat \<Rightarrow> bool" where
  "tallied st n st' n' \<longleftrightarrow> length (held st) \<le> n \<and> n' + length (held st) = n + length (held st')"

lemma tallied_lower:
  "delivery st out st' \<Longrightarrow> length (held st) \<le> n \<Longrightarrow> tallied st n st' (lower_total n st st')"
  using delivery_length [of st out st'] by (simp add: tallied_def lower_total_def)

lemma lower_total_delivery:
  "delivery st out st' \<Longrightarrow> lower_total n st st' = n - length out"
  using delivery_length [of st out st'] by (simp add: lower_total_def)

lemma hold_frame_delivery:
  assumes "hold_frame now st n s v = (st', n', out)" and "length (held st) \<le> n"
    and "is_forward s (expected st) \<or> n < MAX_PENDING_TOTAL" and "n \<le> MAX_PENDING_TOTAL"
  shows "delivery (with_frame \<lparr>pend_seq = s, pend_value = v\<rparr> st) out st'
    \<and> n' + length out = n + 1 \<and> n' \<le> MAX_PENDING_TOTAL"
proof -
  let ?p = "\<lparr>pend_seq = s, pend_value = v\<rparr>"
  let ?st1 = "with_frame ?p st"
  obtain st2 out1 where r1: "(if n + 1 > MAX_PENDING_TOTAL then release_lowest now ?st1
      else (?st1, [])) = (st2, out1)" by fastforce
  let ?st3 = "if gap_started st2 = None then st2\<lparr>gap_started := Some now\<rparr> else st2"
  obtain st4 out2 where r2: "release_expired now ?st3 = (st4, out2)" by fastforce
  have d1: "delivery ?st1 out1 st2"
    using r1 delivery_lowest(1) [of now ?st1] by (auto simp: delivery_refl split: if_splits)
  have d12: "delivery st2 [] ?st3" by (simp add: delivery_refl)
  have d2: "delivery ?st3 out2 st4" by (rule delivery_expired [OF r2])
  have res: "st' = st4" "out = out1 @ out2"
      "n' = lower_total (lower_total (n + 1) ?st1 st2) ?st3 st4"
    using assms(1) by (auto simp only: hold_frame_def Let_def r1 r2 prod.case prod.inject)
  have d: "delivery ?st1 (out1 @ out2) st4"
    using delivery_trans [OF delivery_trans [OF d1 d12] d2] by simp
  have n': "n' = n + 1 - length out1 - length out2"
    by (simp add: res lower_total_delivery [OF d1] lower_total_delivery [OF d2])
  have "n' + length out = n + 1"
    using delivery_length [OF d] assms(2) by (simp add: n' res)
  moreover have "n' \<le> MAX_PENDING_TOTAL"
  proof (cases "n < MAX_PENDING_TOTAL")
    case False
    then have fwd: "is_forward s (expected st)" and "release_lowest now ?st1 = (st2, out1)"
      using assms(3,4) r1 by auto
    then have "out1 \<noteq> []" using delivery_lowest(2) [of now ?st1 st2 out1] by auto
    then show ?thesis using assms(4) by (cases out1) (auto simp: n')
  qed (simp add: n')
  ultimately show ?thesis using d by (simp add: res)
qed

text \<open>
  Making room and holding the frame: the new frame joins those held, and what goes out is a
  delivery of them all.
\<close>

lemma make_room_delivery:
  assumes "make_room now st n s v = (st', n', out)" and "length (held st) \<le> n"
    and "is_forward s (expected st)" and "n \<le> MAX_PENDING_TOTAL"
  shows "delivery (with_frame \<lparr>pend_seq = s, pend_value = v\<rparr> st) out st'
    \<and> n' + length out = n + 1 \<and> n' \<le> MAX_PENDING_TOTAL"
proof -
  let ?p = "\<lparr>pend_seq = s, pend_value = v\<rparr>"
  obtain st1 out1 where r1: "(if length (held st) = MAX_PENDING_PER_FLOW
      then release_lowest now st else (st, [])) = (st1, out1)" by fastforce
  let ?n1 = "lower_total n st st1"
  obtain st2 out2 where r2: "release_lowest now st1 = (st2, out2)" by fastforce
  let ?n2 = "lower_total ?n1 st1 st2"
  obtain st3 n3 out3 where h1: "hold_frame now st1 ?n1 s v = (st3, n3, out3)" by (metis prod_cases3)
  obtain st4 n4 out4 where h2: "hold_frame now st2 ?n2 s v = (st4, n4, out4)" by (metis prod_cases3)
  have d1: "delivery st out1 st1"
    using r1 delivery_lowest(1) [of now st] by (auto simp: delivery_refl split: if_splits)
  have n1: "?n1 + length out1 = n" "length (held st1) \<le> ?n1"
    using delivery_length [OF d1] assms(2) by (simp_all add: lower_total_delivery [OF d1])
  have d2: "delivery st1 out2 st2" by (rule delivery_lowest(1) [OF r2])
  have n2: "?n2 + length out2 = ?n1" "length (held st2) \<le> ?n2"
    using delivery_length [OF d2] n1(2) by (simp_all add: lower_total_delivery [OF d2])
  have still: "out1 = [] \<Longrightarrow> expected st1 = expected st \<and> held st1 = held st"
    using r1 delivery_lowest(2) [of now st st1 out1] by (cases "length (held st) = MAX_PENDING_PER_FLOW") simp_all
  show ?thesis
  proof (cases "?n1 = MAX_PENDING_TOTAL")
    case False
    then have "?n1 < MAX_PENDING_TOTAL" using n1(1) assms(4) by simp
    then have h: "delivery (with_frame ?p st1) out3 st3 \<and> n3 + length out3 = ?n1 + 1
        \<and> n3 \<le> MAX_PENDING_TOTAL"
      by (intro hold_frame_delivery [OF h1 n1(2)]) simp_all
    have res: "st' = st3" "n' = n3" "out = out1 @ out3"
      using assms(1) False by (simp_all add: make_room_def r1 h1 Let_def)
    show ?thesis
      using delivery_trans [OF delivery_frame [OF d1, of ?p]] h n1(1) by (auto simp: res)
  next
    case True
    then have "out1 = []" using n1(1) assms(4) by (cases out1) simp_all
    note same = still [OF this]
    show ?thesis
    proof (cases "held st1 = []")
      case empty: True
      have res: "st' = st1\<lparr>expected := s + 1, gap_started := None\<rparr>" "n' = ?n1" "out = [v]"
        using assms(1) True empty by (simp_all add: make_room_def r1 Let_def \<open>out1 = []\<close>)
      have "delivery (with_frame ?p st) [pend_value ?p] st'"
        by (rule delivery_one) (use same empty assms(3) in \<open>simp_all add: res\<close>)
      then show ?thesis using n1(1) True \<open>out1 = []\<close> by (simp add: res)
    next
      case False
      have "is_forward s (expected st2) \<or> ?n2 < MAX_PENDING_TOTAL"
        using delivery_lowest(2) [OF r2] same assms(3) n2(1) True by (cases out2) auto
      then have h: "delivery (with_frame ?p st2) out4 st4 \<and> n4 + length out4 = ?n2 + 1
          \<and> n4 \<le> MAX_PENDING_TOTAL"
        using n2(1) True by (intro hold_frame_delivery [OF h2 n2(2)]) simp_all
      have res: "st' = st4" "n' = n4" "out = out2 @ out4"
        using assms(1) True False 
        by (simp_all add: make_room_def r1 r2 h2 [unfolded True] Let_def \<open>out1 = []\<close>)
      have "delivery (with_frame ?p st) (out2 @ out4) st4"
        using delivery_trans [OF delivery_frame [OF delivery_trans [OF d1 d2], of ?p]] h
        by (simp add: \<open>out1 = []\<close>)
      then show ?thesis using h n1(1) n2(1) True \<open>out1 = []\<close> by (simp add: res)
    qed
  qed
qed

text \<open>
  A push either drops the frame and delivers frames held, or adds it to them and delivers.
\<close>

lemma push_flow_delivery:
  assumes "push_flow now st n s v = (st', n', out)" and "length (held st) \<le> n"
    and "n \<le> MAX_PENDING_TOTAL"
  shows "(delivery st out st' \<and> n' + length out = n
      \<or> delivery (with_frame \<lparr>pend_seq = s, pend_value = v\<rparr> st) out st' \<and> n' + length out = n + 1)
    \<and> n' \<le> MAX_PENDING_TOTAL"
proof -
  let ?p = "\<lparr>pend_seq = s, pend_value = v\<rparr>"
  obtain st1 out1 where r1: "release_expired now st = (st1, out1)" by fastforce
  let ?n1 = "lower_total n st st1"
  have d1: "delivery st out1 st1" by (rule delivery_expired [OF r1])
  have n1: "?n1 + length out1 = n" "length (held st1) \<le> ?n1"
    using delivery_length [OF d1] assms(2) by (simp_all add: lower_total_delivery [OF d1])
  show ?thesis
  proof (cases "s = expected st1")
    case True
    let ?st2 = "st1\<lparr>expected := expected st1 + 1, gap_started := None\<rparr>"
    obtain st3 out2 where r2: "drain_contiguous ?st2 = (st3, out2)" by fastforce
    have res: "st' = st3" "n' = lower_total ?n1 ?st2 st3" "out = out1 @ v # out2"
      using assms(1) True by (auto simp: push_flow_def r1 r2 Let_def)
    have d2: "delivery ?st2 out2 st3" by (rule delivery_drain [OF r2])
    have "delivery (with_frame ?p st1) [pend_value ?p] ?st2"
      by (rule delivery_one) (simp_all add: True)
    from delivery_trans [OF delivery_frame [OF d1, of ?p] delivery_trans [OF this d2]]
    have "delivery (with_frame ?p st) (out1 @ v # out2) st3" by simp
    moreover have "n' + length out = n + 1"
      using n1 delivery_length [OF d2] by (simp add: res lower_total_delivery [OF d2])
    moreover have "n' \<le> MAX_PENDING_TOTAL"
      using n1 assms(3) by (simp add: res lower_total_delivery [OF d2])
    ultimately show ?thesis by (simp add: res)
  next
    case False
    show ?thesis
    proof (cases "\<not> is_forward s (expected st1) \<or> list_ex (\<lambda>p. pend_seq p = s) (held st1)")
      case True
      then have "st' = st1" "n' = ?n1" "out = out1"
        using assms(1) False by (auto simp: push_flow_def r1 Let_def)
      then show ?thesis using d1 n1(1) assms(3) by simp
    next
      case new: False
      obtain st2 n2 out2 where m: "make_room now st1 ?n1 s v = (st2, n2, out2)"
        by (metis prod_cases3)
      have res: "st' = st2" "n' = n2" "out = out1 @ out2"
        using assms(1) False new by (simp_all add: push_flow_def r1 Let_def m)
      have h: "delivery (with_frame ?p st1) out2 st2 \<and> n2 + length out2 = ?n1 + 1
          \<and> n2 \<le> MAX_PENDING_TOTAL"
        using new n1 assms(3) by (intro make_room_delivery [OF m]) auto
      show ?thesis
        using delivery_trans [OF delivery_frame [OF d1, of ?p]] h n1(1) by (auto simp: res)
    qed
  qed
qed

section \<open>The table of flows\<close>

definition held_count :: "'v flow_state \<Rightarrow> nat" where
  "held_count st = length (held st)"

definition reassembler_ok :: "'v reassembler \<Rightarrow> bool" where
  "reassembler_ok r \<longleftrightarrow>
     tbl_ok (flows r) \<and> length (flows r) \<le> MAX_TRACKED_FLOWS
     \<and> pending_total r = tbl_sum held_count (flows r) \<and> pending_total r \<le> MAX_PENDING_TOTAL"

definition forget_all :: "reassembly_key \<Rightarrow> 'v reassembler \<Rightarrow> 'v reassembler" where
  "forget_all key r =
     (if length (flows r) = MAX_TRACKED_FLOWS \<and> \<not> tbl_has (flows r) key
      then new_reassembler else r)"

definition flow_at :: "'v reassembler \<Rightarrow> reassembly_key \<Rightarrow> 'v flow_state" where
  "flow_at r key = tbl_get (flows r) key new_flow"

definition frame_key :: "frame_header \<Rightarrow> reassembly_key" where
  "frame_key h = (sender_id h, flow_id h)"

lemma push_at_eq:
  assumes "push_flow now (flow_at (forget_all (frame_key h) r) (frame_key h))
      (pending_total (forget_all (frame_key h) r)) (sequence h) v = (st', n', out)"
  shows "push_at r h v now =
     (\<lparr>flows = tbl_set (frame_key h) st' (flows (forget_all (frame_key h) r)), pending_total = n'\<rparr>, out)"
  using assms by (simp add: push_at_def Let_def flow_at_def forget_all_def frame_key_def)

lemma reassembler_ok_new [simp]: "reassembler_ok new_reassembler"
  by (simp add: reassembler_ok_def new_reassembler_def)

lemma reassembler_ok_forget: "reassembler_ok r \<Longrightarrow> reassembler_ok (forget_all key r)"
  by (simp add: forget_all_def)

lemma forget_all_room:
  "reassembler_ok r \<Longrightarrow> tbl_has (flows (forget_all key r)) key
     \<or> length (flows (forget_all key r)) < MAX_TRACKED_FLOWS"
  by (auto simp: reassembler_ok_def forget_all_def new_reassembler_def MAX_TRACKED_FLOWS_def)

lemma flow_at_le:
  "reassembler_ok r \<Longrightarrow> length (held (flow_at r key)) \<le> pending_total r"
  using tbl_sum_ge [of "flows r" key _ held_count]
  by (auto simp: reassembler_ok_def flow_at_def tbl_get_def new_flow_def held_count_def
      split: option.splits)

lemma tbl_sum_flow_at:
  "tbl_sum held_count (tbl_set key st (flows r)) + length (held (flow_at r key)) =
     tbl_sum held_count (flows r) + length (held st)"
  using tbl_sum_set_new [of "flows r" key held_count st]
    tbl_sum_set_old [of "flows r" key _ held_count st]
  by (auto simp: flow_at_def tbl_get_def new_flow_def held_count_def split: option.splits)

lemma push_at_cases:
  assumes ok: "reassembler_ok r" and push: "push_at r h v now = (r', out)"
  obtains st' where "flows r' = tbl_set (frame_key h) st' (flows (forget_all (frame_key h) r))"
    and "delivery (flow_at (forget_all (frame_key h) r) (frame_key h)) out st'
      \<or> delivery (with_frame \<lparr>pend_seq = sequence h, pend_value = v\<rparr>
            (flow_at (forget_all (frame_key h) r) (frame_key h))) out st'"
    and "reassembler_ok r'"
proof -
  let ?k = "frame_key h"
  let ?r0 = "forget_all ?k r"
  let ?st = "flow_at ?r0 ?k"
  have ok0: "reassembler_ok ?r0" by (rule reassembler_ok_forget [OF ok])
  obtain st' n' out' where pf: "push_flow now ?st (pending_total ?r0) (sequence h) v = (st', n', out')"
    by (metis prod_cases3)
  from push_at_eq [OF pf] push
  have r': "flows r' = tbl_set ?k st' (flows ?r0)" "pending_total r' = n'" and out: "out = out'"
    by auto
  have d: "(delivery ?st out st' \<and> n' + length out = pending_total ?r0
      \<or> delivery (with_frame \<lparr>pend_seq = sequence h, pend_value = v\<rparr> ?st) out st'
         \<and> n' + length out = pending_total ?r0 + 1) \<and> n' \<le> MAX_PENDING_TOTAL"
    using push_flow_delivery [OF pf flow_at_le [OF ok0]] ok0
    by (simp add: out reassembler_ok_def)
  then have "n' + length (held ?st) = pending_total ?r0 + length (held st')"
    by (auto dest!: delivery_length)
  then have "pending_total r' = tbl_sum held_count (flows r')"
    using tbl_sum_flow_at [of ?k st' ?r0] ok0 by (simp add: r' reassembler_ok_def)
  then have "reassembler_ok r'"
    using ok0 d forget_all_room [OF ok, of ?k]
    by (auto simp: reassembler_ok_def r' length_tbl_set)
  with that r'(1) d show ?thesis by blast
qed

type_synonym 'v arrival = "frame_header \<times> 'v \<times> nat"

fun push_step :: "'v reassembler \<Rightarrow> 'v arrival \<Rightarrow> 'v reassembler \<times> 'v list" where
  "push_step r (h, v, now) = push_at r h v now"

interpretation reassembly: machine push_step reassembler_ok "\<lambda>_. True"
proof unfold_locales
  show "reassembler_ok (fst (push_step r l))" if "reassembler_ok r" for r :: "'a reassembler" and l
  proof -
    obtain h v now where l: "l = (h, v, now)" by (metis prod_cases3)
    obtain r' out where p: "push_at r h v now = (r', out)" by fastforce
    from push_at_cases [OF that p] p show ?thesis by (auto simp: l)
  qed
qed (simp add: list.pred_True)

text \<open>However frames arrive, the reassembler tracks at most 4096 flows, holds back at most
  4096 frames, and its running total is exactly the number of frames its flows hold.\<close>

theorem reassembler_bounds:
  "length (flows (fst (run push_step new_reassembler arrivals))) \<le> MAX_TRACKED_FLOWS
   \<and> pending_total (fst (run push_step new_reassembler arrivals)) \<le> MAX_PENDING_TOTAL
   \<and> pending_total (fst (run push_step new_reassembler arrivals)) =
       tbl_sum held_count (flows (fst (run push_step new_reassembler arrivals)))"
  using reassembly.run_inv [OF reassembler_ok_new, of arrivals] by (simp add: reassembler_ok_def)

section \<open>Order of delivery\<close>

text \<open>
  To speak of the order of deliveries, frames carry their own header as (part of) their value.
\<close>

definition labelled :: "(frame_header \<times> 'a) reassembler \<Rightarrow> bool" where
  "labelled r \<longleftrightarrow>
     (\<forall>key. \<forall>p \<in> set (held (flow_at r key)).
        frame_key (fst (pend_value p)) = key \<and> sequence (fst (pend_value p)) = pend_seq p)"

fun labelled_step :: "(frame_header \<times> 'a) reassembler \<Rightarrow> frame_header \<times> 'a \<times> nat \<Rightarrow>
    (frame_header \<times> 'a) reassembler \<times> (frame_header \<times> 'a) list" where
  "labelled_step r (h, d, now) = push_at r h (h, d) now"

definition of_key :: "reassembly_key \<Rightarrow> (frame_header \<times> 'a) list \<Rightarrow> (frame_header \<times> 'a) list" where
  "of_key key xs = filter (\<lambda>x. frame_key (fst x) = key) xs"

definition flow_sequences :: "reassembly_key \<Rightarrow> (frame_header \<times> 'a) list \<Rightarrow> u32 list" where
  "flow_sequences key out = map (sequence \<circ> fst) (of_key key out)"

definition arrival_keys :: "(frame_header \<times> 'b) list \<Rightarrow> reassembly_key set" where
  "arrival_keys arrivals = (frame_key \<circ> fst) ` set arrivals"

lemma flow_at_push:
  "flows r' = tbl_set key st' (flows r) \<Longrightarrow>
     flow_at r' k = (if k = key then st' else flow_at r k)"
  by (simp add: flow_at_def tbl_get_set)

lemma labelled_new [simp]: "labelled new_reassembler"
  by (simp add: labelled_def flow_at_def new_reassembler_def tbl_get_def new_flow_def)

lemma flow_at_new [simp]: "flow_at new_reassembler key = new_flow"
  by (simp add: flow_at_def new_reassembler_def tbl_get_def)

lemma labelled_delivery:
  assumes del: "delivery st out st'"
    and lab: "\<And>p. p \<in> set (held st) \<Longrightarrow>
      frame_key (fst (pend_value p)) = key \<and> sequence (fst (pend_value p)) = pend_seq p"
  shows "\<And>p. p \<in> set (held st') \<Longrightarrow>
      frame_key (fst (pend_value p)) = key \<and> sequence (fst (pend_value p)) = pend_seq p"
    and "advance (expected st) (flow_sequences key out) = Some (expected st')"
    and "of_key k out = (if k = key then out else [])"
proof -
  from del obtain ps where out: "out = map pend_value ps"
    and ms: "mset (held st) = mset ps + mset (held st')"
    and adv: "advance (expected st) (map pend_seq ps) = Some (expected st')"
    by (auto simp: delivery_def)
  from arg_cong [OF ms, of set_mset] have sub: "set (held st) = set ps \<union> set (held st')" by simp
  then show "frame_key (fst (pend_value p)) = key \<and> sequence (fst (pend_value p)) = pend_seq p"
    if "p \<in> set (held st')" for p using lab that by blast
  have ps: "frame_key (fst (pend_value p)) = key \<and> sequence (fst (pend_value p)) = pend_seq p"
    if "p \<in> set ps" for p using lab that sub by blast
  have "of_key key out = out"
    using ps by (auto simp: out of_key_def filter_id_conv)
  then have "flow_sequences key out = map pend_seq ps"
    using ps by (simp add: flow_sequences_def out)
  then show "advance (expected st) (flow_sequences key out) = Some (expected st')"
    using adv by simp
  show "of_key k out = (if k = key then out else [])"
    using ps by (auto simp: of_key_def out filter_empty_conv filter_id_conv)
qed

lemma labelled_push:
  assumes ok: "reassembler_ok r" and lab: "labelled r" and push: "push_at r h (h, d) now = (r', out)"
    and idle: "forget_all (frame_key h) r = r"
  shows "labelled r'" and "reassembler_ok r'"
    and "advance (expected (flow_at r key)) (flow_sequences key out) = Some (expected (flow_at r' key))"
    and "fst ` set (flows r') = insert (frame_key h) (fst ` set (flows r))"
    and "mset (of_key key out) + mset (map pend_value (held (flow_at r' key))) \<subseteq>#
      mset (map pend_value (held (flow_at r key))) + mset (of_key key [(h, d)])"
proof -
  let ?k = "frame_key h"
  let ?p = "\<lparr>pend_seq = sequence h, pend_value = (h, d)\<rparr>"
  obtain st' where st': "flows r' = tbl_set ?k st' (flows r)" and ok': "reassembler_ok r'"
    and del: "delivery (flow_at r ?k) out st' \<or> delivery (with_frame ?p (flow_at r ?k)) out st'"
    using push_at_cases [OF ok push] by (auto simp: idle)
  have at: "flow_at r' k = (if k = ?k then st' else flow_at r k)" for k
    by (rule flow_at_push [OF st'])
  have lab0: "frame_key (fst (pend_value p)) = ?k \<and> sequence (fst (pend_value p)) = pend_seq p"
    if "p \<in> set (held (flow_at r ?k))" for p
    using lab that unfolding labelled_def by blast
  have lab1: "frame_key (fst (pend_value p)) = ?k \<and> sequence (fst (pend_value p)) = pend_seq p"
    if "p \<in> set (held (with_frame ?p (flow_at r ?k)))" for p
    using lab0 that by auto
  have res: "(\<forall>p \<in> set (held st'). frame_key (fst (pend_value p)) = ?k
        \<and> sequence (fst (pend_value p)) = pend_seq p)
      \<and> advance (expected (flow_at r ?k)) (flow_sequences ?k out) = Some (expected st')
      \<and> (\<forall>k. of_key k out = (if k = ?k then out else []))"
    using del
  proof
    assume d: "delivery (flow_at r ?k) out st'"
    show ?thesis using labelled_delivery [OF d lab0] by blast
  next
    assume d: "delivery (with_frame ?p (flow_at r ?k)) out st'"
    show ?thesis using labelled_delivery [OF d lab1] unfolding with_frame_simps by blast
  qed
  show "labelled r'" using res lab by (auto simp: labelled_def at)
  show "reassembler_ok r'" by (rule ok')
  have key: "of_key key out = (if key = ?k then out else [])" using res by blast
  show "advance (expected (flow_at r key)) (flow_sequences key out) = Some (expected (flow_at r' key))"
    using res key by (auto simp: at flow_sequences_def)
  show "fst ` set (flows r') = insert ?k (fst ` set (flows r))"
    by (simp add: st' keys_tbl_set)
  have "mset out + mset (map pend_value (held st')) \<subseteq>#
      mset (map pend_value (held (flow_at r ?k))) + {# (h, d) #}"
    using del
  proof
    assume d: "delivery (flow_at r ?k) out st'"
    show ?thesis using delivery_mset [OF d] by (simp add: subseteq_mset_def)
  next
    assume d: "delivery (with_frame ?p (flow_at r ?k)) out st'"
    show ?thesis using delivery_mset [OF d] by simp
  qed
  then show "mset (of_key key out) + mset (map pend_value (held (flow_at r' key))) \<subseteq>#
      mset (map pend_value (held (flow_at r key))) + mset (of_key key [(h, d)])"
    using key by (auto simp: at) (auto simp: of_key_def)
qed

text \<open>While the table has room for every flow that arrives, no flow is forgotten.\<close>

lemma forget_all_idle:
  assumes "reassembler_ok r" and "card (insert key (fst ` set (flows r))) \<le> MAX_TRACKED_FLOWS"
  shows "forget_all key r = r"
proof (cases "tbl_has (flows r) key")
  case False
  have "card (fst ` set (flows r)) = length (flows r)"
    using assms(1) by (metis reassembler_ok_def distinct_card length_map list.set_map)
  then have "length (flows r) < MAX_TRACKED_FLOWS"
    using assms(2) False by (simp add: tbl_has_iff)
  then show ?thesis by (simp add: forget_all_def)
qed (simp add: forget_all_def)

lemma of_key_append [simp]: "of_key key (xs @ ys) = of_key key xs @ of_key key ys"
  by (simp add: of_key_def)

lemma labelled_run:
  assumes "reassembler_ok r" and "labelled r"
    and "card (fst ` set (flows r) \<union> arrival_keys arrivals) \<le> MAX_TRACKED_FLOWS"
  shows "advance (expected (flow_at r key)) (flow_sequences key (snd (run labelled_step r arrivals)))
      = Some (expected (flow_at (fst (run labelled_step r arrivals)) key))"
    and "mset (of_key key (snd (run labelled_step r arrivals))) \<subseteq>#
      mset (map pend_value (held (flow_at r key)))
      + mset (of_key key (map (\<lambda>(h, d, now). (h, d)) arrivals))"
proof -
  let ?in = "\<lambda>as. mset (of_key key (map (\<lambda>(h, d, now). (h, d)) as))"
  have "advance (expected (flow_at r key)) (flow_sequences key (snd (run labelled_step r arrivals)))
      = Some (expected (flow_at (fst (run labelled_step r arrivals)) key))
    \<and> mset (of_key key (snd (run labelled_step r arrivals))) \<subseteq>#
      mset (map pend_value (held (flow_at r key))) + ?in arrivals"
    using assms
  proof (induction arrivals arbitrary: r)
    case Nil
    show ?case by (simp add: flow_sequences_def of_key_def)
  next
    case (Cons a arrivals)
    obtain h d now where a: "a = (h, d, now)" by (metis prod_cases3)
    obtain r1 o1 where p: "push_at r h (h, d) now = (r1, o1)" by fastforce
    have step: "labelled_step r a = (r1, o1)" by (simp add: a p)
    have "card (insert (frame_key h) (fst ` set (flows r)))
        \<le> card (fst ` set (flows r) \<union> arrival_keys (a # arrivals))"
      by (rule card_mono) (auto simp: a arrival_keys_def)
    then have idle: "forget_all (frame_key h) r = r"
      using Cons.prems by (intro forget_all_idle) simp_all
    note push = labelled_push [OF Cons.prems(1,2) p idle]
    have "fst ` set (flows r1) \<union> arrival_keys arrivals =
        fst ` set (flows r) \<union> arrival_keys (a # arrivals)"
      by (auto simp: push(4) a arrival_keys_def)
    then have IH: "advance (expected (flow_at r1 key))
          (flow_sequences key (snd (run labelled_step r1 arrivals)))
        = Some (expected (flow_at (fst (run labelled_step r1 arrivals)) key))"
      "mset (of_key key (snd (run labelled_step r1 arrivals))) \<subseteq>#
        mset (map pend_value (held (flow_at r1 key))) + ?in arrivals"
      using Cons.IH [OF push(2,1)] Cons.prems(3) by simp_all
    have "mset (of_key key o1) + mset (of_key key (snd (run labelled_step r1 arrivals))) \<subseteq>#
        mset (of_key key o1) + (mset (map pend_value (held (flow_at r1 key))) + ?in arrivals)"
      using IH(2) by simp
    also have "\<dots> \<subseteq># mset (map pend_value (held (flow_at r key))) + mset (of_key key [(h, d)])
        + ?in arrivals"
      using push(5) [of key] by (simp add: add.assoc [symmetric])
    also have "\<dots> = mset (map pend_value (held (flow_at r key))) + ?in (a # arrivals)"
      by (simp add: a of_key_def)
    finally show ?case
      using IH(1) push(3) [of key]
      by (simp add: step flow_sequences_def advance_append)
  qed
  then show "advance (expected (flow_at r key)) (flow_sequences key (snd (run labelled_step r arrivals)))
      = Some (expected (flow_at (fst (run labelled_step r arrivals)) key))"
    and "mset (of_key key (snd (run labelled_step r arrivals))) \<subseteq>#
      mset (map pend_value (held (flow_at r key))) + ?in arrivals"
    by simp_all
qed

text \<open>C1: While at most 4096 flows are seen, whatever the order, the duplicates and the timing
  of the arrivals, the frames the reassembler delivers of a flow are frames that arrived, none
  twice more often than it arrived, and their sequence numbers go strictly forward from zero
  (in the half-window order of 32-bit sequence numbers).\<close>

theorem reassembler_delivers_forward:
  assumes "card (arrival_keys arrivals) \<le> MAX_TRACKED_FLOWS"
  shows "advance 0 (flow_sequences key (snd (run labelled_step new_reassembler arrivals))) \<noteq> None
    \<and> mset (of_key key (snd (run labelled_step new_reassembler arrivals))) \<subseteq>#
        mset (of_key key (map (\<lambda>(h, d, now). (h, d)) arrivals))"
  using labelled_run [of "new_reassembler :: (frame_header \<times> 'a) reassembler" arrivals key] assms
  by (simp add: new_flow_def) (simp add: new_reassembler_def)

definition hdr :: "u32 \<Rightarrow> frame_header" where
  "hdr s = \<lparr>sender_id = 17, flow_id = 23, sequence = s\<rparr>"

theorem reassembler_delivers_forward_witness:
  "advance 0 (flow_sequences (17, 23)
     (snd (run labelled_step new_reassembler [(hdr 1, True, 0), (hdr 0, False, 1)]))) \<noteq> None"
proof -
  have "card (arrival_keys [(hdr 1, True, 0 :: nat), (hdr 0, False, 1)]) \<le> MAX_TRACKED_FLOWS"
    by (simp add: arrival_keys_def hdr_def frame_key_def MAX_TRACKED_FLOWS_def)
  from reassembler_delivers_forward [OF this] show ?thesis by blast
qed

end
