(* ===== verification/ReassemblyWindow.thy ===== *)
theory ReassemblyWindow
  imports Reassembly
begin

text \<open>
  The reassembler against its specification: frames of one flow that arrive within the gap
  time and within the reordering window come out as the longest prefix without a gap, each
  once. And the boundary of that promise: what the code does when the window is exceeded.
\<close>

section \<open>Sequence numbers in a window\<close>

lemma of_nat_u32_eq_iff:
  assumes "a < 2147483648" and "b < 2147483648"
  shows "(of_nat a :: u32) = of_nat b \<longleftrightarrow> a = b"
proof -
  have "unat (of_nat a :: u32) = a" "unat (of_nat b :: u32) = b"
    using assms by (simp_all add: unat_of_nat)
  then show ?thesis by metis
qed

lemma offset_eq_iff:
  "a < 2147483648 \<Longrightarrow> b < 2147483648 \<Longrightarrow> (e + of_nat a :: u32) = e + of_nat b \<longleftrightarrow> a = b"
  by (simp add: of_nat_u32_eq_iff)

lemma offset_forward_iff:
  assumes "a < 2147483648" and "b < 2147483648"
  shows "is_forward (e + of_nat a) (e + of_nat b) \<longleftrightarrow> b < a"
proof -
  have diff: "(e + of_nat a :: u32) - (e + of_nat b) = word_of_int (int a - int b)"
    by simp
  have u: "uint ((e + of_nat a :: u32) - (e + of_nat b)) = (int a - int b) mod 4294967296"
    unfolding diff uint_word_of_int by simp
  show ?thesis
  proof (cases "b \<le> a")
    case True
    then have "(int a - int b) mod 4294967296 = int a - int b" using assms by simp
    then show ?thesis
      using u True assms
      by (cases "a = b") (auto simp: is_forward_def of_nat_u32_eq_iff word_less_def)
  next
    case False
    then have "(int a - int b) mod 4294967296 = int a - int b + 4294967296"
      using assms by (intro mod_pos_pos_trivial [of "int a - int b + 4294967296" 4294967296, simplified]) auto
    then show ?thesis
      using u False assms by (auto simp: is_forward_def word_less_def)
  qed
qed

section \<open>Frames of a window\<close>

definition frame_of :: "u32 \<Rightarrow> (nat \<Rightarrow> 'v) \<Rightarrow> nat \<Rightarrow> 'v pending" where
  "frame_of e val k = \<lparr>pend_seq = e + of_nat k, pend_value = val k\<rparr>"

definition holds_frames :: "u32 \<Rightarrow> (nat \<Rightarrow> 'v) \<Rightarrow> nat set \<Rightarrow> 'v flow_state \<Rightarrow> bool" where
  "holds_frames e val K st \<longleftrightarrow>
     finite K \<and> K \<subseteq> {..<2147483648} \<and> mset (held st) = image_mset (frame_of e val) (mset_set K)"

lemma frame_of_simps [simp]:
  "pend_seq (frame_of e val k) = e + of_nat k"
  "pend_value (frame_of e val k) = val k"
  by (simp_all add: frame_of_def)

lemma holds_frames_set: "holds_frames e val K st \<Longrightarrow> set (held st) = frame_of e val ` K"
  unfolding holds_frames_def
  by (metis finite_set_mset_mset_set set_image_mset set_mset_mset)

lemma holds_frames_length: "holds_frames e val K st \<Longrightarrow> length (held st) = card K"
  unfolding holds_frames_def by (metis size_image_mset size_mset size_mset_set)

lemma holds_frames_remove:
  assumes h: "holds_frames e val K st" and i: "i < length (held st)"
    and k: "pend_seq (held st ! i) = e + of_nat k" "k < 2147483648"
    and st': "held st' = swap_remove (held st) i"
  shows "k \<in> K" and "pend_value (held st ! i) = val k" and "holds_frames e val (K - {k}) st'"
proof -
  have "held st ! i \<in> frame_of e val ` K"
    using i holds_frames_set [OF h] nth_mem by blast
  then obtain j where j: "j \<in> K" "held st ! i = frame_of e val j" by auto
  moreover have "j < 2147483648" using j(1) h by (auto simp: holds_frames_def)
  ultimately have jk: "j = k" using k by (simp add: of_nat_u32_eq_iff)
  show "k \<in> K" and "pend_value (held st ! i) = val k" using j jk by simp_all
  have "add_mset (frame_of e val k) (mset (held st')) = image_mset (frame_of e val) (mset_set K)"
    using mset_swap_remove [OF i] h j(2) jk by (simp add: st' holds_frames_def)
  also have "mset_set K = add_mset k (mset_set (K - {k}))"
    using h j jk by (metis holds_frames_def mset_set.remove)
  finally show "holds_frames e val (K - {k}) st'"
    using h by (auto simp: holds_frames_def)
qed

lemma holds_frames_add:
  assumes "holds_frames e val K st" and "k \<notin> K" and "k < 2147483648"
  shows "holds_frames e val (insert k K) (with_frame (frame_of e val k) st)"
  using assms by (simp add: holds_frames_def)

lemma drain_gap: "gap_started (fst (drain_contiguous st)) = gap_started st"
proof (induction st rule: drain_contiguous.induct)
  case (1 st)
  then show ?case
    by (subst drain_contiguous.simps) (auto split: option.splits prod.splits)
qed

text \<open>Draining delivers the frames from the expected one up to the next gap.\<close>

lemma drain_window:
  assumes "holds_frames e val K st" and "expected st = e + of_nat m" and "m + d < 2147483648"
    and "{m..<m + d} \<subseteq> K" and "m + d \<notin> K"
  shows "\<exists>st'. drain_contiguous st = (st', map val [m..<m + d])
      \<and> holds_frames e val (K - {m..<m + d}) st' \<and> expected st' = e + of_nat (m + d)"
  using assms
proof (induction d arbitrary: m st K)
  case 0
  have "position (\<lambda>p. pend_seq p = expected st) (held st) = None"
    using 0 by (auto simp: position_None holds_frames_set [OF 0(1)] of_nat_u32_eq_iff
        holds_frames_def subset_iff)
  then show ?case using 0 by (simp add: drain_contiguous.simps [of st])
next
  case (Suc d)
  have "m \<in> K" using Suc.prems(4) by auto
  then have "frame_of e val m \<in> set (held st)"
    by (simp add: holds_frames_set [OF Suc.prems(1)])
  then have "position (\<lambda>p. pend_seq p = expected st) (held st) \<noteq> None"
    unfolding position_None using Suc.prems(2) by fastforce
  then obtain i where i: "position (\<lambda>p. pend_seq p = expected st) (held st) = Some i" by blast
  let ?st1 = "st\<lparr>held := swap_remove (held st) i, expected := expected st + 1\<rparr>"
  have at: "i < length (held st)" "pend_seq (held st ! i) = e + of_nat m"
    using position_Some [OF i] Suc.prems(2) by simp_all
  have m: "m < 2147483648" using Suc.prems(3) by simp
  note rem = holds_frames_remove [OF Suc.prems(1) at m, of ?st1, simplified]
  have "\<exists>st'. drain_contiguous ?st1 = (st', map val [Suc m..<Suc m + d])
      \<and> holds_frames e val (K - {m} - {Suc m..<Suc m + d}) st' \<and> expected st' = e + of_nat (Suc m + d)"
  proof (rule Suc.IH)
    show "holds_frames e val (K - {m}) ?st1" by (rule rem(3))
    show "expected ?st1 = e + of_nat (Suc m)" by (simp add: Suc.prems(2) add.commute add.left_commute)
  qed (use Suc.prems in auto)
  then obtain st' where "drain_contiguous ?st1 = (st', map val [Suc m..<Suc m + d])"
    and h: "holds_frames e val (K - {m} - {Suc m..<Suc m + d}) st'"
    and ex: "expected st' = e + of_nat (Suc m + d)" by blast
  then have "drain_contiguous st = (st', map val [m..<m + Suc d])"
    by (simp add: drain_contiguous.simps [of st] i rem(2) upt_conv_Cons [of m] del: upt_Suc)
  moreover have "K - {m} - {Suc m..<Suc m + d} = K - {m..<m + Suc d}" by auto
  ultimately show ?case using h ex by (intro exI [of _ st']) simp
qed


section \<open>A push inside the window\<close>

text \<open>
  The frames received so far: all below the gap \<open>m\<close>, and those of \<open>R\<close> above it, which are
  held. The gap timer is \<open>g\<close>.
\<close>

definition window :: "u32 \<Rightarrow> (nat \<Rightarrow> 'v) \<Rightarrow> nat option \<Rightarrow> nat set \<Rightarrow> nat \<Rightarrow> 'v flow_state \<Rightarrow> bool" where
  "window e val g R m st \<longleftrightarrow>
     {..<m} \<subseteq> R \<and> m \<notin> R \<and> m < 2147483648 \<and> finite R \<and> R \<subseteq> {..<2147483648}
     \<and> holds_frames e val {k \<in> R. m < k} st \<and> expected st = e + of_nat m
     \<and> gap_started st = g"

text \<open>The gap of the timer is younger than the release time.\<close>

definition gap_young :: "nat \<Rightarrow> nat option \<Rightarrow> bool" where
  "gap_young now g \<longleftrightarrow> (case g of None \<Rightarrow> True | Some t \<Rightarrow> now < t + GAP_RELEASE_AFTER_MS)"

lemma gap_young_simps [simp]:
  "gap_young now None"
  "gap_young now (Some t) \<longleftrightarrow> now < t + GAP_RELEASE_AFTER_MS"
  by (simp_all add: gap_young_def)

lemma window_new: "window 0 val None {} 0 new_flow"
  by (simp add: window_def holds_frames_def new_flow_def)

lemma release_expired_idle:
  assumes "gap_young now (gap_started st)"
  shows "release_expired now st = (st, [])"
  using assms by (auto simp: release_expired_def gap_young_def GAP_RELEASE_AFTER_MS_def split: option.splits)

text \<open>The frame at the gap closes it: what comes out reaches the next gap.\<close>

lemma push_window_expected:
  assumes w: "window e val g R m st" and now: "gap_young now g"
    and gap: "{..<m'} \<subseteq> insert m R" "m' \<notin> insert m R" "m < m'" "m' < 2147483648"
    and n: "length (held st) \<le> n"
  shows "\<exists>st'. push_flow now st n (e + of_nat m) (val m) =
      (st', n + length (held st') - length (held st), map val [m..<m'])
    \<and> window e val None (insert m R) m' st'"
proof -
  let ?st2 = "st\<lparr>expected := expected st + 1, gap_started := None\<rparr>"
  let ?K = "{k \<in> R. m < k}"
  have ex: "expected st = e + of_nat m" and idle: "release_expired now st = (st, [])"
    using w now by (simp_all add: window_def release_expired_idle)
  have "\<exists>st'. drain_contiguous ?st2 = (st', map val [Suc m..<Suc m + (m' - Suc m)])
      \<and> holds_frames e val (?K - {Suc m..<Suc m + (m' - Suc m)}) st'
      \<and> expected st' = e + of_nat (Suc m + (m' - Suc m))"
    by (rule drain_window)
      (use w gap in \<open>auto simp: window_def holds_frames_def add.commute add.left_commute\<close>)
  then obtain st' where drain: "drain_contiguous ?st2 = (st', map val [Suc m..<m'])"
    and h: "holds_frames e val (?K - {Suc m..<m'}) st'" and ex': "expected st' = e + of_nat m'"
    using gap(3) by auto
  have "?K - {Suc m..<m'} = {k \<in> insert m R. m' < k}"
    using gap by auto (metis insert_iff lessI linorder_neqE_nat not_less_eq)?
  moreover have "gap_started st' = None"
    using drain_gap [of ?st2] by (simp add: drain)
  moreover have "insert m R \<subseteq> {..<2147483648}" using w gap by (auto simp: window_def)
  ultimately have "window e val None (insert m R) m' st'"
    using w gap h ex' by (simp add: window_def)
  moreover have "lower_total (lower_total n st st) ?st2 st' =
      n + length (held st') - length (held st)"
    using n delivery_length [OF delivery_drain [OF drain]] by (simp add: lower_total_def)
  moreover have "val m # map val [Suc m..<m'] = map val [m..<m']"
    using gap(3) by (simp add: upt_conv_Cons)
  ultimately show ?thesis
    by (intro exI [of _ st'])
      (simp add: push_flow_def idle ex drain [unfolded ex] Let_def)
qed

text \<open>A frame already received, or held, changes nothing.\<close>

lemma push_window_duplicate:
  assumes w: "window e val g R m st" and now: "gap_young now g"
    and k: "k \<in> R" and n: "length (held st) \<le> n"
  shows "push_flow now st n (e + of_nat k) v = (st, n, [])"
proof -
  have ex: "expected st = e + of_nat m" and idle: "release_expired now st = (st, [])"
    using w now by (simp_all add: window_def release_expired_idle)
  have b: "k < 2147483648" using w k by (auto simp: window_def)
  have m: "m < 2147483648" using w by (simp add: window_def)
  have "k \<noteq> m" using w k by (auto simp: window_def)
  moreover have "list_ex (\<lambda>p. pend_seq p = e + of_nat k) (held st)" if "m < k"
    using that k holds_frames_set [of e val "{k \<in> R. m < k}" st] w
    by (auto simp: window_def list_ex_iff image_iff)
  ultimately show ?thesis
    using b m
    by (auto simp: push_flow_def idle ex Let_def offset_eq_iff of_nat_u32_eq_iff
        offset_forward_iff lower_total_def)
qed

text \<open>A new frame ahead of the gap is held, while the flow and the reassembler have room.\<close>

lemma push_window_ahead:
  assumes w: "window e val g R m st" and now: "gap_young now g"
    and k: "k \<notin> R" "m < k" "k < 2147483648"
    and room: "length (held st) < MAX_PENDING_PER_FLOW" "n < MAX_PENDING_TOTAL"
  shows "\<exists>st'. push_flow now st n (e + of_nat k) (val k) = (st', n + 1, [])
    \<and> window e val (Some (case g of None \<Rightarrow> now | Some t \<Rightarrow> t)) (insert k R) m st'"
proof -
  let ?st1 = "with_frame (frame_of e val k) st"
  let ?st2 = "if gap_started ?st1 = None then ?st1\<lparr>gap_started := Some now\<rparr> else ?st1"
  let ?K = "{k \<in> R. m < k}"
  have ex: "expected st = e + of_nat m" and idle: "release_expired now st = (st, [])"
    and h: "holds_frames e val ?K st" and m: "m < 2147483648"
    using w now by (simp_all add: window_def release_expired_idle)
  have gap: "gap_started ?st2 = Some (case g of None \<Rightarrow> now | Some t \<Rightarrow> t)"
    using w by (auto simp: window_def with_frame_def split: option.splits)
  then have idle2: "release_expired now ?st2 = (?st2, [])"
    using now by (intro release_expired_idle) (simp add: GAP_RELEASE_AFTER_MS_def split: option.splits)
  have new: "\<not> list_ex (\<lambda>p. pend_seq p = e + of_nat k) (held st)"
  proof
    assume "list_ex (\<lambda>p. pend_seq p = e + of_nat k) (held st)"
    then obtain j where "j \<in> ?K" "e + of_nat j = e + (of_nat k :: u32)"
      using holds_frames_set [OF h] by (auto simp: list_ex_iff)
    then show False using k w by (auto simp: window_def of_nat_u32_eq_iff subset_iff)
  qed
  have hold: "hold_frame now st n (e + of_nat k) (val k) = (?st2, n + 1, [])"
    using room(2) idle2 by (simp add: hold_frame_def frame_of_def [symmetric] Let_def lower_total_def)
  have push: "push_flow now st n (e + of_nat k) (val k) = (?st2, n + 1, [])"
    using room k m
    by (simp add: push_flow_def idle ex new make_room_def hold lower_total_def Let_def
        of_nat_u32_eq_iff offset_forward_iff)
  have "{j \<in> insert k R. m < j} = insert k ?K" using k by auto
  then have "holds_frames e val {j \<in> insert k R. m < j} ?st2"
    using holds_frames_add [OF h, of k] k by (simp add: holds_frames_def)
  then have "window e val (Some (case g of None \<Rightarrow> now | Some t \<Rightarrow> t)) (insert k R) m ?st2"
    using w k gap by (auto simp: window_def ex)
  with push show ?thesis by blast
qed

section \<open>The first gap\<close>

definition first_gap :: "nat list \<Rightarrow> nat" where
  "first_gap ks = length (takeWhile (\<lambda>k. k \<in> set ks) [0..<Suc (length ks)])"

lemma first_gap: "{..<first_gap ks} \<subseteq> set ks" "first_gap ks \<notin> set ks"
proof -
  let ?P = "\<lambda>k. k \<in> set ks"
  let ?xs = "[0..<Suc (length ks)]"
  have sub: "?P i" if "i < first_gap ks" for i
  proof -
    have "i < length (takeWhile ?P ?xs)" using that by (simp add: first_gap_def)
    then have "takeWhile ?P ?xs ! i \<in> set (takeWhile ?P ?xs)" and "takeWhile ?P ?xs ! i = ?xs ! i"
      by (rule nth_mem, rule takeWhile_nth)
    moreover have "?xs ! i = i"
      using \<open>i < length (takeWhile ?P ?xs)\<close> length_takeWhile_le [of ?P ?xs]
      by (simp del: upt_Suc)
    ultimately show ?thesis by (metis set_takeWhileD)
  qed
  then show "{..<first_gap ks} \<subseteq> set ks" by auto
  then have "card {..<first_gap ks} \<le> card (set ks)" by (intro card_mono) simp_all
  then have "first_gap ks \<le> length ks" using card_length [of ks] by simp
  then have len: "length (takeWhile ?P ?xs) < length ?xs" by (simp add: first_gap_def)
  then have "\<not> ?P (?xs ! length (takeWhile ?P ?xs))" by (rule nth_length_takeWhile)
  then show "first_gap ks \<notin> set ks"
    using len by (simp add: first_gap_def del: upt_Suc)
qed

lemma first_gap_unique: "{..<m} \<subseteq> set ks \<Longrightarrow> m \<notin> set ks \<Longrightarrow> m = first_gap ks"
  using first_gap [of ks] by (meson lessThan_iff linorder_neqE_nat subsetD)

lemma first_gap_le: "set ks \<subseteq> {..<N} \<Longrightarrow> first_gap ks \<le> N"
  using first_gap(1) [of ks] by (meson lessThan_subset_iff order_trans)

lemma first_gap_mono: "first_gap xs \<le> first_gap (xs @ ys)"
proof (rule ccontr)
  assume "\<not> first_gap xs \<le> first_gap (xs @ ys)"
  then have "first_gap (xs @ ys) \<in> set xs" using first_gap(1) [of xs] by auto
  then show False using first_gap(2) [of "xs @ ys"] by simp
qed

lemma upt_gap_append:
  assumes "first_gap xs \<le> first_gap (xs @ ys)"
  shows "[0..<first_gap xs] @ [first_gap xs..<first_gap (xs @ ys)] = [0..<first_gap (xs @ ys)]"
  using assms upt_add_eq_append [of 0 "first_gap xs" "first_gap (xs @ ys) - first_gap xs"] by simp

section \<open>Arrivals in time\<close>

text \<open>
  The arrivals of one flow are pairs (index, time). The gap timer they set: the first frame
  that waits starts it, the frame that closes the gap clears it, a duplicate leaves it alone.
  An arrival is in the window when fewer than 97 indices lie between the gap and it, and in
  time when the gap it finds is younger than the release time.
\<close>

definition next_gap :: "nat list \<Rightarrow> nat option \<Rightarrow> nat \<Rightarrow> nat \<Rightarrow> nat option" where
  "next_gap ks g k now =
     (if k \<in> set ks then g
      else if k = first_gap ks then None
      else Some (case g of None \<Rightarrow> now | Some t \<Rightarrow> t))"

fun gap_after :: "nat list \<Rightarrow> nat option \<Rightarrow> (nat \<times> nat) list \<Rightarrow> nat option" where
  "gap_after ks g [] = g"
| "gap_after ks g ((k, now) # as) = gap_after (ks @ [k]) (next_gap ks g k now) as"

definition fits :: "nat list \<Rightarrow> nat option \<Rightarrow> nat \<Rightarrow> nat \<Rightarrow> bool" where
  "fits ks g k now \<longleftrightarrow> k < first_gap ks + 97 \<and> k < 2147483647 \<and> gap_young now g"

fun arrive_in_time :: "nat list \<Rightarrow> nat option \<Rightarrow> (nat \<times> nat) list \<Rightarrow> bool" where
  "arrive_in_time ks g [] \<longleftrightarrow> True"
| "arrive_in_time ks g ((k, now) # as) \<longleftrightarrow>
     fits ks g k now \<and> arrive_in_time (ks @ [k]) (next_gap ks g k now) as"

lemma gap_after_snoc: "gap_after ks g (as @ [(k, now)]) =
    next_gap (ks @ map fst as) (gap_after ks g as) k now"
  by (induction ks g as rule: gap_after.induct) simp_all

lemma arrive_in_time_snoc: "arrive_in_time ks g (as @ [(k, now)]) \<longleftrightarrow>
    arrive_in_time ks g as \<and> fits (ks @ map fst as) (gap_after ks g as) k now"
  by (induction ks g as rule: arrive_in_time.induct) simp_all

section \<open>All flows together\<close>

text \<open>
  Arrivals are (flow, index, time); the frame's payload is a function of the flow and the
  index. At most 42 flows with fewer than 97 frames outstanding stay under the global bound.
\<close>

definition window_frame :: "reassembly_key \<Rightarrow> nat \<Rightarrow> frame_header" where
  "window_frame key k = \<lparr>sender_id = fst key, flow_id = snd key, sequence = of_nat k\<rparr>"

fun window_arrival :: "(reassembly_key \<Rightarrow> nat \<Rightarrow> 'a) \<Rightarrow> reassembly_key \<times> nat \<times> nat \<Rightarrow>
    frame_header \<times> 'a \<times> nat" where
  "window_arrival data (key, k, now) = (window_frame key k, data key k, now)"

definition window_value :: "(reassembly_key \<Rightarrow> nat \<Rightarrow> 'a) \<Rightarrow> reassembly_key \<Rightarrow> nat \<Rightarrow>
    frame_header \<times> 'a" where
  "window_value data key k = (window_frame key k, data key k)"

definition of_flow :: "(reassembly_key \<times> nat \<times> nat) list \<Rightarrow> reassembly_key \<Rightarrow> (nat \<times> nat) list" where
  "of_flow arrivals key = map snd (filter (\<lambda>a. fst a = key) arrivals)"

definition received :: "(reassembly_key \<times> nat \<times> nat) list \<Rightarrow> reassembly_key \<Rightarrow> nat list" where
  "received arrivals key = map fst (of_flow arrivals key)"

definition flow_gap :: "(reassembly_key \<times> nat \<times> nat) list \<Rightarrow> reassembly_key \<Rightarrow> nat option" where
  "flow_gap arrivals key = gap_after [] None (of_flow arrivals key)"

lemma received_snoc:
  "received (arrivals @ [(key, k, now)]) j =
     (if j = key then received arrivals j @ [k] else received arrivals j)"
  by (simp add: received_def of_flow_def)

lemma flow_gap_snoc:
  "flow_gap (arrivals @ [(key, k, now)]) j =
     (if j = key then next_gap (received arrivals j) (flow_gap arrivals j) k now
      else flow_gap arrivals j)"
  by (simp add: flow_gap_def received_def of_flow_def gap_after_snoc)

lemma frame_key_window [simp]: "frame_key (window_frame key k) = key"
  by (simp add: frame_key_def window_frame_def)

text \<open>The invariant of the run.\<close>

definition all_windows :: "(reassembly_key \<Rightarrow> nat \<Rightarrow> 'a) \<Rightarrow>
    (reassembly_key \<times> nat \<times> nat) list \<Rightarrow> (frame_header \<times> 'a) reassembler \<Rightarrow> bool" where
  "all_windows data arrivals r \<longleftrightarrow>
     reassembler_ok r \<and> fst ` set (flows r) = fst ` set arrivals
     \<and> (\<forall>key. set (received arrivals key) \<subseteq> {..<first_gap (received arrivals key) + 97}
          \<and> set (received arrivals key) \<subseteq> {..<2147483647}
          \<and> window 0 (window_value data key) (flow_gap arrivals key) (set (received arrivals key))
              (first_gap (received arrivals key)) (flow_at r key))"

lemma tbl_sum_le: "(\<And>k v. map_of t k = Some v \<Longrightarrow> f v \<le> c) \<Longrightarrow> tbl_ok t \<Longrightarrow> tbl_sum f t \<le> length t * c"
proof (induction t)
  case (Cons x t)
  obtain k v where x: "x = (k, v)" by (cases x)
  have "f u \<le> c" if "map_of t j = Some u" for j u
  proof -
    have "j \<noteq> k" using that Cons.prems(2) by (auto simp: x dest: map_of_SomeD intro: rev_image_eqI)
    then show ?thesis using Cons.prems(1) [of j u] that by (simp add: x)
  qed
  then have "tbl_sum f t \<le> length t * c" using Cons by simp
  moreover have "f v \<le> c" using Cons.prems(1) [of k v] by (simp add: x)
  ultimately show ?case by (simp add: tbl_sum_def x)
qed simp

lemma window_card:
  assumes "window e val g R m st" and "R \<subseteq> {..<m + 97}"
  shows "length (held st) \<le> 96"
    and "k \<notin> R \<Longrightarrow> m < k \<Longrightarrow> k < m + 97 \<Longrightarrow> length (held st) < 96"
proof -
  let ?K = "{k \<in> R. m < k}"
  have len: "length (held st) = card ?K"
    using assms(1) holds_frames_length [of e val ?K st] by (simp add: window_def)
  have "card ?K \<le> card {Suc m..<m + 97}" using assms(2) by (intro card_mono) auto
  then show "length (held st) \<le> 96" by (simp add: len)
  assume k: "k \<notin> R" "m < k" "k < m + 97"
  have "card (insert k ?K) \<le> card {Suc m..<m + 97}" using assms(2) k by (intro card_mono) auto
  moreover have "finite ?K" using assms(1) by (simp add: window_def)
  ultimately show "length (held st) < 96" using k by (simp add: len)
qed

lemma all_windows_total:
  assumes "all_windows data arrivals r" and "card (fst ` set arrivals) \<le> 42"
  shows "pending_total r < MAX_PENDING_TOTAL"
proof -
  have ok: "reassembler_ok r" and keys: "fst ` set (flows r) = fst ` set arrivals"
    using assms(1) by (simp_all add: all_windows_def)
  have "held_count st \<le> 96" if "map_of (flows r) key = Some st" for key st
  proof -
    have "flow_at r key = st" using that by (simp add: flow_at_def tbl_get_def)
    moreover have "set (received arrivals key) \<subseteq> {..<first_gap (received arrivals key) + 97}"
      and "window 0 (window_value data key) (flow_gap arrivals key) (set (received arrivals key))
        (first_gap (received arrivals key)) (flow_at r key)"
      using assms(1) unfolding all_windows_def by blast+
    ultimately show ?thesis
      using window_card(1) by (simp add: held_count_def)
  qed
  then have "tbl_sum held_count (flows r) \<le> length (flows r) * 96"
    using ok by (intro tbl_sum_le) (auto simp: reassembler_ok_def)
  also have "length (flows r) = card (fst ` set arrivals)"
    using ok keys by (metis reassembler_ok_def distinct_card length_map list.set_map)
  finally show ?thesis
    using ok assms(2) by (simp add: reassembler_ok_def MAX_PENDING_TOTAL_def)
qed

lemma all_windows_push:
  assumes inv: "all_windows data arrivals r"
    and keys: "card (insert key (fst ` set arrivals)) \<le> 42"
    and fits: "fits (received arrivals key) (flow_gap arrivals key) k now"
  shows "\<exists>r'. push_at r (window_frame key k) (window_value data key k) now =
      (r', map (window_value data key)
        [first_gap (received arrivals key)..<first_gap (received arrivals key @ [k])])
    \<and> all_windows data (arrivals @ [(key, k, now)]) r'"
proof -
  let ?ks = "received arrivals key"
  let ?m = "first_gap ?ks" and ?m' = "first_gap (?ks @ [k])"
  let ?val = "window_value data key" and ?h = "window_frame key k"
  let ?st = "flow_at r key" and ?g = "flow_gap arrivals key"
  let ?g' = "next_gap ?ks ?g k now"
  have k: "k < ?m + 97" "k < 2147483647" and now: "gap_young now ?g"
    using fits by (simp_all add: fits_def)
  have ok: "reassembler_ok r" and fk: "fst ` set (flows r) = fst ` set arrivals"
    using inv by (simp_all add: all_windows_def)
  have idle: "forget_all key r = r"
    using keys by (intro forget_all_idle [OF ok]) (simp add: fk MAX_TRACKED_FLOWS_def)
  have w: "window 0 (window_value data j) (flow_gap arrivals j) (set (received arrivals j))
      (first_gap (received arrivals j)) (flow_at r j)"
    and near: "set (received arrivals j) \<subseteq> {..<first_gap (received arrivals j) + 97}"
    and bound: "set (received arrivals j) \<subseteq> {..<2147483647}" for j
    using inv unfolding all_windows_def by blast+
  have mm: "?m \<le> ?m'" by (rule first_gap_mono)
  have n: "length (held ?st) \<le> pending_total r" by (rule flow_at_le [OF ok])
  have "card (fst ` set arrivals) \<le> card (insert key (fst ` set arrivals))"
    by (rule card_mono) auto
  then have tot: "pending_total r < MAX_PENDING_TOTAL"
    using all_windows_total [OF inv] keys by simp
  have seq: "sequence (window_frame key j) = of_nat j" for j by (simp add: window_frame_def)
  have "\<exists>st' n'. push_flow now ?st (pending_total r) (sequence ?h) (?val k) =
        (st', n', map ?val [?m..<?m']) \<and> window 0 ?val ?g' (set (?ks @ [k])) ?m' st'"
  proof -
    consider (dup) "k \<in> set ?ks" | (expected) "k = ?m" | (ahead) "k \<notin> set ?ks" "?m < k"
      using first_gap(1) [of ?ks] by (meson lessThan_iff linorder_neqE_nat subsetD)
    then show ?thesis
    proof cases
      case dup
      then have same: "set (?ks @ [k]) = set ?ks" by auto
      then have "?m' = ?m" using first_gap [of ?ks] by (metis first_gap_unique)
      then show ?thesis
        using push_window_duplicate [OF w now dup n, of "?val k"] w [of key]
        by (intro exI [of _ ?st] exI [of _ "pending_total r"]) (simp add: seq same next_gap_def dup del: set_append)
    next
      case expected
      have set: "set (?ks @ [?m]) = insert ?m (set ?ks)" by auto
      have "{..<?m'} \<subseteq> insert ?m (set ?ks)" "?m' \<notin> insert ?m (set ?ks)"
        using first_gap [of "?ks @ [k]"] by (simp_all add: expected)
      moreover have "?m < ?m'"
      proof (rule ccontr)
        assume "\<not> ?m < ?m'"
        then have "?m' \<in> set (?ks @ [k])"
          using first_gap(1) [of ?ks] expected by (cases "?m' = ?m") auto
        then show False using first_gap(2) by blast
      qed
      moreover have "?m' < 2147483648"
      proof (rule ccontr)
        assume "\<not> ?m' < 2147483648"
        then have "2147483647 \<in> {..<?m'}" by simp
        then have "2147483647 \<in> set (?ks @ [k])" using first_gap(1) [of "?ks @ [k]"] by blast
        then show False using k bound [of key] by (simp add: subset_iff) blast
      qed
      ultimately show ?thesis
        using push_window_expected [OF w now _ _ _ _ n, of ?m'] expected first_gap(2) [of ?ks]
        by (simp add: set seq next_gap_def del: set_append) blast
    next
      case ahead
      have set: "set (?ks @ [k]) = insert k (set ?ks)" by auto
      have "?m = ?m'"
        using first_gap [of ?ks] ahead by (intro first_gap_unique) auto
      moreover have "length (held ?st) < MAX_PENDING_PER_FLOW"
        using window_card(2) [OF w near ahead k(1)] by (simp add: MAX_PENDING_PER_FLOW_def)
      ultimately show ?thesis
        using push_window_ahead [OF w now ahead _ _ tot] k ahead
        by (simp add: set seq next_gap_def del: set_append) blast
    qed
  qed
  then obtain st' n' where push: "push_flow now ?st (pending_total r) (sequence ?h) (?val k) =
        (st', n', map ?val [?m..<?m'])" and w': "window 0 ?val ?g' (set (?ks @ [k])) ?m' st'"
    by blast
  let ?r' = "\<lparr>flows = tbl_set key st' (flows r), pending_total = n'\<rparr>"
  have at: "push_at r ?h (?val k) now = (?r', map ?val [?m..<?m'])"
    using push_at_eq [of now ?h r "?val k"] push by (simp add: idle)
  have "reassembler_ok ?r'"
    by (rule push_at_cases [OF ok at]) simp
  moreover have "fst ` set (flows ?r') = fst ` set (arrivals @ [(key, k, now)])"
    by (simp add: keys_tbl_set fk)
  moreover have "window 0 (window_value data j) (flow_gap (arrivals @ [(key, k, now)]) j)
      (set (received (arrivals @ [(key, k, now)]) j))
      (first_gap (received (arrivals @ [(key, k, now)]) j)) (flow_at ?r' j)" for j
    using w [of j] w' flow_at_push [of ?r' key st' r j] by (simp add: received_snoc flow_gap_snoc)
  moreover have "set (received (arrivals @ [(key, k, now)]) j) \<subseteq>
      {..<first_gap (received (arrivals @ [(key, k, now)]) j) + 97}" for j
    using near [of j] k(1) mm by (auto simp: received_snoc)
  moreover have "set (received (arrivals @ [(key, k, now)]) j) \<subseteq> {..<2147483647}" for j
    using bound [of j] k(2) by (auto simp: received_snoc)
  ultimately show ?thesis using at by (simp add: all_windows_def)
qed

lemma of_key_window_values: "of_key j (map (window_value data key) ks) =
    (if j = key then map (window_value data key) ks else [])"
  by (auto simp: of_key_def window_value_def filter_empty_conv filter_id_conv)

lemma window_run:
  assumes "\<forall>key. arrive_in_time [] None (of_flow arrivals key)"
    and "card (fst ` set arrivals) \<le> 42"
  shows "all_windows data arrivals
      (fst (run labelled_step new_reassembler (map (window_arrival data) arrivals)))
    \<and> (\<forall>key. of_key key (snd (run labelled_step new_reassembler (map (window_arrival data) arrivals)))
        = map (window_value data key) [0..<first_gap (received arrivals key)])"
  using assms
proof (induction arrivals rule: rev_induct)
  case Nil
  have "first_gap [] = 0" by (simp add: first_gap_def)
  then show ?case
    by (simp add: all_windows_def window_new received_def of_flow_def flow_gap_def of_key_def)
      (simp add: new_reassembler_def)
next
  case (snoc a arrivals)
  obtain key k now where a: "a = (key, k, now)" by (metis prod_cases3)
  let ?run = "run labelled_step new_reassembler (map (window_arrival data) arrivals)"
  have "card (fst ` set arrivals) \<le> card (fst ` set (arrivals @ [a]))"
    by (rule card_mono) auto
  moreover have time: "arrive_in_time [] None (of_flow arrivals j)"
    and fits: "fits (received arrivals key) (flow_gap arrivals key) k now" for j
    using snoc.prems(1) [rule_format, of j] snoc.prems(1) [rule_format, of key]
    by (auto simp: a of_flow_def received_def flow_gap_def arrive_in_time_snoc split: if_splits)
  ultimately have IH: "all_windows data arrivals (fst ?run)"
    "\<And>j. of_key j (snd ?run) = map (window_value data j) [0..<first_gap (received arrivals j)]"
    using snoc.IH snoc.prems(2) by (simp_all add: split_paired_all)
  have keys: "card (insert key (fst ` set arrivals)) \<le> 42"
    using snoc.prems(2) by (simp add: a)
  from all_windows_push [OF IH(1) keys fits] obtain r'
    where push: "push_at (fst ?run) (window_frame key k) (window_value data key k) now =
        (r', map (window_value data key)
          [first_gap (received arrivals key)..<first_gap (received arrivals key @ [k])])"
      and inv: "all_windows data (arrivals @ [(key, k, now)]) r'" by blast
  have step: "labelled_step (fst ?run) (window_arrival data a) =
      (r', map (window_value data key)
          [first_gap (received arrivals key)..<first_gap (received arrivals key @ [k])])"
    using push by (simp add: a window_value_def)
  have run: "run labelled_step new_reassembler (map (window_arrival data) (arrivals @ [a])) =
      (r', snd ?run @ map (window_value data key)
          [first_gap (received arrivals key)..<first_gap (received arrivals key @ [k])])"
    by (rule prod_eqI) (simp_all add: fst_run_snoc snd_run_snoc step)
  have "of_key j (snd ?run @ map (window_value data key)
          [first_gap (received arrivals key)..<first_gap (received arrivals key @ [k])])
      = map (window_value data j) [0..<first_gap (received (arrivals @ [(key, k, now)]) j)]" for j
    using upt_gap_append [OF first_gap_mono [of "received arrivals key" "[k]"]]
    by (simp add: IH(2) of_key_window_values received_snoc flip: map_append)
  with inv show ?case
    unfolding run fst_conv snd_conv by (simp only: a) blast
qed

text \<open>C4: A fresh reassembler restores the order of up to 42 flows, as long as the arrivals of
  each flow keep to its window and its time: a frame arrives at most 96 indices ahead of the
  first one missing, and every gap is closed within 12 ms of the first frame that had to wait
  for it, however many gaps follow one another and however long the flow lasts (up to the
  2147483647 indices below the wrap-around of the comparison). Interleaved, reordered and
  duplicated in any such way, every flow comes out exactly as the longest prefix of its frames
  without a gap, each frame once and in order. Beyond the window this fails,
  see full_window_strands_frame below.\<close>

theorem reassembler_restores_order:
  assumes "\<forall>key. arrive_in_time [] None (of_flow arrivals key)"
    and "card (fst ` set arrivals) \<le> 42"
  shows "of_key key (snd (run labelled_step new_reassembler (map (window_arrival data) arrivals)))
      = map (window_value data key) [0..<first_gap (received arrivals key)]"
  using window_run [OF assms, of data] by blast

text \<open>Two gaps of one flow, 10 ms each, that together last longer than the release time.\<close>

theorem reassembler_restores_order_witness:
  "of_key (1, 2) (snd (run labelled_step new_reassembler (map (window_arrival (\<lambda>_ k. k))
     [((1, 2), 1, 5), ((1, 2), 0, 15), ((1, 2), 3, 16), ((1, 2), 3, 17), ((1, 2), 2, 26)])))
   = map (window_value (\<lambda>_ k. k) (1, 2)) [0, 1, 2, 3]"
proof -
  let ?as = "[((1, 2), 1, 5), ((1, 2), 0, 15), ((1, 2), 3, 16), ((1, 2), 3, 17), ((1, 2), 2, 26)]
      :: (reassembly_key \<times> nat \<times> nat) list"
  have "arrive_in_time [] None [(1, 5), (0, 15), (3, 16), (3, 17), (2, 26)]"
    by (simp add: fits_def next_gap_def first_gap_def GAP_RELEASE_AFTER_MS_def upt_rec)
  then have 1: "\<forall>key. arrive_in_time [] None (of_flow ?as key)"
    by (auto simp: of_flow_def)
  have 2: "card (fst ` set ?as) \<le> 42" by simp
  have gap: "[0..<first_gap (received ?as (1, 2))] = [0, 1, 2, 3]"
    by (simp add: first_gap_def received_def of_flow_def upt_rec)
  show ?thesis
    using reassembler_restores_order [OF 1 2, where data = "\<lambda>_ k. k" and key = "(1, 2)"]
    unfolding gap .
qed

section \<open>Beyond the window\<close>

text \<open>
  When the 97th frame ahead of a gap arrives, the full branch of \<^verbatim>\<open>push_at\<close> releases the held
  frames, which may advance the expected number to the very frame being pushed. The code does
  not look at it again: the frame is held although it is the expected one.
\<close>

fun flow_step :: "nat flow_state \<times> nat \<Rightarrow> nat \<times> nat \<Rightarrow> (nat flow_state \<times> nat) \<times> nat list" where
  "flow_step (st, n) (k, now) =
     (let (st', n', out) = push_flow now st n (of_nat k) k in ((st', n'), out))"

definition val_id :: "nat \<Rightarrow> nat" where "val_id k = k"

lemma fill_window:
  assumes "d \<le> 96"
  shows "\<exists>st. run flow_step (new_flow, 0) (map (\<lambda>k. (k, 0)) (0 # [2..<2 + d])) = ((st, d), [0])
    \<and> window 0 val_id (if d = 0 then None else Some 0) (insert 0 {2..<2 + d}) 1 st"
  using assms
proof (induction d)
  case 0
  have "push_flow 0 new_flow 0 0 (0 :: nat) = (new_flow\<lparr>expected := 1\<rparr>, 0, [0])"
    by (simp add: push_flow_def release_expired_def new_flow_def drain_contiguous.simps
        lower_total_def)
  moreover have "window 0 val_id None {0} 1 (new_flow\<lparr>expected := 1\<rparr>)"
  proof -
    have none: "{k :: nat. k = 0 \<and> Suc 0 < k} = {}" by auto
    show ?thesis by (auto simp: window_def holds_frames_def new_flow_def none)
  qed
  ultimately show ?case
    by (intro exI [of _ "new_flow\<lparr>expected := 1\<rparr>"]) (simp add: run.simps)
next
  case (Suc d)
  then obtain st where run: "run flow_step (new_flow, 0) (map (\<lambda>k. (k, 0)) (0 # [2..<2 + d])) =
        ((st, d), [0])" and w: "window 0 val_id (if d = 0 then None else Some 0) (insert 0 {2..<2 + d}) 1 st" by auto
  have K: "{k \<in> insert 0 {2..<2 + d}. 1 < k} = {2..<2 + d}" by auto
  have "length (held st) = card {2..<2 + d}"
    using w holds_frames_length [of 0 val_id "{2..<2 + d}" st] unfolding window_def K by blast
  then have "length (held st) < MAX_PENDING_PER_FLOW" and "d < MAX_PENDING_TOTAL"
    using Suc.prems by (simp_all add: MAX_PENDING_PER_FLOW_def MAX_PENDING_TOTAL_def)
  then obtain st' where push: "push_flow 0 st d (0 + of_nat (2 + d)) (val_id (2 + d)) = (st', d + 1, [])"
    and w': "window 0 val_id (Some 0) (insert (2 + d) (insert 0 {2..<2 + d})) 1 st'"
    using push_window_ahead [OF w, of 0 "2 + d" d] Suc.prems
    by (cases "d = 0") (auto simp: GAP_RELEASE_AFTER_MS_def)
  have step: "flow_step (st, d) (2 + d, 0) = ((st', Suc d), [])"
    using push unfolding val_id_def by simp
  have "map (\<lambda>k. (k, 0 :: nat)) (0 # [2..<2 + Suc d]) =
      map (\<lambda>k. (k, 0)) (0 # [2..<2 + d]) @ [(2 + d, 0)]" by simp
  then have "run flow_step (new_flow, 0) (map (\<lambda>k. (k, 0)) (0 # [2..<2 + Suc d])) =
      ((st', Suc d), [0])"
    by (intro prod_eqI) (simp_all only: fst_run_snoc snd_run_snoc run step fst_conv snd_conv append_Nil2)
  moreover have "insert (2 + d) (insert 0 {2..<2 + d}) = insert 0 {2..<2 + Suc d}" by auto
  ultimately show ?case using w' by auto
qed

text \<open>Releasing the held frames 2 to 97 delivers them all.\<close>

lemma release_full_window:
  assumes h: "holds_frames 0 val_id {2..<98} st" and ex: "expected st = 1"
  shows "\<exists>st'. release_lowest now st = (st', [2..<98]) \<and> held st' = [] \<and> expected st' = 98
    \<and> gap_started st' = None"
proof -
  have f2: "frame_of 0 val_id 2 \<in> set (held st)" and set: "set (held st) = frame_of 0 val_id ` {2..<98}"
    using holds_frames_set [OF h] by auto
  have fwd: "is_forward (of_nat j) 1 \<longleftrightarrow> 1 < j" if "j < 98" for j :: nat
    using offset_forward_iff [of j 1 0] that by simp
  have "lowest_from (expected st) 0 (held st) \<noteq> None"
    unfolding lowest_from_None using fwd [of 2] by (auto simp: ex intro!: bexI [OF _ f2])
  then obtain i d where low: "lowest_from (expected st) 0 (held st) = Some (i, d)" by auto
  have at: "i < length (held st)" and d: "d = pend_seq (held st ! i) - 1"
    using lowest_from_Some [OF low] by (simp_all add: ex)
  have "held st ! i \<in> frame_of 0 val_id ` {2..<98}" using at set nth_mem by blast
  then obtain j where j: "2 \<le> j" "j < 98" "held st ! i = frame_of 0 val_id j" by auto
  have "d \<le> of_nat 2 - 1"
    using lowest_from_min [OF low f2] fwd [of 2] by (simp add: ex)
  then have "(of_nat j :: u32) - 1 \<le> 1" using d j by simp
  moreover have "(of_nat j :: u32) - 1 = of_nat (j - 1)" using j by simp
  moreover have "unat (of_nat (j - 1) :: u32) = (j - 1) mod 4294967296"
    unfolding unat_of_nat by simp
  ultimately have "(j - 1) mod 4294967296 \<le> 1" by (simp add: word_le_nat_alt)
  then have "j = 2" using j by simp
  then have p: "pend_seq (held st ! i) = 0 + of_nat 2" "pend_value (held st ! i) = 2"
    using j by (simp_all add: val_id_def)
  let ?st1 = "st\<lparr>held := swap_remove (held st) i, expected := pend_seq (held st ! i) + 1,
      gap_started := None\<rparr>"
  have "holds_frames 0 val_id ({2..<98} - {2}) ?st1"
    by (rule holds_frames_remove(3) [OF h at p(1)]) simp_all
  moreover have "{2..<98} - {2} = {3..<98 :: nat}" by auto
  ultimately have h1: "holds_frames 0 val_id {3..<98} ?st1" by simp
  have "\<exists>st'. drain_contiguous ?st1 = (st', map val_id [3..<3 + 95])
      \<and> holds_frames 0 val_id ({3..<98} - {3..<3 + 95}) st' \<and> expected st' = 0 + of_nat (3 + 95)"
    by (rule drain_window [OF h1]) (simp_all add: p)
  then obtain st' where drain: "drain_contiguous ?st1 = (st', map val_id [3..<98])"
    and h': "holds_frames 0 val_id {} st'" and ex': "expected st' = 98" by auto
  have e: "held st' = []" using h' by (simp add: holds_frames_def)
  have "gap_started st' = None" using drain_gap [of ?st1] by (simp add: drain)
  moreover have "2 # map val_id [3..<98] = [2..<98]"
    by (simp add: val_id_def [abs_def] upt_conv_Cons)
  moreover have "release_lowest now st = (st', 2 # map val_id [3..<98])"
    using drain by (simp add: release_lowest_def low p(2) e del: upt.simps)
  ultimately show ?thesis using e ex' by simp
qed

lemma stranded_frame:
  assumes w: "window 0 val_id (Some 0) (insert 0 {2..<98}) 1 st"
  shows "run flow_step (st, 96) [(98, 0), (99, 12), (100, 24)] =
    ((\<lparr>expected = 101, gap_started = None, held = [frame_of 0 val_id 98]\<rparr>, 1),
     [2..<98] @ [99, 100])"
proof -
  have K: "{k \<in> insert 0 {2..<98}. 1 < k} = {2..<98 :: nat}" by auto
  have h: "holds_frames 0 val_id {2..<98} st" and ex: "expected st = 1"
    and idle: "release_expired 0 st = (st, [])"
    using w unfolding window_def K by (simp_all add: release_expired_idle GAP_RELEASE_AFTER_MS_def)
  have len: "length (held st) = 96" using holds_frames_length [OF h] by simp
  obtain st1 where rel: "release_lowest 0 st = (st1, [2..<98])"
    and st1: "held st1 = []" "expected st1 = 98" "gap_started st1 = None"
    using release_full_window [OF h ex] by blast
  let ?s2 = "\<lparr>expected = 98, gap_started = Some 0, held = [frame_of 0 val_id 98]\<rparr>"
  have new: "\<not> list_ex (\<lambda>p. pend_seq p = 98) (held st)"
    using offset_eq_iff [of _ 98 0]
    by (auto simp: list_ex_iff holds_frames_set [OF h])
  have fwd: "is_forward 98 1" "is_forward 99 98" "\<not> is_forward 98 98" "\<not> is_forward 98 100"
    "\<not> is_forward 98 101" by (simp_all add: is_forward_def)
  have "with_frame (frame_of 0 val_id 98) st1 =
      \<lparr>expected = 98, gap_started = None, held = [frame_of 0 val_id 98]\<rparr>"
    by (simp add: with_frame_def st1)
  then have hold: "hold_frame 0 st1 0 98 98 = (?s2, 1, [])"
    by (simp add: hold_frame_def frame_of_def val_id_def MAX_PENDING_TOTAL_def
        release_expired_def GAP_RELEASE_AFTER_MS_def lower_total_def Let_def)
  have step1: "flow_step (st, 96) (98, 0) = ((?s2, 1), [2..<98])"
    by (simp add: push_flow_def idle ex fwd new make_room_def len MAX_PENDING_PER_FLOW_def rel
        lower_total_def st1 hold MAX_PENDING_TOTAL_def Let_def del: upt.simps)
  let ?s3 = "\<lparr>expected = 98, gap_started = Some 12,
      held = [frame_of 0 val_id 98, frame_of 0 val_id 99]\<rparr>"
  have step2: "flow_step (?s2, 1) (99, 12) = ((?s3, 2), [])"
    by (simp add: push_flow_def release_expired_def release_lowest_def GAP_RELEASE_AFTER_MS_def
        fwd make_room_def MAX_PENDING_PER_FLOW_def MAX_PENDING_TOTAL_def hold_frame_def
        with_frame_def lower_total_def Let_def frame_of_def val_id_def)
  have step3: "flow_step (?s3, 2) (100, 24) =
      ((\<lparr>expected = 101, gap_started = None, held = [frame_of 0 val_id 98]\<rparr>, 1), [99, 100])"
    by (simp add: push_flow_def release_expired_def release_lowest_def GAP_RELEASE_AFTER_MS_def
        fwd drain_contiguous.simps swap_remove_def lower_total_def Let_def frame_of_def val_id_def)
  show ?thesis
    by (simp only: run.simps Let_def step1 step2 step3 prod.case) simp
qed

text \<open>A frame can be lost although it arrived in order and in time. With frame 1 missing,
  the frames 2 to 97 are held; frame 98 makes the reassembler release them, after which 98 is
  the expected frame, but it is held. It is never delivered: frames 99 and 100 pass it after
  the gap time, and its slot stays occupied.\<close>

theorem full_window_strands_frame:
  "run flow_step (new_flow, 0) (map (\<lambda>k. (k, 0)) (0 # [2..<99]) @ [(99, 12), (100, 24)]) =
     ((\<lparr>expected = 101, gap_started = None, held = [frame_of 0 val_id 98]\<rparr>, 1),
      0 # [2..<98] @ [99, 100])"
proof -
  obtain st where run: "run flow_step (new_flow, 0) (map (\<lambda>k. (k, 0)) (0 # [2..<98])) = ((st, 96), [0])"
    and w: "window 0 val_id (Some 0) (insert 0 {2..<98}) 1 st"
    using fill_window [of 96] by auto
  have "map (\<lambda>k. (k, 0)) (0 # [2..<99]) @ [(99, 12), (100, 24)] =
      map (\<lambda>k. (k, 0)) (0 # [2..<98]) @ [(98, 0), (99, 12), (100, 24 :: nat)]"
    by (simp add: upt_Suc_append [of 2 98, simplified] del: upt.simps)
  then show ?thesis
    by (simp only: run_append run stranded_frame [OF w] Let_def prod.case append_Cons append_Nil)
qed

end
