(* ===== verification/Striped.thy ===== *)
theory Striped
  imports FlowFrame
begin

text \<open>
  \<^verbatim>\<open>backend/shared/striped_scheduler.rs\<close>: packets are classified by size, with control traffic
  always in the small class, and each class has its stripe length and batch size.
\<close>

section \<open>Classes\<close>

datatype packet_class = Small | Medium | Bulk

fun class_index :: "packet_class \<Rightarrow> nat" where
  "class_index Small = 0"
| "class_index Medium = 1"
| "class_index Bulk = 2"

instantiation packet_class :: linorder
begin

definition less_eq_packet_class :: "packet_class \<Rightarrow> packet_class \<Rightarrow> bool" where
  "less_eq_packet_class a b = (class_index a \<le> class_index b)"

definition less_packet_class :: "packet_class \<Rightarrow> packet_class \<Rightarrow> bool" where
  "less_packet_class a b = (class_index a < class_index b)"

instance
proof
  fix a b c :: packet_class
  show "a < b \<longleftrightarrow> a \<le> b \<and> \<not> b \<le> a"
    by (auto simp: less_eq_packet_class_def less_packet_class_def)
  show "a \<le> a" by (simp add: less_eq_packet_class_def)
  show "a \<le> b \<Longrightarrow> b \<le> c \<Longrightarrow> a \<le> c" by (simp add: less_eq_packet_class_def)
  show "a \<le> b \<Longrightarrow> b \<le> a \<Longrightarrow> a = b"
    by (cases a; cases b) (simp_all add: less_eq_packet_class_def)
  show "a \<le> b \<or> b \<le> a" by (auto simp: less_eq_packet_class_def)
qed

end

definition SMALL_PACKET_MAX :: nat where "SMALL_PACKET_MAX = 164"
definition MEDIUM_PACKET_MAX :: nat where "MEDIUM_PACKET_MAX = 999"

fun stream_chunk :: "packet_class \<Rightarrow> nat" where
  "stream_chunk Small = 4"
| "stream_chunk Medium = 16"
| "stream_chunk Bulk = 32"

fun datagram_batch :: "packet_class \<Rightarrow> nat" where
  "datagram_batch Small = 16"
| "datagram_batch Medium = 64"
| "datagram_batch Bulk = 128"

definition size_class :: "nat \<Rightarrow> packet_class" where
  "size_class n =
     (if n \<le> SMALL_PACKET_MAX then Small else if n \<le> MEDIUM_PACKET_MAX then Medium else Bulk)"

lemma size_class_mono: "m \<le> n \<Longrightarrow> size_class m \<le> size_class n"
  by (auto simp: size_class_def less_eq_packet_class_def SMALL_PACKET_MAX_def MEDIUM_PACKET_MAX_def)

section \<open>The transport header\<close>

text \<open>
  The loop over IPv6 extension headers runs at most eight times. Absence is \<open>Fail ()\<close>; the
  checked arithmetic and \<^verbatim>\<open>get\<close> are kept.
\<close>

definition opt_res :: "'a option \<Rightarrow> (unit, 'a) res" where
  "opt_res x = ok_or x ()"

fun ipv6_walk :: "nat \<Rightarrow> bytes \<Rightarrow> byte \<Rightarrow> nat \<Rightarrow> (unit, byte \<times> nat) res" where
  "ipv6_walk 0 packet protocol offset = Inr (protocol, offset)"
| "ipv6_walk (Suc n) packet protocol offset =
     (let continue = (\<lambda>(protocol', offset').
            if offset' > length packet then Inl (Fail ())
            else ipv6_walk n packet protocol' offset')
      in if protocol \<in> {0, 43, 60} then
           and_then (opt_res (checked_add offset 2)) (\<lambda>hi.
           and_then (opt_res (get_slice packet offset hi)) (\<lambda>header.
           and_then (read_at header 0) (\<lambda>p.
           and_then (read_at header 1) (\<lambda>len.
           and_then (opt_res (checked_mul (unat len + 1) 8)) (\<lambda>skip.
           and_then (opt_res (checked_add offset skip)) (\<lambda>offset'.
           continue (p, offset')))))))
         else if protocol = 44 then
           and_then (opt_res (checked_add offset 8)) (\<lambda>hi.
           and_then (opt_res (get_slice packet offset hi)) (\<lambda>header.
           and_then (read_at header 2) (\<lambda>f1.
           and_then (read_at header 3) (\<lambda>f2.
           if u16_of f1 f2 AND 0xfff8 \<noteq> 0 then Inl (Fail ())
           else and_then (read_at header 0) (\<lambda>p.
                and_then (opt_res (checked_add offset 8)) (\<lambda>offset'.
                continue (p, offset')))))))
         else if protocol = 51 then
           and_then (opt_res (checked_add offset 2)) (\<lambda>hi.
           and_then (opt_res (get_slice packet offset hi)) (\<lambda>header.
           and_then (read_at header 0) (\<lambda>p.
           and_then (read_at header 1) (\<lambda>len.
           and_then (opt_res (checked_mul (unat len + 2) 4)) (\<lambda>skip.
           and_then (opt_res (checked_add offset skip)) (\<lambda>offset'.
           continue (p, offset')))))))
         else Inr (protocol, offset))"

definition ipv6_transport :: "bytes \<Rightarrow> (unit, byte \<times> nat) res" where
  "ipv6_transport packet = and_then (read_at packet 6) (\<lambda>protocol. ipv6_walk 8 packet protocol 40)"

definition internet_transport :: "bytes \<Rightarrow> (unit, byte \<times> nat) res" where
  "internet_transport packet =
     (if packet \<noteq> [] \<and> drop_bit 4 (hd packet) = 4 then
        and_then (opt_res (checked_mul (unat (hd packet AND 0x0f)) 4)) (\<lambda>header_len.
        if header_len \<ge> 20 \<and> length packet \<ge> header_len then
          and_then (read_at packet 9) (\<lambda>protocol. Inr (protocol, header_len))
        else Inl (Fail ()))
      else if packet \<noteq> [] \<and> drop_bit 4 (hd packet) = 6 \<and> length packet \<ge> 40
        then ipv6_transport packet
      else Inl (Fail ()))"

definition is_dns :: "bytes \<Rightarrow> byte \<Rightarrow> nat \<Rightarrow> bool" where
  "is_dns packet transport offset =
     (if transport \<notin> {6, 17} then False
      else case get_slice packet offset (saturating_add offset 4) of
             None \<Rightarrow> False
           | Some ports \<Rightarrow>
               u16_of (ports ! 0) (ports ! 1) = 53 \<or> u16_of (ports ! 2) (ports ! 3) = 53)"

definition is_tcp_control :: "bytes \<Rightarrow> nat \<Rightarrow> bool" where
  "is_tcp_control packet offset =
     (case get_slice packet offset (saturating_add offset 14) of
        None \<Rightarrow> False
      | Some header \<Rightarrow>
          let flags = header ! 13
          in if flags AND (0x02 OR 0x01 OR 0x04) \<noteq> 0 then True
             else if flags AND 0x10 = 0 then False
             else let header_len = saturating_mul (unat (drop_bit 4 (header ! 12))) 4
                  in header_len \<ge> 20 \<and> length packet \<le> saturating_add offset header_len)"

definition packet_class :: "bytes \<Rightarrow> (unit, packet_class) res" where
  "packet_class frame =
     (let packet = payload frame
      in case internet_transport packet of
           Inl Panic \<Rightarrow> Inl Panic
         | Inl (Fail _) \<Rightarrow> Inr (size_class (length packet))
         | Inr (transport, offset) \<Rightarrow>
             if transport \<in> {1, 58} \<or> is_dns packet transport offset then Inr Small
             else if transport = 6 \<and> is_tcp_control packet offset then Inr Small
             else Inr (size_class (length packet)))"

section \<open>Properties\<close>

lemma no_panic_opt_res [simp, intro]: "no_panic (opt_res x)"
  by (simp add: opt_res_def)

lemma opt_res_Inr [simp]: "opt_res x = Inr v \<longleftrightarrow> x = Some v"
  by (simp add: opt_res_def)

lemma get_slice_checked_length:
  "checked_add offset n = Some hi \<Longrightarrow> get_slice xs offset hi = Some ys \<Longrightarrow> length ys = n"
  by (auto dest!: checked_add_SomeD get_slice_SomeD)

lemma ipv6_walk_no_panic: "no_panic (ipv6_walk n packet protocol offset)"
proof (induction n arbitrary: protocol offset)
  case (Suc n)
  show ?case
    by (auto simp: Let_def Suc intro!: no_panic_and_then dest!: get_slice_checked_length)
qed simp

text \<open>A walk that ends leaves the offset inside the packet.\<close>

lemma ipv6_walk_offset:
  "ipv6_walk n packet protocol offset = Inr (p, o') \<Longrightarrow> offset \<le> length packet \<Longrightarrow>
     offset \<le> o' \<and> o' \<le> length packet"
proof (induction n arbitrary: protocol offset)
  case (Suc n)
  from Suc.prems show ?case
    by (auto simp: Let_def and_then_Inr_conv split: if_splits dest!: Suc.IH checked_add_SomeD)
qed simp

lemma internet_transport_no_panic: "no_panic (internet_transport packet)"
  unfolding internet_transport_def ipv6_transport_def
  by (auto simp: ipv6_walk_no_panic intro!: no_panic_and_then)

lemma packet_class_Inr: "\<exists>c. packet_class frame = Inr c"
  using internet_transport_no_panic [of "payload frame"]
  by (cases "internet_transport (payload frame)")
    (auto simp: packet_class_def Let_def no_panic_def split: fault.splits prod.splits)

definition class_of :: "bytes \<Rightarrow> packet_class" where
  "class_of frame = (case packet_class frame of Inr c \<Rightarrow> c | Inl _ \<Rightarrow> Small)"

lemma packet_class_of: "packet_class frame = Inr (class_of frame)"
  using packet_class_Inr [of frame] by (auto simp: class_of_def)

text \<open>The class is never larger than the size class: only control traffic is moved, downwards.\<close>

lemma class_of_le_size: "class_of frame \<le> size_class (length (payload frame))"
proof -
  have least: "Small \<le> c" for c :: packet_class by (cases c) (simp_all add: less_eq_packet_class_def)
  show ?thesis
    using internet_transport_no_panic [of "payload frame"] least
    by (auto simp: class_of_def packet_class_def Let_def no_panic_def
        split: sum.splits fault.splits prod.splits)
qed

end
