(* ===== verification/SelectiveFec.thy ===== *)
theory SelectiveFec
  imports Striped
begin

text \<open>
  \<^verbatim>\<open>backend/shared/selective_fec.rs\<close>: which packets are worth sending twice, and the token
  bucket that bounds how many are. Times are nanoseconds of a monotonic clock.
\<close>

section \<open>The budget\<close>

definition MAX_SMALL_UDP_PAYLOAD :: nat where "MAX_SMALL_UDP_PAYLOAD = 256"
definition DUPLICATE_BURST :: nat where "DUPLICATE_BURST = 10"
definition DUPLICATES_PER_SECOND :: nat where "DUPLICATES_PER_SECOND = 50"
definition REFILL_INTERVAL :: nat where
  "REFILL_INTERVAL = 1000 div DUPLICATES_PER_SECOND * 1000000"
definition u32_max :: nat where "u32_max = 4294967295"

record budget =
  tokens :: nat
  updated :: nat

definition budget_new :: "nat \<Rightarrow> budget" where
  "budget_new now = \<lparr>tokens = DUPLICATE_BURST, updated = now\<rparr>"

definition refill :: "nat \<Rightarrow> budget \<Rightarrow> budget" where
  "refill now b =
     (let n = (now - updated b) div REFILL_INTERVAL
      in if n \<noteq> 0 then
           (let n32 = min n u32_max
            in \<lparr>tokens = min (min (tokens b + n32) u32_max) DUPLICATE_BURST,
                updated = updated b + REFILL_INTERVAL * n32\<rparr>)
         else b)"

definition allow :: "nat \<Rightarrow> budget \<Rightarrow> bool \<times> budget" where
  "allow now b0 =
     (let b = refill now b0
      in if tokens b = 0 then (False, b) else (True, b\<lparr>tokens := tokens b - 1\<rparr>))"

definition budget_step :: "budget \<Rightarrow> nat \<Rightarrow> budget \<times> bool list" where
  "budget_step b now = (case allow now b of (ok, b') \<Rightarrow> (b', [ok]))"

definition granted :: "bool list \<Rightarrow> nat" where
  "granted oks = length (filter (\<lambda>ok. ok) oks)"

lemma REFILL_INTERVAL_value: "REFILL_INTERVAL = 20000000"
  by (simp add: REFILL_INTERVAL_def DUPLICATES_PER_SECOND_def)

text \<open>What the bucket may still grant up to a time never grows by a step.\<close>

definition allowance :: "nat \<Rightarrow> budget \<Rightarrow> nat" where
  "allowance T b = tokens b + (T - updated b) div REFILL_INTERVAL"

lemma allowance_refill:
  assumes "now \<le> T"
  shows "allowance T (refill now b) \<le> allowance T b"
proof -
  let ?n = "(now - updated b) div REFILL_INTERVAL"
  let ?m = "min ?n u32_max"
  have pos: "0 < REFILL_INTERVAL" by (simp add: REFILL_INTERVAL_value)
  have "REFILL_INTERVAL * ?m \<le> REFILL_INTERVAL * ?n" by simp
  also have "\<dots> \<le> now - updated b" by (rule times_div_less_eq_dividend)
  finally have le: "REFILL_INTERVAL * ?m \<le> T - updated b" using assms by simp
  have "(T - updated b) div REFILL_INTERVAL =
      (T - updated b - REFILL_INTERVAL * ?m + REFILL_INTERVAL * ?m) div REFILL_INTERVAL"
    by (simp only: le_add_diff_inverse2 [OF le])
  also have "\<dots> = ?m + (T - updated b - REFILL_INTERVAL * ?m) div REFILL_INTERVAL"
    using pos by simp
  finally have eq: "(T - updated b) div REFILL_INTERVAL =
      ?m + (T - updated b - REFILL_INTERVAL * ?m) div REFILL_INTERVAL" .
  have tok: "tokens (refill now b) \<le> tokens b + ?m"
    by (auto simp: refill_def Let_def)
  have upd: "updated (refill now b) = updated b + REFILL_INTERVAL * ?m"
    by (auto simp: refill_def Let_def)
  show ?thesis
    unfolding allowance_def upd diff_diff_left [symmetric] eq
    using add_right_mono [OF tok] by (simp only: add.assoc)
qed

lemma allowance_step:
  assumes "now \<le> T"
  shows "granted (snd (budget_step b now)) + allowance T (fst (budget_step b now)) \<le> allowance T b"
  using allowance_refill [OF assms, of b]
  by (auto simp: budget_step_def allow_def Let_def granted_def allowance_def)

lemma granted_append [simp]: "granted (xs @ ys) = granted xs + granted ys"
  by (simp add: granted_def)

lemma granted_run:
  assumes "\<forall>now \<in> set nows. now \<le> T"
  shows "granted (snd (run budget_step b nows)) + allowance T (fst (run budget_step b nows))
    \<le> allowance T b"
  using assms
proof (induction nows arbitrary: b)
  case Nil
  then show ?case by (simp add: granted_def)
next
  case (Cons now nows)
  let ?b1 = "fst (budget_step b now)"
  have "granted (snd (budget_step b now)) + allowance T ?b1 \<le> allowance T b"
    using Cons.prems by (intro allowance_step) simp
  moreover have "granted (snd (run budget_step ?b1 nows)) + allowance T (fst (run budget_step ?b1 nows))
      \<le> allowance T ?b1"
    using Cons.prems by (intro Cons.IH) simp
  ultimately show ?case by simp
qed

lemma refill_tokens: "tokens b \<le> DUPLICATE_BURST \<Longrightarrow> tokens (refill now b) \<le> DUPLICATE_BURST"
  by (simp add: refill_def Let_def)

lemma refill_positive:
  assumes "updated b + REFILL_INTERVAL \<le> now"
  shows "tokens (refill now b) \<noteq> 0"
proof -
  have "(now - updated b) div REFILL_INTERVAL \<noteq> 0"
    using assms by (simp add: REFILL_INTERVAL_value div_eq_0_iff)
  then show ?thesis by (simp add: refill_def Let_def u32_max_def DUPLICATE_BURST_def min_def)
qed

lemma tokens_le: "tokens b \<le> DUPLICATE_BURST \<Longrightarrow> tokens (fst (budget_step b now)) \<le> DUPLICATE_BURST"
  using refill_tokens [of b now] by (auto simp: budget_step_def allow_def Let_def)

interpretation budget: machine budget_step "\<lambda>b. tokens b \<le> DUPLICATE_BURST" "\<lambda>_. True"
  by unfold_locales (simp_all add: tokens_le list.pred_True)

text \<open>However the calls fall, the budget grants at most its burst of ten plus one
  duplicate per 20 ms elapsed; and a call at least 20 ms after the last refill is granted.\<close>

theorem budget_rate:
  assumes "\<forall>now \<in> set nows. now \<le> T" and "updated b + REFILL_INTERVAL \<le> now'"
  shows "granted (snd (run budget_step (budget_new t0) nows))
      \<le> DUPLICATE_BURST + (T - t0) div REFILL_INTERVAL
    \<and> fst (allow now' b)"
proof
  show "granted (snd (run budget_step (budget_new t0) nows))
      \<le> DUPLICATE_BURST + (T - t0) div REFILL_INTERVAL"
    using granted_run [OF assms(1), of "budget_new t0"]
    by (simp add: allowance_def budget_new_def)
  show "fst (allow now' b)"
    using refill_positive [OF assms(2)] by (simp add: allow_def Let_def)
qed

theorem budget_rate_witness:
  "granted (snd (run budget_step (budget_new 0) (replicate 12 5))) \<le> 10
   \<and> fst (allow 20000000 \<lparr>tokens = 0, updated = 0\<rparr>)"
  using budget_rate [of "replicate 12 5" 5 "\<lparr>tokens = 0, updated = 0\<rparr>" 20000000 0]
  by (simp add: REFILL_INTERVAL_value DUPLICATE_BURST_def)

section \<open>Which packets are duplicated\<close>

definition is_control :: "bytes \<Rightarrow> bool" where
  "is_control packet \<longleftrightarrow>
     starts_with packet (ascii ''GETCONF:'') \<or> starts_with packet (ascii ''TUNCONF:'')
     \<or> packet = ascii ''READY'' \<or> packet = ascii ''READY_OK''
     \<or> starts_with packet (ascii ''DENIED:'') \<or> starts_with packet (ascii ''DISCONNECT:'')"

record transport =
  t_protocol :: byte
  t_bytes :: bytes

definition classify_transport :: "transport \<Rightarrow> bool" where
  "classify_transport t =
     (let bs = t_bytes t
      in if t_protocol t = 6 \<and> length bs \<ge> 14 then
           (u16_of (bs ! 0) (bs ! 1) = 53 \<or> u16_of (bs ! 2) (bs ! 3) = 53
            \<or> bs ! 13 AND 0x02 \<noteq> 0)
         else if t_protocol t = 17 \<and> length bs \<ge> 8 then
           (u16_of (bs ! 0) (bs ! 1) = 53 \<or> u16_of (bs ! 2) (bs ! 3) = 53
            \<or> length bs - 8 \<le> MAX_SMALL_UDP_PAYLOAD)
         else False)"

definition fec_ipv4_transport :: "bytes \<Rightarrow> (unit, transport) res" where
  "fec_ipv4_transport packet =
     (if length packet < 20 \<or> drop_bit 4 (packet ! 0) \<noteq> 4 then Inl (Fail ())
      else and_then (opt_res (checked_mul (unat (packet ! 0 AND 0x0f)) 4)) (\<lambda>header_len.
        if header_len < 20 \<or> length packet < header_len then Inl (Fail ())
        else and_then (read_at packet 6) (\<lambda>f1.
             and_then (read_at packet 7) (\<lambda>f2.
             if u16_of f1 f2 AND 0x1fff \<noteq> 0 then Inl (Fail ())
             else and_then (read_at packet 9) (\<lambda>protocol.
                  and_then (slice packet header_len (length packet)) (\<lambda>bs.
                  Inr \<lparr>t_protocol = protocol, t_bytes = bs\<rparr>))))))"

text \<open>
  The second copy of the walk over IPv6 extension headers: it breaks out of the loop where the
  first returns, and takes the rest of the packet at the end.
\<close>

fun fec_ipv6_walk :: "nat \<Rightarrow> bytes \<Rightarrow> byte \<Rightarrow> nat \<Rightarrow> (unit, transport) res" where
  "fec_ipv6_walk 0 packet protocol offset =
     and_then (opt_res (get_slice packet offset (length packet))) (\<lambda>bs.
       Inr \<lparr>t_protocol = protocol, t_bytes = bs\<rparr>)"
| "fec_ipv6_walk (Suc n) packet protocol offset =
     (let continue = (\<lambda>(protocol', offset').
            if offset' > length packet then Inl (Fail ())
            else fec_ipv6_walk n packet protocol' offset')
      in if protocol \<in> {0, 43, 60} then
           and_then (opt_res (checked_add offset 2)) (\<lambda>hi.
           and_then (opt_res (get_slice packet offset hi)) (\<lambda>header.
           and_then (read_at header 0) (\<lambda>p.
           and_then (read_at header 1) (\<lambda>len.
           and_then (opt_res (checked_mul (unat len + 1) 8)) (\<lambda>skip.
           and_then (opt_res (checked_add offset skip)) (\<lambda>offset'.
           continue (p, offset')))))))
         else if protocol = 44 then
           and_then (opt_res (checked_add offset 8)) (\<lambda>hi.
           and_then (opt_res (get_slice packet offset hi)) (\<lambda>header.
           and_then (read_at header 2) (\<lambda>f1.
           and_then (read_at header 3) (\<lambda>f2.
           if u16_of f1 f2 AND 0xfff8 \<noteq> 0 then Inl (Fail ())
           else and_then (read_at header 0) (\<lambda>p.
                and_then (opt_res (checked_add offset 8)) (\<lambda>offset'.
                continue (p, offset')))))))
         else if protocol = 51 then
           and_then (opt_res (checked_add offset 2)) (\<lambda>hi.
           and_then (opt_res (get_slice packet offset hi)) (\<lambda>header.
           and_then (read_at header 0) (\<lambda>p.
           and_then (read_at header 1) (\<lambda>len.
           and_then (opt_res (checked_mul (unat len + 2) 4)) (\<lambda>skip.
           and_then (opt_res (checked_add offset skip)) (\<lambda>offset'.
           continue (p, offset')))))))
         else fec_ipv6_walk 0 packet protocol offset)"

definition fec_ipv6_transport :: "bytes \<Rightarrow> (unit, transport) res" where
  "fec_ipv6_transport packet =
     (if length packet < 40 \<or> drop_bit 4 (packet ! 0) \<noteq> 6 then Inl (Fail ())
      else and_then (read_at packet 6) (\<lambda>protocol. fec_ipv6_walk 8 packet protocol 40))"

text \<open>\<^verbatim>\<open>is_some_and\<close> on the transport; a panic goes through.\<close>

definition some_and :: "(unit, transport) res \<Rightarrow> (transport \<Rightarrow> bool) \<Rightarrow> (unit, bool) res" where
  "some_and r f =
     (case r of Inr t \<Rightarrow> Inr (f t) | Inl (Fail _) \<Rightarrow> Inr False | Inl Panic \<Rightarrow> Inl Panic)"

definition should_duplicate :: "bytes \<Rightarrow> (unit, bool) res" where
  "should_duplicate frame =
     (let packet = payload frame
      in if is_control packet then Inr True
         else if packet \<noteq> [] \<and> drop_bit 4 (hd packet) = 4
           then some_and (fec_ipv4_transport packet) classify_transport
         else if packet \<noteq> [] \<and> drop_bit 4 (hd packet) = 6
           then some_and (fec_ipv6_transport packet) classify_transport
         else Inr False)"

section \<open>The two walks agree\<close>

lemma and_then_assoc: "and_then (and_then r f) g = and_then r (\<lambda>x. and_then (f x) g)"
  by (cases r) simp_all

lemma and_then_if: "and_then (if b then r else s) f = (if b then and_then r f else and_then s f)"
  by simp

definition rest_of :: "bytes \<Rightarrow> byte \<times> nat \<Rightarrow> (unit, transport) res" where
  "rest_of packet = (\<lambda>(protocol, offset).
     and_then (opt_res (get_slice packet offset (length packet))) (\<lambda>bs.
       Inr \<lparr>t_protocol = protocol, t_bytes = bs\<rparr>))"

lemma fec_ipv6_walk_eq:
  "fec_ipv6_walk n packet protocol offset =
     and_then (ipv6_walk n packet protocol offset) (rest_of packet)"
proof (induction n arbitrary: protocol offset)
  case 0
  then show ?case by (simp add: rest_of_def)
next
  case (Suc n)
  have cont: "(if offset' > length packet then Inl (Fail ()) else fec_ipv6_walk n packet p offset') =
     and_then (if offset' > length packet then Inl (Fail ()) else ipv6_walk n packet p offset')
       (rest_of packet)" for p offset'
    by (simp add: Suc)
  show ?case
    by (simp only: fec_ipv6_walk.simps(2) ipv6_walk.simps(2) Let_def prod.case cont and_then_assoc
        and_then_if and_then_simps) (simp add: rest_of_def)
qed

lemma fec_ipv6_walk_no_panic: "no_panic (fec_ipv6_walk n packet protocol offset)"
  unfolding fec_ipv6_walk_eq
  by (intro no_panic_and_then ipv6_walk_no_panic) (auto simp: rest_of_def)

lemma some_and_no_panic: "no_panic r \<Longrightarrow> \<exists>b. some_and r f = Inr b"
  by (auto simp: some_and_def no_panic_def split: sum.splits fault.splits)

lemma fec_transport_no_panic:
  "no_panic (fec_ipv4_transport packet)" "no_panic (fec_ipv6_transport packet)"
  by (auto simp: fec_ipv4_transport_def fec_ipv6_transport_def fec_ipv6_walk_no_panic
      intro!: no_panic_and_then)

text \<open>On every byte string, framed or not, classifying a packet and deciding whether to
  duplicate it return a result and never panic; the class never exceeds the one of the
  packet's size; and the two walks over IPv6
  extension headers find the same transport.\<close>

theorem classification_total:
  "\<exists>c b. packet_class frame = Inr c \<and> should_duplicate frame = Inr b
    \<and> c \<le> size_class (length (payload frame))
    \<and> fec_ipv6_walk 8 packet protocol offset =
        and_then (ipv6_walk 8 packet protocol offset) (rest_of packet)"
proof -
  have "\<exists>b. should_duplicate frame = Inr b"
    by (auto simp: should_duplicate_def Let_def fec_transport_no_panic some_and_no_panic)
  then show ?thesis
    using class_of_le_size [of frame] by (auto simp: packet_class_of fec_ipv6_walk_eq)
qed

end
