(* ===== verification/StunCodec.thy ===== *)
theory StunCodec
  imports Bytes Tables
begin

text \<open>
  \<^verbatim>\<open>backend/stun_codec.rs\<close>: decoding of STUN messages. A datagram is accepted only when its
  header and every attribute header are consistent with its length; after that, walking the
  attributes cannot leave the datagram.
\<close>

declare add_2_eq_Suc [simp del] add_2_eq_Suc' [simp del]

section \<open>Messages\<close>

definition HEADER_SIZE :: nat where "HEADER_SIZE = 20"
definition MAGIC_COOKIE :: u32 where "MAGIC_COOKIE = 0x2112a442"
definition ATTR_FINGERPRINT :: u16 where "ATTR_FINGERPRINT = 0x8028"
definition FINGERPRINT_XOR :: u32 where "FINGERPRINT_XOR = 0x5354554e"

datatype stun_class = Request | Indication | Success | Error

datatype stun_error =
    StunHeaderTruncated
  | StunTypeLeadingBits
  | StunTypeZero
  | StunCookieMismatch
  | StunLengthUnaligned
  | StunLengthOverflow
  | StunLengthMismatch
  | StunAttrHeaderTruncated
  | StunAttrLengthOverflow
  | StunAttrOffsetOverflow
  | StunAttrValueTruncated

record stun_attribute =
  a_kind :: u16
  a_value :: bytes
  a_header_start :: nat
  a_value_start :: nat
  a_value_end :: nat

record stun_message =
  m_raw :: bytes
  m_kind :: u16
  m_transaction :: bytes
  m_end :: nat

definition read_u16 :: "bytes \<Rightarrow> nat \<Rightarrow> ('e, u16) res" where
  "read_u16 raw i =
     and_then (read_at raw i) (\<lambda>a. and_then (read_at raw (i + 1)) (\<lambda>b. Inr (u16_of a b)))"

text \<open>\<^verbatim>\<open>value & !3\<close>.\<close>

definition clear_low2 :: "nat \<Rightarrow> nat" where
  "clear_low2 n = n - n mod 4"

section \<open>Decoding\<close>

text \<open>
  The validating loop over the attribute headers: every turn moves the position by at least
  the four bytes of a header.
\<close>

function scan_attributes :: "bytes \<Rightarrow> nat \<Rightarrow> nat \<Rightarrow> (stun_error, unit) res" where
  "scan_attributes raw e pos =
     (if pos < e then
        if e - pos < 4 then Inl (Fail StunAttrHeaderTruncated)
        else case read_u16 raw (pos + 2) of
               Inl f \<Rightarrow> Inl f
             | Inr w \<Rightarrow>
                 (case map_option clear_low2 (checked_add (unat w) 3) of
                    None \<Rightarrow> Inl (Fail StunAttrLengthOverflow)
                  | Some padded \<Rightarrow>
                      (case checked_add (pos + 4) padded of
                         None \<Rightarrow> Inl (Fail StunAttrOffsetOverflow)
                       | Some next \<Rightarrow>
                           if next > e \<or> pos + 4 + unat w > e
                           then Inl (Fail StunAttrValueTruncated)
                           else scan_attributes raw e next))
      else Inr ())"
  by pat_completeness auto
termination
  by (relation "measure (\<lambda>(raw, e, pos). e - pos)")
    (auto dest!: checked_add_SomeD)

declare scan_attributes.simps [simp del]

definition stun_decode :: "bytes \<Rightarrow> (stun_error, stun_message) res" where
  "stun_decode raw =
     and_then (ensure (length raw \<ge> HEADER_SIZE) StunHeaderTruncated) (\<lambda>_.
     and_then (read_u16 raw 0) (\<lambda>kind.
     and_then (ensure (kind AND 0xc000 = 0) StunTypeLeadingBits) (\<lambda>_.
     and_then (ensure (kind \<noteq> 0) StunTypeZero) (\<lambda>_.
     and_then (slice raw 4 8) (\<lambda>cookie.
     and_then (ensure (cookie = be32 MAGIC_COOKIE) StunCookieMismatch) (\<lambda>_.
     and_then (read_u16 raw 2) (\<lambda>len.
     and_then (ensure (unat len mod 4 = 0) StunLengthUnaligned) (\<lambda>_.
     and_then (ok_or (checked_add HEADER_SIZE (unat len)) StunLengthOverflow) (\<lambda>e.
     and_then (ensure (length raw = e) StunLengthMismatch) (\<lambda>_.
     and_then (scan_attributes raw e HEADER_SIZE) (\<lambda>_.
     and_then (slice raw 8 20) (\<lambda>transaction.
     Inr \<lparr>m_raw = raw, m_kind = kind, m_transaction = transaction, m_end = e\<rparr>))))))))))))"

definition stun_class_of :: "stun_message \<Rightarrow> stun_class" where
  "stun_class_of m =
     (let c = (drop_bit 4 (m_kind m) AND 1) OR (drop_bit 7 (m_kind m) AND 2)
      in if c = 0 then Request else if c = 1 then Indication
         else if c = 2 then Success else Error)"

definition stun_method :: "stun_message \<Rightarrow> u16" where
  "stun_method m =
     (m_kind m AND 0x000f) OR (drop_bit 1 (m_kind m) AND 0x0070)
     OR (drop_bit 2 (m_kind m) AND 0x0f80)"

section \<open>Attributes\<close>

text \<open>One step of the iterator: the attribute at a position, and the next position.\<close>

definition next_attribute :: "bytes \<Rightarrow> nat \<Rightarrow> (stun_error, stun_attribute \<times> nat) res" where
  "next_attribute raw p =
     and_then (read_u16 raw p) (\<lambda>kind.
     and_then (read_u16 raw (p + 2)) (\<lambda>len.
     let value_start = p + 4;
         value_end = value_start + unat len
     in and_then (slice raw value_start value_end) (\<lambda>value.
        Inr (\<lparr>a_kind = (if kind = 0x8020 then 0x0020 else kind), a_value = value,
              a_header_start = p, a_value_start = value_start, a_value_end = value_end\<rparr>,
             value_start + clear_low2 (unat len + 3)))))"

lemma next_attribute_progress: "next_attribute raw p = Inr (a, p') \<Longrightarrow> p < p'"
  by (auto simp: next_attribute_def and_then_Inr_conv Let_def)

function attributes_from :: "bytes \<Rightarrow> nat \<Rightarrow> nat \<Rightarrow> (stun_error, stun_attribute list) res" where
  "attributes_from raw e p =
     (if p \<ge> e then Inr []
      else case next_attribute raw p of
             Inl f \<Rightarrow> Inl f
           | Inr (a, p') \<Rightarrow>
               (case attributes_from raw e p' of Inl f \<Rightarrow> Inl f | Inr as \<Rightarrow> Inr (a # as)))"
  by pat_completeness auto
termination
  by (relation "measure (\<lambda>(raw, e, p). e - p)") (auto dest: next_attribute_progress)

declare attributes_from.simps [simp del]

definition attributes :: "stun_message \<Rightarrow> (stun_error, stun_attribute list) res" where
  "attributes m = attributes_from (m_raw m) (m_end m) HEADER_SIZE"

definition attribute :: "stun_message \<Rightarrow> u16 \<Rightarrow> stun_attribute option" where
  "attribute m target =
     (case attributes m of Inl _ \<Rightarrow> None | Inr as \<Rightarrow> find (\<lambda>a. a_kind a = target) as)"

text \<open>The CRC is the one of the crate \<^verbatim>\<open>crc32fast\<close>, a parameter.\<close>

definition fingerprint_valid :: "(bytes \<Rightarrow> u32) \<Rightarrow> stun_message \<Rightarrow> bool option" where
  "fingerprint_valid crc m =
     (case attribute m ATTR_FINGERPRINT of
        None \<Rightarrow> None
      | Some a \<Rightarrow>
          if length (a_value a) \<noteq> 4 \<or> a_header_start a + 8 \<noteq> m_end m then Some False
          else Some (of_be32 (a_value a) =
                 crc (take (a_header_start a) (m_raw m)) XOR FINGERPRINT_XOR))"

section \<open>No panic, and attributes in range\<close>

lemma read_u16_ok:
  "i + 1 < length raw \<Longrightarrow> read_u16 raw i = Inr (u16_of (raw ! i) (raw ! (i + 1)))"
  by (simp add: read_u16_def)

lemma read_u16_length:
  assumes "p + 4 \<le> length raw"
  shows "read_u16 raw (p + 2) = Inr (u16_of (raw ! (p + 2)) (raw ! (p + 3)))"
  using read_u16_ok [of "p + 2" raw] assms by (simp add: numeral_3_eq_3)

lemma clear_low2_bounds: "n \<le> clear_low2 (n + 3)" "clear_low2 (n + 3) \<le> n + 3"
  unfolding clear_low2_def by presburger+

lemma clear_low2_aligned: "clear_low2 n mod 4 = 0"
  unfolding clear_low2_def by presburger

text \<open>The loop with its overflow branches resolved, for messages that fit a datagram.\<close>

lemma scan_attributes_step:
  assumes "pos < e" and "e \<le> 70000"
  shows "scan_attributes raw e pos =
     (if e - pos < 4 then Inl (Fail StunAttrHeaderTruncated)
      else case read_u16 raw (pos + 2) of
             Inl f \<Rightarrow> Inl f
           | Inr w \<Rightarrow>
               if pos + 4 + clear_low2 (unat w + 3) > e then Inl (Fail StunAttrValueTruncated)
               else scan_attributes raw e (pos + 4 + clear_low2 (unat w + 3)))"
proof (cases "read_u16 raw (pos + 2) :: (stun_error, u16) res")
  case (Inr w)
  have w: "unat w < 65536" by (rule unat_u16_less)
  have pad: "clear_low2 (unat w + 3) < 65539" "unat w \<le> clear_low2 (unat w + 3)"
    using clear_low2_bounds [of "unat w"] w by simp_all
  have "checked_add (unat w) 3 = Some (unat w + 3)"
    and "checked_add (pos + 4) (clear_low2 (unat w + 3)) =
        Some (pos + 4 + clear_low2 (unat w + 3))"
    using w pad assms by (simp_all add: usize_max_def)
  then show ?thesis
    using assms pad Inr by (subst scan_attributes.simps) auto
qed (use assms in \<open>subst scan_attributes.simps, simp\<close>)

lemma scan_attributes_end: "e \<le> pos \<Longrightarrow> scan_attributes raw e pos = Inr ()"
  by (simp add: scan_attributes.simps)

lemma scan_attributes_no_panic:
  "e \<le> length raw \<Longrightarrow> no_panic (scan_attributes raw e pos)"
proof (induction raw e pos rule: scan_attributes.induct)
  case (1 raw e pos)
  show ?case
  proof (cases "pos < e \<and> \<not> e - pos < 4")
    case True
    then have "read_u16 raw (pos + 2) =
        (Inr (u16_of (raw ! (pos + 2)) (raw ! (pos + 3))) :: (stun_error, u16) res)"
      using "1.prems" by (intro read_u16_length) auto
    then show ?thesis
      using 1 True by (subst scan_attributes.simps) (auto split: option.splits)
  qed (auto simp: scan_attributes.simps [of raw e pos])
qed

lemma stun_decode_no_panic: "no_panic (stun_decode raw)"
proof (cases "HEADER_SIZE \<le> length raw")
  case True
  then show ?thesis
    by (auto simp: stun_decode_def HEADER_SIZE_def read_u16_ok
        intro!: no_panic_and_then scan_attributes_no_panic)
qed (simp add: stun_decode_def)

text \<open>What a decoded message is.\<close>

lemma stun_decode_InrD:
  assumes "stun_decode raw = Inr m"
  shows "m_raw m = raw" and "m_end m = length raw" and "length raw \<le> 65555"
    and "HEADER_SIZE \<le> length raw" and "scan_attributes raw (length raw) HEADER_SIZE = Inr ()"
    and "m_transaction m = sub_list raw 8 20" and "length (m_transaction m) = 12"
proof -
  from assms have len: "HEADER_SIZE \<le> length raw"
    by (auto simp: stun_decode_def and_then_Inr_conv)
  then have len20: "20 \<le> length raw" by (simp add: HEADER_SIZE_def)
  let ?w = "u16_of (raw ! 2) (raw ! 3)"
  have r2: "read_u16 raw 2 = (Inr ?w :: (stun_error, u16) res)"
    using len20 by (simp add: read_u16_ok numeral_3_eq_3)
  have "checked_add HEADER_SIZE (unat ?w) = Some (length raw)"
    and res: "m_raw m = raw" "m_end m = length raw"
      "scan_attributes raw (length raw) HEADER_SIZE = Inr ()" "m_transaction m = sub_list raw 8 20"
    using assms len20 by (auto simp: stun_decode_def and_then_Inr_conv r2)
  then have "length raw = 20 + unat ?w"
    by (auto dest!: checked_add_SomeD simp: HEADER_SIZE_def)
  then show "length raw \<le> 65555" using unat_u16_less [of ?w] by simp
  show "length (m_transaction m) = 12" using len20 by (simp add: res)
  show "m_raw m = raw" and "m_end m = length raw"
    and "HEADER_SIZE \<le> length raw" and "scan_attributes raw (length raw) HEADER_SIZE = Inr ()"
    and "m_transaction m = sub_list raw 8 20" by (fact res len)+
qed

text \<open>
  The walk after a successful scan: it ends, every value is a slice of the datagram, and the
  headers follow one another from the message header on.
\<close>

definition attribute_in :: "bytes \<Rightarrow> stun_attribute \<Rightarrow> bool" where
  "attribute_in raw a \<longleftrightarrow>
     HEADER_SIZE \<le> a_header_start a \<and> a_value_start a = a_header_start a + 4
     \<and> a_value_start a \<le> a_value_end a \<and> a_value_end a \<le> length raw
     \<and> a_value a = sub_list raw (a_value_start a) (a_value_end a)"

lemma attributes_from_ok:
  assumes "scan_attributes raw (length raw) p = Inr ()" and "length raw \<le> 70000"
    and "HEADER_SIZE \<le> p"
  shows "\<exists>as. attributes_from raw (length raw) p = Inr as \<and> list_all (attribute_in raw) as
    \<and> 4 * length as \<le> length raw - p"
  using assms
proof (induction "length raw - p" arbitrary: p rule: less_induct)
  case less
  show ?case
  proof (cases "length raw \<le> p")
    case True
    then show ?thesis by (simp add: attributes_from.simps)
  next
    case False
    note step = scan_attributes_step [of p "length raw" raw]
    have four: "\<not> length raw - p < 4"
      using False less.prems step by (auto split: if_splits)
    then have r: "read_u16 raw (p + 2) =
          (Inr (u16_of (raw ! (p + 2)) (raw ! (p + 3))) :: (stun_error, u16) res)"
      and r0: "read_u16 raw p = (Inr (u16_of (raw ! p) (raw ! (p + 1))) :: (stun_error, u16) res)"
      by (intro read_u16_length read_u16_ok; simp)+
    let ?n = "unat (u16_of (raw ! (p + 2)) (raw ! (p + 3)))"
    let ?next = "p + 4 + clear_low2 (?n + 3)"
    have fit: "?next \<le> length raw" and scan: "scan_attributes raw (length raw) ?next = Inr ()"
      using False less.prems four step unfolding r by (simp_all split: if_splits)
    have fit': "p + 4 + ?n \<le> length raw" using fit clear_low2_bounds(1) [of ?n] by simp
    obtain a where a: "next_attribute raw p = Inr (a, ?next)" "attribute_in raw a"
      using fit' less.prems(3)
      unfolding next_attribute_def r0 r Let_def and_then_simps
      by (simp add: attribute_in_def)
    obtain as where as: "attributes_from raw (length raw) ?next = Inr as"
        "list_all (attribute_in raw) as" "4 * length as \<le> length raw - ?next"
      using less.hyps [OF _ scan less.prems(2)] less.prems(3) False by fastforce
    have "attributes_from raw (length raw) p = Inr (a # as)"
      using False by (subst attributes_from.simps) (simp add: a as)
    then show ?thesis using a as four fit by (intro exI [of _ "a # as"]) simp
  qed
qed

lemma decoded_attributes:
  assumes "stun_decode raw = Inr m"
  shows "\<exists>as. attributes m = Inr as \<and> list_all (attribute_in raw) as
    \<and> 4 * length as + HEADER_SIZE \<le> length raw"
proof -
  note d = stun_decode_InrD [OF assms]
  have "length raw \<le> 70000" using d(3) by simp
  from attributes_from_ok [OF d(5) this order_refl] obtain as
    where "attributes_from raw (length raw) HEADER_SIZE = Inr as" "list_all (attribute_in raw) as"
      "4 * length as \<le> length raw - HEADER_SIZE" by blast
  then show ?thesis using d(4) by (intro exI [of _ as]) (simp add: attributes_def d(1,2))
qed

lemma attribute_in_decoded:
  "stun_decode raw = Inr m \<Longrightarrow> attribute m k = Some a \<Longrightarrow> attribute_in raw a \<and> a_kind a = k"
  using decoded_attributes [of raw m]
  by (auto simp: attribute_def find_Some_iff list_all_length)

text \<open>Decoding a datagram ends without a panic on every input; a message that was accepted
  has its whole length declared, and iterating over its attributes ends without a panic too,
  every attribute's value being a slice of the datagram behind the header.\<close>

theorem stun_decode_safe:
  "no_panic (stun_decode raw)
   \<and> (case stun_decode raw of
        Inl _ \<Rightarrow> True
      | Inr m \<Rightarrow> m_end m = length raw \<and> length (m_transaction m) = 12
          \<and> (case attributes m of
               Inl _ \<Rightarrow> False
             | Inr as \<Rightarrow> list_all (attribute_in raw) as \<and> 4 * length as + HEADER_SIZE \<le> length raw))"
  using decoded_attributes [of raw] stun_decode_InrD(2,7) [of raw]
  by (auto simp: stun_decode_no_panic split: sum.splits)

end
