(* ===== verification/StunMessage.thy ===== *)
theory StunMessage
  imports StunCodec
begin

text \<open>
  The STUN messages of \<^verbatim>\<open>backend/turn_core.rs\<close>: building requests, the XOR address encoding,
  message integrity and the fields of a response. HMAC-SHA1 and CRC-32 are those of crates,
  parameters here; the round trips hold for all of them.
\<close>

section \<open>Addresses\<close>

datatype ip_addr = V4 u32 | V6 "128 word"

datatype socket_addr = SocketAddr (addr_ip: ip_addr) (addr_port: u16)

definition is_ipv4 :: "socket_addr \<Rightarrow> bool" where
  "is_ipv4 a = (case addr_ip a of V4 _ \<Rightarrow> True | V6 _ \<Rightarrow> False)"

datatype turn_error =
    InvalidArgument
  | TurnClosed
  | AuthIncomplete
  | AuthKeyMissing
  | MessageTooLarge
  | BadAddressFamily byte
  | XorAddressMalformed
  | XorAddressFamilyInvalid
  | NoRelayedAddress
  | InvalidRelayedAddress
  | AllocateLifetimeZero
  | RefreshLifetimeZero
  | DeallocateLifetimeNonZero
  | BufferTooSmall
  | RelayUnavailable

text \<open>The flat address the core reports in its events.\<close>

record native_address =
  na_family :: byte
  na_port :: u16
  na_ip :: bytes

definition AF_IPV4 :: byte where "AF_IPV4 = 4"
definition AF_IPV6 :: byte where "AF_IPV6 = 6"

definition native_default :: native_address where
  "native_default = \<lparr>na_family = 0, na_port = 0, na_ip = replicate 16 0\<rparr>"

definition from_socket_addr :: "socket_addr \<Rightarrow> native_address" where
  "from_socket_addr a =
     \<lparr>na_family = (if is_ipv4 a then AF_IPV4 else AF_IPV6), na_port = addr_port a,
      na_ip = (case addr_ip a of V4 w \<Rightarrow> be32 w @ replicate 12 0 | V6 w \<Rightarrow> be128 w)\<rparr>"

definition to_socket_addr :: "native_address \<Rightarrow> (turn_error, socket_addr) res" where
  "to_socket_addr n =
     and_then
       (if na_family n = AF_IPV4 then Inr (V4 (of_be32 (take 4 (na_ip n))))
        else if na_family n = AF_IPV6 then Inr (V6 (of_be128 (na_ip n)))
        else Inl (Fail (BadAddressFamily (na_family n))))
       (\<lambda>ip. Inr (SocketAddr ip (na_port n)))"

lemma native_address_roundtrip: "to_socket_addr (from_socket_addr a) = Inr a"
  by (cases a; cases "addr_ip a")
    (simp_all add: to_socket_addr_def from_socket_addr_def is_ipv4_def AF_IPV4_def AF_IPV6_def)

section \<open>XOR addresses\<close>

definition xor_bytes :: "bytes \<Rightarrow> bytes \<Rightarrow> bytes" where
  "xor_bytes xs ys = map2 (XOR) xs ys"

definition cookie_port :: u16 where "cookie_port = ucast (drop_bit 16 MAGIC_COOKIE)"

definition encode_xor_address :: "socket_addr \<Rightarrow> bytes \<Rightarrow> bytes" where
  "encode_xor_address a transaction =
     [0, if is_ipv4 a then 1 else 2] @ be16 (addr_port a XOR cookie_port) @
     (case addr_ip a of
        V4 w \<Rightarrow> be32 (w XOR MAGIC_COOKIE)
      | V6 w \<Rightarrow> xor_bytes (be128 w) (be32 MAGIC_COOKIE @ transaction))"

definition decode_xor_address :: "bytes \<Rightarrow> bytes \<Rightarrow> (turn_error, socket_addr) res" where
  "decode_xor_address value transaction =
     (if length value < 4 \<or> value ! 0 \<noteq> 0 then Inl (Fail XorAddressMalformed)
      else let port = u16_of (value ! 2) (value ! 3) XOR cookie_port
           in and_then
             (if value ! 1 = 1 \<and> length value = 8 then
                Inr (V4 (of_be32 (sub_list value 4 8) XOR MAGIC_COOKIE))
              else if value ! 1 = 2 \<and> length value = 20 then
                Inr (V6 (of_be128 (xor_bytes (drop 4 value) (be32 MAGIC_COOKIE @ transaction))))
              else Inl (Fail XorAddressFamilyInvalid))
             (\<lambda>ip. Inr (SocketAddr ip port)))"

lemma length_xor_bytes [simp]: "length (xor_bytes xs ys) = min (length xs) (length ys)"
  by (simp add: xor_bytes_def)

lemma xor_bytes_twice: "length xs \<le> length ys \<Longrightarrow> xor_bytes (xor_bytes xs ys) ys = xs"
  by (induction xs ys rule: list_induct2') (simp_all add: xor_bytes_def xor.assoc)

lemma xor_word_twice: "(a XOR b) XOR b = (a :: 'a::len word)"
  by (simp add: xor.assoc)

lemma length_encode_xor_address:
  "length transaction = 12 \<Longrightarrow>
     length (encode_xor_address a transaction) = (if is_ipv4 a then 8 else 20)"
  by (simp add: encode_xor_address_def is_ipv4_def split: ip_addr.splits)

lemma xor_address_roundtrip:
  assumes "length transaction = 12"
  shows "decode_xor_address (encode_xor_address a transaction) transaction = Inr a"
proof -
  obtain p q where pq: "be16 (addr_port a XOR cookie_port) = [p, q]" using be16_two by blast
  then have port: "u16_of p q XOR cookie_port = addr_port a"
    by (simp add: xor_word_twice)
  show ?thesis
  proof (cases "addr_ip a")
    case (V4 w)
    have "encode_xor_address a transaction = [0, 1, p, q] @ be32 (w XOR MAGIC_COOKIE)"
      by (simp add: encode_xor_address_def is_ipv4_def V4 pq)
    then show ?thesis
      using port V4 by (cases a) (simp add: decode_xor_address_def sub_list_def xor_word_twice numeral_3_eq_3)
  next
    case (V6 w)
    have "encode_xor_address a transaction =
        [0, 2, p, q] @ xor_bytes (be128 w) (be32 MAGIC_COOKIE @ transaction)"
      by (simp add: encode_xor_address_def is_ipv4_def V6 pq)
    then show ?thesis
      using port V6 assms
      by (cases a) (simp add: decode_xor_address_def xor_bytes_twice numeral_3_eq_3)
  qed
qed

lemma decode_xor_address_no_panic: "no_panic (decode_xor_address value transaction)"
  by (auto simp: decode_xor_address_def Let_def)

section \<open>Building messages\<close>

record message_builder =
  mb_bytes :: bytes
  mb_transaction :: bytes

definition with_transaction :: "u16 \<Rightarrow> bytes \<Rightarrow> message_builder" where
  "with_transaction kind transaction =
     \<lparr>mb_bytes = be16 kind @ be16 0 @ be32 MAGIC_COOKIE @ transaction,
      mb_transaction = transaction\<rparr>"

text \<open>The padding loop of \<^verbatim>\<open>attribute\<close>.\<close>

function pad4 :: "bytes \<Rightarrow> bytes" where
  "pad4 bs = (if length bs mod 4 = 0 then bs else pad4 (bs @ [0]))"
  by pat_completeness auto
termination
proof (relation "measure (\<lambda>bs. if length bs mod 4 = 0 then 0 else 4 - length bs mod 4)")
  fix bs :: bytes
  assume "length bs mod 4 \<noteq> 0"
  moreover have "length bs mod 4 < 4" by simp
  ultimately show "(bs @ [0], bs) \<in>
      measure (\<lambda>bs. if length bs mod 4 = 0 then 0 else 4 - length bs mod 4)"
    by (auto simp: mod_Suc)
qed (rule wf_measure)

declare pad4.simps [simp del]

definition add_attribute :: "u16 \<Rightarrow> bytes \<Rightarrow> message_builder \<Rightarrow> message_builder" where
  "add_attribute kind value b =
     b\<lparr>mb_bytes := pad4 (mb_bytes b @ be16 kind @ be16 (of_nat (length value)) @ value)\<rparr>"

definition add_xor_address :: "u16 \<Rightarrow> socket_addr \<Rightarrow> message_builder \<Rightarrow> message_builder" where
  "add_xor_address kind a b = add_attribute kind (encode_xor_address a (mb_transaction b)) b"

definition set_message_length :: "bytes \<Rightarrow> nat \<Rightarrow> (turn_error, bytes) res" where
  "set_message_length bs trailing =
     (if length bs - 20 + trailing > 65535 then Inl (Fail MessageTooLarge)
      else Inr (take 2 bs @ be16 (of_nat (length bs - 20 + trailing)) @ drop 4 bs))"

definition finish :: "(bytes \<Rightarrow> u32) \<Rightarrow> message_builder \<Rightarrow> (turn_error, bytes) res" where
  "finish crc b =
     and_then (set_message_length (mb_bytes b) 8) (\<lambda>bs.
     Inr (mb_bytes (add_attribute ATTR_FINGERPRINT (be32 (crc bs XOR FINGERPRINT_XOR))
            (b\<lparr>mb_bytes := bs\<rparr>))))"

definition ATTR_MESSAGE_INTEGRITY :: u16 where "ATTR_MESSAGE_INTEGRITY = 0x0008"

definition finish_authenticated :: "(bytes \<Rightarrow> bytes \<Rightarrow> bytes) \<Rightarrow> (bytes \<Rightarrow> u32) \<Rightarrow> bytes \<Rightarrow>
    message_builder \<Rightarrow> (turn_error, bytes) res" where
  "finish_authenticated hmac crc key b =
     and_then (set_message_length (mb_bytes b) 24) (\<lambda>bs.
     finish crc (add_attribute ATTR_MESSAGE_INTEGRITY (hmac key bs) (b\<lparr>mb_bytes := bs\<rparr>)))"

section \<open>Reading responses\<close>

definition ATTR_ERROR_CODE :: u16 where "ATTR_ERROR_CODE = 0x0009"

definition verify_integrity :: "(bytes \<Rightarrow> bytes \<Rightarrow> bytes) \<Rightarrow> bytes \<Rightarrow> stun_message \<Rightarrow>
    bytes option \<Rightarrow> bool" where
  "verify_integrity hmac packet m key =
     (case (key, attribute m ATTR_MESSAGE_INTEGRITY) of
        (Some k, Some integrity) \<Rightarrow>
          if length (a_value integrity) \<noteq> 20 \<or> a_header_start integrity < 20 then False
          else let signed = take (a_header_start integrity) packet;
                   signed_length = a_header_start integrity + 24 - 20
               in if signed_length > 65535 then False
                  else hmac k (take 2 signed @ be16 (of_nat signed_length) @ drop 4 signed)
                       = a_value integrity
      | _ \<Rightarrow> False)"

definition error_code :: "stun_message \<Rightarrow> nat option" where
  "error_code m =
     (case attribute m ATTR_ERROR_CODE of
        None \<Rightarrow> None
      | Some a \<Rightarrow>
          if length (a_value a) < 4 \<or> a_value a ! 2 > 6 \<or> a_value a ! 3 > 99 then None
          else Some (unat (a_value a ! 2) * 100 + unat (a_value a ! 3)))"

definition response_requires_integrity :: "stun_message \<Rightarrow> bool" where
  "response_requires_integrity m =
     (case stun_class_of m of
        Success \<Rightarrow> True
      | Error \<Rightarrow> error_code m \<notin> {Some 400, Some 401, Some 420, Some 438}
      | _ \<Rightarrow> False)"

definition is_fingerprinted_allocation_mismatch :: "(bytes \<Rightarrow> u32) \<Rightarrow> stun_message \<Rightarrow> bool" where
  "is_fingerprinted_allocation_mismatch crc m \<longleftrightarrow>
     stun_class_of m = Error \<and> error_code m = Some 437 \<and> fingerprint_valid crc m = Some True"

definition attribute_u32 :: "stun_message \<Rightarrow> u16 \<Rightarrow> u32 option" where
  "attribute_u32 m kind =
     (case attribute m kind of
        None \<Rightarrow> None
      | Some a \<Rightarrow> if length (a_value a) = 4 then Some (of_be32 (a_value a)) else None)"

lemma error_code_bound:
  assumes "error_code m = Some c"
  shows "c \<le> 699"
proof (cases "attribute m ATTR_ERROR_CODE")
  case None
  then show ?thesis using assms by (simp add: error_code_def)
next
  case (Some a)
  then have a: "\<not> a_value a ! 2 > 6" "\<not> a_value a ! 3 > 99"
    and c: "c = unat (a_value a ! 2) * 100 + unat (a_value a ! 3)"
    using assms by (auto simp: error_code_def split: if_splits)
  from a have "unat (a_value a ! 2) \<le> 6" "unat (a_value a ! 3) \<le> 99"
    by (simp_all add: word_le_nat_alt not_less)
  then show ?thesis by (simp add: c)
qed

end
