(* ===== verification/StunRoundtrip.thy ===== *)
theory StunRoundtrip
  imports StunMessage
begin

text \<open>
  Messages built by the core decode to what was put into them: type, transaction and every
  attribute in order; the fingerprint is found valid, and so is the integrity of an
  authenticated message under its key.
\<close>

section \<open>The layout of a built message\<close>

type_synonym attr = "u16 \<times> bytes"

definition encode_attr :: "attr \<Rightarrow> bytes" where
  "encode_attr kv = be16 (fst kv) @ be16 (of_nat (length (snd kv))) @ snd kv
     @ replicate (clear_low2 (length (snd kv) + 3) - length (snd kv)) 0"

definition body :: "attr list \<Rightarrow> bytes" where
  "body ats = concat (map encode_attr ats)"

definition wire :: "u16 \<Rightarrow> u16 \<Rightarrow> bytes \<Rightarrow> attr list \<Rightarrow> bytes" where
  "wire kind len transaction ats =
     be16 kind @ be16 len @ be32 MAGIC_COOKIE @ transaction @ body ats"

lemma length_encode_attr: "length (encode_attr kv) = 4 + clear_low2 (length (snd kv) + 3)"
  using clear_low2_bounds(1) [of "length (snd kv)"] by (simp add: encode_attr_def)

lemma length_encode_attr_aligned: "length (encode_attr kv) mod 4 = 0"
  using clear_low2_aligned [of "length (snd kv) + 3"] by (simp add: length_encode_attr mod_add_left_eq [symmetric])

lemma body_simps [simp]:
  "body [] = []"
  "body (kv # ats) = encode_attr kv @ body ats"
  "body (as @ bs) = body as @ body bs"
  by (simp_all add: body_def)

lemma length_body_aligned: "length (body ats) mod 4 = 0"
proof (induction ats)
  case (Cons kv ats)
  then show ?case
    using length_encode_attr_aligned [of kv] by (simp add: mod_add_eq [symmetric] mod_0_imp_dvd)
qed simp

lemma length_wire: "length transaction = 12 \<Longrightarrow> length (wire kind len transaction ats) = 20 + length (body ats)"
  by (simp add: wire_def)

lemma clear_low2_div: "clear_low2 n = 4 * (n div 4)"
  by (simp add: clear_low2_def minus_mod_eq_mult_div)

lemma clear_low2_shift: "n mod 4 = 0 \<Longrightarrow> clear_low2 (n + m) = n + clear_low2 m"
  by (auto simp: clear_low2_div mod_0_imp_dvd elim!: dvdE)

lemma clear_low2_of_aligned: "n mod 4 = 0 \<Longrightarrow> clear_low2 (n + 3) = n"
  using clear_low2_shift [of n 3] by (simp add: clear_low2_div)

lemma clear_low2_Suc:
  assumes "n mod 4 \<noteq> 0"
  shows "clear_low2 (Suc n + 3) = clear_low2 (n + 3)"
proof -
  let ?q = "4 * (n div 4)" and ?r = "n mod 4"
  have n: "n = ?q + ?r" by simp
  have q: "?q mod 4 = 0" by simp
  have "?r < 4" by simp
  then have "?r = 1 \<or> ?r = 2 \<or> ?r = 3" using assms by arith
  then have r: "clear_low2 (?r + 4) = clear_low2 (?r + 3)"
    by (elim disjE) (simp_all add: clear_low2_div)
  have e: "Suc n + 3 = ?q + (?r + 4)" "?q + (?r + 3) = n + 3" using n by linarith+
  have "clear_low2 (Suc n + 3) = clear_low2 (?q + (?r + 4))" by (simp only: e)
  also have "\<dots> = ?q + clear_low2 (?r + 3)" by (simp only: clear_low2_shift [OF q] r)
  also have "\<dots> = clear_low2 (?q + (?r + 3))" by (simp only: clear_low2_shift [OF q])
  finally show ?thesis by (simp only: e)
qed

lemma pad4_eq: "pad4 bs = bs @ replicate (clear_low2 (length bs + 3) - length bs) 0"
proof (induction bs rule: pad4.induct)
  case (1 bs)
  show ?case
  proof (cases "length bs mod 4 = 0")
    case True
    then show ?thesis by (simp add: pad4.simps [of bs] clear_low2_of_aligned)
  next
    case False
    then have "length bs \<noteq> clear_low2 (length bs + 3)"
      using clear_low2_aligned [of "length bs + 3"] by auto
    then have "length bs < clear_low2 (length bs + 3)"
      using clear_low2_bounds(1) [of "length bs"] by simp
    then have rep: "replicate (clear_low2 (length bs + 3) - length bs) (0 :: byte) =
        0 # replicate (clear_low2 (length bs + 3) - Suc (length bs)) 0"
      by (simp add: Suc_diff_Suc flip: replicate_Suc)
    have "pad4 bs = pad4 (bs @ [0])" using False by (simp add: pad4.simps [of bs])
    also have "\<dots> = (bs @ [0]) @ replicate (clear_low2 (Suc (length bs) + 3) - Suc (length bs)) 0"
      using 1 [OF False] by simp
    finally show ?thesis unfolding clear_low2_Suc [OF False] rep by simp
  qed
qed

lemma add_attribute_bytes:
  assumes "length (mb_bytes b) mod 4 = 0"
  shows "mb_bytes (add_attribute kind value b) = mb_bytes b @ encode_attr (kind, value)"
proof -
  let ?n = "length (mb_bytes b)" and ?v = "length value"
  have al: "(?n + 4) mod 4 = 0" using assms by presburger
  have "clear_low2 (?n + (4 + ?v) + 3) = (?n + 4) + clear_low2 (?v + 3)"
    using clear_low2_shift [OF al, of "?v + 3"] by (simp add: ac_simps)
  then show ?thesis by (simp add: add_attribute_def pad4_eq encode_attr_def)
qed

lemma add_attribute_wire:
  assumes "length transaction = 12" and "mb_bytes b = wire kind len transaction ats"
  shows "mb_bytes (add_attribute k v b) = wire kind len transaction (ats @ [(k, v)])"
proof -
  have "length (mb_bytes b) mod 4 = 0"
    using length_body_aligned [of ats] by (simp add: assms length_wire mod_add_left_eq [symmetric])
  then show ?thesis
    by (simp add: add_attribute_bytes) (simp add: assms(2) wire_def)
qed

lemma set_message_length_wire:
  assumes "length transaction = 12"
  shows "set_message_length (wire kind len transaction ats) trailing =
    (if length (body ats) + trailing > 65535 then Inl (Fail MessageTooLarge)
     else Inr (wire kind (of_nat (length (body ats) + trailing)) transaction ats))"
  by (simp add: set_message_length_def length_wire [OF assms]) (simp add: wire_def)

lemma finish_wire:
  assumes "length transaction = 12" and "mb_bytes b = wire kind len transaction ats"
  shows "finish crc b =
    (if length (body ats) + 8 > 65535 then Inl (Fail MessageTooLarge)
     else let signed = wire kind (of_nat (length (body ats) + 8)) transaction ats
          in Inr (wire kind (of_nat (length (body ats) + 8)) transaction
               (ats @ [(ATTR_FINGERPRINT, be32 (crc signed XOR FINGERPRINT_XOR))])))"
  by (simp add: finish_def assms(2) set_message_length_wire [OF assms(1)] Let_def
      add_attribute_wire [OF assms(1)])

lemma finish_authenticated_wire:
  assumes "length transaction = 12" and "mb_bytes b = wire kind len transaction ats"
    and "\<And>k m. length (hmac k m) = 20"
  shows "finish_authenticated hmac crc key b =
    (if length (body ats) + 32 > 65535 then Inl (Fail MessageTooLarge)
     else let mac = hmac key (wire kind (of_nat (length (body ats) + 24)) transaction ats);
              ats' = ats @ [(ATTR_MESSAGE_INTEGRITY, mac)];
              signed = wire kind (of_nat (length (body ats) + 32)) transaction ats'
          in Inr (wire kind (of_nat (length (body ats) + 32)) transaction
               (ats' @ [(ATTR_FINGERPRINT, be32 (crc signed XOR FINGERPRINT_XOR))])))"
proof (cases "length (body ats) + 24 > 65535")
  case True
  then show ?thesis
    by (simp add: finish_authenticated_def assms(2) set_message_length_wire [OF assms(1)])
next
  case False
  let ?mac = "hmac key (wire kind (of_nat (length (body ats) + 24)) transaction ats)"
  let ?b' = "add_attribute ATTR_MESSAGE_INTEGRITY ?mac
      (b\<lparr>mb_bytes := wire kind (of_nat (length (body ats) + 24)) transaction ats\<rparr>)"
  have b': "mb_bytes ?b' = wire kind (of_nat (length (body ats) + 24)) transaction
      (ats @ [(ATTR_MESSAGE_INTEGRITY, ?mac)])"
    by (rule add_attribute_wire [OF assms(1)]) simp
  have len: "length (encode_attr (ATTR_MESSAGE_INTEGRITY, ?mac)) = 24"
    unfolding length_encode_attr snd_conv assms(3) by (simp add: clear_low2_def)
  have len32: "length (body (ats @ [(ATTR_MESSAGE_INTEGRITY, ?mac)])) + 8 = length (body ats) + 32"
    unfolding body_simps append_Nil2 length_append len by simp
  have fin: "finish_authenticated hmac crc key b = finish crc ?b'"
    using False by (simp add: finish_authenticated_def assms(2) set_message_length_wire [OF assms(1)])
  show ?thesis
    unfolding fin finish_wire [OF assms(1) b'] len32 Let_def by (rule refl)
qed

section \<open>Decoding it\<close>

text \<open>The attributes of a layout, with their places in a message that starts at \<open>p\<close>.\<close>

definition norm_kind :: "u16 \<Rightarrow> u16" where
  "norm_kind k = (if k = 0x8020 then 0x0020 else k)"

fun placed :: "nat \<Rightarrow> attr list \<Rightarrow> stun_attribute list" where
  "placed p [] = []"
| "placed p ((k, v) # ats) =
     \<lparr>a_kind = norm_kind k, a_value = v, a_header_start = p,
      a_value_start = p + 4, a_value_end = p + 4 + length v\<rparr>
     # placed (p + length (encode_attr (k, v))) ats"

lemma placed_append:
  "placed p (as @ bs) = placed p as @ placed (p + length (body as)) bs"
  by (induction p as rule: placed.induct) (simp_all add: ac_simps)

lemma find_append: "find P (xs @ ys) = (case find P xs of None \<Rightarrow> find P ys | Some x \<Rightarrow> Some x)"
  by (induction xs) auto

lemma find_placed_None:
  "list_all (\<lambda>kv. norm_kind (fst kv) \<noteq> k) ats \<Longrightarrow>
     find (\<lambda>a. a_kind a = k) (placed p ats) = None"
  by (induction p ats rule: placed.induct) auto

text \<open>Reading a header field inside the layout.\<close>

lemma read_u16_at:
  "read_u16 (pre @ be16 w @ rest) (length pre) = Inr w"
proof -
  obtain a b where ab: "be16 w = [a, b]" using be16_two by blast
  then show ?thesis by (simp add: read_u16_def nth_append)
qed

lemma walk_layout:
  "raw = pre @ body ats \<Longrightarrow> length raw \<le> 65555 \<Longrightarrow> \<forall>kv \<in> set ats. length (snd kv) < 65536 \<Longrightarrow>
     scan_attributes raw (length raw) (length pre) = Inr ()
     \<and> attributes_from raw (length raw) (length pre) = Inr (placed (length pre) ats)"
proof (induction ats arbitrary: pre)
  case Nil
  then show ?case by (simp add: scan_attributes_end attributes_from.simps)
next
  case (Cons kv ats)
  obtain k v where kv: "kv = (k, v)" by (cases kv)
  let ?p = "length pre"
  let ?pad = "clear_low2 (length v + 3)"
  let ?fill = "replicate (?pad - length v) 0 @ body ats"
  let ?pre' = "pre @ encode_attr kv"
  note prems = Cons.prems
  have v: "length v < 65536" using prems(3) by (simp add: kv)
  then have n: "unat (of_nat (length v) :: u16) = length v" by (simp add: unat_of_nat)
  have raw: "raw = pre @ be16 k @ be16 (of_nat (length v)) @ v @ ?fill"
    using prems(1) by (simp add: kv encode_attr_def)
  have len: "length raw = ?p + 4 + ?pad + length (body ats)"
    using clear_low2_bounds(1) [of "length v"] by (simp add: raw)
  have r0: "read_u16 raw ?p = (Inr k :: (stun_error, u16) res)"
    unfolding raw by (rule read_u16_at)
  have r2: "read_u16 raw (?p + 2) = (Inr (of_nat (length v)) :: (stun_error, u16) res)"
    using read_u16_at [of "pre @ be16 k" "of_nat (length v)" "v @ ?fill"] by (simp add: raw)
  have p': "length ?pre' = ?p + 4 + ?pad" by (simp add: length_encode_attr kv)
  have raw': "raw = ?pre' @ body ats" using prems(1) by simp
  have at: "\<forall>kv \<in> set ats. length (snd kv) < 65536" using prems(3) by simp
  note IH = conjunct1 [OF Cons.IH [OF raw' prems(2) at]] conjunct2 [OF Cons.IH [OF raw' prems(2) at]]
  have "scan_attributes raw (length raw) ?p = scan_attributes raw (length raw) (length ?pre')"
    unfolding p' by (subst scan_attributes_step) (use len prems(2) in \<open>simp_all add: r2 n\<close>)
  then have s: "scan_attributes raw (length raw) ?p = Inr ()" by (simp only: IH(1))
  have slice: "slice raw (?p + 4) (?p + 4 + length v) = (Inr v :: (stun_error, bytes) res)"
  proof -
    have "sub_list raw (?p + 4) (?p + 4 + length v) = v"
      unfolding raw by (simp add: sub_list_def)
    then show ?thesis
      using clear_low2_bounds(1) [of "length v"] by (subst slice_ok) (simp_all add: len)
  qed
  have nxt: "next_attribute raw ?p = Inr (\<lparr>a_kind = norm_kind k,
        a_value = v, a_header_start = ?p, a_value_start = ?p + 4, a_value_end = ?p + 4 + length v\<rparr>,
      length ?pre')"
    unfolding next_attribute_def r0 r2 Let_def and_then_simps n slice p' norm_kind_def by simp
  have "attributes_from raw (length raw) ?p = Inr (placed ?p (kv # ats))"
    using IH(2) by (subst attributes_from.simps) (simp add: len nxt kv)
  with s show ?case by simp
qed

lemma decode_wire:
  assumes tx: "length transaction = 12" and kind: "kind AND 0xc000 = 0" "kind \<noteq> 0"
    and size: "length (body ats) < 65536" and vals: "\<forall>kv \<in> set ats. length (snd kv) < 65536"
  shows "\<exists>m. stun_decode (wire kind (of_nat (length (body ats))) transaction ats) = Inr m
    \<and> m_raw m = wire kind (of_nat (length (body ats))) transaction ats \<and> m_kind m = kind
    \<and> m_transaction m = transaction \<and> m_end m = 20 + length (body ats)
    \<and> attributes m = Inr (placed 20 ats)"
proof -
  let ?len = "of_nat (length (body ats)) :: u16"
  let ?raw = "wire kind ?len transaction ats"
  let ?hdr = "be16 kind @ be16 ?len @ be32 MAGIC_COOKIE @ transaction"
  have raw: "?raw = ?hdr @ body ats" and hdr: "length ?hdr = 20" by (simp_all add: wire_def tx)
  have n: "unat ?len = length (body ats)" using size by (simp add: unat_of_nat)
  have len: "length ?raw = 20 + length (body ats)" by (rule length_wire [OF tx])
  note walk = walk_layout [OF raw _ vals, unfolded hdr, THEN conjunct1]
    walk_layout [OF raw _ vals, unfolded hdr, THEN conjunct2]
  have r0: "read_u16 ?raw 0 = (Inr kind :: (stun_error, u16) res)"
    using read_u16_at [of "[]" kind] by (simp add: wire_def)
  have r2: "read_u16 ?raw 2 = (Inr ?len :: (stun_error, u16) res)"
    using read_u16_at [of "be16 kind" ?len "be32 MAGIC_COOKIE @ transaction @ body ats"]
    by (simp add: wire_def)
  have s1: "slice ?raw 4 8 = (Inr (be32 MAGIC_COOKIE) :: (stun_error, bytes) res)"
    by (subst slice_ok) (simp_all add: len, simp add: wire_def sub_list_def)
  have s2: "slice ?raw 8 20 = (Inr transaction :: (stun_error, bytes) res)"
    by (subst slice_ok) (simp_all add: len, simp add: wire_def sub_list_def tx)
  have al: "unat ?len mod 4 = 0" by (simp only: n length_body_aligned)
  have e: "checked_add 20 (unat ?len) = Some (20 + length (body ats))"
    using size by (simp add: n usize_max_def)
  have "stun_decode ?raw = Inr \<lparr>m_raw = ?raw, m_kind = kind, m_transaction = transaction,
      m_end = 20 + length (body ats)\<rparr>"
    using walk(1) size
    by (simp add: stun_decode_def r0 r2 s1 s2 al e len kind HEADER_SIZE_def and_then_ensure)
  moreover have "attributes \<lparr>m_raw = ?raw, m_kind = kind, m_transaction = transaction,
      m_end = 20 + length (body ats)\<rparr> = Inr (placed 20 ats)"
    using walk(2) size by (simp add: attributes_def len HEADER_SIZE_def)
  ultimately show ?thesis by simp
qed

section \<open>The round trip\<close>

definition build :: "u16 \<Rightarrow> bytes \<Rightarrow> attr list \<Rightarrow> message_builder" where
  "build kind transaction ats =
     foldl (\<lambda>b kv. add_attribute (fst kv) (snd kv) b) (with_transaction kind transaction) ats"

lemma build_wire:
  assumes "length transaction = 12"
  shows "mb_bytes (build kind transaction ats) = wire kind 0 transaction ats"
proof (induction ats rule: rev_induct)
  case Nil
  show ?case by (simp add: build_def with_transaction_def wire_def)
next
  case (snoc kv ats)
  then show ?case
    using add_attribute_wire [OF assms, of "build kind transaction ats" kind 0 ats "fst kv" "snd kv"]
    by (simp add: build_def)
qed

definition plain_attr :: "attr \<Rightarrow> bool" where
  "plain_attr kv \<longleftrightarrow> length (snd kv) < 65536 \<and> norm_kind (fst kv) \<noteq> ATTR_MESSAGE_INTEGRITY
     \<and> norm_kind (fst kv) \<noteq> ATTR_FINGERPRINT"

lemma norm_kind_own [simp]:
  "norm_kind ATTR_MESSAGE_INTEGRITY = ATTR_MESSAGE_INTEGRITY"
  "norm_kind ATTR_FINGERPRINT = ATTR_FINGERPRINT"
  "ATTR_MESSAGE_INTEGRITY \<noteq> ATTR_FINGERPRINT"
  by (simp_all add: norm_kind_def ATTR_MESSAGE_INTEGRITY_def ATTR_FINGERPRINT_def)

lemma length_encode_four: "length v = 4 \<Longrightarrow> length (encode_attr (k, v)) = 8"
  by (simp add: length_encode_attr clear_low2_div)

lemma length_encode_twenty: "length v = 20 \<Longrightarrow> length (encode_attr (k, v)) = 24"
  by (simp add: length_encode_attr clear_low2_div)

lemma map_placed: "map (\<lambda>a. (a_kind a, a_value a)) (placed p ats) = map (\<lambda>(k, v). (norm_kind k, v)) ats"
  by (induction p ats rule: placed.induct) auto

lemma plain_find:
  "list_all plain_attr ats \<Longrightarrow> find (\<lambda>a. a_kind a = ATTR_FINGERPRINT) (placed p ats) = None"
  "list_all plain_attr ats \<Longrightarrow> find (\<lambda>a. a_kind a = ATTR_MESSAGE_INTEGRITY) (placed p ats) = None"
  by (auto intro!: find_placed_None simp: plain_attr_def list_all_iff)

text \<open>The fingerprint that closes a message is valid.\<close>

lemma fingerprint_of_layout:
  assumes tx: "length transaction = 12" and m: "m_raw m = wire kind len transaction (ats @ [(ATTR_FINGERPRINT, fp)])"
    and e: "m_end m = 20 + length (body (ats @ [(ATTR_FINGERPRINT, fp)]))"
    and at: "attributes m = Inr (placed 20 (ats @ [(ATTR_FINGERPRINT, fp)]))"
    and none: "find (\<lambda>a. a_kind a = ATTR_FINGERPRINT) (placed 20 ats) = None"
    and fp: "fp = be32 (crc (wire kind len transaction ats) XOR FINGERPRINT_XOR)"
  shows "fingerprint_valid crc m = Some True"
proof -
  have four: "length fp = 4" by (simp add: fp)
  have a: "attribute m ATTR_FINGERPRINT = Some \<lparr>a_kind = ATTR_FINGERPRINT, a_value = fp,
      a_header_start = 20 + length (body ats), a_value_start = 20 + length (body ats) + 4,
      a_value_end = 20 + length (body ats) + 4 + length fp\<rparr>"
    by (simp add: attribute_def at placed_append find_append none)
  have "take (20 + length (body ats)) (m_raw m) = wire kind len transaction ats"
    by (simp add: m) (simp add: wire_def tx)
  then show ?thesis
    using four by (simp add: fingerprint_valid_def a e length_encode_four) (simp add: fp)
qed

lemma verify_integrityI:
  assumes "attribute m ATTR_MESSAGE_INTEGRITY = Some a" and "length (a_value a) = 20"
    and "a_header_start a = 20 + n" and "n + 24 \<le> 65535"
    and "hmac k (take 2 (take (20 + n) packet) @ be16 (of_nat (n + 24)) @ drop 4 (take (20 + n) packet))
      = a_value a"
  shows "verify_integrity hmac packet m (Some k)"
proof -
  have "20 + n + 24 - 20 = n + 24" by simp
  then show ?thesis using assms by (simp add: verify_integrity_def Let_def add.commute [of 24 n] del: of_nat_add)
qed

text \<open>C5: Every request the core builds with attributes of its own decodes to the same type,
  transaction and attributes in the same order, followed by the integrity and the fingerprint;
  both are then found valid, whatever the MAC and the checksum functions are.\<close>

theorem authenticated_request_roundtrip:
  assumes "length transaction = 12" and "kind AND 0xc000 = 0" and "kind \<noteq> 0"
    and "list_all plain_attr ats" and "length (body ats) + 32 \<le> 65535"
    and "\<And>k bs. length (hmac k bs) = 20"
  shows "\<exists>raw m fp mac. finish_authenticated hmac crc key (build kind transaction ats) = Inr raw
    \<and> stun_decode raw = Inr m \<and> m_kind m = kind \<and> m_transaction m = transaction
    \<and> map_sum id (map (\<lambda>a. (a_kind a, a_value a))) (attributes m) =
        Inr (map (\<lambda>(k, v). (norm_kind k, v)) ats
          @ [(ATTR_MESSAGE_INTEGRITY, mac), (ATTR_FINGERPRINT, fp)])
    \<and> fingerprint_valid crc m = Some True \<and> verify_integrity hmac raw m (Some key)"
proof -
  let ?n = "length (body ats)"
  let ?mac = "hmac key (wire kind (of_nat (?n + 24)) transaction ats)"
  let ?ats = "ats @ [(ATTR_MESSAGE_INTEGRITY, ?mac)]"
  let ?signed = "wire kind (of_nat (?n + 32)) transaction ?ats"
  let ?fp = "be32 (crc ?signed XOR FINGERPRINT_XOR)"
  let ?all = "?ats @ [(ATTR_FINGERPRINT, ?fp)]"
  let ?raw = "wire kind (of_nat (?n + 32)) transaction ?all"
  have mac: "length ?mac = 20" by (rule assms(6))
  have len: "length (body ?all) = ?n + 32"
    unfolding body_simps append_Nil2 length_append
      length_encode_twenty [OF mac] length_encode_four [OF length_be(2)] by simp
  have fin: "finish_authenticated hmac crc key (build kind transaction ats) = Inr ?raw"
    using finish_authenticated_wire [OF assms(1) build_wire [OF assms(1)] assms(6)] assms(5)
    unfolding Let_def by auto
  have vals: "\<forall>kv \<in> set ?all. length (snd kv) < 65536"
    using assms(4) mac by (auto simp: list_all_iff plain_attr_def)
  obtain m where m: "stun_decode ?raw = Inr m" "m_raw m = ?raw" "m_kind m = kind"
      "m_transaction m = transaction" "m_end m = 20 + length (body ?all)"
      "attributes m = Inr (placed 20 ?all)"
    using decode_wire [OF assms(1-3) _ vals] assms(5) unfolding len by auto
  have fp: "fingerprint_valid crc m = Some True"
    by (rule fingerprint_of_layout [where crc = crc, OF assms(1) m(2,5,6) _ refl])
      (simp add: placed_append find_append plain_find(1) [OF assms(4)])
  have a: "attribute m ATTR_MESSAGE_INTEGRITY = Some \<lparr>a_kind = ATTR_MESSAGE_INTEGRITY,
      a_value = ?mac, a_header_start = 20 + ?n, a_value_start = 20 + ?n + 4,
      a_value_end = 20 + ?n + 4 + length ?mac\<rparr>"
    by (simp add: attribute_def m(6) placed_append find_append plain_find(2) [OF assms(4)])
  have signed: "take (20 + ?n) ?raw = wire kind (of_nat (?n + 32)) transaction ats"
    by (simp add: wire_def assms(1))
  have mac_in: "take 2 (take (20 + ?n) ?raw) @ be16 (of_nat (?n + 24)) @ drop 4 (take (20 + ?n) ?raw) =
      wire kind (of_nat (?n + 24)) transaction ats"
    unfolding signed by (simp add: wire_def)
  have small: "?n + 24 \<le> 65535" using assms(5) by linarith
  have "verify_integrity hmac ?raw m (Some key)"
    by (rule verify_integrityI [OF a _ _ small]) (simp_all only: stun_attribute.simps mac mac_in)
  moreover have "map_sum id (map (\<lambda>a. (a_kind a, a_value a))) (attributes m) =
        Inr (map (\<lambda>(k, v). (norm_kind k, v)) ats
          @ [(ATTR_MESSAGE_INTEGRITY, ?mac), (ATTR_FINGERPRINT, ?fp)])"
    unfolding m(6) map_sum.simps map_placed by simp
  ultimately show ?thesis using fin m fp by blast
qed

theorem authenticated_request_roundtrip_witness:
  "\<exists>raw m. finish_authenticated (\<lambda>k bs. replicate 20 7) (\<lambda>_. 5) [1]
      (build 3 (replicate 12 9) [(0x19, [17, 0, 0, 0])]) = Inr raw
    \<and> stun_decode raw = Inr m \<and> fingerprint_valid (\<lambda>_. 5) m = Some True
    \<and> verify_integrity (\<lambda>k bs. replicate 20 7) raw m (Some [1])"
proof -
  have "list_all plain_attr [(0x19, [17, 0, 0, 0])]"
    by (simp add: plain_attr_def norm_kind_def ATTR_MESSAGE_INTEGRITY_def ATTR_FINGERPRINT_def)
  moreover have "length (body [(0x19, [17, 0, 0, 0])]) + 32 \<le> 65535"
    by (simp add: length_encode_four)
  ultimately show ?thesis
    using authenticated_request_roundtrip [of "replicate 12 9" 3 "[(0x19, [17, 0, 0, 0])]"
        "\<lambda>k bs. replicate 20 7" "\<lambda>_. 5" "[1]"]
    by auto
qed

end
