(* ===== verification/TurnCore.thy ===== *)
theory TurnCore
  imports StunRoundtrip Machine
begin

text \<open>
  The TURN client core of \<^verbatim>\<open>backend/turn_core.rs\<close>: a state machine without input or output of
  its own. It is fed datagrams and the time, queues control packets and events, and keeps the
  allocation, the permission and the channel alive. Every handler of \<^verbatim>\<open>NativeCore\<close> is a
  function on the state \<^verbatim>\<open>Inner\<close>; the mutex makes the handlers atomic. Times are nanoseconds of
  a monotonic clock, read once per handler. The random transaction identifiers, MD5, HMAC and
  CRC are parameters.
\<close>

section \<open>Constants\<close>

definition ms :: "nat \<Rightarrow> nat" where "ms n = n * 1000000"
definition secs :: "nat \<Rightarrow> nat" where "secs n = n * 1000000000"

definition RESULT_BUFFER_TOO_SMALL :: int where "RESULT_BUFFER_TOO_SMALL = - 2"
definition RESULT_INVALID_ARGUMENT :: int where "RESULT_INVALID_ARGUMENT = - 3"
definition RESULT_NOT_CONTROL :: int where "RESULT_NOT_CONTROL = - 5"
definition RESULT_TIMEOUT :: int where "RESULT_TIMEOUT = - 6"
definition RESULT_AUTHENTICATION :: int where "RESULT_AUTHENTICATION = - 7"
definition RESULT_PROTOCOL :: int where "RESULT_PROTOCOL = - 8"

lemmas result_codes =
  RESULT_BUFFER_TOO_SMALL_def RESULT_INVALID_ARGUMENT_def RESULT_NOT_CONTROL_def
  RESULT_TIMEOUT_def RESULT_AUTHENTICATION_def RESULT_PROTOCOL_def

datatype event_kind =
    EventState
  | EventRequestComplete
  | EventChannelBound
  | EventRelayAddress
  | EventControlOverflow
  | EventForcedDestroy
  | EventEventOverflow
  | EventStunResponseError
  | EventChannelRebindExhausted

datatype turn_state = StNull | StAllocating | StReady | StDeallocating | StDeallocated | StDestroying

datatype operation = Allocate | Refresh | Deallocate | Permission | Channel

fun op_method :: "operation \<Rightarrow> nat" where
  "op_method Allocate = 3"
| "op_method Refresh = 4"
| "op_method Deallocate = 4"
| "op_method Permission = 8"
| "op_method Channel = 9"

definition ATTR_USERNAME :: u16 where "ATTR_USERNAME = 0x0006"
definition ATTR_CHANNEL_NUMBER :: u16 where "ATTR_CHANNEL_NUMBER = 0x000c"
definition ATTR_LIFETIME :: u16 where "ATTR_LIFETIME = 0x000d"
definition ATTR_XOR_PEER_ADDRESS :: u16 where "ATTR_XOR_PEER_ADDRESS = 0x0012"
definition ATTR_REALM :: u16 where "ATTR_REALM = 0x0014"
definition ATTR_NONCE :: u16 where "ATTR_NONCE = 0x0015"
definition ATTR_XOR_RELAYED_ADDRESS :: u16 where "ATTR_XOR_RELAYED_ADDRESS = 0x0016"
definition ATTR_REQUESTED_ADDRESS_FAMILY :: u16 where "ATTR_REQUESTED_ADDRESS_FAMILY = 0x0017"
definition ATTR_REQUESTED_TRANSPORT :: u16 where "ATTR_REQUESTED_TRANSPORT = 0x0019"

definition CONTROL_CAPACITY :: nat where "CONTROL_CAPACITY = 16"
definition EVENT_CAPACITY :: nat where "EVENT_CAPACITY = 64"
definition INITIAL_RTO :: nat where "INITIAL_RTO = ms 200"
definition MAX_RTO :: nat where "MAX_RTO = ms 1600"
definition MAX_TRANSMISSIONS :: nat where "MAX_TRANSMISSIONS = 7"
definition STREAM_TRANSACTION_TIMEOUT :: nat where "STREAM_TRANSACTION_TIMEOUT = secs 12"
definition REQUESTED_LIFETIME :: u32 where "REQUESTED_LIFETIME = 600"
definition MAINTENANCE_RETRY_BASE :: nat where "MAINTENANCE_RETRY_BASE = secs 1"
definition MAINTENANCE_RETRY_MAX :: nat where "MAINTENANCE_RETRY_MAX = secs 30"
definition MAX_CHANNEL_MAINTENANCE_FAILURES :: nat where "MAX_CHANNEL_MAINTENANCE_FAILURES = 4"
definition CHANNEL_NUMBER :: u16 where "CHANNEL_NUMBER = 0x4000"

section \<open>The state\<close>

datatype control_transport = Datagram | StreamTransport

record turn_profile =
  prof_allocation_refresh :: nat
  prof_maintenance_refresh :: nat
  prof_keepalive_interval :: nat
  prof_max_nonce_retries :: nat

definition PJNATH_COMPAT :: turn_profile where
  "PJNATH_COMPAT =
     \<lparr>prof_allocation_refresh = secs 300, prof_maintenance_refresh = secs 175,
      prof_keepalive_interval = secs 10, prof_max_nonce_retries = 3\<rparr>"

record native_event =
  ev_kind :: event_kind
  ev_method :: nat
  ev_status :: int
  ev_stun_code :: nat
  ev_state :: turn_state
  ev_previous :: turn_state
  ev_dropped :: nat
  ev_channel :: u16
  ev_address :: native_address

definition default_event :: "event_kind \<Rightarrow> native_event" where
  "default_event k =
     \<lparr>ev_kind = k, ev_method = 0, ev_status = 0, ev_stun_code = 0, ev_state = StNull,
      ev_previous = StNull, ev_dropped = 0, ev_channel = 0, ev_address = native_default\<rparr>"

record pending_op =
  po_operation :: operation
  po_transaction :: bytes
  po_packet :: bytes
  po_next_attempt :: nat
  po_rto :: nat
  po_transmissions :: nat
  po_nonce_retries :: nat
  po_authenticated :: bool

record inner =
  server :: socket_addr
  peer :: socket_addr
  username :: bytes
  password :: bytes
  realm :: "bytes option"
  nonce :: "bytes option"
  key :: "bytes option"
  state :: turn_state
  relay :: "socket_addr option"
  channel :: "u16 option"
  controls :: "(bytes \<times> socket_addr) list"
  events :: "native_event list"
  pending_ops :: "pending_op list"
  allocation_refresh :: "nat option"
  allocation_expires_at :: "nat option"
  maintenance_refresh :: "nat option"
  permission_retry :: "nat option"
  channel_retry :: "nat option"
  refresh_failures :: nat
  permission_failures :: nat
  channel_failures :: nat
  keepalive :: "nat option"
  shutting_down :: bool
  destroyed :: bool
  profile :: turn_profile
  transport :: control_transport
  draws :: nat

text \<open>The functions of other crates, and the source of random transaction identifiers.\<close>

record turn_env =
  env_hmac :: "bytes \<Rightarrow> bytes \<Rightarrow> bytes"
  env_crc :: "bytes \<Rightarrow> u32"
  env_md5 :: "bytes \<Rightarrow> bytes"
  env_random :: "nat \<Rightarrow> bytes"

definition core_new :: "socket_addr \<Rightarrow> bytes \<Rightarrow> bytes \<Rightarrow> socket_addr \<Rightarrow> turn_profile \<Rightarrow>
    control_transport \<Rightarrow> (turn_error, inner) res" where
  "core_new srv user pass pr prof tr =
     (if addr_port srv = 0 \<or> addr_port pr = 0 then Inl (Fail InvalidArgument)
      else if user = [] \<or> length user > 512 \<or> pass = [] \<or> length pass > 512
        then Inl (Fail InvalidArgument)
      else Inr
        \<lparr>server = srv, peer = pr, username = user, password = pass, realm = None, nonce = None,
         key = None, state = StNull, relay = None, channel = None, controls = [], events = [],
         pending_ops = [], allocation_refresh = None, allocation_expires_at = None,
         maintenance_refresh = None, permission_retry = None, channel_retry = None,
         refresh_failures = 0, permission_failures = 0, channel_failures = 0, keepalive = None,
         shutting_down = False, destroyed = False, profile = prof, transport = tr, draws = 0\<rparr>)"

section \<open>Queues\<close>

definition push_event :: "native_event \<Rightarrow> inner \<Rightarrow> inner" where
  "push_event e s =
     (if length (events s) = EVENT_CAPACITY
      then s\<lparr>events := tl (events s) @
               [(default_event EventEventOverflow)
                  \<lparr>ev_status := RESULT_BUFFER_TOO_SMALL, ev_dropped := 1\<rparr>]\<rparr>
      else s\<lparr>events := events s @ [e]\<rparr>)"

definition queue_packet :: "bytes \<Rightarrow> inner \<Rightarrow> inner" where
  "queue_packet packet s =
     (let s1 = (if length (controls s) = CONTROL_CAPACITY
                then push_event ((default_event EventControlOverflow)
                       \<lparr>ev_status := RESULT_BUFFER_TOO_SMALL, ev_dropped := 1\<rparr>)
                     (s\<lparr>controls := tl (controls s)\<rparr>)
                else s)
      in s1\<lparr>controls := controls s1 @ [(packet, server s1)]\<rparr>)"

definition queue_keepalive :: "inner \<Rightarrow> inner" where
  "queue_keepalive s =
     (case channel s of
        None \<Rightarrow> s
      | Some c \<Rightarrow> queue_packet (be16 c @ be16 1 @ [0xff, 0, 0, 0]) s)"

definition set_state :: "turn_state \<Rightarrow> inner \<Rightarrow> inner" where
  "set_state st s =
     (if state s = st then s
      else push_event ((default_event EventState)\<lparr>ev_state := st, ev_previous := state s\<rparr>)
             (s\<lparr>state := st\<rparr>))"

definition remove_queued_transaction :: "bytes \<Rightarrow> inner \<Rightarrow> inner" where
  "remove_queued_transaction tx s =
     s\<lparr>controls := filter (\<lambda>(p, _). get_slice p 8 20 \<noteq> Some tx) (controls s)\<rparr>"

section \<open>Operations\<close>

definition set_auth :: "turn_env \<Rightarrow> bytes \<Rightarrow> bytes \<Rightarrow> inner \<Rightarrow> inner" where
  "set_auth E rlm nce s =
     s\<lparr>key := Some (env_md5 E (username s @ ascii '':'' @ rlm @ ascii '':'' @ password s)),
       realm := Some rlm, nonce := Some nce\<rparr>"

definition has_operation :: "operation \<Rightarrow> inner \<Rightarrow> bool" where
  "has_operation op s \<longleftrightarrow> list_ex (\<lambda>p. po_operation p = op) (pending_ops s)"

definition transaction_timeout :: "inner \<Rightarrow> nat" where
  "transaction_timeout s =
     (case transport s of Datagram \<Rightarrow> INITIAL_RTO | StreamTransport \<Rightarrow> STREAM_TRANSACTION_TIMEOUT)"

definition request_attributes :: "operation \<Rightarrow> message_builder \<Rightarrow> inner \<Rightarrow> message_builder" where
  "request_attributes op b s =
     (case op of
        Allocate \<Rightarrow>
          add_attribute ATTR_LIFETIME (be32 REQUESTED_LIFETIME)
            (add_attribute ATTR_REQUESTED_ADDRESS_FAMILY [if is_ipv4 (peer s) then 1 else 2, 0, 0, 0]
              (add_attribute ATTR_REQUESTED_TRANSPORT [17, 0, 0, 0] b))
      | Refresh \<Rightarrow> add_attribute ATTR_LIFETIME (be32 REQUESTED_LIFETIME) b
      | Deallocate \<Rightarrow> add_attribute ATTR_LIFETIME (be32 0) b
      | Permission \<Rightarrow> add_xor_address ATTR_XOR_PEER_ADDRESS (peer s) b
      | Channel \<Rightarrow>
          add_xor_address ATTR_XOR_PEER_ADDRESS (peer s)
            (add_attribute ATTR_CHANNEL_NUMBER [0x40, 0, 0, 0] b))"

definition opt_bytes :: "bytes option \<Rightarrow> bytes" where
  "opt_bytes x = (case x of None \<Rightarrow> [] | Some bs \<Rightarrow> bs)"

definition build_request :: "turn_env \<Rightarrow> operation \<Rightarrow> bytes \<Rightarrow> bool \<Rightarrow> inner \<Rightarrow>
    (turn_error, bytes) res" where
  "build_request E op tx authenticated s =
     (let b = request_attributes op (with_transaction (of_nat (op_method op)) tx) s
      in if authenticated then
           (let b' = add_attribute ATTR_NONCE (opt_bytes (nonce s))
                      (add_attribute ATTR_REALM (opt_bytes (realm s))
                        (add_attribute ATTR_USERNAME (username s) b))
            in and_then (ok_or (key s) AuthKeyMissing) (\<lambda>k.
               finish_authenticated (env_hmac E) (env_crc E) k b'))
         else finish (env_crc E) b)"

definition start_operation :: "turn_env \<Rightarrow> nat \<Rightarrow> operation \<Rightarrow> bool \<Rightarrow> nat \<Rightarrow> inner \<Rightarrow>
    inner \<times> (turn_error, unit) res" where
  "start_operation E now op authenticated nonce_retries s =
     (if has_operation op s then
        ((if op = Channel then
            (case find (\<lambda>p. po_operation p = op) (pending_ops s) of
               None \<Rightarrow> s | Some p \<Rightarrow> queue_packet (po_packet p) s)
          else s), Inr ())
      else if authenticated \<and> (realm s = None \<or> nonce s = None \<or> key s = None)
        then (s, Inl (Fail AuthIncomplete))
      else
        let tx = env_random E (draws s);
            s1 = s\<lparr>draws := draws s + 1\<rparr>
        in case build_request E op tx authenticated s1 of
             Inl f \<Rightarrow> (s1, Inl f)
           | Inr packet \<Rightarrow>
               let s2 = queue_packet packet s1
               in (s2\<lparr>pending_ops := pending_ops s2 @
                      [\<lparr>po_operation = op, po_transaction = tx, po_packet = packet,
                        po_next_attempt = now + transaction_timeout s2, po_rto = INITIAL_RTO,
                        po_transmissions = 1, po_nonce_retries = nonce_retries,
                        po_authenticated = authenticated\<rparr>]\<rparr>, Inr ()))"

definition complete :: "operation \<Rightarrow> int \<Rightarrow> nat \<Rightarrow> inner \<Rightarrow> inner" where
  "complete op status code s =
     push_event ((default_event EventRequestComplete)
       \<lparr>ev_method := op_method op, ev_status := status, ev_stun_code := code,
        ev_state := state s,
        ev_channel := (case channel s of None \<Rightarrow> 0 | Some c \<Rightarrow> c),
        ev_address := (case relay s of None \<Rightarrow> native_default | Some a \<Rightarrow> from_socket_addr a)\<rparr>) s"

definition destroy_allocation :: "operation \<Rightarrow> int \<Rightarrow> nat \<Rightarrow> inner \<Rightarrow> inner" where
  "destroy_allocation op status code s =
     set_state (if op = Deallocate then StDeallocated else StDestroying)
       ((complete op status code s)
          \<lparr>controls := [], pending_ops := [], channel := None, allocation_refresh := None,
           allocation_expires_at := None, maintenance_refresh := None, permission_retry := None,
           channel_retry := None, keepalive := None, relay := None\<rparr>)"

definition destroy_after_channel_rebind_exhausted :: "inner \<Rightarrow> inner" where
  "destroy_after_channel_rebind_exhausted s =
     set_state StDestroying
       (push_event ((default_event EventChannelRebindExhausted)
            \<lparr>ev_status := RESULT_TIMEOUT, ev_state := StDestroying\<rparr>)
          (s\<lparr>controls := [], pending_ops := [], channel := None, maintenance_refresh := None,
             permission_retry := None, channel_retry := None, keepalive := None\<rparr>))"

text \<open>The failure counters are bytes that saturate.\<close>

definition saturating_succ :: "nat \<Rightarrow> nat" where
  "saturating_succ n = min (n + 1) 255"

definition retry_delay :: "nat \<Rightarrow> nat" where
  "retry_delay failures =
     min (MAINTENANCE_RETRY_BASE * 2 ^ (min (failures - 1) 5)) MAINTENANCE_RETRY_MAX"

definition schedule_maintenance_retry :: "operation \<Rightarrow> nat \<Rightarrow> inner \<Rightarrow> inner \<times> bool" where
  "schedule_maintenance_retry op now s =
     (case op of
        Refresh \<Rightarrow>
          (let n = saturating_succ (refresh_failures s)
           in (s\<lparr>refresh_failures := n, allocation_refresh := Some (now + retry_delay n)\<rparr>, True))
      | Permission \<Rightarrow>
          (let n = saturating_succ (permission_failures s)
           in (s\<lparr>permission_failures := n, permission_retry := Some (now + retry_delay n)\<rparr>, True))
      | Channel \<Rightarrow>
          (let n = saturating_succ (channel_failures s)
           in if n \<ge> MAX_CHANNEL_MAINTENANCE_FAILURES then (s\<lparr>channel_failures := n\<rparr>, False)
              else (s\<lparr>channel_failures := n, channel_retry := Some (now + retry_delay n)\<rparr>, True))
      | _ \<Rightarrow> (s, True))"

definition complete_failure :: "operation \<Rightarrow> int \<Rightarrow> nat \<Rightarrow> nat \<Rightarrow> inner \<Rightarrow> inner" where
  "complete_failure op status code now s =
     (if op \<in> {Refresh, Permission, Channel} \<and> state s = StReady
         \<and> (case allocation_expires_at s of None \<Rightarrow> False | Some d \<Rightarrow> now < d)
      then (let r = schedule_maintenance_retry op now (complete op status code s)
            in if snd r then fst r else destroy_after_channel_rebind_exhausted (fst r))
      else destroy_allocation op status code s)"

section \<open>What the helpers leave alone\<close>

named_theorems frame_simps \<open>fields an operation of the core leaves alone\<close>

lemma push_event_fields [simp, frame_simps]:
  "controls (push_event e s) = controls s" "pending_ops (push_event e s) = pending_ops s"
  "state (push_event e s) = state s" "relay (push_event e s) = relay s"
  "channel (push_event e s) = channel s" "key (push_event e s) = key s"
  "realm (push_event e s) = realm s" "nonce (push_event e s) = nonce s"
  "allocation_refresh (push_event e s) = allocation_refresh s"
  "allocation_expires_at (push_event e s) = allocation_expires_at s"
  "maintenance_refresh (push_event e s) = maintenance_refresh s"
  "permission_retry (push_event e s) = permission_retry s"
  "channel_retry (push_event e s) = channel_retry s" "keepalive (push_event e s) = keepalive s"
  "shutting_down (push_event e s) = shutting_down s" "destroyed (push_event e s) = destroyed s"
  "profile (push_event e s) = profile s" "transport (push_event e s) = transport s"
  "server (push_event e s) = server s" "peer (push_event e s) = peer s"
  "username (push_event e s) = username s" "draws (push_event e s) = draws s"
  "channel_failures (push_event e s) = channel_failures s"
  by (simp_all add: push_event_def)

lemma queue_packet_fields [simp, frame_simps]:
  "pending_ops (queue_packet p s) = pending_ops s"
  "state (queue_packet p s) = state s" "relay (queue_packet p s) = relay s"
  "channel (queue_packet p s) = channel s" "key (queue_packet p s) = key s"
  "realm (queue_packet p s) = realm s" "nonce (queue_packet p s) = nonce s"
  "allocation_refresh (queue_packet p s) = allocation_refresh s"
  "allocation_expires_at (queue_packet p s) = allocation_expires_at s"
  "maintenance_refresh (queue_packet p s) = maintenance_refresh s"
  "permission_retry (queue_packet p s) = permission_retry s"
  "channel_retry (queue_packet p s) = channel_retry s" "keepalive (queue_packet p s) = keepalive s"
  "shutting_down (queue_packet p s) = shutting_down s" "destroyed (queue_packet p s) = destroyed s"
  "profile (queue_packet p s) = profile s" "transport (queue_packet p s) = transport s"
  "server (queue_packet p s) = server s" "peer (queue_packet p s) = peer s"
  "username (queue_packet p s) = username s" "draws (queue_packet p s) = draws s"
  "channel_failures (queue_packet p s) = channel_failures s"
  by (simp_all add: queue_packet_def Let_def)

lemma set_state_fields [simp, frame_simps]:
  "controls (set_state st s) = controls s" "pending_ops (set_state st s) = pending_ops s"
  "state (set_state st s) = st" "relay (set_state st s) = relay s"
  "channel (set_state st s) = channel s" "key (set_state st s) = key s"
  "realm (set_state st s) = realm s" "nonce (set_state st s) = nonce s"
  "allocation_refresh (set_state st s) = allocation_refresh s"
  "allocation_expires_at (set_state st s) = allocation_expires_at s"
  "maintenance_refresh (set_state st s) = maintenance_refresh s"
  "permission_retry (set_state st s) = permission_retry s"
  "channel_retry (set_state st s) = channel_retry s" "keepalive (set_state st s) = keepalive s"
  "shutting_down (set_state st s) = shutting_down s" "destroyed (set_state st s) = destroyed s"
  "profile (set_state st s) = profile s" "transport (set_state st s) = transport s"
  "channel_failures (set_state st s) = channel_failures s"
  by (simp_all add: set_state_def)

lemma complete_fields [simp, frame_simps]:
  "controls (complete op st c s) = controls s" "pending_ops (complete op st c s) = pending_ops s"
  "state (complete op st c s) = state s" "relay (complete op st c s) = relay s"
  "channel (complete op st c s) = channel s" "key (complete op st c s) = key s"
  "realm (complete op st c s) = realm s" "nonce (complete op st c s) = nonce s"
  "allocation_refresh (complete op st c s) = allocation_refresh s"
  "allocation_expires_at (complete op st c s) = allocation_expires_at s"
  "shutting_down (complete op st c s) = shutting_down s" "destroyed (complete op st c s) = destroyed s"
  "profile (complete op st c s) = profile s" "transport (complete op st c s) = transport s"
  "channel_failures (complete op st c s) = channel_failures s"
  by (simp_all add: complete_def)

lemma schedule_fields [simp, frame_simps]:
  "pending_ops (fst (schedule_maintenance_retry op now s)) = pending_ops s"
  "controls (fst (schedule_maintenance_retry op now s)) = controls s"
  "events (fst (schedule_maintenance_retry op now s)) = events s"
  "state (fst (schedule_maintenance_retry op now s)) = state s"
  "relay (fst (schedule_maintenance_retry op now s)) = relay s"
  "channel (fst (schedule_maintenance_retry op now s)) = channel s"
  "key (fst (schedule_maintenance_retry op now s)) = key s"
  "realm (fst (schedule_maintenance_retry op now s)) = realm s"
  "nonce (fst (schedule_maintenance_retry op now s)) = nonce s"
  "allocation_expires_at (fst (schedule_maintenance_retry op now s)) = allocation_expires_at s"
  "shutting_down (fst (schedule_maintenance_retry op now s)) = shutting_down s"
  "destroyed (fst (schedule_maintenance_retry op now s)) = destroyed s"
  "profile (fst (schedule_maintenance_retry op now s)) = profile s"
  "transport (fst (schedule_maintenance_retry op now s)) = transport s"
  by (simp_all add: schedule_maintenance_retry_def Let_def split: operation.splits)

lemma complete_failure_pending:
  "pending_ops (complete_failure op st c now s) = pending_ops s
   \<or> pending_ops (complete_failure op st c now s) = []"
  by (simp add: complete_failure_def destroy_allocation_def
      destroy_after_channel_rebind_exhausted_def Let_def)

section \<open>Timeouts\<close>

definition remove_at :: "nat \<Rightarrow> 'a list \<Rightarrow> 'a list" where
  "remove_at i xs = take i xs @ drop (Suc i) xs"

lemma length_remove_at [simp]: "i < length xs \<Longrightarrow> length (remove_at i xs) = length xs - 1"
  by (simp add: remove_at_def)

lemma set_remove_at: "set (remove_at i xs) \<subseteq> set xs"
  by (auto simp: remove_at_def dest: in_set_takeD in_set_dropD)

definition fail_pending :: "nat \<Rightarrow> nat \<Rightarrow> inner \<Rightarrow> inner" where
  "fail_pending now i s =
     (let p = pending_ops s ! i
      in complete_failure (po_operation p) RESULT_TIMEOUT 0 now
           (remove_queued_transaction (po_transaction p)
             (s\<lparr>pending_ops := remove_at i (pending_ops s)\<rparr>)))"

definition retransmit :: "nat \<Rightarrow> nat \<Rightarrow> inner \<Rightarrow> inner" where
  "retransmit now i s =
     (let p = pending_ops s ! i;
          s1 = queue_packet (po_packet p) s;
          rto = min (po_rto p * 2) MAX_RTO
      in s1\<lparr>pending_ops := (pending_ops s1)
              [i := p\<lparr>po_transmissions := po_transmissions p + 1, po_rto := rto,
                       po_next_attempt := now + rto\<rparr>]\<rparr>)"

lemma remove_queued_pending [simp, frame_simps]:
  "pending_ops (remove_queued_transaction tx s) = pending_ops s"
  by (simp add: remove_queued_transaction_def)

lemma fail_pending_length:
  "i < length (pending_ops s) \<Longrightarrow> length (pending_ops (fail_pending now i s)) < length (pending_ops s)"
  using complete_failure_pending [of "po_operation (pending_ops s ! i)" RESULT_TIMEOUT 0 now
      "remove_queued_transaction (po_transaction (pending_ops s ! i))
        (s\<lparr>pending_ops := remove_at i (pending_ops s)\<rparr>)"]
  by (auto simp: fail_pending_def Let_def)

lemma diff_less_mono': "(a :: nat) < b \<Longrightarrow> i < b \<Longrightarrow> a - i < b - i"
  by simp

lemma retransmit_length [simp]: "length (pending_ops (retransmit now i s)) = length (pending_ops s)"
  by (simp add: retransmit_def Let_def)

text \<open>The loop of \<^verbatim>\<open>expire_transactions\<close>: an index that moves on, or a transaction removed.\<close>

function expire_from :: "nat \<Rightarrow> nat \<Rightarrow> inner \<Rightarrow> inner" where
  "expire_from now i s =
     (if i < length (pending_ops s) then
        (let p = pending_ops s ! i
         in if now < po_next_attempt p then expire_from now (i + 1) s
            else if po_transmissions p \<ge> MAX_TRANSMISSIONS then
              expire_from now i (fail_pending now i s)
            else if transport s = StreamTransport then
              expire_from now i (fail_pending now i s)
            else expire_from now (i + 1) (retransmit now i s))
      else s)"
  by pat_completeness auto
termination
  by (relation "measure (\<lambda>(now, i, s). length (pending_ops s) - i)")
    (simp_all add: fail_pending_length diff_less_mono')

declare expire_from.simps [simp del]

definition expire_transactions :: "nat \<Rightarrow> inner \<Rightarrow> inner" where
  "expire_transactions now s = expire_from now 0 s"

section \<open>Responses\<close>

definition allocation_refresh_deadline :: "nat \<Rightarrow> u32 option \<Rightarrow> nat \<Rightarrow> nat" where
  "allocation_refresh_deadline now lifetime interval =
     (let l = secs (unat (case lifetime of None \<Rightarrow> REQUESTED_LIFETIME | Some v \<Rightarrow> v))
      in now + max (min interval (l div 2)) (ms 500))"

definition lifetime_or_default :: "u32 option \<Rightarrow> u32" where
  "lifetime_or_default x = (case x of None \<Rightarrow> REQUESTED_LIFETIME | Some v \<Rightarrow> v)"

definition relayed_address :: "stun_message \<Rightarrow> (turn_error, socket_addr) res" where
  "relayed_address m =
     and_then (ok_or (attribute m ATTR_XOR_RELAYED_ADDRESS) NoRelayedAddress) (\<lambda>a.
     decode_xor_address (a_value a) (m_transaction m))"

definition complete_success :: "turn_env \<Rightarrow> nat \<Rightarrow> operation \<Rightarrow> stun_message \<Rightarrow> inner \<Rightarrow>
    inner \<times> (turn_error, unit) res" where
  "complete_success E now op m s =
     (case op of
        Allocate \<Rightarrow>
          (case relayed_address m of
             Inl f \<Rightarrow> (s, Inl f)
           | Inr rel \<Rightarrow>
               if is_ipv4 rel \<noteq> is_ipv4 (peer s) \<or> addr_port rel = 0
               then (s, Inl (Fail InvalidRelayedAddress))
               else
                 let returned = attribute_u32 m ATTR_LIFETIME;
                     lifetime = lifetime_or_default returned
                 in if lifetime = 0 then (s, Inl (Fail AllocateLifetimeZero))
                    else
                      let s1 = push_event ((default_event EventRelayAddress)
                                    \<lparr>ev_address := from_socket_addr rel\<rparr>)
                           (s\<lparr>relay := Some rel,
                              allocation_refresh := Some (allocation_refresh_deadline now returned
                                (prof_allocation_refresh (profile s))),
                              allocation_expires_at := Some (now + secs (unat lifetime)),
                              refresh_failures := 0,
                              maintenance_refresh := Some (now + prof_maintenance_refresh (profile s)),
                              keepalive := Some (now + prof_keepalive_interval (profile s))\<rparr>)
                      in if shutting_down s1
                         then start_operation E now Deallocate True 0 (set_state StDeallocating s1)
                         else (complete Allocate 0 0 (set_state StReady s1), Inr ()))
      | Refresh \<Rightarrow>
          (let returned = attribute_u32 m ATTR_LIFETIME;
               lifetime = lifetime_or_default returned
           in if lifetime = 0 then (s, Inl (Fail RefreshLifetimeZero))
              else (complete Refresh 0 0
                     (s\<lparr>allocation_refresh := Some (allocation_refresh_deadline now returned
                          (prof_allocation_refresh (profile s))),
                        allocation_expires_at := Some (now + secs (unat lifetime)),
                        refresh_failures := 0\<rparr>), Inr ()))
      | Deallocate \<Rightarrow>
          (if (case attribute_u32 m ATTR_LIFETIME of None \<Rightarrow> 0 | Some v \<Rightarrow> v) \<noteq> 0
           then (s, Inl (Fail DeallocateLifetimeNonZero))
           else (set_state StDeallocated (complete Deallocate 0 0
                   (s\<lparr>relay := None, allocation_refresh := None, allocation_expires_at := None\<rparr>)),
                 Inr ()))
      | Permission \<Rightarrow> (complete Permission 0 0 (s\<lparr>permission_failures := 0\<rparr>), Inr ())
      | Channel \<Rightarrow>
          (complete Channel 0 0
             (push_event ((default_event EventChannelBound)
                  \<lparr>ev_channel := CHANNEL_NUMBER, ev_address := from_socket_addr (peer s)\<rparr>)
                (s\<lparr>channel := Some CHANNEL_NUMBER, channel_failures := 0\<rparr>)), Inr ()))"

definition response_error :: "stun_message \<Rightarrow> int \<Rightarrow> nat \<Rightarrow> inner \<Rightarrow> inner" where
  "response_error m status code s =
     push_event ((default_event EventStunResponseError)
       \<lparr>ev_method := unat (stun_method m), ev_status := status, ev_stun_code := code,
        ev_state := state s\<rparr>) s"

definition requires_allocation_recreate :: "operation \<Rightarrow> nat \<Rightarrow> bool" where
  "requires_allocation_recreate op code \<longleftrightarrow> code = 437 \<or> (op = Channel \<and> code = 400)"

text \<open>
  An error response: protocol errors and a lost allocation end it; 401 and 438 are answered
  with the new realm and nonce, at most as often as the profile says.
\<close>

definition handle_error :: "turn_env \<Rightarrow> nat \<Rightarrow> pending_op \<Rightarrow> stun_message \<Rightarrow> inner \<Rightarrow> inner" where
  "handle_error E now p m s =
     (let code = (case error_code m of None \<Rightarrow> 0 | Some c \<Rightarrow> c);
          op = po_operation p
      in if code = 0 then
           complete_failure op RESULT_PROTOCOL 0 now (response_error m RESULT_PROTOCOL 0 s)
         else if requires_allocation_recreate op code then
           destroy_allocation op RESULT_PROTOCOL code (response_error m 0 code s)
         else
           let rlm = (case attribute m ATTR_REALM of
                        Some a \<Rightarrow> Some (a_value a)
                      | None \<Rightarrow> if code = 438 then realm s else None);
               nce = map_option a_value (attribute m ATTR_NONCE);
               give_up = (\<lambda>s'. complete_failure op RESULT_PROTOCOL code now
                            (push_event ((default_event EventStunResponseError)
                               \<lparr>ev_method := unat (stun_method m), ev_status := 0,
                                ev_stun_code := code, ev_state := state s\<rparr>) s'))
           in if code \<in> {401, 438} \<and> po_nonce_retries p < prof_max_nonce_retries (profile s) then
                (case (rlm, nce) of
                   (Some r, Some n) \<Rightarrow>
                     (case start_operation E now op True (po_nonce_retries p + 1) (set_auth E r n s) of
                        (s', Inr _) \<Rightarrow> s'
                      | (s', Inl _) \<Rightarrow> give_up s')
                 | _ \<Rightarrow> give_up s)
              else give_up s)"

definition matches :: "stun_message \<Rightarrow> pending_op \<Rightarrow> bool" where
  "matches m p \<longleftrightarrow> po_transaction p = m_transaction m
     \<and> op_method (po_operation p) = unat (stun_method m)"

text \<open>An answer to an authenticated request whose integrity does not hold is not acted on.\<close>

definition lacks_integrity :: "turn_env \<Rightarrow> bytes \<Rightarrow> stun_message \<Rightarrow> inner \<Rightarrow> pending_op \<Rightarrow> bool" where
  "lacks_integrity E packet m s p \<longleftrightarrow>
     po_authenticated p \<and> response_requires_integrity m
     \<and> \<not> verify_integrity (env_hmac E) packet m (key s)
     \<and> \<not> is_fingerprinted_allocation_mismatch (env_crc E) m"

definition input_stun :: "turn_env \<Rightarrow> nat \<Rightarrow> bytes \<Rightarrow> inner \<Rightarrow> inner \<times> int" where
  "input_stun E now packet s =
     (case stun_decode packet of
        Inl _ \<Rightarrow> (s, RESULT_INVALID_ARGUMENT)
      | Inr m \<Rightarrow>
          if stun_class_of m \<notin> {Success, Error} then (s, RESULT_NOT_CONTROL)
          else if fingerprint_valid (env_crc E) m = Some False then (s, RESULT_INVALID_ARGUMENT)
          else case position (matches m) (pending_ops s) of
                 None \<Rightarrow> (s, RESULT_NOT_CONTROL)
               | Some i \<Rightarrow>
                   let p = pending_ops s ! i
                   in if lacks_integrity E packet m s p then
                        (case (stun_class_of m, error_code m) of
                           (Error, Some code) \<Rightarrow> (response_error m RESULT_AUTHENTICATION code s, RESULT_AUTHENTICATION)
                         | _ \<Rightarrow> (s, RESULT_AUTHENTICATION))
                      else
                        let s1 = remove_queued_transaction (m_transaction m)
                                   (s\<lparr>pending_ops := remove_at i (pending_ops s)\<rparr>)
                        in if stun_class_of m = Success \<and> \<not> po_authenticated p then
                             (complete_failure (po_operation p) RESULT_AUTHENTICATION 0 now s1,
                              RESULT_AUTHENTICATION)
                           else if stun_class_of m = Error then (handle_error E now p m s1, 0)
                           else
                             (case complete_success E now (po_operation p) m s1 of
                                (s2, Inr _) \<Rightarrow> (s2, 0)
                              | (s2, Inl _) \<Rightarrow>
                                  (complete_failure (po_operation p) RESULT_PROTOCOL 0 now s2,
                                   RESULT_PROTOCOL)))"

section \<open>Polling\<close>

definition due :: "nat \<Rightarrow> nat option \<Rightarrow> bool" where
  "due now d = (case d of None \<Rightarrow> False | Some t \<Rightarrow> t \<le> now)"

definition next_deadline :: "inner \<Rightarrow> nat option" where
  "next_deadline s =
     (case map po_next_attempt (pending_ops s)
           @ concat (map (\<lambda>d. case d of None \<Rightarrow> [] | Some t \<Rightarrow> [t])
               [allocation_refresh s, maintenance_refresh s, permission_retry s,
                channel_retry s, keepalive s]) of
        [] \<Rightarrow> None
      | t # ts \<Rightarrow> Some (fold min ts t))"

text \<open>One maintenance operation of \<^verbatim>\<open>poll\<close>: its timer is cleared, then it is started.\<close>

definition maintain :: "turn_env \<Rightarrow> nat \<Rightarrow> bool \<Rightarrow> (inner \<Rightarrow> inner) \<Rightarrow> operation \<Rightarrow>
    inner \<Rightarrow> inner \<times> (turn_error, bool) res" where
  "maintain E now wanted clear op s =
     (if wanted \<and> \<not> has_operation op s then
        (case start_operation E now op True 0 (clear s) of
           (s', Inl f) \<Rightarrow> (s', Inl f)
         | (s', Inr _) \<Rightarrow> (s', Inr True))
      else (s, Inr False))"

definition maintenance :: "turn_env \<Rightarrow> nat \<Rightarrow> inner \<Rightarrow> inner \<times> (turn_error, unit) res" where
  "maintenance E now s0 =
     (let maintenance_due = due now (maintenance_refresh s0);
          permission_due = due now (permission_retry s0);
          channel_due = due now (channel_retry s0)
      in case maintain E now (due now (allocation_refresh s0))
                (\<lambda>s. s\<lparr>allocation_refresh := None\<rparr>) Refresh s0 of
           (s1, Inl f) \<Rightarrow> (s1, Inl f)
         | (s1, Inr b1) \<Rightarrow>
             let s2 = (if maintenance_due
                       then s1\<lparr>maintenance_refresh := Some (now + prof_maintenance_refresh (profile s1))\<rparr>
                       else s1)
             in case maintain E now (maintenance_due \<or> permission_due)
                       (\<lambda>s. s\<lparr>permission_retry := None\<rparr>) Permission s2 of
                  (s3, Inl f) \<Rightarrow> (s3, Inl f)
                | (s3, Inr b2) \<Rightarrow>
                    (case maintain E now (maintenance_due \<or> channel_due)
                            (\<lambda>s. s\<lparr>channel_retry := None\<rparr>) Channel s3 of
                       (s4, Inl f) \<Rightarrow> (s4, Inl f)
                     | (s4, Inr b3) \<Rightarrow>
                         if due now (keepalive s4) then
                           (let s5 = s4\<lparr>keepalive := Some (now + prof_keepalive_interval (profile s4))\<rparr>
                            in (if b1 \<or> b2 \<or> b3 then s5 else queue_keepalive s5, Inr ()))
                         else (s4, Inr ())))"

definition poll :: "turn_env \<Rightarrow> nat \<Rightarrow> inner \<Rightarrow> inner \<times> (turn_error, nat option) res" where
  "poll E now s0 =
     (if destroyed s0 then (s0, Inr None)
      else
        let s1 = expire_transactions now s0;
            s2 = (if \<not> shutting_down s1 \<and> state s1 = StReady \<and> due now (allocation_expires_at s1)
                  then destroy_allocation Refresh RESULT_TIMEOUT 0 s1 else s1)
        in case (if \<not> shutting_down s2 \<and> state s2 = StReady then maintenance E now s2
                 else (s2, Inr ())) of
             (s3, Inl f) \<Rightarrow> (s3, Inl f)
           | (s3, Inr _) \<Rightarrow>
               (s3, Inr (map_option (\<lambda>d. max (d - now) (ms 1)) (next_deadline s3))))"

section \<open>The other handlers\<close>

definition require_open :: "inner \<Rightarrow> (turn_error, unit) res" where
  "require_open s = ensure (\<not> (destroyed s \<or> shutting_down s)) TurnClosed"

definition require_ready :: "inner \<Rightarrow> (turn_error, unit) res" where
  "require_ready s = and_then (require_open s) (\<lambda>_. ensure (state s = StReady) InvalidArgument)"

definition start_allocation :: "turn_env \<Rightarrow> nat \<Rightarrow> inner \<Rightarrow> inner \<times> (turn_error, unit) res" where
  "start_allocation E now s =
     (case require_open s of
        Inl f \<Rightarrow> (s, Inl f)
      | Inr _ \<Rightarrow>
          if state s \<noteq> StNull then (s, Inl (Fail InvalidArgument))
          else start_operation E now Allocate False 0 (set_state StAllocating s))"

definition start_ready :: "turn_env \<Rightarrow> nat \<Rightarrow> operation \<Rightarrow> inner \<Rightarrow> inner \<times> (turn_error, unit) res" where
  "start_ready E now op s =
     (case require_ready s of
        Inl f \<Rightarrow> (s, Inl f)
      | Inr _ \<Rightarrow> start_operation E now op True 0 s)"

definition start_channel :: "turn_env \<Rightarrow> nat \<Rightarrow> inner \<Rightarrow> inner \<times> (turn_error, unit) res" where
  "start_channel E now s = start_ready E now Channel s"

definition start_permission :: "turn_env \<Rightarrow> nat \<Rightarrow> inner \<Rightarrow> inner \<times> (turn_error, unit) res" where
  "start_permission E now s = start_ready E now Permission s"

definition pull_control :: "inner \<Rightarrow> inner \<times> (turn_error, (bytes \<times> socket_addr) option) res" where
  "pull_control s =
     (case controls s of
        [] \<Rightarrow> (s, Inr None)
      | (p, d) # cs \<Rightarrow>
          let s' = s\<lparr>controls := cs\<rparr>
          in if length p > 1024 then (s', Inl (Fail BufferTooSmall)) else (s', Inr (Some (p, d))))"

definition pull_event :: "inner \<Rightarrow> inner \<times> native_event option" where
  "pull_event s =
     (case events s of [] \<Rightarrow> (s, None) | e # es \<Rightarrow> (s\<lparr>events := es\<rparr>, Some e))"

definition relay_address :: "inner \<Rightarrow> (turn_error, socket_addr) res" where
  "relay_address s = ok_or (relay s) RelayUnavailable"

definition graceful_shutdown :: "turn_env \<Rightarrow> nat \<Rightarrow> inner \<Rightarrow> inner \<times> (turn_error, unit) res" where
  "graceful_shutdown E now s =
     (if destroyed s \<or> shutting_down s then (s, Inr ())
      else
        let s1 = s\<lparr>shutting_down := True, channel := None, maintenance_refresh := None,
                   permission_retry := None, channel_retry := None, keepalive := None,
                   controls := []\<rparr>
        in if state s1 = StReady \<or> (state s1 = StDestroying \<and> allocation_expires_at s1 \<noteq> None)
           then start_operation E now Deallocate True 0
                  (set_state StDeallocating (s1\<lparr>pending_ops := []\<rparr>))
           else if state s1 \<noteq> StAllocating then (s1\<lparr>pending_ops := []\<rparr>, Inr ())
           else (s1, Inr ()))"

definition force_destroy :: "int \<Rightarrow> inner \<Rightarrow> inner" where
  "force_destroy status s =
     (if destroyed s then s
      else push_event ((default_event EventForcedDestroy)
               \<lparr>ev_status := status, ev_state := StDestroying\<rparr>)
             (set_state StDestroying (s\<lparr>destroyed := True, controls := [], pending_ops := []\<rparr>)))"

text \<open>The core as a machine: one input is one call of a handler, at a time.\<close>

datatype core_input =
    InStartAllocation
  | InStartPermission
  | InStartChannel
  | InStun bytes
  | InPoll
  | InPullControl
  | InPullEvent
  | InShutdown
  | InForceDestroy int

fun core_apply :: "turn_env \<Rightarrow> inner \<Rightarrow> nat \<times> core_input \<Rightarrow> inner" where
  "core_apply E s (now, InStartAllocation) = fst (start_allocation E now s)"
| "core_apply E s (now, InStartPermission) = fst (start_permission E now s)"
| "core_apply E s (now, InStartChannel) = fst (start_channel E now s)"
| "core_apply E s (now, InStun packet) = fst (input_stun E now packet s)"
| "core_apply E s (now, InPoll) = fst (poll E now s)"
| "core_apply E s (now, InPullControl) = fst (pull_control s)"
| "core_apply E s (now, InPullEvent) = fst (pull_event s)"
| "core_apply E s (now, InShutdown) = fst (graceful_shutdown E now s)"
| "core_apply E s (now, InForceDestroy status) = force_destroy status s"

definition core_step :: "turn_env \<Rightarrow> inner \<Rightarrow> nat \<times> core_input \<Rightarrow> inner \<times> unit list" where
  "core_step E s i = (core_apply E s i, [])"

end
