(* ===== verification/TurnInvariant.thy ===== *)
theory TurnInvariant
  imports TurnCore
begin

text \<open>
  The invariant of the TURN core and its consequences: bounded queues and attempts, at most
  one transaction per operation, each operation only in its phase, nothing after destruction;
  and the state becomes ready only on a response with valid integrity.
\<close>

section \<open>The invariant\<close>

fun phase :: "operation \<Rightarrow> turn_state" where
  "phase Allocate = StAllocating"
| "phase Deallocate = StDeallocating"
| "phase Refresh = StReady"
| "phase Permission = StReady"
| "phase Channel = StReady"

definition op_ok :: "inner \<Rightarrow> pending_op \<Rightarrow> bool" where
  "op_ok s p \<longleftrightarrow>
     phase (po_operation p) = state s
     \<and> 1 \<le> po_transmissions p \<and> po_transmissions p \<le> MAX_TRANSMISSIONS
     \<and> INITIAL_RTO \<le> po_rto p \<and> po_rto p \<le> MAX_RTO
     \<and> po_nonce_retries p \<le> prof_max_nonce_retries (profile s)
     \<and> (po_authenticated p \<longrightarrow> key s \<noteq> None \<and> realm s \<noteq> None \<and> nonce s \<noteq> None)"

definition queues_ok :: "inner \<Rightarrow> bool" where
  "queues_ok s \<longleftrightarrow> length (controls s) \<le> CONTROL_CAPACITY \<and> length (events s) \<le> EVENT_CAPACITY"

definition phase_ok :: "inner \<Rightarrow> bool" where
  "phase_ok s \<longleftrightarrow>
     (destroyed s \<longrightarrow> pending_ops s = [] \<and> controls s = [] \<and> state s = StDestroying)
     \<and> (state s = StReady \<longrightarrow> relay s \<noteq> None \<and> allocation_expires_at s \<noteq> None)
     \<and> (channel s \<noteq> None \<longrightarrow> state s = StReady \<or> destroyed s)"

definition core_ok :: "inner \<Rightarrow> bool" where
  "core_ok s \<longleftrightarrow>
     queues_ok s \<and> phase_ok s \<and> distinct (map po_operation (pending_ops s))
     \<and> list_all (op_ok s) (pending_ops s)"

lemmas core_defs = core_ok_def phase_ok_def op_ok_def

lemma queues_ok_push_event [simp]: "queues_ok s \<Longrightarrow> queues_ok (push_event e s)"
  by (auto simp: queues_ok_def push_event_def EVENT_CAPACITY_def)

lemma controls_queue_packet:
  "length (controls s) \<le> CONTROL_CAPACITY \<Longrightarrow> length (controls (queue_packet p s)) \<le> CONTROL_CAPACITY"
  by (simp add: queue_packet_def Let_def CONTROL_CAPACITY_def)

lemma events_push_le: "length (events s) \<le> EVENT_CAPACITY \<Longrightarrow> length (events (push_event e s)) \<le> EVENT_CAPACITY"
  by (auto simp: push_event_def EVENT_CAPACITY_def)

lemma queues_ok_queue_packet [simp]: "queues_ok s \<Longrightarrow> queues_ok (queue_packet p s)"
  using controls_queue_packet [of s p] events_push_le
  by (auto simp: queues_ok_def queue_packet_def Let_def)

lemma queues_ok_set_state [simp]: "queues_ok s \<Longrightarrow> queues_ok (set_state st s)"
  by (auto simp: set_state_def intro!: queues_ok_push_event) (simp add: queues_ok_def)

lemma queues_ok_complete [simp]: "queues_ok s \<Longrightarrow> queues_ok (complete op st c s)"
  by (simp add: complete_def)

lemma queues_ok_fields:
  "queues_ok s \<Longrightarrow> length (controls s') \<le> length (controls s) \<Longrightarrow>
     length (events s') \<le> length (events s) \<Longrightarrow> queues_ok s'"
  by (simp add: queues_ok_def)

text \<open>The invariant only reads these fields.\<close>

lemma core_ok_cong:
  assumes "core_ok s" and "queues_ok s'" and "pending_ops s' = pending_ops s" and "state s' = state s"
    and "relay s' = relay s" and "allocation_expires_at s' = allocation_expires_at s"
    and "channel s' = channel s" and "destroyed s' = destroyed s" and "\<not> destroyed s"
    and "profile s' = profile s"
    and "key s \<noteq> None \<Longrightarrow> key s' \<noteq> None" and "realm s \<noteq> None \<Longrightarrow> realm s' \<noteq> None"
    and "nonce s \<noteq> None \<Longrightarrow> nonce s' \<noteq> None"
  shows "core_ok s'"
  using assms by (auto simp: core_defs list_all_iff)

lemma core_okD:
  assumes "core_ok s"
  shows "queues_ok s" "phase_ok s" "distinct (map po_operation (pending_ops s))"
    "list_all (op_ok s) (pending_ops s)"
  using assms by (simp_all add: core_ok_def)

lemma core_ok_push_event: "core_ok s \<Longrightarrow> core_ok (push_event e s)"
  by (auto simp: core_defs list_all_iff)

lemma core_ok_queue_packet: "core_ok s \<Longrightarrow> \<not> destroyed s \<Longrightarrow> core_ok (queue_packet p s)"
  by (auto simp: core_defs list_all_iff)

lemma core_ok_complete: "core_ok s \<Longrightarrow> core_ok (complete op st c s)"
  by (simp add: complete_def core_ok_push_event)

lemma op_ok_fields:
  "state s' = state s \<Longrightarrow> profile s' = profile s \<Longrightarrow> key s' = key s \<Longrightarrow> realm s' = realm s \<Longrightarrow>
     nonce s' = nonce s \<Longrightarrow> op_ok s' = op_ok s"
  by (rule ext) (simp add: op_ok_def)

text \<open>With nothing pending, the state may be any but ready.\<close>

lemma core_ok_idle:
  "queues_ok s \<Longrightarrow> pending_ops s = [] \<Longrightarrow> channel s = None \<Longrightarrow> \<not> destroyed s \<Longrightarrow>
     (state s = StReady \<longrightarrow> relay s \<noteq> None \<and> allocation_expires_at s \<noteq> None) \<Longrightarrow> core_ok s"
  by (simp add: core_defs)

section \<open>The helpers\<close>

lemma queues_ok_update [simp]:
  "queues_ok s \<Longrightarrow> queues_ok (s\<lparr>pending_ops := ps\<rparr>)"
  "queues_ok s \<Longrightarrow> queues_ok (s\<lparr>draws := n\<rparr>)"
  by (simp_all add: queues_ok_def)

lemma start_operation_fields [simp, frame_simps]:
  "state (fst (start_operation E now op a n s)) = state s"
  "relay (fst (start_operation E now op a n s)) = relay s"
  "channel (fst (start_operation E now op a n s)) = channel s"
  "key (fst (start_operation E now op a n s)) = key s"
  "realm (fst (start_operation E now op a n s)) = realm s"
  "nonce (fst (start_operation E now op a n s)) = nonce s"
  "allocation_refresh (fst (start_operation E now op a n s)) = allocation_refresh s"
  "allocation_expires_at (fst (start_operation E now op a n s)) = allocation_expires_at s"
  "shutting_down (fst (start_operation E now op a n s)) = shutting_down s"
  "destroyed (fst (start_operation E now op a n s)) = destroyed s"
  "profile (fst (start_operation E now op a n s)) = profile s"
  by (simp_all add: start_operation_def Let_def split: option.splits sum.splits)

lemma has_operation_iff: "has_operation op s \<longleftrightarrow> op \<in> po_operation ` set (pending_ops s)"
  by (auto simp: has_operation_def list_ex_iff)

lemma start_operation_ok:
  assumes ok: "core_ok s" and alive: "\<not> destroyed s" and ph: "phase op = state s"
    and n: "n \<le> prof_max_nonce_retries (profile s)"
  shows "core_ok (fst (start_operation E now op a n s))"
proof (cases "has_operation op s")
  case True
  then show ?thesis
    using ok alive by (auto simp: start_operation_def core_ok_queue_packet split: option.splits)
next
  case new: False
  show ?thesis
  proof (cases "a \<and> (realm s = None \<or> nonce s = None \<or> key s = None)")
    case True
    then show ?thesis using new ok by (simp add: start_operation_def)
  next
    case False
    let ?s1 = "s\<lparr>draws := draws s + 1\<rparr>"
    have ok1: "core_ok ?s1"
      by (rule core_ok_cong [OF ok]) (use core_okD(1) [OF ok] alive in simp_all)
    show ?thesis
    proof (cases "build_request E op (env_random E (draws s)) a ?s1")
      case (Inl f)
      then show ?thesis using new False ok1 by (auto simp: start_operation_def Let_def)
    next
      case (Inr packet)
      have "core_ok (queue_packet packet ?s1)"
        by (rule core_ok_queue_packet [OF ok1]) (simp add: alive)
      moreover have "INITIAL_RTO \<le> MAX_RTO" "(1 :: nat) \<le> MAX_TRANSMISSIONS"
        by (simp_all add: INITIAL_RTO_def MAX_RTO_def ms_def MAX_TRANSMISSIONS_def)
      ultimately show ?thesis
        using new False Inr ph n alive
        by (auto simp: start_operation_def Let_def core_defs has_operation_iff list_all_iff)
    qed
  qed
qed

lemma remove_queued_fields [simp, frame_simps]:
  "state (remove_queued_transaction tx s) = state s" "relay (remove_queued_transaction tx s) = relay s"
  "channel (remove_queued_transaction tx s) = channel s" "key (remove_queued_transaction tx s) = key s"
  "realm (remove_queued_transaction tx s) = realm s" "nonce (remove_queued_transaction tx s) = nonce s"
  "allocation_expires_at (remove_queued_transaction tx s) = allocation_expires_at s"
  "shutting_down (remove_queued_transaction tx s) = shutting_down s"
  "destroyed (remove_queued_transaction tx s) = destroyed s"
  "profile (remove_queued_transaction tx s) = profile s"
  "peer (remove_queued_transaction tx s) = peer s"
  by (simp_all add: remove_queued_transaction_def)

lemma queues_ok_remove_queued [simp]: "queues_ok s \<Longrightarrow> queues_ok (remove_queued_transaction tx s)"
  by (rule queues_ok_fields) (auto simp: remove_queued_transaction_def)

text \<open>Taking a transaction out.\<close>

lemma distinct_map_remove_at: "distinct (map f xs) \<Longrightarrow> distinct (map f (remove_at i xs))"
  using set_take_disj_set_drop_if_distinct [of "map f xs" i "Suc i"]
  by (simp add: remove_at_def take_map [symmetric] drop_map [symmetric])

text \<open>Taking a transaction out of those pending, with its queued packet.\<close>

definition take_pending :: "nat \<Rightarrow> inner \<Rightarrow> inner" where
  "take_pending i s =
     remove_queued_transaction (po_transaction (pending_ops s ! i))
       (s\<lparr>pending_ops := remove_at i (pending_ops s)\<rparr>)"

lemma take_pending_fields [simp, frame_simps]:
  "pending_ops (take_pending i s) = remove_at i (pending_ops s)"
  "state (take_pending i s) = state s" "relay (take_pending i s) = relay s"
  "channel (take_pending i s) = channel s" "key (take_pending i s) = key s"
  "realm (take_pending i s) = realm s" "nonce (take_pending i s) = nonce s"
  "allocation_expires_at (take_pending i s) = allocation_expires_at s"
  "shutting_down (take_pending i s) = shutting_down s"
  "destroyed (take_pending i s) = destroyed s" "profile (take_pending i s) = profile s"
  "peer (take_pending i s) = peer s"
  by (simp_all add: take_pending_def)

lemma list_all_remove_at: "list_all P xs \<Longrightarrow> list_all P (remove_at i xs)"
  using set_remove_at [of i xs] by (auto simp: list_all_iff)

lemma take_pending_ok:
  assumes "core_ok s" and "\<not> destroyed s"
  shows "core_ok (take_pending i s)"
proof -
  have same: "op_ok (take_pending i s) = op_ok s" by (rule op_ok_fields) simp_all
  have "queues_ok (take_pending i s)"
    using core_okD(1) [OF assms(1)] by (simp add: take_pending_def)
  moreover have "list_all (op_ok (take_pending i s)) (remove_at i (pending_ops s))"
    using list_all_remove_at [OF core_okD(4) [OF assms(1)], of i] by (simp only: same)
  ultimately show ?thesis
    using assms core_okD(2,3) [OF assms(1)]
    by (simp add: core_ok_def distinct_map_remove_at) (simp add: phase_ok_def)
qed

text \<open>The operation taken out is not pending any more.\<close>

lemma take_pending_op:
  assumes "core_ok s" and "i < length (pending_ops s)"
  shows "\<not> has_operation (po_operation (pending_ops s ! i)) (take_pending i s)"
proof -
  have "pending_ops s = take i (pending_ops s) @ pending_ops s ! i # drop (Suc i) (pending_ops s)"
    by (rule id_take_nth_drop [OF assms(2)])
  then have "distinct (map po_operation
      (take i (pending_ops s) @ pending_ops s ! i # drop (Suc i) (pending_ops s)))"
    using core_okD(3) [OF assms(1)] by simp
  then show ?thesis by (auto simp: has_operation_iff remove_at_def)
qed

lemma destroy_allocation_fields [simp, frame_simps]:
  "pending_ops (destroy_allocation op st c s) = []" "controls (destroy_allocation op st c s) = []"
  "channel (destroy_allocation op st c s) = None" "relay (destroy_allocation op st c s) = None"
  "state (destroy_allocation op st c s) = (if op = Deallocate then StDeallocated else StDestroying)"
  "destroyed (destroy_allocation op st c s) = destroyed s"
  "shutting_down (destroy_allocation op st c s) = shutting_down s"
  "profile (destroy_allocation op st c s) = profile s"
  by (simp_all add: destroy_allocation_def)

lemma destroy_allocation_ok: "core_ok s \<Longrightarrow> \<not> destroyed s \<Longrightarrow> core_ok (destroy_allocation op st c s)"
proof (rule core_ok_idle)
  assume ok: "core_ok s" and alive: "\<not> destroyed s"
  have "queues_ok (complete op st c s)" using core_okD(1) [OF ok] by simp
  then show "queues_ok (destroy_allocation op st c s)"
    unfolding destroy_allocation_def by (intro queues_ok_set_state, elim queues_ok_fields) simp_all
qed simp_all

lemma rebind_exhausted_fields [simp, frame_simps]:
  "pending_ops (destroy_after_channel_rebind_exhausted s) = []"
  "controls (destroy_after_channel_rebind_exhausted s) = []"
  "channel (destroy_after_channel_rebind_exhausted s) = None"
  "state (destroy_after_channel_rebind_exhausted s) = StDestroying"
  "destroyed (destroy_after_channel_rebind_exhausted s) = destroyed s"
  "shutting_down (destroy_after_channel_rebind_exhausted s) = shutting_down s"
  "profile (destroy_after_channel_rebind_exhausted s) = profile s"
  "allocation_refresh (destroy_after_channel_rebind_exhausted s) = allocation_refresh s"
  "maintenance_refresh (destroy_after_channel_rebind_exhausted s) = None"
  "permission_retry (destroy_after_channel_rebind_exhausted s) = None"
  "channel_retry (destroy_after_channel_rebind_exhausted s) = None"
  "keepalive (destroy_after_channel_rebind_exhausted s) = None"
  by (simp_all add: destroy_after_channel_rebind_exhausted_def)

lemma rebind_exhausted_ok:
  "queues_ok s \<Longrightarrow> \<not> destroyed s \<Longrightarrow> core_ok (destroy_after_channel_rebind_exhausted s)"
proof (rule core_ok_idle)
  assume "queues_ok s"
  then show "queues_ok (destroy_after_channel_rebind_exhausted s)"
    unfolding destroy_after_channel_rebind_exhausted_def
    by (intro queues_ok_set_state queues_ok_push_event, elim queues_ok_fields) simp_all
qed simp_all

lemma schedule_ok:
  assumes "core_ok s" and "\<not> destroyed s"
  shows "core_ok (fst (schedule_maintenance_retry op now s))"
proof (rule core_ok_cong [OF assms(1)])
  show "queues_ok (fst (schedule_maintenance_retry op now s))"
    by (rule queues_ok_fields [OF core_okD(1) [OF assms(1)]]) simp_all
qed (use assms(2) in simp_all)

lemma complete_failure_ok:
  assumes "core_ok s" and "\<not> destroyed s"
  shows "core_ok (complete_failure op st c now s)"
    and "destroyed (complete_failure op st c now s) = destroyed s"
    and "profile (complete_failure op st c now s) = profile s"
    and "state (complete_failure op st c now s) = StReady \<Longrightarrow> state s = StReady"
proof -
  have c: "core_ok (complete op st c s)" by (rule core_ok_complete [OF assms(1)])
  have r: "core_ok (fst (schedule_maintenance_retry op now (complete op st c s)))"
    by (rule schedule_ok [OF c]) (simp add: assms(2))
  show "core_ok (complete_failure op st c now s)"
    using r rebind_exhausted_ok [OF core_okD(1) [OF r]] destroy_allocation_ok [OF assms] assms(2)
    by (simp add: complete_failure_def Let_def)
  show "destroyed (complete_failure op st c now s) = destroyed s"
    and "profile (complete_failure op st c now s) = profile s"
    and "state (complete_failure op st c now s) = StReady \<Longrightarrow> state s = StReady"
    by (simp_all add: complete_failure_def Let_def split: if_splits)
qed

section \<open>Timeouts\<close>

lemma fail_pending_eq:
  "fail_pending now i s =
     complete_failure (po_operation (pending_ops s ! i)) RESULT_TIMEOUT 0 now (take_pending i s)"
  by (simp add: fail_pending_def take_pending_def Let_def)

lemma fail_pending_ok:
  assumes "core_ok s" and "\<not> destroyed s"
  shows "core_ok (fail_pending now i s)" and "\<not> destroyed (fail_pending now i s)"
    and "state (fail_pending now i s) = StReady \<Longrightarrow> state s = StReady"
  using complete_failure_ok [OF take_pending_ok [OF assms]] assms(2)
  by (simp_all add: fail_pending_eq)

lemma retransmit_fields [simp, frame_simps]:
  "state (retransmit now i s) = state s" "destroyed (retransmit now i s) = destroyed s"
  "transport (retransmit now i s) = transport s"
  by (simp_all add: retransmit_def Let_def)

lemma retransmit_ok:
  assumes ok: "core_ok s" and alive: "\<not> destroyed s" and i: "i < length (pending_ops s)"
    and t: "\<not> po_transmissions (pending_ops s ! i) \<ge> MAX_TRANSMISSIONS"
  shows "core_ok (retransmit now i s)"
proof -
  let ?p = "pending_ops s ! i"
  let ?rto = "min (po_rto ?p * 2) MAX_RTO"
  let ?p' = "?p\<lparr>po_transmissions := po_transmissions ?p + 1, po_rto := ?rto,
      po_next_attempt := now + ?rto\<rparr>"
  let ?s1 = "queue_packet (po_packet ?p) s"
  have ok1: "core_ok ?s1" by (rule core_ok_queue_packet [OF ok alive])
  have p: "op_ok s ?p" using core_okD(4) [OF ok] i by (simp add: list_all_length)
  then have p': "op_ok ?s1 ?p'" using t by (auto simp: op_ok_def)
  have "map po_operation ((pending_ops s)[i := ?p']) = map po_operation (pending_ops s)"
    using i by (simp add: map_update list_update_same_conv)
  moreover have "list_all (op_ok ?s1) ((pending_ops s)[i := ?p'])"
    using core_okD(4) [OF ok1] p' set_update_subset_insert [of "pending_ops s" i ?p']
    by (auto simp: list_all_iff)
  moreover have "op_ok (?s1\<lparr>pending_ops := ps\<rparr>) = op_ok ?s1" for ps by (rule op_ok_fields) simp_all
  ultimately show ?thesis
    using core_okD [OF ok1] alive
    by (simp add: retransmit_def Let_def core_ok_def) (simp add: phase_ok_def)
qed

lemma expire_from_ok:
  "core_ok s \<Longrightarrow> \<not> destroyed s \<Longrightarrow>
     core_ok (expire_from now i s) \<and> \<not> destroyed (expire_from now i s)
     \<and> (state (expire_from now i s) = StReady \<longrightarrow> state s = StReady)"
proof (induction now i s rule: expire_from.induct)
  case (1 now i s)
  show ?case
  proof (cases "i < length (pending_ops s)")
    case False
    then show ?thesis using 1 by (simp add: expire_from.simps)
  next
    case True
    note f = fail_pending_ok [OF "1.prems", of now i]
    note r = retransmit_ok [OF "1.prems" True]
    show ?thesis
      using 1 True f r by (subst (1 2 3) expire_from.simps) (simp add: Let_def)
  qed
qed

section \<open>Responses\<close>

text \<open>
  Allocation and deallocation are alone in their phase: when theirs is taken out, nothing else
  is pending.
\<close>

lemma alone_in_phase:
  assumes "core_ok s" and "phase op = state s" and "\<not> has_operation op s"
    and "op = Allocate \<or> op = Deallocate"
  shows "pending_ops s = []"
proof (rule ccontr)
  assume "pending_ops s \<noteq> []"
  then obtain p ps where p: "pending_ops s = p # ps" by (cases "pending_ops s") auto
  then have "phase (po_operation p) = phase op"
    using core_okD(4) [OF assms(1)] assms(2) by (simp add: op_ok_def)
  then have "po_operation p = op" using assms(4) by (cases "po_operation p") auto
  then show False using assms(3) p by (simp add: has_operation_def)
qed

lemma channel_none: "core_ok s \<Longrightarrow> \<not> destroyed s \<Longrightarrow> state s \<noteq> StReady \<Longrightarrow> channel s = None"
  by (auto simp: core_ok_def phase_ok_def)

lemma allocate_success_ok:
  assumes ok: "core_ok s" and alive: "\<not> destroyed s" and ph: "phase Allocate = state s"
    and out: "\<not> has_operation Allocate s"
  shows "core_ok (fst (complete_success E now Allocate m s))"
proof -
  have idle: "pending_ops s = []" by (rule alone_in_phase [OF ok ph out]) simp
  have ch: "channel s = None" by (rule channel_none [OF ok alive]) (simp add: ph [symmetric])
  show ?thesis
  proof (cases "relayed_address m")
    case (Inl f)
    then show ?thesis using ok by (simp add: complete_success_def)
  next
    case (Inr rel)
    let ?ret = "attribute_u32 m ATTR_LIFETIME"
    let ?life = "lifetime_or_default ?ret"
    let ?s1 = "push_event ((default_event EventRelayAddress)\<lparr>ev_address := from_socket_addr rel\<rparr>)
        (s\<lparr>relay := Some rel,
           allocation_refresh := Some (allocation_refresh_deadline now ?ret
             (prof_allocation_refresh (profile s))),
           allocation_expires_at := Some (now + secs (unat ?life)), refresh_failures := 0,
           maintenance_refresh := Some (now + prof_maintenance_refresh (profile s)),
           keepalive := Some (now + prof_keepalive_interval (profile s))\<rparr>)"
    have q: "queues_ok ?s1"
      by (rule queues_ok_push_event, rule queues_ok_fields [OF core_okD(1) [OF ok]]) simp_all
    have ready: "core_ok (complete Allocate 0 0 (set_state StReady ?s1))"
      by (rule core_ok_complete, rule core_ok_idle) (use q idle ch alive in simp_all)
    have closing: "core_ok (set_state StDeallocating ?s1)"
      by (rule core_ok_idle) (use q idle ch alive in simp_all)
    have dealloc: "core_ok (fst (start_operation E now Deallocate True 0 (set_state StDeallocating ?s1)))"
      by (rule start_operation_ok [OF closing]) (simp_all add: alive)
    show ?thesis
      using ok ready dealloc by (simp add: complete_success_def Inr Let_def)
  qed
qed

lemma complete_success_ok:
  assumes ok: "core_ok s" and alive: "\<not> destroyed s" and ph: "phase op = state s"
    and out: "\<not> has_operation op s"
  shows "core_ok (fst (complete_success E now op m s))"
proof (cases op)
  case Allocate
  then show ?thesis using allocate_success_ok [OF ok alive] ph out by simp
next
  case Refresh
  let ?s1 = "s\<lparr>allocation_refresh := a, allocation_expires_at := Some e, refresh_failures := 0\<rparr>"
  have "core_ok (s\<lparr>allocation_refresh := a, allocation_expires_at := Some e, refresh_failures := 0\<rparr>)"
    for a e
  proof -
    let ?s1 = "s\<lparr>allocation_refresh := a, allocation_expires_at := Some e, refresh_failures := 0\<rparr>"
    have "op_ok ?s1 = op_ok s" by (rule op_ok_fields) simp_all
    moreover have "queues_ok ?s1" by (rule queues_ok_fields [OF core_okD(1) [OF ok]]) simp_all
    ultimately show ?thesis using core_okD [OF ok] by (simp add: core_ok_def) (simp add: phase_ok_def)
  qed
  then show ?thesis using ok Refresh by (simp add: complete_success_def Let_def core_ok_complete)
next
  case Deallocate
  have idle: "pending_ops s = []" by (rule alone_in_phase [OF ok ph out]) (simp add: Deallocate)
  have ch: "channel s = None" by (rule channel_none [OF ok alive]) (use ph Deallocate in simp)
  let ?s1 = "s\<lparr>relay := None, allocation_refresh := None, allocation_expires_at := None\<rparr>"
  have "queues_ok ?s1" by (rule queues_ok_fields [OF core_okD(1) [OF ok]]) simp_all
  then have "core_ok (set_state StDeallocated (complete Deallocate 0 0 ?s1))"
    by (intro core_ok_idle) (simp_all add: idle ch alive)
  then show ?thesis using ok by (simp add: complete_success_def Deallocate)
next
  case Permission
  have "core_ok (s\<lparr>permission_failures := 0\<rparr>)"
    by (rule core_ok_cong [OF ok], rule queues_ok_fields [OF core_okD(1) [OF ok]])
      (use alive in simp_all)
  then show ?thesis by (simp add: complete_success_def Permission core_ok_complete)
next
  case Channel
  let ?s1 = "s\<lparr>channel := Some CHANNEL_NUMBER, channel_failures := 0\<rparr>"
  have "op_ok ?s1 = op_ok s" by (rule op_ok_fields) simp_all
  moreover have "queues_ok ?s1" by (rule queues_ok_fields [OF core_okD(1) [OF ok]]) simp_all
  ultimately have "core_ok ?s1"
    using core_okD [OF ok] ph Channel by (simp add: core_ok_def) (simp add: phase_ok_def)
  then show ?thesis
    by (simp add: complete_success_def Channel core_ok_complete core_ok_push_event)
qed

lemma set_auth_ok:
  assumes "core_ok s" and "\<not> destroyed s"
  shows "core_ok (set_auth E r n s)"
  by (rule core_ok_cong [OF assms(1)], rule queues_ok_fields [OF core_okD(1) [OF assms(1)]])
    (use assms(2) in \<open>simp_all add: set_auth_def\<close>)

lemma set_auth_fields [simp, frame_simps]:
  "destroyed (set_auth E r n s) = destroyed s" "state (set_auth E r n s) = state s"
  "profile (set_auth E r n s) = profile s"
  by (simp_all add: set_auth_def)

lemma response_error_ok: "core_ok s \<Longrightarrow> core_ok (response_error m st c s)"
  by (simp add: response_error_def core_ok_push_event)

lemma response_error_fields [simp, frame_simps]:
  "destroyed (response_error m st c s) = destroyed s" "state (response_error m st c s) = state s"
  by (simp_all add: response_error_def)

lemma handle_error_ok:
  assumes ok: "core_ok s" and alive: "\<not> destroyed s" and ph: "phase (po_operation p) = state s"
  shows "core_ok (handle_error E now p m s)
    \<and> (state (handle_error E now p m s) = StReady \<longrightarrow> state s = StReady)"
proof -
  let ?op = "po_operation p" and ?code = "case error_code m of None \<Rightarrow> 0 | Some c \<Rightarrow> c"
  let ?ev = "(default_event EventStunResponseError)
      \<lparr>ev_method := unat (stun_method m), ev_status := 0, ev_stun_code := ?code, ev_state := state s\<rparr>"
  have give_up: "core_ok (complete_failure ?op RESULT_PROTOCOL ?code now (push_event ?ev s'))
      \<and> (state (complete_failure ?op RESULT_PROTOCOL ?code now (push_event ?ev s')) = StReady
          \<longrightarrow> state s = StReady)"
    if "core_ok s'" "\<not> destroyed s'" "state s' = state s" for s'
    using complete_failure_ok [OF core_ok_push_event [OF that(1)], of ?ev] that by simp
  have fail: "core_ok (complete_failure ?op RESULT_PROTOCOL 0 now (response_error m RESULT_PROTOCOL 0 s))
      \<and> (state (complete_failure ?op RESULT_PROTOCOL 0 now (response_error m RESULT_PROTOCOL 0 s))
          = StReady \<longrightarrow> state s = StReady)"
    using complete_failure_ok [OF response_error_ok [OF ok]] alive by simp
  have lost: "core_ok (destroy_allocation ?op RESULT_PROTOCOL ?code (response_error m 0 ?code s))"
    by (rule destroy_allocation_ok [OF response_error_ok [OF ok]]) (simp add: alive)
  have again: "core_ok (fst (start_operation E now ?op True (Suc (po_nonce_retries p)) (set_auth E r n s)))"
    if "po_nonce_retries p < prof_max_nonce_retries (profile s)" for r n
    by (rule start_operation_ok [OF set_auth_ok [OF ok alive]]) (use that alive ph in simp_all)
  show ?thesis
  proof (cases "?code = 0 \<or> requires_allocation_recreate ?op ?code")
    case True
    then show ?thesis using fail lost by (auto simp: handle_error_def Let_def)
  next
    case False
    let ?r = "case attribute m ATTR_REALM of Some a \<Rightarrow> Some (a_value a)
        | None \<Rightarrow> if ?code = 438 then realm s else None"
    let ?n = "map_option a_value (attribute m ATTR_NONCE)"
    show ?thesis
    proof (cases "?code \<in> {401, 438} \<and> po_nonce_retries p < prof_max_nonce_retries (profile s)
        \<and> ?r \<noteq> None \<and> ?n \<noteq> None")
      case retry: True
      then obtain r n where rn: "?r = Some r" "?n = Some n" by auto
      obtain s' x where st: "start_operation E now ?op True (Suc (po_nonce_retries p)) (set_auth E r n s)
          = (s', x)" by fastforce
      have s': "core_ok s'" "\<not> destroyed s'" "state s' = state s"
        using again [of r n] retry alive
          start_operation_fields(1,10) [of E now ?op True "Suc (po_nonce_retries p)" "set_auth E r n s"]
        by (simp_all add: st)
      have "handle_error E now p m s = (case x of Inr _ \<Rightarrow> s'
          | Inl _ \<Rightarrow> complete_failure ?op RESULT_PROTOCOL ?code now (push_event ?ev s'))"
        using False retry by (auto simp: handle_error_def Let_def rn st split: sum.splits)
      then show ?thesis using s' give_up [OF s'] by (cases x) simp_all
    next
      case no: False
      then have "handle_error E now p m s =
          complete_failure ?op RESULT_PROTOCOL ?code now (push_event ?ev s)"
        using False by (auto simp: handle_error_def Let_def split: option.splits)
      then show ?thesis using give_up [OF ok alive refl] by simp
    qed
  qed
qed

section \<open>The handlers\<close>

text \<open>The response answers a pending transaction, and its integrity holds where it must.\<close>

definition accepts :: "turn_env \<Rightarrow> bytes \<Rightarrow> inner \<Rightarrow> stun_message \<Rightarrow> nat \<Rightarrow> bool" where
  "accepts E packet s m i \<longleftrightarrow>
     stun_decode packet = Inr m \<and> stun_class_of m \<in> {Success, Error}
     \<and> fingerprint_valid (env_crc E) m \<noteq> Some False
     \<and> position (matches m) (pending_ops s) = Some i
     \<and> \<not> lacks_integrity E packet m s (pending_ops s ! i)"

lemma input_stun_accepted:
  assumes "accepts E packet s m i"
  shows "input_stun E now packet s =
    (let p = pending_ops s ! i; s1 = take_pending i s
     in if stun_class_of m = Success \<and> \<not> po_authenticated p then
          (complete_failure (po_operation p) RESULT_AUTHENTICATION 0 now s1, RESULT_AUTHENTICATION)
        else if stun_class_of m = Error then (handle_error E now p m s1, 0)
        else (case complete_success E now (po_operation p) m s1 of
                (s2, Inr _) \<Rightarrow> (s2, 0)
              | (s2, Inl _) \<Rightarrow>
                  (complete_failure (po_operation p) RESULT_PROTOCOL 0 now s2, RESULT_PROTOCOL)))"
proof -
  have "m_transaction m = po_transaction (pending_ops s ! i)"
    using assms position_Some [of "matches m" "pending_ops s" i] by (simp add: matches_def accepts_def)
  then show ?thesis
    using assms by (simp add: input_stun_def accepts_def take_pending_def Let_def)
qed

text \<open>Otherwise the response is not accepted, and at most an event is queued.\<close>

lemma input_stun_refused:
  assumes "\<not> (\<exists>m i. accepts E packet s m i)"
  shows "fst (input_stun E now packet s) = s
    \<or> (\<exists>e. fst (input_stun E now packet s) = push_event e s)"
  using assms
  by (auto simp: input_stun_def accepts_def Let_def response_error_def
      split: sum.splits option.splits stun_class.splits)

lemma complete_success_fields:
  "destroyed (fst (complete_success E now op m s)) = destroyed s"
  "state (fst (complete_success E now op m s)) = StReady \<Longrightarrow> state s = StReady \<or> op = Allocate"
  "snd (complete_success E now op m s) = Inl f \<Longrightarrow>
     state (fst (complete_success E now op m s)) = StReady \<Longrightarrow> state s = StReady"
  by (auto simp: complete_success_def Let_def split: operation.splits sum.splits if_splits)

lemma input_stun_ok:
  assumes ok: "core_ok s"
  shows "core_ok (fst (input_stun E now packet s))"
proof (cases "\<exists>m i. accepts E packet s m i")
  case False
  from input_stun_refused [OF this] show ?thesis
    using ok core_ok_push_event by metis
next
  case True
  then obtain m i where a: "accepts E packet s m i" by blast
  let ?p = "pending_ops s ! i" and ?s1 = "take_pending i s"
  have i: "i < length (pending_ops s)" using a position_Some by (auto simp: accepts_def)
  have live: "\<not> destroyed s"
  proof
    assume "destroyed s"
    then have "pending_ops s = []" using core_okD(2) [OF ok] by (simp add: phase_ok_def)
    then show False using i by simp
  qed
  have ok1: "core_ok ?s1" by (rule take_pending_ok [OF ok live])
  have live1: "\<not> destroyed ?s1" by (simp add: live)
  have ph: "phase (po_operation ?p) = state ?s1"
    using core_okD(4) [OF ok] i by (simp add: list_all_length op_ok_def)
  have out: "\<not> has_operation (po_operation ?p) ?s1" by (rule take_pending_op [OF ok i])
  note he = handle_error_ok [OF ok1 live1 ph, of E now m]
  note cs = complete_success_ok [OF ok1 live1 ph out, of E now m]
  obtain s2 x where s2: "complete_success E now (po_operation ?p) m ?s1 = (s2, x)" by fastforce
  have "core_ok s2" and "\<not> destroyed s2"
    using cs complete_success_fields(1) [of E now "po_operation ?p" m ?s1] live1 by (simp_all add: s2)
  then show ?thesis
    unfolding input_stun_accepted [OF a] Let_def s2
    using he complete_failure_ok(1) [OF ok1 live1] complete_failure_ok(1)
    by (auto split: sum.splits)
qed

lemma maintain_ok:
  assumes ok: "core_ok s" and alive: "\<not> destroyed s" and r: "state s = StReady" "phase op = StReady"
    and clear: "\<And>s. core_ok s \<Longrightarrow> \<not> destroyed s \<Longrightarrow> core_ok (clear s)"
      "\<And>s. destroyed (clear s) = destroyed s" "\<And>s. state (clear s) = state s"
  shows "core_ok (fst (maintain E now w clear op s))"
    and "destroyed (fst (maintain E now w clear op s)) = destroyed s"
    and "state (fst (maintain E now w clear op s)) = state s"
  using start_operation_ok [OF clear(1) [OF ok alive], of op 0 E now True] ok alive r clear(2,3)
    start_operation_fields(1,10) [of E now op True 0 "clear s"]
  by (auto simp: maintain_def split: sum.splits prod.splits) (metis fst_conv start_operation_fields(1,10))+

lemma core_ok_timer:
  assumes "core_ok s" and "\<not> destroyed s"
  shows "core_ok (s\<lparr>allocation_refresh := t\<rparr>)" "core_ok (s\<lparr>maintenance_refresh := t\<rparr>)"
    "core_ok (s\<lparr>permission_retry := t\<rparr>)" "core_ok (s\<lparr>channel_retry := t\<rparr>)"
    "core_ok (s\<lparr>keepalive := t\<rparr>)"
  by (rule core_ok_cong [OF assms(1)],
      rule queues_ok_fields [OF core_okD(1) [OF assms(1)]]; use assms(2) in simp)+

definition steady :: "inner \<Rightarrow> bool" where
  "steady s \<longleftrightarrow> core_ok s \<and> \<not> destroyed s \<and> state s = StReady"

lemma maintain_steady:
  assumes "steady s" and "phase op = StReady"
    and "\<And>s. core_ok s \<Longrightarrow> \<not> destroyed s \<Longrightarrow> core_ok (clear s)"
    and "\<And>s. destroyed (clear s) = destroyed s" "\<And>s. state (clear s) = state s"
  shows "steady (fst (maintain E now w clear op s))"
  using maintain_ok [of s op clear E now w] assms by (simp add: steady_def)

lemma maintenance_steady: "steady s \<Longrightarrow> steady (fst (maintenance E now s))"
proof -
  assume s: "steady s"
  let ?c1 = "\<lambda>s. s\<lparr>allocation_refresh := None\<rparr>"
  let ?c2 = "\<lambda>s. s\<lparr>permission_retry := None\<rparr>"
  let ?c3 = "\<lambda>s. s\<lparr>channel_retry := None\<rparr>"
  obtain s1 r1 where m1: "maintain E now (due now (allocation_refresh s)) ?c1 Refresh s = (s1, r1)"
    by fastforce
  have s1: "steady s1"
    using maintain_steady [OF s, of Refresh ?c1 E now "due now (allocation_refresh s)"]
    by (simp add: m1 core_ok_timer)
  define s2 where "s2 = (if due now (maintenance_refresh s)
      then s1\<lparr>maintenance_refresh := Some (now + prof_maintenance_refresh (profile s1))\<rparr> else s1)"
  have s2: "steady s2" using s1 by (simp add: s2_def steady_def core_ok_timer)
  let ?w2 = "due now (maintenance_refresh s) \<or> due now (permission_retry s)"
  obtain s3 r2 where m2: "maintain E now ?w2 ?c2 Permission s2 = (s3, r2)" by fastforce
  have s3: "steady s3"
    using maintain_steady [OF s2, of Permission ?c2 E now ?w2] by (simp add: m2 core_ok_timer)
  let ?w3 = "due now (maintenance_refresh s) \<or> due now (channel_retry s)"
  obtain s4 r3 where m3: "maintain E now ?w3 ?c3 Channel s3 = (s4, r3)" by fastforce
  have s4: "steady s4"
    using maintain_steady [OF s3, of Channel ?c3 E now ?w3] by (simp add: m3 core_ok_timer)
  let ?s5 = "s4\<lparr>keepalive := Some (now + prof_keepalive_interval (profile s4))\<rparr>"
  have s5: "steady ?s5" using s4 by (simp add: steady_def core_ok_timer)
  then have s6: "steady (queue_keepalive ?s5)"
    by (auto simp: steady_def queue_keepalive_def core_ok_queue_packet split: option.splits)
  have "fst (maintenance E now s) \<in> {s1, s3, s4, ?s5, queue_keepalive ?s5}"
    unfolding maintenance_def Let_def m1 prod.case s2_def [symmetric] m2 prod.case m3 prod.case
    by (auto split: sum.splits)
  then show ?thesis using s1 s3 s4 s5 s6 by auto
qed

lemma poll_ok:
  assumes "core_ok s"
  shows "core_ok (fst (poll E now s))"
    and "state (fst (poll E now s)) = StReady \<Longrightarrow> state s = StReady"
proof -
  have "core_ok (fst (poll E now s)) \<and> (state (fst (poll E now s)) = StReady \<longrightarrow> state s = StReady)"
  proof (cases "destroyed s")
    case True
    then show ?thesis using assms by (simp add: poll_def)
  next
    case False
    let ?s1 = "expire_transactions now s"
    have e: "core_ok ?s1" "\<not> destroyed ?s1" "state ?s1 = StReady \<longrightarrow> state s = StReady"
      using expire_from_ok [OF assms False, of now 0] by (simp_all add: expire_transactions_def)
    let ?s2 = "if \<not> shutting_down ?s1 \<and> state ?s1 = StReady \<and> due now (allocation_expires_at ?s1)
        then destroy_allocation Refresh RESULT_TIMEOUT 0 ?s1 else ?s1"
    have s2: "core_ok ?s2" "\<not> destroyed ?s2" "state ?s2 = StReady \<longrightarrow> state s = StReady"
      using e destroy_allocation_ok [OF e(1,2)] by simp_all
    let ?r = "if \<not> shutting_down ?s2 \<and> state ?s2 = StReady then maintenance E now ?s2 else (?s2, Inr ())"
    have r: "core_ok (fst ?r)" "state (fst ?r) = StReady \<longrightarrow> state s = StReady"
      using s2 maintenance_steady [of ?s2 E now] by (auto simp: steady_def)
    have "fst (poll E now s) = fst ?r"
      using False by (simp add: poll_def Let_def split: sum.splits prod.splits)
    then show ?thesis using r by simp
  qed
  then show "core_ok (fst (poll E now s))"
    and "state (fst (poll E now s)) = StReady \<Longrightarrow> state s = StReady" by simp_all
qed

lemma start_allocation_ok:
  assumes "core_ok s"
  shows "core_ok (fst (start_allocation E now s))"
proof (cases "require_open s = Inr () \<and> state s = StNull")
  case True
  then have alive: "\<not> destroyed s" and null: "state s = StNull" by (simp_all add: require_open_def)
  have "pending_ops s = []"
  proof (rule ccontr)
    assume "pending_ops s \<noteq> []"
    then obtain p ps where "pending_ops s = p # ps" by (cases "pending_ops s") auto
    then have "phase (po_operation p) = StNull"
      using core_okD(4) [OF assms] null by (simp add: op_ok_def)
    then show False by (cases "po_operation p") simp_all
  qed
  then have "core_ok (set_state StAllocating s)"
    using core_okD(1) [OF assms] channel_none [OF assms alive] null alive
    by (intro core_ok_idle) simp_all
  then show ?thesis
    using True alive by (simp add: start_allocation_def start_operation_ok)
qed (auto simp: start_allocation_def assms split: sum.splits)

lemma start_ready_ok:
  assumes "core_ok s" and "phase op = StReady"
  shows "core_ok (fst (start_ready E now op s))"
  using assms by (auto simp: start_ready_def require_ready_def require_open_def and_then_Inr_conv
      start_operation_ok split: sum.splits)

lemma graceful_shutdown_ok:
  assumes "core_ok s"
  shows "core_ok (fst (graceful_shutdown E now s))"
proof (cases "destroyed s \<or> shutting_down s")
  case True
  then show ?thesis using assms by (simp add: graceful_shutdown_def)
next
  case False
  let ?s1 = "s\<lparr>shutting_down := True, channel := None, maintenance_refresh := None,
      permission_retry := None, channel_retry := None, keepalive := None, controls := []\<rparr>"
  have q: "queues_ok ?s1" by (rule queues_ok_fields [OF core_okD(1) [OF assms]]) simp_all
  have "op_ok ?s1 = op_ok s" by (rule op_ok_fields) simp_all
  then have ok1: "core_ok ?s1"
    using core_okD [OF assms] q False by (simp add: core_ok_def) (simp add: phase_ok_def)
  have cleared: "core_ok (?s1\<lparr>pending_ops := []\<rparr>)"
    using core_okD(2) [OF ok1] q False by (simp add: core_ok_def) (simp add: phase_ok_def)
  have "core_ok (set_state StDeallocating (?s1\<lparr>pending_ops := []\<rparr>))"
    by (rule core_ok_idle) (use q False in simp_all)
  then have "core_ok (fst (start_operation E now Deallocate True 0
      (set_state StDeallocating (?s1\<lparr>pending_ops := []\<rparr>))))"
    using False by (intro start_operation_ok) simp_all
  then show ?thesis
    using ok1 cleared False by (simp add: graceful_shutdown_def Let_def)
qed

lemma force_destroy_ok:
  assumes "core_ok s"
  shows "core_ok (force_destroy st s)"
proof (cases "destroyed s")
  case False
  let ?s1 = "set_state StDestroying (s\<lparr>destroyed := True, controls := [], pending_ops := []\<rparr>)"
  have "queues_ok (s\<lparr>destroyed := True, controls := [], pending_ops := []\<rparr>)"
    by (rule queues_ok_fields [OF core_okD(1) [OF assms]]) simp_all
  then have "core_ok ?s1" by (simp add: core_ok_def phase_ok_def)
  then show ?thesis using False by (simp add: force_destroy_def core_ok_push_event)
qed (simp add: force_destroy_def assms)

lemma pull_ok:
  assumes "core_ok s"
  shows "core_ok (fst (pull_control s))" and "core_ok (fst (pull_event s))"
proof -
  have *: "core_ok (s\<lparr>controls := cs\<rparr>)" if "controls s = c # cs" for c cs
  proof -
    have "queues_ok (s\<lparr>controls := cs\<rparr>)"
      by (rule queues_ok_fields [OF core_okD(1) [OF assms]]) (simp_all add: that)
    moreover have "op_ok (s\<lparr>controls := cs\<rparr>) = op_ok s" by (rule op_ok_fields) simp_all
    ultimately show ?thesis using core_okD [OF assms] that by (simp add: core_ok_def) (auto simp: phase_ok_def)
  qed
  show "core_ok (fst (pull_control s))"
    using assms * by (auto simp: pull_control_def Let_def split: list.splits)
  have *: "core_ok (s\<lparr>events := es\<rparr>)" if "events s = e # es" for e es
  proof -
    have "queues_ok (s\<lparr>events := es\<rparr>)"
      by (rule queues_ok_fields [OF core_okD(1) [OF assms]]) (simp_all add: that)
    moreover have "op_ok (s\<lparr>events := es\<rparr>) = op_ok s" by (rule op_ok_fields) simp_all
    ultimately show ?thesis using core_okD [OF assms] by (simp add: core_ok_def) (simp add: phase_ok_def)
  qed
  show "core_ok (fst (pull_event s))"
    using assms * by (auto simp: pull_event_def split: list.splits)
qed

lemma core_apply_ok: "core_ok s \<Longrightarrow> core_ok (core_apply E s i)"
proof -
  assume ok: "core_ok s"
  obtain now inp where i: "i = (now, inp)" by (cases i)
  show ?thesis
    by (cases inp)
      (simp_all add: i ok start_allocation_ok start_permission_def start_channel_def start_ready_ok
        input_stun_ok poll_ok(1) pull_ok graceful_shutdown_ok force_destroy_ok)
qed

interpretation turn_core: machine "core_step E" core_ok "\<lambda>_. True" for E
  by unfold_locales (simp_all add: core_step_def core_apply_ok)

lemma core_ok_new: "core_new srv user pass pr prof tr = Inr s \<Longrightarrow> core_ok s"
  by (auto simp: core_new_def core_ok_def queues_ok_def phase_ok_def split: if_splits)

section \<open>Properties\<close>

text \<open>C3: Whatever datagrams, polls, starts, shutdowns and times a TURN core is driven with, it
  never queues more than 16 control packets or 64 events, never has two transactions of one
  operation, only runs an operation in its phase of the allocation, sends each request at most
  7 times with a timeout between 200 and 1600 ms, answers challenges at most as often as the
  profile allows, and once destroyed keeps nothing queued or pending.\<close>

theorem turn_core_bounded:
  assumes "core_new srv user pass pr prof tr = Inr s0"
  shows "core_ok (fst (run (core_step E) s0 inputs))"
  using turn_core.run_inv [OF core_ok_new [OF assms]] .

definition demo_addr :: socket_addr where "demo_addr = SocketAddr (V4 16909060) 3478"

definition demo_env :: turn_env where
  "demo_env = \<lparr>env_hmac = (\<lambda>k bs. replicate 20 7), env_crc = (\<lambda>_. 5),
     env_md5 = (\<lambda>_. replicate 16 3), env_random = (\<lambda>n. replicate 12 (of_nat n))\<rparr>"

theorem turn_core_bounded_witness:
  "\<exists>s0. core_new demo_addr [117] [112] demo_addr PJNATH_COMPAT Datagram = Inr s0
    \<and> core_ok (fst (run (core_step demo_env) s0 [(0, InStartAllocation), (5, InPoll)]))"
proof -
  obtain s0 where s0: "core_new demo_addr [117] [112] demo_addr PJNATH_COMPAT Datagram = Inr s0"
    by (simp add: core_new_def demo_addr_def)
  from turn_core_bounded [OF this] s0 show ?thesis by blast
qed

end
