(* ===== verification/TurnSafety.thy ===== *)
theory TurnSafety
  imports TurnInvariant
begin

text \<open>
  What the TURN core promises against hostile traffic: the allocation becomes ready and the
  channel is bound only on a response whose integrity holds under the core's key. And the
  bounds of maintenance: retry delays, the end after four failed rebinds, and the timer that
  is left running then.
\<close>

section \<open>Only authenticated responses move the core forward\<close>

text \<open>A step that makes no progress: the state does not become ready, no channel is bound.\<close>

definition calm :: "inner \<Rightarrow> inner \<Rightarrow> bool" where
  "calm s s' \<longleftrightarrow> (state s' = StReady \<longrightarrow> state s = StReady) \<and> (channel s = None \<longrightarrow> channel s' = None)"

lemma calm_refl [simp]: "calm s s"
  by (simp add: calm_def)

lemma calm_trans: "calm a b \<Longrightarrow> calm b c \<Longrightarrow> calm a c"
  by (auto simp: calm_def)

lemma calm_same: "state s' = state s \<Longrightarrow> channel s' = channel s \<Longrightarrow> calm s s'"
  by (simp add: calm_def)

lemma calm_complete_failure: "calm s (complete_failure op st c now s)"
  by (simp add: calm_def complete_failure_def Let_def)

lemma calm_fail_pending: "calm s (fail_pending now i s)"
  using calm_complete_failure [of "take_pending i s"] unfolding fail_pending_eq
  by (simp add: calm_def)

lemma calm_retransmit: "calm s (retransmit now i s)"
  by (rule calm_same) (simp_all add: retransmit_def Let_def)

lemma calm_expire_from: "calm s (expire_from now i s)"
proof (induction now i s rule: expire_from.induct)
  case (1 now i s)
  note f = calm_trans [OF calm_fail_pending [of s now i]]
  note r = calm_trans [OF calm_retransmit [of s now i]]
  show ?case
    using 1 f r by (subst expire_from.simps) (simp add: Let_def)
qed

lemma start_operation_calm:
  "start_operation E now op a n s = (s', x) \<Longrightarrow> state s' = state s \<and> channel s' = channel s"
  using start_operation_fields(1,3) [of E now op a n s] by simp

lemma calm_start: "calm s (fst (start_operation E now op a n s))"
  by (rule calm_same) simp_all

lemma calm_push_event: "calm s (push_event e s)"
  by (rule calm_same) simp_all

lemma calm_set_auth: "calm s (set_auth E r n s)"
  by (rule calm_same) (simp_all add: set_auth_def)

lemma calm_destroy_allocation: "calm s (destroy_allocation op st c s)"
  by (simp add: calm_def)

lemma calm_maintain:
  assumes "\<And>s. state (clear s) = state s" and "\<And>s. channel (clear s) = channel s"
  shows "calm s (fst (maintain E now w clear op s))"
  using assms
  by (auto simp: maintain_def calm_def split: sum.splits prod.splits dest!: start_operation_calm)

lemma calm_maintenance: "calm s (fst (maintenance E now s))"
proof -
  let ?c1 = "\<lambda>s. s\<lparr>allocation_refresh := None\<rparr>"
  let ?c2 = "\<lambda>s. s\<lparr>permission_retry := None\<rparr>"
  let ?c3 = "\<lambda>s. s\<lparr>channel_retry := None\<rparr>"
  obtain s1 r1 where m1: "maintain E now (due now (allocation_refresh s)) ?c1 Refresh s = (s1, r1)"
    by fastforce
  have c1: "calm s s1" using calm_maintain [of ?c1 s E now "due now (allocation_refresh s)" Refresh]
    by (simp add: m1)
  define s2 where "s2 = (if due now (maintenance_refresh s)
      then s1\<lparr>maintenance_refresh := Some (now + prof_maintenance_refresh (profile s1))\<rparr> else s1)"
  have c2: "calm s s2" using c1 by (auto simp: s2_def calm_def)
  let ?w2 = "due now (maintenance_refresh s) \<or> due now (permission_retry s)"
  obtain s3 r2 where m2: "maintain E now ?w2 ?c2 Permission s2 = (s3, r2)" by fastforce
  have c3: "calm s s3" using calm_trans [OF c2 calm_maintain [of ?c2 s2 E now ?w2 Permission]]
    by (simp add: m2)
  let ?w3 = "due now (maintenance_refresh s) \<or> due now (channel_retry s)"
  obtain s4 r3 where m3: "maintain E now ?w3 ?c3 Channel s3 = (s4, r3)" by fastforce
  have c4: "calm s s4" using calm_trans [OF c3 calm_maintain [of ?c3 s3 E now ?w3 Channel]]
    by (simp add: m3)
  let ?s5 = "s4\<lparr>keepalive := Some (now + prof_keepalive_interval (profile s4))\<rparr>"
  have c5: "calm s ?s5" "calm s (queue_keepalive ?s5)"
    using c4 by (auto simp: calm_def queue_keepalive_def split: option.splits)
  have "fst (maintenance E now s) \<in> {s1, s3, s4, ?s5, queue_keepalive ?s5}"
    unfolding maintenance_def Let_def m1 prod.case s2_def [symmetric] m2 prod.case m3 prod.case
    by (auto split: sum.splits)
  then show ?thesis using c1 c3 c4 c5 by auto
qed

lemma calm_poll: "calm s (fst (poll E now s))"
proof (cases "destroyed s")
  case False
  let ?s1 = "expire_transactions now s"
  let ?s2 = "if \<not> shutting_down ?s1 \<and> state ?s1 = StReady \<and> due now (allocation_expires_at ?s1)
      then destroy_allocation Refresh RESULT_TIMEOUT 0 ?s1 else ?s1"
  let ?r = "if \<not> shutting_down ?s2 \<and> state ?s2 = StReady then maintenance E now ?s2 else (?s2, Inr ())"
  have c1: "calm s ?s1" by (simp add: expire_transactions_def calm_expire_from)
  then have c2: "calm s ?s2" using calm_trans [OF c1 calm_destroy_allocation] by simp
  then have "calm s (fst ?r)" using calm_trans [OF c2 calm_maintenance] by simp
  moreover have "fst (poll E now s) = fst ?r"
    using False by (simp add: poll_def Let_def split: sum.splits prod.splits)
  ultimately show ?thesis by simp
qed (simp add: poll_def)

lemma calm_handle_error: "calm s (handle_error E now p m s)"
proof -
  have give_up: "calm s (complete_failure op st c now (push_event e s'))" if "calm s s'" for op st c e s'
    by (rule calm_trans [OF that calm_trans [OF calm_push_event calm_complete_failure]])
  have again: "calm s s'"
    if "start_operation E now (po_operation p) True n (set_auth E r nc s) = (s', x)" for s' x n r nc
    using start_operation_calm [OF that] by (simp add: calm_def set_auth_def)
  have destroy: "calm s (destroy_allocation op st c s')" if "calm s s'" for op st c s'
    by (rule calm_trans [OF that calm_destroy_allocation])
  show ?thesis
    by (auto simp: handle_error_def Let_def response_error_def give_up destroy calm_push_event
        split: option.splits sum.splits prod.splits dest!: again intro: give_up)
qed

lemma complete_success_progress:
  assumes "complete_success E now op m s = (s', x)" and "\<not> calm s s'"
  shows "op \<in> {Allocate, Channel} \<and> x = Inr ()"
  using assms
  by (auto simp: complete_success_def Let_def calm_def split: operation.splits sum.splits if_splits
      dest!: start_operation_calm)

text \<open>C2: Only one thing makes the allocation ready or binds the channel: a success response
  that answers a pending authenticated Allocate or ChannelBind transaction, decodes, and
  carries a message integrity that verifies under the core's key. No error, challenge, timeout,
  poll, shutdown or unauthenticated datagram does.\<close>

theorem progress_needs_integrity:
  assumes "state (core_apply E s (now, inp)) = StReady \<and> state s \<noteq> StReady
    \<or> channel (core_apply E s (now, inp)) \<noteq> None \<and> channel s = None"
  shows "\<exists>packet m p. inp = InStun packet \<and> stun_decode packet = Inr m \<and> stun_class_of m = Success
    \<and> p \<in> set (pending_ops s) \<and> matches m p \<and> po_authenticated p
    \<and> po_operation p \<in> {Allocate, Channel} \<and> verify_integrity (env_hmac E) packet m (key s)"
proof -
  have moved: "\<not> calm s (core_apply E s (now, inp))" using assms by (auto simp: calm_def)
  have ready: "calm s (fst (start_ready E now op s))" for op
    using calm_start [of s E now op True 0] by (simp add: start_ready_def split: sum.splits)
  have alloc: "calm s (fst (start_allocation E now s))"
    by (auto simp: start_allocation_def calm_def split: sum.splits)
  have down: "calm s (fst (graceful_shutdown E now s))"
    by (auto simp: graceful_shutdown_def Let_def calm_def)
  have pull: "calm s (fst (pull_control s))" "calm s (fst (pull_event s))"
    by (auto simp: pull_control_def pull_event_def calm_def Let_def split: list.splits)
  have force: "calm s (force_destroy status s)" for status
    by (auto simp: force_destroy_def calm_def)
  obtain packet where inp: "inp = InStun packet"
    using moved ready alloc down pull force calm_poll [of s E now]
    by (cases inp) (simp_all add: start_permission_def start_channel_def)
  have moved': "\<not> calm s (fst (input_stun E now packet s))" using moved by (simp add: inp)
  obtain m i where a: "accepts E packet s m i"
    using input_stun_refused [of E packet s now] moved' calm_push_event by (metis calm_refl)
  let ?p = "pending_ops s ! i" and ?s1 = "take_pending i s"
  have i: "i < length (pending_ops s)" "matches m ?p"
    using a position_Some by (auto simp: accepts_def)
  have c1: "calm s ?s1" "calm ?s1 s" by (simp_all add: calm_def)
  obtain s2 x where s2: "complete_success E now (po_operation ?p) m ?s1 = (s2, x)" by fastforce
  have cf: "calm s (complete_failure op st c now ?s1)" for op st c
    by (rule calm_trans [OF c1(1) calm_complete_failure])
  have he: "calm s (handle_error E now ?p m ?s1)"
    by (rule calm_trans [OF c1(1) calm_handle_error])
  have success: "stun_class_of m = Success \<and> po_authenticated ?p \<and> \<not> calm s s2"
  proof -
    have "stun_class_of m \<in> {Success, Error}" using a by (simp add: accepts_def)
    then show ?thesis
      using moved' cf he unfolding input_stun_accepted [OF a] Let_def s2
      by (cases x) (auto split: if_splits dest: calm_trans [OF _ calm_complete_failure])
  qed
  then have "\<not> calm ?s1 s2" using calm_trans [OF c1(1)] by blast
  then have op: "po_operation ?p \<in> {Allocate, Channel}"
    using complete_success_progress [OF s2] by blast
  have "verify_integrity (env_hmac E) packet m (key s)"
    using a success
    by (auto simp: accepts_def lacks_integrity_def response_requires_integrity_def
        is_fingerprinted_allocation_mismatch_def)
  moreover have "?p \<in> set (pending_ops s)" using i by simp
  ultimately show ?thesis using a success op i(2) inp by (auto simp: accepts_def)
qed

text \<open>A core that has an authenticated Allocate pending, and the relayed address it receives.\<close>

definition demo_pending :: pending_op where
  "demo_pending =
     \<lparr>po_operation = Allocate, po_transaction = replicate 12 0, po_packet = [], po_next_attempt = 0,
      po_rto = INITIAL_RTO, po_transmissions = 1, po_nonce_retries = 1, po_authenticated = True\<rparr>"

definition demo_core :: inner where
  "demo_core =
     \<lparr>server = demo_addr, peer = demo_addr, username = [117], password = [112], realm = Some [1],
      nonce = Some [2], key = Some [3], state = StAllocating, relay = None, channel = None,
      controls = [], events = [], pending_ops = [demo_pending], allocation_refresh = None,
      allocation_expires_at = None, maintenance_refresh = None, permission_retry = None,
      channel_retry = None, refresh_failures = 0, permission_failures = 0, channel_failures = 0,
      keepalive = None, shutting_down = False, destroyed = False, profile = PJNATH_COMPAT,
      transport = Datagram, draws = 1\<rparr>"

definition demo_attrs :: "attr list" where
  "demo_attrs =
     [(ATTR_XOR_RELAYED_ADDRESS, encode_xor_address demo_addr (replicate 12 0)),
      (ATTR_MESSAGE_INTEGRITY, replicate 20 7),
      (ATTR_FINGERPRINT, be32 (5 XOR FINGERPRINT_XOR))]"

definition demo_response :: bytes where
  "demo_response = wire 0x0103 (of_nat (length (body demo_attrs))) (replicate 12 0) demo_attrs"

lemma demo_decodes:
  obtains m where "stun_decode demo_response = Inr m" "m_kind m = 0x0103"
    "m_transaction m = replicate 12 0" "m_end m = 64" "attributes m = Inr (placed 20 demo_attrs)"
proof -
  have four: "is_ipv4 demo_addr" by (simp add: demo_addr_def is_ipv4_def)
  have eight: "length (encode_xor_address demo_addr (replicate 12 0)) = 8"
    using length_encode_xor_address [of "replicate 12 0" demo_addr] four by simp
  have len: "length (body demo_attrs) = 44"
    by (simp add: demo_attrs_def length_encode_attr clear_low2_div eight)
  have vals: "\<forall>kv \<in> set demo_attrs. length (snd kv) < 65536"
    by (simp add: demo_attrs_def eight)
  show ?thesis
    using decode_wire [of "replicate 12 0" "0x0103" demo_attrs] vals that
    by (auto simp: demo_response_def len)
qed

lemma demo_progress: "state (core_apply demo_env demo_core (0, InStun demo_response)) = StReady"
proof -
  obtain m where m: "stun_decode demo_response = Inr m" "m_kind m = 0x0103"
    "m_transaction m = replicate 12 0" "m_end m = 64" "attributes m = Inr (placed 20 demo_attrs)"
    by (rule demo_decodes)
  have kinds: "norm_kind ATTR_XOR_RELAYED_ADDRESS = ATTR_XOR_RELAYED_ADDRESS"
    "ATTR_XOR_RELAYED_ADDRESS \<noteq> ATTR_MESSAGE_INTEGRITY"
    "ATTR_XOR_RELAYED_ADDRESS \<noteq> ATTR_FINGERPRINT" "ATTR_XOR_RELAYED_ADDRESS \<noteq> ATTR_LIFETIME"
    "ATTR_MESSAGE_INTEGRITY \<noteq> ATTR_LIFETIME" "ATTR_FINGERPRINT \<noteq> ATTR_LIFETIME"
    by (simp_all add: norm_kind_def ATTR_XOR_RELAYED_ADDRESS_def ATTR_MESSAGE_INTEGRITY_def
        ATTR_FINGERPRINT_def ATTR_LIFETIME_def)
  have eight: "length (encode_xor_address demo_addr (replicate 12 0)) = 8"
    using length_encode_xor_address [of "replicate 12 0" demo_addr]
    by (simp add: demo_addr_def is_ipv4_def)
  have rel: "attribute m ATTR_XOR_RELAYED_ADDRESS = Some \<lparr>a_kind = ATTR_XOR_RELAYED_ADDRESS,
      a_value = encode_xor_address demo_addr (replicate 12 0), a_header_start = 20,
      a_value_start = 24, a_value_end = 32\<rparr>"
    by (simp add: attribute_def m demo_attrs_def kinds eight)
  have integ: "attribute m ATTR_MESSAGE_INTEGRITY = Some \<lparr>a_kind = ATTR_MESSAGE_INTEGRITY,
      a_value = replicate 20 7, a_header_start = 32, a_value_start = 36, a_value_end = 56\<rparr>"
    by (simp add: attribute_def m demo_attrs_def kinds eight length_encode_attr clear_low2_div)
  have fp: "attribute m ATTR_FINGERPRINT = Some \<lparr>a_kind = ATTR_FINGERPRINT,
      a_value = be32 (5 XOR FINGERPRINT_XOR), a_header_start = 56, a_value_start = 60,
      a_value_end = 64\<rparr>"
    by (simp add: attribute_def m demo_attrs_def kinds eight length_encode_attr clear_low2_div)
  have life: "attribute m ATTR_LIFETIME = None"
    by (simp add: attribute_def m demo_attrs_def kinds)
  have cls: "stun_class_of m = Success" "unat (stun_method m) = 3"
    by (simp_all add: stun_class_of_def stun_method_def m)
  have "fingerprint_valid (env_crc demo_env) m = Some True"
    by (simp add: fingerprint_valid_def fp m demo_env_def)
  moreover have "verify_integrity (env_hmac demo_env) demo_response m (Some [3])"
    by (simp add: verify_integrity_def integ demo_env_def)
  moreover have "relayed_address m = Inr demo_addr"
    by (simp add: relayed_address_def rel m xor_address_roundtrip)
  ultimately show ?thesis
    using m cls life
    by (simp add: input_stun_def matches_def demo_core_def demo_pending_def lacks_integrity_def
        complete_success_def attribute_u32_def lifetime_or_default_def REQUESTED_LIFETIME_def
        Let_def remove_at_def) (simp add: demo_addr_def)
qed

theorem progress_needs_integrity_witness:
  "state (core_apply demo_env demo_core (0, InStun demo_response)) = StReady
   \<and> state demo_core \<noteq> StReady
   \<and> (\<exists>m. stun_decode demo_response = Inr m
       \<and> verify_integrity (env_hmac demo_env) demo_response m (key demo_core))"
proof -
  have start: "state demo_core \<noteq> StReady" by (simp add: demo_core_def)
  from progress_needs_integrity [of demo_env demo_core 0 "InStun demo_response"]
  have "\<exists>m. stun_decode demo_response = Inr m
      \<and> verify_integrity (env_hmac demo_env) demo_response m (key demo_core)"
    using demo_progress start by blast
  then show ?thesis using demo_progress start by blast
qed

section \<open>Maintenance\<close>

lemma retry_delay_bounds: "secs 1 \<le> retry_delay n" "retry_delay n \<le> secs 30"
proof -
  have "(1 :: nat) \<le> 2 ^ min (n - 1) 5" by simp
  then show "secs 1 \<le> retry_delay n"
    by (simp add: retry_delay_def MAINTENANCE_RETRY_BASE_def MAINTENANCE_RETRY_MAX_def secs_def)
  show "retry_delay n \<le> secs 30"
    by (simp add: retry_delay_def MAINTENANCE_RETRY_MAX_def)
qed

text \<open>While the allocation lives, a failed maintenance operation is retried after 1 to 30
  seconds, except that the fourth channel rebind to fail in a row ends the allocation: the
  state is destroying and nothing stays queued or pending.\<close>

theorem maintenance_failure:
  assumes "op \<in> {Refresh, Permission, Channel}" and "state s = StReady"
    and "allocation_expires_at s = Some d" and "now < d"
  shows "(if op = Channel \<and> 3 \<le> channel_failures s
      then state (complete_failure op st c now s) = StDestroying
        \<and> pending_ops (complete_failure op st c now s) = []
        \<and> controls (complete_failure op st c now s) = []
      else state (complete_failure op st c now s) = StReady
        \<and> pending_ops (complete_failure op st c now s) = pending_ops s
        \<and> (\<exists>t. now + secs 1 \<le> t \<and> t \<le> now + secs 30
            \<and> (case op of Refresh \<Rightarrow> allocation_refresh (complete_failure op st c now s)
               | Permission \<Rightarrow> permission_retry (complete_failure op st c now s)
               | _ \<Rightarrow> channel_retry (complete_failure op st c now s)) = Some t))"
proof -
  let ?s1 = "complete op st c s"
  let ?r = "schedule_maintenance_retry op now ?s1"
  have f: "complete_failure op st c now s =
      (if snd ?r then fst ?r else destroy_after_channel_rebind_exhausted (fst ?r))"
    using assms by (simp add: complete_failure_def Let_def)
  have ok: "snd ?r \<longleftrightarrow> \<not> (op = Channel \<and> 3 \<le> channel_failures s)"
    using assms(1)
    by (auto simp: schedule_maintenance_retry_def Let_def saturating_succ_def
        MAX_CHANNEL_MAINTENANCE_FAILURES_def)
  have t: "now + secs 1 \<le> now + retry_delay n \<and> now + retry_delay n \<le> now + secs 30" for n
    using retry_delay_bounds by simp
  show ?thesis
  proof (cases "op = Channel \<and> 3 \<le> channel_failures s")
    case True
    then have "\<not> snd ?r" using ok by blast
    then show ?thesis unfolding f if_P [OF True] if_not_P [OF \<open>\<not> snd ?r\<close>] by simp
  next
    case False
    then have sched: "snd ?r" using ok by blast
    have "(case op of Refresh \<Rightarrow> allocation_refresh (fst ?r) | Permission \<Rightarrow> permission_retry (fst ?r)
        | _ \<Rightarrow> channel_retry (fst ?r)) \<in> range (\<lambda>n. Some (now + retry_delay n))"
      using assms(1) sched
      by (auto simp: schedule_maintenance_retry_def Let_def split: if_splits)
    then obtain n where "(case op of Refresh \<Rightarrow> allocation_refresh (fst ?r)
        | Permission \<Rightarrow> permission_retry (fst ?r) | _ \<Rightarrow> channel_retry (fst ?r)) =
        Some (now + retry_delay n)" by auto
    then show ?thesis
      unfolding f if_not_P [OF False] if_P [OF sched] using t [of n] assms(2) by auto
  qed
qed

theorem maintenance_failure_witness:
  "state (complete_failure Channel RESULT_TIMEOUT 0 5
     (demo_core\<lparr>state := StReady, allocation_expires_at := Some 9, channel_failures := 3\<rparr>))
   = StDestroying"
  using maintenance_failure [of Channel "demo_core\<lparr>state := StReady,
      allocation_expires_at := Some 9, channel_failures := 3\<rparr>" 9 5 RESULT_TIMEOUT 0]
  by simp

text \<open>The end after the failed rebinds leaves the refresh timer of the allocation running:
  from its deadline on every poll changes nothing and asks to be called again after 1 ms.\<close>

theorem rebind_exhausted_keeps_polling:
  assumes "allocation_refresh s = Some d" and "d \<le> now" and "\<not> destroyed s"
  shows "poll E now (destroy_after_channel_rebind_exhausted s) =
    (destroy_after_channel_rebind_exhausted s, Inr (Some (ms 1)))"
proof -
  let ?s = "destroy_after_channel_rebind_exhausted s"
  have "expire_transactions now ?s = ?s"
    by (simp add: expire_transactions_def expire_from.simps)
  moreover have "next_deadline ?s = Some d"
    by (simp add: next_deadline_def assms(1))
  ultimately show ?thesis using assms by (simp add: poll_def Let_def ms_def)
qed

theorem rebind_exhausted_keeps_polling_witness:
  "poll demo_env 7 (destroy_after_channel_rebind_exhausted (demo_core\<lparr>allocation_refresh := Some 5\<rparr>))
    = (destroy_after_channel_rebind_exhausted (demo_core\<lparr>allocation_refresh := Some 5\<rparr>),
       Inr (Some (ms 1)))"
  by (rule rebind_exhausted_keeps_polling [of _ 5]) (simp_all add: demo_core_def)

end
