(* ===== verification/Protocol.thy ===== *)
theory Protocol
  imports Bytes Packet
begin

text \<open>
  The control messages of the tunnel, \<^verbatim>\<open>backend/protocol.rs\<close>: the configuration request and
  its responses, the stream commands of the panel (repair and alive), and the test that keeps
  control messages out of the tunnel device.
\<close>

section \<open>Text\<close>

text \<open>\<^verbatim>\<open>std::str::from_utf8\<close>: which byte strings are UTF-8.\<close>

definition utf8_cont :: "byte \<Rightarrow> bool" where
  "utf8_cont b = (0x80 \<le> b \<and> b \<le> 0xBF)"

fun utf8_ok :: "bytes \<Rightarrow> bool" where
  "utf8_ok [] = True"
| "utf8_ok (b # bs) =
     (if b < 0x80 then utf8_ok bs
      else if 0xC2 \<le> b \<and> b \<le> 0xDF
        then (case bs of c # r \<Rightarrow> utf8_cont c \<and> utf8_ok r | _ \<Rightarrow> False)
      else if 0xE0 \<le> b \<and> b \<le> 0xEF
        then (case bs of
            c # d # r \<Rightarrow> utf8_cont c \<and> (b = 0xE0 \<longrightarrow> 0xA0 \<le> c) \<and> (b = 0xED \<longrightarrow> c \<le> 0x9F)
              \<and> utf8_cont d \<and> utf8_ok r
          | _ \<Rightarrow> False)
      else if 0xF0 \<le> b \<and> b \<le> 0xF4
        then (case bs of
            c # d # e # r \<Rightarrow> utf8_cont c \<and> (b = 0xF0 \<longrightarrow> 0x90 \<le> c) \<and> (b = 0xF4 \<longrightarrow> c \<le> 0x8F)
              \<and> utf8_cont d \<and> utf8_cont e \<and> utf8_ok r
          | _ \<Rightarrow> False)
      else False)"

text \<open>\<^verbatim>\<open>to_string\<close> of an unsigned integer.\<close>

fun decimal :: "nat \<Rightarrow> bytes" where
  "decimal n = (if n < 10 then [of_nat (48 + n)] else decimal (n div 10) @ [of_nat (48 + n mod 10)])"

declare decimal.simps [simp del]

definition decimal_val :: "bytes \<Rightarrow> nat" where
  "decimal_val bs = foldl (\<lambda>v b. v * 10 + (unat b - 48)) 0 bs"

lemma decimal_val_snoc [simp]: "decimal_val (bs @ [b]) = decimal_val bs * 10 + (unat b - 48)"
  by (simp add: decimal_val_def)

lemma digit_val:
  "k < 10 \<Longrightarrow> unat (of_nat (48 + k) :: byte) = 48 + k"
  by (simp add: unat_of_nat del: of_nat_add)

lemma decimal_val_decimal: "decimal_val (decimal n) = n"
proof (induction n rule: decimal.induct)
  case (1 n)
  have digit: "unat (of_nat (48 + k) :: byte) - 48 = k" if "k < 10" for k
    by (simp only: digit_val [OF that] add_diff_cancel_left')
  show ?case
  proof (cases "n < 10")
    case True
    then have "decimal n = [] @ [of_nat (48 + n)]" by (simp add: decimal.simps)
    then show ?thesis
      by (simp only: decimal_val_snoc digit [OF True]) (simp add: decimal_val_def)
  next
    case False
    then have "decimal n = decimal (n div 10) @ [of_nat (48 + n mod 10)]"
      by (simp add: decimal.simps)
    then show ?thesis
      using 1 [OF False] digit [of "n mod 10"] by (simp only: decimal_val_snoc) simp
  qed
qed

lemma decimal_inj [simp]: "decimal m = decimal n \<longleftrightarrow> m = n"
  by (metis decimal_val_decimal)

lemma decimal_nonempty [simp]: "decimal n \<noteq> []" "[] \<noteq> decimal n"
  by (simp_all add: decimal.simps [of n])

lemma decimal_digits: "b \<in> set (decimal n) \<Longrightarrow> 48 \<le> unat b \<and> unat b < 58"
proof (induction n rule: decimal.induct)
  case (1 n)
  show ?case
  proof (cases "n < 10")
    case True
    then show ?thesis using 1(2) digit_val [OF True] by (simp add: decimal.simps [of n])
  next
    case False
    then have "b \<in> set (decimal (n div 10)) \<or> b = of_nat (48 + n mod 10)"
      using 1(2) by (auto simp: decimal.simps [of n] simp del: of_nat_add)
    then show ?thesis using 1(1) [OF False] digit_val [of "n mod 10"] by fastforce
  qed
qed

section \<open>Requests\<close>

definition bar :: byte where "bar = 124"

definition WIRE_PROTOCOL_REVISION :: bytes where
  "WIRE_PROTOCOL_REVISION = ascii ''CSQTT-WIRE-3''"

definition config_request ::
  "bytes \<Rightarrow> bytes \<Rightarrow> bytes \<Rightarrow> nat \<Rightarrow> bytes \<Rightarrow> nat \<Rightarrow> nat option \<Rightarrow> bytes" where
  "config_request local_port device_id password generation_id salt worker_id desired_count =
     (let desired = (case desired_count of None \<Rightarrow> [] | Some n \<Rightarrow> decimal n) in
      ascii ''GETCONF:'' @ local_port @ [bar] @ device_id @ [bar] @ password @ [bar]
        @ decimal generation_id @ [bar] @ salt @ [bar] @ decimal worker_id @ [bar]
        @ desired @ [bar] @ WIRE_PROTOCOL_REVISION)"

definition disconnect_request :: "bytes \<Rightarrow> bytes \<Rightarrow> bytes" where
  "disconnect_request device_id salt = ascii ''DISCONNECT:'' @ device_id @ [bar] @ salt"

text \<open>A field without a separator is read back unambiguously.\<close>

lemma field_unique:
  "sep \<notin> set x \<Longrightarrow> sep \<notin> set y \<Longrightarrow> x @ [sep] @ r = y @ [sep] @ s \<longleftrightarrow> x = y \<and> r = s"
proof (induction x arbitrary: y)
  case Nil
  then show ?case by (cases y) auto
next
  case (Cons a x)
  then show ?case by (cases y) auto
qed

lemma bar_free_decimal [simp]: "bar \<notin> set (decimal n)"
  using decimal_digits [of bar n] by (auto simp: bar_def)

text \<open>A configuration request can be read in one way only: two requests whose text fields
  hold no separator are equal exactly when every field is, the optional worker count included.\<close>

theorem config_request_unambiguous:
  assumes "bar \<notin> set local_port \<union> set device_id \<union> set password \<union> set salt"
    and "bar \<notin> set local_port' \<union> set device_id' \<union> set password' \<union> set salt'"
  shows "config_request local_port device_id password generation_id salt worker_id desired
      = config_request local_port' device_id' password' generation_id' salt' worker_id' desired'
    \<longleftrightarrow> local_port = local_port' \<and> device_id = device_id' \<and> password = password'
      \<and> generation_id = generation_id' \<and> salt = salt' \<and> worker_id = worker_id'
      \<and> desired = desired'"
proof -
  let ?d = "\<lambda>x. case x of None \<Rightarrow> [] | Some n \<Rightarrow> decimal n"
  have free: "bar \<notin> set (?d x)" for x by (simp split: option.splits)
  have inj: "?d x = ?d y \<longleftrightarrow> x = y" for x y by (simp split: option.splits)
  show ?thesis
    using assms unfolding config_request_def Let_def same_append_eq
    by (simp only: field_unique bar_free_decimal free inj decimal_inj Un_iff de_Morgan_disj
        simp_thms append_same_eq)
qed

theorem config_request_unambiguous_witness:
  "config_request [57] [1] [2] 7 [3] 4 None \<noteq> config_request [57] [1] [2] 7 [3] 4 (Some 36)"
  by (subst config_request_unambiguous) (simp_all add: bar_def)

section \<open>Responses\<close>

datatype config_response = Config bytes | NoConfig

datatype config_error =
    InvalidUtf8
  | FatalAuthWrongPassword | FatalAuthExpired | FatalAuthDeviceMismatch
  | FatalProtocol
  | FatalAuthDenied bytes
  | UnexpectedResponse

definition denied :: "bytes \<Rightarrow> config_error" where
  "denied reason =
     (if reason = ascii ''wrong_password'' then FatalAuthWrongPassword
      else if reason = ascii ''expired'' then FatalAuthExpired
      else if reason = ascii ''device_mismatch'' then FatalAuthDeviceMismatch
      else if reason = ascii ''protocol_mismatch'' \<or> reason = ascii ''invalid_worker_count''
        then FatalProtocol
      else FatalAuthDenied reason)"

definition parse_config_response :: "bytes \<Rightarrow> (config_error, config_response) res" where
  "parse_config_response response =
     and_then (ensure (utf8_ok response) InvalidUtf8) (\<lambda>_.
     if response = ascii ''NOCONF'' then Inr NoConfig
     else case strip_prefix response (ascii ''DENIED:'') of
         Some reason \<Rightarrow> Inl (Fail (denied reason))
       | None \<Rightarrow>
           if starts_with response (ascii ''TUNCONF:'') then Inr (Config response)
           else Inl (Fail UnexpectedResponse))"

definition is_config_response :: "bytes \<Rightarrow> bool" where
  "is_config_response response =
     list_ex (starts_with response) [ascii ''TUNCONF:'', ascii ''NOCONF'', ascii ''DENIED:'']"

definition PANEL_RESTART_NOTICE :: bytes where
  "PANEL_RESTART_NOTICE = [0xff] @ ascii ''CSQTT_PANEL_RESTART_V1'' @ [0x00, 0x91, 0x7d, 0x03, 0xa8]"

definition STREAM_REPAIR_PREFIX :: bytes where
  "STREAM_REPAIR_PREFIX = [0xff] @ ascii ''CSQTT_STREAM_REPAIR_V1''"

definition STREAM_ALIVE_PREFIX :: bytes where
  "STREAM_ALIVE_PREFIX = [0xff] @ ascii ''CSQTT_STREAM_ALIVE_V1''"

definition is_panel_restart_notice :: "bytes \<Rightarrow> bool" where
  "is_panel_restart_notice response = (response = PANEL_RESTART_NOTICE)"

definition is_control_response :: "bytes \<Rightarrow> bool" where
  "is_control_response response =
     (is_panel_restart_notice response
      \<or> list_ex (starts_with response)
          [ascii ''TUNCONF:'', ascii ''NOCONF'', ascii ''DENIED:'', ascii ''READY_OK'',
           ascii ''OK:disconnected'', STREAM_REPAIR_PREFIX, STREAM_ALIVE_PREFIX])"


section \<open>Stream commands\<close>

record stream_command =
  sequence_no :: u64
  desired_count :: u16
  worker_ids :: "u16 list"

definition MAX_STREAM_WORKERS :: u16 where "MAX_STREAM_WORKERS = 126"

text \<open>The loop over \<^verbatim>\<open>chunks_exact(2)\<close>.\<close>

fun parse_worker_ids :: "u16 \<Rightarrow> bytes \<Rightarrow> u16 list option" where
  "parse_worker_ids desired (a # b # rest) =
     (let worker_id = u16_of a b in
      if worker_id = 0 \<or> desired < worker_id then None
      else map_option ((#) worker_id) (parse_worker_ids desired rest))"
| "parse_worker_ids desired [] = Some []"
| "parse_worker_ids desired [b] = Some []"

definition parse_stream_command :: "bytes \<Rightarrow> bytes \<Rightarrow> stream_command option" where
  "parse_stream_command payload prefix =
     (case strip_prefix payload prefix of None \<Rightarrow> None
      | Some rest \<Rightarrow>
          if length rest < 11 then None
          else
            let s = of_be64 (sub_list rest 0 8); desired = of_be16 (sub_list rest 8 10);
              count = unat (rest ! 10); ids = drop 11 rest in
            if s = 0 \<or> desired = 0 \<or> MAX_STREAM_WORKERS < desired
              \<or> length ids \<noteq> saturating_mul count 2 then None
            else (case parse_worker_ids desired ids of None \<Rightarrow> None
              | Some ws \<Rightarrow>
                  if ws \<noteq> []
                  then Some \<lparr>sequence_no = s, desired_count = desired, worker_ids = ws\<rparr>
                  else None))"

definition parse_stream_repair :: "bytes \<Rightarrow> stream_command option" where
  "parse_stream_repair payload = parse_stream_command payload STREAM_REPAIR_PREFIX"

definition parse_stream_alive :: "bytes \<Rightarrow> stream_command option" where
  "parse_stream_alive payload = parse_stream_command payload STREAM_ALIVE_PREFIX"

text \<open>What the panel may send, and its wire form.\<close>

definition command_ok :: "stream_command \<Rightarrow> bool" where
  "command_ok c =
     (sequence_no c \<noteq> 0 \<and> desired_count c \<noteq> 0 \<and> desired_count c \<le> MAX_STREAM_WORKERS
      \<and> worker_ids c \<noteq> [] \<and> length (worker_ids c) \<le> 255
      \<and> (\<forall>w \<in> set (worker_ids c). w \<noteq> 0 \<and> w \<le> desired_count c))"

definition command_bytes :: "stream_command \<Rightarrow> bytes" where
  "command_bytes c =
     be64 (sequence_no c) @ be16 (desired_count c) @ [of_nat (length (worker_ids c))]
       @ concat (map be16 (worker_ids c))"

lemma parse_worker_ids_iff:
  assumes "length ids = 2 * n"
  shows "parse_worker_ids desired ids = Some ws \<longleftrightarrow>
    ids = concat (map be16 ws) \<and> (\<forall>w \<in> set ws. w \<noteq> 0 \<and> w \<le> desired)"
  using assms
proof (induction desired ids arbitrary: ws n rule: parse_worker_ids.induct)
  case (1 desired a b rest)
  from 1(2) obtain m where m: "length rest = 2 * m" by (cases n) auto
  have ab: "[a, b] = be16 (u16_of a b)" by (simp add: u16_of_def be16_of_be16)
  have eq: "a # b # rest = be16 w @ r \<longleftrightarrow> u16_of a b = w \<and> rest = r" for w r
    using be16_codec.prefix_unique [of "u16_of a b" rest w r] ab by (metis append_Cons append_Nil)
  show ?case
  proof (cases "u16_of a b = 0 \<or> desired < u16_of a b")
    case True
    then show ?thesis by (cases ws) (auto simp: eq)
  next
    case False
    note IH = 1(1) [OF refl False m]
    show ?thesis
    proof (cases ws)
      case Nil
      then show ?thesis using False by simp
    next
      case (Cons w ws')
      have "parse_worker_ids desired (a # b # rest) = Some ws \<longleftrightarrow>
          u16_of a b = w \<and> parse_worker_ids desired rest = Some ws'"
        using False by (auto simp: Cons)
      also have "\<dots> \<longleftrightarrow> u16_of a b = w \<and> rest = concat (map be16 ws')
          \<and> (\<forall>w \<in> set ws'. w \<noteq> 0 \<and> w \<le> desired)"
        by (simp add: IH)
      also have "\<dots> \<longleftrightarrow> a # b # rest = be16 w @ concat (map be16 ws')
          \<and> (\<forall>w \<in> set ws. w \<noteq> 0 \<and> w \<le> desired)"
        using False unfolding eq Cons by auto
      finally show ?thesis by (simp add: Cons)
    qed
  qed
next
  case (2 desired)
  then show ?case by (cases ws) (auto simp: be16_def numeral_2_eq_2)
next
  case (3 desired v)
  then show ?case by simp
qed

lemma parse_worker_ids_length: "parse_worker_ids d ids = Some ws \<Longrightarrow> length ids = 2 * n \<Longrightarrow> length ws = n"
proof (induction d ids arbitrary: ws n rule: parse_worker_ids.induct)
  case (1 desired a b rest)
  then show ?case by (cases n) (auto simp: Let_def split: if_splits)
qed auto

lemma parse_command_bytes:
  assumes "command_ok c"
  shows "parse_stream_command (prefix @ command_bytes c) prefix = Some c"
proof -
  let ?ids = "concat (map be16 (worker_ids c))"
  have len: "length ?ids = 2 * length (worker_ids c)"
    by (simp add: length_concat comp_def sum_list_triv)
  have parts: "sub_list (command_bytes c) 0 8 = be64 (sequence_no c)"
    "sub_list (command_bytes c) 8 10 = be16 (desired_count c)"
    "command_bytes c ! 10 = of_nat (length (worker_ids c))"
    "drop 11 (command_bytes c) = ?ids" "length (command_bytes c) = 11 + length ?ids"
    by (simp_all add: command_bytes_def sub_list_def nth_append)
  have count: "unat (of_nat (length (worker_ids c)) :: byte) = length (worker_ids c)"
    using assms by (simp add: command_ok_def)
  have mul: "saturating_mul (length (worker_ids c)) 2 = length ?ids"
    using assms by (simp add: saturating_mul_def usize_max_def command_ok_def len)
  have "parse_worker_ids (desired_count c) ?ids = Some (worker_ids c)"
    using assms by (subst parse_worker_ids_iff [OF len]) (auto simp: command_ok_def)
  then show ?thesis
    using assms
    by (simp add: parse_stream_command_def Let_def parts count mul command_ok_def not_less)
qed

lemma parse_command_Some:
  assumes "parse_stream_command payload prefix = Some c"
  shows "command_ok c \<and> payload = prefix @ command_bytes c"
proof -
  from assms obtain rest where rest: "payload = prefix @ rest" and long: "11 \<le> length rest"
    by (auto simp: parse_stream_command_def Let_def dest!: strip_prefix_SomeD
        split: option.splits if_splits)
  let ?s = "sub_list rest 0 8" and ?d = "sub_list rest 8 10" and ?ids = "drop 11 rest"
  have facts: "of_be64 ?s \<noteq> 0" "of_be16 ?d \<noteq> 0" "of_be16 ?d \<le> MAX_STREAM_WORKERS"
    "length ?ids = saturating_mul (unat (rest ! 10)) 2" "worker_ids c \<noteq> []"
    "parse_worker_ids (of_be16 ?d) ?ids = Some (worker_ids c)"
    "c = \<lparr>sequence_no = of_be64 ?s, desired_count = of_be16 ?d, worker_ids = worker_ids c\<rparr>"
    using assms long
    by (auto simp: parse_stream_command_def rest Let_def not_less split: option.splits if_splits)
  have n: "unat (rest ! 10) < 256" by (rule unat_byte_less)
  have len: "length ?ids = 2 * unat (rest ! 10)"
    using facts(4) n by (simp add: saturating_mul_def usize_max_def)
  have count: "length (worker_ids c) = unat (rest ! 10)"
    by (rule parse_worker_ids_length [OF facts(6) len])
  have ws: "?ids = concat (map be16 (worker_ids c))"
    "\<forall>w \<in> set (worker_ids c). w \<noteq> 0 \<and> w \<le> of_be16 ?d"
    using facts(6) parse_worker_ids_iff [OF len] by auto
  have c: "sequence_no c = of_be64 ?s" "desired_count c = of_be16 ?d"
    using facts(7) by (metis stream_command.simps(1), metis stream_command.simps(2))
  have "length (worker_ids c) \<le> 255" using n count by linarith
  then have ok: "command_ok c" using facts(1-3,5) ws(2) unfolding command_ok_def c by simp
  have "rest = ?s @ ?d @ [rest ! 10] @ ?ids"
    using id_take_nth_drop [of 10 rest] take_add [of 8 2 rest] long by (simp add: sub_list_def)
  also have "\<dots> = command_bytes c"
    using long by (simp add: command_bytes_def c be64_of_be64 be16_of_be16 count ws(1) flip: ws(1))
  finally show ?thesis using ok rest by simp
qed


text \<open>The parser of stream commands accepts exactly the messages of the panel: a prefix, a
  non-zero sequence number, a worker count of 1 to 126 and 1 to 255 worker numbers within that
  count, nothing after them; and a message is never both a repair and an alive command.\<close>

theorem stream_command_exact:
  "(parse_stream_repair payload = Some c
      \<longleftrightarrow> command_ok c \<and> payload = STREAM_REPAIR_PREFIX @ command_bytes c)
   \<and> (parse_stream_alive payload = Some c
      \<longleftrightarrow> command_ok c \<and> payload = STREAM_ALIVE_PREFIX @ command_bytes c)
   \<and> (parse_stream_repair payload = None \<or> parse_stream_alive payload = None)"
proof -
  have exact: "parse_stream_command payload prefix = Some c
      \<longleftrightarrow> command_ok c \<and> payload = prefix @ command_bytes c" for prefix c
    using parse_command_bytes parse_command_Some by blast
  have "starts_with payload STREAM_REPAIR_PREFIX \<Longrightarrow> starts_with payload STREAM_ALIVE_PREFIX \<Longrightarrow> False"
    by (auto simp: starts_with_iff STREAM_REPAIR_PREFIX_def STREAM_ALIVE_PREFIX_def ascii_def)
  then have "parse_stream_repair payload = None \<or> parse_stream_alive payload = None"
    by (auto simp: parse_stream_repair_def parse_stream_alive_def parse_stream_command_def
        strip_prefix_def)
  then show ?thesis
    using exact unfolding parse_stream_repair_def parse_stream_alive_def by blast
qed

section \<open>Control messages and tunnel packets\<close>

text \<open>
  A datagram of the tunnel as the devices deliver it: an IPv4 packet whose total length is the
  datagram's, or an IPv6 packet.
\<close>

definition tunnel_packet :: "bytes \<Rightarrow> bool" where
  "tunnel_packet bs =
     (20 \<le> length bs \<and> length bs \<le> PACKET_CAPACITY
      \<and> (drop_bit 4 (bs ! 0) = 4 \<and> unat (u16_of (bs ! 2) (bs ! 3)) = length bs
         \<or> drop_bit 4 (bs ! 0) = 6))"

lemma nth_prefix: "i < length p \<Longrightarrow> (p @ xs) ! i = p ! i"
  by (simp add: nth_append)

lemma not_tunnel_packet:
  assumes "4 \<le> length p" and "drop_bit 4 (p ! 0) \<noteq> 6"
    and "drop_bit 4 (p ! 0) = 4 \<longrightarrow> PACKET_CAPACITY < unat (p ! 2) * 256 + unat (p ! 3)"
    and "starts_with bs p"
  shows "\<not> tunnel_packet bs"
proof -
  obtain ys where bs: "bs = p @ ys" using assms(4) by (auto simp: starts_with_iff)
  have "bs ! 0 = p ! 0" "bs ! 2 = p ! 2" "bs ! 3 = p ! 3"
    using assms(1) by (simp_all only: bs) (rule nth_prefix, linarith)+
  then show ?thesis using assms(1-3) by (auto simp: tunnel_packet_def unat_u16_of)
qed

lemma control_prefixes:
  "starts_with bs (ascii ''TUNCONF:'') \<Longrightarrow> \<not> tunnel_packet bs"
  "starts_with bs (ascii ''NOCONF'') \<Longrightarrow> \<not> tunnel_packet bs"
  "starts_with bs (ascii ''DENIED:'') \<Longrightarrow> \<not> tunnel_packet bs"
  "starts_with bs (ascii ''READY_OK'') \<Longrightarrow> \<not> tunnel_packet bs"
  "starts_with bs (ascii ''OK:disconnected'') \<Longrightarrow> \<not> tunnel_packet bs"
  "starts_with bs STREAM_REPAIR_PREFIX \<Longrightarrow> \<not> tunnel_packet bs"
  "starts_with bs STREAM_ALIVE_PREFIX \<Longrightarrow> \<not> tunnel_packet bs"
  "starts_with bs PANEL_RESTART_NOTICE \<Longrightarrow> \<not> tunnel_packet bs"
  by (erule not_tunnel_packet [rotated 3];
      simp add: ascii_def PACKET_CAPACITY_def STREAM_REPAIR_PREFIX_def STREAM_ALIVE_PREFIX_def
        PANEL_RESTART_NOTICE_def)+

lemma config_response_cases:
  "parse_config_response r \<noteq> Inl Panic
   \<and> (parse_config_response r = Inr NoConfig \<longleftrightarrow> r = ascii ''NOCONF'')
   \<and> (parse_config_response r = Inr (Config c) \<longleftrightarrow>
        c = r \<and> utf8_ok r \<and> starts_with r (ascii ''TUNCONF:''))"
proof -
  have noconf: "utf8_ok (ascii ''NOCONF'')" by (simp add: ascii_def)
  have apart: "starts_with r (ascii ''TUNCONF:'') \<Longrightarrow> \<not> starts_with r (ascii ''DENIED:'') \<and> r \<noteq> ascii ''NOCONF''"
    by (auto simp: starts_with_iff ascii_def)
  show ?thesis
    using noconf apart
    by (auto simp: parse_config_response_def and_then_ensure strip_prefix_def starts_with_iff
        split: option.splits)
qed

lemma control_not_tunnel: "is_control_response r \<Longrightarrow> \<not> tunnel_packet r"
proof -
  have panel: "is_panel_restart_notice r \<Longrightarrow> starts_with r PANEL_RESTART_NOTICE"
    by (simp add: is_panel_restart_notice_def starts_with_def)
  show "is_control_response r \<Longrightarrow> \<not> tunnel_packet r"
    using control_prefixes panel unfolding is_control_response_def by auto
qed

text \<open>C12: The configuration response is NOCONF exactly when the bytes say so, and a
  configuration exactly when they are UTF-8 text with its prefix; and no control message, the
  responses included, can be mistaken for an IP packet of the tunnel, so that filtering control
  messages never drops tunnel traffic.\<close>

theorem control_never_tunnel_traffic:
  "parse_config_response r \<noteq> Inl Panic
   \<and> (parse_config_response r = Inr NoConfig \<longleftrightarrow> r = ascii ''NOCONF'')
   \<and> (parse_config_response r = Inr (Config c) \<longleftrightarrow>
        c = r \<and> utf8_ok r \<and> starts_with r (ascii ''TUNCONF:''))
   \<and> \<not> (is_config_response r \<and> \<not> is_control_response r)
   \<and> \<not> (is_control_response r \<and> tunnel_packet r)"
proof -
  have "is_control_response r \<Longrightarrow> \<not> tunnel_packet r" by (rule control_not_tunnel)
  moreover have "is_config_response r \<Longrightarrow> is_control_response r"
    by (auto simp: is_config_response_def is_control_response_def)
  ultimately show ?thesis using config_response_cases by blast
qed

end
