(* ===== verification/Repair.thy ===== *)
theory Repair
  imports Protocol Machine
begin

text \<open>
  Repair of single workers, \<^verbatim>\<open>backend/repair.rs\<close>: the panel's commands arrive over every path,
  so the same command is applied many times, by several tasks at once. The sequential
  operations come first, then the compare-and-exchange loop with its atomic accesses as the
  steps of interleaved threads.
\<close>

section \<open>State and operations\<close>

record repair_slot =
  restart_gen :: u64
  cred_gen :: u64
  last_seq :: u64
  ready_seq :: u64

type_synonym repair_state = "repair_slot list"

definition slot_new :: repair_slot where
  "slot_new = \<lparr>restart_gen = 0, cred_gen = 0, last_seq = 0, ready_seq = 0\<rparr>"

definition repair_new :: "nat \<Rightarrow> repair_state" where
  "repair_new desired = replicate (Suc desired) slot_new"

definition slot_at :: "repair_state \<Rightarrow> nat \<Rightarrow> repair_slot option" where
  "slot_at st worker = (if worker \<noteq> 0 then get_at st worker else None)"

definition restart_generation :: "repair_state \<Rightarrow> nat \<Rightarrow> u64" where
  "restart_generation st worker = (case slot_at st worker of None \<Rightarrow> 0 | Some s \<Rightarrow> restart_gen s)"

definition credential_generation :: "repair_state \<Rightarrow> nat \<Rightarrow> u64" where
  "credential_generation st worker = (case slot_at st worker of None \<Rightarrow> 0 | Some s \<Rightarrow> cred_gen s)"

definition mark_ready :: "nat \<Rightarrow> repair_state \<Rightarrow> repair_state" where
  "mark_ready worker st =
     (case slot_at st worker of None \<Rightarrow> st
      | Some s \<Rightarrow> st[worker := s\<lparr>ready_seq := last_seq s\<rparr>])"

text \<open>One worker of a repair command: whether it restarts, and whether its credential is reset.\<close>

definition repair_one :: "u64 \<Rightarrow> repair_slot \<Rightarrow> repair_slot \<times> bool \<times> bool" where
  "repair_one command s =
     (if command \<le> last_seq s then (s, False, False)
      else
        let reset = (last_seq s \<noteq> 0 \<and> ready_seq s < last_seq s) in
        (s\<lparr>last_seq := command, cred_gen := (if reset then cred_gen s + 1 else cred_gen s),
           restart_gen := restart_gen s + 1\<rparr>, True, reset))"

record repair_result =
  restarts :: nat
  credential_resets :: nat

fun apply_ids :: "u64 \<Rightarrow> u16 list \<Rightarrow> repair_state \<Rightarrow> repair_result \<Rightarrow> repair_state \<times> repair_result" where
  "apply_ids command [] st r = (st, r)"
| "apply_ids command (w # ws) st r =
     (case slot_at st (unat w) of None \<Rightarrow> apply_ids command ws st r
      | Some s \<Rightarrow>
          let (s', restarted, reset) = repair_one command s in
          apply_ids command ws (st[unat w := s'])
            (r\<lparr>restarts := restarts r + of_bool restarted,
               credential_resets := credential_resets r + of_bool reset\<rparr>))"

definition apply_repair :: "stream_command \<Rightarrow> repair_state \<Rightarrow> repair_state \<times> repair_result" where
  "apply_repair c st =
     apply_ids (sequence_no c) (worker_ids c) st \<lparr>restarts = 0, credential_resets = 0\<rparr>"

fun alive_ids :: "u64 \<Rightarrow> u16 list \<Rightarrow> repair_state \<Rightarrow> nat \<Rightarrow> repair_state \<times> nat" where
  "alive_ids command [] st n = (st, n)"
| "alive_ids command (w # ws) st n =
     (case slot_at st (unat w) of None \<Rightarrow> alive_ids command ws st n
      | Some s \<Rightarrow>
          alive_ids command ws (st[unat w := s\<lparr>ready_seq := max (ready_seq s) command\<rparr>]) (Suc n))"

definition apply_alive :: "stream_command \<Rightarrow> repair_state \<Rightarrow> repair_state \<times> nat" where
  "apply_alive c st = alive_ids (sequence_no c) (worker_ids c) st 0"

section \<open>A command applied again\<close>

lemma slot_at_update:
  "slot_at (st[w := s]) v = (if v = w \<and> slot_at st w \<noteq> None then Some s else slot_at st v)"
  by (auto simp: slot_at_def get_at_def)

text \<open>Every worker a command names has seen its number.\<close>

definition seen :: "u64 \<Rightarrow> repair_state \<Rightarrow> u16 \<Rightarrow> bool" where
  "seen command st w = (case slot_at st (unat w) of None \<Rightarrow> True | Some s \<Rightarrow> command \<le> last_seq s)"

lemma repair_one_seen: "repair_one command s = (s', b, r) \<Longrightarrow> command \<le> last_seq s' \<and> last_seq s \<le> last_seq s'"
  by (auto simp: repair_one_def Let_def split: if_splits)

lemma seen_update:
  "slot_at st v = Some s \<Longrightarrow> command \<le> last_seq s' \<Longrightarrow> seen command st w \<Longrightarrow> seen command (st[v := s']) w"
  by (auto simp: seen_def slot_at_update split: option.splits)

lemma apply_ids_seen:
  "apply_ids command ws st r = (st', r') \<Longrightarrow>
     (\<forall>w \<in> set ws. seen command st' w) \<and> (\<forall>w. seen command st w \<longrightarrow> seen command st' w)"
proof (induction ws arbitrary: st r)
  case Nil
  then show ?case by simp
next
  case (Cons w ws)
  show ?case
  proof (cases "slot_at st (unat w)")
    case None
    then have "seen command st w" by (simp add: seen_def)
    then show ?thesis using Cons None by auto
  next
    case (Some s)
    obtain s' b c where one: "repair_one command s = (s', b, c)" by (metis prod.exhaust)
    let ?st = "st[unat w := s']"
    have "command \<le> last_seq s'" using repair_one_seen [OF one] by simp
    then have "seen command ?st w" "seen command st v \<Longrightarrow> seen command ?st v" for v
      using Some seen_update [OF Some] by (auto simp: seen_def slot_at_update)
    moreover have "apply_ids command ws ?st (r\<lparr>restarts := restarts r + of_bool b,
        credential_resets := credential_resets r + of_bool c\<rparr>) = (st', r')"
      using Cons.prems by (simp add: Some one)
    ultimately show ?thesis using Cons.IH by fastforce
  qed
qed

lemma apply_ids_again: "(\<forall>w \<in> set ws. seen command st w) \<Longrightarrow> apply_ids command ws st r = (st, r)"
proof (induction ws arbitrary: r)
  case (Cons w ws)
  then show ?case
    by (cases "slot_at st (unat w)")
      (auto simp: seen_def repair_one_def slot_at_def get_at_def split: if_splits)
qed simp

text \<open>A later command of any kind does not make an earlier one effective again.\<close>

lemma seen_mono: "seen later st w \<Longrightarrow> command \<le> later \<Longrightarrow> seen command st w"
  by (auto simp: seen_def split: option.splits)

section \<open>Interleaved threads on one slot\<close>

text \<open>
  Where a task that applies a command to the slot stands: before the first load, before the
  exchange with the value it expects, before the check of the ready number, before the
  increment of the restart generation, or done.
\<close>

datatype repair_pc = Load | Exchange u64 | CheckReady u64 | Bump | Done

text \<open>
  The slot, the tasks with their command numbers, and the numbers whose exchange succeeded,
  latest first.
\<close>

record repair_run =
  shared_slot :: repair_slot
  tasks :: "(u64 \<times> repair_pc) list"
  applied :: "u64 list"

definition retry_from :: "u64 \<Rightarrow> u64 \<Rightarrow> repair_pc" where
  "retry_from command current = (if command \<le> current then Done else Exchange current)"

definition task_step :: "u64 \<Rightarrow> repair_pc \<Rightarrow> repair_slot \<Rightarrow> repair_pc \<times> repair_slot \<times> u64 list" where
  "task_step command pc s =
     (case pc of
        Load \<Rightarrow> (retry_from command (last_seq s), s, [])
      | Exchange current \<Rightarrow>
          if last_seq s = current then (CheckReady current, s\<lparr>last_seq := command\<rparr>, [command])
          else (retry_from command (last_seq s), s, [])
      | CheckReady previous \<Rightarrow>
          (Bump, if previous \<noteq> 0 \<and> ready_seq s < previous then s\<lparr>cred_gen := cred_gen s + 1\<rparr> else s, [])
      | Bump \<Rightarrow> (Done, s\<lparr>restart_gen := restart_gen s + 1\<rparr>, [])
      | Done \<Rightarrow> (Done, s, []))"

inductive repair_step :: "repair_run \<Rightarrow> repair_run \<Rightarrow> bool" where
  arrive: "repair_step r (r\<lparr>tasks := tasks r @ [(command, Load)]\<rparr>)"
| task: "i < length (tasks r) \<Longrightarrow> tasks r ! i = (command, pc) \<Longrightarrow>
     task_step command pc (shared_slot r) = (pc', s', new) \<Longrightarrow>
     repair_step r (r\<lparr>shared_slot := s', tasks := (tasks r)[i := (command, pc')],
       applied := new @ applied r\<rparr>)"
| ready: "repair_step r (r\<lparr>shared_slot := (shared_slot r)\<lparr>ready_seq := n\<rparr>\<rparr>)"

definition repair_init :: "repair_run \<Rightarrow> bool" where
  "repair_init r = (shared_slot r = slot_new \<and> tasks r = [] \<and> applied r = [])"

text \<open>Tasks between their exchange and their increment.\<close>

definition in_flight :: "repair_pc \<Rightarrow> bool" where
  "in_flight pc = (case pc of CheckReady _ \<Rightarrow> True | Bump \<Rightarrow> True | _ \<Rightarrow> False)"

definition flying :: "(u64 \<times> repair_pc) list \<Rightarrow> nat" where
  "flying ts = length (filter (in_flight \<circ> snd) ts)"

definition task_ok :: "u64 \<Rightarrow> u64 \<times> repair_pc \<Rightarrow> bool" where
  "task_ok latest t =
     (case t of (command, Load) \<Rightarrow> True | (command, Exchange current) \<Rightarrow> current < command
      | (command, _) \<Rightarrow> command \<le> latest)"

definition repair_inv :: "repair_run \<Rightarrow> bool" where
  "repair_inv r =
     (sorted_wrt (>) (applied r) \<and> (\<forall>n \<in> set (applied r). 0 < n)
      \<and> last_seq (shared_slot r) = (case applied r of [] \<Rightarrow> 0 | n # _ \<Rightarrow> n)
      \<and> restart_gen (shared_slot r) + of_nat (flying (tasks r)) = of_nat (length (applied r))
      \<and> (\<forall>t \<in> set (tasks r). task_ok (last_seq (shared_slot r)) t))"

lemma flying_update:
  "i < length ts \<Longrightarrow>
     flying (ts[i := t]) + of_bool (in_flight (snd (ts ! i))) = flying ts + of_bool (in_flight (snd t))"
proof (induction ts arbitrary: i)
  case (Cons u ts)
  then show ?case by (cases i) (auto simp: flying_def)
qed simp

lemma task_ok_mono: "task_ok n t \<Longrightarrow> n \<le> n' \<Longrightarrow> task_ok n' t"
  by (auto simp: task_ok_def split: repair_pc.splits)

lemma task_ok_load: "task_ok n (command, Load)"
  by (simp add: task_ok_def)

lemma repair_inv_init: "repair_init r \<Longrightarrow> repair_inv r"
  by (simp add: repair_init_def repair_inv_def slot_new_def flying_def)

lemma balance:
  assumes "(g' :: u64) + b' + n = g + b + n'" and "f' + b = f + b'" and "g + f = n"
  shows "g' + f' = n'"
proof -
  have "g' = g + b + n' - n - b'" using assms(1) by (simp add: eq_diff_eq algebra_simps)
  moreover have "f' = f + b' - b" using assms(2) by (simp add: eq_diff_eq)
  ultimately show ?thesis by (simp flip: assms(3))
qed

lemma repair_inv_task:
  assumes inv: "repair_inv r" and i: "i < length (tasks r)" "tasks r ! i = (command, pc)"
    and st: "task_step command pc (shared_slot r) = (pc', s', new)"
  shows "repair_inv (r\<lparr>shared_slot := s', tasks := (tasks r)[i := (command, pc')],
    applied := new @ applied r\<rparr>)"
proof -
  let ?s = "shared_slot r"
  have ok: "task_ok (last_seq ?s) (command, pc)" and all: "\<forall>t \<in> set (tasks r). task_ok (last_seq ?s) t"
    using inv i by (auto simp: repair_inv_def dest: nth_mem)
  have grow: "last_seq ?s \<le> last_seq s'"
    using st ok by (auto simp: task_step_def task_ok_def split: repair_pc.splits if_splits)
  have "task_ok (last_seq s') (command, pc')"
    using st ok by (auto simp: task_step_def task_ok_def retry_from_def not_le
        split: repair_pc.splits if_splits)
  then have tasks: "\<forall>t \<in> set ((tasks r)[i := (command, pc')]). task_ok (last_seq s') t"
    using all task_ok_mono [OF _ grow] set_update_subset_insert [of "tasks r" i "(command, pc')"] by auto
  have fl: "flying ((tasks r)[i := (command, pc')]) + of_bool (in_flight pc) =
      flying (tasks r) + of_bool (in_flight pc')"
    using flying_update [OF i(1), of "(command, pc')"] by (simp add: i(2))
  have gen: "restart_gen ?s + of_nat (flying (tasks r)) = of_nat (length (applied r))"
    and sorted: "sorted_wrt (>) (applied r)" "\<forall>n \<in> set (applied r). 0 < n"
    and hd: "last_seq ?s = (case applied r of [] \<Rightarrow> 0 | n # _ \<Rightarrow> n)"
    using inv by (auto simp: repair_inv_def)
  have top: "\<forall>n \<in> set (applied r). n \<le> last_seq ?s"
    using sorted(1) hd by (cases "applied r") auto
  have below: "n < command" if "n \<in> set (applied r)" "last_seq ?s < command" for n
    using that top by force
  have fl': "of_nat (flying ((tasks r)[i := (command, pc')])) + (of_bool (in_flight pc) :: u64) =
      of_nat (flying (tasks r)) + of_bool (in_flight pc')"
    using arg_cong [OF fl, of "of_nat :: nat \<Rightarrow> u64"] by simp
  have gen': "restart_gen s' + of_nat (flying ((tasks r)[i := (command, pc')])) =
      of_nat (length (new @ applied r))"
  proof -
    have "restart_gen s' + of_bool (in_flight pc') + of_nat (length (applied r))
        = restart_gen ?s + of_bool (in_flight pc) + of_nat (length (new @ applied r))"
      using st by (auto simp: task_step_def retry_from_def in_flight_def
          split: repair_pc.splits if_splits)
    then show ?thesis using fl' gen by (rule balance)
  qed
  have seq': "sorted_wrt (>) (new @ applied r) \<and> (\<forall>n \<in> set (new @ applied r). 0 < n)
      \<and> last_seq s' = (case new @ applied r of [] \<Rightarrow> 0 | n # _ \<Rightarrow> n)"
    using st ok top sorted hd
    by (auto simp: task_step_def task_ok_def intro: below le_less_trans [OF word_zero_le]
        split: repair_pc.splits if_splits)
  show ?thesis using tasks gen' seq' by (simp add: repair_inv_def)
qed

interpretation repair_threads: transition_system repair_init repair_step repair_inv
proof
  fix r r' :: repair_run
  show "repair_init r \<Longrightarrow> repair_inv r" by (rule repair_inv_init)
  assume inv: "repair_inv r" and "repair_step r r'"
  from this(2) show "repair_inv r'"
  proof cases
    case (arrive command)
    then show ?thesis using inv by (auto simp: repair_inv_def flying_def in_flight_def task_ok_load)
  next
    case (task i command pc pc' s' new)
    then show ?thesis using repair_inv_task [OF inv] by simp
  next
    case (ready n)
    then show ?thesis using inv by (auto simp: repair_inv_def)
  qed
qed

lemma decreasing_distinct: "sorted_wrt (>) (xs :: u64 list) \<Longrightarrow> distinct xs"
  by (induction xs) auto

text \<open>C13: However many tasks apply repair commands to a worker at once, and however their loads,
  exchanges and increments interleave, each command number takes effect at most once and in
  increasing order; when no task is under way the worker has been restarted exactly once per
  number that took effect, and no number above the last one was lost.\<close>

theorem repair_exactly_once:
  assumes "reach repair_init repair_step r"
  shows "sorted_wrt (>) (applied r) \<and> distinct (applied r)
    \<and> ((\<forall>t \<in> set (tasks r). snd t = Done) \<longrightarrow>
        restart_gen (shared_slot r) = of_nat (length (applied r))
        \<and> (\<forall>t \<in> set (tasks r). fst t \<le> last_seq (shared_slot r))
        \<and> last_seq (shared_slot r) \<in> insert 0 (set (applied r)))"
proof -
  have inv: "repair_inv r" by (rule repair_threads.reach_inv [OF assms])
  then have sorted: "sorted_wrt (>) (applied r)" by (simp add: repair_inv_def)
  have idle: "flying (tasks r) = 0" if "\<forall>t \<in> set (tasks r). snd t = Done"
    using that by (auto simp: flying_def filter_empty_conv in_flight_def)
  have seen: "fst t \<le> last_seq (shared_slot r)" if "snd t = Done" "t \<in> set (tasks r)" for t
    using inv that by (cases t) (auto simp: repair_inv_def task_ok_def split: repair_pc.splits)
  have "last_seq (shared_slot r) \<in> insert 0 (set (applied r))"
    using inv by (auto simp: repair_inv_def split: list.splits)
  moreover have "distinct (applied r)"
    by (rule decreasing_distinct [OF sorted])
  moreover have "restart_gen (shared_slot r) = of_nat (length (applied r))"
    if "\<forall>t \<in> set (tasks r). snd t = Done"
    using inv idle [OF that] by (simp add: repair_inv_def)
  ultimately show ?thesis using sorted seen by blast
qed

text \<open>Two tasks that deliver the same command, the second overtaking the first.\<close>

definition two_tasks :: "repair_pc \<Rightarrow> repair_pc \<Rightarrow> repair_slot \<Rightarrow> u64 list \<Rightarrow> repair_run" where
  "two_tasks a b s done_seqs = \<lparr>shared_slot = s, tasks = [(7, a), (7, b)], applied = done_seqs\<rparr>"

lemma two_tasks_step:
  "r = two_tasks (fst (task_step 7 a s)) b (fst (snd (task_step 7 a s)))
     (snd (snd (task_step 7 a s)) @ xs) \<Longrightarrow> repair_step (two_tasks a b s xs) r"
  "r = two_tasks a (fst (task_step 7 b s)) (fst (snd (task_step 7 b s)))
     (snd (snd (task_step 7 b s)) @ xs) \<Longrightarrow> repair_step (two_tasks a b s xs) r"
  using repair_step.task [of 0 "two_tasks a b s xs" 7 a]
    repair_step.task [of 1 "two_tasks a b s xs" 7 b]
  by (simp_all add: two_tasks_def prod_eq_iff)

lemma two_tasks_done:
  "reach repair_init repair_step
     (two_tasks Done Done \<lparr>restart_gen = 1, cred_gen = 0, last_seq = 7, ready_seq = 0\<rparr> [7])"
proof -
  let ?r0 = "\<lparr>shared_slot = slot_new, tasks = [], applied = []\<rparr>"
  let ?s = "\<lambda>g. \<lparr>restart_gen = g, cred_gen = 0, last_seq = 7, ready_seq = 0\<rparr>"
  note step = reach.reach_step [where init = repair_init and step = repair_step]
  have r0: "reach repair_init repair_step ?r0"
    by (rule reach.reach_init) (simp add: repair_init_def)
  have "reach repair_init repair_step (?r0\<lparr>tasks := [(7, Load)]\<rparr>)"
    by (rule step [OF r0]) (use repair_step.arrive [of ?r0 7] in simp)
  then have "reach repair_init repair_step (two_tasks Load Load slot_new [])"
    by (rule step)
      (use repair_step.arrive [of "?r0\<lparr>tasks := [(7, Load)]\<rparr>" 7] in \<open>simp add: two_tasks_def\<close>)
  then have "reach repair_init repair_step (two_tasks (Exchange 0) Load slot_new [])"
    by (rule step, intro two_tasks_step(1)) (simp add: task_step_def retry_from_def slot_new_def)
  then have "reach repair_init repair_step (two_tasks (Exchange 0) (Exchange 0) slot_new [])"
    by (rule step, intro two_tasks_step(2)) (simp add: task_step_def retry_from_def slot_new_def)
  then have "reach repair_init repair_step (two_tasks (Exchange 0) (CheckReady 0) (?s 0) [7])"
    by (rule step, intro two_tasks_step(2)) (simp add: task_step_def slot_new_def)
  then have "reach repair_init repair_step (two_tasks Done (CheckReady 0) (?s 0) [7])"
    by (rule step, intro two_tasks_step(1)) (simp add: task_step_def retry_from_def)
  then have "reach repair_init repair_step (two_tasks Done Bump (?s 0) [7])"
    by (rule step, intro two_tasks_step(2)) (simp add: task_step_def)
  then show ?thesis
    by (rule step, intro two_tasks_step(2)) (simp add: task_step_def)
qed

theorem repair_exactly_once_witness:
  "restart_gen (shared_slot (two_tasks Done Done
     \<lparr>restart_gen = 1, cred_gen = 0, last_seq = 7, ready_seq = 0\<rparr> [7])) = of_nat (length [7 :: u64])"
  using repair_exactly_once [OF two_tasks_done] by (simp add: two_tasks_def)

text \<open>A command that was applied makes itself and every earlier command for the same workers
  ineffective: applying one changes no slot and reports no restart and no reset.\<close>

theorem stale_repair_ignored:
  assumes "sequence_no c' \<le> sequence_no c" and "set (worker_ids c') \<subseteq> set (worker_ids c)"
  shows "apply_repair c' (fst (apply_repair c st)) =
    (fst (apply_repair c st), \<lparr>restarts = 0, credential_resets = 0\<rparr>)"
proof -
  obtain st' r' where a: "apply_repair c st = (st', r')" by fastforce
  have "\<forall>w \<in> set (worker_ids c'). seen (sequence_no c') st' w"
    using apply_ids_seen [OF a [unfolded apply_repair_def]] assms seen_mono by blast
  then show ?thesis unfolding a fst_conv by (simp add: apply_repair_def apply_ids_again)
qed

theorem stale_repair_ignored_witness:
  "apply_repair \<lparr>sequence_no = 4, desired_count = 2, worker_ids = [1]\<rparr>
     (fst (apply_repair \<lparr>sequence_no = 5, desired_count = 2, worker_ids = [1, 2]\<rparr> (repair_new 2)))
   = (fst (apply_repair \<lparr>sequence_no = 5, desired_count = 2, worker_ids = [1, 2]\<rparr> (repair_new 2)),
      \<lparr>restarts = 0, credential_resets = 0\<rparr>)"
  by (rule stale_repair_ignored) simp_all

end
