(* ===== verification/Wakeup.thy ===== *)
theory Wakeup
  imports Machine
begin

text \<open>
  Waiting for a generation to change: \<^verbatim>\<open>backend/path_validation.rs\<close> (\<^verbatim>\<open>request\<close>,
  \<^verbatim>\<open>generation\<close>, \<^verbatim>\<open>changed\<close>) and \<^verbatim>\<open>RepairState::changed\<close> of \<^verbatim>\<open>backend/repair.rs\<close>. The
  writer updates the counter and then notifies; the waiter checks the counter and sleeps on a
  future of the notifier. The two sources create the future on different sides of the check.
  The notifier (tokio's \<^verbatim>\<open>Notify\<close>) is the parameter \<open>wake\<close>: what \<^verbatim>\<open>notify_waiters\<close> does
  to the state of a waiter's future.
\<close>

section \<open>State\<close>

text \<open>\<open>notices\<close> counts the writers between their update and their notification.\<close>

datatype future = Absent | Registered | Woken

datatype wait_pc = Create | Check | Sleep | Returned u64

record wait_run =
  gen :: u64
  future :: future
  pc :: wait_pc
  notices :: nat

definition next_generation :: "u64 \<Rightarrow> u64" where
  "next_generation g = max (g + 1) 1"

lemma next_generation_changes: "next_generation g \<noteq> g" "next_generation g \<noteq> 0"
proof -
  show "next_generation g \<noteq> g"
  proof (cases "g + 1 = 0")
    case True
    then have "g = -1" by (simp add: eq_neg_iff_add_eq_0)
    then show ?thesis by (simp add: next_generation_def max_def)
  next
    case False
    then have "1 \<le> g + 1" by (simp add: word_le_nat_alt Suc_le_eq unat_gt_0)
    then show ?thesis by (simp add: next_generation_def max_absorb1)
  qed
  have "1 \<le> next_generation g" by (simp add: next_generation_def)
  then show "next_generation g \<noteq> 0" by (auto simp: word_le_nat_alt)
qed

section \<open>The waiter of the path validation\<close>

inductive path_step :: "(future \<Rightarrow> future) \<Rightarrow> u64 \<Rightarrow> wait_run \<Rightarrow> wait_run \<Rightarrow> bool"
  for wake :: "future \<Rightarrow> future" and observed :: u64 where
  create: "pc s = Create \<Longrightarrow> path_step wake observed s (s\<lparr>future := Registered, pc := Check\<rparr>)"
| changed: "pc s = Check \<Longrightarrow> gen s \<noteq> observed \<Longrightarrow>
     path_step wake observed s (s\<lparr>pc := Returned (gen s)\<rparr>)"
| same: "pc s = Check \<Longrightarrow> gen s = observed \<Longrightarrow> path_step wake observed s (s\<lparr>pc := Sleep\<rparr>)"
| woken: "pc s = Sleep \<Longrightarrow> future s = Woken \<Longrightarrow>
     path_step wake observed s (s\<lparr>future := Absent, pc := Create\<rparr>)"
| update: "path_step wake observed s (s\<lparr>gen := next_generation (gen s), notices := Suc (notices s)\<rparr>)"
| notify: "notices s = Suc n \<Longrightarrow>
     path_step wake observed s (s\<lparr>future := wake (future s), notices := n\<rparr>)"

definition path_init :: "wait_run \<Rightarrow> bool" where
  "path_init s = (pc s = Create \<and> future s = Absent)"

definition path_inv :: "u64 \<Rightarrow> wait_run \<Rightarrow> bool" where
  "path_inv observed s =
     ((pc s \<in> {Check, Sleep} \<longrightarrow> future s \<in> {Registered, Woken})
      \<and> (pc s = Sleep \<and> future s = Registered \<and> gen s \<noteq> observed \<longrightarrow> 0 < notices s)
      \<and> pc s \<noteq> Returned observed)"

lemma path_transitions:
  assumes "wake Registered = Woken" and "wake Woken = Woken"
  shows "transition_system path_init (path_step wake observed) (path_inv observed)"
proof
  fix s t
  show "path_init s \<Longrightarrow> path_inv observed s" by (simp add: path_init_def path_inv_def)
  assume "path_inv observed s" and "path_step wake observed s t"
  from this(2,1) show "path_inv observed t"
    using assms by cases (auto simp: path_inv_def)
qed

text \<open>The behaviour of the notifier that the waiters rely on.\<close>

definition notifies :: "(future \<Rightarrow> future) \<Rightarrow> bool" where
  "notifies wake = (wake Registered = Woken \<and> wake Woken = Woken \<and> wake Absent = Absent)"

definition tokio_wake :: "future \<Rightarrow> future" where
  "tokio_wake f = (case f of Absent \<Rightarrow> Absent | _ \<Rightarrow> Woken)"

interpretation path_wait: transition_system path_init "path_step tokio_wake observed" "path_inv observed"
  by (rule path_transitions) (simp_all add: tokio_wake_def)

text \<open>C14: The waiter of the path validation never misses a change: whenever it sleeps although
  the generation is no longer the observed one, either its future has been woken, so that it
  can go on, or a writer is still about to notify, and its notification wakes it. It returns
  only a generation other than the observed one, and every request changes the generation and
  never makes it zero.\<close>

theorem path_validation_no_lost_wakeup:
  assumes "notifies wake" and "reach path_init (path_step wake observed) s"
  shows "(pc s = Sleep \<and> gen s \<noteq> observed \<longrightarrow>
      future s = Woken \<or> 0 < notices s \<and> wake (future s) = Woken)
    \<and> pc s \<noteq> Returned observed
    \<and> next_generation (gen s) \<noteq> gen s \<and> next_generation (gen s) \<noteq> 0"
proof -
  have "path_inv observed s"
    using transition_system.reach_inv [OF path_transitions assms(2)] assms(1)
    by (simp add: notifies_def)
  then show ?thesis
    using assms(1) next_generation_changes by (auto simp: path_inv_def notifies_def)
qed

section \<open>The waiter of a repair slot\<close>

inductive repair_wait_step :: "(future \<Rightarrow> future) \<Rightarrow> u64 \<Rightarrow> wait_run \<Rightarrow> wait_run \<Rightarrow> bool"
  for wake :: "future \<Rightarrow> future" and observed :: u64 where
  r_changed: "pc s = Check \<Longrightarrow> gen s \<noteq> observed \<Longrightarrow>
     repair_wait_step wake observed s (s\<lparr>pc := Returned (gen s)\<rparr>)"
| r_same: "pc s = Check \<Longrightarrow> gen s = observed \<Longrightarrow>
     repair_wait_step wake observed s (s\<lparr>pc := Create\<rparr>)"
| r_create: "pc s = Create \<Longrightarrow>
     repair_wait_step wake observed s (s\<lparr>future := Registered, pc := Sleep\<rparr>)"
| r_woken: "pc s = Sleep \<Longrightarrow> future s = Woken \<Longrightarrow>
     repair_wait_step wake observed s (s\<lparr>future := Absent, pc := Check\<rparr>)"
| r_update: "repair_wait_step wake observed s (s\<lparr>gen := gen s + 1, notices := Suc (notices s)\<rparr>)"
| r_notify: "notices s = Suc n \<Longrightarrow>
     repair_wait_step wake observed s (s\<lparr>future := wake (future s), notices := n\<rparr>)"

inductive_cases repair_wait_stepE: "repair_wait_step wake observed s t"

definition repair_wait_init :: "wait_run \<Rightarrow> bool" where
  "repair_wait_init s = (pc s = Check \<and> future s = Absent)"

text \<open>The waiter sleeps and nobody is about to wake it.\<close>

definition stranded :: "u64 \<Rightarrow> wait_run \<Rightarrow> bool" where
  "stranded observed s =
     (pc s = Sleep \<and> future s = Registered \<and> gen s \<noteq> observed \<and> notices s = 0)"

lemma stranded_stays:
  assumes "stranded observed s" and "repair_wait_step wake observed s t"
  shows "t = s\<lparr>gen := gen s + 1, notices := 1\<rparr>"
  using assms(2,1) by cases (auto simp: stranded_def)

text \<open>The waiter of a repair slot can miss a restart: the generation is checked before the
  future is created, so an increment and its notification that fall in between leave the
  waiter asleep on a changed generation, with no notification under way; from there the only
  step left is another restart by a later command.\<close>

theorem repair_lost_wakeup:
  assumes "notifies wake"
  shows "\<exists>s. reach repair_wait_init (repair_wait_step wake g) s \<and> stranded g s
    \<and> (\<forall>t. \<not> (repair_wait_step wake g s t \<and> t \<noteq> s\<lparr>gen := gen s + 1, notices := 1\<rparr>))"
proof -
  let ?s = "\<lambda>x f p n. \<lparr>gen = x, future = f, pc = p, notices = n\<rparr>"
  note step = reach.reach_step [where init = repair_wait_init and step = "repair_wait_step wake g"]
  have "reach repair_wait_init (repair_wait_step wake g) (?s g Absent Check 0)"
    by (rule reach.reach_init) (simp add: repair_wait_init_def)
  then have "reach repair_wait_init (repair_wait_step wake g) (?s g Absent Create 0)"
    by (rule step) (use r_same [of "?s g Absent Check 0" g wake] in simp)
  then have "reach repair_wait_init (repair_wait_step wake g) (?s (g + 1) Absent Create 1)"
    by (rule step) (use r_update [of wake g "?s g Absent Create 0"] in simp)
  then have "reach repair_wait_init (repair_wait_step wake g) (?s (g + 1) Absent Create 0)"
    by (rule step) (use r_notify [of "?s (g + 1) Absent Create 1" 0 wake g] assms in
      \<open>simp add: notifies_def\<close>)
  then have "reach repair_wait_init (repair_wait_step wake g) (?s (g + 1) Registered Sleep 0)"
    by (rule step) (use r_create [of "?s (g + 1) Absent Create 0" wake g] in simp)
  moreover have "stranded g (?s (g + 1) Registered Sleep 0)"
    by (simp add: stranded_def)
  ultimately show ?thesis using stranded_stays by blast
qed

theorem repair_lost_wakeup_witness:
  "notifies tokio_wake
   \<and> (\<exists>s. reach repair_wait_init (repair_wait_step tokio_wake 0) s \<and> stranded 0 s
       \<and> (\<forall>t. \<not> (repair_wait_step tokio_wake 0 s t \<and> t \<noteq> s\<lparr>gen := gen s + 1, notices := 1\<rparr>)))"
proof -
  have "notifies tokio_wake" by (simp add: notifies_def tokio_wake_def)
  then show ?thesis using repair_lost_wakeup [of tokio_wake 0] by blast
qed

theorem path_validation_no_lost_wakeup_witness:
  "let s = \<lparr>gen = 1, future = Registered, pc = Sleep, notices = 1\<rparr> in
     reach path_init (path_step tokio_wake 0) s
     \<and> (future s = Woken \<or> 0 < notices s \<and> tokio_wake (future s) = Woken)"
proof -
  let ?s = "\<lambda>x f p n. \<lparr>gen = x, future = f, pc = p, notices = n\<rparr>"
  note step = reach.reach_step [where init = path_init and step = "path_step tokio_wake 0"]
  have "reach path_init (path_step tokio_wake 0) (?s 0 Absent Create 0)"
    by (rule reach.reach_init) (simp add: path_init_def)
  then have "reach path_init (path_step tokio_wake 0) (?s 0 Registered Check 0)"
    by (rule step) (use path_step.create [of "?s 0 Absent Create 0" tokio_wake 0] in simp)
  then have "reach path_init (path_step tokio_wake 0) (?s 0 Registered Sleep 0)"
    by (rule step) (use path_step.same [of "?s 0 Registered Check 0" 0 tokio_wake] in simp)
  then have r: "reach path_init (path_step tokio_wake 0) (?s 1 Registered Sleep 1)"
    by (rule step) (use path_step.update [of tokio_wake 0 "?s 0 Registered Sleep 0"] in
      \<open>simp add: next_generation_def\<close>)
  have "notifies tokio_wake" by (simp add: notifies_def tokio_wake_def)
  from path_validation_no_lost_wakeup [OF this r] r show ?thesis
    by (simp add: Let_def)
qed

end
