(* ===== verification/Strings.thy ===== *)
theory Strings
  imports Prelude
begin

text \<open>
  The string operations of Rust's standard library the sources use. A string is the list of its
  Unicode scalar values.
\<close>

section \<open>Text\<close>

type_synonym str_text = "nat list"

definition lit :: "string \<Rightarrow> str_text" where
  "lit s = map of_char s"

text \<open>\<^verbatim>\<open>char::is_whitespace\<close>: the Unicode property White_Space.\<close>

definition is_whitespace :: "nat \<Rightarrow> bool" where
  "is_whitespace c =
     (9 \<le> c \<and> c \<le> 13 \<or> c = 32 \<or> c = 0x85 \<or> c = 0xA0 \<or> c = 0x1680
      \<or> 0x2000 \<le> c \<and> c \<le> 0x200A \<or> c = 0x2028 \<or> c = 0x2029 \<or> c = 0x202F \<or> c = 0x205F
      \<or> c = 0x3000)"

definition trim :: "str_text \<Rightarrow> str_text" where
  "trim s = rev (dropWhile is_whitespace (rev (dropWhile is_whitespace s)))"

definition ascii_lower :: "nat \<Rightarrow> nat" where
  "ascii_lower c = (if 65 \<le> c \<and> c \<le> 90 then c + 32 else c)"

definition to_ascii_lowercase :: "str_text \<Rightarrow> str_text" where
  "to_ascii_lowercase s = map ascii_lower s"

definition eq_ignore_ascii_case :: "str_text \<Rightarrow> str_text \<Rightarrow> bool" where
  "eq_ignore_ascii_case s t = (to_ascii_lowercase s = to_ascii_lowercase t)"

fun split_once :: "nat \<Rightarrow> str_text \<Rightarrow> (str_text \<times> str_text) option" where
  "split_once p [] = None"
| "split_once p (c # s) =
     (if c = p then Some ([], s) else map_option (\<lambda>(a, b). (c # a, b)) (split_once p s))"

definition rsplit_once :: "nat \<Rightarrow> str_text \<Rightarrow> (str_text \<times> str_text) option" where
  "rsplit_once p s = map_option (\<lambda>(a, b). (rev b, rev a)) (split_once p (rev s))"

fun split_once2 :: "nat \<Rightarrow> nat \<Rightarrow> str_text \<Rightarrow> (str_text \<times> str_text) option" where
  "split_once2 p q (c # d # s) =
     (if c = p \<and> d = q then Some ([], s)
      else map_option (\<lambda>(a, b). (c # a, b)) (split_once2 p q (d # s)))"
| "split_once2 p q _ = None"

fun split_on :: "'a \<Rightarrow> 'a list \<Rightarrow> 'a list list" where
  "split_on p [] = [[]]"
| "split_on p (c # s) =
     (if c = p then [] # split_on p s
      else case split_on p s of [] \<Rightarrow> [[c]] | w # ws \<Rightarrow> (c # w) # ws)"

definition strip_suffix :: "nat \<Rightarrow> str_text \<Rightarrow> str_text option" where
  "strip_suffix p s = (if s \<noteq> [] \<and> last s = p then Some (butlast s) else None)"

text \<open>\<^verbatim>\<open>str::parse::<u16>\<close>: an optional plus sign and decimal digits, at most 65535.\<close>

fun parse_digits :: "str_text \<Rightarrow> nat \<Rightarrow> nat option" where
  "parse_digits [] v = Some v"
| "parse_digits (c # s) v =
     (if 48 \<le> c \<and> c < 58 \<and> v * 10 + (c - 48) < 65536 then parse_digits s (v * 10 + (c - 48))
      else None)"

definition parse_u16 :: "str_text \<Rightarrow> nat option" where
  "parse_u16 s =
     (case s of [] \<Rightarrow> None
      | c # r \<Rightarrow> if c = 43 then (if r = [] then None else parse_digits r 0) else parse_digits s 0)"

fun text_decimal :: "nat \<Rightarrow> str_text" where
  "text_decimal n = (if n < 10 then [48 + n] else text_decimal (n div 10) @ [48 + n mod 10])"

declare text_decimal.simps [simp del]

section \<open>Searching\<close>

fun contains :: "str_text \<Rightarrow> str_text \<Rightarrow> bool" where
  "contains [] m = (m = [])"
| "contains (x # xs) m = (starts_with (x # xs) m \<or> contains xs m)"

lemma contains_iff: "contains xs m \<longleftrightarrow> (\<exists>us vs. xs = us @ m @ vs)"
proof (induction xs)
  case (Cons x xs)
  have "contains (x # xs) m \<longleftrightarrow> (\<exists>vs. x # xs = m @ vs) \<or> (\<exists>us vs. xs = us @ m @ vs)"
    using Cons by (simp add: starts_with_iff)
  also have "\<dots> \<longleftrightarrow> (\<exists>us vs. x # xs = us @ m @ vs)"
    by (metis Cons_eq_append_conv append_Cons append_Nil)
  finally show ?case .
qed simp

lemma contains_refl [simp]: "contains m m"
  unfolding contains_iff by (rule exI [of _ "[]"]) simp

lemma contains_append: "contains xs m \<Longrightarrow> contains (us @ xs @ vs) m"
  unfolding contains_iff by (metis append.assoc)

definition contains_any :: "str_text \<Rightarrow> str_text list \<Rightarrow> bool" where
  "contains_any xs ms = list_ex (contains xs) ms"

fun find_sub :: "str_text \<Rightarrow> str_text \<Rightarrow> nat option" where
  "find_sub [] m = (if m = [] then Some 0 else None)"
| "find_sub (x # xs) m = (if starts_with (x # xs) m then Some 0 else map_option Suc (find_sub xs m))"

lemma find_sub_None: "find_sub xs m = None \<longleftrightarrow> \<not> contains xs m"
  by (induction xs) auto

lemma find_sub_Some: "find_sub xs m = Some i \<Longrightarrow> starts_with (drop i xs) m"
  by (induction xs arbitrary: i) (auto simp: starts_with_def split: if_splits)

fun find_char :: "(nat \<Rightarrow> bool) \<Rightarrow> str_text \<Rightarrow> nat option" where
  "find_char P [] = None"
| "find_char P (x # xs) = (if P x then Some 0 else map_option Suc (find_char P xs))"

lemma find_char_take: "(case find_char P xs of None \<Rightarrow> xs | Some i \<Rightarrow> take i xs) = takeWhile (\<lambda>x. \<not> P x) xs"
  by (induction xs) (auto split: option.splits)

section \<open>Splitting and trimming by a set of characters\<close>

fun split_chars :: "(nat \<Rightarrow> bool) \<Rightarrow> str_text \<Rightarrow> str_text list" where
  "split_chars P [] = [[]]"
| "split_chars P (x # xs) =
     (if P x then [] # split_chars P xs
      else case split_chars P xs of y # ys \<Rightarrow> (x # y) # ys | [] \<Rightarrow> [[x]])"

lemma split_chars_free: "y \<in> set (split_chars P xs) \<Longrightarrow> \<forall>x \<in> set y. \<not> P x"
proof (induction xs arbitrary: y)
  case (Cons a xs)
  then show ?case
  proof (cases "split_chars P xs")
    case (Cons z zs)
    with Cons.IH [of z] Cons.IH [of y] Cons.prems show ?thesis by (auto split: if_splits)
  qed (auto split: if_splits)
qed simp

lemma split_chars_single: "\<forall>x \<in> set xs. \<not> P x \<Longrightarrow> split_chars P xs = [xs]"
  by (induction xs) auto

lemma split_chars_append:
  "\<forall>x \<in> set xs. \<not> P x \<Longrightarrow> P c \<Longrightarrow> split_chars P (xs @ c # ys) = xs # split_chars P ys"
  by (induction xs) auto

definition trim_matches :: "(nat \<Rightarrow> bool) \<Rightarrow> str_text \<Rightarrow> str_text" where
  "trim_matches P s = rev (dropWhile P (rev (dropWhile P s)))"

lemma trim_trim_matches: "trim = trim_matches is_whitespace"
  by (simp add: fun_eq_iff trim_def trim_matches_def)

lemma trim_matches_keeps: "\<forall>x \<in> set xs. \<not> P x \<Longrightarrow> trim_matches P xs = xs"
proof -
  assume free: "\<forall>x \<in> set xs. \<not> P x"
  have keep: "\<forall>x \<in> set ys. \<not> P x \<Longrightarrow> dropWhile P ys = ys" for ys by (cases ys) auto
  show ?thesis using keep [OF free] keep [of "rev xs"] free by (simp add: trim_matches_def)
qed

lemma trim_matches_subset: "set (trim_matches P xs) \<subseteq> set xs"
  using set_dropWhileD [of _ P "rev (dropWhile P xs)"] set_dropWhileD [of _ P xs]
  by (auto simp: trim_matches_def)

definition is_digit :: "nat \<Rightarrow> bool" where
  "is_digit c = (48 \<le> c \<and> c \<le> 57)"

lemma split_on_first: "c \<notin> set s \<Longrightarrow> split_on c (s @ c # t) = s # split_on c t"
  by (induction s) auto

lemma split_on_none: "c \<notin> set s \<Longrightarrow> split_on c s = [s]"
  by (induction s) auto

section \<open>Reading back what is rendered\<close>

lemma text_decimal_nonempty [simp]: "text_decimal n \<noteq> []"
  by (simp add: text_decimal.simps [of n])

lemma text_decimal_digit: "c \<in> set (text_decimal n) \<Longrightarrow> 48 \<le> c \<and> c < 58"
proof (induction n rule: text_decimal.induct)
  case (1 n)
  show ?case
  proof (cases "n < 10")
    case True
    then show ?thesis using 1(2) by (simp add: text_decimal.simps [of n])
  next
    case False
    then have "c \<in> set (text_decimal (n div 10)) \<or> c = 48 + n mod 10"
      using 1(2) by (auto simp: text_decimal.simps [of n])
    then show ?thesis using 1(1) [OF False] by auto
  qed
qed

lemma parse_digits_append:
  "parse_digits (s @ t) v = (case parse_digits s v of None \<Rightarrow> None | Some w \<Rightarrow> parse_digits t w)"
  by (induction s v rule: parse_digits.induct) auto

lemma parse_digits_decimal: "n < 65536 \<Longrightarrow> parse_digits (text_decimal n) 0 = Some n"
proof (induction n rule: text_decimal.induct)
  case (1 n)
  show ?case
  proof (cases "n < 10")
    case True
    then show ?thesis by (simp add: text_decimal.simps [of n])
  next
    case False
    then have "text_decimal n = text_decimal (n div 10) @ [48 + n mod 10]"
      by (simp add: text_decimal.simps [of n])
    moreover have "n div 10 < 65536" using 1(2) by simp
    moreover have "n div 10 * 10 + n mod 10 = n" by simp
    ultimately show ?thesis using 1(1) [OF False] 1(2) by (simp add: parse_digits_append)
  qed
qed

lemma parse_u16_decimal:
  assumes "n < 65536"
  shows "parse_u16 (text_decimal n) = Some n"
proof -
  obtain c r where cr: "text_decimal n = c # r" by (meson neq_Nil_conv text_decimal_nonempty)
  then have "c \<noteq> 43" using text_decimal_digit [of c n] by auto
  then show ?thesis using parse_digits_decimal [OF assms] by (simp add: parse_u16_def cr)
qed

lemma split_once_first: "p \<notin> set a \<Longrightarrow> split_once p (a @ p # b) = Some (a, b)"
  by (induction a) auto

lemma split_once_none: "p \<notin> set a \<Longrightarrow> split_once p a = None"
  by (induction a) auto

lemma rsplit_once_last: "p \<notin> set b \<Longrightarrow> rsplit_once p (a @ p # b) = Some (a, b)"
  using split_once_first [of p "rev b" "rev a"] by (simp add: rsplit_once_def)

lemma split_once2_first: "p \<notin> set a \<Longrightarrow> split_once2 p q (a @ p # q # b) = Some (a, b)"
proof (induction a)
  case (Cons c a)
  then obtain d r where dr: "a @ p # q # b = d # r" by (cases a) auto
  show ?case using Cons by (auto simp: dr)
qed simp

lemma colon_free_decimal: "58 \<notin> set (text_decimal n)" "63 \<notin> set (text_decimal n)"
  "93 \<notin> set (text_decimal n)"
  using text_decimal_digit by fastforce+

end
