(* ===== verification/TurnEndpoint.thy ===== *)
theory TurnEndpoint
  imports Strings
begin

text \<open>
  TURN endpoint URIs, \<^verbatim>\<open>backend/turn_endpoint.rs\<close>: the parser of the URI and of its
  authority, and the choice of the transport under the configured mode.
\<close>

section \<open>The code's types\<close>

datatype transport_mode = ModeUdp | ModeTcpTls

datatype wire_transport = WireUdp | WireTcp | WireTls

record turn_endpoint =
  ep_host :: str_text
  ep_port :: nat
  ep_transport :: wire_transport

datatype turn_scheme = SchemeTurn | SchemeTurns | SchemeBare

datatype uri_transport = UriUdp | UriTcp

datatype endpoint_error =
    UnsupportedMode | NotTls | NeedsDnsName
  | EndpointEmpty | AuthorityEmpty | UnsupportedTransport | DuplicateTransport | TurnsUdp
  | Ipv6Malformed | Ipv6NeedsBrackets | HostEmpty | PortInvalid
  | TlsInUdpMode | TcpInUdpMode | UdpInTcpMode

definition mode_parse :: "str_text \<Rightarrow> (endpoint_error, transport_mode) res" where
  "mode_parse value =
     (let v = to_ascii_lowercase (trim value) in
      if v = lit ''udp'' then Inr ModeUdp
      else if v \<in> {lit ''tcp'', lit ''tcp_tls'', lit ''tcp-tls'', lit ''tcp/tls''} then Inr ModeTcpTls
      else Inl (Fail UnsupportedMode))"

definition socket_authority :: "turn_endpoint \<Rightarrow> str_text" where
  "socket_authority e =
     (if 58 \<in> set (ep_host e) then lit ''['' @ ep_host e @ lit '']:'' @ text_decimal (ep_port e)
      else ep_host e @ lit '':'' @ text_decimal (ep_port e))"

text \<open>\<open>is_ip\<close> is \<^verbatim>\<open>IpAddr::from_str\<close> succeeding.\<close>

definition tls_server_name :: "(str_text \<Rightarrow> bool) \<Rightarrow> turn_endpoint \<Rightarrow> (endpoint_error, str_text) res" where
  "tls_server_name is_ip e =
     and_then (ensure (ep_transport e = WireTls) NotTls) (\<lambda>_.
     and_then (ensure (\<not> is_ip (ep_host e)) NeedsDnsName) (\<lambda>_.
     Inr (ep_host e)))"

section \<open>Parsing\<close>

fun query_transport ::
  "uri_transport option \<Rightarrow> str_text list \<Rightarrow> (endpoint_error, uri_transport option) res" where
  "query_transport found [] = Inr found"
| "query_transport found (parameter # ps) =
     (let (k, v) = (case split_once 61 parameter of Some kv \<Rightarrow> kv | None \<Rightarrow> (parameter, [])) in
      if eq_ignore_ascii_case k (lit ''transport'') then
        and_then (if to_ascii_lowercase v = lit ''udp'' then Inr UriUdp
                  else if to_ascii_lowercase v = lit ''tcp'' then Inr UriTcp
                  else Inl (Fail UnsupportedTransport)) (\<lambda>parsed.
        and_then (ensure (found = None) DuplicateTransport) (\<lambda>_.
        query_transport (Some parsed) ps))
      else query_transport found ps)"

definition parse_turn_uri ::
  "str_text \<Rightarrow> (endpoint_error, turn_scheme \<times> str_text \<times> uri_transport option) res" where
  "parse_turn_uri uri =
     (let value = trim uri in
      and_then (ensure (value \<noteq> []) EndpointEmpty) (\<lambda>_.
      let low = to_ascii_lowercase value;
        (scheme, value) =
          (if starts_with low (lit ''turns:'') then (SchemeTurns, drop 6 value)
           else if starts_with low (lit ''turn:'') then (SchemeTurn, drop 5 value)
           else (SchemeBare, value));
        (authority, query) =
          (case split_once 63 value of Some aq \<Rightarrow> aq | None \<Rightarrow> (value, [])) in
      and_then (ensure (authority \<noteq> []) AuthorityEmpty) (\<lambda>_.
      and_then (query_transport None (filter (\<lambda>p. p \<noteq> []) (split_on 38 query))) (\<lambda>transport.
      and_then (ensure (\<not> (scheme = SchemeTurns \<and> transport = Some UriUdp)) TurnsUdp) (\<lambda>_.
      Inr (scheme, authority, transport))))))"

definition default_port :: "turn_scheme \<Rightarrow> nat" where
  "default_port scheme = (case scheme of SchemeTurns \<Rightarrow> 5349 | _ \<Rightarrow> 3478)"

definition parse_authority ::
  "str_text \<Rightarrow> turn_scheme \<Rightarrow> (endpoint_error, str_text \<times> nat) res" where
  "parse_authority value scheme =
     (case strip_prefix value (lit ''['') of
        Some rest \<Rightarrow>
          (case split_once2 93 58 rest of
             None \<Rightarrow>
               and_then (ok_or (strip_suffix 93 rest) Ipv6Malformed) (\<lambda>host.
               Inr (host, default_port scheme))
           | Some (host, port) \<Rightarrow>
               and_then (ok_or (parse_u16 port) PortInvalid) (\<lambda>port. Inr (host, port)))
      | None \<Rightarrow>
          and_then (ensure (count_list value 58 \<le> 1) Ipv6NeedsBrackets) (\<lambda>_.
          case rsplit_once 58 value of
            Some (host, port) \<Rightarrow>
              and_then (ensure (host \<noteq> []) HostEmpty) (\<lambda>_.
              and_then (ok_or (parse_u16 port) PortInvalid) (\<lambda>port. Inr (host, port)))
          | None \<Rightarrow> Inr (value, default_port scheme)))"

definition transports_for ::
  "transport_mode \<Rightarrow> turn_scheme \<Rightarrow> uri_transport option \<Rightarrow> (endpoint_error, wire_transport list) res" where
  "transports_for mode scheme transport =
     (case mode of
        ModeUdp \<Rightarrow>
          if scheme = SchemeTurns then Inl (Fail TlsInUdpMode)
          else if transport = Some UriTcp then Inl (Fail TcpInUdpMode)
          else Inr [WireUdp]
      | ModeTcpTls \<Rightarrow>
          if transport = Some UriUdp then Inl (Fail UdpInTcpMode)
          else if scheme = SchemeTurns then Inr [WireTls]
          else Inr [WireTcp])"

text \<open>An override that is absent or blank counts for nothing.\<close>

definition override_of :: "str_text option \<Rightarrow> str_text option" where
  "override_of x = (case x of Some v \<Rightarrow> if trim v \<noteq> [] then Some (trim v) else None | None \<Rightarrow> None)"

definition resolve_turn_endpoints ::
  "str_text \<Rightarrow> str_text option \<Rightarrow> str_text option \<Rightarrow> transport_mode
    \<Rightarrow> (endpoint_error, turn_endpoint list) res" where
  "resolve_turn_endpoints value override_host override_port mode =
     and_then (parse_turn_uri value) (\<lambda>(scheme, authority, transport).
     and_then (parse_authority authority scheme) (\<lambda>(original_host, original_port).
     let host = (case override_of override_host of Some h \<Rightarrow> h | None \<Rightarrow> original_host) in
     and_then (case override_of override_port of
         Some p \<Rightarrow> ok_or (parse_u16 p) PortInvalid | None \<Rightarrow> Inr original_port) (\<lambda>port.
     and_then (ensure (host \<noteq> []) HostEmpty) (\<lambda>_.
     and_then (transports_for mode scheme transport) (\<lambda>transports.
     Inr (map (\<lambda>t. \<lparr>ep_host = host, ep_port = port, ep_transport = t\<rparr>) transports))))))"

definition is_supported_turn_uri :: "str_text \<Rightarrow> bool" where
  "is_supported_turn_uri value = is_ok (parse_turn_uri value)"

section \<open>Reading back what is rendered\<close>

lemma authority_roundtrip:
  assumes "ep_host e \<noteq> []" and "91 \<notin> set (ep_host e)" and "93 \<notin> set (ep_host e)"
    and "ep_port e < 65536"
  shows "parse_authority (socket_authority e) scheme = Inr (ep_host e, ep_port e)"
proof (cases "58 \<in> set (ep_host e)")
  case True
  then have "socket_authority e = lit ''['' @ ep_host e @ 93 # 58 # text_decimal (ep_port e)"
    by (simp add: socket_authority_def lit_def)
  then show ?thesis
    using split_once2_first [OF assms(3)] parse_u16_decimal [OF assms(4)]
    by (simp add: parse_authority_def)
next
  case False
  then have a: "socket_authority e = ep_host e @ 58 # text_decimal (ep_port e)"
    by (simp add: socket_authority_def lit_def)
  have "\<not> starts_with (socket_authority e) (lit ''['')"
    using assms(1,2) by (cases "ep_host e") (auto simp: a starts_with_def lit_def)
  moreover have "count_list (socket_authority e) 58 = 1"
    using False colon_free_decimal(1) by (simp add: a count_list_append)
  ultimately show ?thesis
    using rsplit_once_last [OF colon_free_decimal(1)] parse_u16_decimal [OF assms(4)] assms(1)
    by (simp add: parse_authority_def strip_prefix_def a)
qed

lemma trim_id: "s \<noteq> [] \<Longrightarrow> \<not> is_whitespace (hd s) \<Longrightarrow> \<not> is_whitespace (last s) \<Longrightarrow> trim s = s"
proof -
  assume a: "s \<noteq> []" "\<not> is_whitespace (hd s)" "\<not> is_whitespace (last s)"
  have first: "dropWhile is_whitespace s = s" using a by (cases s) auto
  have "dropWhile is_whitespace (rev s) = rev s" using a by (cases "rev s") (auto simp: hd_rev [symmetric])
  then show ?thesis by (simp add: trim_def first)
qed

text \<open>The URI of an endpoint, and the mode it is used in.\<close>

definition uri_of :: "turn_endpoint \<Rightarrow> str_text" where
  "uri_of e = (if ep_transport e = WireTls then lit ''turns:'' else lit ''turn:'') @ socket_authority e"

definition mode_of :: "turn_endpoint \<Rightarrow> transport_mode" where
  "mode_of e = (if ep_transport e = WireUdp then ModeUdp else ModeTcpTls)"

definition endpoint_ok :: "turn_endpoint \<Rightarrow> bool" where
  "endpoint_ok e =
     (ep_host e \<noteq> [] \<and> set (ep_host e) \<inter> {91, 93, 63} = {} \<and> ep_port e < 65536)"

lemma parse_uri_of:
  assumes "endpoint_ok e"
  shows "parse_turn_uri (uri_of e) =
    Inr (if ep_transport e = WireTls then SchemeTurns else SchemeTurn, socket_authority e, None)"
proof -
  have last: "last (socket_authority e) \<in> set (text_decimal (ep_port e))"
    by (simp add: socket_authority_def)
  have ne: "socket_authority e \<noteq> []" by (simp add: socket_authority_def)
  have t: "trim (uri_of e) = uri_of e"
    using ne text_decimal_digit [OF last]
    by (intro trim_id) (auto simp: uri_of_def lit_def is_whitespace_def)
  have q: "63 \<notin> set (socket_authority e)"
    using assms colon_free_decimal(2) by (auto simp: socket_authority_def endpoint_ok_def lit_def)
  have low: "to_ascii_lowercase (uri_of e) =
      (if ep_transport e = WireTls then lit ''turns:'' else lit ''turn:'')
        @ to_ascii_lowercase (socket_authority e)"
    by (simp add: uri_of_def to_ascii_lowercase_def lit_def ascii_lower_def)
  have ne': "uri_of e \<noteq> []" using ne by (simp add: uri_of_def)
  show ?thesis
  proof (cases "ep_transport e = WireTls")
    case True
    then have u: "uri_of e = lit ''turns:'' @ socket_authority e" by (simp add: uri_of_def)
    show ?thesis
      using True ne low [unfolded u] t [unfolded u] split_once_none [OF q]
      unfolding u by (simp add: parse_turn_uri_def Let_def) (simp add: lit_def starts_with_def)
  next
    case False
    then have u: "uri_of e = lit ''turn:'' @ socket_authority e" by (simp add: uri_of_def)
    show ?thesis
      using False ne low [unfolded u] t [unfolded u] split_once_none [OF q]
      unfolding u by (simp add: parse_turn_uri_def Let_def) (simp add: lit_def starts_with_def)
  qed
qed

lemma resolve_uri_of:
  assumes "endpoint_ok e"
  shows "resolve_turn_endpoints (uri_of e) None None (mode_of e) = Inr [e]"
proof -
  have host: "ep_host e \<noteq> []" using assms by (simp add: endpoint_ok_def)
  have "parse_authority (socket_authority e) scheme = Inr (ep_host e, ep_port e)" for scheme
    using assms by (intro authority_roundtrip) (auto simp: endpoint_ok_def)
  then show ?thesis
    using host parse_uri_of [OF assms]
    by (cases "ep_transport e")
      (simp_all add: resolve_turn_endpoints_def override_of_def transports_for_def mode_of_def)
qed

text \<open>The URI rendered from an endpoint, IPv6 hosts in brackets included, resolves under the
  mode of its transport to that endpoint and no other.\<close>

theorem endpoint_roundtrip:
  assumes "endpoint_ok e"
  shows "resolve_turn_endpoints (uri_of e) None None (mode_of e) = Inr [e]"
  by (rule resolve_uri_of [OF assms])

theorem endpoint_roundtrip_witness:
  "resolve_turn_endpoints (uri_of \<lparr>ep_host = lit ''2001:db8::1'', ep_port = 443, ep_transport = WireTls\<rparr>)
     None None ModeTcpTls
   = Inr [\<lparr>ep_host = lit ''2001:db8::1'', ep_port = 443, ep_transport = WireTls\<rparr>]"
  using endpoint_roundtrip [of "\<lparr>ep_host = lit ''2001:db8::1'', ep_port = 443, ep_transport = WireTls\<rparr>"]
  by (simp add: endpoint_ok_def lit_def mode_of_def)

section \<open>What is resolved\<close>

lemma no_panic_query [simp]: "no_panic (query_transport found ps)"
proof (induction found ps rule: query_transport.induct)
  case (2 found parameter ps)
  then show ?case
    by (auto simp: Let_def and_then_ensure split: prod.splits option.splits if_splits)
qed simp

lemma no_panic_uri: "no_panic (parse_turn_uri value)"
  unfolding parse_turn_uri_def Let_def case_prod_beta
  by (intro no_panic_and_then no_panic_ensure no_panic_query) simp

lemma no_panic_authority: "no_panic (parse_authority value scheme)"
  by (auto simp: parse_authority_def and_then_ensure split: option.splits prod.splits)

lemma parse_digits_less: "parse_digits s v = Some n \<Longrightarrow> v < 65536 \<Longrightarrow> n < 65536"
  by (induction s v rule: parse_digits.induct) (auto split: if_splits)

lemma parse_u16_less: "parse_u16 s = Some n \<Longrightarrow> n < 65536"
  by (auto simp: parse_u16_def split: list.splits if_splits dest: parse_digits_less)

lemma parse_authority_port: "parse_authority value scheme = Inr (host, port) \<Longrightarrow> port < 65536"
  by (auto simp: parse_authority_def and_then_Inr_conv default_port_def parse_u16_less
      split: option.splits prod.splits turn_scheme.splits)

lemma transports_for_cases:
  "no_panic (transports_for mode scheme transport)
   \<and> (transports_for mode scheme transport = Inr ts \<longrightarrow>
        (\<exists>t. ts = [t] \<and> (t = WireUdp \<longleftrightarrow> mode = ModeUdp) \<and> (t = WireTls \<longleftrightarrow> scheme = SchemeTurns)))"
  by (auto simp: transports_for_def split: transport_mode.splits)

text \<open>Resolving never panics; what it returns is exactly one endpoint, with a host, a 16-bit
  port, UDP in UDP mode and only there, and TLS for a turns URI and only for one.\<close>

theorem resolved_endpoints:
  "no_panic (resolve_turn_endpoints value override_host override_port mode)
   \<and> (resolve_turn_endpoints value override_host override_port mode = Inr eps \<longrightarrow>
        (\<exists>host port t scheme authority transport.
           eps = [\<lparr>ep_host = host, ep_port = port, ep_transport = t\<rparr>]
           \<and> host \<noteq> [] \<and> port < 65536 \<and> (t = WireUdp \<longleftrightarrow> mode = ModeUdp)
           \<and> parse_turn_uri value = Inr (scheme, authority, transport)
           \<and> (t = WireTls \<longleftrightarrow> scheme = SchemeTurns)))"
proof -
  have "no_panic (resolve_turn_endpoints value override_host override_port mode)"
    unfolding resolve_turn_endpoints_def case_prod_beta Let_def
    using no_panic_uri no_panic_authority transports_for_cases
    by (intro no_panic_and_then) (auto split: option.splits)
  moreover have "\<exists>host port t scheme authority transport.
      eps = [\<lparr>ep_host = host, ep_port = port, ep_transport = t\<rparr>] \<and> host \<noteq> [] \<and> port < 65536
      \<and> (t = WireUdp \<longleftrightarrow> mode = ModeUdp)
      \<and> parse_turn_uri value = Inr (scheme, authority, transport)
      \<and> (t = WireTls \<longleftrightarrow> scheme = SchemeTurns)"
    if "resolve_turn_endpoints value override_host override_port mode = Inr eps"
  proof -
    from that obtain scheme authority transport original_host original_port ts where
      uri: "parse_turn_uri value = Inr (scheme, authority, transport)"
      and auth: "parse_authority authority scheme = Inr (original_host, original_port)"
      and ts: "transports_for mode scheme transport = Inr ts"
      by (auto simp: resolve_turn_endpoints_def and_then_Inr_conv Let_def)
    obtain t where t: "ts = [t]" "t = WireUdp \<longleftrightarrow> mode = ModeUdp" "t = WireTls \<longleftrightarrow> scheme = SchemeTurns"
      using transports_for_cases ts by blast
    show ?thesis
      using that uri auth ts t parse_authority_port [OF auth]
      by (auto simp: resolve_turn_endpoints_def and_then_Inr_conv Let_def dest: parse_u16_less
          split: option.splits)
  qed
  ultimately show ?thesis by blast
qed

theorem resolved_endpoints_witness:
  "\<exists>authority transport. parse_turn_uri
     (uri_of \<lparr>ep_host = lit ''turn.example'', ep_port = 5349, ep_transport = WireTls\<rparr>)
     = Inr (SchemeTurns, authority, transport)"
proof -
  let ?e = "\<lparr>ep_host = lit ''turn.example'', ep_port = 5349, ep_transport = WireTls\<rparr>"
  have "endpoint_ok ?e" by (simp add: endpoint_ok_def lit_def)
  from resolve_uri_of [OF this]
  have "resolve_turn_endpoints (uri_of ?e) None None (mode_of ?e) = Inr [?e]" .
  then show ?thesis
    using resolved_endpoints [of "uri_of ?e" None None "mode_of ?e" "[?e]"] by fastforce
qed

end
