(* ===== verification/Obfs.thy ===== *)
theory Obfs
  imports Packet
begin

text \<open>
  The obfuscation layer, \<^verbatim>\<open>backend/obfs.rs\<close>: a packet is encrypted in its buffer and dressed
  as an RTP packet with a header extension, random padding and an authentication tag, in the
  audio mode with ChaCha20-Poly1305, in the video mode with AES-CTR and a truncated HMAC. The
  ciphers, the clock and the random numbers are parameters.
\<close>

section \<open>Parameters\<close>

text \<open>
  The keyed primitives: the AES-CTR keystream applied under an IV, HMAC-SHA1, and sealing and
  opening of ChaCha20-Poly1305 under a nonce with associated data.
\<close>

record cipher_env =
  aes_ctr :: "bytes \<Rightarrow> bytes \<Rightarrow> bytes"
  hmac_sha1 :: "bytes \<Rightarrow> bytes"
  chacha_seal :: "bytes \<Rightarrow> bytes \<Rightarrow> bytes \<Rightarrow> bytes \<times> bytes"
  chacha_open :: "bytes \<Rightarrow> bytes \<Rightarrow> bytes \<Rightarrow> bytes \<Rightarrow> bytes option"

text \<open>
  What their documentation promises: a stream cipher keeps the length and undoes itself, a
  SHA-1 MAC has 20 bytes, a Poly1305 tag 16, and opening what was sealed gives the plaintext.
\<close>

definition ciphers_ok :: "cipher_env \<Rightarrow> bool" where
  "ciphers_ok E =
     ((\<forall>iv xs. length (aes_ctr E iv xs) = length xs \<and> aes_ctr E iv (aes_ctr E iv xs) = xs)
      \<and> (\<forall>xs. length (hmac_sha1 E xs) = 20)
      \<and> (\<forall>n a xs. length (fst (chacha_seal E n a xs)) = length xs
           \<and> length (snd (chacha_seal E n a xs)) = 16
           \<and> chacha_open E n a (snd (chacha_seal E n a xs)) (fst (chacha_seal E n a xs)) = Some xs))"

text \<open>What one packet draws: the time since the start in nanoseconds, and random numbers.\<close>

record obfs_draws =
  elapsed_ns :: nat
  pad_draw :: nat
  marker_draw :: nat
  pad_bytes :: bytes

section \<open>Configuration and state\<close>

datatype obfs_mode = Audio | Video

definition obfs_mode_parse :: "bytes \<Rightarrow> obfs_mode option" where
  "obfs_mode_parse v =
     (if v = ascii ''audio'' then Some Audio else if v = ascii ''video'' then Some Video else None)"

record obfs_config =
  padding_max :: nat
  ssrc :: u32
  payload_type :: byte
  obfs_mode :: obfs_mode

definition obfs_config_new :: "obfs_mode \<Rightarrow> u32 \<Rightarrow> obfs_config" where
  "obfs_config_new mode random_ssrc =
     (let (pt, pad) = (case mode of Audio \<Rightarrow> (111, 24) | Video \<Rightarrow> (96, 60)) in
      \<lparr>padding_max = pad, ssrc = random_ssrc, payload_type = pt, obfs_mode = mode\<rparr>)"

record obfs_state =
  count :: u64
  initial_timestamp :: u32
  initial_abs_send_time :: u32
  initial_seq :: u16
  transport_sequence :: u16

definition obfs_next :: "obfs_state \<Rightarrow> obfs_state \<times> u64 \<times> u16" where
  "obfs_next st =
     (st\<lparr>count := count st + 1, transport_sequence := transport_sequence st + 1\<rparr>,
      count st, transport_sequence st)"

definition initial_sequence :: "obfs_state \<Rightarrow> u64 \<Rightarrow> u16" where
  "initial_sequence st n = initial_seq st + ucast n"

definition rtp_clock_rate :: "byte \<Rightarrow> u32" where
  "rtp_clock_rate pt = (if pt = 96 then 90000 else 48000)"

definition duration_ticks :: "nat \<Rightarrow> u32 \<Rightarrow> u32" where
  "duration_ticks ns rate =
     (let r = ucast rate :: u64;
        whole = of_nat (ns div 1000000000) * r;
        part = of_nat (ns mod 1000000000) * r div 1000000000 in
      ucast (whole + part))"

definition obfs_nonce :: "u32 \<Rightarrow> u16 \<Rightarrow> u32 \<Rightarrow> bytes" where
  "obfs_nonce s n t = be32 s @ be16 n @ [0, 0] @ be32 t"

definition srtp_iv :: "u32 \<Rightarrow> u16 \<Rightarrow> u32 \<Rightarrow> bytes" where
  "srtp_iv s n t = be32 s @ be16 n @ [0, 0] @ be32 t @ [0, 0, 0, 0]"

datatype obfs_error =
    EmptyPayload | ExceedsCapacity | BufferError packet_error
  | NotRtp | UnsupportedPayloadType | ShortExtension | ShortHeader
  | MissingTag | AuthFailed | InvalidPadding | WrongPayloadType

text \<open>\<^verbatim>\<open>?\<close> on an error of the buffer.\<close>

definition of_buf :: "(packet_error, 'a) res \<Rightarrow> (obfs_error, 'a) res" where
  "of_buf r = (case r of Inl (Fail e) \<Rightarrow> Inl (Fail (BufferError e)) | Inl Panic \<Rightarrow> Inl Panic | Inr x \<Rightarrow> Inr x)"

lemma of_buf_simps [simp]:
  "of_buf (Inr x) = Inr x" "of_buf (Inl (Fail e)) = Inl (Fail (BufferError e))"
  by (simp_all add: of_buf_def)

section \<open>Wrapping\<close>

definition rtp_header :: "obfs_config \<Rightarrow> bool \<Rightarrow> u16 \<Rightarrow> u32 \<Rightarrow> u32 \<Rightarrow> u16 \<Rightarrow> bytes" where
  "rtp_header c marker s timestamp send_time transport =
     [0xb0 OR 0x20, (payload_type c AND 0x7f) OR (if marker then 0x80 else 0)]
     @ be16 s @ be32 timestamp @ be32 (ssrc c) @ be16 0xbede @ be16 2
     @ [0x32, ucast (drop_bit 16 send_time), ucast (drop_bit 8 send_time), ucast send_time,
        0x51] @ be16 transport @ [0]"

lemma length_rtp_header [simp]: "length (rtp_header c m s t a x) = 24"
  by (simp add: rtp_header_def)

definition wrap_fits :: "packet_buf \<Rightarrow> nat \<Rightarrow> bool" where
  "wrap_fits p tail =
     (24 \<le> range_start p
      \<and> (case checked_add (range_end p) tail of None \<Rightarrow> False | Some e \<Rightarrow> e \<le> PACKET_CAPACITY))"

text \<open>Random bytes, and the length of the padding as its last byte.\<close>

definition padding :: "obfs_draws \<Rightarrow> nat \<Rightarrow> bytes" where
  "padding d r = take r (pad_bytes d) @ [of_nat (r + 1)]"

lemma length_padding [simp]: "r \<le> length (pad_bytes d) \<Longrightarrow> length (padding d r) = r + 1"
  by (simp add: padding_def)

definition seal_video :: "cipher_env \<Rightarrow> obfs_draws \<Rightarrow> nat \<Rightarrow> bytes \<Rightarrow> packet_buf \<Rightarrow> (obfs_error, packet_buf) res" where
  "seal_video E d pad_random iv p =
     (let payload_start = range_start p + 24; payload_end = range_end p; pad = pad_random + 1 in
      and_then (of_buf (extend_tail p (pad + 10))) (\<lambda>p.
      and_then (slice (storage p) payload_start payload_end) (\<lambda>plain.
      let p = write_storage p payload_start (aes_ctr E iv plain);
        p = write_storage p payload_end (padding d pad_random);
        tag_start = payload_end + pad in
      and_then (slice (storage p) (range_start p) tag_start) (\<lambda>signed.
      Inr (write_storage p tag_start (take 10 (hmac_sha1 E signed)))))))"

definition seal_audio :: "cipher_env \<Rightarrow> obfs_draws \<Rightarrow> nat \<Rightarrow> bytes \<Rightarrow> packet_buf \<Rightarrow> (obfs_error, packet_buf) res" where
  "seal_audio E d pad_random n p =
     (let payload_start = range_start p + 24; payload_end = range_end p; pad = pad_random + 1 in
      and_then (of_buf (extend_tail p (16 + pad))) (\<lambda>p.
      and_then (slice (storage p) (range_start p) payload_start) (\<lambda>aad.
      and_then (slice (storage p) payload_start payload_end) (\<lambda>plain.
      let (text, tag) = chacha_seal E n aad plain;
        p = write_storage p payload_start text;
        p = write_storage p payload_end tag in
      Inr (write_storage p (payload_end + 16) (padding d pad_random))))))"

definition obfs_wrap ::
  "cipher_env \<Rightarrow> obfs_config \<Rightarrow> obfs_draws \<Rightarrow> obfs_state \<Rightarrow> packet_buf
    \<Rightarrow> obfs_state \<times> (obfs_error, packet_buf) res" where
  "obfs_wrap E c d st p =
     (if buf_is_empty p then (st, Inl (Fail EmptyPayload))
      else
        let (st', n, transport) = obfs_next st;
          s = initial_sequence st' n;
          timestamp = initial_timestamp st'
            + duration_ticks (elapsed_ns d) (rtp_clock_rate (payload_type c));
          pad_random = (if padding_max c = 0 then 0 else pad_draw d);
          pad = pad_random + 1;
          tail = (if obfs_mode c = Video then pad + 10 else pad + 16) in
        if \<not> wrap_fits p tail then (st', Inl (Fail ExceedsCapacity))
        else
          let send_time = (initial_abs_send_time st' + duration_ticks (elapsed_ns d) 262144)
                AND 0x00ffffff;
            marker = (payload_type c = 96 \<and> marker_draw d = 0);
            header = rtp_header c marker s timestamp send_time transport in
          (st', and_then (of_buf (prepend_bytes p header)) (\<lambda>p.
             if obfs_mode c = Video then seal_video E d pad_random (srtp_iv (ssrc c) s timestamp) p
             else seal_audio E d pad_random (obfs_nonce (ssrc c) s timestamp) p)))"

section \<open>Unwrapping\<close>

definition is_rtp_packet :: "bytes \<Rightarrow> bool" where
  "is_rtp_packet wire =
     (13 \<le> length wire \<and> drop_bit 6 (wire ! 0) = 2 \<and> wire ! 1 AND 0x7f \<in> {111, 96, 6})"

text \<open>Every byte of the packet is read at an index or a range that has to lie in it: out of range is
  a panic, as is a subtraction of offsets below zero.\<close>

definition sub_at :: "nat \<Rightarrow> nat \<Rightarrow> ('e, nat) res" where
  "sub_at a b = (if b \<le> a then Inr (a - b) else Inl Panic)"

lemma sub_at_ok [simp]: "b \<le> a \<Longrightarrow> sub_at a b = Inr (a - b)"
  by (simp add: sub_at_def)

lemma no_panic_sub_at: "b \<le> a \<Longrightarrow> no_panic (sub_at a b)"
  by simp

lemma read_at_Inr_conv: "read_at xs i = Inr x \<longleftrightarrow> i < length xs \<and> xs ! i = x"
  by (simp add: read_at_def)

text \<open>The end of the payload, before the padding when the padding bit is set.\<close>

definition strip_padding :: "bytes \<Rightarrow> nat \<Rightarrow> nat \<Rightarrow> (obfs_error, nat) res" where
  "strip_padding wire header_len payload_end =
     and_then (read_at wire 0) (\<lambda>b0.
     if b0 AND 0x20 \<noteq> 0 then
        and_then (sub_at payload_end 1) (\<lambda>i.
        and_then (read_at wire i) (\<lambda>b.
        and_then (sub_at payload_end header_len) (\<lambda>room.
        and_then (ensure (unat b \<noteq> 0 \<and> unat b \<le> room) InvalidPadding) (\<lambda>_.
        sub_at payload_end (unat b)))))
      else Inr payload_end)"

definition open_video :: "cipher_env \<Rightarrow> nat \<Rightarrow> bytes \<Rightarrow> packet_buf \<Rightarrow> (obfs_error, packet_buf) res" where
  "open_video E header_len iv p =
     (let wire = as_slice p in
      and_then (ensure (header_len + 10 \<le> length wire) MissingTag) (\<lambda>_.
      and_then (sub_at (length wire) 10) (\<lambda>tag_start.
      and_then (slice wire 0 tag_start) (\<lambda>signed.
      and_then (ensure (drop tag_start wire = take 10 (hmac_sha1 E signed)) AuthFailed) (\<lambda>_.
      and_then (strip_padding wire header_len tag_start) (\<lambda>payload_end.
      and_then (slice wire header_len payload_end) (\<lambda>text.
      of_buf (set_range (write_storage p (range_start p + header_len) (aes_ctr E iv text))
        (range_start p + header_len) (range_start p + payload_end)))))))))"

definition open_audio :: "cipher_env \<Rightarrow> nat \<Rightarrow> bytes \<Rightarrow> packet_buf \<Rightarrow> (obfs_error, packet_buf) res" where
  "open_audio E header_len n p =
     (let wire = as_slice p in
      and_then (read_at wire 1) (\<lambda>b1.
      and_then (ensure (b1 AND 0x7f = 111) WrongPayloadType) (\<lambda>_.
      and_then (strip_padding wire header_len (length wire)) (\<lambda>payload_end.
      and_then (ensure (header_len + 16 < payload_end) MissingTag) (\<lambda>_.
      and_then (sub_at payload_end 16) (\<lambda>tag_start.
      and_then (slice wire tag_start payload_end) (\<lambda>tag.
      and_then (slice wire 0 header_len) (\<lambda>aad.
      and_then (slice wire header_len tag_start) (\<lambda>text.
      and_then (ok_or (chacha_open E n aad tag text) AuthFailed) (\<lambda>plain.
      of_buf (set_range (write_storage p (range_start p + header_len) plain)
        (range_start p + header_len) (range_start p + tag_start))))))))))))"

definition rtp_header_len :: "bytes \<Rightarrow> (obfs_error, nat) res" where
  "rtp_header_len wire =
     and_then (read_at wire 0) (\<lambda>b0.
     if b0 AND 0x10 \<noteq> 0 then
        and_then (ensure (16 \<le> length wire) ShortExtension) (\<lambda>_.
        and_then (read_at wire 14) (\<lambda>b14.
        and_then (read_at wire 15) (\<lambda>b15.
        Inr (12 + 4 + unat (u16_of b14 b15) * 4))))
      else Inr 12)"

definition obfs_unwrap ::
  "cipher_env \<Rightarrow> obfs_mode \<Rightarrow> packet_buf \<Rightarrow> (obfs_error, packet_buf \<times> u16) res" where
  "obfs_unwrap E mode p =
     (let wire = as_slice p in
      and_then (ensure (13 \<le> length wire) NotRtp) (\<lambda>_.
      and_then (read_at wire 0) (\<lambda>b0.
      and_then (ensure (drop_bit 6 b0 = 2) NotRtp) (\<lambda>_.
      and_then (read_at wire 1) (\<lambda>b1.
      and_then (ensure (b1 AND 0x7f \<in> {111, 96, 6}) UnsupportedPayloadType) (\<lambda>_.
      and_then (read_at wire 2) (\<lambda>b2. and_then (read_at wire 3) (\<lambda>b3.
      and_then (slice wire 4 8) (\<lambda>ticks. and_then (slice wire 8 12) (\<lambda>source_bytes.
      let s = u16_of b2 b3; timestamp = of_be32 ticks; source = of_be32 source_bytes in
      and_then (rtp_header_len wire) (\<lambda>header_len.
      and_then (ensure (header_len \<le> length wire) ShortHeader) (\<lambda>_.
      and_then (if mode = Video then open_video E header_len (srtp_iv source s timestamp) p
                else open_audio E header_len (obfs_nonce source s timestamp) p) (\<lambda>q.
      Inr (q, s))))))))))))))"

text \<open>The reads before the extension header are guarded by the length of 13 bytes.\<close>

lemma obfs_unwrap_long:
  assumes "13 \<le> length (as_slice p)"
  shows "obfs_unwrap E mode p =
     (let wire = as_slice p in
      and_then (ensure (drop_bit 6 (wire ! 0) = 2) NotRtp) (\<lambda>_.
      and_then (ensure (wire ! 1 AND 0x7f \<in> {111, 96, 6}) UnsupportedPayloadType) (\<lambda>_.
      let s = u16_of (wire ! 2) (wire ! 3); timestamp = of_be32 (sub_list wire 4 8);
        source = of_be32 (sub_list wire 8 12) in
      and_then (rtp_header_len wire) (\<lambda>header_len.
      and_then (ensure (header_len \<le> length wire) ShortHeader) (\<lambda>_.
      and_then (if mode = Video then open_video E header_len (srtp_iv source s timestamp) p
                else open_audio E header_len (obfs_nonce source s timestamp) p) (\<lambda>q.
      Inr (q, s)))))))"
proof -
  let ?w = "as_slice p"
  have b: "read_at ?w 0 = (Inr (?w ! 0) :: (obfs_error, byte) res)"
    "read_at ?w 1 = (Inr (?w ! 1) :: (obfs_error, byte) res)"
    "read_at ?w 2 = (Inr (?w ! 2) :: (obfs_error, byte) res)"
    "read_at ?w 3 = (Inr (?w ! 3) :: (obfs_error, byte) res)"
    "slice ?w 4 8 = (Inr (sub_list ?w 4 8) :: (obfs_error, bytes) res)"
    "slice ?w 8 12 = (Inr (sub_list ?w 8 12) :: (obfs_error, bytes) res)"
    "ensure (13 \<le> length ?w) NotRtp = Inr ()"
    using assms by (auto simp: read_at_def ensure_def)
  show ?thesis unfolding obfs_unwrap_def Let_def b and_then_simps ..
qed

lemma obfs_unwrap_short:
  "\<not> 13 \<le> length (as_slice p) \<Longrightarrow> obfs_unwrap E mode p = Inl (Fail NotRtp)"
  by (simp add: obfs_unwrap_def Let_def)

section \<open>Parts of a packet\<close>

lemma write_storage_range [simp]:
  "range_start (write_storage p off bs) = range_start p"
  "range_end (write_storage p off bs) = range_end p"
  by (simp_all add: write_storage_def)

text \<open>
  A well-formed buffer whose packet is three parts in a row: what reading, overwriting and
  selecting the middle part does.
\<close>

lemma parts_ends:
  assumes "wf_buf p" and "as_slice p = a @ b @ c"
  shows "range_end p = range_start p + length a + length b + length c"
    and "range_start p + length a + length b \<le> PACKET_CAPACITY"
  using length_as_slice [OF assms(1)] assms by (auto simp: buf_len_def wf_buf_def)

lemma parts_read:
  assumes "wf_buf p" and "as_slice p = a @ b @ c"
  shows "slice (storage p) (range_start p + length a) (range_start p + length a + length b) = Inr b"
proof -
  let ?lo = "range_start p + length a"
  have "take (length b) (drop (length a) (as_slice p)) = b" by (simp add: assms(2))
  then have "sub_list (storage p) ?lo (?lo + length b) = b"
    using parts_ends(1) [OF assms] by (simp add: as_slice_def sub_list_def drop_take add.commute)
  then show ?thesis
    using parts_ends(2) [OF assms] assms(1) by (simp add: wf_buf_def)
qed

lemma parts_write:
  assumes "wf_buf p" and "as_slice p = a @ b @ c" and "length bs = length b"
  shows "as_slice (write_storage p (range_start p + length a) bs) = a @ bs @ c"
    and "wf_buf (write_storage p (range_start p + length a) bs)"
proof -
  let ?off = "range_start p + length a" and ?st = "storage p"
  note ends = parts_ends [OF assms(1,2)]
  have len: "length ?st = PACKET_CAPACITY" using assms(1) by (simp add: wf_buf_def)
  have end_le: "range_end p \<le> length ?st" using assms(1) by (simp add: wf_buf_def)
  let ?w = "take ?off ?st @ bs @ drop (?off + length bs) ?st"
  have whole: "sub_list ?w (range_start p) (range_end p) =
      sub_list ?w (range_start p) ?off @ sub_list ?w ?off (?off + length bs)
        @ sub_list ?w (?off + length bs) (range_end p)"
    using sub_list_split [of "range_start p" ?off "range_end p" ?w]
      sub_list_split [of ?off "?off + length bs" "range_end p" ?w] ends assms(3) by simp
  have a: "sub_list ?w (range_start p) ?off = sub_list ?st (range_start p) ?off"
    by (rule sub_list_write_before) (use ends len in auto)
  have b: "sub_list ?w ?off (?off + length bs) = bs"
    by (rule sub_list_write_at) (use ends len assms(3) in auto)
  have c: "sub_list ?w (?off + length bs) (range_end p) = sub_list ?st (?off + length bs) (range_end p)"
    by (rule sub_list_write_after) (use end_le in auto)
  have "sub_list ?st (range_start p) ?off = take (length a) (as_slice p)"
    using ends(1) by (simp add: as_slice_def sub_list_def min_def)
  moreover have "sub_list ?st (?off + length bs) (range_end p) = drop (length a + length b) (as_slice p)"
    using ends(1) assms(3) by (simp add: as_slice_def sub_list_def drop_take add.assoc add.commute add.left_commute)
  ultimately have "sub_list ?w (range_start p) (range_end p) = a @ bs @ c"
    using whole a b c assms(2) by simp
  then show "as_slice (write_storage p ?off bs) = a @ bs @ c"
    by (simp add: as_slice_def write_storage_def)
  show "wf_buf (write_storage p ?off bs)"
    by (rule wf_write_storage [OF assms(1)]) (use ends assms(3) in auto)
qed

lemma parts_select:
  assumes "wf_buf p" and "as_slice p = a @ b @ c"
  obtains q where "set_range p (range_start p + length a) (range_start p + length a + length b) = Inr q"
    and "as_slice q = b" and "wf_buf q"
proof -
  let ?lo = "range_start p + length a"
  let ?q = "p\<lparr>range_start := ?lo, range_end := ?lo + length b\<rparr>"
  have "set_range p ?lo (?lo + length b) = Inr ?q"
    using parts_ends(2) [OF assms] by (simp add: set_range_def)
  moreover have "as_slice ?q = b"
    using parts_read [OF assms] parts_ends(2) [OF assms] assms(1)
    by (simp add: as_slice_def wf_buf_def)
  moreover have "wf_buf ?q" using parts_ends(2) [OF assms] assms(1) by (simp add: wf_buf_def)
  ultimately show ?thesis by (rule that)
qed

lemma parts_extend:
  assumes "wf_buf p" and "range_end p + n \<le> PACKET_CAPACITY"
  obtains q junk where "extend_tail p n = Inr q" and "as_slice q = as_slice p @ junk"
    and "length junk = n" and "wf_buf q" and "range_start q = range_start p"
    and "range_end q = range_end p + n"
proof -
  let ?q = "p\<lparr>range_end := range_end p + n\<rparr>"
  have small: "range_end p + n \<le> usize_max" using assms(2) by (simp add: PACKET_CAPACITY_def usize_max_def)
  have e: "extend_tail p n = Inr ?q" using assms(2) small by (simp add: extend_tail_def)
  have wf: "wf_buf ?q" using assms by (simp add: wf_buf_def)
  have "as_slice ?q = as_slice p @ sub_list (storage p) (range_end p) (range_end p + n)"
    using sub_list_split [of "range_start p" "range_end p" "range_end p + n" "storage p"] assms(1)
    by (simp add: as_slice_def wf_buf_def)
  moreover have "length (sub_list (storage p) (range_end p) (range_end p + n)) = n"
    using assms by (simp add: wf_buf_def)
  ultimately show ?thesis using wf by (intro that [OF e]) auto
qed

section \<open>Round trip of the payload\<close>

lemma eleven: "r + 1 + 10 = r + (11 :: nat)" and seventeen: "16 + (r + 1) = r + (17 :: nat)"
  by simp_all

lemma seal_video_ok:
  assumes ok: "ciphers_ok E" and wf: "wf_buf p" and sl: "as_slice p = hdr @ pl" "length hdr = 24"
    and pad: "r \<le> length (pad_bytes d)" and fits: "range_end p + (r + 11) \<le> PACKET_CAPACITY"
  obtains q where "seal_video E d r iv p = Inr q" and "wf_buf q"
    and "as_slice q = hdr @ aes_ctr E iv pl @ padding d r
      @ take 10 (hmac_sha1 E (hdr @ aes_ctr E iv pl @ padding d r))"
proof -
  obtain p1 junk where p1: "extend_tail p (r + 1 + 10) = Inr p1" "as_slice p1 = as_slice p @ junk"
    "length junk = r + 11" "wf_buf p1" "range_start p1 = range_start p" "range_end p1 = range_end p + (r + 11)"
    using parts_extend [OF wf, of "r + 1 + 10"] fits unfolding eleven by blast
  have e: "range_end p = range_start p + 24 + length pl"
    using parts_ends(1) [OF wf, of hdr pl "[]"] sl by simp
  have s1: "as_slice p1 = hdr @ pl @ junk" by (simp add: p1(2) sl(1))
  have len: "length (aes_ctr E iv pl) = length pl" using ok by (simp add: ciphers_ok_def)
  let ?p2 = "write_storage p1 (range_start p + 24) (aes_ctr E iv pl)"
  have r1: "slice (storage p1) (range_start p + 24) (range_end p) = (Inr pl :: (obfs_error, bytes) res)"
    using parts_read [OF p1(4) s1] by (simp add: p1(5) sl(2) e)
  note w1 = parts_write [OF p1(4) s1 len]
  have rs2: "range_start ?p2 = range_start p" by (simp add: write_storage_def p1(5))
  have s2: "as_slice ?p2 = (hdr @ aes_ctr E iv pl) @ take (r + 1) junk @ drop (r + 1) junk" and f2: "wf_buf ?p2"
    using w1 by (simp_all add: sl(2) p1(5))
  have lp: "length (padding d r) = length (take (r + 1) junk)" using pad p1(3) by simp
  let ?p3 = "write_storage ?p2 (range_end p) (padding d r)"
  note w2 = parts_write [OF f2 s2 lp]
  have rs3: "range_start ?p3 = range_start p" by (simp add: write_storage_def p1(5))
  have s3: "as_slice ?p3 = [] @ (hdr @ aes_ctr E iv pl @ padding d r) @ drop (r + 1) junk" and f3: "wf_buf ?p3"
    using w2 by (simp_all add: p1(5) e sl(2) len add.assoc)
  let ?signed = "hdr @ aes_ctr E iv pl @ padding d r"
  have ls: "length ?signed = 24 + length pl + (r + 1)" using lp p1(3) by (simp add: sl(2) len)
  have o1: "range_start ?p3 + length ([] :: bytes) = range_start p" by (simp add: p1(5))
  have o2: "range_start p + length ?signed = range_end p + (r + 1)" unfolding ls e by simp
  have r3: "slice (storage ?p3) (range_start p) (range_end p + (r + 1)) =
      (Inr ?signed :: (obfs_error, bytes) res)"
    using parts_read [OF f3 s3] unfolding o1 o2 .
  have tl: "length (take 10 (hmac_sha1 E ?signed)) = length (drop (r + 1) junk)"
    using ok p1(3) by (simp add: ciphers_ok_def)
  have s3': "as_slice ?p3 = ?signed @ drop (r + 1) junk @ []" using s3 by simp
  let ?q = "write_storage ?p3 (range_end p + (r + 1)) (take 10 (hmac_sha1 E ?signed))"
  have off: "range_start ?p3 + length ?signed = range_end p + (r + 1)" by (simp only: rs3 o2)
  note w3 = parts_write [OF f3 s3' tl, unfolded off]
  have "seal_video E d r iv p = Inr ?q"
    using p1(1) r1 r3 by (simp add: seal_video_def Let_def p1(5) rs3 e sl(2) add.assoc)
  then show ?thesis using w3 by (intro that) simp_all
qed

lemma seal_audio_ok:
  assumes ok: "ciphers_ok E" and wf: "wf_buf p" and sl: "as_slice p = hdr @ pl" "length hdr = 24"
    and pad: "r \<le> length (pad_bytes d)" and fits: "range_end p + (r + 17) \<le> PACKET_CAPACITY"
  obtains q where "seal_audio E d r n p = Inr q" and "wf_buf q"
    and "as_slice q = hdr @ fst (chacha_seal E n hdr pl) @ snd (chacha_seal E n hdr pl) @ padding d r"
proof -
  obtain p1 junk where p1: "extend_tail p (16 + (r + 1)) = Inr p1" "as_slice p1 = as_slice p @ junk"
    "length junk = r + 17" "wf_buf p1" "range_start p1 = range_start p"
    using parts_extend [OF wf, of "16 + (r + 1)"] fits unfolding seventeen by blast
  obtain ct tag where sealed: "chacha_seal E n hdr pl = (ct, tag)" by fastforce
  have len: "length ct = length pl" "length tag = 16"
    using ok unfolding ciphers_ok_def by (metis sealed fst_conv, metis sealed snd_conv)
  have e: "range_end p = range_start p + 24 + length pl"
    using parts_ends(1) [OF wf, of hdr pl "[]"] sl by simp
  have s1: "as_slice p1 = hdr @ pl @ junk" by (simp add: p1(2) sl(1))
  have s1': "as_slice p1 = [] @ hdr @ (pl @ junk)" by (simp add: s1)
  have r0: "slice (storage p1) (range_start p) (range_start p + 24) = (Inr hdr :: (obfs_error, bytes) res)"
    using parts_read [OF p1(4) s1'] by (simp add: p1(5) sl(2))
  have r1: "slice (storage p1) (range_start p + 24) (range_end p) = (Inr pl :: (obfs_error, bytes) res)"
    using parts_read [OF p1(4) s1] by (simp add: p1(5) sl(2) e)
  let ?p2 = "write_storage p1 (range_start p + 24) ct"
  note w1 = parts_write [OF p1(4) s1 len(1)]
  have s2: "as_slice ?p2 = (hdr @ ct) @ take 16 junk @ drop 16 junk" and f2: "wf_buf ?p2"
    using w1 by (simp_all add: sl(2) p1(5))
  let ?p3 = "write_storage ?p2 (range_end p) tag"
  have lt: "length tag = length (take 16 junk)" using p1(3) len(2) by simp
  note w2 = parts_write [OF f2 s2 lt]
  have s3: "as_slice ?p3 = (hdr @ ct @ tag) @ drop 16 junk @ []" and f3: "wf_buf ?p3"
    using w2 by (simp_all add: p1(5) e sl(2) len add.assoc)
  let ?q = "write_storage ?p3 (range_end p + 16) (padding d r)"
  have lp: "length (padding d r) = length (drop 16 junk)" using pad p1(3) by simp
  have off: "range_start ?p3 + length (hdr @ ct @ tag) = range_end p + 16"
    by (simp add: p1(5) sl(2) len e)
  note w3 = parts_write [OF f3 s3 lp, unfolded off]
  have "seal_audio E d r n p = Inr ?q"
    using p1(1) r0 r1 by (simp add: seal_audio_def Let_def sealed p1(5) e)
  then show ?thesis using w3 by (intro that) (simp_all add: sealed)
qed

lemma unat_padding: "r < 255 \<Longrightarrow> unat (last (padding d r)) = r + 1"
  by (simp add: padding_def unat_of_nat del: of_nat_add of_nat_Suc)

lemma read_last:
  assumes "xs \<noteq> []" and "length (a @ xs) = n"
  shows "read_at (a @ xs @ b) (n - 1) = Inr (last xs)"
proof -
  obtain ys y where "xs = ys @ [y]" using assms(1) by (metis append_butlast_last_id)
  then show ?thesis using assms(2) by (auto simp: read_at_def nth_append)
qed

lemma padding_nonempty [simp]: "padding d r \<noteq> []"
  by (simp add: padding_def)

lemma strip_padding_ok:
  assumes "length hdr = h" and "0 < h" and "hdr ! 0 AND 0x20 \<noteq> 0" and "r < 255"
    and "r \<le> length (pad_bytes d)"
  shows "strip_padding (hdr @ body @ padding d r @ rest) h (h + length body + (r + 1)) =
    Inr (h + length body)"
proof -
  have z: "(hdr @ body @ padding d r @ rest) ! 0 = hdr ! 0"
    using assms(1,2) by (simp add: nth_append)
  have "read_at ((hdr @ body) @ padding d r @ rest) (h + length body + (r + 1) - 1) =
      (Inr (last (padding d r)) :: (obfs_error, byte) res)"
    by (rule read_last) (simp_all add: assms(1,5))
  then show ?thesis
    using assms unat_padding [OF assms(4), of d] by (simp add: strip_padding_def z)
qed

lemma open_video_ok:
  assumes ok: "ciphers_ok E" and wf: "wf_buf q" and h: "length hdr = 24" "hdr ! 0 AND 0x20 \<noteq> 0"
    and r: "r < 255" "r \<le> length (pad_bytes d)"
    and sl: "as_slice q = hdr @ ct @ padding d r @ take 10 (hmac_sha1 E (hdr @ ct @ padding d r))"
  obtains x where "open_video E 24 iv q = Inr x" and "as_slice x = aes_ctr E iv ct" and "wf_buf x"
proof -
  let ?signed = "hdr @ ct @ padding d r"
  let ?tag = "take 10 (hmac_sha1 E ?signed)"
  have tag: "length ?tag = 10" using ok by (simp add: ciphers_ok_def)
  have n: "length (as_slice q) = 24 + length ct + (r + 1) + 10" using tag h r by (simp add: sl)
  have signed: "slice (as_slice q) 0 (24 + length ct + (r + 1)) = (Inr ?signed :: (obfs_error, bytes) res)"
    using h r by (simp add: slice_def get_slice_def sl)
  have rest: "drop (24 + length ct + (r + 1)) (as_slice q) = ?tag"
    using h r by (simp add: sl)
  have strip: "strip_padding (as_slice q) 24 (24 + length ct + (r + 1)) = Inr (24 + length ct)"
    unfolding sl by (rule strip_padding_ok) (use h r in simp_all)
  have cipher: "slice (as_slice q) 24 (24 + length ct) = (Inr ct :: (obfs_error, bytes) res)"
    using h by (simp add: slice_def get_slice_def sl)
  have len: "length (aes_ctr E iv ct) = length ct" using ok by (simp add: ciphers_ok_def)
  let ?w = "write_storage q (range_start q + 24) (aes_ctr E iv ct)"
  have s1: "as_slice q = hdr @ ct @ (padding d r @ ?tag)" by (simp add: sl)
  note w = parts_write [OF wf s1 len, unfolded h(1)]
  obtain x where x: "set_range ?w (range_start q + 24) (range_start q + 24 + length ct) = Inr x"
    "as_slice x = aes_ctr E iv ct" "wf_buf x"
    using parts_select [OF w(2) w(1)] by (auto simp: h len)
  have x1: "set_range ?w (range_start q + 24) (range_start q + (24 + length ct)) = Inr x"
    using x(1) by (simp only: add.assoc)
  have enough: "24 + 10 \<le> length (as_slice q) \<longleftrightarrow> True" by (simp add: n)
  have cut: "sub_at (length (as_slice q)) 10 = (Inr (24 + length ct + (r + 1)) :: (obfs_error, nat) res)"
    by (simp add: sub_at_def n)
  have "open_video E 24 iv q = Inr x"
    by (simp only: open_video_def Let_def enough cut signed rest strip cipher and_then_simps
        ensure_simps simp_thms of_buf_simps x1)
  then show ?thesis using x by (intro that)
qed

lemma open_audio_ok:
  assumes ok: "ciphers_ok E" and wf: "wf_buf q" and h: "length hdr = 24" "hdr ! 0 AND 0x20 \<noteq> 0"
    "hdr ! 1 AND 0x7f = 111"
    and r: "r < 255" "r \<le> length (pad_bytes d)" and ne: "pl \<noteq> []"
    and sl: "as_slice q = hdr @ fst (chacha_seal E n hdr pl) @ snd (chacha_seal E n hdr pl) @ padding d r"
  obtains x where "open_audio E 24 n q = Inr x" and "as_slice x = pl" and "wf_buf x"
proof -
  obtain ct tag where sealed: "chacha_seal E n hdr pl = (ct, tag)" by fastforce
  have len: "length ct = length pl" "length tag = 16" and opens: "chacha_open E n hdr tag ct = Some pl"
    using ok unfolding ciphers_ok_def by (metis sealed fst_conv, metis sealed snd_conv, metis sealed fst_conv snd_conv)
  have sl': "as_slice q = hdr @ (ct @ tag) @ padding d r @ []" using sl by (simp add: sealed)
  have pe: "length (as_slice q) = 24 + length (ct @ tag) + (r + 1)" using h r by (simp add: sl')
  have strip: "strip_padding (as_slice q) 24 (length (as_slice q)) = Inr (24 + length (ct @ tag))"
    unfolding pe unfolding sl' by (rule strip_padding_ok) (use h r in simp_all)
  have one: "read_at (as_slice q) 1 = (Inr (hdr ! 1) :: (obfs_error, byte) res)"
    using h by (simp add: sl' nth_append read_at_def)
  have s: "slice (as_slice q) (24 + length ct) (24 + length ct + 16) = (Inr tag :: (obfs_error, bytes) res)"
    "slice (as_slice q) 0 24 = (Inr hdr :: (obfs_error, bytes) res)"
    "slice (as_slice q) 24 (24 + length ct) = (Inr ct :: (obfs_error, bytes) res)"
    using h len by (simp_all add: slice_def get_slice_def sl')
  let ?w = "write_storage q (range_start q + 24) pl"
  have s1: "as_slice q = hdr @ ct @ (tag @ padding d r)" by (simp add: sl')
  note w = parts_write [OF wf s1 len(1) [symmetric], unfolded h(1)]
  obtain x where x: "set_range ?w (range_start q + 24) (range_start q + 24 + length ct) = Inr x"
    "as_slice x = pl" "wf_buf x"
    using parts_select [OF w(2) w(1)] by (auto simp: h len)
  have "open_audio E 24 n q = Inr x"
    using x(1) s ne h(3) [unfolded One_nat_def]
    by (simp add: open_audio_def Let_def strip len opens add.assoc one [unfolded One_nat_def])
  then show ?thesis using x by (intro that)
qed

section \<open>Round trip of the packet\<close>

text \<open>The header read back: version and flags, payload type, number, timestamp and source.\<close>

lemma be16_bytes: "be16 w = [of_nat (unat w div 256), of_nat (unat w)]"
  unfolding be16_def numeral_2_eq_2 by simp

lemma header_fields:
  fixes c :: obfs_config
  assumes "wire = rtp_header c m s t a x @ body" and "payload_type c \<in> {96, 111}"
  shows "drop_bit 6 (wire ! 0) = 2" and "wire ! 1 AND 0x7f = payload_type c"
    and "u16_of (wire ! 2) (wire ! 3) = s" and "of_be32 (sub_list wire 4 8) = t"
    and "of_be32 (sub_list wire 8 12) = ssrc c" and "rtp_header_len wire = Inr 24"
    and "wire ! 0 AND 0x20 \<noteq> 0"
proof -
  obtain s0 s1 where s: "be16 s = [s0, s1]" using be16_two by blast
  have "be16 0xbede = [0xbe, 0xde]" "be16 2 = [0, 2]" by (simp_all add: be16_bytes)
  then obtain rest where w: "wire = [0xb0, (payload_type c AND 0x7f) OR (if m then 0x80 else 0), s0, s1]
      @ be32 t @ be32 (ssrc c) @ [0xbe, 0xde, 0, 2] @ rest"
    by (simp add: assms(1) rtp_header_def s)
  have short: "\<not> length wire < 16" by (simp add: assms(1))
  have b0: "wire ! 0 = 0xb0" by (simp add: w)
  then show "drop_bit 6 (wire ! 0) = 2" "wire ! 0 AND 0x20 \<noteq> 0" by simp_all
  have "wire ! 1 = (payload_type c AND 0x7f) OR (if m then 0x80 else 0)" by (simp add: w)
  then show "wire ! 1 AND 0x7f = payload_type c" using assms(2) by auto
  have "wire ! 2 = s0" "wire ! 3 = s1" by (simp_all add: w nth_append)
  then show "u16_of (wire ! 2) (wire ! 3) = s" using s by simp
  show "of_be32 (sub_list wire 4 8) = t" by (simp add: w sub_list_def)
  show "of_be32 (sub_list wire 8 12) = ssrc c" by (simp add: w sub_list_def)
  have "wire ! 14 = 0" "wire ! 15 = 2" by (simp_all add: w nth_append)
  then have "read_at wire 0 = (Inr 0xb0 :: (obfs_error, byte) res)"
    "read_at wire 14 = (Inr 0 :: (obfs_error, byte) res)" "read_at wire 15 = (Inr 2 :: (obfs_error, byte) res)"
    using b0 short by (auto simp: read_at_def)
  then show "rtp_header_len wire = Inr 24"
    using short by (simp add: rtp_header_len_def unat_u16_of)
qed

text \<open>Draws the random generator can make for a configuration.\<close>

definition draws_ok :: "obfs_config \<Rightarrow> obfs_draws \<Rightarrow> bool" where
  "draws_ok c d = (pad_draw d < padding_max c \<and> pad_draw d \<le> length (pad_bytes d))"

lemma prepend_bytes_room:
  assumes "length bs \<le> range_start p"
  obtains q where "prepend_bytes p bs = Inr q" and "range_end q = range_end p"
  using assms by (simp add: prepend_bytes_def prepend_def)

lemma wrap_fits_room:
  "24 \<le> range_start p \<Longrightarrow> range_end p + n \<le> PACKET_CAPACITY \<Longrightarrow> m \<le> n \<Longrightarrow> wrap_fits p m"
  by (simp add: wrap_fits_def PACKET_CAPACITY_def usize_max_def)

lemma obfs_wrap_step:
  assumes "\<not> buf_is_empty p" and "obfs_next st = (st', n, tr)" and "padding_max c \<noteq> 0"
    and "wrap_fits p (if obfs_mode c = Video then pad_draw d + 1 + 10 else pad_draw d + 1 + 16)"
    and "prepend_bytes p (rtp_header c (payload_type c = 96 \<and> marker_draw d = 0) (initial_sequence st' n)
      (initial_timestamp st' + duration_ticks (elapsed_ns d) (rtp_clock_rate (payload_type c)))
      ((initial_abs_send_time st' + duration_ticks (elapsed_ns d) 262144) AND 0x00ffffff) tr) = Inr p1"
  shows "obfs_wrap E c d st p = (st',
    let s = initial_sequence st' n;
      t = initial_timestamp st' + duration_ticks (elapsed_ns d) (rtp_clock_rate (payload_type c)) in
    if obfs_mode c = Video then seal_video E d (pad_draw d) (srtp_iv (ssrc c) s t) p1
    else seal_audio E d (pad_draw d) (obfs_nonce (ssrc c) s t) p1)"
  using assms(1,3,4) by (cases "obfs_mode c = Video") (simp_all add: obfs_wrap_def assms(2,5) Let_def)

lemma wrap_unwrap:
  assumes "ciphers_ok E" and "wf_buf p" and "as_slice p \<noteq> []"
    and "24 \<le> range_start p" and "range_end p + 70 \<le> PACKET_CAPACITY"
    and "draws_ok (obfs_config_new mode source) d"
  shows "\<exists>q x. obfs_wrap E (obfs_config_new mode source) d st p = (fst (obfs_next st), Inr q)
    \<and> is_rtp_packet (as_slice q)
    \<and> obfs_unwrap E mode q = Inr (x, initial_seq st + ucast (count st))
    \<and> as_slice x = as_slice p"
proof -
  let ?c = "obfs_config_new mode source" and ?st = "fst (obfs_next st)"
  let ?s = "initial_sequence ?st (count st)" and ?r = "pad_draw d"
  let ?t = "initial_timestamp ?st + duration_ticks (elapsed_ns d) (rtp_clock_rate (payload_type ?c))"
  let ?a = "(initial_abs_send_time ?st + duration_ticks (elapsed_ns d) 262144) AND 0x00ffffff"
  let ?m = "payload_type ?c = 96 \<and> marker_draw d = 0"
  let ?hdr = "rtp_header ?c ?m ?s ?t ?a (transport_sequence st)"
  have cfg: "payload_type ?c \<in> {96, 111}" "obfs_mode ?c = mode" "ssrc ?c = source"
    "padding_max ?c \<noteq> 0" "?r < 60" "mode = Audio \<Longrightarrow> payload_type ?c = 111 \<and> ?r < 24"
    using assms(6) by (auto simp: obfs_config_new_def draws_ok_def split: obfs_mode.splits)
  have pad: "?r \<le> length (pad_bytes d)" using assms(6) by (simp add: draws_ok_def)
  have "0 < length (as_slice p)" using assms(3) by simp
  then have full: "\<not> buf_is_empty p"
    unfolding length_as_slice [OF assms(2)] by (simp add: buf_is_empty_def buf_len_def)
  obtain p1 where p1: "prepend_bytes p ?hdr = Inr p1" "range_end p1 = range_end p"
    by (rule prepend_bytes_room [of ?hdr p]) (use assms(4) in simp_all)
  note sl = prepend_bytes_ok [OF assms(2) p1(1)]
  have next_eq: "obfs_next st = (?st, count st, transport_sequence st)" by (simp add: obfs_next_def)
  have fits: "wrap_fits p (if mode = Video then ?r + 1 + 10 else ?r + 1 + 16)"
    by (rule wrap_fits_room [OF assms(4,5)]) (use cfg in \<open>cases mode; auto\<close>)
  have wrap: "obfs_wrap E ?c d st p = (?st, if mode = Video
      then seal_video E d ?r (srtp_iv source ?s ?t) p1 else seal_audio E d ?r (obfs_nonce source ?s ?t) p1)"
    using obfs_wrap_step [OF full next_eq cfg(4) _ p1(1), of E] fits unfolding cfg(2,3) by simp
  have seq: "?s = initial_seq st + ucast (count st)" by (simp add: initial_sequence_def obfs_next_def)
  have fields: "drop_bit 6 (w ! 0) = 2 \<and> w ! 1 AND 0x7f = payload_type ?c \<and> u16_of (w ! 2) (w ! 3) = ?s
      \<and> of_be32 (sub_list w 4 8) = ?t \<and> of_be32 (sub_list w 8 12) = source
      \<and> rtp_header_len w = Inr 24 \<and> 24 \<le> length w" if "w = ?hdr @ body" for w body
    using header_fields [OF that cfg(1)] cfg(3) by (simp add: that)
  have bits: "?hdr ! 0 AND 0x20 \<noteq> 0" "?hdr ! 1 AND 0x7f = payload_type ?c"
    using header_fields(2,7) [of ?hdr ?c ?m ?s ?t ?a "transport_sequence st" "[]"] cfg(1) by simp_all
  have unwrap: "obfs_unwrap E mode q =
      and_then (if mode = Video then open_video E 24 (srtp_iv source ?s ?t) q
        else open_audio E 24 (obfs_nonce source ?s ?t) q) (\<lambda>x. Inr (x, ?s))"
    and rtp: "is_rtp_packet (as_slice q)" if "as_slice q = ?hdr @ body" for q body
    using fields [OF that] cfg(1) by (auto simp: obfs_unwrap_long is_rtp_packet_def Let_def)
  show ?thesis
  proof (cases mode)
    case Video
    obtain q where q: "seal_video E d ?r (srtp_iv source ?s ?t) p1 = Inr q" "wf_buf q"
      "as_slice q = ?hdr @ aes_ctr E (srtp_iv source ?s ?t) (as_slice p) @ padding d ?r
        @ take 10 (hmac_sha1 E (?hdr @ aes_ctr E (srtp_iv source ?s ?t) (as_slice p) @ padding d ?r))"
      by (rule seal_video_ok [OF assms(1) sl(2,1) _ pad]) (use assms(5) cfg(5) p1(2) in auto)
    obtain x where "open_video E 24 (srtp_iv source ?s ?t) q = Inr x"
      "as_slice x = aes_ctr E (srtp_iv source ?s ?t) (aes_ctr E (srtp_iv source ?s ?t) (as_slice p))"
      by (rule open_video_ok [OF assms(1) q(2) _ bits(1) _ pad q(3)]) (use cfg(5) in auto)
    then show ?thesis
      using q unwrap [OF q(3)] rtp [OF q(3)] wrap assms(1) Video seq by (auto simp: ciphers_ok_def)
  next
    case Audio
    let ?n = "obfs_nonce source ?s ?t"
    obtain q where q: "seal_audio E d ?r ?n p1 = Inr q" "wf_buf q"
      "as_slice q = ?hdr @ fst (chacha_seal E ?n ?hdr (as_slice p))
        @ snd (chacha_seal E ?n ?hdr (as_slice p)) @ padding d ?r"
      by (rule seal_audio_ok [OF assms(1) sl(2,1) _ pad]) (use assms(5) cfg(6) [OF Audio] p1(2) in auto)
    obtain x where "open_audio E 24 ?n q = Inr x" "as_slice x = as_slice p"
      by (rule open_audio_ok [OF assms(1) q(2) _ bits(1) _ _ pad assms(3) q(3)])
        (use cfg(5,6) Audio bits(2) in auto)
    then show ?thesis
      using q unwrap [OF q(3)] rtp [OF q(3)] wrap Audio seq by auto
  qed
qed

text \<open>Primitives that satisfy the contract: a keystream of ones, constant tags.\<close>

definition demo_ciphers :: cipher_env where
  "demo_ciphers =
     \<lparr>aes_ctr = \<lambda>iv. map (\<lambda>b. b XOR 0xff), hmac_sha1 = \<lambda>_. replicate 20 5,
      chacha_seal = \<lambda>n a xs. (xs, replicate 16 9),
      chacha_open = \<lambda>n a tag xs. if tag = replicate 16 9 then Some xs else None\<rparr>"

lemma demo_ciphers_ok: "ciphers_ok demo_ciphers"
  by (simp add: ciphers_ok_def demo_ciphers_def comp_def xor.assoc)

text \<open>C8: A non-empty packet with 24 bytes of headroom and 70 bytes behind it is always wrapped,
  in either mode and for all random draws; the result is an RTP packet, and unwrapping it gives
  back the payload, and the sequence number of the packet's count.\<close>

theorem obfs_roundtrip:
  assumes "ciphers_ok E" and "wf_buf p" and "as_slice p \<noteq> []"
    and "24 \<le> range_start p" and "range_end p + 70 \<le> PACKET_CAPACITY"
    and "draws_ok (obfs_config_new mode source) d"
  shows "\<exists>q x. obfs_wrap E (obfs_config_new mode source) d st p = (fst (obfs_next st), Inr q)
    \<and> is_rtp_packet (as_slice q)
    \<and> obfs_unwrap E mode q = Inr (x, initial_seq st + ucast (count st))
    \<and> as_slice x = as_slice p"
  by (rule wrap_unwrap [OF assms])

theorem obfs_roundtrip_witness:
  "let p = \<lparr>storage = replicate 2304 7, range_start = 64, range_end = 164\<rparr>;
     d = \<lparr>elapsed_ns = 20000000, pad_draw = 2, marker_draw = 1, pad_bytes = [1, 2]\<rparr>;
     st = \<lparr>count = 65535, initial_timestamp = 1, initial_abs_send_time = 2, initial_seq = 3,
       transport_sequence = 4\<rparr> in
   \<exists>q x. obfs_wrap demo_ciphers (obfs_config_new Video 9) d st p = (fst (obfs_next st), Inr q)
     \<and> obfs_unwrap demo_ciphers Video q = Inr (x, 2) \<and> as_slice x = replicate 100 7"
proof -
  let ?p = "\<lparr>storage = replicate 2304 7, range_start = 64, range_end = 164\<rparr>"
  let ?d = "\<lparr>elapsed_ns = 20000000, pad_draw = 2, marker_draw = 1, pad_bytes = [1, 2]\<rparr>"
  let ?st = "\<lparr>count = 65535, initial_timestamp = 1, initial_abs_send_time = 2, initial_seq = 3,
    transport_sequence = 4\<rparr>"
  have sl: "as_slice ?p = replicate 100 7" by (simp add: as_slice_def sub_list_def)
  have "\<exists>q x. obfs_wrap demo_ciphers (obfs_config_new Video 9) ?d ?st ?p = (fst (obfs_next ?st), Inr q)
      \<and> is_rtp_packet (as_slice q)
      \<and> obfs_unwrap demo_ciphers Video q = Inr (x, initial_seq ?st + ucast (count ?st))
      \<and> as_slice x = as_slice ?p"
    by (rule obfs_roundtrip [OF demo_ciphers_ok])
      (simp_all add: sl wf_buf_def PACKET_CAPACITY_def draws_ok_def obfs_config_new_def)
  then show ?thesis unfolding sl Let_def by fastforce
qed

section \<open>Hostile packets\<close>

lemma no_panic_of_buf [simp]: "no_panic (of_buf (set_range p lo hi))"
  by (simp add: set_range_def)

lemma no_panic_slice [simp]: "lo \<le> hi \<Longrightarrow> hi \<le> length xs \<Longrightarrow> no_panic (slice xs lo hi)"
  by simp

lemma strip_padding_bounds:
  assumes "h \<le> e" and "0 < h" and "e \<le> length wire"
  shows "no_panic (strip_padding wire h e)"
    and "strip_padding wire h e = Inr pe \<Longrightarrow> h \<le> pe \<and> pe \<le> e"
proof -
  have r: "read_at wire 0 = (Inr (wire ! 0) :: (obfs_error, byte) res)"
    "sub_at e 1 = (Inr (e - 1) :: (obfs_error, nat) res)" "sub_at e h = (Inr (e - h) :: (obfs_error, nat) res)"
    "read_at wire (e - 1) = (Inr (wire ! (e - 1)) :: (obfs_error, byte) res)"
    using assms by (auto simp: read_at_def)
  note eq = strip_padding_def [of wire h e, unfolded r and_then_simps and_then_ensure]
  show "no_panic (strip_padding wire h e)" unfolding eq using assms(1) by (auto simp: sub_at_def)
  show "strip_padding wire h e = Inr pe \<Longrightarrow> h \<le> pe \<and> pe \<le> e"
    unfolding eq using assms(1) by (auto simp: sub_at_def split: if_splits)
qed

lemma open_video_safe:
  assumes "12 \<le> h"
  shows "no_panic (open_video E h iv p)"
    and "open_video E h iv p = Inr x \<Longrightarrow>
      \<exists>signed. as_slice p = signed @ take 10 (hmac_sha1 E signed)"
proof -
  let ?w = "as_slice p"
  have s: "slice ?w 0 (length ?w - 10) = (Inr (take (length ?w - 10) ?w) :: (obfs_error, bytes) res)"
    by (simp add: slice_def get_slice_def)
  have cut: "sub_at (length ?w) 10 = (Inr (length ?w - 10) :: (obfs_error, nat) res)"
    if "h + 10 \<le> length ?w" using that by simp
  show "no_panic (open_video E h iv p)"
  proof (cases "h + 10 \<le> length ?w")
    case True
    then have le: "h \<le> length ?w - 10" "0 < h" "length ?w - 10 \<le> length ?w"
      using assms by linarith+
    note b = strip_padding_bounds [OF le]
    show ?thesis
      unfolding open_video_def Let_def cut [OF True] s and_then_simps
      by (intro no_panic_and_then no_panic_ensure b(1) no_panic_slice no_panic_of_buf)
        (use b(2) in fastforce)+
  qed (simp add: open_video_def Let_def)
  assume "open_video E h iv p = Inr x"
  then have "drop (length ?w - 10) ?w = take 10 (hmac_sha1 E (take (length ?w - 10) ?w))"
    by (auto simp: open_video_def Let_def and_then_Inr_conv sub_list_def sub_at_def split: if_splits)
  then show "\<exists>signed. ?w = signed @ take 10 (hmac_sha1 E signed)"
    by (metis append_take_drop_id)
qed

lemma open_audio_safe:
  assumes "12 \<le> h" and "h \<le> length (as_slice p)"
  shows "no_panic (open_audio E h n p)"
    and "open_audio E h n p = Inr x \<Longrightarrow>
      \<exists>aad ct tag rest plain. as_slice p = aad @ ct @ tag @ rest \<and> length aad = h \<and> length tag = 16
        \<and> chacha_open E n aad tag ct = Some plain"
proof -
  let ?w = "as_slice p"
  have "0 < h" using assms(1) by simp
  note b = strip_padding_bounds [OF assms(2) this le_refl]
  show "no_panic (open_audio E h n p)"
    unfolding open_audio_def Let_def
    by (intro no_panic_and_then no_panic_ensure no_panic_ok_or b(1) no_panic_slice no_panic_of_buf)
      (use b(2) assms in fastforce)+
  assume "open_audio E h n p = Inr x"
  note run = this [unfolded open_audio_def Let_def]
  obtain pe where pe: "strip_padding ?w h (length ?w) = Inr pe" "h + 16 < pe"
    using run unfolding and_then_Inr_conv ensure_Inr_conv by blast
  have le: "pe \<le> length ?w" using b(2) [OF pe(1)] by simp
  have s: "slice ?w (pe - 16) pe = (Inr (sub_list ?w (pe - 16) pe) :: (obfs_error, bytes) res)"
    "slice ?w 0 h = (Inr (sub_list ?w 0 h) :: (obfs_error, bytes) res)"
    "slice ?w h (pe - 16) = (Inr (sub_list ?w h (pe - 16)) :: (obfs_error, bytes) res)"
    "sub_at pe 16 = (Inr (pe - 16) :: (obfs_error, nat) res)"
    using le pe(2) assms(2) by simp_all
  obtain plain where
    opened: "chacha_open E n (sub_list ?w 0 h) (sub_list ?w (pe - 16) pe) (sub_list ?w h (pe - 16)) = Some plain"
    using run unfolding pe(1) s and_then_simps unfolding and_then_Inr_conv ok_or_Inr_conv by blast
  have "take pe ?w = sub_list ?w 0 h @ sub_list ?w h (pe - 16) @ sub_list ?w (pe - 16) pe"
    using sub_list_split [of 0 h "pe - 16" ?w] sub_list_split [of 0 "pe - 16" pe ?w] pe(2)
    by (simp add: sub_list_def)
  then have "?w = sub_list ?w 0 h @ sub_list ?w h (pe - 16) @ sub_list ?w (pe - 16) pe @ drop pe ?w"
    by (metis append.assoc append_take_drop_id)
  moreover have "length (sub_list ?w 0 h) = h" "length (sub_list ?w (pe - 16) pe) = 16"
    using pe(2) le assms(2) by simp_all
  ultimately show "\<exists>aad ct tag rest plain. ?w = aad @ ct @ tag @ rest \<and> length aad = h
      \<and> length tag = 16 \<and> chacha_open E n aad tag ct = Some plain"
    using opened by blast
qed

lemma rtp_header_len_safe:
  "w \<noteq> [] \<Longrightarrow> no_panic (rtp_header_len w)" "rtp_header_len w = Inr h \<Longrightarrow> 12 \<le> h"
  by (auto simp: rtp_header_len_def and_then_ensure read_at_def split: if_splits)

text \<open>C9: Unwrapping never panics, whatever bytes the network delivers (every index, range and
  subtraction of offsets of the code is a read that can panic in the model, the length field of
  the header extension behind its guard of 16 bytes included); and it accepts a packet only when
  it is RTP and authentic: in the video mode the last ten bytes are the MAC of all
  bytes before them, in the audio mode the cipher opens the payload with the header as
  associated data.\<close>

theorem obfs_unwrap_safe:
  "no_panic (obfs_unwrap E mode p)
   \<and> (obfs_unwrap E mode p = Inr (x, s) \<longrightarrow>
       is_rtp_packet (as_slice p)
       \<and> (case mode of
            Video \<Rightarrow> \<exists>signed. as_slice p = signed @ take 10 (hmac_sha1 E signed)
          | Audio \<Rightarrow> \<exists>n aad ct tag rest plain. as_slice p = aad @ ct @ tag @ rest
              \<and> 12 \<le> length aad \<and> length tag = 16 \<and> chacha_open E n aad tag ct = Some plain))"
proof -
  have safe: "no_panic (obfs_unwrap E mode p)"
  proof (cases "13 \<le> length (as_slice p)")
    case True
    then have "as_slice p \<noteq> []" by auto
    then show ?thesis
      unfolding obfs_unwrap_long [OF True] Let_def
      by (intro no_panic_and_then no_panic_ensure rtp_header_len_safe(1))
        (auto intro: open_video_safe(1) open_audio_safe(1) dest: rtp_header_len_safe(2))
  qed (simp add: obfs_unwrap_short)
  have long: "13 \<le> length (as_slice p)" if "obfs_unwrap E mode p = Inr (x, s)"
    using that obfs_unwrap_short [of p E mode] by fastforce
  note safe
  moreover have "is_rtp_packet (as_slice p)" if "obfs_unwrap E mode p = Inr (x, s)"
    using that long [OF that]
    by (auto simp: obfs_unwrap_long [OF long [OF that]] is_rtp_packet_def Let_def and_then_Inr_conv)
  moreover have "case mode of
      Video \<Rightarrow> \<exists>signed. as_slice p = signed @ take 10 (hmac_sha1 E signed)
    | Audio \<Rightarrow> \<exists>n aad ct tag rest plain. as_slice p = aad @ ct @ tag @ rest
        \<and> 12 \<le> length aad \<and> length tag = 16 \<and> chacha_open E n aad tag ct = Some plain"
    if "obfs_unwrap E mode p = Inr (x, s)"
  proof -
    from that obtain h n iv where h: "rtp_header_len (as_slice p) = Inr h" "h \<le> length (as_slice p)"
      and "(if mode = Video then open_video E h iv p else open_audio E h n p) = Inr x"
      by (auto simp: obfs_unwrap_long [OF long [OF \<open>obfs_unwrap E mode p = Inr (x, s)\<close>]]
          Let_def and_then_Inr_conv)
    then show ?thesis
      using open_video_safe(2) [OF rtp_header_len_safe(2) [OF h(1)]]
        open_audio_safe(2) [OF rtp_header_len_safe(2) [OF h(1)] h(2)] rtp_header_len_safe(2) [OF h(1)]
      by (cases mode) (simp, metis, simp)
  qed
  ultimately show ?thesis by blast
qed

theorem obfs_unwrap_safe_witness:
  "\<exists>q x signed. obfs_unwrap demo_ciphers Video q = Inr (x, 3) \<and> is_rtp_packet (as_slice q)
     \<and> as_slice q = signed @ take 10 (hmac_sha1 demo_ciphers signed)"
proof -
  let ?p = "\<lparr>storage = replicate 2304 7, range_start = 64, range_end = 164\<rparr>"
  let ?d = "\<lparr>elapsed_ns = 0, pad_draw = 0, marker_draw = 1, pad_bytes = []\<rparr>"
  let ?st = "\<lparr>count = 0, initial_timestamp = 1, initial_abs_send_time = 2, initial_seq = 3,
    transport_sequence = 4\<rparr>"
  have sl: "as_slice ?p = replicate 100 7" by (simp add: as_slice_def sub_list_def)
  have "\<exists>q x. obfs_wrap demo_ciphers (obfs_config_new Video 9) ?d ?st ?p = (fst (obfs_next ?st), Inr q)
      \<and> is_rtp_packet (as_slice q)
      \<and> obfs_unwrap demo_ciphers Video q = Inr (x, initial_seq ?st + ucast (count ?st))
      \<and> as_slice x = as_slice ?p"
    by (rule wrap_unwrap [OF demo_ciphers_ok])
      (simp_all add: sl wf_buf_def PACKET_CAPACITY_def draws_ok_def obfs_config_new_def)
  then obtain q x where q: "obfs_unwrap demo_ciphers Video q = Inr (x, 3)" by auto
  then show ?thesis using obfs_unwrap_safe [of demo_ciphers Video q x 3] by auto
qed

end
