(* ===== verification/Replay.thy ===== *)
theory Replay
  imports Bytes Machine
begin

text \<open>
  Replay protection of a path, \<^verbatim>\<open>ReplayWindow\<close> of \<^verbatim>\<open>backend/session.rs\<close>: a bitmap of the last
  16384 counters, and the extension of 16-bit RTP sequence numbers to 64-bit counters. A
  counter is a \<open>nat\<close> below \<open>2 ^ 64\<close>; the bitmap keeps its 64-bit words.
\<close>

section \<open>The bitmap\<close>

record replay_window =
  highest :: "nat option"
  bitmap :: "u64 list"

definition replay_new :: replay_window where
  "replay_new = \<lparr>highest = None, bitmap = replicate 256 0\<rparr>"

definition slot_index :: "nat \<Rightarrow> nat" where
  "slot_index counter = counter mod 16384"

definition set_slot :: "nat \<Rightarrow> u64 list \<Rightarrow> u64 list" where
  "set_slot counter bs =
     (let idx = slot_index counter in
      bs[idx div 64 := (bs ! (idx div 64)) OR push_bit (idx mod 64) 1])"

definition clear_slot :: "nat \<Rightarrow> u64 list \<Rightarrow> u64 list" where
  "clear_slot counter bs =
     (let idx = slot_index counter in
      bs[idx div 64 := (bs ! (idx div 64)) AND NOT (push_bit (idx mod 64) 1)])"

definition test_slot :: "nat \<Rightarrow> u64 list \<Rightarrow> bool" where
  "test_slot counter bs =
     (let idx = slot_index counter in (bs ! (idx div 64)) AND push_bit (idx mod 64) 1 \<noteq> 0)"

text \<open>The loop over \<^verbatim>\<open>1..=shift\<close>.\<close>

fun clear_ahead :: "nat \<Rightarrow> nat \<Rightarrow> u64 list \<Rightarrow> u64 list" where
  "clear_ahead peak 0 bs = bs"
| "clear_ahead peak (Suc n) bs = clear_slot (peak + Suc n) (clear_ahead peak n bs)"

definition accept :: "replay_window \<Rightarrow> nat \<Rightarrow> replay_window \<times> bool" where
  "accept w counter =
     (case highest w of
        None \<Rightarrow> (\<lparr>highest = Some counter, bitmap = set_slot counter (bitmap w)\<rparr>, True)
      | Some peak \<Rightarrow>
          if peak < counter then
            let shift = counter - peak;
              bs = (if 16384 \<le> shift then replicate (length (bitmap w)) 0
                    else clear_ahead peak shift (bitmap w)) in
            (\<lparr>highest = Some counter, bitmap = set_slot counter bs\<rparr>, True)
          else if 16384 \<le> peak - counter then (w, False)
          else if test_slot counter (bitmap w) then (w, False)
          else (w\<lparr>bitmap := set_slot counter (bitmap w)\<rparr>, True))"

definition extend_sequence :: "nat \<Rightarrow> u16 \<Rightarrow> nat" where
  "extend_sequence peak s =
     (let extended = peak div 65536 * 65536 + unat s in
      if saturating_add extended 32768 < peak then saturating_add extended 65536
      else if saturating_add peak 32768 < extended \<and> 65536 \<le> extended then extended - 65536
      else extended)"

definition accept_rtp :: "replay_window \<Rightarrow> u16 \<Rightarrow> replay_window \<times> bool" where
  "accept_rtp w s =
     (case highest w of None \<Rightarrow> accept w (unat s) | Some peak \<Rightarrow> accept w (extend_sequence peak s))"

definition accept_step :: "replay_window \<Rightarrow> nat \<Rightarrow> replay_window \<times> bool list" where
  "accept_step w counter = (let (w', b) = accept w counter in (w', [b]))"

definition accept_rtp_step :: "replay_window \<Rightarrow> u16 \<Rightarrow> replay_window \<times> bool list" where
  "accept_rtp_step w s = (let (w', b) = accept_rtp w s in (w', [b]))"

section \<open>Bits of the bitmap\<close>

lemma slot_index_less: "slot_index c div 64 < 256" "slot_index c mod 64 < 64"
  by (simp_all add: slot_index_def div_less_iff_less_mult)

lemma slot_index_eq: "slot_index c = slot_index d \<longleftrightarrow>
    slot_index c div 64 = slot_index d div 64 \<and> slot_index c mod 64 = slot_index d mod 64"
  by (metis div_mult_mod_eq)

lemma test_slot_bit: "test_slot c bs = bit (bs ! (slot_index c div 64)) (slot_index c mod 64)"
  by (simp add: test_slot_def Let_def bit_iff_and_push_bit_not_eq_0)

lemma length_slots [simp]:
  "length (set_slot c bs) = length bs" "length (clear_slot c bs) = length bs"
  "length (clear_ahead peak n bs) = length bs"
  by (induction n) (simp_all add: set_slot_def clear_slot_def Let_def)

lemma bit_set_word:
  "i < length bs \<Longrightarrow> j < length bs \<Longrightarrow> a < 64 \<Longrightarrow>
     bit (bs[j := (bs ! j) OR push_bit b 1] ! i) a \<longleftrightarrow> i = j \<and> a = b \<or> bit (bs ! i :: u64) a"
  by (cases "i = j") (auto simp: bit_simps possible_bit_word)

lemma bit_clear_word:
  "i < length bs \<Longrightarrow> j < length bs \<Longrightarrow> a < 64 \<Longrightarrow>
     bit (bs[j := (bs ! j) AND NOT (push_bit b 1)] ! i) a
       \<longleftrightarrow> \<not> (i = j \<and> a = b) \<and> bit (bs ! i :: u64) a"
  by (cases "i = j") (auto simp: bit_simps possible_bit_word)

lemma test_set_slot:
  assumes "length bs = 256"
  shows "test_slot c (set_slot d bs) \<longleftrightarrow> slot_index c = slot_index d \<or> test_slot c bs"
  unfolding test_slot_bit set_slot_def Let_def slot_index_eq [of c d]
  by (rule bit_set_word) (simp_all only: assms slot_index_less)

lemma test_clear_slot:
  assumes "length bs = 256"
  shows "test_slot c (clear_slot d bs) \<longleftrightarrow> slot_index c \<noteq> slot_index d \<and> test_slot c bs"
  unfolding test_slot_bit clear_slot_def Let_def slot_index_eq [of c d]
  by (rule bit_clear_word) (simp_all only: assms slot_index_less)

lemma test_clear_ahead:
  "length bs = 256 \<Longrightarrow> test_slot c (clear_ahead peak n bs) \<longleftrightarrow>
     (\<forall>i \<in> {1..n}. slot_index c \<noteq> slot_index (peak + i)) \<and> test_slot c bs"
proof (induction n)
  case (Suc n)
  have "{1..Suc n} = insert (Suc n) {1..n}" by auto
  then show ?case using Suc by (auto simp: test_clear_slot)
qed simp

lemma test_slot_zero: "test_slot c (replicate 256 0) \<longleftrightarrow> False"
  using slot_index_less [of c] by (simp add: test_slot_bit)

text \<open>Within a window no two counters share a slot.\<close>

lemma near_mod:
  assumes "c mod n = d mod n" and "c \<le> d" and "d - c < (n :: nat)"
  shows "c = d"
proof -
  have "n dvd d - c" using assms(1,2) by (metis mod_eq_dvd_iff_nat)
  then have "d - c = 0" using assms(3) by (metis nat_dvd_not_less neq0_conv)
  then show ?thesis using assms(2) by simp
qed

lemma slot_index_window:
  assumes "c \<le> peak" and "d \<le> peak" and "peak - c < 16384" and "peak - d < 16384"
  shows "slot_index c = slot_index d \<longleftrightarrow> c = d"
proof
  assume "slot_index c = slot_index d"
  then have m: "c mod 16384 = d mod 16384" by (simp add: slot_index_def)
  show "c = d"
  proof (cases "c \<le> d")
    case True
    then show ?thesis using near_mod [OF m True] assms by linarith
  next
    case False
    then show ?thesis using near_mod [OF m [symmetric]] assms by fastforce
  qed
qed simp

section \<open>The abstract window\<close>

text \<open>
  What the window is for: a counter is accepted exactly when it was not accepted before and is
  not 16384 or more behind the highest one accepted. The abstract state is the list of the
  accepted counters.
\<close>

definition fresh_step :: "nat list \<Rightarrow> nat \<Rightarrow> nat list \<times> bool list" where
  "fresh_step seen c =
     (let ok = (c \<notin> set seen \<and> (\<forall>h \<in> set seen. h - c < 16384)) in
      (if ok then c # seen else seen, [ok]))"

definition window_of :: "nat list \<Rightarrow> replay_window \<Rightarrow> bool" where
  "window_of seen w =
     (length (bitmap w) = 256
      \<and> (case highest w of
           None \<Rightarrow> seen = [] \<and> bitmap w = replicate 256 0
         | Some peak \<Rightarrow> peak \<in> set seen \<and> (\<forall>c \<in> set seen. c \<le> peak)
             \<and> (\<forall>c. c \<le> peak \<and> peak - c < 16384 \<longrightarrow> (test_slot c (bitmap w) \<longleftrightarrow> c \<in> set seen))))"

lemma window_of_new: "window_of [] replay_new"
  by (simp add: window_of_def replay_new_def)

lemma accept_refines:
  assumes "window_of seen w"
  shows "window_of (fst (fresh_step seen c)) (fst (accept_step w c))
    \<and> snd (accept_step w c) = snd (fresh_step seen c)"
proof (cases "highest w")
  case None
  then show ?thesis
    using assms by (auto simp: window_of_def accept_step_def accept_def fresh_step_def Let_def
        test_set_slot test_slot_zero slot_index_window [where peak = c])
next
  case (Some peak)
  have len: "length (bitmap w) = 256" and peak: "peak \<in> set seen" "\<And>c. c \<in> set seen \<Longrightarrow> c \<le> peak"
    and bits: "\<And>c. c \<le> peak \<Longrightarrow> peak - c < 16384 \<Longrightarrow> test_slot c (bitmap w) \<longleftrightarrow> c \<in> set seen"
    using assms Some by (auto simp: window_of_def)
  have old: "(\<forall>h \<in> set seen. h - c < 16384) \<longleftrightarrow> peak - c < 16384"
    using peak by (meson diff_le_mono le_less_trans)
  show ?thesis
  proof (cases "peak < c")
    case True
    let ?bs = "if 16384 \<le> c - peak then replicate (length (bitmap w)) 0
      else clear_ahead peak (c - peak) (bitmap w)"
    have new: "c \<notin> set seen" using peak(2) True by force
    have "test_slot d (set_slot c ?bs) \<longleftrightarrow> d = c \<or> d \<in> set seen" if d: "d \<le> c" "c - d < 16384" for d
    proof (cases "16384 \<le> c - peak")
      case far: True
      then have "d \<notin> set seen" using peak(2) [of d] d by auto
      then show ?thesis
        using far d len by (simp add: test_set_slot test_slot_zero slot_index_window [of d c c])
    next
      case near: False
      have ahead: "(\<forall>i \<in> {1..c - peak}. slot_index d \<noteq> slot_index (peak + i)) \<longleftrightarrow> d \<le> peak"
      proof
        assume all: "\<forall>i \<in> {1..c - peak}. slot_index d \<noteq> slot_index (peak + i)"
        show "d \<le> peak"
        proof (rule ccontr)
          assume "\<not> d \<le> peak"
          then have "d - peak \<in> {1..c - peak}" "peak + (d - peak) = d" using d by auto
          then show False using all by metis
        qed
      next
        assume "d \<le> peak"
        show "\<forall>i \<in> {1..c - peak}. slot_index d \<noteq> slot_index (peak + i)"
        proof
          fix i assume i: "i \<in> {1..c - peak}"
          then have "d \<noteq> peak + i" "peak + i \<le> c" "c - (peak + i) < 16384"
            using \<open>d \<le> peak\<close> near by auto
          then show "slot_index d \<noteq> slot_index (peak + i)"
            using slot_index_window [of d c "peak + i"] d near True i by auto
        qed
      qed
      have "test_slot d (set_slot c ?bs) \<longleftrightarrow> d = c \<or> d \<le> peak \<and> test_slot d (bitmap w)"
        using near d len ahead by (simp add: test_set_slot test_clear_ahead slot_index_window [of d c c])
      moreover have "peak - d < 16384" using d True by linarith
      ultimately show ?thesis using bits [of d] peak(2) [of d] d True by auto
    qed
    then show ?thesis
      using Some True new old peak len
      by (auto simp: window_of_def accept_step_def accept_def fresh_step_def Let_def
          dest: peak(2) intro: less_imp_le le_less_trans)
  next
    case False
    have "test_slot d (set_slot c (bitmap w)) \<longleftrightarrow> d = c \<or> d \<in> set seen"
      if "d \<le> peak" "peak - d < 16384" "peak - c < 16384" for d
      using slot_index_window [of d peak c] that False bits [of d] len by (simp add: test_set_slot)
    then show ?thesis
      using Some False assms old peak bits [of c] len
      by (auto simp: window_of_def accept_step_def accept_def fresh_step_def Let_def not_le)
  qed
qed

lemma accept_run_refines:
  assumes "window_of seen w"
  shows "snd (run accept_step w cs) = snd (run fresh_step seen cs)
    \<and> window_of (fst (run fresh_step seen cs)) (fst (run accept_step w cs))"
  using assms
proof (induction cs arbitrary: seen w)
  case (Cons c cs)
  from accept_refines [OF Cons.prems, of c] Cons.IH
  show ?case by (metis fst_run_Cons snd_run_Cons)
qed simp

lemma fresh_distinct: "distinct seen \<Longrightarrow> distinct (fst (run fresh_step seen cs))"
  by (induction cs arbitrary: seen) (auto simp: fresh_step_def Let_def)

text \<open>C10: The bitmap of 256 words decides exactly like the unbounded history: over any sequence of
  counters a counter is accepted if and only if it was not accepted before and is less than
  16384 behind the highest one accepted; so none is accepted twice.\<close>

theorem replay_window_exact:
  "snd (run accept_step replay_new counters) = snd (run fresh_step [] counters)
   \<and> distinct (fst (run fresh_step [] counters))"
  using accept_run_refines [OF window_of_new] fresh_distinct [of "[]"] by simp

section \<open>Sequence numbers\<close>

text \<open>The packet numbers a sender counts, in the order they arrive: never 32768 or more away from
  the highest one so far.\<close>

fun near_all :: "nat \<Rightarrow> nat list \<Rightarrow> bool" where
  "near_all peak [] = True"
| "near_all peak (k # ks) =
     (k < peak + 32768 \<and> peak < k + 32768 \<and> near_all (max peak k) ks)"

lemma extend_exact:
  assumes "k < peak + 32768" and "peak < k + 32768" and "k < 2 ^ 63" and "peak < 2 ^ 63"
  shows "extend_sequence peak (of_nat k) = k"
proof -
  define q r a s where "q = peak div 65536" "r = peak mod 65536" "a = k div 65536" "s = k mod 65536"
  have p: "peak = q * 65536 + r" "r < 65536" and k: "k = a * 65536 + s" "s < 65536"
    by (simp_all add: q_r_a_s_def)
  have s: "unat (of_nat k :: u16) = s" by (simp add: unat_of_nat q_r_a_s_def)
  have sat: "saturating_add x y = x + y" if "x + y \<le> usize_max" for x y
    using that by (simp add: saturating_add_def)
  have small: "q * 65536 + s + 65536 \<le> usize_max" "peak + 32768 \<le> usize_max"
    using assms p k by (simp_all add: usize_max_def)
  have q: "peak div 65536 = q" by (simp add: q_r_a_s_def)
  have "extend_sequence peak (of_nat k) =
      (if q * 65536 + s + 32768 < peak then q * 65536 + s + 65536
       else if peak + 32768 < q * 65536 + s \<and> 65536 \<le> q * 65536 + s then q * 65536 + s - 65536
       else q * 65536 + s)"
    using small by (simp only: extend_sequence_def Let_def s q sat add_le_imp_le_right)
  moreover have "a = q \<or> a = q + 1 \<or> q = a + 1" using assms(1,2) p k by linarith
  ultimately show ?thesis using assms(1,2) p k by (elim disjE) auto
qed

lemma fresh_shift:
  assumes "\<forall>x \<in> set seen. b \<le> x" and "b \<le> k"
  shows "fresh_step (map (\<lambda>x. x - b) seen) (k - b) =
    (map (\<lambda>x. x - b) (fst (fresh_step seen k)), snd (fresh_step seen k))"
proof -
  have "k - b \<in> (\<lambda>x. x - b) ` set seen \<longleftrightarrow> k \<in> set seen"
    using assms by (auto simp: image_iff) (metis diff_diff_cancel le_add_diff_inverse)
  moreover have "(\<forall>x \<in> set seen. x - b - (k - b) < 16384) \<longleftrightarrow> (\<forall>x \<in> set seen. x - k < 16384)"
    using assms by (simp add: diff_diff_left)
  ultimately show ?thesis by (simp add: fresh_step_def Let_def)
qed

text \<open>Packet numbers counted from \<open>b\<close>: what the window holds for them.\<close>

definition tracks :: "nat \<Rightarrow> nat \<Rightarrow> nat list \<Rightarrow> replay_window \<Rightarrow> bool" where
  "tracks b peak seen w =
     (window_of (map (\<lambda>x. x - b) seen) w \<and> highest w = Some (peak - b) \<and> b \<le> peak
      \<and> (\<forall>x \<in> set seen. b \<le> x))"

lemma tracks_step:
  assumes "tracks b peak seen w" and "65536 dvd b" and "b \<le> k"
    and "k < peak + 32768" and "peak < k + 32768" and "k < 2 ^ 63" and "peak < 2 ^ 63"
  shows "tracks b (max peak k) (fst (fresh_step seen k)) (fst (accept_rtp_step w (of_nat k)))
    \<and> snd (accept_rtp_step w (of_nat k)) = snd (fresh_step seen k)"
proof -
  have peak: "highest w = Some (peak - b)" "b \<le> peak" and seen: "\<forall>x \<in> set seen. b \<le> x"
    and win: "window_of (map (\<lambda>x. x - b) seen) w"
    using assms(1) by (auto simp: tracks_def)
  have "(of_nat k :: u16) = of_nat (k - b)"
  proof -
    have "k mod 65536 = (k - b) mod 65536"
      using assms(2,3) mod_eq_dvd_iff_nat [of "k - b" k 65536] by simp
    then show ?thesis by (simp add: word_of_nat_eq_iff take_bit_eq_mod)
  qed
  then have ext: "extend_sequence (peak - b) (of_nat k) = k - b"
    using extend_exact [of "k - b" "peak - b"] assms(3-7) peak(2) by simp
  have same: "accept_rtp_step w (of_nat k) = accept_step w (k - b)"
    by (simp add: accept_rtp_step_def accept_rtp_def accept_step_def peak ext)
  have shift: "fresh_step (map (\<lambda>x. x - b) seen) (k - b) =
      (map (\<lambda>x. x - b) (fst (fresh_step seen k)), snd (fresh_step seen k))"
    by (rule fresh_shift [OF seen assms(3)])
  have ref: "window_of (map (\<lambda>x. x - b) (fst (fresh_step seen k))) (fst (accept_step w (k - b)))"
    "snd (accept_step w (k - b)) = snd (fresh_step seen k)"
    using accept_refines [OF win, of "k - b"] by (simp_all add: shift)
  have "highest (fst (accept_step w (k - b))) = Some (max peak k - b)"
    using peak assms(3) by (auto simp: accept_step_def accept_def Let_def max_def split: if_splits)
  then show ?thesis
    using ref seen peak(2) assms(3) unfolding same tracks_def
    by (auto simp: fresh_step_def Let_def split: if_splits)
qed

lemma tracks_run:
  assumes "tracks b peak seen w" and "65536 dvd b" and "near_all peak ks"
    and "\<forall>k \<in> set ks. b \<le> k \<and> k < 2 ^ 63" and "peak < 2 ^ 63"
  shows "snd (run accept_rtp_step w (map of_nat ks)) = snd (run fresh_step seen ks)"
  using assms
proof (induction ks arbitrary: peak seen w)
  case (Cons k ks)
  have step: "tracks b (max peak k) (fst (fresh_step seen k)) (fst (accept_rtp_step w (of_nat k)))"
    "snd (accept_rtp_step w (of_nat k)) = snd (fresh_step seen k)"
    using tracks_step [OF Cons.prems(1,2), of k] Cons.prems by auto
  have "snd (run accept_rtp_step (fst (accept_rtp_step w (of_nat k))) (map of_nat ks)) =
      snd (run fresh_step (fst (fresh_step seen k)) ks)"
    by (rule Cons.IH [OF step(1) Cons.prems(2)]) (use Cons.prems in auto)
  then show ?case using step(2) by simp
qed simp

text \<open>
  The receiver of a sender that counts up: what the window expects before packet \<open>k\<close>, and that it
  accepts every packet once, however often it comes.
\<close>

definition expects :: "nat \<Rightarrow> replay_window \<Rightarrow> bool" where
  "expects k w =
     (w = replay_new
      \<or> (\<exists>b peak seen. tracks b peak seen w \<and> 65536 dvd b \<and> k = Suc peak \<and> peak \<in> set seen
           \<and> (\<forall>x \<in> set seen. x < k)))"

lemma expects_first: "expects k replay_new"
  by (simp add: expects_def)

lemma tracks_first:
  "tracks (k div 65536 * 65536) k [k] (fst (accept_rtp_step replay_new (of_nat k)))
    \<and> snd (accept_rtp_step replay_new (of_nat k)) = [True]"
proof -
  let ?b = "k div 65536 * 65536"
  have s: "unat (of_nat k :: u16) = k - ?b" by (simp add: unat_of_nat minus_div_mult_eq_mod)
  have first: "accept_rtp_step replay_new (of_nat k) = accept_step replay_new (k - ?b)"
    by (simp add: accept_rtp_step_def accept_rtp_def accept_step_def replay_new_def s)
  have ref: "window_of (fst (fresh_step [] (k - ?b))) (fst (accept_step replay_new (k - ?b)))"
    using accept_refines [OF window_of_new] by blast
  show ?thesis
    using ref unfolding first
    by (simp add: tracks_def fresh_step_def accept_step_def accept_def replay_new_def)
qed

lemma tracks_repeat:
  assumes "tracks b k seen w" and "65536 dvd b" and "k \<in> set seen" and "k < 2 ^ 63"
  shows "tracks b k seen (fst (accept_rtp_step w (of_nat k))) \<and> snd (accept_rtp_step w (of_nat k)) = [False]"
proof -
  have "b \<le> k" using assms(1) by (simp add: tracks_def)
  from tracks_step [OF assms(1,2) this] assms(3,4) show ?thesis by (simp add: fresh_step_def)
qed

lemma expects_step:
  assumes "expects k w" and "k < 2 ^ 62"
  shows "expects (Suc k) (fst (accept_rtp w (of_nat k))) \<and> snd (accept_rtp w (of_nat k))
    \<and> expects (Suc k) (fst (accept_rtp (fst (accept_rtp w (of_nat k))) (of_nat k)))
    \<and> \<not> snd (accept_rtp (fst (accept_rtp w (of_nat k))) (of_nat k))"
proof -
  have bound: "k < 2 ^ 63" using assms(2) by simp
  have "\<exists>b seen. tracks b k seen (fst (accept_rtp_step w (of_nat k))) \<and> 65536 dvd b \<and> k \<in> set seen
      \<and> (\<forall>x \<in> set seen. x < Suc k) \<and> snd (accept_rtp_step w (of_nat k)) = [True]"
  proof (cases "w = replay_new")
    case True
    then show ?thesis using tracks_first [of k] by (intro exI [of _ "k div 65536 * 65536"] exI [of _ "[k]"]) auto
  next
    case False
    then obtain b peak seen where t: "tracks b peak seen w" "65536 dvd b" "k = Suc peak" "peak \<in> set seen"
      "\<forall>x \<in> set seen. x < k" using assms(1) by (auto simp: expects_def)
    have "b \<le> k" using t(1,3) by (simp add: tracks_def)
    have fresh: "fresh_step seen k = (k # seen, [True])"
      using t(5) by (auto simp: fresh_step_def Let_def)
    have "tracks b (max peak k) (k # seen) (fst (accept_rtp_step w (of_nat k)))
        \<and> snd (accept_rtp_step w (of_nat k)) = [True]"
      using tracks_step [OF t(1,2) \<open>b \<le> k\<close>] t(3) bound unfolding fresh fst_conv snd_conv by simp
    then show ?thesis using t(2,3,5) by (intro exI [of _ b] exI [of _ "k # seen"]) auto
  qed
  then obtain b seen where t: "tracks b k seen (fst (accept_rtp_step w (of_nat k)))" "65536 dvd b"
    "k \<in> set seen" "\<forall>x \<in> set seen. x < Suc k" "snd (accept_rtp_step w (of_nat k)) = [True]" by blast
  have step: "accept_rtp_step v s = (fst (accept_rtp v s), [snd (accept_rtp v s)])" for v s
    by (simp add: accept_rtp_step_def split: prod.splits)
  have "expects (Suc k) v" if "tracks b k seen v" for v
    using that t(2-4) unfolding expects_def by blast
  then show ?thesis
    using t(1,5) tracks_repeat [OF t(1,2,3) bound] by (simp add: step)
qed

text \<open>Before the first multiple of 65536 there is no number to go back to: a packet from before the multiple
  of 65536 at or below the first packet is taken for one ahead, and the first packet is then accepted
  a second time.\<close>

lemma first_wrap:
  assumes "x < k div 65536 * 65536" and "k < x + 32768"
  shows "snd (run accept_rtp_step replay_new (map of_nat [k, x, k])) = [True, True, True]"
proof -
  define r s where "r = k mod 65536" and "s = x mod 65536"
  define q where "q = k div 65536"
  have k: "k = q * 65536 + r" "r < 65536" by (simp_all add: q_def r_def)
  obtain p where p: "q = Suc p" using assms(1) by (cases q) (auto simp: q_def)
  have "x < Suc p * 65536" using assms(1) by (simp only: p [symmetric] q_def)
  then have hi: "x < p * 65536 + 65536" by simp
  have lo: "p * 65536 \<le> x" using assms(2) k p by simp
  have "x div 65536 = p" using lo hi by (intro div_nat_eqI) simp_all
  then have x: "x = p * 65536 + s" "s < 65536" by (metis div_mult_mod_eq s_def, simp add: s_def)
  have near: "r + 32768 < s" using assms(2) k(1) x(1) p by simp
  have un: "unat (of_nat k :: u16) = r" "unat (of_nat x :: u16) = s"
    by (simp_all add: unat_of_nat r_def s_def)
  let ?w1 = "\<lparr>highest = Some r, bitmap = set_slot r (replicate 256 0)\<rparr>"
  have a: "accept_rtp_step replay_new (of_nat k) = (?w1, [True])"
    by (simp add: accept_rtp_step_def accept_rtp_def accept_def replay_new_def un)
  have "extend_sequence r (of_nat x) = s"
    using k(2) x(2) near by (simp add: extend_sequence_def saturating_add_def usize_max_def un)
  then obtain bs where b: "accept_rtp_step ?w1 (of_nat x) = (\<lparr>highest = Some s, bitmap = bs\<rparr>, [True])"
    using near by (auto simp: accept_rtp_step_def accept_rtp_def accept_def Let_def)
  have "extend_sequence s (of_nat k) = r + 65536"
    using k(2) x(2) near by (simp add: extend_sequence_def saturating_add_def usize_max_def un)
  then have c: "snd (accept_rtp_step \<lparr>highest = Some s, bitmap = bs\<rparr> (of_nat k)) = [True]"
    using x(2) by (simp add: accept_rtp_step_def accept_rtp_def accept_def Let_def)
  show ?thesis using a b c by simp
qed

text \<open>C11: For packets that arrive within 32768 numbers of the highest one so far, none of them from before
  the multiple of 65536 at or below the first one, the replay protection decides on the truncated numbers
  exactly as the unbounded history decides on the full packet numbers, however often the 16-bit RTP
  sequence number wraps. The condition on the first multiple of 65536 is needed: a packet from before
  it, however little late, makes the protection accept the first packet twice.\<close>

theorem rtp_replay_exact:
  assumes "near_all k ks" and "\<forall>x \<in> set ks. k div 65536 * 65536 \<le> x" and "\<forall>x \<in> set (k # ks). x < 2 ^ 63"
  shows "snd (run accept_rtp_step replay_new (map of_nat (k # ks))) = snd (run fresh_step [] (k # ks))
    \<and> (x < k div 65536 * 65536 \<and> k < x + 32768 \<longrightarrow>
        snd (run accept_rtp_step replay_new (map of_nat [k, x, k])) = [True, True, True]
        \<and> last (snd (run fresh_step [] [k, x, k])) = False)"
proof -
  let ?b = "k div 65536 * 65536"
  have "tracks ?b k [k] (fst (accept_rtp_step replay_new (of_nat k)))" using tracks_first by blast
  then have "snd (run accept_rtp_step (fst (accept_rtp_step replay_new (of_nat k))) (map of_nat ks)) =
      snd (run fresh_step [k] ks)"
    using tracks_run [of ?b k "[k]"] assms by simp
  moreover have "snd (accept_rtp_step replay_new (of_nat k)) = [True]" using tracks_first by blast
  moreover have "last (snd (run fresh_step [] [k, x, k])) = False"
    by (simp add: fresh_step_def Let_def)
  ultimately show ?thesis using first_wrap [of x k] by (simp add: fresh_step_def)
qed

theorem rtp_replay_exact_witness:
  "snd (run accept_rtp_step replay_new (map of_nat [65530, 65540, 65535, 65540, 65536])) =
     [True, True, True, False, True]
   \<and> snd (run accept_rtp_step replay_new (map of_nat [65536, 65535, 65536])) = [True, True, True]"
proof
  have "near_all 65530 [65540, 65535, 65540, 65536]" "\<forall>x \<in> set [65540, 65535, 65540, 65536]. 65530 div 65536 * 65536 \<le> (x :: nat)"
    "\<forall>x \<in> set (65530 # [65540, 65535, 65540, 65536]). (x :: nat) < 2 ^ 63" by simp_all
  from conjunct1 [OF rtp_replay_exact [OF this]]
  show "snd (run accept_rtp_step replay_new (map of_nat [65530, 65540, 65535, 65540, 65536])) =
      [True, True, True, False, True]"
    by (simp add: fresh_step_def Let_def)
  show "snd (run accept_rtp_step replay_new (map of_nat [65536, 65535, 65536])) = [True, True, True]"
    by (rule first_wrap) simp_all
qed

end
