(* ===== verification/PacketQueue.thy ===== *)
theory PacketQueue
  imports Machine "HOL-Library.Sublist"
begin

text \<open>
  The packet channels of \<^verbatim>\<open>backend/dispatcher.rs\<close>: a bounded queue (crossbeam's
  \<^verbatim>\<open>ArrayQueue\<close>, a FIFO of fixed capacity whose \<^verbatim>\<open>force_push\<close> replaces the oldest element)
  with an epoch, so that packets of an earlier network epoch are never delivered. First the
  operations, each as one call; then the sends in their two atomic halves, the load of the
  state and the push, interleaved with everything the receiver does.
\<close>

section \<open>State and operations\<close>

record 'p packet_queue =
  capacity :: nat
  items :: "('p \<times> nat) list"
  queue_active :: bool
  epoch :: nat
  senders :: nat
  receiver_open :: bool

text \<open>The packed word \<^verbatim>\<open>state\<close> is \<open>epoch << 1\<close> with the active flag in its lowest bit.\<close>

definition packet_channel :: "nat \<Rightarrow> bool \<Rightarrow> 'p packet_queue" where
  "packet_channel n active =
     \<lparr>capacity = max n 1, items = [], queue_active = active, epoch = 0, senders = 1,
      receiver_open = True\<rparr>"

definition clone_sender :: "'p packet_queue \<Rightarrow> 'p packet_queue" where
  "clone_sender q = q\<lparr>senders := senders q + 1\<rparr>"

definition drop_sender :: "'p packet_queue \<Rightarrow> 'p packet_queue" where
  "drop_sender q = q\<lparr>senders := senders q - 1\<rparr>"

text \<open>The first half of \<^verbatim>\<open>send_inner\<close>: the epoch the packet is stamped with, if any.\<close>

definition send_stamp :: "'p packet_queue \<Rightarrow> nat option" where
  "send_stamp q = (if receiver_open q \<and> queue_active q then Some (epoch q) else None)"

text \<open>The second half: the push into the bounded queue, and whether it took the packet.\<close>

definition push_queue :: "bool \<Rightarrow> 'p \<times> nat \<Rightarrow> 'p packet_queue \<Rightarrow> 'p packet_queue \<times> bool" where
  "push_queue force x q =
     (if length (items q) < capacity q then (q\<lparr>items := items q @ [x]\<rparr>, True)
      else if force then (q\<lparr>items := tl (items q) @ [x]\<rparr>, True)
      else (q, False))"

definition send_inner :: "bool \<Rightarrow> 'p \<Rightarrow> 'p packet_queue \<Rightarrow> 'p packet_queue \<times> bool" where
  "send_inner force p q =
     (case send_stamp q of None \<Rightarrow> (q, False) | Some e \<Rightarrow> push_queue force (p, e) q)"

text \<open>The loop of \<^verbatim>\<open>try_recv_inner\<close>: packets of another epoch are dropped.\<close>

fun recv_from :: "bool \<Rightarrow> nat \<Rightarrow> ('p \<times> nat) list \<Rightarrow> ('p \<times> nat) list \<times> 'p option" where
  "recv_from active e [] = ([], None)"
| "recv_from active e (x # xs) =
     (if active \<and> snd x = e then (xs, Some (fst x)) else recv_from active e xs)"

definition try_recv :: "'p packet_queue \<Rightarrow> 'p packet_queue \<times> 'p option" where
  "try_recv q =
     (let (xs, p) = recv_from (queue_active q) (epoch q) (items q) in (q\<lparr>items := xs\<rparr>, p))"

definition purge :: "'p packet_queue \<Rightarrow> 'p packet_queue" where
  "purge q = q\<lparr>items := []\<rparr>"

definition resume :: "'p packet_queue \<Rightarrow> 'p packet_queue" where
  "resume q =
     (purge (q\<lparr>epoch := epoch q + 1, queue_active := False\<rparr>))\<lparr>queue_active := True\<rparr>"

definition suspend :: "'p packet_queue \<Rightarrow> 'p packet_queue" where
  "suspend q = purge (q\<lparr>queue_active := False\<rparr>)"

definition drop_receiver :: "'p packet_queue \<Rightarrow> 'p packet_queue" where
  "drop_receiver q = purge (q\<lparr>receiver_open := False\<rparr>)"

definition is_closed :: "'p packet_queue \<Rightarrow> bool" where
  "is_closed q = (senders q = 0 \<and> items q = [])"

definition has_queued_packet :: "'p packet_queue \<Rightarrow> bool" where
  "has_queued_packet q = (items q \<noteq> [])"

section \<open>Interleaved senders\<close>

text \<open>
  \<open>loaded\<close> are the senders between the two halves: packet, force flag and stamp. A ghost tag on
  every packet is the number of resumes before its stamp was loaded.
\<close>

record 'p queue_run =
  shared_queue :: "('p \<times> nat) packet_queue"
  loaded :: "(('p \<times> nat) \<times> bool \<times> nat) list"
  resumes :: nat

datatype 'p queue_input =
    BeginSend 'p bool
  | FinishSend nat
  | Receive
  | ResumeIn
  | SuspendIn
  | DropReceiverIn

datatype 'p queue_output = Pushed 'p nat | Refused 'p | Delivered 'p nat

definition remove_nth :: "nat \<Rightarrow> 'a list \<Rightarrow> 'a list" where
  "remove_nth i xs = take i xs @ drop (Suc i) xs"

fun queue_step :: "'p queue_run \<Rightarrow> 'p queue_input \<Rightarrow> 'p queue_run \<times> 'p queue_output list" where
  "queue_step r (BeginSend p force) =
     (case send_stamp (shared_queue r) of
        None \<Rightarrow> (r, [Refused p])
      | Some e \<Rightarrow> (r\<lparr>loaded := loaded r @ [((p, resumes r), force, e)]\<rparr>, []))"
| "queue_step r (FinishSend i) =
     (if i < length (loaded r) then
        let (x, force, e) = loaded r ! i;
          (q, taken) = push_queue force (x, e) (shared_queue r) in
        (r\<lparr>shared_queue := q, loaded := remove_nth i (loaded r)\<rparr>,
         [if taken then Pushed (fst x) (snd x) else Refused (fst x)])
      else (r, []))"
| "queue_step r Receive =
     (let (q, x) = try_recv (shared_queue r) in
      (r\<lparr>shared_queue := q\<rparr>, case x of None \<Rightarrow> [] | Some (p, n) \<Rightarrow> [Delivered p n]))"
| "queue_step r ResumeIn = (r\<lparr>shared_queue := resume (shared_queue r), resumes := resumes r + 1\<rparr>, [])"
| "queue_step r SuspendIn = (r\<lparr>shared_queue := suspend (shared_queue r)\<rparr>, [])"
| "queue_step r DropReceiverIn = (r\<lparr>shared_queue := drop_receiver (shared_queue r)\<rparr>, [])"

definition queue_init :: "nat \<Rightarrow> bool \<Rightarrow> 'p queue_run" where
  "queue_init n active = \<lparr>shared_queue = packet_channel n active, loaded = [], resumes = 0\<rparr>"

definition queue_inv :: "'p queue_run \<Rightarrow> bool" where
  "queue_inv r =
     (length (items (shared_queue r)) \<le> capacity (shared_queue r)
      \<and> epoch (shared_queue r) = resumes r
      \<and> 0 < capacity (shared_queue r)
      \<and> (\<forall>x \<in> set (items (shared_queue r)). snd x = snd (fst x))
      \<and> (\<forall>x \<in> set (loaded r). snd (snd x) = snd (fst x)))"

lemma recv_from_suffix:
  "recv_from active e xs = (ys, y) \<Longrightarrow>
     length ys \<le> length xs \<and> set ys \<subseteq> set xs
     \<and> (case y of None \<Rightarrow> ys = []
        | Some p \<Rightarrow> active \<and> (\<exists>zs. xs = zs @ (p, e) # ys \<and> (\<forall>z \<in> set zs. snd z \<noteq> e)))"
proof (induction xs)
  case (Cons x xs)
  show ?case
  proof (cases "active \<and> snd x = e")
    case True
    then show ?thesis using Cons.prems by (cases x) auto
  next
    case False
    then have "recv_from active e xs = (ys, y)" using Cons.prems by auto
    then have ih: "length ys \<le> length xs \<and> set ys \<subseteq> set xs
        \<and> (case y of None \<Rightarrow> ys = []
           | Some p \<Rightarrow> active \<and> (\<exists>zs. xs = zs @ (p, e) # ys \<and> (\<forall>z \<in> set zs. snd z \<noteq> e)))"
      by (rule Cons.IH)
    show ?thesis
    proof (cases y)
      case (Some p)
      then obtain zs where zs: "active" "xs = zs @ (p, e) # ys" "\<forall>z \<in> set zs. snd z \<noteq> e"
        using ih by auto
      then have "x # xs = (x # zs) @ (p, e) # ys" "\<forall>z \<in> set (x # zs). snd z \<noteq> e"
        using False by auto
      then have "\<exists>us. x # xs = us @ (p, e) # ys \<and> (\<forall>z \<in> set us. snd z \<noteq> e)" by blast
      then show ?thesis unfolding Some option.case using ih zs(1) by auto
    qed (use ih in auto)
  qed
qed simp

lemma push_queue_fields [simp]:
  "capacity (fst (push_queue f x q)) = capacity q" "epoch (fst (push_queue f x q)) = epoch q"
  "queue_active (fst (push_queue f x q)) = queue_active q"
  by (simp_all add: push_queue_def)

lemma push_queue_items:
  assumes "length (items q) \<le> capacity q" and "0 < capacity q"
  shows "length (items (fst (push_queue f x q))) \<le> capacity q"
    and "set (items (fst (push_queue f x q))) \<subseteq> insert x (set (items q))"
proof -
  have "set (tl (items q)) \<subseteq> set (items q)" by (cases "items q") auto
  then show "length (items (fst (push_queue f x q))) \<le> capacity q"
    and "set (items (fst (push_queue f x q))) \<subseteq> insert x (set (items q))"
    using assms by (auto simp: push_queue_def)
qed

lemma set_remove_nth: "set (remove_nth i xs) \<subseteq> set xs"
  by (auto simp: remove_nth_def dest: in_set_takeD in_set_dropD)

lemma queue_inv_step: "queue_inv r \<Longrightarrow> queue_inv (fst (queue_step r inp))"
proof (cases inp)
  case (BeginSend p force)
  then show "queue_inv r \<Longrightarrow> ?thesis"
    by (auto simp: queue_inv_def send_stamp_def split: option.splits if_splits)
next
  case (FinishSend i)
  assume inv: "queue_inv r"
  show ?thesis
  proof (cases "i < length (loaded r)")
    case True
    obtain x force e where x: "loaded r ! i = (x, force, e)" by (metis prod.exhaust)
    then have "e = snd x" using inv True by (force simp: queue_inv_def dest: nth_mem)
    moreover obtain q taken where q: "push_queue force (x, e) (shared_queue r) = (q, taken)" by fastforce
    moreover have step: "fst (queue_step r inp) = r\<lparr>shared_queue := q, loaded := remove_nth i (loaded r)\<rparr>"
      using True by (simp add: FinishSend x q Let_def)
    moreover have "length (items q) \<le> capacity q" "set (items q) \<subseteq> insert (x, e) (set (items (shared_queue r)))"
      "epoch q = epoch (shared_queue r)" "0 < capacity q"
      using inv push_queue_items [of "shared_queue r" force "(x, e)"]
        push_queue_fields [of force "(x, e)" "shared_queue r"] by (simp_all add: queue_inv_def q)
    ultimately show ?thesis
      using inv set_remove_nth [of i "loaded r"] unfolding step queue_inv_def by auto
  qed (use inv in \<open>simp add: FinishSend\<close>)
next
  case Receive
  assume inv: "queue_inv r"
  obtain xs y where y: "recv_from (queue_active (shared_queue r)) (epoch (shared_queue r))
      (items (shared_queue r)) = (xs, y)" by fastforce
  have step: "fst (queue_step r inp) = r\<lparr>shared_queue := (shared_queue r)\<lparr>items := xs\<rparr>\<rparr>"
    by (simp add: Receive try_recv_def y)
  have "length xs \<le> length (items (shared_queue r))" "set xs \<subseteq> set (items (shared_queue r))"
    using recv_from_suffix [OF y] by simp_all
  then show ?thesis using inv unfolding step queue_inv_def by auto
next
  case ResumeIn
  then show "queue_inv r \<Longrightarrow> ?thesis" by (auto simp: queue_inv_def resume_def purge_def)
next
  case SuspendIn
  then show "queue_inv r \<Longrightarrow> ?thesis" by (auto simp: queue_inv_def suspend_def purge_def)
next
  case DropReceiverIn
  then show "queue_inv r \<Longrightarrow> ?thesis" by (auto simp: queue_inv_def drop_receiver_def purge_def)
qed

lemma queue_inv_init: "queue_inv (queue_init n active)"
  by (simp add: queue_inv_def queue_init_def packet_channel_def)

interpretation packet_queue: machine queue_step queue_inv "\<lambda>_. True"
  by unfold_locales (simp_all add: queue_inv_step list_all_iff)

section \<open>Order and epochs of the deliveries\<close>

definition delivered :: "'p queue_output list \<Rightarrow> ('p \<times> nat) list" where
  "delivered os = List.map_filter (\<lambda>x. case x of Delivered p n \<Rightarrow> Some (p, n) | _ \<Rightarrow> None) os"

definition pushed :: "'p queue_output list \<Rightarrow> ('p \<times> nat) list" where
  "pushed os = List.map_filter (\<lambda>x. case x of Pushed p n \<Rightarrow> Some (p, n) | _ \<Rightarrow> None) os"

lemma delivered_Cons [simp]:
  "delivered (Delivered p n # xs) = (p, n) # delivered xs" "delivered (Pushed p n # xs) = delivered xs"
  "delivered (Refused p # xs) = delivered xs"
  by (simp_all add: delivered_def List.map_filter_def)

lemma delivered_simps [simp]:
  "delivered [] = []" "delivered (xs @ ys) = delivered xs @ delivered ys"
  "delivered [Delivered p n] = [(p, n)]" "delivered [Pushed p n] = []" "delivered [Refused p] = []"
  by (simp_all add: delivered_def List.map_filter_def)

lemma pushed_Cons [simp]:
  "pushed (Delivered p n # xs) = pushed xs" "pushed (Pushed p n # xs) = (p, n) # pushed xs"
  "pushed (Refused p # xs) = pushed xs"
  by (simp_all add: pushed_def List.map_filter_def)

lemma pushed_simps [simp]:
  "pushed [] = []" "pushed (xs @ ys) = pushed xs @ pushed ys"
  "pushed [Delivered p n] = []" "pushed [Pushed p n] = [(p, n)]" "pushed [Refused p] = []"
  by (simp_all add: pushed_def List.map_filter_def)

lemma subseq_tl: "subseq (xs @ tl ys) (xs @ ys)"
  by (intro list_emb_append_mono) (cases ys, auto)

lemma subseq_prefix: "subseq xs (xs @ ys)"
  using list_emb_append_mono [of "(=)" xs xs "[]" ys] by simp

lemma queue_order_step:
  assumes "subseq (delivered os @ map fst (items (shared_queue r))) (pushed os)"
    and "queue_inv r" and "queue_step r inp = (r', new)"
  shows "subseq (delivered (os @ new) @ map fst (items (shared_queue r'))) (pushed (os @ new))"
proof (cases inp)
  case (BeginSend p force)
  then show ?thesis using assms by (auto split: option.splits)
next
  case (FinishSend i)
  show ?thesis
  proof (cases "i < length (loaded r)")
    case True
    obtain p n force e where x: "loaded r ! i = ((p, n), force, e)" by (metis prod.exhaust)
    obtain q taken where q: "push_queue force ((p, n), e) (shared_queue r) = (q, taken)" by fastforce
    let ?xs = "map fst (items (shared_queue r))"
    have new: "shared_queue r' = q" "new = [if taken then Pushed p n else Refused p]"
      using assms(3) True by (auto simp: FinishSend x q Let_def)
    have items: "map fst (items q) = (if taken then (if length (items (shared_queue r)) < capacity (shared_queue r)
        then ?xs else tl ?xs) @ [(p, n)] else ?xs)"
      using q by (auto simp: push_queue_def map_tl split: if_splits)
    have "subseq (delivered os @ tl ?xs) (pushed os)"
      using subseq_order.trans [OF subseq_tl assms(1)] .
    then show ?thesis
      using assms(1) by (simp add: new items flip: append_assoc)
  qed (use assms in \<open>simp add: FinishSend\<close>)
next
  case Receive
  obtain xs y where y: "recv_from (queue_active (shared_queue r)) (epoch (shared_queue r))
      (items (shared_queue r)) = (xs, y)" by fastforce
  show ?thesis
  proof (cases y)
    case None
    then have "xs = []" "new = []" "items (shared_queue r') = []"
      using recv_from_suffix [OF y] assms(3) by (auto simp: Receive try_recv_def y)
    then show ?thesis using subseq_order.trans [OF subseq_prefix assms(1)] by simp
  next
    case (Some pn)
    obtain zs where zs: "items (shared_queue r) = zs @ (pn, epoch (shared_queue r)) # xs"
      using recv_from_suffix [OF y] Some by auto
    have new: "new = [Delivered (fst pn) (snd pn)]" "items (shared_queue r') = xs"
      using assms(3) Some by (auto simp: Receive try_recv_def y split: prod.splits)
    have "subseq (delivered os @ pn # map fst xs) (delivered os @ map fst (items (shared_queue r)))"
      unfolding zs by (intro list_emb_append_mono) (simp_all add: list_emb_append2)
    from subseq_order.trans [OF this assms(1)] show ?thesis by (simp add: new)
  qed
next
  case ResumeIn
  then show ?thesis using assms subseq_order.trans [OF subseq_prefix assms(1)]
    by (auto simp: resume_def purge_def)
next
  case SuspendIn
  then show ?thesis using assms subseq_order.trans [OF subseq_prefix assms(1)]
    by (auto simp: suspend_def purge_def)
next
  case DropReceiverIn
  then show ?thesis using assms subseq_order.trans [OF subseq_prefix assms(1)]
    by (auto simp: drop_receiver_def purge_def)
qed

lemma queue_order:
  "subseq (delivered (snd (run queue_step (queue_init n a) ls))
       @ map fst (items (shared_queue (fst (run queue_step (queue_init n a) ls)))))
     (pushed (snd (run queue_step (queue_init n a) ls)))"
proof (induction ls rule: rev_induct)
  case Nil
  show ?case by (simp add: queue_init_def packet_channel_def)
next
  case (snoc l ls)
  have inv: "queue_inv (fst (run queue_step (queue_init n a) ls))"
    by (rule packet_queue.run_inv [OF queue_inv_init])
  show ?case
    using queue_order_step [OF snoc inv, of l] by (simp add: fst_run_snoc snd_run_snoc)
qed

lemma queue_delivers_current:
  assumes "queue_inv r" and "Delivered p n \<in> set (snd (queue_step r inp))"
  shows "n = resumes r \<and> queue_active (shared_queue r)"
proof -
  have inp: "inp = Receive"
    using assms(2) by (cases inp) (auto split: option.splits prod.splits if_splits)
  obtain xs y where y: "recv_from (queue_active (shared_queue r)) (epoch (shared_queue r))
      (items (shared_queue r)) = (xs, y)" by fastforce
  have y': "y = Some (p, n)"
    using assms(2) by (auto simp: inp try_recv_def y split: option.splits prod.splits)
  then obtain zs where "queue_active (shared_queue r)"
    "items (shared_queue r) = zs @ ((p, n), epoch (shared_queue r)) # xs"
    using recv_from_suffix [OF y] by auto
  then show ?thesis using assms(1) by (auto simp: queue_inv_def)
qed

text \<open>C17: Whatever sends, receives, resumes and suspends interleave on a packet channel, it never
  holds more packets than its capacity; packets come out in the order they went in, each at most
  once; and a packet is delivered only while the channel is active and only if its send began
  after the latest resume, so no packet of an earlier network epoch comes through.\<close>

theorem packet_queue_epochs:
  assumes "run queue_step (queue_init n active) ls = (r, os)"
  shows "length (items (shared_queue r)) \<le> max n 1
    \<and> subseq (delivered os) (pushed os)
    \<and> (\<forall>p k. Delivered p k \<in> set (snd (queue_step r inp)) \<longrightarrow>
        k = resumes r \<and> queue_active (shared_queue r))"
proof -
  have r: "fst (run queue_step (queue_init n active) ls) = r" "snd (run queue_step (queue_init n active) ls) = os"
    using assms by simp_all
  have inv: "queue_inv r" using packet_queue.run_inv [OF queue_inv_init, of n active ls] by (simp add: r)
  have "capacity (shared_queue (fst (run queue_step s xs))) = capacity (shared_queue s)" for s :: "'a queue_run" and xs
  proof (induction xs arbitrary: s)
    case (Cons x xs)
    have "capacity (shared_queue (fst (queue_step s x))) = capacity (shared_queue s)"
      by (cases x) (auto simp: Let_def try_recv_def resume_def suspend_def drop_receiver_def purge_def
          push_queue_def split: option.splits prod.splits)
    then show ?case using Cons by simp
  qed simp
  then have "capacity (shared_queue r) = max n 1"
    using r(1) by (metis queue_init_def packet_channel_def packet_queue.select_convs(1) queue_run.select_convs(1))
  then have "length (items (shared_queue r)) \<le> max n 1" using inv by (simp add: queue_inv_def)
  moreover have "subseq (delivered os) (pushed os)"
    using subseq_order.trans [OF subseq_prefix queue_order [of n active ls]] by (simp add: r)
  ultimately show ?thesis using queue_delivers_current [OF inv] by blast
qed

theorem packet_queue_epochs_witness:
  "delivered (snd (run queue_step (queue_init 2 True)
     [BeginSend ''a'' False, ResumeIn, BeginSend ''b'' False, FinishSend 0, FinishSend 0, Receive]))
   = [(''b'', 1)]
   \<and> subseq [(''b'', 1)] (pushed (snd (run queue_step (queue_init 2 True)
     [BeginSend ''a'' False, ResumeIn, BeginSend ''b'' False, FinishSend 0, FinishSend 0, Receive])))"
proof -
  let ?ls = "[BeginSend ''a'' False, ResumeIn, BeginSend ''b'' False, FinishSend 0, FinishSend 0, Receive]"
  obtain r os where run: "run queue_step (queue_init 2 True) ?ls = (r, os)" by fastforce
  have "delivered (snd (run queue_step (queue_init 2 True) ?ls)) = [(''b'', 1)]"
    by (simp add: queue_init_def packet_channel_def send_stamp_def resume_def purge_def push_queue_def
        remove_nth_def try_recv_def)
  then show ?thesis using packet_queue_epochs [OF run] by (simp add: run)
qed

end
