(* ===== verification/Scheduler.thy ===== *)
theory Scheduler
  imports Striped PacketQueue "HOL-Library.List_Lexorder" "HOL-Library.Product_Lexorder"
    "HOL-Library.Multiset"
begin

text \<open>
  The outbound half of \<^verbatim>\<open>backend/dispatcher.rs\<close>: the set of registered workers and its
  arrangement over the TURN paths, the round robin of the fast path per packet class, and the
  dispatch of a packet into the queue of the worker its ticket selects.
\<close>

section \<open>Workers\<close>

text \<open>The three senders of a worker are its queues, kept in a store under its identity.\<close>

record worker =
  wid :: nat
  incarnation :: nat
  turn_path :: bytes

definition path_key :: "worker \<Rightarrow> bytes \<times> nat" where
  "path_key w = (turn_path w, wid w)"

definition add_to_group :: "worker list list \<Rightarrow> worker \<Rightarrow> worker list list" where
  "add_to_group groups w =
     (if groups \<noteq> [] \<and> last groups \<noteq> [] \<and> turn_path (hd (last groups)) = turn_path w
      then butlast groups @ [last groups @ [w]]
      else groups @ [[w]])"

definition round_of :: "worker list list \<Rightarrow> nat \<Rightarrow> worker list" where
  "round_of groups offset = List.map_filter (\<lambda>g. get_at g offset) groups"

definition longest :: "worker list list \<Rightarrow> nat" where
  "longest groups = fold max (map length groups) 0"

lemma longest_bound: "g \<in> set groups \<Longrightarrow> length g \<le> longest groups"
proof -
  have "length g \<le> fold max (map length gs) m" if "g \<in> set gs \<or> length g \<le> m" for gs m
    using that
  proof (induction gs arbitrary: m)
    case (Cons a gs)
    then show ?case using Cons.IH [of "max (length a) m"] by (auto simp: le_max_iff_disj)
  qed simp
  then show "g \<in> set groups \<Longrightarrow> length g \<le> longest groups" by (simp add: longest_def)
qed

lemma round_of_empty: "longest groups \<le> offset \<Longrightarrow> round_of groups offset = []"
  using longest_bound [of _ groups]
  by (fastforce simp: round_of_def List.map_filter_def get_at_def filter_empty_conv)

function rounds :: "worker list list \<Rightarrow> nat \<Rightarrow> worker list" where
  "rounds groups offset =
     (if round_of groups offset = [] then [] else round_of groups offset @ rounds groups (Suc offset))"
  by pat_completeness auto
termination
proof (relation "measure (\<lambda>(groups, offset). longest groups - offset)")
  fix groups offset assume "round_of groups offset \<noteq> []"
  then have "offset < longest groups" using round_of_empty not_less by blast
  then show "((groups, Suc offset), groups, offset) \<in> measure (\<lambda>(groups, offset). longest groups - offset)"
    by simp
qed simp

declare rounds.simps [simp del]

definition interleave_turn_paths :: "worker list \<Rightarrow> worker list" where
  "interleave_turn_paths workers =
     rounds (foldl add_to_group [] (sort_key path_key workers)) 0"

definition register :: "worker \<Rightarrow> worker list \<Rightarrow> worker list" where
  "register w workers = interleave_turn_paths (filter (\<lambda>v. wid v \<noteq> wid w) workers @ [w])"

definition unregister :: "nat \<Rightarrow> nat \<Rightarrow> worker list \<Rightarrow> worker list" where
  "unregister i inc workers =
     interleave_turn_paths (filter (\<lambda>v. wid v \<noteq> i \<or> incarnation v \<noteq> inc) workers)"

section \<open>The round robin\<close>

record cursor =
  current_worker :: nat
  remaining :: nat

record scheduler =
  sched_workers :: "worker list"
  worker_count :: nat
  cursors :: "cursor list"

definition cursor_new :: cursor where
  "cursor_new = \<lparr>current_worker = 0, remaining = 0\<rparr>"

definition scheduler_new :: scheduler where
  "scheduler_new = \<lparr>sched_workers = [], worker_count = 0, cursors = replicate 3 cursor_new\<rparr>"

definition sync_worker_count :: "nat \<Rightarrow> scheduler \<Rightarrow> scheduler" where
  "sync_worker_count n s =
     (if worker_count s \<noteq> n then s\<lparr>worker_count := n, cursors := replicate 3 cursor_new\<rparr> else s)"

definition advance_cursor :: "nat \<Rightarrow> nat \<Rightarrow> cursor \<Rightarrow> cursor" where
  "advance_cursor n chunk c =
     (let left = (if remaining c = 0 then chunk else remaining c) - 1;
        following = (if Suc (current_worker c) = n then 0 else Suc (current_worker c)) in
      \<lparr>current_worker = (if left = 0 then following else current_worker c), remaining = left\<rparr>)"

definition begin_for_class :: "nat \<Rightarrow> packet_class \<Rightarrow> scheduler \<Rightarrow> scheduler \<times> nat option" where
  "begin_for_class n cls s =
     (if n = 0 then (s, None)
      else
        let s = sync_worker_count n s; c = cursors s ! class_index cls in
        (s\<lparr>cursors := (cursors s)[class_index cls := advance_cursor n (stream_chunk cls) c]\<rparr>,
         Some (current_worker c)))"

definition begin_dispatch :: "worker list \<Rightarrow> packet_class \<Rightarrow> scheduler \<Rightarrow> scheduler \<times> nat option" where
  "begin_dispatch source cls s =
     (let s = (if remaining (cursors s ! class_index cls) = 0
               then sync_worker_count (length source) (s\<lparr>sched_workers := source\<rparr>) else s) in
      begin_for_class (worker_count s) cls s)"

section \<open>Dispatch\<close>

type_synonym 'p queue_store = "nat \<times> nat \<Rightarrow> packet_class \<Rightarrow> 'p packet_queue"

definition queue_put :: "worker \<Rightarrow> packet_class \<Rightarrow> 'p packet_queue \<Rightarrow> 'p queue_store \<Rightarrow> 'p queue_store" where
  "queue_put w cls q st =
     st((wid w, incarnation w) := (st (wid w, incarnation w))(cls := q))"

definition send_selected ::
  "bool \<Rightarrow> worker list \<Rightarrow> nat \<Rightarrow> packet_class \<Rightarrow> 'p \<Rightarrow> 'p queue_store \<Rightarrow> 'p queue_store \<times> bool" where
  "send_selected force workers slot cls p st =
     (case get_at workers slot of
        None \<Rightarrow> (st, False)
      | Some w \<Rightarrow>
          let (q, ok) = send_inner force p (st (wid w, incarnation w) cls) in
          (queue_put w cls q st, ok))"

definition enqueue_selected_worker ::
  "worker list \<Rightarrow> nat \<Rightarrow> packet_class \<Rightarrow> 'p \<Rightarrow> 'p queue_store \<Rightarrow> 'p queue_store \<times> bool" where
  "enqueue_selected_worker = send_selected False"

definition replace_oldest_in_selected_queue ::
  "worker list \<Rightarrow> nat \<Rightarrow> packet_class \<Rightarrow> 'p \<Rightarrow> 'p queue_store \<Rightarrow> 'p queue_store \<times> bool" where
  "replace_oldest_in_selected_queue = send_selected True"

definition dispatch_now ::
  "worker list \<Rightarrow> packet_class \<Rightarrow> 'p \<Rightarrow> scheduler \<times> 'p queue_store \<Rightarrow> scheduler \<times> 'p queue_store" where
  "dispatch_now source cls p x =
     (let (s, st) = x; (s, ticket) = begin_dispatch source cls s in
      case ticket of
        None \<Rightarrow> (s, st)
      | Some slot \<Rightarrow>
          let (st', ok) = enqueue_selected_worker (sched_workers s) slot cls p st in
          (s, if ok then st' else fst (replace_oldest_in_selected_queue (sched_workers s) slot cls p st')))"

section \<open>The arrangement of the workers\<close>

lemma mset_add_to_group: "mset (concat (add_to_group groups w)) = add_mset w (mset (concat groups))"
proof (cases "groups = []")
  case False
  then have "mset (concat groups) = mset (concat (butlast groups)) + mset (last groups)"
    by (metis append_butlast_last_id concat.simps concat_append append_Nil2 mset_append)
  then show ?thesis by (simp add: add_to_group_def)
qed (simp add: add_to_group_def)

lemma mset_groups: "mset (concat (foldl add_to_group groups ws)) = mset (concat groups) + mset ws"
  by (induction ws arbitrary: groups) (simp_all add: mset_add_to_group)

lemma drop_get_at: "drop k g = (case get_at g k of None \<Rightarrow> [] | Some x \<Rightarrow> x # drop (Suc k) g)"
  by (simp add: get_at_def Cons_nth_drop_Suc)

lemma get_at_None: "get_at g k = None \<longleftrightarrow> length g \<le> k"
  by (simp add: get_at_def)

lemma mset_round_of:
  "mset (concat (map (drop k) groups)) = mset (round_of groups k) + mset (concat (map (drop (Suc k)) groups))"
proof (induction groups)
  case (Cons g groups)
  then show ?case
    by (cases "get_at g k") (simp_all add: round_of_def List.map_filter_def drop_get_at [of k g]
        get_at_def split: if_splits)
qed (simp add: round_of_def List.map_filter_def)

lemma round_of_Nil: "round_of groups k = [] \<Longrightarrow> concat (map (drop k) groups) = []"
  by (auto simp: round_of_def List.map_filter_def get_at_None filter_empty_conv)

lemma mset_rounds: "mset (rounds groups k) = mset (concat (map (drop k) groups))"
proof (induction groups k rule: rounds.induct)
  case (1 groups k)
  show ?case
  proof (cases "round_of groups k = []")
    case True
    then show ?thesis using round_of_Nil [OF True] by (simp add: rounds.simps [of groups k])
  next
    case False
    then show ?thesis using 1 [OF False] mset_round_of [of k groups] by (simp add: rounds.simps [of groups k])
  qed
qed

lemma mset_interleave: "mset (interleave_turn_paths ws) = mset ws"
  by (simp add: interleave_turn_paths_def mset_rounds mset_groups del: sort_key_simps)

text \<open>The groups of a sorted list: one per path, each with the workers of that path.\<close>

definition one_path :: "worker list \<Rightarrow> bool" where
  "one_path g = (g \<noteq> [] \<and> set (map turn_path g) \<subseteq> {turn_path (hd g)})"

lemma one_path_simps [simp]:
  "one_path [w]" "one_path g \<Longrightarrow> g \<noteq> []"
  "one_path g \<Longrightarrow> turn_path w = turn_path (hd g) \<Longrightarrow> one_path (g @ [w])"
  by (auto simp: one_path_def)

definition groups_ok :: "worker list list \<Rightarrow> bool" where
  "groups_ok groups =
     ((\<forall>g \<in> set groups. one_path g) \<and> sorted_wrt (<) (map (turn_path \<circ> hd) groups))"

lemma groups_ok_add:
  assumes "groups_ok groups" and "\<forall>g \<in> set groups. turn_path (hd g) \<le> turn_path w"
  shows "groups_ok (add_to_group groups w)
    \<and> (\<forall>g \<in> set (add_to_group groups w). turn_path (hd g) \<le> turn_path w)"
proof (cases "groups = []")
  case False
  then obtain gs g where g: "groups = gs @ [g]" by (metis append_butlast_last_id)
  have gne: "g \<noteq> []" using assms(1) by (simp add: groups_ok_def g)
  show ?thesis
  proof (cases "turn_path (hd g) = turn_path w")
    case True
    then have "add_to_group groups w = gs @ [g @ [w]]" using gne by (simp add: add_to_group_def g)
    then show ?thesis using assms gne True by (auto simp: groups_ok_def g sorted_wrt_append)
  next
    case new: False
    then have add: "add_to_group groups w = groups @ [[w]]" by (simp add: add_to_group_def g)
    have below: "turn_path (hd h) < turn_path w" if "h \<in> set groups" for h
    proof -
      have "turn_path (hd g) < turn_path w" using assms(2) new by (simp add: g order.strict_iff_order)
      moreover have "turn_path (hd h) \<le> turn_path (hd g)"
        using assms(1) that by (auto simp: groups_ok_def g sorted_wrt_append)
      ultimately show ?thesis by simp
    qed
    have "\<forall>x \<in> set (map (turn_path \<circ> hd) groups). x < turn_path w" using below by simp
    then show ?thesis using assms unfolding add groups_ok_def by (simp add: sorted_wrt_append)
  qed
qed (simp add: add_to_group_def groups_ok_def)

lemma groups_ok_fold:
  assumes "groups_ok groups" and "\<forall>g \<in> set groups. \<forall>w \<in> set ws. turn_path (hd g) \<le> turn_path w"
    and "sorted (map turn_path ws)"
  shows "groups_ok (foldl add_to_group groups ws)"
  using assms
proof (induction ws arbitrary: groups)
  case (Cons w ws)
  have "groups_ok (add_to_group groups w)"
    and "\<forall>g \<in> set (add_to_group groups w). turn_path (hd g) \<le> turn_path w"
    using groups_ok_add [OF Cons.prems(1), of w] Cons.prems(2) by auto
  then show ?case using Cons.prems(3) by (auto intro!: Cons.IH intro: order_trans)
qed simp

lemma round_zero: "groups_ok groups \<Longrightarrow> round_of groups 0 = map hd groups"
  by (induction groups)
    (auto simp: round_of_def List.map_filter_def get_at_def groups_ok_def hd_conv_nth)

lemma strict_paths_distinct: "groups_ok groups \<Longrightarrow> distinct (map turn_path (map hd groups))"
  by (simp add: groups_ok_def strict_sorted_iff)

lemma sort_key_paths: "sorted (map turn_path (sort_key path_key ws))"
proof -
  have "sorted_wrt (\<lambda>a b. path_key a \<le> path_key b) (sort_key path_key ws)"
    using sorted_sort_key [of path_key ws] by (simp add: sorted_wrt_map)
  then have "sorted_wrt (\<lambda>a b. turn_path a \<le> turn_path b) (sort_key path_key ws)"
    by (rule sorted_wrt_mono_rel [rotated]) (auto simp: path_key_def less_eq_prod_def)
  then show ?thesis by (simp add: sorted_wrt_map)
qed

lemma groups_paths:
  assumes "groups_ok groups"
  shows "turn_path ` set (concat groups) = set (map turn_path (map hd groups))"
proof -
  have "turn_path ` set g = {turn_path (hd g)}" if "g \<in> set groups" for g
  proof -
    have "one_path g" using assms that by (simp add: groups_ok_def)
    then have "hd g \<in> set g" "set (map turn_path g) \<subseteq> {turn_path (hd g)}" by (auto simp: one_path_def)
    then show ?thesis by fastforce
  qed
  then show ?thesis by (auto simp: image_UN)
qed

lemma interleave_first_round:
  "distinct (map turn_path (take (card (turn_path ` set ws)) (interleave_turn_paths ws)))"
proof -
  let ?groups = "foldl add_to_group [] (sort_key path_key ws)"
  have ok: "groups_ok ?groups"
    by (rule groups_ok_fold) (simp_all only: sort_key_paths, simp_all add: groups_ok_def)
  have "set (concat ?groups) = set ws"
    using mset_groups [of "[]" "sort_key path_key ws"] by (metis append_Nil concat.simps(1) mset_append mset_eq_setD mset_sort)
  then have "turn_path ` set ws = set (map turn_path (map hd ?groups))"
    using groups_paths [OF ok] by simp
  then have card: "card (turn_path ` set ws) = length ?groups"
    using strict_paths_distinct [OF ok] by (metis distinct_card length_map)
  have "take (length ?groups) (interleave_turn_paths ws) = map hd ?groups"
  proof (cases "?groups = []")
    case False
    then have "interleave_turn_paths ws = map hd ?groups @ rounds ?groups 1"
      using round_zero [OF ok] by (simp add: interleave_turn_paths_def rounds.simps [of ?groups 0])
    then show ?thesis by simp
  qed simp
  then show ?thesis using card strict_paths_distinct [OF ok] by simp
qed

text \<open>Registering a worker replaces the one with its number and keeps all others; unregistering
  removes exactly the named incarnation, so that a stale registration never removes its
  replacement; and the arrangement puts one worker of every path first, before any path comes
  a second time.\<close>

theorem worker_arrangement:
  "mset (register w workers) = add_mset w (filter_mset (\<lambda>v. wid v \<noteq> wid w) (mset workers))
   \<and> mset (unregister i inc workers)
       = filter_mset (\<lambda>v. \<not> (wid v = i \<and> incarnation v = inc)) (mset workers)
   \<and> distinct (map turn_path (take (card (turn_path ` set (register w workers))) (register w workers)))"
proof -
  let ?ws = "filter (\<lambda>v. wid v \<noteq> wid w) workers @ [w]"
  have "set (register w workers) = set ?ws"
    by (metis mset_eq_setD mset_interleave register_def)
  then have "distinct (map turn_path (take (card (turn_path ` set (register w workers))) (register w workers)))"
    using interleave_first_round [of ?ws] by (simp only: register_def)
  then show ?thesis by (simp add: register_def unregister_def mset_interleave)
qed

section \<open>The tickets of a class\<close>

text \<open>Where a class's cursor stands after \<open>k\<close> tickets over \<open>n\<close> workers.\<close>

definition cursor_after :: "nat \<Rightarrow> nat \<Rightarrow> nat \<Rightarrow> cursor" where
  "cursor_after n chunk k =
     \<lparr>current_worker = k div chunk mod n, remaining = (if k mod chunk = 0 then 0 else chunk - k mod chunk)\<rparr>"

lemma advance_cursor_after:
  assumes "1 < chunk" and "0 < n"
  shows "advance_cursor n chunk (cursor_after n chunk k) = cursor_after n chunk (Suc k)"
proof -
  define q r where "q = k div chunk" and "r = k mod chunk"
  have k: "k = q * chunk + r" and r: "r < chunk" using assms(1) by (simp_all add: q_def r_def)
  have next_q: "Suc k div chunk = (if Suc r = chunk then Suc q else q)"
    and next_r: "Suc k mod chunk = (if Suc r = chunk then 0 else Suc r)"
    using assms(1) r by (auto simp: q_def r_def mod_Suc div_Suc)
  have wrap: "Suc q mod n = (if Suc (q mod n) = n then 0 else Suc (q mod n))"
    by (simp add: mod_Suc)
  show ?thesis
    using assms r by (auto simp: advance_cursor_def cursor_after_def Let_def next_q next_r wrap
        simp flip: q_def r_def)
qed

lemma stream_chunk_bounds: "1 < stream_chunk c"
  by (cases c) simp_all

lemma class_index_less: "class_index c < 3"
  by (cases c) simp_all

lemma class_index_inj: "class_index c = class_index d \<longleftrightarrow> c = d"
  by (cases c; cases d) simp_all

text \<open>Dispatching packets of the given classes, with an unchanging set of workers.\<close>

definition ticket_step ::
  "worker list \<Rightarrow> scheduler \<Rightarrow> packet_class \<Rightarrow> scheduler \<times> (packet_class \<times> nat option) list" where
  "ticket_step source s c = (let (s', t) = begin_dispatch source c s in (s', [(c, t)]))"

definition tickets_of :: "packet_class \<Rightarrow> (packet_class \<times> nat option) list \<Rightarrow> nat option list" where
  "tickets_of c os = map snd (filter (\<lambda>x. fst x = c) os)"

definition turn_taken :: "worker list \<Rightarrow> (packet_class \<Rightarrow> nat) \<Rightarrow> scheduler \<Rightarrow> bool" where
  "turn_taken source k s =
     (sched_workers s = source \<and> worker_count s = length source \<and> length (cursors s) = 3
      \<and> (\<forall>c. cursors s ! class_index c = cursor_after (length source) (stream_chunk c) (k c)))"

lemma turn_taken_step:
  assumes "turn_taken source k s" and "source \<noteq> []"
  shows "turn_taken source (k(c := Suc (k c))) (fst (begin_dispatch source c s))
    \<and> snd (begin_dispatch source c s) = Some (k c div stream_chunk c mod length source)"
proof -
  have s: "sched_workers s = source" "worker_count s = length source" "length (cursors s) = 3"
    "\<And>d. cursors s ! class_index d = cursor_after (length source) (stream_chunk d) (k d)"
    using assms(1) by (simp_all add: turn_taken_def)
  have same: "s\<lparr>sched_workers := source\<rparr> = s" using s(1) by simp
  have b: "begin_dispatch source c s = begin_for_class (length source) c s"
    using s(2) by (simp add: begin_dispatch_def same sync_worker_count_def Let_def)
  have upd: "(cursors s)[class_index c := x] ! class_index d = (if d = c then x else cursors s ! class_index d)"
    for d x using class_index_less [of c] s(3) class_index_inj [of c d] by (auto simp: nth_list_update)
  show ?thesis
    using s assms(2) advance_cursor_after [OF stream_chunk_bounds, of "length source" c]
    by (auto simp: b begin_for_class_def sync_worker_count_def Let_def turn_taken_def upd)
      (simp add: cursor_after_def)
qed

lemma turn_taken_run:
  assumes "turn_taken source k s" and "source \<noteq> []"
  shows "tickets_of c (snd (run (ticket_step source) s cs)) =
    map (\<lambda>j. Some ((k c + j) div stream_chunk c mod length source)) [0..<length (filter ((=) c) cs)]"
  using assms(1)
proof (induction cs arbitrary: k s)
  case (Cons d cs)
  note step = turn_taken_step [OF Cons.prems assms(2), of d]
  let ?s' = "fst (begin_dispatch source d s)"
  have out: "ticket_step source s d = (?s', [(d, Some (k d div stream_chunk d mod length source))])"
    using step by (simp add: ticket_step_def Let_def case_prod_beta)
  have rest: "tickets_of c (snd (run (ticket_step source) s (d # cs))) =
      (if d = c then [Some (k d div stream_chunk d mod length source)] else [])
      @ tickets_of c (snd (run (ticket_step source) ?s' cs))"
    using out by (simp add: tickets_of_def Let_def case_prod_beta)
  note IH = Cons.IH [OF step [THEN conjunct1]]
  show ?case
  proof (cases "d = c")
    case True
    let ?m = "length (filter ((=) c) cs)"
    have upt: "[0..<Suc ?m] = 0 # map Suc [0..<?m]" by (simp only: map_Suc_upt upt_conv_Cons zero_less_Suc)
    show ?thesis unfolding rest IH using True by (simp add: comp_def upt del: upt_Suc)
  next
    case False
    then show ?thesis unfolding rest IH by simp
  qed
qed (simp add: tickets_of_def)

text \<open>C19: The fast path serves the workers in turns, each class on its own: with an unchanging set
  of workers the j-th packet of a class goes to worker j div chunk, counted around, whatever
  packets of other classes come in between; so every worker gets whole chunks of 4, 16 or 32
  packets, and no slot is ever out of range.\<close>

theorem scheduler_round_robin:
  assumes "source \<noteq> []"
  shows "tickets_of c (snd (run (ticket_step source) scheduler_new cs)) =
    map (\<lambda>j. Some (j div stream_chunk c mod length source)) [0..<length (filter ((=) c) cs)]"
proof (cases cs)
  case (Cons d ds)
  let ?s = "sync_worker_count (length source) (scheduler_new\<lparr>sched_workers := source\<rparr>)"
  have ready: "turn_taken source (\<lambda>_. 0) ?s"
    using class_index_less assms
    by (auto simp: turn_taken_def sync_worker_count_def scheduler_new_def cursor_new_def cursor_after_def)
  have "begin_dispatch source d scheduler_new = begin_dispatch source d ?s"
    using class_index_less [of d] assms
    by (simp add: begin_dispatch_def sync_worker_count_def scheduler_new_def cursor_new_def Let_def)
  then have "run (ticket_step source) scheduler_new cs = run (ticket_step source) ?s cs"
    by (simp add: Cons run.simps ticket_step_def)
  then show ?thesis using turn_taken_run [OF ready assms] by simp
qed (simp add: tickets_of_def)

theorem scheduler_round_robin_witness:
  "tickets_of Small (snd (run (ticket_step
     [\<lparr>wid = 1, incarnation = 1, turn_path = [1]\<rparr>, \<lparr>wid = 2, incarnation = 2, turn_path = [2]\<rparr>])
     scheduler_new [Small, Bulk, Small, Small, Medium, Small, Small]))
   = [Some 0, Some 0, Some 0, Some 0, Some 1]"
  by (subst scheduler_round_robin) (simp_all add: upt_rec)

end
