(* ===== verification/ReturnPath.thy ===== *)
theory ReturnPath
  imports Packet Reassembly Striped PacketQueue
begin

text \<open>
  Both ends of the packet path in \<^verbatim>\<open>backend/dispatcher.rs\<close>: framing of packets read from the
  tunnel, and the way back, where received packets wait in three queues by class, pass the
  reassembler, and are written to a UDP client in batches of one class or to the tunnel device.
\<close>

section \<open>Framing and reassembly\<close>

text \<open>
  Every push reads the clock; \<open>frames_seen\<close> counts those readings, and the clock is a function of
  the count.
\<close>

record return_reorder =
  in_flight :: "packet_buf reassembler"
  ready :: "packet_buf list"
  frames_seen :: nat

definition reorder_new :: return_reorder where
  "reorder_new = \<lparr>in_flight = new_reassembler, ready = [], frames_seen = 0\<rparr>"

definition reorder_push :: "(nat \<Rightarrow> nat) \<Rightarrow> packet_buf \<Rightarrow> return_reorder \<Rightarrow> return_reorder" where
  "reorder_push clock p ro =
     (case header_decode (as_slice p) of
        None \<Rightarrow> ro\<lparr>ready := ready ro @ [p]\<rparr>
      | Some (h, _) \<Rightarrow>
          (case trim_front p FRAME_LEN of
             Inl _ \<Rightarrow> ro
           | Inr q \<Rightarrow>
               let (r, out) = push_at (in_flight ro) h q (clock (frames_seen ro))
               in ro\<lparr>in_flight := r, ready := ready ro @ out, frames_seen := frames_seen ro + 1\<rparr>))"

definition reorder_pop :: "return_reorder \<Rightarrow> return_reorder \<times> packet_buf option" where
  "reorder_pop ro =
     (case ready ro of [] \<Rightarrow> (ro, None) | p # ps \<Rightarrow> (ro\<lparr>ready := ps\<rparr>, Some p))"

text \<open>The packet is framed in its headroom; the flag says whether it may be sent.\<close>

definition frame_outbound_packet ::
  "flow_sequencer \<Rightarrow> packet_buf \<Rightarrow> flow_sequencer \<times> packet_buf \<times> bool" where
  "frame_outbound_packet s p =
     (case next_frame s (as_slice p) of
        (None, s') \<Rightarrow> (s', p, True)
      | (Some h, s') \<Rightarrow>
          (case prepend p FRAME_LEN of
             Inl _ \<Rightarrow> (s', p, False)
           | Inr q \<Rightarrow>
               let (ok, prefix) = header_encode h
                     (sub_list (storage q) (range_start q) (range_start q + FRAME_LEN))
               in (s', write_storage q (range_start q) prefix, ok)))"

section \<open>The queues of the way back\<close>

definition RETURN_CAPACITY :: nat where "RETURN_CAPACITY = 1024"
definition RETURN_LATENCY_CAPACITY :: nat where "RETURN_LATENCY_CAPACITY = 128"
definition RETURN_PRIORITY_CAPACITY :: nat where "RETURN_PRIORITY_CAPACITY = 384"
definition RETURN_BULK_CAPACITY :: nat where
  "RETURN_BULK_CAPACITY = RETURN_CAPACITY - RETURN_LATENCY_CAPACITY - RETURN_PRIORITY_CAPACITY"

record receivers =
  latency :: "packet_buf packet_queue"
  priority :: "packet_buf packet_queue"
  bulk :: "packet_buf packet_queue"

definition return_packet :: "packet_buf \<Rightarrow> receivers \<Rightarrow> receivers" where
  "return_packet p rs =
     (case class_of (as_slice p) of
        Small \<Rightarrow> rs\<lparr>latency := fst (send_inner True p (latency rs))\<rparr>
      | Medium \<Rightarrow> rs\<lparr>priority := fst (send_inner True p (priority rs))\<rparr>
      | Bulk \<Rightarrow> rs\<lparr>bulk := fst (send_inner True p (bulk rs))\<rparr>)"

definition next_return_packet :: "receivers \<Rightarrow> receivers \<times> packet_buf option" where
  "next_return_packet rs =
     (case try_recv (latency rs) of
        (q, Some p) \<Rightarrow> (rs\<lparr>latency := q\<rparr>, Some p)
      | (q, None) \<Rightarrow>
          (case try_recv (priority rs) of
             (q', Some p) \<Rightarrow> (rs\<lparr>latency := q, priority := q'\<rparr>, Some p)
           | (q', None) \<Rightarrow>
               (case try_recv (bulk rs) of
                  (q'', p) \<Rightarrow> (rs\<lparr>latency := q, priority := q', bulk := q''\<rparr>, p))))"

definition queued :: "receivers \<Rightarrow> nat" where
  "queued rs = length (items (latency rs)) + length (items (priority rs)) + length (items (bulk rs))"

lemma try_recv_shrinks:
  assumes "try_recv q = (q', x)"
  shows "length (items q') + (case x of None \<Rightarrow> 0 | Some _ \<Rightarrow> 1) \<le> length (items q)"
    and "x = None \<Longrightarrow> items q' = []"
proof -
  obtain xs where r: "recv_from (queue_active q) (epoch q) (items q) = (xs, x)" "items q' = xs"
    using assms by (auto simp: try_recv_def split: prod.splits)
  show "length (items q') + (case x of None \<Rightarrow> 0 | Some _ \<Rightarrow> 1) \<le> length (items q)"
    and "x = None \<Longrightarrow> items q' = []"
    using recv_from_suffix [OF r(1)] r(2) by (auto split: option.splits)
qed

lemma next_return_packet_shrinks: "next_return_packet rs = (rs', Some p) \<Longrightarrow> queued rs' < queued rs"
  by (auto simp: next_return_packet_def queued_def split: prod.splits option.splits
      dest!: try_recv_shrinks(1))

function next_ordered_return_packet ::
  "(nat \<Rightarrow> nat) \<Rightarrow> return_reorder \<times> receivers \<Rightarrow> (return_reorder \<times> receivers) \<times> packet_buf option" where
  "next_ordered_return_packet clock (ro, rs) =
     (case reorder_pop ro of
        (ro', Some p) \<Rightarrow> ((ro', rs), Some p)
      | (_, None) \<Rightarrow>
          (case next_return_packet rs of
             (rs', None) \<Rightarrow> ((ro, rs'), None)
           | (rs', Some p) \<Rightarrow> next_ordered_return_packet clock (reorder_push clock p ro, rs')))"
  by pat_completeness auto
termination
  by (relation "measure (\<lambda>(_, _, rs). queued rs)") (auto simp: next_return_packet_shrinks [OF sym])

declare next_ordered_return_packet.simps [simp del]

section \<open>Batches for the UDP client\<close>

text \<open>
  The inner loop of \<^verbatim>\<open>write_udp\<close>: packets of the first one's class are collected until the batch
  is full, a more urgent packet waits, none is left, or one of another class comes, which is put
  back.
\<close>

definition higher_priority_waiting :: "packet_class \<Rightarrow> receivers \<Rightarrow> bool" where
  "higher_priority_waiting c rs =
     (case c of
        Small \<Rightarrow> False
      | Medium \<Rightarrow> has_queued_packet (latency rs)
      | Bulk \<Rightarrow> has_queued_packet (latency rs) \<or> has_queued_packet (priority rs))"

function collect_batch ::
  "(nat \<Rightarrow> nat) \<Rightarrow> packet_class \<Rightarrow> packet_buf list \<Rightarrow> return_reorder \<times> receivers \<Rightarrow>
     packet_buf list \<times> return_reorder \<times> receivers" where
  "collect_batch clock c batch st =
     (if length batch < datagram_batch c \<and> \<not> higher_priority_waiting c (snd st) then
        (case next_ordered_return_packet clock st of
           (st', None) \<Rightarrow> (batch, st')
         | (st', Some p) \<Rightarrow>
             if class_of (as_slice p) \<noteq> c
             then (batch, (fst st')\<lparr>ready := p # ready (fst st')\<rparr>, snd st')
             else collect_batch clock c (batch @ [p]) st')
      else (batch, st))"
  by pat_completeness auto
termination
  by (relation "measure (\<lambda>(_, c, batch, _). datagram_batch c - length batch)") auto

declare collect_batch.simps [simp del]

text \<open>What one wait for a packet gives the client: the batch, if any packet is there.\<close>

definition next_batch ::
  "(nat \<Rightarrow> nat) \<Rightarrow> return_reorder \<times> receivers \<Rightarrow> packet_buf list \<times> return_reorder \<times> receivers" where
  "next_batch clock st =
     (case next_ordered_return_packet clock st of
        (st', None) \<Rightarrow> ([], st')
      | (st', Some p) \<Rightarrow> collect_batch clock (class_of (as_slice p)) [p] st')"

text \<open>
  \<^verbatim>\<open>write_udp_batch\<close> against the outcomes of the socket, one for every turn of the loop; the
  result is the number of packets sent and the bytes counted.
\<close>

datatype udp_outcome = UdpCancelled | UdpNotWritable | UdpSent nat | UdpWouldBlock | UdpError

fun write_udp_batch :: "udp_outcome list \<Rightarrow> bytes list \<Rightarrow> nat \<Rightarrow> nat \<Rightarrow> (unit, nat \<times> nat) res" where
  "write_udp_batch [] packets sent down = Inr (sent, down)"
| "write_udp_batch (x # xs) packets sent down =
     (if sent < length packets then
        (case x of
           UdpCancelled \<Rightarrow> Inr (sent, down)
         | UdpNotWritable \<Rightarrow> Inr (sent, down)
         | UdpError \<Rightarrow> Inr (sent, down)
         | UdpWouldBlock \<Rightarrow> write_udp_batch xs packets sent down
         | UdpSent n \<Rightarrow>
             and_then (slice packets sent (sent + n)) (\<lambda>ps.
             write_udp_batch xs packets (sent + n) (down + sum_list (map length ps))))
      else Inr (sent, down))"

text \<open>The packets that come out one after the other, at most \<open>n\<close> of them.\<close>

primrec pulled :: "(nat \<Rightarrow> nat) \<Rightarrow> nat \<Rightarrow> return_reorder \<times> receivers \<Rightarrow> packet_buf list" where
  "pulled clock 0 st = []"
| "pulled clock (Suc n) st =
     (case next_ordered_return_packet clock st of
        (st', None) \<Rightarrow> []
      | (st', Some p) \<Rightarrow> p # pulled clock n st')"

lemma next_ordered_ready:
  "ready ro = p # ps \<Longrightarrow>
     next_ordered_return_packet clock (ro, rs) = ((ro\<lparr>ready := ps\<rparr>, rs), Some p)"
  by (subst next_ordered_return_packet.simps) (simp add: reorder_pop_def)

lemma next_ordered_none:
  "ready ro = [] \<Longrightarrow> next_return_packet rs = (rs', None) \<Longrightarrow>
     next_ordered_return_packet clock (ro, rs) = ((ro, rs'), None)"
  by (subst next_ordered_return_packet.simps) (simp add: reorder_pop_def)

lemma next_ordered_push:
  "ready ro = [] \<Longrightarrow> next_return_packet rs = (rs', Some p) \<Longrightarrow>
     next_ordered_return_packet clock (ro, rs) = next_ordered_return_packet clock (reorder_push clock p ro, rs')"
  by (subst next_ordered_return_packet.simps) (simp add: reorder_pop_def)

lemma try_recv_empty: "items q = [] \<Longrightarrow> try_recv q = (q, None)"
  by (simp add: try_recv_def)

lemma next_return_packet_empty:
  assumes "items (latency rs) = []" "items (priority rs) = []" "items (bulk rs) = []"
  shows "next_return_packet rs = (rs, None)"
proof -
  have "try_recv (latency rs) = (latency rs, None)" "try_recv (priority rs) = (priority rs, None)"
    "try_recv (bulk rs) = (bulk rs, None)" using assms by (simp_all only: try_recv_empty)
  then show ?thesis by (simp add: next_return_packet_def)
qed

lemma next_return_packet_None:
  assumes "next_return_packet rs = (rs', None)"
  shows "next_return_packet rs' = (rs', None)"
proof (rule next_return_packet_empty)
  obtain a x b y c z where q: "try_recv (latency rs) = (a, x)" "try_recv (priority rs) = (b, y)"
    "try_recv (bulk rs) = (c, z)" by (metis surj_pair)
  then have "x = None" "y = None" "z = None" "rs' = rs\<lparr>latency := a, priority := b, bulk := c\<rparr>"
    using assms by (auto simp: next_return_packet_def split: option.splits)
  then show "items (latency rs') = []" "items (priority rs') = []" "items (bulk rs') = []"
    using q try_recv_shrinks(2) by auto
qed

lemma next_ordered_None:
  "next_ordered_return_packet clock st = (st', None) \<Longrightarrow> next_ordered_return_packet clock st' = (st', None)"
proof (induction clock st arbitrary: st' rule: next_ordered_return_packet.induct)
  case (1 clock ro rs)
  show ?case
  proof (cases "ready ro")
    case Nil
    obtain rs1 x where nx: "next_return_packet rs = (rs1, x)" by fastforce
    show ?thesis
    proof (cases x)
      case None
      then have "st' = (ro, rs1)" using "1.prems" next_ordered_none [OF Nil] nx by auto
      then show ?thesis using next_ordered_none [OF Nil] next_return_packet_None nx None by auto
    next
      case (Some p)
      then have rec: "next_ordered_return_packet clock (reorder_push clock p ro, rs1) = (st', None)"
        using "1.prems" next_ordered_push [OF Nil] nx by auto
      have "(ro, None) = reorder_pop ro" by (simp add: reorder_pop_def Nil)
      from "1.IH" [OF this refl nx [symmetric] Some rec] show ?thesis .
    qed
  next
    case (Cons p ps)
    then show ?thesis using "1.prems" next_ordered_ready [OF Cons] by auto
  qed
qed

lemma pulled_None: "next_ordered_return_packet clock st = (st', None) \<Longrightarrow> pulled clock n st' = []"
  by (cases n) (simp_all add: next_ordered_None)

lemma next_ordered_put_back:
  "next_ordered_return_packet clock ((fst st)\<lparr>ready := p # ready (fst st)\<rparr>, snd st) = (st, Some p)"
  using next_ordered_ready [of "(fst st)\<lparr>ready := p # ready (fst st)\<rparr>"] by simp

lemma collect_batch_spec:
  assumes "collect_batch clock c batch st = (batch', st')" and "length batch \<le> datagram_batch c"
  shows "\<exists>xs. batch' = batch @ xs \<and> length batch' \<le> datagram_batch c
    \<and> (\<forall>p \<in> set xs. class_of (as_slice p) = c)
    \<and> (\<forall>m. pulled clock (length xs + m) st = xs @ pulled clock m st')"
  using assms
proof (induction clock c batch st arbitrary: batch' st' rule: collect_batch.induct)
  case (1 clock c batch st)
  show ?case
  proof (cases "length batch < datagram_batch c \<and> \<not> higher_priority_waiting c (snd st)")
    case False
    then have "batch' = batch" "st' = st" using "1.prems"(1) by (subst (asm) collect_batch.simps, auto)+
    then show ?thesis using "1.prems"(2) by simp
  next
    case go: True
    obtain st1 x where nx: "next_ordered_return_packet clock st = (st1, x)" by fastforce
    show ?thesis
    proof (cases x)
      case None
      then have "batch' = batch" "st' = st1"
        using "1.prems"(1) go nx by (subst (asm) collect_batch.simps, simp)+
      moreover have "pulled clock m st = []" for m using nx None by (cases m) simp_all
      ultimately show ?thesis using "1.prems"(2) pulled_None nx None by simp
    next
      case (Some p)
      show ?thesis
      proof (cases "class_of (as_slice p) = c")
        case True
        then have rec: "collect_batch clock c (batch @ [p]) st1 = (batch', st')"
          using "1.prems"(1) go nx Some by (subst (asm) collect_batch.simps, simp)
        obtain xs where xs: "batch' = (batch @ [p]) @ xs" "length batch' \<le> datagram_batch c"
          "\<forall>p \<in> set xs. class_of (as_slice p) = c"
          "\<And>m. pulled clock (length xs + m) st1 = xs @ pulled clock m st'"
          using "1.IH" [OF go nx [symmetric] _ _ rec] Some True go by auto
        have "pulled clock (length (p # xs) + m) st = (p # xs) @ pulled clock m st'" for m
          by (simp add: nx Some xs(4))
        then show ?thesis using xs(1-3) True by (intro exI [of _ "p # xs"]) simp
      next
        case False
        then have res: "batch' = batch" "st' = ((fst st1)\<lparr>ready := p # ready (fst st1)\<rparr>, snd st1)"
          using "1.prems"(1) go nx Some by (subst (asm) collect_batch.simps, simp)+
        have "next_ordered_return_packet clock st' = (st1, Some p)"
          unfolding res by (rule next_ordered_put_back)
        then have "pulled clock m st = pulled clock m st'" for m using nx Some by (cases m) simp_all
        then show ?thesis using "1.prems"(2) res(1) by simp
      qed
    qed
  qed
qed

lemma datagram_batch_bounds: "1 \<le> datagram_batch c" "datagram_batch c \<le> 128"
  by (cases c; simp)+

text \<open>C18: The client's batches never lose, repeat or reorder a packet: a batch and what comes after
  it are exactly the packets that would have come one by one, also when a packet of another class
  is put back. A batch holds packets of one class only and fits the 128 slots of the send call.\<close>

theorem return_batches:
  assumes "next_batch clock st = (batch, st')"
  shows "pulled clock (length batch + n) st = batch @ pulled clock n st'
    \<and> length batch \<le> 128
    \<and> (\<exists>c. \<forall>p \<in> set batch. class_of (as_slice p) = c)"
proof -
  obtain st1 x where nx: "next_ordered_return_packet clock st = (st1, x)" by fastforce
  show ?thesis
  proof (cases x)
    case None
    then have "batch = []" "st' = st1" using assms nx by (simp_all add: next_batch_def)
    moreover have "pulled clock n st = []" using nx None by (cases n) simp_all
    ultimately show ?thesis using pulled_None nx None by simp
  next
    case (Some p)
    let ?c = "class_of (as_slice p)"
    have "collect_batch clock ?c [p] st1 = (batch, st')" using assms nx Some by (simp add: next_batch_def)
    from collect_batch_spec [OF this] datagram_batch_bounds [of ?c] obtain xs where
      "batch = [p] @ xs" "length batch \<le> datagram_batch ?c" "\<forall>p \<in> set xs. class_of (as_slice p) = ?c"
      "\<forall>m. pulled clock (length xs + m) st1 = xs @ pulled clock m st'" by auto
    moreover then have "length batch \<le> 128" using datagram_batch_bounds(2) [of ?c] by linarith
    ultimately show ?thesis using nx Some by auto
  qed
qed

theorem return_batches_witness:
  "\<exists>st'. next_batch (\<lambda>_. 0)
       (reorder_new\<lparr>ready := [\<lparr>storage = [1, 2], range_start = 0, range_end = 2\<rparr>]\<rparr>,
        \<lparr>latency = packet_channel 4 True, priority = packet_channel 4 True, bulk = packet_channel 4 True\<rparr>)
     = ([\<lparr>storage = [1, 2], range_start = 0, range_end = 2\<rparr>], st')
   \<and> pulled (\<lambda>_. 0) 1
       (reorder_new\<lparr>ready := [\<lparr>storage = [1, 2], range_start = 0, range_end = 2\<rparr>]\<rparr>,
        \<lparr>latency = packet_channel 4 True, priority = packet_channel 4 True, bulk = packet_channel 4 True\<rparr>)
     = [\<lparr>storage = [1, 2], range_start = 0, range_end = 2\<rparr>] @ pulled (\<lambda>_. 0) 0 st'"
proof -
  let ?p = "\<lparr>storage = [1, 2], range_start = 0, range_end = 2\<rparr>"
  let ?q = "packet_channel 4 True :: packet_buf packet_queue"
  let ?rs = "\<lparr>latency = ?q, priority = ?q, bulk = ?q\<rparr>"
  have none: "next_ordered_return_packet (\<lambda>_. 0) (reorder_new, ?rs) = ((reorder_new, ?rs), None)"
    by (rule next_ordered_none) (simp_all add: reorder_new_def next_return_packet_empty packet_channel_def)
  have one: "next_ordered_return_packet (\<lambda>_. 0) (reorder_new\<lparr>ready := [?p]\<rparr>, ?rs) = ((reorder_new, ?rs), Some ?p)"
    using next_ordered_ready [of "reorder_new\<lparr>ready := [?p]\<rparr>"] by (simp add: reorder_new_def)
  have batch: "next_batch (\<lambda>_. 0) (reorder_new\<lparr>ready := [?p]\<rparr>, ?rs) = ([?p], (reorder_new, ?rs))"
    using none by (simp add: next_batch_def one collect_batch.simps)
  show ?thesis using batch return_batches [OF batch, of 0] by auto
qed

end
