(* ===== verification/EndToEnd.thy ===== *)
theory EndToEnd
  imports ReturnPath
begin

text \<open>
  The two ends together: packets framed by \<^verbatim>\<open>frame_outbound_packet\<close> on one side and taken apart by
  \<^verbatim>\<open>ReturnReorder\<close> on the other, \<^verbatim>\<open>backend/dispatcher.rs\<close> over \<^verbatim>\<open>backend/shared/flow_frame.rs\<close>.
\<close>

section \<open>Sequencer and reassembler in step\<close>

text \<open>
  The reassembler knows exactly the flows of the sequencer, under its present sender, each
  waiting for the number the sequencer gives next, and holds nothing.
\<close>

definition waiting_for :: "u32 \<Rightarrow> 'v flow_state" where
  "waiting_for n = \<lparr>expected = n, gap_started = None, held = []\<rparr>"

definition in_step :: "flow_sequencer \<Rightarrow> 'v reassembler \<Rightarrow> bool" where
  "in_step s r =
     (length (flows r) = length (fs_sequences s) \<and> pending_total r = 0
      \<and> (\<forall>i f. map_of (flows r) (i, f) =
           (if i = fs_sender s then map_option waiting_for (map_of (fs_sequences s) f) else None)))"

lemma in_step_new: "in_step (with_sender_id i) new_reassembler"
  by (simp add: in_step_def with_sender_id_def new_reassembler_def)

lemma in_step_forget:
  assumes "in_step s r" and "s1 = forget_flows f s"
  shows "in_step s1 (forget_all (fs_sender s1, f) r)"
proof (cases "length (fs_sequences s) = MAX_TRACKED_FLOWS \<and> \<not> tbl_has (fs_sequences s) f")
  case True
  then have s1: "fs_sequences s1 = []" by (simp add: assms(2) forget_flows_def)
  have "map_of (flows r) (fs_sender s1, f) = None"
    using assms(1) True by (simp add: in_step_def tbl_has_def)
  then have "forget_all (fs_sender s1, f) r = new_reassembler"
    using assms(1) True by (simp add: in_step_def forget_all_def tbl_has_def)
  then show ?thesis by (simp add: in_step_def s1 new_reassembler_def)
next
  case False
  then have s1: "s1 = s" by (auto simp: assms(2) forget_flows_def)
  have "tbl_has (flows r) (fs_sender s, f) = tbl_has (fs_sequences s) f"
    using assms(1) by (auto simp: in_step_def tbl_has_def)
  then have "forget_all (fs_sender s, f) r = r"
    using assms(1) False by (auto simp: in_step_def forget_all_def)
  then show ?thesis using assms(1) by (simp add: s1)
qed

lemma push_flow_waiting:
  "push_flow now (waiting_for n) 0 n v = (waiting_for (n + 1), 0, [v])"
  by (simp add: push_flow_def waiting_for_def release_expired_def lower_total_def
      drain_contiguous.simps)

lemma new_flow_waiting: "new_flow = waiting_for 0"
  by (simp add: new_flow_def waiting_for_def)

lemma in_step_push:
  assumes "in_step s r" and "next_header s f = (h, s')"
  shows "\<exists>r'. push_at r h v now = (r', [v]) \<and> in_step s' r'"
proof -
  let ?s1 = "forget_flows f s"
  let ?k = "(fs_sender ?s1, f)"
  let ?r1 = "forget_all ?k r"
  let ?n = "tbl_get (fs_sequences ?s1) f 0"
  have step: "in_step ?s1 ?r1" by (rule in_step_forget [OF assms(1) refl])
  have h: "h = \<lparr>sender_id = fs_sender ?s1, flow_id = f, sequence = ?n\<rparr>"
    and s': "s' = ?s1\<lparr>fs_sequences := tbl_set f (?n + 1) (fs_sequences ?s1)\<rparr>"
    using assms(2) by (auto simp: next_header_def Let_def)
  have key: "frame_key h = ?k" and seq: "sequence h = ?n" by (simp_all add: frame_key_def h)
  have "flow_at ?r1 ?k = waiting_for ?n"
    using step by (simp add: flow_at_def tbl_get_def in_step_def new_flow_waiting split: option.splits)
  moreover have "pending_total ?r1 = 0" using step by (simp add: in_step_def)
  ultimately have "push_at r h v now =
      (\<lparr>flows = tbl_set ?k (waiting_for (?n + 1)) (flows ?r1), pending_total = 0\<rparr>, [v])"
    using push_at_eq [of now h r v] push_flow_waiting [of now ?n v] by (simp add: key seq)
  moreover have "in_step s' \<lparr>flows = tbl_set ?k (waiting_for (?n + 1)) (flows ?r1), pending_total = 0\<rparr>"
  proof -
    have "tbl_has (flows ?r1) ?k = tbl_has (fs_sequences ?s1) f"
      using step by (auto simp: in_step_def tbl_has_def)
    then show ?thesis
      using step by (auto simp: in_step_def s' length_tbl_set tbl_set_get)
  qed
  ultimately show ?thesis by blast
qed

section \<open>Packets there and back\<close>

text \<open>
  One packet: framed, carried by \<open>transit\<close>, which puts its bytes into some buffer of the other
  side, and pushed there. A packet that cannot be framed is dropped.
\<close>

definition carry ::
  "(nat \<Rightarrow> nat) \<Rightarrow> (packet_buf \<Rightarrow> packet_buf) \<Rightarrow> flow_sequencer \<times> return_reorder \<Rightarrow> packet_buf \<Rightarrow>
     flow_sequencer \<times> return_reorder" where
  "carry clock transit st p =
     (case frame_outbound_packet (fst st) p of
        (s, q, ok) \<Rightarrow> (s, if ok then reorder_push clock (transit q) (snd st) else snd st))"

lemma frame_outbound_frames:
  assumes "wf_buf p" and "FRAME_LEN \<le> range_start p"
    and "flow_of (as_slice p) = Some f" and "next_header s f = (h, s')"
  shows "\<exists>q. frame_outbound_packet s p = (s', q, True) \<and> wf_buf q
    \<and> as_slice q = header_bytes h @ as_slice p"
proof -
  let ?q = "p\<lparr>range_start := range_start p - FRAME_LEN\<rparr>"
  have q: "prepend p FRAME_LEN = Inr ?q" using assms(2) by (simp add: prepend_def)
  let ?room = "sub_list (storage ?q) (range_start ?q) (range_start ?q + FRAME_LEN)"
  have "length ?room = FRAME_LEN" using assms(1,2) by (simp add: wf_buf_def)
  then have enc: "header_encode h ?room = (True, header_bytes h)" by (simp add: header_encode_def)
  have "prepend_bytes p (header_bytes h) = Inr (write_storage ?q (range_start ?q) (header_bytes h))"
    using q by (simp add: prepend_bytes_def)
  from prepend_bytes_ok [OF assms(1) this] show ?thesis
    using assms(3,4) q enc by (simp add: frame_outbound_packet_def next_frame_def)
qed

lemma carry_one:
  assumes "wf_buf p" and "FRAME_LEN \<le> range_start p"
    and "flow_of (as_slice p) = None \<Longrightarrow> header_decode (as_slice p) = None"
    and transit: "\<And>q. wf_buf q \<Longrightarrow> wf_buf (transit q) \<and> as_slice (transit q) = as_slice q"
    and "in_step s (in_flight ro)" and "carry clock transit (s, ro) p = (s', ro')"
  shows "in_step s' (in_flight ro') \<and> map as_slice (ready ro') = map as_slice (ready ro) @ [as_slice p]"
proof (cases "flow_of (as_slice p)")
  case None
  then have "frame_outbound_packet s p = (s, p, True)"
    by (simp add: frame_outbound_packet_def next_frame_def)
  moreover have "header_decode (as_slice (transit p)) = None" "as_slice (transit p) = as_slice p"
    using transit [OF assms(1)] assms(3) None by simp_all
  ultimately show ?thesis using assms(5,6) by (auto simp: carry_def reorder_push_def)
next
  case (Some f)
  obtain h s1 where hs: "next_header s f = (h, s1)" by fastforce
  obtain q where q: "frame_outbound_packet s p = (s1, q, True)" "wf_buf q"
    "as_slice q = header_bytes h @ as_slice p"
    using frame_outbound_frames [OF assms(1,2) Some hs] by blast
  let ?q = "transit q"
  have wf: "wf_buf ?q" and bytes: "as_slice ?q = header_bytes h @ as_slice p"
    using transit [OF q(2)] q(3) by simp_all
  let ?t = "?q\<lparr>range_start := range_start ?q + FRAME_LEN\<rparr>"
  have "FRAME_LEN \<le> buf_len ?q" using length_as_slice [OF wf] by (simp add: bytes)
  then have trim: "trim_front ?q FRAME_LEN = Inr ?t" by (simp add: trim_front_def)
  have payload: "as_slice ?t = as_slice p" using as_slice_trim_front [OF wf trim] by (simp add: bytes)
  obtain r' where r': "push_at (in_flight ro) h ?t (clock (frames_seen ro)) = (r', [?t])" "in_step s1 r'"
    using in_step_push [OF assms(5) hs] by blast
  have "carry clock transit (s, ro) p =
      (s1, ro\<lparr>in_flight := r', ready := ready ro @ [?t], frames_seen := frames_seen ro + 1\<rparr>)"
    by (simp add: carry_def q(1) reorder_push_def bytes header_decode_encode trim r'(1))
  then show ?thesis using assms(6) r'(2) payload by auto
qed

lemma carry_all:
  assumes "\<forall>p \<in> set ps. wf_buf p \<and> FRAME_LEN \<le> range_start p
      \<and> (flow_of (as_slice p) = None \<longrightarrow> header_decode (as_slice p) = None)"
    and transit: "\<And>q. wf_buf q \<Longrightarrow> wf_buf (transit q) \<and> as_slice (transit q) = as_slice q"
    and "in_step s (in_flight ro)"
  shows "map as_slice (ready (snd (foldl (carry clock transit) (s, ro) ps))) =
    map as_slice (ready ro) @ map as_slice ps"
  using assms(1,3)
proof (induction ps arbitrary: s ro)
  case (Cons p ps)
  obtain s' ro' where c: "carry clock transit (s, ro) p = (s', ro')" by fastforce
  have "in_step s' (in_flight ro') \<and> map as_slice (ready ro') = map as_slice (ready ro) @ [as_slice p]"
    using Cons.prems by (intro carry_one [OF _ _ _ transit _ c]) auto
  then show ?case using Cons.IH [of s' ro'] Cons.prems(1) by (simp add: c)
qed simp

text \<open>C15: Over a transport that keeps the order, every packet comes out of the receiving side byte
  for byte as it was read on the sending side, at once and in order, whatever flows are mixed and
  however many: the sequencer and the reassembler forget their flows at the same packet. Packets
  need room for the frame header, and unframed ones must not look like a frame.\<close>

theorem tunnel_keeps_packets:
  assumes "\<And>p. p \<in> set ps \<Longrightarrow> wf_buf p \<and> FRAME_LEN \<le> range_start p
      \<and> (flow_of (as_slice p) = None \<longrightarrow> header_decode (as_slice p) = None)"
    and "\<And>q. wf_buf q \<Longrightarrow> wf_buf (transit q) \<and> as_slice (transit q) = as_slice q"
  shows "map as_slice (ready (snd (foldl (carry clock transit) (with_sender_id i, reorder_new) ps))) =
    map as_slice ps"
proof -
  have "in_step (with_sender_id i) (in_flight reorder_new)" by (simp add: reorder_new_def in_step_new)
  from carry_all [OF _ assms(2) this, of ps clock] assms(1) show ?thesis by (simp add: reorder_new_def)
qed

definition sample_buf :: "bytes \<Rightarrow> packet_buf" where
  "sample_buf bs =
     \<lparr>storage = replicate PACKET_HEADROOM 0 @ bs @ replicate (PACKET_CAPACITY - PACKET_HEADROOM - length bs) 0,
      range_start = PACKET_HEADROOM, range_end = PACKET_HEADROOM + length bs\<rparr>"

lemma sample_buf_ok:
  assumes "length bs \<le> 2240"
  shows "wf_buf (sample_buf bs)" "as_slice (sample_buf bs) = bs" "range_start (sample_buf bs) = 64"
  using assms by (auto simp: sample_buf_def wf_buf_def as_slice_def sub_list_def packet_consts)

theorem tunnel_keeps_packets_witness:
  "map as_slice (ready (snd (foldl (carry (\<lambda>_. 0) id) (with_sender_id 7, reorder_new)
     [sample_buf sample_tcp, sample_buf [0x60, 1, 2], sample_buf sample_tcp]))) =
   [sample_tcp, [0x60, 1, 2], sample_tcp]"
proof -
  let ?ps = "[sample_buf sample_tcp, sample_buf [0x60, 1, 2], sample_buf sample_tcp]"
  have small: "length sample_tcp \<le> 2240" by (simp add: sample_tcp_def)
  have tcp: "flow_of sample_tcp \<noteq> None"
    by (simp add: sample_tcp_def flow_of_def tcp_flow_id_def ip_fields_def sub_list_def Let_def)
  have short: "header_decode [0x60, 1, 2] = None" by (simp add: header_decode_def FRAME_LEN_def)
  have "map as_slice (ready (snd (foldl (carry (\<lambda>_. 0) id) (with_sender_id 7, reorder_new) ?ps))) =
      map as_slice ?ps"
    by (rule tunnel_keeps_packets)
      (auto simp: sample_buf_ok small packet_consts FRAME_LEN_def tcp short)
  then show ?thesis by (simp add: sample_buf_ok small packet_consts)
qed

end
