(* ===== verification/TunIo.thy ===== *)
theory TunIo
  imports ReturnPath Scheduler
begin

text \<open>
  The loops of \<^verbatim>\<open>backend/dispatcher.rs\<close> around the tunnel device: \<^verbatim>\<open>read_tun\<close> and \<^verbatim>\<open>write_tun\<close>
  with their error handling, and the receive turn of \<^verbatim>\<open>read_udp\<close>. The kernel is a script of
  answers, one for every call; a script that ends stands for a device that would block.
\<close>

section \<open>Errors of the device\<close>

datatype errno = EINTR | EAGAIN | ENOBUFS | ENOMEM | EIO | EBADF | ENODEV | OtherErrno int

definition is_retryable_tun_error :: "errno \<Rightarrow> bool" where
  "is_retryable_tun_error e = (e \<in> {EINTR, EAGAIN, ENOBUFS, ENOMEM})"

definition is_closed_tun_error :: "errno \<Rightarrow> bool" where
  "is_closed_tun_error e = (e \<in> {EIO, EBADF, ENODEV})"

text \<open>The counter after one more dropped packet, and whether it is logged.\<close>

definition log_dropped_packet :: "nat \<Rightarrow> nat \<times> bool" where
  "log_dropped_packet counter = (counter + 1, counter + 1 \<le> 8 \<or> (counter + 1) mod 1000 = 0)"

section \<open>Writing\<close>

datatype tun_write_state = Complete | Continue | Wait | Backoff | Yield | Closed | Dropped

datatype write_answer = Wrote nat | WriteBlocks | WriteFails errno

text \<open>
  One \<^verbatim>\<open>write\<close> of the bytes not written yet; the kernel takes at most what it is given. The
  result: the state, the bytes written so far, the counter of dropped packets, whether a message
  was logged.
\<close>

definition try_write_tun_packet ::
  "write_answer \<Rightarrow> packet_buf \<Rightarrow> nat \<Rightarrow> nat \<Rightarrow> (unit, tun_write_state \<times> nat \<times> nat \<times> bool) res" where
  "try_write_tun_packet answer p written dropped =
     and_then (slice (as_slice p) written (buf_len p)) (\<lambda>remaining.
     Inr (case answer of
        Wrote n \<Rightarrow>
          (let taken = min n (length remaining) in
           if taken = 0 then
             (let (dropped', logged) = log_dropped_packet dropped in (Dropped, written, dropped', logged))
           else if written + taken = buf_len p then (Complete, written + taken, 0, False)
           else (Continue, written + taken, 0, False))
      | WriteBlocks \<Rightarrow> (Wait, written, dropped, False)
      | WriteFails e \<Rightarrow>
          (if is_retryable_tun_error e then
             (if e = ENOBUFS \<or> e = ENOMEM then Backoff else Yield, written, dropped, False)
           else if is_closed_tun_error e then (Closed, written, dropped, False)
           else (let (dropped', logged) = log_dropped_packet dropped in (Dropped, written, dropped', logged)))))"

text \<open>
  The writer between two turns. \<open>handled\<close> is the history: every packet that left the writer and
  whether it was written as a whole.
\<close>

record tun_writer =
  incoming :: "return_reorder \<times> receivers"
  pending_write :: "(packet_buf \<times> nat) option"
  dropped_count :: nat
  bytes_down :: nat
  handled :: "(packet_buf \<times> bool) list"

definition writer_new :: "receivers \<Rightarrow> tun_writer" where
  "writer_new rs =
     \<lparr>incoming = (reorder_new, rs), pending_write = None, dropped_count = 0, bytes_down = 0,
      handled = []\<rparr>"

definition take_next :: "(nat \<Rightarrow> nat) \<Rightarrow> tun_writer \<Rightarrow> tun_writer" where
  "take_next clock w =
     (case next_ordered_return_packet clock (incoming w) of
        (st, x) \<Rightarrow> w\<lparr>incoming := st, pending_write := map_option (\<lambda>p. (p, 0)) x\<rparr>)"

text \<open>
  The inner loop: \<^verbatim>\<open>expect\<close> on the pending packet, one write, and the next packet after a whole
  one, up to 64 in a burst.
\<close>

fun write_burst ::
  "(nat \<Rightarrow> nat) \<Rightarrow> write_answer list \<Rightarrow> nat \<Rightarrow> tun_writer \<Rightarrow> (unit, tun_writer \<times> tun_write_state) res" where
  "write_burst clock [] burst w =
     (if pending_write w = None then Inl Panic else Inr (w, Wait))"
| "write_burst clock (x # xs) burst w =
     (case pending_write w of
        None \<Rightarrow> Inl Panic
      | Some (p, written) \<Rightarrow>
          and_then (try_write_tun_packet x p written (dropped_count w)) (\<lambda>(state, written', dropped', _).
          let w1 = w\<lparr>pending_write := Some (p, written'), dropped_count := dropped'\<rparr> in
          (case state of
             Complete \<Rightarrow>
               (let w2 = w1\<lparr>pending_write := None, bytes_down := bytes_down w + buf_len p,
                         handled := handled w @ [(p, True)]\<rparr> in
                if burst + 1 = 64 then Inr (w2, Complete)
                else
                  let w3 = take_next clock w2 in
                  if pending_write w3 = None then Inr (w3, Complete)
                  else write_burst clock xs (burst + 1) w3)
           | Continue \<Rightarrow> write_burst clock xs burst w1
           | _ \<Rightarrow> Inr (w1, state))))"

text \<open>
  How a turn goes: cancelled while it waits for a packet or for the device, the wait for the device
  fails, or the device can be written and answers.
\<close>

datatype writer_turn =
    CancelledIdle | CancelledWaiting | WaitFailed
  | Writable "write_answer list"

text \<open>
  One turn of \<^verbatim>\<open>write_tun\<close>: a packet is taken if none is pending (and without one the turn waits),
  the device is waited for, the burst runs, and its state decides. The flag says whether the writer
  goes on; a packet still pending when it does not is lost.
\<close>

definition write_tun_turn ::
  "(nat \<Rightarrow> nat) \<Rightarrow> writer_turn \<Rightarrow> tun_writer \<Rightarrow> (unit, tun_writer \<times> bool) res" where
  "write_tun_turn clock turn w =
     (if pending_write w = None \<and> turn = CancelledIdle then Inr (w, False)
      else
     (let w0 = (if pending_write w = None then take_next clock w else w) in
      case pending_write w0 of
        None \<Rightarrow> Inr (w0, True)
      | Some (p, _) \<Rightarrow>
     (case turn of
        Writable answers \<Rightarrow>
          and_then (write_burst clock answers 0 w0) (\<lambda>(w1, state).
          case state of
            Dropped \<Rightarrow>
              (case pending_write w1 of
                 None \<Rightarrow> Inr (w1, True)
               | Some (q, _) \<Rightarrow>
                   Inr (w1\<lparr>pending_write := None, handled := handled w1 @ [(q, False)]\<rparr>, True))
          | Closed \<Rightarrow> Inr (w1, False)
          | Continue \<Rightarrow> Inl Panic
          | _ \<Rightarrow> Inr (w1, True))
      | _ \<Rightarrow> Inr (w0, False))))"

text \<open>A whole life of the writer: turns until it stops. The flag: it is still running.\<close>

fun write_tun :: "(nat \<Rightarrow> nat) \<Rightarrow> writer_turn list \<Rightarrow> tun_writer \<Rightarrow> (unit, tun_writer \<times> bool) res" where
  "write_tun clock [] w = Inr (w, True)"
| "write_tun clock (t # turns) w =
     and_then (write_tun_turn clock t w) (\<lambda>(w', goes_on).
     if goes_on then write_tun clock turns w' else Inr (w', False))"

section \<open>What the writer does\<close>

text \<open>The packets still to come: the pending one first.\<close>

definition upcoming :: "(nat \<Rightarrow> nat) \<Rightarrow> nat \<Rightarrow> tun_writer \<Rightarrow> packet_buf list" where
  "upcoming clock n w =
     (case pending_write w of None \<Rightarrow> pulled clock n (incoming w)
      | Some (p, _) \<Rightarrow> (case n of 0 \<Rightarrow> [] | Suc m \<Rightarrow> p # pulled clock m (incoming w)))"

definition writer_ok :: "(nat \<Rightarrow> nat) \<Rightarrow> (nat \<Rightarrow> packet_buf list) \<Rightarrow> tun_writer \<Rightarrow> bool" where
  "writer_ok clock expected_packets w =
     ((\<forall>n. map fst (handled w) @ upcoming clock n w = expected_packets (length (handled w) + n))
      \<and> bytes_down w = sum_list (map (\<lambda>(p, whole). if whole then buf_len p else 0) (handled w))
      \<and> (case pending_write w of None \<Rightarrow> True | Some (p, written) \<Rightarrow> written \<le> buf_len p))"

text \<open>Every buffer of the queues is well-formed: its slice has the length it says.\<close>

definition sound_buf :: "packet_buf \<Rightarrow> bool" where
  "sound_buf p = (length (as_slice p) = buf_len p)"

lemma try_write_ok:
  assumes "sound_buf p" and "written \<le> buf_len p"
  shows "\<exists>state written' dropped' logged.
    try_write_tun_packet x p written dropped = Inr (state, written', dropped', logged)
    \<and> written' \<le> buf_len p"
proof -
  have s: "slice (as_slice p) written (buf_len p) = (Inr (sub_list (as_slice p) written (buf_len p)) :: (unit, bytes) res)"
    using assms by (simp add: sound_buf_def)
  have len: "length (sub_list (as_slice p) written (buf_len p)) = buf_len p - written"
    using assms by (simp add: sound_buf_def)
  show ?thesis
  proof (cases x)
    case (Wrote n)
    have "written + min n (buf_len p - written) \<le> buf_len p" using assms(2) by simp
    then show ?thesis
      using assms(2) by (auto simp: try_write_tun_packet_def s len Wrote Let_def log_dropped_packet_def)
  next
    case (WriteFails e)
    then show ?thesis
      using assms(2) by (auto simp: try_write_tun_packet_def s log_dropped_packet_def)
  qed (use assms(2) in \<open>auto simp: try_write_tun_packet_def s\<close>)
qed

lemma pulled_none: "next_ordered_return_packet clock st = (st', None) \<Longrightarrow> pulled clock n st = []"
  by (cases n) simp_all

lemma take_next_pulled:
  assumes "pending_write w = None"
  shows "upcoming clock n (take_next clock w) = upcoming clock n w"
    and "handled (take_next clock w) = handled w" "bytes_down (take_next clock w) = bytes_down w"
    and "\<And>p k. pending_write (take_next clock w) = Some (p, k) \<Longrightarrow> k = 0"
proof -
  obtain st x where nx: "next_ordered_return_packet clock (incoming w) = (st, x)" by fastforce
  have "pulled clock n st = pulled clock n (incoming w)" if "x = None"
    using pulled_None [of clock "incoming w" st n] nx that pulled_none [of clock "incoming w" st n] by simp
  then show "upcoming clock n (take_next clock w) = upcoming clock n w"
    using assms nx by (cases x; cases n) (simp_all add: upcoming_def take_next_def)
  show "handled (take_next clock w) = handled w" "bytes_down (take_next clock w) = bytes_down w"
    "\<And>p k. pending_write (take_next clock w) = Some (p, k) \<Longrightarrow> k = 0"
    by (auto simp: take_next_def nx)
qed

lemma writer_ok_take_next:
  "writer_ok clock ps w \<Longrightarrow> pending_write w = None \<Longrightarrow> writer_ok clock ps (take_next clock w)"
  using take_next_pulled [of w clock] by (fastforce simp: writer_ok_def split: option.splits)

lemma upcoming_pending:
  assumes "pending_write w = Some (p, k)"
  shows "upcoming clock (Suc n) w = p # upcoming clock n (w\<lparr>pending_write := None, bytes_down := d, handled := h, dropped_count := c\<rparr>)"
  using assms by (simp add: upcoming_def)

text \<open>A packet leaves the writer, written as a whole or dropped.\<close>

lemma writer_ok_finish:
  assumes "writer_ok clock ps w" and "pending_write w = Some (p, k)"
    and "w' = w\<lparr>pending_write := None, dropped_count := c,
      bytes_down := bytes_down w + (if whole then buf_len p else 0), handled := handled w @ [(p, whole)]\<rparr>"
  shows "writer_ok clock ps w'"
proof -
  have "map fst (handled w') @ upcoming clock n w' = ps (length (handled w') + n)" for n
  proof -
    have "map fst (handled w) @ upcoming clock (Suc n) w = ps (length (handled w) + Suc n)"
      using assms(1) by (simp only: writer_ok_def)
    moreover have "upcoming clock (Suc n) w = p # upcoming clock n w'"
      using assms(2) by (simp add: upcoming_def assms(3))
    ultimately show ?thesis by (simp add: assms(3))
  qed
  then show ?thesis using assms(1) unfolding writer_ok_def by (simp add: assms(3))
qed

lemma writer_ok_progress:
  assumes "writer_ok clock ps w" and "pending_write w = Some (p, k)" and "k' \<le> buf_len p"
  shows "writer_ok clock ps (w\<lparr>pending_write := Some (p, k'), dropped_count := c\<rparr>)"
proof -
  have "upcoming clock n (w\<lparr>pending_write := Some (p, k'), dropped_count := c\<rparr>) = upcoming clock n w" for n
    using assms(2) by (cases n) (simp_all add: upcoming_def)
  then show ?thesis using assms by (simp add: writer_ok_def)
qed

lemma writer_ok_sound:
  assumes "writer_ok clock ps w" and "pending_write w = Some (p, k)"
    and "\<forall>n. \<forall>q \<in> set (ps n). sound_buf q"
  shows "sound_buf p" and "k \<le> buf_len p"
proof -
  have "map fst (handled w) @ upcoming clock 1 w = ps (length (handled w) + 1)"
    using assms(1) by (simp only: writer_ok_def)
  moreover have "p \<in> set (upcoming clock 1 w)" using assms(2) by (simp add: upcoming_def)
  ultimately have "p \<in> set (ps (length (handled w) + 1))" by (metis in_set_conv_decomp append_assoc)
  then show "sound_buf p" using assms(3) by blast
  show "k \<le> buf_len p" using assms(1,2) by (simp add: writer_ok_def)
qed

lemma write_burst_ok:
  assumes sound: "\<forall>n. \<forall>q \<in> set (ps n). sound_buf q"
  shows "writer_ok clock ps w \<Longrightarrow> pending_write w \<noteq> None \<Longrightarrow>
    \<exists>w' state. write_burst clock xs burst w = Inr (w', state) \<and> writer_ok clock ps w' \<and> state \<noteq> Continue"
proof (induction xs arbitrary: burst w)
  case (Cons x xs)
  obtain p k where pk: "pending_write w = Some (p, k)" using Cons.prems(2) by auto
  obtain state k' c logged where t: "try_write_tun_packet x p k (dropped_count w) = Inr (state, k', c, logged)"
    and k': "k' \<le> buf_len p"
    using try_write_ok [OF writer_ok_sound [OF Cons.prems(1) pk sound]] by blast
  let ?w1 = "w\<lparr>pending_write := Some (p, k'), dropped_count := c\<rparr>"
  have ok1: "writer_ok clock ps ?w1" by (rule writer_ok_progress [OF Cons.prems(1) pk k'])
  have stop: "\<exists>w' state'. Inr (?w1, state) = (Inr (w', state') :: (unit, _) res)
      \<and> writer_ok clock ps w' \<and> state' \<noteq> Continue" if "state \<noteq> Continue"
    using that ok1 by blast
  show ?case
  proof (cases state)
    case Complete
    let ?w2 = "?w1\<lparr>pending_write := None, bytes_down := bytes_down w + buf_len p, handled := handled w @ [(p, True)]\<rparr>"
    have ok2: "writer_ok clock ps ?w2"
      by (rule writer_ok_finish [OF Cons.prems(1) pk, where c = c and whole = True]) simp
    have ok3: "writer_ok clock ps (take_next clock ?w2)"
      by (rule writer_ok_take_next [OF ok2]) simp
    show ?thesis
      using Cons.IH [OF ok3, of "burst + 1"] ok2 ok3 by (simp add: pk t Complete Let_def)
  next
    case Continue
    then show ?thesis using Cons.IH [OF ok1, of burst] by (simp add: pk t)
  qed (use stop in \<open>simp_all add: pk t\<close>)
qed simp

text \<open>A turn that ends the writer, and an answer after which the packet has left the writer: the kernel
  took all of it, took nothing or refused it. No packet is longer than the storage of its buffer.\<close>

definition closes :: "write_answer \<Rightarrow> bool" where
  "closes x = (case x of WriteFails e \<Rightarrow> is_closed_tun_error e | _ \<Rightarrow> False)"

definition stops :: "writer_turn \<Rightarrow> bool" where
  "stops t = (case t of Writable xs \<Rightarrow> list_ex closes xs | _ \<Rightarrow> True)"

definition settles :: "write_answer \<Rightarrow> bool" where
  "settles x =
     (case x of
        Wrote n \<Rightarrow> n = 0 \<or> PACKET_CAPACITY \<le> n
      | WriteBlocks \<Rightarrow> False
      | WriteFails e \<Rightarrow> \<not> is_retryable_tun_error e)"

definition decisive :: "writer_turn \<Rightarrow> bool" where
  "decisive t = (case t of Writable (x # xs) \<Rightarrow> settles x | _ \<Rightarrow> False)"

lemma try_write_settles:
  assumes "sound_buf p" and "written \<le> buf_len p" and "buf_len p \<le> PACKET_CAPACITY"
    and "try_write_tun_packet x p written dropped = Inr (state, written', dropped', logged)"
  shows "state = Closed \<longleftrightarrow> closes x"
    and "settles x \<Longrightarrow> \<not> closes x \<Longrightarrow> state = Complete \<or> state = Dropped"
proof -
  have s: "slice (as_slice p) written (buf_len p) = (Inr (sub_list (as_slice p) written (buf_len p)) :: (unit, bytes) res)"
    using assms(1,2) by (simp add: sound_buf_def)
  have len: "length (sub_list (as_slice p) written (buf_len p)) = buf_len p - written"
    using assms(1,2) by (simp add: sound_buf_def)
  have disjoint: "is_retryable_tun_error e \<Longrightarrow> \<not> is_closed_tun_error e" for e
    by (auto simp: is_retryable_tun_error_def is_closed_tun_error_def)
  show "state = Closed \<longleftrightarrow> closes x"
    using assms(4) disjoint unfolding try_write_tun_packet_def s
    by (auto simp: Let_def log_dropped_packet_def closes_def split: write_answer.splits if_splits)
  show "state = Complete \<or> state = Dropped" if "settles x" "\<not> closes x"
    using assms(2-4) that unfolding try_write_tun_packet_def s
    by (auto simp: Let_def log_dropped_packet_def closes_def settles_def len split: write_answer.splits if_splits)
qed

lemma write_burst_advances:
  assumes sound: "\<forall>n. \<forall>q \<in> set (ps n). sound_buf q \<and> buf_len q \<le> PACKET_CAPACITY"
  shows "writer_ok clock ps w \<Longrightarrow> pending_write w \<noteq> None \<Longrightarrow> write_burst clock xs burst w = Inr (w', state)
    \<Longrightarrow> length (handled w) \<le> length (handled w')
      \<and> (state = Closed \<longrightarrow> list_ex closes xs)
      \<and> (state = Dropped \<longrightarrow> pending_write w' \<noteq> None)
      \<and> (\<forall>y ys. xs = y # ys \<and> settles y \<and> \<not> closes y \<longrightarrow> state = Dropped \<or> length (handled w) < length (handled w'))"
proof (induction xs arbitrary: burst w)
  case Nil
  then show ?case by (auto split: if_splits)
next
  case (Cons x xs)
  obtain p k where pk: "pending_write w = Some (p, k)" using Cons.prems(2) by auto
  have plain: "\<forall>n. \<forall>q \<in> set (ps n). sound_buf q" using sound by blast
  note psound = writer_ok_sound [OF Cons.prems(1) pk plain]
  have "map fst (handled w) @ upcoming clock 1 w = ps (length (handled w) + 1)"
    using Cons.prems(1) by (simp only: writer_ok_def)
  moreover have "p \<in> set (upcoming clock 1 w)" using pk by (simp add: upcoming_def)
  ultimately have "p \<in> set (ps (length (handled w) + 1))" by (metis in_set_conv_decomp append_assoc)
  then have cap: "buf_len p \<le> PACKET_CAPACITY" using sound by blast
  obtain st k' c logged where t: "try_write_tun_packet x p k (dropped_count w) = Inr (st, k', c, logged)"
    and k': "k' \<le> buf_len p"
    using try_write_ok [OF psound] by blast
  note settled = try_write_settles [OF psound cap t]
  let ?w1 = "w\<lparr>pending_write := Some (p, k'), dropped_count := c\<rparr>"
  have ok1: "writer_ok clock ps ?w1" by (rule writer_ok_progress [OF Cons.prems(1) pk k'])
  let ?w2 = "?w1\<lparr>pending_write := None, bytes_down := bytes_down w + buf_len p, handled := handled w @ [(p, True)]\<rparr>"
  have ok2: "writer_ok clock ps ?w2"
    by (rule writer_ok_finish [OF Cons.prems(1) pk, where c = c and whole = True]) simp
  have ok3: "writer_ok clock ps (take_next clock ?w2)" by (rule writer_ok_take_next [OF ok2]) simp
  have grown: "length (handled (take_next clock ?w2)) = length (handled w) + 1"
    using take_next_pulled(2) [of ?w2 clock] by simp
  have run: "write_burst clock (x # xs) burst w =
      (case st of
         Complete \<Rightarrow> if burst + 1 = 64 then Inr (?w2, Complete)
           else if pending_write (take_next clock ?w2) = None then Inr (take_next clock ?w2, Complete)
           else write_burst clock xs (burst + 1) (take_next clock ?w2)
       | Continue \<Rightarrow> write_burst clock xs burst ?w1
       | _ \<Rightarrow> Inr (?w1, st))"
    by (cases st) (simp_all add: pk t Let_def)
  note result = Cons.prems(3) [unfolded run]
  show ?case
  proof (cases st)
    case Complete
    consider "w' = ?w2" "state = Complete" | "w' = take_next clock ?w2" "state = Complete"
      | "write_burst clock xs (burst + 1) (take_next clock ?w2) = Inr (w', state)"
        "pending_write (take_next clock ?w2) \<noteq> None"
      using Cons.prems(3) unfolding run Complete by (auto split: if_splits)
    then show ?thesis
    proof cases
      case 3
      from Cons.IH [OF ok3 3(2) 3(1)] show ?thesis using grown by auto
    qed (use grown in auto)
  next
    case Continue
    then have "write_burst clock xs burst ?w1 = Inr (w', state)" using Cons.prems(3) unfolding run by simp
    from Cons.IH [OF ok1 _ this] show ?thesis using settled(2) Continue by auto
  qed (use result settled in auto)
qed

lemma write_tun_turn_ok:
  assumes sound: "\<forall>n. \<forall>q \<in> set (ps n). sound_buf q \<and> buf_len q \<le> PACKET_CAPACITY"
    and "writer_ok clock ps w"
  shows "\<exists>w' goes_on. write_tun_turn clock t w = Inr (w', goes_on) \<and> writer_ok clock ps w'
    \<and> length (handled w) \<le> length (handled w')
    \<and> (\<not> stops t \<longrightarrow> goes_on)
    \<and> (\<not> stops t \<and> decisive t \<longrightarrow> length (handled w) < length (handled w') \<or> (\<forall>n. upcoming clock n w' = []))"
proof -
  let ?w0 = "if pending_write w = None then take_next clock w else w"
  have ok0: "writer_ok clock ps ?w0" using assms(2) writer_ok_take_next by simp
  have same: "handled ?w0 = handled w" using take_next_pulled(2) [of w clock] by simp
  have plain: "\<forall>n. \<forall>q \<in> set (ps n). sound_buf q" using sound by blast
  consider "pending_write w = None" "t = CancelledIdle"
    | "\<not> (pending_write w = None \<and> t = CancelledIdle)" "pending_write ?w0 = None"
    | p k where "\<not> (pending_write w = None \<and> t = CancelledIdle)" "pending_write ?w0 = Some (p, k)"
    by (metis option.exhaust surj_pair)
  then show ?thesis
  proof cases
    case 1
    then show ?thesis using assms(2) by (auto simp: write_tun_turn_def stops_def)
  next
    case 2
    then have turn: "write_tun_turn clock t w = Inr (?w0, True)"
      unfolding write_tun_turn_def Let_def by (simp only: option.case if_False)
    have "pending_write w = None" using 2(2) by (auto split: if_splits)
    then obtain st where "next_ordered_return_packet clock (incoming w) = (st, None)"
      using 2(2) by (cases "next_ordered_return_packet clock (incoming w)") (auto simp: take_next_def)
    then have "upcoming clock n ?w0 = []" for n
      using 2(2) pulled_None [of clock "incoming w" st n] \<open>pending_write w = None\<close>
      by (simp add: upcoming_def take_next_def)
    then show ?thesis using turn ok0 same by (intro exI [of _ ?w0] exI [of _ True]) auto
  next
    case 3
    show ?thesis
    proof (cases t)
      case (Writable answers)
      obtain w1 state where burst: "write_burst clock answers 0 ?w0 = Inr (w1, state)"
        "writer_ok clock ps w1" "state \<noteq> Continue"
        using write_burst_ok [OF plain ok0, of answers 0] 3(2) by auto
      have adv: "length (handled w) \<le> length (handled w1)" "state = Closed \<longrightarrow> list_ex closes answers"
        "state = Dropped \<longrightarrow> pending_write w1 \<noteq> None"
        "\<forall>y ys. answers = y # ys \<and> settles y \<and> \<not> closes y \<longrightarrow> state = Dropped \<or> length (handled w) < length (handled w1)"
        using write_burst_advances [OF sound ok0 _ burst(1)] 3(2) same by auto
      have turn: "write_tun_turn clock t w =
          (case state of
             Dropped \<Rightarrow>
               (case pending_write w1 of
                  None \<Rightarrow> Inr (w1, True)
                | Some (q, _) \<Rightarrow> Inr (w1\<lparr>pending_write := None, handled := handled w1 @ [(q, False)]\<rparr>, True))
           | Closed \<Rightarrow> Inr (w1, False) | Continue \<Rightarrow> Inl Panic | _ \<Rightarrow> Inr (w1, True))"
        using 3(1)
        by (simp only: write_tun_turn_def Let_def 3(2) option.case prod.case if_False Writable writer_turn.case burst(1) and_then_simps)
      have "writer_ok clock ps (w1\<lparr>pending_write := None, handled := handled w1 @ [(q, False)]\<rparr>)"
        if "pending_write w1 = Some (q, j)" for q j
        by (rule writer_ok_finish [OF burst(2) that, where c = "dropped_count w1" and whole = False]) simp
      then have dropped: ?thesis if "state = Dropped"
        using that adv(1,3) turn by auto
      have go: "decisive t \<and> \<not> stops t \<longrightarrow> state = Dropped \<or> length (handled w) < length (handled w1)"
        using adv(4) by (auto simp: Writable decisive_def stops_def split: list.splits)
      show ?thesis
        using dropped burst(2,3) adv(1,2) go turn
        by (cases state) (auto simp: stops_def Writable)
    qed (use 3 ok0 same in \<open>auto simp: write_tun_turn_def stops_def Let_def\<close>)
  qed
qed

lemma pulled_take: "k \<le> m \<Longrightarrow> pulled clock k st = take k (pulled clock m st)"
proof (induction k arbitrary: m st)
  case (Suc k)
  then obtain m' where "m = Suc m'" "k \<le> m'" by (cases m) auto
  then show ?case using Suc.IH by (simp split: prod.splits option.splits)
qed simp

lemma length_pulled_Suc: "length (pulled clock (Suc k) st) \<le> Suc (length (pulled clock k st))"
proof -
  have "length (pulled clock n st) \<le> n" for n
    by (induction n arbitrary: st) (auto split: prod.splits option.splits)
  from this [of "Suc k"] show ?thesis
    using pulled_take [of k "Suc k" clock st] by (simp del: pulled.simps)
qed

lemma write_tun_ok:
  fixes clock st
  defines "ps \<equiv> \<lambda>n. pulled clock n st"
  assumes sound: "\<forall>n. \<forall>q \<in> set (ps n). sound_buf q \<and> buf_len q \<le> PACKET_CAPACITY"
    and "writer_ok clock ps w" and "length (ps k) \<le> length (handled w)"
  shows "\<exists>w' running. write_tun clock turns w = Inr (w', running) \<and> writer_ok clock ps w'
    \<and> (list_all (\<lambda>t. \<not> stops t) turns \<longrightarrow>
        running \<and> length (ps (k + length (filter decisive turns))) \<le> length (handled w'))"
  using assms(3,4)
proof (induction turns arbitrary: w k)
  case (Cons t turns)
  obtain w1 goes_on where turn: "write_tun_turn clock t w = Inr (w1, goes_on)" and ok1: "writer_ok clock ps w1"
    and grows: "length (handled w) \<le> length (handled w1)" "\<not> stops t \<longrightarrow> goes_on"
      "\<not> stops t \<and> decisive t \<longrightarrow> length (handled w) < length (handled w1) \<or> (\<forall>n. upcoming clock n w1 = [])"
    using write_tun_turn_ok [OF sound Cons.prems(1)] by blast
  have more: "length (ps (Suc k)) \<le> length (handled w1)" if "\<not> stops t" "decisive t"
  proof (cases "length (handled w) < length (handled w1)")
    case True
    then show ?thesis using Cons.prems(2) length_pulled_Suc [of clock k st] by (simp add: ps_def)
  next
    case False
    then have "map fst (handled w1) @ [] = ps (length (handled w1) + Suc k)"
      using grows(3) that ok1 unfolding writer_ok_def by metis
    then have "length (ps (length (handled w1) + Suc k)) = length (handled w1)" by (metis append_Nil2 length_map)
    moreover have "ps (Suc k) = take (Suc k) (ps (length (handled w1) + Suc k))"
      unfolding ps_def by (rule pulled_take) simp
    ultimately show ?thesis by simp
  qed
  have start: "length (ps (k + (if \<not> stops t \<and> decisive t then 1 else 0))) \<le> length (handled w1)"
    using more Cons.prems(2) grows(1) by auto
  show ?case
  proof (cases goes_on)
    case True
    obtain w' running where rest: "write_tun clock turns w1 = Inr (w', running)" "writer_ok clock ps w'"
      "list_all (\<lambda>t. \<not> stops t) turns \<longrightarrow> running
        \<and> length (ps (k + (if \<not> stops t \<and> decisive t then 1 else 0) + length (filter decisive turns))) \<le> length (handled w')"
      using Cons.IH [OF ok1 start] by blast
    have "write_tun clock (t # turns) w = Inr (w', running)" using turn True rest(1) by simp
    then show ?thesis using rest(2,3) by (auto simp: add.assoc)
  next
    case False
    then show ?thesis using turn ok1 grows(2) by auto
  qed
qed auto

text \<open>C16: Whatever the device answers, partial writes, retryable and fatal errors, refused packets, the
  writer never panics; what it has handled, whole or dropped, is exactly what came out of the queues
  first, each packet once and in order; at most the one packet it has in hand is neither handled nor
  still queued, and only that one is lost when it stops; and it counts exactly the bytes of the
  packets it wrote. It stops only when it is cancelled, when waiting for the device fails or when the
  device is closed: in any other life it is still running, and has handled one packet for every turn
  the kernel settled at once, or all there were. So a refused packet never stops the rest.\<close>

theorem tun_writer_exact:
  assumes "\<And>n p. p \<in> set (pulled clock n (reorder_new, rs)) \<Longrightarrow>
      length (as_slice p) = buf_len p \<and> buf_len p \<le> PACKET_CAPACITY"
  shows "\<exists>w running. write_tun clock turns (writer_new rs) = Inr (w, running)
    \<and> (let in_hand = (case pending_write w of None \<Rightarrow> [] | Some (p, _) \<Rightarrow> [p])
       in pulled clock (length (handled w) + length in_hand + n) (reorder_new, rs)
         = map fst (handled w) @ in_hand @ pulled clock n (incoming w))
    \<and> bytes_down w = sum_list (map (\<lambda>(p, whole). if whole then buf_len p else 0) (handled w))
    \<and> (list_all (\<lambda>t. \<not> stops t) turns \<longrightarrow> running
        \<and> (\<exists>later. map fst (handled w) = pulled clock (length (filter decisive turns)) (reorder_new, rs) @ later))"
proof -
  let ?st = "(reorder_new, rs)" and ?k = "length (filter decisive turns)"
  have "writer_ok clock (\<lambda>n. pulled clock n ?st) (writer_new rs)"
    by (simp add: writer_ok_def writer_new_def upcoming_def)
  from write_tun_ok [of clock ?st, OF _ this, of 0 turns]
  obtain w running where run: "write_tun clock turns (writer_new rs) = Inr (w, running)"
    and ok: "writer_ok clock (\<lambda>n. pulled clock n ?st) w"
    and go: "list_all (\<lambda>t. \<not> stops t) turns \<longrightarrow> running \<and> length (pulled clock ?k ?st) \<le> length (handled w)"
    using assms by (auto simp: sound_buf_def)
  have account: "map fst (handled w) @ upcoming clock m w = pulled clock (length (handled w) + m) ?st" for m
    using ok by (simp only: writer_ok_def)
  have "upcoming clock 0 w = []" by (simp add: upcoming_def split: option.split)
  then have done_part: "map fst (handled w) = pulled clock (length (handled w)) ?st" using account [of 0] by simp
  have "\<exists>later. map fst (handled w) = pulled clock ?k ?st @ later" if "length (pulled clock ?k ?st) \<le> length (handled w)"
  proof (cases "?k \<le> length (handled w)")
    case True
    then show ?thesis using done_part pulled_take by (metis append_take_drop_id)
  next
    case False
    then have "map fst (handled w) = take (length (handled w)) (pulled clock ?k ?st)"
      using done_part pulled_take [of "length (handled w)" ?k clock ?st] by simp
    then show ?thesis using that by simp
  qed
  moreover have "let in_hand = (case pending_write w of None \<Rightarrow> [] | Some (p, _) \<Rightarrow> [p])
       in pulled clock (length (handled w) + length in_hand + n) ?st
         = map fst (handled w) @ in_hand @ pulled clock n (incoming w)"
    using account [of n] account [of "Suc n"]
    by (cases "pending_write w") (auto simp: upcoming_def Let_def)
  ultimately show ?thesis using run ok go unfolding writer_ok_def by blast
qed

theorem tun_writer_exact_witness:
  "\<exists>w. write_tun (\<lambda>_. 0) [Writable [WriteFails (OtherErrno 22)], Writable [Wrote 1, Wrote 5]]
       (writer_new (return_packet \<lparr>storage = [1, 2], range_start = 0, range_end = 2\<rparr>
          \<lparr>latency = packet_channel 4 True, priority = packet_channel 4 True, bulk = packet_channel 4 True\<rparr>)) = Inr (w, True)
     \<and> (\<exists>later. map fst (handled w) = [\<lparr>storage = [1, 2], range_start = 0, range_end = 2\<rparr>] @ later)"
proof -
  let ?p = "\<lparr>storage = [1, 2], range_start = 0, range_end = 2\<rparr>"
  let ?q = "packet_channel 4 True :: packet_buf packet_queue"
  let ?rs = "return_packet ?p \<lparr>latency = ?q, priority = ?q, bulk = ?q\<rparr>"
  have small: "class_of (as_slice ?p) = Small"
    by (simp add: class_of_def packet_class_def as_slice_def sub_list_def payload_def header_decode_def
        FRAME_LEN_def internet_transport_def size_class_def SMALL_PACKET_MAX_def Let_def)
  have rs: "?rs = \<lparr>latency = ?q\<lparr>items := [(?p, 0)]\<rparr>, priority = ?q, bulk = ?q\<rparr>"
    unfolding return_packet_def small
    by (simp add: send_inner_def send_stamp_def push_queue_def packet_channel_def)
  have first: "next_return_packet ?rs = (\<lparr>latency = ?q, priority = ?q, bulk = ?q\<rparr>, Some ?p)"
    unfolding rs by (simp add: next_return_packet_def try_recv_def packet_channel_def)
  have push: "reorder_push (\<lambda>_. 0) ?p reorder_new = reorder_new\<lparr>ready := [?p]\<rparr>"
    by (simp add: reorder_push_def header_decode_def as_slice_def sub_list_def FRAME_LEN_def reorder_new_def)
  have one: "next_ordered_return_packet (\<lambda>_. 0) (reorder_new, ?rs) =
      ((reorder_new, \<lparr>latency = ?q, priority = ?q, bulk = ?q\<rparr>), Some ?p)"
    using next_ordered_push [OF _ first, of reorder_new "\<lambda>_. 0"] push
      next_ordered_ready [of "reorder_new\<lparr>ready := [?p]\<rparr>" ?p "[]" "\<lambda>_. 0"]
    by (simp add: reorder_new_def)
  have none: "next_ordered_return_packet (\<lambda>_. 0) (reorder_new, \<lparr>latency = ?q, priority = ?q, bulk = ?q\<rparr>) =
      ((reorder_new, \<lparr>latency = ?q, priority = ?q, bulk = ?q\<rparr>), None)"
    by (rule next_ordered_none) (simp_all add: reorder_new_def next_return_packet_empty packet_channel_def)
  have sound: "\<forall>x \<in> set (pulled (\<lambda>_. 0) n (reorder_new, ?rs)). length (as_slice x) = buf_len x \<and> buf_len x \<le> PACKET_CAPACITY" for n
  proof -
    have "set (pulled (\<lambda>_. 0) n (reorder_new, ?rs)) \<subseteq> {?p}"
    proof (cases n)
      case (Suc m)
      then show ?thesis using one pulled_none [OF none] by simp
    qed simp
    then show ?thesis by (auto simp: as_slice_def sub_list_def buf_len_def PACKET_CAPACITY_def)
  qed
  let ?turns = "[Writable [WriteFails (OtherErrno 22)], Writable [Wrote 1, Wrote 5]]"
  obtain w running where run: "write_tun (\<lambda>_. 0) ?turns (writer_new ?rs) = Inr (w, running)"
    and go: "list_all (\<lambda>t. \<not> stops t) ?turns \<longrightarrow> running
      \<and> (\<exists>later. map fst (handled w) = pulled (\<lambda>_. 0) (length (filter decisive ?turns)) (reorder_new, ?rs) @ later)"
    using tun_writer_exact [where rs = ?rs and clock = "\<lambda>_. 0" and turns = ?turns and n = 0] sound by blast
  have "list_all (\<lambda>t. \<not> stops t) ?turns" and "length (filter decisive ?turns) = 1"
    by (simp_all add: stops_def closes_def is_closed_tun_error_def decisive_def settles_def is_retryable_tun_error_def
        PACKET_CAPACITY_def)
  moreover have "pulled (\<lambda>_. 0) 1 (reorder_new, ?rs) = [?p]" using one by simp
  ultimately show ?thesis using run go by auto
qed

section \<open>Reading\<close>

text \<open>
  The reader owns the sequencer and a scheduler and hands its packets to the queues of the
  workers. A buffer it drops goes back to the pool; one that a queue drops goes back later, in a
  step of its own.
\<close>

datatype read_answer = GotPacket bytes | ReadBlocks | ReadFails errno

datatype read_end = ReaderStops | ReaderWaits

record tun_reader =
  reader_pool :: packet_pool
  sequencer :: flow_sequencer
  dispatching :: "scheduler \<times> packet_buf queue_store"
  bytes_up :: nat
  sent_on :: "packet_buf list"

definition dispatch_packet :: "worker list \<Rightarrow> packet_buf \<Rightarrow> tun_reader \<Rightarrow> tun_reader" where
  "dispatch_packet source p r =
     r\<lparr>dispatching := dispatch_now source (class_of (as_slice p)) p (dispatching r),
       sent_on := sent_on r @ [p]\<rparr>"

text \<open>The body for one packet read: \<open>counted\<close> is what the statistics add.\<close>

definition frame_and_dispatch ::
  "worker list \<Rightarrow> (packet_buf \<Rightarrow> nat) \<Rightarrow> packet_buf \<Rightarrow> tun_reader \<Rightarrow> tun_reader" where
  "frame_and_dispatch source counted p r =
     (case frame_outbound_packet (sequencer r) p of
        (s, q, ok) \<Rightarrow>
          (if ok then dispatch_packet source q (r\<lparr>sequencer := s, bytes_up := bytes_up r + counted q\<rparr>)
           else r\<lparr>sequencer := s, reader_pool := release (reader_pool r) q\<rparr>))"

fun read_burst :: "worker list \<Rightarrow> read_answer list \<Rightarrow> nat \<Rightarrow> tun_reader \<Rightarrow> tun_reader \<times> read_end" where
  "read_burst source [] burst r = (r, ReaderWaits)"
| "read_burst source (x # xs) burst r =
     (if burst \<ge> 32 then (r, ReaderWaits)
      else case try_acquire (reader_pool r) of
        None \<Rightarrow> (r, ReaderWaits)
      | Some (p, pool) \<Rightarrow>
          let give_up = r\<lparr>reader_pool := release pool p\<rparr> in
          (case x of
             ReadBlocks \<Rightarrow> (give_up, ReaderWaits)
           | ReadFails e \<Rightarrow> (give_up, if is_retryable_tun_error e then ReaderWaits else ReaderStops)
           | GotPacket bs \<Rightarrow>
               (if bs = [] then (give_up, ReaderStops)
                else case set_read_len (fill_read_area p bs) (length bs) of
                  Inl _ \<Rightarrow> (give_up, ReaderStops)
                | Inr q \<Rightarrow>
                    read_burst source xs (burst + 1)
                      (frame_and_dispatch source (\<lambda>_. length bs) q (r\<lparr>reader_pool := pool\<rparr>)))))"

text \<open>
  The receive turn of \<^verbatim>\<open>read_udp\<close>: up to 128 buffers are taken, the datagrams fill the first of
  them, the address of the client follows the latest sender, and the rest go back.
\<close>

definition read_udp_turn ::
  "worker list \<Rightarrow> (packet_buf list \<Rightarrow> ((packet_buf \<times> 'a) list \<times> packet_buf list) option) \<Rightarrow>
     'a option \<times> tun_reader \<Rightarrow> 'a option \<times> tun_reader" where
  "read_udp_turn source receive x =
     (let (client, r) = x;
          (batch, pool) = acquire_upto 128 (reader_pool r);
          r = r\<lparr>reader_pool := pool\<rparr> in
      case receive batch of
        None \<Rightarrow> (client, r\<lparr>reader_pool := foldl release (reader_pool r) batch\<rparr>)
      | Some (received, unused) \<Rightarrow>
          (if received = [] then client else Some (snd (last received)),
           (foldl (\<lambda>r (p, _). frame_and_dispatch source buf_len p r) r received)
             \<lparr>reader_pool := foldl release (reader_pool
                (foldl (\<lambda>r (p, _). frame_and_dispatch source buf_len p r) r received)) unused\<rparr>))"

text \<open>
  The two readers do not count alike: for a TCP packet \<^verbatim>\<open>read_udp\<close> counts the frame header too.
\<close>

lemma frame_and_dispatch_counts:
  assumes "wf_buf p" and "FRAME_LEN \<le> range_start p" and "flow_of (as_slice p) \<noteq> None"
  shows "bytes_up (frame_and_dispatch source buf_len p r) = bytes_up r + buf_len p + FRAME_LEN"
proof -
  obtain h s' where "next_frame (sequencer r) (as_slice p) = (Some h, s')"
    using assms(3) by (cases "next_header (sequencer r) (the (flow_of (as_slice p)))") (auto simp: next_frame_def)
  moreover have "prepend p FRAME_LEN = Inr (p\<lparr>range_start := range_start p - FRAME_LEN\<rparr>)"
    using assms(2) by (simp add: prepend_def)
  moreover have "FRAME_LEN \<le> length (sub_list (storage p) (range_start p - FRAME_LEN) (range_start p))"
    using assms(1,2) by (simp add: wf_buf_def)
  ultimately show ?thesis
    using assms(1,2) by (simp add: frame_and_dispatch_def frame_outbound_packet_def header_encode_def
        dispatch_packet_def buf_len_def write_storage_def wf_buf_def)
qed

text \<open>No buffer is lost: what the pool has handed out is what the reader has sent on.\<close>

definition reader_ok :: "tun_reader \<Rightarrow> bool" where
  "reader_ok r = pool_ok (reader_pool r) (sent_on r)"

lemma pool_ok_length: "pool_ok pl xs \<Longrightarrow> length xs = length ys \<Longrightarrow> pool_ok pl ys"
  by (simp add: pool_ok_def)

lemma reader_ok_frame:
  assumes "pool_ok (reader_pool r) (p # sent_on r)"
  shows "reader_ok (frame_and_dispatch source counted p r)"
proof -
  obtain s q ok where f: "frame_outbound_packet (sequencer r) p = (s, q, ok)" by (metis prod_cases3)
  show ?thesis
  proof (cases ok)
    case True
    then show ?thesis
      using pool_ok_length [OF assms, of "sent_on r @ [q]"]
      by (simp add: frame_and_dispatch_def f reader_ok_def dispatch_packet_def)
  next
    case False
    have "pool_ok (reader_pool r) ([] @ q # sent_on r)" using pool_ok_length [OF assms] by simp
    from pool_ok_release [OF this] False show ?thesis
      by (simp add: frame_and_dispatch_def f reader_ok_def)
  qed
qed

lemma reader_ok_acquire:
  assumes "reader_ok r" and "try_acquire (reader_pool r) = Some (p, pool)"
  shows "pool_ok pool (q # sent_on r)" and "reader_ok (r\<lparr>reader_pool := release pool p\<rparr>)"
proof -
  have ok: "pool_ok pool (p # sent_on r)" using assms pool_ok_acquire by (auto simp: reader_ok_def)
  then show "pool_ok pool (q # sent_on r)" by (rule pool_ok_length) simp
  show "reader_ok (r\<lparr>reader_pool := release pool p\<rparr>)"
    using pool_ok_release [of pool "[]" p "sent_on r"] ok by (simp add: reader_ok_def)
qed

lemma read_burst_keeps_buffers: "reader_ok r \<Longrightarrow> reader_ok (fst (read_burst source xs burst r))"
proof (induction xs arbitrary: burst r)
  case (Cons x xs)
  show ?case
  proof (cases "burst \<ge> 32 \<or> try_acquire (reader_pool r) = None")
    case True
    then show ?thesis using Cons.prems by auto
  next
    case False
    then obtain p pool where acq: "try_acquire (reader_pool r) = Some (p, pool)" "\<not> burst \<ge> 32" by auto
    note acquired = reader_ok_acquire [OF Cons.prems acq(1)]
    show ?thesis
    proof (cases x)
      case (GotPacket bs)
      show ?thesis
      proof (cases "bs = [] \<or> \<not> is_ok (set_read_len (fill_read_area p bs) (length bs))")
        case True
        then show ?thesis using acquired(2) acq GotPacket
          by (cases "set_read_len (fill_read_area p bs) (length bs)") (auto simp: Let_def)
      next
        case False
        then obtain q where "set_read_len (fill_read_area p bs) (length bs) = Inr q"
          by (cases "set_read_len (fill_read_area p bs) (length bs)") auto
        then show ?thesis
          using False acq GotPacket Cons.IH [OF reader_ok_frame] acquired(1) by (simp add: Let_def)
      qed
    qed (use acquired(2) acq in auto)
  qed
qed simp

end
