(* ===== verification/Shutdown.thy ===== *)
theory Shutdown
  imports Machine Protocol "HOL-Library.Product_Lexorder" "HOL-Library.Multiset"
begin

text \<open>
  The shutdown coordinator of \<^verbatim>\<open>backend/session.rs\<close>: of all sessions that ask for a disconnect one
  becomes the leader and sends the request over at most two control streams, the most recently
  active first, until a response is seen. Every access to the locked state is one step, and the
  steps of the leader, of the other sessions and of the readers interleave.
\<close>

section \<open>The locked state\<close>

record shutdown_state =
  active :: bool
  completed :: bool
  control :: "(nat \<times> nat) list"
  next_activity :: nat

definition DISCONNECT_CONTROL_ATTEMPTS :: nat where "DISCONNECT_CONTROL_ATTEMPTS = 2"

definition shutdown_new :: shutdown_state where
  "shutdown_new = \<lparr>active = False, completed = False, control = [], next_activity = 1\<rparr>"

text \<open>A stream is its incarnation and the stamp of its last activity.\<close>

definition register_control :: "nat \<Rightarrow> shutdown_state \<Rightarrow> shutdown_state" where
  "register_control i s =
     s\<lparr>next_activity := next_activity s + 1,
       control := (if active s then control s else control s @ [(i, next_activity s)])\<rparr>"

definition mark_activity :: "nat \<Rightarrow> shutdown_state \<Rightarrow> shutdown_state" where
  "mark_activity i s =
     s\<lparr>next_activity := next_activity s + 1,
       control := map (\<lambda>(j, a). if j = i then (j, next_activity s) else (j, a)) (control s)\<rparr>"

definition unregister_control :: "nat \<Rightarrow> shutdown_state \<Rightarrow> shutdown_state" where
  "unregister_control i s = s\<lparr>control := filter (\<lambda>(j, _). j \<noteq> i) (control s)\<rparr>"

text \<open>The first critical section of \<^verbatim>\<open>request_disconnect\<close>: is the caller the leader?\<close>

definition elect_leader :: "shutdown_state \<Rightarrow> shutdown_state \<times> bool" where
  "elect_leader s = (if active s then (s, False) else (s\<lparr>active := True, completed := False\<rparr>, True))"

definition control_streams :: "shutdown_state \<Rightarrow> nat list" where
  "control_streams s = map fst (rev (sort_key (\<lambda>(i, a). (a, i)) (control s)))"

definition complete_shutdown :: "shutdown_state \<Rightarrow> shutdown_state" where
  "complete_shutdown s = (if completed s then s else s\<lparr>completed := True\<rparr>)"

definition observe_control_response :: "bytes \<Rightarrow> shutdown_state \<Rightarrow> shutdown_state \<times> bool" where
  "observe_control_response response s =
     (if response \<noteq> ascii ''OK:disconnected'' \<and> \<not> starts_with response (ascii ''DENIED:'') then (s, False)
      else if \<not> active s \<or> completed s then (s, False)
      else (s\<lparr>completed := True\<rparr>, True))"

section \<open>The leader and the others\<close>

text \<open>
  The leader picks its streams after the election, in a critical section of its own; then every
  attempt looks whether the shutdown is complete, sends, and waits. The look and the send are steps
  of their own, since a response may be recognised between them. \<open>sent_to\<close> and \<open>leaders\<close> are histories.
\<close>

datatype leader =
    NoLeader
  | Picking
  | Attempting "nat list"
  | Sending nat "nat list"
  | Awaiting "nat list"
  | Finished

record shutdown_run =
  locked :: shutdown_state
  leading :: leader
  leaders :: nat
  sent_to :: "nat list"

datatype shutdown_input =
    RegisterIn nat
  | MarkIn nat
  | UnregisterIn nat
  | RequestIn
  | LeaderIn bool
  | ResponseIn bytes

datatype shutdown_output = SendDisconnect nat | Recognised

definition finish_leader :: "shutdown_run \<Rightarrow> shutdown_run" where
  "finish_leader r = r\<lparr>locked := complete_shutdown (locked r), leading := Finished\<rparr>"

text \<open>
  One step of the leader. The flag tells how a send went; after a delivered request the leader
  goes on when the response came or its wait ran out.
\<close>

definition leader_step :: "bool \<Rightarrow> shutdown_run \<Rightarrow> shutdown_run \<times> shutdown_output list" where
  "leader_step delivered r =
     (case leading r of
        NoLeader \<Rightarrow> (r, [])
      | Finished \<Rightarrow> (r, [])
      | Picking \<Rightarrow>
          (r\<lparr>leading := Attempting (take DISCONNECT_CONTROL_ATTEMPTS (control_streams (locked r)))\<rparr>, [])
      | Attempting [] \<Rightarrow> (finish_leader r, [])
      | Attempting (w # ws) \<Rightarrow>
          (if completed (locked r) then (finish_leader r, [])
           else (r\<lparr>leading := Sending w ws\<rparr>, []))
      | Sending w ws \<Rightarrow> (r\<lparr>leading := Awaiting ws, sent_to := sent_to r @ [w]\<rparr>, [SendDisconnect w])
      | Awaiting ws \<Rightarrow>
          (if delivered \<and> completed (locked r) then (finish_leader r, [])
           else (r\<lparr>leading := Attempting ws\<rparr>, [])))"

fun shutdown_step :: "shutdown_run \<Rightarrow> shutdown_input \<Rightarrow> shutdown_run \<times> shutdown_output list" where
  "shutdown_step r (RegisterIn i) = (r\<lparr>locked := register_control i (locked r)\<rparr>, [])"
| "shutdown_step r (MarkIn i) = (r\<lparr>locked := mark_activity i (locked r)\<rparr>, [])"
| "shutdown_step r (UnregisterIn i) = (r\<lparr>locked := unregister_control i (locked r)\<rparr>, [])"
| "shutdown_step r RequestIn =
     (case elect_leader (locked r) of
        (s, False) \<Rightarrow> (r\<lparr>locked := s\<rparr>, [])
      | (s, True) \<Rightarrow> (r\<lparr>locked := s, leading := Picking, leaders := leaders r + 1\<rparr>, []))"
| "shutdown_step r (LeaderIn delivered) = leader_step delivered r"
| "shutdown_step r (ResponseIn b) =
     (case observe_control_response b (locked r) of
        (s, seen) \<Rightarrow> (r\<lparr>locked := s\<rparr>, if seen then [Recognised] else []))"

definition shutdown_init :: shutdown_run where
  "shutdown_init = \<lparr>locked = shutdown_new, leading = NoLeader, leaders = 0, sent_to = []\<rparr>"

section \<open>One leader, two attempts\<close>

text \<open>Attempts made and attempts left are never more than two, and a finished leader has completed.\<close>

definition shutdown_inv :: "shutdown_run \<Rightarrow> bool" where
  "shutdown_inv r =
     (leaders r = (if active (locked r) then 1 else 0)
      \<and> (leading r = NoLeader \<longleftrightarrow> \<not> active (locked r))
      \<and> (case leading r of
           NoLeader \<Rightarrow> sent_to r = [] \<and> \<not> completed (locked r)
         | Picking \<Rightarrow> sent_to r = []
         | Attempting ws \<Rightarrow> length (sent_to r) + length ws \<le> 2
         | Sending w ws \<Rightarrow> length (sent_to r) + 1 + length ws \<le> 2
         | Awaiting ws \<Rightarrow> length (sent_to r) + length ws \<le> 2
         | Finished \<Rightarrow> length (sent_to r) \<le> 2 \<and> completed (locked r)))"

lemma control_ops [simp]:
  "active (register_control i s) = active s" "completed (register_control i s) = completed s"
  "active (mark_activity i s) = active s" "completed (mark_activity i s) = completed s"
  "active (unregister_control i s) = active s" "completed (unregister_control i s) = completed s"
  "active (complete_shutdown s) = active s" "completed (complete_shutdown s)"
  by (simp_all add: register_control_def mark_activity_def unregister_control_def complete_shutdown_def)

lemma observe_active: "observe_control_response b s = (s', seen) \<Longrightarrow>
    active s' = active s \<and> (completed s \<longrightarrow> completed s') \<and> (completed s' \<longrightarrow> active s \<or> completed s)"
  by (auto simp: observe_control_response_def split: if_splits)

lemma leader_step_inv: "shutdown_inv r \<Longrightarrow> shutdown_inv (fst (leader_step delivered r))"
  by (cases "leading r")
    (auto simp: leader_step_def shutdown_inv_def finish_leader_def DISCONNECT_CONTROL_ATTEMPTS_def
      split: list.splits)

lemma shutdown_step_inv: "shutdown_inv r \<Longrightarrow> shutdown_inv (fst (shutdown_step r l))"
proof (cases l)
  case RequestIn
  assume "shutdown_inv r"
  then show ?thesis by (cases "active (locked r)") (auto simp: RequestIn shutdown_inv_def elect_leader_def)
next
  case (ResponseIn b)
  assume inv: "shutdown_inv r"
  obtain s seen where o: "observe_control_response b (locked r) = (s, seen)" by fastforce
  show ?thesis
    using inv observe_active [OF o] by (cases "leading r") (auto simp: ResponseIn o shutdown_inv_def)
next
  case (LeaderIn d)
  assume "shutdown_inv r"
  then show ?thesis by (simp add: LeaderIn leader_step_inv)
qed (auto simp: shutdown_inv_def split: leader.splits)

interpretation shutdown: machine shutdown_step shutdown_inv "\<lambda>_. True"
  by unfold_locales (simp_all add: shutdown_step_inv list_all_iff)

lemma shutdown_inv_init: "shutdown_inv shutdown_init"
  by (simp add: shutdown_inv_def shutdown_init_def shutdown_new_def)

text \<open>The order of the streams: by activity, the latest first.\<close>

lemma control_streams_order:
  "\<exists>ks. control_streams s = map fst ks \<and> mset ks = mset (control s)
    \<and> sorted_wrt (\<lambda>x y. snd y \<le> snd x) ks"
proof -
  let ?ks = "rev (sort_key (\<lambda>(i, a). (a, i)) (control s))"
  have "sorted_wrt (\<lambda>x y. (\<lambda>(i, a). (a, i)) x \<le> (\<lambda>(i, a). (a, i)) y) (sort_key (\<lambda>(i, a). (a, i)) (control s))"
    using sorted_sort_key [of "\<lambda>(i, a). (a, i)" "control s"] by (simp add: sorted_wrt_map)
  then have "sorted_wrt (\<lambda>x y. snd x \<le> snd y) (sort_key (\<lambda>(i, a). (a, i)) (control s))"
    by (rule sorted_wrt_mono_rel [rotated]) (auto simp: less_eq_prod_def)
  then have "sorted_wrt (\<lambda>x y. snd y \<le> snd x) ?ks" by (simp add: sorted_wrt_rev)
  moreover have "mset ?ks = mset (control s)" by simp
  ultimately show ?thesis by (intro exI [of _ ?ks]) (simp add: control_streams_def)
qed

text \<open>Once the shutdown is complete, only an attempt whose look came before may still send.\<close>

fun underway :: "leader \<Rightarrow> nat" where
  "underway (Sending w ws) = 1"
| "underway _ = 0"

fun is_send :: "shutdown_output \<Rightarrow> bool" where
  "is_send (SendDisconnect w) \<longleftrightarrow> True"
| "is_send Recognised \<longleftrightarrow> False"

lemma complete_step:
  assumes "completed (locked r)" and "active (locked r)"
  shows "completed (locked (fst (shutdown_step r input))) \<and> active (locked (fst (shutdown_step r input)))
    \<and> length (filter is_send (snd (shutdown_step r input))) + underway (leading (fst (shutdown_step r input)))
       \<le> underway (leading r)"
proof (cases input)
  case (LeaderIn delivered)
  then show ?thesis
    using assms by (cases "leading r") (auto simp: leader_step_def finish_leader_def split: list.splits)
next
  case (ResponseIn b)
  then show ?thesis using assms by (simp add: observe_control_response_def)
qed (use assms in \<open>simp_all add: elect_leader_def\<close>)

lemma complete_run:
  assumes "completed (locked r)" and "active (locked r)"
  shows "length (filter is_send (snd (run shutdown_step r later))) \<le> underway (leading r)"
  using assms
proof (induction later arbitrary: r)
  case (Cons input later)
  obtain r1 o1 where step: "shutdown_step r input = (r1, o1)" by fastforce
  obtain r2 o2 where rest: "run shutdown_step r1 later = (r2, o2)" by fastforce
  show ?case
    using complete_step [OF Cons.prems, of input] Cons.IH [of r1] by (simp add: step rest)
qed simp

lemma complete_leader_ends:
  assumes "completed (locked r)" and "leading r \<noteq> NoLeader" and "leading r \<noteq> Picking"
  shows "leading (fst (leader_step d3 (fst (leader_step d2 (fst (leader_step d1 r)))))) = Finished"
  using assms
  by (cases "leading r") (auto simp: leader_step_def finish_leader_def split: list.splits)

text \<open>C22: However requests, sends, responses and changes of the streams interleave, at most one
  session becomes the leader, the disconnect is sent at most twice, over the streams most recently
  active when the leader looked, and a leader that is done leaves the shutdown complete. After a
  response was recognised no attempt begins: over any continuation at most one request is sent, the
  one of an attempt that had looked before and was about to send; and once the leader has its streams,
  three more steps of its own end it.\<close>

theorem shutdown_two_attempts:
  assumes "run shutdown_step shutdown_init inputs = (r, outputs)"
  shows "leaders r \<le> 1 \<and> length (sent_to r) \<le> 2
    \<and> (leading r = Finished \<longrightarrow> completed (locked r))
    \<and> (completed (locked r) \<longrightarrow>
         length (filter is_send (snd (run shutdown_step r later))) \<le> underway (leading r)
         \<and> (leading r \<noteq> Picking \<longrightarrow>
              leading (fst (leader_step d3 (fst (leader_step d2 (fst (leader_step d r)))))) = Finished))
    \<and> (leading r = Picking \<longrightarrow>
         leading (fst (shutdown_step r (LeaderIn d))) = Attempting (take 2 (control_streams (locked r))))
    \<and> (\<exists>ks. control_streams (locked r) = map fst ks \<and> mset ks = mset (control (locked r))
         \<and> sorted_wrt (\<lambda>x y. snd y \<le> snd x) ks)"
proof -
  have inv: "shutdown_inv r" using shutdown.run_inv [OF shutdown_inv_init, of inputs] assms by simp
  have led: "leading r \<noteq> NoLeader \<and> active (locked r)" if "completed (locked r)"
    using inv that by (cases "leading r") (auto simp: shutdown_inv_def)
  have "leaders r \<le> 1" "leading r = Finished \<longrightarrow> completed (locked r)"
    using inv by (auto simp: shutdown_inv_def)
  moreover have "length (sent_to r) \<le> 2"
    using inv by (cases "leading r") (auto simp: shutdown_inv_def)
  moreover have "leading r = Picking \<longrightarrow>
      leading (fst (shutdown_step r (LeaderIn d))) = Attempting (take 2 (control_streams (locked r)))"
    by (simp add: leader_step_def DISCONNECT_CONTROL_ATTEMPTS_def)
  ultimately show ?thesis
    using led complete_run [of r later] complete_leader_ends [of r d3 d2 d] control_streams_order [of "locked r"] by blast
qed

text \<open>Both attempts fail, and the second sends although the response came after its look.\<close>

theorem shutdown_two_attempts_witness:
  "let (r, outputs) = run shutdown_step shutdown_init
      ([RegisterIn 1, RegisterIn 2, MarkIn 1, RequestIn, RequestIn] @ replicate 5 (LeaderIn False)
        @ [ResponseIn (ascii ''OK:disconnected'')])
   in outputs = [SendDisconnect 1, Recognised] \<and> leading r = Sending 2 []
     \<and> length (filter is_send (snd (run shutdown_step r (replicate 9 (LeaderIn True))))) \<le> 1"
proof -
  let ?ls = "[RegisterIn 1, RegisterIn 2, MarkIn 1, RequestIn, RequestIn] @ replicate 5 (LeaderIn False)
        @ [ResponseIn (ascii ''OK:disconnected'')]"
  obtain r os where run: "run shutdown_step shutdown_init ?ls = (r, os)" by fastforce
  have "case run shutdown_step shutdown_init ?ls of (r, os) \<Rightarrow>
      os = [SendDisconnect 1, Recognised] \<and> leading r = Sending 2 [] \<and> completed (locked r)"
    by code_simp
  then have "os = [SendDisconnect 1, Recognised]" "leading r = Sending 2 []" "completed (locked r)"
    unfolding run by simp_all
  moreover have "length (filter is_send (snd (run shutdown_step r (replicate 9 (LeaderIn True))))) \<le> underway (leading r)"
    using shutdown_two_attempts [OF run] calculation(3) by blast
  ultimately show ?thesis unfolding run by simp
qed

end
