(* ===== verification/SessionTransport.thy ===== *)
theory SessionTransport
  imports Obfs Replay SelectiveFec
begin

text \<open>
  The two ends of a session's transport in \<^verbatim>\<open>backend/session.rs\<close>: \<^verbatim>\<open>TransportWriter\<close>, which
  decides about duplicates, encrypts and hands packets to the TURN allocation singly or in batches,
  and \<^verbatim>\<open>TransportReader\<close>, which accepts authentic packets that were not seen before.
\<close>

section \<open>The writer\<close>

text \<open>
  Parameters: the ciphers, the draws of the n-th packet, the time of the n-th question to the
  duplication budget, and whether the n-th call of the allocation succeeds.
\<close>

record transport_env =
  ciphers :: cipher_env
  draws :: "nat \<Rightarrow> obfs_draws"
  budget_clock :: "nat \<Rightarrow> nat"
  network :: "nat \<Rightarrow> bool"

datatype session_error =
    WrapError obfs_error
  | AllocationError
  | PacketBudgetExhausted
  | PayloadTooLarge nat
  | ReadLenError packet_error

datatype sent = SentOne packet_buf bool | SentBatch "packet_buf list"

text \<open>\<open>prepared\<close> counts the packets prepared; \<open>sent_log\<close> is the history of the calls that succeeded.\<close>

record transport_writer =
  write_state :: obfs_state
  fec_budget :: budget
  pending_data :: "packet_buf list"
  mmsg_data :: "packet_buf list"
  prepared :: nat
  sent_log :: "sent list"

definition WRITER_BULK_BATCH_LIMIT :: nat where "WRITER_BULK_BATCH_LIMIT = 128"

definition writer_start :: "obfs_state \<Rightarrow> nat \<Rightarrow> transport_writer" where
  "writer_start st now =
     \<lparr>write_state = st, fec_budget = budget_new now, pending_data = [], mmsg_data = [], prepared = 0,
      sent_log = []\<rparr>"

definition of_obfs :: "(obfs_error, 'a) res \<Rightarrow> (session_error, 'a) res" where
  "of_obfs r = (case r of Inl (Fail e) \<Rightarrow> Inl (Fail (WrapError e)) | Inl Panic \<Rightarrow> Inl Panic | Inr x \<Rightarrow> Inr x)"

lemma of_obfs_simps [simp]:
  "of_obfs (Inr x) = Inr x" "of_obfs (Inl (Fail e)) = Inl (Fail (WrapError e))"
  by (simp_all add: of_obfs_def)

text \<open>The budget is asked only for packets worth a duplicate.\<close>

definition duplicate_decision :: "transport_env \<Rightarrow> bytes \<Rightarrow> transport_writer \<Rightarrow> budget \<times> bool" where
  "duplicate_decision env frame w =
     (case should_duplicate frame of
        Inr True \<Rightarrow>
          (let (ok, b) = allow (budget_clock env (prepared w)) (fec_budget w) in (b, ok))
      | _ \<Rightarrow> (fec_budget w, False))"

definition prepare_packet ::
  "transport_env \<Rightarrow> obfs_config \<Rightarrow> packet_buf \<Rightarrow> transport_writer \<Rightarrow>
     transport_writer \<times> (session_error, packet_buf \<times> bool) res" where
  "prepare_packet env c p w =
     (case duplicate_decision env (as_slice p) w of
        (b, dup) \<Rightarrow>
          (case obfs_wrap (ciphers env) c (draws env (prepared w)) (write_state w) p of
             (st, r) \<Rightarrow>
               (w\<lparr>write_state := st, fec_budget := b, prepared := prepared w + 1\<rparr>,
                and_then (of_obfs r) (\<lambda>q. Inr (q, dup)))))"

definition allocation_send ::
  "transport_env \<Rightarrow> sent \<Rightarrow> transport_writer \<Rightarrow> transport_writer \<times> (session_error, unit) res" where
  "allocation_send env x w =
     (if network env (length (sent_log w)) then (w\<lparr>sent_log := sent_log w @ [x]\<rparr>, Inr ())
      else (w, Inl (Fail AllocationError)))"

definition send_packet ::
  "transport_env \<Rightarrow> obfs_config \<Rightarrow> packet_buf \<Rightarrow> transport_writer \<Rightarrow>
     transport_writer \<times> (session_error, unit) res" where
  "send_packet env c p w =
     (case prepare_packet env c p w of
        (w', Inl e) \<Rightarrow> (w', Inl e)
      | (w', Inr (q, dup)) \<Rightarrow> allocation_send env (SentOne q dup) w')"

definition queue_data :: "packet_buf \<Rightarrow> transport_writer \<Rightarrow> transport_writer" where
  "queue_data p w = w\<lparr>pending_data := pending_data w @ [p]\<rparr>"

definition flush_mmsg_data ::
  "transport_env \<Rightarrow> transport_writer \<Rightarrow> transport_writer \<times> (session_error, unit) res" where
  "flush_mmsg_data env w =
     (if mmsg_data w = [] then (w, Inr ())
      else case allocation_send env (SentBatch (mmsg_data w)) w of
        (w', Inl e) \<Rightarrow> (w', Inl e)
      | (w', Inr _) \<Rightarrow> (w'\<lparr>mmsg_data := []\<rparr>, Inr ()))"

text \<open>The loop of \<^verbatim>\<open>flush_queued_data\<close> over the queued packets.\<close>

fun flush_from ::
  "transport_env \<Rightarrow> obfs_config \<Rightarrow> packet_buf list \<Rightarrow> transport_writer \<Rightarrow>
     transport_writer \<times> (session_error, unit) res" where
  "flush_from env c [] w = flush_mmsg_data env (w\<lparr>pending_data := []\<rparr>)"
| "flush_from env c (p # ps) w =
     (case prepare_packet env c p (w\<lparr>pending_data := ps\<rparr>) of
        (w1, Inl e) \<Rightarrow> (w1, Inl e)
      | (w1, Inr (q, dup)) \<Rightarrow>
          if dup then
            (case flush_mmsg_data env w1 of
               (w2, Inl e) \<Rightarrow> (w2, Inl e)
             | (w2, Inr _) \<Rightarrow>
                 (case allocation_send env (SentOne q True) w2 of
                    (w3, Inl e) \<Rightarrow> (w3, Inl e)
                  | (w3, Inr _) \<Rightarrow> flush_from env c ps w3))
          else
            (let w2 = w1\<lparr>mmsg_data := mmsg_data w1 @ [q]\<rparr> in
             if length (mmsg_data w2) = WRITER_BULK_BATCH_LIMIT then
               (case flush_mmsg_data env w2 of
                  (w3, Inl e) \<Rightarrow> (w3, Inl e)
                | (w3, Inr _) \<Rightarrow> flush_from env c ps w3)
             else flush_from env c ps w2))"

definition flush_queued_data ::
  "transport_env \<Rightarrow> obfs_config \<Rightarrow> transport_writer \<Rightarrow> transport_writer \<times> (session_error, unit) res" where
  "flush_queued_data env c w =
     (case pending_data w of
        [p] \<Rightarrow> send_packet env c p (w\<lparr>pending_data := []\<rparr>)
      | ps \<Rightarrow> flush_from env c ps w)"

text \<open>Control messages are copied into a buffer of the pool.\<close>

definition send_bytes ::
  "transport_env \<Rightarrow> obfs_config \<Rightarrow> bytes \<Rightarrow> packet_pool \<Rightarrow> transport_writer \<Rightarrow>
     transport_writer \<times> (session_error, unit) res" where
  "send_bytes env c data pool w =
     (case try_acquire pool of
        None \<Rightarrow> (w, Inl (Fail PacketBudgetExhausted))
      | Some (p, _) \<Rightarrow>
          if length data > PACKET_CAPACITY - PACKET_HEADROOM then (w, Inl (Fail (PayloadTooLarge (length data))))
          else case set_read_len (fill_read_area p data) (length data) of
            Inl Panic \<Rightarrow> (w, Inl Panic)
          | Inl (Fail e) \<Rightarrow> (w, Inl (Fail (ReadLenError e)))
          | Inr q \<Rightarrow> send_packet env c q w)"

section \<open>The reader\<close>

definition authenticate_inbound ::
  "cipher_env \<Rightarrow> obfs_mode \<Rightarrow> packet_buf \<Rightarrow> replay_window \<Rightarrow> replay_window \<times> packet_buf option" where
  "authenticate_inbound E mode p rep =
     (if \<not> is_rtp_packet (as_slice p) then (rep, None)
      else case obfs_unwrap E mode p of
        Inl _ \<Rightarrow> (rep, None)
      | Inr (x, s) \<Rightarrow> (let (rep', ok) = accept_rtp rep s in (rep', if ok then Some x else None)))"

text \<open>\<^verbatim>\<open>recv\<close>: the next accepted packet of those that arrive.\<close>

fun transport_recv ::
  "cipher_env \<Rightarrow> obfs_mode \<Rightarrow> packet_buf list \<Rightarrow> replay_window \<Rightarrow>
     packet_buf list \<times> replay_window \<times> packet_buf option" where
  "transport_recv E mode [] rep = ([], rep, None)"
| "transport_recv E mode (p # ps) rep =
     (case authenticate_inbound E mode p rep of
        (rep', Some x) \<Rightarrow> (ps, rep', Some x)
      | (rep', None) \<Rightarrow> transport_recv E mode ps rep')"

text \<open>All packets a reader delivers.\<close>

fun receive_all :: "cipher_env \<Rightarrow> obfs_mode \<Rightarrow> packet_buf list \<Rightarrow> replay_window \<Rightarrow> packet_buf list" where
  "receive_all E mode [] rep = []"
| "receive_all E mode (p # ps) rep =
     (case authenticate_inbound E mode p rep of
        (rep', Some x) \<Rightarrow> x # receive_all E mode ps rep'
      | (rep', None) \<Rightarrow> receive_all E mode ps rep')"

lemma receive_all_recv:
  "receive_all E mode ps rep =
    (case transport_recv E mode ps rep of
       (_, _, None) \<Rightarrow> []
     | (rest, rep', Some x) \<Rightarrow> x # receive_all E mode rest rep')"
  by (induction ps arbitrary: rep) (auto split: prod.splits option.splits)

section \<open>From writer to reader\<close>

text \<open>What the calls put on the wire, a duplicate being two packets.\<close>

definition wire_of :: "sent \<Rightarrow> packet_buf list" where
  "wire_of x = (case x of SentOne q dup \<Rightarrow> if dup then [q, q] else [q] | SentBatch qs \<Rightarrow> qs)"

definition wire :: "transport_writer \<Rightarrow> packet_buf list" where
  "wire w = concat (map wire_of (sent_log w))"

text \<open>A packet on the wire carries a payload under a number, and a run of packets carries a list.\<close>

definition carries_one :: "cipher_env \<Rightarrow> obfs_mode \<Rightarrow> nat \<Rightarrow> packet_buf \<Rightarrow> packet_buf \<Rightarrow> bool" where
  "carries_one E mode k p q =
     (is_rtp_packet (as_slice q)
      \<and> (\<exists>x. obfs_unwrap E mode q = Inr (x, of_nat k) \<and> as_slice x = as_slice p))"

fun carries :: "cipher_env \<Rightarrow> obfs_mode \<Rightarrow> nat \<Rightarrow> packet_buf list \<Rightarrow> packet_buf list \<Rightarrow> bool" where
  "carries E mode k [] qs = (qs = [])"
| "carries E mode k (p # ps) qs =
     (\<exists>q dup rest. qs = (if dup then [q, q] else [q]) @ rest \<and> carries_one E mode k p q
        \<and> carries E mode (Suc k) ps rest)"

definition sendable :: "packet_buf \<Rightarrow> bool" where
  "sendable p = (wf_buf p \<and> as_slice p \<noteq> [] \<and> 24 \<le> range_start p \<and> range_end p + 70 \<le> PACKET_CAPACITY)"

definition numbered_from :: "nat \<Rightarrow> obfs_state \<Rightarrow> bool" where
  "numbered_from k st = (initial_seq st + ucast (obfs_state.count st) = (of_nat k :: u16))"

lemma ucast_u64_Suc: "(ucast (x + 1 :: u64) :: u16) = ucast x + 1"
proof (transfer, goal_cases)
  case (1 x)
  have inner: "take_bit 16 (take_bit 64 x) = take_bit 16 x" by simp
  have "take_bit 16 (take_bit 64 x + 1) = take_bit 16 (take_bit 16 (take_bit 64 x) + take_bit 16 1)"
    by (rule take_bit_add [symmetric])
  also have "\<dots> = take_bit 16 (x + 1)" unfolding inner by (rule take_bit_add)
  finally show ?case by simp
qed

lemma numbered_next: "numbered_from k st \<Longrightarrow> numbered_from (Suc k) (fst (obfs_next st))"
  using ucast_u64_Suc [of "obfs_state.count st"] by (simp add: numbered_from_def obfs_next_def algebra_simps)

lemma prepare_sendable:
  assumes "ciphers_ok (ciphers env)" and "sendable p"
    and "\<And>n. draws_ok (obfs_config_new mode source) (draws env n)" and "numbered_from k (write_state w)"
  obtains w' q dup where "prepare_packet env (obfs_config_new mode source) p w = (w', Inr (q, dup))"
    and "carries_one (ciphers env) mode k p q" and "numbered_from (Suc k) (write_state w')"
    and "mmsg_data w' = mmsg_data w" and "sent_log w' = sent_log w"
proof -
  let ?c = "obfs_config_new mode source" and ?st = "write_state w"
  obtain b dup where d: "duplicate_decision env (as_slice p) w = (b, dup)" by fastforce
  obtain q x where q: "obfs_wrap (ciphers env) ?c (draws env (prepared w)) ?st p = (fst (obfs_next ?st), Inr q)"
    "is_rtp_packet (as_slice q)" "obfs_unwrap (ciphers env) mode q = Inr (x, initial_seq ?st + ucast (obfs_state.count ?st))"
    "as_slice x = as_slice p"
    using wrap_unwrap [OF assms(1), of p mode source "draws env (prepared w)" ?st] assms(2,3)
    by (auto simp: sendable_def)
  have "carries_one (ciphers env) mode k p q"
    using q assms(4) by (simp add: carries_one_def numbered_from_def)
  moreover have "numbered_from (Suc k) (fst (obfs_next ?st))" by (rule numbered_next [OF assms(4)])
  ultimately show ?thesis using that d q(1) by (simp add: prepare_packet_def)
qed

lemma allocation_send_ok:
  assumes "\<And>n. network env n"
  shows "allocation_send env x w = (w\<lparr>sent_log := sent_log w @ [x]\<rparr>, Inr ())"
  using assms by (simp add: allocation_send_def)

lemma flush_mmsg_ok:
  assumes "\<And>n. network env n"
  obtains w' where "flush_mmsg_data env w = (w', Inr ())" and "mmsg_data w' = []"
    and "wire w' = wire w @ mmsg_data w" and "write_state w' = write_state w"
  using that by (cases "mmsg_data w = []")
    (auto simp: flush_mmsg_data_def allocation_send_ok [OF assms] wire_def wire_of_def)

lemma wire_simps [simp]:
  "wire (w\<lparr>pending_data := ps\<rparr>) = wire w" "wire (w\<lparr>mmsg_data := qs\<rparr>) = wire w"
  "wire (w\<lparr>sent_log := sent_log w @ [x]\<rparr>) = wire w @ wire_of x"
  by (simp_all add: wire_def)

lemma flush_from_carries:
  assumes "ciphers_ok (ciphers env)" and "\<And>n. network env n"
    and "\<And>n. draws_ok (obfs_config_new mode source) (draws env n)"
  shows "\<forall>p \<in> set ps. sendable p \<Longrightarrow> numbered_from k (write_state w) \<Longrightarrow>
    \<exists>w' rest. flush_from env (obfs_config_new mode source) ps w = (w', Inr ())
      \<and> wire w' = wire w @ mmsg_data w @ rest \<and> carries (ciphers env) mode k ps rest"
proof (induction ps arbitrary: k w)
  case Nil
  obtain w' where "flush_mmsg_data env (w\<lparr>pending_data := []\<rparr>) = (w', Inr ())"
    "wire w' = wire w @ mmsg_data w"
    by (rule flush_mmsg_ok [OF assms(2), where w = "w\<lparr>pending_data := []\<rparr>"]) simp
  then show ?case by simp
next
  case (Cons p ps)
  let ?c = "obfs_config_new mode source"
  obtain w1 q dup where p: "prepare_packet env ?c p (w\<lparr>pending_data := ps\<rparr>) = (w1, Inr (q, dup))"
    "carries_one (ciphers env) mode k p q" "numbered_from (Suc k) (write_state w1)"
    "mmsg_data w1 = mmsg_data w" "sent_log w1 = sent_log w"
    by (rule prepare_sendable [OF assms(1) _ assms(3), of p k "w\<lparr>pending_data := ps\<rparr>"])
      (use Cons.prems in auto)
  have wire1: "wire w1 = wire w" using p(5) by (simp add: wire_def)
  note IH = Cons.IH [of "Suc k"]
  have sendable: "\<forall>p \<in> set ps. sendable p" using Cons.prems(1) by simp
  show ?case
  proof (cases dup)
    case True
    obtain w2 where w2: "flush_mmsg_data env w1 = (w2, Inr ())" "mmsg_data w2 = []"
      "wire w2 = wire w1 @ mmsg_data w1" "write_state w2 = write_state w1"
      by (rule flush_mmsg_ok [OF assms(2)])
    let ?w3 = "w2\<lparr>sent_log := sent_log w2 @ [SentOne q True]\<rparr>"
    obtain w' rest where r: "flush_from env ?c ps ?w3 = (w', Inr ())" "wire w' = wire ?w3 @ rest"
      "carries (ciphers env) mode (Suc k) ps rest"
      using IH [of ?w3, OF sendable] p(3) w2(2,4) by auto
    have "flush_from env ?c (p # ps) w = (w', Inr ())"
      using p(1) True w2(1) r(1) by (simp add: allocation_send_ok [OF assms(2)])
    moreover have "wire w' = wire w @ mmsg_data w @ ([q, q] @ rest)"
      using r(2) w2(3) wire1 p(4) by (simp add: wire_of_def)
    moreover have "carries (ciphers env) mode k (p # ps) ([q, q] @ rest)"
      using p(2) r(3) by (auto intro!: exI [of _ q] exI [of _ True])
    ultimately show ?thesis by blast
  next
    case False
    let ?w2 = "w1\<lparr>mmsg_data := mmsg_data w1 @ [q]\<rparr>"
    have goal: ?thesis if v: "flush_from env ?c (p # ps) w = flush_from env ?c ps v"
      "wire v @ mmsg_data v = wire w @ mmsg_data w @ [q]" "write_state v = write_state w1" for v
    proof -
      obtain w' rest where r: "flush_from env ?c ps v = (w', Inr ())" "wire w' = wire v @ mmsg_data v @ rest"
        "carries (ciphers env) mode (Suc k) ps rest"
        using IH [of v, OF sendable] p(3) v(3) by auto
      have "carries (ciphers env) mode k (p # ps) (q # rest)"
        using p(2) r(3) by (auto intro!: exI [of _ q] exI [of _ False])
      moreover have "wire w' = wire w @ mmsg_data w @ (q # rest)"
        using r(2) v(2) by (metis append.assoc append_Cons append_Nil)
      ultimately show ?thesis using r(1) v(1) by auto
    qed
    show ?thesis
    proof (cases "length (mmsg_data ?w2) = WRITER_BULK_BATCH_LIMIT")
      case full: True
      obtain w3 where "flush_mmsg_data env ?w2 = (w3, Inr ())" "mmsg_data w3 = []"
        "wire w3 = wire ?w2 @ mmsg_data ?w2" "write_state w3 = write_state ?w2"
        by (rule flush_mmsg_ok [OF assms(2)])
      then show ?thesis using goal [of w3] p(1,4) False full wire1 by simp
    next
      case short: False
      then show ?thesis using goal [of ?w2] p(1,4) False wire1 by simp
    qed
  qed
qed

lemma receive_carries:
  assumes "carries E mode k ps qs" and "expects k rep" and "k + length ps \<le> 2 ^ 62"
  shows "map as_slice (receive_all E mode qs rep) = map as_slice ps"
  using assms
proof (induction ps arbitrary: k qs rep)
  case (Cons p ps)
  obtain q dup rest where q: "qs = (if dup then [q, q] else [q]) @ rest" "carries_one E mode k p q"
    "carries E mode (Suc k) ps rest" using Cons.prems(1) by auto
  obtain x where x: "is_rtp_packet (as_slice q)" "obfs_unwrap E mode q = Inr (x, of_nat k)"
    "as_slice x = as_slice p" using q(2) by (auto simp: carries_one_def)
  have "k < 2 ^ 62" using Cons.prems(3) by simp
  from expects_step [OF Cons.prems(2) this] obtain rep1 rep2 where
    a: "accept_rtp rep (of_nat k) = (rep1, True)" "expects (Suc k) rep1"
    "accept_rtp rep1 (of_nat k) = (rep2, False)" "expects (Suc k) rep2" by (metis prod.collapse)
  have rest: "map as_slice (receive_all E mode rest v) = map as_slice ps" if "expects (Suc k) v" for v
    using Cons.IH [OF q(3) that] Cons.prems(3) by simp
  show ?case
    using a x rest [OF a(2)] rest [OF a(4)] by (cases dup) (simp_all add: q(1) authenticate_inbound_def)
qed simp

text \<open>C20: Whatever a session queues and flushes, with any mix of single packets, batches and
  duplicates, reaches the reader of the other side exactly once, byte for byte and in order, when
  the network delivers what it is given: the duplicates are recognised as replays, in either mode
  and across every wrap of the 16-bit sequence number.\<close>

theorem session_transport_exactly_once:
  assumes "ciphers_ok (ciphers env)" and "\<And>n. network env n"
    and "\<And>n. draws_ok (obfs_config_new mode source) (draws env n)"
    and "\<And>p. p \<in> set ps \<Longrightarrow> sendable p" and "length ps \<le> 2 ^ 61"
  shows "\<exists>w. flush_from env (obfs_config_new mode source) ps (writer_start st now) = (w, Inr ())
    \<and> map as_slice (receive_all (ciphers env) mode (wire w) replay_new) = map as_slice ps"
proof -
  let ?k = "unat (initial_seq st + ucast (obfs_state.count st))"
  have "numbered_from ?k (write_state (writer_start st now))"
    by (simp add: numbered_from_def writer_start_def)
  from flush_from_carries [OF assms(1-3) _ this] assms(4)
  obtain w rest where w: "flush_from env (obfs_config_new mode source) ps (writer_start st now) = (w, Inr ())"
    "wire w = wire (writer_start st now) @ mmsg_data (writer_start st now) @ rest"
    "carries (ciphers env) mode ?k ps rest" by blast
  have "wire w = rest" using w(2) by (simp add: writer_start_def wire_def)
  moreover have "?k < 2 ^ 16" using unsigned_less [of "initial_seq st + ucast (obfs_state.count st)"] by simp
  ultimately show ?thesis
    using w(1) receive_carries [OF w(3) expects_first] assms(5) by fastforce
qed

theorem session_transport_exactly_once_witness:
  "let p = \<lparr>storage = replicate 2304 7, range_start = 64, range_end = 164\<rparr>;
     env = \<lparr>ciphers = demo_ciphers, draws = \<lambda>_. \<lparr>elapsed_ns = 5, pad_draw = 2, marker_draw = 1, pad_bytes = [1, 2]\<rparr>,
       budget_clock = \<lambda>_. 0, network = \<lambda>_. True\<rparr>;
     st = \<lparr>obfs_state.count = 7, initial_timestamp = 1, initial_abs_send_time = 2, initial_seq = 65530,
       transport_sequence = 4\<rparr> in
   \<exists>w. flush_from env (obfs_config_new Video 9) [p, p] (writer_start st 0) = (w, Inr ())
     \<and> map as_slice (receive_all demo_ciphers Video (wire w) replay_new) = [replicate 100 7, replicate 100 7]"
proof -
  let ?p = "\<lparr>storage = replicate 2304 7, range_start = 64, range_end = 164\<rparr>"
  let ?env = "\<lparr>ciphers = demo_ciphers, draws = \<lambda>_. \<lparr>elapsed_ns = 5, pad_draw = 2, marker_draw = 1, pad_bytes = [1, 2]\<rparr>,
    budget_clock = \<lambda>_. 0, network = \<lambda>_. True\<rparr>"
  have sl: "as_slice ?p = replicate 100 7" by (simp add: as_slice_def sub_list_def)
  have "\<exists>w. flush_from ?env (obfs_config_new Video 9) [?p, ?p] (writer_start st 0) = (w, Inr ())
      \<and> map as_slice (receive_all (ciphers ?env) Video (wire w) replay_new) = map as_slice [?p, ?p]" for st
    by (rule session_transport_exactly_once)
      (auto simp: demo_ciphers_ok draws_ok_def obfs_config_new_def sendable_def sl wf_buf_def PACKET_CAPACITY_def)
  then show ?thesis unfolding Let_def by (simp add: sl)
qed

end
