(* ===== verification/Session.thy ===== *)
theory Session
  imports SessionTransport ReturnPath Shutdown Repair TurnEndpoint
begin

text \<open>
  A session of \<^verbatim>\<open>backend/session.rs\<close> above its transport: the configuration handshake, the loop
  that empties the worker's queues into the writer, the loop that sorts what the reader delivers
  into control messages and tunnel packets, the choice of the TURN endpoint, and the order in which
  a session takes and gives back its allocation.
\<close>

section \<open>The configuration handshake\<close>

definition CONFIG_ATTEMPTS :: nat where "CONFIG_ATTEMPTS = 3"

datatype handshake_input = Packet bytes | TimedOut | Broken

datatype handshake_output =
    SendRegistration
  | PanelRestart
  | HandshakeError bool
  | EnableStreamRepair
  | DeliverConfig bytes

datatype handshake_result = Delivered | NotNeeded | Failed | Waiting

definition ends_with :: "bytes \<Rightarrow> bytes \<Rightarrow> bool" where
  "ends_with xs p = (length p \<le> length xs \<and> drop (length xs - length p) xs = p)"

text \<open>The messages of these errors contain \<^verbatim>\<open>FATAL_\<close>.\<close>

definition is_fatal :: "config_error \<Rightarrow> bool" where
  "is_fatal e = (e \<noteq> InvalidUtf8 \<and> e \<noteq> UnexpectedResponse)"

definition accept_config :: "bool \<Rightarrow> bytes \<Rightarrow> handshake_output list \<times> handshake_result" where
  "accept_config get_config b =
     (case parse_config_response b of
        Inl (Fail e) \<Rightarrow> (if get_config \<and> is_fatal e then [HandshakeError False] else [], Failed)
      | Inl Panic \<Rightarrow> ([], Failed)
      | Inr NoConfig \<Rightarrow> ([], NotNeeded)
      | Inr (Config v) \<Rightarrow>
          ((if ends_with v (ascii '':stream-v1'') \<or> ends_with v (ascii '':stream-v2'') then [EnableStreamRepair] else [])
           @ (if get_config then [DeliverConfig v] else []), Delivered))"

text \<open>
  The wait of an attempt over what arrives; a timeout starts the next attempt, whose registration
  may fail to be sent. An empty script is a handshake that still waits.
\<close>

fun await_config ::
  "bool \<Rightarrow> (nat \<Rightarrow> bool) \<Rightarrow> nat \<Rightarrow> handshake_input list \<Rightarrow> handshake_output list \<times> handshake_result" where
  "await_config get_config sends attempt [] = ([], Waiting)"
| "await_config get_config sends attempt (Broken # xs) = ([], Failed)"
| "await_config get_config sends attempt (TimedOut # xs) =
     (if attempt + 1 < CONFIG_ATTEMPTS then
        (if sends (attempt + 1) then
           (let (os, r) = await_config get_config sends (attempt + 1) xs in (SendRegistration # os, r))
         else ([], Failed))
      else (if get_config then [HandshakeError True] else [], Failed))"
| "await_config get_config sends attempt (Packet b # xs) =
     (if is_panel_restart_notice b then
        (let (os, r) = await_config get_config sends attempt xs in (PanelRestart # os, r))
      else if \<not> is_config_response b then await_config get_config sends attempt xs
      else accept_config get_config b)"

definition request_configuration ::
  "bool \<Rightarrow> (nat \<Rightarrow> bool) \<Rightarrow> handshake_input list \<Rightarrow> handshake_output list \<times> handshake_result" where
  "request_configuration get_config sends xs =
     (if sends 0 then (let (os, r) = await_config get_config sends 0 xs in (SendRegistration # os, r))
      else ([], Failed))"

definition registrations :: "handshake_output list \<Rightarrow> nat" where
  "registrations os = length (filter (\<lambda>x. x = SendRegistration) os)"

lemma registrations_simps [simp]:
  "registrations [] = 0" "registrations (SendRegistration # os) = Suc (registrations os)"
  "x \<noteq> SendRegistration \<Longrightarrow> registrations (x # os) = registrations os"
  by (simp_all add: registrations_def)

lemma accept_config_registrations: "registrations (fst (accept_config g b)) = 0"
  by (auto simp: accept_config_def registrations_def split: sum.splits fault.splits config_response.splits)

lemma await_config_registrations:
  "attempt < 3 \<Longrightarrow> registrations (fst (await_config g sends attempt xs)) \<le> 2 - attempt"
proof (induction g sends attempt xs rule: await_config.induct)
  case (3 g sends attempt xs)
  then show ?case
    by (cases "attempt + 1 < 3 \<and> sends (attempt + 1)")
      (auto simp: CONFIG_ATTEMPTS_def registrations_def split: prod.splits)
next
  case (4 g sends attempt b xs)
  then show ?case using accept_config_registrations [of g b] by (auto split: prod.splits)
qed simp_all

text \<open>
  The outcome is decided by the first configuration response, if it comes before the third timeout;
  other packets have no influence.
\<close>

definition relevant :: "handshake_input \<Rightarrow> bool" where
  "relevant x = (case x of Packet b \<Rightarrow> is_config_response b \<and> \<not> is_panel_restart_notice b | _ \<Rightarrow> True)"

lemma await_config_relevant:
  "snd (await_config g sends attempt xs) = snd (await_config g sends attempt (filter relevant xs))"
  by (induction g sends attempt xs rule: await_config.induct)
    (auto simp: relevant_def split: prod.splits)

section \<open>The writer loop\<close>

definition WRITER_LATENCY_BATCH_LIMIT :: nat where "WRITER_LATENCY_BATCH_LIMIT = 16"
definition WRITER_PRIORITY_BATCH_LIMIT :: nat where "WRITER_PRIORITY_BATCH_LIMIT = 64"

definition writer_batch_can_extend :: "packet_class \<Rightarrow> bool \<Rightarrow> bool \<Rightarrow> bool" where
  "writer_batch_can_extend c latency_pending priority_pending =
     (case c of
        Small \<Rightarrow> True
      | Medium \<Rightarrow> \<not> latency_pending
      | Bulk \<Rightarrow> \<not> latency_pending \<and> \<not> priority_pending)"

definition next_writer_packet :: "receivers \<Rightarrow> receivers \<times> (packet_buf \<times> packet_class) option" where
  "next_writer_packet rs =
     (case try_recv (latency rs) of
        (q, Some p) \<Rightarrow> (rs\<lparr>latency := q\<rparr>, Some (p, Small))
      | (q, None) \<Rightarrow>
          (case try_recv (priority rs) of
             (q', Some p) \<Rightarrow> (rs\<lparr>latency := q, priority := q'\<rparr>, Some (p, Medium))
           | (q', None) \<Rightarrow>
               (case try_recv (bulk rs) of
                  (q'', p) \<Rightarrow>
                    (rs\<lparr>latency := q, priority := q', bulk := q''\<rparr>, map_option (\<lambda>p. (p, Bulk)) p))))"

definition recv_class :: "packet_class \<Rightarrow> receivers \<Rightarrow> receivers \<times> packet_buf option" where
  "recv_class c rs =
     (case c of
        Small \<Rightarrow> (let (q, p) = try_recv (latency rs) in (rs\<lparr>latency := q\<rparr>, p))
      | Medium \<Rightarrow> (let (q, p) = try_recv (priority rs) in (rs\<lparr>priority := q\<rparr>, p))
      | Bulk \<Rightarrow> (let (q, p) = try_recv (bulk rs) in (rs\<lparr>bulk := q\<rparr>, p)))"

definition batch_limit :: "packet_class \<Rightarrow> nat" where
  "batch_limit c =
     (case c of Small \<Rightarrow> WRITER_LATENCY_BATCH_LIMIT | Medium \<Rightarrow> WRITER_PRIORITY_BATCH_LIMIT
      | Bulk \<Rightarrow> WRITER_BULK_BATCH_LIMIT)"

text \<open>The filling of a batch: at most as many packets as the limit leaves.\<close>

fun fill_batch :: "nat \<Rightarrow> packet_class \<Rightarrow> receivers \<Rightarrow> transport_writer \<Rightarrow> receivers \<times> transport_writer \<times> nat" where
  "fill_batch 0 c rs w = (rs, w, 0)"
| "fill_batch (Suc n) c rs w =
     (if \<not> writer_batch_can_extend c (has_queued_packet (latency rs)) (has_queued_packet (priority rs))
      then (rs, w, 0)
      else case recv_class c rs of
        (rs', None) \<Rightarrow> (rs', w, 0)
      | (rs', Some p) \<Rightarrow> (let (rs'', w', k) = fill_batch n c rs' (queue_data p w) in (rs'', w', Suc k)))"

definition send_writer_batch ::
  "transport_env \<Rightarrow> obfs_config \<Rightarrow> packet_buf \<times> packet_class \<Rightarrow> receivers \<Rightarrow> transport_writer \<Rightarrow>
     receivers \<times> transport_writer \<times> (session_error, nat) res" where
  "send_writer_batch env cfg first rs w =
     (case fill_batch (batch_limit (snd first) - 1) (snd first) rs (queue_data (fst first) w) of
        (rs', w', k) \<Rightarrow>
          (case flush_queued_data env cfg w' of
             (w'', Inl e) \<Rightarrow> (rs', w'', Inl e)
           | (w'', Inr _) \<Rightarrow> (rs', w'', Inr (Suc k))))"

text \<open>
  One turn of \<^verbatim>\<open>writer_loop\<close>: a waiting command first, then a batch; \<open>completions\<close> are the answers
  to the commands and \<open>marks\<close> the times the coordinator was told of activity.
\<close>

record writer_run =
  transport :: transport_writer
  queues :: receivers
  commands :: "bytes list"
  completions :: "(session_error, unit) res list"
  marks :: nat

datatype loop_end = Goes | Idle | Returned "(session_error, unit) res"

definition writer_turn ::
  "transport_env \<Rightarrow> obfs_config \<Rightarrow> packet_pool \<Rightarrow> writer_run \<Rightarrow> writer_run \<times> loop_end" where
  "writer_turn env cfg pool r =
     (case commands r of
        data # rest \<Rightarrow>
          (case send_bytes env cfg data pool (transport r) of
             (w, x) \<Rightarrow> (r\<lparr>transport := w, commands := rest, completions := completions r @ [x]\<rparr>, Goes))
      | [] \<Rightarrow>
          (case next_writer_packet (queues r) of
             (rs, Some first) \<Rightarrow>
               (case send_writer_batch env cfg first rs (transport r) of
                  (rs', w, Inl e) \<Rightarrow> (r\<lparr>queues := rs', transport := w\<rparr>, Returned (Inl e))
                | (rs', w, Inr sent) \<Rightarrow>
                    (r\<lparr>queues := rs', transport := w, marks := (if sent \<noteq> 0 then marks r + 1 else marks r)\<rparr>, Goes))
           | (rs, None) \<Rightarrow>
               (r\<lparr>queues := rs\<rparr>,
                if is_closed (latency rs) \<and> is_closed (priority rs) \<and> is_closed (bulk rs)
                then Returned (Inr ()) else Idle)))"

lemma fill_batch_pending:
  "fill_batch n c rs w = (rs', w', k) \<Longrightarrow>
     k \<le> n \<and> (\<exists>ps. length ps = k \<and> w' = w\<lparr>pending_data := pending_data w @ ps\<rparr>)"
proof (induction n arbitrary: rs w rs' w' k)
  case (Suc n)
  show ?case
  proof (cases "writer_batch_can_extend c (has_queued_packet (latency rs)) (has_queued_packet (priority rs))")
    case True
    obtain rs1 x where x: "recv_class c rs = (rs1, x)" by fastforce
    show ?thesis
    proof (cases x)
      case (Some p)
      obtain rs2 w2 j where f: "fill_batch n c rs1 (queue_data p w) = (rs2, w2, j)" by (metis prod_cases3)
      from Suc.IH [OF f] obtain ps where "j \<le> n" "length ps = j"
        "w2 = (queue_data p w)\<lparr>pending_data := pending_data (queue_data p w) @ ps\<rparr>" by blast
      then show ?thesis using Suc.prems True x Some f
        by (auto simp: queue_data_def intro!: exI [of _ "p # ps"])
    qed (use Suc.prems True x in auto)
  qed (use Suc.prems in auto)
qed auto

lemma wrap_oversized:
  assumes "\<not> buf_is_empty p" and "PACKET_CAPACITY < range_end p + 11"
  shows "snd (obfs_wrap E (obfs_config_new mode source) d st p) = Inl (Fail ExceedsCapacity)"
proof -
  have "\<not> wrap_fits p n" if "11 \<le> n" for n
    using that assms(2) by (auto simp: wrap_fits_def dest: checked_add_SomeD split: option.splits)
  then show ?thesis
    using assms(1) by (cases mode) (simp_all add: obfs_wrap_def obfs_next_def obfs_config_new_def Let_def)
qed

lemma flush_oversized:
  assumes "\<not> buf_is_empty p" and "PACKET_CAPACITY < range_end p + 11" and "pending_data w = p # ps"
  shows "\<exists>w'. flush_queued_data env (obfs_config_new mode source) w =
      (w', Inl (Fail (WrapError ExceedsCapacity))) \<and> sent_log w' = sent_log w"
proof -
  let ?c = "obfs_config_new mode source"
  have prep: "\<exists>w1. prepare_packet env ?c p v = (w1, Inl (Fail (WrapError ExceedsCapacity)))
      \<and> sent_log w1 = sent_log v" for v
  proof -
    obtain b dup where d: "duplicate_decision env (as_slice p) v = (b, dup)" by fastforce
    obtain st where "obfs_wrap (ciphers env) ?c (draws env (prepared v)) (write_state v) p = (st, Inl (Fail ExceedsCapacity))"
      using wrap_oversized [OF assms(1,2), of "ciphers env" mode source "draws env (prepared v)" "write_state v"]
      by (metis prod.collapse)
    then show ?thesis by (simp add: prepare_packet_def d)
  qed
  obtain w1 where w1: "prepare_packet env ?c p (w\<lparr>pending_data := ps\<rparr>) = (w1, Inl (Fail (WrapError ExceedsCapacity)))"
    "sent_log w1 = sent_log w" using prep [of "w\<lparr>pending_data := ps\<rparr>"] by auto
  show ?thesis using w1 assms(3) by (cases ps) (simp_all add: flush_queued_data_def send_packet_def)
qed

text \<open>A datagram of 2230 to 2240 bytes fits the buffer it is read into but not the wrapped packet,
  and one such packet ends the whole session: the writer loop returns the error, and the packets
  batched behind it are lost with it.\<close>

theorem oversized_packet_ends_session:
  assumes "commands r = []" and "next_writer_packet (queues r) = (rs, Some (p, c))"
    and "pending_data (transport r) = []" and "set_read_len b n = Inr p" and "2230 \<le> n"
  shows "\<exists>r'. writer_turn env (obfs_config_new mode source) pool r =
      (r', Returned (Inl (Fail (WrapError ExceedsCapacity)))) \<and> sent_log (transport r') = sent_log (transport r)"
proof -
  have big: "\<not> buf_is_empty p" "PACKET_CAPACITY < range_end p + 11"
    using assms(4,5) by (auto simp: set_read_len_def buf_is_empty_def PACKET_CAPACITY_def PACKET_HEADROOM_def
        split: if_splits)
  obtain rs' w' k where f: "fill_batch (batch_limit c - 1) c rs (queue_data p (transport r)) = (rs', w', k)"
    by (metis prod_cases3)
  then obtain ps where ps: "w' = (transport r)\<lparr>pending_data := p # ps\<rparr>"
    using fill_batch_pending [OF f] assms(3) by (auto simp: queue_data_def)
  obtain w'' where "flush_queued_data env (obfs_config_new mode source) w' =
      (w'', Inl (Fail (WrapError ExceedsCapacity)))" "sent_log w'' = sent_log (transport r)"
    using flush_oversized [OF big, of w' ps env mode source] by (auto simp: ps)
  then show ?thesis using assms(1,2) f by (simp add: writer_turn_def send_writer_batch_def)
qed

theorem oversized_packet_ends_session_witness:
  "\<exists>b p. set_read_len b 2240 = Inr p \<and>
     (\<exists>r'. writer_turn \<lparr>ciphers = demo_ciphers, draws = \<lambda>_. \<lparr>elapsed_ns = 5, pad_draw = 2, marker_draw = 1, pad_bytes = [1, 2]\<rparr>,
         budget_clock = \<lambda>_. 0, network = \<lambda>_. True\<rparr> (obfs_config_new Audio 3) (pool_new 4)
       \<lparr>transport = writer_start \<lparr>obfs_state.count = 7, initial_timestamp = 1, initial_abs_send_time = 2,
          initial_seq = 65530, transport_sequence = 4\<rparr> 0,
        queues = \<lparr>latency = packet_channel 4 True, priority = packet_channel 4 True,
          bulk = (packet_channel 4 True)\<lparr>items := [(p, 0)]\<rparr>\<rparr>,
        commands = [], completions = [], marks = 0\<rparr> = (r', Returned (Inl (Fail (WrapError ExceedsCapacity)))))"
proof -
  let ?b = "fresh_buf (zeroed 2304)"
  let ?p = "?b\<lparr>range_start := 64, range_end := 2304\<rparr>"
  let ?q = "packet_channel 4 True :: packet_buf packet_queue"
  let ?r = "\<lparr>transport = writer_start \<lparr>obfs_state.count = 7, initial_timestamp = 1, initial_abs_send_time = 2,
          initial_seq = 65530, transport_sequence = 4\<rparr> 0,
        queues = \<lparr>latency = ?q, priority = ?q, bulk = ?q\<lparr>items := [(?p, 0)]\<rparr>\<rparr>,
        commands = [], completions = [], marks = 0\<rparr>"
  have read: "set_read_len ?b 2240 = Inr ?p" by (simp add: set_read_len_def packet_consts)
  have first: "next_writer_packet (queues ?r) = (\<lparr>latency = ?q, priority = ?q, bulk = ?q\<rparr>, Some (?p, Bulk))"
    by (simp add: next_writer_packet_def try_recv_def packet_channel_def)
  have idle: "commands ?r = []" "pending_data (transport ?r) = []" by (simp_all add: writer_start_def)
  have "2230 \<le> (2240 :: nat)" by simp
  from oversized_packet_ends_session [OF idle(1) first idle(2) read this] read show ?thesis by blast
qed

end
