(* ===== verification/SessionReader.thy ===== *)
theory SessionReader
  imports Session
begin

text \<open>
  The receiving side of a session, \<^verbatim>\<open>reader_loop\<close> of \<^verbatim>\<open>backend/session.rs\<close>, which tells control
  messages from tunnel packets; the choice of the TURN endpoint; and the life of a session, from
  the allocation it connects to the registrations it gives back.
\<close>

section \<open>The reader loop\<close>

definition is_ip_packet :: "bytes \<Rightarrow> bool" where
  "is_ip_packet packet =
     (if packet = [] then False
      else if drop_bit 4 (hd packet) = 4 then
        (if length packet < 20 then False
         else let header_len = unat (hd packet AND 0x0f) * 4 in 20 \<le> header_len \<and> header_len \<le> length packet)
      else if drop_bit 4 (hd packet) = 6 then 40 \<le> length packet
      else False)"

record session_reader =
  repairs :: repair_state
  stopping :: shutdown_state
  dropped_non_ip :: nat
  logged_first_data :: bool
  returned :: receivers

datatype reader_output =
    RestartNotice
  | Repaired repair_result
  | DisconnectSeen
  | NewConfig bytes
  | LoggedNonIp nat
  | Returned packet_buf

definition reader_step :: "session_reader \<Rightarrow> packet_buf \<Rightarrow> session_reader \<times> reader_output list" where
  "reader_step r p =
     (let b = as_slice p in
      if is_panel_restart_notice b then (r, [RestartNotice])
      else case parse_stream_repair b of
        Some command \<Rightarrow> (let (st, x) = apply_repair command (repairs r) in (r\<lparr>repairs := st\<rparr>, [Repaired x]))
      | None \<Rightarrow>
      (case parse_stream_alive b of
        Some command \<Rightarrow> (r\<lparr>repairs := fst (apply_alive command (repairs r))\<rparr>, [])
      | None \<Rightarrow>
      (case observe_control_response b (stopping r) of
        (s, True) \<Rightarrow> (r\<lparr>stopping := s\<rparr>, [DisconnectSeen])
      | (s, False) \<Rightarrow>
          if starts_with b (ascii ''TUNCONF:'') then
            (r, case parse_config_response b of Inr (Config v) \<Rightarrow> [NewConfig v] | _ \<Rightarrow> [])
          else if is_control_response b then (r, [])
          else if \<not> is_ip_packet (payload b) then
            (let n = dropped_non_ip r + 1 in
             (r\<lparr>dropped_non_ip := n\<rparr>, if n \<le> 8 \<or> n mod 1000 = 0 then [LoggedNonIp n] else []))
          else
            (r\<lparr>logged_first_data := True, returned := return_packet p (returned r)\<rparr>, [Returned p]))))"

lemma starts_with_hd: "starts_with bs (x # xs) \<Longrightarrow> bs \<noteq> [] \<and> hd bs = x"
  by (auto simp: starts_with_iff)

lemma parse_stream_prefix: "parse_stream_command b pre = Some c \<Longrightarrow> starts_with b pre"
  by (auto simp: parse_stream_command_def strip_prefix_def split: option.splits if_splits)

lemma observe_true: "observe_control_response b s = (s', True) \<Longrightarrow> is_control_response b"
  by (auto simp: observe_control_response_def is_control_response_def starts_with_def split: if_splits)

lemma reader_step_data:
  assumes "\<not> is_control_response (as_slice p)" and "is_ip_packet (payload (as_slice p))"
  shows "reader_step r p =
    (r\<lparr>logged_first_data := True, returned := return_packet p (returned r)\<rparr>, [Returned p])"
proof -
  let ?b = "as_slice p"
  have "\<not> is_panel_restart_notice ?b" "\<not> starts_with ?b STREAM_REPAIR_PREFIX"
    "\<not> starts_with ?b STREAM_ALIVE_PREFIX" "\<not> starts_with ?b (ascii ''TUNCONF:'')"
    using assms(1) by (auto simp: is_control_response_def)
  then have "parse_stream_repair ?b = None" "parse_stream_alive ?b = None"
    using parse_stream_prefix unfolding parse_stream_repair_def parse_stream_alive_def
    by (metis not_None_eq)+
  moreover have "observe_control_response ?b (stopping r) = (stopping r, False)"
    using observe_true [of ?b "stopping r"] assms(1)
    by (auto simp: observe_control_response_def is_control_response_def starts_with_def)
  ultimately show ?thesis
    using assms \<open>\<not> is_panel_restart_notice ?b\<close> \<open>\<not> starts_with ?b (ascii ''TUNCONF:'')\<close>
    by (simp add: reader_step_def)
qed

text \<open>A frame begins with a letter no control message begins with.\<close>

lemma control_hd: "is_control_response b \<Longrightarrow> b \<noteq> [] \<and> hd b \<in> {0xff, 0x54, 0x4e, 0x44, 0x52, 0x4f}"
  unfolding is_control_response_def is_panel_restart_notice_def PANEL_RESTART_NOTICE_def
    STREAM_REPAIR_PREFIX_def STREAM_ALIVE_PREFIX_def
  by (auto simp: ascii_def dest!: starts_with_hd)

lemma frame_not_control:
  assumes "header_decode b = Some (h, rest)"
  shows "\<not> is_control_response b"
proof -
  have "hd b = 0x43"
    using header_decode_SomeD [OF assms] by (simp add: header_bytes_def FRAME_MAGIC_def ascii_def)
  then show ?thesis using control_hd by fastforce
qed

lemma reader_returns_only_ip:
  assumes "Returned q \<in> set (snd (reader_step r p))"
  shows "q = p \<and> is_ip_packet (payload (as_slice p)) \<and> \<not> is_control_response (as_slice p)"
  using assms unfolding reader_step_def Let_def
  by (auto split: option.splits prod.splits bool.splits sum.splits config_response.splits if_splits)

text \<open>C21: A session hands a packet to the tunnel exactly when it is one: every framed packet with an
  IP payload and every unframed IP packet of the tunnel is returned, and touches nothing but the
  return queues; nothing that is not an IP packet is ever returned, and no control message is.\<close>

theorem reader_returns_tunnel_packets:
  "(\<exists>h. header_decode (as_slice p) = Some (h, payload (as_slice p))) \<or> tunnel_packet (as_slice p)
     \<Longrightarrow> is_ip_packet (payload (as_slice p)) \<Longrightarrow>
     reader_step r p = (r\<lparr>logged_first_data := True, returned := return_packet p (returned r)\<rparr>, [Returned p])
     \<and> (\<forall>q s. Returned q \<in> set (snd (reader_step r s)) \<longrightarrow>
          q = s \<and> is_ip_packet (payload (as_slice s)) \<and> \<not> is_control_response (as_slice s))"
proof -
  assume kind: "(\<exists>h. header_decode (as_slice p) = Some (h, payload (as_slice p))) \<or> tunnel_packet (as_slice p)"
    and ip: "is_ip_packet (payload (as_slice p))"
  have "\<not> is_control_response (as_slice p)"
    using kind frame_not_control control_not_tunnel by blast
  from reader_step_data [OF this ip] reader_returns_only_ip show ?thesis by blast
qed

theorem reader_returns_tunnel_packets_witness:
  "\<exists>r'. reader_step \<lparr>repairs = repair_new 2, stopping = shutdown_new, dropped_non_ip = 0,
      logged_first_data = False, returned = \<lparr>latency = packet_channel 4 True,
        priority = packet_channel 4 True, bulk = packet_channel 4 True\<rparr>\<rparr>
      \<lparr>storage = [0x45, 0, 0, 20] @ replicate 16 0, range_start = 0, range_end = 20\<rparr>
    = (r', [Returned \<lparr>storage = [0x45, 0, 0, 20] @ replicate 16 0, range_start = 0, range_end = 20\<rparr>])"
proof -
  define p where "p = \<lparr>storage = [0x45, 0, 0, 20] @ replicate 16 0, range_start = 0, range_end = 20\<rparr>"
  have bytes: "as_slice p = [0x45, 0, 0, 20] @ replicate 16 0" by (simp add: p_def as_slice_def sub_list_def)
  then have "length (as_slice p) = 20" by simp
  then have plain: "payload (as_slice p) = as_slice p"
    by (simp add: payload_def header_decode_def FRAME_LEN_def)
  have "tunnel_packet (as_slice p)"
    by (simp add: tunnel_packet_def bytes PACKET_CAPACITY_def unat_u16_of)
  moreover have "is_ip_packet (payload (as_slice p))"
    unfolding plain by (simp add: is_ip_packet_def bytes Let_def)
  ultimately show ?thesis using reader_returns_tunnel_packets [of p] unfolding p_def by blast
qed

section \<open>The TURN endpoint of a worker\<close>

definition turn_endpoint_index :: "nat \<Rightarrow> nat \<Rightarrow> nat \<Rightarrow> nat" where
  "turn_endpoint_index i cursor n = (i mod n + cursor mod n) mod n"

record endpoint_choice =
  override_host :: "str_text option"
  override_port :: "str_text option"
  mode_of_turn :: transport_mode

definition resolves :: "endpoint_choice \<Rightarrow> str_text \<Rightarrow> bool" where
  "resolves c a = is_ok (resolve_turn_endpoints a (override_host c) (override_port c) (mode_of_turn c))"

definition select_turn_address ::
  "endpoint_choice \<Rightarrow> nat \<Rightarrow> nat \<Rightarrow> str_text list \<Rightarrow> (unit, str_text) res" where
  "select_turn_address c i cursor addresses =
     (let n = length addresses in
      if n = 0 then Inl Panic
      else
        let start = turn_endpoint_index i cursor n in
        ok_or (List.find (resolves c) (map (\<lambda>k. addresses ! ((start + k) mod n)) [0..<n])) ())"

definition turn_path_key :: "endpoint_choice \<Rightarrow> str_text \<Rightarrow> (endpoint_error, str_text) res" where
  "turn_path_key c a =
     and_then (resolve_turn_endpoints a (override_host c) (override_port c) (mode_of_turn c)) (\<lambda>es.
     and_then (ok_or (get_at es 0) EndpointEmpty) (\<lambda>e. Inr (socket_authority e)))"

lemma rotated_set:
  assumes "0 < length xs"
  shows "set (map (\<lambda>k. xs ! ((start + k) mod length xs)) [0..<length xs]) = set xs"
proof
  show "set xs \<subseteq> set (map (\<lambda>k. xs ! ((start + k) mod length xs)) [0..<length xs])"
  proof
    fix x assume "x \<in> set xs"
    then obtain j where j: "j < length xs" "xs ! j = x" by (auto simp: in_set_conv_nth)
    let ?n = "length xs" and ?k = "(j + (length xs - start mod length xs)) mod length xs"
    have "(start + ?k) mod ?n = (start mod ?n + (j + (?n - start mod ?n))) mod ?n"
      by (metis mod_add_left_eq mod_add_right_eq)
    also have "start mod ?n + (j + (?n - start mod ?n)) = j + ?n"
      using mod_less_divisor [OF assms, of start] by linarith
    finally have "(start + ?k) mod ?n = j" using j(1) by simp
    then show "x \<in> set (map (\<lambda>k. xs ! ((start + k) mod length xs)) [0..<length xs])"
      using j assms by (auto intro!: image_eqI [of _ _ ?k])
  qed
qed (use assms in auto)

text \<open>An address is found whenever one resolves, and then the path of the session is defined.\<close>

lemma select_turn_address_exact:
  assumes "addresses \<noteq> []"
  shows "is_ok (select_turn_address c i cursor addresses) \<longleftrightarrow> list_ex (resolves c) addresses"
    and "select_turn_address c i cursor addresses = Inr a \<Longrightarrow> a \<in> set addresses \<and> resolves c a"
proof -
  let ?start = "turn_endpoint_index i cursor (length addresses)"
  let ?xs = "map (\<lambda>k. addresses ! ((?start + k) mod length addresses)) [0..<length addresses]"
  have sel: "select_turn_address c i cursor addresses = ok_or (List.find (resolves c) ?xs) ()"
    using assms by (simp add: select_turn_address_def Let_def)
  have set_eq: "set ?xs = set addresses" using rotated_set [of addresses ?start] assms by simp
  have "List.find (resolves c) ?xs = None \<longleftrightarrow> \<not> list_ex (resolves c) addresses"
    by (simp only: find_None_iff set_eq list_ex_iff) blast
  then show "is_ok (select_turn_address c i cursor addresses) \<longleftrightarrow> list_ex (resolves c) addresses"
    unfolding sel by (cases "List.find (resolves c) ?xs") auto
  show "a \<in> set addresses \<and> resolves c a" if "select_turn_address c i cursor addresses = Inr a"
  proof -
    have "List.find (resolves c) ?xs = Some a" using that unfolding sel by (cases "List.find (resolves c) ?xs") auto
    then have "a \<in> set ?xs" "resolves c a" by (auto simp: find_Some_iff in_set_conv_nth)
    then show ?thesis using set_eq by blast
  qed
qed

end
