(* ===== verification/SessionLife.thy ===== *)
theory SessionLife
  imports SessionReader
begin

text \<open>
  The life of a session, \<^verbatim>\<open>run_session\<close> and \<^verbatim>\<open>run_allocated_session\<close> of \<^verbatim>\<open>backend/session.rs\<close>: what
  it takes, in which order, and what it gives back on every way out. What happens outside (the
  connection, the channel, the handshake, the race between cancellation, repair and the two loops)
  is a script of outcomes. A session that runs may be interrupted before each of its steps: a panic
  unwinds it, an abort drops its future at the next await. What the session does is a list of events.
\<close>

section \<open>Events and outcomes\<close>

datatype life_event =
    AllocationStarted | AllocationReady | Allocate | Deallocate
  | ConfigComplete bool
  | RegisterControl | UnregisterControl
  | RegisterWorker | UnregisterWorker
  | ReadySignal | MarkReady
  | CountUp | CountDown
  | SpawnWriter | WriterEnded | AbortWriter | DetachWriter
  | SpawnReader | ReaderEnded | AbortReader | DetachReader
  | RequestDisconnect

datatype connect_end = Connected | ConnectFailed | ConnectCancelled bool

datatype channel_end = Bound | BindFailed | BindCancelled

text \<open>What ends the session's \<^verbatim>\<open>select!\<close>, the results of the loops as success flags.\<close>

datatype session_stop = StopCancelled | StopRepair | StopWriter bool | StopReader bool

datatype run_result = RunOk bool | RunError

datatype task_end = TaskResult run_result | TaskPanicked | TaskAborted

section \<open>What a session holds\<close>

text \<open>
  The values whose destructors give something back: the registrations, the place in the counter, and
  the handles of the two loops, whose destructor lets a loop that still runs go on by itself.
\<close>

datatype life_guard = ControlGuard | WorkerGuard | CounterGuard | WriterHandle | ReaderHandle

definition drop_event :: "life_guard \<Rightarrow> life_event" where
  "drop_event g =
     (case g of
        ControlGuard \<Rightarrow> UnregisterControl
      | WorkerGuard \<Rightarrow> UnregisterWorker
      | CounterGuard \<Rightarrow> CountDown
      | WriterHandle \<Rightarrow> DetachWriter
      | ReaderHandle \<Rightarrow> DetachReader)"

text \<open>The state of the session: its events and the guards it holds, the latest first.\<close>

record session_life =
  happened :: "life_event list"
  held :: "life_guard list"

definition life_new :: session_life where
  "life_new = \<lparr>happened = [], held = []\<rparr>"

definition note_event :: "life_event \<Rightarrow> session_life \<Rightarrow> session_life" where
  "note_event e s = s\<lparr>happened := happened s @ [e]\<rparr>"

definition acquire :: "life_event \<Rightarrow> life_guard \<Rightarrow> session_life \<Rightarrow> session_life" where
  "acquire e g s = s\<lparr>happened := happened s @ [e], held := g # held s\<rparr>"

text \<open>A loop that has ended, or is aborted: aborting one that has ended does nothing.\<close>

definition end_loop :: "life_event \<Rightarrow> life_guard \<Rightarrow> session_life \<Rightarrow> session_life" where
  "end_loop e g s =
     (if g \<in> set (held s) then s\<lparr>happened := happened s @ [e], held := removeAll g (held s)\<rparr> else s)"

text \<open>Whatever way a session is left, its locals are dropped in the reverse order.\<close>

definition leave :: "session_life \<Rightarrow> life_event list" where
  "leave s = happened s @ map drop_event (held s)"

section \<open>The steps of a session\<close>

datatype session_step =
    TakeReceiver bool | NewCipher bool | Configure handshake_result
  | HoldControl | HoldWorker | SignalReady | SetReady | HoldActive
  | StartWriter | StartReader
  | WaitForStop session_stop | AskDisconnect
  | AbortLoop life_guard | JoinLoop
  | Finish bool bool

record session_outcome =
  so_receiver :: bool
  so_cipher :: bool
  so_handshake :: handshake_result
  so_stop :: session_stop

text \<open>The steps at which the session waits, where an abort takes effect.\<close>

definition awaits :: "session_step \<Rightarrow> bool" where
  "awaits x = (case x of Configure _ \<Rightarrow> True | WaitForStop _ \<Rightarrow> True | AskDisconnect \<Rightarrow> True | JoinLoop \<Rightarrow> True | _ \<Rightarrow> False)"

definition stop_session_tasks :: "nat \<Rightarrow> session_step list" where
  "stop_session_tasks which =
     (if which = 0 then [AbortLoop WriterHandle, AbortLoop ReaderHandle, JoinLoop, JoinLoop]
      else if which = 1 then [AbortLoop ReaderHandle, JoinLoop]
      else [AbortLoop WriterHandle, JoinLoop])"

definition stop_code :: "session_stop \<Rightarrow> nat" where
  "stop_code stop = (case stop of StopCancelled \<Rightarrow> 0 | StopRepair \<Rightarrow> 0 | StopWriter _ \<Rightarrow> 1 | StopReader _ \<Rightarrow> 2)"

definition stop_ok :: "session_stop \<Rightarrow> bool" where
  "stop_ok stop = (case stop of StopCancelled \<Rightarrow> True | StopRepair \<Rightarrow> False | StopWriter ok \<Rightarrow> ok | StopReader ok \<Rightarrow> ok)"

definition config_delivered :: "bool \<Rightarrow> handshake_result \<Rightarrow> bool" where
  "config_delivered get_config h = (get_config \<and> h = Delivered)"

definition session_steps :: "bool \<Rightarrow> bool \<Rightarrow> session_outcome \<Rightarrow> session_step list" where
  "session_steps get_config has_ready x =
     [TakeReceiver (so_receiver x), NewCipher (so_cipher x), Configure (so_handshake x), HoldControl, HoldWorker]
     @ (if has_ready then [SignalReady] else [])
     @ [SetReady, HoldActive, StartWriter, StartReader, WaitForStop (so_stop x)]
     @ (if so_stop x = StopCancelled then [AskDisconnect] else [])
     @ stop_session_tasks (stop_code (so_stop x))
     @ [Finish (stop_ok (so_stop x)) (config_delivered get_config (so_handshake x))]"

text \<open>One step, and the result if the session returns at it, by \<^verbatim>\<open>?\<close> or at its end.\<close>

definition session_step_run ::
  "bool \<Rightarrow> bool \<Rightarrow> session_step \<Rightarrow> session_life \<Rightarrow> session_life \<times> run_result option" where
  "session_step_run get_config has_state x s =
     (case x of
        TakeReceiver ok \<Rightarrow> (s, if ok then None else Some RunError)
      | NewCipher ok \<Rightarrow> (s, if ok then None else Some RunError)
      | Configure h \<Rightarrow>
          (let s' = (if has_state then note_event (ConfigComplete (config_delivered get_config h)) s else s)
           in (s', if h = Delivered \<or> h = NotNeeded then None else Some RunError))
      | HoldControl \<Rightarrow> (acquire RegisterControl ControlGuard s, None)
      | HoldWorker \<Rightarrow> (acquire RegisterWorker WorkerGuard s, None)
      | SignalReady \<Rightarrow> (note_event ReadySignal s, None)
      | SetReady \<Rightarrow> (note_event MarkReady s, None)
      | HoldActive \<Rightarrow> (acquire CountUp CounterGuard s, None)
      | StartWriter \<Rightarrow> (acquire SpawnWriter WriterHandle s, None)
      | StartReader \<Rightarrow> (acquire SpawnReader ReaderHandle s, None)
      | WaitForStop stop \<Rightarrow>
          (case stop of
             StopWriter _ \<Rightarrow> end_loop WriterEnded WriterHandle s
           | StopReader _ \<Rightarrow> end_loop ReaderEnded ReaderHandle s
           | _ \<Rightarrow> s, None)
      | AskDisconnect \<Rightarrow> (note_event RequestDisconnect s, None)
      | AbortLoop g \<Rightarrow> (end_loop (if g = WriterHandle then AbortWriter else AbortReader) g s, None)
      | JoinLoop \<Rightarrow> (s, None)
      | Finish ok told \<Rightarrow> (s, Some (if ok then RunOk told else RunError)))"

text \<open>The steps in order; before each of them the session may panic, or be aborted if it waits there.\<close>

datatype interruption = Panics | Aborted

fun run_steps ::
  "bool \<Rightarrow> bool \<Rightarrow> session_step list \<Rightarrow> (nat \<Rightarrow> interruption option) \<Rightarrow> nat \<Rightarrow> session_life \<Rightarrow> life_event list \<times> task_end" where
  "run_steps get_config has_state [] intr i s = (leave s, TaskResult RunError)"
| "run_steps get_config has_state (x # xs) intr i s =
     (if intr i = Some Panics then (leave s, TaskPanicked)
      else if intr i = Some Aborted \<and> awaits x then (leave s, TaskAborted)
      else
        (case session_step_run get_config has_state x s of
           (s', Some r) \<Rightarrow> (leave s', TaskResult r)
         | (s', None) \<Rightarrow> run_steps get_config has_state xs intr (i + 1) s'))"

definition run_allocated_session ::
  "bool \<Rightarrow> bool \<Rightarrow> bool \<Rightarrow> session_outcome \<Rightarrow> (nat \<Rightarrow> interruption option) \<Rightarrow> life_event list \<times> task_end" where
  "run_allocated_session get_config has_state has_ready x intr =
     run_steps get_config has_state (session_steps get_config has_ready x) intr 0 life_new"

section \<open>The task around it\<close>

text \<open>
  Which comes first: the end of the session or the cancellation, and then whether the session ends
  within the grace time; if not it is aborted and waited for.
\<close>

datatype task_race = SessionFirst | WithinGrace | GraceOver

definition await_session_task :: "task_race \<Rightarrow> task_end \<Rightarrow> run_result" where
  "await_session_task race fin =
     (if race = GraceOver then RunOk False
      else case fin of TaskResult r \<Rightarrow> r | TaskPanicked \<Rightarrow> RunError | TaskAborted \<Rightarrow> RunError)"

text \<open>\<open>inner\<close> is the run of the spawned session.\<close>

definition run_session ::
  "bool \<Rightarrow> connect_end \<Rightarrow> channel_end \<Rightarrow> life_event list \<times> task_end \<Rightarrow> task_race \<Rightarrow> life_event list \<times> run_result" where
  "run_session address_ok connect channel inner race =
     (if \<not> address_ok then ([], RunError)
      else
        (case connect of
           ConnectFailed \<Rightarrow> ([AllocationStarted], RunError)
         | ConnectCancelled late \<Rightarrow>
             ([AllocationStarted] @ (if late then [Allocate, Deallocate] else []), RunOk False)
         | Connected \<Rightarrow>
             (case channel of
                BindCancelled \<Rightarrow> ([AllocationStarted, Allocate, AllocationReady, Deallocate], RunOk False)
              | BindFailed \<Rightarrow> ([AllocationStarted, Allocate, AllocationReady, Deallocate], RunError)
              | Bound \<Rightarrow>
                  ([AllocationStarted, Allocate, AllocationReady] @ fst inner @ [Deallocate],
                   await_session_task race (snd inner)))))"

section \<open>Everything taken is given back\<close>

text \<open>
  A resource: the event that takes it, and the events that give it back. \<open>phase\<close> follows whether it
  is taken; it is undefined once the resource is taken twice or given back twice.
\<close>

fun phase :: "life_event \<Rightarrow> life_event list \<Rightarrow> bool \<Rightarrow> life_event list \<Rightarrow> bool option" where
  "phase takes gives taken [] = Some taken"
| "phase takes gives taken (e # es) =
     (if e = takes then (if taken then None else phase takes gives True es)
      else if e \<in> set gives then (if taken then phase takes gives False es else None)
      else phase takes gives taken es)"

definition balanced :: "life_event \<Rightarrow> life_event list \<Rightarrow> life_event list \<Rightarrow> bool" where
  "balanced takes gives es = (phase takes gives False es = Some False)"

lemma phase_append:
  "phase t g b (xs @ ys) = (case phase t g b xs of None \<Rightarrow> None | Some c \<Rightarrow> phase t g c ys)"
  by (induction xs arbitrary: b) auto

lemma phase_other: "t \<notin> set xs \<Longrightarrow> set gs \<inter> set xs = {} \<Longrightarrow> phase t gs b xs = Some b"
  by (induction xs) auto

definition taken_by :: "life_guard \<Rightarrow> life_event" where
  "taken_by g =
     (case g of ControlGuard \<Rightarrow> RegisterControl | WorkerGuard \<Rightarrow> RegisterWorker | CounterGuard \<Rightarrow> CountUp
      | WriterHandle \<Rightarrow> SpawnWriter | ReaderHandle \<Rightarrow> SpawnReader)"

definition given_back_by :: "life_guard \<Rightarrow> life_event list" where
  "given_back_by g =
     (case g of ControlGuard \<Rightarrow> [UnregisterControl] | WorkerGuard \<Rightarrow> [UnregisterWorker] | CounterGuard \<Rightarrow> [CountDown]
      | WriterHandle \<Rightarrow> [WriterEnded, AbortWriter, DetachWriter]
      | ReaderHandle \<Rightarrow> [ReaderEnded, AbortReader, DetachReader])"

text \<open>The guard is held exactly while the resource is taken.\<close>

definition guarded :: "life_guard \<Rightarrow> session_life \<Rightarrow> bool" where
  "guarded g s = (phase (taken_by g) (given_back_by g) False (happened s) = Some (g \<in> set (held s)) \<and> distinct (held s))"

lemma guarded_leave:
  assumes "guarded g s"
  shows "balanced (taken_by g) (given_back_by g) (leave s)"
proof -
  have drop: "drop_event h \<noteq> taken_by g" "drop_event h \<in> set (given_back_by g) \<longleftrightarrow> h = g" for h
    by (cases g; cases h; simp add: drop_event_def taken_by_def given_back_by_def)+
  have "phase (taken_by g) (given_back_by g) (g \<in> set hs) (map drop_event hs) = Some False" if "distinct hs" for hs
    using that
  proof (induction hs)
    case (Cons h hs)
    then show ?case using drop [of h] by (cases "h = g") auto
  qed simp
  then show ?thesis using assms by (simp add: balanced_def leave_def phase_append guarded_def)
qed

text \<open>The guard a step takes; each is taken once at most.\<close>

definition step_takes :: "session_step \<Rightarrow> life_guard option" where
  "step_takes x =
     (case x of HoldControl \<Rightarrow> Some ControlGuard | HoldWorker \<Rightarrow> Some WorkerGuard | HoldActive \<Rightarrow> Some CounterGuard
      | StartWriter \<Rightarrow> Some WriterHandle | StartReader \<Rightarrow> Some ReaderHandle | _ \<Rightarrow> None)"

definition step_fits :: "session_step \<Rightarrow> bool" where
  "step_fits x = (case x of AbortLoop g \<Rightarrow> g = WriterHandle \<or> g = ReaderHandle | _ \<Rightarrow> True)"

lemma guarded_step:
  assumes "guarded g s" and "session_step_run c st x s = (s', r)" and "step_fits x"
    and "\<And>h. step_takes x = Some h \<Longrightarrow> h \<notin> set (held s)"
  shows "guarded g s'" and "set (held s') \<subseteq> set (held s) \<union> set_option (step_takes x)"
proof -
  have noted: "guarded g (note_event (ConfigComplete b) s)" "guarded g (note_event ReadySignal s)"
    "guarded g (note_event MarkReady s)" "guarded g (note_event RequestDisconnect s)" for b
    using assms(1)
    by (cases g; simp add: guarded_def note_event_def phase_append taken_by_def given_back_by_def)+
  have take_guard: "guarded g (acquire (taken_by h) h s)" if "h \<notin> set (held s)" for h
    using assms(1) that
    by (cases g; cases h) (auto simp: guarded_def acquire_def phase_append taken_by_def given_back_by_def)
  have ended: "guarded g (end_loop e h s)" if "e \<in> set (given_back_by h)" for e h
    using assms(1) that
    by (cases g; cases h)
      (auto simp: guarded_def end_loop_def phase_append taken_by_def given_back_by_def distinct_removeAll)
  note acquired = take_guard [of ControlGuard] take_guard [of WorkerGuard] take_guard [of CounterGuard]
    take_guard [of WriterHandle] take_guard [of ReaderHandle]
  have over: "guarded g (end_loop WriterEnded WriterHandle s)" "guarded g (end_loop AbortWriter WriterHandle s)"
    "guarded g (end_loop ReaderEnded ReaderHandle s)" "guarded g (end_loop AbortReader ReaderHandle s)"
    by (rule ended, simp add: given_back_by_def)+
  show "guarded g s'"
    using assms(1-4) noted acquired over
    by (cases x) (auto simp: session_step_run_def step_takes_def step_fits_def Let_def taken_by_def
        split: if_splits session_stop.splits)
  show "set (held s') \<subseteq> set (held s) \<union> set_option (step_takes x)"
    using assms(2)
    by (cases x) (auto simp: session_step_run_def step_takes_def Let_def note_event_def acquire_def end_loop_def
        split: if_splits session_stop.splits)
qed

lemma run_steps_balanced:
  assumes "guarded g s" and "run_steps c st xs intr i s = (es, fin)" and "list_all step_fits xs"
    and "distinct (List.map_filter step_takes xs)" and "set (List.map_filter step_takes xs) \<inter> set (held s) = {}"
  shows "balanced (taken_by g) (given_back_by g) es"
  using assms
proof (induction xs arbitrary: i s)
  case Nil
  then show ?case using guarded_leave by auto
next
  case (Cons x xs)
  obtain s' r where step: "session_step_run c st x s = (s', r)" by fastforce
  have fresh: "h \<notin> set (held s)" if "step_takes x = Some h" for h
    using Cons.prems(5) that by (auto simp: List.map_filter_simps)
  have fits: "step_fits x" using Cons.prems(3) by simp
  note after = guarded_step [OF Cons.prems(1) step fits fresh]
  have rest: "distinct (List.map_filter step_takes xs)" "list_all step_fits xs"
    using Cons.prems(3,4) by (auto simp: List.map_filter_simps split: option.splits)
  have apart: "set (List.map_filter step_takes xs) \<inter> set (held s') = {}"
    using Cons.prems(4,5) after(2) by (auto simp: List.map_filter_simps split: option.splits)
  show ?case
  proof (cases r)
    case None
    then show ?thesis
      using Cons.IH [OF after(1) _ rest(2) rest(1) apart] Cons.prems(1,2) step guarded_leave
      by (auto split: if_splits)
  next
    case (Some v)
    then show ?thesis using Cons.prems(1,2) step after(1) guarded_leave by (auto split: if_splits)
  qed
qed

lemma session_steps_fit:
  "list_all step_fits (session_steps g r x)" "distinct (List.map_filter step_takes (session_steps g r x))"
  by (cases "so_stop x"; simp add: session_steps_def step_fits_def step_takes_def stop_session_tasks_def stop_code_def
      List.map_filter_simps)+

lemma allocated_balanced:
  assumes "run_allocated_session c st rd x intr = (es, fin)"
  shows "balanced (taken_by g) (given_back_by g) es"
proof -
  have "guarded g life_new" by (simp add: guarded_def life_new_def)
  from run_steps_balanced [OF this assms [unfolded run_allocated_session_def] session_steps_fit] show ?thesis
    by (simp add: life_new_def)
qed

text \<open>The session itself neither allocates nor deallocates.\<close>

definition own_event :: "life_event \<Rightarrow> bool" where
  "own_event e = (e \<noteq> Allocate \<and> e \<noteq> Deallocate)"

lemma leave_own: "list_all own_event (happened s) \<Longrightarrow> list_all own_event (leave s)"
  by (auto simp: leave_def own_event_def drop_event_def list_all_iff split: life_guard.splits)

lemma step_own:
  "list_all own_event (happened s) \<Longrightarrow> session_step_run c st x s = (s', r) \<Longrightarrow> list_all own_event (happened s')"
  by (cases x) (auto simp: session_step_run_def note_event_def acquire_def end_loop_def own_event_def Let_def
      split: if_splits session_stop.splits)

lemma run_steps_own:
  "list_all own_event (happened s) \<Longrightarrow> run_steps c st xs intr i s = (es, fin) \<Longrightarrow> list_all own_event es"
proof (induction xs arbitrary: i s)
  case Nil
  then show ?case using leave_own by auto
next
  case (Cons x xs)
  obtain s' r where step: "session_step_run c st x s = (s', r)" by fastforce
  show ?case
    using Cons.IH [OF step_own [OF Cons.prems(1) step]] Cons.prems leave_own leave_own [OF step_own [OF Cons.prems(1) step]] step
    by (auto split: if_splits option.splits)
qed

text \<open>A run that nothing interrupts.\<close>

lemma uninterrupted:
  "snd (run_steps c st xs intr i s) = TaskResult v \<Longrightarrow>
    run_steps c st xs intr i s = run_steps c st xs (\<lambda>_. None) j s"
proof (induction xs arbitrary: i j s)
  case (Cons x xs)
  then show ?case by (auto split: if_splits prod.splits option.splits)
qed simp

text \<open>C23: On every way out of a session the TURN allocation is given back exactly once after it was
  obtained, also when it only arrives after the cancellation. The session itself may fail at its
  receiver, its cipher or the handshake, end by cancellation, repair or either loop, panic before any
  of its steps and be aborted at any of its awaits: the registration of its control stream, that of its
  worker and its place in the counter are each given back exactly once if they were taken, and each of
  the two loops either ends, or is aborted once, or, only if the session was interrupted, is left to
  end by itself.\<close>

theorem session_gives_back:
  assumes "run_allocated_session get_config has_state has_ready x intr = (inner, fin)"
  shows "balanced Allocate [Deallocate] (fst (run_session address_ok connect channel (inner, fin) race))
    \<and> balanced RegisterControl [UnregisterControl] inner
    \<and> balanced RegisterWorker [UnregisterWorker] inner
    \<and> balanced CountUp [CountDown] inner
    \<and> balanced SpawnWriter [WriterEnded, AbortWriter, DetachWriter] inner
    \<and> balanced SpawnReader [ReaderEnded, AbortReader, DetachReader] inner
    \<and> (DetachWriter \<in> set inner \<or> DetachReader \<in> set inner \<longrightarrow> fin = TaskPanicked \<or> fin = TaskAborted)"
proof -
  have own: "list_all own_event inner"
    by (rule run_steps_own [OF _ assms [unfolded run_allocated_session_def]]) (simp add: life_new_def)
  then have "phase Allocate [Deallocate] b inner = Some b" for b
    by (intro phase_other) (auto simp: list_all_iff own_event_def)
  then have "balanced Allocate [Deallocate] (fst (run_session address_ok connect channel (inner, fin) race))"
    by (auto simp: run_session_def balanced_def phase_append split: connect_end.splits channel_end.splits)
  moreover have "fin = TaskPanicked \<or> fin = TaskAborted" if "DetachWriter \<in> set inner \<or> DetachReader \<in> set inner"
  proof (rule ccontr)
    assume "\<not> (fin = TaskPanicked \<or> fin = TaskAborted)"
    then obtain v where "fin = TaskResult v" by (cases fin) auto
    then have "run_steps get_config has_state (session_steps get_config has_ready x) (\<lambda>_. None) 0 life_new = (inner, fin)"
      using uninterrupted [of get_config has_state "session_steps get_config has_ready x" intr 0 life_new v 0]
        assms by (simp add: run_allocated_session_def)
    then show False
      using that
      by (cases "so_stop x")
        (auto simp: session_steps_def session_step_run_def stop_session_tasks_def stop_code_def life_new_def leave_def
          acquire_def note_event_def end_loop_def drop_event_def Let_def split: if_splits)
  qed
  moreover note allocated_balanced [OF assms, of ControlGuard] allocated_balanced [OF assms, of WorkerGuard]
    allocated_balanced [OF assms, of CounterGuard] allocated_balanced [OF assms, of WriterHandle]
    allocated_balanced [OF assms, of ReaderHandle]
  ultimately show ?thesis by (simp add: taken_by_def given_back_by_def)
qed

text \<open>A session aborted while it waits for its end, after the grace time of the cancellation.\<close>

theorem session_gives_back_witness:
  "\<exists>inner. run_allocated_session True True True \<lparr>so_receiver = True, so_cipher = True, so_handshake = Delivered,
       so_stop = StopRepair\<rparr> (\<lambda>i. if i = 10 then Some Aborted else None) = (inner, TaskAborted)
     \<and> DetachWriter \<in> set inner
     \<and> balanced RegisterWorker [UnregisterWorker] inner
     \<and> balanced Allocate [Deallocate] (fst (run_session True Connected Bound (inner, TaskAborted) GraceOver))"
proof -
  obtain inner where run: "run_allocated_session True True True \<lparr>so_receiver = True, so_cipher = True,
      so_handshake = Delivered, so_stop = StopRepair\<rparr> (\<lambda>i. if i = 10 then Some Aborted else None) = (inner, TaskAborted)"
    and "DetachWriter \<in> set inner"
    by (simp add: run_allocated_session_def session_steps_def session_step_run_def stop_session_tasks_def
        stop_code_def life_new_def leave_def acquire_def note_event_def end_loop_def drop_event_def awaits_def Let_def)
  then show ?thesis using session_gives_back [OF run] by blast
qed

end
