(* ===== verification/UdpBatch.thy ===== *)
theory UdpBatch
  imports Packet
begin

text \<open>
  Batched datagram I/O, \<^verbatim>\<open>backend/udp_batch.rs\<close>: \<^verbatim>\<open>recvmmsg\<close> and \<^verbatim>\<open>sendmmsg\<close> with a portable
  fallback that is taken for good once the kernel refuses the batch calls. The socket is its
  inbox, what it has sent, and a script of answers of the kernel, one for every system call.
\<close>

section \<open>The socket\<close>

datatype io_error =
    Interrupted | WouldBlock | NoSyscall | OtherOs | InvalidData | InvalidInput | WriteZero

text \<open>
  A receiving call fails as scripted, or else takes what is there; a sending call fails, sends
  short, or accepts some of the datagrams. An ended script is a socket not ready.
\<close>

datatype kernel_answer = Succeeds nat | Short | Fails io_error

record 'a udp_socket =
  inbox :: "(bytes \<times> 'a) list"
  outbox :: "bytes list"
  script :: "kernel_answer list"
  mmsg_enabled :: bool

definition MIN_DATAGRAMS :: nat where "MIN_DATAGRAMS = 16"
definition MAX_DATAGRAMS :: nat where "MAX_DATAGRAMS = 128"

definition adapt_batch_limit :: "nat \<Rightarrow> nat \<Rightarrow> nat" where
  "adapt_batch_limit current received =
     (if received \<ge> current \<and> current < MAX_DATAGRAMS then
        (if current \<le> MIN_DATAGRAMS then 32 else if current \<le> 32 then 64 else MAX_DATAGRAMS)
      else if received = 0 \<or> saturating_mul received 4 \<le> current then
        (if current \<ge> 65 then 64 else if current \<ge> 33 then 32 else MIN_DATAGRAMS)
      else current)"

definition validate_batch_len :: "nat \<Rightarrow> (io_error, unit) res" where
  "validate_batch_len n = ensure (n \<le> MAX_DATAGRAMS) InvalidInput"

definition validate_receive_batch :: "nat \<Rightarrow> nat \<Rightarrow> (io_error, unit) res" where
  "validate_receive_batch packets sources =
     and_then (validate_batch_len packets) (\<lambda>_. ensure (packets = sources) InvalidInput)"

definition mmsg_unavailable :: "io_error \<Rightarrow> bool" where
  "mmsg_unavailable e = (e = NoSyscall)"

section \<open>Receiving\<close>

text \<open>The room of a read area.\<close>

definition read_room :: nat where "read_room = PACKET_CAPACITY - PACKET_HEADROOM"

text \<open>One datagram lands in a buffer, cut at its room; the flag is \<^verbatim>\<open>MSG_TRUNC\<close>.\<close>

definition land :: "packet_buf \<Rightarrow> bytes \<Rightarrow> packet_buf \<times> nat \<times> bool" where
  "land p d = (fill_read_area p (take read_room d), min (length d) read_room, read_room < length d)"

text \<open>The system call and its loop over \<^verbatim>\<open>EINTR\<close>: what is left of the script, and what it got.\<close>

fun recv_call ::
  "nat \<Rightarrow> (bytes \<times> 'a) list \<Rightarrow> kernel_answer list \<Rightarrow> kernel_answer list \<times> (io_error, (bytes \<times> 'a) list) res" where
  "recv_call n box [] = ([], if box = [] then Inl (Fail WouldBlock) else Inr (take n box))"
| "recv_call n box (Fails Interrupted # xs) = recv_call n box xs"
| "recv_call n box (Fails e # xs) = (xs, Inl (Fail e))"
| "recv_call n box (_ # xs) = (xs, if box = [] then Inl (Fail WouldBlock) else Inr (take n box))"

definition set_lengths :: "(packet_buf \<times> nat \<times> bool) list \<Rightarrow> (io_error, packet_buf list) res" where
  "set_lengths ls =
     foldr (\<lambda>(p, n, _) r. and_then r (\<lambda>ps.
        case set_read_len p n of Inr q \<Rightarrow> Inr (q # ps) | Inl Panic \<Rightarrow> Inl Panic | Inl (Fail _) \<Rightarrow> Inl (Fail InvalidData)))
       ls (Inr [])"

text \<open>
  \<^verbatim>\<open>try_recv_mmsg\<close> and \<^verbatim>\<open>try_recvfrom_mmsg\<close>: the received datagrams are checked first, all of them,
  and only then the lengths are set. The result: the buffers filled, with their senders.
\<close>

definition recv_mmsg ::
  "packet_buf list \<Rightarrow> 'a udp_socket \<Rightarrow> 'a udp_socket \<times> (io_error, (packet_buf \<times> 'a) list) res" where
  "recv_mmsg ps s =
     (if ps = [] then (s, Inr [])
      else case recv_call (length ps) (inbox s) (script s) of
        (xs, Inl e) \<Rightarrow> (s\<lparr>script := xs\<rparr>, Inl e)
      | (xs, Inr got) \<Rightarrow>
          let landed = map (\<lambda>(p, d, _). land p d) (zip ps got) in
          (s\<lparr>script := xs, inbox := drop (length got) (inbox s)\<rparr>,
           and_then (ensure (length got \<le> length ps) InvalidData) (\<lambda>_.
           and_then (ensure (list_all (\<lambda>(_, n, truncated). \<not> truncated \<and> n \<le> read_room) landed) InvalidData) (\<lambda>_.
           and_then (set_lengths landed) (\<lambda>qs. Inr (zip qs (map snd got)))))))"

text \<open>The portable loop: one call for every buffer.\<close>

definition recv_one ::
  "packet_buf \<Rightarrow> 'a udp_socket \<Rightarrow> 'a udp_socket \<times> (io_error, packet_buf \<times> 'a) res" where
  "recv_one p s =
     (case script s of
        Fails e # xs \<Rightarrow> (s\<lparr>script := xs\<rparr>, Inl (Fail e))
      | xs \<Rightarrow>
          (case inbox s of
             [] \<Rightarrow> (s\<lparr>script := tl xs\<rparr>, Inl (Fail WouldBlock))
           | (d, a) # box \<Rightarrow>
               let s' = s\<lparr>script := tl xs, inbox := box\<rparr> in
               (case set_read_len (fst (land p d)) (fst (snd (land p d))) of
                  Inr q \<Rightarrow> (s', Inr (q, a))
                | Inl Panic \<Rightarrow> (s', Inl Panic)
                | Inl (Fail _) \<Rightarrow> (s', Inl (Fail InvalidData)))))"

fun recv_portable ::
  "packet_buf list \<Rightarrow> (packet_buf \<times> 'a) list \<Rightarrow> 'a udp_socket \<Rightarrow>
     'a udp_socket \<times> (io_error, (packet_buf \<times> 'a) list) res" where
  "recv_portable [] acc s = (s, Inr acc)"
| "recv_portable (p # ps) acc s =
     (case recv_one p s of
        (s', Inr x) \<Rightarrow> recv_portable ps (acc @ [x]) s'
      | (s', Inl e) \<Rightarrow> (s', if e = Fail WouldBlock \<and> acc \<noteq> [] then Inr acc else Inl e))"

definition try_recv_from ::
  "packet_buf list \<Rightarrow> nat \<Rightarrow> 'a udp_socket \<Rightarrow> 'a udp_socket \<times> (io_error, (packet_buf \<times> 'a) list) res" where
  "try_recv_from ps sources s =
     (case validate_receive_batch (length ps) sources of
        Inl e \<Rightarrow> (s, Inl e)
      | Inr _ \<Rightarrow>
          if \<not> mmsg_enabled s then recv_portable ps [] s
          else (case recv_mmsg ps s of
            (s', Inl (Fail e)) \<Rightarrow>
              (if mmsg_unavailable e then recv_portable ps [] (s'\<lparr>mmsg_enabled := False\<rparr>)
               else (s', Inl (Fail e)))
          | r \<Rightarrow> r))"

definition try_recv_connected ::
  "packet_buf list \<Rightarrow> unit udp_socket \<Rightarrow> unit udp_socket \<times> (io_error, (packet_buf \<times> unit) list) res" where
  "try_recv_connected ps s = try_recv_from ps (length ps) s"

section \<open>Sending\<close>

fun send_call :: "nat \<Rightarrow> kernel_answer list \<Rightarrow> kernel_answer list \<times> (io_error, nat) res" where
  "send_call n [] = ([], Inl (Fail WouldBlock))"
| "send_call n (Fails Interrupted # xs) = send_call n xs"
| "send_call n (Fails e # xs) = (xs, Inl (Fail e))"
| "send_call n (Succeeds k # xs) = (xs, if min k n = 0 then Inl (Fail WouldBlock) else Inr (min k n))"
| "send_call n (Short # xs) = (xs, Inl (Fail WouldBlock))"

definition send_mmsg :: "bytes list \<Rightarrow> 'a udp_socket \<Rightarrow> 'a udp_socket \<times> (io_error, nat) res" where
  "send_mmsg ds s =
     (if ds = [] then (s, Inr 0)
      else case send_call (length ds) (script s) of
        (xs, Inl e) \<Rightarrow> (s\<lparr>script := xs\<rparr>, Inl e)
      | (xs, Inr n) \<Rightarrow>
          if n > length ds then (s\<lparr>script := xs\<rparr>, Inl (Fail InvalidData))
          else (s\<lparr>script := xs, outbox := outbox s @ take n ds\<rparr>, Inr n))"

fun send_portable :: "bytes list \<Rightarrow> nat \<Rightarrow> 'a udp_socket \<Rightarrow> 'a udp_socket \<times> (io_error, nat) res" where
  "send_portable [] sent s = (s, Inr sent)"
| "send_portable (d # ds) sent s =
     (case script s of
        [] \<Rightarrow> (s, if sent > 0 then Inr sent else Inl (Fail WouldBlock))
      | Fails e # xs \<Rightarrow>
          (s\<lparr>script := xs\<rparr>, if e = WouldBlock \<and> sent > 0 then Inr sent else Inl (Fail e))
      | Short # xs \<Rightarrow> (s\<lparr>script := xs\<rparr>, Inl (Fail WriteZero))
      | Succeeds _ # xs \<Rightarrow> send_portable ds (Suc sent) (s\<lparr>script := xs, outbox := outbox s @ [d]\<rparr>))"

definition try_send_connected :: "bytes list \<Rightarrow> 'a udp_socket \<Rightarrow> 'a udp_socket \<times> (io_error, nat) res" where
  "try_send_connected ds s =
     (case validate_batch_len (length ds) of
        Inl e \<Rightarrow> (s, Inl e)
      | Inr _ \<Rightarrow>
          if \<not> mmsg_enabled s then send_portable ds 0 s
          else (case send_mmsg ds s of
            (s', Inl (Fail e)) \<Rightarrow>
              (if mmsg_unavailable e then send_portable ds 0 (s'\<lparr>mmsg_enabled := False\<rparr>)
               else (s', Inl (Fail e)))
          | r \<Rightarrow> r))"

text \<open>
  The waiting loop of \<^verbatim>\<open>send_connected\<close> and \<^verbatim>\<open>send_to\<close>, for at most \<open>fuel\<close> waits; \<open>None\<close> is a loop
  that still waits.
\<close>

fun send_loop ::
  "nat \<Rightarrow> bytes list \<Rightarrow> nat \<Rightarrow> 'a udp_socket \<Rightarrow> 'a udp_socket \<times> nat \<times> (io_error, unit) res option" where
  "send_loop 0 ds sent s = (s, sent, if sent < length ds then None else Some (Inr ()))"
| "send_loop (Suc fuel) ds sent s =
     (if sent < length ds then
        (case try_send_connected (drop sent ds) s of
           (s', Inr n) \<Rightarrow> send_loop fuel ds (sent + n) s'
         | (s', Inl (Fail WouldBlock)) \<Rightarrow> send_loop fuel ds sent s'
         | (s', Inl e) \<Rightarrow> (s', sent, Some (Inl e)))
      else (s, sent, Some (Inr ())))"

definition send_connected ::
  "nat \<Rightarrow> bytes list \<Rightarrow> 'a udp_socket \<Rightarrow> 'a udp_socket \<times> nat \<times> (io_error, unit) res option" where
  "send_connected fuel ds s =
     (case validate_batch_len (length ds) of
        Inl e \<Rightarrow> (s, 0, Some (Inl e))
      | Inr _ \<Rightarrow> send_loop fuel ds 0 s)"

section \<open>What is sent\<close>

lemma send_portable_prefix:
  "send_portable ds sent s = (s', r) \<Longrightarrow>
     \<exists>k \<le> length ds. outbox s' = outbox s @ take k ds \<and> (\<forall>n. r = Inr n \<longrightarrow> n = sent + k)
       \<and> r \<noteq> Inl Panic"
proof (induction ds sent s arbitrary: s' r rule: send_portable.induct)
  case (2 d ds sent s)
  show ?case
  proof (cases "\<exists>k xs. script s = Succeeds k # xs")
    case True
    then obtain k xs where xs: "script s = Succeeds k # xs" by blast
    obtain j where "j \<le> length ds" "outbox s' = outbox s @ [d] @ take j ds"
      "\<forall>n. r = Inr n \<longrightarrow> n = Suc sent + j" "r \<noteq> Inl Panic"
      using "2.IH" [OF xs refl, of s' r] "2.prems" xs by auto
    then show ?thesis by (intro exI [of _ "Suc j"]) auto
  next
    case False
    then have "outbox s' = outbox s" "\<forall>n. r = Inr n \<longrightarrow> n = sent" "r \<noteq> Inl Panic"
      using "2.prems" by (auto split: list.splits kernel_answer.splits if_splits)
    then show ?thesis by (intro exI [of _ 0]) auto
  qed
qed auto

lemma send_call_bound: "send_call n xs = (ys, Inr k) \<Longrightarrow> k \<le> n"
  by (induction n xs rule: send_call.induct) (auto split: if_splits)

lemma send_call_no_panic: "send_call n xs = (ys, r) \<Longrightarrow> r \<noteq> Inl Panic"
  by (induction n xs rule: send_call.induct) (auto split: if_splits)

lemma send_mmsg_prefix:
  assumes "send_mmsg ds s = (s', r)"
  shows "(\<exists>k \<le> length ds. outbox s' = outbox s @ take k ds \<and> (\<forall>n. r = Inr n \<longrightarrow> n = k))"
    and "r \<noteq> Inl Panic" and "is_ok r \<or> outbox s' = outbox s"
proof -
  have "r \<noteq> Inl Panic \<and> (is_ok r \<or> outbox s' = outbox s)
      \<and> (\<exists>k \<le> length ds. outbox s' = outbox s @ take k ds \<and> (\<forall>n. r = Inr n \<longrightarrow> n = k))"
  proof (cases "ds = []")
    case True
    then show ?thesis using assms by (auto simp: send_mmsg_def)
  next
    case False
    obtain xs x where c: "send_call (length ds) (script s) = (xs, x)" by fastforce
    show ?thesis
    proof (cases x)
      case (Inl e)
      then show ?thesis using assms False c send_call_no_panic [OF c] by (auto simp: send_mmsg_def)
    next
      case (Inr n)
      then show ?thesis using assms False c send_call_bound [of "length ds" "script s" xs n]
        by (auto simp: send_mmsg_def)
    qed
  qed
  then show "\<exists>k \<le> length ds. outbox s' = outbox s @ take k ds \<and> (\<forall>n. r = Inr n \<longrightarrow> n = k)"
    and "r \<noteq> Inl Panic" and "is_ok r \<or> outbox s' = outbox s" by blast+
qed

lemma try_send_prefix:
  assumes "try_send_connected ds s = (s', r)"
  shows "\<exists>k \<le> length ds. outbox s' = outbox s @ take k ds \<and> (\<forall>n. r = Inr n \<longrightarrow> n = k)"
proof (cases "length ds \<le> MAX_DATAGRAMS \<and> mmsg_enabled s")
  case False
  then show ?thesis
    using assms send_portable_prefix [of ds 0 s s' r]
    by (auto simp: try_send_connected_def validate_batch_len_def ensure_def split: if_splits)
next
  case True
  obtain s1 x where m: "send_mmsg ds s = (s1, x)" by fastforce
  have batch: "try_send_connected ds s =
      (case x of Inl (Fail e) \<Rightarrow>
          (if mmsg_unavailable e then send_portable ds 0 (s1\<lparr>mmsg_enabled := False\<rparr>) else (s1, Inl (Fail e)))
        | _ \<Rightarrow> (s1, x))"
    using True m by (simp add: try_send_connected_def validate_batch_len_def split: sum.splits fault.splits)
  show ?thesis
  proof (cases "\<exists>e. x = Inl (Fail e) \<and> mmsg_unavailable e")
    case True
    then have "outbox s1 = outbox s" using send_mmsg_prefix(3) [OF m] by auto
    moreover have "send_portable ds 0 (s1\<lparr>mmsg_enabled := False\<rparr>) = (s', r)" using assms batch True by auto
    ultimately show ?thesis using send_portable_prefix by fastforce
  next
    case False
    then have "s' = s1" "r = x" using assms batch by (auto split: sum.splits fault.splits if_splits)
    then show ?thesis using send_mmsg_prefix(1) [OF m] by simp
  qed
qed

text \<open>A call that would block has sent nothing, so that repeating it repeats nothing.\<close>

lemma send_portable_blocked:
  "send_portable ds sent s = (s', Inl (Fail WouldBlock)) \<Longrightarrow> sent = 0 \<and> outbox s' = outbox s"
  by (induction ds sent s rule: send_portable.induct)
    (auto split: list.splits kernel_answer.splits if_splits)

lemma try_send_blocked:
  assumes "try_send_connected ds s = (s', Inl (Fail WouldBlock))"
  shows "outbox s' = outbox s"
proof -
  obtain s1 x where m: "send_mmsg ds s = (s1, x)" by fastforce
  have same: "is_ok x \<or> outbox s1 = outbox s" using send_mmsg_prefix(3) [OF m] .
  show ?thesis
    using assms m same
      send_portable_blocked [of ds 0 s s'] send_portable_blocked [of ds 0 "s1\<lparr>mmsg_enabled := False\<rparr>" s']
    by (auto simp: try_send_connected_def validate_batch_len_def ensure_def
        split: if_splits sum.splits fault.splits)
qed

lemma send_loop_prefix:
  "send_loop fuel ds sent s = (s', n, r) \<Longrightarrow> sent \<le> length ds \<Longrightarrow> outbox s = start @ take sent ds \<Longrightarrow>
     \<exists>k \<le> length ds. outbox s' = start @ take k ds \<and> (r = Some (Inr ()) \<longrightarrow> k = length ds)
       \<and> (r = None \<longrightarrow> n = k)"
proof (induction fuel arbitrary: sent s)
  case (Suc fuel)
  show ?case
  proof (cases "sent < length ds")
    case True
    obtain s1 x where t: "try_send_connected (drop sent ds) s = (s1, x)" by fastforce
    obtain k where k: "k \<le> length ds - sent" "outbox s1 = outbox s @ take k (drop sent ds)"
      "\<forall>n. x = Inr n \<longrightarrow> n = k" using try_send_prefix [OF t] by auto
    then have out: "outbox s1 = start @ take (sent + k) ds"
      using Suc.prems(3) by (simp add: take_add)
    show ?thesis
    proof (cases x)
      case (Inr m)
      then have "m = k" using k(3) by simp
      then show ?thesis using Suc.IH [of "sent + k" s1] Suc.prems(1) True t Inr k(1) out by simp
    next
      case (Inl f)
      show ?thesis
      proof (cases "f = Fail WouldBlock")
        case True
        then have "outbox s1 = start @ take sent ds"
          using try_send_blocked [of "drop sent ds" s s1] t Inl Suc.prems(3) by simp
        then show ?thesis using Suc.IH [of sent s1] Suc.prems(1,2) \<open>sent < length ds\<close> t Inl True by simp
      next
        case False
        then have "s' = s1" "r = Some (Inl f)" using Suc.prems(1) True t Inl
          by (auto split: fault.splits io_error.splits)
        then show ?thesis using out k(1) \<open>sent < length ds\<close> by (intro exI [of _ "sent + k"]) simp
      qed
    qed
  qed (use Suc.prems in auto)
qed auto

lemma send_connected_prefix:
  assumes "send_connected fuel ds s = (s', n, r)"
  shows "\<exists>k \<le> length ds. outbox s' = outbox s @ take k ds \<and> (r = Some (Inr ()) \<longrightarrow> k = length ds)"
proof (cases "length ds \<le> MAX_DATAGRAMS")
  case True
  then have "send_loop fuel ds 0 s = (s', n, r)"
    using assms by (simp add: send_connected_def validate_batch_len_def)
  from send_loop_prefix [OF this, of "outbox s"] show ?thesis by auto
next
  case False
  then have "s' = s" "r \<noteq> Some (Inr ())"
    using assms by (auto simp: send_connected_def validate_batch_len_def ensure_def)
  then show ?thesis by (intro exI [of _ 0]) simp
qed

text \<open>C24: However the kernel splits, refuses or interrupts the calls, and also when the batch call turns
  out to be unavailable half-way, what the socket has sent is always a prefix of the datagrams, each
  once and in order, and it is all of them when the function returns success.\<close>

theorem udp_send_prefix:
  assumes "send_connected fuel ds s = (s', n, r)"
  shows "\<exists>k \<le> length ds. outbox s' = outbox s @ take k ds \<and> (r = Some (Inr ()) \<longrightarrow> k = length ds)"
  by (rule send_connected_prefix [OF assms])

theorem udp_send_prefix_witness:
  "outbox (fst (send_connected 9 [[1], [2], [3]]
      \<lparr>inbox = [] :: (bytes \<times> unit) list, outbox = [],
       script = [Succeeds 1, Fails Interrupted, Fails NoSyscall, Succeeds 1, Fails WouldBlock, Succeeds 1],
       mmsg_enabled = True\<rparr>)) = [[1], [2], [3]]
   \<and> (\<exists>k \<le> 3. outbox (fst (send_connected 2 [[1], [2], [3]]
      \<lparr>inbox = [] :: (bytes \<times> unit) list, outbox = [], script = [Succeeds 1], mmsg_enabled = True\<rparr>))
        = take k [[1], [2], [3]])"
proof
  show "outbox (fst (send_connected 9 [[1], [2], [3]]
      \<lparr>inbox = [] :: (bytes \<times> unit) list, outbox = [],
       script = [Succeeds 1, Fails Interrupted, Fails NoSyscall, Succeeds 1, Fails WouldBlock, Succeeds 1],
       mmsg_enabled = True\<rparr>)) = [[1], [2], [3]]"
    by code_simp
  let ?s = "\<lparr>inbox = [] :: (bytes \<times> unit) list, outbox = [], script = [Succeeds 1], mmsg_enabled = True\<rparr>"
  obtain s' n r where run: "send_connected 2 [[1], [2], [3]] ?s = (s', n, r)" by (metis prod_cases3)
  from udp_send_prefix [OF run] obtain k where "k \<le> length [[1], [2], [3 :: byte]]" "outbox s' = take k [[1], [2], [3]]"
    by auto
  then show "\<exists>k \<le> 3. outbox (fst (send_connected 2 [[1], [2], [3]] ?s)) = take k [[1], [2], [3]]"
    unfolding run fst_conv by (intro exI [of _ k]) simp
qed

section \<open>What is received\<close>

lemma land_loads:
  assumes "wf_buf p"
  obtains q where "set_read_len (fst (land p d)) (fst (snd (land p d))) = Inr q" and "as_slice q = take read_room d"
proof -
  have "length (take read_room d) \<le> PACKET_CAPACITY - PACKET_HEADROOM" by (simp add: read_room_def)
  from load_bytes_ok [OF assms this] obtain q where
    "load_bytes p (take read_room d) = Inr q" "as_slice q = take read_room d" by blast
  then show ?thesis using that by (simp add: land_def load_bytes_def min.commute)
qed

lemma recv_one_exact:
  assumes "wf_buf p" and "recv_one p s = (s', r)"
  shows "case r of
      Inl _ \<Rightarrow> inbox s' = inbox s
    | Inr (q, a) \<Rightarrow> \<exists>d box. inbox s = (d, a) # box \<and> inbox s' = box \<and> as_slice q = take read_room d"
proof (cases "(\<exists>e xs. script s = Fails e # xs) \<or> inbox s = []")
  case True
  then show ?thesis using assms(2)
    by (auto simp: recv_one_def Let_def split: list.splits kernel_answer.splits)
next
  case False
  then obtain d a box where box: "inbox s = (d, a) # box" by (cases "inbox s") auto
  obtain q where q: "set_read_len (fst (land p d)) (fst (snd (land p d))) = Inr q"
    "as_slice q = take read_room d" using assms(1) by (rule land_loads)
  have "recv_one p s = (s\<lparr>script := tl (script s), inbox := box\<rparr>, Inr (q, a))"
    using False q(1) box by (auto simp: recv_one_def Let_def split: list.splits kernel_answer.splits)
  then show ?thesis using assms(2) box q(2) by auto
qed

lemma recv_portable_exact:
  "recv_portable ps acc s = (s', Inr qs) \<Longrightarrow> \<forall>p \<in> set ps. wf_buf p \<Longrightarrow>
     \<exists>k \<le> length ps. inbox s' = drop k (inbox s) \<and> k \<le> length (inbox s)
       \<and> map (\<lambda>(q, a). (as_slice q, a)) qs =
           map (\<lambda>(q, a). (as_slice q, a)) acc @ map (\<lambda>(d, a). (take read_room d, a)) (take k (inbox s))"
proof (induction ps arbitrary: acc s)
  case (Cons p ps)
  obtain s1 r where one: "recv_one p s = (s1, r)" by fastforce
  have wf: "wf_buf p" using Cons.prems(2) by simp
  show ?case
  proof (cases r)
    case (Inl e)
    then have "inbox s' = inbox s" "qs = acc"
      using Cons.prems(1) recv_one_exact [OF wf one] one by (auto split: if_splits)
    then show ?thesis by (intro exI [of _ 0]) simp
  next
    case (Inr x)
    then obtain q a d box where x: "r = Inr (q, a)" "inbox s = (d, a) # box" "inbox s1 = box"
      "as_slice q = take read_room d" using recv_one_exact [OF wf one] by (cases x) auto
    have "recv_portable ps (acc @ [(q, a)]) s1 = (s', Inr qs)" using Cons.prems(1) one x(1) by simp
    from Cons.IH [OF this] Cons.prems(2) obtain k where "k \<le> length ps" "inbox s' = drop k box"
      "k \<le> length box" "map (\<lambda>(q, a). (as_slice q, a)) qs =
        map (\<lambda>(q, a). (as_slice q, a)) (acc @ [(q, a)]) @ map (\<lambda>(d, a). (take read_room d, a)) (take k box)"
      by (auto simp: x(3))
    then show ?thesis using x by (intro exI [of _ "Suc k"]) simp
  qed
qed auto

text \<open>
  The batch call is all or nothing: one datagram too large for its buffer makes it fail, after it
  has taken the whole batch out of the socket.
\<close>

lemma recv_mmsg_oversized:
  assumes "ps \<noteq> []" and "recv_call (length ps) (inbox s) (script s) = (xs, Inr got)"
    and "length got \<le> length ps" and "\<exists>x \<in> set got. read_room < length (fst x)"
  shows "\<exists>s'. recv_mmsg ps s = (s', Inl (Fail InvalidData)) \<and> inbox s' = drop (length got) (inbox s)"
proof -
  obtain i where i: "i < length got" "read_room < length (fst (got ! i))"
    using assms(4) by (auto simp: in_set_conv_nth)
  let ?landed = "map (\<lambda>(p, d, _). land p d) (zip ps got)"
  have "?landed ! i \<in> set ?landed" using i(1) assms(3) by (intro nth_mem) simp
  moreover have "snd (snd (?landed ! i))"
    using i assms(3) by (simp add: land_def case_prod_beta)
  ultimately have "\<not> list_all (\<lambda>(_, n, truncated). \<not> truncated \<and> n \<le> read_room) ?landed"
    unfolding list_all_iff case_prod_beta by blast
  then show ?thesis using assms(1-3) by (simp add: recv_mmsg_def Let_def)
qed

end
