(* ===== verification/TurnWire.thy ===== *)
theory TurnWire
  imports Packet Bytes
begin

text \<open>
  What a TURN connection carries: ChannelData messages around the packets of a session, of
  \<^verbatim>\<open>backend/turn.rs\<close>, and their framing together with STUN control messages on a TCP or TLS
  stream, of \<^verbatim>\<open>backend/turn_stream.rs\<close>.
\<close>

section \<open>ChannelData\<close>

definition MAGIC_COOKIE_BYTES :: bytes where "MAGIC_COOKIE_BYTES = [0x21, 0x12, 0xa4, 0x42]"

definition valid_channel :: "u16 \<Rightarrow> bool" where
  "valid_channel c = (0x4000 \<le> c \<and> c \<le> 0x7fff)"

definition channel_data_header :: "bytes \<Rightarrow> (u16 \<times> nat) option" where
  "channel_data_header wire =
     (if length wire < 4 \<or> wire ! 0 AND 0xc0 \<noteq> 0x40 then None
      else
        let c = u16_of (wire ! 0) (wire ! 1); n = unat (u16_of (wire ! 2) (wire ! 3)) in
        if \<not> valid_channel c \<or> n > length wire - 4 \<or> length wire - 4 - n > 3 then None else Some (c, n))"

definition is_stun :: "bytes \<Rightarrow> bool" where
  "is_stun wire = (20 \<le> length wire \<and> wire ! 0 AND 0xc0 = 0 \<and> sub_list wire 4 8 = MAGIC_COOKIE_BYTES)"

datatype channel_error = InvalidChannel | PayloadTooLarge | ExceedsBuffer | ChannelBufError packet_error

definition channel_data_padding :: "packet_buf \<Rightarrow> u16 \<Rightarrow> (channel_error, nat) res" where
  "channel_data_padding p c =
     and_then (ensure (valid_channel c) InvalidChannel) (\<lambda>_.
     and_then (ensure (buf_len p \<le> 65535) PayloadTooLarge) (\<lambda>_.
     let padding = (4 - buf_len p mod 4) mod 4 in
     and_then (ensure (4 \<le> range_start p
        \<and> (case checked_add (range_end p) padding of None \<Rightarrow> False | Some e \<Rightarrow> e \<le> PACKET_CAPACITY)) ExceedsBuffer) (\<lambda>_.
     Inr padding)))"

definition of_packet :: "(packet_error, 'a) res \<Rightarrow> (channel_error, 'a) res" where
  "of_packet r = (case r of Inl (Fail e) \<Rightarrow> Inl (Fail (ChannelBufError e)) | Inl Panic \<Rightarrow> Inl Panic | Inr x \<Rightarrow> Inr x)"

lemma of_packet_Inr_conv [simp]: "of_packet r = Inr x \<longleftrightarrow> r = Inr x"
  by (auto simp: of_packet_def split: sum.splits fault.splits)

lemma of_packet_Inr [simp]: "of_packet (Inr x) = Inr x"
  by (simp add: of_packet_def)

definition encode_channel_data :: "packet_buf \<Rightarrow> u16 \<Rightarrow> (channel_error, packet_buf) res" where
  "encode_channel_data p c =
     and_then (channel_data_padding p c) (\<lambda>padding.
     and_then (of_packet (append_bytes p (replicate padding 0))) (\<lambda>q.
     of_packet (prepend_bytes q (be16 c @ be16 (of_nat (buf_len p))))))"

text \<open>What a receiver on the right channel makes of a datagram.\<close>

definition open_channel_data :: "u16 \<Rightarrow> packet_buf \<Rightarrow> packet_buf option" where
  "open_channel_data c p =
     (case channel_data_header (as_slice p) of
        None \<Rightarrow> None
      | Some (c', n) \<Rightarrow>
          if c' \<noteq> c then None
          else (case trim_front p 4 of
            Inl _ \<Rightarrow> None
          | Inr q \<Rightarrow> (case truncate_buf q n of Inl _ \<Rightarrow> None | Inr r \<Rightarrow> Some r)))"

section \<open>Frames of a stream\<close>

definition MAX_CONTROL_FRAME_BYTES :: nat where "MAX_CONTROL_FRAME_BYTES = 4096"
definition MAX_DATA_FRAME_BYTES :: nat where "MAX_DATA_FRAME_BYTES = PACKET_CAPACITY - PACKET_HEADROOM"
definition STREAM_READ_BUFFER_BYTES :: nat where "STREAM_READ_BUFFER_BYTES = MAX_CONTROL_FRAME_BYTES"

datatype stream_error =
    UnalignedLength | ControlTooLong | BadCookie | ReservedType | DataTooLong
  | BufferLimit | RemoteClosed

datatype frame_kind = KControl nat | KData nat nat

definition frame_start :: "bytes \<Rightarrow> (stream_error, frame_kind option) res" where
  "frame_start b =
     (if length b < 4 then Inr None
      else
        let declared = unat (u16_of (b ! 2) (b ! 3)) in
        if b ! 0 AND 0xc0 = 0 then
          and_then (ensure (declared mod 4 = 0) UnalignedLength) (\<lambda>_.
          and_then (ensure (20 + declared \<le> MAX_CONTROL_FRAME_BYTES) ControlTooLong) (\<lambda>_.
          if length b < 8 then Inr None
          else
            and_then (ensure (sub_list b 4 8 = MAGIC_COOKIE_BYTES) BadCookie) (\<lambda>_.
            Inr (Some (KControl (20 + declared))))))
        else if b ! 0 AND 0xc0 \<noteq> 0x40 then Inl (Fail ReservedType)
        else
          let padding = (4 - declared mod 4) mod 4 in
          and_then (ensure (4 + declared + padding \<le> MAX_DATA_FRAME_BYTES) DataTooLong) (\<lambda>_.
          Inr (Some (KData (4 + declared) padding))))"

text \<open>A complete frame at the front of the buffer, and the rest of the buffer.\<close>

datatype raw_frame = RawControl bytes | RawData bytes

definition decode_frame :: "bytes \<Rightarrow> (stream_error, (raw_frame \<times> bytes) option) res" where
  "decode_frame b =
     and_then (frame_start b) (\<lambda>kind.
     case kind of
       None \<Rightarrow> Inr None
     | Some (KControl n) \<Rightarrow> Inr (if length b < n then None else Some (RawControl (take n b), drop n b))
     | Some (KData n padding) \<Rightarrow>
         Inr (if length b < n + padding then None
              else Some (RawData (take (n + padding) b), drop (n + padding) b)))"

text \<open>Data frames are copied into a packet of the pool, if it has one.\<close>

datatype stream_frame = ControlFrame bytes | DataFrame packet_buf | DataDropped

definition copy_channel_data :: "bytes \<Rightarrow> packet_buf option \<Rightarrow> (packet_error, stream_frame) res" where
  "copy_channel_data wire slot =
     (case slot of
        None \<Rightarrow> Inr DataDropped
      | Some p \<Rightarrow>
          and_then (set_read_len p (length wire)) (\<lambda>q.
          Inr (DataFrame (write_storage q (range_start q) wire))))"

text \<open>The decoder by the kind of the frame: its length on the wire and its constructor.\<close>

fun kind_bytes :: "frame_kind \<Rightarrow> nat" where
  "kind_bytes (KControl n) = n"
| "kind_bytes (KData n padding) = n + padding"

fun kind_frame :: "frame_kind \<Rightarrow> bytes \<Rightarrow> raw_frame" where
  "kind_frame (KControl _) w = RawControl w"
| "kind_frame (KData _ _) w = RawData w"

lemma decode_frame_kind:
  "decode_frame b =
     (case frame_start b of
        Inl e \<Rightarrow> Inl e
      | Inr None \<Rightarrow> Inr None
      | Inr (Some k) \<Rightarrow>
          Inr (if length b < kind_bytes k then None
               else Some (kind_frame k (take (kind_bytes k) b), drop (kind_bytes k) b)))"
  by (simp add: decode_frame_def and_then_def split: sum.split option.split frame_kind.split)

lemma frame_start_bounds:
  "frame_start b = Inr (Some k) \<Longrightarrow> 4 \<le> length b \<and> 4 \<le> kind_bytes k \<and> kind_bytes k \<le> 4096"
  by (auto simp: frame_start_def and_then_ensure Let_def MAX_CONTROL_FRAME_BYTES_def
      MAX_DATA_FRAME_BYTES_def packet_consts split: if_splits)

lemma decode_frame_SomeD:
  assumes "decode_frame b = Inr (Some (f, rest))"
  obtains k where "frame_start b = Inr (Some k)" and "kind_bytes k \<le> length b"
    and "f = kind_frame k (take (kind_bytes k) b)" and "rest = drop (kind_bytes k) b"
  using assms that by (auto simp: decode_frame_kind split: sum.splits option.splits if_splits)

lemma decode_frame_shrinks: "decode_frame b = Inr (Some (f, rest)) \<Longrightarrow> length rest < length b"
  by (erule decode_frame_SomeD, drule frame_start_bounds) auto

text \<open>
  The reader over the results of its reads, an empty one being the end of the stream: the frames it
  yields, and the error it ends with, if any.
\<close>

function read_frames :: "bytes \<Rightarrow> bytes list \<Rightarrow> raw_frame list \<times> stream_error option" where
  "read_frames b reads =
     (case decode_frame b of
        Inl (Fail e) \<Rightarrow> ([], Some e)
      | Inl Panic \<Rightarrow> ([], None)
      | Inr (Some (f, rest)) \<Rightarrow> (let (fs, e) = read_frames rest reads in (f # fs, e))
      | Inr None \<Rightarrow>
          if length b \<ge> STREAM_READ_BUFFER_BYTES then ([], Some BufferLimit)
          else (case reads of
            [] \<Rightarrow> ([], None)
          | r # rs \<Rightarrow> if r = [] then ([], Some RemoteClosed) else read_frames (b @ r) rs))"
  by pat_completeness auto
termination
  by (relation "measures [\<lambda>(b, reads). length reads, \<lambda>(b, reads). length b]")
    (auto dest!: sym [of _ "decode_frame _"] decode_frame_shrinks)

declare read_frames.simps [simp del]

section \<open>Decoding does not depend on what follows\<close>

text \<open>
  The decision about a frame is taken on a prefix: once the decoder has a verdict, a frame or an
  error, bytes appended to the buffer do not change it.
\<close>

lemma nth_append_4: "4 \<le> length b \<Longrightarrow> i < 4 \<Longrightarrow> (b @ c) ! i = b ! i"
  by (simp add: nth_append)

lemma sub_list_append: "hi \<le> length b \<Longrightarrow> sub_list (b @ c) lo hi = sub_list b lo hi"
  by (simp add: sub_list_def)

lemma frame_start_append:
  "frame_start b = Inr (Some k) \<Longrightarrow> frame_start (b @ c) = Inr (Some k)"
  by (auto simp: frame_start_def and_then_ensure nth_append_4 sub_list_append Let_def
      split: if_splits)

lemma frame_start_append_err:
  "frame_start b = Inl e \<Longrightarrow> frame_start (b @ c) = Inl e"
  by (auto simp: frame_start_def and_then_ensure nth_append_4 sub_list_append Let_def
      split: if_splits)

lemma decode_frame_append:
  assumes "decode_frame b = Inr (Some (f, rest))"
  shows "decode_frame (b @ c) = Inr (Some (f, rest @ c))"
  using assms
proof (rule decode_frame_SomeD)
  fix k
  assume "frame_start b = Inr (Some k)" and le: "kind_bytes k \<le> length b"
    and "f = kind_frame k (take (kind_bytes k) b)" and "rest = drop (kind_bytes k) b"
  then show ?thesis
    using frame_start_append [of b k c] by (simp add: decode_frame_kind)
qed

lemma decode_frame_append_err: "decode_frame b = Inl e \<Longrightarrow> decode_frame (b @ c) = Inl e"
  using frame_start_append_err [of b e c]
  by (auto simp: decode_frame_kind split: sum.splits option.splits if_splits)

text \<open>A frame is as long as its header says, and never longer than the limit of the reader.\<close>

definition whole_frame :: "raw_frame \<Rightarrow> bytes \<Rightarrow> bool" where
  "whole_frame f w = (decode_frame w = Inr (Some (f, [])))"

lemma whole_frame_bound: "whole_frame f w \<Longrightarrow> length w \<le> STREAM_READ_BUFFER_BYTES"
  unfolding whole_frame_def
  by (erule decode_frame_SomeD, drule frame_start_bounds)
    (auto simp: STREAM_READ_BUFFER_BYTES_def MAX_CONTROL_FRAME_BYTES_def)

lemma whole_frame_append: "whole_frame f w \<Longrightarrow> decode_frame (w @ c) = Inr (Some (f, c))"
  using decode_frame_append [of w f "[]" c] by (simp add: whole_frame_def)

lemma whole_frame_nonempty: "whole_frame f w \<Longrightarrow> w \<noteq> []"
  by (auto simp: whole_frame_def decode_frame_def frame_start_def)

text \<open>A proper prefix of a frame is neither a frame nor an error: the reader waits.\<close>

lemma whole_frame_prefix:
  assumes "whole_frame f (b @ c)" and "c \<noteq> []"
  shows "decode_frame b = Inr None"
proof (cases "decode_frame b")
  case (Inl e)
  then show ?thesis
    using decode_frame_append_err [OF Inl, of c] assms(1) by (simp add: whole_frame_def)
next
  case (Inr r)
  then show ?thesis
  proof (cases r)
    case (Some p)
    then obtain f' rest where "decode_frame b = Inr (Some (f', rest))"
      using Inr by (cases p) auto
    from decode_frame_append [OF this, of c] show ?thesis
      using assms by (simp add: whole_frame_def)
  qed (simp add: Inr)
qed

text \<open>
  However the stream is cut into reads, the reader yields exactly the frames that were written.
\<close>

lemma read_frames_frame:
  "decode_frame b = Inr (Some (f, rest)) \<Longrightarrow>
     read_frames b reads = (let (fs, e) = read_frames rest reads in (f # fs, e))"
  by (subst read_frames.simps) simp

lemma read_frames_wait:
  "decode_frame b = Inr None \<Longrightarrow> length b < STREAM_READ_BUFFER_BYTES \<Longrightarrow>
     read_frames b reads =
       (case reads of [] \<Rightarrow> ([], None)
        | r # rs \<Rightarrow> if r = [] then ([], Some RemoteClosed) else read_frames (b @ r) rs)"
  by (subst read_frames.simps) simp

lemma decode_frame_Nil [simp]: "decode_frame [] = Inr None"
  by (simp add: decode_frame_def frame_start_def)

lemma read_frames_front:
  assumes "list_all2 whole_frame fs ws"
  shows "read_frames (concat ws @ b) reads =
    (let (gs, e) = read_frames b reads in (fs @ gs, e))"
  using assms
proof (induction fs ws rule: list_all2_induct)
  case Nil
  show ?case by simp
next
  case (Cons f fs w ws)
  have "decode_frame (concat (w # ws) @ b) = Inr (Some (f, concat ws @ b))"
    using whole_frame_append [OF Cons.hyps(1), of "concat ws @ b"] by simp
  from read_frames_frame [OF this] show ?case
    by (simp add: Cons.IH split: prod.split)
qed

lemma read_frames_all:
  assumes "list_all2 whole_frame fs ws" and "concat ws = b @ concat reads"
    and "\<forall>r\<in>set reads. r \<noteq> []"
  shows "read_frames b reads = (fs, None)"
  using assms
proof (induction b reads arbitrary: fs ws rule: read_frames.induct)
  case (1 b reads)
  show ?case
  proof (cases fs)
    case Nil
    then have "b = []" and "concat reads = []" using "1.prems" by auto
    then have "b = []" and "reads = []" using "1.prems"(3) by (cases reads; simp)+
    then show ?thesis
      using read_frames_wait [of "[]" "[]"] Nil by (simp add: STREAM_READ_BUFFER_BYTES_def MAX_CONTROL_FRAME_BYTES_def)
  next
    case (Cons f gs)
    then obtain w vs where ws: "ws = w # vs" and w: "whole_frame f w"
      and rest: "list_all2 whole_frame gs vs"
      using "1.prems"(1) by (auto simp: list_all2_Cons1)
    show ?thesis
    proof (cases "length w \<le> length b")
      case True
      define c where "c = drop (length w) b"
      have "w = take (length w) b" and vs: "concat vs = c @ concat reads"
        using True "1.prems"(2) ws by (simp_all add: c_def append_eq_append_conv_if)
      then have b: "b = w @ c" unfolding c_def by (metis append_take_drop_id)
      have d: "decode_frame b = Inr (Some (f, c))"
        unfolding b by (rule whole_frame_append [OF w])
      have "read_frames c reads = (gs, None)"
        by (rule "1.IH"(2) [OF d refl refl rest vs "1.prems"(3)])
      then show ?thesis
        by (simp add: read_frames_frame [OF d] Cons)
    next
      case False
      then obtain c where wb: "w = b @ c" and c: "c \<noteq> []"
        using "1.prems"(2) ws by (auto simp: append_eq_append_conv_if) (metis append_take_drop_id drop_eq_Nil le_refl not_le)
      have d: "decode_frame b = Inr None"
        using whole_frame_prefix w c by (simp add: wb)
      have room: "length b < STREAM_READ_BUFFER_BYTES"
        using whole_frame_bound [OF w] False by simp
      have "concat reads \<noteq> []"
        using "1.prems"(2) c unfolding ws wb by (cases "concat reads") (auto simp del: concat_eq_Nil_conv)
      then obtain r rs where reads: "reads = r # rs" by (cases reads) auto
      then have r: "r \<noteq> []" using "1.prems"(3) by simp
      have "read_frames (b @ r) rs = (fs, None)"
        by (rule "1.IH"(1) [OF d refl _ reads r "1.prems"(1)])
          (use room "1.prems" reads in auto)
      then show ?thesis
        by (simp add: read_frames_wait [OF d room] reads r)
    qed
  qed
qed

text \<open>C25: whatever the cut of the byte stream into reads, the reader of a TURN connection over TCP
  or TLS yields exactly the frames written to it, in order, and neither reports an error nor
  exceeds its buffer limit.\<close>

theorem turn_stream_chunking:
  assumes "list_all2 whole_frame fs ws" and "concat reads = concat ws" and "[] \<notin> set reads"
  shows "read_frames [] reads = (fs, None)"
proof (rule read_frames_all [OF assms(1)])
  show "concat ws = [] @ concat reads" by (simp add: assms(2))
  show "\<forall>r\<in>set reads. r \<noteq> []" using assms(3) by auto
qed

definition sample_data_frame :: bytes where
  "sample_data_frame = [0x40, 0, 0, 3, 0xa1, 0xb2, 0xc3, 0]"

definition sample_control_frame :: bytes where
  "sample_control_frame = [1, 1, 0, 0, 0x21, 0x12, 0xa4, 0x42] @ replicate 12 0"

lemma whole_samples:
  "whole_frame (RawData sample_data_frame) sample_data_frame"
  "whole_frame (RawControl sample_control_frame) sample_control_frame"
  unfolding whole_frame_def by code_simp+

lemma turn_stream_chunking_witness:
  "read_frames [] [[0x40, 0, 0], [3, 0xa1, 0xb2, 0xc3, 0, 1, 1], drop 2 sample_control_frame]
    = ([RawData sample_data_frame, RawControl sample_control_frame], None)"
  by (rule turn_stream_chunking [of _ "[sample_data_frame, sample_control_frame]"])
    (simp_all add: whole_samples, simp_all add: sample_data_frame_def sample_control_frame_def)

section \<open>ChannelData around a packet\<close>

lemma data_class: "64 \<le> unat a \<Longrightarrow> unat a < 128 \<Longrightarrow> (a :: byte) AND 0xc0 = 0x40"
proof -
  assume "64 \<le> unat a" and "unat a < 128"
  then have "unat a \<in> set [64..<128]" by (simp only: set_upt atLeastLessThan_iff)
  moreover have "list_all (\<lambda>n. (word_of_nat n :: byte) AND 0xc0 = 0x40) [64..<128]"
    by code_simp
  ultimately have "(word_of_nat (unat a) :: byte) AND 0xc0 = 0x40"
    by (simp only: list_all_iff)
  then show ?thesis by simp
qed

lemma padded_length:
  fixes n :: nat
  obtains m k where "(4 - n mod 4) mod 4 = k" and "k < 4" and "n + k = 4 * m"
proof -
  have "n mod 4 < 4" by simp
  then have "n mod 4 = 0 \<or> n mod 4 = 1 \<or> n mod 4 = 2 \<or> n mod 4 = 3" by arith
  then have "(n + (4 - n mod 4) mod 4) mod 4 = 0"
    by (auto simp: mod_add_eq [symmetric, of n])
  then obtain m where "n + (4 - n mod 4) mod 4 = 4 * m" by (auto elim: dvdE dest: mod_0_imp_dvd)
  then show ?thesis by (intro that [OF refl]) simp_all
qed

lemma channel_data_header_encoded:
  assumes "valid_channel c" and "n = length payload" and "n \<le> 65535" and "length pad \<le> 3"
  shows "channel_data_header (be16 c @ be16 (of_nat n) @ payload @ pad) = Some (c, n)"
proof -
  obtain a b where c: "be16 c = [a, b]" using be16_two by blast
  obtain d e where n: "be16 (of_nat n) = [d, e]" using be16_two by blast
  have cn: "u16_of a b = c" and nn: "u16_of d e = of_nat n"
    using c n by simp_all
  have un: "unat (of_nat n :: u16) = n"
    using assms(3) by (simp add: unat_of_nat)
  have "a AND 0xc0 = 0x40"
  proof (rule data_class)
    have "unat c = unat a * 256 + unat b"
      using cn unat_u16_of [of a b] by simp
    moreover have "0x4000 \<le> unat c" and "unat c \<le> 0x7fff"
      using assms(1) by (simp_all add: valid_channel_def word_le_nat_alt)
    ultimately show "64 \<le> unat a" and "unat a < 128"
      using unat_byte_less [of b] by linarith+
  qed
  then show ?thesis
    using assms(1,3,4) nn un n
    unfolding assms(2) by (simp add: channel_data_header_def c cn Let_def)
qed

lemma encode_channel_data_ok:
  assumes wf: "wf_buf p" and ok: "encode_channel_data p c = Inr q"
  shows "wf_buf q"
    and "as_slice q = be16 c @ be16 (of_nat (buf_len p)) @ as_slice p
           @ replicate ((4 - buf_len p mod 4) mod 4) 0"
    and "valid_channel c" and "buf_len p \<le> 65535"
proof -
  let ?pad = "replicate ((4 - buf_len p mod 4) mod 4) (0 :: byte)"
  obtain r where r: "append_bytes p ?pad = Inr r"
    and q: "prepend_bytes r (be16 c @ be16 (of_nat (buf_len p))) = Inr q"
    and "valid_channel c" and "buf_len p \<le> 65535"
    using ok by (auto simp: encode_channel_data_def channel_data_padding_def
        and_then_Inr_conv Let_def)
  then show "valid_channel c" and "buf_len p \<le> 65535" by simp_all
  show "wf_buf q"
    by (rule prepend_bytes_ok(2) [OF append_bytes_ok(2) [OF wf r] q])
  show "as_slice q = be16 c @ be16 (of_nat (buf_len p)) @ as_slice p @ ?pad"
    using prepend_bytes_ok(1) [OF append_bytes_ok(2) [OF wf r] q] append_bytes_ok(1) [OF wf r]
    by simp
qed

text \<open>When there is room for a header and the padding, a packet is always encoded.\<close>

lemma encode_channel_data_total:
  assumes "wf_buf p" and "valid_channel c" and "4 \<le> range_start p"
    and "range_end p + 3 \<le> PACKET_CAPACITY"
  obtains q where "encode_channel_data p c = Inr q"
proof -
  let ?k = "(4 - buf_len p mod 4) mod 4"
  have k: "?k \<le> 3" and len: "buf_len p \<le> 65535"
    using assms(1) by (auto simp: buf_len_def wf_buf_def packet_consts)
  have e: "checked_add (range_end p) ?k = Some (range_end p + ?k)"
    and fits: "range_end p + ?k \<le> PACKET_CAPACITY"
    using k assms(4) by (auto intro!: checked_add_Some simp: packet_consts usize_max_def)
  have "append_bytes p (replicate ?k 0)
      = Inr (write_storage (p\<lparr>range_end := range_end p + ?k\<rparr>) (range_end p) (replicate ?k 0))"
    using e fits by (simp add: append_bytes_def extend_tail_def del: mod_less)
  then show ?thesis
    using that assms(2,3) len e fits
    by (simp add: encode_channel_data_def channel_data_padding_def
        prepend_bytes_def prepend_def write_storage_def Let_def del: mod_less)
qed

lemma open_channel_data_encoded:
  assumes "wf_buf p" and "encode_channel_data p c = Inr q"
  obtains r where "open_channel_data c q = Some r" and "as_slice r = as_slice p" and "wf_buf r"
proof -
  note q = encode_channel_data_ok [OF assms]
  have n: "length (as_slice p) = buf_len p" by (rule length_as_slice [OF assms(1)])
  have lq: "buf_len q = length (as_slice q)" by (simp add: length_as_slice [OF q(1)])
  have h: "channel_data_header (as_slice q) = Some (c, buf_len p)"
    unfolding q(2) by (rule channel_data_header_encoded) (use q n in auto)
  obtain u where u: "trim_front q 4 = Inr u" by (simp add: trim_front_def lq q(2))
  have wu: "wf_buf u" and su: "as_slice u = drop 4 (as_slice q)"
    using wf_trim_front [OF q(1) u] as_slice_trim_front [OF q(1) u] by simp_all
  have "buf_len p \<le> buf_len u"
    using length_as_slice [OF wu] by (simp add: su q(2) n)
  then obtain r where r: "truncate_buf u (buf_len p) = Inr r"
    unfolding buf_op_defs by auto
  have "as_slice r = as_slice p"
    using as_slice_truncate [OF wu r] by (simp add: su q(2) n)
  moreover have "wf_buf r" by (rule wf_truncate [OF wu r])
  moreover have "open_channel_data c q = Some r"
    by (simp add: open_channel_data_def h u r)
  ultimately show ?thesis by (intro that)
qed

lemma channel_frame_whole:
  assumes "wf_buf p" and "encode_channel_data p c = Inr q" and "buf_len p \<le> 2236"
  shows "whole_frame (RawData (as_slice q)) (as_slice q)"
proof -
  note q = encode_channel_data_ok [OF assms(1,2)]
  let ?n = "buf_len p" and ?k = "(4 - buf_len p mod 4) mod 4"
  obtain a b where c: "be16 c = [a, b]" using be16_two by blast
  obtain d e where n: "be16 (of_nat ?n) = [d, e]" using be16_two by blast
  have nn: "unat (u16_of d e) = ?n" and cn: "u16_of a b = c"
    using n c q(4) by (simp_all add: unat_of_nat)
  have "a AND 0xc0 = 0x40"
    using channel_data_header_encoded [OF q(3), of 0 "[]" "[]"]
    by (auto simp: c channel_data_header_def split: if_splits)
  moreover have fits: "4 + ?n + ?k \<le> 2240"
  proof (rule padded_length [of ?n])
    fix m k
    assume "?k = k" and "k < 4" and "?n + k = 4 * m"
    moreover from this have "4 * m < 4 * 560" using assms(3) by linarith
    ultimately show ?thesis by simp
  qed
  ultimately have s: "frame_start (as_slice q) = Inr (Some (KData (4 + ?n) ?k))"
    using nn by (simp add: frame_start_def q(2) c n Let_def MAX_DATA_FRAME_BYTES_def packet_consts)
  show ?thesis
    unfolding whole_frame_def decode_frame_def s
    using length_as_slice [OF assms(1)] by (simp add: q(2) c n)
qed

text \<open>a packet sent on a valid channel with room for the header and the padding is encoded
  into a datagram whose length is a multiple of four; a receiver on that channel gets the packet's
  bytes back, one on any other channel gets nothing; on a stream, the datagram is one frame.\<close>

theorem channel_data_roundtrip:
  assumes "wf_buf p" and "valid_channel c" and "4 \<le> range_start p"
    and "buf_len p \<le> 2236" and "range_end p + 3 \<le> PACKET_CAPACITY"
  shows "\<exists>q r. encode_channel_data p c = Inr q \<and> buf_len q mod 4 = 0
    \<and> open_channel_data c q = Some r \<and> as_slice r = as_slice p
    \<and> (\<forall>c'. c' \<noteq> c \<longrightarrow> open_channel_data c' q = None)
    \<and> whole_frame (RawData (as_slice q)) (as_slice q)"
proof -
  obtain q where q: "encode_channel_data p c = Inr q"
    by (rule encode_channel_data_total [OF assms(1,2,3,5)])
  note ok = encode_channel_data_ok [OF assms(1) q]
  obtain r where r: "open_channel_data c q = Some r" "as_slice r = as_slice p"
    by (rule open_channel_data_encoded [OF assms(1) q])
  have "buf_len q = 4 + buf_len p + (4 - buf_len p mod 4) mod 4"
    using length_as_slice [OF ok(1)] length_as_slice [OF assms(1)] by (simp add: ok(2))
  moreover obtain m k where "(4 - buf_len p mod 4) mod 4 = k" and "buf_len p + k = 4 * m"
    by (rule padded_length)
  ultimately have "buf_len q = 4 * (1 + m)" by simp
  then have "buf_len q mod 4 = 0" by simp
  moreover have "\<forall>c'. c' \<noteq> c \<longrightarrow> open_channel_data c' q = None"
  proof -
    have "channel_data_header (as_slice q) = Some (c, buf_len p)"
      unfolding ok(2)
      by (rule channel_data_header_encoded) (use ok length_as_slice [OF assms(1)] in auto)
    then show ?thesis by (simp add: open_channel_data_def)
  qed
  ultimately show ?thesis
    using q r channel_frame_whole [OF assms(1) q assms(4)]
    by (intro exI [of _ q] exI [of _ r] conjI)
qed

definition sample_packet :: packet_buf where
  "sample_packet = \<lparr>storage = replicate 2304 7, range_start = 64, range_end = 69\<rparr>"

lemma channel_data_roundtrip_witness:
  "\<exists>q r. encode_channel_data sample_packet 0x4001 = Inr q \<and> buf_len q mod 4 = 0
    \<and> open_channel_data 0x4001 q = Some r \<and> as_slice r = as_slice sample_packet
    \<and> (\<forall>c'. c' \<noteq> 0x4001 \<longrightarrow> open_channel_data c' q = None)
    \<and> whole_frame (RawData (as_slice q)) (as_slice q)"
  by (rule channel_data_roundtrip)
    (simp_all add: sample_packet_def wf_buf_def packet_consts valid_channel_def buf_len_def)

end
