(* ===== verification/TurnDriver.thy ===== *)
theory TurnDriver
  imports TurnWire TurnCore UdpBatch
begin

text \<open>
  The driver of a TURN allocation, \<^verbatim>\<open>backend/turn.rs\<close>: the task that owns the socket, feeds the
  core with what arrives, sends what the core queues, publishes the core's events to the
  allocation's users, and hands the packets of the confirmed channel to the session. The core is
  the model of \<^verbatim>\<open>turn_core.rs\<close>, the socket the one of \<^verbatim>\<open>udp_batch.rs\<close>.
\<close>

section \<open>What the driver shares\<close>

datatype turn_reason =
    CoreFailed "turn_error fault"
  | UnexpectedDestination socket_addr
  | TransmitFailed
  | RequestFailed nat int nat
  | UnexpectedPeer socket_addr
  | InvalidChannelNumber u16
  | RelayMismatch
  | ControlOverflow nat
  | ForceDestroyed
  | EventOverflow nat
  | RebindExhausted
  | DestroyedUnexpectedly
  | ReceiveFailed
  | InvalidReceiveCount
  | ReadinessFailed
  | StreamReceiveFailed
  | AllocateDeadline

record completion =
  cp_sequence :: u64
  cp_status :: int
  cp_stun_code :: nat

record core_snapshot =
  snap_state :: turn_state
  snap_relay :: "socket_addr option"
  snap_channel :: "u16 option"
  snap_allocate :: completion
  snap_refresh :: completion
  snap_permission :: completion
  snap_channel_bind :: completion
  snap_terminal :: "turn_reason option"

definition completion_default :: completion where
  "completion_default = \<lparr>cp_sequence = 0, cp_status = 0, cp_stun_code = 0\<rparr>"

definition snapshot_default :: core_snapshot where
  "snapshot_default =
     \<lparr>snap_state = StNull, snap_relay = None, snap_channel = None, snap_allocate = completion_default,
      snap_refresh = completion_default, snap_permission = completion_default,
      snap_channel_bind = completion_default, snap_terminal = None\<rparr>"

definition snap_completion :: "core_snapshot \<Rightarrow> nat \<Rightarrow> completion" where
  "snap_completion sn m =
     (if m = 4 then snap_refresh sn else if m = 8 then snap_permission sn
      else if m = 9 then snap_channel_bind sn else snap_allocate sn)"

text \<open>\<^verbatim>\<open>completion_mut\<close> with the update made through it; another method changes nothing.\<close>

definition update_completion ::
  "nat \<Rightarrow> (completion \<Rightarrow> completion) \<Rightarrow> core_snapshot \<Rightarrow> core_snapshot" where
  "update_completion m f sn =
     (if m = 3 then sn\<lparr>snap_allocate := f (snap_allocate sn)\<rparr>
      else if m = 4 then sn\<lparr>snap_refresh := f (snap_refresh sn)\<rparr>
      else if m = 8 then sn\<lparr>snap_permission := f (snap_permission sn)\<rparr>
      else if m = 9 then sn\<lparr>snap_channel_bind := f (snap_channel_bind sn)\<rparr>
      else sn)"

record driver_shared =
  snapshot :: core_snapshot
  closing :: bool
  terminal_present :: bool
  control_sent :: bool
  sh_channel :: u16
  queue_full_drops :: nat
  pool_deficit_drops :: nat

definition shared_new :: driver_shared where
  "shared_new =
     \<lparr>snapshot = snapshot_default, closing = False, terminal_present = False, control_sent = False,
      sh_channel = 0, queue_full_drops = 0, pool_deficit_drops = 0\<rparr>"

text \<open>
  \<^verbatim>\<open>fail\<close>: the load of \<^verbatim>\<open>closing\<close>, the change of the snapshot and the store of
  \<^verbatim>\<open>terminal_present\<close>, without another thread in between. The single accesses, and what other threads
  may do between them, are in the last section of \<open>TurnDriverSafety\<close>.
\<close>

definition fail_shared :: "turn_reason \<Rightarrow> driver_shared \<Rightarrow> driver_shared" where
  "fail_shared r s =
     (if closing s then s
      else if snap_terminal (snapshot s) = None then
        s\<lparr>snapshot := (snapshot s)\<lparr>snap_terminal := Some r\<rparr>, terminal_present := True\<rparr>
      else s)"

definition terminal_of :: "driver_shared \<Rightarrow> turn_reason option" where
  "terminal_of s = (if terminal_present s then snap_terminal (snapshot s) else None)"

definition request_cleanup :: "driver_shared \<Rightarrow> driver_shared" where
  "request_cleanup s = s\<lparr>closing := True, sh_channel := 0\<rparr>"

datatype alloc_error = AllocationClosing | Terminal turn_reason | NoChannel | Unsendable channel_error | SendError

definition ensure_allocation_open :: "driver_shared \<Rightarrow> (alloc_error, unit) res" where
  "ensure_allocation_open s =
     and_then (ensure (\<not> closing s) AllocationClosing) (\<lambda>_.
     case terminal_of s of None \<Rightarrow> Inr () | Some r \<Rightarrow> Inl (Fail (Terminal r)))"

definition is_retryable_maintenance :: "nat \<Rightarrow> bool" where
  "is_retryable_maintenance m = (m = 8 \<or> m = 9 \<or> m = 4)"

text \<open>The numbers of the states are ordered; two comparisons use the order.\<close>

fun state_number :: "turn_state \<Rightarrow> nat" where
  "state_number StNull = 0"
| "state_number StAllocating = 3"
| "state_number StReady = 4"
| "state_number StDeallocating = 5"
| "state_number StDeallocated = 6"
| "state_number StDestroying = 7"

section \<open>Events of the core\<close>

text \<open>
  One event of the loop of \<^verbatim>\<open>pump_native\<close>. The flags: the core was destroyed unexpectedly, and
  its rebinding was exhausted. The core is asked for the relay address once more.
\<close>

definition handle_event ::
  "socket_addr \<Rightarrow> inner \<Rightarrow> native_event \<Rightarrow> driver_shared \<times> bool \<times> bool \<Rightarrow>
     (turn_reason, driver_shared \<times> bool \<times> bool) res" where
  "handle_event peer_addr c e x =
     (let (s, destroyed, exhausted) = x in
      case ev_kind e of
        EventState \<Rightarrow>
          (let s1 = (if ev_state e \<noteq> StReady then s\<lparr>sh_channel := 0\<rparr> else s);
               sn = (snapshot s1)\<lparr>snap_state := ev_state e\<rparr>;
               sn1 = (if ev_state e \<noteq> StReady then sn\<lparr>snap_channel := None\<rparr> else sn);
               sn2 = (if state_number (ev_state e) \<ge> state_number StDeallocated
                      then sn1\<lparr>snap_relay := None\<rparr> else sn1)
           in Inr (s1\<lparr>snapshot := sn2\<rparr>,
                   destroyed \<or> (ev_state e = StDestroying \<and> \<not> closing s1), exhausted))
      | EventRequestComplete \<Rightarrow>
          (let s1 = s\<lparr>snapshot := update_completion (ev_method e)
                 (\<lambda>c. \<lparr>cp_sequence = cp_sequence c + 1, cp_status = ev_status e,
                       cp_stun_code = ev_stun_code e\<rparr>) (snapshot s)\<rparr>
           in Inr (if (ev_status e \<noteq> 0 \<or> ev_stun_code e \<noteq> 0) \<and> \<not> closing s1
                      \<and> \<not> is_retryable_maintenance (ev_method e)
                   then fail_shared (RequestFailed (ev_method e) (ev_status e) (ev_stun_code e)) s1
                   else s1, destroyed, exhausted))
      | EventStunResponseError \<Rightarrow> Inr x
      | EventChannelBound \<Rightarrow>
          (case to_socket_addr (ev_address e) of
             Inl f \<Rightarrow> Inl (Fail (CoreFailed f))
           | Inr a \<Rightarrow>
               Inr (if a \<noteq> peer_addr then fail_shared (UnexpectedPeer a) s
                    else if \<not> valid_channel (ev_channel e)
                      then fail_shared (InvalidChannelNumber (ev_channel e)) s
                    else s\<lparr>sh_channel := ev_channel e,
                           snapshot := (snapshot s)\<lparr>snap_channel := Some (ev_channel e)\<rparr>\<rparr>,
                    destroyed, exhausted))
      | EventRelayAddress \<Rightarrow>
          (case to_socket_addr (ev_address e) of
             Inl f \<Rightarrow> Inl (Fail (CoreFailed f))
           | Inr a \<Rightarrow>
               (case relay_address c of
                  Inl f \<Rightarrow> Inl (Fail (CoreFailed f))
                | Inr queried \<Rightarrow>
                    if queried \<noteq> a then Inl (Fail RelayMismatch)
                    else Inr (s\<lparr>snapshot := (snapshot s)\<lparr>snap_relay := Some a\<rparr>\<rparr>,
                              destroyed, exhausted)))
      | EventControlOverflow \<Rightarrow> Inr (fail_shared (ControlOverflow (ev_dropped e)) s, destroyed, exhausted)
      | EventForcedDestroy \<Rightarrow>
          Inr (if \<not> closing s then fail_shared ForceDestroyed s else s, destroyed, exhausted)
      | EventChannelRebindExhausted \<Rightarrow> Inr (s, destroyed, True)
      | EventEventOverflow \<Rightarrow> Inr (fail_shared (EventOverflow (ev_dropped e)) s, destroyed, exhausted))"

text \<open>What is recorded after the events: the core must not be destroyed while the allocation is open.\<close>

definition after_events :: "driver_shared \<times> bool \<times> bool \<Rightarrow> driver_shared" where
  "after_events x =
     (let (s, destroyed, exhausted) = x in
      if destroyed \<and> terminal_of s = None
      then fail_shared (if exhausted then RebindExhausted else DestroyedUnexpectedly) s
      else s)"

section \<open>The driver\<close>

text \<open>
  \<open>tx\<close> is the script of the results of sending control packets, an ended script accepts;
  \<open>sent\<close> is what has been sent. The channel to the session is a bounded queue.
\<close>

record driver =
  core :: inner
  shared :: driver_shared
  tx :: "bool list"
  sent :: "bytes list"
  incoming :: "packet_buf list"
  incoming_closed :: bool
  pool :: packet_pool
  socket :: "unit udp_socket"
  batch_limit :: nat
  cleanup_deadline :: "nat option"
  cleanup_permit :: bool
  shutdown_requested :: bool
  native_deadline :: nat
  pump_needed :: bool

text \<open>The environment of a driver, and what the world answers in one iteration of its loop.\<close>

record driver_env =
  de_core :: turn_env
  de_server :: socket_addr
  de_peer :: socket_addr

definition INCOMING_QUEUE_CAPACITY :: nat where "INCOMING_QUEUE_CAPACITY = PACKET_POOL_PER_WORKER"
definition CLEANUP_TIMEOUT :: nat where "CLEANUP_TIMEOUT = secs 35"
definition READY_CLEANUP_TIMEOUT :: nat where "READY_CLEANUP_TIMEOUT = secs 12"

lemma pull_control_shrinks:
  "pull_control c = (c', Inr (Some x)) \<Longrightarrow> length (controls c') < length (controls c)"
  by (auto simp: pull_control_def Let_def split: list.splits if_splits)

lemma pull_event_shrinks: "pull_event c = (c', Some e) \<Longrightarrow> length (events c') < length (events c)"
  by (auto simp: pull_event_def split: list.splits)

function send_controls ::
  "socket_addr \<Rightarrow> driver \<Rightarrow> driver \<times> (turn_reason, unit) res" where
  "send_controls server_addr d =
     (case pull_control (core d) of
        (c, Inl f) \<Rightarrow> (d\<lparr>core := c\<rparr>, Inl (Fail (CoreFailed f)))
      | (c, Inr None) \<Rightarrow> (d\<lparr>core := c\<rparr>, Inr ())
      | (c, Inr (Some (packet, destination))) \<Rightarrow>
          if destination \<noteq> server_addr then
            (d\<lparr>core := c\<rparr>, Inl (Fail (UnexpectedDestination destination)))
          else if tx d \<noteq> [] \<and> \<not> hd (tx d) then
            (d\<lparr>core := c, tx := tl (tx d)\<rparr>, Inl (Fail TransmitFailed))
          else send_controls server_addr
                 (d\<lparr>core := c, tx := tl (tx d), sent := sent d @ [packet],
                    shared := (shared d)\<lparr>control_sent := True\<rparr>\<rparr>))"
  by pat_completeness auto
termination
  by (relation "measure (\<lambda>(_, d). length (controls (core d)))")
    (simp_all add: pull_control_shrinks [OF sym])

function handle_events ::
  "socket_addr \<Rightarrow> inner \<Rightarrow> driver_shared \<times> bool \<times> bool \<Rightarrow>
     inner \<times> (driver_shared \<times> bool \<times> bool) \<times> (turn_reason, unit) res" where
  "handle_events peer_addr c x =
     (case pull_event c of
        (c', None) \<Rightarrow> (c', x, Inr ())
      | (c', Some e) \<Rightarrow>
          (case handle_event peer_addr c' e x of
             Inl f \<Rightarrow> (c', x, Inl f)
           | Inr y \<Rightarrow> handle_events peer_addr c' y))"
  by pat_completeness auto
termination
  by (relation "measure (\<lambda>(_, c, _). length (events c))")
    (simp_all add: pull_event_shrinks [OF sym])

declare send_controls.simps [simp del] handle_events.simps [simp del]

definition pump_native ::
  "driver_env \<Rightarrow> nat \<Rightarrow> driver \<Rightarrow> driver \<times> (turn_reason, nat option) res" where
  "pump_native V now d =
     (case poll (de_core V) now (core d) of
        (c, Inl f) \<Rightarrow> (d\<lparr>core := c\<rparr>, Inl (Fail (CoreFailed f)))
      | (c, Inr next_timer) \<Rightarrow>
          (case send_controls (de_server V) (d\<lparr>core := c\<rparr>) of
             (d1, Inl f) \<Rightarrow> (d1, Inl f)
           | (d1, Inr _) \<Rightarrow>
               (case handle_events (de_peer V) (core d1) (shared d1, False, False) of
                  (c2, (s, _), Inl f) \<Rightarrow> (d1\<lparr>core := c2, shared := s\<rparr>, Inl f)
                | (c2, x, Inr _) \<Rightarrow> (d1\<lparr>core := c2, shared := after_events x\<rparr>, Inr next_timer))))"

section \<open>What arrives\<close>

datatype packet_action = ActWait | ActPump | ActOwnerClosed

definition drop_packet :: "packet_buf \<Rightarrow> driver \<Rightarrow> driver" where
  "drop_packet p d = d\<lparr>pool := release (pool d) p\<rparr>"

definition feed_stun :: "driver_env \<Rightarrow> nat \<Rightarrow> bytes \<Rightarrow> driver \<Rightarrow> driver \<times> packet_action" where
  "feed_stun V now w d =
     (if is_stun w then (d\<lparr>core := fst (input_stun (de_core V) now w (core d))\<rparr>, ActPump)
      else (d, ActWait))"

text \<open>
  A packet in a buffer of the pool: ChannelData of the confirmed channel goes to the session when
  its queue has room, STUN goes to the core, everything else is dropped.
\<close>

definition process_packet ::
  "driver_env \<Rightarrow> nat \<Rightarrow> packet_buf \<Rightarrow> driver \<Rightarrow> driver \<times> packet_action" where
  "process_packet V now p d =
     (if channel_data_header (as_slice p) \<noteq> None then
        (case open_channel_data (sh_channel (shared d)) p of
           None \<Rightarrow> (drop_packet p d, ActWait)
         | Some q \<Rightarrow>
             if incoming_closed d then (drop_packet q d, ActOwnerClosed)
             else if length (incoming d) < INCOMING_QUEUE_CAPACITY
               then (d\<lparr>incoming := incoming d @ [q]\<rparr>, ActWait)
             else (drop_packet q (d\<lparr>shared := (shared d)
                     \<lparr>queue_full_drops := queue_full_drops (shared d) + 1\<rparr>\<rparr>), ActWait))
      else (let (d', a) = feed_stun V now (as_slice p) d in (drop_packet p d', a)))"

text \<open>The same for a packet in the driver's own buffer: data has nowhere to go.\<close>

definition process_deficit_packet ::
  "driver_env \<Rightarrow> nat \<Rightarrow> bytes \<Rightarrow> driver \<Rightarrow> driver \<times> packet_action" where
  "process_deficit_packet V now w d =
     (case channel_data_header w of
        Some (c, _) \<Rightarrow>
          (if c = sh_channel (shared d)
           then d\<lparr>shared := (shared d)\<lparr>pool_deficit_drops := pool_deficit_drops (shared d) + 1\<rparr>\<rparr>
           else d, ActWait)
      | None \<Rightarrow> feed_stun V now w d)"

section \<open>Cleaning up\<close>

text \<open>
  \<^verbatim>\<open>start_driver_cleanup\<close>: the deadline is set once and only ever moved forward, the core is asked
  to shut down once. The result tells whether that was now.
\<close>

definition start_driver_cleanup ::
  "driver_env \<Rightarrow> nat \<Rightarrow> turn_state \<Rightarrow> driver \<Rightarrow> driver \<times> nat \<times> bool" where
  "start_driver_cleanup V now st d =
     (let proposed = now + (if state_number st \<ge> state_number StReady then READY_CLEANUP_TIMEOUT
                            else CLEANUP_TIMEOUT);
          old = (case cleanup_deadline d of None \<Rightarrow> proposed | Some t \<Rightarrow> t);
          deadline = (if proposed < old then proposed else old);
          d1 = d\<lparr>cleanup_deadline := Some deadline\<rparr>
      in if shutdown_requested d1 then (d1, deadline, False)
         else (d1\<lparr>shutdown_requested := True,
                   core := fst (graceful_shutdown (de_core V) now (core d1))\<rparr>, deadline, True))"

text \<open>
  One iteration reads the clock several times; \<open>clk k\<close> is the k-th reading. A semaphore limits the
  cleanups that run at once.
\<close>

record 'e driver_input =
  clk :: "nat \<Rightarrow> nat"
  permit_free :: bool
  selected :: 'e

datatype flow = Exit | Again | Park nat

text \<open>The head of an iteration while the allocation closes: false ends the loop.\<close>

definition closing_check :: "driver_env \<Rightarrow> 'e driver_input \<Rightarrow> driver \<Rightarrow> driver \<times> bool" where
  "closing_check V i d =
     (if \<not> closing (shared d) then (d, True)
      else if \<not> control_sent (shared d) then (d, False)
      else if \<not> cleanup_permit d \<and> \<not> permit_free i then (d, False)
      else
        let st = snap_state (snapshot (shared d));
            (d1, deadline, started) =
              start_driver_cleanup V (clk i 0) st (d\<lparr>cleanup_permit := True\<rparr>)
        in (d1\<lparr>pump_needed := pump_needed d1 \<or> started\<rparr>,
            \<not> (state_number st \<ge> state_number StDeallocated \<or> clk i 1 \<ge> deadline)))"

definition park_wait :: "driver \<Rightarrow> nat \<Rightarrow> nat" where
  "park_wait d now =
     (let t = (case cleanup_deadline d of None \<Rightarrow> native_deadline d
               | Some deadline \<Rightarrow> min deadline (native_deadline d))
      in if t - now = 0 then ms 1 else t - now)"

text \<open>What both loops do before they wait: the closing check, and pumping the core when needed.\<close>

definition loop_head :: "driver_env \<Rightarrow> 'e driver_input \<Rightarrow> driver \<Rightarrow> driver \<times> flow" where
  "loop_head V i d0 =
     (case closing_check V i d0 of
        (d, False) \<Rightarrow> (d, Exit)
      | (d, True) \<Rightarrow>
          if pump_needed d \<or> clk i 2 \<ge> native_deadline d then
            (case pump_native V (clk i 3) d of
               (d1, Inr delay) \<Rightarrow>
                 (d1\<lparr>native_deadline := clk i 4 + (case delay of None \<Rightarrow> secs 86400 | Some t \<Rightarrow> t),
                     pump_needed := False\<rparr>, Again)
             | (d1, Inl f) \<Rightarrow>
                 let d2 = d1\<lparr>shared := request_cleanup (fail_shared
                        (case f of Fail r \<Rightarrow> r | Panic \<Rightarrow> CoreFailed Panic) (shared d1))\<rparr> in
                 if \<not> control_sent (shared d2) then (d2, Exit)
                 else if (case cleanup_deadline d2 of None \<Rightarrow> False | Some t \<Rightarrow> t \<le> clk i 4) then (d2, Exit)
                 else (d2\<lparr>pump_needed := True\<rparr>, Again))
          else (d, Park (park_wait d (clk i 5))))"

section \<open>The loop over UDP\<close>

text \<open>What the \<^verbatim>\<open>select!\<close> of an iteration returns; a received datagram, or nothing for an error.\<close>

datatype udp_event = EvWake | EvTimer | EvOwnerClosed | EvReadable bool | EvPacket "bytes option"

text \<open>One \<^verbatim>\<open>try_recv\<close> into the driver's own buffer; what does not fit is cut off.\<close>

definition recv_raw :: "unit udp_socket \<Rightarrow> unit udp_socket \<times> (io_error, bytes) res" where
  "recv_raw s =
     (case script s of
        Fails e # xs \<Rightarrow> (s\<lparr>script := xs\<rparr>, Inl (Fail e))
      | xs \<Rightarrow>
          (case inbox s of
             [] \<Rightarrow> (s\<lparr>script := tl xs\<rparr>, Inl (Fail WouldBlock))
           | (b, _) # box \<Rightarrow> (s\<lparr>script := tl xs, inbox := box\<rparr>, Inr (take read_room b))))"

lemma recv_raw_shrinks: "recv_raw s = (s', Inr b) \<Longrightarrow> length (inbox s') < length (inbox s)"
  by (auto simp: recv_raw_def split: list.splits kernel_answer.splits)

definition note_pump :: "packet_action \<Rightarrow> driver \<Rightarrow> driver" where
  "note_pump a d = (if a = ActPump then d\<lparr>pump_needed := True\<rparr> else d)"

lemma process_deficit_socket:
  "(d1, a) = process_deficit_packet V now w d \<Longrightarrow> socket d1 = socket d"
  by (auto simp: process_deficit_packet_def feed_stun_def split: option.splits if_splits)

lemma socket_note_pump [simp]: "socket (note_pump a d) = socket d"
  by (simp add: note_pump_def)

text \<open>While closing, the socket is drained first.\<close>

function drain_socket :: "driver_env \<Rightarrow> nat \<Rightarrow> driver \<Rightarrow> driver" where
  "drain_socket V now d =
     (case recv_raw (socket d) of
        (s, Inl _) \<Rightarrow> d\<lparr>socket := s\<rparr>
      | (s, Inr w) \<Rightarrow>
          (let (d1, a) = process_deficit_packet V now w (d\<lparr>socket := s\<rparr>)
           in drain_socket V now (note_pump a d1)))"
  by pat_completeness auto
termination
  by (relation "measure (\<lambda>(_, _, d). length (inbox (socket d)))")
    (simp_all add: process_deficit_socket recv_raw_shrinks [OF sym])

declare drain_socket.simps [simp del]

definition fail_and_clean :: "turn_reason \<Rightarrow> driver \<Rightarrow> driver" where
  "fail_and_clean r d =
     d\<lparr>shared := request_cleanup (fail_shared r (shared d)), pump_needed := True\<rparr>"

text \<open>
  The wait of a closing allocation. Sleeps and blocking writes inside an iteration (the pause
  \<^verbatim>\<open>CLEANUP_ERROR_RETRY\<close> after a failed receive or pump, the \<^verbatim>\<open>write_control\<close> of a stream) change no
  state: they are time that passes before the next clock reading, and every reading of the clock is a
  parameter of its own, \<open>clk i 0\<close> to \<open>clk i 7\<close>.
\<close>

definition closing_wait :: "driver_env \<Rightarrow> udp_event driver_input \<Rightarrow> driver \<Rightarrow> driver" where
  "closing_wait V i d0 =
     (let d = drain_socket V (clk i 6) d0 in
      case selected i of
        EvWake \<Rightarrow> d\<lparr>pump_needed := True\<rparr>
      | EvTimer \<Rightarrow> d\<lparr>pump_needed := True\<rparr>
      | EvPacket (Some b) \<Rightarrow>
          (let (d1, a) = process_deficit_packet V (clk i 7) (take read_room b) d
           in d1\<lparr>pump_needed := (a = ActPump)\<rparr>)
      | EvPacket None \<Rightarrow> d\<lparr>shared := fail_shared ReceiveFailed (shared d), pump_needed := True\<rparr>
      | _ \<Rightarrow> d)"

text \<open>
  The packets of one batch, until the session has gone; what is left of the batch goes back to
  the pool.
\<close>

fun process_batch :: "driver_env \<Rightarrow> nat \<Rightarrow> packet_buf list \<Rightarrow> driver \<Rightarrow> driver \<times> bool" where
  "process_batch V now [] d = (d, False)"
| "process_batch V now (p # ps) d =
     (let (d1, a) = process_packet V now p d in
      if a = ActOwnerClosed then (fold drop_packet ps d1, True)
      else process_batch V now ps (note_pump a d1))"

text \<open>
  The receive burst: batches are taken from the socket until 128 datagrams have been handled, or
  the socket is empty. One round returns the datagrams handled so far and whether the burst is
  over, and if so, whether the socket is known to be empty. Without a buffer in the pool a
  datagram is received into the driver's own.
\<close>

definition deficit_round :: "driver_env \<Rightarrow> nat \<Rightarrow> nat \<Rightarrow> driver \<Rightarrow> driver \<times> nat \<times> bool option" where
  "deficit_round V now n d =
     (case recv_raw (socket d) of
        (s, Inr w) \<Rightarrow>
          (let (d1, a) = process_deficit_packet V now w (d\<lparr>socket := s\<rparr>)
           in (note_pump a d1, Suc n, None))
      | (s, Inl e) \<Rightarrow>
          if e = Fail WouldBlock then (d\<lparr>socket := s\<rparr>, n, Some True)
          else (fail_and_clean ReceiveFailed (d\<lparr>socket := s\<rparr>), n, Some False))"

definition batch_round ::
  "driver_env \<Rightarrow> nat \<Rightarrow> nat \<Rightarrow> packet_buf list \<Rightarrow> driver \<Rightarrow> driver \<times> nat \<times> bool option" where
  "batch_round V now n batch d =
     (case try_recv_connected batch (socket d) of
        (s, Inr got) \<Rightarrow>
          (let received = map fst got;
               d1 = d\<lparr>socket := s\<rparr> in
           if received = [] then
             (fold drop_packet batch (d1\<lparr>batch_limit := adapt_batch_limit (batch_limit d1) 0\<rparr>),
              n, Some True)
           else if length received \<le> length batch then
             let d2 = (if length batch = batch_limit d1
                       then d1\<lparr>batch_limit := adapt_batch_limit (batch_limit d1) (length received)\<rparr>
                       else d1);
                 (d3, owner_closed) = process_batch V now received d2;
                 d4 = fold drop_packet (drop (length received) batch) d3
             in if owner_closed
                then (d4\<lparr>shared := request_cleanup (shared d4)\<rparr>, n + length received, Some False)
                else (d4, n + length received, None)
           else (fail_and_clean InvalidReceiveCount (fold drop_packet batch d1), n, Some False))
      | (s, Inl e) \<Rightarrow>
          let d1 = fold drop_packet batch (d\<lparr>socket := s\<rparr>) in
          if e = Fail WouldBlock
          then (d1\<lparr>batch_limit := adapt_batch_limit (batch_limit d1) 0\<rparr>, n, Some True)
          else (fail_and_clean ReceiveFailed d1, n, Some False))"

definition burst_round :: "driver_env \<Rightarrow> nat \<Rightarrow> nat \<Rightarrow> driver \<Rightarrow> driver \<times> nat \<times> bool option" where
  "burst_round V now n d =
     (let (batch, pl) = acquire_upto (min (MAX_DATAGRAMS - n) (batch_limit d)) (pool d) in
      if batch = [] then deficit_round V now n (d\<lparr>pool := pl\<rparr>)
      else batch_round V now n batch (d\<lparr>pool := pl\<rparr>))"

lemma burst_round_progress: "burst_round V now n d = (d', n', None) \<Longrightarrow> n < n'"
  by (auto simp: burst_round_def deficit_round_def batch_round_def Let_def neq_Nil_conv
      split: prod.splits sum.splits if_splits)

function receive_burst :: "driver_env \<Rightarrow> nat \<Rightarrow> nat \<Rightarrow> driver \<Rightarrow> driver \<times> nat \<times> bool" where
  "receive_burst V now n d =
     (if n \<ge> MAX_DATAGRAMS then (d, n, False)
      else case burst_round V now n d of
        (d', n', None) \<Rightarrow> receive_burst V now n' d'
      | (d', n', Some emptied) \<Rightarrow> (d', n', emptied))"
  by pat_completeness auto
termination
  by (relation "measure (\<lambda>(_, _, n, _). MAX_DATAGRAMS - n)")
    (auto dest!: burst_round_progress [OF sym])

declare receive_burst.simps [simp del]

definition open_wait :: "driver_env \<Rightarrow> udp_event driver_input \<Rightarrow> driver \<Rightarrow> driver" where
  "open_wait V i d0 =
     (let (d, n, emptied) = receive_burst V (clk i 6) 0 d0 in
      if pump_needed d then d
      else if n > 0 \<and> \<not> emptied then d
      else case selected i of
        EvWake \<Rightarrow> d\<lparr>pump_needed := True\<rparr>
      | EvTimer \<Rightarrow> d\<lparr>pump_needed := True\<rparr>
      | EvOwnerClosed \<Rightarrow> d\<lparr>shared := request_cleanup (shared d)\<rparr>
      | EvReadable ok \<Rightarrow> (if ok then d else fail_and_clean ReadinessFailed d)
      | EvPacket _ \<Rightarrow> d)"

text \<open>One iteration of \<^verbatim>\<open>driver_loop_udp\<close>; true when the loop goes on.\<close>

definition udp_turn :: "driver_env \<Rightarrow> udp_event driver_input \<Rightarrow> driver \<Rightarrow> driver \<times> bool" where
  "udp_turn V i d0 =
     (case loop_head V i d0 of
        (d, Exit) \<Rightarrow> (d\<lparr>core := force_destroy 0 (core d)\<rparr>, False)
      | (d, Again) \<Rightarrow> (d, True)
      | (d, Park _) \<Rightarrow> (if closing (shared d) then closing_wait V i d else open_wait V i d, True))"

section \<open>The loop over a stream\<close>

text \<open>
  The frames are those of the reader; a data frame has a buffer of the pool already. A write
  failure is the reason the writer reports, if any.
\<close>

datatype stream_event =
    SvWake
  | SvTimer
  | SvOwnerClosed
  | SvWriteFailure bool
  | SvWriterGone
  | SvControl bytes
  | SvData packet_buf
  | SvDropped
  | SvReadFailed

definition stream_wait :: "driver_env \<Rightarrow> stream_event driver_input \<Rightarrow> driver \<Rightarrow> driver" where
  "stream_wait V i d =
     (case selected i of
        SvWake \<Rightarrow> d\<lparr>pump_needed := True\<rparr>
      | SvTimer \<Rightarrow> d\<lparr>pump_needed := True\<rparr>
      | SvOwnerClosed \<Rightarrow> d\<lparr>shared := request_cleanup (shared d)\<rparr>
      | SvWriteFailure reported \<Rightarrow>
          (if reported \<and> \<not> closing (shared d) then fail_and_clean TransmitFailed d else d)
      | SvWriterGone \<Rightarrow> d
      | SvControl w \<Rightarrow> (let (d1, a) = process_deficit_packet V (clk i 6) w d in note_pump a d1)
      | SvData p \<Rightarrow>
          (let (d1, a) = process_packet V (clk i 6) p d in
           if a = ActOwnerClosed then d1\<lparr>shared := request_cleanup (shared d1)\<rparr> else note_pump a d1)
      | SvDropped \<Rightarrow> d\<lparr>shared := (shared d)\<lparr>pool_deficit_drops := pool_deficit_drops (shared d) + 1\<rparr>\<rparr>
      | SvReadFailed \<Rightarrow>
          (let s = (if \<not> closing (shared d) then fail_shared StreamReceiveFailed (shared d) else shared d)
           in d\<lparr>shared := request_cleanup s, pump_needed := True\<rparr>))"

definition stream_turn :: "driver_env \<Rightarrow> stream_event driver_input \<Rightarrow> driver \<Rightarrow> driver \<times> bool" where
  "stream_turn V i d0 =
     (case loop_head V i d0 of
        (d, Exit) \<Rightarrow> (d\<lparr>core := force_destroy 0 (core d)\<rparr>, False)
      | (d, Again) \<Rightarrow> (d, True)
      | (d, Park _) \<Rightarrow> (stream_wait V i d, True))"

section \<open>What never goes back\<close>

text \<open>
  Closing is final, the first reason of a failure stays, no reason is recorded once the
  allocation closes, and the deadline of the cleanup is never put off.
\<close>

definition shared_keeps :: "driver_shared \<Rightarrow> driver_shared \<Rightarrow> bool" where
  "shared_keeps s t \<longleftrightarrow>
     (closing s \<longrightarrow> closing t)
     \<and> (control_sent s \<longrightarrow> control_sent t)
     \<and> (terminal_present s \<longrightarrow> terminal_present t)
     \<and> (closing s \<or> snap_terminal (snapshot s) \<noteq> None \<longrightarrow>
          snap_terminal (snapshot t) = snap_terminal (snapshot s))"

definition driver_keeps :: "driver \<Rightarrow> driver \<Rightarrow> bool" where
  "driver_keeps d e \<longleftrightarrow>
     shared_keeps (shared d) (shared e)
     \<and> (case cleanup_deadline d of None \<Rightarrow> True
        | Some t \<Rightarrow> (case cleanup_deadline e of None \<Rightarrow> False | Some u \<Rightarrow> u \<le> t))"

lemma shared_keeps_refl [simp, intro]: "shared_keeps s s"
  by (simp add: shared_keeps_def)

lemma shared_keeps_trans [trans]: "shared_keeps s t \<Longrightarrow> shared_keeps t u \<Longrightarrow> shared_keeps s u"
  by (auto simp: shared_keeps_def)

lemma driver_keeps_refl [simp, intro]: "driver_keeps d d"
  by (simp add: driver_keeps_def split: option.split)

lemma driver_keeps_trans [trans]: "driver_keeps d e \<Longrightarrow> driver_keeps e f \<Longrightarrow> driver_keeps d f"
  by (auto simp: driver_keeps_def intro: shared_keeps_trans split: option.splits)

text \<open>Most operations only touch the shared part, and only one of its operations at a time.\<close>

lemma driver_keepsI:
  "shared_keeps (shared d) (shared e) \<Longrightarrow> cleanup_deadline e = cleanup_deadline d \<Longrightarrow> driver_keeps d e"
  by (simp add: driver_keeps_def split: option.split)

lemma shared_keeps_fail [simp, intro]: "shared_keeps s (fail_shared r s)"
  by (auto simp: shared_keeps_def fail_shared_def)

lemma shared_keeps_cleanup [simp, intro]: "shared_keeps s (request_cleanup s)"
  by (simp add: shared_keeps_def request_cleanup_def)

lemma shared_keeps_fail_cleanup [simp, intro]: "shared_keeps s (request_cleanup (fail_shared r s))"
  by (rule shared_keeps_trans [OF shared_keeps_fail shared_keeps_cleanup])

lemma shared_keeps_drops [simp, intro]: "shared_keeps s (s\<lparr>pool_deficit_drops := n\<rparr>)"
  by (simp add: shared_keeps_def)

lemma update_completion_terminal [simp]:
  "snap_terminal (update_completion m f sn) = snap_terminal sn"
  by (simp add: update_completion_def)

lemma shared_keeps_event:
  "handle_event peer_addr c e (s, b1, b2) = Inr (t, b3, b4) \<Longrightarrow> shared_keeps s t"
  by (cases "ev_kind e")
    (auto simp: handle_event_def Let_def fail_shared_def shared_keeps_def
      split: sum.splits if_splits)

lemma shared_keeps_after_events: "shared_keeps s (after_events (s, b1, b2))"
  by (simp add: after_events_def)

lemma handle_events_keeps: "shared_keeps (fst x) (fst (fst (snd (handle_events peer_addr c x))))"
proof (induction peer_addr c x rule: handle_events.induct)
  case (1 peer_addr c x)
  show ?case
  proof (cases "\<exists>c' e y. pull_event c = (c', Some e) \<and> handle_event peer_addr c' e x = Inr y")
    case True
    then obtain c' e y where p: "pull_event c = (c', Some e)" and h: "handle_event peer_addr c' e x = Inr y"
      by blast
    have "shared_keeps (fst x) (fst y)"
      using h shared_keeps_event by (cases x; cases y) auto
    also have "shared_keeps (fst y) (fst (fst (snd (handle_events peer_addr c' y))))"
      using "1.IH" p h by metis
    finally show ?thesis by (subst handle_events.simps) (simp add: p h)
  next
    case False
    then show ?thesis
      by (subst handle_events.simps) (auto split: prod.split option.split sum.split)
  qed
qed

lemma send_controls_keeps: "driver_keeps d (fst (send_controls server_addr d))"
proof (induction server_addr d rule: send_controls.induct)
  case (1 server_addr d)
  let ?d' = "\<lambda>c packet. d\<lparr>core := c, tx := tl (tx d), sent := sent d @ [packet],
                    shared := (shared d)\<lparr>control_sent := True\<rparr>\<rparr>"
  show ?case
  proof (cases "\<exists>c packet. pull_control (core d) = (c, Inr (Some (packet, server_addr)))
      \<and> \<not> (tx d \<noteq> [] \<and> \<not> hd (tx d))")
    case True
    then obtain c packet where p: "pull_control (core d) = (c, Inr (Some (packet, server_addr)))"
      and ok: "\<not> (tx d \<noteq> [] \<and> \<not> hd (tx d))" by blast
    have "driver_keeps d (?d' c packet)"
      by (rule driver_keepsI) (simp_all add: shared_keeps_def)
    also have "driver_keeps (?d' c packet) (fst (send_controls server_addr (?d' c packet)))"
      by (rule "1.IH") (use p ok in auto)
    finally show ?thesis using p ok by (subst send_controls.simps) auto
  next
    case False
    then show ?thesis
      by (subst send_controls.simps) (auto intro!: driver_keepsI split: prod.split sum.split option.split)
  qed
qed

lemma pump_native_keeps: "driver_keeps d (fst (pump_native V now d))"
proof (cases "\<exists>c t d1. poll (de_core V) now (core d) = (c, Inr t)
    \<and> send_controls (de_server V) (d\<lparr>core := c\<rparr>) = (d1, Inr ())")
  case True
  then obtain c t d1 where p: "poll (de_core V) now (core d) = (c, Inr t)"
    and q: "send_controls (de_server V) (d\<lparr>core := c\<rparr>) = (d1, Inr ())" by blast
  have "driver_keeps d (d\<lparr>core := c\<rparr>)" by (rule driver_keepsI) simp_all
  also have "driver_keeps (d\<lparr>core := c\<rparr>) d1"
    using send_controls_keeps [of "d\<lparr>core := c\<rparr>" "de_server V"] q by simp
  finally have k: "driver_keeps d d1" .
  obtain c2 s b1 b2 r where h: "handle_events (de_peer V) (core d1) (shared d1, False, False) = (c2, (s, b1, b2), r)"
    by (metis prod_cases3 surj_pair)
  have "shared_keeps (shared d1) s"
    using handle_events_keeps [of "(shared d1, False, False)" "de_peer V" "core d1"] by (simp add: h)
  moreover have "shared_keeps s (after_events (s, b1, b2))" by (rule shared_keeps_after_events)
  ultimately have "driver_keeps d1 (fst (pump_native V now d))"
    by (auto intro!: driver_keepsI intro: shared_keeps_trans
        simp: pump_native_def p q h split: sum.split)
  then show ?thesis using k by (rule driver_keeps_trans [rotated])
next
  case False
  have "driver_keeps d (d\<lparr>core := c\<rparr>)" for c by (rule driver_keepsI) simp_all
  moreover have "driver_keeps d d1" if "send_controls (de_server V) (d\<lparr>core := c\<rparr>) = (d1, r)" for c d1 r
    using driver_keeps_trans [OF calculation [of c] send_controls_keeps [of "d\<lparr>core := c\<rparr>" "de_server V"]] that
    by simp
  ultimately show ?thesis
    using False by (auto simp: pump_native_def split: prod.split sum.split)
qed

lemma drop_packet_simps [simp]:
  "shared (drop_packet p d) = shared d" "cleanup_deadline (drop_packet p d) = cleanup_deadline d"
  "incoming (drop_packet p d) = incoming d" "incoming_closed (drop_packet p d) = incoming_closed d"
  "socket (drop_packet p d) = socket d" "pump_needed (drop_packet p d) = pump_needed d"
  "core (drop_packet p d) = core d" "batch_limit (drop_packet p d) = batch_limit d"
  by (simp_all add: drop_packet_def)

lemma fold_drop_simps [simp]:
  "shared (fold drop_packet ps d) = shared d"
  "cleanup_deadline (fold drop_packet ps d) = cleanup_deadline d"
  "incoming (fold drop_packet ps d) = incoming d"
  "incoming_closed (fold drop_packet ps d) = incoming_closed d"
  "socket (fold drop_packet ps d) = socket d" "pump_needed (fold drop_packet ps d) = pump_needed d"
  "core (fold drop_packet ps d) = core d" "batch_limit (fold drop_packet ps d) = batch_limit d"
  by (induction ps arbitrary: d) simp_all

lemma note_pump_simps [simp]:
  "shared (note_pump a d) = shared d" "cleanup_deadline (note_pump a d) = cleanup_deadline d"
  "incoming (note_pump a d) = incoming d" "incoming_closed (note_pump a d) = incoming_closed d"
  "pool (note_pump a d) = pool d" "core (note_pump a d) = core d"
  "batch_limit (note_pump a d) = batch_limit d"
  by (simp_all add: note_pump_def)

lemma process_packet_keeps: "driver_keeps d (fst (process_packet V now p d))"
  by (rule driver_keepsI)
    (auto simp: process_packet_def feed_stun_def shared_keeps_def Let_def
      split: option.split if_split prod.split)

lemma process_deficit_keeps: "driver_keeps d (fst (process_deficit_packet V now w d))"
  by (rule driver_keepsI)
    (auto simp: process_deficit_packet_def feed_stun_def shared_keeps_def split: option.split)

lemma fail_and_clean_keeps: "driver_keeps d (fail_and_clean r d)"
  by (rule driver_keepsI)
    (auto simp: fail_and_clean_def intro: shared_keeps_trans [OF shared_keeps_fail shared_keeps_cleanup])

lemma process_batch_keeps: "driver_keeps d (fst (process_batch V now ps d))"
proof (induction ps arbitrary: d)
  case (Cons p ps)
  obtain d1 a where p: "process_packet V now p d = (d1, a)" by fastforce
  have k: "driver_keeps d d1" using process_packet_keeps [of d V now p] p by simp
  have n: "driver_keeps d1 (note_pump a d1)" and f: "driver_keeps d1 (fold drop_packet ps d1)"
    by (rule driver_keepsI; simp)+
  show ?case
    using driver_keeps_trans [OF k f] driver_keeps_trans [OF driver_keeps_trans [OF k n] Cons.IH [of "note_pump a d1"]]
    by (simp add: p)
qed simp

lemma drain_socket_keeps: "driver_keeps d (drain_socket V now d)"
proof (induction V now d rule: drain_socket.induct)
  case (1 V now d)
  obtain s r where s: "recv_raw (socket d) = (s, r)" by fastforce
  have k: "driver_keeps d (d\<lparr>socket := s\<rparr>)" by (rule driver_keepsI) simp_all
  show ?case
  proof (cases r)
    case (Inl e)
    then show ?thesis using k s by (subst drain_socket.simps) simp
  next
    case (Inr w)
    obtain d1 a where p: "process_deficit_packet V now w (d\<lparr>socket := s\<rparr>) = (d1, a)" by fastforce
    have "driver_keeps d d1"
      using driver_keeps_trans [OF k process_deficit_keeps [of _ V now w]] p by (metis fst_conv)
    also have "driver_keeps d1 (note_pump a d1)" by (rule driver_keepsI) simp_all
    also have "driver_keeps (note_pump a d1) (drain_socket V now (note_pump a d1))"
      by (rule "1.IH") (use s Inr p in auto)
    finally show ?thesis by (subst drain_socket.simps) (simp add: s Inr p)
  qed
qed

lemma deficit_round_keeps: "driver_keeps d (fst (deficit_round V now n d))"
proof -
  obtain s r where s: "recv_raw (socket d) = (s, r)" by fastforce
  have k: "driver_keeps d (d\<lparr>socket := s\<rparr>)" by (rule driver_keepsI) simp_all
  show ?thesis
  proof (cases r)
    case (Inl e)
    then show ?thesis
      using k driver_keeps_trans [OF k fail_and_clean_keeps] by (simp add: deficit_round_def s)
  next
    case (Inr w)
    obtain d1 a where p: "process_deficit_packet V now w (d\<lparr>socket := s\<rparr>) = (d1, a)" by fastforce
    have "driver_keeps d d1"
      using driver_keeps_trans [OF k process_deficit_keeps [of _ V now w]] p by (metis fst_conv)
    also have "driver_keeps d1 (note_pump a d1)" by (rule driver_keepsI) simp_all
    finally show ?thesis by (simp add: deficit_round_def s Inr p)
  qed
qed

lemma batch_round_keeps: "driver_keeps d (fst (batch_round V now n batch d))"
proof -
  obtain s r where s: "try_recv_connected batch (socket d) = (s, r)" by fastforce
  have drop: "driver_keeps d (fold drop_packet ps (d\<lparr>socket := s, batch_limit := l\<rparr>))"
    and drop': "driver_keeps d (fold drop_packet ps (d\<lparr>socket := s\<rparr>))"
    and unlimited: "driver_keeps d ((fold drop_packet ps (d\<lparr>socket := s\<rparr>))\<lparr>batch_limit := l\<rparr>)" for l ps
    by (rule driver_keepsI; simp)+
  have fail: "driver_keeps d (fail_and_clean x (fold drop_packet ps (d\<lparr>socket := s\<rparr>)))" for x ps
    by (rule driver_keeps_trans [OF drop' fail_and_clean_keeps])
  show ?thesis
  proof (cases r)
    case (Inl e)
    then show ?thesis using unlimited fail by (simp add: batch_round_def s Let_def)
  next
    case (Inr got)
    define d2 where "d2 = (if length batch = batch_limit d
        then d\<lparr>socket := s, batch_limit := adapt_batch_limit (batch_limit d) (length (map fst got))\<rparr>
        else d\<lparr>socket := s\<rparr>)"
    obtain d3 closed where p: "process_batch V now (map fst got) d2 = (d3, closed)" by fastforce
    have "driver_keeps d d2" by (rule driver_keepsI) (simp_all add: d2_def)
    also have "driver_keeps d2 d3"
      using process_batch_keeps [of d2 V now "map fst got"] p by simp
    finally have k: "driver_keeps d d3" .
    let ?d4 = "fold drop_packet (drop (length got) batch) d3"
    have "driver_keeps d3 ?d4" "driver_keeps d3 (?d4\<lparr>shared := request_cleanup (shared ?d4)\<rparr>)"
      by (rule driver_keepsI; simp)+
    then have "driver_keeps d ?d4" "driver_keeps d (?d4\<lparr>shared := request_cleanup (shared ?d4)\<rparr>)"
      using k driver_keeps_trans by blast+
    then show ?thesis
      using drop fail p
      by (cases "length batch = batch_limit d"; cases closed)
        (simp_all add: batch_round_def s Inr Let_def d2_def)
  qed
qed

lemma burst_round_keeps: "driver_keeps d (fst (burst_round V now n d))"
proof -
  obtain batch pl where b: "acquire_upto (min (MAX_DATAGRAMS - n) (batch_limit d)) (pool d) = (batch, pl)"
    by fastforce
  have k: "driver_keeps d (d\<lparr>pool := pl\<rparr>)" by (rule driver_keepsI) simp_all
  show ?thesis
    using driver_keeps_trans [OF k deficit_round_keeps] driver_keeps_trans [OF k batch_round_keeps]
    by (simp add: burst_round_def b)
qed

lemma receive_burst_keeps: "driver_keeps d (fst (receive_burst V now n d))"
proof (induction V now n d rule: receive_burst.induct)
  case (1 V now n d)
  obtain d' n' r where b: "burst_round V now n d = (d', n', r)" by (metis prod_cases3)
  have k: "driver_keeps d d'" using burst_round_keeps [of d V now n] b by simp
  show ?case
  proof (cases "n < MAX_DATAGRAMS \<and> r = None")
    case True
    then have "driver_keeps d' (fst (receive_burst V now n' d'))" using "1.IH" b by simp
    with k have "driver_keeps d (fst (receive_burst V now n' d'))" by (rule driver_keeps_trans)
    then show ?thesis using True b by (subst receive_burst.simps) simp
  next
    case False
    then show ?thesis using k b by (subst receive_burst.simps) (auto split: option.split)
  qed
qed

lemma closing_check_keeps: "driver_keeps d (fst (closing_check V i d))"
  by (auto simp: closing_check_def start_driver_cleanup_def driver_keeps_def Let_def
      split: option.splits)

lemma loop_head_keeps: "driver_keeps d (fst (loop_head V i d))"
proof -
  obtain d1 ok where c: "closing_check V i d = (d1, ok)" by fastforce
  have k: "driver_keeps d d1" using closing_check_keeps [of d V i] c by simp
  obtain d2 r where p: "pump_native V (clk i 3) d1 = (d2, r)" by fastforce
  have k2: "driver_keeps d d2"
    using driver_keeps_trans [OF k pump_native_keeps [of d1 V "clk i 3"]] p by simp
  have ok: "driver_keeps d (d2\<lparr>native_deadline := t, pump_needed := b\<rparr>)" for t b
    by (rule driver_keeps_trans [OF k2], rule driver_keepsI) simp_all
  have err: "driver_keeps d (d2\<lparr>shared := request_cleanup (fail_shared x (shared d2))\<rparr>)"
    "driver_keeps d (d2\<lparr>shared := request_cleanup (fail_shared x (shared d2)), pump_needed := b\<rparr>)" for x b
    by (rule driver_keeps_trans [OF k2], rule driver_keepsI,
        auto intro: shared_keeps_trans [OF shared_keeps_fail shared_keeps_cleanup])+
  show ?thesis
    using k ok err by (simp add: loop_head_def c p Let_def split: bool.split sum.split)
qed

lemma open_wait_keeps: "driver_keeps d (open_wait V i d)"
proof -
  obtain d1 n e where b: "receive_burst V (clk i 6) 0 d = (d1, n, e)" by (metis prod_cases3)
  have k: "driver_keeps d d1" using receive_burst_keeps [of d V "clk i 6" 0] b by simp
  have "driver_keeps d1 (d1\<lparr>pump_needed := x\<rparr>)" for x by (rule driver_keepsI) simp_all
  moreover have "driver_keeps d1 (d1\<lparr>shared := request_cleanup (shared d1)\<rparr>)"
    by (rule driver_keepsI) simp_all
  ultimately have "driver_keeps d1 (open_wait V i d)"
    using fail_and_clean_keeps
    by (simp add: open_wait_def b split: udp_event.split)
  with k show ?thesis by (rule driver_keeps_trans)
qed

lemma closing_wait_keeps: "driver_keeps d (closing_wait V i d)"
proof -
  define d1 where "d1 = drain_socket V (clk i 6) d"
  have k: "driver_keeps d d1" unfolding d1_def by (rule drain_socket_keeps)
  have a: "driver_keeps d1 (d1\<lparr>pump_needed := x\<rparr>)"
    "driver_keeps d1 (d1\<lparr>shared := fail_shared r (shared d1), pump_needed := x\<rparr>)" for x r
    by (rule driver_keepsI; simp)+
  have "driver_keeps d1 (fst (process_deficit_packet V t w d1)\<lparr>pump_needed := x\<rparr>)" for t w x
    by (rule driver_keeps_trans [OF process_deficit_keeps], rule driver_keepsI) simp_all
  then have "driver_keeps d1 (closing_wait V i d)"
    using a by (simp add: closing_wait_def d1_def [symmetric] case_prod_beta Let_def
        split: udp_event.split option.split)
  with k show ?thesis by (rule driver_keeps_trans)
qed

lemma stream_wait_keeps: "driver_keeps d (stream_wait V i d)"
proof -
  have a: "driver_keeps d (d\<lparr>pump_needed := x\<rparr>)" "driver_keeps d (d\<lparr>shared := request_cleanup (shared d)\<rparr>)"
    "driver_keeps d (d\<lparr>shared := (shared d)\<lparr>pool_deficit_drops := n\<rparr>\<rparr>)"
    "driver_keeps d (d\<lparr>shared := request_cleanup (fail_shared r (shared d)), pump_needed := x\<rparr>)"
    "driver_keeps d (d\<lparr>shared := request_cleanup (shared d), pump_needed := x\<rparr>)" for x n r
    by (rule driver_keepsI; simp)+
  have n: "driver_keeps d (note_pump x (fst (process_deficit_packet V t w d)))" for x t w
    by (rule driver_keeps_trans [OF process_deficit_keeps], rule driver_keepsI) simp_all
  have m: "driver_keeps d (note_pump x (fst (process_packet V t p d)))"
    "driver_keeps d (fst (process_packet V t p d)\<lparr>shared := request_cleanup (shared (fst (process_packet V t p d)))\<rparr>)" for x t p
    by (rule driver_keeps_trans [OF process_packet_keeps], rule driver_keepsI; simp)+
  show ?thesis
    using a n m fail_and_clean_keeps
    by (simp add: stream_wait_def case_prod_beta Let_def split: stream_event.split)
qed

lemma udp_turn_keeps: "driver_keeps d (fst (udp_turn V i d))"
proof -
  obtain d1 f where h: "loop_head V i d = (d1, f)" by fastforce
  have k: "driver_keeps d d1" using loop_head_keeps [of d V i] h by simp
  have "driver_keeps d1 (d1\<lparr>core := c\<rparr>)" for c by (rule driver_keepsI) simp_all
  then have "driver_keeps d1 (fst (udp_turn V i d))"
    by (simp add: udp_turn_def h open_wait_keeps closing_wait_keeps split: flow.split)
  with k show ?thesis by (rule driver_keeps_trans)
qed

lemma stream_turn_keeps: "driver_keeps d (fst (stream_turn V i d))"
proof -
  obtain d1 f where h: "loop_head V i d = (d1, f)" by fastforce
  have k: "driver_keeps d d1" using loop_head_keeps [of d V i] h by simp
  have "driver_keeps d1 (d1\<lparr>core := c\<rparr>)" for c by (rule driver_keepsI) simp_all
  then have "driver_keeps d1 (fst (stream_turn V i d))"
    by (simp add: stream_turn_def h stream_wait_keeps split: flow.split)
  with k show ?thesis by (rule driver_keeps_trans)
qed

end
