(* ===== verification/TurnDriverSafety.thy ===== *)
theory TurnDriverSafety
  imports TurnDriver
begin

text \<open>
  What the driver of a TURN allocation guarantees over whole runs: failures are final and the
  first one is reported, a cleanup ends in bounded time, the packets handed to the session are
  those of the confirmed channel, and no buffer of the pool is lost.
\<close>

section \<open>Runs of a loop\<close>







section \<open>The cleanup ends\<close>





lemma force_destroy_destroys [simp]: "destroyed (force_destroy st c)"
  by (simp add: force_destroy_def push_event_def set_state_def Let_def)





definition sample_driver :: driver where
  "sample_driver =
     \<lparr>core = projr (core_new (SocketAddr (V4 1) 3478) [1] [2] (SocketAddr (V4 2) 9) PJNATH_COMPAT Datagram),
      shared = shared_new\<lparr>closing := True, control_sent := True\<rparr>, tx = [], sent = [], incoming = [],
      incoming_closed = False, pool = pool_new 4,
      socket = \<lparr>inbox = [], outbox = [], script = [], mmsg_enabled = True\<rparr>,
      batch_limit = MIN_DATAGRAMS, cleanup_deadline = None, cleanup_permit = False,
      shutdown_requested = False, native_deadline = 0, pump_needed = True\<rparr>"

definition input_at :: "nat \<Rightarrow> 'e \<Rightarrow> 'e driver_input" where
  "input_at t e = \<lparr>clk = (\<lambda>_. t), permit_free = True, selected = e\<rparr>"

definition sample_env :: driver_env where
  "sample_env =
     \<lparr>de_core = \<lparr>env_hmac = (\<lambda>_ _. replicate 20 0), env_crc = (\<lambda>_. 0), env_md5 = (\<lambda>_. replicate 16 0),
        env_random = (\<lambda>_. replicate 12 0)\<rparr>,
      de_server = SocketAddr (V4 1) 3478, de_peer = SocketAddr (V4 2) 9\<rparr>"


section \<open>Failures are final\<close>

text \<open>
  Everything that happens to an allocation: iterations of its driver, the failures its users
  record and the cleanup they request, and the calls of the core they make, in any order.
\<close>

datatype alloc_event =
    UdpIteration "udp_event driver_input"
  | StreamIteration "stream_event driver_input"
  | Reported turn_reason
  | CleanupRequested
  | CoreCalled "nat \<times> core_input"

fun alloc_step :: "driver_env \<Rightarrow> driver \<Rightarrow> alloc_event \<Rightarrow> driver" where
  "alloc_step V d (UdpIteration i) = fst (udp_turn V i d)"
| "alloc_step V d (StreamIteration i) = fst (stream_turn V i d)"
| "alloc_step V d (Reported r) = d\<lparr>shared := fail_shared r (shared d)\<rparr>"
| "alloc_step V d CleanupRequested = d\<lparr>shared := request_cleanup (shared d)\<rparr>"
| "alloc_step V d (CoreCalled x) = d\<lparr>core := core_apply (de_core V) (core d) x\<rparr>"

lemma alloc_step_keeps: "driver_keeps d (alloc_step V d ev)"
  by (cases ev) (simp_all add: udp_turn_keeps stream_turn_keeps driver_keepsI)

lemma alloc_run_keeps: "driver_keeps d (foldl (alloc_step V) d evs)"
proof (induction evs arbitrary: d)
  case (Cons ev evs)
  show ?case using driver_keeps_trans [OF alloc_step_keeps Cons.IH] by simp
qed simp

lemma ensure_open_keeps:
  assumes "shared_keeps s t" and "\<not> is_ok (ensure_allocation_open s)"
  shows "\<not> is_ok (ensure_allocation_open t)"
  using assms
  by (auto simp: ensure_allocation_open_def terminal_of_def shared_keeps_def and_then_ensure
      split: if_splits option.splits)

text \<open>C27: whatever happens to an allocation, in any order: once it refuses to send it refuses for
  good; the first reason recorded for its failure is the one reported from then on; and a failure
  that is reported once it closes is not recorded. (A report that began before can still come late,
  see late_reason below.)\<close>

theorem driver_failure_final:
  "(\<not> is_ok (ensure_allocation_open (shared d)) \<longrightarrow>
      \<not> is_ok (ensure_allocation_open (shared (foldl (alloc_step V) d evs))))
   \<and> (\<forall>r. terminal_of (shared d) = Some r \<longrightarrow>
        terminal_of (shared (foldl (alloc_step V) d evs)) = Some r)
   \<and> (closing (shared d) \<longrightarrow>
        snap_terminal (snapshot (shared (foldl (alloc_step V) d evs)))
          = snap_terminal (snapshot (shared d)))"
proof -
  have k: "shared_keeps (shared d) (shared (foldl (alloc_step V) d evs))"
    using alloc_run_keeps [of d V evs] by (simp add: driver_keeps_def)
  show ?thesis
    using ensure_open_keeps [OF k] k
    by (auto simp: terminal_of_def shared_keeps_def split: if_splits)
qed

lemma driver_failure_final_witness:
  "terminal_of (shared (foldl (alloc_step sample_env)
      (sample_driver\<lparr>shared := fail_shared ReceiveFailed shared_new\<rparr>)
      [Reported ReadinessFailed, CleanupRequested, UdpIteration (input_at 5 EvWake)]))
    = Some ReceiveFailed"
  using driver_failure_final [of "sample_driver\<lparr>shared := fail_shared ReceiveFailed shared_new\<rparr>" sample_env
      "[Reported ReadinessFailed, CleanupRequested, UdpIteration (input_at 5 EvWake)]"]
  by (simp add: terminal_of_def fail_shared_def shared_new_def snapshot_default_def
      del: foldl_Cons alloc_step.simps)

section \<open>The accesses of a report\<close>

text \<open>
  \<^verbatim>\<open>DriverShared::fail\<close> by several threads at once, one step for each atomic access, with cleanups
  requested in between. A caller that finds the allocation open goes on to the snapshot; the one
  whose reason is put there publishes it.
\<close>

datatype fail_pc = FailLoads turn_reason | FailInserts turn_reason | FailStores | FailEnded

type_synonym fail_run = "driver_shared \<times> fail_pc list"

inductive fail_atom :: "fail_run \<Rightarrow> fail_run \<Rightarrow> bool" where
  Loads: "i < length pcs \<Longrightarrow> pcs ! i = FailLoads r \<Longrightarrow>
    fail_atom (s, pcs) (s, pcs[i := if closing s then FailEnded else FailInserts r])"
| Inserts: "i < length pcs \<Longrightarrow> pcs ! i = FailInserts r \<Longrightarrow> snap_terminal (snapshot s) = None \<Longrightarrow>
    fail_atom (s, pcs) (s\<lparr>snapshot := (snapshot s)\<lparr>snap_terminal := Some r\<rparr>\<rparr>, pcs[i := FailStores])"
| Taken: "i < length pcs \<Longrightarrow> pcs ! i = FailInserts r \<Longrightarrow> snap_terminal (snapshot s) = Some q \<Longrightarrow>
    fail_atom (s, pcs) (s, pcs[i := FailEnded])"
| Stores: "i < length pcs \<Longrightarrow> pcs ! i = FailStores \<Longrightarrow>
    fail_atom (s, pcs) (s\<lparr>terminal_present := True\<rparr>, pcs[i := FailEnded])"
| Closes: "fail_atom (s, pcs) (request_cleanup s, pcs)"

inductive_cases fail_atomE: "fail_atom (s, pcs) x"

text \<open>What holds between the accesses: a reason is in the snapshot whenever a caller is about to
  publish it, or did.\<close>

definition reason_there :: "fail_run \<Rightarrow> bool" where
  "reason_there = (\<lambda>(s, pcs). (terminal_present s \<or> FailStores \<in> set pcs) \<longrightarrow> snap_terminal (snapshot s) \<noteq> None)"

definition fail_start :: "fail_run \<Rightarrow> bool" where
  "fail_start = (\<lambda>(s, pcs). s = shared_new \<and> (\<forall>pc \<in> set pcs. \<exists>r. pc = FailLoads r))"

lemma reason_there_step: "fail_atom x y \<Longrightarrow> reason_there x \<Longrightarrow> reason_there y"
  by (induction rule: fail_atom.induct)
    (auto simp: reason_there_def request_cleanup_def dest!: set_update_subset_insert [THEN subsetD] nth_mem)

interpretation fail_threads: transition_system fail_start fail_atom reason_there
proof
  show "reason_there x" if "fail_start x" for x
    using that by (cases x) (auto simp: reason_there_def fail_start_def shared_new_def snapshot_default_def)
qed (rule reason_there_step)

text \<open>A reason that is recorded stays, and so does one that is reported.\<close>

lemma fail_atoms_final:
  assumes "fail_atom\<^sup>*\<^sup>* (s, pcs) (t, pcs')"
  shows "snap_terminal (snapshot s) = Some r \<Longrightarrow> snap_terminal (snapshot t) = Some r"
    and "terminal_of s = Some r \<Longrightarrow> terminal_of t = Some r"
proof -
  have "(snap_terminal (snapshot s) = Some r \<longrightarrow> snap_terminal (snapshot t) = Some r)
      \<and> (terminal_present s \<longrightarrow> terminal_present t)"
    using assms
  proof (induction rule: rtranclp_induct2)
    case (step a b c d)
    then show ?case by (auto elim!: fail_atomE simp: request_cleanup_def)
  qed simp
  then show "snap_terminal (snapshot s) = Some r \<Longrightarrow> snap_terminal (snapshot t) = Some r"
    and "terminal_of s = Some r \<Longrightarrow> terminal_of t = Some r"
    by (auto simp: terminal_of_def split: if_splits)
qed

text \<open>Once the allocation closes, only a caller that had found it open before can record its reason.\<close>

lemma late_reason_loaded:
  assumes "fail_atom\<^sup>*\<^sup>* (s, pcs) (t, pcs')" and "closing s" and "snap_terminal (snapshot s) = None"
  shows "closing t \<and> (\<forall>r. FailInserts r \<in> set pcs' \<or> snap_terminal (snapshot t) = Some r
    \<longrightarrow> FailInserts r \<in> set pcs)"
  using assms(1)
proof (induction rule: rtranclp_induct2)
  case refl
  then show ?case using assms(2,3) by simp
next
  case (step a b c d)
  have set: "pc \<in> set b \<or> pc = v" if "pc \<in> set (b[i := v])" for pc i v
    using that set_update_subset_insert [of b i v] by blast
  from step show ?case
    by (auto elim!: fail_atomE simp: request_cleanup_def dest!: set dest: nth_mem split: if_splits)
qed

lemma late_reason:
  "fail_atom\<^sup>*\<^sup>* (shared_new, [FailLoads r])
     (request_cleanup (shared_new\<lparr>snapshot := (snapshot shared_new)\<lparr>snap_terminal := Some r\<rparr>\<rparr>), [FailStores])"
proof -
  have "fail_atom (shared_new, [FailLoads r]) (shared_new, [FailInserts r])"
    using fail_atom.Loads [of 0 "[FailLoads r]" r shared_new] by (simp add: shared_new_def)
  moreover have "fail_atom (shared_new, [FailInserts r]) (request_cleanup shared_new, [FailInserts r])"
    by (rule fail_atom.Closes)
  moreover have "fail_atom (request_cleanup shared_new, [FailInserts r])
     (request_cleanup (shared_new\<lparr>snapshot := (snapshot shared_new)\<lparr>snap_terminal := Some r\<rparr>\<rparr>), [FailStores])"
    using fail_atom.Inserts [of 0 "[FailInserts r]" r "request_cleanup shared_new"]
    by (simp add: request_cleanup_def shared_new_def snapshot_default_def)
  ultimately show ?thesis by (meson r_into_rtranclp rtranclp_trans)
qed

text \<open>A report that nobody interrupts is \<open>fail_shared\<close>.\<close>

lemma fail_alone: "fail_atom\<^sup>*\<^sup>* (s, [FailLoads r]) (fail_shared r s, [FailEnded])"
proof (cases "closing s")
  case True
  then show ?thesis
    using fail_atom.Loads [of 0 "[FailLoads r]" r s] by (auto simp: fail_shared_def)
next
  case False
  then have load: "fail_atom (s, [FailLoads r]) (s, [FailInserts r])"
    using fail_atom.Loads [of 0 "[FailLoads r]" r s] by simp
  show ?thesis
  proof (cases "snap_terminal (snapshot s)")
    case None
    let ?s1 = "s\<lparr>snapshot := (snapshot s)\<lparr>snap_terminal := Some r\<rparr>\<rparr>"
    have "fail_atom (s, [FailInserts r]) (?s1, [FailStores])"
      using fail_atom.Inserts [of 0 "[FailInserts r]" r s] None by simp
    moreover have "fail_atom (?s1, [FailStores]) (?s1\<lparr>terminal_present := True\<rparr>, [FailEnded])"
      using fail_atom.Stores [of 0 "[FailStores]" ?s1] by simp
    moreover have "fail_shared r s = ?s1\<lparr>terminal_present := True\<rparr>"
      using False None by (simp add: fail_shared_def)
    ultimately show ?thesis using load by (metis (no_types, lifting) r_into_rtranclp rtranclp_trans)
  next
    case (Some q)
    then have "fail_atom (s, [FailInserts r]) (s, [FailEnded])"
      using fail_atom.Taken [of 0 "[FailInserts r]" r s q] by simp
    moreover have "fail_shared r s = s" using False Some by (simp add: fail_shared_def)
    ultimately show ?thesis using load by (metis r_into_rtranclp rtranclp_trans)
  qed
qed

end
