(* ===== verification/TurnDriverReceive.thy ===== *)
theory TurnDriverReceive
  imports TurnDriverSafety "HOL-Library.Sublist"
begin

text \<open>
  What a receive burst of the TURN driver does with the datagrams it takes: every one is
  accounted for, the packets of the confirmed channel reach the session unchanged and in order,
  the STUN messages reach the core, and every buffer of the pool is in the queue of the session
  or back in the pool.
\<close>

section \<open>What the socket yields\<close>

lemma set_read_len_land:
  assumes "wf_buf p"
  shows "\<exists>q. set_read_len (fst (land p b)) (fst (snd (land p b))) = Inr q \<and> wf_buf q
    \<and> as_slice q = take read_room b"
proof -
  have "length (take read_room b) \<le> PACKET_CAPACITY - PACKET_HEADROOM" by (simp add: read_room_def)
  from load_bytes_ok [OF assms this] obtain q where
    "load_bytes p (take read_room b) = Inr q" "as_slice q = take read_room b" "wf_buf q" by blast
  then show ?thesis by (auto simp: land_def load_bytes_def min.commute)
qed

text \<open>What a receiving call may do: take datagrams from the front, and return all it took.\<close>

definition received_from ::
  "'a udp_socket \<Rightarrow> 'a udp_socket \<Rightarrow> (io_error, (packet_buf \<times> 'a) list) res \<Rightarrow> bool" where
  "received_from s t r \<longleftrightarrow> (\<exists>k \<le> length (inbox s). inbox t = drop k (inbox s)
     \<and> (r = Inl (Fail WouldBlock) \<longrightarrow> k = 0)
     \<and> (\<forall>got. r = Inr got \<longrightarrow> list_all2 (\<lambda>(q, _) (b, _). wf_buf q \<and> as_slice q = take read_room b)
           got (take k (inbox s))))"

lemma recv_one_from:
  assumes "wf_buf p" and "recv_one p s = (t, r)"
  shows "(case r of Inl _ \<Rightarrow> inbox t = inbox s
    | Inr (q, a) \<Rightarrow> \<exists>b. inbox s = (b, a) # inbox t \<and> wf_buf q \<and> as_slice q = take read_room b)"
proof (cases "(\<exists>e xs. script s = Fails e # xs) \<or> inbox s = []")
  case True
  then show ?thesis using assms(2)
    by (auto simp: recv_one_def Let_def split: list.splits kernel_answer.splits)
next
  case False
  then obtain b a box where box: "inbox s = (b, a) # box" by (cases "inbox s") auto
  obtain q where q: "set_read_len (fst (land p b)) (fst (snd (land p b))) = Inr q" "wf_buf q"
    "as_slice q = take read_room b" using set_read_len_land [OF assms(1)] by blast
  have "recv_one p s = (s\<lparr>script := tl (script s), inbox := box\<rparr>, Inr (q, a))"
    using False q(1) box by (auto simp: recv_one_def Let_def split: list.splits kernel_answer.splits)
  then show ?thesis using assms(2) box q(2,3) by auto
qed

lemma recv_portable_from:
  assumes "\<forall>p \<in> set ps. wf_buf p" and "recv_portable ps acc s = (t, r)"
  shows "\<exists>k \<le> length (inbox s). inbox t = drop k (inbox s)
     \<and> (r = Inl (Fail WouldBlock) \<longrightarrow> k = 0 \<and> acc = [])
     \<and> (\<forall>got. r = Inr got \<longrightarrow> (\<exists>new. got = acc @ new \<and>
           list_all2 (\<lambda>(q, _) (b, _). wf_buf q \<and> as_slice q = take read_room b) new (take k (inbox s))))"
  using assms
proof (induction ps arbitrary: acc s)
  case Nil
  then show ?case by (intro exI [of _ 0]) auto
next
  case (Cons p ps)
  obtain s1 x where one: "recv_one p s = (s1, x)" by fastforce
  have wf: "wf_buf p" and wfs: "\<forall>p \<in> set ps. wf_buf p" using Cons.prems(1) by simp_all
  show ?case
  proof (cases x)
    case (Inl e)
    then have "inbox t = inbox s" "r = (if e = Fail WouldBlock \<and> acc \<noteq> [] then Inr acc else Inl e)"
      using Cons.prems(2) recv_one_from [OF wf one] one by auto
    then show ?thesis by (intro exI [of _ 0]) auto
  next
    case (Inr y)
    then obtain q a b where x: "x = Inr (q, a)" "inbox s = (b, a) # inbox s1" "wf_buf q"
      "as_slice q = take read_room b" using recv_one_from [OF wf one] by (cases y) auto
    have "recv_portable ps (acc @ [(q, a)]) s1 = (t, r)" using Cons.prems(2) one x(1) by simp
    from Cons.IH [OF wfs this] obtain k where k: "k \<le> length (inbox s1)" "inbox t = drop k (inbox s1)"
      "r \<noteq> Inl (Fail WouldBlock)"
      "\<forall>got. r = Inr got \<longrightarrow> (\<exists>new. got = (acc @ [(q, a)]) @ new \<and>
           list_all2 (\<lambda>(q, _) (b, _). wf_buf q \<and> as_slice q = take read_room b) new (take k (inbox s1)))"
      by auto
    show ?thesis
    proof (intro exI [of _ "Suc k"] conjI allI impI)
      fix got
      assume "r = Inr got"
      with k(4) obtain new where "got = (acc @ [(q, a)]) @ new" and
        "list_all2 (\<lambda>(q, _) (b, _). wf_buf q \<and> as_slice q = take read_room b) new (take k (inbox s1))"
        by blast
      then show "\<exists>new. got = acc @ new \<and>
          list_all2 (\<lambda>(q, _) (b, _). wf_buf q \<and> as_slice q = take read_room b) new (take (Suc k) (inbox s))"
        using x by (intro exI [of _ "(q, a) # new"]) simp
    qed (use k x in auto)
  qed
qed

lemma recv_call_takes:
  "recv_call n box xs = (ys, r) \<Longrightarrow> (\<forall>got. r = Inr got \<longrightarrow> got = take n box) \<and> r \<noteq> Inl Panic"
  by (induction n box xs rule: recv_call.induct) (auto split: if_splits)

lemma set_lengths_Cons:
  "set_lengths ((p, n, tr) # ls) = and_then (set_lengths ls) (\<lambda>ps.
     case set_read_len p n of Inr q \<Rightarrow> Inr (q # ps) | Inl Panic \<Rightarrow> Inl Panic
     | Inl (Fail _) \<Rightarrow> Inl (Fail InvalidData))"
  by (simp add: set_lengths_def)

lemma set_lengths_landed:
  assumes "\<forall>p \<in> set ps. wf_buf p" and "length got \<le> length ps"
    and "set_lengths (map (\<lambda>(p, b, _). land p b) (zip ps got)) = Inr qs"
  shows "list_all2 (\<lambda>q (b, _). wf_buf q \<and> as_slice q = take read_room b) qs got"
  using assms
proof (induction got arbitrary: ps qs)
  case Nil
  then show ?case by (simp add: set_lengths_def)
next
  case (Cons x got)
  obtain b a where x: "x = (b, a)" by fastforce
  obtain p ps' where ps: "ps = p # ps'" using Cons.prems(2) by (cases ps) auto
  obtain q where q: "set_read_len (fst (land p b)) (fst (snd (land p b))) = Inr q" "wf_buf q"
    "as_slice q = take read_room b" using set_read_len_land [of p b] Cons.prems(1) ps by auto
  obtain qs' where qs': "set_lengths (map (\<lambda>(p, b, _). land p b) (zip ps' got)) = Inr qs'" "qs = q # qs'"
    using Cons.prems(3) q(1) ps x
    by (cases "land p b") (auto simp: set_lengths_Cons and_then_Inr_conv)
  have "list_all2 (\<lambda>q (b, _). wf_buf q \<and> as_slice q = take read_room b) qs' got"
    by (rule Cons.IH) (use Cons.prems(1,2) ps qs'(1) in auto)
  then show ?case using q qs'(2) x by simp
qed

lemma recv_mmsg_from:
  assumes "\<forall>p \<in> set ps. wf_buf p" and "recv_mmsg ps s = (t, r)"
  shows "received_from s t r" and "r = Inl (Fail NoSyscall) \<Longrightarrow> inbox t = inbox s"
proof -
  have "received_from s t r \<and> (r = Inl (Fail NoSyscall) \<longrightarrow> inbox t = inbox s)"
  proof (cases "ps = []")
    case True
    then show ?thesis using assms(2) by (auto simp: recv_mmsg_def received_from_def intro!: exI [of _ 0])
  next
    case False
    obtain xs x where c: "recv_call (length ps) (inbox s) (script s) = (xs, x)" by fastforce
    show ?thesis
    proof (cases x)
      case (Inl e)
      then show ?thesis using assms(2) False c
        by (auto simp: recv_mmsg_def received_from_def intro!: exI [of _ 0])
    next
      case (Inr got)
      then have got: "got = take (length ps) (inbox s)" using recv_call_takes [OF c] by simp
      let ?landed = "map (\<lambda>(p, b, _). land p b) (zip ps got)"
      have t: "inbox t = drop (length got) (inbox s)"
        using assms(2) False c Inr by (auto simp: recv_mmsg_def Let_def)
      have r: "r = and_then (ensure (length got \<le> length ps) InvalidData) (\<lambda>_.
           and_then (ensure (list_all (\<lambda>(_, n, truncated). \<not> truncated \<and> n \<le> read_room) ?landed) InvalidData) (\<lambda>_.
           and_then (set_lengths ?landed) (\<lambda>qs. Inr (zip qs (map snd got)))))"
        using assms(2) False c Inr by (auto simp: recv_mmsg_def Let_def)
      have errs: "set_lengths ls \<noteq> Inl (Fail e)" if "e \<noteq> InvalidData" for e and ls :: "(packet_buf \<times> nat \<times> bool) list"
        using that by (induction ls) (auto simp: set_lengths_def and_then_def split: sum.splits fault.splits)
      have "r \<noteq> Inl (Fail WouldBlock)" "r \<noteq> Inl (Fail NoSyscall)"
        unfolding r and_then_ensure using errs [of WouldBlock ?landed] errs [of NoSyscall ?landed]
        by (auto simp: and_then_def split: sum.splits)
      moreover have "list_all2 (\<lambda>(q, _) (b, _). wf_buf q \<and> as_slice q = take read_room b) gs (take (length got) (inbox s))"
        if "r = Inr gs" for gs
      proof -
        from that obtain qs where qs: "set_lengths ?landed = Inr qs" and gs: "gs = zip qs (map snd got)"
          unfolding r by (auto simp: and_then_Inr_conv)
        have "list_all2 (\<lambda>q (b, _). wf_buf q \<and> as_slice q = take read_room b) qs got"
          by (rule set_lengths_landed [OF assms(1) _ qs]) (simp add: got)
        then have "list_all2 (\<lambda>(q, _) (b, _). wf_buf q \<and> as_slice q = take read_room b) gs got"
          unfolding gs by (induction rule: list_all2_induct) auto
        moreover have "take (length got) (inbox s) = got" by (simp add: got min_def)
        ultimately show ?thesis by simp
      qed
      ultimately show ?thesis
        using t got by (auto simp: received_from_def intro!: exI [of _ "length got"])
    qed
  qed
  then show "received_from s t r" and "r = Inl (Fail NoSyscall) \<Longrightarrow> inbox t = inbox s" by auto
qed

lemma try_recv_from_connected:
  assumes "\<forall>p \<in> set ps. wf_buf p" and "try_recv_connected ps s = (t, r)"
  shows "received_from s t r"
proof -
  have portable: "received_from s' t' r'" if "recv_portable ps [] s' = (t', r')" for s' t' r'
    using recv_portable_from [OF assms(1) that] by (fastforce simp: received_from_def)
  obtain s1 x where m: "recv_mmsg ps s = (s1, x)" by fastforce
  consider "length ps > MAX_DATAGRAMS" | "length ps \<le> MAX_DATAGRAMS" "\<not> mmsg_enabled s"
    | "length ps \<le> MAX_DATAGRAMS" "mmsg_enabled s" "x = Inl (Fail NoSyscall)"
    | "length ps \<le> MAX_DATAGRAMS" "mmsg_enabled s" "x \<noteq> Inl (Fail NoSyscall)" by linarith
  then show ?thesis
  proof cases
    case 1
    then show ?thesis using assms(2)
      by (auto simp: try_recv_connected_def try_recv_from_def validate_receive_batch_def
          validate_batch_len_def and_then_ensure received_from_def ensure_def intro!: exI [of _ 0])
  next
    case 2
    then show ?thesis using assms(2) portable
      by (simp add: try_recv_connected_def try_recv_from_def validate_receive_batch_def validate_batch_len_def)
  next
    case 3
    then have "recv_portable ps [] (s1\<lparr>mmsg_enabled := False\<rparr>) = (t, r)" using assms(2) m
      by (simp add: try_recv_connected_def try_recv_from_def validate_receive_batch_def
          validate_batch_len_def mmsg_unavailable_def)
    from portable [OF this] recv_mmsg_from(2) [OF assms(1) m 3(3)] show ?thesis
      by (simp add: received_from_def)
  next
    case 4
    then have "(t, r) = (s1, x)" using assms(2) m
      by (auto simp: try_recv_connected_def try_recv_from_def validate_receive_batch_def
          validate_batch_len_def mmsg_unavailable_def split: sum.splits fault.splits)
    then show ?thesis using recv_mmsg_from(1) [OF assms(1) m] by simp
  qed
qed

section \<open>The pool of a burst\<close>

lemma pool_ok_count: "pool_ok pl xs \<Longrightarrow> length ys = length xs \<Longrightarrow> pool_ok pl ys"
  by (simp add: pool_ok_def)

lemma pool_ok_drop: "pool_ok (pool d) (p # live) \<Longrightarrow> pool_ok (pool (drop_packet p d)) live"
  using pool_ok_release [of "pool d" "[]" p live] by (simp add: drop_packet_def)

lemma pool_ok_drop_any:
  "pool_ok (pool d) live \<Longrightarrow> length live = Suc (length rest) \<Longrightarrow> pool_ok (pool (drop_packet p d)) rest"
  by (rule pool_ok_drop, erule pool_ok_count) simp

lemma pool_ok_drops: "pool_ok (pool d) (ps @ live) \<Longrightarrow> pool_ok (pool (fold drop_packet ps d)) live"
proof (induction ps arbitrary: d)
  case (Cons p ps)
  have "pool_ok (pool (drop_packet p d)) (ps @ live)" using Cons.prems by (intro pool_ok_drop) simp
  then show ?case using Cons.IH by simp
qed simp

lemma acquire_upto_ok:
  "pool_ok pl live \<Longrightarrow> acquire_upto n pl = (ps, pl') \<Longrightarrow>
     pool_ok pl' (ps @ live) \<and> (\<forall>p \<in> set ps. wf_buf p) \<and> length ps \<le> n"
proof (induction n arbitrary: pl live ps pl')
  case (Suc n)
  show ?case
  proof (cases "try_acquire pl")
    case None
    then show ?thesis using Suc.prems by simp
  next
    case (Some x)
    obtain p pl1 where x: "x = (p, pl1)" by fastforce
    obtain ps1 pl2 where a: "acquire_upto n pl1 = (ps1, pl2)" by fastforce
    have ok: "pool_ok pl1 (p # live)" "wf_buf p"
      using pool_ok_acquire [OF Suc.prems(1)] Some x by auto
    have "pool_ok pl2 (ps1 @ p # live) \<and> (\<forall>p \<in> set ps1. wf_buf p) \<and> length ps1 \<le> n"
      by (rule Suc.IH [OF ok(1) a])
    moreover have "ps = p # ps1" "pl' = pl2" using Suc.prems(2) Some x a by auto
    ultimately show ?thesis using ok(2) by (auto elim!: pool_ok_count)
  qed
qed simp

section \<open>Accounting for the datagrams\<close>

definition payload_on :: "u16 \<Rightarrow> bytes \<Rightarrow> bytes list" where
  "payload_on c w =
     (case channel_data_header w of
        None \<Rightarrow> []
      | Some (c', n) \<Rightarrow> if c' = c then [take n (drop 4 w)] else [])"

definition payloads_on :: "u16 \<Rightarrow> bytes list \<Rightarrow> bytes list" where
  "payloads_on c ws = concat (map (payload_on c) ws)"

definition for_core :: "bytes \<Rightarrow> bool" where
  "for_core w \<longleftrightarrow> channel_data_header w = None \<and> is_stun w"

definition lost :: "driver \<Rightarrow> nat" where
  "lost d = queue_full_drops (shared d) + pool_deficit_drops (shared d)"

text \<open>
  From one state to another the driver has handled the datagrams: those of its channel are
  delivered in order, but for those counted as lost, and the core was given those for it.
\<close>

definition accounts :: "driver_env \<Rightarrow> nat \<Rightarrow> bytes list \<Rightarrow> driver \<Rightarrow> driver \<Rightarrow> bool" where
  "accounts V now ws d e \<longleftrightarrow>
     (\<exists>xs. map as_slice (incoming e) = map as_slice (incoming d) @ xs
        \<and> subseq xs (payloads_on (sh_channel (shared d)) ws)
        \<and> lost e + length xs = lost d + length (payloads_on (sh_channel (shared d)) ws))
     \<and> core e = foldl (\<lambda>c w. fst (input_stun (de_core V) now w c)) (core d) (filter for_core ws)
     \<and> pump_needed e = (pump_needed d \<or> filter for_core ws \<noteq> [])
     \<and> sh_channel (shared e) = sh_channel (shared d)
     \<and> incoming_closed e = incoming_closed d
     \<and> (length (incoming d) \<le> INCOMING_QUEUE_CAPACITY \<longrightarrow> length (incoming e) \<le> INCOMING_QUEUE_CAPACITY)"

lemma accounts_nothing:
  "incoming e = incoming d \<Longrightarrow> shared e = shared d \<Longrightarrow> core e = core d \<Longrightarrow>
     pump_needed e = pump_needed d \<Longrightarrow> incoming_closed e = incoming_closed d \<Longrightarrow> accounts V now [] d e"
  by (simp add: accounts_def payloads_on_def lost_def)

lemma accounts_append:
  assumes "accounts V now ws d e" and "accounts V now vs e f"
  shows "accounts V now (ws @ vs) d f"
proof -
  obtain xs where xs: "map as_slice (incoming e) = map as_slice (incoming d) @ xs"
    "subseq xs (payloads_on (sh_channel (shared d)) ws)"
    "lost e + length xs = lost d + length (payloads_on (sh_channel (shared d)) ws)"
    using assms(1) by (auto simp: accounts_def)
  obtain ys where ys: "map as_slice (incoming f) = map as_slice (incoming e) @ ys"
    "subseq ys (payloads_on (sh_channel (shared d)) vs)"
    "lost f + length ys = lost e + length (payloads_on (sh_channel (shared d)) vs)"
    using assms by (auto simp: accounts_def)
  have "subseq (xs @ ys) (payloads_on (sh_channel (shared d)) (ws @ vs))"
    using list_emb_append_mono [OF xs(2) ys(2)] by (simp add: payloads_on_def)
  moreover have "lost f + length (xs @ ys) = lost d + length (payloads_on (sh_channel (shared d)) (ws @ vs))"
    using xs(3) ys(3) by (simp add: payloads_on_def)
  ultimately show ?thesis
    using assms xs(1) ys(1) unfolding accounts_def by (intro conjI exI [of _ "xs @ ys"]) auto
qed

lemmas accounts_then = accounts_append [where vs = "[]", simplified]

lemma open_channel_data_payload:
  assumes "wf_buf p" and "channel_data_header (as_slice p) \<noteq> None"
  shows "payload_on c (as_slice p) = (case open_channel_data c p of None \<Rightarrow> [] | Some q \<Rightarrow> [as_slice q])"
proof -
  obtain c' n where h: "channel_data_header (as_slice p) = Some (c', n)" using assms(2) by auto
  then have len: "4 \<le> length (as_slice p)" "n \<le> length (as_slice p) - 4"
    by (auto simp: channel_data_header_def Let_def split: if_splits)
  obtain u where u: "trim_front p 4 = Inr u"
    using len(1) by (simp add: trim_front_def length_as_slice [OF assms(1)])
  have wu: "wf_buf u" and su: "as_slice u = drop 4 (as_slice p)"
    using wf_trim_front [OF assms(1) u] as_slice_trim_front [OF assms(1) u] by simp_all
  have "n \<le> buf_len u" using length_as_slice [OF wu] len by (simp add: su)
  then obtain r where r: "truncate_buf u n = Inr r" unfolding buf_op_defs by auto
  have "as_slice r = take n (drop 4 (as_slice p))"
    using as_slice_truncate [OF wu r] by (simp add: su)
  then show ?thesis by (simp add: payload_on_def open_channel_data_def h u r)
qed

lemma feed_stun_accounts:
  assumes "feed_stun V now w d = (e, a)" and "channel_data_header w = None"
  shows "accounts V now [w] d (note_pump a e)" and "a \<noteq> ActOwnerClosed"
    and "incoming e = incoming d" and "pool e = pool d" and "socket e = socket d"
  using assms
  by (auto simp: feed_stun_def accounts_def payloads_on_def payload_on_def for_core_def lost_def
      note_pump_def split: if_splits)

lemma process_deficit_accounts:
  assumes "process_deficit_packet V now w d = (e, a)"
  shows "accounts V now [w] d (note_pump a e)" and "incoming e = incoming d" and "pool e = pool d"
proof -
  have "accounts V now [w] d (note_pump a e) \<and> incoming e = incoming d \<and> pool e = pool d"
  proof (cases "channel_data_header w")
    case None
    then have "feed_stun V now w d = (e, a)" using assms by (simp add: process_deficit_packet_def)
    from feed_stun_accounts [OF this None] show ?thesis by simp
  next
    case (Some x)
    then show ?thesis using assms
      by (auto simp: process_deficit_packet_def accounts_def payloads_on_def payload_on_def for_core_def
          lost_def note_pump_def split: prod.splits if_splits)
  qed
  then show "accounts V now [w] d (note_pump a e)" "incoming e = incoming d" "pool e = pool d" by auto
qed

lemma accounts_delivered:
  assumes "payload_on (sh_channel (shared d)) w = [as_slice q]" and "length (incoming d) < INCOMING_QUEUE_CAPACITY"
    and "channel_data_header w \<noteq> None"
  shows "accounts V now [w] d (d\<lparr>incoming := incoming d @ [q]\<rparr>)"
  unfolding accounts_def using assms
  by (intro conjI exI [of _ "[as_slice q]"]) (auto simp: payloads_on_def for_core_def lost_def)

lemma accounts_lost:
  assumes "payload_on (sh_channel (shared d)) w = [x]" and "channel_data_header w \<noteq> None"
  shows "accounts V now [w] d
    (d\<lparr>shared := (shared d)\<lparr>queue_full_drops := queue_full_drops (shared d) + 1\<rparr>\<rparr>)"
  unfolding accounts_def using assms
  by (intro conjI exI [of _ "[]"]) (auto simp: payloads_on_def for_core_def lost_def)

lemma accounts_drop: "accounts V now [] d (drop_packet p d)"
  by (rule accounts_nothing) simp_all

lemma process_packet_accounts:
  assumes "wf_buf p" and "\<not> incoming_closed d" and "process_packet V now p d = (e, a)"
    and "pool_ok (pool d) (p # incoming d @ live)"
  shows "accounts V now [as_slice p] d (note_pump a e)" and "a \<noteq> ActOwnerClosed"
    and "pool_ok (pool e) (incoming e @ live)"
proof -
  have "accounts V now [as_slice p] d (note_pump a e) \<and> a \<noteq> ActOwnerClosed
      \<and> pool_ok (pool e) (incoming e @ live)"
  proof (cases "channel_data_header (as_slice p) = None")
    case True
    obtain f b where f: "feed_stun V now (as_slice p) d = (f, b)" by fastforce
    note ff = feed_stun_accounts [OF f True]
    have e: "e = drop_packet p f" "a = b" using assms(3) True f by (simp_all add: process_packet_def)
    have "note_pump a e = drop_packet p (note_pump b f)"
      unfolding e by (simp add: note_pump_def drop_packet_def)
    moreover have "accounts V now [as_slice p] d (drop_packet p (note_pump b f))"
      using accounts_append [OF ff(1) accounts_drop] by simp
    moreover have "pool_ok (pool e) (incoming e @ live)"
      unfolding e using ff(3,4) assms(4) by (intro pool_ok_drop) simp
    ultimately show ?thesis using ff(2) e(2) by simp
  next
    case False
    note pay = open_channel_data_payload [OF assms(1) False, of "sh_channel (shared d)"]
    show ?thesis
    proof (cases "open_channel_data (sh_channel (shared d)) p")
      case None
      then have e: "e = drop_packet p d" "a = ActWait" using assms(3) False by (auto simp: process_packet_def)
      have "accounts V now [as_slice p] d d"
        using pay None False by (auto simp: accounts_def payloads_on_def for_core_def lost_def)
      from accounts_append [OF this accounts_drop] show ?thesis
        using pool_ok_drop [of d p "incoming d @ live"] assms(4) by (simp add: e note_pump_def)
    next
      case (Some q)
      then have one: "payload_on (sh_channel (shared d)) (as_slice p) = [as_slice q]" using pay by simp
      show ?thesis
      proof (cases "length (incoming d) < INCOMING_QUEUE_CAPACITY")
        case True
        then have e: "e = d\<lparr>incoming := incoming d @ [q]\<rparr>" "a = ActWait"
          using assms(2,3) False Some by (auto simp: process_packet_def)
        show ?thesis
          using accounts_delivered [OF one True False] assms(4)
          by (auto simp: e note_pump_def elim!: pool_ok_count)
      next
        case full: False
        let ?d = "d\<lparr>shared := (shared d)\<lparr>queue_full_drops := queue_full_drops (shared d) + 1\<rparr>\<rparr>"
        have e: "e = drop_packet q ?d" "a = ActWait"
          using assms(2,3) False Some full by (auto simp: process_packet_def)
        have "accounts V now [as_slice p] d (drop_packet q ?d)"
          using accounts_append [OF accounts_lost [OF one False] accounts_drop] by simp
        moreover have "pool_ok (pool (drop_packet q ?d)) (incoming d @ live)"
          by (rule pool_ok_drop_any [of _ "p # incoming d @ live"]) (use assms(4) in simp_all)
        ultimately show ?thesis by (simp add: e note_pump_def)
      qed
    qed
  qed
  then show "accounts V now [as_slice p] d (note_pump a e)" "a \<noteq> ActOwnerClosed"
    "pool_ok (pool e) (incoming e @ live)" by auto
qed

text \<open>The owner has closed its end: a packet for it is dropped and ends the batch, anything else is handled
  as before.\<close>

lemma process_packet_any:
  assumes "wf_buf p" and "process_packet V now p d = (e, a)" and "pool_ok (pool d) (p # incoming d @ live)"
  shows "pool_ok (pool e) (incoming e @ live)"
    and "a = ActOwnerClosed \<Longrightarrow> incoming_closed d"
    and "a \<noteq> ActOwnerClosed \<Longrightarrow> accounts V now [as_slice p] d (note_pump a e)"
proof -
  let ?d = "d\<lparr>incoming_closed := False\<rparr>"
  have open_end: "pool_ok (pool e) (incoming e @ live) \<and> a \<noteq> ActOwnerClosed
      \<and> accounts V now [as_slice p] d (note_pump a e)" if "\<not> incoming_closed d"
    using process_packet_accounts [OF assms(1) that assms(2,3)] by simp
  have closed_end: "pool_ok (pool e) (incoming e @ live)
      \<and> (a \<noteq> ActOwnerClosed \<longrightarrow> accounts V now [as_slice p] d (note_pump a e))" if closed: "incoming_closed d"
  proof (cases "channel_data_header (as_slice p) = None")
    case True
    obtain f b where f: "feed_stun V now (as_slice p) d = (f, b)" by fastforce
    note ff = feed_stun_accounts [OF f True]
    have e: "e = drop_packet p f" "a = b" using assms(2) True f by (simp_all add: process_packet_def)
    have "note_pump a e = drop_packet p (note_pump b f)"
      unfolding e by (simp add: note_pump_def drop_packet_def)
    moreover have "accounts V now [as_slice p] d (drop_packet p (note_pump b f))"
      using accounts_append [OF ff(1) accounts_drop] by simp
    moreover have "pool_ok (pool e) (incoming e @ live)"
      unfolding e using ff(3,4) assms(3) by (intro pool_ok_drop) simp
    ultimately show ?thesis by simp
  next
    case False
    note pay = open_channel_data_payload [OF assms(1) False, of "sh_channel (shared d)"]
    show ?thesis
    proof (cases "open_channel_data (sh_channel (shared d)) p")
      case None
      then have e: "e = drop_packet p d" "a = ActWait" using assms(2) False by (auto simp: process_packet_def)
      have "accounts V now [as_slice p] d d"
        using pay None False by (auto simp: accounts_def payloads_on_def for_core_def lost_def)
      from accounts_append [OF this accounts_drop] show ?thesis
        using pool_ok_drop [of d p "incoming d @ live"] assms(3) by (simp add: e note_pump_def)
    next
      case (Some q)
      then have e: "e = drop_packet q d" "a = ActOwnerClosed"
        using assms(2) False closed by (auto simp: process_packet_def)
      have "pool_ok (pool (drop_packet q d)) (incoming d @ live)"
        by (rule pool_ok_drop_any [OF assms(3)]) simp
      then show ?thesis by (simp add: e)
    qed
  qed
  show "pool_ok (pool e) (incoming e @ live)" using open_end closed_end by blast
  show "a = ActOwnerClosed \<Longrightarrow> incoming_closed d" using open_end by blast
  show "a \<noteq> ActOwnerClosed \<Longrightarrow> accounts V now [as_slice p] d (note_pump a e)"
    using open_end closed_end by blast
qed

lemma process_batch_accounts:
  assumes "\<forall>p \<in> set ps. wf_buf p"
    and "pool_ok (pool d) (ps @ incoming d @ live)" and "process_batch V now ps d = (e, b)"
  shows "b \<or> accounts V now (map as_slice ps) d e" and "b \<Longrightarrow> incoming_closed d"
    and "pool_ok (pool e) (incoming e @ live)"
proof -
  have "(b \<or> accounts V now (map as_slice ps) d e) \<and> (b \<longrightarrow> incoming_closed d) \<and> pool_ok (pool e) (incoming e @ live)"
    using assms
  proof (induction ps arbitrary: d)
    case Nil
    then show ?case by (auto intro!: accounts_nothing)
  next
    case (Cons p ps)
    obtain d1 a where p: "process_packet V now p d = (d1, a)" by fastforce
    have wf: "wf_buf p" using Cons.prems(1) by simp
    have ok: "pool_ok (pool d) (p # incoming d @ ps @ live)"
      by (rule pool_ok_count [OF Cons.prems(2)]) simp
    note one = process_packet_any [OF wf p ok]
    show ?case
    proof (cases "a = ActOwnerClosed")
      case True
      then have e: "e = fold drop_packet ps d1" "b" using Cons.prems(3) p by simp_all
      have inc: "incoming (fold drop_packet ps d1) = incoming d1"
        by (induction ps arbitrary: d1) simp_all
      have "pool_ok (pool (fold drop_packet ps d1)) (incoming d1 @ live)"
        by (rule pool_ok_drops, rule pool_ok_count [OF one(1)]) simp
      then show ?thesis using e one(2) [OF True] inc by simp
    next
      case False
      note acc = one(3) [OF False]
      have rest: "process_batch V now ps (note_pump a d1) = (e, b)" using Cons.prems(3) p False by simp
      have "(b \<or> accounts V now (map as_slice ps) (note_pump a d1) e)
          \<and> (b \<longrightarrow> incoming_closed (note_pump a d1)) \<and> pool_ok (pool e) (incoming e @ live)"
      proof (rule Cons.IH [OF _ _ rest])
        show "\<forall>p \<in> set ps. wf_buf p" using Cons.prems(1) by simp
        show "pool_ok (pool (note_pump a d1)) (ps @ incoming (note_pump a d1) @ live)"
          using one(1) by (auto elim!: pool_ok_count)
      qed
      moreover have "incoming_closed (note_pump a d1) = incoming_closed d" using acc by (simp only: accounts_def)
      moreover have "accounts V now (map as_slice (p # ps)) d e"
        if "accounts V now (map as_slice ps) (note_pump a d1) e"
        using accounts_append [OF acc that] by simp
      ultimately show ?thesis by blast
    qed
  qed
  then show "b \<or> accounts V now (map as_slice ps) d e" "b \<Longrightarrow> incoming_closed d"
    "pool_ok (pool e) (incoming e @ live)" by auto
qed

section \<open>The burst\<close>

definition arrived :: "unit udp_socket \<Rightarrow> nat \<Rightarrow> bytes list" where
  "arrived s k = map (\<lambda>(b, _). take read_room b) (take k (inbox s))"

text \<open>What a round or a burst does, from one state to another: the flag tells a failure.\<close>

definition handles ::
  "driver_env \<Rightarrow> nat \<Rightarrow> packet_buf list \<Rightarrow> driver \<Rightarrow> driver \<Rightarrow> bool \<Rightarrow> bool" where
  "handles V now live d e failed \<longleftrightarrow>
     pool_ok (pool e) (incoming e @ live)
     \<and> (if failed then closing (shared e)
        else \<exists>k \<le> length (inbox (socket d)). inbox (socket e) = drop k (inbox (socket d))
               \<and> accounts V now (arrived (socket d) k) d e)"

lemma recv_raw_from:
  assumes "recv_raw s = (t, r)"
  shows "case r of Inl _ \<Rightarrow> inbox t = inbox s
    | Inr w \<Rightarrow> \<exists>b. inbox s = b # inbox t \<and> w = take read_room (fst b)"
  using assms by (auto simp: recv_raw_def split: list.splits kernel_answer.splits)

lemma handles_nothing:
  assumes "pool_ok (pool e) (incoming e @ live)" and "inbox (socket e) = inbox (socket d)"
    and "accounts V now [] d e"
  shows "handles V now live d e False"
  using assms by (auto simp: handles_def arrived_def intro!: exI [of _ 0])

lemma deficit_round_handles:
  assumes "pool_ok (pool d) (incoming d @ live)" and "deficit_round V now n d = (e, n', r)"
  shows "handles V now live d e (r = Some False)"
proof -
  obtain s x where s: "recv_raw (socket d) = (s, x)" by fastforce
  show ?thesis
  proof (cases x)
    case (Inl f)
    have box: "inbox s = inbox (socket d)" using recv_raw_from [OF s] Inl by simp
    show ?thesis
    proof (cases "f = Fail WouldBlock")
      case True
      then have "e = d\<lparr>socket := s\<rparr>" "r = Some True" using assms(2) s Inl by (auto simp: deficit_round_def)
      then show ?thesis using assms(1) box by (auto intro!: handles_nothing accounts_nothing)
    next
      case False
      then have "e = fail_and_clean ReceiveFailed (d\<lparr>socket := s\<rparr>)" "r = Some False"
        using assms(2) s Inl by (auto simp: deficit_round_def)
      then show ?thesis using assms(1)
        by (simp add: handles_def fail_and_clean_def request_cleanup_def)
    qed
  next
    case (Inr w)
    obtain b where b: "inbox (socket d) = b # inbox s" "w = take read_room (fst b)"
      using recv_raw_from [OF s] Inr by auto
    obtain d1 a where p: "process_deficit_packet V now w (d\<lparr>socket := s\<rparr>) = (d1, a)" by fastforce
    have e: "e = note_pump a d1" "r = None" using assms(2) s Inr p by (auto simp: deficit_round_def)
    note acc = process_deficit_accounts [OF p]
    have "accounts V now [] d (d\<lparr>socket := s\<rparr>)" by (rule accounts_nothing) simp_all
    from accounts_append [OF this acc(1)] have "accounts V now [w] d e" by (simp add: e)
    moreover have "socket e = s" using process_deficit_socket [OF p [symmetric]] by (simp add: e)
    moreover have "pool_ok (pool e) (incoming e @ live)" using assms(1) acc(2,3) by (simp add: e)
    ultimately show ?thesis using b e(2)
      by (auto simp: handles_def arrived_def case_prod_beta intro!: exI [of _ 1])
  qed
qed

lemma received_arrived:
  fixes got :: "(packet_buf \<times> unit) list"
  assumes "list_all2 (\<lambda>(q, _) (b, _). wf_buf q \<and> as_slice q = take read_room b) got (take k (inbox s))"
  shows "map as_slice (map fst got) = arrived s k" and "\<forall>p \<in> set (map fst got). wf_buf p"
    and "length got = min k (length (inbox s))"
proof -
  have *: "map as_slice (map fst gs) = map (\<lambda>(b, _). take read_room b) xs \<and> (\<forall>p \<in> set (map fst gs). wf_buf p)"
    if "list_all2 (\<lambda>(q, _) (b, _). wf_buf q \<and> as_slice q = take read_room b) gs xs"
    for gs :: "(packet_buf \<times> unit) list" and xs :: "(bytes \<times> unit) list"
    using that by (induction rule: list_all2_induct) auto
  show "map as_slice (map fst got) = arrived s k" "\<forall>p \<in> set (map fst got). wf_buf p"
    using * [OF assms] by (auto simp: arrived_def)
  show "length got = min k (length (inbox s))" using list_all2_lengthD [OF assms] by (simp add: min.commute)
qed

lemma batch_round_handles:
  assumes "\<forall>p \<in> set batch. wf_buf p"
    and "pool_ok (pool d) (batch @ incoming d @ live)" and "batch_round V now n batch d = (e, n', r)"
  shows "handles V now live d e (r = Some False)"
proof -
  obtain s x where s: "try_recv_connected batch (socket d) = (s, x)" by fastforce
  obtain k where k: "k \<le> length (inbox (socket d))" "inbox s = drop k (inbox (socket d))"
    "x = Inl (Fail WouldBlock) \<longrightarrow> k = 0"
    "\<forall>got. x = Inr got \<longrightarrow> list_all2 (\<lambda>(q, _) (b, _). wf_buf q \<and> as_slice q = take read_room b)
        got (take k (inbox (socket d)))"
    using try_recv_from_connected [OF assms(1) s] by (auto simp: received_from_def)
  have idle: "pool_ok (pool (fold drop_packet batch (d\<lparr>socket := s\<rparr>))) (incoming d @ live)"
    "pool_ok (pool (fold drop_packet batch (d\<lparr>socket := s, batch_limit := l\<rparr>))) (incoming d @ live)" for l
    using assms(2) by (auto intro: pool_ok_drops)
  show ?thesis
  proof (cases x)
    case (Inl f)
    show ?thesis
    proof (cases "f = Fail WouldBlock")
      case True
      then have "e = (fold drop_packet batch (d\<lparr>socket := s\<rparr>))
          \<lparr>batch_limit := adapt_batch_limit (batch_limit d) 0\<rparr>" "r = Some True"
        using assms(3) s Inl by (auto simp: batch_round_def Let_def)
      then show ?thesis using idle k True Inl by (auto intro!: handles_nothing accounts_nothing)
    next
      case False
      then have "e = fail_and_clean ReceiveFailed (fold drop_packet batch (d\<lparr>socket := s\<rparr>))" "r = Some False"
        using assms(3) s Inl by (auto simp: batch_round_def Let_def)
      then show ?thesis using idle
        by (simp add: handles_def fail_and_clean_def request_cleanup_def)
    qed
  next
    case (Inr got)
    note got = received_arrived [OF k(4) [rule_format, OF Inr]]
    have lg: "length got = k" using got(3) k(1) by simp
    show ?thesis
    proof (cases "got = []")
      case True
      then have "e = fold drop_packet batch (d\<lparr>socket := s,
            batch_limit := adapt_batch_limit (batch_limit d) 0\<rparr>)" "r = Some True"
        using assms(3) s Inr by (auto simp: batch_round_def Let_def)
      then show ?thesis using idle k lg True by (auto intro!: handles_nothing accounts_nothing)
    next
      case False
      show ?thesis
      proof (cases "length got \<le> length batch")
        case fits: True
        define d2 where "d2 = (if length batch = batch_limit d
            then d\<lparr>socket := s, batch_limit := adapt_batch_limit (batch_limit d) (length got)\<rparr>
            else d\<lparr>socket := s\<rparr>)"
        obtain d3 b where p: "process_batch V now (map fst got) d2 = (d3, b)" by fastforce
        let ?unused = "drop (length got) batch"
        have "pool_ok (pool d2) (map fst got @ incoming d2 @ ?unused @ live)"
          using assms(2) fits by (auto simp: d2_def elim!: pool_ok_count)
        note acc = process_batch_accounts [OF got(2) this p]
        have returned: "pool_ok (pool (fold drop_packet ?unused d3)) (incoming d3 @ live)"
          using acc(3) by (auto intro!: pool_ok_drops elim!: pool_ok_count)
        have kept: "incoming (fold drop_packet ps f) = incoming f" for ps f
          by (induction ps arbitrary: f) simp_all
        show ?thesis
        proof (cases b)
          case True
          then have "e = (fold drop_packet ?unused d3)
              \<lparr>shared := request_cleanup (shared (fold drop_packet ?unused d3))\<rparr>" "r = Some False"
            using assms(3) s Inr False fits p
            by (auto simp: batch_round_def Let_def d2_def split: if_splits)
          then show ?thesis using returned by (simp add: handles_def request_cleanup_def kept)
        next
          case goes_on: False
        then have acc1: "accounts V now (map as_slice (map fst got)) d2 d3" using acc(1) by simp
        have e: "e = fold drop_packet ?unused d3" "r = None"
          using assms(3) s Inr False fits p goes_on
          by (auto simp: batch_round_def Let_def d2_def split: if_splits)
        have "accounts V now [] d d2" by (rule accounts_nothing) (simp_all add: d2_def)
        from accounts_append [OF this acc1]
        have "accounts V now (arrived (socket d) k) d d3" by (simp only: got(1) append_Nil)
        moreover have "accounts V now [] d3 e" by (rule accounts_nothing) (simp_all add: e)
        ultimately have "accounts V now (arrived (socket d) k) d e"
          using accounts_append by fastforce
        moreover have "pool_ok (pool e) (incoming e @ live)"
          unfolding e using returned by (simp add: kept)
        moreover have "socket e = s"
        proof -
          have "socket (fst (process_batch V now ps f)) = socket f" for ps f
            by (induction ps arbitrary: f)
              (simp_all add: process_packet_def feed_stun_def Let_def case_prod_beta note_pump_def
                split: option.split)
          from this [of "map fst got" d2] show ?thesis using p by (simp add: e d2_def)
        qed
        ultimately show ?thesis using e(2) k by (auto simp: handles_def)
        qed
      next
        case long: False
        then have "e = fail_and_clean InvalidReceiveCount (fold drop_packet batch (d\<lparr>socket := s\<rparr>))"
          "r = Some False" using assms(3) s Inr False by (auto simp: batch_round_def Let_def)
        then show ?thesis using idle
          by (simp add: handles_def fail_and_clean_def request_cleanup_def)
      qed
    qed
  qed
qed

lemma handles_trans:
  assumes "handles V now live d e False" and "handles V now live e f b"
  shows "handles V now live d f b"
proof (cases b)
  case True
  then show ?thesis using assms(2) by (simp add: handles_def)
next
  case False
  obtain k where k: "k \<le> length (inbox (socket d))" "inbox (socket e) = drop k (inbox (socket d))"
    "accounts V now (arrived (socket d) k) d e" using assms(1) by (auto simp: handles_def)
  obtain j where j: "j \<le> length (inbox (socket e))" "inbox (socket f) = drop j (inbox (socket e))"
    "accounts V now (arrived (socket e) j) e f" using assms(2) False by (auto simp: handles_def)
  have "arrived (socket d) (k + j) = arrived (socket d) k @ arrived (socket e) j"
    by (simp add: arrived_def take_add k(2))
  then have "accounts V now (arrived (socket d) (k + j)) d f"
    using accounts_append [OF k(3) j(3)] by simp
  then show ?thesis using assms(2) False k j
    by (auto simp: handles_def add.commute intro!: exI [of _ "k + j"])
qed

lemma burst_round_handles:
  assumes "pool_ok (pool d) (incoming d @ live)" and "burst_round V now n d = (e, n', r)"
  shows "handles V now live d e (r = Some False)"
proof -
  obtain batch pl where b: "acquire_upto (min (MAX_DATAGRAMS - n) (batch_limit d)) (pool d) = (batch, pl)"
    by fastforce
  note ok = acquire_upto_ok [OF assms(1) b]
  have same: "handles V now live d (d\<lparr>pool := pl\<rparr>) False" if "batch = []"
    using ok that by (auto intro!: handles_nothing accounts_nothing)
  show ?thesis
  proof (cases "batch = []")
    case True
    have "handles V now live (d\<lparr>pool := pl\<rparr>) e (r = Some False)"
      by (rule deficit_round_handles [of _ _ V now n _ n']) (use ok True assms(2) b in \<open>auto simp: burst_round_def\<close>)
    then show ?thesis by (rule handles_trans [OF same [OF True]])
  next
    case False
    have "handles V now live (d\<lparr>pool := pl\<rparr>) e (r = Some False)"
      by (rule batch_round_handles [of batch _ _ V now n _ n'])
        (use ok False assms b in \<open>auto simp: burst_round_def\<close>)
    moreover have "accounts V now ws (d\<lparr>pool := pl\<rparr>) e = accounts V now ws d e" for ws
      by (simp add: accounts_def lost_def)
    ultimately show ?thesis by (auto simp: handles_def split: if_splits)
  qed
qed

text \<open>A burst that is cut short has handled fewer datagrams than it may, or its owner has closed.\<close>

lemma process_packet_closed:
  "process_packet V now p d = (e, a) \<Longrightarrow> incoming_closed e = incoming_closed d \<and> (a = ActOwnerClosed \<longrightarrow> incoming_closed d)"
  by (auto simp: process_packet_def feed_stun_def split: option.splits if_splits prod.splits)

lemma process_batch_closed: "process_batch V now ps d = (e, True) \<Longrightarrow> incoming_closed d"
proof (induction ps arbitrary: d)
  case (Cons p ps)
  obtain d1 a where p: "process_packet V now p d = (d1, a)" by fastforce
  have "incoming_closed (note_pump a d1) = incoming_closed d1" by simp
  then show ?case
    using Cons.IH [of "note_pump a d1"] Cons.prems process_packet_closed [OF p] p by (auto split: if_splits)
qed simp

lemma burst_round_short:
  assumes "burst_round V now n d = (e, n', Some False)"
  shows "n' = n \<or> incoming_closed d"
proof -
  obtain batch pl where b: "acquire_upto (min (MAX_DATAGRAMS - n) (batch_limit d)) (pool d) = (batch, pl)"
    by fastforce
  have deficit: "n' = n" if "deficit_round V now n f = (e, n', Some False)" for f
    using that by (auto simp: deficit_round_def split: prod.splits sum.splits if_splits)
  have batch: "n' = n \<or> incoming_closed f" if "batch_round V now n batch f = (e, n', Some False)" for f
  proof -
    obtain s x where s: "try_recv_connected batch (socket f) = (s, x)" by fastforce
    show ?thesis
    proof (cases x)
      case (Inl g)
      then show ?thesis using that s by (auto simp: batch_round_def Let_def split: if_splits)
    next
      case (Inr got)
      then show ?thesis using that s process_batch_closed
        by (fastforce simp: batch_round_def Let_def split: if_splits prod.splits)
    qed
  qed
  show ?thesis
    using assms b deficit batch [of "d\<lparr>pool := pl\<rparr>"] by (auto simp: burst_round_def split: if_splits)
qed

lemma receive_burst_handles:
  assumes "pool_ok (pool d) (incoming d @ live)" and "receive_burst V now n d = (e, n', b)"
  shows "\<exists>failed. handles V now live d e failed \<and> (failed \<longrightarrow> \<not> b \<and> (n' < MAX_DATAGRAMS \<or> incoming_closed d))"
  using assms
proof (induction V now n d rule: receive_burst.induct)
  case (1 V now n d)
  obtain d1 n1 r where b: "burst_round V now n d = (d1, n1, r)" by (metis prod_cases3)
  note one = burst_round_handles [OF "1.prems"(1) b]
  show ?case
  proof (cases "n < MAX_DATAGRAMS")
    case False
    then have "e = d" using "1.prems"(2) by (subst (asm) receive_burst.simps) simp
    then show ?thesis using "1.prems"(1)
      by (intro exI [of _ False]) (auto intro!: handles_nothing accounts_nothing)
  next
    case room: True
    show ?thesis
    proof (cases r)
      case None
      then have rest: "receive_burst V now n1 d1 = (e, n', b)"
        using "1.prems"(2) room b by (subst (asm) receive_burst.simps) simp
      have ok: "pool_ok (pool d1) (incoming d1 @ live)"
        using one None by (auto simp: handles_def)
      have same: "incoming_closed d1 = incoming_closed d" using one None by (auto simp: handles_def accounts_def)
      obtain failed where f: "handles V now live d1 e failed"
        "failed \<longrightarrow> \<not> b \<and> (n' < MAX_DATAGRAMS \<or> incoming_closed d1)"
        using "1.IH" [OF _ b [symmetric] refl None ok rest] room by (auto simp: not_le)
      have "handles V now live d d1 False" using one None by simp
      from handles_trans [OF this f(1)] f(2) same show ?thesis by blast
    next
      case (Some x)
      then have end_of: "e = d1" "b = x" "n' = n1"
        using "1.prems"(2) room b by (subst (asm) receive_burst.simps, simp)+
      have "x = False \<Longrightarrow> n1 = n \<or> incoming_closed d" using burst_round_short b Some by metis
      then show ?thesis using one Some end_of room by (cases x) auto
    qed
  qed
qed

text \<open>C28: a receive burst of the driver accounts for every datagram it takes off the socket. The packets
  of the confirmed channel reach the queue of the session with their bytes unchanged and in order, and
  those that do not are counted as dropped, one by one; the STUN messages are given to the core in
  order and request a pump; the queue stays within its capacity. The exception is a burst that closes
  the allocation, because receiving failed or because the session has closed its end of the queue and
  a packet for it arrives: it is cut short, reports no empty socket, and the datagrams it has taken
  may be discarded. In every case, these two included, each buffer of the pool is in the queue of the session,
  in use elsewhere, or back in the pool.\<close>

theorem turn_burst_accounts:
  assumes "pool_ok (pool d) (incoming d @ live)"
    and "receive_burst V now 0 d = (e, n, emptied)"
  shows "pool_ok (pool e) (incoming e @ live)
    \<and> (closing (shared e) \<and> \<not> emptied \<and> (n < MAX_DATAGRAMS \<or> incoming_closed d) \<or>
        (\<exists>k xs. inbox (socket e) = drop k (inbox (socket d))
          \<and> map as_slice (incoming e) = map as_slice (incoming d) @ xs
          \<and> subseq xs (payloads_on (sh_channel (shared d)) (arrived (socket d) k))
          \<and> length xs + (lost e - lost d)
              = length (payloads_on (sh_channel (shared d)) (arrived (socket d) k))
          \<and> core e = foldl (\<lambda>c w. fst (input_stun (de_core V) now w c)) (core d)
                (filter for_core (arrived (socket d) k))
          \<and> (filter for_core (arrived (socket d) k) \<noteq> [] \<longrightarrow> pump_needed e)
          \<and> (length (incoming d) \<le> INCOMING_QUEUE_CAPACITY \<longrightarrow>
               length (incoming e) \<le> INCOMING_QUEUE_CAPACITY)))"
proof -
  obtain failed where h: "handles V now live d e failed" and quiet: "failed \<longrightarrow> \<not> emptied \<and> (n < MAX_DATAGRAMS \<or> incoming_closed d)"
    using receive_burst_handles [OF assms] by blast
  show ?thesis
  proof (cases failed)
    case True
    then show ?thesis using h quiet by (simp add: handles_def)
  next
    case False
    then obtain k where k: "inbox (socket e) = drop k (inbox (socket d))"
      "accounts V now (arrived (socket d) k) d e" using h by (auto simp: handles_def)
    obtain xs where xs: "map as_slice (incoming e) = map as_slice (incoming d) @ xs"
      "subseq xs (payloads_on (sh_channel (shared d)) (arrived (socket d) k))"
      "lost e + length xs = lost d + length (payloads_on (sh_channel (shared d)) (arrived (socket d) k))"
      using k(2) by (auto simp: accounts_def)
    have "length xs \<le> length (payloads_on (sh_channel (shared d)) (arrived (socket d) k))"
      by (rule list_emb_length [OF xs(2)])
    then have "length xs + (lost e - lost d)
        = length (payloads_on (sh_channel (shared d)) (arrived (socket d) k))" using xs(3) by linarith
    then show ?thesis
      using h k xs(1,2) by (intro conjI disjI2 exI [of _ k] exI [of _ xs]) (auto simp: handles_def accounts_def)
  qed
qed

text \<open>A driver with a packet of its channel and one of another channel waiting.\<close>

definition receiving_driver :: driver where
  "receiving_driver = sample_driver
     \<lparr>shared := shared_new\<lparr>sh_channel := 0x4000\<rparr>,
      socket := \<lparr>inbox = [([0x40, 0, 0, 3, 1, 2, 3, 0], ()), ([0x40, 1, 0, 0], ())], outbox = [],
        script = [], mmsg_enabled = True\<rparr>\<rparr>"

lemma turn_burst_accounts_witness:
  "\<exists>e n emptied. receive_burst sample_env 7 0 receiving_driver = (e, n, emptied) \<and> pool_ok (pool e) (incoming e)"
proof -
  obtain e n emptied where r: "receive_burst sample_env 7 0 receiving_driver = (e, n, emptied)" by (metis prod_cases3)
  have "pool_ok (pool receiving_driver) (incoming receiving_driver @ [])"
    by (simp add: receiving_driver_def sample_driver_def pool_ok_new)
  from turn_burst_accounts [OF this r] show ?thesis by (simp add: r)
qed

end
