(* ===== verification/TurnAllocation.thy ===== *)
theory TurnAllocation
  imports TurnDriverReceive
begin

text \<open>
  The users of a TURN allocation, \<^verbatim>\<open>backend/turn.rs\<close>: sending packets, waiting for the completion
  of a request, and the receiver of the session, whose wait for a failure interleaves with the
  task that records it.
\<close>

section \<open>Sending\<close>

text \<open>
  What a send puts on the wire: datagrams on a UDP socket, or packets into the queue of the
  stream's writer. The results of the sends are a script, an ended script succeeds.
\<close>

datatype outbound = UdpOut | StreamOut

definition send_ok :: "bool list \<Rightarrow> bool" where
  "send_ok xs = (xs = [] \<or> hd xs)"

definition of_channel :: "(channel_error, 'a) res \<Rightarrow> (alloc_error, 'a) res" where
  "of_channel r = (case r of Inl (Fail e) \<Rightarrow> Inl (Fail (Unsendable e)) | Inl Panic \<Rightarrow> Inl Panic | Inr x \<Rightarrow> Inr x)"

definition confirmed_channel :: "driver_shared \<Rightarrow> (alloc_error, u16) res" where
  "confirmed_channel s =
     and_then (ensure_allocation_open s) (\<lambda>_.
     and_then (ensure (sh_channel s \<noteq> 0) NoChannel) (\<lambda>_. Inr (sh_channel s)))"

text \<open>A duplicate is sent at best effort, over UDP only.\<close>

definition send_with_duplicate ::
  "outbound \<Rightarrow> driver_shared \<Rightarrow> packet_buf \<Rightarrow> bool \<Rightarrow> bool list \<Rightarrow> bytes list \<times> (alloc_error, unit) res" where
  "send_with_duplicate out s p duplicate results =
     (case and_then (confirmed_channel s) (\<lambda>c. of_channel (encode_channel_data p c)) of
        Inl e \<Rightarrow> ([], Inl e)
      | Inr q \<Rightarrow>
          if \<not> send_ok results then ([], Inl (Fail SendError))
          else (case out of
             UdpOut \<Rightarrow> (as_slice q # (if duplicate \<and> send_ok (tl results) then [as_slice q] else []), Inr ())
           | StreamOut \<Rightarrow> ([as_slice q], Inr ())))"

fun encode_all :: "u16 \<Rightarrow> packet_buf list \<Rightarrow> (alloc_error, packet_buf list) res" where
  "encode_all c [] = Inr []"
| "encode_all c (p # ps) =
     and_then (of_channel (encode_channel_data p c)) (\<lambda>q.
     and_then (encode_all c ps) (\<lambda>qs. Inr (q # qs)))"

fun check_all :: "u16 \<Rightarrow> packet_buf list \<Rightarrow> (alloc_error, unit) res" where
  "check_all c [] = Inr ()"
| "check_all c (p # ps) =
     and_then (of_channel (channel_data_padding p c)) (\<lambda>_. check_all c ps)"

fun chunks :: "nat \<Rightarrow> 'a list \<Rightarrow> 'a list list" where
  "chunks n [] = []"
| "chunks n (x # xs) = take (max 1 n) (x # xs) # chunks n (drop (max 1 n) (x # xs))"

text \<open>
  The chunks of a batch over UDP. Waiting for the socket is bounded by \<open>fuel\<close>; \<open>None\<close> is a
  send that still waits.
\<close>

fun send_chunks ::
  "nat \<Rightarrow> bytes list list \<Rightarrow> 'a udp_socket \<Rightarrow> 'a udp_socket \<times> (alloc_error, unit) res option" where
  "send_chunks fuel [] s = (s, Some (Inr ()))"
| "send_chunks fuel (c # cs) s =
     (case send_connected fuel c s of
        (s', _, Some (Inr _)) \<Rightarrow> send_chunks fuel cs s'
      | (s', _, Some (Inl _)) \<Rightarrow> (s', Some (Inl (Fail SendError)))
      | (s', _, None) \<Rightarrow> (s', None))"

definition prepare_batch ::
  "driver_shared \<Rightarrow> packet_buf list \<Rightarrow> (alloc_error, packet_buf list) res" where
  "prepare_batch s ps =
     and_then (confirmed_channel s) (\<lambda>c.
     and_then (check_all c ps) (\<lambda>_. encode_all c ps))"

definition send_data_batch_udp ::
  "nat \<Rightarrow> driver_shared \<Rightarrow> packet_buf list \<Rightarrow> 'a udp_socket \<Rightarrow>
     'a udp_socket \<times> (alloc_error, unit) res option" where
  "send_data_batch_udp fuel s ps sock =
     (if ps = [] then (sock, Some (Inr ()))
      else case prepare_batch s ps of
        Inl e \<Rightarrow> (sock, Some (Inl e))
      | Inr qs \<Rightarrow> send_chunks fuel (chunks MAX_DATAGRAMS (map as_slice qs)) sock)"

lemma of_channel_Inr_conv [simp]: "of_channel r = Inr x \<longleftrightarrow> r = Inr x"
  by (auto simp: of_channel_def split: sum.splits fault.splits)

lemma encode_all_ok:
  "encode_all c ps = Inr qs \<Longrightarrow> list_all2 (\<lambda>p q. encode_channel_data p c = Inr q) ps qs"
  by (induction ps arbitrary: qs) (auto simp: and_then_Inr_conv)

lemma concat_chunks [simp]: "concat (chunks n xs) = xs"
  by (induction n xs rule: chunks.induct) (simp_all only: chunks.simps concat.simps append_take_drop_id)

lemma send_chunks_prefix:
  "send_chunks fuel cs s = (s', r) \<Longrightarrow>
     \<exists>k \<le> length (concat cs). outbox s' = outbox s @ take k (concat cs)
       \<and> (r = Some (Inr ()) \<longrightarrow> k = length (concat cs))"
proof (induction cs arbitrary: s)
  case (Cons c cs)
  obtain s1 n x where c: "send_connected fuel c s = (s1, n, x)" by (metis prod_cases3)
  obtain k where k: "k \<le> length c" "outbox s1 = outbox s @ take k c" "x = Some (Inr ()) \<longrightarrow> k = length c"
    using send_connected_prefix [OF c] by blast
  show ?case
  proof (cases "x = Some (Inr ())")
    case True
    then have "send_chunks fuel cs s1 = (s', r)" using Cons.prems c by simp
    from Cons.IH [OF this] obtain j where "j \<le> length (concat cs)"
      "outbox s' = outbox s1 @ take j (concat cs)" "r = Some (Inr ()) \<longrightarrow> j = length (concat cs)" by blast
    then show ?thesis using k True by (intro exI [of _ "length c + j"]) simp
  next
    case False
    then have "s' = s1" "r \<noteq> Some (Inr ())"
      using Cons.prems c by (auto split: option.splits sum.splits)
    then show ?thesis using k by (intro exI [of _ k]) simp
  qed
qed simp

lemma confirmed_channel_ok:
  "confirmed_channel s = Inr c \<Longrightarrow> c = sh_channel s \<and> c \<noteq> 0 \<and> is_ok (ensure_allocation_open s)"
  by (auto simp: confirmed_channel_def and_then_Inr_conv)

text \<open>a batch of packets sent over UDP puts a prefix of its datagrams on the wire, each once and
  in order, whatever the kernel answers, and all of them when the send succeeds; a datagram is sent
  only when the allocation is open, its channel is confirmed and every packet of the batch can be
  encoded; and a receiver on that channel opens each datagram to the bytes of its packet.\<close>

theorem turn_batch_prefix:
  assumes "\<forall>p \<in> set ps. wf_buf p" and "send_data_batch_udp fuel s ps sock = (sock', r)"
  shows "\<exists>qs k. outbox sock' = outbox sock @ take k (map as_slice qs)
    \<and> (r = Some (Inr ()) \<longrightarrow> k = length ps \<and> length qs = length ps)
    \<and> (qs \<noteq> [] \<longrightarrow> is_ok (ensure_allocation_open s) \<and> sh_channel s \<noteq> 0
         \<and> list_all2 (\<lambda>p q. \<exists>u. open_channel_data (sh_channel s) q = Some u \<and> as_slice u = as_slice p) ps qs)"
proof (cases "\<exists>qs. ps \<noteq> [] \<and> prepare_batch s ps = Inr qs")
  case False
  then have "sock' = sock \<and> (r = Some (Inr ()) \<longrightarrow> ps = [])"
    using assms(2) by (auto simp: send_data_batch_udp_def split: if_splits sum.splits)
  then show ?thesis by (intro exI [of _ "[]"] exI [of _ 0]) simp
next
  case True
  then obtain qs where qs: "ps \<noteq> []" "prepare_batch s ps = Inr qs" by blast
  then obtain c where c: "confirmed_channel s = Inr c" and e: "encode_all c ps = Inr qs"
    by (auto simp: prepare_batch_def and_then_Inr_conv)
  note cs = confirmed_channel_ok [OF c]
  have enc: "list_all2 (\<lambda>p q. encode_channel_data p c = Inr q) ps qs" by (rule encode_all_ok [OF e])
  then have len: "length qs = length ps" by (simp add: list_all2_lengthD)
  have "list_all2 (\<lambda>p q. \<exists>u. open_channel_data (sh_channel s) q = Some u \<and> as_slice u = as_slice p) ps qs"
    using enc by (rule list.rel_mono_strong)
      (use assms(1) open_channel_data_encoded cs in metis)
  moreover obtain k where "k \<le> length (map as_slice qs)" "outbox sock' = outbox sock @ take k (map as_slice qs)"
    "r = Some (Inr ()) \<longrightarrow> k = length (map as_slice qs)"
    using send_chunks_prefix [of fuel "chunks MAX_DATAGRAMS (map as_slice qs)" sock sock' r] assms(2) qs
    by (auto simp: send_data_batch_udp_def)
  ultimately show ?thesis using cs len by (intro exI [of _ qs] exI [of _ k]) auto
qed

lemma turn_batch_prefix_witness:
  "\<exists>r k. send_data_batch_udp 1 (shared_new\<lparr>sh_channel := 0x4000\<rparr>) [sample_packet]
       \<lparr>inbox = [] :: (bytes \<times> unit) list, outbox = [], script = [Succeeds 1], mmsg_enabled = True\<rparr>
     = (r, k) \<and> (k = Some (Inr ()) \<longrightarrow> length (outbox r) = 1)"
proof -
  let ?s = "\<lparr>inbox = [] :: (bytes \<times> unit) list, outbox = [], script = [Succeeds 1], mmsg_enabled = True\<rparr>"
  obtain t r where t: "send_data_batch_udp 1 (shared_new\<lparr>sh_channel := 0x4000\<rparr>) [sample_packet] ?s = (t, r)"
    by fastforce
  have "\<forall>p \<in> set [sample_packet]. wf_buf p" by (simp add: sample_packet_def wf_buf_def packet_consts)
  from turn_batch_prefix [OF this t] show ?thesis using t by fastforce
qed

section \<open>Waiting for a request\<close>

datatype request_error = RequestError nat int nat | RequestTerminal turn_reason

text \<open>
  What a waiter makes of one snapshot: nothing yet, or the outcome of the request. A completion
  newer than the baseline goes before a failure of the allocation.
\<close>

definition completion_verdict ::
  "nat \<Rightarrow> u64 \<Rightarrow> core_snapshot \<Rightarrow> (request_error, unit) res option" where
  "completion_verdict m baseline sn =
     (let c = snap_completion sn m in
      if cp_sequence c > baseline then
        Some (if cp_status c = 0 \<and> cp_stun_code c = 0 then Inr ()
              else Inl (Fail (RequestError m (cp_status c) (cp_stun_code c))))
      else map_option (\<lambda>r. Inl (Fail (RequestTerminal r))) (snap_terminal sn))"

definition allocation_verdict :: "u64 \<Rightarrow> core_snapshot \<Rightarrow> (request_error, socket_addr) res option" where
  "allocation_verdict baseline sn =
     (case completion_verdict 3 baseline sn of
        None \<Rightarrow> None
      | Some (Inl e) \<Rightarrow> Some (Inl e)
      | Some (Inr _) \<Rightarrow>
          (case snap_terminal sn of
             Some r \<Rightarrow> Some (Inl (Fail (RequestTerminal r)))
           | None \<Rightarrow> if snap_state sn = StReady then map_option Inr (snap_relay sn) else None))"

definition channel_verdict :: "u64 \<Rightarrow> core_snapshot \<Rightarrow> (request_error, unit) res option" where
  "channel_verdict baseline sn =
     (case completion_verdict 9 baseline sn of
        None \<Rightarrow> None
      | Some (Inl e) \<Rightarrow> Some (Inl e)
      | Some (Inr _) \<Rightarrow>
          (case snap_terminal sn of
             Some r \<Rightarrow> Some (Inl (Fail (RequestTerminal r)))
           | None \<Rightarrow> map_option (\<lambda>_. Inr ()) (snap_channel sn)))"

text \<open>Pulling the events one by one; the state around them stays.\<close>

lemma handle_events_Nil: "events c = [] \<Longrightarrow> handle_events p c x = (c, x, Inr ())"
  by (subst handle_events.simps) (simp add: pull_event_def)

lemma handle_events_Cons:
  assumes "events c = e # es" and "handle_event p (c\<lparr>events := es\<rparr>) e x = Inr y"
  shows "handle_events p c x = handle_events p (c\<lparr>events := es\<rparr>) y"
  using assms by (subst handle_events.simps) (simp add: pull_event_def)

lemma update_events [simp]: "(c\<lparr>events := es\<rparr>)\<lparr>events := fs\<rparr> = c\<lparr>events := fs\<rparr>"
  by simp

lemmas shared_start_simps = shared_new_def snapshot_default_def completion_default_def

lemma allocation_success_verdict:
  assumes "events c = []" and "state c = StAllocating" and "\<not> shutting_down c"
    and "complete_success E now Allocate m c = (c1, Inr ())"
  obtains rel s b1 b2 c2 where "relayed_address m = Inr rel"
    and "handle_events p c1 (shared_new, False, False) = (c2, (s, b1, b2), Inr ())"
    and "allocation_verdict 0 (snapshot s) = Some (Inr rel)"
proof -
  obtain rel where rel: "relayed_address m = Inr rel"
    using assms(4) by (auto simp: complete_success_def split: sum.splits)
  let ?e1 = "(default_event EventRelayAddress)\<lparr>ev_address := from_socket_addr rel\<rparr>"
  let ?e2 = "(default_event EventState)\<lparr>ev_state := StReady, ev_previous := StAllocating\<rparr>"
  have r: "relay c1 = Some rel"
    using assms rel by (auto simp: complete_success_def Let_def split: if_splits)
  have "\<exists>e3. events c1 = [?e1, ?e2, e3] \<and> ev_kind e3 = EventRequestComplete \<and> ev_method e3 = 3
      \<and> ev_status e3 = 0 \<and> ev_stun_code e3 = 0"
    using assms rel
    by (auto simp: complete_success_def complete_def set_state_def push_event_def Let_def
        EVENT_CAPACITY_def default_event_def split: if_splits)
  then obtain e3 where ev: "events c1 = [?e1, ?e2, e3]" and e3: "ev_kind e3 = EventRequestComplete"
    "ev_method e3 = 3" "ev_status e3 = 0" "ev_stun_code e3 = 0" by blast
  let ?s1 = "shared_new\<lparr>snapshot := snapshot_default\<lparr>snap_relay := Some rel\<rparr>\<rparr>"
  let ?s2 = "shared_new\<lparr>snapshot := snapshot_default\<lparr>snap_relay := Some rel, snap_state := StReady\<rparr>\<rparr>"
  let ?s3 = "shared_new\<lparr>snapshot := snapshot_default\<lparr>snap_relay := Some rel, snap_state := StReady,
      snap_allocate := \<lparr>cp_sequence = 1, cp_status = 0, cp_stun_code = 0\<rparr>\<rparr>\<rparr>"
  have "handle_events p c1 (shared_new, False, False)
      = handle_events p (c1\<lparr>events := [?e2, e3]\<rparr>) (?s1, False, False)"
    by (rule handle_events_Cons [OF ev])
      (simp add: handle_event_def default_event_def native_address_roundtrip relay_address_def r shared_start_simps)
  also have "\<dots> = handle_events p (c1\<lparr>events := [e3]\<rparr>) (?s2, False, False)"
    by (subst handle_events_Cons [of "c1\<lparr>events := [?e2, e3]\<rparr>" ?e2 "[e3]" p _ "(?s2, False, False)"])
      (simp_all add: handle_event_def default_event_def Let_def shared_start_simps)
  also have "\<dots> = handle_events p (c1\<lparr>events := []\<rparr>) (?s3, False, False)"
    by (subst handle_events_Cons [of "c1\<lparr>events := [e3]\<rparr>" e3 "[]" p _ "(?s3, False, False)"])
      (simp_all add: handle_event_def e3 update_completion_def shared_start_simps)
  also have "\<dots> = (c1\<lparr>events := []\<rparr>, (?s3, False, False), Inr ())"
    by (rule handle_events_Nil) simp
  finally have run: "handle_events p c1 (shared_new, False, False) = (c1\<lparr>events := []\<rparr>, (?s3, False, False), Inr ())" .
  have "allocation_verdict 0 (snapshot ?s3) = Some (Inr rel)"
    by (simp add: allocation_verdict_def completion_verdict_def snap_completion_def shared_start_simps)
  with rel run show ?thesis by (intro that)
qed

lemma allocation_failure_verdict:
  assumes "events c = []" and "state c = StAllocating" and "status \<noteq> 0 \<or> code \<noteq> 0"
  obtains s b1 b2 c2 where
    "handle_events p (destroy_allocation Allocate status code c) (shared_new, False, False)
        = (c2, (s, b1, b2), Inr ())"
    and "allocation_verdict 0 (snapshot s) = Some (Inl (Fail (RequestError 3 status code)))"
    and "terminal_of s = Some (RequestFailed 3 status code)"
proof -
  let ?c1 = "destroy_allocation Allocate status code c"
  let ?e2 = "(default_event EventState)\<lparr>ev_state := StDestroying, ev_previous := StAllocating\<rparr>"
  have "\<exists>e1. events ?c1 = [e1, ?e2] \<and> ev_kind e1 = EventRequestComplete \<and> ev_method e1 = 3
      \<and> ev_status e1 = status \<and> ev_stun_code e1 = code"
    using assms(1,2)
    by (auto simp: destroy_allocation_def complete_def set_state_def push_event_def Let_def
        EVENT_CAPACITY_def default_event_def)
  then obtain e1 where ev: "events ?c1 = [e1, ?e2]" and e1: "ev_kind e1 = EventRequestComplete"
    "ev_method e1 = 3" "ev_status e1 = status" "ev_stun_code e1 = code" by blast
  let ?cp = "\<lparr>cp_sequence = 1, cp_status = status, cp_stun_code = code\<rparr>"
  let ?s1 = "shared_new\<lparr>snapshot := snapshot_default\<lparr>snap_allocate := ?cp,
      snap_terminal := Some (RequestFailed 3 status code)\<rparr>, terminal_present := True\<rparr>"
  let ?s2 = "shared_new\<lparr>snapshot := snapshot_default\<lparr>snap_allocate := ?cp, snap_state := StDestroying,
      snap_terminal := Some (RequestFailed 3 status code)\<rparr>, terminal_present := True\<rparr>"
  have "handle_events p ?c1 (shared_new, False, False)
      = handle_events p (?c1\<lparr>events := [?e2]\<rparr>) (?s1, False, False)"
    by (rule handle_events_Cons [OF ev])
      (use assms(3) in \<open>auto simp: handle_event_def e1 update_completion_def shared_start_simps
         fail_shared_def is_retryable_maintenance_def\<close>)
  also have "\<dots> = handle_events p (?c1\<lparr>events := []\<rparr>) (?s2, True, False)"
    by (subst handle_events_Cons [of "?c1\<lparr>events := [?e2]\<rparr>" ?e2 "[]" p _ "(?s2, True, False)"])
      (simp_all add: handle_event_def default_event_def Let_def shared_start_simps)
  also have "\<dots> = (?c1\<lparr>events := []\<rparr>, (?s2, True, False), Inr ())"
    by (rule handle_events_Nil) simp
  finally have run: "handle_events p ?c1 (shared_new, False, False)
      = (?c1\<lparr>events := []\<rparr>, (?s2, True, False), Inr ())" .
  have "allocation_verdict 0 (snapshot ?s2) = Some (Inl (Fail (RequestError 3 status code)))"
    using assms(3)
    by (auto simp: allocation_verdict_def completion_verdict_def snap_completion_def Let_def)
  moreover have "terminal_of ?s2 = Some (RequestFailed 3 status code)" by (simp add: terminal_of_def)
  ultimately show ?thesis using run by (intro that)
qed

text \<open>C29: the caller that waits for an allocation learns its outcome from the events of the core. When
  the allocation succeeds it gets the relay address the server granted. When it fails it gets the
  status and the STUN error code of the failed request, although the failure is recorded as the
  allocation's own reason at the same time.\<close>

theorem allocation_outcome:
  assumes "events c = []" and "state c = StAllocating"
  shows "(complete_success E now Allocate m c = (c1, Inr ()) \<and> \<not> shutting_down c \<longrightarrow>
      (\<exists>rel s b1 b2 c2. relayed_address m = Inr rel
        \<and> handle_events p c1 (shared_new, False, False) = (c2, (s, b1, b2), Inr ())
        \<and> allocation_verdict 0 (snapshot s) = Some (Inr rel)))
    \<and> (\<forall>status code. status \<noteq> 0 \<or> code \<noteq> 0 \<longrightarrow>
      (\<exists>s b1 b2 c2.
        handle_events p (destroy_allocation Allocate status code c) (shared_new, False, False)
          = (c2, (s, b1, b2), Inr ())
        \<and> allocation_verdict 0 (snapshot s) = Some (Inl (Fail (RequestError 3 status code)))
        \<and> terminal_of s = Some (RequestFailed 3 status code)))"
proof (intro conjI impI allI)
  assume "complete_success E now Allocate m c = (c1, Inr ()) \<and> \<not> shutting_down c"
  then show "\<exists>rel s b1 b2 c2. relayed_address m = Inr rel
        \<and> handle_events p c1 (shared_new, False, False) = (c2, (s, b1, b2), Inr ())
        \<and> allocation_verdict 0 (snapshot s) = Some (Inr rel)"
    by (elim conjE) (rule allocation_success_verdict [OF assms, where p = p], assumption+, blast)
next
  fix status :: int and code :: nat
  assume "status \<noteq> 0 \<or> code \<noteq> 0"
  then show "\<exists>s b1 b2 c2.
        handle_events p (destroy_allocation Allocate status code c) (shared_new, False, False)
          = (c2, (s, b1, b2), Inr ())
        \<and> allocation_verdict 0 (snapshot s) = Some (Inl (Fail (RequestError 3 status code)))
        \<and> terminal_of s = Some (RequestFailed 3 status code)"
    by (rule allocation_failure_verdict [OF assms, where p = p]) blast
qed

definition allocating_core :: inner where
  "allocating_core = (core sample_driver)\<lparr>state := StAllocating\<rparr>"

lemma allocation_outcome_witness:
  "\<exists>s b1 b2 c2.
      handle_events (SocketAddr (V4 2) 9) (destroy_allocation Allocate RESULT_PROTOCOL 486 allocating_core) (shared_new, False, False)
        = (c2, (s, b1, b2), Inr ())
      \<and> allocation_verdict 0 (snapshot s) = Some (Inl (Fail (RequestError 3 RESULT_PROTOCOL 486)))
      \<and> terminal_of s = Some (RequestFailed 3 RESULT_PROTOCOL 486)"
proof -
  have "events allocating_core = []" "state allocating_core = StAllocating"
    by (simp_all add: allocating_core_def sample_driver_def core_new_def)
  from allocation_outcome [OF this, of E now m c1 "SocketAddr (V4 2) 9"]
  have "\<forall>status code. status \<noteq> 0 \<or> code \<noteq> 0 \<longrightarrow> (\<exists>s b1 b2 c2.
        handle_events (SocketAddr (V4 2) 9) (destroy_allocation Allocate status code allocating_core) (shared_new, False, False)
          = (c2, (s, b1, b2), Inr ())
        \<and> allocation_verdict 0 (snapshot s) = Some (Inl (Fail (RequestError 3 status code)))
        \<and> terminal_of s = Some (RequestFailed 3 status code))" by (rule conjunct2)
  from spec [OF spec [OF this, of RESULT_PROTOCOL], of 486] show ?thesis by simp
qed

section \<open>One datagram too large\<close>

lemma acquire_upto_wf: "pool_ok pl live \<Longrightarrow> acquire_upto n pl = (ps, pl') \<Longrightarrow> \<forall>p \<in> set ps. wf_buf p"
  using acquire_upto_ok by blast

text \<open>one datagram larger than a packet buffer among those of a batch ends the allocation: the
  batch call has taken all of them off the socket, the burst fails, none of them is delivered, the
  allocation closes with a receive failure and has no channel any more.\<close>

theorem oversized_datagram_ends_allocation:
  assumes "acquire_upto (min MAX_DATAGRAMS (batch_limit d)) (pool d) = (batch, pl)" and "batch \<noteq> []"
    and "length batch \<le> MAX_DATAGRAMS" and "mmsg_enabled (socket d)" and "script (socket d) = []"
    and "\<exists>x \<in> set (take (length batch) (inbox (socket d))). read_room < length (fst x)"
    and "\<not> closing (shared d)" and "snap_terminal (snapshot (shared d)) = None"
  shows "case receive_burst V now 0 d of (e, n, emptied) \<Rightarrow>
      closing (shared e) \<and> sh_channel (shared e) = 0
      \<and> snap_terminal (snapshot (shared e)) = Some ReceiveFailed
      \<and> inbox (socket e) = drop (length batch) (inbox (socket d))
      \<and> incoming e = incoming d"
proof -
  let ?d = "d\<lparr>pool := pl\<rparr>"
  have ne: "inbox (socket d) \<noteq> []" using assms(6) by auto
  then have "recv_call (length batch) (inbox (socket d)) (script (socket d)) =
      ([], Inr (take (length batch) (inbox (socket d))))" using assms(5) by simp
  from recv_mmsg_oversized [OF assms(2) this] assms(6)
  obtain s where s: "recv_mmsg batch (socket d) = (s, Inl (Fail InvalidData))"
    and "inbox s = drop (length (take (length batch) (inbox (socket d)))) (inbox (socket d))"
    by auto
  then have box: "inbox s = drop (length batch) (inbox (socket d))"
    by (simp only: length_take) (simp add: min_def)
  have r: "try_recv_connected batch (socket d) = (s, Inl (Fail InvalidData))"
    using assms(3,4) s
    by (simp add: try_recv_connected_def try_recv_from_def validate_receive_batch_def
        validate_batch_len_def mmsg_unavailable_def)
  have "burst_round V now 0 d =
      (fail_and_clean ReceiveFailed (fold drop_packet batch (?d\<lparr>socket := s\<rparr>)), 0, Some False)"
    using assms(1,2) r by (simp add: burst_round_def batch_round_def Let_def)
  then have "receive_burst V now 0 d =
      (fail_and_clean ReceiveFailed (fold drop_packet batch (?d\<lparr>socket := s\<rparr>)), 0, False)"
    by (subst receive_burst.simps) (simp add: MAX_DATAGRAMS_def)
  then show ?thesis
    using assms(7,8) box by (simp add: fail_and_clean_def request_cleanup_def fail_shared_def)
qed

definition flooded_driver :: driver where
  "flooded_driver = receiving_driver
     \<lparr>socket := \<lparr>inbox = [([0x40, 0, 0, 0], ()), (replicate 2241 0, ())], outbox = [],
        script = [], mmsg_enabled = True\<rparr>\<rparr>"

lemma flooded_pool:
  "acquire_upto (min MAX_DATAGRAMS (batch_limit flooded_driver)) (pool flooded_driver)
     = (replicate 4 (fresh_buf (zeroed PACKET_CAPACITY)),
        \<lparr>idle = [], retained_limit = 4, allocated = 4, allocation_limit = 4\<rparr>)"
  by (simp add: flooded_driver_def receiving_driver_def sample_driver_def pool_new_def MAX_DATAGRAMS_def
      MIN_DATAGRAMS_def PACKET_POOL_RETAINED_MAX_def try_acquire_def Let_def numeral_eq_Suc)

lemma oversized_datagram_ends_allocation_witness:
  "case receive_burst sample_env 7 0 flooded_driver of (e, n, emptied) \<Rightarrow>
      closing (shared e) \<and> sh_channel (shared e) = 0
      \<and> snap_terminal (snapshot (shared e)) = Some ReceiveFailed"
proof -
  have "\<exists>x \<in> set (take 4 (inbox (socket flooded_driver))). read_room < length (fst x)"
    by (simp add: flooded_driver_def read_room_def packet_consts)
  then have "case receive_burst sample_env 7 0 flooded_driver of (e, n, emptied) \<Rightarrow>
      closing (shared e) \<and> sh_channel (shared e) = 0
      \<and> snap_terminal (snapshot (shared e)) = Some ReceiveFailed
      \<and> inbox (socket e) = drop (length (replicate 4 (fresh_buf (zeroed PACKET_CAPACITY)))) (inbox (socket flooded_driver))
      \<and> incoming e = incoming flooded_driver"
    by (intro oversized_datagram_ends_allocation [OF flooded_pool])
      (simp_all add: flooded_driver_def receiving_driver_def shared_start_simps MAX_DATAGRAMS_def)
  then show ?thesis by (auto split: prod.splits)
qed

section \<open>Waiting for a failure\<close>

text \<open>
  \<^verbatim>\<open>TurnReceiver::recv\<close> against \<^verbatim>\<open>DriverShared::fail\<close> on another thread, in their atomic steps. The
  failing thread modifies the snapshot, which raises the version of the watch channel and wakes
  the receiver, and stores the flag afterwards. The receiver checks the flag, then waits for a
  version it has not seen.
\<close>

datatype receiver_pc = RecvCheck | RecvSelect | RecvParked | RecvFailed
datatype failing_pc = FailIdle | FailModified | FailStored

record recv_race =
  recorded :: bool
  version :: nat
  flag :: bool
  seen :: nat
  receiver :: receiver_pc
  failing :: failing_pc

definition recv_race_init :: "recv_race \<Rightarrow> bool" where
  "recv_race_init s \<longleftrightarrow> s = \<lparr>recorded = False, version = 0, flag = False, seen = 0,
     receiver = RecvCheck, failing = FailIdle\<rparr>"

inductive recv_race_step :: "recv_race \<Rightarrow> recv_race \<Rightarrow> bool" where
  fail_modify: "failing s = FailIdle \<Longrightarrow> recv_race_step s
     (s\<lparr>failing := FailModified, recorded := True, version := version s + 1,
       receiver := (if receiver s = RecvParked then RecvSelect else receiver s)\<rparr>)"
| fail_store: "failing s = FailModified \<Longrightarrow> recv_race_step s (s\<lparr>failing := FailStored, flag := True\<rparr>)"
| recv_fails: "receiver s = RecvCheck \<Longrightarrow> flag s \<Longrightarrow> recv_race_step s (s\<lparr>receiver := RecvFailed\<rparr>)"
| recv_goes_on: "receiver s = RecvCheck \<Longrightarrow> \<not> flag s \<Longrightarrow> recv_race_step s (s\<lparr>receiver := RecvSelect\<rparr>)"
| recv_changed: "receiver s = RecvSelect \<Longrightarrow> version s \<noteq> seen s \<Longrightarrow>
     recv_race_step s (s\<lparr>seen := version s, receiver := RecvCheck\<rparr>)"
| recv_parks: "receiver s = RecvSelect \<Longrightarrow> version s = seen s \<Longrightarrow>
     recv_race_step s (s\<lparr>receiver := RecvParked\<rparr>)"

inductive_cases recv_race_stepE: "recv_race_step s t"

text \<open>a receiver can miss the failure of its allocation. Woken by the change of the snapshot, it
  checks the flag before the failing thread has stored it, and waits again for a change that has
  already been seen: the failure is recorded, its flag is set, and the receiver stays parked, as no
  step of either thread is left.\<close>

theorem turn_recv_lost_wakeup:
  "\<exists>s. reach recv_race_init recv_race_step s
     \<and> recorded s \<and> flag s \<and> receiver s = RecvParked \<and> \<not> (\<exists>t. recv_race_step s t)"
proof -
  let ?s = "\<lambda>r v f n p q. \<lparr>recorded = r, version = v, flag = f, seen = n, receiver = p, failing = q\<rparr>"
  note step = reach.reach_step [where init = recv_race_init and step = recv_race_step]
  have "reach recv_race_init recv_race_step (?s False 0 False 0 RecvCheck FailIdle)"
    by (rule reach.reach_init) (simp add: recv_race_init_def)
  then have "reach recv_race_init recv_race_step (?s False 0 False 0 RecvSelect FailIdle)"
    by (rule step) (use recv_goes_on [of "?s False 0 False 0 RecvCheck FailIdle"] in simp)
  then have "reach recv_race_init recv_race_step (?s True 1 False 0 RecvSelect FailModified)"
    by (rule step) (use fail_modify [of "?s False 0 False 0 RecvSelect FailIdle"] in simp)
  then have "reach recv_race_init recv_race_step (?s True 1 False 1 RecvCheck FailModified)"
    by (rule step) (use recv_changed [of "?s True 1 False 0 RecvSelect FailModified"] in simp)
  then have "reach recv_race_init recv_race_step (?s True 1 False 1 RecvSelect FailModified)"
    by (rule step) (use recv_goes_on [of "?s True 1 False 1 RecvCheck FailModified"] in simp)
  then have "reach recv_race_init recv_race_step (?s True 1 False 1 RecvParked FailModified)"
    by (rule step) (use recv_parks [of "?s True 1 False 1 RecvSelect FailModified"] in simp)
  then have "reach recv_race_init recv_race_step (?s True 1 True 1 RecvParked FailStored)"
    by (rule step) (use fail_store [of "?s True 1 False 1 RecvParked FailModified"] in simp)
  moreover have "\<not> recv_race_step (?s True 1 True 1 RecvParked FailStored) t" for t
    by (auto elim: recv_race_stepE)
  ultimately show ?thesis by (intro exI [of _ "?s True 1 True 1 RecvParked FailStored"]) simp
qed

end
