(* ===== verification/TurnConnect.thy ===== *)
theory TurnConnect
  imports TurnAllocation TurnEndpoint
begin

text \<open>
  The life of a TURN allocation as its owner sees it, \<^verbatim>\<open>backend/turn.rs\<close> and \<^verbatim>\<open>connect\<close> of
  \<^verbatim>\<open>backend/turn_stream.rs\<close>: the choice of a transport, the request with its hard deadline, the
  binding of the channel, the receiver and the end. The answers of the system, the results of the
  core's calls and the snapshots the driver publishes are inputs; times are in nanoseconds.
\<close>

section \<open>The transport\<close>

datatype link_error =
    ResolveFailed | UdpBindFailed | UdpConnectFailed | TcpConnectFailed | NoDelayFailed
  | TlsNameInvalid | TlsHandshakeFailed | NotAStream

record link_answers =
  la_resolved :: "socket_addr option"
  la_udp_bind :: bool
  la_udp_connect :: bool
  la_tcp_connect :: bool
  la_nodelay :: bool
  la_tls_name :: bool
  la_tls_handshake :: bool

definition stream_connect :: "wire_transport \<Rightarrow> link_answers \<Rightarrow> (link_error, unit) res" where
  "stream_connect t a =
     and_then (ensure (la_tcp_connect a) TcpConnectFailed) (\<lambda>_.
     and_then (ensure (la_nodelay a) NoDelayFailed) (\<lambda>_.
     case t of
       WireTcp \<Rightarrow> Inr ()
     | WireTls \<Rightarrow>
         and_then (ensure (la_tls_name a) TlsNameInvalid) (\<lambda>_.
         ensure (la_tls_handshake a) TlsHandshakeFailed)
     | WireUdp \<Rightarrow> Inl (Fail NotAStream)))"

definition attempt_endpoint ::
  "turn_endpoint \<Rightarrow> link_answers \<Rightarrow> (link_error, outbound \<times> socket_addr \<times> wire_transport) res" where
  "attempt_endpoint ep a =
     and_then (ok_or (la_resolved a) ResolveFailed) (\<lambda>host.
     case ep_transport ep of
       WireUdp \<Rightarrow>
         and_then (ensure (la_udp_bind a) UdpBindFailed) (\<lambda>_.
         and_then (ensure (la_udp_connect a) UdpConnectFailed) (\<lambda>_.
         Inr (UdpOut, host, WireUdp)))
     | t \<Rightarrow> and_then (stream_connect t a) (\<lambda>_. Inr (StreamOut, host, t)))"

text \<open>The endpoints are tried in order; all failures are reported when none connects.\<close>

fun connect_transport ::
  "(turn_endpoint \<times> link_answers) list \<Rightarrow> (wire_transport \<times> link_error fault) list
     \<Rightarrow> ((wire_transport \<times> link_error fault) list, outbound \<times> socket_addr \<times> wire_transport) res" where
  "connect_transport [] failures = Inl (Fail failures)"
| "connect_transport ((ep, a) # rest) failures =
     (case attempt_endpoint ep a of
        Inr link \<Rightarrow> Inr link
      | Inl e \<Rightarrow> connect_transport rest (failures @ [(ep_transport ep, e)]))"

section \<open>Waiting\<close>

definition CONTROL_TIMEOUT :: nat where "CONTROL_TIMEOUT = secs 12"
definition ALLOCATION_TIMEOUT :: nat where "ALLOCATION_TIMEOUT = secs 25"

datatype wait_error = WaitFailed request_error | HardTimeout | StateClosed

text \<open>
  The snapshots in the order in which the waiter sees them, each with its time; the state may be
  closed after them. A waiter that sees nothing decisive before its deadline gives up then. The
  result has the time at which the waiter returned.
\<close>

fun wait_snapshots ::
  "(core_snapshot \<Rightarrow> (request_error, 'a) res option) \<Rightarrow> nat \<Rightarrow> (nat \<times> core_snapshot) list \<Rightarrow> nat option
     \<Rightarrow> (wait_error, 'a) res \<times> nat" where
  "wait_snapshots verdict deadline [] closed =
     (case closed of
        Some t \<Rightarrow> if t \<le> deadline then (Inl (Fail StateClosed), t) else (Inl (Fail HardTimeout), deadline)
      | None \<Rightarrow> (Inl (Fail HardTimeout), deadline))"
| "wait_snapshots verdict deadline ((t, sn) # rest) closed =
     (if deadline < t then (Inl (Fail HardTimeout), deadline)
      else case verdict sn of
        None \<Rightarrow> wait_snapshots verdict deadline rest closed
      | Some (Inr x) \<Rightarrow> (Inr x, t)
      | Some (Inl Panic) \<Rightarrow> (Inl Panic, t)
      | Some (Inl (Fail e)) \<Rightarrow> (Inl (Fail (WaitFailed e)), t))"

section \<open>Connecting\<close>

datatype connect_error =
    UsernameTooLong | PasswordTooLong | BadEndpoints endpoint_error
  | NoTransport "(wire_transport \<times> link_error fault) list"
  | CoreRefused turn_error | RequestRefused turn_error | NotAllocated wait_error

text \<open>What the owner does to the outside, in order.\<close>

datatype connect_effect =
    TransportConnected socket_addr | ExcludeHost ip_addr | DriverStarted | RequestStarted | AllocationDropped

record connect_input =
  ci_username :: bytes
  ci_password :: bytes
  ci_endpoints :: "(endpoint_error, turn_endpoint list) res"
  ci_links :: "turn_endpoint \<Rightarrow> link_answers"
  ci_core :: "turn_error option"
  ci_request :: "turn_error option"
  ci_started_at :: nat
  ci_snapshots :: "(nat \<times> core_snapshot) list"
  ci_closed :: "nat option"
  ci_shared :: driver_shared
  ci_inner_first :: bool

text \<open>An allocation whose owner holds it: what it shares with the driver, its relay, the receiver and
  the driver that can be taken once, and the flag of \<^verbatim>\<open>deallocate\<close>.\<close>

record allocation =
  al_shared :: driver_shared
  al_relay :: socket_addr
  al_receiver :: bool
  al_driver :: bool
  al_deallocated :: bool

text \<open>Dropping an allocation asks the driver to clean up.\<close>

definition drop_allocation :: "driver_shared \<Rightarrow> driver_shared" where
  "drop_allocation s = request_cleanup s"

text \<open>
  \<open>ci_shared\<close> is what the driver has made of the shared state by the time the wait is over, and
  \<open>ci_inner_first\<close> tells which of the two timers of the same length was noticed first. The
  result has the effects, the state that is left with the driver, and the time of the return.
\<close>

definition wrap_error :: "('a \<Rightarrow> connect_error) \<Rightarrow> 'a fault \<Rightarrow> connect_error fault" where
  "wrap_error f e = (case e of Panic \<Rightarrow> Panic | Fail x \<Rightarrow> Fail (f x))"

definition turn_connect ::
  "connect_input \<Rightarrow> (connect_error, allocation) res \<times> connect_effect list \<times> driver_shared option \<times> nat" where
  "turn_connect i =
     (let t0 = ci_started_at i in
      if length (ci_username i) > 512 then (Inl (Fail UsernameTooLong), [], None, t0)
      else if length (ci_password i) > 512 then (Inl (Fail PasswordTooLong), [], None, t0)
      else case ci_endpoints i of
        Inl e \<Rightarrow> (Inl (wrap_error BadEndpoints e), [], None, t0)
      | Inr eps \<Rightarrow>
          (case connect_transport (map (\<lambda>ep. (ep, ci_links i ep)) eps) [] of
             Inl e \<Rightarrow> (Inl (wrap_error NoTransport e), [], None, t0)
           | Inr (_, host, _) \<Rightarrow>
               (let fx = [TransportConnected host, ExcludeHost (addr_ip host)] in
                case ci_core i of
                  Some e \<Rightarrow> (Inl (Fail (CoreRefused e)), fx, None, t0)
                | None \<Rightarrow>
                    (case ci_request i of
                       Some e \<Rightarrow>
                         (Inl (Fail (RequestRefused e)), fx @ [DriverStarted, AllocationDropped],
                          Some (drop_allocation (fail_shared (CoreFailed (Fail e)) shared_new)), t0)
                     | None \<Rightarrow>
                         (case wait_snapshots (allocation_verdict 0) (t0 + ALLOCATION_TIMEOUT)
                             (ci_snapshots i) (ci_closed i) of
                            (Inr relayed, t) \<Rightarrow>
                              (Inr \<lparr>al_shared = ci_shared i, al_relay = relayed, al_receiver = True,
                                 al_driver = True, al_deallocated = False\<rparr>,
                               fx @ [DriverStarted, RequestStarted], Some (ci_shared i), t)
                          | (Inl e, t) \<Rightarrow>
                              (Inl (wrap_error NotAllocated e),
                               fx @ [DriverStarted, RequestStarted, AllocationDropped],
                               Some (drop_allocation (if e = Fail HardTimeout \<and> \<not> ci_inner_first i
                                 then fail_shared AllocateDeadline (ci_shared i) else ci_shared i)), t))))))"

section \<open>The receiver, the channel and the end\<close>

definition take_receiver :: "allocation \<Rightarrow> allocation \<times> bool" where
  "take_receiver al = (al\<lparr>al_receiver := False\<rparr>, al_receiver al)"

datatype prepare_error = NotOpen alloc_error | ChannelRefused turn_error | NotBound wait_error

text \<open>
  \<^verbatim>\<open>bind_channel\<close>: the two calls of the core, each with the state when it fails, the wait for the
  completion and the wait for the channel number, each with a deadline of its own. The second wait
  starts when the first has ended.
\<close>

record bind_input =
  bi_permission :: "turn_error option"
  bi_channel :: "turn_error option"
  bi_started_at :: nat
  bi_baseline :: u64
  bi_completions :: "(nat \<times> core_snapshot) list"
  bi_confirmations :: "(nat \<times> core_snapshot) list"
  bi_closed :: "nat option"

definition confirmation_verdict :: "core_snapshot \<Rightarrow> (request_error, unit) res option" where
  "confirmation_verdict sn =
     (case snap_terminal sn of
        Some r \<Rightarrow> Some (Inl (Fail (RequestTerminal r)))
      | None \<Rightarrow> map_option (\<lambda>_. Inr ()) (snap_channel sn))"

definition bind_channel :: "bind_input \<Rightarrow> driver_shared \<Rightarrow> (prepare_error, unit) res \<times> driver_shared \<times> nat" where
  "bind_channel i s =
     (let t0 = bi_started_at i;
          refused = (\<lambda>e. (Inl (Fail (ChannelRefused e)), fail_shared (CoreFailed (Fail e)) s, t0)) in
      case (bi_permission i, bi_channel i) of
        (Some e, _) \<Rightarrow> refused e
      | (None, Some e) \<Rightarrow> refused e
      | (None, None) \<Rightarrow>
          (case wait_snapshots (completion_verdict 9 (bi_baseline i)) (t0 + CONTROL_TIMEOUT)
              (bi_completions i) (bi_closed i) of
             (Inl Panic, t) \<Rightarrow> (Inl Panic, s, t)
           | (Inl (Fail e), t) \<Rightarrow> (Inl (Fail (NotBound e)), s, t)
           | (Inr _, t) \<Rightarrow>
               (case wait_snapshots confirmation_verdict (t + CONTROL_TIMEOUT)
                   (bi_confirmations i) (bi_closed i) of
                  (Inl Panic, t') \<Rightarrow> (Inl Panic, s, t')
                | (Inl (Fail e), t') \<Rightarrow> (Inl (Fail (NotBound e)), s, t')
                | (Inr _, t') \<Rightarrow> (Inr (), s, t'))))"

text \<open>The lock lets one caller in at a time: a later one finds the channel the first has bound.\<close>

definition prepare_channel :: "bind_input \<Rightarrow> driver_shared \<Rightarrow> (prepare_error, unit) res \<times> driver_shared \<times> nat" where
  "prepare_channel i s =
     (case ensure_allocation_open s of
        Inl Panic \<Rightarrow> (Inl Panic, s, bi_started_at i)
      | Inl (Fail e) \<Rightarrow> (Inl (Fail (NotOpen e)), s, bi_started_at i)
      | Inr _ \<Rightarrow> if sh_channel s \<noteq> 0 then (Inr (), s, bi_started_at i) else bind_channel i s)"

text \<open>
  \<^verbatim>\<open>deallocate\<close>: the first caller asks for the cleanup and waits for the driver, which ends at the
  time given, and aborts it one second after the cleanup's own deadline. The result tells when the
  call returned and whether the driver had to be aborted.
\<close>

definition deallocate :: "nat \<Rightarrow> nat option \<Rightarrow> allocation \<Rightarrow> allocation \<times> nat \<times> bool" where
  "deallocate now driver_ends al =
     (if al_deallocated al then (al, now, False)
      else
        (let al1 = al\<lparr>al_deallocated := True, al_shared := request_cleanup (al_shared al), al_driver := False\<rparr>;
             deadline = now + CLEANUP_TIMEOUT + secs 1 in
         if \<not> al_driver al then (al1, now, False)
         else case driver_ends of
           Some t \<Rightarrow> if t \<le> deadline then (al1, max now t, False) else (al1, deadline, True)
         | None \<Rightarrow> (al1, deadline, True)))"

section \<open>Properties\<close>

lemma wait_snapshots_in_time:
  assumes "t0 \<le> deadline" and "\<forall>x \<in> set xs. t0 \<le> fst x" and "\<forall>t. closed = Some t \<longrightarrow> t0 \<le> t"
  shows "t0 \<le> snd (wait_snapshots v deadline xs closed) \<and> snd (wait_snapshots v deadline xs closed) \<le> deadline"
  using assms
proof (induction xs)
  case (Cons x xs)
  obtain t sn where x: "x = (t, sn)" by (cases x)
  show ?case
  proof (cases "deadline < t \<or> v sn = None")
    case True
    then show ?thesis using Cons x by auto
  next
    case False
    then obtain r where "v sn = Some r" by auto
    then show ?thesis using False Cons.prems x by (cases r; cases "projl r") auto
  qed
qed (auto split: option.split)

lemma wait_snapshots_decided:
  assumes "wait_snapshots v deadline xs closed = (Inr y, t)"
  shows "\<exists>sn. (t, sn) \<in> set xs \<and> v sn = Some (Inr y) \<and> t \<le> deadline"
  using assms
proof (induction xs)
  case Nil
  then show ?case by (auto split: option.splits if_splits)
next
  case (Cons x xs)
  obtain u sn where x: "x = (u, sn)" by (cases x)
  show ?case
  proof (cases "deadline < u \<or> v sn = None")
    case True
    then show ?thesis using Cons x by (auto split: if_splits)
  next
    case False
    then obtain r where r: "v sn = Some r" by auto
    show ?thesis
    proof (cases r)
      case (Inl e)
      then show ?thesis using Cons.prems False r x by (cases e) auto
    next
      case (Inr z)
      then show ?thesis using Cons.prems False r x by auto
    qed
  qed
qed

text \<open>Connecting takes the first endpoint that connects, or reports a failure of each.\<close>

lemma connect_transport_first:
  "connect_transport xs fs = Inr link \<longleftrightarrow>
     (\<exists>ys ep a zs. xs = ys @ (ep, a) # zs \<and> attempt_endpoint ep a = Inr link
        \<and> (\<forall>(ep', a') \<in> set ys. \<not> is_ok (attempt_endpoint ep' a')))"
proof (induction xs arbitrary: fs)
  case (Cons x xs)
  obtain ep a where x: "x = (ep, a)" by (cases x)
  show ?case
  proof (cases "attempt_endpoint ep a")
    case (Inl e)
    show ?thesis
    proof
      assume "connect_transport (x # xs) fs = Inr link"
      then have "connect_transport xs (fs @ [(ep_transport ep, e)]) = Inr link" using Inl x by simp
      from Cons.IH [THEN iffD1, OF this] obtain ys ep1 a1 zs where
        "xs = ys @ (ep1, a1) # zs" "attempt_endpoint ep1 a1 = Inr link"
        "\<forall>(ep', a') \<in> set ys. \<not> is_ok (attempt_endpoint ep' a')" by blast
      then show "\<exists>ys ep a zs. x # xs = ys @ (ep, a) # zs \<and> attempt_endpoint ep a = Inr link
          \<and> (\<forall>(ep', a') \<in> set ys. \<not> is_ok (attempt_endpoint ep' a'))"
        using Inl x by (intro exI [of _ "x # ys"]) auto
    next
      assume "\<exists>ys ep a zs. x # xs = ys @ (ep, a) # zs \<and> attempt_endpoint ep a = Inr link
          \<and> (\<forall>(ep', a') \<in> set ys. \<not> is_ok (attempt_endpoint ep' a'))"
      then obtain ys ep1 a1 zs where *: "x # xs = ys @ (ep1, a1) # zs" "attempt_endpoint ep1 a1 = Inr link"
        "\<forall>(ep', a') \<in> set ys. \<not> is_ok (attempt_endpoint ep' a')" by blast
      then obtain ys' where "ys = x # ys'" using Inl x by (cases ys) auto
      then have "connect_transport xs (fs @ [(ep_transport ep, e)]) = Inr link"
        using * by (intro Cons.IH [THEN iffD2]) auto
      then show "connect_transport (x # xs) fs = Inr link" using Inl x by simp
    qed
  next
    case (Inr l)
    show ?thesis
    proof
      assume "connect_transport (x # xs) fs = Inr link"
      then show "\<exists>ys ep a zs. x # xs = ys @ (ep, a) # zs \<and> attempt_endpoint ep a = Inr link
          \<and> (\<forall>(ep', a') \<in> set ys. \<not> is_ok (attempt_endpoint ep' a'))"
        using Inr x by (intro exI [of _ "[]"] exI [of _ ep] exI [of _ a] exI [of _ xs]) simp
    next
      assume "\<exists>ys ep a zs. x # xs = ys @ (ep, a) # zs \<and> attempt_endpoint ep a = Inr link
          \<and> (\<forall>(ep', a') \<in> set ys. \<not> is_ok (attempt_endpoint ep' a'))"
      then obtain ys ep1 a1 zs where *: "x # xs = ys @ (ep1, a1) # zs" "attempt_endpoint ep1 a1 = Inr link"
        "\<forall>(ep', a') \<in> set ys. \<not> is_ok (attempt_endpoint ep' a')" by blast
      then have "ys = []" using Inr x by (cases ys) auto
      then show "connect_transport (x # xs) fs = Inr link" using * Inr x by simp
    qed
  qed
qed simp

text \<open>
  A call of \<^verbatim>\<open>connect\<close> returns within 25 seconds of the request. It returns a relay only when the
  driver has published a ready allocation with that relay in time; when it fails after the driver
  was started, the driver has been asked to clean up, so none is left behind. The address of the
  server is excluded from the tunnel only after the transport has connected to it.
\<close>

lemma turn_connect_outcome:
  assumes "turn_connect i = (r, fx, left_over, t)" and "\<forall>x \<in> set (ci_snapshots i). ci_started_at i \<le> fst x"
    and "\<forall>u. ci_closed i = Some u \<longrightarrow> ci_started_at i \<le> u"
  shows "ci_started_at i \<le> t \<and> t \<le> ci_started_at i + ALLOCATION_TIMEOUT"
    and "r = Inr al \<Longrightarrow> \<exists>sn. (t, sn) \<in> set (ci_snapshots i) \<and> allocation_verdict 0 sn = Some (Inr (al_relay al))"
    and "\<not> is_ok r \<Longrightarrow> DriverStarted \<in> set fx \<Longrightarrow>
      AllocationDropped \<in> set fx \<and> (\<exists>s. left_over = Some s \<and> closing s \<and> sh_channel s = 0)"
    and "fx = [] \<or> (case fx of TransportConnected h # ExcludeHost a # _ \<Rightarrow> a = addr_ip h | _ \<Rightarrow> False)"
proof -
  let ?w = "wait_snapshots (allocation_verdict 0) (ci_started_at i + ALLOCATION_TIMEOUT) (ci_snapshots i) (ci_closed i)"
  obtain wr wt where w: "?w = (wr, wt)" by (cases ?w)
  have time: "ci_started_at i \<le> wt \<and> wt \<le> ci_started_at i + ALLOCATION_TIMEOUT"
    using wait_snapshots_in_time [of "ci_started_at i" "ci_started_at i + ALLOCATION_TIMEOUT" "ci_snapshots i"
        "ci_closed i" "allocation_verdict 0"] assms(2,3) w by simp
  note cases = assms(1) [unfolded turn_connect_def Let_def w]
  show "ci_started_at i \<le> t \<and> t \<le> ci_started_at i + ALLOCATION_TIMEOUT"
    using cases time by (auto split: if_splits sum.splits option.splits)
  show "fx = [] \<or> (case fx of TransportConnected h # ExcludeHost a # _ \<Rightarrow> a = addr_ip h | _ \<Rightarrow> False)"
    using cases by (auto split: if_splits sum.splits option.splits)
  show "\<exists>sn. (t, sn) \<in> set (ci_snapshots i) \<and> allocation_verdict 0 sn = Some (Inr (al_relay al))" if "r = Inr al"
  proof -
    have "wr = Inr (al_relay al)" "t = wt" using cases that by (auto split: if_splits sum.splits option.splits)
    then show ?thesis using wait_snapshots_decided [of "allocation_verdict 0"] w by blast
  qed
  show "AllocationDropped \<in> set fx \<and> (\<exists>s. left_over = Some s \<and> closing s \<and> sh_channel s = 0)"
    if "\<not> is_ok r" "DriverStarted \<in> set fx"
    using cases that by (auto simp: drop_allocation_def request_cleanup_def split: if_splits sum.splits option.splits)
qed

text \<open>Binding the channel takes at most 24 seconds, and a channel that is bound is not bound again.\<close>

lemma prepare_channel_time:
  assumes "prepare_channel i s = (r, s', t)"
    and "\<forall>x \<in> set (bi_completions i). bi_started_at i \<le> fst x"
    and "\<forall>x \<in> set (bi_confirmations i). \<forall>y \<in> set (bi_completions i). fst y \<le> fst x"
    and "bi_closed i = None"
  shows "bi_started_at i \<le> t \<and> t \<le> bi_started_at i + secs 24"
    and "sh_channel s \<noteq> 0 \<Longrightarrow> s' = s \<and> t = bi_started_at i"
proof -
  let ?t0 = "bi_started_at i"
  let ?w = "wait_snapshots (completion_verdict 9 (bi_baseline i)) (?t0 + CONTROL_TIMEOUT) (bi_completions i) (bi_closed i)"
  obtain wr wt where w: "?w = (wr, wt)" by (cases ?w)
  have first: "?t0 \<le> wt \<and> wt \<le> ?t0 + CONTROL_TIMEOUT"
    using wait_snapshots_in_time [of ?t0 "?t0 + CONTROL_TIMEOUT" "bi_completions i" "bi_closed i"
        "completion_verdict 9 (bi_baseline i)"] assms(2,4) w by simp
  let ?v = "wait_snapshots confirmation_verdict (wt + CONTROL_TIMEOUT) (bi_confirmations i) (bi_closed i)"
  obtain vr vt where v: "?v = (vr, vt)" by (cases ?v)
  have second: "wt \<le> vt \<and> vt \<le> wt + CONTROL_TIMEOUT" if ok: "wr = Inr u" for u
  proof -
    obtain sn where "(wt, sn) \<in> set (bi_completions i)"
      using wait_snapshots_decided [of "completion_verdict 9 (bi_baseline i)"] w ok by blast
    then show ?thesis
      using wait_snapshots_in_time [of wt "wt + CONTROL_TIMEOUT" "bi_confirmations i" "bi_closed i"
          confirmation_verdict] assms(3,4) v by force
  qed
  have bind: "?t0 \<le> snd (snd (bind_channel i s)) \<and> snd (snd (bind_channel i s)) \<le> ?t0 + secs 24"
  proof (cases "bi_permission i = None \<and> bi_channel i = None")
    case False
    then show ?thesis by (auto simp: bind_channel_def Let_def split: option.splits)
  next
    case True
    have c: "CONTROL_TIMEOUT + CONTROL_TIMEOUT = secs 24" by (simp add: CONTROL_TIMEOUT_def secs_def)
    show ?thesis
    proof (cases wr)
      case (Inl e)
      then show ?thesis using True w first c by (cases e) (simp_all add: bind_channel_def Let_def)
    next
      case (Inr u)
      show ?thesis
      proof (cases vr)
        case (Inl e)
        then show ?thesis using True w v first second [OF Inr] c Inr
          by (cases e) (simp_all add: bind_channel_def Let_def)
      qed (use True w v first second [OF Inr] c Inr in \<open>simp add: bind_channel_def Let_def\<close>)
    qed
  qed
  show "?t0 \<le> t \<and> t \<le> ?t0 + secs 24"
    using assms(1) bind by (auto simp: prepare_channel_def split: sum.splits fault.splits if_splits)
  show "s' = s \<and> t = ?t0" if "sh_channel s \<noteq> 0"
    using assms(1) that by (auto simp: prepare_channel_def split: sum.splits fault.splits)
qed

text \<open>The end takes at most 36 seconds; only the first call does anything.\<close>

lemma deallocate_once:
  assumes "deallocate now ends al = (al', t, aborted)"
  shows "now \<le> t \<and> t \<le> now + secs 36" and "al_deallocated al' \<and> deallocate u ends' al' = (al', u, False)"
    and "\<not> al_deallocated al \<Longrightarrow> closing (al_shared al') \<and> sh_channel (al_shared al') = 0"
    and "aborted \<Longrightarrow> \<forall>v. ends = Some v \<longrightarrow> now + CLEANUP_TIMEOUT < v"
  using assms
  by (auto simp: deallocate_def Let_def CLEANUP_TIMEOUT_def secs_def request_cleanup_def max_def
      split: if_splits option.splits)

lemma receiver_once: "snd (take_receiver (fst (take_receiver al))) = False"
  by (simp add: take_receiver_def)

end
