(* ===== verification/StreamWriter.thy ===== *)
theory StreamWriter
  imports Bytes Machine
begin

text \<open>
  The writer of a TURN connection over TCP or TLS, \<^verbatim>\<open>TurnStreamWriter\<close> and \<^verbatim>\<open>writer_loop\<close> of
  \<^verbatim>\<open>backend/turn_stream.rs\<close>: two bounded queues, the one of the control frames served first, and a
  loop that ends when both are closed or a write fails. Every access of the loop to a queue is a
  step of its own; the senders act in between.
\<close>

section \<open>State\<close>

definition CONTROL_QUEUE_CAPACITY :: nat where "CONTROL_QUEUE_CAPACITY = 16"
definition DATA_QUEUE_CAPACITY :: nat where "DATA_QUEUE_CAPACITY = 32"

datatype stream_outbound = ControlFrame (frame_bytes: bytes) | DataFrame (frame_bytes: bytes)

text \<open>
  Where the loop stands: at its top, before the two questions whether a queue is closed, in one of
  the receives, in one of the two polls of the biased select, after a receive that returned nothing, in the write of a frame, and ended.
\<close>

datatype writer_phase =
    AtTop | AskControl | AskData | RecvData | RecvControl | SelectControl | SelectData | GotNothing
  | WritingFrame stream_outbound | WriterDone | WriterFailed

text \<open>
  The frames accepted so far are histories. \<open>partial_write\<close> is what a failed write left on the
  stream.
\<close>

record stream_writer =
  control_frames :: "bytes list"
  data_frames :: "bytes list"
  control_open :: bool
  data_open :: bool
  writer_phase :: writer_phase
  written_frames :: "stream_outbound list"
  partial_write :: bytes
  accepted_control :: "bytes list"
  accepted_data :: "bytes list"

definition stream_writer_new :: stream_writer where
  "stream_writer_new = \<lparr>control_frames = [], data_frames = [], control_open = True, data_open = True,
     writer_phase = AtTop, written_frames = [], partial_write = [], accepted_control = [], accepted_data = []\<rparr>"

section \<open>Operations\<close>

definition writer_gone :: "stream_writer \<Rightarrow> bool" where
  "writer_gone s = (writer_phase s = WriterDone \<or> writer_phase s = WriterFailed)"

text \<open>A send waits while its queue is full and fails when the receiver is gone.\<close>

definition write_control :: "bytes \<Rightarrow> stream_writer \<Rightarrow> stream_writer" where
  "write_control w s =
     (if writer_gone s \<or> \<not> control_open s \<or> length (control_frames s) \<ge> CONTROL_QUEUE_CAPACITY then s
      else s\<lparr>control_frames := control_frames s @ [w], accepted_control := accepted_control s @ [w]\<rparr>)"

definition write_data :: "bytes \<Rightarrow> stream_writer \<Rightarrow> stream_writer" where
  "write_data p s =
     (if writer_gone s \<or> \<not> data_open s \<or> length (data_frames s) \<ge> DATA_QUEUE_CAPACITY then s
      else s\<lparr>data_frames := data_frames s @ [p], accepted_data := accepted_data s @ [p]\<rparr>)"

definition take_control :: "writer_phase \<Rightarrow> stream_writer \<Rightarrow> stream_writer" where
  "take_control otherwise s =
     (case control_frames s of
        w # ws \<Rightarrow> s\<lparr>control_frames := ws, writer_phase := WritingFrame (ControlFrame w)\<rparr>
      | [] \<Rightarrow> s\<lparr>writer_phase := otherwise\<rparr>)"

definition take_data :: "writer_phase \<Rightarrow> stream_writer \<Rightarrow> stream_writer" where
  "take_data otherwise s =
     (case data_frames s of
        p # ps \<Rightarrow> s\<lparr>data_frames := ps, writer_phase := WritingFrame (DataFrame p)\<rparr>
      | [] \<Rightarrow> s\<lparr>writer_phase := otherwise\<rparr>)"

text \<open>
  One access of the loop. The answer tells whether the write of a frame succeeds, and how many
  bytes of it went out otherwise. A receive on an open and empty queue waits.
\<close>

definition writer_loop_step :: "nat option \<Rightarrow> stream_writer \<Rightarrow> stream_writer" where
  "writer_loop_step answer s =
     (case writer_phase s of
        AtTop \<Rightarrow> take_control AskControl s
      | AskControl \<Rightarrow> s\<lparr>writer_phase := (if control_open s then AskData else RecvData)\<rparr>
      | AskData \<Rightarrow> s\<lparr>writer_phase := (if data_open s then SelectControl else RecvControl)\<rparr>
      | RecvData \<Rightarrow> take_data (if data_open s then RecvData else GotNothing) s
      | RecvControl \<Rightarrow> take_control (if control_open s then RecvControl else GotNothing) s
      | SelectControl \<Rightarrow> take_control (if control_open s then SelectData else GotNothing) s
      | SelectData \<Rightarrow> take_data (if data_open s then SelectControl else GotNothing) s
      | GotNothing \<Rightarrow>
          s\<lparr>writer_phase := (if \<not> control_open s \<and> \<not> data_open s then WriterDone else AtTop)\<rparr>
      | WritingFrame f \<Rightarrow>
          (case answer of
             None \<Rightarrow> s\<lparr>writer_phase := AtTop, written_frames := written_frames s @ [f]\<rparr>
           | Some n \<Rightarrow> s\<lparr>writer_phase := WriterFailed, partial_write := take n (frame_bytes f)\<rparr>)
      | WriterDone \<Rightarrow> s
      | WriterFailed \<Rightarrow> s)"

text \<open>
  The two senders are fields of one struct and are dropped in the order of the fields.
\<close>

datatype writer_action =
    SendControl bytes | SendData bytes | DropControlSender | DropDataSender | LoopStep "nat option"

fun stream_writer_step :: "stream_writer \<Rightarrow> writer_action \<Rightarrow> stream_writer" where
  "stream_writer_step s (SendControl w) = write_control w s"
| "stream_writer_step s (SendData p) = write_data p s"
| "stream_writer_step s DropControlSender = s\<lparr>control_open := False\<rparr>"
| "stream_writer_step s DropDataSender = (if control_open s then s else s\<lparr>data_open := False\<rparr>)"
| "stream_writer_step s (LoopStep answer) = writer_loop_step answer s"

section \<open>What the writer keeps\<close>

fun controls_of :: "stream_outbound list \<Rightarrow> bytes list" where
  "controls_of [] = []"
| "controls_of (ControlFrame w # fs) = w # controls_of fs"
| "controls_of (DataFrame _ # fs) = controls_of fs"

fun datas_of :: "stream_outbound list \<Rightarrow> bytes list" where
  "datas_of [] = []"
| "datas_of (ControlFrame _ # fs) = datas_of fs"
| "datas_of (DataFrame p # fs) = p # datas_of fs"

lemma controls_of_append [simp]: "controls_of (xs @ ys) = controls_of xs @ controls_of ys"
  by (induction xs rule: controls_of.induct) auto

lemma datas_of_append [simp]: "datas_of (xs @ ys) = datas_of xs @ datas_of ys"
  by (induction xs rule: datas_of.induct) auto

definition frame_in_hand :: "stream_writer \<Rightarrow> stream_outbound list" where
  "frame_in_hand s = (case writer_phase s of WritingFrame f \<Rightarrow> [f] | _ \<Rightarrow> [])"

text \<open>
  While no write has failed, what was accepted is what was written, what is in hand and what is
  queued. Nothing comes out of a receive only when one of the queues is closed and empty, or the
  loop has looked at nothing yet.
\<close>

definition stream_writer_inv :: "stream_writer \<Rightarrow> bool" where
  "stream_writer_inv s \<longleftrightarrow>
     (writer_phase s \<noteq> WriterFailed \<longrightarrow>
        accepted_control s = controls_of (written_frames s @ frame_in_hand s) @ control_frames s
        \<and> accepted_data s = datas_of (written_frames s @ frame_in_hand s) @ data_frames s)
     \<and> (\<exists>ws ps. accepted_control s = controls_of (written_frames s) @ ws
          \<and> accepted_data s = datas_of (written_frames s) @ ps)
     \<and> length (control_frames s) \<le> CONTROL_QUEUE_CAPACITY \<and> length (data_frames s) \<le> DATA_QUEUE_CAPACITY
     \<and> (writer_phase s = GotNothing \<or> writer_phase s = WriterDone \<longrightarrow>
          \<not> control_open s \<and> control_frames s = [] \<or> \<not> data_open s \<and> data_frames s = [])"

lemma stream_writer_inv_new: "stream_writer_inv stream_writer_new"
  by (simp add: stream_writer_inv_def stream_writer_new_def frame_in_hand_def)

lemma stream_writer_inv_loop: "stream_writer_inv s \<Longrightarrow> stream_writer_inv (writer_loop_step answer s)"
proof (cases "writer_phase s")
  case (WritingFrame f)
  assume "stream_writer_inv s"
  then show ?thesis
    using WritingFrame
    by (cases answer; cases f) (auto simp: stream_writer_inv_def writer_loop_step_def frame_in_hand_def)
qed (auto simp: stream_writer_inv_def writer_loop_step_def frame_in_hand_def take_control_def take_data_def
    split: list.splits)

lemma stream_writer_inv_step: "stream_writer_inv s \<Longrightarrow> stream_writer_inv (stream_writer_step s x)"
proof (cases x)
  case (LoopStep answer)
  assume "stream_writer_inv s"
  then show ?thesis using LoopStep stream_writer_inv_loop by simp
qed (auto simp: stream_writer_inv_def write_control_def write_data_def writer_gone_def frame_in_hand_def
    CONTROL_QUEUE_CAPACITY_def DATA_QUEUE_CAPACITY_def split: writer_phase.splits)

lemma stream_writer_inv_run: "stream_writer_inv s \<Longrightarrow> stream_writer_inv (foldl stream_writer_step s xs)"
  by (induction xs arbitrary: s) (auto intro: stream_writer_inv_step)

text \<open>Once the senders are gone every access of the loop brings it nearer to its end.\<close>

definition phase_rank :: "writer_phase \<Rightarrow> nat" where
  "phase_rank p = (case p of WritingFrame _ \<Rightarrow> 6 | AtTop \<Rightarrow> 5 | AskControl \<Rightarrow> 4 | AskData \<Rightarrow> 4
     | SelectData \<Rightarrow> 4 | SelectControl \<Rightarrow> 3 | RecvData \<Rightarrow> 3 | RecvControl \<Rightarrow> 3 | GotNothing \<Rightarrow> 1
     | WriterDone \<Rightarrow> 0 | WriterFailed \<Rightarrow> 0)"

definition writer_work :: "stream_writer \<Rightarrow> nat" where
  "writer_work s = 7 * (length (control_frames s) + length (data_frames s)) + phase_rank (writer_phase s)"

lemma writer_work_step:
  assumes "\<not> control_open s" "\<not> data_open s" "\<not> writer_gone s"
  shows "writer_work (writer_loop_step answer s) < writer_work s"
  using assms
  by (cases "writer_phase s"; cases "control_frames s"; cases "data_frames s"; cases answer)
    (simp_all add: writer_work_def writer_loop_step_def phase_rank_def take_control_def take_data_def writer_gone_def)

lemma writer_loop_keeps_closed:
  "control_open (writer_loop_step a s) = control_open s" "data_open (writer_loop_step a s) = data_open s"
  by (cases "writer_phase s"; simp add: writer_loop_step_def take_control_def take_data_def
      split: list.split option.split)+

lemma writer_gone_stays: "writer_gone s \<Longrightarrow> writer_loop_step a s = s"
  by (auto simp: writer_gone_def writer_loop_step_def)

lemma writer_ends:
  assumes "\<not> control_open s" "\<not> data_open s" "writer_work s \<le> length answers"
  shows "writer_gone (foldl stream_writer_step s (map LoopStep answers))"
  using assms
proof (induction answers arbitrary: s)
  case Nil
  then have "phase_rank (writer_phase s) = 0" by (simp add: writer_work_def)
  then show ?case by (auto simp: phase_rank_def writer_gone_def split: writer_phase.splits)
next
  case (Cons a answers)
  show ?case
  proof (cases "writer_gone s")
    case True
    have stays: "foldl stream_writer_step s (map LoopStep bs) = s" for bs
      by (induction bs) (simp_all add: writer_gone_stays [OF True])
    show ?thesis using True by (simp only: stays)
  next
    case False
    from writer_work_step [OF Cons.prems(1,2) False, of a] Cons.prems(3)
    have "writer_work (writer_loop_step a s) \<le> length answers" by simp
    then show ?thesis using Cons.IH [of "writer_loop_step a s"] Cons.prems(1,2) writer_loop_keeps_closed by simp
  qed
qed

text \<open>
  Two runs that lose a frame: the data frame that is sent while the loop waits for both queues, the
  senders gone before it is polled again; and the control frame that is sent between the first look
  at the queue and the question whether it is closed.
\<close>

definition data_lost_run :: "writer_action list" where
  "data_lost_run = [LoopStep None, LoopStep None, LoopStep None, LoopStep None, LoopStep None,
     SendData [1], DropControlSender, DropDataSender, LoopStep None, LoopStep None]"

definition control_lost_run :: "writer_action list" where
  "control_lost_run = [LoopStep None, SendControl [1], DropControlSender, LoopStep None, DropDataSender,
     LoopStep None, LoopStep None]"

lemma frames_lost:
  "writer_phase (foldl stream_writer_step stream_writer_new data_lost_run) = WriterDone
   \<and> data_frames (foldl stream_writer_step stream_writer_new data_lost_run) = [[1]]"
  "writer_phase (foldl stream_writer_step stream_writer_new control_lost_run) = WriterDone
   \<and> control_frames (foldl stream_writer_step stream_writer_new control_lost_run) = [[1]]"
  by code_simp+

text \<open>C36: frames of each kind go out in the order in which they were accepted, none twice and none
  skipped, however the senders and the writer interleave; both queues are bounded; a writer that
  ends without a failed write has written all frames of one of the two kinds, and a writer whose
  senders are gone ends, after at most seven accesses per queued frame and six more. That it has
  written all frames of both kinds fails: two runs show a data frame and a control frame that was
  accepted and is still queued when the writer is done.\<close>

theorem stream_writer_order:
  assumes "s = foldl stream_writer_step stream_writer_new xs"
  shows "(\<exists>ws ps. accepted_control s = controls_of (written_frames s) @ ws
        \<and> accepted_data s = datas_of (written_frames s) @ ps)
    \<and> length (control_frames s) \<le> 16 \<and> length (data_frames s) \<le> 32
    \<and> (writer_phase s = WriterDone \<longrightarrow> accepted_control s = controls_of (written_frames s)
        \<or> accepted_data s = datas_of (written_frames s))
    \<and> (\<not> control_open s \<and> \<not> data_open s \<longrightarrow>
        (\<forall>answers. 7 * (length (control_frames s) + length (data_frames s)) + 6 \<le> length answers \<longrightarrow>
          writer_gone (foldl stream_writer_step s (map LoopStep answers))))
    \<and> (\<exists>ys. writer_phase (foldl stream_writer_step stream_writer_new ys) = WriterDone
        \<and> data_frames (foldl stream_writer_step stream_writer_new ys) \<noteq> [])
    \<and> (\<exists>ys. writer_phase (foldl stream_writer_step stream_writer_new ys) = WriterDone
        \<and> control_frames (foldl stream_writer_step stream_writer_new ys) \<noteq> [])"
proof -
  have inv: "stream_writer_inv s" unfolding assms by (rule stream_writer_inv_run [OF stream_writer_inv_new])
  have rank: "phase_rank p \<le> 6" for p by (cases p) (simp_all add: phase_rank_def)
  have ends: "writer_gone (foldl stream_writer_step s (map LoopStep answers))"
    if "\<not> control_open s" "\<not> data_open s"
      "7 * (length (control_frames s) + length (data_frames s)) + 6 \<le> length answers" for answers
    using writer_ends [OF that(1,2), of answers] that(3) rank [of "writer_phase s"] by (simp add: writer_work_def)
  have whole: "accepted_control s = controls_of (written_frames s) \<or> accepted_data s = datas_of (written_frames s)"
    if "writer_phase s = WriterDone"
    using inv that by (auto simp: stream_writer_inv_def frame_in_hand_def)
  have bounds: "length (control_frames s) \<le> 16" "length (data_frames s) \<le> 32"
    using inv by (simp_all add: stream_writer_inv_def CONTROL_QUEUE_CAPACITY_def DATA_QUEUE_CAPACITY_def)
  show ?thesis
    using inv ends whole bounds frames_lost by (intro conjI allI impI) (simp_all add: stream_writer_inv_def, (metis list.distinct(1))+)
qed

lemma stream_writer_order_witness:
  "\<exists>ws. accepted_control (foldl stream_writer_step stream_writer_new [SendControl [7], LoopStep None, LoopStep None])
     = controls_of (written_frames (foldl stream_writer_step stream_writer_new [SendControl [7], LoopStep None, LoopStep None])) @ ws"
  using stream_writer_order [of _ "[SendControl [7], LoopStep None, LoopStep None]", OF refl] by blast

end
