(* ===== verification/DispatcherStart.thy ===== *)
theory DispatcherStart
  imports TunIo
begin

text \<open>
  How the dispatcher starts and who watches its tasks, \<^verbatim>\<open>backend/dispatcher.rs\<close>: \<^verbatim>\<open>start\<close> on Linux,
  \<^verbatim>\<open>bind_udp\<close>, \<^verbatim>\<open>run_tun\<close> with its replacement of the device, \<^verbatim>\<open>spawn_critical\<close> and \<^verbatim>\<open>shutdown\<close>.
\<close>

section \<open>Binding\<close>

text \<open>
  The answer of one bind: the port with the verdicts of the two buffer sizes, or a failure. The
  result comes with the seconds slept. The fallback asks for any port of the loopback address.
\<close>

datatype bind_answer = Bound nat bool bool | BindFails

datatype start_error = BufferRefused | NoPort | DeviceOpenFailed | DeviceFileFailed

fun bind_attempts :: "nat list \<Rightarrow> (nat \<Rightarrow> bind_answer) \<Rightarrow> bind_answer \<Rightarrow> nat \<Rightarrow> (start_error, nat) res \<times> nat" where
  "bind_attempts [] answers fallback slept =
     (case fallback of Bound port _ _ \<Rightarrow> (Inr port, slept) | BindFails \<Rightarrow> (Inl (Fail NoPort), slept))"
| "bind_attempts (k # ks) answers fallback slept =
     (case answers k of
        Bound port recv_ok send_ok \<Rightarrow>
          (if recv_ok \<and> send_ok then Inr port else Inl (Fail BufferRefused), slept)
      | BindFails \<Rightarrow> bind_attempts ks answers fallback (if k < 5 then slept + 1 else slept))"

definition bind_udp :: "(nat \<Rightarrow> bind_answer) \<Rightarrow> bind_answer \<Rightarrow> (start_error, nat) res \<times> nat" where
  "bind_udp answers fallback = bind_attempts [1..<6] answers fallback 0"

section \<open>Starting\<close>

definition RETURN_CAPACITY :: nat where "RETURN_CAPACITY = 1024"
definition RETURN_LATENCY_CAPACITY :: nat where "RETURN_LATENCY_CAPACITY = 128"
definition RETURN_PRIORITY_CAPACITY :: nat where "RETURN_PRIORITY_CAPACITY = 384"
definition RETURN_BULK_CAPACITY :: nat where
  "RETURN_BULK_CAPACITY = RETURN_CAPACITY - RETURN_LATENCY_CAPACITY - RETURN_PRIORITY_CAPACITY"

datatype task = UdpReaderTask | UdpWriterTask | TunTask string

record dispatcher =
  latency_queue :: "packet_buf packet_queue"
  priority_queue :: "packet_buf packet_queue"
  bulk_queue :: "packet_buf packet_queue"
  task_list :: "task list"

text \<open>The environment of a start: the name of the device, or none, and what the system answers.\<close>

record start_env =
  tun_uds :: "string option"
  device_opens :: bool
  device_file :: bool
  bind_answers :: "nat \<Rightarrow> bind_answer"
  bind_fallback :: bind_answer

text \<open>The dispatcher that is returned and the port that is reported, 0 for a device.\<close>

definition dispatcher_start :: "start_env \<Rightarrow> (start_error, dispatcher \<times> nat) res" where
  "dispatcher_start e =
     (let tun_mode = (tun_uds e \<noteq> None);
          d = \<lparr>latency_queue = packet_channel RETURN_LATENCY_CAPACITY (\<not> tun_mode),
               priority_queue = packet_channel RETURN_PRIORITY_CAPACITY (\<not> tun_mode),
               bulk_queue = packet_channel RETURN_BULK_CAPACITY (\<not> tun_mode),
               task_list = []\<rparr>
      in case tun_uds e of
           Some name \<Rightarrow>
             (let interface = (if name = ''tun'' then ''csqtt'' else name) in
              and_then (ensure (device_opens e) DeviceOpenFailed) (\<lambda>_.
              and_then (ensure (device_file e) DeviceFileFailed) (\<lambda>_.
              Inr (d\<lparr>latency_queue := resume (latency_queue d), priority_queue := resume (priority_queue d),
                      bulk_queue := resume (bulk_queue d), task_list := [TunTask interface]\<rparr>, 0))))
         | None \<Rightarrow>
             and_then (fst (bind_udp (bind_answers e) (bind_fallback e))) (\<lambda>port.
             Inr (d\<lparr>task_list := [UdpReaderTask, UdpWriterTask]\<rparr>, port)))"

section \<open>Running the device\<close>

text \<open>
  What the two waits of \<^verbatim>\<open>run_tun\<close> end with: the cancellation, a new file, the closed channel of the
  files, or the end of the reader or the writer. \<open>RegisterFails\<close> is the answer for the file at hand
  when the runtime refuses it.
\<close>

datatype tun_wake = Cancelled | NewFile | FilesClosed | ReaderEnds | WriterEnds

datatype tun_turn = RegisterFails | Running tun_wake "tun_wake option"

datatype tun_run = TunReturned bool | TunWaiting bool

text \<open>
  A turn per file. The second wait, after the first ended without a file, knows only the
  cancellation, a new file and the closed channel. The result tells whether the task returned, and
  whether a reader and a writer are at work: \<open>TunWaiting False\<close> waits without either.
\<close>

fun run_tun :: "tun_turn list \<Rightarrow> tun_run" where
  "run_tun [] = TunWaiting True"
| "run_tun (RegisterFails # rest) = TunReturned False"
| "run_tun (Running first second # rest) =
     (case first of
        Cancelled \<Rightarrow> TunReturned True
      | NewFile \<Rightarrow> run_tun rest
      | _ \<Rightarrow>
          (case second of
             None \<Rightarrow> TunWaiting False
           | Some Cancelled \<Rightarrow> TunReturned True
           | Some NewFile \<Rightarrow> run_tun rest
           | Some FilesClosed \<Rightarrow> TunReturned False
           | Some _ \<Rightarrow> TunWaiting False))"

text \<open>
  The supervisor of a task cancels everything when the task has panicked or was aborted, and does
  nothing when it returned.
\<close>

datatype task_end = TaskReturns | TaskPanics

definition spawn_critical :: "bool \<Rightarrow> task_end \<Rightarrow> bool" where
  "spawn_critical cancelled e = (cancelled \<or> e = TaskPanics)"

section \<open>Properties\<close>

lemma bind_attempts_time: "snd (bind_attempts ks answers fallback s) \<le> s + length (filter (\<lambda>k. k < 5) ks)"
proof (induction ks arbitrary: s)
  case (Cons k ks)
  then show ?case using Cons.IH [of "Suc s"] Cons.IH [of s] by (auto split: bind_answer.split)
qed (auto split: bind_answer.split)

lemma bind_udp_time: "snd (bind_udp answers fallback) \<le> 4"
proof -
  have "length (filter (\<lambda>k. k < 5) [1..<6]) = (4::nat)" by code_simp
  then show ?thesis using bind_attempts_time [of "[1..<6]" answers fallback 0] by (simp add: bind_udp_def)
qed

lemma bind_attempts_port:
  "fst (bind_attempts ks answers fallback s) = Inr port \<Longrightarrow>
     (\<exists>k \<in> set ks. \<exists>r t. answers k = Bound port r t) \<or> (\<exists>r t. fallback = Bound port r t)"
  by (induction ks arbitrary: s) (auto split: bind_answer.splits if_splits)

text \<open>A dispatcher that starts takes packets at once, whatever the mode, and no packet that was sent
  before the device was there; its three queues hold 1024 packets together. A start that fails has
  started nothing.\<close>

lemma dispatcher_start_ready:
  assumes "dispatcher_start e = Inr (d, port)"
  shows "queue_active (latency_queue d) \<and> queue_active (priority_queue d) \<and> queue_active (bulk_queue d)"
    and "items (latency_queue d) = [] \<and> items (priority_queue d) = [] \<and> items (bulk_queue d) = []"
    and "task_list d \<noteq> []"
    and "(tun_uds e = None) = (task_list d = [UdpReaderTask, UdpWriterTask])"
  using assms
  by (auto simp: dispatcher_start_def Let_def packet_channel_def resume_def purge_def and_then_Inr_conv ensure_Inr_conv
      split: option.splits)

text \<open>
  On Linux no file is ever sent: the sender is only kept alive inside the task. So after the
  reader or the writer of the device has ended, the task goes on without either until the
  cancellation, and the supervisor sees nothing: the device is dead and everything else runs on.
\<close>

definition linux_turn :: "tun_turn \<Rightarrow> bool" where
  "linux_turn t = (case t of RegisterFails \<Rightarrow> True
     | Running first second \<Rightarrow> first \<noteq> NewFile \<and> first \<noteq> FilesClosed \<and> second \<in> {None, Some Cancelled})"

lemma dead_device_unnoticed:
  assumes "linux_turn (Running first second)" and "first \<noteq> Cancelled" and "second \<noteq> Some Cancelled"
  shows "run_tun (Running first second # rest) = TunWaiting False"
    and "\<not> spawn_critical False TaskReturns"
  using assms by (auto simp: linux_turn_def spawn_critical_def split: tun_wake.split)

end
