(* ===== verification/WintunLoops.thy ===== *)
theory WintunLoops
  imports TunIo
begin

text \<open>
  The loops of \<^verbatim>\<open>backend/dispatcher.rs\<close> around the Windows tunnel device: the thread that reads it,
  which blocks in the driver, and the task that writes it in bursts. What the driver answers is a
  script; a script that ends stands for a device that blocks, or for the end of the client.
\<close>

section \<open>The reader\<close>

datatype wintun_read = WintunPacket bytes | WintunFails

text \<open>The packet is in the hands of the program before a buffer is: without one, or when it is longer than
  the read area, it is dropped. The flag says whether the reader goes on.\<close>

definition wintun_read_packet :: "worker list \<Rightarrow> bytes \<Rightarrow> tun_reader \<Rightarrow> tun_reader \<times> bool" where
  "wintun_read_packet source bs r =
     (case try_acquire (reader_pool r) of
        None \<Rightarrow> (r, True)
      | Some (p, pool) \<Rightarrow>
          let give_up = r\<lparr>reader_pool := release pool p\<rparr> in
          if length bs > PACKET_CAPACITY - PACKET_HEADROOM then (give_up, True)
          else (case set_read_len (fill_read_area p bs) (length bs) of
             Inl _ \<Rightarrow> (give_up, False)
           | Inr q \<Rightarrow> (frame_and_dispatch source (\<lambda>_. length bs) q (r\<lparr>reader_pool := pool\<rparr>), True)))"

fun wintun_reader :: "worker list \<Rightarrow> wintun_read list \<Rightarrow> tun_reader \<Rightarrow> tun_reader \<times> bool" where
  "wintun_reader source [] r = (r, True)"
| "wintun_reader source (WintunFails # xs) r = (r, False)"
| "wintun_reader source (WintunPacket bs # xs) r =
     (case wintun_read_packet source bs r of
        (r1, goes_on) \<Rightarrow> if goes_on then wintun_reader source xs r1 else (r1, False))"

section \<open>The writer\<close>

text \<open>
  At most 65 packets between two looks at the cancellation: one that is waited for and a burst of 64.
  Every packet comes with whether the driver took it; after a refusal the writer ends.
\<close>

fun wintun_burst ::
  "(nat \<Rightarrow> nat) \<Rightarrow> bool list \<Rightarrow> nat \<Rightarrow> return_reorder \<times> receivers \<Rightarrow>
     (return_reorder \<times> receivers) \<times> (packet_buf \<times> bool) list \<times> bool" where
  "wintun_burst clock [] n st = (st, [], True)"
| "wintun_burst clock (a # as) 0 st = (st, [], True)"
| "wintun_burst clock (a # as) (Suc n) st =
     (case next_ordered_return_packet clock st of
        (st1, None) \<Rightarrow> (st1, [], True)
      | (st1, Some p) \<Rightarrow>
          if a then (case wintun_burst clock as n st1 of (st2, done_with, goes_on) \<Rightarrow> (st2, (p, True) # done_with, goes_on))
          else (st1, [(p, False)], False))"

definition wintun_turn ::
  "(nat \<Rightarrow> nat) \<Rightarrow> bool list \<Rightarrow> return_reorder \<times> receivers \<Rightarrow>
     (return_reorder \<times> receivers) \<times> (packet_buf \<times> bool) list \<times> bool" where
  "wintun_turn clock answers st = wintun_burst clock answers 65 st"

fun write_wintun ::
  "(nat \<Rightarrow> nat) \<Rightarrow> bool list list \<Rightarrow> return_reorder \<times> receivers \<Rightarrow>
     (return_reorder \<times> receivers) \<times> (packet_buf \<times> bool) list \<times> bool" where
  "write_wintun clock [] st = (st, [], True)"
| "write_wintun clock (a # turns) st =
     (case wintun_turn clock a st of
        (st1, xs, goes_on) \<Rightarrow>
          if goes_on then (case write_wintun clock turns st1 of (st2, ys, g) \<Rightarrow> (st2, xs @ ys, g))
          else (st1, xs, False))"

definition wintun_bytes_down :: "(packet_buf \<times> bool) list \<Rightarrow> nat" where
  "wintun_bytes_down xs = sum_list (map (\<lambda>(p, ok). if ok then buf_len p else 0) xs)"

section \<open>Properties\<close>

text \<open>The reader loses no buffer, whatever the driver gives it.\<close>

lemma wintun_read_packet_keeps: "reader_ok r \<Longrightarrow> reader_ok (fst (wintun_read_packet source bs r))"
proof -
  assume ok: "reader_ok r"
  show ?thesis
  proof (cases "try_acquire (reader_pool r)")
    case None
    then show ?thesis using ok by (simp add: wintun_read_packet_def)
  next
    case (Some x)
    then obtain p pool where acq: "try_acquire (reader_pool r) = Some (p, pool)" by (cases x) auto
    note acquired = reader_ok_acquire [OF ok acq]
    show ?thesis
    proof (cases "set_read_len (fill_read_area p bs) (length bs)")
      case (Inl e)
      then show ?thesis using acquired(2) by (simp add: wintun_read_packet_def acq Let_def)
    next
      case (Inr q)
      have "reader_ok (frame_and_dispatch source (\<lambda>_. length bs) q (r\<lparr>reader_pool := pool\<rparr>))"
        by (rule reader_ok_frame) (use acquired(1) in simp)
      then show ?thesis using acquired(2) Inr by (simp add: wintun_read_packet_def acq Let_def)
    qed
  qed
qed

lemma wintun_reader_keeps_buffers: "reader_ok r \<Longrightarrow> reader_ok (fst (wintun_reader source xs r))"
proof (induction source xs r rule: wintun_reader.induct)
  case (3 source bs xs r)
  obtain r1 g where c: "wintun_read_packet source bs r = (r1, g)" by fastforce
  have "reader_ok r1" using wintun_read_packet_keeps [OF "3.prems", of source bs] c by simp
  then show ?case using "3.IH" [OF c [symmetric]] by (cases g) (simp_all add: c)
qed auto

text \<open>
  The writer handles the packets in the order of the return path, each once; only the last can be
  refused, and then the writer ends.
\<close>

definition handled_prefix ::
  "(nat \<Rightarrow> nat) \<Rightarrow> return_reorder \<times> receivers \<Rightarrow> (return_reorder \<times> receivers) \<times> (packet_buf \<times> bool) list \<times> bool \<Rightarrow> bool" where
  "handled_prefix clock st out =
     (case out of (st', xs, goes_on) \<Rightarrow>
        (\<forall>m. goes_on \<longrightarrow> pulled clock (length xs + m) st = map fst xs @ pulled clock m st')
        \<and> map fst xs = pulled clock (length xs) st
        \<and> list_all snd (if goes_on then xs else butlast xs))"

lemma wintun_burst_prefix: "handled_prefix clock st (wintun_burst clock as n st)"
proof (induction clock as n st rule: wintun_burst.induct)
  case (3 clock a as n st)
  obtain st1 x where nx: "next_ordered_return_packet clock st = (st1, x)" by fastforce
  show ?case
  proof (cases x)
    case None
    have "pulled clock m st = []" for m using nx None by (cases m) simp_all
    then show ?thesis using nx None pulled_None by (simp add: handled_prefix_def)
  next
    case (Some p)
    obtain st2 ys g where b: "wintun_burst clock as n st1 = (st2, ys, g)" by (metis prod_cases3)
    show ?thesis
    proof (cases a)
      case True
      have "handled_prefix clock st1 (st2, ys, g)" using "3.IH" [OF nx [symmetric] Some True] b by simp
      then show ?thesis using nx Some True b by (auto simp: handled_prefix_def butlast_append)
    next
      case False
      then show ?thesis using nx Some by (simp add: handled_prefix_def)
    qed
  qed
qed (simp_all add: handled_prefix_def)

lemma handled_prefix_append:
  assumes "handled_prefix clock st (st1, xs, True)" and "handled_prefix clock st1 (st2, ys, g)"
  shows "handled_prefix clock st (st2, xs @ ys, g)"
proof -
  have first: "pulled clock (length xs + m) st = map fst xs @ pulled clock m st1" "list_all snd xs" for m
    using assms(1) by (simp_all add: handled_prefix_def)
  have second: "g \<longrightarrow> pulled clock (length ys + m) st1 = map fst ys @ pulled clock m st2"
    "map fst ys = pulled clock (length ys) st1" "list_all snd (if g then ys else butlast ys)" for m
    using assms(2) by (auto simp: handled_prefix_def)
  have "pulled clock (length (xs @ ys) + m) st = map fst (xs @ ys) @ pulled clock m st2" if g for m
    using first(1) [of "length ys + m"] second(1) [of m] that by (simp add: add.assoc)
  moreover have "map fst (xs @ ys) = pulled clock (length (xs @ ys)) st"
    using first(1) [of "length ys"] second(2) by simp
  moreover have "list_all snd (if g then xs @ ys else butlast (xs @ ys))"
    using first(2) second(3) by (auto simp: butlast_append list_all_iff dest: in_set_butlastD)
  ultimately show ?thesis by (simp add: handled_prefix_def)
qed

theorem wintun_writer_exact: "handled_prefix clock st (write_wintun clock turns st)"
proof (induction clock turns st rule: write_wintun.induct)
  case (2 clock a turns st)
  obtain st1 xs g where t: "wintun_turn clock a st = (st1, xs, g)" by (metis prod_cases3)
  have one: "handled_prefix clock st (st1, xs, g)" using wintun_burst_prefix [of clock st a 65] t by (simp add: wintun_turn_def)
  obtain st2 ys h where w: "write_wintun clock turns st1 = (st2, ys, h)" by (metis prod_cases3)
  show ?case
  proof (cases g)
    case True
    then have "handled_prefix clock st1 (st2, ys, h)" using "2.IH" [OF t [symmetric]] w by simp
    then show ?thesis using handled_prefix_append one True t w by simp
  next
    case False
    then show ?thesis using one t by simp
  qed
qed (simp add: handled_prefix_def)

end
