(* ===== verification/Credentials.thy ===== *)
theory Credentials
  imports Machine Strings
begin

text \<open>
  The credentials of a group of workers, \<^verbatim>\<open>backend/worker.rs\<close>: a cache of at most one TURN
  credential, leased to a bounded number of allocation attempts, replaced when the server rejects
  it, and never taken back once its quota is exhausted. The mutex makes each operation atomic.
\<close>

section \<open>The cache\<close>

definition WORKERS_PER_GROUP :: nat where "WORKERS_PER_GROUP = 9"
definition GROUPS_PER_CREDENTIAL :: nat where "GROUPS_PER_CREDENTIAL = 2"
definition WORKERS_PER_CREDENTIAL :: nat where
  "WORKERS_PER_CREDENTIAL = WORKERS_PER_GROUP * GROUPS_PER_CREDENTIAL"

record turn_credentials =
  tc_username :: str_text
  tc_password :: str_text
  tc_servers :: "str_text list"

definition same_turn_credentials :: "turn_credentials \<Rightarrow> turn_credentials \<Rightarrow> bool" where
  "same_turn_credentials a b =
     (tc_username a = tc_username b \<and> tc_password a = tc_password b \<and> tc_servers a = tc_servers b)"

text \<open>The generation is a 64-bit counter that saturates.\<close>

definition generation_after :: "u64 \<Rightarrow> u64" where
  "generation_after g = (if g = - 1 then g else g + 1)"

record cached_credentials =
  cc_value :: turn_credentials
  cc_generation :: u64
  cc_attempts :: nat
  cc_mismatches :: nat

record credential_lease =
  cl_value :: turn_credentials
  cl_generation :: u64

record credential_cache =
  cache_current :: "cached_credentials option"
  quota_blocked :: "turn_credentials option"
  next_generation :: u64
  quota_retries :: nat

definition cache_new :: credential_cache where
  "cache_new = \<lparr>cache_current = None, quota_blocked = None, next_generation = 0, quota_retries = 0\<rparr>"

definition reserve :: "credential_cache \<Rightarrow> credential_cache \<times> credential_lease option" where
  "reserve c =
     (let c1 = (case cache_current c of
                  None \<Rightarrow> c
                | Some x \<Rightarrow> if cc_attempts x \<ge> WORKERS_PER_CREDENTIAL then c\<lparr>cache_current := None\<rparr> else c)
      in case cache_current c1 of
           None \<Rightarrow> (c1, None)
         | Some x \<Rightarrow>
             (c1\<lparr>cache_current := Some (x\<lparr>cc_attempts := saturating_add (cc_attempts x) 1\<rparr>)\<rparr>,
              Some \<lparr>cl_value = cc_value x, cl_generation = cc_generation x\<rparr>))"

definition store :: "turn_credentials \<Rightarrow> credential_cache \<Rightarrow> credential_cache \<times> bool" where
  "store v c =
     (if (case quota_blocked c of None \<Rightarrow> False | Some b \<Rightarrow> same_turn_credentials b v) then (c, False)
      else
        let g = max (generation_after (next_generation c)) 1 in
        (c\<lparr>quota_blocked := None, next_generation := g,
           cache_current := Some \<lparr>cc_value = v, cc_generation = g, cc_attempts = 0, cc_mismatches = 0\<rparr>\<rparr>,
         True))"

definition leased :: "cached_credentials \<Rightarrow> credential_lease \<Rightarrow> bool" where
  "leased x l = (cc_generation x = cl_generation l \<and> same_turn_credentials (cc_value x) (cl_value l))"

definition record_allocation :: "credential_lease \<Rightarrow> credential_cache \<Rightarrow> credential_cache" where
  "record_allocation l c =
     (case cache_current c of
        None \<Rightarrow> c
      | Some x \<Rightarrow> if leased x l
          then c\<lparr>cache_current := Some (x\<lparr>cc_mismatches := 0\<rparr>), quota_retries := 0\<rparr> else c)"

definition release_lease :: "credential_lease \<Rightarrow> credential_cache \<Rightarrow> credential_cache" where
  "release_lease l c =
     (case cache_current c of
        None \<Rightarrow> c
      | Some x \<Rightarrow> if leased x l
          then c\<lparr>cache_current := Some (x\<lparr>cc_attempts := cc_attempts x - 1\<rparr>)\<rparr> else c)"

definition invalidate :: "credential_lease \<Rightarrow> credential_cache \<Rightarrow> credential_cache \<times> bool" where
  "invalidate l c =
     (case cache_current c of
        None \<Rightarrow> (c, False)
      | Some x \<Rightarrow> if leased x l then (c\<lparr>cache_current := None\<rparr>, True) else (c, False))"

text \<open>Durations in milliseconds.\<close>

definition quota_rotation_delay :: "nat \<Rightarrow> nat" where
  "quota_rotation_delay attempt =
     (if attempt = 0 then 100 else if attempt = 1 then 300 else if attempt = 2 then 500
      else if attempt = 3 then 800 else 1500)"

datatype quota_rotation = QuotaRotated nat | QuotaReplaced

definition rotate_after_quota :: "credential_lease \<Rightarrow> credential_cache \<Rightarrow> credential_cache \<times> quota_rotation" where
  "rotate_after_quota l c =
     (case cache_current c of
        None \<Rightarrow> (c, QuotaReplaced)
      | Some x \<Rightarrow>
          if \<not> leased x l then (c, QuotaReplaced)
          else (c\<lparr>cache_current := None, quota_blocked := Some (cc_value x),
                  quota_retries := saturating_add (quota_retries c) 1\<rparr>,
                QuotaRotated (quota_rotation_delay (quota_retries c))))"

definition next_quota_delay :: "credential_cache \<Rightarrow> credential_cache \<times> nat" where
  "next_quota_delay c =
     (c\<lparr>quota_retries := saturating_add (quota_retries c) 1\<rparr>, quota_rotation_delay (quota_retries c))"

datatype allocation_mismatch = RetryCurrent | MismatchRotated | MismatchReplaced

definition retry_after_mismatch ::
  "credential_lease \<Rightarrow> credential_cache \<Rightarrow> credential_cache \<times> allocation_mismatch" where
  "retry_after_mismatch l c =
     (case cache_current c of
        None \<Rightarrow> (c, MismatchReplaced)
      | Some x \<Rightarrow>
          if \<not> leased x l then (c, MismatchReplaced)
          else if cc_mismatches x = 0
            then (c\<lparr>cache_current := Some (x\<lparr>cc_mismatches := 1\<rparr>)\<rparr>, RetryCurrent)
          else (c\<lparr>cache_current := None\<rparr>, MismatchRotated))"

section \<open>Fetching\<close>

text \<open>
  One call of \<^verbatim>\<open>GroupCredentials::get\<close>. The answer of the authentication service is an input, and
  so are the instants at which a cancellation is noticed. The result also tells how long the call
  slept with the lock given back or kept, in milliseconds.
\<close>

datatype fetch_answer =
    Fetched turn_credentials
  | FetchUnavailable
  | FetchFailed

record group_credentials =
  gc_cache :: credential_cache
  gc_failures :: nat
  gc_unavailable :: bool

record get_input =
  gi_cancelled_waiting :: bool
  gi_unavailable_after :: bool
  gi_cancelled_fetching :: bool
  gi_answer :: fetch_answer
  gi_cancelled_sleeping :: bool
  gi_jitter :: nat

definition CREDENTIAL_POST_DELAY :: nat where "CREDENTIAL_POST_DELAY = 100"

definition fetch_backoff :: "nat \<Rightarrow> nat \<Rightarrow> nat" where
  "fetch_backoff failures jitter = min (CREDENTIAL_POST_DELAY * 2 ^ min failures 5) 3000 + jitter mod 100"

definition get_lease :: "get_input \<Rightarrow> group_credentials \<Rightarrow> group_credentials \<times> credential_lease option \<times> nat" where
  "get_lease i g =
     (if gc_unavailable g then (g, None, 0)
      else
        case reserve (gc_cache g) of
          (c, Some l) \<Rightarrow> (g\<lparr>gc_cache := c\<rparr>, Some l, 0)
        | (c, None) \<Rightarrow>
            let g1 = g\<lparr>gc_cache := c\<rparr> in
            if gi_cancelled_waiting i then (g1, None, 0)
            else if gi_unavailable_after i then (g1\<lparr>gc_unavailable := True\<rparr>, None, 0)
            else if gi_cancelled_fetching i then (g1, None, 0)
            else (case gi_answer i of
                Fetched v \<Rightarrow>
                  (case store v c of
                     (_, False) \<Rightarrow>
                       (let (c2, delay) = next_quota_delay c in (g1\<lparr>gc_cache := c2\<rparr>, None, delay))
                   | (c2, True) \<Rightarrow>
                       (let g2 = g1\<lparr>gc_cache := c2, gc_failures := 0\<rparr> in
                        if gi_cancelled_sleeping i then (g2, None, CREDENTIAL_POST_DELAY)
                        else let (c3, l) = reserve c2 in (g2\<lparr>gc_cache := c3\<rparr>, l, CREDENTIAL_POST_DELAY)))
              | FetchUnavailable \<Rightarrow> (g1\<lparr>gc_unavailable := True\<rparr>, None, 0)
              | FetchFailed \<Rightarrow>
                  (g1\<lparr>gc_failures := gc_failures g1 + 1\<rparr>, None, fetch_backoff (gc_failures g1) (gi_jitter i))))"

section \<open>The workers of a credential\<close>

text \<open>
  The cache under any sequence of calls, with the leases handed out and not given back. A worker
  gives a lease back at most once; every other call may come with any lease, stale ones included.
\<close>

datatype cache_op =
    Reserve
  | Store turn_credentials
  | RecordAllocation credential_lease
  | Release credential_lease
  | Invalidate credential_lease
  | RotateAfterQuota credential_lease
  | NextQuotaDelay
  | RetryAfterMismatch credential_lease

record lease_state =
  ls_cache :: credential_cache
  ls_out :: "credential_lease list"

fun cache_step :: "lease_state \<Rightarrow> cache_op \<Rightarrow> lease_state" where
  "cache_step s Reserve =
     (let (c, l) = reserve (ls_cache s)
      in \<lparr>ls_cache = c, ls_out = (case l of None \<Rightarrow> ls_out s | Some x \<Rightarrow> x # ls_out s)\<rparr>)"
| "cache_step s (Store v) = s\<lparr>ls_cache := fst (store v (ls_cache s))\<rparr>"
| "cache_step s (RecordAllocation l) = s\<lparr>ls_cache := record_allocation l (ls_cache s)\<rparr>"
| "cache_step s (Release l) =
     (if l \<in> set (ls_out s)
      then \<lparr>ls_cache = release_lease l (ls_cache s), ls_out = remove1 l (ls_out s)\<rparr> else s)"
| "cache_step s (Invalidate l) = s\<lparr>ls_cache := fst (invalidate l (ls_cache s))\<rparr>"
| "cache_step s (RotateAfterQuota l) = s\<lparr>ls_cache := fst (rotate_after_quota l (ls_cache s))\<rparr>"
| "cache_step s NextQuotaDelay = s\<lparr>ls_cache := fst (next_quota_delay (ls_cache s))\<rparr>"
| "cache_step s (RetryAfterMismatch l) = s\<lparr>ls_cache := fst (retry_after_mismatch l (ls_cache s))\<rparr>"

definition out_of :: "u64 \<Rightarrow> lease_state \<Rightarrow> nat" where
  "out_of g s = length (filter (\<lambda>l. cl_generation l = g) (ls_out s))"

text \<open>
  The invariant, for a number of calls so far: the generation of the cache bounds all others, the
  current credential counts its leases exactly, and no credential has more than it may have.
\<close>

definition lease_inv :: "nat \<Rightarrow> lease_state \<Rightarrow> bool" where
  "lease_inv n s \<longleftrightarrow>
     unat (next_generation (ls_cache s)) \<le> n
     \<and> (\<forall>l \<in> set (ls_out s). cl_generation l \<le> next_generation (ls_cache s))
     \<and> (\<forall>g. out_of g s \<le> WORKERS_PER_CREDENTIAL)
     \<and> (case cache_current (ls_cache s) of None \<Rightarrow> True
        | Some x \<Rightarrow> cc_generation x = next_generation (ls_cache s)
            \<and> cc_attempts x = out_of (cc_generation x) s \<and> quota_blocked (ls_cache s) = None
            \<and> (\<forall>l \<in> set (ls_out s). cl_generation l = cc_generation x \<longrightarrow> cl_value l = cc_value x))"

lemma lease_inv_new: "lease_inv n \<lparr>ls_cache = cache_new, ls_out = []\<rparr>"
  by (simp add: lease_inv_def cache_new_def out_of_def)

lemma workers_per_credential [simp]: "WORKERS_PER_CREDENTIAL = 18"
  by (simp add: WORKERS_PER_CREDENTIAL_def WORKERS_PER_GROUP_def GROUPS_PER_CREDENTIAL_def)

lemma same_turn_credentials_refl [simp]: "same_turn_credentials v v"
  by (simp add: same_turn_credentials_def)

lemma lease_inv_same:
  assumes "lease_inv n s" and "next_generation c = next_generation (ls_cache s)"
    and "cache_current c = None"
  shows "lease_inv (Suc n) (s\<lparr>ls_cache := c\<rparr>)"
  using assms by (auto simp: lease_inv_def out_of_def)

lemma lease_inv_current:
  assumes "lease_inv n s" and "cache_current (ls_cache s) = Some x"
    and "next_generation c = next_generation (ls_cache s)" and "quota_blocked c = quota_blocked (ls_cache s)"
    and "cache_current c = Some (x\<lparr>cc_mismatches := k\<rparr>)"
  shows "lease_inv (Suc n) (s\<lparr>ls_cache := c\<rparr>)"
  using assms by (auto simp: lease_inv_def out_of_def)

lemma lease_inv_stays: "lease_inv n s \<Longrightarrow> lease_inv (Suc n) s"
  by (auto simp: lease_inv_def)

lemma lease_inv_retries: "lease_inv n s \<Longrightarrow> lease_inv n (s\<lparr>ls_cache := (ls_cache s)\<lparr>quota_retries := k\<rparr>\<rparr>)"
  by (auto simp: lease_inv_def out_of_def split: option.splits)

lemma generation_after_max:
  "unat g < 2 ^ 64 - 1 \<Longrightarrow> unat (max (generation_after g) 1) = Suc (unat g) \<and> g < max (generation_after g) 1"
proof -
  assume small: "unat g < 2 ^ 64 - 1"
  then have ne: "g \<noteq> - 1" by (auto simp: unsigned_minus_1_eq_mask mask_eq_exp_minus_1)
  have "unat (g + 1) = Suc (unat g)"
    using small by (subst unat_word_ariths) simp
  moreover from this have "1 \<le> g + 1" and "g < g + 1"
    by (simp_all add: word_le_nat_alt word_less_nat_alt)
  ultimately show ?thesis using ne by (simp add: generation_after_def max_def)
qed

lemma lease_inv_reserve: "lease_inv n s \<Longrightarrow> lease_inv (Suc n) (cache_step s Reserve)"
proof -
  assume inv: "lease_inv n s"
  show ?thesis
  proof (cases "cache_current (ls_cache s)")
    case None
    then show ?thesis using inv by (simp add: reserve_def lease_inv_def out_of_def)
  next
    case (Some x)
    show ?thesis
    proof (cases "cc_attempts x \<ge> WORKERS_PER_CREDENTIAL")
      case True
      then show ?thesis using inv Some by (simp add: reserve_def lease_inv_def out_of_def)
    next
      case False
      let ?l = "\<lparr>cl_value = cc_value x, cl_generation = cc_generation x\<rparr>"
      let ?t = "\<lparr>ls_cache = (ls_cache s)\<lparr>cache_current := Some (x\<lparr>cc_attempts := cc_attempts x + 1\<rparr>)\<rparr>,
        ls_out = ?l # ls_out s\<rparr>"
      have t: "cache_step s Reserve = ?t"
        using False Some by (simp add: reserve_def saturating_add_def usize_max_def)
      have "out_of g ?t = (if g = cc_generation x then Suc (out_of g s) else out_of g s)" for g
        by (simp add: out_of_def)
      moreover have "out_of (cc_generation x) s < 18" using inv Some False by (simp add: lease_inv_def)
      ultimately have "\<forall>g. out_of g ?t \<le> 18" and "out_of (cc_generation x) ?t = Suc (out_of (cc_generation x) s)"
        using inv by (auto simp: lease_inv_def)
      then show ?thesis unfolding t using inv Some by (simp add: lease_inv_def)
    qed
  qed
qed

lemma lease_inv_store:
  assumes "lease_inv n s" and "n < 2 ^ 64 - 1"
  shows "lease_inv (Suc n) (cache_step s (Store v))"
proof (cases "case quota_blocked (ls_cache s) of None \<Rightarrow> False | Some b \<Rightarrow> same_turn_credentials b v")
  case True
  then show ?thesis using lease_inv_stays [OF assms(1)] by (simp add: store_def)
next
  case False
  let ?g = "max (generation_after (next_generation (ls_cache s))) 1"
  have g: "unat ?g = Suc (unat (next_generation (ls_cache s)))" "next_generation (ls_cache s) < ?g"
    using generation_after_max [of "next_generation (ls_cache s)"] assms by (simp_all add: lease_inv_def)
  have le: "cl_generation l < ?g" if "l \<in> set (ls_out s)" for l
    using assms(1) that g(2) by (auto simp: lease_inv_def)
  then have "filter (\<lambda>l. cl_generation l = ?g) (ls_out s) = []" by (auto simp: filter_empty_conv dest!: le)
  then have "out_of ?g s = 0" by (simp add: out_of_def)
  then show ?thesis
    using False assms g le by (auto simp: store_def lease_inv_def out_of_def Let_def intro: less_imp_le)
qed

lemma out_of_remove1:
  assumes "l \<in> set (ls_out s)"
  shows "out_of g (s\<lparr>ls_out := remove1 l (ls_out s)\<rparr>)
    = (if g = cl_generation l then out_of g s - 1 else out_of g s)"
proof -
  have "filter P (remove1 l xs) = (if P l then remove1 l (filter P xs) else filter P xs)" for P and xs :: "credential_lease list"
    by (induction xs) auto
  then show ?thesis using assms by (simp add: out_of_def length_remove1)
qed

lemma lease_inv_release: "lease_inv n s \<Longrightarrow> lease_inv (Suc n) (cache_step s (Release l))"
proof (cases "l \<in> set (ls_out s)")
  case True
  assume inv: "lease_inv n s"
  let ?t = "s\<lparr>ls_out := remove1 l (ls_out s)\<rparr>"
  note out = out_of_remove1 [OF True]
  have sub: "set (remove1 l (ls_out s)) \<subseteq> set (ls_out s)" by (rule set_remove1_subset)
  have all: "\<forall>g. out_of g ?t \<le> 18" using inv out by (auto simp: lease_inv_def intro: le_trans [OF diff_le_self])
  show ?thesis
  proof (cases "cache_current (ls_cache s)")
    case None
    then have "cache_step s (Release l) = ?t" using True by (simp add: release_lease_def)
    then show ?thesis using inv None sub all by (auto simp: lease_inv_def)
  next
    case (Some x)
    show ?thesis
    proof (cases "cl_generation l = cc_generation x")
      case same: True
      then have "leased x l" using inv Some True by (auto simp: lease_inv_def leased_def)
      then have t: "cache_step s (Release l) =
          ?t\<lparr>ls_cache := (ls_cache s)\<lparr>cache_current := Some (x\<lparr>cc_attempts := cc_attempts x - 1\<rparr>)\<rparr>\<rparr>"
        using True Some by (simp add: release_lease_def)
      have o: "out_of g (?t\<lparr>ls_cache := c\<rparr>) = out_of g ?t" for g c by (simp add: out_of_def)
      show ?thesis unfolding t
        using inv Some sub all out same by (auto simp: lease_inv_def o)
    next
      case False
      then have "\<not> leased x l" by (simp add: leased_def)
      then have "cache_step s (Release l) = ?t" using True Some by (simp add: release_lease_def)
      then show ?thesis using inv Some sub all out False by (auto simp: lease_inv_def)
    qed
  qed
qed (simp add: lease_inv_stays)

lemma lease_inv_others:
  assumes "lease_inv n s"
  shows "lease_inv (Suc n) (cache_step s (RecordAllocation l))"
    and "lease_inv (Suc n) (cache_step s (Invalidate l))"
    and "lease_inv (Suc n) (cache_step s (RotateAfterQuota l))"
    and "lease_inv (Suc n) (cache_step s NextQuotaDelay)"
    and "lease_inv (Suc n) (cache_step s (RetryAfterMismatch l))"
  using lease_inv_stays [OF assms]
  by (auto simp: record_allocation_def invalidate_def rotate_after_quota_def next_quota_delay_def
      retry_after_mismatch_def lease_inv_def out_of_def split: option.splits if_splits)

lemma lease_inv_step: "lease_inv n s \<Longrightarrow> n < 2 ^ 64 - 1 \<Longrightarrow> lease_inv (Suc n) (cache_step s x)"
  by (cases x) (simp_all only: lease_inv_reserve lease_inv_store lease_inv_release lease_inv_others)

lemma lease_inv_run:
  "lease_inv n s \<Longrightarrow> n + length xs < 2 ^ 64 \<Longrightarrow> lease_inv (n + length xs) (foldl cache_step s xs)"
proof (induction xs arbitrary: n s)
  case (Cons x xs)
  have "lease_inv (Suc n) (cache_step s x)" by (rule lease_inv_step) (use Cons.prems in auto)
  from Cons.IH [OF this] Cons.prems(2) show ?case by simp
qed simp

text \<open>While a credential is blocked for its quota, storing it again is refused and nothing is leased.\<close>

lemma blocked_step:
  assumes "cache_current (ls_cache s) = None" and "quota_blocked (ls_cache s) = Some v"
    and "\<forall>w. x = Store w \<longrightarrow> same_turn_credentials v w"
  shows "cache_current (ls_cache (cache_step s x)) = None
    \<and> quota_blocked (ls_cache (cache_step s x)) = Some v
    \<and> set (ls_out (cache_step s x)) \<subseteq> set (ls_out s)"
  using assms
  by (cases x) (auto simp: reserve_def store_def record_allocation_def release_lease_def invalidate_def
      rotate_after_quota_def next_quota_delay_def retry_after_mismatch_def dest: notin_set_remove1
      intro: set_remove1_subset [THEN subsetD])

lemma blocked_run:
  assumes "cache_current (ls_cache s) = None" and "quota_blocked (ls_cache s) = Some v"
    and "\<forall>w. Store w \<in> set xs \<longrightarrow> same_turn_credentials v w"
  shows "cache_current (ls_cache (foldl cache_step s xs)) = None
    \<and> set (ls_out (foldl cache_step s xs)) \<subseteq> set (ls_out s)"
  using assms
proof (induction xs arbitrary: s)
  case (Cons x xs)
  have "\<forall>w. x = Store w \<longrightarrow> same_turn_credentials v w" using Cons.prems(3) by auto
  note one = blocked_step [OF Cons.prems(1,2) this]
  have "cache_current (ls_cache (foldl cache_step (cache_step s x) xs)) = None
      \<and> set (ls_out (foldl cache_step (cache_step s x) xs)) \<subseteq> set (ls_out (cache_step s x))"
    by (rule Cons.IH) (use one Cons.prems(3) in auto)
  then show ?case using one by auto
qed simp

text \<open>C30: whatever the workers of a cohort do with their leases, in any order and with stale leases
  too, no credential is leased to more than 18 allocation attempts that have not been given back;
  and a credential whose allocation quota was reached is not leased again until the service has
  returned a different one.\<close>

theorem credential_lease_bound:
  assumes "length xs < 2 ^ 64" and "s = foldl cache_step \<lparr>ls_cache = cache_new, ls_out = []\<rparr> xs"
  shows "(\<forall>g. out_of g s \<le> WORKERS_PER_CREDENTIAL)
    \<and> (\<forall>l d ys. snd (rotate_after_quota l (ls_cache s)) = QuotaRotated d
          \<and> (\<forall>w. Store w \<in> set ys \<longrightarrow> same_turn_credentials (cl_value l) w)
        \<longrightarrow> set (ls_out (foldl cache_step s (RotateAfterQuota l # ys))) \<subseteq> set (ls_out s))"
proof (intro conjI allI impI)
  have "lease_inv (0 + length xs) s"
    unfolding assms(2) by (rule lease_inv_run [OF lease_inv_new]) (use assms(1) in simp)
  then show "out_of g s \<le> WORKERS_PER_CREDENTIAL" for g by (simp add: lease_inv_def)
next
  fix l d ys
  assume a: "snd (rotate_after_quota l (ls_cache s)) = QuotaRotated d
      \<and> (\<forall>w. Store w \<in> set ys \<longrightarrow> same_turn_credentials (cl_value l) w)"
  then obtain x where x: "cache_current (ls_cache s) = Some x" "leased x l"
    by (auto simp: rotate_after_quota_def split: option.splits if_splits)
  let ?t = "cache_step s (RotateAfterQuota l)"
  have "\<forall>w. Store w \<in> set ys \<longrightarrow> same_turn_credentials (cc_value x) w"
    using a x(2) by (auto simp: leased_def same_turn_credentials_def)
  then have "set (ls_out (foldl cache_step ?t ys)) \<subseteq> set (ls_out ?t)"
    by (intro conjunct2 [OF blocked_run]) (use x in \<open>auto simp: rotate_after_quota_def\<close>)
  then show "set (ls_out (foldl cache_step s (RotateAfterQuota l # ys))) \<subseteq> set (ls_out s)" by simp
qed

definition sample_credentials :: turn_credentials where
  "sample_credentials = \<lparr>tc_username = lit ''u'', tc_password = lit ''p'', tc_servers = [lit ''a'']\<rparr>"

lemma credential_lease_bound_witness:
  "out_of 1 (foldl cache_step \<lparr>ls_cache = cache_new, ls_out = []\<rparr>
      (Store sample_credentials # replicate 20 Reserve)) \<le> WORKERS_PER_CREDENTIAL"
  using credential_lease_bound [of "Store sample_credentials # replicate 20 Reserve", OF _ refl] by simp

section \<open>The delays of the rotation\<close>

lemma quota_rotation_delay_bounds: "100 \<le> quota_rotation_delay n \<and> quota_rotation_delay n \<le> 1500"
  by (simp add: quota_rotation_delay_def)

lemma quota_rotation_delay_mono: "m \<le> n \<Longrightarrow> quota_rotation_delay m \<le> quota_rotation_delay n"
  by (simp add: quota_rotation_delay_def)

text \<open>A call without a lease has slept at most 3.1 s, and left the lock to a later one.\<close>

lemma get_lease_sleep: "snd (snd (get_lease i g)) \<le> 3099"
  by (auto simp: get_lease_def Let_def next_quota_delay_def quota_rotation_delay_def fetch_backoff_def
      CREDENTIAL_POST_DELAY_def split: prod.split option.split fetch_answer.split bool.split)

end
