(* ===== verification/ConfigFlight.thy ===== *)
theory ConfigFlight
  imports Prelude
begin

text \<open>
  Who asks the server for the configuration: \<^verbatim>\<open>ConfigFlightGuard\<close> of \<^verbatim>\<open>backend/worker.rs\<close> and
  \<^verbatim>\<open>ConfigDeliveryState::complete\<close> of \<^verbatim>\<open>backend/session.rs\<close>, over the two flags all workers
  share. A worker takes the flight before its session and drops the guard after it; the session
  reports the end of the request through \<^verbatim>\<open>complete\<close>, which clears the flag while the guard is
  still alive. Every atomic access is a step of its own and the workers' steps interleave freely.
\<close>

section \<open>State\<close>

text \<open>
  \<open>Looked\<close>: \<^verbatim>\<open>sent\<close> was read as false and the exchange is still to come. \<open>Flying\<close> and \<open>Recording\<close>:
  the guard is \<^verbatim>\<open>acquired\<close> and the request is under way, before and inside \<^verbatim>\<open>complete\<close>. \<open>Settled\<close>:
  \<^verbatim>\<open>complete\<close> has returned and the session goes on, the guard still \<^verbatim>\<open>acquired\<close>. \<open>Without\<close>: a guard
  that is not \<^verbatim>\<open>acquired\<close>.
\<close>

datatype flight_phase = Away | Looked | Flying | Recording | Settled | Without

record flight_run =
  config_sent :: bool
  config_in_flight :: bool
  flight_phases :: "flight_phase list"
  stale_drops :: nat

definition flight_start :: "nat \<Rightarrow> flight_run" where
  "flight_start n = \<lparr>config_sent = False, config_in_flight = False,
     flight_phases = replicate n Away, stale_drops = 0\<rparr>"

datatype flight_action = LoadSent | TakeFlight | Complete bool | ClearFlight | DropGuard | RefreshSent

definition set_phase :: "nat \<Rightarrow> flight_phase \<Rightarrow> flight_run \<Rightarrow> flight_run" where
  "set_phase w p s = s\<lparr>flight_phases := (flight_phases s)[w := p]\<rparr>"

section \<open>Operations\<close>

text \<open>The two accesses of \<^verbatim>\<open>acquire\<close>: the load of \<^verbatim>\<open>sent\<close> and, if it was false, the exchange.\<close>

definition load_sent :: "nat \<Rightarrow> flight_run \<Rightarrow> flight_run" where
  "load_sent w s = set_phase w (if config_sent s then Without else Looked) s"

definition take_flight :: "nat \<Rightarrow> flight_run \<Rightarrow> flight_run" where
  "take_flight w s =
     (if config_in_flight s then set_phase w Without s
      else set_phase w Flying (s\<lparr>config_in_flight := True\<rparr>))"

text \<open>The two stores of \<^verbatim>\<open>complete\<close>.\<close>

definition complete_sent :: "nat \<Rightarrow> bool \<Rightarrow> flight_run \<Rightarrow> flight_run" where
  "complete_sent w delivered s =
     set_phase w Recording (if delivered then s\<lparr>config_sent := True\<rparr> else s)"

definition complete_flight :: "nat \<Rightarrow> flight_run \<Rightarrow> flight_run" where
  "complete_flight w s = set_phase w Settled (s\<lparr>config_in_flight := False\<rparr>)"

definition drop_guard :: "nat \<Rightarrow> flight_run \<Rightarrow> flight_run" where
  "drop_guard w s =
     (if flight_phases s ! w = Without then set_phase w Away s
      else set_phase w Away (s\<lparr>config_in_flight := False,
        stale_drops := stale_drops s + (if flight_phases s ! w = Settled then 1 else 0)\<rparr>))"

text \<open>
  One step of worker \<open>w\<close>. A session that fails before the request drops the guard while \<open>Flying\<close>;
  the refresh after a full outage comes after the worker dropped its guard.
\<close>

definition flight_step :: "flight_run \<Rightarrow> nat \<times> flight_action \<Rightarrow> flight_run" where
  "flight_step s x = (case x of (w, a) \<Rightarrow>
     if length (flight_phases s) \<le> w then s else
     (case (flight_phases s ! w, a) of
        (Away, LoadSent) \<Rightarrow> load_sent w s
      | (Away, RefreshSent) \<Rightarrow> s\<lparr>config_sent := False\<rparr>
      | (Looked, TakeFlight) \<Rightarrow> take_flight w s
      | (Flying, Complete d) \<Rightarrow> complete_sent w d s
      | (Recording, ClearFlight) \<Rightarrow> complete_flight w s
      | (Flying, DropGuard) \<Rightarrow> drop_guard w s
      | (Settled, DropGuard) \<Rightarrow> drop_guard w s
      | (Without, DropGuard) \<Rightarrow> drop_guard w s
      | _ \<Rightarrow> s))"

section \<open>Flights\<close>

definition requesting :: "flight_phase \<Rightarrow> bool" where
  "requesting p = (p = Flying \<or> p = Recording)"

definition flights :: "flight_run \<Rightarrow> nat" where
  "flights s = length (filter requesting (flight_phases s))"

lemma set_phase_simps [simp]:
  "config_sent (set_phase w p s) = config_sent s"
  "config_in_flight (set_phase w p s) = config_in_flight s"
  "stale_drops (set_phase w p s) = stale_drops s"
  "flight_phases (set_phase w p s) = (flight_phases s)[w := p]"
  by (simp_all add: set_phase_def)

lemma flights_set_phase:
  assumes "w < length (flight_phases s)"
  shows "flights (set_phase w p s) + (if requesting (flight_phases s ! w) then 1 else 0)
    = flights s + (if requesting p then 1 else 0)"
  using length_filter_update [OF assms, of requesting p] by (simp add: flights_def)

lemma flights_pos: "w < length (flight_phases s) \<Longrightarrow> requesting (flight_phases s ! w) \<Longrightarrow> 0 < flights s"
  using nth_mem [of w "flight_phases s"] by (auto simp: flights_def filter_empty_conv)

lemma flights_cong [simp]:
  "flights (s\<lparr>config_sent := b\<rparr>) = flights s" "flights (s\<lparr>config_in_flight := b\<rparr>) = flights s"
  "flights (s\<lparr>stale_drops := n\<rparr>) = flights s"
  by (simp_all add: flights_def)

definition flight_inv :: "flight_run \<Rightarrow> bool" where
  "flight_inv s = (flights s \<le> (if config_in_flight s then 1 else 0) + stale_drops s
     \<and> (config_in_flight s \<longrightarrow> 0 < flights s))"

lemma flight_inv_step: "flight_inv s \<Longrightarrow> flight_inv (flight_step s x)"
proof -
  assume inv: "flight_inv s"
  obtain w a where x: "x = (w, a)" by (cases x)
  show ?thesis
  proof (cases "w < length (flight_phases s)")
    case True
    have n: "flights (set_phase w p t) + (if requesting (flight_phases s ! w) then 1 else 0)
        = flights t + (if requesting p then 1 else 0)" if "flight_phases t = flight_phases s" for p t
      using flights_set_phase [of w t p] True that by simp
    have n0: "\<not> requesting (flight_phases s ! w) \<Longrightarrow> flight_phases t = flight_phases s
        \<Longrightarrow> flights (set_phase w p t) = flights t + (if requesting p then 1 else 0)" for p t
      using n [of t p] by simp
    have n1: "requesting (flight_phases s ! w) \<Longrightarrow> flight_phases t = flight_phases s
        \<Longrightarrow> flights (set_phase w p t) = flights t - (if requesting p then 0 else 1) \<and> 0 < flights t" for p t
      using n [of t p] flights_pos [of w t] True by (auto split: if_splits)
    show ?thesis
      using inv True n0 n1 unfolding x
      by (cases "flight_phases s ! w"; cases a)
        (auto simp: flight_step_def flight_inv_def load_sent_def take_flight_def complete_sent_def
          complete_flight_def drop_guard_def requesting_def split: if_splits)
  qed (use inv x in \<open>simp add: flight_step_def\<close>)
qed

lemma flight_inv_run: "flight_inv s \<Longrightarrow> flight_inv (foldl flight_step s xs)"
  by (induction xs arbitrary: s) (auto intro: flight_inv_step)

definition two_flights :: "(nat \<times> flight_action) list" where
  "two_flights = [(0, LoadSent), (0, TakeFlight), (0, Complete False), (0, ClearFlight),
     (1, LoadSent), (1, TakeFlight), (0, DropGuard), (2, LoadSent), (2, TakeFlight)]"

lemma two_flights_run: "flights (foldl flight_step (flight_start 3) two_flights) = 2"
  by code_simp

text \<open>C33: however the workers interleave, the flag is never left set with no request under way, and
  requests run at the same time only after a guard whose request had already ended was dropped: at
  most one more per such drop. The exclusion itself fails: one worker's request ends without a
  configuration, a second one takes the flight, the first worker's session ends and its guard
  clears the flag again, and a third worker takes a second flight at the same time.\<close>

theorem config_flight_stale_drop:
  "(let s = foldl flight_step (flight_start n) xs in
     flights s \<le> 1 + stale_drops s \<and> (config_in_flight s \<longrightarrow> 0 < flights s))
   \<and> flights (foldl flight_step (flight_start 3) two_flights) = 2"
proof -
  have "flight_inv (flight_start n)" by (simp add: flight_inv_def flight_start_def flights_def requesting_def)
  from flight_inv_run [OF this, of xs]
  have "flights s \<le> 1 + stale_drops s \<and> (config_in_flight s \<longrightarrow> 0 < flights s)"
    if "s = foldl flight_step (flight_start n) xs" for s
    using that by (auto simp: flight_inv_def split: if_splits)
  then show ?thesis using two_flights_run by (simp add: Let_def)
qed

lemma config_flight_stale_drop_witness:
  "flights (foldl flight_step (flight_start 3) [(0, LoadSent), (0, TakeFlight)])
     \<le> 1 + stale_drops (foldl flight_step (flight_start 3) [(0, LoadSent), (0, TakeFlight)])"
  using config_flight_stale_drop [of 3 "[(0, LoadSent), (0, TakeFlight)]"] by (simp only: Let_def)

text \<open>A delivered configuration is not asked for again by a worker that looks afterwards.\<close>

lemma delivered_blocks_new_flights:
  assumes "config_sent s" "w < length (flight_phases s)" "flight_phases s ! w = Away"
  shows "flight_phases (flight_step s (w, LoadSent)) ! w = Without"
  using assms by (simp add: flight_step_def load_sent_def)

end
