(* ===== verification/WorkerGates.thy ===== *)
theory WorkerGates
  imports Machine
begin

text \<open>
  The gates of \<^verbatim>\<open>backend/worker.rs\<close>: the rate limiter of the recovery messages
  (\<^verbatim>\<open>RecoveryLogGate\<close>), the pause of the workers (\<^verbatim>\<open>PauseGate\<close>) and the pacer of their starts
  (\<^verbatim>\<open>WorkerStartPacer\<close>).
\<close>

section \<open>The recovery messages\<close>

text \<open>
  Any number of callers are inside \<^verbatim>\<open>observe\<close> at once; each atomic access is a step. A caller
  has not counted yet, has counted, has loaded a deadline that has passed, has moved the deadline
  or has returned.
\<close>

definition RECOVERY_LOG_INTERVAL_MS :: u64 where
  "RECOVERY_LOG_INTERVAL_MS = 10000"

definition saturating_add_u64 :: "u64 \<Rightarrow> u64 \<Rightarrow> u64" where
  "saturating_add_u64 a b = (if unat a + unat b < 2 ^ 64 then a + b else - 1)"

lemma unat_max_u64: "unat (- 1 :: u64) = 2 ^ 64 - 1"
  by (simp add: unsigned_minus_1_eq_mask mask_eq_exp_minus_1)

lemma unat_saturating_add_u64: "unat (saturating_add_u64 a b) = min (unat a + unat b) (2 ^ 64 - 1)"
  by (auto simp: saturating_add_u64_def unat_word_ariths unat_max_u64)

datatype observer = Fresh u64 | Counted u64 | Expired u64 u64 | Moved u64 | Observed "u64 option"

text \<open>\<open>report_times\<close> is a history: the times of the callers that moved the deadline, latest first.\<close>

record log_gate =
  log_pending :: u64
  next_report_ms :: u64
  observers :: "observer list"
  report_times :: "u64 list"

definition log_gate_init :: "log_gate \<Rightarrow> bool" where
  "log_gate_init s = (log_pending s = 0 \<and> next_report_ms s = 0 \<and> report_times s = []
     \<and> (\<forall>p \<in> set (observers s). \<exists>t. p = Fresh t))"

definition set_observer :: "nat \<Rightarrow> observer \<Rightarrow> log_gate \<Rightarrow> log_gate" where
  "set_observer i p s = s\<lparr>observers := (observers s)[i := p]\<rparr>"

definition observing :: "log_gate \<Rightarrow> nat \<Rightarrow> observer \<Rightarrow> bool" where
  "observing s i p = (i < length (observers s) \<and> observers s ! i = p)"

definition report_deadline :: "u64 \<Rightarrow> u64" where
  "report_deadline t = max (saturating_add_u64 t RECOVERY_LOG_INTERVAL_MS) 1"

inductive observe_step :: "log_gate \<Rightarrow> log_gate \<Rightarrow> bool" where
  count_one: "observing s i (Fresh t) \<Longrightarrow>
    observe_step s (set_observer i (Counted t) (s\<lparr>log_pending := log_pending s + 1\<rparr>))"
| too_early: "observing s i (Counted t) \<Longrightarrow> next_report_ms s \<noteq> 0 \<Longrightarrow> t < next_report_ms s \<Longrightarrow>
    observe_step s (set_observer i (Observed None) s)"
| due: "observing s i (Counted t) \<Longrightarrow> next_report_ms s = 0 \<or> next_report_ms s \<le> t \<Longrightarrow>
    observe_step s (set_observer i (Expired t (next_report_ms s)) s)"
| exchanged: "observing s i (Expired t d) \<Longrightarrow> next_report_ms s = d \<Longrightarrow>
    observe_step s (set_observer i (Moved t)
      (s\<lparr>next_report_ms := report_deadline t, report_times := t # report_times s\<rparr>))"
| beaten: "observing s i (Expired t d) \<Longrightarrow> next_report_ms s \<noteq> d \<Longrightarrow>
    observe_step s (set_observer i (Counted t) s)"
| reported: "observing s i (Moved t) \<Longrightarrow>
    observe_step s (set_observer i (Observed (Some (log_pending s))) (s\<lparr>log_pending := 0\<rparr>))"

inductive_cases observe_stepE: "observe_step s t"

text \<open>The calls that have counted, and the sum of what the finished ones reported.\<close>

definition counted_of :: "observer \<Rightarrow> nat" where
  "counted_of p = (case p of Fresh _ \<Rightarrow> 0 | _ \<Rightarrow> 1)"

definition reported_of :: "observer \<Rightarrow> nat" where
  "reported_of p = (case p of Observed (Some n) \<Rightarrow> unat n | _ \<Rightarrow> 0)"

definition calls :: "log_gate \<Rightarrow> nat" where
  "calls s = sum_list (map counted_of (observers s))"

definition reports :: "log_gate \<Rightarrow> nat" where
  "reports s = sum_list (map reported_of (observers s))"

lemma calls_le: "calls s \<le> length (observers s)"
proof -
  have "sum_list (map counted_of xs) \<le> length xs" for xs
    by (induction xs) (auto simp: counted_of_def split: observer.split)
  then show ?thesis by (simp add: calls_def)
qed

lemma set_observer_sums:
  assumes "observing s i p"
  shows "calls (set_observer i q s) + counted_of p = calls s + counted_of q"
    and "reports (set_observer i q s) + reported_of p = reports s + reported_of q"
  using assms sum_map_update [of i "observers s" counted_of q] sum_map_update [of i "observers s" reported_of q]
  by (simp_all add: calls_def reports_def set_observer_def observing_def)

lemma set_observer_same:
  assumes "observing s i p" "counted_of p = counted_of q" "reported_of p = reported_of q"
  shows "calls (set_observer i q s) = calls s" "reports (set_observer i q s) = reports s"
  using set_observer_sums [OF assms(1), of q] assms(2,3) by simp_all

lemma set_observer_simps [simp]:
  "log_pending (set_observer i p s) = log_pending s"
  "next_report_ms (set_observer i p s) = next_report_ms s"
  "report_times (set_observer i p s) = report_times s"
  "observers (set_observer i p s) = (observers s)[i := p]"
  by (simp_all add: set_observer_def)

lemma gate_sums_cong [simp]:
  "calls (s\<lparr>log_pending := x\<rparr>) = calls s" "reports (s\<lparr>log_pending := x\<rparr>) = reports s"
  "calls (s\<lparr>next_report_ms := y, report_times := z\<rparr>) = calls s"
  "reports (s\<lparr>next_report_ms := y, report_times := z\<rparr>) = reports s"
  "observing (s\<lparr>log_pending := x\<rparr>) = observing s"
  "observing (s\<lparr>next_report_ms := y, report_times := z\<rparr>) = observing s"
  by (simp_all add: calls_def reports_def observing_def fun_eq_iff)

text \<open>Consecutive reports, the later one first, are an interval apart.\<close>

fun spaced_reports :: "u64 list \<Rightarrow> bool" where
  "spaced_reports (t # u # ts) = (report_deadline u \<le> t \<and> spaced_reports (u # ts))"
| "spaced_reports _ = True"

definition log_gate_inv :: "log_gate \<Rightarrow> bool" where
  "log_gate_inv s = (spaced_reports (report_times s)
     \<and> next_report_ms s = (case report_times s of [] \<Rightarrow> 0 | t # _ \<Rightarrow> report_deadline t)
     \<and> (\<forall>t d. Expired t d \<in> set (observers s) \<longrightarrow> d = 0 \<or> d \<le> t)
     \<and> length (observers s) < 2 ^ 64
     \<and> unat (log_pending s) + reports s = calls s)"

lemma report_deadline_pos: "report_deadline t \<noteq> 0"
  by (auto simp: report_deadline_def max_def)

lemma observing_mem: "observing s i p \<Longrightarrow> p \<in> set (observers s)"
  by (auto simp: observing_def)

lemma expired_update:
  "Expired t d \<in> set (xs[i := p]) \<Longrightarrow> Expired t d \<in> set xs \<or> p = Expired t d"
  using set_update_subset_insert [of xs i p] by auto

lemma log_gate_inv_sums:
  assumes "log_gate_inv s" "observe_step s t"
  shows "unat (log_pending t) + reports t = calls t"
proof -
  have s: "unat (log_pending s) + reports s = calls s" using assms(1) by (simp add: log_gate_inv_def)
  from assms(2) show ?thesis
  proof cases
    case (count_one i u)
    note sums = set_observer_sums [OF count_one(2), of "Counted u"]
    have "calls (set_observer i (Counted u) s) \<le> length (observers s)"
      using calls_le [of "set_observer i (Counted u) s"] by simp
    with sums s have "unat (log_pending s) + 1 < 2 ^ 64"
      using assms(1) by (simp add: log_gate_inv_def counted_of_def reported_of_def)
    then have "unat (log_pending s + 1) = unat (log_pending s) + 1"
      by (simp add: unat_word_ariths)
    moreover have "calls t = calls (set_observer i (Counted u) s)" "reports t = reports (set_observer i (Counted u) s)"
      using count_one(1) by (simp_all add: calls_def reports_def)
    ultimately show ?thesis
      using sums s count_one(1) by (simp add: counted_of_def reported_of_def)
  next
    case (reported i u)
    note sums = set_observer_sums [OF reported(2), of "Observed (Some (log_pending s))"]
    moreover have "calls t = calls (set_observer i (Observed (Some (log_pending s))) s)"
      "reports t = reports (set_observer i (Observed (Some (log_pending s))) s)"
      using reported(1) by (simp_all add: calls_def reports_def)
    ultimately show ?thesis
      using s reported(1) by (simp add: counted_of_def reported_of_def)
  next
    case (exchanged i u d)
    note sums = set_observer_sums [OF exchanged(2), of "Moved u"]
    moreover have "calls t = calls (set_observer i (Moved u) s)" "reports t = reports (set_observer i (Moved u) s)"
      using exchanged(1) by (simp_all add: calls_def reports_def)
    ultimately show ?thesis
      using s exchanged(1) by (simp add: counted_of_def reported_of_def)
  qed (use s in \<open>simp_all add: set_observer_same counted_of_def reported_of_def\<close>)
qed

lemma log_gate_inv_step: "log_gate_inv s \<Longrightarrow> observe_step s t \<Longrightarrow> log_gate_inv t"
proof -
  assume inv: "log_gate_inv s" and step: "observe_step s t"
  have "spaced_reports (report_times t)
     \<and> next_report_ms t = (case report_times t of [] \<Rightarrow> 0 | t # _ \<Rightarrow> report_deadline t)"
    using step
  proof cases
    case (exchanged i u d)
    have "d = 0 \<or> d \<le> u"
      using inv observing_mem [OF exchanged(2)] by (simp add: log_gate_inv_def)
    then have "report_times s = [] \<or> report_deadline (hd (report_times s)) \<le> u"
      using inv exchanged(3) report_deadline_pos
      by (auto simp: log_gate_inv_def split: list.splits)
    then show ?thesis
      using inv exchanged(1) by (cases "report_times s") (auto simp: log_gate_inv_def)
  qed (use inv in \<open>simp_all add: log_gate_inv_def\<close>)
  moreover have "\<forall>u d. Expired u d \<in> set (observers t) \<longrightarrow> d = 0 \<or> d \<le> u"
    using step inv by cases (auto simp: log_gate_inv_def dest!: expired_update)
  moreover have "length (observers t) < 2 ^ 64"
    using step inv by cases (auto simp: log_gate_inv_def)
  ultimately show ?thesis
    using log_gate_inv_sums [OF inv step] by (simp add: log_gate_inv_def)
qed

interpretation log_gate: transition_system
    "\<lambda>s. log_gate_init s \<and> length (observers s) < 2 ^ 64" observe_step log_gate_inv
proof
  fix s assume init: "log_gate_init s \<and> length (observers s) < 2 ^ 64"
  have "sum_list (map counted_of xs) = 0 \<and> sum_list (map reported_of xs) = 0"
    if "\<forall>p \<in> set xs. \<exists>t. p = Fresh t" for xs
    using that by (induction xs) (auto simp: counted_of_def reported_of_def)
  then have "sum_list (map counted_of (observers s)) = 0 \<and> sum_list (map reported_of (observers s)) = 0"
    using init by (simp add: log_gate_init_def del: sum_list_eq_0_iff)
  with init show "log_gate_inv s"
    by (auto simp: log_gate_init_def log_gate_inv_def calls_def reports_def simp del: sum_list_eq_0_iff)
qed (rule log_gate_inv_step)

text \<open>when any number of workers fail at once, every failure is either still pending or in exactly
  one of the recovery messages, and a message is only printed ten seconds or more after the one
  before it (by the caller's clock, up to the end of the clock's range).\<close>

theorem recovery_log_accounts:
  assumes "log_gate_init s0" "length (observers s0) < 2 ^ 64"
    and "reach (\<lambda>s. s = s0) observe_step s"
  shows "unat (log_pending s) + reports s = calls s
    \<and> (\<forall>k. Suc k < length (report_times s) \<longrightarrow>
         min (unat (report_times s ! Suc k) + 10000) (2 ^ 64 - 1) \<le> unat (report_times s ! k))"
proof -
  have "reach (\<lambda>s. log_gate_init s \<and> length (observers s) < 2 ^ 64) observe_step s"
    using assms(3) by induction (use assms(1,2) in \<open>auto intro: reach.intros\<close>)
  then have inv: "log_gate_inv s" by (rule log_gate.reach_inv)
  have "Suc k < length ts \<Longrightarrow> report_deadline (ts ! Suc k) \<le> ts ! k" if "spaced_reports ts" for ts k
    using that by (induction ts arbitrary: k rule: spaced_reports.induct) (auto simp: nth_Cons split: nat.splits)
  moreover have "min (unat t + 10000) (2 ^ 64 - 1) \<le> unat (report_deadline t)" for t
    by (simp add: report_deadline_def RECOVERY_LOG_INTERVAL_MS_def max_def unat_saturating_add_u64
        word_le_nat_alt)
  ultimately show ?thesis
    using inv by (auto simp: log_gate_inv_def word_le_nat_alt intro: order_trans)
qed

definition two_callers :: log_gate where
  "two_callers = \<lparr>log_pending = 0, next_report_ms = 0, observers = [Fresh 5, Fresh 6], report_times = []\<rparr>"

lemma recovery_log_accounts_witness:
  "\<exists>s. log_pending s = 1 \<and> unat (log_pending s) + reports s = calls s"
proof -
  let ?t = "set_observer 0 (Counted 5) (two_callers\<lparr>log_pending := 1\<rparr>)"
  have "observe_step two_callers ?t"
    using count_one [of two_callers 0 5] by (simp add: two_callers_def observing_def)
  then have "reach (\<lambda>s. s = two_callers) observe_step ?t"
    by (rule reach_step [rotated]) (rule reach_init, rule refl)
  from recovery_log_accounts [OF _ _ this]
  have "unat (log_pending ?t) + reports ?t = calls ?t"
    by (simp add: two_callers_def log_gate_init_def)
  then show ?thesis by (intro exI [of _ ?t]) simp
qed

section \<open>The pause\<close>

text \<open>
  A waiter reads the flag before each wait; a wait ends with the cancellation, a notification or
  the 250 ms timer. The script lists, per turn of the loop, what the flag was and how the wait
  ended and after how long; the result has the total time. \<open>None\<close>: still waiting at its end.
\<close>

datatype pause_wake = PauseCancelled nat | PauseChanged nat | PausePolled

definition set_paused :: "bool \<Rightarrow> bool \<Rightarrow> bool \<times> bool" where
  "set_paused old new = (new, old \<noteq> new)"

fun wait_until_resumed :: "(bool \<times> pause_wake) list \<Rightarrow> nat \<Rightarrow> (bool \<times> nat) option" where
  "wait_until_resumed [] t = None"
| "wait_until_resumed ((paused, wake) # rest) t =
     (if \<not> paused then Some (True, t)
      else (case wake of
          PauseCancelled d \<Rightarrow> Some (False, t + d)
        | PauseChanged d \<Rightarrow> wait_until_resumed rest (t + d)
        | PausePolled \<Rightarrow> wait_until_resumed rest (t + 250)))"

text \<open>From the time \<open>T\<close> on the gate reads as open, and no wait is longer than its timer.\<close>

fun open_from :: "nat \<Rightarrow> (bool \<times> pause_wake) list \<Rightarrow> nat \<Rightarrow> bool" where
  "open_from T [] t = True"
| "open_from T ((paused, wake) # rest) t =
     ((T \<le> t \<longrightarrow> \<not> paused) \<and> (case wake of
        PauseCancelled d \<Rightarrow> d \<le> 250
      | PauseChanged d \<Rightarrow> d \<le> 250 \<and> open_from T rest (t + d)
      | PausePolled \<Rightarrow> open_from T rest (t + 250)))"

text \<open>A worker returns within 250 ms of the resume, even when every notification is lost.\<close>

lemma resumed_in_time:
  "open_from T xs t \<Longrightarrow> wait_until_resumed xs t = Some (b, r) \<Longrightarrow> r \<le> max t (T + 250)"
proof (induction xs arbitrary: t)
  case (Cons x xs)
  obtain paused wake where x: "x = (paused, wake)" by (cases x)
  from Cons.prems show ?case
    using Cons.IH [of "t + 250"] Cons.IH unfolding x
    by (cases wake; cases paused) (fastforce simp: not_le)+
qed simp

section \<open>The starts\<close>

text \<open>
  The mutex serves the callers one after another. \<open>pacer_wait\<close> is one caller's turn: whether
  the cancellation came while it queued for the lock, the time it got the lock, and whether the
  cancellation came while it slept. The slot is the time the sleep ends.
\<close>

definition WORKER_START_INTERVAL :: nat where
  "WORKER_START_INTERVAL = 100"

record pacer_call =
  cancelled_queued :: bool
  locked_at :: nat
  cancelled_asleep :: bool

definition pacer_wait :: "nat \<Rightarrow> pacer_call \<Rightarrow> nat \<Rightarrow> nat \<times> nat option" where
  "pacer_wait interval c free =
     (if cancelled_queued c then (free, None)
      else (let scheduled = max free (locked_at c) in
        if cancelled_asleep c then (free, None)
        else (scheduled + interval, Some scheduled)))"

fun pacer_slots :: "nat \<Rightarrow> nat \<Rightarrow> pacer_call list \<Rightarrow> nat list" where
  "pacer_slots interval free [] = []"
| "pacer_slots interval free (c # cs) = (case pacer_wait interval c free of
     (free', None) \<Rightarrow> pacer_slots interval free' cs
   | (free', Some slot) \<Rightarrow> slot # pacer_slots interval free' cs)"

lemma pacer_slots_spaced:
  "(\<forall>k < length (pacer_slots i t cs). t + k * i \<le> pacer_slots i t cs ! k)
   \<and> (\<forall>k. Suc k < length (pacer_slots i t cs) \<longrightarrow>
        pacer_slots i t cs ! k + i \<le> pacer_slots i t cs ! Suc k)"
proof (induction cs arbitrary: t)
  case (Cons c cs)
  show ?case
  proof (cases "snd (pacer_wait i c t)")
    case None
    then show ?thesis using Cons.IH by (auto simp: pacer_wait_def Let_def split: if_splits)
  next
    case (Some slot)
    then have w: "pacer_wait i c t = (slot + i, Some slot)" "t \<le> slot"
      by (auto simp: pacer_wait_def Let_def split: if_splits)
    note ih = Cons.IH [of "slot + i"]
    have "t + k * i \<le> (slot # pacer_slots i (slot + i) cs) ! k"
      if "k < Suc (length (pacer_slots i (slot + i) cs))" for k
      using that ih w(2) by (cases k) (fastforce simp: algebra_simps)+
    moreover have "(slot # pacer_slots i (slot + i) cs) ! k + i \<le> (slot # pacer_slots i (slot + i) cs) ! Suc k"
      if "Suc k < Suc (length (pacer_slots i (slot + i) cs))" for k
      using that ih by (cases k) fastforce+
    ultimately show ?thesis by (simp add: w(1))
  qed
qed simp

text \<open>workers start one at a time, a start interval or more apart, no matter how many ask at once
  and which of them are cancelled; a cancelled worker takes no slot away, so the others start
  exactly as if it had never asked.\<close>

theorem starts_paced:
  "(\<forall>k. Suc k < length (pacer_slots i t cs) \<longrightarrow>
       pacer_slots i t cs ! k + i \<le> pacer_slots i t cs ! Suc k)
   \<and> pacer_slots i t cs = pacer_slots i t (filter (\<lambda>c. \<not> cancelled_queued c \<and> \<not> cancelled_asleep c) cs)"
proof
  show "\<forall>k. Suc k < length (pacer_slots i t cs) \<longrightarrow> pacer_slots i t cs ! k + i \<le> pacer_slots i t cs ! Suc k"
    using pacer_slots_spaced by blast
  show "pacer_slots i t cs = pacer_slots i t (filter (\<lambda>c. \<not> cancelled_queued c \<and> \<not> cancelled_asleep c) cs)"
    by (induction cs arbitrary: t) (auto simp: pacer_wait_def Let_def)
qed

lemma starts_paced_witness:
  "pacer_slots 100 0 [\<lparr>cancelled_queued = False, locked_at = 0, cancelled_asleep = False\<rparr>,
     \<lparr>cancelled_queued = False, locked_at = 0, cancelled_asleep = False\<rparr>] ! 1 \<ge> 100"
  using starts_paced [of 100 0 "[\<lparr>cancelled_queued = False, locked_at = 0, cancelled_asleep = False\<rparr>,
     \<lparr>cancelled_queued = False, locked_at = 0, cancelled_asleep = False\<rparr>]"]
  by (auto simp: pacer_wait_def)

text \<open>All 126 workers that ask at once have started after 12.5 seconds.\<close>

lemma all_starts:
  "pacer_slots i t (replicate n \<lparr>cancelled_queued = False, locked_at = t0, cancelled_asleep = False\<rparr>)
     = map (\<lambda>k. t + k * i) [0..<n]" if "t0 \<le> t"
  using that
proof (induction n arbitrary: t)
  case (Suc n)
  then show ?case
    by (simp add: pacer_wait_def max_def map_upt_Suc algebra_simps del: upt_Suc)
qed simp

end
