(* ===== verification/WorkerRetry.thy ===== *)
theory WorkerRetry
  imports Strings Credentials
begin

text \<open>
  What a worker does after its session has ended (\<^verbatim>\<open>worker_loop\<close> of \<^verbatim>\<open>backend/worker.rs\<close> after
  \<^verbatim>\<open>run_session\<close>): the classification of the error, the next delay, and what happens to the
  leased credential. Times are in milliseconds.
\<close>

section \<open>Errors\<close>

text \<open>
  What the worker reads of an \<^verbatim>\<open>anyhow::Error\<close>: its text \<^verbatim>\<open>{}\<close>, the text \<^verbatim>\<open>{:#}\<close> with all causes,
  and the chain of causes with the types it can be downcast to. A \<^verbatim>\<open>TurnAllocateError\<close> holds the
  chain of the error it wraps, whose causes follow it in the chain.
\<close>

datatype io_kind = ConnectionReset | ConnectionAborted | BrokenPipe | OtherKind

datatype cause =
    TurnRequestCause int
  | TurnAllocateCause "cause list"
  | IoCause "int option" io_kind
  | OtherCause

record run_error =
  err_display :: str_text
  err_alternate :: str_text
  err_chain :: "cause list"

text \<open>What anyhow documents of \<^verbatim>\<open>error.context(text)\<close>: \<^verbatim>\<open>{}\<close> prints the context only, \<^verbatim>\<open>{:#}\<close> the
  context and the causes, and the chain keeps them.\<close>

definition context_of :: "str_text \<Rightarrow> run_error \<Rightarrow> run_error \<Rightarrow> bool" where
  "context_of c e e' =
     (err_display e' = c \<and> err_alternate e' = c @ lit '': '' @ err_alternate e
      \<and> err_chain e' = OtherCause # err_chain e)"

fun find_map :: "('a \<Rightarrow> 'b option) \<Rightarrow> 'a list \<Rightarrow> 'b option" where
  "find_map f [] = None"
| "find_map f (x # xs) = (case f x of Some y \<Rightarrow> Some y | None \<Rightarrow> find_map f xs)"

definition request_code :: "cause \<Rightarrow> int option" where
  "request_code c = (case c of TurnRequestCause code \<Rightarrow> Some code | _ \<Rightarrow> None)"

text \<open>\<^verbatim>\<open>TurnAllocateError::stun_code\<close>.\<close>

definition allocate_error_code :: "cause list \<Rightarrow> int option" where
  "allocate_error_code chain = find_map request_code chain"

definition turn_allocate_stun_code :: "run_error \<Rightarrow> int option" where
  "turn_allocate_stun_code e =
     find_map (\<lambda>c. case c of TurnAllocateCause inner \<Rightarrow> allocate_error_code inner | _ \<Rightarrow> None) (err_chain e)"

definition turn_stun_code :: "run_error \<Rightarrow> int option" where
  "turn_stun_code e = find_map request_code (err_chain e)"

section \<open>Classification\<close>

definition is_turn_allocation_quota :: "run_error \<Rightarrow> str_text \<Rightarrow> bool" where
  "is_turn_allocation_quota e message =
     (turn_allocate_stun_code e = Some 486
      \<or> contains message (lit ''turn allocate'')
        \<and> contains_any message [lit ''stun error 486'', lit ''allocation quota reached'', lit ''quota reached''])"

definition is_turn_allocation_mismatch :: "run_error \<Rightarrow> str_text \<Rightarrow> bool" where
  "is_turn_allocation_mismatch e message =
     (if turn_stun_code e = Some 437 then True
      else if turn_stun_code e = Some 400 then contains message (lit ''channelbind'')
      else contains message (lit ''stun error 437'')
        \<or> contains message (lit ''stun error 400'') \<and> contains message (lit ''channelbind''))"

definition should_invalidate_turn_credentials :: "run_error \<Rightarrow> str_text \<Rightarrow> bool" where
  "should_invalidate_turn_credentials e message =
     (case turn_stun_code e of
        Some code \<Rightarrow> code \<in> {401, 438, 441}
      | None \<Rightarrow> contains message (lit ''turn '')
          \<and> contains_any message [lit ''stun error 401'', lit ''stun error 438'', lit ''stun error 441'',
              lit ''unauthorized'', lit ''wrong credential'', lit ''authentication failed''])"

text \<open>\<^verbatim>\<open>match_indices\<close> looks for the needle again after each occurrence: \<open>skip\<close> counts the
  characters of the last one still ahead.\<close>

fun contains_code_at :: "str_text \<Rightarrow> nat \<Rightarrow> str_text \<Rightarrow> bool" where
  "contains_code_at needle skip [] = False"
| "contains_code_at needle skip (c # s) =
     (if 0 < skip then contains_code_at needle (skip - 1) s
      else if starts_with (c # s) needle then
        (case drop (length needle) (c # s) of [] \<Rightarrow> True | d # _ \<Rightarrow> \<not> is_digit d)
        \<or> contains_code_at needle (length needle - 1) s
      else contains_code_at needle 0 s)"

definition contains_os_error_code :: "str_text \<Rightarrow> nat \<Rightarrow> bool" where
  "contains_os_error_code message code = contains_code_at (lit ''os error '' @ text_decimal code) 0 message"

lemma contains_code_at_contains: "contains_code_at needle k s \<Longrightarrow> contains s needle"
  by (induction needle k s rule: contains_code_at.induct) (auto split: if_splits)

lemma contains_code_prefix: "contains_os_error_code s code \<Longrightarrow> contains s (lit ''os error'')"
proof -
  assume "contains_os_error_code s code"
  then have "contains s (lit ''os error '' @ text_decimal code)"
    unfolding contains_os_error_code_def by (rule contains_code_at_contains)
  moreover have "lit ''os error '' = lit ''os error'' @ [32]" by (simp add: lit_def)
  ultimately show ?thesis unfolding contains_iff by (metis append.assoc)
qed

definition network_codes :: "nat list" where
  "network_codes = [100, 101, 113, 10050, 10051, 10065]"

definition is_local_network_down :: "run_error \<Rightarrow> bool" where
  "is_local_network_down e =
     (if \<exists>c \<in> set (err_chain e). case c of IoCause (Some code) _ \<Rightarrow> code \<in> int ` set network_codes | _ \<Rightarrow> False
      then True
      else let message = to_ascii_lowercase (err_alternate e) in
        contains_any message [lit ''network is unreachable'', lit ''network is down'', lit ''no route to host'',
          lit ''no route to network'', lit ''enetunreach'', lit ''enetdown'', lit ''ehostunreach'']
        \<or> list_ex (contains_os_error_code message) network_codes)"

definition is_remote_tcp_stream_reset :: "run_error \<Rightarrow> str_text \<Rightarrow> bool" where
  "is_remote_tcp_stream_reset e message =
     ((\<exists>c \<in> set (err_chain e). case c of IoCause _ kind \<Rightarrow> kind \<noteq> OtherKind | _ \<Rightarrow> False)
      \<or> contains_any message [lit ''connection reset by peer'', lit ''connection aborted'', lit ''broken pipe''])"

definition is_transport_timeout :: "str_text \<Rightarrow> bool" where
  "is_transport_timeout message =
     contains_any message [lit ''transaction timeout'', lit ''request timeout'', lit ''i/o timeout'',
       lit ''timed out'', lit ''deadline has elapsed'']"

section \<open>Delays\<close>

definition worker_retry_delay_with_jitter :: "nat \<Rightarrow> nat \<Rightarrow> nat" where
  "worker_retry_delay_with_jitter attempt jitter =
     (let shift = min (attempt - 1) 4; base = min (250 * 2 ^ shift) 4000
      in base + min jitter 250)"

definition worker_retry_delay :: "nat \<Rightarrow> nat \<Rightarrow> nat" where
  "worker_retry_delay attempt r = worker_retry_delay_with_jitter attempt (r mod 251)"

definition tcp_stream_retry_delay :: "nat \<Rightarrow> nat" where
  "tcp_stream_retry_delay attempt = quota_rotation_delay (attempt - 1)"

lemma worker_retry_delay_bounds:
  "250 \<le> worker_retry_delay_with_jitter a j \<and> worker_retry_delay_with_jitter a j \<le> 4250"
proof -
  have "250 \<le> min (250 * (p::nat)) 4000 + min j 250 \<and> min (250 * p) 4000 + min j 250 \<le> 4250" if "1 \<le> p" for p
    using that by auto
  then show ?thesis by (simp add: worker_retry_delay_with_jitter_def Let_def)
qed

lemma worker_retry_delay_mono:
  assumes "a \<le> b"
  shows "worker_retry_delay_with_jitter a j \<le> worker_retry_delay_with_jitter b j"
proof -
  have "(2::nat) ^ min (a - 1) 4 \<le> 2 ^ min (b - 1) 4"
    by (rule power_increasing) (use assms in auto)
  then have "min (250 * 2 ^ min (a - 1) 4) 4000 \<le> min (250 * 2 ^ min (b - 1) 4) (4000::nat)"
    by (intro min.mono mult_le_mono2 order_refl)
  then show ?thesis by (simp add: worker_retry_delay_with_jitter_def Let_def del: min.bounded_iff)
qed

lemma worker_retry_delay_values:
  "worker_retry_delay_with_jitter 0 j = 250 + min j 250" "worker_retry_delay_with_jitter 1 j = 250 + min j 250"
  "4 < a \<Longrightarrow> worker_retry_delay_with_jitter a j = 4000 + min j 250"
  by (simp_all add: worker_retry_delay_with_jitter_def)

lemma tcp_stream_retry_delay_bounds: "100 \<le> tcp_stream_retry_delay a \<and> tcp_stream_retry_delay a \<le> 1500"
  using quota_rotation_delay_bounds [of "a - 1"] by (simp add: tcp_stream_retry_delay_def)

section \<open>The end of a session\<close>

text \<open>The random draws of one turn, the messages that pass a recovery gate, and the turn's input.\<close>

datatype retry_draw =
    DrawInitial | DrawRepair | DrawRebind | DrawAttempt | DrawInvalid | DrawQuota | DrawMismatch
  | DrawNetwork | DrawFatal | DrawGetconf | DrawSocket

datatype retry_note =
    NetworkTimeoutEvent | NetworkRecovery | WrapTimeoutRecovery | GetconfTimeoutRecovery
  | TurnTimeoutRecovery | ConfigurationRefresh

record session_end =
  se_error :: "run_error option"
  se_ready :: bool
  se_active_connections :: int
  se_cancelled :: bool
  se_unavailable :: bool
  se_paused :: bool
  se_tcp_tls :: bool
  se_reset_credential :: bool
  se_lease :: credential_lease
  se_cancelled_asleep :: bool
  se_draw :: "retry_draw \<Rightarrow> nat"

datatype retry_next = Returned | PausedAgain | RetryAfter nat

record retry_result =
  rr_attempt :: nat
  rr_cache :: credential_cache
  rr_delay :: nat
  rr_notes :: "retry_note list"

definition should_refresh_configuration_after_full_outage :: "bool \<Rightarrow> bool \<Rightarrow> int \<Rightarrow> bool \<Rightarrow> bool" where
  "should_refresh_configuration_after_full_outage was_ready failed active cancelled =
     (was_ready \<and> failed \<and> active = 0 \<and> \<not> cancelled)"

text \<open>"\<^verbatim>\<open>FATAL_\<close>" errors, and the Russian text of a dead hash.\<close>

definition is_fatal_message :: "str_text \<Rightarrow> bool" where
  "is_fatal_message message =
     contains_any message [lit ''FATAL_AUTH'', lit ''FATAL_PROTOCOL'', lit ''FATAL_HANDSHAKE'',
       [0x445, 0x435, 0x448, 0x20, 0x43C, 0x451, 0x440, 0x442, 0x432]]"

text \<open>The last branch: an error none of the classifiers claims.\<close>

definition other_delay :: "session_end \<Rightarrow> nat \<Rightarrow> str_text \<Rightarrow> nat" where
  "other_delay x attempt message =
     (let lower = to_ascii_lowercase message;
          d1 = (if is_fatal_message message then (5 + se_draw x DrawFatal mod 6) * 1000
                else worker_retry_delay attempt (se_draw x DrawAttempt));
          d2 = (if contains lower (lit ''getconf'')
                then min (worker_retry_delay attempt (se_draw x DrawGetconf)) 1000 else d1)
      in if contains lower (lit ''error 29'') \<or> contains lower (lit ''cannot create socket'')
         then (2 + se_draw x DrawSocket mod 3) * 1000 else d2)"

definition other_notes :: "str_text \<Rightarrow> retry_note list" where
  "other_notes message =
     (let lower = to_ascii_lowercase message in
      (if is_transport_timeout lower then [NetworkTimeoutEvent] else [])
      @ (if is_fatal_message message then []
         else if contains lower (lit ''wrap_auth_timeout'') then [WrapTimeoutRecovery]
         else if contains lower (lit ''getconf'') \<and> contains lower (lit ''timeout'') then [GetconfTimeoutRecovery]
         else if contains lower (lit ''turn '') \<and> contains lower (lit ''transaction timeout'')
         then [TurnTimeoutRecovery]
         else []))"

definition retry_after_error :: "session_end \<Rightarrow> run_error \<Rightarrow> nat \<Rightarrow> credential_cache \<Rightarrow> retry_result" where
  "retry_after_error x e attempt cache =
     (let message = err_display e; lower = to_ascii_lowercase message;
          tcp_reset = (se_tcp_tls x \<and> is_remote_tcp_stream_reset e lower);
          result = (\<lambda>a c d notes. \<lparr>rr_attempt = a, rr_cache = c, rr_delay = d, rr_notes = notes\<rparr>)
      in if contains lower (lit ''target_repair'') then
           result 0 (if se_reset_credential x then fst (invalidate (se_lease x) cache) else cache)
             (50 + se_draw x DrawRepair mod 151) []
         else if contains lower (lit ''turn channel rebind retry exhausted'') then
           result 0 cache (50 + se_draw x DrawRebind mod 151) []
         else
           (let a1 = saturating_add attempt 1;
                invalid = should_invalidate_turn_credentials e lower;
                c = (if invalid then fst (invalidate (se_lease x) cache) else cache);
                a = (if invalid then 0 else a1);
                d = (if invalid then 100 + se_draw x DrawInvalid mod 51
                     else worker_retry_delay a1 (se_draw x DrawAttempt))
            in if is_turn_allocation_quota e lower then
                 (case rotate_after_quota (se_lease x) c of
                    (c', QuotaRotated quota_delay) \<Rightarrow> result 0 c' quota_delay []
                  | (c', QuotaReplaced) \<Rightarrow> result 0 c' (50 + se_draw x DrawQuota mod 151) [])
               else if is_turn_allocation_mismatch e lower then
                 (case retry_after_mismatch (se_lease x) c of
                    (c', MismatchRotated) \<Rightarrow> result 0 c' (100 + se_draw x DrawMismatch mod 51) []
                  | (c', _) \<Rightarrow> result 0 c' (50 + se_draw x DrawMismatch mod 51) [])
               else if invalid then result a c d []
               else if tcp_reset then result a c (tcp_stream_retry_delay a) []
               else if is_local_network_down e then
                 result a c (250 + se_draw x DrawNetwork mod 751) [NetworkTimeoutEvent, NetworkRecovery]
               else result a c (other_delay x a message) (other_notes message)))"

text \<open>
  The whole turn. The worker returns when everything is cancelled or its hash is gone, goes back
  to the pause, or sleeps and starts over; \<^verbatim>\<open>config_sent\<close> is cleared after a full outage.
\<close>

definition after_session ::
  "session_end \<Rightarrow> bool \<Rightarrow> nat \<Rightarrow> credential_cache \<Rightarrow> bool \<times> nat \<times> credential_cache \<times> retry_note list \<times> retry_next" where
  "after_session x config_sent attempt0 cache =
     (let attempt = (if se_ready x then 0 else attempt0);
          refresh = should_refresh_configuration_after_full_outage (se_ready x) (se_error x \<noteq> None)
            (se_active_connections x) (se_cancelled x);
          notes = (if refresh \<and> config_sent then [ConfigurationRefresh] else []);
          sent = (if refresh then False else config_sent)
      in if se_cancelled x \<or> se_unavailable x then (sent, attempt, cache, notes, Returned)
         else if se_paused x then (sent, attempt, cache, notes, PausedAgain)
         else
           (let r = (case se_error x of
                None \<Rightarrow> \<lparr>rr_attempt = attempt, rr_cache = cache,
                  rr_delay = worker_retry_delay (max attempt 1) (se_draw x DrawInitial), rr_notes = []\<rparr>
              | Some e \<Rightarrow> retry_after_error x e attempt cache)
            in (sent, rr_attempt r, rr_cache r, notes @ rr_notes r,
                if se_cancelled_asleep x then Returned else RetryAfter (rr_delay r))))"

section \<open>Properties\<close>

lemma retry_delay_of:
  "250 \<le> worker_retry_delay a r \<and> worker_retry_delay a r \<le> 4250"
  by (simp add: worker_retry_delay_def worker_retry_delay_bounds)

lemma other_delay_bounds: "250 \<le> other_delay x a m \<and> other_delay x a m \<le> 10000"
proof -
  have "se_draw x DrawFatal mod 6 \<le> 5" "se_draw x DrawSocket mod 3 \<le> 2"
    using mod_less_divisor [of 6 "se_draw x DrawFatal"] mod_less_divisor [of 3 "se_draw x DrawSocket"]
    by linarith+
  then show ?thesis
    using retry_delay_of [of a "se_draw x DrawAttempt"] retry_delay_of [of a "se_draw x DrawGetconf"]
    by (auto simp: other_delay_def Let_def)
qed

definition fair_delay :: "nat \<Rightarrow> bool" where
  "fair_delay d = (50 \<le> d \<and> d \<le> 10000)"

lemma fair_draw: "50 \<le> m \<Longrightarrow> m + n \<le> 10000 \<Longrightarrow> fair_delay (m + r mod Suc n)"
proof -
  assume "50 \<le> m" "m + n \<le> 10000"
  moreover have "r mod Suc n \<le> n" by (simp add: less_Suc_eq_le [symmetric])
  ultimately show ?thesis by (simp only: fair_delay_def) linarith
qed

lemma fair_delays:
  "fair_delay (worker_retry_delay a r)" "fair_delay (tcp_stream_retry_delay a)"
  "fair_delay (quota_rotation_delay n)" "fair_delay (other_delay x a m)"
  using retry_delay_of [of a r] tcp_stream_retry_delay_bounds [of a] quota_rotation_delay_bounds [of n]
    other_delay_bounds [of x a m]
  by (simp_all add: fair_delay_def)

lemma fair_draws:
  "fair_delay (50 + r mod 151)" "fair_delay (100 + r mod 51)" "fair_delay (50 + r mod 51)"
  "fair_delay (250 + r mod 751)"
  using fair_draw [of 50 150 r] fair_draw [of 100 50 r] fair_draw [of 50 50 r] fair_draw [of 250 750 r]
  by simp_all

lemma fair_rotation: "rotate_after_quota l k = (c, QuotaRotated d) \<Longrightarrow> fair_delay d"
  using fair_delays(3) by (auto simp: rotate_after_quota_def split: option.splits if_splits)

lemma retry_after_error_delay: "fair_delay (rr_delay (retry_after_error x e a c))"
  unfolding retry_after_error_def Let_def
  by (simp add: fair_delays fair_draws split: prod.split quota_rotation.split allocation_mismatch.split)
     (blast intro: fair_rotation)

text \<open>C31: what a worker does when its session has ended is decided by four flags alone, whatever the error
  and the random draws. It returns exactly when everything is cancelled or its hash is gone, or when it
  is cancelled in its sleep; it goes back to the pause exactly when the workers are paused; and in every
  other case it starts over, after a sleep of at least 50 milliseconds and at most ten seconds: it never
  spins and never gives up on its own. The number of failed attempts in a row grows by at most one, and
  is counted anew after a session that became ready.\<close>

theorem worker_retries_in_time:
  assumes "after_session x sent a c = (sent', a', c', notes, next)"
  shows "(next = Returned \<longleftrightarrow> se_cancelled x \<or> se_unavailable x \<or> (\<not> se_paused x \<and> se_cancelled_asleep x))
    \<and> (next = PausedAgain \<longleftrightarrow> \<not> se_cancelled x \<and> \<not> se_unavailable x \<and> se_paused x)
    \<and> ((\<exists>d. next = RetryAfter d \<and> 50 \<le> d \<and> d \<le> 10000) \<longleftrightarrow>
        \<not> se_cancelled x \<and> \<not> se_unavailable x \<and> \<not> se_paused x \<and> \<not> se_cancelled_asleep x)
    \<and> a' \<le> (if se_ready x then 1 else Suc a)"
proof -
  have grows: "rr_attempt (retry_after_error x e n k) \<le> Suc n" for e n k
    by (auto simp: retry_after_error_def Let_def saturating_add_def
        split: prod.split quota_rotation.split allocation_mismatch.split)
  have attempt: "rr_attempt (retry_after_error x e (if se_ready x then 0 else a) k)
      \<le> (if se_ready x then 1 else Suc a)" for e k
    using grows [of e 0 k] grows [of e a k] by simp
  have "fair_delay d" if "next = RetryAfter d" for d
    using assms that fair_delays(1) retry_after_error_delay
    by (auto simp: after_session_def Let_def split: if_splits option.splits)
  moreover have "(next = Returned \<longleftrightarrow> se_cancelled x \<or> se_unavailable x \<or> (\<not> se_paused x \<and> se_cancelled_asleep x))
      \<and> (next = PausedAgain \<longleftrightarrow> \<not> se_cancelled x \<and> \<not> se_unavailable x \<and> se_paused x)
      \<and> ((\<exists>d. next = RetryAfter d) \<longleftrightarrow>
        \<not> se_cancelled x \<and> \<not> se_unavailable x \<and> \<not> se_paused x \<and> \<not> se_cancelled_asleep x)"
    using assms by (auto simp: after_session_def Let_def split: if_splits)
  moreover have "a' \<le> (if se_ready x then 1 else Suc a)"
    using assms attempt by (auto simp: after_session_def Let_def split: if_splits option.splits)
  ultimately show ?thesis by (auto simp: fair_delay_def)
qed

definition sample_end :: session_end where
  "sample_end = \<lparr>se_error = None, se_ready = True, se_active_connections = 0, se_cancelled = False,
     se_unavailable = False, se_paused = False, se_tcp_tls = False, se_reset_credential = False,
     se_lease = \<lparr>cl_value = sample_credentials, cl_generation = 1\<rparr>, se_cancelled_asleep = False,
     se_draw = (\<lambda>_. 7)\<rparr>"

lemma worker_retries_in_time_witness:
  "\<exists>d. after_session sample_end True 3 cache_new = (True, 0, cache_new, [], RetryAfter d) \<and> 50 \<le> d \<and> d \<le> 10000"
proof -
  let ?d = "worker_retry_delay 1 7"
  have "after_session sample_end True 3 cache_new = (True, 0, cache_new, [], RetryAfter ?d)"
    by (simp add: after_session_def sample_end_def should_refresh_configuration_after_full_outage_def)
  from worker_retries_in_time [OF this] this show ?thesis by blast
qed

section \<open>Errors of the reader\<close>

text \<open>
  The session's reader adds the context \<^verbatim>\<open>TURN allocation receive\<close> to the reason of the TURN client
  (\<^verbatim>\<open>TransportReader::recv\<close> of \<^verbatim>\<open>backend/session.rs\<close>), the writer passes the reason on as it is.
\<close>

definition RECEIVE_CONTEXT :: str_text where
  "RECEIVE_CONTEXT = lit ''TURN allocation receive''"

lemma receive_markers:
  "to_ascii_lowercase RECEIVE_CONTEXT = lit ''turn allocation receive''"
  "\<not> contains (lit ''turn allocation receive'') (lit ''target_repair'')"
  "\<not> contains (lit ''turn allocation receive'') (lit ''turn channel rebind retry exhausted'')"
  "\<not> contains (lit ''turn allocation receive'') (lit ''turn allocate'')"
  "\<not> contains (lit ''turn allocation receive'') (lit ''stun error 437'')"
  "\<not> contains (lit ''turn allocation receive'') (lit ''stun error 400'')"
  "\<not> contains (lit ''turn allocation receive'') (lit ''getconf'')"
  "\<not> contains (lit ''turn allocation receive'') (lit ''error 29'')"
  "\<not> contains (lit ''turn allocation receive'') (lit ''cannot create socket'')"
  "\<not> contains (lit ''turn allocation receive'') (lit ''wrap_auth_timeout'')"
  "\<not> contains (lit ''turn allocation receive'') (lit ''transaction timeout'')"
  "\<not> contains_any (lit ''turn allocation receive'') [lit ''stun error 401'', lit ''stun error 438'',
     lit ''stun error 441'', lit ''unauthorized'', lit ''wrong credential'', lit ''authentication failed'']"
  "\<not> contains_any (lit ''turn allocation receive'') [lit ''connection reset by peer'',
     lit ''connection aborted'', lit ''broken pipe'']"
  "\<not> is_transport_timeout (lit ''turn allocation receive'')"
  "\<not> is_fatal_message RECEIVE_CONTEXT"
  by code_simp+

lemma find_map_none: "\<forall>x \<in> set xs. f x = None \<Longrightarrow> find_map f xs = None"
  by (induction xs) auto

lemma plain_chain:
  assumes "set (err_chain e) \<subseteq> {OtherCause}"
  shows "turn_stun_code e = None" "turn_allocate_stun_code e = None"
    "is_remote_tcp_stream_reset e m = contains_any m [lit ''connection reset by peer'',
       lit ''connection aborted'', lit ''broken pipe'']"
  using assms
  by (auto simp: turn_stun_code_def turn_allocate_stun_code_def is_remote_tcp_stream_reset_def request_code_def
      intro!: find_map_none split: cause.split)

text \<open>the reason why a TURN path ended is lost when the reader is the one to report it: with the
  reader's context around it, the worker treats every reason alike, as an unknown error with a
  growing delay. The same reason, reported by the writer, is recognised: a path whose channel
  could not be bound again is restarted at once, without counting as a failed attempt.\<close>

theorem reader_reason_lost:
  assumes "context_of RECEIVE_CONTEXT e e'" and "set (err_chain e) \<subseteq> {OtherCause}"
    and "\<not> is_local_network_down e'"
  shows "retry_after_error x e' a c =
      \<lparr>rr_attempt = saturating_add a 1, rr_cache = c,
       rr_delay = worker_retry_delay (saturating_add a 1) (se_draw x DrawAttempt), rr_notes = []\<rparr>
    \<and> (err_display e = lit ''TURN channel rebind retry exhausted'' \<longrightarrow>
         rr_attempt (retry_after_error x e a c) = 0 \<and> rr_delay (retry_after_error x e a c) \<le> 200)"
proof (intro conjI impI)
  have chain: "set (err_chain e') \<subseteq> {OtherCause}" and display: "err_display e' = RECEIVE_CONTEXT"
    using assms(1,2) by (auto simp: context_of_def)
  note plain = plain_chain [OF chain]
  show "retry_after_error x e' a c = \<lparr>rr_attempt = saturating_add a 1, rr_cache = c,
      rr_delay = worker_retry_delay (saturating_add a 1) (se_draw x DrawAttempt), rr_notes = []\<rparr>"
    by (simp add: retry_after_error_def Let_def display receive_markers plain assms(3)
        should_invalidate_turn_credentials_def is_turn_allocation_quota_def is_turn_allocation_mismatch_def
        other_delay_def other_notes_def)
next
  assume display: "err_display e = lit ''TURN channel rebind retry exhausted''"
  have "to_ascii_lowercase (lit ''TURN channel rebind retry exhausted'') = lit ''turn channel rebind retry exhausted''"
    and "\<not> contains (lit ''turn channel rebind retry exhausted'') (lit ''target_repair'')" by code_simp+
  then have "retry_after_error x e a c =
      \<lparr>rr_attempt = 0, rr_cache = c, rr_delay = 50 + se_draw x DrawRebind mod 151, rr_notes = []\<rparr>"
    by (simp add: retry_after_error_def Let_def display)
  moreover have "se_draw x DrawRebind mod 151 \<le> 150"
    using mod_less_divisor [of 151 "se_draw x DrawRebind"] by linarith
  ultimately show "rr_attempt (retry_after_error x e a c) = 0" "rr_delay (retry_after_error x e a c) \<le> 200"
    by simp_all
qed

lemma reader_reason_lost_witness:
  "rr_attempt (retry_after_error sample_end \<lparr>err_display = RECEIVE_CONTEXT,
     err_alternate = RECEIVE_CONTEXT @ lit '': '' @ lit ''TURN channel rebind retry exhausted'',
     err_chain = [OtherCause, OtherCause]\<rparr> 0 cache_new) = 1"
proof -
  let ?e = "\<lparr>err_display = lit ''TURN channel rebind retry exhausted'',
    err_alternate = lit ''TURN channel rebind retry exhausted'', err_chain = [OtherCause]\<rparr>"
  let ?e' = "\<lparr>err_display = RECEIVE_CONTEXT,
    err_alternate = RECEIVE_CONTEXT @ lit '': '' @ lit ''TURN channel rebind retry exhausted'',
    err_chain = [OtherCause, OtherCause]\<rparr>"
  let ?m = "to_ascii_lowercase (RECEIVE_CONTEXT @ lit '': '' @ lit ''TURN channel rebind retry exhausted'')"
  have "\<not> contains_any ?m [lit ''network is unreachable'', lit ''network is down'', lit ''no route to host'',
      lit ''no route to network'', lit ''enetunreach'', lit ''enetdown'', lit ''ehostunreach'']"
    by code_simp
  moreover have "\<not> contains ?m (lit ''os error'')" by code_simp
  then have "\<not> list_ex (contains_os_error_code ?m) network_codes"
    using contains_code_prefix by (auto simp: list_ex_iff)
  ultimately have "\<not> is_local_network_down ?e'" by (simp add: is_local_network_down_def Let_def)
  then show ?thesis
    using reader_reason_lost [of ?e ?e' sample_end 0 cache_new]
    by (simp add: context_of_def saturating_add_def usize_max_def)
qed

end
