(* ===== verification/WorkerLoop.thy ===== *)
theory WorkerLoop
  imports SessionReader WorkerGates WorkerRetry "HOL-Library.Multiset"
begin

text \<open>
  The life of a worker: \<^verbatim>\<open>worker_loop\<close> and \<^verbatim>\<open>supervise_worker\<close> of \<^verbatim>\<open>backend/worker.rs\<close>. A turn
  waits for the pause to end, leases a credential, takes its place among the starts, runs one
  session and decides what comes next. Between any two of its accesses to the shared credential
  cache the other workers may do what they like with it and with their own leases.
\<close>

section \<open>State\<close>

text \<open>
  The shared cache; the leases this worker and the others hold (a lease is handed out once and
  given back at most once; both lists are histories, the code keeps a counter); the worker's own
  retry count, its cursor over the TURN servers, which outlives a panic, and a history of the
  sessions it has run: cursor, lease, what the worker heard of the session, and whether it panicked.
\<close>

text \<open>
  While the session runs the worker listens on two channels, each of which answers once: that the
  session has started to allocate, and that it has an allocation. A channel that was dropped
  answers with an error.
\<close>

datatype session_event =
    AllocationStarted bool
  | AllocationReady bool
  | OtherWorkers "cache_op list"

type_synonym session_log = "u64 \<times> credential_lease \<times> session_event list \<times> bool"

record worker_run =
  wk_cache :: credential_cache
  wk_mine :: "credential_lease list"
  wk_others :: "credential_lease list"
  wk_unavailable :: bool
  wk_attempt :: nat
  wk_cursor :: u64
  wk_sessions :: "session_log list"
  wk_recovered :: nat

definition worker_start :: "credential_cache \<Rightarrow> credential_lease list \<Rightarrow> worker_run" where
  "worker_start c ls = \<lparr>wk_cache = c, wk_mine = [], wk_others = ls, wk_unavailable = False,
     wk_attempt = 0, wk_cursor = 0, wk_sessions = [], wk_recovered = 0\<rparr>"

definition lease_view :: "worker_run \<Rightarrow> lease_state" where
  "lease_view r = \<lparr>ls_cache = wk_cache r, ls_out = wk_mine r @ wk_others r\<rparr>"

text \<open>What the other workers do in between: they release only leases of their own.\<close>

definition others_act :: "cache_op list \<Rightarrow> worker_run \<Rightarrow> worker_run" where
  "others_act xs r =
     (let s = foldl cache_step \<lparr>ls_cache = wk_cache r, ls_out = wk_others r\<rparr> xs
      in r\<lparr>wk_cache := ls_cache s, wk_others := ls_out s\<rparr>)"

text \<open>\<^verbatim>\<open>release_allocation\<close> of the worker's own lease, which moves out of its hands.\<close>

definition give_back :: "cache_op list \<Rightarrow> credential_lease \<Rightarrow> worker_run \<Rightarrow> worker_run" where
  "give_back others l r =
     (let r1 = others_act others r
      in r1\<lparr>wk_cache := release_lease l (wk_cache r1), wk_mine := remove1 l (wk_mine r1)\<rparr>)"

section \<open>Leasing\<close>

text \<open>
  One turn of the inner loop: what the others did before, whether one of them found the hash dead,
  the failures counted so far in the group, and whether everything is cancelled after the call.
\<close>

record lease_try =
  lt_others :: "cache_op list"
  lt_marked :: bool
  lt_failures :: nat
  lt_input :: get_input
  lt_cancelled :: bool

datatype lease_wait = LeaseTaken credential_lease | LeaseRefused | LeasePending

definition before_try :: "lease_try \<Rightarrow> worker_run \<Rightarrow> worker_run" where
  "before_try x r =
     (let r1 = others_act (lt_others x) r in r1\<lparr>wk_unavailable := (wk_unavailable r1 \<or> lt_marked x)\<rparr>)"

fun lease_loop :: "lease_try list \<Rightarrow> worker_run \<Rightarrow> worker_run \<times> lease_wait" where
  "lease_loop [] r = (r, LeasePending)"
| "lease_loop (x # xs) r =
     (let r1 = before_try x r in
      if wk_unavailable r1 then (r1, LeaseRefused)
      else
        (let (g, lease, _) = get_lease (lt_input x)
              \<lparr>gc_cache = wk_cache r1, gc_failures = lt_failures x, gc_unavailable = wk_unavailable r1\<rparr>;
            r2 = r1\<lparr>wk_cache := gc_cache g, wk_unavailable := gc_unavailable g\<rparr>
         in case lease of
              Some l \<Rightarrow> (r2\<lparr>wk_mine := l # wk_mine r2\<rparr>, LeaseTaken l)
            | None \<Rightarrow>
                if lt_cancelled x \<or> wk_unavailable r2 then (r2, LeaseRefused)
                else lease_loop xs r2))"

section \<open>The session\<close>

text \<open>The branches of the \<^verbatim>\<open>select!\<close>; one whose answer was taken is disabled.\<close>

record session_watch =
  started_observed :: bool
  allocation_started :: bool
  ready_observed :: bool

definition watch_new :: session_watch where
  "watch_new = \<lparr>started_observed = False, allocation_started = False, ready_observed = False\<rparr>"

fun watch_session ::
  "credential_lease \<Rightarrow> session_event list \<Rightarrow> session_watch \<Rightarrow> worker_run \<Rightarrow> session_watch \<times> worker_run" where
  "watch_session l [] w r = (w, r)"
| "watch_session l (AllocationStarted ok # es) w r =
     (if started_observed w then watch_session l es w r
      else watch_session l es (w\<lparr>started_observed := True, allocation_started := ok\<rparr>) r)"
| "watch_session l (AllocationReady ok # es) w r =
     (if ready_observed w then watch_session l es w r
      else watch_session l es (w\<lparr>ready_observed := True\<rparr>)
        (if ok then r\<lparr>wk_cache := record_allocation l (wk_cache r), wk_recovered := wk_recovered r + 1\<rparr> else r))"
| "watch_session l (OtherWorkers xs # es) w r = watch_session l es w (others_act xs r)"

section \<open>A turn\<close>

text \<open>
  The inputs of a turn: how the two waits at the pause went, the attempts to lease, the pacer and
  its next free slot, the events of the session until its result, the result itself, and what the
  other workers did before the lease was given back and before the result was dealt with. A panic
  of the session unwinds the whole task: nothing of the turn runs after it, and the lease, which has
  no destructor, is not given back, whether the session had started to allocate or not.
\<close>

record turn_input =
  ti_first_pause :: "(bool \<times> pause_wake) list"
  ti_tries :: "lease_try list"
  ti_pacer :: pacer_call
  ti_free_slot :: nat
  ti_second_pause :: "(bool \<times> pause_wake) list"
  ti_events :: "session_event list"
  ti_panics :: bool
  ti_before_release :: "cache_op list"
  ti_before_retry :: "cache_op list"
  ti_config_sent :: bool
  ti_end :: session_end
  ti_cancelled_after_panic :: bool

datatype turn_end = TurnReturned | TurnAgain nat | TurnPanicked | TurnPending

definition run_one_session :: "turn_input \<Rightarrow> credential_lease \<Rightarrow> worker_run \<Rightarrow> worker_run \<times> turn_end" where
  "run_one_session i l r0 =
     (let cursor = wk_cursor r0;
          (w, r1) = watch_session l (ti_events i) watch_new (r0\<lparr>wk_cursor := cursor + 1\<rparr>)
      in if ti_panics i then
           (r1\<lparr>wk_sessions := wk_sessions r1 @ [(cursor, l, ti_events i, True)]\<rparr>, TurnPanicked)
         else
           (let r2 = (if allocation_started w then r1 else give_back (ti_before_release i) l r1);
                r3 = r2\<lparr>wk_sessions := wk_sessions r2 @ [(cursor, l, ti_events i, False)]\<rparr>;
                r4 = others_act (ti_before_retry i) r3;
                (_, attempt, cache, _, nxt) =
                  after_session ((ti_end i)\<lparr>se_lease := l, se_unavailable := wk_unavailable r4\<rparr>)
                    (ti_config_sent i) (wk_attempt r4) (wk_cache r4)
            in (r4\<lparr>wk_attempt := attempt, wk_cache := cache\<rparr>,
                case nxt of retry_next.Returned \<Rightarrow> TurnReturned | PausedAgain \<Rightarrow> TurnAgain 0
                | RetryAfter delay \<Rightarrow> TurnAgain delay)))"

definition worker_turn :: "turn_input \<Rightarrow> worker_run \<Rightarrow> worker_run \<times> turn_end" where
  "worker_turn i r =
     (case wait_until_resumed (ti_first_pause i) 0 of
        None \<Rightarrow> (r, TurnPending)
      | Some (False, _) \<Rightarrow> (r, TurnReturned)
      | Some (True, _) \<Rightarrow>
          (case lease_loop (ti_tries i) r of
             (r1, LeasePending) \<Rightarrow> (r1, TurnPending)
           | (r1, LeaseRefused) \<Rightarrow> (r1, TurnReturned)
           | (r1, LeaseTaken l) \<Rightarrow>
               if snd (pacer_wait WORKER_START_INTERVAL (ti_pacer i) (ti_free_slot i)) = None
               then (give_back (ti_before_release i) l r1, TurnReturned)
               else (case wait_until_resumed (ti_second_pause i) 0 of
                   None \<Rightarrow> (r1, TurnPending)
                 | Some (False, _) \<Rightarrow> (give_back (ti_before_release i) l r1, TurnReturned)
                 | Some (True, _) \<Rightarrow> run_one_session i l r1)))"

section \<open>The supervisor\<close>

text \<open>
  A panic is isolated and the loop restarted a second later, with a fresh retry count and the old
  cursor, unless everything is cancelled by then.
\<close>

datatype supervised = StillRunning | WorkerReturned

fun supervise_worker :: "turn_input list \<Rightarrow> worker_run \<Rightarrow> worker_run \<times> supervised" where
  "supervise_worker [] r = (r, StillRunning)"
| "supervise_worker (i # rest) r =
     (case worker_turn i r of
        (r1, TurnReturned) \<Rightarrow> (r1, WorkerReturned)
      | (r1, TurnPending) \<Rightarrow> (r1, StillRunning)
      | (r1, TurnAgain _) \<Rightarrow> supervise_worker rest r1
      | (r1, TurnPanicked) \<Rightarrow>
          if ti_cancelled_after_panic i then (r1, WorkerReturned)
          else supervise_worker rest (r1\<lparr>wk_attempt := 0\<rparr>))"


section \<open>The worker as a client of the cache\<close>

text \<open>
  What the worker and the others do together is a run of the cache's operations, up to the order in
  which the leases are listed.
\<close>

definition cache_run :: "lease_state \<Rightarrow> lease_state \<Rightarrow> bool" where
  "cache_run s t = (\<exists>xs. ls_cache t = ls_cache (foldl cache_step s xs)
     \<and> mset (ls_out t) = mset (ls_out (foldl cache_step s xs)))"

lemma cache_step_cong:
  assumes "ls_cache s = ls_cache t" "mset (ls_out s) = mset (ls_out t)"
  shows "ls_cache (cache_step s x) = ls_cache (cache_step t x)
    \<and> mset (ls_out (cache_step s x)) = mset (ls_out (cache_step t x))"
proof (cases x)
  case Reserve
  obtain c l where "reserve (ls_cache t) = (c, l)" by (cases "reserve (ls_cache t)")
  then show ?thesis using assms Reserve by (simp split: option.split)
next
  case (Release l)
  have "l \<in> set (ls_out s) \<longleftrightarrow> l \<in> set (ls_out t)" using mset_eq_setD [OF assms(2)] by simp
  then show ?thesis using assms Release by simp
qed (use assms in simp_all)

lemma cache_steps_cong:
  assumes "ls_cache s = ls_cache t" "mset (ls_out s) = mset (ls_out t)"
  shows "ls_cache (foldl cache_step s xs) = ls_cache (foldl cache_step t xs)
    \<and> mset (ls_out (foldl cache_step s xs)) = mset (ls_out (foldl cache_step t xs))"
  using assms
proof (induction xs arbitrary: s t)
  case (Cons x xs)
  show ?case using Cons.IH [OF conjunct1 conjunct2, OF cache_step_cong cache_step_cong, OF Cons.prems Cons.prems]
    by (simp only: foldl_Cons)
qed simp

lemma cache_run_refl: "ls_cache s = ls_cache t \<Longrightarrow> mset (ls_out s) = mset (ls_out t) \<Longrightarrow> cache_run s t"
  unfolding cache_run_def by (rule exI [of _ "[]"]) simp

lemma cache_run_op: "cache_run s (cache_step s x)"
  unfolding cache_run_def by (rule exI [of _ "[x]"]) simp

lemma cache_run_ops: "cache_run s (foldl cache_step s xs)"
  unfolding cache_run_def by blast

lemma cache_run_trans:
  assumes "cache_run s t" "cache_run t u"
  shows "cache_run s u"
proof -
  obtain xs ys where xs: "ls_cache t = ls_cache (foldl cache_step s xs)"
      "mset (ls_out t) = mset (ls_out (foldl cache_step s xs))"
    and ys: "ls_cache u = ls_cache (foldl cache_step t ys)"
      "mset (ls_out u) = mset (ls_out (foldl cache_step t ys))"
    using assms unfolding cache_run_def by blast
  then show ?thesis
    using cache_steps_cong [OF xs, of ys] unfolding cache_run_def
    by (intro exI [of _ "xs @ ys"]) simp
qed

text \<open>As long as the counter of the credentials has not reached its end, the bound of the cache holds
  along a run, however long.\<close>

definition leases_bounded :: "lease_state \<Rightarrow> bool" where
  "leases_bounded s = lease_inv (unat (next_generation (ls_cache s))) s"

lemma lease_inv_bounded: "lease_inv n s \<Longrightarrow> leases_bounded s"
  by (auto simp: leases_bounded_def lease_inv_def)

lemma leases_bounded_cong:
  assumes "ls_cache s = ls_cache t" "mset (ls_out s) = mset (ls_out t)"
  shows "leases_bounded s = leases_bounded t"
proof -
  have "out_of g s = out_of g t" for g
    using assms(2) unfolding out_of_def by (metis mset_filter size_mset)
  then show ?thesis
    using assms(1) mset_eq_setD [OF assms(2)] by (simp add: leases_bounded_def lease_inv_def split: option.split)
qed

lemma below_max_u64: "g \<noteq> - 1 \<Longrightarrow> unat (g :: u64) < 2 ^ 64 - 1"
proof -
  assume "g \<noteq> - 1"
  then have "unat g \<noteq> unat (- 1 :: u64)" by (metis word_unat_eq_iff)
  then show ?thesis using unat_u64_less [of g] by (simp add: unat_max_u64 del: unsigned_minus_1_eq_mask)
qed

lemma generation_grows: "next_generation (ls_cache s) \<le> next_generation (ls_cache (cache_step s x))"
proof -
  have "g \<le> max (generation_after g) 1" for g :: u64
  proof (cases "g = - 1")
    case True then show ?thesis by (simp add: generation_after_def)
  next
    case False
    then show ?thesis using generation_after_max [OF below_max_u64] by (simp add: less_imp_le)
  qed
  then show ?thesis
    by (cases x) (auto simp: reserve_def store_def record_allocation_def release_lease_def invalidate_def
        rotate_after_quota_def next_quota_delay_def retry_after_mismatch_def Let_def
        split: option.splits if_splits)
qed

lemma generation_grows_run: "next_generation (ls_cache s) \<le> next_generation (ls_cache (foldl cache_step s xs))"
  by (induction xs arbitrary: s) (auto intro: order_trans generation_grows)

lemma leases_bounded_steps:
  "leases_bounded s \<Longrightarrow> next_generation (ls_cache (foldl cache_step s xs)) \<noteq> - 1
    \<Longrightarrow> leases_bounded (foldl cache_step s xs)"
proof (induction xs arbitrary: s)
  case (Cons x xs)
  have "next_generation (ls_cache s) \<le> next_generation (ls_cache (foldl cache_step s (x # xs)))"
    by (rule generation_grows_run)
  then have "next_generation (ls_cache s) \<noteq> - 1"
    using Cons.prems(2) by (metis word_order.extremum_uniqueI)
  then have "unat (next_generation (ls_cache s)) < 2 ^ 64 - 1" by (rule below_max_u64)
  then have "leases_bounded (cache_step s x)"
    using lease_inv_step Cons.prems(1) lease_inv_bounded unfolding leases_bounded_def by blast
  then show ?case using Cons.IH Cons.prems(2) by simp
qed simp

lemma leases_bounded_run:
  assumes "cache_run s t" "leases_bounded s" "next_generation (ls_cache t) \<noteq> - 1"
  shows "leases_bounded t"
proof -
  obtain xs where xs: "ls_cache t = ls_cache (foldl cache_step s xs)"
      "mset (ls_out t) = mset (ls_out (foldl cache_step s xs))"
    using assms(1) unfolding cache_run_def by blast
  then show ?thesis
    using leases_bounded_steps [OF assms(2), of xs] assms(3) leases_bounded_cong [OF xs] by simp
qed

text \<open>Each access of the worker, and whatever the others do, is part of such a run.\<close>

lemma others_act_keeps [simp]:
  "wk_mine (others_act xs r) = wk_mine r" "wk_sessions (others_act xs r) = wk_sessions r"
  "wk_cursor (others_act xs r) = wk_cursor r" "wk_unavailable (others_act xs r) = wk_unavailable r"
  "wk_attempt (others_act xs r) = wk_attempt r"
  by (simp_all add: others_act_def Let_def)

lemma view_cong: "wk_cache r = wk_cache r' \<Longrightarrow> wk_mine r = wk_mine r' \<Longrightarrow> wk_others r = wk_others r'
    \<Longrightarrow> lease_view r = lease_view r'"
  by (simp add: lease_view_def)

lemma others_act_Cons: "others_act (x # xs) r = others_act xs (others_act [x] r)"
  by (cases "cache_step \<lparr>ls_cache = wk_cache r, ls_out = wk_others r\<rparr> x")
    (simp add: others_act_def Let_def)

lemma others_act_one: "cache_run (lease_view r) (lease_view (others_act [x] r))"
proof (cases "\<exists>l. x = Release l \<and> l \<notin> set (wk_others r)")
  case True
  then show ?thesis by (intro cache_run_refl) (auto simp: others_act_def lease_view_def)
next
  case False
  have "ls_cache (lease_view (others_act [x] r)) = ls_cache (cache_step (lease_view r) x)
      \<and> mset (ls_out (lease_view (others_act [x] r))) = mset (ls_out (cache_step (lease_view r) x))"
  proof (cases x)
    case Reserve
    obtain c l where "reserve (wk_cache r) = (c, l)" by (cases "reserve (wk_cache r)")
    then show ?thesis using Reserve by (simp add: others_act_def lease_view_def split: option.split)
  next
    case (Release l)
    then have "l \<in> set (wk_others r)" using False by simp
    then show ?thesis using Release by (simp add: others_act_def lease_view_def)
  qed (simp_all add: others_act_def lease_view_def)
  then show ?thesis
    using cache_run_trans [OF cache_run_op cache_run_refl] by metis
qed

lemma others_act_run: "cache_run (lease_view r) (lease_view (others_act xs r))"
proof (induction xs arbitrary: r)
  case Nil
  show ?case by (rule cache_run_refl) (simp_all add: others_act_def lease_view_def)
next
  case (Cons x xs)
  show ?case
    by (subst others_act_Cons) (rule cache_run_trans [OF others_act_one Cons.IH])
qed

lemma give_back_run:
  assumes "l \<in> set (wk_mine r)"
  shows "cache_run (lease_view r) (lease_view (give_back xs l r))"
proof -
  let ?s = "lease_view (others_act xs r)"
  have "l \<in> set (ls_out ?s)" using assms by (simp add: lease_view_def)
  then have "ls_cache (cache_step ?s (Release l)) = ls_cache (lease_view (give_back xs l r))"
    and "mset (ls_out (cache_step ?s (Release l))) = mset (ls_out (lease_view (give_back xs l r)))"
    using assms by (simp_all add: give_back_def Let_def lease_view_def remove1_append)
  then show ?thesis
    by (rule cache_run_trans [OF others_act_run cache_run_trans [OF cache_run_op cache_run_refl]])
qed

lemma cache_run_calls:
  "cache_run \<lparr>ls_cache = c, ls_out = ls\<rparr> \<lparr>ls_cache = fst (store v c), ls_out = ls\<rparr>"
  "cache_run \<lparr>ls_cache = c, ls_out = ls\<rparr> \<lparr>ls_cache = record_allocation l c, ls_out = ls\<rparr>"
  "cache_run \<lparr>ls_cache = c, ls_out = ls\<rparr> \<lparr>ls_cache = fst (invalidate l c), ls_out = ls\<rparr>"
  "cache_run \<lparr>ls_cache = c, ls_out = ls\<rparr> \<lparr>ls_cache = fst (rotate_after_quota l c), ls_out = ls\<rparr>"
  "cache_run \<lparr>ls_cache = c, ls_out = ls\<rparr> \<lparr>ls_cache = fst (next_quota_delay c), ls_out = ls\<rparr>"
  "cache_run \<lparr>ls_cache = c, ls_out = ls\<rparr> \<lparr>ls_cache = fst (retry_after_mismatch l c), ls_out = ls\<rparr>"
  using cache_run_op [of "\<lparr>ls_cache = c, ls_out = ls\<rparr>"] cache_step.simps(2-3,5-8) by (metis lease_state.select_convs lease_state.update_convs(1))+

lemma reserve_run:
  assumes "reserve c = (c', l)"
  shows "cache_run \<lparr>ls_cache = c, ls_out = ls\<rparr>
    \<lparr>ls_cache = c', ls_out = (case l of None \<Rightarrow> ls | Some x \<Rightarrow> x # ls)\<rparr>"
  using cache_run_op [of "\<lparr>ls_cache = c, ls_out = ls\<rparr>" Reserve] assms by (cases l) simp_all

text \<open>The result of \<^verbatim>\<open>get\<close>, as the cache sees it.\<close>

lemma get_lease_run:
  assumes "get_lease i G = (g, lease, d)"
  shows "cache_run \<lparr>ls_cache = gc_cache G, ls_out = ls\<rparr>
    \<lparr>ls_cache = gc_cache g, ls_out = (case lease of None \<Rightarrow> ls | Some x \<Rightarrow> x # ls)\<rparr>"
proof (cases "gc_unavailable G")
  case True
  then show ?thesis using assms by (auto simp: get_lease_def intro: cache_run_refl)
next
  case False
  obtain c l where c: "reserve (gc_cache G) = (c, l)" by (cases "reserve (gc_cache G)")
  note one = reserve_run [OF c, of ls]
  show ?thesis
  proof (cases l)
    case (Some x)
    then show ?thesis using one c assms False by (auto simp: get_lease_def)
  next
    case None
    note one = one [unfolded None option.case]
    obtain c1 stored where s: "store v c = (c1, stored)" if "gi_answer i = Fetched v" for v
      by (cases "gi_answer i"; cases "store (SOME v. gi_answer i = Fetched v) c") auto
    show ?thesis
    proof (cases "gi_cancelled_waiting i \<or> gi_unavailable_after i \<or> gi_cancelled_fetching i
        \<or> (\<forall>v. gi_answer i \<noteq> Fetched v)")
      case True
      then show ?thesis using one c assms False None
        by (auto simp: get_lease_def Let_def split: if_splits fetch_answer.splits)
    next
      case fetched: False
      then obtain v where v: "gi_answer i = Fetched v" by auto
      note s = s [OF v]
      have two: "cache_run \<lparr>ls_cache = gc_cache G, ls_out = ls\<rparr> \<lparr>ls_cache = c1, ls_out = ls\<rparr>"
        using cache_run_trans [OF one cache_run_calls(1), of v] s by simp
      show ?thesis
      proof (cases stored)
        case False
        then have "c1 = c" using s by (auto simp: store_def Let_def split: if_splits)
        then show ?thesis
          using cache_run_trans [OF two cache_run_calls(5)] c assms s False fetched None v \<open>\<not> gc_unavailable G\<close>
          by (auto simp: get_lease_def next_quota_delay_def)
      next
        case True
        obtain c2 l2 where r: "reserve c1 = (c2, l2)" by (cases "reserve c1")
        then show ?thesis
          using two cache_run_trans [OF two reserve_run [OF r]] c assms s True fetched None v \<open>\<not> gc_unavailable G\<close>
          by (auto simp: get_lease_def Let_def split: if_splits)
      qed
    qed
  qed
qed

lemma retry_after_error_cases:
  assumes "P c" and "P (fst (invalidate (se_lease x) c))"
    and "\<And>k k' q. P k \<Longrightarrow> rotate_after_quota (se_lease x) k = (k', q) \<Longrightarrow> P k'"
    and "\<And>k k' q. P k \<Longrightarrow> retry_after_mismatch (se_lease x) k = (k', q) \<Longrightarrow> P k'"
  shows "P (rr_cache (retry_after_error x e a c))"
proof -
  let ?i = "fst (invalidate (se_lease x) c)"
  obtain r1 q1 r2 q2 m1 p1 m2 p2 where calls:
    "rotate_after_quota (se_lease x) c = (r1, q1)" "rotate_after_quota (se_lease x) ?i = (r2, q2)"
    "retry_after_mismatch (se_lease x) c = (m1, p1)" "retry_after_mismatch (se_lease x) ?i = (m2, p2)"
    by (meson surj_pair)
  have "P r1" "P r2" "P m1" "P m2"
    by (rule assms(3) [OF _ calls(1)] assms(3) [OF _ calls(2)] assms(4) [OF _ calls(3)] assms(4) [OF _ calls(4)],
        rule assms)+
  then show ?thesis
    unfolding retry_after_error_def Let_def
    by (simp add: assms(1,2) calls split: quota_rotation.split allocation_mismatch.split)
qed

lemma retry_after_error_run:
  "cache_run \<lparr>ls_cache = c, ls_out = ls\<rparr> \<lparr>ls_cache = rr_cache (retry_after_error x e a c), ls_out = ls\<rparr>"
proof (rule retry_after_error_cases)
  show "cache_run \<lparr>ls_cache = c, ls_out = ls\<rparr> \<lparr>ls_cache = c, ls_out = ls\<rparr>" by (rule cache_run_refl) simp_all
  show "cache_run \<lparr>ls_cache = c, ls_out = ls\<rparr> \<lparr>ls_cache = fst (invalidate (se_lease x) c), ls_out = ls\<rparr>"
    by (rule cache_run_calls)
  fix k k' q
  assume "cache_run \<lparr>ls_cache = c, ls_out = ls\<rparr> \<lparr>ls_cache = k, ls_out = ls\<rparr>"
    and "rotate_after_quota (se_lease x) k = (k', q)"
  then show "cache_run \<lparr>ls_cache = c, ls_out = ls\<rparr> \<lparr>ls_cache = k', ls_out = ls\<rparr>"
    using cache_run_trans cache_run_calls(4) [of k ls "se_lease x"] by auto
next
  fix k k' q
  assume "cache_run \<lparr>ls_cache = c, ls_out = ls\<rparr> \<lparr>ls_cache = k, ls_out = ls\<rparr>"
    and "retry_after_mismatch (se_lease x) k = (k', q)"
  then show "cache_run \<lparr>ls_cache = c, ls_out = ls\<rparr> \<lparr>ls_cache = k', ls_out = ls\<rparr>"
    using cache_run_trans cache_run_calls(6) [of k ls "se_lease x"] by auto
qed

lemma after_session_run:
  assumes "after_session x sent a c = (sent', a', c', notes, nxt)"
  shows "cache_run \<lparr>ls_cache = c, ls_out = ls\<rparr> \<lparr>ls_cache = c', ls_out = ls\<rparr>"
proof -
  have "c' = c \<or> (\<exists>e b. c' = rr_cache (retry_after_error x e b c))"
    using assms by (auto simp: after_session_def Let_def split: if_splits option.splits)
  then show ?thesis using retry_after_error_run by (auto intro: cache_run_refl)
qed

section \<open>The worker's account\<close>

text \<open>
  The leases the worker still has, by the history of its sessions: those of the sessions that ended
  and of which it heard that they had started to allocate, and those of the sessions that panicked.
\<close>

fun saw_start :: "session_event list \<Rightarrow> bool" where
  "saw_start [] = False"
| "saw_start (AllocationStarted ok # es) = ok"
| "saw_start (_ # es) = saw_start es"

definition started_leases :: "worker_run \<Rightarrow> credential_lease list" where
  "started_leases r =
     map (\<lambda>(_, l, _, _). l) (filter (\<lambda>(_, _, es, panicked). \<not> panicked \<and> saw_start es) (wk_sessions r))"

definition lost_leases :: "worker_run \<Rightarrow> credential_lease list" where
  "lost_leases r = map (\<lambda>(_, l, _, _). l) (filter (\<lambda>(_, _, _, panicked). panicked) (wk_sessions r))"

definition kept_leases :: "worker_run \<Rightarrow> credential_lease list" where
  "kept_leases r =
     map (\<lambda>(_, l, _, _). l) (filter (\<lambda>(_, _, es, panicked). panicked \<or> saw_start es) (wk_sessions r))"

lemma kept_split: "mset (kept_leases r) = mset (started_leases r) + mset (lost_leases r)"
proof -
  have "mset (map (\<lambda>(_, l, _, _). l) (filter (\<lambda>(_, _, es, panicked). panicked \<or> saw_start es) xs)) =
      mset (map (\<lambda>(_, l, _, _). l) (filter (\<lambda>(_, _, es, panicked). \<not> panicked \<and> saw_start es) xs))
      + mset (map (\<lambda>(_, l, _, _). l) (filter (\<lambda>(_, _, _, panicked). panicked) xs))" for xs :: "session_log list"
    by (induction xs) auto
  then show ?thesis by (simp add: kept_leases_def started_leases_def lost_leases_def)
qed

lemma watch_session_started:
  "watch_session l es w r = (w', r') \<Longrightarrow>
    allocation_started w' = (if started_observed w then allocation_started w
      else if \<exists>ok. AllocationStarted ok \<in> set es then saw_start es else allocation_started w)"
  by (induction l es w r rule: watch_session.induct) (auto split: if_splits)

lemma saw_start_member: "saw_start es \<Longrightarrow> \<exists>ok. AllocationStarted ok \<in> set es"
  by (induction es rule: saw_start.induct) auto

lemma watch_new_started:
  "watch_session l es watch_new r = (w', r') \<Longrightarrow> allocation_started w' = saw_start es"
  using watch_session_started [of l es watch_new r w' r'] saw_start_member [of es]
  by (auto simp: watch_new_def split: if_splits)

text \<open>
  The account between two turns (\<open>extra\<close> empty) and inside one (\<open>extra\<close> the lease of the turn).
\<close>

definition accounted :: "credential_lease list \<Rightarrow> worker_run \<Rightarrow> bool" where
  "accounted extra r = (mset (wk_mine r) = mset (kept_leases r @ extra))"

definition worker_ok :: "lease_state \<Rightarrow> credential_lease list \<Rightarrow> worker_run \<Rightarrow> bool" where
  "worker_ok s extra r = (cache_run s (lease_view r) \<and> accounted extra r)"

lemma worker_ok_others: "worker_ok s extra r \<Longrightarrow> worker_ok s extra (others_act xs r)"
  using cache_run_trans [OF _ others_act_run]
  by (auto simp: worker_ok_def accounted_def kept_leases_def)

lemma worker_ok_fields [simp]:
  "worker_ok s extra (r\<lparr>wk_unavailable := b\<rparr>) = worker_ok s extra r"
  "worker_ok s extra (r\<lparr>wk_attempt := n\<rparr>) = worker_ok s extra r"
  "worker_ok s extra (r\<lparr>wk_cursor := cur\<rparr>) = worker_ok s extra r"
  "worker_ok s extra (r\<lparr>wk_recovered := n\<rparr>) = worker_ok s extra r"
  by (simp_all add: worker_ok_def accounted_def kept_leases_def lease_view_def)

lemma worker_ok_cache:
  assumes "worker_ok s extra r"
    and "\<And>ls. cache_run \<lparr>ls_cache = wk_cache r, ls_out = ls\<rparr> \<lparr>ls_cache = c, ls_out = ls\<rparr>"
  shows "worker_ok s extra (r\<lparr>wk_cache := c\<rparr>)"
  using assms(1) cache_run_trans [OF _ assms(2)]
  by (auto simp: worker_ok_def accounted_def kept_leases_def lease_view_def)

lemma worker_ok_give_back:
  assumes "worker_ok s [l] r"
  shows "worker_ok s [] (give_back xs l r)"
proof -
  have "l \<in># mset (wk_mine r)" using assms by (simp add: worker_ok_def accounted_def)
  then have "l \<in> set (wk_mine r)" by simp
  from give_back_run [OF this, of xs] assms show ?thesis
    using cache_run_trans
    by (auto simp: worker_ok_def accounted_def kept_leases_def give_back_def Let_def)
qed

lemma lease_loop_ok:
  assumes "worker_ok s [] r" "lease_loop xs r = (r', out)"
  shows "worker_ok s (case out of LeaseTaken l \<Rightarrow> [l] | _ \<Rightarrow> []) r'"
  using assms
proof (induction xs arbitrary: r)
  case (Cons x xs)
  define r1 where "r1 = before_try x r"
  have ok1: "worker_ok s [] r1"
    using worker_ok_others [OF Cons.prems(1), of "lt_others x"] by (simp add: r1_def before_try_def Let_def)
  show ?case
  proof (cases "wk_unavailable r1")
    case True
    then show ?thesis using ok1 Cons.prems(2) by (simp add: r1_def Let_def split: if_splits)
  next
    case False
    define G where "G = \<lparr>gc_cache = wk_cache r1, gc_failures = lt_failures x, gc_unavailable = False\<rparr>"
    obtain g lease d where get: "get_lease (lt_input x) G = (g, lease, d)" by (metis prod_cases3)
    define r2 where "r2 = r1\<lparr>wk_cache := gc_cache g, wk_unavailable := gc_unavailable g\<rparr>"
    note step = get_lease_run [OF get, of "wk_mine r1 @ wk_others r1"]
    have loop: "lease_loop (x # xs) r = (case lease of
        Some l \<Rightarrow> (r2\<lparr>wk_mine := l # wk_mine r2\<rparr>, LeaseTaken l)
      | None \<Rightarrow> if lt_cancelled x \<or> wk_unavailable r2 then (r2, LeaseRefused) else lease_loop xs r2)"
      using False get by (simp add: r1_def [symmetric] G_def [symmetric] r2_def Let_def split: option.split)
    show ?thesis
    proof (cases lease)
      case (Some l)
      then have "worker_ok s [l] (r2\<lparr>wk_mine := l # wk_mine r2\<rparr>)"
        using ok1 step cache_run_trans
        by (auto simp: worker_ok_def accounted_def kept_leases_def lease_view_def r2_def G_def)
      then show ?thesis using loop Some Cons.prems(2) by auto
    next
      case None
      then have ok2: "worker_ok s [] r2"
        using ok1 step cache_run_trans
        by (auto simp: worker_ok_def accounted_def kept_leases_def lease_view_def r2_def G_def)
      show ?thesis
        using Cons.IH [OF ok2] ok2 loop None Cons.prems(2) by (auto split: if_splits)
    qed
  qed
qed simp

lemma watch_session_ok:
  assumes "worker_ok s extra r" "watch_session l es w r = (w', r')"
  shows "worker_ok s extra r' \<and> wk_sessions r' = wk_sessions r \<and> wk_cursor r' = wk_cursor r"
  using assms
proof (induction l es w r rule: watch_session.induct)
  case (3 l ok es w r)
  have "worker_ok s extra (r\<lparr>wk_cache := record_allocation l (wk_cache r), wk_recovered := wk_recovered r + 1\<rparr>)"
    using worker_ok_cache [OF 3(3), of "record_allocation l (wk_cache r)"] cache_run_calls(2) by simp
  then show ?case using 3 by (auto split: if_splits)
next
  case (4 l xs es w r)
  then show ?case using worker_ok_others [OF 4(2)] by auto
qed (auto split: if_splits)


text \<open>The account of the cursors: they count the sessions, up to the wrap of the counter.\<close>

definition cursors_ok :: "worker_run \<Rightarrow> bool" where
  "cursors_ok r = (wk_cursor r = of_nat (length (wk_sessions r))
     \<and> map fst (wk_sessions r) = map of_nat [0..<length (wk_sessions r)])"

definition turn_extra :: "turn_end \<Rightarrow> credential_lease list \<Rightarrow> bool" where
  "turn_extra out extra = (extra = [] \<or> out = TurnPending \<and> length extra = 1)"

lemma give_back_keeps [simp]:
  "wk_sessions (give_back xs l r) = wk_sessions r" "wk_cursor (give_back xs l r) = wk_cursor r"
  by (simp_all add: give_back_def Let_def)

lemma watch_session_keeps:
  "watch_session l es w r = (w', r') \<Longrightarrow> wk_sessions r' = wk_sessions r"
  by (induction l es w r rule: watch_session.induct) (auto split: if_splits)

lemma lease_loop_keeps:
  "lease_loop xs r = (r', out) \<Longrightarrow> wk_sessions r' = wk_sessions r \<and> wk_cursor r' = wk_cursor r"
proof (induction xs arbitrary: r)
  case (Cons x xs)
  have keep: "wk_sessions (before_try x r) = wk_sessions r" "wk_cursor (before_try x r) = wk_cursor r"
    by (simp_all add: before_try_def Let_def)
  show ?case
    using Cons.prems keep Cons.IH
    by (auto simp: Let_def split: if_splits prod.splits option.splits)
qed simp

lemma record_session_ok:
  "worker_ok s (if panicked \<or> saw_start es then [l] else []) r
    \<Longrightarrow> worker_ok s [] (r\<lparr>wk_sessions := wk_sessions r @ [(c, l, es, panicked)]\<rparr>)"
  by (auto simp: worker_ok_def accounted_def kept_leases_def lease_view_def)

lemma run_one_session_ok:
  assumes ok: "worker_ok s [l] r0" and cur: "cursors_ok r0"
    and run: "run_one_session i l r0 = (r', out)"
  shows "worker_ok s [] r' \<and> cursors_ok r' \<and> out \<noteq> TurnPending"
proof -
  let ?c = "wk_cursor r0"
  obtain w r1 where w: "watch_session l (ti_events i) watch_new (r0\<lparr>wk_cursor := ?c + 1\<rparr>) = (w, r1)"
    by (cases "watch_session l (ti_events i) watch_new (r0\<lparr>wk_cursor := ?c + 1\<rparr>)")
  have r1: "worker_ok s [l] r1" "wk_sessions r1 = wk_sessions r0" "wk_cursor r1 = ?c + 1"
    using watch_session_ok [OF _ w, of s "[l]"] ok by simp_all
  have started: "allocation_started w = saw_start (ti_events i)" by (rule watch_new_started [OF w])
  have next_cur: "cursors_ok r" if "wk_sessions r = wk_sessions r0 @ [(?c, l, k)]" "wk_cursor r = ?c + 1" for r k
    using cur that by (simp add: cursors_ok_def)
  show ?thesis
  proof (cases "ti_panics i")
    case True
    then have r': "r' = r1\<lparr>wk_sessions := wk_sessions r1 @ [(?c, l, ti_events i, True)]\<rparr>" and "out = TurnPanicked"
      using run w by (simp_all add: run_one_session_def)
    then show ?thesis
      using record_session_ok [of s True "ti_events i" l r1 ?c] r1 next_cur [of r' "(ti_events i, True)"] by simp
  next
    case False
    define r2 where "r2 = (if allocation_started w then r1 else give_back (ti_before_release i) l r1)"
    define r3 where "r3 = r2\<lparr>wk_sessions := wk_sessions r2 @ [(?c, l, ti_events i, False)]\<rparr>"
    define r4 where "r4 = others_act (ti_before_retry i) r3"
    obtain sent a c nts nxt where after:
      "after_session ((ti_end i)\<lparr>se_lease := l, se_unavailable := wk_unavailable r4\<rparr>)
         (ti_config_sent i) (wk_attempt r4) (wk_cache r4) = (sent, a, c, nts, nxt)"
      by (metis prod_cases5)
    have r': "r' = r4\<lparr>wk_attempt := a, wk_cache := c\<rparr>" and out: "out \<noteq> TurnPending"
      using run w False after
      by (auto simp: run_one_session_def Let_def r2_def [symmetric] r3_def r4_def
          split: retry_next.splits)
    have "worker_ok s (if False \<or> saw_start (ti_events i) then [l] else []) r2"
      using r1(1) worker_ok_give_back by (simp add: r2_def started)
    then have "worker_ok s [] r4"
      unfolding r4_def r3_def by (intro worker_ok_others record_session_ok)
    then have "worker_ok s [] (r4\<lparr>wk_cache := c\<rparr>)"
      by (rule worker_ok_cache) (rule after_session_run [OF after])
    moreover have "r' = (r4\<lparr>wk_cache := c\<rparr>)\<lparr>wk_attempt := a\<rparr>" using r' by simp
    ultimately have "worker_ok s [] r'" by simp
    moreover have "cursors_ok r'"
      by (rule next_cur [of r' "(ti_events i, False)"])
        (use r1 in \<open>simp_all add: r' r4_def r3_def r2_def\<close>)
    ultimately show ?thesis using out by simp
  qed
qed

lemma worker_turn_ok:
  assumes ok: "worker_ok s [] r" and cur: "cursors_ok r" and turn: "worker_turn i r = (r', out)"
  shows "(\<exists>extra. turn_extra out extra \<and> worker_ok s extra r') \<and> cursors_ok r'"
proof (cases "wait_until_resumed (ti_first_pause i) 0")
  case None
  then show ?thesis using assms by (auto simp: worker_turn_def turn_extra_def)
next
  case (Some first)
  obtain resumed t where first: "first = (resumed, t)" by (cases first)
  obtain r1 lo where loop: "lease_loop (ti_tries i) r = (r1, lo)" by (cases "lease_loop (ti_tries i) r")
  note ok1 = lease_loop_ok [OF ok loop]
  have cur1: "cursors_ok r1" using lease_loop_keeps [OF loop] cur by (simp add: cursors_ok_def)
  show ?thesis
  proof (cases "resumed \<and> (\<exists>l. lo = LeaseTaken l)")
    case False
    then show ?thesis
      using Some first loop turn ok cur ok1 cur1
      by (cases lo; cases resumed) (auto simp: worker_turn_def turn_extra_def)
  next
    case True
    then obtain l where l: "lo = LeaseTaken l" and resumed: resumed by blast
    have okl: "worker_ok s [l] r1" using ok1 l by simp
    have given: "worker_ok s [] (give_back (ti_before_release i) l r1)" by (rule worker_ok_give_back [OF okl])
    have curb: "cursors_ok (give_back (ti_before_release i) l r1)" using cur1 by (simp add: cursors_ok_def)
    show ?thesis
    proof (cases "snd (pacer_wait WORKER_START_INTERVAL (ti_pacer i) (ti_free_slot i)) = None")
      case True
      then show ?thesis
        using Some first loop turn l resumed given curb by (auto simp: worker_turn_def turn_extra_def)
    next
      case paced: False
      show ?thesis
      proof (cases "wait_until_resumed (ti_second_pause i) 0")
        case None
        then have "r' = r1" "out = TurnPending"
          using Some first loop turn l resumed paced by (simp_all add: worker_turn_def)
        then have "turn_extra out [l] \<and> worker_ok s [l] r' \<and> cursors_ok r'"
          using okl cur1 by (simp add: turn_extra_def)
        then show ?thesis by blast
      next
        case (Some second)
        obtain again t2 where second: "second = (again, t2)" by (cases second)
        show ?thesis
        proof (cases again)
          case True
          then have "run_one_session i l r1 = (r', out)"
            using Some second \<open>wait_until_resumed (ti_first_pause i) 0 = Some first\<close> first loop turn l resumed paced
            by (simp add: worker_turn_def)
          from run_one_session_ok [OF okl cur1 this] show ?thesis by (auto simp: turn_extra_def)
        next
          case False
          then show ?thesis
            using Some second \<open>wait_until_resumed (ti_first_pause i) 0 = Some first\<close> first loop turn l resumed paced given curb
            by (auto simp: worker_turn_def turn_extra_def)
        qed
      qed
    qed
  qed
qed

lemma supervise_worker_ok:
  assumes "worker_ok s [] r" "cursors_ok r" "supervise_worker inputs r = (r', out)"
  shows "(\<exists>extra. (extra = [] \<or> out = StillRunning \<and> length extra = 1) \<and> worker_ok s extra r') \<and> cursors_ok r'"
  using assms
proof (induction inputs arbitrary: r)
  case (Cons i rest)
  obtain r1 t where turn: "worker_turn i r = (r1, t)" by (cases "worker_turn i r")
  from worker_turn_ok [OF Cons.prems(1,2) turn]
  obtain extra where ok: "turn_extra t extra" "worker_ok s extra r1" and cur: "cursors_ok r1" by blast
  have cur0: "cursors_ok (r1\<lparr>wk_attempt := 0\<rparr>)" using cur by (simp add: cursors_ok_def)
  show ?case
  proof (cases t)
    case TurnReturned
    then show ?thesis using Cons.prems(3) turn ok cur by (auto simp: turn_extra_def)
  next
    case TurnPending
    then show ?thesis using Cons.prems(3) turn ok cur by (auto simp: turn_extra_def)
  next
    case (TurnAgain d)
    then show ?thesis using Cons.IH [OF _ cur] Cons.prems(3) turn ok by (auto simp: turn_extra_def)
  next
    case TurnPanicked
    then show ?thesis
      using Cons.IH [OF _ cur0] Cons.prems(3) turn ok cur by (auto simp: turn_extra_def split: if_splits)
  qed
qed auto

text \<open>Consecutive sessions of a worker start at consecutive servers.\<close>

lemma consecutive_endpoints:
  assumes "0 < n"
  shows "(\<lambda>c. turn_endpoint_index i c n) ` {k..<k + n} = {..<n}"
proof -
  have "turn_endpoint_index i (k + j) n = (i + k + j) mod n" for j
    by (simp add: turn_endpoint_index_def mod_add_eq add.assoc)
  then have "turn_endpoint_index i (k + j) n = [0..<n] ! ((i + k + j) mod n)" for j
    using assms by simp
  then have "(\<lambda>j. turn_endpoint_index i (k + j) n) ` {0..<n} = set (map (\<lambda>j. [0..<n] ! ((i + k + j) mod n)) [0..<n])"
    by (simp only: set_map set_upt)
  also have "\<dots> = {..<n}"
    using rotated_set [of "[0..<n]" "i + k"] assms by (simp add: atLeast0LessThan)
  moreover have "{k..<k + n} = (+) k ` {0..<n}" by (simp add: add.commute)
  ultimately show ?thesis by (simp only: image_image)
qed

lemma session_endpoints:
  assumes "cursors_ok r" "0 < n" "k + n \<le> length (wk_sessions r)" "length (wk_sessions r) < 2 ^ 64"
  shows "(\<lambda>x. turn_endpoint_index i (unat (fst x)) n) ` set (take n (drop k (wk_sessions r))) = {..<n}"
proof -
  have "map fst (take n (drop k (wk_sessions r))) = take n (drop k (map of_nat [0..<length (wk_sessions r)]))"
    using assms(1) by (simp add: cursors_ok_def flip: take_map drop_map)
  also have "\<dots> = map of_nat [k..<k + n]"
    using assms(3) by (simp add: take_map drop_map take_upt)
  finally have "map (unat \<circ> fst) (take n (drop k (wk_sessions r))) = map (unat \<circ> (of_nat :: nat \<Rightarrow> u64)) [k..<k + n]"
    by (metis map_map)
  also have "\<dots> = [k..<k + n]"
  proof (rule map_idI)
    fix c assume "c \<in> set [k..<k + n]"
    then have "c < 2 ^ 64" using assms(3,4) by simp
    then show "(unat \<circ> (of_nat :: nat \<Rightarrow> u64)) c = c" by (simp add: unat_of_nat)
  qed
  finally have "(unat \<circ> fst) ` set (take n (drop k (wk_sessions r))) = {k..<k + n}"
    by (metis atLeastLessThan_upt list.set_map)
  moreover have "(\<lambda>x. turn_endpoint_index i (unat (fst x)) n) ` S
      = (\<lambda>c. turn_endpoint_index i c n) ` ((unat \<circ> fst) ` S)" for S :: "session_log set"
    by (simp add: image_image)
  ultimately show ?thesis using consecutive_endpoints [OF assms(2), of i k] by simp
qed

text \<open>A lease is lost only in a turn whose session panics.\<close>

lemma run_one_session_lost:
  assumes "run_one_session i l r0 = (r', out)"
  shows "length (lost_leases r') = length (lost_leases r0) + (if ti_panics i then 1 else 0)"
proof -
  obtain w r1 where w: "watch_session l (ti_events i) watch_new (r0\<lparr>wk_cursor := wk_cursor r0 + 1\<rparr>) = (w, r1)"
    by (cases "watch_session l (ti_events i) watch_new (r0\<lparr>wk_cursor := wk_cursor r0 + 1\<rparr>)")
  have r1: "wk_sessions r1 = wk_sessions r0"
    using watch_session_keeps [OF w] by simp
  show ?thesis
    using assms w r1
    by (auto simp: run_one_session_def lost_leases_def Let_def split: prod.splits if_splits)
qed

lemma worker_turn_lost:
  assumes "worker_turn i r = (r', out)"
  shows "length (lost_leases r') \<le> length (lost_leases r) + (if ti_panics i then 1 else 0)"
proof -
  have same: "length (lost_leases r2) \<le> length (lost_leases r1) + k" if "wk_sessions r2 = wk_sessions r1" for r1 r2 k
    using that by (simp add: lost_leases_def)
  obtain r1 lo where loop: "lease_loop (ti_tries i) r = (r1, lo)" by (cases "lease_loop (ti_tries i) r")
  note r1 = conjunct1 [OF lease_loop_keeps [OF loop]]
  have lost1: "length (lost_leases r1) = length (lost_leases r)" using r1 by (simp add: lost_leases_def)
  consider "wk_sessions r' = wk_sessions r" | l where "run_one_session i l r1 = (r', out)"
    using assms loop r1 unfolding worker_turn_def
    by (auto split: option.splits prod.splits bool.splits lease_wait.splits if_splits)
  then show ?thesis
  proof cases
    case 1 then show ?thesis by (rule same)
  next
    case 2 then show ?thesis using run_one_session_lost [OF 2] lost1 by simp
  qed
qed

lemma supervise_worker_lost:
  "supervise_worker inputs r = (r', out)
    \<Longrightarrow> length (lost_leases r') \<le> length (lost_leases r) + length (filter ti_panics inputs)"
proof (induction inputs arbitrary: r)
  case (Cons i rest)
  obtain r1 t where turn: "worker_turn i r = (r1, t)" by (cases "worker_turn i r")
  note one = worker_turn_lost [OF turn]
  have same: "lost_leases (r1\<lparr>wk_attempt := 0\<rparr>) = lost_leases r1" by (simp add: lost_leases_def)
  show ?case
    using Cons.prems turn one Cons.IH [of r1] Cons.IH [of "r1\<lparr>wk_attempt := 0\<rparr>"] same
    by (cases t) (auto split: if_splits)
qed simp

text \<open>C32: whatever happens to a worker, its restarts after panics included, and whatever the other
  workers do with the shared credentials in between, no credential has more than 18 leases out.
  The leases a returned worker still holds are exactly those of the sessions that ended after they
  were seen to start an allocation, and those of the sessions that panicked, at most one for each
  panic: every other lease was given back exactly once, on every path, and a worker that is still
  running holds at most one more. A panic loses the lease of its session also when nothing had been
  allocated yet. Any n consecutive sessions of a worker that choose among n TURN servers start at
  all n of them.\<close>

theorem worker_leases_accounted:
  assumes "supervise_worker inputs (worker_start cache_new []) = (r, out)"
    and "next_generation (wk_cache r) \<noteq> - 1" and "length (wk_sessions r) < 2 ^ 64"
  shows "(\<forall>g. length (filter (\<lambda>l. cl_generation l = g) (wk_mine r @ wk_others r)) \<le> WORKERS_PER_CREDENTIAL)
    \<and> (\<exists>extra. mset (wk_mine r) = mset (started_leases r @ lost_leases r @ extra) \<and> length extra \<le> 1
         \<and> (out = WorkerReturned \<longrightarrow> extra = []))
    \<and> length (lost_leases r) \<le> length (filter ti_panics inputs)
    \<and> (\<forall>i k n. 0 < n \<and> k + n \<le> length (wk_sessions r) \<longrightarrow>
         (\<lambda>x. turn_endpoint_index i (unat (fst x)) n) ` set (take n (drop k (wk_sessions r))) = {..<n})"
proof -
  let ?s = "\<lparr>ls_cache = cache_new, ls_out = []\<rparr>"
  have "worker_ok ?s [] (worker_start cache_new [])" "cursors_ok (worker_start cache_new [])"
    by (simp_all add: worker_ok_def accounted_def kept_leases_def cursors_ok_def worker_start_def lease_view_def
        cache_run_refl)
  from supervise_worker_ok [OF this assms(1)]
  obtain extra where extra: "extra = [] \<or> out = StillRunning \<and> length extra = 1"
    and ok: "worker_ok ?s extra r" and cur: "cursors_ok r" by blast
  have "leases_bounded (lease_view r)"
  proof (rule leases_bounded_run)
    show "cache_run ?s (lease_view r)" using ok by (simp only: worker_ok_def)
    show "leases_bounded ?s" by (rule lease_inv_bounded [OF lease_inv_new])
    show "next_generation (ls_cache (lease_view r)) \<noteq> - 1" using assms(2) by (simp only: lease_view_def lease_state.select_convs not_False_eq_True)
  qed
  then have "out_of g (lease_view r) \<le> WORKERS_PER_CREDENTIAL" for g
    by (simp add: leases_bounded_def lease_inv_def)
  then have bound: "length (filter (\<lambda>l. cl_generation l = g) (wk_mine r @ wk_others r)) \<le> WORKERS_PER_CREDENTIAL" for g
    unfolding out_of_def lease_view_def lease_state.select_convs .
  have account: "mset (wk_mine r) = mset (started_leases r @ lost_leases r @ extra) \<and> length extra \<le> 1
      \<and> (out = WorkerReturned \<longrightarrow> extra = [])"
  proof -
    have "length extra \<le> 1" and "out = WorkerReturned \<longrightarrow> extra = []" using extra by auto
    moreover have "mset (wk_mine r) = mset (kept_leases r @ extra)"
      using ok unfolding worker_ok_def accounted_def by blast
    ultimately show ?thesis by (simp add: kept_split)
  qed
  have lost: "length (lost_leases r) \<le> length (filter ti_panics inputs)"
    using supervise_worker_lost [OF assms(1)] by (simp add: lost_leases_def worker_start_def)
  have tried: "(\<lambda>x. turn_endpoint_index i (unat (fst x)) n) ` set (take n (drop k (wk_sessions r))) = {..<n}"
    if "0 < n \<and> k + n \<le> length (wk_sessions r)" for i k n
    by (rule session_endpoints [OF cur _ _ assms(3)]) (use that in simp_all)
  show ?thesis by (intro conjI allI impI) (rule bound, rule exI, rule account, rule lost, rule tried)
qed

text \<open>A worker whose session starts an allocation and which is cancelled afterwards.\<close>

definition sample_try :: lease_try where
  "sample_try = \<lparr>lt_others = [], lt_marked = False, lt_failures = 0,
     lt_input = \<lparr>gi_cancelled_waiting = False, gi_unavailable_after = False, gi_cancelled_fetching = False,
       gi_answer = Fetched sample_credentials, gi_cancelled_sleeping = False, gi_jitter = 0\<rparr>,
     lt_cancelled = False\<rparr>"

definition sample_turn :: turn_input where
  "sample_turn = \<lparr>ti_first_pause = [(False, PausePolled)], ti_tries = [sample_try],
     ti_pacer = \<lparr>cancelled_queued = False, locked_at = 0, cancelled_asleep = False\<rparr>, ti_free_slot = 0,
     ti_second_pause = [(False, PausePolled)], ti_events = [AllocationStarted True], ti_panics = False,
     ti_before_release = [], ti_before_retry = [], ti_config_sent = True,
     ti_end = sample_end\<lparr>se_cancelled := True\<rparr>, ti_cancelled_after_panic = False\<rparr>"

definition sample_lease :: credential_lease where
  "sample_lease = \<lparr>cl_value = sample_credentials, cl_generation = 1\<rparr>"

lemma sample_worker:
  "\<exists>c. supervise_worker [sample_turn] (worker_start cache_new []) =
     (\<lparr>wk_cache = c, wk_mine = [sample_lease], wk_others = [], wk_unavailable = False, wk_attempt = 0,
       wk_cursor = 1, wk_sessions = [(0, sample_lease, [AllocationStarted True], False)], wk_recovered = 0\<rparr>, WorkerReturned)
     \<and> next_generation c = 1"
  by (simp add: sample_turn_def sample_try_def sample_lease_def worker_start_def worker_turn_def before_try_def
      others_act_def get_lease_def reserve_def store_def cache_new_def generation_after_def pacer_wait_def
      run_one_session_def watch_new_def after_session_def sample_end_def saturating_add_def usize_max_def
      should_refresh_configuration_after_full_outage_def Let_def)

text \<open>A session that panics before it has started to allocate: the worker returns, and the credential has
  one place less for good.\<close>

lemma early_panic_loses_lease:
  "\<exists>c. supervise_worker [sample_turn\<lparr>ti_events := [], ti_panics := True, ti_cancelled_after_panic := True\<rparr>]
       (worker_start cache_new []) =
     (\<lparr>wk_cache = c, wk_mine = [sample_lease], wk_others = [], wk_unavailable = False, wk_attempt = 0,
       wk_cursor = 1, wk_sessions = [(0, sample_lease, [], True)], wk_recovered = 0\<rparr>, WorkerReturned)"
  by (simp add: sample_turn_def sample_try_def sample_lease_def worker_start_def worker_turn_def before_try_def
      others_act_def get_lease_def reserve_def store_def cache_new_def generation_after_def pacer_wait_def
      run_one_session_def watch_new_def Let_def)

lemma worker_leases_accounted_witness:
  "\<exists>r. wk_mine r = [sample_lease] \<and> mset (wk_mine r) = mset (started_leases r) \<and> lost_leases r = []
     \<and> length (filter (\<lambda>l. cl_generation l = 1) (wk_mine r @ wk_others r)) \<le> WORKERS_PER_CREDENTIAL"
proof -
  obtain r where run: "supervise_worker [sample_turn] (worker_start cache_new []) = (r, WorkerReturned)"
    and r: "wk_mine r = [sample_lease]" "length (wk_sessions r) = 1" "next_generation (wk_cache r) = 1"
    using sample_worker by force
  have "\<not> ti_panics sample_turn" by (simp add: sample_turn_def)
  with worker_leases_accounted [OF run] r show ?thesis by (intro exI [of _ r]) auto
qed

end
