(* ===== verification/WorkerGroups.thy ===== *)
theory WorkerGroups
  imports Strings Credentials "HOL-Library.Multiset"
begin

text \<open>
  How the workers are laid out, \<^verbatim>\<open>backend/worker.rs\<close>: the parser of the configured call hashes
  (\<^verbatim>\<open>parse_hashes\<close>, \<^verbatim>\<open>normalize_hash\<close>), and the assignment of the groups to hashes and
  credentials at the start of \<^verbatim>\<open>run_groups\<close>.
\<close>

section \<open>Call hashes\<close>

definition JOIN_PATH :: str_text where
  "JOIN_PATH = lit ''/call/join/''"

text \<open>The characters \<^verbatim>\<open><>"'\<close> around a hash, \<^verbatim>\<open>?#/\<close> after it, and the separators of the list.\<close>

definition is_quote :: "nat \<Rightarrow> bool" where
  "is_quote c = (c = 60 \<or> c = 62 \<or> c = 34 \<or> c = 39)"

definition ends_hash :: "nat \<Rightarrow> bool" where
  "ends_hash c = (c = 63 \<or> c = 35 \<or> c = 47)"

definition is_separator :: "nat \<Rightarrow> bool" where
  "is_separator c = (c = 44 \<or> c = 59 \<or> c = 10 \<or> c = 13 \<or> c = 9 \<or> c = 32)"

text \<open>The end of \<^verbatim>\<open>normalize_hash\<close>: what is left once the link before the hash is gone.\<close>

definition cut_hash :: "str_text \<Rightarrow> str_text option" where
  "cut_hash v =
     (let cut = (case find_char ends_hash v of Some i \<Rightarrow> take i v | None \<Rightarrow> v);
          r = trim_matches (\<lambda>c. c = 47) (trim cut)
      in if r = [] then None else Some r)"

definition normalize_hash :: "str_text \<Rightarrow> str_text option" where
  "normalize_hash input =
     (let value = trim_matches is_quote (trim input); lower = to_ascii_lowercase value
      in if value = [] then None
         else case find_sub lower JOIN_PATH of
            Some i \<Rightarrow> cut_hash (drop (i + length JOIN_PATH) value)
          | None \<Rightarrow>
              if starts_with lower (lit ''http://'') \<or> starts_with lower (lit ''https://'') then None
              else cut_hash value)"

fun keep_first :: "str_text list \<Rightarrow> str_text list \<Rightarrow> str_text list" where
  "keep_first seen [] = []"
| "keep_first seen (x # xs) =
     (if x \<in> set seen then keep_first seen xs else x # keep_first (x # seen) xs)"

definition parse_hashes :: "str_text \<Rightarrow> str_text list" where
  "parse_hashes raw = keep_first [] (List.map_filter normalize_hash (split_chars is_separator raw))"

lemma keep_first_set: "set (keep_first seen xs) = set xs - set seen"
  by (induction xs arbitrary: seen) auto

lemma keep_first_distinct: "distinct (keep_first seen xs)"
  by (induction xs arbitrary: seen) (auto simp: keep_first_set)

lemma keep_first_id: "distinct xs \<Longrightarrow> set seen \<inter> set xs = {} \<Longrightarrow> keep_first seen xs = xs"
  by (induction xs arbitrary: seen) auto

lemma normalize_hash_finish:
  assumes "normalize_hash s = Some h"
  obtains v where "set v \<subseteq> set s" "h = trim_matches (\<lambda>c. c = 47) (trim (takeWhile (\<lambda>c. \<not> ends_hash c) v))" "h \<noteq> []"
proof -
  let ?w = "trim_matches is_quote (trim s)"
  have w: "set ?w \<subseteq> set s"
    using trim_matches_subset [of is_quote "trim s"] trim_matches_subset [of is_whitespace s]
    by (simp add: trim_trim_matches)
  from assms have "\<exists>v. (v = ?w \<or> (\<exists>i. v = drop i ?w)) \<and> cut_hash v = Some h"
    unfolding normalize_hash_def Let_def by (auto split: if_splits option.splits)
  then obtain v where v: "v = ?w \<or> (\<exists>i. v = drop i ?w)" "cut_hash v = Some h" by blast
  show ?thesis
  proof (rule that)
    show "set v \<subseteq> set s" using v(1) w set_drop_subset by fastforce
    show "h = trim_matches (\<lambda>c. c = 47) (trim (takeWhile (\<lambda>c. \<not> ends_hash c) v))" "h \<noteq> []"
      using v(2) unfolding cut_hash_def Let_def find_char_take by (auto split: if_splits)
  qed
qed

text \<open>whatever the text of the configuration, the parsed hashes are distinct and not empty, and
  none contains a separator, a path, a query or a fragment.\<close>

theorem parse_hashes_clean:
  "distinct (parse_hashes raw)
   \<and> list_all (\<lambda>h. h \<noteq> [] \<and> list_all (\<lambda>c. \<not> is_separator c \<and> \<not> ends_hash c) h) (parse_hashes raw)"
proof
  show "distinct (parse_hashes raw)" by (simp add: parse_hashes_def keep_first_distinct)
  have "h \<noteq> [] \<and> (\<forall>c \<in> set h. \<not> is_separator c \<and> \<not> ends_hash c)" if h: "h \<in> set (parse_hashes raw)" for h
  proof -
    from h obtain s where s: "s \<in> set (split_chars is_separator raw)" "normalize_hash s = Some h"
      by (auto simp: parse_hashes_def keep_first_set map_filter_def)
    from s(2) obtain v where v: "set v \<subseteq> set s" "h \<noteq> []"
      "h = trim_matches (\<lambda>c. c = 47) (trim (takeWhile (\<lambda>c. \<not> ends_hash c) v))"
      by (rule normalize_hash_finish)
    let ?t = "takeWhile (\<lambda>c. \<not> ends_hash c) v"
    have "set h \<subseteq> set ?t"
      unfolding v(3) trim_trim_matches using trim_matches_subset by blast
    then have "\<not> ends_hash c \<and> c \<in> set s" if "c \<in> set h" for c
      using that v(1) set_takeWhileD by fastforce
    then show ?thesis using v(2) split_chars_free [OF s(1)] by auto
  qed
  then show "list_all (\<lambda>h. h \<noteq> [] \<and> list_all (\<lambda>c. \<not> is_separator c \<and> \<not> ends_hash c) h) (parse_hashes raw)"
    by (simp add: list_all_iff)
qed

section \<open>Groups, workers and credentials\<close>

definition group_worker_ids :: "nat \<Rightarrow> nat list" where
  "group_worker_ids group_id =
     (let first = (group_id - 1) * WORKERS_PER_GROUP + 1 in [first ..< first + WORKERS_PER_GROUP])"

definition credential_stream_id :: "nat \<Rightarrow> nat" where
  "credential_stream_id credential_id = credential_id * 100"

definition group_hash_index :: "nat \<Rightarrow> nat \<Rightarrow> nat" where
  "group_hash_index group_index hash_count = group_index mod hash_count"

definition credential_cohort_index :: "nat \<Rightarrow> nat" where
  "credential_cohort_index k = k div GROUPS_PER_CREDENTIAL"

text \<open>The loop over the groups: per hash the credentials' ids so far and the groups so far, the next
  id, and per group its hash and its credential.\<close>

record group_layout =
  credentials_by_hash :: "nat list list"
  groups_by_hash :: "nat list"
  next_credential_id :: nat
  group_credentials_of :: "(nat \<times> nat) list"

definition layout_new :: "nat \<Rightarrow> group_layout" where
  "layout_new hash_count = \<lparr>credentials_by_hash = replicate hash_count [],
     groups_by_hash = replicate hash_count 0, next_credential_id = 1, group_credentials_of = []\<rparr>"

definition assign_group :: "nat \<Rightarrow> nat \<Rightarrow> group_layout \<Rightarrow> group_layout" where
  "assign_group hash_count group_index s =
     (let h = group_hash_index group_index hash_count;
          k = groups_by_hash s ! h;
          cohort = credential_cohort_index k;
          s1 = s\<lparr>groups_by_hash := (groups_by_hash s)[h := saturating_add k 1]\<rparr>;
          s2 = (if length (credentials_by_hash s1 ! h) \<le> cohort
                then s1\<lparr>credentials_by_hash := (credentials_by_hash s1)
                          [h := credentials_by_hash s1 ! h @ [next_credential_id s1]],
                        next_credential_id := saturating_add (next_credential_id s1) 1\<rparr>
                else s1)
      in s2\<lparr>group_credentials_of := group_credentials_of s2 @ [(h, credentials_by_hash s2 ! h ! cohort)]\<rparr>)"

definition run_groups_layout :: "nat \<Rightarrow> nat \<Rightarrow> group_layout" where
  "run_groups_layout groups hash_count =
     foldl (\<lambda>s i. assign_group hash_count i s) (layout_new hash_count) [0..<groups]"

text \<open>Every worker has an id of its own, and together they are numbered from 1.\<close>

lemma worker_ids_partition:
  "concat (map group_worker_ids [1..<Suc n]) = [1..<Suc (n * WORKERS_PER_GROUP)]"
proof (induction n)
  case (Suc n)
  have "[1..<Suc (n * WORKERS_PER_GROUP)] @ group_worker_ids (Suc n) = [1..<Suc (Suc n * WORKERS_PER_GROUP)]"
    using upt_add_eq_append [of 1 "Suc (n * WORKERS_PER_GROUP)" WORKERS_PER_GROUP]
    by (simp add: group_worker_ids_def Let_def algebra_simps)
  moreover have "[1..<Suc (Suc n)] = [1..<Suc n] @ [Suc n]" by simp
  ultimately show ?case using Suc by (simp del: upt_Suc)
qed simp

text \<open>The groups of a hash among the first \<open>n\<close>.\<close>

definition groups_before :: "nat \<Rightarrow> nat \<Rightarrow> nat \<Rightarrow> nat" where
  "groups_before H n h = (n + (H - 1 - h)) div H"

lemma groups_before_0: "h < H \<Longrightarrow> groups_before H 0 h = 0"
  by (simp add: groups_before_def)

lemma groups_before_own:
  assumes "0 < H"
  shows "groups_before H n (n mod H) = n div H"
proof -
  have "n mod H < H" using assms by simp
  then have "n + (H - 1 - n mod H) = H - 1 + n div H * H"
    using div_mult_mod_eq [of n H] by linarith
  moreover have "(H - 1 + n div H * H) div H = n div H"
    using assms div_mult_self1 [of H "H - 1" "n div H"] by simp
  ultimately show ?thesis unfolding groups_before_def by simp
qed

lemma groups_before_Suc:
  assumes "h < H"
  shows "groups_before H (Suc n) h = (if n mod H = h then Suc (groups_before H n h) else groups_before H n h)"
proof -
  have m: "Suc (n + (H - 1 - h)) = n + (H - h)" using assms by simp
  have "(n + (H - h)) mod H = 0 \<longleftrightarrow> n mod H = h"
  proof -
    have "(n + (H - h)) mod H = (n mod H + (H - h)) mod H" by (simp add: mod_add_left_eq)
    moreover have "n mod H < H" using assms by simp
    moreover have "(n mod H + (H - h)) mod H = 0 \<longleftrightarrow> n mod H = h" if "n mod H < H"
    proof (cases "n mod H < h")
      case True
      then have "n mod H + (H - h) < H" "n mod H + (H - h) \<noteq> 0" using assms by linarith+
      then have "(n mod H + (H - h)) mod H \<noteq> 0" by (simp only: mod_less) simp
      then show ?thesis using True by simp
    next
      case False
      then have "n mod H + (H - h) = H + (n mod H - h)" using assms by linarith
      moreover have "n mod H - h < H" using that by linarith
      ultimately show ?thesis using False by (simp only: mod_add_self1) auto
    qed
    ultimately show ?thesis by simp
  qed
  then show ?thesis
    using div_Suc [of "n + (H - 1 - h)" H] unfolding groups_before_def add_Suc m by (simp only:)
qed

text \<open>
  After \<open>n\<close> groups: a hash has one credential per started pair of its groups, all ids differ,
  and every group so far was given its hash and the credential of its pair.
\<close>

definition layout_inv :: "nat \<Rightarrow> nat \<Rightarrow> group_layout \<Rightarrow> bool" where
  "layout_inv H n s \<longleftrightarrow>
     length (credentials_by_hash s) = H \<and> length (groups_by_hash s) = H
     \<and> (\<forall>h < H. groups_by_hash s ! h = groups_before H n h
          \<and> length (credentials_by_hash s ! h) = (groups_before H n h + 1) div 2)
     \<and> distinct (concat (credentials_by_hash s))
     \<and> (\<forall>c \<in> set (concat (credentials_by_hash s)). 1 \<le> c \<and> c < next_credential_id s)
     \<and> 1 \<le> next_credential_id s \<and> next_credential_id s \<le> n + 1
     \<and> length (group_credentials_of s) = n
     \<and> (\<forall>i < n. i div H div 2 < length (credentials_by_hash s ! (i mod H))
          \<and> group_credentials_of s ! i = (i mod H, credentials_by_hash s ! (i mod H) ! (i div H div 2)))"

lemma layout_inv_new: "layout_inv H 0 (layout_new H)"
  by (simp add: layout_inv_def layout_new_def groups_before_0)

lemma concat_update_snoc:
  "h < length xss \<Longrightarrow> mset (concat (xss[h := xss ! h @ [x]])) = add_mset x (mset (concat xss))"
proof (induction xss arbitrary: h)
  case (Cons xs xss)
  then show ?case by (cases h) auto
qed simp

lemma distinct_concat_nth:
  assumes "distinct (concat xss)" and "a < length xss" "b < length xss"
    and "i < length (xss ! a)" "j < length (xss ! b)" and "xss ! a ! i = xss ! b ! j"
  shows "a = b \<and> i = j"
  using assms
proof (induction xss arbitrary: a b)
  case (Cons xs xss)
  have mem: "xss ! k ! l \<in> set (concat xss)" if "k < length xss" "l < length (xss ! k)" for k l
    using that nth_mem by (auto intro!: bexI [of _ "xss ! k"])
  have disj: "y \<in> set xs \<Longrightarrow> y \<in> set (concat xss) \<Longrightarrow> False" for y using Cons.prems(1) by auto
  show ?case
  proof (cases a)
    case a: 0
    show ?thesis
    proof (cases b)
      case 0
      then show ?thesis using Cons.prems a by (simp add: nth_eq_iff_index_eq)
    next
      case (Suc b')
      then have "xs ! i = xss ! b' ! j" "i < length xs" "b' < length xss" "j < length (xss ! b')"
        using Cons.prems a by simp_all
      then show ?thesis using disj [of "xs ! i"] mem [of b' j] nth_mem [of i xs] by simp
    qed
  next
    case a: (Suc a')
    show ?thesis
    proof (cases b)
      case 0
      then have "xss ! a' ! i = xs ! j" "j < length xs" "a' < length xss" "i < length (xss ! a')"
        using Cons.prems a by simp_all
      then show ?thesis using disj [of "xs ! j"] mem [of a' i] nth_mem [of j xs] by simp
    next
      case (Suc b')
      have "a' = b' \<and> i = j" by (rule Cons.IH) (use Cons.prems a Suc in auto)
      then show ?thesis by (simp add: a Suc)
    qed
  qed
qed simp

lemma div_two: "m = (k + 1) div 2 \<Longrightarrow> m \<le> k div 2 \<longleftrightarrow> even k" for m k :: nat
  by presburger

lemma layout_inv_step:
  assumes inv: "layout_inv H n s" and H: "0 < H" and n: "n + 2 < usize_max"
  shows "layout_inv H (Suc n) (assign_group H n s)"
proof -
  let ?h = "n mod H"
  let ?k = "n div H"
  have h: "?h < H" using H by simp
  have lens: "length (credentials_by_hash s) = H" "length (groups_by_hash s) = H"
    using inv by (simp_all add: layout_inv_def)
  have k: "groups_by_hash s ! ?h = ?k" and len: "length (credentials_by_hash s ! ?h) = (?k + 1) div 2"
    using inv h groups_before_own [OF H, of n] by (simp_all add: layout_inv_def)
  have kn: "?k \<le> n" by simp
  have "next_credential_id s \<le> n + 1" using inv by (simp add: layout_inv_def)
  then have ksat: "saturating_add ?k 1 = Suc ?k" and nsat: "saturating_add (next_credential_id s) 1 = Suc (next_credential_id s)"
    using n kn by (simp_all only: saturating_add_def)
  have cond: "length (credentials_by_hash s ! ?h) \<le> ?k div 2 \<longleftrightarrow> even ?k" by (rule div_two [OF len])
  define cs where "cs = (if even ?k then (credentials_by_hash s)[?h := credentials_by_hash s ! ?h @ [next_credential_id s]]
    else credentials_by_hash s)"
  define nx where "nx = (if even ?k then Suc (next_credential_id s) else next_credential_id s)"
  have t: "assign_group H n s = \<lparr>credentials_by_hash = cs, groups_by_hash = (groups_by_hash s)[?h := Suc ?k],
      next_credential_id = nx, group_credentials_of = group_credentials_of s @ [(?h, cs ! ?h ! (?k div 2))]\<rparr>"
    using cond by (simp add: assign_group_def Let_def group_hash_index_def credential_cohort_index_def
        GROUPS_PER_CREDENTIAL_def k ksat nsat cs_def nx_def del: One_nat_def)
  have len_cs: "length (cs ! g) = (groups_before H (Suc n) g + 1) div 2" if "g < H" for g
    using that inv h lens len groups_before_own [OF H, of n]
    by (auto simp: cs_def layout_inv_def groups_before_Suc nth_list_update elim!: evenE oddE)
  have ext: "i < length (credentials_by_hash s ! g) \<Longrightarrow> i < length (cs ! g) \<and> cs ! g ! i = credentials_by_hash s ! g ! i"
    if "g < H" for g i
    using that lens h by (auto simp: cs_def nth_list_update nth_append)
  have ids: "distinct (concat cs) \<and> (\<forall>c \<in> set (concat cs). 1 \<le> c \<and> c < nx)"
  proof (cases "even ?k")
    case True
    have m: "mset (concat cs) = add_mset (next_credential_id s) (mset (concat (credentials_by_hash s)))"
      using concat_update_snoc [of ?h "credentials_by_hash s"] h lens True by (simp add: cs_def)
    then have "set (concat cs) = insert (next_credential_id s) (set (concat (credentials_by_hash s)))"
      by (metis set_mset_add_mset_insert set_mset_mset)
    moreover have "distinct (concat cs)"
    proof -
      have "next_credential_id s \<notin> set (concat (credentials_by_hash s))" using inv by (auto simp: layout_inv_def)
      moreover have "distinct (concat (credentials_by_hash s))" using inv by (simp add: layout_inv_def)
      ultimately have "distinct (next_credential_id s # concat (credentials_by_hash s))" by simp
      then show ?thesis using m by (metis mset.simps(2) mset_eq_imp_distinct_iff)
    qed
    ultimately show ?thesis using inv True by (auto simp: layout_inv_def nx_def less_Suc_eq)
  qed (use inv in \<open>simp add: cs_def nx_def layout_inv_def\<close>)
  have new: "?k div 2 < length (cs ! ?h)"
    using len_cs [OF h] groups_before_own [OF H, of n] groups_before_Suc [OF h, of n]
    by simp
  have old: "i div H div 2 < length (cs ! (i mod H))
      \<and> group_credentials_of s ! i = (i mod H, cs ! (i mod H) ! (i div H div 2))" if "i < n" for i
  proof -
    have "i div H div 2 < length (credentials_by_hash s ! (i mod H))"
      and out: "group_credentials_of s ! i = (i mod H, credentials_by_hash s ! (i mod H) ! (i div H div 2))"
      using inv that by (simp_all add: layout_inv_def)
    moreover have "i mod H < H" using H by simp
    ultimately show ?thesis using ext [of "i mod H" "i div H div 2"] by simp
  qed
  have len_out: "length (group_credentials_of s) = n" using inv by (simp add: layout_inv_def)
  show ?thesis
    unfolding layout_inv_def t
    using ids len_cs old new inv lens h H len_out
    by (auto simp: layout_inv_def cs_def nx_def nth_append less_Suc_eq nth_list_update groups_before_Suc
        groups_before_own)
qed

lemma layout_inv_run:
  assumes "0 < H" and "n + 2 < usize_max"
  shows "layout_inv H n (run_groups_layout n H)"
  using assms(2)
proof (induction n)
  case 0
  then show ?case by (simp add: run_groups_layout_def layout_inv_new)
next
  case (Suc n)
  then show ?case
    using layout_inv_step [OF _ assms(1), of n "run_groups_layout n H"]
    by (simp add: run_groups_layout_def)
qed

text \<open>the workers are numbered from 1 without gaps, nine per group; two groups share a
  credential exactly when they have the same hash and are the two groups of one pair of it, so a
  credential serves one hash and at most eighteen workers.\<close>

theorem credentials_shared_by_pairs:
  assumes "0 < H" and "n + 2 < usize_max" and "i < n" and "j < n"
  shows "fst (group_credentials_of (run_groups_layout n H) ! i) = group_hash_index i H
    \<and> (snd (group_credentials_of (run_groups_layout n H) ! i) = snd (group_credentials_of (run_groups_layout n H) ! j)
        \<longleftrightarrow> i mod H = j mod H \<and> i div H div 2 = j div H div 2)
    \<and> concat (map group_worker_ids [1..<Suc n]) = [1..<Suc (n * 9)]"
proof -
  let ?s = "run_groups_layout n H"
  have inv: "layout_inv H n ?s" by (rule layout_inv_run [OF assms(1,2)])
  have out: "group_credentials_of ?s ! k = (k mod H, credentials_by_hash ?s ! (k mod H) ! (k div H div 2))"
    and bound: "k div H div 2 < length (credentials_by_hash ?s ! (k mod H))" if "k < n" for k
    using inv that by (simp_all add: layout_inv_def)
  have "distinct (concat (credentials_by_hash ?s))" and "length (credentials_by_hash ?s) = H"
    using inv by (simp_all add: layout_inv_def)
  then have "snd (group_credentials_of ?s ! i) = snd (group_credentials_of ?s ! j)
      \<longleftrightarrow> i mod H = j mod H \<and> i div H div 2 = j div H div 2"
    using out [OF assms(3)] out [OF assms(4)] bound [OF assms(3)] bound [OF assms(4)] assms(1)
      distinct_concat_nth [of "credentials_by_hash ?s" "i mod H" "j mod H" "i div H div 2" "j div H div 2"]
    by auto
  then show ?thesis
    using out [OF assms(3)] worker_ids_partition [of n]
    by (simp add: group_hash_index_def WORKERS_PER_GROUP_def del: upt_Suc)
qed

lemma credentials_shared_by_pairs_witness:
  "snd (group_credentials_of (run_groups_layout 4 2) ! 0) = snd (group_credentials_of (run_groups_layout 4 2) ! 2)"
  using credentials_shared_by_pairs [of 2 4 0 2] by (simp add: usize_max_def)

end
