(* ===== verification/Dns.thy ===== *)
theory Dns
  imports Strings StunMessage
begin

text \<open>
  The resolver of \<^verbatim>\<open>backend/dns.rs\<close>: the query it sends, the parser of the answer, the race of the
  two servers and the fallback to the system resolver. A host name is the list of its bytes.
\<close>

section \<open>The query\<close>

datatype dns_error =
    DnsName | DnsLabel
  | DnsShort | DnsForeignId | DnsNotResponse | DnsTruncated | DnsStatus u16
  | DnsBadQuestion | DnsBadAnswer | DnsBadRecord
  | DnsBadName | DnsBadPointer | DnsReservedLabel | DnsNameOverflow | DnsCutName | DnsCutHeader
  | DnsSocket | DnsBothRefused dns_error dns_error
  | DnsEmptyAnswer | DnsTimedOut | DnsSystemFailed

definition DNS_A_RECORD :: u16 where "DNS_A_RECORD = 1"
definition DNS_AAAA_RECORD :: u16 where "DNS_AAAA_RECORD = 28"

definition label_ok :: "bytes \<Rightarrow> bool" where
  "label_ok l = (l \<noteq> [] \<and> length l \<le> 63 \<and> list_all (\<lambda>b. b < 128) l)"

fun encode_labels :: "bytes list \<Rightarrow> (dns_error, bytes) res" where
  "encode_labels [] = Inr []"
| "encode_labels (l # ls) =
     and_then (ensure (label_ok l) DnsLabel) (\<lambda>_.
     and_then (encode_labels ls) (\<lambda>rest. Inr (of_nat (length l) # l @ rest)))"

definition build_query :: "bytes \<Rightarrow> u16 \<Rightarrow> u16 \<Rightarrow> (dns_error, bytes) res" where
  "build_query name query_id record_type =
     (let host = rev (dropWhile (\<lambda>b. b = 46) (rev name)) in
      and_then (ensure (host \<noteq> [] \<and> length host \<le> 253) DnsName) (\<lambda>_.
      and_then (encode_labels (split_on 46 host)) (\<lambda>labels.
      Inr (be16 query_id @ be16 0x0100 @ be16 1 @ be16 0 @ be16 0 @ be16 0
        @ labels @ [0] @ be16 record_type @ be16 1))))"

section \<open>The answer\<close>

definition dns_read_u16 :: "bytes \<Rightarrow> nat \<Rightarrow> (dns_error, u16) res" where
  "dns_read_u16 message offset =
     map_sum id of_be16 (ok_or (get_slice message offset (offset + 2)) DnsCutHeader)"

text \<open>\<^verbatim>\<open>checked_add\<close> with \<^verbatim>\<open>filter(|value| *value <= message.len())\<close>.\<close>

definition offset_in :: "bytes \<Rightarrow> nat \<Rightarrow> nat \<Rightarrow> nat option" where
  "offset_in message a b =
     (case checked_add a b of None \<Rightarrow> None | Some v \<Rightarrow> if v \<le> length message then Some v else None)"

function skip_name :: "bytes \<Rightarrow> nat \<Rightarrow> (dns_error, nat) res" where
  "skip_name message offset =
     (case get_at message offset of
        None \<Rightarrow> Inl (Fail DnsBadName)
      | Some l \<Rightarrow>
          if l AND 0xc0 = 0xc0 then ok_or (offset_in message offset 2) DnsBadPointer
          else if l AND 0xc0 \<noteq> 0 then Inl (Fail DnsReservedLabel)
          else (case checked_add offset 1 of
              None \<Rightarrow> Inl (Fail DnsNameOverflow)
            | Some o1 \<Rightarrow>
                if l = 0 then Inr o1
                else (case offset_in message o1 (unat l) of
                    None \<Rightarrow> Inl (Fail DnsCutName)
                  | Some o2 \<Rightarrow> skip_name message o2)))"
  by pat_completeness auto

termination
  by (relation "measure (\<lambda>(m, k). length m - k)")
     (auto simp: get_at_def offset_in_def dest!: checked_add_SomeD split: if_splits option.splits)

declare skip_name.simps [simp del]

fun skip_questions :: "bytes \<Rightarrow> nat \<Rightarrow> nat \<Rightarrow> (dns_error, nat) res" where
  "skip_questions message 0 offset = Inr offset"
| "skip_questions message (Suc n) offset =
     and_then (skip_name message offset) (\<lambda>o1.
     and_then (ok_or (offset_in message o1 4) DnsBadQuestion) (\<lambda>o2.
     skip_questions message n o2))"

definition add_address :: "ip_addr \<Rightarrow> ip_addr list \<Rightarrow> ip_addr list" where
  "add_address a as = (if a \<in> set as then as else as @ [a])"

text \<open>One resource record after its name; the octets of an address are indexed, as the code does.\<close>

definition record_addresses ::
  "bytes \<Rightarrow> u16 \<Rightarrow> u16 \<Rightarrow> nat \<Rightarrow> nat \<Rightarrow> ip_addr list \<Rightarrow> (dns_error, ip_addr list) res" where
  "record_addresses message kind rclass start stop as =
     and_then (if rclass = 1 \<and> kind = DNS_A_RECORD \<and> stop - start = 4
       then and_then (read_at message start) (\<lambda>a. and_then (read_at message (start + 1)) (\<lambda>b.
            and_then (read_at message (start + 2)) (\<lambda>c. and_then (read_at message (start + 3)) (\<lambda>d.
            Inr (add_address (V4 (of_be32 [a, b, c, d])) as)))))
       else Inr as) (\<lambda>as1.
     if rclass = 1 \<and> kind = DNS_AAAA_RECORD \<and> stop - start = 16
     then and_then (slice message start stop) (\<lambda>octets. Inr (add_address (V6 (of_be128 octets)) as1))
     else Inr as1)"

fun parse_answers :: "bytes \<Rightarrow> nat \<Rightarrow> nat \<Rightarrow> ip_addr list \<Rightarrow> (dns_error, ip_addr list) res" where
  "parse_answers message 0 offset as = Inr as"
| "parse_answers message (Suc n) offset0 as =
     and_then (skip_name message offset0) (\<lambda>offset.
     and_then (dns_read_u16 message offset) (\<lambda>kind.
     and_then (dns_read_u16 message (offset + 2)) (\<lambda>rclass.
     and_then (dns_read_u16 message (offset + 8)) (\<lambda>len.
     and_then (ok_or (offset_in message offset 10) DnsBadAnswer) (\<lambda>start.
     and_then (ok_or (offset_in message start (unat len)) DnsBadRecord) (\<lambda>stop.
     and_then (record_addresses message kind rclass start stop as) (\<lambda>as1.
     parse_answers message n stop as1)))))))"

definition parse_response :: "bytes \<Rightarrow> u16 \<Rightarrow> (dns_error, ip_addr list) res" where
  "parse_response response query_id =
     and_then (ensure (12 \<le> length response) DnsShort) (\<lambda>_.
     and_then (dns_read_u16 response 0) (\<lambda>i.
     and_then (ensure (i = query_id) DnsForeignId) (\<lambda>_.
     and_then (dns_read_u16 response 2) (\<lambda>flags.
     and_then (ensure (flags AND 0x8000 \<noteq> 0) DnsNotResponse) (\<lambda>_.
     and_then (ensure (flags AND 0x0200 = 0) DnsTruncated) (\<lambda>_.
     and_then (ensure (flags AND 0x000f = 0) (DnsStatus (flags AND 0x000f))) (\<lambda>_.
     and_then (dns_read_u16 response 4) (\<lambda>questions.
     and_then (dns_read_u16 response 6) (\<lambda>answers.
     and_then (skip_questions response (unat questions) 12) (\<lambda>offset.
     parse_answers response (unat answers) offset []))))))))))"

section \<open>Servers and fallback\<close>

text \<open>What one socket receives: datagrams with the address they came from, then an error.\<close>

datatype dns_receive = Datagram socket_addr bytes | ReceiveError

fun query_dns_server :: "socket_addr \<Rightarrow> u16 \<Rightarrow> dns_receive list \<Rightarrow> (dns_error, ip_addr list) res option" where
  "query_dns_server server query_id [] = None"
| "query_dns_server server query_id (ReceiveError # rest) = Some (Inl (Fail DnsSocket))"
| "query_dns_server server query_id (Datagram source d # rest) =
     (if source \<noteq> server then query_dns_server server query_id rest
      else Some (parse_response (take 1500 d) query_id))"

definition DNS_TIMEOUT :: nat where "DNS_TIMEOUT = 5000"

datatype yandex_outcome = YandexOk "ip_addr list" | YandexTimedOut | YandexFailed dns_error

text \<open>
  Each server finishes at a time with a result, or not at all; \<open>tie\<close> is the choice of
  \<^verbatim>\<open>select!\<close> when both are ready. The first success wins; after a first failure the other one is
  awaited; the whole race is cut after five seconds.
\<close>

type_synonym server_run = "(nat \<times> dns_error + nat \<times> ip_addr list) option"

fun finish_time :: "server_run \<Rightarrow> nat option" where
  "finish_time None = None"
| "finish_time (Some (Inl (t, _))) = Some t"
| "finish_time (Some (Inr (t, _))) = Some t"

definition primary_first :: "bool \<Rightarrow> server_run \<Rightarrow> server_run \<Rightarrow> bool" where
  "primary_first tie p s =
     (case (finish_time p, finish_time s) of
        (Some a, Some b) \<Rightarrow> a < b \<or> a = b \<and> tie
      | (Some a, None) \<Rightarrow> True
      | _ \<Rightarrow> False)"

definition query_yandex :: "bool \<Rightarrow> server_run \<Rightarrow> server_run \<Rightarrow> yandex_outcome" where
  "query_yandex tie p s =
     (let first = (if primary_first tie p s then p else s);
          second = (if primary_first tie p s then s else p)
      in case first of
           None \<Rightarrow> YandexTimedOut
         | Some (Inr (t, as)) \<Rightarrow> if t \<le> DNS_TIMEOUT then YandexOk as else YandexTimedOut
         | Some (Inl (t, e)) \<Rightarrow>
             if DNS_TIMEOUT < t then YandexTimedOut
             else (case second of
                 None \<Rightarrow> YandexTimedOut
               | Some (Inr (u, as)) \<Rightarrow> if u \<le> DNS_TIMEOUT then YandexOk as else YandexTimedOut
               | Some (Inl (u, e2)) \<Rightarrow>
                   if u \<le> DNS_TIMEOUT then YandexFailed (DnsBothRefused e e2) else YandexTimedOut))"

definition yandex_lookup :: "bytes \<Rightarrow> u16 \<Rightarrow> (bytes \<Rightarrow> u16 \<Rightarrow> yandex_outcome) \<Rightarrow> (dns_error fault + yandex_outcome)" where
  "yandex_lookup host query_id race =
     and_then (build_query host query_id DNS_A_RECORD) (\<lambda>a_query.
     case race a_query query_id of
       YandexOk as \<Rightarrow>
         if as \<noteq> [] then Inr (YandexOk as)
         else and_then (build_query host (query_id + 1) DNS_AAAA_RECORD) (\<lambda>aaaa_query.
           Inr (race aaaa_query (query_id + 1)))
     | other \<Rightarrow> Inr other)"

definition dedup_addresses :: "ip_addr list \<Rightarrow> ip_addr list" where
  "dedup_addresses as = foldl (\<lambda>acc a. add_address a acc) [] as"

definition system_lookup :: "ip_addr list option \<Rightarrow> (dns_error, ip_addr list) res" where
  "system_lookup answer =
     (case answer of None \<Rightarrow> Inl (Fail DnsSystemFailed)
      | Some as \<Rightarrow> if dedup_addresses as = [] then Inl (Fail DnsEmptyAnswer) else Inr (dedup_addresses as))"

text \<open>\<open>literal\<close> is the parse of the host as an IP address, \<open>system\<close> the answer of the system resolver.\<close>

definition lookup ::
  "ip_addr option \<Rightarrow> bytes \<Rightarrow> u16 \<Rightarrow> (bytes \<Rightarrow> u16 \<Rightarrow> yandex_outcome) \<Rightarrow> bool \<Rightarrow> ip_addr list option
   \<Rightarrow> (dns_error, ip_addr list) res" where
  "lookup literal host query_id race tunnel_active system =
     (case literal of Some a \<Rightarrow> Inr [a]
      | None \<Rightarrow>
          and_then (yandex_lookup host query_id race) (\<lambda>r. case r of
              YandexOk as \<Rightarrow> if as \<noteq> [] then Inr as else Inl (Fail DnsEmptyAnswer)
            | YandexTimedOut \<Rightarrow> if \<not> tunnel_active then system_lookup system else Inl (Fail DnsTimedOut)
            | YandexFailed e \<Rightarrow> Inl (Fail e)))"

section \<open>Hostile answers\<close>

lemma offset_in_SomeD: "offset_in m a b = Some c \<Longrightarrow> c = a + b \<and> c \<le> length m"
  by (auto simp: offset_in_def dest!: checked_add_SomeD split: option.splits if_splits)

lemma no_panic_skip_name: "no_panic (skip_name m k)"
  by (induction m k rule: skip_name.induct, subst skip_name.simps) (auto split: option.split)

lemma no_panic_dns_read_u16: "no_panic (dns_read_u16 m k)"
  by (auto simp: dns_read_u16_def ok_or_def split: option.split)

lemma no_panic_skip_questions: "no_panic (skip_questions m n k)"
  by (induction m n k rule: skip_questions.induct) (auto intro!: no_panic_and_then no_panic_skip_name)

lemma record_addresses_Inr:
  assumes "start \<le> stop" "stop \<le> length m" "distinct as"
  shows "\<exists>as1. record_addresses m kind rclass start stop as = Inr as1 \<and> distinct as1 \<and> length as1 \<le> Suc (length as)"
  using assms by (auto simp: record_addresses_def add_address_def DNS_A_RECORD_def DNS_AAAA_RECORD_def)

definition addresses_within :: "nat \<Rightarrow> (dns_error, ip_addr list) res \<Rightarrow> bool" where
  "addresses_within n r = (no_panic r \<and> (\<forall>as. r = Inr as \<longrightarrow> distinct as \<and> length as \<le> n))"

lemma addresses_within_and_then:
  "no_panic r \<Longrightarrow> (\<And>x. r = Inr x \<Longrightarrow> addresses_within n (f x)) \<Longrightarrow> addresses_within n (and_then r f)"
  by (cases r) (auto simp: addresses_within_def no_panic_def split: fault.splits)

lemma parse_answers_safe: "distinct as \<Longrightarrow> addresses_within (length as + n) (parse_answers m n k as)"
proof (induction m n k as rule: parse_answers.induct)
  case (2 m n k as)
  note ih = "2"(1) and d = "2"(2)
  have r1: "no_panic (record_addresses m kind rclass start stop as)"
    if "offset_in m start len = Some stop" for kind rclass start len stop
    using record_addresses_Inr [of start stop m as kind rclass] offset_in_SomeD [OF that] d by auto
  have r2: "addresses_within (length as + Suc n) (parse_answers m n stop as1)"
    if "offset_in m start len = Some stop" "record_addresses m kind rclass start stop as = Inr as1"
    for kind rclass start len stop as1
  proof -
    have a: "distinct as1" "length as1 \<le> Suc (length as)"
      using record_addresses_Inr [of start stop m as kind rclass] offset_in_SomeD [OF that(1)] d that(2) by auto
    have "addresses_within (length as1 + n) (parse_answers m n stop as1)" using ih a(1) by blast
    then show ?thesis using a by (fastforce simp: addresses_within_def)
  qed
  show ?case
    unfolding parse_answers.simps
    by (intro addresses_within_and_then no_panic_skip_name no_panic_dns_read_u16 no_panic_ok_or)
       (simp_all only: ok_or_Inr_conv r1 r2)
qed (simp add: addresses_within_def)

text \<open>no datagram makes the parser of the answers panic; what it accepts has no address twice and
  at most as many addresses as the answer has records.\<close>

theorem dns_parse_safe:
  "no_panic (parse_response d query_id)
   \<and> (\<forall>as. parse_response d query_id = Inr as \<longrightarrow> distinct as \<and> length as \<le> 65535)"
proof -
  have "addresses_within 65535 (parse_answers d (unat (n :: u16)) k [])" for n k
    using parse_answers_safe [of "[]" "unat n" d k] unat_u16_less [of n]
    by (fastforce simp: addresses_within_def)
  then have "addresses_within 65535 (parse_response d query_id)"
    unfolding parse_response_def
    by (intro addresses_within_and_then no_panic_ensure no_panic_dns_read_u16 no_panic_skip_questions)
  then show ?thesis by (simp add: addresses_within_def)
qed

section \<open>Genuine answers\<close>

text \<open>
  What a server sends back: the header with the response and recursion flags, the question of the
  query, and one record per address with a pointer to the name of the question.
\<close>

fun answer_record :: "u32 \<Rightarrow> ip_addr \<Rightarrow> bytes" where
  "answer_record ttl (V4 w) = [0xc0, 0x0c] @ be16 1 @ be16 1 @ be32 ttl @ be16 4 @ be32 w"
| "answer_record ttl (V6 w) = [0xc0, 0x0c] @ be16 28 @ be16 1 @ be32 ttl @ be16 16 @ be128 w"

definition dns_answer :: "bytes \<Rightarrow> u16 \<Rightarrow> u32 \<Rightarrow> ip_addr list \<Rightarrow> bytes" where
  "dns_answer query query_id ttl ips =
     be16 query_id @ be16 0x8180 @ be16 1 @ be16 (of_nat (length ips)) @ be16 0 @ be16 0
       @ drop 12 query @ concat (map (answer_record ttl) ips)"

lemma read_u16_in: "m = p @ be16 w @ q \<Longrightarrow> length p = k \<Longrightarrow> dns_read_u16 m k = Inr w"
  by (simp add: dns_read_u16_def get_slice_def)

lemma small_label_byte: "n < 64 \<Longrightarrow> (of_nat n :: byte) AND 0xc0 = 0"
proof -
  have "list_all (\<lambda>n. (of_nat n :: byte) AND 0xc0 = 0) [0..<64]" by code_simp
  then show "n < 64 \<Longrightarrow> (of_nat n :: byte) AND 0xc0 = 0" by (simp add: list_all_iff)
qed

lemma offset_in_ok: "a + b \<le> length m \<Longrightarrow> length m \<le> usize_max \<Longrightarrow> offset_in m a b = Some (a + b)"
  by (simp add: offset_in_def)

lemma skip_labels:
  assumes "encode_labels ls = Inr e" and "m = pre @ e @ 0 # post" and "length m \<le> usize_max"
  shows "skip_name m (length pre) = Inr (length pre + length e + 1)"
  using assms
proof (induction ls arbitrary: e pre)
  case Nil
  then show ?case by (subst skip_name.simps) (simp add: get_at_def)
next
  case (Cons l ls)
  from Cons.prems(1) obtain rest where l: "label_ok l" and rest: "encode_labels ls = Inr rest"
    and e: "e = of_nat (length l) # l @ rest"
    by (auto simp: and_then_Inr_conv)
  have small: "length l < 64" "l \<noteq> []" using l by (auto simp: label_ok_def)
  let ?n = "of_nat (length l) :: byte"
  have n: "unat ?n = length l" "?n AND 0xc0 = 0" using small small_label_byte by simp_all
  then have n0: "?n \<noteq> 0" using small(2) by (metis length_0_conv unsigned_0)
  have m: "m = (pre @ ?n # l) @ rest @ 0 # post" using Cons.prems(2) e by simp
  have "get_at m (length pre) = Some ?n" by (simp add: m get_at_def nth_append)
  moreover have "checked_add (length pre) 1 = Some (length pre + 1)"
    using Cons.prems(3) m by (intro checked_add_Some) simp
  moreover have "offset_in m (length pre + 1) (unat ?n) = Some (length (pre @ ?n # l))"
    using offset_in_ok [of "length pre + 1" "length l" m] Cons.prems(3) m n(1) by simp
  moreover have "skip_name m (length (pre @ ?n # l)) = Inr (length (pre @ ?n # l) + length rest + 1)"
    by (rule Cons.IH [OF rest m Cons.prems(3)])
  ultimately have "skip_name m (length pre) = Inr (length (pre @ ?n # l) + length rest + 1)"
    by (subst skip_name.simps) (simp only: option.case n(2) n0 if_False simp_thms, simp)
  then show ?case by (simp add: e)
qed

lemma skip_pointer:
  "m = pre @ 0xc0 # 0x0c # post \<Longrightarrow> length m \<le> usize_max \<Longrightarrow> skip_name m (length pre) = Inr (length pre + 2)"
  by (subst skip_name.simps) (simp add: get_at_def nth_append offset_in_def)

lemma four_bytes: "\<exists>a b c d. be32 w = [a, b, c, d]"
proof -
  have "length (be32 w) = Suc (Suc (Suc (Suc 0)))" by simp
  then show ?thesis by (simp only: length_Suc_conv length_0_conv) blast
qed

lemma parse_address_record:
  assumes "m = pre @ answer_record ttl a @ post" and "length m \<le> usize_max"
  shows "parse_answers m (Suc n) (length pre) as
    = parse_answers m n (length (pre @ answer_record ttl a)) (add_address a as)"
proof -
  define ty :: u16 where "ty = (case a of V4 _ \<Rightarrow> 1 | V6 _ \<Rightarrow> 28)"
  define data where "data = (case a of V4 w \<Rightarrow> be32 w | V6 w \<Rightarrow> be128 w)"
  have r: "answer_record ttl a = [0xc0, 0x0c] @ be16 ty @ be16 1 @ be32 ttl @ be16 (of_nat (length data)) @ data"
    by (cases a) (simp_all add: ty_def data_def)
  let ?o = "length pre + 2"
  have len: "length data \<le> 16" by (cases a) (simp_all add: data_def)
  then have ulen: "unat (of_nat (length data) :: u16) = length data" by (simp add: unat_of_nat)
  have total: "length pre + 12 + length data \<le> length m" by (simp add: assms(1) r)
  have "skip_name m (length pre) = Inr ?o"
    by (rule skip_pointer) (use assms r in auto)
  moreover have "dns_read_u16 m ?o = Inr ty"
    by (rule read_u16_in [of _ "pre @ [0xc0, 0x0c]"]) (simp_all add: assms(1) r)
  moreover have "dns_read_u16 m (?o + 2) = Inr 1"
    by (rule read_u16_in [of _ "pre @ [0xc0, 0x0c] @ be16 ty"]) (simp_all add: assms(1) r)
  moreover have "dns_read_u16 m (?o + 8) = Inr (of_nat (length data))"
    by (rule read_u16_in [of _ "pre @ [0xc0, 0x0c] @ be16 ty @ be16 1 @ be32 ttl"]) (simp_all add: assms(1) r)
  moreover have "offset_in m ?o 10 = Some (length pre + 12)"
    using offset_in_ok [of ?o 10 m] total assms(2) by simp
  moreover have "offset_in m (length pre + 12) (length data) = Some (length pre + 12 + length data)"
    using offset_in_ok [of "length pre + 12" "length data" m] total assms(2) by simp
  moreover have "record_addresses m ty 1 (length pre + 12) (length pre + 12 + length data) as = Inr (add_address a as)"
  proof -
    let ?p = "pre @ [0xc0, 0x0c] @ be16 ty @ be16 1 @ be32 ttl @ be16 (of_nat (length data))"
    have m: "m = ?p @ data @ post" by (simp add: assms(1) r)
    have p: "length ?p = length pre + 12" by simp
    have nth: "m ! (length pre + 12 + i) = data ! i" if "i < length data" for i
      unfolding m using nth_append_length_plus [of ?p "data @ post" i] that
      by (simp only: p) (simp add: nth_append)
    show ?thesis
    proof (cases a)
      case (V4 w)
      obtain b1 b2 b3 b4 where b: "be32 w = [b1, b2, b3, b4]" using four_bytes by blast
      then have "of_be32 [b1, b2, b3, b4] = w" by (metis of_be32_be32)
      then show ?thesis
        using nth [of 0] nth [of 1] nth [of 2] nth [of 3] total b
        by (simp add: record_addresses_def V4 ty_def data_def DNS_A_RECORD_def DNS_AAAA_RECORD_def add.assoc)
    next
      case (V6 w)
      have "sub_list m (length pre + 12) (length pre + 28) = be128 w"
        unfolding sub_list_def m data_def V6 using p by simp
      then show ?thesis
        using total
        by (simp add: record_addresses_def V6 ty_def data_def DNS_A_RECORD_def DNS_AAAA_RECORD_def add.assoc)
    qed
  qed
  ultimately show ?thesis
    using ulen r by (simp add: add.assoc)
qed

lemma parse_address_records:
  "m = pre @ concat (map (answer_record ttl) ips) @ post \<Longrightarrow> length m \<le> usize_max \<Longrightarrow>
   parse_answers m (length ips) (length pre) as = Inr (foldl (\<lambda>acc a. add_address a acc) as ips)"
proof (induction ips arbitrary: pre as)
  case (Cons a ips)
  have "m = (pre @ answer_record ttl a) @ concat (map (answer_record ttl) ips) @ post"
    using Cons.prems(1) by simp
  from Cons.IH [OF this Cons.prems(2)] show ?case
    using parse_address_record [of m pre ttl a "concat (map (answer_record ttl) ips) @ post" "length ips" as]
      Cons.prems by simp
qed simp

lemma build_query_shape:
  assumes "build_query name query_id ty = Inr q"
  obtains ls e where "encode_labels ls = Inr e"
    "q = be16 query_id @ be16 0x0100 @ be16 1 @ be16 0 @ be16 0 @ be16 0 @ e @ [0] @ be16 ty @ be16 1"
  using assms by (auto simp: build_query_def Let_def and_then_Inr_conv)

lemma parse_dns_answer:
  assumes "build_query name query_id ty = Inr q" and "length (dns_answer q query_id ttl ips) \<le> 1500"
  shows "parse_response (dns_answer q query_id ttl ips) query_id = Inr (dedup_addresses ips)"
proof -
  obtain ls e where e: "encode_labels ls = Inr e"
    and q: "q = be16 query_id @ be16 0x0100 @ be16 1 @ be16 0 @ be16 0 @ be16 0 @ e @ [0] @ be16 ty @ be16 1"
    by (rule build_query_shape [OF assms(1)])
  let ?m = "dns_answer q query_id ttl ips"
  let ?n = "of_nat (length ips) :: u16"
  let ?h = "be16 query_id @ be16 0x8180 @ be16 1 @ be16 ?n @ be16 0 @ be16 0"
  let ?r = "concat (map (answer_record ttl) ips)"
  have m: "?m = ?h @ e @ 0 # be16 ty @ be16 1 @ ?r" by (simp add: dns_answer_def q)
  have max: "length ?m \<le> usize_max" using assms(2) by (simp add: usize_max_def)
  have "length ips \<le> length ?r"
  proof (induction ips)
    case (Cons a ips)
    moreover have "1 \<le> length (answer_record ttl a)" by (cases a) simp_all
    ultimately show ?case by (simp only: list.map concat.simps length_append list.size)
  qed simp
  then have "length ips < 65536" using assms(2) m by simp
  then have n: "unat ?n = length ips" by (simp add: unat_of_nat)
  have fields: "dns_read_u16 ?m 0 = Inr query_id" "dns_read_u16 ?m 2 = Inr 0x8180"
    "dns_read_u16 ?m 4 = Inr 1" "dns_read_u16 ?m 6 = Inr ?n"
    by (rule read_u16_in [of _ "[]"], use m in simp, simp)
       (rule read_u16_in [of _ "be16 query_id"], use m in simp, simp,
        rule read_u16_in [of _ "be16 query_id @ be16 0x8180"], use m in simp, simp,
        rule read_u16_in [of _ "be16 query_id @ be16 0x8180 @ be16 1"], use m in simp, simp)
  have "skip_name ?m (length ?h) = Inr (length ?h + length e + 1)"
    by (rule skip_labels [OF e]) (use m max in simp_all)
  then have name: "skip_name ?m 12 = Inr (13 + length e)" by simp
  let ?pre = "?h @ e @ 0 # be16 ty @ be16 1"
  have "offset_in ?m (13 + length e) 4 = Some (length ?pre)"
    using offset_in_ok [of "13 + length e" 4 ?m] max m by simp
  moreover have "parse_answers ?m (length ips) (length ?pre) [] = Inr (dedup_addresses ips)"
    unfolding dedup_addresses_def by (rule parse_address_records [of _ _ ttl _ "[]"]) (use m max in simp_all)
  moreover have "12 \<le> length ?m" by (simp add: m)
  moreover have "(0x8180 :: u16) AND 0x8000 \<noteq> 0" "(0x8180 :: u16) AND 0x0200 = 0" "(0x8180 :: u16) AND 0x000f = 0"
    by simp_all
  ultimately show ?thesis
    using fields name n by (simp add: parse_response_def)
qed

text \<open>C35: whatever arrives from other addresses before it, the answer a server gives to the resolver's
  own query, with any A and AAAA records that fit the buffer, is read as exactly these addresses,
  in their order and each once.\<close>

theorem dns_answer_roundtrip:
  assumes "build_query name query_id ty = Inr q" and "length (dns_answer q query_id ttl ips) \<le> 1500"
    and "list_all (\<lambda>(source, d). source \<noteq> server) others"
  shows "query_dns_server server query_id
      (map (\<lambda>(source, d). Datagram source d) others @ Datagram server (dns_answer q query_id ttl ips) # rest)
    = Some (Inr (dedup_addresses ips))"
  using assms(3)
proof (induction others)
  case Nil
  then show ?case using parse_dns_answer [OF assms(1,2)] assms(2) by simp
qed auto

definition YANDEX_PRIMARY :: socket_addr where
  "YANDEX_PRIMARY = SocketAddr (V4 0x4d580808) 53"

lemma dns_answer_roundtrip_witness:
  "\<exists>q. build_query (ascii ''vk.com'') 7 DNS_A_RECORD = Inr q
    \<and> query_dns_server YANDEX_PRIMARY 7 [Datagram (SocketAddr (V4 1) 53) [], Datagram YANDEX_PRIMARY
         (dns_answer q 7 60 [V4 5, V4 6, V4 5])] = Some (Inr [V4 5, V4 6])"
proof -
  have "case build_query (ascii ''vk.com'') 7 DNS_A_RECORD of Inr q \<Rightarrow> length q = 24 | Inl _ \<Rightarrow> False"
    by code_simp
  then obtain q where q: "build_query (ascii ''vk.com'') 7 DNS_A_RECORD = Inr q" "length q = 24"
    by (auto split: sum.splits)
  then show ?thesis
    using dns_answer_roundtrip [OF q(1), of 60 "[V4 5, V4 6, V4 5]" YANDEX_PRIMARY "[(SocketAddr (V4 1) 53, [])]" "[]"]
    by (simp add: dns_answer_def dedup_addresses_def add_address_def YANDEX_PRIMARY_def)
qed

section \<open>The lookup\<close>

text \<open>A lookup that succeeds has an address, and the system resolver is asked only when both servers
  are silent and the tunnel is not up: a name is never resolved around the tunnel.\<close>

lemma lookup_never_leaks:
  "lookup literal host query_id race True system = lookup literal host query_id race True None"
  by (cases literal) (auto simp: lookup_def intro!: arg_cong [of _ _ "and_then _"] split: yandex_outcome.split)

lemma lookup_nonempty:
  assumes "lookup literal host query_id race active system = Inr as"
  shows "as \<noteq> []"
proof (cases literal)
  case None
  then obtain r where "(case r of YandexOk as \<Rightarrow> if as \<noteq> [] then Inr as else Inl (Fail DnsEmptyAnswer)
      | YandexTimedOut \<Rightarrow> if \<not> active then system_lookup system else Inl (Fail DnsTimedOut)
      | YandexFailed e \<Rightarrow> Inl (Fail e)) = Inr as"
    using assms by (auto simp: lookup_def and_then_Inr_conv)
  then show ?thesis by (cases r) (auto simp: system_lookup_def split: if_splits option.splits)
qed (use assms in \<open>auto simp: lookup_def\<close>)

text \<open>One server that answers in time is enough, whatever becomes of the other.\<close>

lemma one_server_suffices:
  assumes "t \<le> DNS_TIMEOUT" and "\<forall>u bs. s = Some (Inr (u, bs)) \<longrightarrow> False"
    and "\<forall>u e. s = Some (Inl (u, e)) \<longrightarrow> u \<le> DNS_TIMEOUT"
  shows "query_yandex tie (Some (Inr (t, as))) s = YandexOk as"
    and "query_yandex tie s (Some (Inr (t, as))) = YandexOk as"
proof -
  consider "s = None" | u e where "s = Some (Inl (u, e))" "u \<le> DNS_TIMEOUT"
    using assms(2,3) by (cases s rule: finish_time.cases) auto
  then show "query_yandex tie (Some (Inr (t, as))) s = YandexOk as"
    and "query_yandex tie s (Some (Inr (t, as))) = YandexOk as"
    using assms(1) by (cases; auto simp: query_yandex_def primary_first_def)+
qed

end
