(* ===== verification/Logging.thy ===== *)
theory Logging
  imports Strings Machine
begin

text \<open>
  The logger of \<^verbatim>\<open>backend/logging.rs\<close>: two bounded queues that drop their oldest line when full,
  any number of producers, and one writer that merges equal diagnostics and takes turns between
  the queues. Every access to a queue, and every load the writer's idle check makes, is a step of
  its own; the steps interleave freely.
\<close>

section \<open>Lines\<close>

definition PROTOCOL_CAPACITY :: nat where "PROTOCOL_CAPACITY = 128"
definition DIAGNOSTIC_CAPACITY :: nat where "DIAGNOSTIC_CAPACITY = 512"
definition MAX_LINE_BYTES :: nat where "MAX_LINE_BYTES = 4096"
definition PROTOCOL_BURST :: nat where "PROTOCOL_BURST = 32"
definition COALESCE_BATCH :: nat where "COALESCE_BATCH = 64"

text \<open>The length of a character in UTF-8; a cut never falls inside one.\<close>

definition char_bytes :: "nat \<Rightarrow> nat" where
  "char_bytes c = (if c < 0x80 then 1 else if c < 0x800 then 2 else if c < 0x10000 then 3 else 4)"

definition text_bytes :: "str_text \<Rightarrow> nat" where
  "text_bytes s = sum_list (map char_bytes s)"

fun fitting_prefix :: "nat \<Rightarrow> str_text \<Rightarrow> str_text" where
  "fitting_prefix room [] = []"
| "fitting_prefix room (c # s) =
     (if char_bytes c \<le> room then c # fitting_prefix (room - char_bytes c) s else [])"

record bounded_line =
  bl_value :: str_text
  bl_full :: bool

definition line_new :: bounded_line where
  "line_new = \<lparr>bl_value = [], bl_full = False\<rparr>"

definition write_str :: "bounded_line \<Rightarrow> str_text \<Rightarrow> bounded_line" where
  "write_str l value =
     (if bl_full l then l
      else let remaining = MAX_LINE_BYTES - text_bytes (bl_value l) in
        if text_bytes value \<le> remaining then l\<lparr>bl_value := bl_value l @ value\<rparr>
        else \<lparr>bl_value = bl_value l @ fitting_prefix remaining value, bl_full = True\<rparr>)"

text \<open>\<^verbatim>\<open>format_line\<close>: the pieces of the formatter one after another.\<close>

definition format_line :: "str_text list \<Rightarrow> str_text" where
  "format_line pieces = bl_value (foldl write_str line_new pieces)"

definition rendered_line :: "str_text \<Rightarrow> nat \<Rightarrow> str_text" where
  "rendered_line value repetitions =
     value @ (if repetitions > 1 then lit '' (x'' @ text_decimal repetitions @ lit '')'' else []) @ [10]"

lemma text_bytes_append [simp]: "text_bytes (s @ t) = text_bytes s + text_bytes t"
  by (simp add: text_bytes_def)

lemma text_bytes_Nil [simp]: "text_bytes [] = 0"
  by (simp add: text_bytes_def)

lemma fitting_prefix_props:
  "text_bytes (fitting_prefix n s) \<le> n \<and> (\<exists>t. s = fitting_prefix n s @ t)"
  by (induction n s rule: fitting_prefix.induct) (auto simp: text_bytes_def)

lemma write_str_props:
  assumes "text_bytes (bl_value l) \<le> MAX_LINE_BYTES"
  shows "text_bytes (bl_value (write_str l s)) \<le> MAX_LINE_BYTES"
    and "\<exists>t. bl_value l @ s = bl_value (write_str l s) @ t \<or> bl_full l"
  using assms fitting_prefix_props [of "MAX_LINE_BYTES - text_bytes (bl_value l)" s]
  by (auto simp: write_str_def Let_def)

text \<open>A line is a prefix of the text it was formatted from, of at most 4096 bytes; a text that fits is
  kept whole.\<close>

lemma format_line_prefix:
  "text_bytes (format_line ps) \<le> MAX_LINE_BYTES \<and> (\<exists>t. concat ps = format_line ps @ t)
   \<and> (text_bytes (concat ps) \<le> MAX_LINE_BYTES \<longrightarrow> format_line ps = concat ps)"
proof -
  have "text_bytes (bl_value (foldl write_str l ps)) \<le> MAX_LINE_BYTES
      \<and> (\<exists>t. u @ concat ps = bl_value (foldl write_str l ps) @ t)
      \<and> (text_bytes (u @ concat ps) \<le> MAX_LINE_BYTES \<longrightarrow> bl_value (foldl write_str l ps) = u @ concat ps)"
    if "text_bytes (bl_value l) \<le> MAX_LINE_BYTES"
      "if bl_full l then (\<exists>t. u = bl_value l @ t) \<and> MAX_LINE_BYTES < text_bytes u else u = bl_value l" for l u
    using that
  proof (induction ps arbitrary: l u)
    case (Cons p ps)
    let ?l = "write_str l p"
    note fit = fitting_prefix_props [of "MAX_LINE_BYTES - text_bytes (bl_value l)" p]
    have "text_bytes (bl_value ?l) \<le> MAX_LINE_BYTES" by (rule write_str_props(1) [OF Cons.prems(1)])
    moreover have "if bl_full ?l then (\<exists>t. u @ p = bl_value ?l @ t) \<and> MAX_LINE_BYTES < text_bytes (u @ p)
        else u @ p = bl_value ?l"
      using Cons.prems fit by (auto simp: write_str_def Let_def split: if_splits)
    ultimately show ?case using Cons.IH [of ?l "u @ p"] by simp
  qed (auto split: if_splits)
  from this [of line_new "[]"] show ?thesis by (simp add: line_new_def format_line_def)
qed

section \<open>State\<close>

datatype log_class = ProtocolLog | DiagnosticLog

text \<open>
  A call of the logger: it has counted itself as a producer and checks \<^verbatim>\<open>accepting\<close> again; it
  tries to push, or pops the oldest line, in round \<open>k\<close> of four; it is about to leave.
\<close>

datatype producer =
    Absent
  | Entered log_class str_text
  | Pushing log_class str_text nat
  | Popping log_class str_text nat
  | Leaving

text \<open>\<open>Merging l n\<close>: the diagnostic \<open>l\<close> was found \<open>n\<close> times in a row. The three idle checks load one
  counter each.\<close>

datatype log_writer =
    WriterTop | TakeDiagnostic | Merging str_text nat | LastProtocol
  | IdleProtocol | IdleDiagnostic | IdleProducers | WriterIdle | StopCheck | WriterStopped

text \<open>\<open>accepted\<close>, \<open>taken\<close> and \<open>printed\<close> are histories: the calls that were admitted, the diagnostics the
  writer popped, and what it handed to the sinks, with the repetitions.\<close>

record logger =
  log_lines :: "log_class \<Rightarrow> str_text list"
  outstanding :: "log_class \<Rightarrow> nat"
  dropped_lines :: "log_class \<Rightarrow> nat"
  accepting :: bool
  stopping :: bool
  log_producers :: "producer list"
  log_writer :: log_writer
  protocol_burst :: nat
  pending_diagnostic :: "str_text option"
  flush_requested :: nat
  flush_completed :: nat
  accepted :: "log_class \<Rightarrow> nat"
  taken :: "str_text list"
  printed :: "(log_class \<times> str_text \<times> nat) list"

definition logger_new :: "nat \<Rightarrow> logger" where
  "logger_new n = \<lparr>log_lines = (\<lambda>_. []), outstanding = (\<lambda>_. 0), dropped_lines = (\<lambda>_. 0), accepting = True,
     stopping = False, log_producers = replicate n Absent, log_writer = WriterTop, protocol_burst = 0,
     pending_diagnostic = None, flush_requested = 0, flush_completed = 0, accepted = (\<lambda>_. 0),
     taken = [], printed = []\<rparr>"

definition log_capacity :: "log_class \<Rightarrow> nat" where
  "log_capacity c = (case c of ProtocolLog \<Rightarrow> PROTOCOL_CAPACITY | DiagnosticLog \<Rightarrow> DIAGNOSTIC_CAPACITY)"

section \<open>Producers\<close>

definition set_producer :: "nat \<Rightarrow> producer \<Rightarrow> logger \<Rightarrow> logger" where
  "set_producer i p s = s\<lparr>log_producers := (log_producers s)[i := p]\<rparr>"

text \<open>A line leaves the books: dropped, or printed (\<open>settle\<close> only lowers the counter).\<close>

definition settle :: "log_class \<Rightarrow> logger \<Rightarrow> logger" where
  "settle c s = s\<lparr>outstanding := (outstanding s)(c := outstanding s c - 1)\<rparr>"

definition drop_line :: "log_class \<Rightarrow> logger \<Rightarrow> logger" where
  "drop_line c s = (settle c s)\<lparr>dropped_lines := (dropped_lines s)(c := dropped_lines s c + 1)\<rparr>"

definition begin_producer :: "nat \<Rightarrow> log_class \<Rightarrow> str_text \<Rightarrow> logger \<Rightarrow> logger" where
  "begin_producer i c l s =
     (if accepting s \<and> i < length (log_producers s) \<and> log_producers s ! i = Absent
      then set_producer i (Entered c l) s else s)"

definition recheck_accepting :: "nat \<Rightarrow> log_class \<Rightarrow> str_text \<Rightarrow> logger \<Rightarrow> logger" where
  "recheck_accepting i c l s =
     (if accepting s
      then set_producer i (Pushing c l 0)
        (s\<lparr>outstanding := (outstanding s)(c := outstanding s c + 1), accepted := (accepted s)(c := accepted s c + 1)\<rparr>)
      else set_producer i Leaving s)"

definition push_line :: "nat \<Rightarrow> log_class \<Rightarrow> str_text \<Rightarrow> nat \<Rightarrow> logger \<Rightarrow> logger" where
  "push_line i c l k s =
     (if length (log_lines s c) < log_capacity c
      then set_producer i Leaving (s\<lparr>log_lines := (log_lines s)(c := log_lines s c @ [l])\<rparr>)
      else set_producer i (Popping c l k) s)"

definition pop_oldest :: "nat \<Rightarrow> log_class \<Rightarrow> str_text \<Rightarrow> nat \<Rightarrow> logger \<Rightarrow> logger" where
  "pop_oldest i c l k s =
     (let t = (case log_lines s c of [] \<Rightarrow> s
           | x # xs \<Rightarrow> drop_line c (s\<lparr>log_lines := (log_lines s)(c := xs)\<rparr>))
      in if k + 1 < 4 then set_producer i (Pushing c l (k + 1)) t
         else set_producer i Leaving (drop_line c t))"

definition producer_step :: "nat \<Rightarrow> logger \<Rightarrow> logger" where
  "producer_step i s =
     (if length (log_producers s) \<le> i then s
      else case log_producers s ! i of
          Absent \<Rightarrow> s
        | Entered c l \<Rightarrow> recheck_accepting i c l s
        | Pushing c l k \<Rightarrow> push_line i c l k s
        | Popping c l k \<Rightarrow> pop_oldest i c l k s
        | Leaving \<Rightarrow> set_producer i Absent s)"

section \<open>The writer\<close>

definition print_line :: "log_class \<Rightarrow> str_text \<Rightarrow> nat \<Rightarrow> nat \<Rightarrow> logger \<Rightarrow> logger" where
  "print_line c l n burst s =
     settle c (s\<lparr>printed := printed s @ [(c, l, n)], protocol_burst := burst, log_writer := WriterTop\<rparr>)"

definition writer_protocol :: "nat \<Rightarrow> log_writer \<Rightarrow> logger \<Rightarrow> logger" where
  "writer_protocol burst otherwise s =
     (case log_lines s ProtocolLog of [] \<Rightarrow> s\<lparr>log_writer := otherwise\<rparr>
      | l # ls \<Rightarrow> print_line ProtocolLog l 1 burst (s\<lparr>log_lines := (log_lines s)(ProtocolLog := ls)\<rparr>))"

definition pop_diagnostic :: "str_text list \<Rightarrow> str_text \<Rightarrow> logger \<Rightarrow> logger" where
  "pop_diagnostic ls l s = s\<lparr>log_lines := (log_lines s)(DiagnosticLog := ls), taken := taken s @ [l]\<rparr>"

definition take_diagnostic :: "logger \<Rightarrow> logger" where
  "take_diagnostic s =
     (case pending_diagnostic s of
        Some l \<Rightarrow> s\<lparr>pending_diagnostic := None, log_writer := Merging l 1\<rparr>
      | None \<Rightarrow> (case log_lines s DiagnosticLog of
            [] \<Rightarrow> s\<lparr>log_writer := LastProtocol\<rparr>
          | l # ls \<Rightarrow> (pop_diagnostic ls l s)\<lparr>log_writer := Merging l 1\<rparr>))"

definition merge_diagnostic :: "str_text \<Rightarrow> nat \<Rightarrow> logger \<Rightarrow> logger" where
  "merge_diagnostic l n s =
     (if n < COALESCE_BATCH then
        (case log_lines s DiagnosticLog of
           [] \<Rightarrow> print_line DiagnosticLog l n 0 s
         | x # xs \<Rightarrow>
             if x = l then settle DiagnosticLog ((pop_diagnostic xs x s)\<lparr>log_writer := Merging l (n + 1)\<rparr>)
             else print_line DiagnosticLog l n 0 ((pop_diagnostic xs x s)\<lparr>pending_diagnostic := Some x\<rparr>))
      else print_line DiagnosticLog l n 0 s)"

definition writer_goes :: "bool \<Rightarrow> log_writer \<Rightarrow> logger \<Rightarrow> logger" where
  "writer_goes ok w s = s\<lparr>log_writer := (if ok then w else WriterTop)\<rparr>"

definition writer_step :: "logger \<Rightarrow> logger" where
  "writer_step s =
     (case log_writer s of
        WriterTop \<Rightarrow>
          if protocol_burst s < PROTOCOL_BURST then writer_protocol (protocol_burst s + 1) TakeDiagnostic s
          else s\<lparr>log_writer := TakeDiagnostic\<rparr>
      | TakeDiagnostic \<Rightarrow> take_diagnostic s
      | Merging l n \<Rightarrow> merge_diagnostic l n s
      | LastProtocol \<Rightarrow> writer_protocol 1 IdleProtocol s
      | IdleProtocol \<Rightarrow> writer_goes (outstanding s ProtocolLog = 0) IdleDiagnostic s
      | IdleDiagnostic \<Rightarrow> writer_goes (outstanding s DiagnosticLog = 0) IdleProducers s
      | IdleProducers \<Rightarrow> writer_goes (list_all (\<lambda>p. p = Absent) (log_producers s)) WriterIdle s
      | WriterIdle \<Rightarrow> s\<lparr>flush_completed := max (flush_completed s) (flush_requested s), log_writer := StopCheck\<rparr>
      | StopCheck \<Rightarrow> writer_goes (stopping s) WriterStopped s
      | WriterStopped \<Rightarrow> s)"

datatype log_action =
  BeginProducer nat log_class str_text | ProducerStep nat | WriterStep | RequestFlush | StopAccepting | StopWriter

fun log_step :: "logger \<Rightarrow> log_action \<Rightarrow> logger" where
  "log_step s (BeginProducer i c l) = begin_producer i c l s"
| "log_step s (ProducerStep i) = producer_step i s"
| "log_step s WriterStep = writer_step s"
| "log_step s RequestFlush = s\<lparr>flush_requested := flush_requested s + 1\<rparr>"
| "log_step s StopAccepting = s\<lparr>accepting := False\<rparr>"
| "log_step s StopWriter = s\<lparr>stopping := True\<rparr>"

section \<open>The books\<close>

definition in_hand :: "log_class \<Rightarrow> producer \<Rightarrow> bool" where
  "in_hand c p = (case p of Pushing d _ _ \<Rightarrow> d = c | Popping d _ _ \<Rightarrow> d = c | _ \<Rightarrow> False)"

definition hand_count :: "log_class \<Rightarrow> logger \<Rightarrow> nat" where
  "hand_count c s = length (filter (in_hand c) (log_producers s))"

definition merging :: "logger \<Rightarrow> str_text list" where
  "merging s = (case log_writer s of Merging l n \<Rightarrow> replicate n l | _ \<Rightarrow> [])"

definition kept :: "logger \<Rightarrow> str_text list" where
  "kept s = (case pending_diagnostic s of None \<Rightarrow> [] | Some l \<Rightarrow> [l])"

definition writer_holds :: "log_class \<Rightarrow> logger \<Rightarrow> nat" where
  "writer_holds c s = (if c = DiagnosticLog then length (kept s) + (if merging s = [] then 0 else 1) else 0)"

definition printed_of :: "log_class \<Rightarrow> (log_class \<times> str_text \<times> nat) list \<Rightarrow> str_text list" where
  "printed_of c ps = concat (map (\<lambda>(d, l, n). if d = c then replicate n l else []) ps)"

definition log_inv :: "logger \<Rightarrow> bool" where
  "log_inv s \<longleftrightarrow>
     (\<forall>c. length (log_lines s c) \<le> log_capacity c
        \<and> outstanding s c = length (log_lines s c) + hand_count c s + writer_holds c s
        \<and> accepted s c = dropped_lines s c + length (printed_of c (printed s))
             + (if c = DiagnosticLog then length (merging s) - 1 else 0) + outstanding s c)
     \<and> printed_of DiagnosticLog (printed s) @ merging s @ kept s = taken s
     \<and> protocol_burst s \<le> PROTOCOL_BURST
     \<and> (\<forall>l n. log_writer s = Merging l n \<longrightarrow> 1 \<le> n \<and> n \<le> COALESCE_BATCH \<and> pending_diagnostic s = None)"

lemma log_inv_new: "log_inv (logger_new n)"
  by (simp add: log_inv_def logger_new_def hand_count_def in_hand_def writer_holds_def merging_def kept_def
      printed_of_def)

lemma printed_of_simps [simp]:
  "printed_of c [] = []"
  "printed_of c (ps @ [(d, l, n)]) = printed_of c ps @ (if d = c then replicate n l else [])"
  by (simp_all add: printed_of_def)

lemma set_producer_simps [simp]:
  "log_lines (set_producer i p s) = log_lines s" "outstanding (set_producer i p s) = outstanding s"
  "dropped_lines (set_producer i p s) = dropped_lines s" "log_writer (set_producer i p s) = log_writer s"
  "protocol_burst (set_producer i p s) = protocol_burst s" "taken (set_producer i p s) = taken s"
  "pending_diagnostic (set_producer i p s) = pending_diagnostic s" "accepted (set_producer i p s) = accepted s"
  "printed (set_producer i p s) = printed s" "accepting (set_producer i p s) = accepting s"
  "log_producers (set_producer i p s) = (log_producers s)[i := p]"
  by (simp_all add: set_producer_def)

lemma in_hand_simps [simp]:
  "\<not> in_hand c Absent" "\<not> in_hand c Leaving" "\<not> in_hand c (Entered d l)"
  "in_hand c (Pushing d l k) \<longleftrightarrow> d = c" "in_hand c (Popping d l k) \<longleftrightarrow> d = c"
  by (simp_all add: in_hand_def)

lemma hand_count_move:
  assumes "i < length (log_producers s)" and "log_producers t = log_producers s"
  shows "hand_count c (set_producer i p t) + (if in_hand c (log_producers s ! i) then 1 else 0)
    = hand_count c s + (if in_hand c p then 1 else 0)"
  using length_filter_update [OF assms(1), of "in_hand c" p] assms(2) by (simp add: hand_count_def)

text \<open>A step of a producer leaves the writer alone; the rest is arithmetic on the counters.\<close>

lemma log_inv_producer:
  assumes "log_inv s"
    and "log_writer t = log_writer s" "pending_diagnostic t = pending_diagnostic s"
    "protocol_burst t = protocol_burst s" "taken t = taken s" "printed t = printed s"
    and "\<forall>c. length (log_lines t c) \<le> log_capacity c"
    and "\<forall>c. outstanding t c + length (log_lines s c) + hand_count c s = outstanding s c + length (log_lines t c) + hand_count c t"
    and "\<forall>c. accepted t c + dropped_lines s c + outstanding s c = accepted s c + dropped_lines t c + outstanding t c"
  shows "log_inv t"
proof -
  have same: "merging t = merging s" "kept t = kept s" "writer_holds c t = writer_holds c s" for c
    using assms(2,3) by (simp_all add: merging_def kept_def writer_holds_def)
  have "outstanding t c = length (log_lines t c) + hand_count c t + writer_holds c t
      \<and> accepted t c = dropped_lines t c + length (printed_of c (printed t))
        + (if c = DiagnosticLog then length (merging t) - 1 else 0) + outstanding t c" for c
  proof -
    have "outstanding s c = length (log_lines s c) + hand_count c s + writer_holds c s"
      and "accepted s c = dropped_lines s c + length (printed_of c (printed s))
        + (if c = DiagnosticLog then length (merging s) - 1 else 0) + outstanding s c"
      using assms(1) by (simp_all add: log_inv_def)
    then show ?thesis
      using assms(8) [rule_format, of c] assms(9) [rule_format, of c]
      by (simp only: same assms(6)) linarith
  qed
  then show ?thesis using assms same by (simp add: log_inv_def)
qed

lemma log_inv_hand: "log_inv s \<Longrightarrow> hand_count c s \<le> outstanding s c" "log_inv s \<Longrightarrow> length (log_lines s c) \<le> log_capacity c"
  by (simp_all add: log_inv_def)

lemma log_inv_recheck:
  assumes "log_inv s" "i < length (log_producers s)" "log_producers s ! i = Entered c l"
  shows "log_inv (recheck_accepting i c l s)"
proof (cases "accepting s")
  case True
  let ?t = "s\<lparr>outstanding := (outstanding s)(c := outstanding s c + 1), accepted := (accepted s)(c := accepted s c + 1)\<rparr>"
  have "hand_count d (set_producer i (Pushing c l 0) ?t) = hand_count d s + (if c = d then 1 else 0)" for d
    using hand_count_move [OF assms(2), of ?t d "Pushing c l 0"] assms(3) by simp
  then show ?thesis
    using True assms(1)
    by (intro log_inv_producer [OF assms(1)]) (simp_all add: recheck_accepting_def log_inv_hand)
next
  case False
  have "hand_count d (set_producer i Leaving s) = hand_count d s" for d
    using hand_count_move [OF assms(2), of s d Leaving] assms(3) by simp
  then show ?thesis
    using False assms(1)
    by (intro log_inv_producer [OF assms(1)]) (simp_all add: recheck_accepting_def log_inv_hand)
qed

lemma log_inv_push:
  assumes "log_inv s" "i < length (log_producers s)" "log_producers s ! i = Pushing c l k"
  shows "log_inv (push_line i c l k s)"
proof (cases "length (log_lines s c) < log_capacity c")
  case True
  let ?t = "s\<lparr>log_lines := (log_lines s)(c := log_lines s c @ [l])\<rparr>"
  have "hand_count d s = hand_count d (set_producer i Leaving ?t) + (if c = d then 1 else 0)" for d
    using hand_count_move [OF assms(2), of ?t d Leaving] assms(3) by (simp split: if_splits)
  then show ?thesis
    using True assms(1)
    by (intro log_inv_producer [OF assms(1)]) (simp_all add: push_line_def log_inv_hand)
next
  case False
  have "hand_count d (set_producer i (Popping c l k) s) = hand_count d s" for d
    using hand_count_move [OF assms(2), of s d "Popping c l k"] assms(3) by (simp split: if_splits)
  then show ?thesis
    using False assms(1)
    by (intro log_inv_producer [OF assms(1)]) (simp_all add: push_line_def log_inv_hand)
qed

lemma log_inv_drop_oldest:
  assumes "log_inv s"
  shows "log_inv (case log_lines s c of [] \<Rightarrow> s | x # xs \<Rightarrow> drop_line c (s\<lparr>log_lines := (log_lines s)(c := xs)\<rparr>))"
proof (cases "log_lines s c")
  case (Cons x xs)
  let ?t = "drop_line c (s\<lparr>log_lines := (log_lines s)(c := xs)\<rparr>)"
  have "0 < outstanding s c" "length xs \<le> log_capacity c" using assms Cons by (auto simp: log_inv_def dest: spec [of _ c])
  then have "log_inv ?t"
    using Cons by (intro log_inv_producer [OF assms])
      (simp_all add: drop_line_def settle_def log_inv_hand [OF assms] hand_count_def)
  then show ?thesis by (simp add: Cons)
qed (use assms in simp)

lemma log_inv_next_round:
  assumes "log_inv u" "i < length (log_producers u)" "log_producers u ! i = Popping c l k"
  shows "log_inv (set_producer i (Pushing c l m) u)" and "log_inv (set_producer i Leaving (drop_line c u))"
proof -
  have "hand_count d (set_producer i (Pushing c l m) u) = hand_count d u" for d
    using hand_count_move [OF assms(2), of u d "Pushing c l m"] assms(3) by (simp split: if_splits)
  then show "log_inv (set_producer i (Pushing c l m) u)"
    using assms(1) by (intro log_inv_producer [OF assms(1)]) (simp_all add: log_inv_hand)
  have ps: "log_producers (drop_line c u) = log_producers u" by (simp add: drop_line_def settle_def)
  have h: "hand_count d u = hand_count d (set_producer i Leaving (drop_line c u)) + (if c = d then 1 else 0)" for d
    using hand_count_move [OF assms(2) ps, of d Leaving] assms(3) by (simp split: if_splits)
  have "0 < hand_count c u" using h [of c] by simp
  then have "0 < outstanding u c" using log_inv_hand(1) [OF assms(1), of c] by simp
  then show "log_inv (set_producer i Leaving (drop_line c u))"
    using assms(1) h by (intro log_inv_producer [OF assms(1)]) (simp_all add: drop_line_def settle_def log_inv_hand)
qed

lemma log_inv_pop:
  assumes "log_inv s" "i < length (log_producers s)" "log_producers s ! i = Popping c l k"
  shows "log_inv (pop_oldest i c l k s)"
proof -
  let ?t = "case log_lines s c of [] \<Rightarrow> s | x # xs \<Rightarrow> drop_line c (s\<lparr>log_lines := (log_lines s)(c := xs)\<rparr>)"
  have ps: "log_producers ?t = log_producers s"
    by (simp add: drop_line_def settle_def split: list.split)
  have "log_inv ?t" by (rule log_inv_drop_oldest [OF assms(1)])
  note next_round = log_inv_next_round [OF this, of i c l k, unfolded ps, OF assms(2,3)]
  then show ?thesis unfolding pop_oldest_def Let_def by (cases "k + 1 < 4") (simp_all only: if_True if_False)
qed

lemma log_inv_producer_step:
  assumes inv: "log_inv s"
  shows "log_inv (producer_step i s)"
proof (cases "i < length (log_producers s)")
  case True
  have "log_inv (set_producer i Absent s)" if "log_producers s ! i = Leaving"
  proof -
    have "hand_count d (set_producer i Absent s) = hand_count d s" for d
      using hand_count_move [OF True, of s d Absent] that by simp
    then show ?thesis using inv by (intro log_inv_producer [OF inv]) (simp_all add: log_inv_hand)
  qed
  then show ?thesis
    using inv True log_inv_recheck log_inv_push log_inv_pop
    by (auto simp: producer_step_def split: producer.split)
qed (use inv in \<open>simp add: producer_step_def\<close>)

lemma all_log_class: "(\<forall>c. P c) \<longleftrightarrow> P ProtocolLog \<and> P DiagnosticLog"
  by (metis log_class.exhaust)

text \<open>A step of the writer leaves the producers alone.\<close>

lemmas writer_defs = log_inv_def all_log_class writer_holds_def merging_def kept_def hand_count_def
  print_line_def settle_def pop_diagnostic_def writer_goes_def

lemma log_inv_writer_protocol:
  assumes "log_inv s" "merging s = []" "burst \<le> PROTOCOL_BURST" "w \<notin> range (case_prod Merging)"
  shows "log_inv (writer_protocol burst w s)"
proof -
  have w: "w \<noteq> Merging l n" for l n using assms(4) by (auto simp: image_def)
  then have m: "(case w of Merging l n \<Rightarrow> replicate n l | _ \<Rightarrow> []) = []" by (cases w) auto
  show ?thesis
    using assms(1,2,3) w m by (auto simp: writer_protocol_def writer_defs split: list.splits)
qed

lemma log_inv_take_diagnostic:
  assumes "log_inv s" "merging s = []"
  shows "log_inv (take_diagnostic s)"
  using assms by (auto simp: take_diagnostic_def writer_defs COALESCE_BATCH_def split: list.splits option.splits)

lemma log_inv_merge_diagnostic:
  assumes "log_inv s" "log_writer s = Merging l n"
  shows "log_inv (merge_diagnostic l n s)"
proof -
  have n: "1 \<le> n" "n \<le> COALESCE_BATCH" "pending_diagnostic s = None"
    and taken: "taken s = printed_of DiagnosticLog (printed s) @ replicate n l"
    using assms by (auto simp: log_inv_def merging_def kept_def)
  have books: "outstanding s DiagnosticLog = Suc (length (log_lines s DiagnosticLog) + hand_count DiagnosticLog s)"
    "accepted s DiagnosticLog = dropped_lines s DiagnosticLog + length (printed_of DiagnosticLog (printed s))
       + n + length (log_lines s DiagnosticLog) + hand_count DiagnosticLog s"
    "length (log_lines s DiagnosticLog) \<le> log_capacity DiagnosticLog"
    using assms n by (auto simp: log_inv_def all_log_class writer_holds_def merging_def kept_def)
  note other = assms(1) [unfolded log_inv_def all_log_class writer_holds_def, simplified]
  show ?thesis
    unfolding merge_diagnostic_def
    using n taken books other
    by (auto simp: writer_defs replicate_append_same split: list.split)
qed

lemma log_inv_writer_goes:
  assumes "log_inv s" "merging s = []" "w \<notin> range (case_prod Merging)"
  shows "log_inv (writer_goes b w s)"
proof -
  have w: "w \<noteq> Merging l n" for l n using assms(3) by (auto simp: image_def)
  then have m: "(case w of Merging l n \<Rightarrow> replicate n l | _ \<Rightarrow> []) = []" by (cases w) auto
  show ?thesis using assms(1,2) w m by (auto simp: writer_defs)
qed

lemma log_inv_goes_idle:
  assumes "log_inv s" "merging s = []"
  shows "log_inv (s\<lparr>log_writer := TakeDiagnostic\<rparr>)" "log_inv (s\<lparr>flush_completed := k, log_writer := StopCheck\<rparr>)"
  using assms by (auto simp: writer_defs)

lemma log_inv_writer_step: "log_inv s \<Longrightarrow> log_inv (writer_step s)"
proof -
  assume inv: "log_inv s"
  have burst: "1 \<le> PROTOCOL_BURST" by (simp add: PROTOCOL_BURST_def)
  have idle: "merging s = []" if "\<And>l n. log_writer s \<noteq> Merging l n"
    using that by (cases "log_writer s") (auto simp: merging_def)
  show ?thesis
  proof (cases "log_writer s")
    case WriterTop
    with inv idle show ?thesis
      by (auto simp: writer_step_def log_inv_goes_idle image_def intro!: log_inv_writer_protocol)
  next
    case (Merging l n)
    with inv show ?thesis by (simp add: writer_step_def log_inv_merge_diagnostic)
  next
    case LastProtocol
    with inv idle burst show ?thesis
      by (auto simp: writer_step_def image_def intro!: log_inv_writer_protocol)
  qed (use inv idle in \<open>auto simp: writer_step_def log_inv_goes_idle image_def
      intro!: log_inv_take_diagnostic log_inv_writer_goes\<close>)
qed

lemma log_inv_step: "log_inv s \<Longrightarrow> log_inv (log_step s a)"
proof (cases a)
  case (BeginProducer i c l)
  assume inv: "log_inv s"
  have "log_inv (set_producer i (Entered c l) s)" if "i < length (log_producers s)" "log_producers s ! i = Absent"
  proof -
    have "hand_count d (set_producer i (Entered c l) s) = hand_count d s" for d
      using hand_count_move [OF that(1), of s d "Entered c l"] that(2) by simp
    then show ?thesis using inv by (intro log_inv_producer [OF inv]) (simp_all add: log_inv_hand)
  qed
  then show ?thesis using inv BeginProducer by (simp add: begin_producer_def)
next
  case (ProducerStep i)
  then show "log_inv s \<Longrightarrow> ?thesis" by (simp add: log_inv_producer_step)
next
  case WriterStep
  then show "log_inv s \<Longrightarrow> ?thesis" by (simp add: log_inv_writer_step)
qed (simp_all add: writer_defs)

interpretation logger: transition_system "\<lambda>s. \<exists>n. s = logger_new n" "\<lambda>s t. \<exists>a. t = log_step s a" log_inv
  by unfold_locales (auto simp: log_inv_new intro: log_inv_step)

text \<open>under any interleaving of the producers and the writer, every line that was admitted is
  printed once or counted as dropped or still on its way, the queues stay within their capacities,
  and the printed diagnostics, each as often as its badge says, followed by what the writer still
  holds, are exactly the lines it took from the queue, in their order.\<close>

theorem logger_accounts:
  assumes "reach (\<lambda>s. \<exists>n. s = logger_new n) (\<lambda>s t. \<exists>a. t = log_step s a) s"
  shows "length (printed_of ProtocolLog (printed s)) + dropped_lines s ProtocolLog + outstanding s ProtocolLog
      = accepted s ProtocolLog
    \<and> (log_writer s = WriterTop \<longrightarrow>
        length (printed_of DiagnosticLog (printed s)) + dropped_lines s DiagnosticLog + outstanding s DiagnosticLog
          = accepted s DiagnosticLog)
    \<and> printed_of DiagnosticLog (printed s) @ merging s @ kept s = taken s
    \<and> (\<forall>c. length (log_lines s c) \<le> log_capacity c)"
proof -
  have inv: "log_inv s" by (rule logger.reach_inv [OF assms])
  have "merging s = []" if "log_writer s = WriterTop" using that by (simp add: merging_def)
  then show ?thesis using inv by (auto simp: log_inv_def all_log_class)
qed

definition one_line :: "log_action list" where
  "one_line = [BeginProducer 0 ProtocolLog [120], ProducerStep 0, ProducerStep 0, ProducerStep 0, WriterStep]"

lemma reach_log_run: "reach (\<lambda>s. \<exists>n. s = logger_new n) (\<lambda>s t. \<exists>a. t = log_step s a) (foldl log_step (logger_new n) as)"
proof (induction as rule: rev_induct)
  case Nil
  show ?case by (rule reach_init) (simp, blast)
next
  case (snoc a as)
  show ?case by (rule reach_step [OF snoc]) (simp, blast)
qed

lemma logger_accounts_witness:
  "length (printed_of ProtocolLog (printed (foldl log_step (logger_new 1) one_line)))
     + dropped_lines (foldl log_step (logger_new 1) one_line) ProtocolLog
     + outstanding (foldl log_step (logger_new 1) one_line) ProtocolLog = 1"
proof -
  have "accepted (foldl log_step (logger_new 1) one_line) ProtocolLog = 1" by code_simp
  then show ?thesis using logger_accounts [OF reach_log_run [of 1 one_line]] by simp
qed

text \<open>The writer checks \<^verbatim>\<open>shutdown\<close> after its idle check: a line whose call began and returned in between,
  before the shutdown was requested, stays in the queue when the writer ends.\<close>

lemma shutdown_strands_line:
  "log_writer (foldl log_step (logger_new 1) (replicate 7 WriterStep
     @ [BeginProducer 0 DiagnosticLog [120], ProducerStep 0, ProducerStep 0, ProducerStep 0,
        StopAccepting, StopWriter, WriterStep])) = WriterStopped
   \<and> log_lines (foldl log_step (logger_new 1) (replicate 7 WriterStep
     @ [BeginProducer 0 DiagnosticLog [120], ProducerStep 0, ProducerStep 0, ProducerStep 0,
        StopAccepting, StopWriter, WriterStep])) DiagnosticLog = [[120]]"
  by code_simp

end
