(* ===== verification/TunAddress.thy ===== *)
theory TunAddress
  imports Strings Bytes
begin

text \<open>
  Addresses and routes as \<^verbatim>\<open>backend/tun_linux.rs\<close> handles them: IPv4 addresses and CIDR texts, prefix
  masks, the rows of \<^verbatim>\<open>/proc/net/route\<close>, and the netlink messages of a route.
\<close>

section \<open>Addresses\<close>

text \<open>An address is its 32 bits, the first octet on top.\<close>

definition ipv4_of :: "nat \<Rightarrow> nat \<Rightarrow> nat \<Rightarrow> nat \<Rightarrow> u32" where
  "ipv4_of a b c d = of_nat (((a * 256 + b) * 256 + c) * 256 + d)"

definition octets :: "u32 \<Rightarrow> nat list" where
  "octets w = [unat w div 16777216, unat w div 65536 mod 256, unat w div 256 mod 256, unat w mod 256]"

text \<open>\<^verbatim>\<open>Ipv4Addr::from_str\<close>: four decimal octets of at most three digits without leading zeros.\<close>

definition parse_octet :: "str_text \<Rightarrow> nat option" where
  "parse_octet s =
     (if s = [] \<or> 3 < length s \<or> 1 < length s \<and> hd s = 48 then None
      else case parse_digits s 0 of Some v \<Rightarrow> if v \<le> 255 then Some v else None | None \<Rightarrow> None)"

definition parse_ipv4 :: "str_text \<Rightarrow> u32 option" where
  "parse_ipv4 s =
     (case map parse_octet (split_on 46 s) of
        [Some a, Some b, Some c, Some d] \<Rightarrow> Some (ipv4_of a b c d)
      | _ \<Rightarrow> None)"

definition ipv4_text :: "u32 \<Rightarrow> str_text" where
  "ipv4_text w = text_decimal (unat w div 16777216) @ 46 # text_decimal (unat w div 65536 mod 256)
     @ 46 # text_decimal (unat w div 256 mod 256) @ 46 # text_decimal (unat w mod 256)"

datatype tun_error =
    CidrWithoutPrefix | CidrAddress | CidrPrefix | PrefixTooLong | BadAddress
  | DefaultRouteRefused | RouteRefused str_text nat
  | RouteTableUnreadable | NoDefaultRoute | UnknownInterface
  | NoDevice | NoDnsServers | AddressFailed | HalfRouteMissing | DnsFailed

definition parse_cidr :: "str_text \<Rightarrow> (tun_error, u32 \<times> nat) res" where
  "parse_cidr cidr =
     (case split_once 47 cidr of
        None \<Rightarrow> Inl (Fail CidrWithoutPrefix)
      | Some (address, prefix) \<Rightarrow>
          and_then (ok_or (parse_ipv4 address) CidrAddress) (\<lambda>a.
          and_then (case parse_u16 prefix of
              Some p \<Rightarrow> if p \<le> 255 then Inr p else Inl (Fail CidrPrefix) | None \<Rightarrow> Inl (Fail CidrPrefix)) (\<lambda>p.
          if p > 32 then Inl (Fail PrefixTooLong) else Inr (a, p))))"

definition cidr_text :: "u32 \<Rightarrow> nat \<Rightarrow> str_text" where
  "cidr_text a p = ipv4_text a @ 47 # text_decimal p"

definition prefix_mask :: "nat \<Rightarrow> u32" where
  "prefix_mask p = (if p = 0 then 0 else push_bit (32 - p) (- 1))"

definition tun_gateway :: "u32 \<Rightarrow> u32" where
  "tun_gateway ip = ipv4_of (octets ip ! 0) (octets ip ! 1) (octets ip ! 2) 1"

lemma octet_text:
  assumes "n \<le> 255"
  shows "parse_octet (text_decimal n) = Some n"
proof -
  have "length (text_decimal n) \<le> 3 \<and> (1 < length (text_decimal n) \<longrightarrow> hd (text_decimal n) \<noteq> 48)"
  proof (cases "n < 10")
    case True
    then show ?thesis by (simp add: text_decimal.simps [of n])
  next
    case False
    show ?thesis
    proof (cases "n < 100")
      case True
      then have "n div 10 < 10" "0 < n div 10" using False by (simp_all add: div_greater_zero_iff)
      then show ?thesis using False by (simp add: text_decimal.simps [of n] text_decimal.simps [of "n div 10"])
    next
      case hundred: False
      have "n div 100 < 10" "0 < n div 100" using assms hundred by simp_all
      moreover have "n div 10 div 10 = n div 100" by (simp add: div_mult2_eq [symmetric])
      ultimately show ?thesis using False hundred
        by (simp add: text_decimal.simps [of n] text_decimal.simps [of "n div 10"] text_decimal.simps [of "n div 100"])
    qed
  qed
  moreover have "parse_digits (text_decimal n) 0 = Some n" by (rule parse_digits_decimal) (use assms in simp)
  ultimately show ?thesis using assms by (auto simp: parse_octet_def)
qed

lemma decimal_free: "46 \<notin> set (text_decimal n)" "47 \<notin> set (text_decimal n)"
  using text_decimal_digit by fastforce+

lemma octets_ipv4: "ipv4_of (unat w div 16777216) (unat w div 65536 mod 256) (unat w div 256 mod 256) (unat w mod 256) = w"
proof -
  have m: "(n div 256) * 256 + n mod 256 = n" for n :: nat by simp
  have d: "unat w div 65536 = unat w div 256 div 256" "unat w div 16777216 = unat w div 256 div 256 div 256"
    by (simp_all add: div_mult2_eq [symmetric])
  show ?thesis unfolding ipv4_of_def d by (simp only: m) simp
qed

lemma octet_bound: "unat (w :: u32) div 16777216 \<le> 255"
  using unat_u32_less [of w] by (simp add: less_mult_imp_div_less less_Suc_eq_le [symmetric])

lemma ipv4_roundtrip: "parse_ipv4 (ipv4_text w) = Some w"
  using octet_bound [of w] octet_text
  by (simp add: parse_ipv4_def ipv4_text_def split_on_first split_on_none decimal_free octets_ipv4)

lemma cidr_roundtrip: "p \<le> 32 \<Longrightarrow> parse_cidr (cidr_text a p) = Inr (a, p)"
proof -
  assume p: "p \<le> 32"
  have "47 \<notin> set (ipv4_text a)" by (simp add: ipv4_text_def decimal_free)
  then have "split_once 47 (cidr_text a p) = Some (ipv4_text a, text_decimal p)"
    by (simp add: cidr_text_def split_once_first)
  then show ?thesis using p by (simp add: parse_cidr_def ipv4_roundtrip parse_u16_decimal)
qed

text \<open>The mask keeps exactly the upper bits.\<close>

lemma prefix_mask_bit: "p \<le> 32 \<Longrightarrow> bit (prefix_mask p) i \<longleftrightarrow> 32 - p \<le> i \<and> i < 32"
  by (auto simp: prefix_mask_def bit_not_iff bit_mask_iff)

section \<open>The routing table\<close>

record route_row =
  row_interface :: str_text
  row_destination :: u32
  row_mask :: u32
  row_gateway :: u32
  row_flags :: u32

definition swap_bytes :: "u32 \<Rightarrow> u32" where
  "swap_bytes w = ipv4_of (octets w ! 3) (octets w ! 2) (octets w ! 1) (octets w ! 0)"

definition hex_digit :: "nat \<Rightarrow> nat option" where
  "hex_digit c = (if 48 \<le> c \<and> c \<le> 57 then Some (c - 48) else if 97 \<le> c \<and> c \<le> 102 then Some (c - 87)
     else if 65 \<le> c \<and> c \<le> 70 then Some (c - 55) else None)"

fun parse_hex_digits :: "str_text \<Rightarrow> nat \<Rightarrow> nat option" where
  "parse_hex_digits [] v = Some v"
| "parse_hex_digits (c # s) v =
     (case hex_digit c of Some d \<Rightarrow> if v * 16 + d < 2 ^ 32 then parse_hex_digits s (v * 16 + d) else None
      | None \<Rightarrow> None)"

text \<open>\<^verbatim>\<open>u32::from_str_radix(s, 16)\<close>.\<close>

definition parse_hex_u32 :: "str_text \<Rightarrow> u32 option" where
  "parse_hex_u32 s =
     map_option of_nat (case s of [] \<Rightarrow> None
       | c # r \<Rightarrow> if c = 43 then (if r = [] then None else parse_hex_digits r 0) else parse_hex_digits s 0)"

text \<open>\<^verbatim>\<open>lines\<close>: the last line may lack its newline, a carriage return before one is cut.\<close>

definition text_lines :: "str_text \<Rightarrow> str_text list" where
  "text_lines s =
     (let ls = split_on 10 s; ls' = (if last ls = [] then butlast ls else ls)
      in map (\<lambda>l. if l \<noteq> [] \<and> last l = 13 then butlast l else l) ls')"

definition split_whitespace :: "str_text \<Rightarrow> str_text list" where
  "split_whitespace s = filter (\<lambda>w. w \<noteq> []) (split_chars is_whitespace s)"

definition parse_route_row :: "str_text \<Rightarrow> route_row option" where
  "parse_route_row line =
     (case split_whitespace line of
        iface # dst # gw # fl # refcnt # uses # metric # netmask # _ \<Rightarrow>
          (case (parse_hex_u32 dst, parse_hex_u32 gw, parse_hex_u32 fl, parse_hex_u32 netmask) of
             (Some d, Some g, Some f, Some m) \<Rightarrow>
               Some \<lparr>row_interface = iface, row_destination = swap_bytes d, row_mask = swap_bytes m,
                 row_gateway = swap_bytes g, row_flags = f\<rparr>
           | _ \<Rightarrow> None)
      | _ \<Rightarrow> None)"

text \<open>\<open>file\<close> is the text of \<^verbatim>\<open>/proc/net/route\<close> if it can be read.\<close>

definition parse_route_rows :: "str_text option \<Rightarrow> (tun_error, route_row list) res" where
  "parse_route_rows file =
     and_then (ok_or file RouteTableUnreadable) (\<lambda>table.
     Inr (List.map_filter parse_route_row (drop 1 (text_lines table))))"

fun default_row :: "route_row list \<Rightarrow> route_row option" where
  "default_row [] = None"
| "default_row (r # rs) =
     (if row_destination r = 0 \<and> row_mask r = 0 \<and> row_flags r AND 2 \<noteq> 0 then Some r else default_row rs)"

definition find_default_gateway ::
  "(str_text \<Rightarrow> int option) \<Rightarrow> str_text option \<Rightarrow> (tun_error, u32 \<times> int) res" where
  "find_default_gateway interface_index file =
     and_then (parse_route_rows file) (\<lambda>rows.
     and_then (ok_or (default_row rows) NoDefaultRoute) (\<lambda>row.
     and_then (ok_or (interface_index (row_interface row)) UnknownInterface) (\<lambda>i.
     Inr (row_gateway row, i))))"

definition route_exists ::
  "str_text \<Rightarrow> u32 \<Rightarrow> str_text \<Rightarrow> str_text option \<Rightarrow> (tun_error, bool) res" where
  "route_exists destination gateway interface file =
     and_then (parse_cidr destination) (\<lambda>(network, prefix).
     and_then (parse_route_rows file) (\<lambda>rows.
     Inr (list_ex (\<lambda>r. row_destination r = network \<and> row_mask r = prefix_mask prefix
       \<and> row_interface r = interface \<and> row_gateway r = gateway) rows)))"

lemma octets_of:
  "a \<le> 255 \<Longrightarrow> b \<le> 255 \<Longrightarrow> c \<le> 255 \<Longrightarrow> d \<le> 255 \<Longrightarrow> octets (ipv4_of a b c d) = [a, b, c, d]"
proof -
  assume le: "a \<le> 255" "b \<le> 255" "c \<le> 255" "d \<le> 255"
  let ?n = "((a * 256 + b) * 256 + c) * 256 + d"
  have "?n < 2 ^ 32" using le by simp
  then have u: "unat (ipv4_of a b c d) = ?n" by (simp add: ipv4_of_def unat_of_nat del: of_nat_add of_nat_mult)
  have digit: "(x * 256 + y) mod 256 = y" "(x * 256 + y) div 256 = x" if "y \<le> 255" for x y :: nat
    using that by (simp_all add: div_mult_self3 mod_mult_self3)
  have "?n mod 256 = d" "?n div 256 = (a * 256 + b) * 256 + c" by (rule digit [OF le(4)])+
  moreover have "((a * 256 + b) * 256 + c) mod 256 = c" "((a * 256 + b) * 256 + c) div 256 = a * 256 + b"
    by (rule digit [OF le(3)])+
  moreover have "(a * 256 + b) mod 256 = b" "(a * 256 + b) div 256 = a" by (rule digit [OF le(2)])+
  moreover have "?n div 65536 = ?n div 256 div 256" "?n div 16777216 = ?n div 256 div 256 div 256"
    by (simp_all add: div_mult2_eq [symmetric])
  ultimately show ?thesis unfolding octets_def u by (simp only:)
qed

lemma octets_less: "list_all (\<lambda>n. n \<le> 255) (octets w)"
  using octet_bound [of w] by (simp add: octets_def less_Suc_eq_le [symmetric])

lemma swap_bytes_twice: "swap_bytes (swap_bytes w) = w"
  using octets_less [of w] octets_of [of "octets w ! 3" "octets w ! 2" "octets w ! 1" "octets w ! 0"] octets_ipv4 [of w]
  by (simp add: swap_bytes_def octets_def)

text \<open>The gateway of the tunnel is in its /24 network.\<close>

lemma tun_gateway_network: "take 3 (octets (tun_gateway ip)) = take 3 (octets ip) \<and> octets (tun_gateway ip) ! 3 = 1"
  using octets_less [of ip] octets_of [of "octets ip ! 0" "octets ip ! 1" "octets ip ! 2" 1]
  by (simp add: tun_gateway_def octets_def)

section \<open>Netlink messages\<close>

definition le_bytes :: "nat \<Rightarrow> nat \<Rightarrow> bytes" where
  "le_bytes k n = rev (be_bytes k n)"

definition nlmsg_align :: "nat \<Rightarrow> nat" where
  "nlmsg_align n = (n + 3) - (n + 3) mod 4"

definition RTM_NEWROUTE :: nat where "RTM_NEWROUTE = 24"
definition RTM_DELROUTE :: nat where "RTM_DELROUTE = 25"
definition RTA_DST :: nat where "RTA_DST = 1"
definition RTA_OIF :: nat where "RTA_OIF = 4"
definition RTA_GATEWAY :: nat where "RTA_GATEWAY = 5"

definition pad4 :: "bytes \<Rightarrow> bytes" where
  "pad4 b = b @ replicate (nlmsg_align (length b) - length b) 0"

definition push_rta :: "nat \<Rightarrow> bytes \<Rightarrow> bytes \<Rightarrow> bytes" where
  "push_rta kind payload buffer = pad4 (buffer @ le_bytes 2 (4 + length payload) @ le_bytes 2 kind @ payload)"

definition route_header :: "nat \<Rightarrow> nat \<Rightarrow> nat \<Rightarrow> nat \<Rightarrow> nat \<Rightarrow> nat \<Rightarrow> bytes" where
  "route_header len kind flags sequence prefix scope =
     le_bytes 4 len @ le_bytes 2 kind @ le_bytes 2 flags @ le_bytes 4 sequence @ le_bytes 4 0
     @ map of_nat [2, prefix, 0, 0, 254, 4, scope, 1] @ le_bytes 4 0"

text \<open>The length field is filled in when the message is complete.\<close>

definition set_length :: "bytes \<Rightarrow> bytes" where
  "set_length b = le_bytes 4 (length b) @ drop 4 b"

definition new_route_message :: "nat \<Rightarrow> u32 \<Rightarrow> nat \<Rightarrow> u32 option \<Rightarrow> nat \<Rightarrow> bytes" where
  "new_route_message sequence network prefix gateway interface =
     (let b0 = pad4 (route_header 0 RTM_NEWROUTE 0x605 sequence prefix (if gateway = None then 253 else 0));
          b1 = push_rta RTA_DST (be32 network) b0;
          b2 = (case gateway of Some g \<Rightarrow> push_rta RTA_GATEWAY (be32 g) b1 | None \<Rightarrow> b1)
      in set_length (push_rta RTA_OIF (le_bytes 4 interface) b2))"

definition del_route_message :: "nat \<Rightarrow> u32 \<Rightarrow> nat \<Rightarrow> bytes" where
  "del_route_message sequence network prefix =
     set_length (push_rta RTA_DST (be32 network) (pad4 (route_header 0 RTM_DELROUTE 5 sequence prefix 255)))"

lemma length_le_bytes [simp]: "length (le_bytes k n) = k"
  by (simp add: le_bytes_def)

lemma nlmsg_align_props: "nlmsg_align n mod 4 = 0" "n \<le> nlmsg_align n" "nlmsg_align n < n + 4"
  unfolding nlmsg_align_def by presburger+

lemma pad4_aligned: "length b mod 4 = 0 \<Longrightarrow> pad4 b = b"
proof -
  assume "length b mod 4 = 0"
  then have "nlmsg_align (length b) = length b" unfolding nlmsg_align_def by presburger
  then show ?thesis by (simp add: pad4_def)
qed

text \<open>A message states its own length, and every attribute starts at a multiple of four.\<close>

lemma route_message_lengths:
  "length (new_route_message q n p (Some g) i) = 52" "length (new_route_message q n p None i) = 44"
  "length (del_route_message q n p) = 36"
  "take 4 (new_route_message q n p gw i) = le_bytes 4 (length (new_route_message q n p gw i))"
  by (auto simp: new_route_message_def del_route_message_def Let_def set_length_def push_rta_def
      route_header_def pad4_aligned split: option.split)

end
