(* ===== verification/TunRoutes.thy ===== *)
theory TunRoutes
  imports TunAddress Machine
begin

text \<open>
  The capture of the routing table, \<^verbatim>\<open>backend/tun_linux.rs\<close>: what \<^verbatim>\<open>apply_tunconf\<close>, \<^verbatim>\<open>exclude_host_ip\<close>
  and \<^verbatim>\<open>teardown\<close> ask of the kernel and keep in their statics. The kernel is the parameter \<open>K\<close>.
\<close>

section \<open>The kernel\<close>

record ip_route =
  rt_network :: u32
  rt_prefix :: nat
  rt_gateway :: "u32 option"
  rt_interface :: int

text \<open>The answer to a request: acknowledged, an error number, no answer within two seconds (which
  \<^verbatim>\<open>receive_netlink_error\<close> takes for success), or a failure of the socket.\<close>

datatype nl_answer = Acked | Silent | Refused nat | NlFailed

record 'k kernel =
  k_add :: "ip_route \<Rightarrow> 'k \<Rightarrow> 'k \<times> nl_answer"
  k_del :: "u32 \<times> nat \<Rightarrow> 'k \<Rightarrow> 'k"
  k_routes :: "'k \<Rightarrow> ip_route set"



section \<open>Answers on the socket\<close>

definition le_val :: "bytes \<Rightarrow> nat" where
  "le_val b = be_val (rev b)"

text \<open>
  The loop over the messages of one datagram. It ends at the first \<^verbatim>\<open>NLMSG_ERROR\<close>; it moves on by
  the length the message states, so it need not end at all.
\<close>

partial_function (option) scan_netlink :: "bytes \<Rightarrow> nat \<Rightarrow> int option option" where
  "scan_netlink buf offset =
     (if offset + 16 \<le> length buf then
        (let len = le_val (sub_list buf offset (offset + 4));
             kind = le_val (sub_list buf (offset + 4) (offset + 6))
         in if kind = 2 \<and> 20 \<le> len \<and> offset + 20 \<le> length buf
            then Some (Some (sint (of_nat (le_val (sub_list buf (offset + 16) (offset + 20))) :: u32)))
            else scan_netlink buf (offset + nlmsg_align len))
      else Some None)"

datatype nl_receive = NlDatagram bytes | NlWouldBlock | NlError

text \<open>\<^verbatim>\<open>receive_netlink_error\<close> over what \<^verbatim>\<open>recv\<close> returns, with the time (ms) at the head of each turn.\<close>

fun receive_netlink_error :: "(nat \<times> nl_receive) list \<Rightarrow> nl_answer option" where
  "receive_netlink_error [] = None"
| "receive_netlink_error ((now, r) # rest) =
     (if 2000 < now then Some Silent
      else case r of
          NlWouldBlock \<Rightarrow> receive_netlink_error rest
        | NlError \<Rightarrow> Some NlFailed
        | NlDatagram d \<Rightarrow> (case scan_netlink d 0 of
              None \<Rightarrow> None
            | Some None \<Rightarrow> receive_netlink_error rest
            | Some (Some code) \<Rightarrow> Some (if code = 0 then Acked else Refused (nat (- code)))))"

text \<open>The acknowledgement of the kernel is recognised; a message that states the length zero makes the
  loop run forever.\<close>

lemma scan_netlink_error:
  assumes "length m = 20" and "le_val (take 4 m) = 36" and "le_val (take 2 (drop 4 m)) = 2"
  shows "scan_netlink (m @ rest) 0 = Some (Some (sint (of_nat (le_val (drop 16 m)) :: u32)))"
  using assms by (subst scan_netlink.simps) (simp add: sub_list_def Let_def take_drop)

lemma scan_netlink_ends: "scan_netlink b k = Some y \<Longrightarrow> \<not> (b = replicate 16 0 \<and> k = 0)"
proof (erule scan_netlink.raw_induct [rotated])
  fix self b k y
  assume ih: "\<And>b k y. self b k = Some y \<Longrightarrow> \<not> (b = replicate 16 0 \<and> k = 0)"
    and step: "(if k + 16 \<le> length b then
        (let len = le_val (sub_list b k (k + 4)); kind = le_val (sub_list b (k + 4) (k + 6))
         in if kind = 2 \<and> 20 \<le> len \<and> k + 20 \<le> length b
            then Some (Some (sint (of_nat (le_val (sub_list b (k + 16) (k + 20))) :: u32)))
            else self b (k + nlmsg_align len))
      else Some None) = Some y"
  have "le_val (replicate 4 0) = 0" by (simp add: le_val_def be_val_def eval_nat_numeral)
  then show "\<not> (b = replicate 16 0 \<and> k = 0)"
    using step ih [of "replicate 16 0" 0 y]
    by (auto simp: sub_list_def nlmsg_align_def Let_def split: if_splits)
qed

lemma scan_netlink_stuck: "scan_netlink (replicate 16 0) 0 = None"
  using scan_netlink_ends [of "replicate 16 0" 0] by (cases "scan_netlink (replicate 16 0) 0") auto

section \<open>Requests\<close>

definition route_del :: "'k kernel \<Rightarrow> str_text \<Rightarrow> 'k \<Rightarrow> 'k" where
  "route_del K destination k =
     (case parse_cidr destination of
        Inr (network, prefix) \<Rightarrow> if prefix = 0 then k else k_del K (network, prefix) k
      | Inl _ \<Rightarrow> k)"

definition nl_result :: "str_text \<Rightarrow> nl_answer \<Rightarrow> (tun_error, unit) res" where
  "nl_result destination answer =
     (case answer of
        Acked \<Rightarrow> Inr ()
      | Silent \<Rightarrow> Inr ()
      | Refused e \<Rightarrow> Inl (Fail (RouteRefused destination e))
      | NlFailed \<Rightarrow> Inl (Fail (RouteRefused destination 0)))"

definition route_add ::
  "'k kernel \<Rightarrow> str_text \<Rightarrow> u32 option \<Rightarrow> int \<Rightarrow> bool \<Rightarrow> 'k \<Rightarrow> 'k \<times> (tun_error, unit) res" where
  "route_add K destination gateway interface make_sure k =
     (case parse_cidr destination of
        Inl e \<Rightarrow> (k, Inl e)
      | Inr (network, prefix) \<Rightarrow>
          if prefix = 0 then (k, Inl (Fail DefaultRouteRefused))
          else let k1 = (if make_sure then route_del K destination k else k);
                   (k2, answer) = k_add K \<lparr>rt_network = network, rt_prefix = prefix, rt_gateway = gateway,
                     rt_interface = interface\<rparr> k1
               in (k2, nl_result destination answer))"

section \<open>The session's routes\<close>

record 'k tun_state =
  tun_kernel :: 'k
  gateway_route :: "(u32 \<times> int) option"
  dynamic_excludes :: "u32 list"
  uplink_routes :: "str_text list"
  tun_device :: "str_text option"


text \<open>An exclude goes through the uplink and is remembered for the teardown when it was added.\<close>

definition add_exclude :: "'k kernel \<Rightarrow> u32 \<Rightarrow> int \<Rightarrow> 'k tun_state \<Rightarrow> str_text \<Rightarrow> 'k tun_state" where
  "add_exclude K gateway uplink s destination =
     (case route_add K destination (Some gateway) uplink True (tun_kernel s) of
        (k, Inr _) \<Rightarrow> s\<lparr>tun_kernel := k, uplink_routes := uplink_routes s @ [destination]\<rparr>
      | (k, Inl _) \<Rightarrow> s\<lparr>tun_kernel := k\<rparr>)"

definition exclude_host_ip :: "'k kernel \<Rightarrow> u32 \<Rightarrow> 'k tun_state \<Rightarrow> 'k tun_state" where
  "exclude_host_ip K address s =
     (if address \<in> set (dynamic_excludes s) then s
      else let s1 = s\<lparr>dynamic_excludes := dynamic_excludes s @ [address]\<rparr> in
        (case gateway_route s1 of
           None \<Rightarrow> s1
         | Some (gateway, uplink) \<Rightarrow> add_exclude K gateway uplink s1 (cidr_text address 32)))"





definition teardown :: "'k kernel \<Rightarrow> 'k tun_state \<Rightarrow> 'k tun_state" where
  "teardown K s =
     s\<lparr>gateway_route := None, dynamic_excludes := [],
       tun_kernel := foldl (\<lambda>k r. route_del K r k) (tun_kernel s) (uplink_routes s),
       uplink_routes := [], tun_device := None\<rparr>"

section \<open>Longest prefixes\<close>









section \<open>The excludes\<close>


definition answered :: "(u32 \<times> nat) list \<Rightarrow> nl_answer list \<Rightarrow> (nl_answer \<Rightarrow> bool) \<Rightarrow> (u32 \<times> nat) list" where
  "answered rs answers P = map fst (filter (\<lambda>x. P (snd x)) (zip rs answers))"

lemma answered_Cons [simp]:
  "answered (r # rs) (a # as) P = (if P a then r # answered rs as P else answered rs as P)"
  by (simp add: answered_def)




section \<open>The capture\<close>











lemma add_excludes_keep [simp]:
  "gateway_route (foldl (add_exclude K g u) s ds) = gateway_route s"
  "dynamic_excludes (foldl (add_exclude K g u) s ds) = dynamic_excludes s"
proof -
  have "gateway_route (add_exclude K g u t d) = gateway_route t \<and> dynamic_excludes (add_exclude K g u t d) = dynamic_excludes t" for t d
    by (simp add: add_exclude_def split: prod.split sum.split)
  then show "gateway_route (foldl (add_exclude K g u) s ds) = gateway_route s"
    "dynamic_excludes (foldl (add_exclude K g u) s ds) = dynamic_excludes s"
    by (induction ds arbitrary: s) simp_all
qed

























end
