(* ===== verification/TunDevice.thy ===== *)
theory TunDevice
  imports TunAddress
begin

unbundle bit_operations_syntax

text \<open>
  The Linux tunnel device itself, \<^verbatim>\<open>backend/tun_linux.rs\<close>: creating it, its address, mask, MTU and
  flags through \<^verbatim>\<open>ioctl\<close>, the descriptors of the poll loops, the netlink socket and the system's
  DNS. Byte order is that of the little-endian machines the program is built for.
\<close>

section \<open>Requests to the kernel\<close>

text \<open>
  The program passes a buffer of 32 bytes, a name of 16 and a payload of 16. The kernel takes the
  structure it knows from the same address, which is larger on 64-bit machines, changes it and
  writes it back whole: \<open>behind\<close> are the bytes of the caller's memory behind the buffer. A kernel
  refuses a request or returns the structure changed.
\<close>

definition MTU :: nat where "MTU = 1300"
definition IFREQ_SIZE :: nat where "IFREQ_SIZE = 32"
definition IFF_TUN :: nat where "IFF_TUN = 0x0001"
definition IFF_NO_PI :: nat where "IFF_NO_PI = 0x1000"
definition UP_RUNNING :: u16 where "UP_RUNNING = 0x0041"

datatype ioctl_request = TunSetIff | SetAddr | SetNetmask | SetMtu | GetFlags | SetFlags | GetIndex

type_synonym ioctl_kernel = "ioctl_request \<Rightarrow> bytes \<Rightarrow> bytes option"

definition ioctl_memory :: "ioctl_kernel \<Rightarrow> bytes \<Rightarrow> ioctl_request \<Rightarrow> bytes \<Rightarrow> bytes option" where
  "ioctl_memory k behind r buffer = k r (buffer @ behind)"

definition ioctl :: "ioctl_kernel \<Rightarrow> bytes \<Rightarrow> ioctl_request \<Rightarrow> bytes \<Rightarrow> bytes option" where
  "ioctl k behind r buffer = map_option (take IFREQ_SIZE) (ioctl_memory k behind r buffer)"

text \<open>A zeroed buffer with the name at its start, and a payload written at offset 16.\<close>

definition ifreq_named :: "bytes \<Rightarrow> ('e, bytes) res" where
  "ifreq_named name =
     (if length name \<le> IFREQ_SIZE then Inr (name @ replicate (IFREQ_SIZE - length name) 0) else Inl Panic)"

definition put_payload :: "bytes \<Rightarrow> bytes \<Rightarrow> bytes" where
  "put_payload payload b = take 16 b @ payload @ drop (16 + length payload) b"

definition sockaddr_in_bytes :: "u32 \<Rightarrow> bytes" where
  "sockaddr_in_bytes address = le_bytes 2 2 @ [0, 0] @ be32 address @ replicate 8 0"

section \<open>The device\<close>

datatype device_error =
    NameTooLong | OpenRefused | SetIffRefused | SocketRefused | IoctlRefused ioctl_request
  | DupRefused | FcntlRefused | TimeoutRefused | BindRefused | ResolvectlFailed | ResolvConfFailed

text \<open>The name of the created device is what the kernel left in the buffer, up to its first zero.\<close>

definition tun_open :: "ioctl_kernel \<Rightarrow> bytes \<Rightarrow> bool \<Rightarrow> bytes \<Rightarrow> (device_error, bytes) res" where
  "tun_open k behind opens name =
     and_then (ensure (length name < 16) NameTooLong) (\<lambda>_.
     and_then (ensure opens OpenRefused) (\<lambda>_.
     and_then (ifreq_named name) (\<lambda>b.
     and_then (ok_or (ioctl k behind TunSetIff (put_payload (le_bytes 2 (IFF_TUN + IFF_NO_PI)) b)) SetIffRefused) (\<lambda>b.
     Inr (takeWhile (\<lambda>x. x \<noteq> 0) (take 16 b))))))"

definition interface_index :: "ioctl_kernel \<Rightarrow> bytes \<Rightarrow> bool \<Rightarrow> bytes \<Rightarrow> (device_error, nat) res" where
  "interface_index k behind socket_ok name =
     and_then (ensure (length name < 16) NameTooLong) (\<lambda>_.
     and_then (ensure socket_ok SocketRefused) (\<lambda>_.
     and_then (ifreq_named name) (\<lambda>b.
     and_then (ok_or (ioctl k behind GetIndex b) (IoctlRefused GetIndex)) (\<lambda>b.
     Inr (be_val (rev (sub_list b 16 20)))))))"

text \<open>
  The requests of \<^verbatim>\<open>set_address\<close> in their order, each with its buffer; the first that is refused
  ends it. The log is what the kernel was asked.
\<close>

fun set_each :: "ioctl_kernel \<Rightarrow> bytes \<Rightarrow> (ioctl_request \<times> bytes) list \<Rightarrow> (device_error, unit) res \<times> (ioctl_request \<times> bytes) list" where
  "set_each k behind [] = (Inr (), [])"
| "set_each k behind ((r, b) # rest) =
     (if ioctl k behind r b = None then (Inl (Fail (IoctlRefused r)), [(r, b)])
      else let (x, log) = set_each k behind rest in (x, (r, b) # log))"

definition flags_of :: "bytes \<Rightarrow> u16" where
  "flags_of b = of_nat (be_val (rev (sub_list b 16 18)))"

definition raise_interface :: "ioctl_kernel \<Rightarrow> bytes \<Rightarrow> bytes \<Rightarrow> (device_error, unit) res \<times> (ioctl_request \<times> bytes) list" where
  "raise_interface k behind b =
     (case ioctl k behind GetFlags b of
        None \<Rightarrow> (Inl (Fail (IoctlRefused GetFlags)), [(GetFlags, b)])
      | Some b1 \<Rightarrow>
          let b2 = put_payload (le_bytes 2 (unat (flags_of b1 OR UP_RUNNING))) b1 in
          (if ioctl k behind SetFlags b2 = None then Inl (Fail (IoctlRefused SetFlags)) else Inr (),
           [(GetFlags, b), (SetFlags, b2)]))"

definition set_address ::
  "ioctl_kernel \<Rightarrow> bytes \<Rightarrow> bool \<Rightarrow> bytes \<Rightarrow> u32 \<Rightarrow> nat \<Rightarrow> (device_error, unit) res \<times> (ioctl_request \<times> bytes) list" where
  "set_address k behind socket_ok name address mtu =
     (if \<not> socket_ok then (Inl (Fail SocketRefused), [])
      else case ifreq_named name of
        Inl e \<Rightarrow> (Inl e, [])
      | Inr b \<Rightarrow>
          (case set_each k behind
              [(SetAddr, put_payload (sockaddr_in_bytes address) b),
               (SetNetmask, put_payload (sockaddr_in_bytes (prefix_mask 24)) b),
               (SetMtu, put_payload (le_bytes 4 mtu) b)] of
             (Inl e, log) \<Rightarrow> (Inl e, log)
           | (Inr _, log) \<Rightarrow> (let (x, log') = raise_interface k behind b in (x, log @ log'))))"

section \<open>Descriptors\<close>

text \<open>
  The results come with the number of descriptors that stay open without an owner.
\<close>

definition poll_fd :: "bool \<Rightarrow> (device_error, unit) res \<times> nat" where
  "poll_fd dup_ok = (ensure dup_ok DupRefused, 0)"

definition nonblocking_file :: "bool \<Rightarrow> nat option \<Rightarrow> bool \<Rightarrow> (device_error, nat) res \<times> nat" where
  "nonblocking_file dup_ok status set_ok =
     (if \<not> dup_ok then (Inl (Fail DupRefused), 0)
      else case status of
        None \<Rightarrow> (Inl (Fail FcntlRefused), 1)
      | Some fl \<Rightarrow> if set_ok then (Inr (or fl 2048), 0) else (Inl (Fail FcntlRefused), 1))"

definition open_rtnetlink :: "bool \<Rightarrow> bool \<Rightarrow> bool \<Rightarrow> (device_error, unit) res \<times> nat" where
  "open_rtnetlink socket_ok timeout_ok bind_ok =
     (if \<not> socket_ok then (Inl (Fail SocketRefused), 0)
      else if \<not> timeout_ok then (Inl (Fail TimeoutRefused), 1)
      else if \<not> bind_ok then (Inl (Fail BindRefused), 0)
      else (Inr (), 0))"

section \<open>The system's DNS\<close>

datatype dns_effect = AskResolved str_text "str_text list" | WriteResolvConf str_text

definition set_dns ::
  "bool \<Rightarrow> bool \<Rightarrow> bool \<Rightarrow> str_text list \<Rightarrow> str_text \<Rightarrow> (device_error, unit) res \<times> dns_effect list" where
  "set_dns resolved_exists resolvectl_ok write_ok servers device =
     (if resolved_exists
      then (ensure resolvectl_ok ResolvectlFailed, [AskResolved device servers])
      else (ensure write_ok ResolvConfFailed,
            [WriteResolvConf (concat (map (\<lambda>s. lit ''nameserver '' @ s @ [10]) servers))]))"

section \<open>Properties\<close>

lemma ifreq_named_ok:
  "length name < 16 \<Longrightarrow> ifreq_named name = (Inr (name @ replicate (32 - length name) 0) :: ('e, bytes) res)"
  by (simp add: ifreq_named_def IFREQ_SIZE_def)

lemma length_put_payload: "length b = 32 \<Longrightarrow> length p \<le> 16 \<Longrightarrow> length (put_payload p b) = 32"
  by (simp add: put_payload_def)

lemma payload_name: "length name < 16 \<Longrightarrow> length b = 32 \<Longrightarrow> take (Suc (length name)) (put_payload p b) = take (Suc (length name)) b"
  by (simp add: put_payload_def min_def)

lemma flags_of_put:
  assumes "length b = 32"
  shows "flags_of (put_payload (le_bytes 2 (unat (w :: u16))) b) = w"
proof -
  have "sub_list (put_payload (le_bytes 2 (unat w)) b) 16 18 = le_bytes 2 (unat w)"
    using assms by (simp add: sub_list_def put_payload_def)
  then show ?thesis
    using be_val_be_bytes [of 2 "unat w"] unat_u16_less [of w] by (simp add: flags_of_def le_bytes_def)
qed

text \<open>
  What the kernel is asked, in order: the address, the mask of a \<^verbatim>\<open>/24\<close> and the MTU, each with the name of
  the device, and then the flags, of which all others are kept. A request is made only after every
  one before it was accepted, and the result is a success exactly when all five were.
\<close>

definition address_requests :: "bytes \<Rightarrow> u32 \<Rightarrow> nat \<Rightarrow> (ioctl_request \<times> bytes) list" where
  "address_requests name address mtu =
     (let b = name @ replicate (32 - length name) 0 in
      [(SetAddr, put_payload (sockaddr_in_bytes address) b),
       (SetNetmask, put_payload (sockaddr_in_bytes (prefix_mask 24)) b),
       (SetMtu, put_payload (le_bytes 4 mtu) b), (GetFlags, b)])"

lemma set_each_log:
  "set_each k m xs = (r, log) \<Longrightarrow>
     (\<exists>n \<le> length xs. log = take n xs \<and> (\<forall>j < n - 1. ioctl k m (fst (xs ! j)) (snd (xs ! j)) \<noteq> None))
     \<and> (r = Inr () \<longleftrightarrow> log = xs \<and> (\<forall>x \<in> set xs. ioctl k m (fst x) (snd x) \<noteq> None))"
proof (induction xs arbitrary: r log)
  case (Cons x xs)
  obtain q b where x: "x = (q, b)" by (cases x)
  show ?case
  proof (cases "ioctl k m q b")
    case None
    then have "r = Inl (Fail (IoctlRefused q))" "log = take 1 (x # xs)" using Cons.prems x by simp_all
    moreover have "\<not> (\<forall>y \<in> set (x # xs). ioctl k m (fst y) (snd y) \<noteq> None)" using None x by simp
    ultimately show ?thesis by (intro conjI exI [of _ 1]) auto
  next
    case (Some b')
    obtain r1 log1 where rest: "set_each k m xs = (r1, log1)" by (cases "set_each k m xs")
    then have e: "r = r1" "log = x # log1" using Cons.prems x Some by simp_all
    from Cons.IH [OF rest] obtain n where n: "n \<le> length xs" "log1 = take n xs"
      "\<forall>j < n - 1. ioctl k m (fst (xs ! j)) (snd (xs ! j)) \<noteq> None"
      and ok: "r1 = Inr () \<longleftrightarrow> log1 = xs \<and> (\<forall>x \<in> set xs. ioctl k m (fst x) (snd x) \<noteq> None)" by blast
    have "\<forall>j < Suc n - 1. ioctl k m (fst ((x # xs) ! j)) (snd ((x # xs) ! j)) \<noteq> None"
      using n(3) Some x by (auto simp: nth_Cons split: nat.split)
    then show ?thesis using e n ok Some x by (intro conjI exI [of _ "Suc n"]) auto
  qed
qed simp

lemma set_address_requests:
  assumes "set_address k m True name address mtu = (r, log)" and "length name < 16"
    and "\<And>q b c. k q b = Some c \<Longrightarrow> length c = length b"
  shows "\<exists>n. take 4 log = take n (address_requests name address mtu)"
    and "r = Inr () \<Longrightarrow> length log = 5 \<and> take 4 log = address_requests name address mtu
      \<and> (\<exists>b1. ioctl k m GetFlags (snd (log ! 3)) = Some b1 \<and> fst (log ! 4) = SetFlags
          \<and> flags_of (snd (log ! 4)) = flags_of b1 OR UP_RUNNING)"
proof -
  let ?b = "name @ replicate (32 - length name) 0"
  let ?xs = "take 3 (address_requests name address mtu)"
  have xs: "?xs = [(SetAddr, put_payload (sockaddr_in_bytes address) ?b),
      (SetNetmask, put_payload (sockaddr_in_bytes (prefix_mask 24)) ?b), (SetMtu, put_payload (le_bytes 4 mtu) ?b)]"
    by (simp add: address_requests_def Let_def)
  obtain r1 log1 where each: "set_each k m ?xs = (r1, log1)" by (cases "set_each k m ?xs")
  obtain r2 log2 where raise: "raise_interface k m ?b = (r2, log2)" by (cases "raise_interface k m ?b")
  have all: "(r, log) = (if r1 = Inr () then (r2, log1 @ log2) else (r1, log1))"
    using assms(1) each raise xs ifreq_named_ok [OF assms(2), where 'e = device_error]
    by (cases r1) (auto simp: set_address_def simp del: set_each.simps)
  have len_b: "length ?b = 32" using assms(2) by simp
  have reqs: "address_requests name address mtu = ?xs @ [(GetFlags, ?b)]" "length ?xs = 3"
    by (simp_all add: address_requests_def Let_def)
  from set_each_log [OF each] obtain n where n: "n \<le> length ?xs" "log1 = take n ?xs"
    and ok: "r1 = Inr () \<longleftrightarrow> log1 = ?xs \<and> (\<forall>x \<in> set ?xs. ioctl k m (fst x) (snd x) \<noteq> None)" by blast
  have log2: "\<exists>rest. log2 = (GetFlags, ?b) # rest"
    using raise by (auto simp: raise_interface_def Let_def split: option.splits)
  show "\<exists>n. take 4 log = take n (address_requests name address mtu)"
  proof (cases "r1 = Inr ()")
    case True
    then have "log = ?xs @ log2" using all ok by simp
    then have "take 4 log = take 4 (address_requests name address mtu)"
      using log2 by (auto simp: address_requests_def Let_def)
    then show ?thesis by blast
  next
    case False
    then have "take 4 log = take n ?xs" using all n by simp
    also have "\<dots> = take n (address_requests name address mtu)" using n(1) reqs by simp
    finally show ?thesis by blast
  qed
  assume r: "r = Inr ()"
  then have r1: "r1 = Inr ()" and log: "log = ?xs @ log2" and r2: "r2 = Inr ()"
    using all ok by (auto split: if_splits)
  obtain b1 where b1: "ioctl k m GetFlags ?b = Some b1"
    using raise r2 by (auto simp: raise_interface_def split: option.splits)
  then have l2: "log2 = [(GetFlags, ?b), (SetFlags, put_payload (le_bytes 2 (unat (flags_of b1 OR UP_RUNNING))) b1)]"
    using raise by (simp add: raise_interface_def Let_def)
  have "length b1 = 32"
    using b1 assms(3) len_b by (auto simp: ioctl_def ioctl_memory_def IFREQ_SIZE_def dest!: assms(3))
  then have "flags_of (snd (log2 ! 1)) = flags_of b1 OR UP_RUNNING" using l2 flags_of_put by simp
  then show "length log = 5 \<and> take 4 log = address_requests name address mtu
      \<and> (\<exists>b1. ioctl k m GetFlags (snd (log ! 3)) = Some b1 \<and> fst (log ! 4) = SetFlags
          \<and> flags_of (snd (log ! 4)) = flags_of b1 OR UP_RUNNING)"
    using b1 log l2 by (simp add: address_requests_def Let_def)
qed

text \<open>A device gets the name it was asked for when the kernel leaves the name as it is.\<close>

lemma tun_open_name:
  assumes "length name < 16" "0 \<notin> set name"
    and "\<And>b c. k TunSetIff b = Some c \<Longrightarrow> take 16 c = take 16 b"
    and "tun_open k m True name = Inr device"
  shows "device = name"
proof -
  obtain c where c: "k TunSetIff (put_payload (le_bytes 2 (IFF_TUN + IFF_NO_PI)) (name @ replicate (32 - length name) 0) @ m) = Some c"
    and d: "device = takeWhile (\<lambda>x. x \<noteq> 0) (take 16 (take IFREQ_SIZE c))"
    using assms(4) ifreq_named_ok [OF assms(1), where 'e = device_error]
    by (auto simp: tun_open_def ioctl_def ioctl_memory_def and_then_Inr_conv ensure_Inr_conv ok_or_Inr_conv)
  have "take 16 c = name @ replicate (16 - length name) 0"
    using assms(3) [OF c] assms(1) by (simp add: put_payload_def)
  then have "take 16 (take IFREQ_SIZE c) = name @ replicate (16 - length name) 0"
    by (simp add: IFREQ_SIZE_def)
  moreover have "\<forall>x \<in> set name. x \<noteq> 0" using assms(2) by auto
  ultimately show ?thesis using d assms(1) by (simp add: takeWhile_append)
qed

text \<open>
  The structure of a 64-bit kernel has 40 bytes, the buffer 32: every request reads and writes eight
  bytes of the caller's memory that do not belong to the buffer.
\<close>

lemma ioctl_writes_behind:
  assumes "length b = IFREQ_SIZE" "length m = 40 - IFREQ_SIZE" "length c = length (b @ m)"
    and "ioctl_memory k m r b = Some c"
  shows "length (drop IFREQ_SIZE c) = 8" and "k r (b @ m) = Some c"
  using assms by (simp_all add: ioctl_memory_def IFREQ_SIZE_def)

text \<open>Two error paths lose a descriptor.\<close>

lemma descriptors_lost:
  "snd (nonblocking_file d f s) = 1 \<longleftrightarrow> d \<and> (f = None \<or> \<not> s)"
  "snd (open_rtnetlink a b c) = 1 \<longleftrightarrow> a \<and> \<not> b"
  by (auto simp: nonblocking_file_def open_rtnetlink_def split: option.split)

end
