(* ===== verification/WinDevice.thy ===== *)
theory WinDevice
  imports TunAddress
begin

text \<open>
  The parts of the Windows device, \<^verbatim>\<open>backend/tun_win.rs\<close>, that are computed in the program: the
  quoting of the arguments of the commands it runs, the arguments of \<^verbatim>\<open>route.exe\<close>, the reading of
  its table, and the result of a command. The adapter and the calls of the system are not modelled.
\<close>

section \<open>Command lines\<close>

definition quotable :: "nat \<Rightarrow> bool" where
  "quotable c = (c = 32 \<or> c = 34 \<or> c = 9)"

text \<open>The loop of \<^verbatim>\<open>quote_arg\<close>; backslashes are held back until it is known what follows them.\<close>

fun quote_loop :: "str_text \<Rightarrow> nat \<Rightarrow> str_text" where
  "quote_loop [] n = replicate (n * 2) 92 @ [34]"
| "quote_loop (c # cs) n =
     (if c = 92 then quote_loop cs (n + 1)
      else if c = 34 then replicate (n * 2 + 1) 92 @ 34 # quote_loop cs 0
      else replicate n 92 @ c # quote_loop cs 0)"

definition quote_arg :: "str_text \<Rightarrow> str_text" where
  "quote_arg arg = (if arg \<noteq> [] \<and> \<not> list_ex quotable arg then arg else 34 # quote_loop arg 0)"

fun join_args :: "str_text list \<Rightarrow> str_text" where
  "join_args [] = []"
| "join_args [a] = a"
| "join_args (a # b # rest) = a @ 32 # join_args (b # rest)"

definition command_line :: "str_text \<Rightarrow> str_text list \<Rightarrow> str_text" where
  "command_line command args = join_args (map quote_arg (command # args))"

text \<open>
  How a started program reads its command line, as Microsoft documents it for
  \<^verbatim>\<open>CommandLineToArgvW\<close>: blanks outside quotes separate the arguments; \<open>2n\<close> backslashes before a
  quote are \<open>n\<close> backslashes and the quote opens or closes, \<open>2n + 1\<close> are \<open>n\<close> and the quote is a
  character; other backslashes are characters. The state is whether a quote is open, the
  backslashes just read, the argument so far, and whether one has begun.
\<close>

fun win_args :: "bool \<Rightarrow> nat \<Rightarrow> str_text \<Rightarrow> bool \<Rightarrow> str_text \<Rightarrow> str_text list" where
  "win_args q n cur begun [] = (if begun then [cur @ replicate n 92] else [])"
| "win_args q n cur begun (c # s) =
     (if c = 92 then win_args q (n + 1) cur True s
      else if c = 34 then
        (if even n then win_args (\<not> q) 0 (cur @ replicate (n div 2) 92) True s
         else win_args q 0 (cur @ replicate (n div 2) 92 @ [34]) True s)
      else if (c = 32 \<or> c = 9) \<and> \<not> q then
        (if begun then [cur @ replicate n 92] else []) @ win_args False 0 [] False s
      else win_args q 0 (cur @ replicate n 92 @ [c]) True s)"

lemma win_args_backslashes:
  "win_args q n cur True (replicate m 92 @ s) = win_args q (n + m) cur True s"
  by (induction m arbitrary: n) simp_all

lemma win_args_quoted:
  "win_args True 0 cur True (quote_loop cs n @ rest) = win_args False 0 (cur @ replicate n 92 @ cs) True rest"
proof (induction cs n arbitrary: cur rule: quote_loop.induct)
  case (1 n)
  then show ?case by (simp add: win_args_backslashes)
next
  case (2 c cs n)
  show ?case
  proof (cases "c = 92")
    case True
    then show ?thesis using 2(1) [OF True, of cur] by (simp add: replicate_app_Cons_same)
  next
    case False
    then show ?thesis
      using 2(2) [OF False] 2(3) [OF False] by (simp add: win_args_backslashes)
  qed
qed

lemma win_args_plain:
  "\<not> list_ex quotable cs \<Longrightarrow> cs \<noteq> [] \<or> begun \<Longrightarrow>
     win_args False n cur begun (cs @ 32 # rest) = (cur @ replicate n 92 @ cs) # win_args False 0 [] False rest"
proof (induction cs arbitrary: n cur begun)
  case (Cons c cs)
  then have "\<not> quotable c" and cs: "\<not> list_ex quotable cs" by simp_all
  then have c: "c \<noteq> 32" "c \<noteq> 34" "c \<noteq> 9" by (auto simp: quotable_def)
  then show ?case using Cons.IH [OF cs] by (cases "c = 92") (simp_all add: replicate_app_Cons_same)
qed simp

lemma win_args_plain_last:
  "\<not> list_ex quotable cs \<Longrightarrow> cs \<noteq> [] \<or> begun \<Longrightarrow> win_args False n cur begun cs = [cur @ replicate n 92 @ cs]"
proof (induction cs arbitrary: n cur begun)
  case (Cons c cs)
  then have "\<not> quotable c" and cs: "\<not> list_ex quotable cs" by simp_all
  then have c: "c \<noteq> 32" "c \<noteq> 34" "c \<noteq> 9" by (auto simp: quotable_def)
  then show ?case using Cons.IH [OF cs] by (cases "c = 92") (simp_all add: replicate_app_Cons_same)
qed simp

lemma win_args_quote_arg:
  "win_args False 0 [] False (quote_arg a @ 32 # rest) = a # win_args False 0 [] False rest"
  "win_args False 0 [] False (quote_arg a) = [a]"
proof -
  show "win_args False 0 [] False (quote_arg a @ 32 # rest) = a # win_args False 0 [] False rest"
    using win_args_plain [of a False 0 "[]" rest] win_args_quoted [of "[]" a 0 "32 # rest"]
    by (auto simp: quote_arg_def)
  show "win_args False 0 [] False (quote_arg a) = [a]"
    using win_args_plain_last [of a False 0 "[]"] win_args_quoted [of "[]" a 0 "[]"]
    by (auto simp: quote_arg_def)
qed

text \<open>A program reads exactly the arguments it is given, whatever they contain: no argument can be
  split, merged or turned into another one.\<close>

theorem command_line_roundtrip:
  "win_args False 0 [] False (command_line command args) = command # args"
proof -
  have "win_args False 0 [] False (join_args (map quote_arg (a # as))) = a # as" for a as
  proof (induction as arbitrary: a)
    case Nil
    then show ?case by (simp add: win_args_quote_arg)
  next
    case (Cons b bs)
    then show ?case using win_args_quote_arg(1) [of a "join_args (map quote_arg (b # bs))"] by simp
  qed
  then show ?thesis by (simp add: command_line_def)
qed

section \<open>Commands\<close>

text \<open>The exit code decides, whatever the program printed.\<close>

datatype command_error = StartFailed | ExitCode int str_text | NoDefaultRoute

definition run_cmd :: "(int \<times> str_text) option \<Rightarrow> (command_error, str_text) res" where
  "run_cmd result =
     (case result of
        None \<Rightarrow> Inl (Fail StartFailed)
      | Some (code, out_text) \<Rightarrow> if code \<noteq> 0 then Inl (Fail (ExitCode code (trim out_text))) else Inr out_text)"

definition ON_LINK_GATEWAY :: str_text where "ON_LINK_GATEWAY = lit ''0.0.0.0''"
definition HOST_MASK :: str_text where "HOST_MASK = lit ''255.255.255.255''"

definition win_parse_cidr :: "str_text \<Rightarrow> (str_text \<times> str_text) option" where
  "win_parse_cidr cidr =
     (case split_once 47 cidr of
        None \<Rightarrow> None
      | Some (ip_part, prefix_part) \<Rightarrow>
          (case (parse_ipv4 ip_part, parse_u16 prefix_part) of
             (Some ip, Some p) \<Rightarrow> if p > 32 then None else Some (ipv4_text ip, ipv4_text (prefix_mask p))
           | _ \<Rightarrow> None))"

definition exclude_via_gateway :: "str_text \<Rightarrow> str_text \<Rightarrow> str_text \<Rightarrow> str_text \<Rightarrow> str_text list" where
  "exclude_via_gateway destination net_mask gateway interface =
     [lit ''add'', destination, lit ''mask'', net_mask]
     @ (if gateway = ON_LINK_GATEWAY \<or> eq_ignore_ascii_case gateway (lit ''on-link'')
        then [lit ''0.0.0.0'', lit ''IF'', interface] else [gateway])
     @ [lit ''metric'', lit ''1'']"

definition route_delete_args :: "str_text \<Rightarrow> str_text list" where
  "route_delete_args destination_mask = lit ''delete'' # split_whitespace destination_mask"

definition win_tun_gateway :: "u32 \<Rightarrow> u32" where
  "win_tun_gateway ip =
     ipv4_of (octets ip ! 0) (octets ip ! 1) (octets ip ! 2) (if octets ip ! 3 = 1 then 2 else 1)"

text \<open>
  A line of the table: five columns, the first two zero, the metric a number of 32 bits; the first
  line of the least metric wins.
\<close>

fun parse_u32_digits :: "str_text \<Rightarrow> nat \<Rightarrow> nat option" where
  "parse_u32_digits [] v = Some v"
| "parse_u32_digits (c # s) v =
     (if 48 \<le> c \<and> c < 58 \<and> v * 10 + (c - 48) < 2 ^ 32 then parse_u32_digits s (v * 10 + (c - 48)) else None)"

definition parse_u32 :: "str_text \<Rightarrow> nat option" where
  "parse_u32 s =
     (case s of [] \<Rightarrow> None
      | c # r \<Rightarrow> if c = 43 then (if r = [] then None else parse_u32_digits r 0) else parse_u32_digits s 0)"

definition default_line :: "str_text \<Rightarrow> (nat \<times> str_text \<times> str_text) option" where
  "default_line line =
     (case split_whitespace line of
        a # b # gw # iface # metric # _ \<Rightarrow>
          if a \<noteq> ON_LINK_GATEWAY \<or> b \<noteq> ON_LINK_GATEWAY then None
          else map_option (\<lambda>m. (m, gw, iface)) (parse_u32 metric)
      | _ \<Rightarrow> None)"

fun least_metric :: "(nat \<times> 'a) list \<Rightarrow> (nat \<times> 'a) option" where
  "least_metric [] = None"
| "least_metric (x # xs) =
     (case least_metric xs of None \<Rightarrow> Some x | Some y \<Rightarrow> if fst x \<le> fst y then Some x else Some y)"

definition find_default_route :: "(int \<times> str_text) option \<Rightarrow> (command_error, str_text \<times> str_text) res" where
  "find_default_route result =
     and_then (run_cmd result) (\<lambda>output.
     ok_or (map_option snd (least_metric (List.map_filter default_line (text_lines output)))) NoDefaultRoute)"

lemma least_metric_first:
  "least_metric xs = Some x \<Longrightarrow> x \<in> set xs \<and> (\<forall>y \<in> set xs. fst x \<le> fst y)"
proof (induction xs arbitrary: x)
  case (Cons y ys)
  show ?case
  proof (cases "least_metric ys")
    case None
    then have "ys = []" by (cases ys) (auto split: option.splits if_splits)
    then show ?thesis using Cons.prems by simp
  next
    case (Some z)
    then show ?thesis using Cons.IH [OF Some] Cons.prems by (auto split: if_splits)
  qed
qed simp

text \<open>The gateway is never the address of the device, and a host is excluded with the mask of one
  address.\<close>

lemma win_tun_gateway_differs: "win_tun_gateway ip \<noteq> ip"
proof -
  let ?o = "octets ip"
  have less: "?o ! 0 \<le> 255" "?o ! 1 \<le> 255" "?o ! 2 \<le> 255" using octets_less [of ip] by (auto simp: octets_def)
  have "octets (win_tun_gateway ip) ! 3 = (if ?o ! 3 = 1 then 2 else 1)"
    using octets_of [of "?o ! 0" "?o ! 1" "?o ! 2" "if ?o ! 3 = 1 then 2 else 1"] less
    by (auto simp: win_tun_gateway_def)
  then show ?thesis by (metis numeral_eq_one_iff semiring_norm(85))
qed

lemma run_cmd_exit: "run_cmd r = Inr t \<longleftrightarrow> r = Some (0, t)"
  by (auto simp: run_cmd_def split: option.splits if_splits)

end
