(* ===== verification/WinRoutes.thy ===== *)
theory WinRoutes
  imports WinDevice "HOL-Library.List_Lexorder"
begin

text \<open>
  The routes of a session on Windows, \<^verbatim>\<open>backend/tun_win.rs\<close>: applying a configuration, excluding hosts,
  finding the DNS servers of the system, and taking everything back. Commands and system calls go
  into a log; what a command answers may depend on all that was done before it.
\<close>

section \<open>Commands and state\<close>

datatype win_effect =
    Command str_text "str_text list"
  | AddAddress u32
  | ConfigureInterface
  | SetAdapterDns "str_text list"

record win_env =
  we_result :: "win_effect list \<Rightarrow> str_text \<Rightarrow> str_text list \<Rightarrow> (int \<times> str_text) option"
  we_adapter :: bool
  we_address_ok :: bool
  we_dns_ok :: bool

text \<open>The set of excluded hosts is a list in the order of its iteration.\<close>

record win_state =
  win_log :: "win_effect list"
  win_gateway :: "(str_text \<times> str_text) option"
  win_excludes :: "str_text list"
  win_cleanup :: "str_text list"

datatype win_error = WinBadAddress | WinNoRoute | WinNoAdapter | WinAddressFailed | WinNoDns
  | WinHalfRoute str_text | WinHalfMissing str_text | WinDnsFailed

definition logged :: "win_effect \<Rightarrow> win_state \<Rightarrow> win_state" where
  "logged e s = s\<lparr>win_log := win_log s @ [e]\<rparr>"

definition win_command :: "win_env \<Rightarrow> str_text \<Rightarrow> str_text list \<Rightarrow> win_state \<Rightarrow> win_state \<times> (command_error, str_text) res" where
  "win_command env command args s =
     (logged (Command command args) s, run_cmd (we_result env (win_log s) command args))"

definition run_route :: "win_env \<Rightarrow> str_text list \<Rightarrow> win_state \<Rightarrow> win_state \<times> (command_error, str_text) res" where
  "run_route env args s = win_command env (lit ''route'') args s"

definition route_delete :: "win_env \<Rightarrow> win_state \<Rightarrow> str_text \<Rightarrow> win_state" where
  "route_delete env s destination_mask = fst (run_route env (route_delete_args destination_mask) s)"

definition with_mask :: "str_text \<Rightarrow> str_text \<Rightarrow> str_text" where
  "with_mask destination net_mask = destination @ lit '' mask '' @ net_mask"

section \<open>Excludes\<close>

definition add_exclude_route :: "win_env \<Rightarrow> str_text \<times> str_text \<Rightarrow> str_text \<Rightarrow> win_state \<Rightarrow> win_state \<times> bool" where
  "add_exclude_route env via destination s =
     (case run_route env (exclude_via_gateway destination HOST_MASK (fst via) (snd via)) s of
        (s1, r) \<Rightarrow> (s1, is_ok r))"

definition exclude_and_note :: "win_env \<Rightarrow> str_text \<times> str_text \<Rightarrow> win_state \<Rightarrow> str_text \<Rightarrow> win_state" where
  "exclude_and_note env via s destination =
     (case add_exclude_route env via destination s of
        (s1, ok) \<Rightarrow> if ok then s1\<lparr>win_cleanup := win_cleanup s1 @ [with_mask destination HOST_MASK]\<rparr> else s1)"

definition win_exclude_host_ip :: "win_env \<Rightarrow> u32 \<Rightarrow> win_state \<Rightarrow> win_state" where
  "win_exclude_host_ip env address s =
     (let destination = ipv4_text address in
      if destination \<in> set (win_excludes s) then s
      else let s1 = s\<lparr>win_excludes := win_excludes s @ [destination]\<rparr> in
        (case win_gateway s1 of None \<Rightarrow> s1 | Some via \<Rightarrow> exclude_and_note env via s1 destination))"

definition win_apply_deferred :: "win_env \<Rightarrow> str_text \<times> str_text \<Rightarrow> win_state \<Rightarrow> win_state" where
  "win_apply_deferred env via s = foldl (exclude_and_note env via) s (win_excludes s)"

section \<open>The half routes\<close>

definition HALF_MASK :: str_text where "HALF_MASK = lit ''128.0.0.0''"
definition HALF_NETS :: "str_text list" where "HALF_NETS = [lit ''0.0.0.0'', lit ''128.0.0.0'']"

definition half_present :: "str_text \<Rightarrow> str_text \<Rightarrow> str_text \<Rightarrow> bool" where
  "half_present output gateway destination =
     list_ex (\<lambda>line. case split_whitespace line of
         a # b # c # _ # _ # _ \<Rightarrow> a = destination \<and> b = HALF_MASK \<and> c = gateway
       | _ \<Rightarrow> False) (text_lines output)"

fun add_halves :: "win_env \<Rightarrow> str_text \<Rightarrow> str_text list \<Rightarrow> win_state \<Rightarrow> win_state \<times> (win_error, unit) res" where
  "add_halves env gateway [] s = (s, Inr ())"
| "add_halves env gateway (d # ds) s =
     (case run_route env [lit ''add'', d, lit ''mask'', HALF_MASK, gateway, lit ''metric'', lit ''1''] s of
        (s1, Inl _) \<Rightarrow> (s1, Inl (Fail (WinHalfRoute d)))
      | (s1, Inr _) \<Rightarrow> add_halves env gateway ds s1)"

definition verify_half_routes :: "win_env \<Rightarrow> str_text \<Rightarrow> win_state \<Rightarrow> win_state \<times> (win_error, unit) res" where
  "verify_half_routes env gateway s =
     (case run_route env [lit ''print'', lit ''-4''] s of
        (s1, Inl _) \<Rightarrow> (s1, Inl (Fail WinNoRoute))
      | (s1, Inr output) \<Rightarrow>
          (s1, case find (\<lambda>d. \<not> half_present output gateway d) HALF_NETS of
             None \<Rightarrow> Inr () | Some d \<Rightarrow> Inl (Fail (WinHalfMissing d))))"

definition add_half_routes :: "win_env \<Rightarrow> u32 \<Rightarrow> win_state \<Rightarrow> win_state \<times> (win_error, unit) res" where
  "add_half_routes env gateway s =
     (case add_halves env (ipv4_text gateway) HALF_NETS s of
        (s1, Inl e) \<Rightarrow> (s1, Inl e)
      | (s1, Inr _) \<Rightarrow> verify_half_routes env (ipv4_text gateway) s1)"

section \<open>DNS servers of the system\<close>

text \<open>Parts of registry paths, joined by backslashes.\<close>

fun registry_path :: "str_text list \<Rightarrow> str_text" where
  "registry_path [] = []"
| "registry_path [p] = p"
| "registry_path (p # q # ps) = p @ 92 # registry_path (q # ps)"

definition TCPIP_IFACES :: str_text where
  "TCPIP_IFACES = registry_path [lit ''HKLM'', lit ''SYSTEM'', lit ''CurrentControlSet'', lit ''Services'',
     lit ''Tcpip'', lit ''Parameters'', lit ''Interfaces'']"

definition NETWORK_CLASS :: str_text where
  "NETWORK_CLASS = registry_path [lit ''HKLM'', lit ''SYSTEM'', lit ''CurrentControlSet'', lit ''Control'',
     lit ''Network'', lit ''{4D36E972-E325-11CE-BFC1-08002BE10318}'']"

definition ADAPTER_NAME :: str_text where "ADAPTER_NAME = lit ''csqtt''"

definition interface_guids :: "str_text \<Rightarrow> str_text list" where
  "interface_guids output =
     filter (\<lambda>g. g \<noteq> [] \<and> hd g = 123 \<and> last g = 125)
       (map (\<lambda>path. last (split_chars (\<lambda>c. c = 92 \<or> c = 47) path))
         (List.map_filter (\<lambda>line. let ws = split_whitespace line in if ws = [] then None else Some (last ws))
           (text_lines output)))"

definition dns_tokens :: "str_text \<Rightarrow> str_text list" where
  "dns_tokens value =
     concat (map (\<lambda>line. case find_sub line (lit ''REG_'') of
         None \<Rightarrow> []
       | Some pos \<Rightarrow> filter (\<lambda>t. parse_ipv4 t \<noteq> None \<and> t \<noteq> lit ''0.0.0.0'') (drop 1 (split_whitespace (drop pos line))))
       (text_lines value))"

definition query_value_dns :: "win_env \<Rightarrow> str_text \<Rightarrow> win_state \<times> str_text list \<Rightarrow> str_text \<Rightarrow> win_state \<times> str_text list" where
  "query_value_dns env key found value_name =
     (case win_command env (lit ''reg'') [lit ''query'', key, lit ''/v'', value_name] (fst found) of
        (s1, Inl _) \<Rightarrow> (s1, snd found)
      | (s1, Inr value) \<Rightarrow> (s1, snd found @ dns_tokens value))"

definition query_interface_dns :: "win_env \<Rightarrow> win_state \<times> str_text list \<Rightarrow> str_text \<Rightarrow> win_state \<times> str_text list" where
  "query_interface_dns env found guid =
     (case win_command env (lit ''reg'')
         [lit ''query'', registry_path [NETWORK_CLASS, guid, lit ''Connection''], lit ''/v'', lit ''Name''] (fst found) of
        (s1, r) \<Rightarrow>
          if (case r of Inr output \<Rightarrow> list_ex (\<lambda>line. contains line ADAPTER_NAME) (text_lines output) | Inl _ \<Rightarrow> False)
          then (s1, snd found)
          else foldl (query_value_dns env (registry_path [TCPIP_IFACES, guid])) (s1, snd found)
                 [lit ''DhcpNameServer'', lit ''NameServer''])"

definition system_dns_servers :: "win_env \<Rightarrow> win_state \<Rightarrow> win_state \<times> str_text list" where
  "system_dns_servers env s =
     (case win_command env (lit ''reg'') [lit ''query'', TCPIP_IFACES] s of
        (s1, Inl _) \<Rightarrow> (s1, [])
      | (s1, Inr interfaces) \<Rightarrow>
          (case foldl (query_interface_dns env) (s1, []) (interface_guids interfaces) of
             (s2, found) \<Rightarrow> (s2, remdups_adj (sort found))))"

section \<open>The name resolution policy\<close>

definition powershell :: "win_env \<Rightarrow> str_text \<Rightarrow> win_state \<Rightarrow> win_state" where
  "powershell env script s =
     fst (win_command env (lit ''powershell'')
       [lit ''-NoProfile'', lit ''-NonInteractive'', lit ''-Command'', script] s)"

definition quoted :: "str_text \<Rightarrow> str_text" where "quoted t = 39 # t @ [39]"

definition remove_nrpt_rule :: "win_env \<Rightarrow> win_state \<Rightarrow> win_state" where
  "remove_nrpt_rule env s =
     powershell env (lit ''(Get-DnsClientNrptRule | Measure-Object).Count'')
      (powershell env (lit ''Get-DnsClientNrptRule | Where-Object {$_.Namespace -eq '' @ quoted (lit ''.'')
          @ lit ''} | Remove-DnsClientNrptRule -Force'') s)"

definition set_nrpt_rule :: "win_env \<Rightarrow> str_text \<Rightarrow> win_state \<Rightarrow> win_state" where
  "set_nrpt_rule env dns_server s =
     powershell env (lit ''Add-DnsClientNrptRule -Namespace '' @ quoted (lit ''.'')
         @ lit '' -NameServers '' @ quoted dns_server) (remove_nrpt_rule env s)"

section \<open>Applying a configuration\<close>

definition WIN_EXCLUDE_CIDRS :: "str_text list" where
  "WIN_EXCLUDE_CIDRS =
     [lit ''87.240.128.0/18'', lit ''87.240.192.0/19'', lit ''90.156.0.0/16'', lit ''93.186.224.0/21'',
      lit ''95.142.192.0/21'', lit ''95.163.0.0/16'', lit ''95.213.0.0/18'', lit ''155.212.192.0/20'',
      lit ''185.16.28.0/22'', lit ''194.67.64.0/18'', lit ''195.82.146.0/23'', lit ''213.180.193.0/24'',
      lit ''77.88.0.0/18'']"

definition LEGACY_DNS_EXCLUDE_CIDRS :: "str_text list" where
  "LEGACY_DNS_EXCLUDE_CIDRS = [lit ''8.8.8.0/24'', lit ''1.1.1.0/24'']"

definition dns_list :: "str_text \<Rightarrow> str_text list" where
  "dns_list dns = filter (\<lambda>v. v \<noteq> []) (map trim (split_on 44 dns))"

definition stale_routes :: "str_text \<Rightarrow> str_text list \<Rightarrow> str_text list" where
  "stale_routes peer_ip servers =
     [with_mask (lit ''0.0.0.0'') HALF_MASK, with_mask (lit ''128.0.0.0'') HALF_MASK, with_mask peer_ip HOST_MASK]
     @ map (\<lambda>(n, m). with_mask n m) (List.map_filter win_parse_cidr (WIN_EXCLUDE_CIDRS @ LEGACY_DNS_EXCLUDE_CIDRS))
     @ map (\<lambda>d. with_mask d HOST_MASK) (filter (\<lambda>d. parse_ipv4 d \<noteq> None) servers)"

text \<open>The subnets that were excluded are collected for the cleanup.\<close>

definition add_cidr_exclude ::
  "win_env \<Rightarrow> str_text \<times> str_text \<Rightarrow> win_state \<times> str_text list \<Rightarrow> str_text \<times> str_text \<Rightarrow> win_state \<times> str_text list" where
  "add_cidr_exclude env via acc cidr =
     (case run_route env (exclude_via_gateway (fst cidr) (snd cidr) (fst via) (snd via)) (fst acc) of
        (s1, r) \<Rightarrow> (s1, if is_ok r then snd acc @ [with_mask (fst cidr) (snd cidr)] else snd acc))"

text \<open>Everything of an earlier session goes: known routes first, then the hosts that were excluded.\<close>

definition drop_stale :: "win_env \<Rightarrow> str_text \<Rightarrow> str_text list \<Rightarrow> win_state \<Rightarrow> win_state" where
  "drop_stale env peer_ip dns_servers s =
     (let (s1, system) = system_dns_servers env s;
          s2 = foldl (route_delete env) s1 (stale_routes peer_ip (dns_servers @ system));
          s3 = foldl (\<lambda>s d. route_delete env s (with_mask d HOST_MASK)) s2 (win_excludes s2)
      in s3\<lparr>win_excludes := []\<rparr>)"

definition exclude_all :: "win_env \<Rightarrow> str_text \<times> str_text \<Rightarrow> win_state \<Rightarrow> win_state" where
  "exclude_all env via s =
     (let (s1, cidr_cleanup) = foldl (add_cidr_exclude env via) (s, []) (List.map_filter win_parse_cidr WIN_EXCLUDE_CIDRS);
          s2 = win_apply_deferred env via s1;
          (s3, system) = system_dns_servers env s2;
          s4 = s3\<lparr>win_cleanup := [with_mask (lit ''0.0.0.0'') HALF_MASK, with_mask (lit ''128.0.0.0'') HALF_MASK] @ cidr_cleanup\<rparr>
      in foldl (exclude_and_note env via) s4
           (filter (\<lambda>d. parse_ipv4 d \<noteq> None) (remdups_adj (sort system))))"

definition win_apply_tunconf ::
  "win_env \<Rightarrow> str_text \<Rightarrow> str_text \<Rightarrow> str_text \<Rightarrow> win_state \<Rightarrow> win_state \<times> (win_error, unit) res" where
  "win_apply_tunconf env ip dns peer_ip s =
     (case parse_ipv4 ip of
        None \<Rightarrow> (s, Inl (Fail WinBadAddress))
      | Some address \<Rightarrow>
     (case find_default_route (we_result env (win_log s) (lit ''route'') [lit ''print'', lit ''-4'', lit ''0.0.0.0'']) of
        Inl _ \<Rightarrow> (logged (Command (lit ''route'') [lit ''print'', lit ''-4'', lit ''0.0.0.0'']) s, Inl (Fail WinNoRoute))
      | Inr via \<Rightarrow>
     let s1 = (logged (Command (lit ''route'') [lit ''print'', lit ''-4'', lit ''0.0.0.0'']) s)\<lparr>win_gateway := Some via\<rparr> in
     if \<not> we_adapter env then (s1, Inl (Fail WinNoAdapter))
     else let s2 = logged (AddAddress address) s1 in
     if \<not> we_address_ok env then (s2, Inl (Fail WinAddressFailed))
     else if dns_list dns = [] then (s2, Inl (Fail WinNoDns))
     else (case add_half_routes env (win_tun_gateway address) (drop_stale env peer_ip (dns_list dns) (logged ConfigureInterface s2)) of
        (s3, Inl e) \<Rightarrow> (s3, Inl e)
      | (s3, Inr _) \<Rightarrow>
          let s4 = logged (SetAdapterDns (dns_list dns)) (exclude_all env via s3) in
          if \<not> we_dns_ok env then (s4, Inl (Fail WinDnsFailed))
          else (set_nrpt_rule env (hd (dns_list dns)) s4, Inr ()))))"

definition remove_routes :: "win_env \<Rightarrow> win_state \<Rightarrow> win_state" where
  "remove_routes env s =
     (let s1 = remove_nrpt_rule env s;
          s2 = foldl (route_delete env) (s1\<lparr>win_cleanup := []\<rparr>) (win_cleanup s1)
      in s2\<lparr>win_gateway := None, win_excludes := []\<rparr>)"

section \<open>Properties\<close>

text \<open>The hosts for which a log adds a route of their own.\<close>

definition host_add :: "win_effect \<Rightarrow> str_text set" where
  "host_add e =
     (case e of
        Command c (a # d # m # k # _) \<Rightarrow> if c = lit ''route'' \<and> a = lit ''add'' \<and> k = HOST_MASK then {d} else {}
      | _ \<Rightarrow> {})"

definition host_adds :: "win_effect list \<Rightarrow> str_text set" where
  "host_adds log = (\<Union>e \<in> set log. host_add e)"

lemma host_adds_append [simp]: "host_adds (a @ b) = host_adds a \<union> host_adds b"
  by (simp add: host_adds_def)

text \<open>\<open>quiet X s t\<close>: between two states only hosts of the set were excluded.\<close>

definition quiet :: "str_text set \<Rightarrow> win_state \<Rightarrow> win_state \<Rightarrow> bool" where
  "quiet X s t \<longleftrightarrow> host_adds (win_log t) \<subseteq> host_adds (win_log s) \<union> X \<and> win_excludes t = win_excludes s"

lemma quiet_refl [simp]: "quiet X s s" by (simp add: quiet_def)

lemma quiet_trans: "quiet X s t \<Longrightarrow> quiet X t u \<Longrightarrow> quiet X s u"
  by (auto simp: quiet_def)

lemma quiet_foldl: "(\<And>s x. x \<in> set xs \<Longrightarrow> quiet X s (f s x)) \<Longrightarrow> quiet X s (foldl f s xs)"
proof (induction xs arbitrary: s)
  case (Cons x xs)
  have "quiet X s (f s x)" by (rule Cons.prems) simp
  moreover have "quiet X (f s x) (foldl f (f s x) xs)" by (rule Cons.IH) (rule Cons.prems, simp)
  ultimately show ?case using quiet_trans by simp
qed simp

lemma quiet_foldl_pair:
  "(\<And>s x. x \<in> set xs \<Longrightarrow> quiet X (fst s) (fst (f s x))) \<Longrightarrow> quiet X (fst s) (fst (foldl f s xs))"
proof (induction xs arbitrary: s)
  case (Cons x xs)
  have "quiet X (fst s) (fst (f s x))" by (rule Cons.prems) simp
  moreover have "quiet X (fst (f s x)) (fst (foldl f (f s x) xs))" by (rule Cons.IH) (rule Cons.prems, simp)
  ultimately show ?case using quiet_trans by simp
qed simp

lemma quiet_logged: "host_add e \<subseteq> X \<Longrightarrow> quiet X s (logged e s)"
  by (auto simp: quiet_def logged_def host_adds_def)

lemma quiet_command: "host_add (Command c args) \<subseteq> X \<Longrightarrow> quiet X s (fst (win_command env c args s))"
  by (simp add: win_command_def quiet_logged)

lemma other_program: "c \<noteq> lit ''route'' \<Longrightarrow> host_add (Command c args) = {}"
  by (simp add: host_add_def split: list.split)

lemma quiet_delete: "quiet X s (route_delete env s d)"
proof -
  have "lit ''delete'' \<noteq> lit ''add''" by (simp add: lit_def)
  then have "host_add (Command (lit ''route'') (route_delete_args d)) = {}"
    by (auto simp: host_add_def route_delete_args_def split: list.split)
  then show ?thesis by (simp add: route_delete_def run_route_def quiet_command)
qed

lemma host_add_exclude:
  "host_add (Command (lit ''route'') (exclude_via_gateway d m g i)) = (if m = HOST_MASK then {d} else {})"
  by (simp add: host_add_def exclude_via_gateway_def)

lemma quiet_exclude: "d \<in> X \<Longrightarrow> quiet X s (exclude_and_note env via s d)"
proof -
  assume d: "d \<in> X"
  let ?args = "exclude_via_gateway d HOST_MASK (fst via) (snd via)"
  obtain s1 r where r: "run_route env ?args s = (s1, r)" by (cases "run_route env ?args s")
  have "quiet X s (fst (run_route env ?args s))"
    unfolding run_route_def by (rule quiet_command) (simp add: host_add_exclude d)
  then show ?thesis by (simp add: exclude_and_note_def add_exclude_route_def r quiet_def)
qed

lemma quiet_cidr: "snd c \<noteq> HOST_MASK \<Longrightarrow> quiet X (fst acc) (fst (add_cidr_exclude env via acc c))"
  using quiet_command [of "lit ''route''" "exclude_via_gateway (fst c) (snd c) (fst via) (snd via)" X "fst acc" env]
  by (auto simp: add_cidr_exclude_def run_route_def host_add_exclude split: prod.splits)

lemma quiet_system_dns: "quiet X s (fst (system_dns_servers env s))"
proof -
  have reg: "lit ''reg'' \<noteq> lit ''route''" by (simp add: lit_def)
  have one: "quiet X s (fst (win_command env (lit ''reg'') args s))" for s args
    by (rule quiet_command) (simp add: other_program reg)
  have val: "quiet X (fst f) (fst (query_value_dns env key f v))" for f key v
    using one [of "fst f" "[lit ''query'', key, lit ''/v'', v]"]
    by (auto simp: query_value_dns_def split: prod.splits sum.splits)
  have int: "quiet X (fst f) (fst (query_interface_dns env f g))" for f g
  proof -
    let ?args = "[lit ''query'', registry_path [NETWORK_CLASS, g, lit ''Connection''], lit ''/v'', lit ''Name'']"
    obtain s1 r where c: "win_command env (lit ''reg'') ?args (fst f) = (s1, r)" by fastforce
    have "quiet X (fst f) s1" using one [of "fst f" ?args] c by simp
    moreover have "quiet X (fst (s1, snd f)) (fst (foldl (query_value_dns env (registry_path [TCPIP_IFACES, g])) (s1, snd f)
        [lit ''DhcpNameServer'', lit ''NameServer'']))" by (rule quiet_foldl_pair) (rule val)
    ultimately have both: "quiet X (fst f) s1"
      "quiet X (fst f) (fst (foldl (query_value_dns env (registry_path [TCPIP_IFACES, g])) (s1, snd f)
        [lit ''DhcpNameServer'', lit ''NameServer'']))" using quiet_trans by simp_all
    then show ?thesis by (simp only: query_interface_dns_def c prod.case split: if_split) simp
  qed
  obtain s1 r where c: "win_command env (lit ''reg'') [lit ''query'', TCPIP_IFACES] s = (s1, r)" by fastforce
  have q: "quiet X s s1" using one [of s "[lit ''query'', TCPIP_IFACES]"] c by simp
  show ?thesis
  proof (cases r)
    case (Inl e)
    then show ?thesis using q c by (simp add: system_dns_servers_def)
  next
    case (Inr out)
    have "quiet X (fst (s1, [] :: str_text list)) (fst (foldl (query_interface_dns env) (s1, []) (interface_guids out)))"
      by (rule quiet_foldl_pair) (rule int)
    then have "quiet X s (fst (foldl (query_interface_dns env) (s1, []) (interface_guids out)))"
      using q quiet_trans by simp
    then show ?thesis by (auto simp: system_dns_servers_def c Inr split: prod.split)
  qed
qed

lemma quiet_powershell: "quiet X s (powershell env script s)"
proof -
  have "lit ''powershell'' \<noteq> lit ''route''" by (simp add: lit_def)
  then show ?thesis by (simp add: powershell_def quiet_command other_program)
qed

lemma quiet_remove_nrpt: "quiet X s (remove_nrpt_rule env s)"
  unfolding remove_nrpt_rule_def by (rule quiet_trans [OF quiet_powershell quiet_powershell])

lemma quiet_set_nrpt: "quiet X s (set_nrpt_rule env d s)"
  unfolding set_nrpt_rule_def by (rule quiet_trans [OF quiet_remove_nrpt quiet_powershell])

lemma half_not_host: "host_add (Command (lit ''route'') [lit ''add'', d, lit ''mask'', HALF_MASK, g, x, y]) = {}"
proof -
  have "HALF_MASK \<noteq> HOST_MASK" by (simp add: HALF_MASK_def HOST_MASK_def lit_def)
  then show ?thesis by (simp add: host_add_def)
qed

lemma quiet_halves: "quiet X s (fst (add_halves env g ds s))"
proof (induction ds arbitrary: s)
  case (Cons d ds)
  let ?args = "[lit ''add'', d, lit ''mask'', HALF_MASK, g, lit ''metric'', lit ''1'']"
  obtain s1 r where r: "run_route env ?args s = (s1, r)" by (cases "run_route env ?args s")
  have "quiet X s (fst (run_route env ?args s))"
    unfolding run_route_def by (rule quiet_command) (simp add: half_not_host)
  then have "quiet X s s1" using r by simp
  then show ?case using Cons.IH [of s1] quiet_trans by (cases r) (auto simp: r)
qed simp

lemma quiet_add_half_routes: "quiet X s (fst (add_half_routes env g s))"
proof -
  obtain s1 r where h: "add_halves env (ipv4_text g) HALF_NETS s = (s1, r)" by fastforce
  have s1: "quiet X s s1" using quiet_halves [of X s env "ipv4_text g" HALF_NETS] h by simp
  have "host_add (Command (lit ''route'') [lit ''print'', lit ''-4'']) = {}" by (simp add: host_add_def)
  then have "quiet X s1 (fst (run_route env [lit ''print'', lit ''-4''] s1))"
    unfolding run_route_def by (intro quiet_command) simp
  then have "quiet X s1 (fst (verify_half_routes env (ipv4_text g) s1))"
    by (auto simp: verify_half_routes_def split: prod.splits sum.splits)
  then show ?thesis using s1 quiet_trans by (cases r) (auto simp: add_half_routes_def h)
qed

lemma quiet_drop_stale:
  "host_adds (win_log (drop_stale env peer servers s)) \<subseteq> host_adds (win_log s) \<union> X \<and> win_excludes (drop_stale env peer servers s) = []"
proof -
  obtain s1 sys where d: "system_dns_servers env s = (s1, sys)" by fastforce
  define s2 where "s2 = foldl (route_delete env) s1 (stale_routes peer (servers @ sys))"
  define s3 where "s3 = foldl (\<lambda>s d. route_delete env s (with_mask d HOST_MASK)) s2 (win_excludes s2)"
  have "quiet X s s1" using quiet_system_dns [of X s env] d by simp
  moreover have "quiet X s1 s2" unfolding s2_def by (rule quiet_foldl) (rule quiet_delete)
  moreover have "quiet X s2 s3" unfolding s3_def by (rule quiet_foldl) (rule quiet_delete)
  ultimately have "quiet X s s3" using quiet_trans by blast
  moreover have "drop_stale env peer servers s = s3\<lparr>win_excludes := []\<rparr>"
    by (simp add: drop_stale_def d s2_def s3_def Let_def)
  ultimately show ?thesis by (simp add: quiet_def)
qed

lemma win_prefixes:
  "\<forall>c \<in> set WIN_EXCLUDE_CIDRS. \<exists>a b p. split_once 47 c = Some (a, b) \<and> parse_u16 b = Some p \<and> p < 32"
  by (simp add: WIN_EXCLUDE_CIDRS_def lit_def parse_u16_def)

lemma HOST_MASK_mask: "HOST_MASK = ipv4_text (prefix_mask 32)"
  by (simp add: HOST_MASK_def lit_def ipv4_text_def prefix_mask_def octets_def
      unsigned_minus_1_eq_mask mask_eq_exp_minus_1 text_decimal.simps)

lemma shorter_mask: "p < 32 \<Longrightarrow> ipv4_text (prefix_mask p) \<noteq> HOST_MASK"
proof
  assume "p < 32" "ipv4_text (prefix_mask p) = HOST_MASK"
  then have "prefix_mask p = prefix_mask 32" unfolding HOST_MASK_mask by (metis ipv4_roundtrip option.inject)
  moreover have "\<not> bit (prefix_mask p) 0" "bit (prefix_mask 32) 0" using prefix_mask_bit \<open>p < 32\<close> by simp_all
  ultimately show False by simp
qed

lemma cidr_masks: "c \<in> set (List.map_filter win_parse_cidr WIN_EXCLUDE_CIDRS) \<Longrightarrow> snd c \<noteq> HOST_MASK"
proof -
  assume "c \<in> set (List.map_filter win_parse_cidr WIN_EXCLUDE_CIDRS)"
  then obtain t where t: "t \<in> set WIN_EXCLUDE_CIDRS" "win_parse_cidr t = Some c"
    by (auto simp: List.map_filter_def)
  obtain a b p where "split_once 47 t = Some (a, b)" "parse_u16 b = Some p" "p < 32"
    using win_prefixes t(1) by blast
  then show ?thesis using t(2) shorter_mask by (auto simp: win_parse_cidr_def split: option.splits)
qed

text \<open>\<open>dns_hosts\<close>: the servers that the registry gives for one of the two reads.\<close>

lemma exclude_all_hosts:
  assumes "win_excludes s = []"
  shows "host_adds (win_log (exclude_all env via s))
    \<subseteq> host_adds (win_log s) \<union> {d. \<exists>t. d \<in> set (snd (system_dns_servers env t))}
    \<and> win_excludes (exclude_all env via s) = []"
proof -
  let ?X = "{d. \<exists>t. d \<in> set (snd (system_dns_servers env t))}"
  let ?cidrs = "List.map_filter win_parse_cidr WIN_EXCLUDE_CIDRS"
  obtain s1 cc where c: "foldl (add_cidr_exclude env via) (s, []) ?cidrs = (s1, cc)" by fastforce
  have "quiet ?X (fst (s, [] :: str_text list)) (fst (foldl (add_cidr_exclude env via) (s, []) ?cidrs))"
    by (rule quiet_foldl_pair) (rule quiet_cidr, rule cidr_masks)
  then have q1: "quiet ?X s s1" using c by simp
  then have none: "win_apply_deferred env via s1 = s1" using assms by (simp add: quiet_def win_apply_deferred_def)
  obtain s3 sys where d: "system_dns_servers env s1 = (s3, sys)" by fastforce
  have q3: "quiet ?X s1 s3" using quiet_system_dns [of ?X s1 env] d by simp
  have sys: "set sys \<subseteq> ?X" using d by (metis (mono_tags, lifting) mem_Collect_eq snd_conv subsetI)
  define s4 where "s4 = s3\<lparr>win_cleanup := [with_mask (lit ''0.0.0.0'') HALF_MASK, with_mask (lit ''128.0.0.0'') HALF_MASK] @ cc\<rparr>"
  let ?ds = "filter (\<lambda>d. parse_ipv4 d \<noteq> None) (remdups_adj (sort sys))"
  have "quiet ?X s4 (foldl (exclude_and_note env via) s4 ?ds)"
    by (rule quiet_foldl) (rule quiet_exclude, use sys in auto)
  moreover have "quiet ?X s3 s4" by (simp add: s4_def quiet_def)
  ultimately have "quiet ?X s (foldl (exclude_and_note env via) s4 ?ds)" using q1 q3 quiet_trans by blast
  moreover have "exclude_all env via s = foldl (exclude_and_note env via) s4 ?ds"
    unfolding exclude_all_def by (simp only: c none d Let_def prod.case s4_def)
  ultimately show ?thesis using assms by (simp add: quiet_def)
qed

text \<open>
  The hosts that were noted before the tunnel captured the traffic are meant to be excluded with it.
  They are forgotten: the stale excludes are drained first, so that what follows finds none, and only
  DNS servers of the system get a route of their own.
\<close>

theorem win_early_hosts_forgotten:
  assumes "win_apply_tunconf env ip dns peer s = (t, Inr ())"
  shows "win_excludes t = []
    \<and> host_adds (win_log t) \<subseteq> host_adds (win_log s) \<union> {d. \<exists>u. d \<in> set (snd (system_dns_servers env u))}"
proof -
  let ?X = "{d. \<exists>u. d \<in> set (snd (system_dns_servers env u))}"
  let ?print = "Command (lit ''route'') [lit ''print'', lit ''-4'', lit ''0.0.0.0'']"
  obtain address where address: "parse_ipv4 ip = Some address"
    using assms by (cases "parse_ipv4 ip") (simp_all add: win_apply_tunconf_def)
  obtain via where via: "find_default_route (we_result env (win_log s) (lit ''route'') [lit ''print'', lit ''-4'', lit ''0.0.0.0'']) = Inr via"
    using assms address by (cases "find_default_route (we_result env (win_log s) (lit ''route'') [lit ''print'', lit ''-4'', lit ''0.0.0.0''])")
      (simp_all add: win_apply_tunconf_def)
  define s1 where "s1 = (logged ?print s)\<lparr>win_gateway := Some via\<rparr>"
  define s2 where "s2 = logged ConfigureInterface (logged (AddAddress address) s1)"
  obtain s3 r where h: "add_half_routes env (win_tun_gateway address) (drop_stale env peer (dns_list dns) s2) = (s3, r)"
    by fastforce
  define s4 where "s4 = logged (SetAdapterDns (dns_list dns)) (exclude_all env via s3)"
  have flags: "we_adapter env" "we_address_ok env" "dns_list dns \<noteq> []" "r = Inr ()" "we_dns_ok env"
    and t: "t = set_nrpt_rule env (hd (dns_list dns)) s4"
    using assms address via h unfolding win_apply_tunconf_def s1_def s2_def s4_def
    by (auto simp: Let_def split: if_splits sum.splits)
  have "host_add ?print = {}" "host_add (AddAddress address) = {}" "host_add ConfigureInterface = {}"
    "host_add (SetAdapterDns (dns_list dns)) = {}" by (simp_all add: host_add_def)
  then have "host_adds (win_log s2) = host_adds (win_log s)" by (simp add: s2_def s1_def logged_def host_adds_def)
  moreover have "quiet {} (drop_stale env peer (dns_list dns) s2) s3"
    using quiet_add_half_routes [of "{}" "drop_stale env peer (dns_list dns) s2" env "win_tun_gateway address"] h by simp
  ultimately have s3: "host_adds (win_log s3) \<subseteq> host_adds (win_log s)" "win_excludes s3 = []"
    using quiet_drop_stale [of env peer "dns_list dns" s2 "{}"] by (auto simp: quiet_def)
  have "quiet {} (exclude_all env via s3) s4" unfolding s4_def by (rule quiet_logged) (simp add: host_add_def)
  then have "quiet {} (exclude_all env via s3) t" unfolding t using quiet_set_nrpt quiet_trans by blast
  then show ?thesis using exclude_all_hosts [OF s3(2), of env via] s3(1) by (auto simp: quiet_def)
qed

end
