(* ===== verification/ClientEvents.thy ===== *)
theory ClientEvents
  imports Strings Machine
begin

text \<open>
  The events for the host application, \<^verbatim>\<open>backend/events.rs\<close>: what a line of the control output
  looks like, and the latches that decide when an event is emitted. The rendering of a payload by
  \<^verbatim>\<open>serde_json\<close> is a parameter.
\<close>

section \<open>Lines\<close>

datatype client_event =
    EvReady nat
  | EvStopped
  | EvProcess nat
  | EvConfig str_text
  | EvError str_text str_text bool
  | EvStats int int int
  | EvActiveZero
  | EvServerRestart
  | EvProgress str_text
  | EvNetworkSuspect
  | EvCallUnavailable str_text int

definition EVENT_PREFIX :: str_text where
  "EVENT_PREFIX = lit ''__CSQTT_EVENT__|''"

definition event_name :: "client_event \<Rightarrow> str_text" where
  "event_name e = (case e of
      EvReady _ \<Rightarrow> lit ''READY''
    | EvStopped \<Rightarrow> lit ''STOPPED''
    | EvProcess _ \<Rightarrow> lit ''PROCESS''
    | EvConfig _ \<Rightarrow> lit ''CONFIG''
    | EvError _ _ _ \<Rightarrow> lit ''ERROR''
    | EvStats _ _ _ \<Rightarrow> lit ''STATS''
    | EvActiveZero \<Rightarrow> lit ''ACTIVE_ZERO''
    | EvServerRestart \<Rightarrow> lit ''SERVER_RESTART''
    | EvProgress _ \<Rightarrow> lit ''PROGRESS''
    | EvNetworkSuspect \<Rightarrow> lit ''NETWORK_SUSPECT''
    | EvCallUnavailable _ _ \<Rightarrow> lit ''CALL_UNAVAILABLE'')"

definition encode_event :: "(client_event \<Rightarrow> str_text option) \<Rightarrow> client_event \<Rightarrow> str_text option" where
  "encode_event payload e = map_option (\<lambda>json. EVENT_PREFIX @ event_name e @ 124 # json) (payload e)"

definition emit :: "(client_event \<Rightarrow> str_text option) \<Rightarrow> bool \<Rightarrow> client_event \<Rightarrow> str_text list" where
  "emit payload on e =
     (if \<not> on then [] else case encode_event payload e of Some l \<Rightarrow> [l] | None \<Rightarrow> [])"

text \<open>What the host does with a line: after the prefix, the text up to the first bar is the kind.\<close>

lemma event_name_bar: "124 \<notin> set (event_name e)"
  by (cases e) (simp_all add: event_name_def lit_def)

lemma encode_event_splits:
  assumes "encode_event payload e = Some l"
  shows "\<exists>rest. l = EVENT_PREFIX @ rest \<and> split_once 124 rest = Some (event_name e, the (payload e))"
  using assms event_name_bar [of e] by (auto simp: encode_event_def split_once_first)

section \<open>State\<close>

definition NETWORK_TIMEOUT_BURST_WINDOW :: nat where
  "NETWORK_TIMEOUT_BURST_WINDOW = 15000"

text \<open>
  A call of \<^verbatim>\<open>network_timeout\<close> has read the clock; it holds the lock and found the window too old,
  has reset the counter, or may count; it has counted to \<open>n\<close>; it has decided; it has left the lock and
  is to emit. A call of \<^verbatim>\<open>network_recovered\<close> resets the counter and the latch before it takes the lock.
\<close>

datatype event_call =
    NoCall
  | TimedOut nat
  | Resetting nat | Relatching nat | Counting nat
  | Latching nat
  | Unlocking bool
  | Emitting
  | Recovering | RecoveringLatch | RecoveringWindow

text \<open>\<open>lock_holder\<close> is the mutex of the window; \<open>counted_at\<close> is a history: the clock readings of the
  timeouts counted since the window was last opened; \<open>suspicions\<close> the counts that made an event.\<close>

record events =
  ev_enabled :: bool
  panel_restart_emitted :: bool
  network_suspect_emitted :: bool
  network_timeouts :: nat
  window_started :: "nat option"
  unavailable_hashes :: "str_text list"
  lock_holder :: "nat option"
  event_calls :: "event_call list"
  emitted :: "client_event list"
  counted_at :: "nat list"
  suspicions :: "nat list list"

definition events_new :: "bool \<Rightarrow> nat \<Rightarrow> events" where
  "events_new on n = \<lparr>ev_enabled = on, panel_restart_emitted = False, network_suspect_emitted = False,
     network_timeouts = 0, window_started = None, unavailable_hashes = [], lock_holder = None,
     event_calls = replicate n NoCall, emitted = [], counted_at = [], suspicions = []\<rparr>"

definition emit_event :: "client_event \<Rightarrow> events \<Rightarrow> events" where
  "emit_event e s = (if ev_enabled s then s\<lparr>emitted := emitted s @ [e]\<rparr> else s)"

definition panel_restart :: "events \<Rightarrow> events" where
  "panel_restart s =
     (if panel_restart_emitted s then s
      else emit_event EvServerRestart (s\<lparr>panel_restart_emitted := True\<rparr>))"

definition call_unavailable :: "str_text \<Rightarrow> int \<Rightarrow> events \<Rightarrow> events" where
  "call_unavailable h code s =
     (if h \<in> set (unavailable_hashes s) then s
      else emit_event (EvCallUnavailable h code) (s\<lparr>unavailable_hashes := h # unavailable_hashes s\<rparr>))"

definition set_call :: "nat \<Rightarrow> event_call \<Rightarrow> events \<Rightarrow> events" where
  "set_call i c s = s\<lparr>event_calls := (event_calls s)[i := c]\<rparr>"

definition window_over :: "nat \<Rightarrow> nat option \<Rightarrow> bool" where
  "window_over now w = (case w of None \<Rightarrow> True | Some t \<Rightarrow> NETWORK_TIMEOUT_BURST_WINDOW < now - t)"

text \<open>One atomic access of the call \<open>i\<close>. A call that needs the lock waits while another holds it.\<close>

definition call_step :: "nat \<Rightarrow> events \<Rightarrow> events" where
  "call_step i s =
     (if length (event_calls s) \<le> i then s
      else case event_calls s ! i of
          NoCall \<Rightarrow> s
        | TimedOut now \<Rightarrow>
            if lock_holder s \<noteq> None then s
            else if window_over now (window_started s)
            then set_call i (Resetting now) (s\<lparr>lock_holder := Some i, window_started := Some now, counted_at := []\<rparr>)
            else set_call i (Counting now) (s\<lparr>lock_holder := Some i\<rparr>)
        | Resetting now \<Rightarrow> set_call i (Relatching now) (s\<lparr>network_timeouts := 0\<rparr>)
        | Relatching now \<Rightarrow> set_call i (Counting now) (s\<lparr>network_suspect_emitted := False\<rparr>)
        | Counting now \<Rightarrow>
            set_call i (Latching (network_timeouts s + 1))
              (s\<lparr>network_timeouts := network_timeouts s + 1, counted_at := now # counted_at s\<rparr>)
        | Latching n \<Rightarrow>
            if n < 6 then set_call i (Unlocking False) s
            else set_call i (Unlocking (\<not> network_suspect_emitted s))
              (s\<lparr>network_suspect_emitted := True,
                 suspicions := (if network_suspect_emitted s then suspicions s else counted_at s # suspicions s)\<rparr>)
        | Unlocking fire \<Rightarrow>
            set_call i (if fire then Emitting else NoCall) (s\<lparr>lock_holder := None\<rparr>)
        | Emitting \<Rightarrow> set_call i NoCall (emit_event EvNetworkSuspect s)
        | Recovering \<Rightarrow> set_call i RecoveringLatch (s\<lparr>network_timeouts := 0\<rparr>)
        | RecoveringLatch \<Rightarrow> set_call i RecoveringWindow (s\<lparr>network_suspect_emitted := False\<rparr>)
        | RecoveringWindow \<Rightarrow>
            if lock_holder s \<noteq> None then s else set_call i NoCall (s\<lparr>window_started := None\<rparr>))"

datatype event_action =
  NetworkTimeout nat nat | NetworkRecovered nat | CallStep nat | PanelRestart | CallUnavailableAt str_text int

fun event_step :: "events \<Rightarrow> event_action \<Rightarrow> events" where
  "event_step s (NetworkTimeout i now) =
     (if i < length (event_calls s) \<and> event_calls s ! i = NoCall
      then set_call i (TimedOut now) s else s)"
| "event_step s (NetworkRecovered i) =
     (if i < length (event_calls s) \<and> event_calls s ! i = NoCall
      then set_call i Recovering s else s)"
| "event_step s (CallStep i) = call_step i s"
| "event_step s PanelRestart = panel_restart s"
| "event_step s (CallUnavailableAt h code) = call_unavailable h code s"

section \<open>The invariant\<close>

definition locked :: "event_call \<Rightarrow> bool" where
  "locked c = (case c of Resetting _ \<Rightarrow> True | Relatching _ \<Rightarrow> True | Counting _ \<Rightarrow> True | Latching _ \<Rightarrow> True
     | Unlocking _ \<Rightarrow> True | _ \<Rightarrow> False)"

text \<open>The timeouts of a window: none is more than fifteen seconds later than the one that opened it.\<close>

definition in_window :: "nat list \<Rightarrow> bool" where
  "in_window ts = (\<forall>t \<in> set ts. t \<le> last ts + NETWORK_TIMEOUT_BURST_WINDOW)"

definition counts_ok :: "events \<Rightarrow> bool" where
  "counts_ok s = (counted_at s \<noteq> [] \<and> network_timeouts s \<le> length (counted_at s)
     \<and> window_started s = Some (last (counted_at s)))"

definition holder_ok :: "events \<Rightarrow> event_call \<Rightarrow> bool" where
  "holder_ok s c = (case c of
      Resetting now \<Rightarrow> window_started s = Some now \<and> counted_at s = []
    | Relatching now \<Rightarrow> window_started s = Some now \<and> counted_at s = [] \<and> network_timeouts s = 0
    | Counting now \<Rightarrow> (if counted_at s = [] then network_timeouts s = 0 \<and> window_started s = Some now
        else counts_ok s \<and> now \<le> last (counted_at s) + NETWORK_TIMEOUT_BURST_WINDOW)
    | Latching n \<Rightarrow> counts_ok s \<and> n \<le> length (counted_at s)
    | Unlocking _ \<Rightarrow> counts_ok s
    | _ \<Rightarrow> False)"

definition window_ok :: "events \<Rightarrow> bool" where
  "window_ok s = (in_window (counted_at s) \<and> (case lock_holder s of
      None \<Rightarrow> window_started s = None \<or> counts_ok s
    | Some i \<Rightarrow> i < length (event_calls s) \<and> holder_ok s (event_calls s ! i)))"

definition lock_ok :: "events \<Rightarrow> bool" where
  "lock_ok s = (\<forall>i < length (event_calls s). locked (event_calls s ! i) \<longrightarrow> lock_holder s = Some i)"

text \<open>An event that is owed or made belongs to a suspicion.\<close>

definition owed :: "event_call \<Rightarrow> nat" where
  "owed c = (if c = Unlocking True \<or> c = Emitting then 1 else 0)"

definition suspects :: "events \<Rightarrow> nat" where
  "suspects s = length (filter (\<lambda>e. e = EvNetworkSuspect) (emitted s))"

definition suspicions_ok :: "events \<Rightarrow> bool" where
  "suspicions_ok s = (list_all (\<lambda>ts. 6 \<le> length ts \<and> in_window ts) (suspicions s)
     \<and> suspects s + sum_list (map owed (event_calls s)) \<le> length (suspicions s))"

definition unavailable_of :: "client_event list \<Rightarrow> str_text list" where
  "unavailable_of es = List.map_filter (\<lambda>e. case e of EvCallUnavailable h _ \<Rightarrow> Some h | _ \<Rightarrow> None) es"

definition once_ok :: "events \<Rightarrow> bool" where
  "once_ok s = (length (filter (\<lambda>e. e = EvServerRestart) (emitted s)) \<le> (if panel_restart_emitted s then 1 else 0)
     \<and> distinct (unavailable_of (emitted s))
     \<and> set (unavailable_of (emitted s))
         \<subseteq> set (unavailable_hashes s))"

definition events_inv :: "events \<Rightarrow> bool" where
  "events_inv s = (lock_ok s \<and> window_ok s \<and> suspicions_ok s \<and> once_ok s)"

lemma events_inv_new: "events_inv (events_new on n)"
proof -
  have "sum_list (map owed (replicate n NoCall)) = 0" by (induction n) (simp_all add: owed_def)
  then show ?thesis
    by (simp add: events_inv_def events_new_def lock_ok_def window_ok_def suspicions_ok_def once_ok_def
        in_window_def suspects_def locked_def unavailable_of_def List.map_filter_def)
qed

lemma set_call_fields [simp]:
  "lock_holder (set_call i c s) = lock_holder s" "window_started (set_call i c s) = window_started s"
  "network_timeouts (set_call i c s) = network_timeouts s" "counted_at (set_call i c s) = counted_at s"
  "suspicions (set_call i c s) = suspicions s" "emitted (set_call i c s) = emitted s"
  "panel_restart_emitted (set_call i c s) = panel_restart_emitted s"
  "unavailable_hashes (set_call i c s) = unavailable_hashes s"
  "event_calls (set_call i c s) = (event_calls s)[i := c]"
  by (simp_all add: set_call_def)

lemma emit_event_fields [simp]:
  "lock_holder (emit_event e s) = lock_holder s" "window_started (emit_event e s) = window_started s"
  "network_timeouts (emit_event e s) = network_timeouts s" "counted_at (emit_event e s) = counted_at s"
  "suspicions (emit_event e s) = suspicions s" "event_calls (emit_event e s) = event_calls s"
  "panel_restart_emitted (emit_event e s) = panel_restart_emitted s"
  "unavailable_hashes (emit_event e s) = unavailable_hashes s"
  by (simp_all add: emit_event_def)

lemma owed_update:
  "i < length cs \<Longrightarrow> sum_list (map owed (cs[i := c])) + owed (cs ! i) = sum_list (map owed cs) + owed c"
  by (rule sum_map_update)

text \<open>The lock is taken when it is free and given back by its holder.\<close>

lemma lock_ok_update:
  assumes "lock_ok s" "event_calls t = (event_calls s)[i := c]"
    and "lock_holder t = lock_holder s \<and> (locked c \<longrightarrow> lock_holder s = Some i)
      \<or> lock_holder s = None \<and> lock_holder t = Some i
      \<or> lock_holder s = Some i \<and> lock_holder t = None \<and> \<not> locked c"
  shows "lock_ok t"
proof -
  have "lock_holder t = Some j" if j: "j < length (event_calls s)" "locked ((event_calls s)[i := c] ! j)" for j
  proof (cases "j = i")
    case True
    then show ?thesis using j assms(3) by auto
  next
    case False
    then have "lock_holder s = Some j" using j assms(1) by (simp add: lock_ok_def)
    then show ?thesis using False assms(3) by auto
  qed
  then show ?thesis using assms(2) by (simp add: lock_ok_def)
qed

lemma lock_ok_call: 
  assumes "lock_ok s" "window_ok s" shows "lock_ok (call_step i s)"
proof (cases "i < length (event_calls s)")
  case i: True
  have holder: "locked (event_calls s ! i) \<Longrightarrow> lock_holder s = Some i"
    using assms(1) i by (simp add: lock_ok_def)
  note u = lock_ok_update [OF assms(1), of _ i]
  show ?thesis
  proof (cases "event_calls s ! i")
    case (TimedOut now)
    then show ?thesis using assms(1) i by (cases "lock_holder s") (auto simp: call_step_def intro!: u)
  next
    case (Latching n)
    then show ?thesis using holder i by (auto simp: call_step_def locked_def intro!: u)
  next
    case (RecoveringWindow)
    then show ?thesis using assms(1) i by (cases "lock_holder s") (auto simp: call_step_def locked_def intro!: u)
  qed (use assms holder i in \<open>simp_all add: call_step_def locked_def u\<close>)
qed (use assms in \<open>simp add: call_step_def\<close>)

lemma counts_ok_cong [simp]:
  "counts_ok (set_call i c s) = counts_ok s" "counts_ok (s\<lparr>lock_holder := h\<rparr>) = counts_ok s"
  "counts_ok (s\<lparr>network_suspect_emitted := b\<rparr>) = counts_ok s" "counts_ok (emit_event e s) = counts_ok s"
  "counts_ok (s\<lparr>network_suspect_emitted := b, suspicions := x\<rparr>) = counts_ok s"
  "counts_ok s \<Longrightarrow> counts_ok (s\<lparr>network_timeouts := 0\<rparr>)"
  by (simp_all add: counts_ok_def)

lemma holder_ok_cong [simp]:
  "holder_ok (set_call i d s) c = holder_ok s c" "holder_ok (s\<lparr>lock_holder := h\<rparr>) c = holder_ok s c"
  "holder_ok (s\<lparr>network_suspect_emitted := b\<rparr>) c = holder_ok s c" "holder_ok (emit_event e s) c = holder_ok s c"
  "holder_ok (s\<lparr>network_suspect_emitted := b, suspicions := x\<rparr>) c = holder_ok s c"
  "holder_ok s c \<Longrightarrow> holder_ok (s\<lparr>network_timeouts := 0\<rparr>) c"
  by (cases c; simp add: holder_ok_def split: if_splits)+

lemma in_window_Cons:
  "in_window ts \<Longrightarrow> ts = [] \<or> t \<le> last ts + NETWORK_TIMEOUT_BURST_WINDOW \<Longrightarrow> in_window (t # ts)"
  by (auto simp: in_window_def)

lemma window_ok_holder:
  assumes "lock_ok s" "window_ok s" "i < length (event_calls s)" "locked (event_calls s ! i)"
  shows "lock_holder s = Some i" "holder_ok s (event_calls s ! i)" "in_window (counted_at s)"
  using assms by (auto simp: lock_ok_def window_ok_def)

text \<open>A step of a call that does not hold the lock leaves the holder as it is.\<close>

lemma window_ok_other:
  assumes "window_ok s" "i < length (event_calls s)" "\<not> locked (event_calls s ! i)"
    and "counted_at t = counted_at s" "lock_holder t = lock_holder s"
    and "event_calls t = (event_calls s)[i := c]"
    and "\<And>d. holder_ok s d \<Longrightarrow> holder_ok t d"
    and "lock_holder s = None \<Longrightarrow> window_started s = None \<or> counts_ok s \<Longrightarrow> window_started t = None \<or> counts_ok t"
  shows "window_ok t"
proof (cases "lock_holder s")
  case (Some j)
  then have j: "j < length (event_calls s)" "holder_ok s (event_calls s ! j)" using assms(1) by (simp_all add: window_ok_def)
  then have "locked (event_calls s ! j)" by (auto simp: holder_ok_def locked_def split: event_call.splits)
  then have "j \<noteq> i" using assms(3) by auto
  then show ?thesis using j assms(1,4-7) Some by (simp add: window_ok_def)
qed (use assms in \<open>simp add: window_ok_def\<close>)

lemma window_ok_call:
  assumes s: "lock_ok s" "window_ok s" shows "window_ok (call_step i s)"
proof (cases "i < length (event_calls s)")
  case i: True
  note h = window_ok_holder [OF s i]
  note o = window_ok_other [OF s(2) i]
  show ?thesis
  proof (cases "event_calls s ! i")
    case (TimedOut now)
    then show ?thesis
      using s(2) i by (auto simp: call_step_def window_ok_def holder_ok_def counts_ok_def window_over_def in_window_def
          split: option.splits)
  next
    case (Counting now)
    then have "lock_holder s = Some i" "holder_ok s (Counting now)" "in_window (counted_at s)"
      using h by (simp_all add: locked_def)
    then show ?thesis
      using i Counting by (auto simp: call_step_def window_ok_def holder_ok_def counts_ok_def intro!: in_window_Cons split: if_splits)
  next
    case Recovering
    show ?thesis by (rule o, insert i) (auto simp: call_step_def Recovering locked_def)
  next
    case RecoveringLatch
    show ?thesis by (rule o, insert i) (auto simp: call_step_def RecoveringLatch locked_def)
  next
    case RecoveringWindow
    show ?thesis
      using s(2) i by (auto simp: call_step_def RecoveringWindow window_ok_def)
  next
    case Emitting
    show ?thesis by (rule o, insert i) (auto simp: call_step_def Emitting locked_def)
  next
    case NoCall
    then show ?thesis using s by (simp add: call_step_def)
  qed (use h i in \<open>auto simp: call_step_def locked_def window_ok_def holder_ok_def counts_ok_def\<close>)
qed (use s in \<open>simp add: call_step_def\<close>)

lemma suspects_emit [simp]:
  "suspects (emit_event e s) = suspects s + (if e = EvNetworkSuspect \<and> ev_enabled s then 1 else 0)"
  "suspects (set_call i c s) = suspects s"
  by (simp_all add: suspects_def emit_event_def)

text \<open>A step that makes no suspicion: what it owes and what it emits stay balanced.\<close>

lemma suspicions_ok_update:
  assumes "suspicions_ok s" "i < length (event_calls s)" "event_calls t = (event_calls s)[i := c]"
    and "suspicions t = ts @ suspicions s" "list_all (\<lambda>ts. 6 \<le> length ts \<and> in_window ts) ts"
    and "suspects t + owed c \<le> suspects s + owed (event_calls s ! i) + length ts"
  shows "suspicions_ok t"
  using assms owed_update [OF assms(2), of c] by (simp add: suspicions_ok_def)

lemma suspicions_ok_call:
  assumes "suspicions_ok s" "lock_ok s" "window_ok s" shows "suspicions_ok (call_step i s)"
proof (cases "i < length (event_calls s)")
  case i: True
  note u = suspicions_ok_update [OF assms(1) i, where ts = "[]", simplified]
  have fields: "suspects (s\<lparr>network_timeouts := a\<rparr>) = suspects s"
    "suspects (s\<lparr>network_suspect_emitted := b\<rparr>) = suspects s" "suspects (s\<lparr>lock_holder := h\<rparr>) = suspects s"
    "suspects (s\<lparr>window_started := w\<rparr>) = suspects s"
    "suspects (s\<lparr>network_timeouts := a, counted_at := x\<rparr>) = suspects s"
    "suspects (s\<lparr>lock_holder := h, window_started := w, counted_at := x\<rparr>) = suspects s"
    "suspects (s\<lparr>network_suspect_emitted := b, suspicions := y\<rparr>) = suspects s" for a b h w x y
    by (simp_all add: suspects_def)
  show ?thesis
  proof (cases "event_calls s ! i")
    case (TimedOut now)
    then show ?thesis using assms(1) i by (auto simp: call_step_def fields owed_def intro!: u)
  next
    case (Latching n)
    note h = window_ok_holder [OF assms(2,3) i, unfolded Latching, simplified locked_def, simplified]
    show ?thesis
    proof (cases "n < 6 \<or> network_suspect_emitted s")
      case True
      then show ?thesis using Latching i by (auto simp: call_step_def fields owed_def intro!: u)
    next
      case False
      then have "6 \<le> length (counted_at s) \<and> in_window (counted_at s)"
        using h by (auto simp: holder_ok_def)
      then show ?thesis
        using False Latching i
        by (intro suspicions_ok_update [OF assms(1) i, where ts = "[counted_at s]"])
           (auto simp: call_step_def fields owed_def)
    qed
  next
    case (RecoveringWindow)
    then show ?thesis using assms(1) i by (cases "lock_holder s") (auto simp: call_step_def fields owed_def intro!: u)
  qed (use assms i in \<open>auto simp: call_step_def fields owed_def intro!: u\<close>)
qed (use assms in \<open>simp add: call_step_def\<close>)

lemma unavailable_of_snoc [simp]:
  "unavailable_of [] = []"
  "unavailable_of (es @ [e]) = unavailable_of es @ (case e of EvCallUnavailable h _ \<Rightarrow> [h] | _ \<Rightarrow> [])"
  by (simp_all add: unavailable_of_def List.map_filter_def split: client_event.split)

lemma once_ok_cong:
  assumes "once_ok s" "panel_restart_emitted t = panel_restart_emitted s" "unavailable_hashes t = unavailable_hashes s"
    and "emitted t = emitted s \<or> emitted t = emitted s @ [EvNetworkSuspect]"
  shows "once_ok t"
  using assms by (auto simp: once_ok_def)

lemma once_ok_call: "once_ok s \<Longrightarrow> once_ok (call_step i s)"
  by (erule once_ok_cong)
     (auto simp: call_step_def emit_event_def set_call_def window_over_def split: event_call.split option.split)

lemma once_ok_panel: "once_ok s \<Longrightarrow> once_ok (panel_restart s)"
  by (auto simp: once_ok_def panel_restart_def emit_event_def split: if_splits)

lemma once_ok_unavailable: "once_ok s \<Longrightarrow> once_ok (call_unavailable h code s)"
  by (auto simp: once_ok_def call_unavailable_def emit_event_def split: if_splits)

lemma events_inv_same:
  assumes "events_inv s" "lock_holder t = lock_holder s" "window_started t = window_started s"
    and "network_timeouts t = network_timeouts s" "counted_at t = counted_at s" "suspicions t = suspicions s"
    and "event_calls t = event_calls s" "suspects t = suspects s" "once_ok t"
  shows "events_inv t"
  using assms
  by (auto simp: events_inv_def lock_ok_def window_ok_def suspicions_ok_def holder_ok_def counts_ok_def
      split: option.splits event_call.splits)

lemma events_inv_start:
  assumes "events_inv s" "i < length (event_calls s)" "event_calls s ! i = NoCall" "\<not> locked c" "owed c = 0"
  shows "events_inv (set_call i c s)"
proof -
  have s: "lock_ok s" "window_ok s" "suspicions_ok s" "once_ok s" using assms(1) by (simp_all add: events_inv_def)
  have "lock_ok (set_call i c s)" by (rule lock_ok_update [OF s(1)]) (use assms(4) in auto)
  moreover have "window_ok (set_call i c s)"
    by (rule window_ok_other [OF s(2) assms(2)]) (use assms(3) in \<open>auto simp: locked_def\<close>)
  moreover have "suspicions_ok (set_call i c s)"
    by (rule suspicions_ok_update [OF s(3) assms(2), where ts = "[]"]) (use assms(5) in auto)
  ultimately show ?thesis using s(4) by (auto simp: events_inv_def intro: once_ok_cong)
qed

lemma events_inv_step: "events_inv s \<Longrightarrow> events_inv (event_step s a)"
proof (cases a)
  case (CallStep i)
  assume "events_inv s"
  then show ?thesis
    by (simp add: CallStep events_inv_def lock_ok_call window_ok_call suspicions_ok_call once_ok_call)
next
  case PanelRestart
  assume s: "events_inv s"
  then have "once_ok (panel_restart s)" by (simp add: events_inv_def once_ok_panel)
  then have "events_inv (panel_restart s)"
    by (intro events_inv_same [OF s]) (simp_all add: panel_restart_def suspects_def emit_event_def)
  then show ?thesis by (simp add: PanelRestart)
next
  case (CallUnavailableAt h code)
  assume s: "events_inv s"
  then have "once_ok (call_unavailable h code s)" by (simp add: events_inv_def once_ok_unavailable)
  then have "events_inv (call_unavailable h code s)"
    by (intro events_inv_same [OF s]) (simp_all add: call_unavailable_def suspects_def emit_event_def)
  then show ?thesis by (simp add: CallUnavailableAt)
qed (auto intro: events_inv_start simp: locked_def owed_def)

interpretation client_events: transition_system
    "\<lambda>s. \<exists>on n. s = events_new on n" "\<lambda>s t. \<exists>a. t = event_step s a" events_inv
  by unfold_locales (auto intro: events_inv_new events_inv_step)

text \<open>C38: however many workers report at once and whatever the interleaving with a recovery, every
  NETWORK_SUSPECT is backed by at least six timeouts that were counted in a window of fifteen seconds,
  there is at most one SERVER_RESTART, and at most one CALL_UNAVAILABLE for each hash.\<close>

theorem client_events_once:
  assumes "reach (\<lambda>s. \<exists>on n. s = events_new on n) (\<lambda>s t. \<exists>a. t = event_step s a) s"
  shows "length (filter (\<lambda>e. e = EvNetworkSuspect) (emitted s)) \<le> length (suspicions s)
    \<and> list_all (\<lambda>ts. 6 \<le> length ts \<and> list_all (\<lambda>t. t \<le> last ts + 15000) ts) (suspicions s)
    \<and> length (filter (\<lambda>e. e = EvServerRestart) (emitted s)) \<le> 1
    \<and> distinct (unavailable_of (emitted s))"
proof -
  have "events_inv s" using assms by (rule client_events.reach_inv)
  then show ?thesis
    by (auto simp: events_inv_def suspicions_ok_def once_ok_def suspects_def in_window_def list_all_iff
        NETWORK_TIMEOUT_BURST_WINDOW_def split: if_splits)
qed

definition burst :: "event_action list" where
  "burst = concat (map (\<lambda>t. NetworkTimeout 0 t # replicate 6 (CallStep 0)) [1000, 2000, 3000, 4000, 5000, 6000])"

lemma reach_event_run:
  "reach (\<lambda>s. \<exists>on n. s = events_new on n) (\<lambda>s t. \<exists>a. t = event_step s a) (foldl event_step (events_new on n) as)"
proof (induction as rule: rev_induct)
  case Nil
  show ?case by (auto intro: reach_init)
next
  case (snoc a as)
  then show ?case by (auto intro: reach_step)
qed

lemma six: "replicate 6 x = [x, x, x, x, x, x]" "replicate 2 x = [x, x]"
  by (simp_all add: numeral_eq_Suc)

lemmas run_events = burst_def events_new_def call_step_def set_call_def window_over_def
  NETWORK_TIMEOUT_BURST_WINDOW_def emit_event_def six

lemma burst_emits: "emitted (foldl event_step (events_new True 2) burst) = [EvNetworkSuspect]"
  by (simp add: run_events)

lemma client_events_once_witness:
  "emitted (foldl event_step (events_new True 2) burst) = [EvNetworkSuspect]
   \<and> list_all (\<lambda>ts. 6 \<le> length ts) (suspicions (foldl event_step (events_new True 2) burst))"
  using client_events_once [OF reach_event_run, of True 2 burst] burst_emits by (auto simp: list_all_iff)

text \<open>A recovery that was suspended between its two resets makes one burst count twice: after the sixth
  timeout has been reported, the seventh is reported again.\<close>

definition suspended_recovery :: "event_action list" where
  "suspended_recovery = NetworkRecovered 1 # CallStep 1 # burst @ CallStep 1 # NetworkTimeout 0 7000 # replicate 6 (CallStep 0)"

lemma suspicion_twice:
  "emitted (foldl event_step (events_new True 2) suspended_recovery) = [EvNetworkSuspect, EvNetworkSuspect]"
  by (simp add: suspended_recovery_def run_events)

end
