(* ===== verification/ClientSetup.thy ===== *)
theory ClientSetup
  imports WorkerGroups TunRoutes Obfs StunMessage
begin

text \<open>
  The start and the end of a client, \<^verbatim>\<open>backend/lib.rs\<close> and \<^verbatim>\<open>backend/wrap.rs\<close>: the checks of the
  configuration, the number of workers, the wait for the call bots, the task that applies
  configurations, the control input, and the order in which \<^verbatim>\<open>run_client\<close> starts and stops things.
\<close>

section \<open>Workers\<close>

definition GROUPS_PER_VK_HASH :: nat where "GROUPS_PER_VK_HASH = 3"
definition MAX_VK_HASHES :: nat where "MAX_VK_HASHES = 6"
definition MAX_WORKERS :: nat where "MAX_WORKERS = MAX_VK_HASHES * GROUPS_PER_VK_HASH * WORKERS_PER_GROUP"

definition clamp :: "nat \<Rightarrow> nat \<Rightarrow> nat \<Rightarrow> nat" where
  "clamp low high n = (if n < low then low else if high < n then high else n)"

definition required_js_ready_bots :: "nat \<Rightarrow> nat" where
  "required_js_ready_bots groups = clamp 1 2 ((groups + GROUPS_PER_CREDENTIAL - 1) div GROUPS_PER_CREDENTIAL)"

definition normalize_worker_count :: "nat \<Rightarrow> nat" where
  "normalize_worker_count requested =
     clamp WORKERS_PER_GROUP MAX_WORKERS requested div WORKERS_PER_GROUP * WORKERS_PER_GROUP"

definition normalize_worker_count_for_hashes :: "nat \<Rightarrow> nat \<Rightarrow> bool \<Rightarrow> nat" where
  "normalize_worker_count_for_hashes requested hash_count redistribute =
     (if redistribute then normalize_worker_count requested
      else min (normalize_worker_count requested)
        (clamp 1 MAX_VK_HASHES hash_count * GROUPS_PER_VK_HASH * WORKERS_PER_GROUP))"

lemmas worker_consts = MAX_WORKERS_def MAX_VK_HASHES_def GROUPS_PER_VK_HASH_def WORKERS_PER_GROUP_def

lemma normalize_bounds:
  "9 dvd normalize_worker_count n" "9 \<le> normalize_worker_count n" "normalize_worker_count n \<le> 162"
  unfolding normalize_worker_count_def clamp_def worker_consts by auto

lemma normalize_for_hashes:
  "9 dvd normalize_worker_count_for_hashes n k r" "9 \<le> normalize_worker_count_for_hashes n k r"
  "normalize_worker_count_for_hashes n k r \<le> 162"
  "\<not> r \<Longrightarrow> 1 \<le> k \<Longrightarrow> normalize_worker_count_for_hashes n k r \<le> 27 * k"
proof -
  have "9 dvd min (normalize_worker_count n) (clamp 1 6 k * 3 * 9)"
    using normalize_bounds(1) [of n] by (cases "normalize_worker_count n \<le> clamp 1 6 k * 3 * 9") (auto simp: min_def)
  then show "9 dvd normalize_worker_count_for_hashes n k r"
    using normalize_bounds(1) [of n] by (simp add: normalize_worker_count_for_hashes_def worker_consts)
  show "9 \<le> normalize_worker_count_for_hashes n k r"
    using normalize_bounds(2) [of n] by (auto simp: normalize_worker_count_for_hashes_def worker_consts clamp_def)
  show "normalize_worker_count_for_hashes n k r \<le> 162"
    using normalize_bounds(3) [of n] by (auto simp: normalize_worker_count_for_hashes_def)
  show "\<not> r \<Longrightarrow> 1 \<le> k \<Longrightarrow> normalize_worker_count_for_hashes n k r \<le> 27 * k"
    by (auto simp: normalize_worker_count_for_hashes_def worker_consts clamp_def)
qed

section \<open>The wait for the call bots\<close>

text \<open>What the biased \<^verbatim>\<open>select!\<close> finds at each turn: the cancellation first, else the channel.\<close>

datatype ready_poll = ReadyCancelled | ReadyCredential nat | ReadyClosed

fun wait_for_js_credential_readiness :: "nat \<Rightarrow> nat list \<Rightarrow> ready_poll list \<Rightarrow> bool option" where
  "wait_for_js_credential_readiness expected ready polls =
     (if expected \<le> length ready then Some (length ready = expected)
      else case polls of
          [] \<Rightarrow> None
        | ReadyCredential c # rest \<Rightarrow>
            wait_for_js_credential_readiness expected (if c \<in> set ready then ready else c # ready) rest
        | _ # rest \<Rightarrow> Some False)"

declare wait_for_js_credential_readiness.simps [simp del]

text \<open>It reports success exactly when enough different credentials came before the end.\<close>

lemma readiness_needs_distinct:
  assumes "wait_for_js_credential_readiness expected ready polls = Some True" "distinct ready"
  shows "\<exists>cs. length cs = expected \<and> distinct cs \<and> set cs \<subseteq> set ready \<union> {c. ReadyCredential c \<in> set polls}"
  using assms
proof (induction polls arbitrary: ready)
  case Nil
  then show ?case by (subst (asm) wait_for_js_credential_readiness.simps) (auto split: if_splits)
next
  case (Cons p polls)
  show ?case
  proof (cases "expected \<le> length ready")
    case True
    then have "length ready = expected"
      using Cons.prems(1) by (subst (asm) wait_for_js_credential_readiness.simps) simp
    then show ?thesis using Cons.prems(2) by blast
  next
    case False
    with Cons.prems(1) obtain c where p: "p = ReadyCredential c"
      and rest: "wait_for_js_credential_readiness expected (if c \<in> set ready then ready else c # ready) polls = Some True"
      by (subst (asm) wait_for_js_credential_readiness.simps) (auto split: ready_poll.splits)
    have "distinct (if c \<in> set ready then ready else c # ready)" using Cons.prems(2) by simp
    from Cons.IH [OF rest this] show ?thesis using p by (fastforce split: if_splits)
  qed
qed

section \<open>Configurations\<close>

text \<open>What the task does with a configuration that differs from the last one. \<open>native\<close>: the core owns
  the tunnel device.\<close>

datatype config_effect = MarkTunnelActive | ApplyTunConf str_text str_text | ConfigEvent str_text

definition next_field :: "str_text \<Rightarrow> str_text \<times> str_text option" where
  "next_field s = (case split_once 58 s of None \<Rightarrow> (s, None) | Some (a, rest) \<Rightarrow> (a, Some rest))"

definition tunconf_fields :: "str_text \<Rightarrow> str_text \<times> str_text" where
  "tunconf_fields value =
     (case next_field value of
        (ip, None) \<Rightarrow> (ip, [])
      | (ip, Some rest) \<Rightarrow> (ip, fst (next_field rest)))"

definition strip_prefix :: "str_text \<Rightarrow> str_text \<Rightarrow> str_text option" where
  "strip_prefix p s = (if starts_with s p then Some (drop (length p) s) else None)"

definition handle_config :: "bool \<Rightarrow> str_text \<Rightarrow> config_effect list" where
  "handle_config native config =
     (case strip_prefix (lit ''TUNCONF:'') config of
        None \<Rightarrow> []
      | Some value \<Rightarrow>
          MarkTunnelActive # (if native then [ApplyTunConf (fst (tunconf_fields value)) (snd (tunconf_fields value))] else []))
     @ [ConfigEvent config]"

fun config_task :: "bool \<Rightarrow> str_text option \<Rightarrow> str_text list \<Rightarrow> config_effect list" where
  "config_task native last_config [] = []"
| "config_task native last_config (c # cs) =
     (if last_config = Some c then config_task native last_config cs
      else handle_config native c @ config_task native (Some c) cs)"

text \<open>Every change is handled once: the events are the configurations without their repetitions.\<close>

lemma config_task_events:
  "List.map_filter (\<lambda>e. case e of ConfigEvent c \<Rightarrow> Some c | _ \<Rightarrow> None) (config_task native (Some c) cs)
     = tl (remdups_adj (c # cs))"
proof (induction cs arbitrary: c)
  case Nil
  then show ?case by (simp add: List.map_filter_def)
next
  case (Cons d cs)
  have "List.map_filter (\<lambda>e. case e of ConfigEvent c \<Rightarrow> Some c | _ \<Rightarrow> None) (handle_config native d) = [d]"
    by (simp add: handle_config_def List.map_filter_def split: option.split)
  moreover have "d # tl (remdups_adj (d # cs)) = remdups_adj (d # cs)"
    by (cases cs) (simp_all add: remdups_adj_Cons split: list.split)
  ultimately show ?case using Cons [of d] Cons [of c] by (auto simp: List.map_filter_def)
qed

section \<open>The control input\<close>

datatype control_poll = ControlCancelled | ControlLine str_text | ControlClosed

text \<open>\<open>captcha_slot\<close> is the channel of one result the solver reads.\<close>

record control_state =
  control_paused :: bool
  finish_calls :: bool
  control_cancelled :: bool
  captcha_slot :: "str_text option"

definition submit_result :: "str_text \<Rightarrow> control_state \<Rightarrow> control_state \<times> bool" where
  "submit_result r s = (if captcha_slot s = None then (s\<lparr>captcha_slot := Some r\<rparr>, True) else (s, False))"

text \<open>One line; the flag says that the task ends.\<close>

definition control_line :: "str_text \<Rightarrow> control_state \<Rightarrow> control_state \<times> bool" where
  "control_line raw s =
     (let line = trim raw in
      if line = lit ''PAUSE'' then (s\<lparr>control_paused := True\<rparr>, False)
      else if line = lit ''RESUME'' then (s\<lparr>control_paused := False\<rparr>, False)
      else if line = lit ''FINISH_VK_CALLS'' then (s\<lparr>finish_calls := True\<rparr>, False)
      else if line = lit ''STOP'' then (s\<lparr>control_cancelled := True\<rparr>, True)
      else (case strip_prefix (lit ''CAPTCHA_RESULT|'') line of
          Some r \<Rightarrow> (fst (submit_result r s), False)
        | None \<Rightarrow> (s, False)))"

fun control_task :: "bool \<Rightarrow> control_poll list \<Rightarrow> control_state \<Rightarrow> control_state \<times> bool" where
  "control_task required [] s = (s, False)"
| "control_task required (ControlCancelled # rest) s = (s, True)"
| "control_task required (ControlClosed # rest) s =
     (if required then (s\<lparr>control_cancelled := True\<rparr>, True) else (s, True))"
| "control_task required (ControlLine l # rest) s =
     (let (t, ended) = control_line l s in if ended then (t, True) else control_task required rest t)"

text \<open>The client is cancelled by a STOP, or by the end of the input when the host asked for events, and
  by nothing else that arrives.\<close>

lemma control_cancels:
  assumes "control_task required polls s = (t, ended)" "control_cancelled t" "\<not> control_cancelled s"
  shows "(\<exists>l. ControlLine l \<in> set polls \<and> trim l = lit ''STOP'') \<or> required \<and> ControlClosed \<in> set polls"
  using assms
proof (induction required polls s rule: control_task.induct)
  case (4 required l rest s)
  show ?case
  proof (cases "trim l = lit ''STOP''")
    case False
    obtain u e where u: "control_line l s = (u, e)" by fastforce
    then have "\<not> e" "\<not> control_cancelled u"
      using False 4(4) by (auto simp: control_line_def Let_def submit_result_def split: if_splits option.splits)
    moreover have "control_task required rest u = (t, ended)" using u calculation 4(2) by simp
    ultimately have "(\<exists>l. ControlLine l \<in> set rest \<and> trim l = lit ''STOP'') \<or> required \<and> ControlClosed \<in> set rest"
      using 4(1) [OF u [symmetric] refl] 4(3) by simp
    then show ?thesis by auto
  qed auto
qed (auto split: if_splits)

section \<open>The key\<close>

definition WRAP_KEY_LEN :: nat where "WRAP_KEY_LEN = 32"
definition WRAP_SALT_BYTES :: bytes where "WRAP_SALT_BYTES = ascii ''CSQTT-WRAP-v1''"
definition WRAP_INFO :: bytes where "WRAP_INFO = ascii ''rtp-obfs/chacha20poly1305''"

datatype client_error =
    JsAuthNeedsJsHashes | MissingPeerOrHashes | MissingPassword | PeerUnresolved | UnknownObfsMode
  | EmptyPassword | WrapKeyFailed | MissingJsToken | JsStartFailed | NoHashes | DispatcherFailed

text \<open>\<open>hkdf salt info secret n\<close> is HKDF-SHA256 of the library; it can refuse.\<close>

definition derive_wrap_key ::
  "(bytes \<Rightarrow> bytes \<Rightarrow> str_text \<Rightarrow> nat \<Rightarrow> bytes option) \<Rightarrow> str_text \<Rightarrow> (client_error, bytes) res" where
  "derive_wrap_key hkdf password =
     (if password = [] then Inl (Fail EmptyPassword)
      else ok_or (hkdf WRAP_SALT_BYTES WRAP_INFO password WRAP_KEY_LEN) WrapKeyFailed)"

section \<open>The run of a client\<close>

record client_config =
  cc_turn :: str_text
  cc_port :: str_text
  cc_listen :: str_text
  cc_vk :: str_text
  cc_vk_hash_mode :: str_text
  cc_peer :: str_text
  cc_workers :: nat
  cc_allow_hash_redistribution :: bool
  cc_device_id :: str_text
  cc_password :: str_text
  cc_vk_auth_mode :: str_text
  cc_captcha_mode :: str_text
  cc_fingerprint :: str_text
  cc_client_ids :: str_text
  cc_obfs :: str_text
  cc_generation :: u64
  cc_salt :: str_text
  cc_tun_uds :: str_text
  cc_validate_vk_hashes :: bool
  cc_vk_js_token :: str_text

definition client_default :: client_config where
  "client_default = \<lparr>cc_turn = [], cc_port = [], cc_listen = lit ''127.0.0.1:9000'', cc_vk = [],
     cc_vk_hash_mode = lit ''manual'', cc_peer = [], cc_workers = 18, cc_allow_hash_redistribution = False,
     cc_device_id = lit ''unknown'', cc_password = [], cc_vk_auth_mode = lit ''vkcalls'',
     cc_captcha_mode = lit ''auto'', cc_fingerprint = lit ''chrome'', cc_client_ids = [], cc_obfs = lit ''audio'',
     cc_generation = 0, cc_salt = [], cc_tun_uds = [], cc_validate_vk_hashes = False, cc_vk_js_token = []\<rparr>"

text \<open>What the run meets outside: the answers to the attempts to resolve the peer, the key derivation,
  the hashes of the calls it started, whether the dispatcher starts, and whether the groups end before
  the cancellation.\<close>

record client_env =
  ce_resolve :: "nat \<Rightarrow> socket_addr option"
  ce_hkdf :: "bytes \<Rightarrow> bytes \<Rightarrow> str_text \<Rightarrow> nat \<Rightarrow> bytes option"
  ce_js_start :: "str_text list option"
  ce_dispatcher :: bool
  ce_groups_complete :: bool
  ce_finish_calls :: bool

definition resolve_peer :: "(nat \<Rightarrow> socket_addr option) \<Rightarrow> (client_error, socket_addr) res" where
  "resolve_peer resolve =
     (case List.map_filter resolve [0..<15] of a # _ \<Rightarrow> Inr a | [] \<Rightarrow> Inl (Fail PeerUnresolved))"

definition mode_of_text :: "str_text \<Rightarrow> (client_error, obfs_mode) res" where
  "mode_of_text s =
     (if list_all (\<lambda>c. c < 128) s then ok_or (obfs_mode_parse (map of_nat s)) UnknownObfsMode
      else Inl (Fail UnknownObfsMode))"

record client_plan =
  cp_peer :: socket_addr
  cp_mode :: obfs_mode
  cp_wrap_key :: bytes
  cp_hashes :: "str_text list"
  cp_workers :: nat
  cp_groups :: nat
  cp_native_tun :: bool

definition js_hash_mode :: "client_config \<Rightarrow> bool" where
  "js_hash_mode c = (cc_vk_hash_mode c = lit ''auto_js'')"

fun join_with :: "nat \<Rightarrow> str_text list \<Rightarrow> str_text" where
  "join_with sep [] = []"
| "join_with sep [x] = x"
| "join_with sep (x # xs) = x @ sep # join_with sep xs"

definition hash_source :: "client_env \<Rightarrow> client_config \<Rightarrow> (client_error, str_text) res" where
  "hash_source e c =
     (if js_hash_mode c then
        and_then (ensure (trim (cc_vk_js_token c) \<noteq> []) MissingJsToken) (\<lambda>_.
        and_then (ok_or (ce_js_start e) JsStartFailed) (\<lambda>hs. Inr (join_with 44 hs)))
      else Inr (cc_vk c))"

definition client_plan_of :: "client_env \<Rightarrow> client_config \<Rightarrow> (client_error, client_plan) res" where
  "client_plan_of e c =
     and_then (ensure (cc_vk_auth_mode c = lit ''auto_js'' \<longrightarrow> js_hash_mode c) JsAuthNeedsJsHashes) (\<lambda>_.
     and_then (ensure (cc_peer c \<noteq> [] \<and> (js_hash_mode c \<or> cc_vk c \<noteq> [])) MissingPeerOrHashes) (\<lambda>_.
     and_then (ensure (cc_password c \<noteq> []) MissingPassword) (\<lambda>_.
     and_then (resolve_peer (ce_resolve e)) (\<lambda>peer.
     and_then (mode_of_text (cc_obfs c)) (\<lambda>mode.
     and_then (derive_wrap_key (ce_hkdf e) (cc_password c)) (\<lambda>key.
     and_then (hash_source e c) (\<lambda>source.
     let hashes = take MAX_VK_HASHES (parse_hashes source);
         workers = normalize_worker_count_for_hashes (cc_workers c) (length hashes)
           (cc_allow_hash_redistribution c \<or> js_hash_mode c)
     in and_then (ensure (hashes \<noteq> []) NoHashes) (\<lambda>_.
     Inr \<lparr>cp_peer = peer, cp_mode = mode, cp_wrap_key = key, cp_hashes = hashes, cp_workers = workers,
       cp_groups = workers div WORKERS_PER_GROUP, cp_native_tun = (cc_tun_uds c \<noteq> [])\<rparr>))))))))"

definition is_js :: "client_config \<Rightarrow> bool" where
  "is_js c = (cc_allow_hash_redistribution c \<or> js_hash_mode c)"

lemma client_plan_Ok:
  assumes "client_plan_of e c = Inr p"
  obtains source where "hash_source e c = Inr source" "cp_hashes p = take 6 (parse_hashes source)"
    "cp_hashes p \<noteq> []" "cp_workers p = normalize_worker_count_for_hashes (cc_workers c) (length (cp_hashes p)) (is_js c)"
    "cp_groups p = cp_workers p div 9" "cc_password c \<noteq> []" "mode_of_text (cc_obfs c) = Inr (cp_mode p)"
    "derive_wrap_key (ce_hkdf e) (cc_password c) = Inr (cp_wrap_key p)"
proof -
  from assms obtain source where source: "hash_source e c = Inr source"
    and rest: "mode_of_text (cc_obfs c) = Inr (cp_mode p)" "cc_password c \<noteq> []"
      "derive_wrap_key (ce_hkdf e) (cc_password c) = Inr (cp_wrap_key p)"
      "cp_hashes p = take MAX_VK_HASHES (parse_hashes source)" "cp_hashes p \<noteq> []"
      "cp_workers p = normalize_worker_count_for_hashes (cc_workers c) (length (cp_hashes p))
         (cc_allow_hash_redistribution c \<or> js_hash_mode c)"
      "cp_groups p = cp_workers p div WORKERS_PER_GROUP"
    unfolding client_plan_of_def Let_def and_then_Inr_conv ensure_Inr_conv by auto
  show ?thesis
    by (rule that [OF source]) (use rest in \<open>simp_all add: MAX_VK_HASHES_def WORKERS_PER_GROUP_def is_js_def\<close>)
qed

text \<open>C37: a client that starts has between one and six different hashes and a key of the configured
  password; its workers come in full groups of nine, at most 27 for each hash unless they may be
  redistributed and never more than 162, and its groups number exactly these workers; the packet pool
  has 256 buffers for each and 512 more.\<close>

theorem client_admission:
  assumes "client_plan_of e c = Inr p"
  shows "distinct (cp_hashes p) \<and> cp_hashes p \<noteq> [] \<and> length (cp_hashes p) \<le> 6
    \<and> ce_hkdf e (ascii ''CSQTT-WRAP-v1'') (ascii ''rtp-obfs/chacha20poly1305'') (cc_password c) 32 = Some (cp_wrap_key p)
    \<and> 9 * cp_groups p = cp_workers p \<and> 1 \<le> cp_groups p \<and> cp_workers p \<le> 162
    \<and> (\<not> is_js c \<longrightarrow> cp_workers p \<le> 27 * length (cp_hashes p))
    \<and> concat (map group_worker_ids [1..<Suc (cp_groups p)]) = [1..<Suc (cp_workers p)]
    \<and> packet_pool_size (cp_workers p) = 256 * cp_workers p + 512"
proof -
  obtain source where p: "hash_source e c = Inr source" "cp_hashes p = take 6 (parse_hashes source)"
    "cp_hashes p \<noteq> []" "cp_workers p = normalize_worker_count_for_hashes (cc_workers c) (length (cp_hashes p)) (is_js c)"
    "cp_groups p = cp_workers p div 9" "derive_wrap_key (ce_hkdf e) (cc_password c) = Inr (cp_wrap_key p)"
    by (rule client_plan_Ok [OF assms])
  note w = normalize_for_hashes [where n = "cc_workers c" and k = "length (cp_hashes p)" and r = "is_js c", folded p(4)]
  have groups: "cp_groups p * 9 = cp_workers p" using w(1) p(5) by simp
  have ids: "concat (map group_worker_ids [1..<Suc (cp_groups p)]) = [1..<Suc (cp_workers p)]"
    using worker_ids_partition [of "cp_groups p"] groups by (simp only: WORKERS_PER_GROUP_def)
  have "distinct (cp_hashes p)"
    using distinct_take keep_first_distinct unfolding p(2) parse_hashes_def by blast
  moreover have "1 \<le> cp_groups p" using w(2) groups by linarith
  moreover have "\<not> is_js c \<Longrightarrow> cp_workers p \<le> 27 * length (cp_hashes p)"
    using w(4) p(3) by (cases "cp_hashes p") auto
  moreover have "ce_hkdf e (ascii ''CSQTT-WRAP-v1'') (ascii ''rtp-obfs/chacha20poly1305'') (cc_password c) 32 = Some (cp_wrap_key p)"
    using p(6) by (simp add: derive_wrap_key_def WRAP_SALT_BYTES_def WRAP_INFO_def WRAP_KEY_LEN_def ok_or_def
        split: if_splits option.splits)
  moreover have "packet_pool_size (cp_workers p) = 256 * cp_workers p + 512"
    using w(3) by (simp add: packet_pool_size_def saturating_add_def saturating_mul_def usize_max_def
        PACKET_POOL_PER_WORKER_def PACKET_POOL_SHARED_def)
  moreover have "length (cp_hashes p) \<le> 6" unfolding p(2) by simp
  ultimately show ?thesis using p(3) w(3) groups ids by (simp only: mult.commute) blast
qed

definition sample_config :: client_config where
  "sample_config = client_default\<lparr>cc_peer := lit ''peer'', cc_vk := lit ''abc,def'', cc_password := lit ''pw'', cc_workers := 60\<rparr>"

definition sample_client :: client_env where
  "sample_client = \<lparr>ce_resolve = (\<lambda>i. if i = 2 then Some (SocketAddr (V4 1) 2) else None),
     ce_hkdf = (\<lambda>salt info secret n. Some (replicate n 7)), ce_js_start = None, ce_dispatcher = True,
     ce_groups_complete = False, ce_finish_calls = False\<rparr>"

lemma client_admission_witness:
  "\<exists>p. client_plan_of sample_client sample_config = Inr p \<and> cp_workers p = 54 \<and> 9 * cp_groups p = cp_workers p"
proof -
  have hashes: "parse_hashes (lit ''abc,def'') = [lit ''abc'', lit ''def'']"
    by (simp add: parse_hashes_def lit_def is_separator_def List.map_filter_def normalize_hash_def trim_def is_whitespace_def
        trim_matches_def is_quote_def to_ascii_lowercase_def ascii_lower_def JOIN_PATH_def starts_with_def cut_hash_def ends_hash_def)
  have "resolve_peer (ce_resolve sample_client) = Inr (SocketAddr (V4 1) 2)"
    by (simp add: resolve_peer_def sample_client_def List.map_filter_def upt_rec)
  moreover have "mode_of_text (lit ''audio'') = Inr Audio"
    by (simp add: mode_of_text_def lit_def obfs_mode_parse_def ascii_def)
  ultimately obtain p where p: "client_plan_of sample_client sample_config = Inr p" "cp_workers p = 54"
    using hashes
    by (simp add: client_plan_of_def sample_config_def client_default_def js_hash_mode_def hash_source_def
        derive_wrap_key_def sample_client_def lit_def worker_consts normalize_worker_count_for_hashes_def
        normalize_worker_count_def clamp_def)
  then show ?thesis using client_admission [OF p(1)] by auto
qed

section \<open>The order of things\<close>

text \<open>What a run starts and stops, on Linux. The creator of the calls never leaves before the end
  (\<^verbatim>\<open>should_leave_js_creator\<close> is always false).\<close>

datatype client_effect =
    JsStart | JsFinish | JsLeave
  | ScheduleExcludes | SetActiveCaptcha | SetControlChannel | SpawnControl | SpawnParentMonitor | EmitProcess
  | StartDispatcher | SpawnStats | SpawnConfig | RunGroups
  | CancelToken | DropInterface | AwaitGroups | ShutdownDispatcher | ClearControlChannel | ClearActiveCaptcha
  | AbortStats | AbortConfig | AbortControl | AbortParent | TunTeardown | EmitStopped

definition run_client :: "client_env \<Rightarrow> client_config \<Rightarrow> client_effect list \<times> (client_error, unit) res" where
  "run_client e c =
     (let js = js_hash_mode c in
      case client_plan_of e c of
        Inl err \<Rightarrow> (if js \<and> err = Fail NoHashes then [JsStart] else [], Inl err)
      | Inr p \<Rightarrow>
     let start = (if js then [JsStart] else [])
       @ [ScheduleExcludes, SetActiveCaptcha, SetControlChannel, SpawnControl, SpawnParentMonitor, EmitProcess, StartDispatcher]
     in if \<not> ce_dispatcher e then (start @ (if js then [JsFinish] else []), Inl (Fail DispatcherFailed))
     else (start @ [SpawnStats, SpawnConfig, RunGroups, CancelToken]
       @ (if cp_native_tun p then [DropInterface] else [])
       @ (if ce_groups_complete e then [] else [AwaitGroups])
       @ [ShutdownDispatcher, ClearControlChannel, ClearActiveCaptcha, AbortStats, AbortConfig, AbortControl, AbortParent]
       @ (if js then [if ce_finish_calls e then JsFinish else JsLeave] else [])
       @ (if cp_native_tun p then [TunTeardown] else []) @ [EmitStopped], Inr ()))"

definition ends :: "client_effect \<Rightarrow> client_effect set" where
  "ends s = (case s of
      JsStart \<Rightarrow> {JsFinish, JsLeave} | ScheduleExcludes \<Rightarrow> {CancelToken} | SetActiveCaptcha \<Rightarrow> {ClearActiveCaptcha}
    | SetControlChannel \<Rightarrow> {ClearControlChannel} | SpawnControl \<Rightarrow> {AbortControl, CancelToken}
    | SpawnParentMonitor \<Rightarrow> {AbortParent, CancelToken} | StartDispatcher \<Rightarrow> {ShutdownDispatcher}
    | SpawnStats \<Rightarrow> {AbortStats} | SpawnConfig \<Rightarrow> {AbortConfig} | RunGroups \<Rightarrow> {CancelToken}
    | _ \<Rightarrow> {})"

fun left_open :: "client_effect list \<Rightarrow> client_effect list" where
  "left_open [] = []"
| "left_open (x # xs) = (if ends x \<noteq> {} \<and> ends x \<inter> set xs = {} then [x] else []) @ left_open xs"

text \<open>A run that was started is undone completely, and the last thing it does is to say so.\<close>

lemma client_undone:
  assumes "run_client e c = (es, Inr ())"
  shows "left_open es = []" "last es = EmitStopped"
  using assms by (auto simp: run_client_def Let_def ends_def split: sum.splits if_splits)

text \<open>When the dispatcher does not start, nothing is cancelled: the control task, the monitor of the parent
  and the scheduler of the excludes stay, and the control channel still takes lines.\<close>

lemma failed_dispatcher_leaves:
  assumes "client_plan_of e c = Inr p" "\<not> ce_dispatcher e"
  shows "left_open (fst (run_client e c))
    = [ScheduleExcludes, SetActiveCaptcha, SetControlChannel, SpawnControl, SpawnParentMonitor, StartDispatcher]"
  using assms by (auto simp: run_client_def Let_def ends_def)

section \<open>Excludes of the service\<close>

definition VK_HOSTS :: "str_text list" where
  "VK_HOSTS = [lit ''api.vk.me'', lit ''api.vk.com'', lit ''login.vk.ru'', lit ''login.vk.com'', lit ''id.vk.ru'',
     lit ''id.vk.com'', lit ''oauth.vk.ru'', lit ''oauth.vk.com'', lit ''vk.com'']"

text \<open>One tick of \<^verbatim>\<open>schedule_vk_endpoint_excludes\<close>, with what the lookups answer.\<close>

definition exclude_ip :: "'k kernel \<Rightarrow> 'k tun_state \<Rightarrow> ip_addr \<Rightarrow> 'k tun_state" where
  "exclude_ip K s a = (case a of V4 w \<Rightarrow> exclude_host_ip K w s | V6 _ \<Rightarrow> s)"

definition exclude_tick :: "'k kernel \<Rightarrow> (str_text \<Rightarrow> ip_addr list option) \<Rightarrow> 'k tun_state \<Rightarrow> 'k tun_state" where
  "exclude_tick K lookups s =
     foldl (exclude_ip K) s (concat (map (\<lambda>h. case lookups h of Some as \<Rightarrow> as | None \<Rightarrow> []) VK_HOSTS))"

text \<open>Whatever is excluded in whatever order, no host is kept twice, as the capture of the routes needs.\<close>

lemma add_exclude_excludes [simp]: "dynamic_excludes (add_exclude K g u s d) = dynamic_excludes s"
  by (simp add: add_exclude_def split: prod.split sum.split)

lemma exclude_host_distinct: "distinct (dynamic_excludes s) \<Longrightarrow> distinct (dynamic_excludes (exclude_host_ip K a s))"
  by (simp add: exclude_host_ip_def Let_def split: option.split)

lemma exclude_tick_distinct: "distinct (dynamic_excludes s) \<Longrightarrow> distinct (dynamic_excludes (exclude_tick K lookups s))"
proof -
  have "distinct (dynamic_excludes (foldl (exclude_ip K) s as))" if "distinct (dynamic_excludes s)" for as
    using that by (induction as arbitrary: s) (auto simp: exclude_ip_def exclude_host_distinct split: ip_addr.split)
  then show "distinct (dynamic_excludes s) \<Longrightarrow> ?thesis" by (simp add: exclude_tick_def)
qed

end
