(* ===== verification/VkAuth.thy ===== *)
theory VkAuth
  imports WorkerGroups TurnEndpoint
begin

text \<open>
  Fetching TURN credentials, \<^verbatim>\<open>backend/auth.rs\<close> and \<^verbatim>\<open>backend/vk_js_calls.rs\<close>: what the code reads
  from the answers of the service, which errors it tells apart, and how often it tries. An answer
  is a parsed JSON value; the requests themselves are inputs.
\<close>

section \<open>JSON values\<close>

text \<open>\<^verbatim>\<open>serde_json::Value\<close>. A number is an integer of 64 bits or a float, of which the code only takes
  the conversion to \<^verbatim>\<open>i64\<close>.\<close>

datatype json =
    JNull
  | JBool bool
  | JInt int
  | JFloat int
  | JString str_text
  | JArray "json list"
  | JObject "(str_text \<times> json) list"

definition json_get :: "str_text \<Rightarrow> json \<Rightarrow> json option" where
  "json_get key v = (case v of JObject m \<Rightarrow> map_of m key | _ \<Rightarrow> None)"

definition as_str :: "json \<Rightarrow> str_text option" where
  "as_str v = (case v of JString s \<Rightarrow> Some s | _ \<Rightarrow> None)"

definition as_array :: "json \<Rightarrow> json list option" where
  "as_array v = (case v of JArray l \<Rightarrow> Some l | _ \<Rightarrow> None)"

definition is_number :: "json \<Rightarrow> bool" where
  "is_number v = (case v of JInt _ \<Rightarrow> True | JFloat _ \<Rightarrow> True | _ \<Rightarrow> False)"

datatype auth_error =
    CallUnavailable int str_text
  | CaptchaNeeded
  | VkApiError int str_text
  | OkApiError int str_text
  | MissingKey str_text | ExpectedString | ExpectedNumber
  | MissingTurnServer | MissingUsername | MissingCredential | MissingUrls | NoTurnAddresses
  | RequestFailed str_text
  | Lockout

fun json_path :: "json \<Rightarrow> str_text list \<Rightarrow> (auth_error, json) res" where
  "json_path v [] = Inr v"
| "json_path v (k # ks) = and_then (ok_or (json_get k v) (MissingKey k)) (\<lambda>w. json_path w ks)"

definition json_string :: "json \<Rightarrow> str_text list \<Rightarrow> (auth_error, str_text) res" where
  "json_string v path = and_then (json_path v path) (\<lambda>w. ok_or (as_str w) ExpectedString)"

definition json_number :: "json \<Rightarrow> str_text list \<Rightarrow> (auth_error, unit) res" where
  "json_number v path = and_then (json_path v path) (\<lambda>w. ensure (is_number w) ExpectedNumber)"

section \<open>Errors of the service\<close>

text \<open>\<^verbatim>\<open>str::parse::<i64>\<close>: an optional sign and decimal digits in the range.\<close>

fun digits_value :: "str_text \<Rightarrow> int \<Rightarrow> int option" where
  "digits_value [] v = Some v"
| "digits_value (c # s) v = (if 48 \<le> c \<and> c < 58 then digits_value s (v * 10 + int (c - 48)) else None)"

definition in_i64 :: "int \<Rightarrow> int option" where
  "in_i64 n = (if - (2 ^ 63) \<le> n \<and> n < 2 ^ 63 then Some n else None)"

definition parse_i64 :: "str_text \<Rightarrow> int option" where
  "parse_i64 s =
     (case s of [] \<Rightarrow> None
      | c # r \<Rightarrow>
          if c = 45 then (if r = [] then None else Option.bind (digits_value r 0) (\<lambda>n. in_i64 (- n)))
          else if c = 43 then (if r = [] then None else Option.bind (digits_value r 0) in_i64)
          else Option.bind (digits_value s 0) in_i64)"

text \<open>An integer beyond \<^verbatim>\<open>i64\<close> is taken as a float, whose conversion saturates.\<close>

definition error_code_of :: "json option \<Rightarrow> int" where
  "error_code_of v =
     (case v of
        Some (JInt n) \<Rightarrow> min n (2 ^ 63 - 1)
      | Some (JFloat n) \<Rightarrow> n
      | Some (JString s) \<Rightarrow> (case parse_i64 s of Some n \<Rightarrow> n | None \<Rightarrow> 0)
      | _ \<Rightarrow> 0)"

definition vk_error_message :: "json \<Rightarrow> str_text" where
  "vk_error_message e =
     (case (case json_get (lit ''error_msg'') e of Some m \<Rightarrow> Some m | None \<Rightarrow> json_get (lit ''message'') e) of
        Some m \<Rightarrow> (case as_str m of Some s \<Rightarrow> s | None \<Rightarrow> [])
      | None \<Rightarrow> [])"

definition is_fatal_call_code :: "int \<Rightarrow> bool" where
  "is_fatal_call_code code = (code = 951 \<or> code = 954 \<or> 9000 \<le> code \<and> code \<le> 9999)"

definition is_fatal_call_error :: "int \<Rightarrow> str_text \<Rightarrow> bool" where
  "is_fatal_call_error code message =
     (let normalized = to_ascii_lowercase (trim message)
      in is_fatal_call_code code \<or> contains normalized (lit ''call not found'')
         \<or> contains normalized (lit ''invalid call join link''))"

definition check_fatal_call :: "json \<Rightarrow> (auth_error, unit) res" where
  "check_fatal_call response =
     (case json_get (lit ''error'') response of
        None \<Rightarrow> Inr ()
      | Some e \<Rightarrow>
          let code = error_code_of (json_get (lit ''error_code'') e); message = vk_error_message e
          in if is_fatal_call_error code message then Inl (Fail (CallUnavailable code message)) else Inr ())"

text \<open>\<^verbatim>\<open>VkCaptchaError::from_json\<close> refuses an error that is no object, which only changes the message.\<close>

definition check_vk_error :: "json \<Rightarrow> (auth_error, unit) res" where
  "check_vk_error response =
     (case json_get (lit ''error'') response of
        None \<Rightarrow> Inr ()
      | Some e \<Rightarrow>
          and_then (check_fatal_call response) (\<lambda>_.
          let code = error_code_of (json_get (lit ''error_code'') e) in
          if code = 14 then Inl (Fail CaptchaNeeded)
          else Inl (Fail (VkApiError code (case json_get (lit ''error_msg'') e of
              Some m \<Rightarrow> (case as_str m of Some s \<Rightarrow> s | None \<Rightarrow> []) | None \<Rightarrow> [])))))"

definition check_ok_error :: "json \<Rightarrow> (auth_error, unit) res" where
  "check_ok_error response =
     (let code = error_code_of (json_get (lit ''error_code'') response); message = vk_error_message response
      in if code = 0 then Inr ()
         else if is_fatal_call_error code message then Inl (Fail (CallUnavailable code message))
         else Inl (Fail (OkApiError code message)))"

datatype hash_check = HashValid | HashInvalid int str_text | HashUnavailable

definition classify_vk_hash_error :: "json \<Rightarrow> (auth_error, hash_check option) res" where
  "classify_vk_hash_error response =
     (case json_get (lit ''error'') response of
        None \<Rightarrow> Inr None
      | Some e \<Rightarrow>
          let code = error_code_of (json_get (lit ''error_code'') e); message = vk_error_message e
          in if is_fatal_call_error code message then Inr (Some (HashInvalid code message))
             else if code = 14 then Inr (Some HashValid)
             else Inl (Fail (VkApiError code message)))"

section \<open>Credentials\<close>

definition parse_turn_credentials :: "json \<Rightarrow> (auth_error, turn_credentials) res" where
  "parse_turn_credentials response =
     and_then (ok_or (json_get (lit ''turn_server'') response) MissingTurnServer) (\<lambda>turn.
     and_then (ok_or (Option.bind (json_get (lit ''username'') turn) as_str) MissingUsername) (\<lambda>u.
     and_then (ok_or (Option.bind (json_get (lit ''credential'') turn) as_str) MissingCredential) (\<lambda>p.
     and_then (ok_or (Option.bind (json_get (lit ''urls'') turn) as_array) MissingUrls) (\<lambda>urls.
     let addresses = filter is_supported_turn_uri (map trim (List.map_filter as_str urls))
     in and_then (ensure (addresses \<noteq> []) NoTurnAddresses) (\<lambda>_.
        Inr \<lparr>tc_username = u, tc_password = p, tc_servers = addresses\<rparr>)))))"

text \<open>What is accepted can be used: every address is a TURN URI the endpoint parser knows.\<close>

lemma parsed_credentials_usable:
  assumes "parse_turn_credentials v = Inr c"
  shows "tc_servers c \<noteq> [] \<and> list_all (\<lambda>a. is_ok (parse_turn_uri a)) (tc_servers c)"
  using assms unfolding parse_turn_credentials_def Let_def and_then_Inr_conv ensure_Inr_conv
  by (auto simp: list_all_iff is_supported_turn_uri_def)

text \<open>Where reading fails it says what is missing, and it never panics.\<close>

lemma parse_credentials_no_panic: "no_panic (parse_turn_credentials v)"
  unfolding parse_turn_credentials_def Let_def by (intro no_panic_and_then no_panic_ok_or no_panic_ensure) simp_all

section \<open>The requests of the calls path\<close>

datatype vk_request =
    GetAnonymToken str_text
  | GetCallPreview str_text str_text
  | GetAnonymCallToken str_text str_text str_text
  | AnonymLogin
  | JoinConversation str_text str_text str_text

definition path2 :: "string \<Rightarrow> string \<Rightarrow> str_text list" where
  "path2 a b = [lit a, lit b]"

text \<open>One attempt: the five requests, each made of what the answers before it contained.\<close>

definition vk_calls_path ::
  "bool \<Rightarrow> (vk_request \<Rightarrow> (auth_error, json) res) \<Rightarrow> str_text \<Rightarrow> (auth_error, turn_credentials) res" where
  "vk_calls_path skip post link =
     and_then (ensure (\<not> skip) (RequestFailed (lit ''skipped''))) (\<lambda>_.
     and_then (post (GetAnonymToken link)) (\<lambda>r1.
     and_then (json_string r1 (path2 ''response'' ''token'')) (\<lambda>token.
     and_then (post (GetCallPreview token link)) (\<lambda>r2.
     and_then (check_vk_error r2) (\<lambda>_.
     and_then (json_number r2 (path2 ''response'' ''user_id'')) (\<lambda>_.
     and_then (json_string r2 (path2 ''response'' ''secret'')) (\<lambda>secret.
     and_then (post (GetAnonymCallToken token link secret)) (\<lambda>r3.
     and_then (check_vk_error r3) (\<lambda>_.
     and_then (json_string r3 (path2 ''response'' ''token'')) (\<lambda>ok_token.
     and_then (post AnonymLogin) (\<lambda>r4.
     and_then (json_string r4 [lit ''session_key'']) (\<lambda>session_key.
     and_then (post (JoinConversation link ok_token session_key)) (\<lambda>r5.
     and_then (check_ok_error r5) (\<lambda>_.
     parse_turn_credentials r5))))))))))))))"

text \<open>The check of a hash makes the first two requests and judges both answers.\<close>

definition check_vk_hash_attempt ::
  "(vk_request \<Rightarrow> (auth_error, json) res) \<Rightarrow> str_text \<Rightarrow> (auth_error, hash_check) res" where
  "check_vk_hash_attempt post h =
     and_then (post (GetAnonymToken h)) (\<lambda>r1.
     and_then (classify_vk_hash_error r1) (\<lambda>v1. case v1 of Some v \<Rightarrow> Inr v | None \<Rightarrow>
     and_then (json_string r1 (path2 ''response'' ''token'')) (\<lambda>token.
     and_then (post (GetCallPreview token h)) (\<lambda>r2.
     and_then (classify_vk_hash_error r2) (\<lambda>v2. case v2 of Some v \<Rightarrow> Inr v | None \<Rightarrow>
     and_then (json_number r2 (path2 ''response'' ''user_id'')) (\<lambda>_.
     and_then (json_string r2 (path2 ''response'' ''secret'')) (\<lambda>_.
     Inr HashValid)))))))"

fun check_vk_hash :: "(auth_error, hash_check) res list \<Rightarrow> hash_check" where
  "check_vk_hash (Inr v # _) = v"
| "check_vk_hash (Inl _ # Inr v # _) = v"
| "check_vk_hash _ = HashUnavailable"

text \<open>A dead link that the service reports on the first request: the check of the hash says so, the calls
  path takes the answer for one without a token and reports an error that is tried again.\<close>

definition dead_link :: json where
  "dead_link = JObject [(lit ''error'', JObject [(lit ''error_code'', JInt 9000)])]"

lemma dead_link_missed:
  "check_vk_hash_attempt (\<lambda>_. Inr dead_link) h = Inr (HashInvalid 9000 [])"
  "vk_calls_path False (\<lambda>_. Inr dead_link) h = Inl (Fail (MissingKey (lit ''response'')))"
  by (simp_all add: check_vk_hash_attempt_def vk_calls_path_def classify_vk_hash_error_def dead_link_def json_get_def
      json_string_def path2_def is_fatal_call_error_def is_fatal_call_code_def vk_error_message_def error_code_of_def lit_def)

section \<open>Attempts\<close>

text \<open>An attempt that is tried again: it failed, and not because the call is dead. A panic is no error: it
  leaves the loop.\<close>

definition transient :: "(auth_error, 'a) res \<Rightarrow> bool" where
  "transient r =
     (case r of
        Inr _ \<Rightarrow> False
      | Inl Panic \<Rightarrow> False
      | Inl (Fail (CallUnavailable _ _)) \<Rightarrow> False
      | Inl (Fail _) \<Rightarrow> True)"

text \<open>\<^verbatim>\<open>random_delay\<close> over the number the generator draws.\<close>

definition random_delay :: "nat \<Rightarrow> nat \<Rightarrow> nat \<Rightarrow> nat" where
  "random_delay minimum maximum draw = minimum + draw mod (maximum - minimum + 1)"

type_synonym outcome = "(auth_error, turn_credentials) res"

text \<open>Two attempts with a short sleep between them. The script holds the outcomes of the attempts to come;
  the result is \<open>None\<close> when it ended first. It returns the sleeps and the rest of the script, too.\<close>

fun vk_calls_with_retries :: "nat \<Rightarrow> outcome list \<Rightarrow> outcome option \<times> nat list \<times> outcome list" where
  "vk_calls_with_retries draw [] = (None, [], [])"
| "vk_calls_with_retries draw (a # as) =
     (if transient a then
        (case as of
           [] \<Rightarrow> (None, [random_delay 300 500 draw], [])
         | b # bs \<Rightarrow> (Some b, [random_delay 300 500 draw], bs))
      else (Some a, [], as))"

lemma retries_left:
  "vk_calls_with_retries draw as = (Some a, ds, rest) \<Longrightarrow> transient a \<Longrightarrow> length rest < length as"
  by (cases as) (auto split: if_splits list.splits)

definition round_delay :: "nat \<Rightarrow> nat" where
  "round_delay r =
     (if r = 1 then 1000 else if r = 2 then 2000 else if r = 3 then 4000 else if r = 4 then 8000 else 15000)"

text \<open>The loop of the calls mode, with all its sleeps. The numbers drawn are a stream: each round takes one
  between its attempts and one after them.\<close>

function vkcalls_loop :: "(nat \<Rightarrow> nat) \<Rightarrow> nat \<Rightarrow> outcome list \<Rightarrow> outcome option \<times> nat list" where
  "vkcalls_loop draw r as =
     (case vk_calls_with_retries (draw (2 * r)) as of
        (None, ds, _) \<Rightarrow> (None, ds)
      | (Some a, ds, rest) \<Rightarrow>
          if transient a then
            (let base = round_delay (r + 1); d = random_delay base (base + 750) (draw (2 * r + 1));
                 (res, es) = vkcalls_loop draw (r + 1) rest
             in (res, ds @ d # es))
          else (Some a, ds))"
  by pat_completeness auto

termination
proof (relation "measure (\<lambda>(draw, r, as). length as)", goal_cases)
  case (2 draw r as x y a ds rest)
  show ?case
    using retries_left [OF _ 2(4), of "draw (2 * r)" as ds rest] 2(1-3) by auto
qed simp

declare vkcalls_loop.simps [simp del]

text \<open>The sleep after the failed attempt number \<open>i\<close>.\<close>

definition pause_after :: "(nat \<Rightarrow> nat) \<Rightarrow> nat \<Rightarrow> nat" where
  "pause_after draw i =
     (if even i then 300 + draw i mod 201 else [1000, 2000, 4000, 8000, 15000] ! min (i div 2) 4 + draw i mod 751)"

lemma pause_within: "random_delay 300 500 (draw (2 * r)) = pause_after draw (2 * r)"
  by (simp add: random_delay_def pause_after_def)

lemma round_delay_table: "round_delay (r + 1) = [1000, 2000, 4000, 8000, 15000] ! min r 4"
proof -
  consider "r = 0" | "r = 1" | "r = 2" | "r = 3" | "4 \<le> r" by linarith
  then show ?thesis by cases (simp_all add: round_delay_def)
qed

lemma pause_between:
  "random_delay (round_delay (r + 1)) (round_delay (r + 1) + 750) (draw (2 * r + 1)) = pause_after draw (2 * r + 1)"
  by (simp add: random_delay_def pause_after_def round_delay_table del: One_nat_def add_Suc_right)

lemma upt_two: "map f [0..<Suc (Suc k)] = f 0 # f 1 # map (\<lambda>i. f (i + 2)) [0..<k]"
proof -
  have "[0..<Suc (Suc k)] = 0 # 1 # map (\<lambda>i. i + 2) [0..<k]"
    unfolding map_add_upt by (simp add: upt_conv_Cons numeral_2_eq_2 del: upt_Suc)
  then show ?thesis by (simp del: upt_Suc)
qed

lemma vkcalls_loop_run:
  "vkcalls_loop draw r as =
     (let k = length (takeWhile transient as)
      in (if k < length as then Some (as ! k) else None, map (\<lambda>i. pause_after draw (2 * r + i)) [0..<k]))"
proof (induction draw r as rule: vkcalls_loop.induct)
  case (1 draw r as)
  note unroll = vkcalls_loop.simps [of draw r]
  consider "as = []" | a rest where "as = a # rest" "\<not> transient a" | a where "as = [a]" "transient a"
    | a b rest where "as = a # b # rest" "transient a" "\<not> transient b"
    | a b rest where "as = a # b # rest" "transient a" "transient b"
    by (metis neq_Nil_conv)
  then show ?case
  proof cases
    case 5
    let ?k = "length (takeWhile transient rest)"
    have step: "vk_calls_with_retries (draw (2 * r)) as = (Some b, [pause_after draw (2 * r)], rest)"
      by (simp add: 5 pause_within)
    have "vkcalls_loop draw (r + 1) rest =
        (let k = length (takeWhile transient rest)
         in (if k < length rest then Some (rest ! k) else None, map (\<lambda>i. pause_after draw (2 * (r + 1) + i)) [0..<k]))"
      using 1 step 5(3) by simp
    then have "vkcalls_loop draw r as = (if ?k < length rest then Some (rest ! ?k) else None,
        pause_after draw (2 * r) # pause_after draw (2 * r + 1) # map (\<lambda>i. pause_after draw (2 * r + (i + 2))) [0..<?k])"
      by (simp only: unroll step prod.case option.case 5(3) if_True Let_def pause_between)
        (simp add: add.assoc)
    then show ?thesis
      by (simp add: 5 Let_def upt_two [of "\<lambda>i. pause_after draw (2 * r + i)"] del: upt_Suc)
  qed (simp_all add: unroll pause_within)
qed

text \<open>C39: in the calls mode the outcome is that of the first attempt that succeeds or finds the call dead,
  however many fail before it: a dead call is reported at once, never tried again, any other error always
  is. Each failed attempt is followed by one sleep, of 300 to 500 ms between the two attempts of a round
  and after a round of 1, 2, 4, 8 and then always 15 s, and up to 750 ms more.\<close>

theorem vk_calls_outcome:
  "vkcalls_loop draw 0 as =
     (let k = length (takeWhile (\<lambda>a. case a of
            Inl (Fail (CallUnavailable code message)) \<Rightarrow> False | Inl (Fail e) \<Rightarrow> True
          | Inl Panic \<Rightarrow> False | Inr c \<Rightarrow> False) as)
      in (if k < length as then Some (as ! k) else None,
          map (\<lambda>i. if even i then 300 + draw i mod 201
                 else [1000, 2000, 4000, 8000, 15000] ! min (i div 2) 4 + draw i mod 751) [0..<k]))"
proof -
  have "transient = (\<lambda>a :: outcome. case a of Inl (Fail (CallUnavailable code message)) \<Rightarrow> False
      | Inl (Fail e) \<Rightarrow> True | Inl Panic \<Rightarrow> False | Inr c \<Rightarrow> False)"
    by (rule ext) (simp add: transient_def split: sum.splits fault.splits auth_error.splits)
  then show ?thesis by (simp add: vkcalls_loop_run pause_after_def)
qed

section \<open>The modes\<close>

datatype auth_mode = AutoJs | LegacyAuth | VkCalls

definition eq_ignore_case :: "str_text \<Rightarrow> str_text \<Rightarrow> bool" where
  "eq_ignore_case a b = (to_ascii_lowercase a = to_ascii_lowercase b)"

definition auth_mode_of :: "str_text \<Rightarrow> auth_mode" where
  "auth_mode_of m = (if eq_ignore_case m (lit ''auto_js'') then AutoJs
     else if eq_ignore_case m (lit ''legacy'') then LegacyAuth else VkCalls)"

definition known_secret :: "str_text \<Rightarrow> str_text option" where
  "known_secret i = (if i = lit ''8202606'' then Some (lit ''lMRsTiMCyPnp5vfoldmn'')
     else if i = lit ''6287487'' then Some (lit ''MuAxFaKDYDOICzGnEOhp'') else None)"

definition env_pair :: "str_text \<Rightarrow> (str_text \<times> str_text) option" where
  "env_pair pair =
     (case split_once 58 (trim pair) of
        Some (i, secret) \<Rightarrow> if trim i = [] \<or> trim secret = [] then None else Some (trim i, trim secret)
      | None \<Rightarrow> None)"

definition load_credentials :: "str_text option \<Rightarrow> str_text list \<Rightarrow> (str_text \<times> str_text) list" where
  "load_credentials env ids =
     (let known = List.map_filter (\<lambda>i. map_option (\<lambda>secret. (trim i, secret)) (known_secret (trim i))) ids;
          parsed = (case env of Some v \<Rightarrow> List.map_filter env_pair (split_on 44 v) | None \<Rightarrow> [])
      in if known \<noteq> [] then known
         else if parsed \<noteq> [] then parsed
         else [(lit ''8202606'', lit ''lMRsTiMCyPnp5vfoldmn''), (lit ''6287487'', lit ''MuAxFaKDYDOICzGnEOhp'')])"

text \<open>There is always a pair of credentials, so the legacy mode makes an attempt and never divides by zero.\<close>

lemma load_credentials_nonempty: "load_credentials env ids \<noteq> []"
  by (simp add: load_credentials_def Let_def)

text \<open>The attempts of the legacy mode, over their outcomes and the texts of the errors. The flag says that
  the lockout is set; \<open>None\<close>: the script ended.\<close>

definition CAPTCHA_WAIT :: str_text where "CAPTCHA_WAIT = lit ''CAPTCHA_WAIT_REQUIRED''"

fun legacy_loop ::
  "nat \<Rightarrow> auth_error option \<Rightarrow> ((auth_error, turn_credentials) res \<times> str_text) list
    \<Rightarrow> ((auth_error, turn_credentials) res \<times> bool) option" where
  "legacy_loop 0 last_error as =
     Some (Inl (Fail (case last_error of Some e \<Rightarrow> e | None \<Rightarrow> RequestFailed (lit ''all VK credentials failed''))), False)"
| "legacy_loop (Suc n) last_error [] = None"
| "legacy_loop (Suc n) last_error ((a, shown) # as) =
     (if \<not> transient a then Some (a, False)
      else if contains shown CAPTCHA_WAIT then Some (a, True)
      else legacy_loop n (case a of Inl (Fail e) \<Rightarrow> Some e | _ \<Rightarrow> last_error) as)"

definition legacy_attempts :: "(str_text \<times> str_text) list \<Rightarrow> nat" where
  "legacy_attempts credentials = (if credentials = [] then 0 else 4)"

text \<open>\<^verbatim>\<open>get_credentials\<close>: the clock, the lockout, the outcome of the broker, the outcomes of the attempts of
  the calls path and of the legacy path; it returns the lockout and the result.\<close>

definition get_credentials ::
  "auth_mode \<Rightarrow> (str_text \<times> str_text) list \<Rightarrow> int \<Rightarrow> (auth_error, turn_credentials) res
    \<Rightarrow> (nat \<Rightarrow> nat) \<Rightarrow> outcome list \<Rightarrow> (outcome \<times> str_text) list
    \<Rightarrow> int \<Rightarrow> int \<times> outcome option" where
  "get_credentials mode credentials now broker draw calls legacy lockout =
     (case mode of
        AutoJs \<Rightarrow>
          (lockout, if is_ok broker \<or> broker = Inl Panic then Some broker
            else (case fst (vk_calls_with_retries (draw 0) calls) of
                None \<Rightarrow> None
              | Some (Inr c) \<Rightarrow> Some (Inr c)
              | Some (Inl Panic) \<Rightarrow> Some (Inl Panic)
              | Some (Inl (Fail _)) \<Rightarrow> Some (Inl (Fail (RequestFailed (lit ''Auto JS''))))))
      | VkCalls \<Rightarrow>
          if now < lockout then (lockout, Some (Inl (Fail Lockout)))
          else (lockout, fst (vkcalls_loop draw 0 calls))
      | LegacyAuth \<Rightarrow>
          if now < lockout then (lockout, Some (Inl (Fail Lockout)))
          else (case legacy_loop (legacy_attempts credentials) None legacy of
              None \<Rightarrow> (lockout, None)
            | Some (r, locked) \<Rightarrow> (if locked then now + 60 else lockout, Some r)))"

text \<open>With the broker the report that a call is dead is lost: the worker gets an error like any other.\<close>

lemma auto_js_hides_dead_call:
  "get_credentials AutoJs cs now (Inl (Fail e)) draw [Inl (Fail (CallUnavailable 9000 m))] legacy l
    = (l, Some (Inl (Fail (RequestFailed (lit ''Auto JS'')))))"
  by (simp add: get_credentials_def transient_def is_ok_def)

section \<open>Escaping\<close>

definition utf8_char :: "nat \<Rightarrow> bytes" where
  "utf8_char c = map of_nat
     (if c < 0x80 then [c]
      else if c < 0x800 then [0xC0 + c div 64, 0x80 + c mod 64]
      else if c < 0x10000 then [0xE0 + c div 4096, 0x80 + c div 64 mod 64, 0x80 + c mod 64]
      else [0xF0 + c div 262144, 0x80 + c div 4096 mod 64, 0x80 + c div 64 mod 64, 0x80 + c mod 64])"

definition utf8_encode :: "str_text \<Rightarrow> bytes" where
  "utf8_encode s = concat (map utf8_char s)"

definition upper_hex :: "nat \<Rightarrow> nat" where
  "upper_hex n = (if n < 10 then 48 + n else 55 + n)"

definition unreserved :: "nat \<Rightarrow> bool" where
  "unreserved c = (97 \<le> c \<and> c \<le> 122 \<or> 65 \<le> c \<and> c \<le> 90 \<or> 48 \<le> c \<and> c \<le> 57 \<or> c = 45 \<or> c = 95 \<or> c = 46 \<or> c = 126)"

fun escape_bytes :: "bytes \<Rightarrow> str_text" where
  "escape_bytes [] = []"
| "escape_bytes (b # bs) =
     (if b = 32 then 43 # escape_bytes bs
      else if unreserved (unat b) then unat b # escape_bytes bs
      else 37 # upper_hex (unat b div 16) # upper_hex (unat b mod 16) # escape_bytes bs)"

definition query_escape :: "str_text \<Rightarrow> str_text" where
  "query_escape s = escape_bytes (utf8_encode s)"

text \<open>The decoder of forms (URL standard).\<close>

definition hex_value :: "nat \<Rightarrow> nat" where
  "hex_value c = (if c < 58 then c - 48 else c - 55)"

fun form_decode :: "str_text \<Rightarrow> bytes" where
  "form_decode (c # cs) =
     (if c = 43 then 32 # form_decode cs
      else if c = 37 then (case cs of
          h # l # rest \<Rightarrow> of_nat (hex_value h * 16 + hex_value l) # form_decode rest
        | _ \<Rightarrow> of_nat c # form_decode cs)
      else of_nat c # form_decode cs)"
| "form_decode [] = []"

lemma hex_value_upper: "n < 16 \<Longrightarrow> hex_value (upper_hex n) = n"
  by (simp add: hex_value_def upper_hex_def)

lemma unat_byte_lt: "unat (b :: byte) < 256"
  using unsigned_less [of b] by simp

lemma form_decode_escape: "form_decode (escape_bytes bs) = bs"
proof (induction bs)
  case (Cons b bs)
  have "unat b div 16 < 16" "unat b mod 16 < 16" using unat_byte_lt [of b] by auto
  moreover have "unreserved (unat b) \<Longrightarrow> unat b \<noteq> 43 \<and> unat b \<noteq> 37" by (auto simp: unreserved_def)
  moreover have "of_nat (unat b div 16) * 16 + of_nat (unat b mod 16) = b"
  proof -
    have "of_nat (unat b div 16 * 16 + unat b mod 16) = b" by (simp only: div_mult_mod_eq) simp
    then show ?thesis by (simp only: of_nat_add of_nat_mult of_nat_numeral)
  qed
  ultimately show ?case using Cons by (simp add: hex_value_upper)
qed simp

lemma escape_bytes_clean: "list_all (\<lambda>c. unreserved c \<or> c = 37 \<or> c = 43) (escape_bytes bs)"
proof (induction bs)
  case (Cons b bs)
  have "unreserved (upper_hex n)" if "n < 16" for n
    using that by (auto simp: unreserved_def upper_hex_def)
  then have "unreserved (upper_hex (unat b div 16))" "unreserved (upper_hex (unat b mod 16))"
    using unat_byte_lt [of b] by auto
  then show ?case using Cons by simp
qed simp

text \<open>What is escaped is read back by the service byte for byte, and contains no character that ends a
  value or starts another field.\<close>

theorem query_escape_roundtrip:
  "form_decode (query_escape s) = utf8_encode s
   \<and> list_all (\<lambda>c. unreserved c \<or> c = 37 \<or> c = 43) (query_escape s)"
  by (simp add: query_escape_def form_decode_escape escape_bytes_clean)

section \<open>The broker of the account\<close>

datatype broker_error =
    CredentialIdRange nat | BrokerRequest | BrokerCredentials auth_error | RepeatedCredentials nat
  | ApiError str_text str_text | MissingField str_text | UnsafeApiUrl | BadApiUrl

definition MAX_ACCOUNT_CREDENTIALS :: nat where "MAX_ACCOUNT_CREDENTIALS = 9"

text \<open>\<open>n\<close> attempts at most, with pauses of 250 ms more each time.\<close>

fun retry_delays :: "nat \<Rightarrow> nat \<Rightarrow> ('e, 'a) res list \<Rightarrow> (('e, 'a) res \<times> nat list) option" where
  "retry_delays 0 k as = None"
| "retry_delays (Suc n) k [] = None"
| "retry_delays (Suc n) k (a # as) =
     (if is_ok a \<or> n = 0 then Some (a, [])
      else map_option (\<lambda>(r, ds). (r, 250 * (k + 1) # ds)) (retry_delays n (k + 1) as))"

lemma retry_at_most:
  "retry_delays n k as = Some (r, ds) \<Longrightarrow> length ds < n \<and> length ds < length as \<and> r = as ! length ds
     \<and> (\<forall>i < length ds. \<not> is_ok (as ! i)) \<and> (is_ok r \<or> length ds = n - 1)"
proof (induction n k as arbitrary: ds rule: retry_delays.induct)
  case (3 n k a as)
  show ?case
  proof (cases "is_ok a \<or> n = 0")
    case False
    then obtain es where es: "retry_delays n (k + 1) as = Some (r, es)" "ds = 250 * (k + 1) # es"
      using 3(2) by auto
    from 3(1) [OF False es(1)] False es(2) show ?thesis by (auto simp: less_Suc_eq_0_disj)
  qed (use 3(2) in auto)
qed auto

definition json_scalar_string :: "json \<Rightarrow> str_text option" where
  "json_scalar_string v =
     (case v of JString s \<Rightarrow> Some s
      | JInt n \<Rightarrow> Some (if n < 0 then 45 # text_decimal (nat (- n)) else text_decimal (nat n))
      | _ \<Rightarrow> None)"

definition text_at :: "str_text list \<Rightarrow> json \<Rightarrow> (json \<Rightarrow> str_text option) \<Rightarrow> str_text option" where
  "text_at keys v f = Option.bind (case List.map_filter (\<lambda>k. json_get k v) keys of [] \<Rightarrow> None | w # _ \<Rightarrow> Some w) f"

definition api_code :: "json \<Rightarrow> (broker_error, unit) res" where
  "api_code v =
     (case text_at [lit ''error_code''] v json_scalar_string of
        Some c \<Rightarrow> if c \<noteq> lit ''0''
          then Inl (Fail (ApiError c (case text_at [lit ''error_msg''] v as_str of Some m \<Rightarrow> m | None \<Rightarrow> lit ''API error'')))
          else Inr ()
      | None \<Rightarrow> Inr ())"

definition check_api_error :: "json \<Rightarrow> (broker_error, unit) res" where
  "check_api_error v =
     (case json_get (lit ''error'') v of
        Some e \<Rightarrow>
          if e \<noteq> JNull \<and> e \<noteq> JBool False
          then Inl (Fail (ApiError
            (case text_at [lit ''error_code'', lit ''code''] e json_scalar_string of Some c \<Rightarrow> c | None \<Rightarrow> lit ''unknown'')
            (case text_at [lit ''error_msg'', lit ''message''] e as_str of Some m \<Rightarrow> m | None \<Rightarrow> lit ''API error'')))
          else api_code v
      | None \<Rightarrow> api_code v)"

definition required_string :: "json \<Rightarrow> str_text \<Rightarrow> (broker_error, str_text) res" where
  "required_string v key =
     (case text_at [key] v as_str of
        Some s \<Rightarrow> if s = [] then Inl (Fail (MissingField key)) else Inr s
      | None \<Rightarrow> Inl (Fail (MissingField key)))"

text \<open>A URL as \<^verbatim>\<open>url::Url\<close> has parsed it; the port is the known default of the scheme if none is given.\<close>

record parsed_url =
  pu_scheme :: str_text
  pu_host :: "str_text option"
  pu_path :: str_text
  pu_username :: str_text
  pu_password :: "str_text option"
  pu_port :: "nat option"
  pu_query :: "str_text option"
  pu_fragment :: "str_text option"

definition ends_with :: "str_text \<Rightarrow> str_text \<Rightarrow> bool" where
  "ends_with s t = starts_with (rev s) (rev t)"

definition validated_api_url :: "parsed_url option \<Rightarrow> (broker_error, parsed_url) res" where
  "validated_api_url parsed =
     and_then (ok_or parsed BadApiUrl) (\<lambda>u.
     let host = (case pu_host u of Some h \<Rightarrow> h | None \<Rightarrow> []);
         allowed_host = (host = lit ''api.ok.ru'' \<or> host = lit ''okcdn.ru'' \<or> ends_with host (lit ''.okcdn.ru''));
         allowed_path = (pu_path u \<in> {[], lit ''/'', lit ''/fb.do''})
     in if pu_scheme u \<noteq> lit ''https'' \<or> \<not> allowed_host \<or> \<not> allowed_path \<or> pu_username u \<noteq> [] \<or> pu_password u \<noteq> None
           \<or> pu_port u \<noteq> Some 443 \<or> pu_fragment u \<noteq> None \<or> pu_query u \<noteq> None
        then Inl (Fail UnsafeApiUrl) else Inr (u\<lparr>pu_path := lit ''/fb.do''\<rparr>))"

definition DEFAULT_OK_API :: str_text where
  "DEFAULT_OK_API = lit ''https://calls.okcdn.ru/fb.do''"

text \<open>\<open>login url token\<close> is the answer when the call token is sent to \<open>url\<close>, after the retries.\<close>

definition open_account_session ::
  "(str_text \<Rightarrow> parsed_url option) \<Rightarrow> (broker_error, json) res \<Rightarrow> (parsed_url \<Rightarrow> str_text \<Rightarrow> (broker_error, json) res)
    \<Rightarrow> (broker_error, parsed_url \<times> str_text) res" where
  "open_account_session parse_url token_answer login =
     and_then token_answer (\<lambda>r.
     and_then (check_api_error r) (\<lambda>_.
     and_then (ok_or (json_get (lit ''response'') r) (MissingField (lit ''response''))) (\<lambda>response.
     and_then (required_string response (lit ''token'')) (\<lambda>call_token.
     and_then (validated_api_url (parse_url (case text_at [lit ''api_base_url''] response as_str of
         Some u \<Rightarrow> u | None \<Rightarrow> DEFAULT_OK_API))) (\<lambda>url.
     and_then (login url call_token) (\<lambda>l.
     and_then (check_api_error l) (\<lambda>_.
     and_then (required_string l (lit ''session_key'')) (\<lambda>key. Inr (url, key)))))))))"

definition trusted_url :: "parsed_url \<Rightarrow> bool" where
  "trusted_url u =
     (pu_scheme u = lit ''https'' \<and> pu_port u = Some 443 \<and> pu_path u = lit ''/fb.do''
      \<and> pu_username u = [] \<and> pu_password u = None \<and> pu_query u = None \<and> pu_fragment u = None
      \<and> (\<exists>h. pu_host u = Some h \<and> (h = lit ''api.ok.ru'' \<or> h = lit ''okcdn.ru'' \<or> (\<exists>p. h = p @ lit ''.okcdn.ru''))))"

lemma ends_with_iff: "ends_with s t \<longleftrightarrow> (\<exists>p. s = p @ t)"
proof -
  have "(\<exists>v. rev s = rev t @ v) \<longleftrightarrow> (\<exists>p. s = p @ t)"
    by (metis rev_append rev_rev_ident)
  then show ?thesis by (simp add: ends_with_def starts_with_iff)
qed

lemma validated_trusted: "validated_api_url p = Inr u \<Longrightarrow> trusted_url u"
proof -
  assume "validated_api_url p = Inr u"
  then obtain w h where w: "pu_scheme w = lit ''https''" "pu_host w = h" "pu_username w = []" "pu_password w = None"
      "pu_port w = Some 443" "pu_fragment w = None" "pu_query w = None"
    and u: "u = w\<lparr>pu_path := lit ''/fb.do''\<rparr>"
    and host: "(case h of Some h \<Rightarrow> h | None \<Rightarrow> []) = lit ''api.ok.ru'' \<or> (case h of Some h \<Rightarrow> h | None \<Rightarrow> []) = lit ''okcdn.ru''
      \<or> ends_with (case h of Some h \<Rightarrow> h | None \<Rightarrow> []) (lit ''.okcdn.ru'')"
    unfolding validated_api_url_def Let_def and_then_Inr_conv ok_or_Inr_conv by (auto split: if_splits)
  have "lit ''api.ok.ru'' \<noteq> []" "lit ''okcdn.ru'' \<noteq> []" "lit ''.okcdn.ru'' \<noteq> []" by (simp_all add: lit_def)
  with host obtain x where "h = Some x" "x = lit ''api.ok.ru'' \<or> x = lit ''okcdn.ru'' \<or> (\<exists>p. x = p @ lit ''.okcdn.ru'')"
    by (cases h) (auto simp: ends_with_iff)
  then show ?thesis using w u by (simp add: trusted_url_def)
qed

text \<open>C40: whatever URL the service names in its answer, the call token is only sent over HTTPS to the hosts
  of the calls backend: two networks that agree on these cannot be told apart.\<close>

theorem token_stays_with_backend:
  assumes "\<forall>u t. trusted_url u \<longrightarrow> login u t = login' u t"
  shows "open_account_session parse_url token_answer login = open_account_session parse_url token_answer login'"
proof -
  have "and_then (validated_api_url p) (\<lambda>u. and_then (login u t) (f u)) = and_then (validated_api_url p) (\<lambda>u. and_then (login' u t) (f u))"
    for p t and f :: "parsed_url \<Rightarrow> json \<Rightarrow> (broker_error, parsed_url \<times> str_text) res"
    using assms validated_trusted [of p] by (cases "validated_api_url p") auto
  then show ?thesis unfolding open_account_session_def by simp
qed

definition foreign :: parsed_url where
  "foreign = \<lparr>pu_scheme = lit ''https'', pu_host = Some (lit ''okcdn.ru.example''), pu_path = [], pu_username = [],
     pu_password = None, pu_port = Some 443, pu_query = None, pu_fragment = None\<rparr>"

definition token_answer :: json where
  "token_answer = JObject [(lit ''response'', JObject [(lit ''token'', JString (lit ''secret''))])]"

lemma token_stays_with_backend_witness:
  "open_account_session (\<lambda>_. Some foreign) (Inr token_answer) (\<lambda>u t. Inr JNull)
     = open_account_session (\<lambda>_. Some foreign) (Inr token_answer) (\<lambda>u t. if u = foreign then Inr (JString t) else Inr JNull)
   \<and> open_account_session (\<lambda>_. Some foreign) (Inr token_answer) (\<lambda>u t. Inr JNull) = Inl (Fail UnsafeApiUrl)"
proof
  have "\<not> trusted_url foreign" by (simp add: trusted_url_def foreign_def lit_def)
  then show "open_account_session (\<lambda>_. Some foreign) (Inr token_answer) (\<lambda>u t. Inr JNull)
     = open_account_session (\<lambda>_. Some foreign) (Inr token_answer) (\<lambda>u t. if u = foreign then Inr (JString t) else Inr JNull)"
    by (intro token_stays_with_backend) auto
  show "open_account_session (\<lambda>_. Some foreign) (Inr token_answer) (\<lambda>u t. Inr JNull) = Inl (Fail UnsafeApiUrl)"
    by (simp add: open_account_session_def token_answer_def check_api_error_def api_code_def json_get_def text_at_def
        required_string_def as_str_def validated_api_url_def foreign_def ends_with_def starts_with_def lit_def List.map_filter_def)
qed

definition fingerprint_bytes :: "turn_credentials \<Rightarrow> bytes" where
  "fingerprint_bytes c = utf8_encode (tc_username c) @ 0 # utf8_encode (tc_password c)
     @ concat (map (\<lambda>a. 0 # utf8_encode a) (tc_servers c))"

text \<open>\<open>sha\<close> is SHA-256; \<open>issued\<close> the digests handed out. The answer is that of the session and the three
  attempts for the parameters of the conversation.\<close>

definition broker_get ::
  "(bytes \<Rightarrow> 'd) \<Rightarrow> nat \<Rightarrow> (broker_error, json) res \<Rightarrow> 'd list \<Rightarrow> 'd list \<times> (broker_error, turn_credentials) res" where
  "broker_get sha i answer issued =
     (if \<not> (1 \<le> i \<and> i \<le> MAX_ACCOUNT_CREDENTIALS) then (issued, Inl (Fail (CredentialIdRange i)))
      else case and_then answer (\<lambda>v. and_then (check_api_error v) (\<lambda>_.
          map_sum (\<lambda>e. case e of Panic \<Rightarrow> Panic | Fail x \<Rightarrow> Fail (BrokerCredentials x)) id (parse_turn_credentials v))) of
        Inl e \<Rightarrow> (issued, Inl e)
      | Inr c \<Rightarrow>
          if sha (fingerprint_bytes c) \<in> set issued then (issued, Inl (Fail (RepeatedCredentials i)))
          else (sha (fingerprint_bytes c) # issued, Inr c))"

fun broker_run ::
  "(bytes \<Rightarrow> 'd) \<Rightarrow> 'd list \<Rightarrow> (nat \<times> (broker_error, json) res) list \<Rightarrow> turn_credentials list" where
  "broker_run sha issued [] = []"
| "broker_run sha issued ((i, answer) # calls) =
     (case broker_get sha i answer issued of
        (issued', Inr c) \<Rightarrow> c # broker_run sha issued' calls
      | (issued', Inl _) \<Rightarrow> broker_run sha issued' calls)"

text \<open>No two accepted credentials are the same, whatever the service answers.\<close>

lemma broker_run_distinct:
  "distinct (map (sha \<circ> fingerprint_bytes) (broker_run sha issued calls))
   \<and> set (map (sha \<circ> fingerprint_bytes) (broker_run sha issued calls)) \<inter> set issued = {}"
proof (induction issued calls rule: broker_run.induct)
  case (2 sha issued i answer calls)
  obtain issued' r where g: "broker_get sha i answer issued = (issued', r)" by fastforce
  show ?case
  proof (cases r)
    case (Inl e)
    then have "issued' = issued" using g by (auto simp: broker_get_def split: if_splits sum.splits)
    then show ?thesis using 2 g Inl by auto
  next
    case (Inr c)
    then have "issued' = sha (fingerprint_bytes c) # issued" "sha (fingerprint_bytes c) \<notin> set issued"
      using g by (auto simp: broker_get_def split: if_splits sum.splits)
    then show ?thesis using 2 g Inr by auto
  qed
qed auto

definition join_hash :: "str_text \<Rightarrow> str_text option" where
  "join_hash value =
     (let trimmed = rev (dropWhile (\<lambda>c. c = 47) (rev (trim value)))
      in if trimmed = [] then None else Some (last (split_on 47 trimmed)))"

text \<open>The id a group asks the broker for is the number of its credential.\<close>

lemma broker_id: "credential_stream_id k div 100 = k"
  by (simp add: credential_stream_id_def)

end
