(* ===== verification/SliderPuzzle.thy ===== *)
theory SliderPuzzle
  imports Prelude "HOL-Library.Product_Lexorder" "HOL-Library.Multiset"
begin

text \<open>
  The slider puzzle of \<^verbatim>\<open>backend/captcha_slider.rs\<close>: the steps of the service, the permutation of the
  tiles, the seams between them, and the order in which the guesses are tried. The decoded image is
  a grid of pixels; the floating-point score is a parameter of which only the order matters.
\<close>

section \<open>Steps\<close>

datatype puzzle_error =
    StepsTooShort | InvalidSize nat | InvalidSwaps | InvalidTileCount | OddSwaps nat
  | StepOutOfRange nat nat | NoCandidates

definition MAX_SLIDER_GRID :: nat where "MAX_SLIDER_GRID = 16"

text \<open>Size, swaps, attempts: an odd number of values behind the size ends with the attempts.\<close>

definition split_steps :: "nat list \<Rightarrow> (puzzle_error, nat \<times> nat list \<times> nat) res" where
  "split_steps steps =
     and_then (ensure (3 \<le> length steps) StepsTooShort) (\<lambda>_.
     let grid_size = hd steps; rest = tl steps in
     if grid_size = 0 \<or> grid_size > MAX_SLIDER_GRID then Inl (Fail (InvalidSize grid_size))
     else
       let (swaps, attempts) = (if odd (length rest) then (butlast rest, last rest) else (rest, 4));
           attempts = (if attempts = 0 then 4 else attempts)
       in if swaps = [] \<or> odd (length swaps) then Inl (Fail InvalidSwaps) else Inr (grid_size, swaps, attempts))"

section \<open>The permutation\<close>

text \<open>\<^verbatim>\<open>slice::swap\<close>.\<close>

definition swap_at :: "nat \<Rightarrow> nat \<Rightarrow> 'a list \<Rightarrow> 'a list" where
  "swap_at i j xs = xs[i := xs ! j, j := xs ! i]"

fun swap_pairs :: "nat \<Rightarrow> nat list \<Rightarrow> nat list \<Rightarrow> (puzzle_error, nat list) res" where
  "swap_pairs tiles (a # b # rest) mapping =
     (if a \<ge> tiles \<or> b \<ge> tiles then Inl (Fail (StepOutOfRange a b))
      else swap_pairs tiles rest (swap_at a b mapping))"
| "swap_pairs tiles _ mapping = Inr mapping"

definition apply_swaps :: "nat \<Rightarrow> nat list \<Rightarrow> (puzzle_error, nat list) res" where
  "apply_swaps grid_size swaps =
     and_then (ok_or (checked_mul grid_size grid_size) InvalidTileCount) (\<lambda>tiles.
     if tiles = 0 then Inl (Fail InvalidTileCount)
     else if odd (length swaps) then Inl (Fail (OddSwaps (length swaps)))
     else swap_pairs tiles swaps [0..<tiles])"

section \<open>Pixels\<close>

text \<open>Red, green and blue. \<^verbatim>\<open>get_pixel\<close> panics outside of the image.\<close>

type_synonym pixel = "byte \<times> byte \<times> byte"

record image =
  im_width :: u32
  im_height :: u32
  im_pixel :: "u32 \<Rightarrow> u32 \<Rightarrow> pixel"

definition get_pixel :: "image \<Rightarrow> u32 \<Rightarrow> u32 \<Rightarrow> (puzzle_error, pixel) res" where
  "get_pixel img x y = (if x < im_width img \<and> y < im_height img then Inr (im_pixel img x y) else Inl Panic)"

record rect =
  min_x :: u32
  min_y :: u32
  max_x :: u32
  max_y :: u32

definition rect_width :: "rect \<Rightarrow> u32" where "rect_width r = max_x r - min_x r"
definition rect_height :: "rect \<Rightarrow> u32" where "rect_height r = max_y r - min_y r"

definition tile_rect :: "image \<Rightarrow> nat \<Rightarrow> nat \<Rightarrow> rect" where
  "tile_rect img grid_size index =
     (let column = of_nat (index mod grid_size); row = of_nat (index div grid_size); g = of_nat grid_size
      in \<lparr>min_x = column * im_width img div g, min_y = row * im_height img div g,
          max_x = (column + 1) * im_width img div g, max_y = (row + 1) * im_height img div g\<rparr>)"

definition last_index :: "u32 \<Rightarrow> u32" where
  "last_index n = (if n = 0 then 0 else n - 1)"

definition sample :: "image \<Rightarrow> rect \<Rightarrow> rect \<Rightarrow> u32 \<Rightarrow> u32 \<Rightarrow> (puzzle_error, pixel) res" where
  "sample img dest src x y =
     (let width = max (rect_width dest) 1; height = max (rect_height dest) 1;
          source_x = min (min_x src + (x - min_x dest) * rect_width src div width) (last_index (im_width img));
          source_y = min (min_y src + (y - min_y dest) * rect_height src div height) (last_index (im_height img))
      in get_pixel img source_x source_y)"

definition abs_diff :: "nat \<Rightarrow> nat \<Rightarrow> nat" where
  "abs_diff a b = (if a < b then b - a else a - b)"

definition luma :: "pixel \<Rightarrow> nat" where
  "luma p = (case p of (r, g, b) \<Rightarrow> (299 * unat r + 587 * unat g + 114 * unat b) div 1000)"

definition luma_diff :: "pixel \<Rightarrow> pixel \<Rightarrow> nat" where
  "luma_diff p q = abs_diff (luma p) (luma q)"

definition pixel_diff :: "pixel \<Rightarrow> pixel \<Rightarrow> nat" where
  "pixel_diff p q =
     (case (p, q) of ((r, g, b), (r', g', b')) \<Rightarrow>
        abs_diff (unat r) (unat r') + abs_diff (unat g) (unat g') + abs_diff (unat b) (unat b'))"

section \<open>Seams\<close>

fun sum_res :: "('a \<Rightarrow> ('e, nat) res) \<Rightarrow> 'a list \<Rightarrow> ('e, nat) res" where
  "sum_res f [] = Inr 0"
| "sum_res f (x # xs) = and_then (f x) (\<lambda>n. and_then (sum_res f xs) (\<lambda>m. Inr (n + m)))"

fun each_res :: "('a \<Rightarrow> ('e, 'b) res) \<Rightarrow> 'a list \<Rightarrow> ('e, 'b list) res" where
  "each_res f [] = Inr []"
| "each_res f (x # xs) = and_then (f x) (\<lambda>y. and_then (each_res f xs) (\<lambda>ys. Inr (y # ys)))"

text \<open>Tiles side by side, and tiles on top of each other.\<close>

definition row_pairs :: "nat \<Rightarrow> (nat \<times> nat) list" where
  "row_pairs g = concat (map (\<lambda>row. map (\<lambda>column. (row * g + column, row * g + column + 1)) [0..<g - 1]) [0..<g])"

definition column_pairs :: "nat \<Rightarrow> (nat \<times> nat) list" where
  "column_pairs g = concat (map (\<lambda>row. map (\<lambda>column. (row * g + column, (row + 1) * g + column)) [0..<g]) [0..<g - 1])"

definition seam_beside ::
  "(pixel \<Rightarrow> pixel \<Rightarrow> nat) \<Rightarrow> image \<Rightarrow> nat \<Rightarrow> nat list \<Rightarrow> nat \<times> nat \<Rightarrow> (puzzle_error, nat) res" where
  "seam_beside diff img g mapping pair =
     (let left = tile_rect img g (fst pair); right = tile_rect img g (snd pair) in
      and_then (read_at mapping (fst pair)) (\<lambda>l. and_then (read_at mapping (snd pair)) (\<lambda>r.
      sum_res (\<lambda>offset.
        let y = min_y left + of_nat offset in
        and_then (sample img left (tile_rect img g l) (max_x left - 1) y) (\<lambda>p.
        and_then (sample img right (tile_rect img g r) (min_x right) y) (\<lambda>q. Inr (diff p q))))
        [0..<unat (min (rect_height left) (rect_height right))])))"

definition seam_above ::
  "(pixel \<Rightarrow> pixel \<Rightarrow> nat) \<Rightarrow> image \<Rightarrow> nat \<Rightarrow> nat list \<Rightarrow> nat \<times> nat \<Rightarrow> (puzzle_error, nat) res" where
  "seam_above diff img g mapping pair =
     (let top = tile_rect img g (fst pair); bottom = tile_rect img g (snd pair) in
      and_then (read_at mapping (fst pair)) (\<lambda>t. and_then (read_at mapping (snd pair)) (\<lambda>b.
      sum_res (\<lambda>offset.
        let x = min_x top + of_nat offset in
        and_then (sample img top (tile_rect img g t) x (max_y top - 1)) (\<lambda>p.
        and_then (sample img bottom (tile_rect img g b) x (min_y bottom)) (\<lambda>q. Inr (diff p q))))
        [0..<unat (min (rect_width top) (rect_width bottom))])))"

definition seam_score ::
  "(pixel \<Rightarrow> pixel \<Rightarrow> nat) \<Rightarrow> image \<Rightarrow> nat \<Rightarrow> nat list \<Rightarrow> (puzzle_error, nat) res" where
  "seam_score diff img g mapping =
     and_then (sum_res (seam_beside diff img g mapping) (row_pairs g)) (\<lambda>a.
     and_then (sum_res (seam_above diff img g mapping) (column_pairs g)) (\<lambda>b. Inr (a + b)))"

definition seam_score_luma :: "image \<Rightarrow> nat \<Rightarrow> nat list \<Rightarrow> (puzzle_error, nat) res" where
  "seam_score_luma = seam_score luma_diff"

definition seam_score_rgb :: "image \<Rightarrow> nat \<Rightarrow> nat list \<Rightarrow> (puzzle_error, nat) res" where
  "seam_score_rgb = seam_score pixel_diff"

section \<open>The order of the guesses\<close>

record 'f guess =
  g_index :: nat
  g_swaps :: "nat list"
  score_luma :: nat
  score_rgb :: nat
  score_text :: 'f
  consensus_rank :: nat

definition first_guess :: "image \<Rightarrow> nat \<Rightarrow> nat list \<Rightarrow> 'f \<Rightarrow> nat \<Rightarrow> (puzzle_error, 'f guess) res" where
  "first_guess img g swaps zero index =
     (let active = take (min (index * 2) (length swaps)) swaps in
      and_then (apply_swaps g active) (\<lambda>mapping.
      and_then (seam_score_luma img g mapping) (\<lambda>luma.
      Inr \<lparr>g_index = index, g_swaps = active, score_luma = luma, score_rgb = 0, score_text = zero, consensus_rank = 0\<rparr>)))"

text \<open>
  The second stage scores the twelve best of the first. An order gives a guess, whose number is one
  more than its place in the list, its rank: the place in the order, 0 when it is not in it.
\<close>

definition second_scores ::
  "image \<Rightarrow> nat \<Rightarrow> (nat list \<Rightarrow> 'f) \<Rightarrow> 'f guess list \<Rightarrow> nat \<Rightarrow> (puzzle_error, nat \<times> nat \<times> 'f) res" where
  "second_scores img g text_score guesses i =
     and_then (apply_swaps g (g_swaps (guesses ! i))) (\<lambda>mapping.
     and_then (seam_score_rgb img g mapping) (\<lambda>rgb. Inr (i, rgb, text_score mapping)))"

definition put_scores :: "nat \<times> nat \<times> 'f \<Rightarrow> 'f guess list \<Rightarrow> 'f guess list" where
  "put_scores s guesses = (case s of (i, rgb, t) \<Rightarrow> guesses[i := (guesses ! i)\<lparr>score_rgb := rgb, score_text := t\<rparr>])"

fun rank_in :: "nat list \<Rightarrow> nat \<Rightarrow> nat" where
  "rank_in [] i = 0"
| "rank_in (j # js) i = (if i = j then 0 else if i \<in> set js then Suc (rank_in js i) else 0)"

definition with_rank :: "nat list \<Rightarrow> nat list \<Rightarrow> nat list \<Rightarrow> nat \<Rightarrow> nat \<Rightarrow> 'f guess \<Rightarrow> 'f guess" where
  "with_rank luma_order rgb_order text_order tiles i guess =
     guess\<lparr>consensus_rank := rank_in luma_order i +
       (if i \<in> set rgb_order then rank_in rgb_order i + rank_in text_order i else tiles)\<rparr>"

definition rank_guesses ::
  "(nat list \<Rightarrow> 'f :: linorder) \<Rightarrow> 'f \<Rightarrow> image \<Rightarrow> nat \<Rightarrow> nat list \<Rightarrow> (puzzle_error, 'f guess list) res" where
  "rank_guesses text_score zero img g swaps =
     (let tiles = length swaps div 2 in
      and_then (ensure (tiles \<noteq> 0) NoCandidates) (\<lambda>_.
      and_then (each_res (first_guess img g swaps zero) [1..<Suc tiles]) (\<lambda>guesses.
      let luma_order = sort_key (\<lambda>i. (score_luma (guesses ! i), g_index (guesses ! i))) [0..<tiles];
          stage_two = take (min tiles 12) luma_order
      in and_then (each_res (second_scores img g text_score guesses) stage_two) (\<lambda>computed.
         let guesses = fold put_scores computed guesses;
             rgb_order = sort_key (\<lambda>i. (score_rgb (guesses ! i), g_index (guesses ! i))) stage_two;
             text_order = sort_key (\<lambda>i. (score_text (guesses ! i), g_index (guesses ! i))) stage_two;
             ranked = map (\<lambda>i. with_rank luma_order rgb_order text_order tiles i (guesses ! i)) [0..<tiles]
         in Inr (sort_key (\<lambda>x. (consensus_rank x, score_luma x, g_index x)) ranked)))))"

section \<open>Properties\<close>

lemma split_steps_facts:
  assumes "split_steps steps = Inr (g, swaps, attempts)"
  shows "0 < g \<and> g \<le> MAX_SLIDER_GRID \<and> swaps \<noteq> [] \<and> even (length swaps) \<and> 0 < attempts"
  using assms by (auto simp: split_steps_def Let_def and_then_ensure split: if_splits)

lemma mset_swap_at: "i < length xs \<Longrightarrow> j < length xs \<Longrightarrow> mset (swap_at i j xs) = mset xs"
  unfolding swap_at_def by (simp add: mset_swap)

lemma length_swap_at [simp]: "length (swap_at i j xs) = length xs"
  by (simp add: swap_at_def)

lemma swap_pairs_permutes:
  "length mapping = tiles \<Longrightarrow> swap_pairs tiles swaps mapping = Inr m \<Longrightarrow> mset m = mset mapping"
  by (induction tiles swaps mapping rule: swap_pairs.induct) (auto simp: mset_swap_at split: if_splits)

text \<open>Whatever the steps are, the tiles are permuted: none is shown twice, none is lost.\<close>

theorem apply_swaps_permutes:
  "apply_swaps g swaps = Inr m \<Longrightarrow> mset m = mset [0..<g * g]"
  using swap_pairs_permutes [of "[0..<g * g]" "g * g" swaps m]
  by (auto simp: apply_swaps_def and_then_Inr_conv checked_mul_def split: if_splits)

lemma swaps_example:
  "apply_swaps 2 [0, 3, 1, 2] = Inr [3, 2, 1, 0] \<and> split_steps [3, 0, 1, 2, 3, 5] = Inr (3, [0, 1, 2, 3], 5)"
  by (simp add: apply_swaps_def split_steps_def checked_mul_def usize_max_def swap_at_def MAX_SLIDER_GRID_def upt_rec)

lemma swap_pairs_ok:
  "\<forall>x \<in> set swaps. x < tiles \<Longrightarrow> \<exists>m. swap_pairs tiles swaps mapping = Inr m"
  by (induction tiles swaps mapping rule: swap_pairs.induct) auto

lemma sample_ok:
  assumes "0 < im_width img" and "0 < im_height img"
  shows "\<exists>p. sample img d s x y = Inr p"
proof -
  have "min a (last_index n) < n" if "0 < n" for a n :: u32
  proof -
    have "last_index n = n - 1" using that by (auto simp: last_index_def)
    moreover have "n - 1 < n" using that by (metis measure_unat not_less_iff_gr_or_eq word_less_nat_alt)
    ultimately show ?thesis by (metis min_less_iff_disj)
  qed
  then show ?thesis using assms by (simp add: sample_def get_pixel_def Let_def) (metis prod_cases3)
qed

lemma sum_res_ok: "(\<And>x. x \<in> set xs \<Longrightarrow> \<exists>n. f x = Inr n) \<Longrightarrow> \<exists>n. sum_res f xs = Inr n"
proof (induction xs)
  case (Cons x xs)
  then obtain n m where "f x = Inr n" "sum_res f xs = Inr m" by (metis list.set_intros)
  then show ?case by simp
qed simp

lemma each_res_ok: "(\<And>x. x \<in> set xs \<Longrightarrow> \<exists>y. f x = Inr y) \<Longrightarrow> \<exists>ys. each_res f xs = Inr ys"
proof (induction xs)
  case (Cons x xs)
  then obtain y ys where "f x = Inr y" "each_res f xs = Inr ys" by (metis list.set_intros)
  then show ?case by simp
qed simp

lemma each_res_nth: "each_res f xs = Inr ys \<Longrightarrow> length ys = length xs \<and> (\<forall>i < length xs. f (xs ! i) = Inr (ys ! i))"
proof (induction xs arbitrary: ys)
  case (Cons x xs)
  then obtain y zs where "f x = Inr y" "each_res f xs = Inr zs" "ys = y # zs" by (auto simp: and_then_Inr_conv)
  then show ?case using Cons.IH [of zs] by (auto simp: nth_Cons split: nat.splits)
qed simp

lemma pairs_in_grid:
  shows "p \<in> set (row_pairs g) \<Longrightarrow> fst p < g * g \<and> snd p < g * g"
    and "p \<in> set (column_pairs g) \<Longrightarrow> fst p < g * g \<and> snd p < g * g"
proof -
  have inside: "row * g + column < g * g" if "row < g" "column < g" for row column :: nat
  proof -
    have "row * g + column < Suc row * g" using that by simp
    also have "\<dots> \<le> g * g" using that by (intro mult_le_mono1) simp
    finally show ?thesis .
  qed
  show "fst p < g * g \<and> snd p < g * g" if "p \<in> set (row_pairs g)"
  proof -
    from that obtain row column where p: "p = (row * g + column, row * g + column + 1)" "row < g" "column < g - 1"
      unfolding row_pairs_def by auto
    then show ?thesis using inside [of row column] inside [of row "column + 1"] by simp
  qed
  show "fst p < g * g \<and> snd p < g * g" if "p \<in> set (column_pairs g)"
  proof -
    from that obtain row column where p: "p = (row * g + column, (row + 1) * g + column)" "row < g - 1" "column < g"
      unfolding column_pairs_def by auto
    then show ?thesis using inside [of row column] inside [of "row + 1" column] by simp
  qed
qed

lemma seam_ok:
  assumes "0 < im_width img" and "0 < im_height img" and "fst p < length mapping" and "snd p < length mapping"
  shows "\<exists>n. seam_beside diff img g mapping p = Inr n" and "\<exists>n. seam_above diff img g mapping p = Inr n"
proof -
  have s: "\<exists>p. sample img d s x y = Inr p" for d s x y by (rule sample_ok) fact+
  have two: "\<exists>n. and_then (sample img d s x y) (\<lambda>p. and_then (sample img d' s' x' y') (\<lambda>q. Inr (diff p q))) = Inr n"
    for d s x y d' s' x' y' using s [of d s x y] s [of d' s' x' y'] by auto
  show "\<exists>n. seam_beside diff img g mapping p = Inr n" "\<exists>n. seam_above diff img g mapping p = Inr n"
    using assms by (simp_all add: seam_beside_def seam_above_def Let_def read_at_def) (rule sum_res_ok, rule two)+
qed

lemma seam_score_ok:
  assumes "0 < im_width img" and "0 < im_height img" and "length mapping = g * g"
  shows "\<exists>n. seam_score diff img g mapping = Inr n"
proof -
  have "\<exists>n. sum_res (seam_beside diff img g mapping) (row_pairs g) = Inr n"
    "\<exists>n. sum_res (seam_above diff img g mapping) (column_pairs g) = Inr n"
    using assms pairs_in_grid by (auto intro!: sum_res_ok seam_ok)
  then show ?thesis by (auto simp: seam_score_def)
qed

lemma apply_swaps_ok:
  assumes "0 < g" and "g \<le> MAX_SLIDER_GRID" and "even (length swaps)" and "\<forall>x \<in> set swaps. x < g * g"
  shows "\<exists>m. apply_swaps g swaps = Inr m \<and> length m = g * g"
proof -
  have "g * g \<le> MAX_SLIDER_GRID * MAX_SLIDER_GRID" using assms(2) by (intro mult_le_mono)
  then have count: "checked_mul g g = Some (g * g)"
    by (simp add: checked_mul_def usize_max_def MAX_SLIDER_GRID_def)
  obtain m where m: "swap_pairs (g * g) swaps [0..<g * g] = Inr m" using swap_pairs_ok assms(4) by blast
  then have run: "apply_swaps g swaps = Inr m" using count assms by (simp add: apply_swaps_def)
  then have "mset m = mset [0..<g * g]" by (rule apply_swaps_permutes)
  then have "length m = g * g" by (metis diff_zero length_upt size_mset)
  then show ?thesis using run by blast
qed

definition puzzle_ok :: "image \<Rightarrow> nat \<Rightarrow> nat list \<Rightarrow> bool" where
  "puzzle_ok img g swaps = (0 < im_width img \<and> 0 < im_height img \<and> 0 < g \<and> g \<le> MAX_SLIDER_GRID
     \<and> swaps \<noteq> [] \<and> even (length swaps) \<and> (\<forall>x \<in> set swaps. x < g * g))"

lemma first_guess_ok:
  assumes "puzzle_ok img g swaps"
  shows "\<exists>x. first_guess img g swaps zero i = Inr x \<and> g_index x = i \<and> g_swaps x = take (2 * i) swaps"
proof -
  let ?active = "take (min (i * 2) (length swaps)) swaps"
  have "even (length ?active)" using assms by (simp add: puzzle_ok_def min_def)
  moreover have "\<forall>x \<in> set ?active. x < g * g" using assms by (auto simp: puzzle_ok_def dest: in_set_takeD)
  ultimately obtain m where m: "apply_swaps g ?active = Inr m" "length m = g * g"
    using assms apply_swaps_ok [of g ?active] by (auto simp: puzzle_ok_def)
  obtain n where "seam_score_luma img g m = Inr n"
    using assms m(2) seam_score_ok [of img m g] by (auto simp: puzzle_ok_def seam_score_luma_def)
  moreover have "?active = take (2 * i) swaps" by (simp add: min_def mult.commute)
  ultimately show ?thesis using m(1) by (simp add: first_guess_def)
qed

lemma second_scores_ok:
  assumes "puzzle_ok img g swaps" and "g_swaps (guesses ! i) = take (2 * j) swaps"
  shows "\<exists>rgb t. second_scores img g text_score guesses i = Inr (i, rgb, t)"
proof -
  have "even (length (take (2 * j) swaps))" using assms by (simp add: puzzle_ok_def min_def)
  moreover have "\<forall>x \<in> set (take (2 * j) swaps). x < g * g" using assms by (auto simp: puzzle_ok_def dest: in_set_takeD)
  ultimately obtain m where m: "apply_swaps g (take (2 * j) swaps) = Inr m" "length m = g * g"
    using assms apply_swaps_ok [of g "take (2 * j) swaps"] by (auto simp: puzzle_ok_def)
  obtain n where "seam_score_rgb img g m = Inr n"
    using assms m(2) seam_score_ok [of img m g] by (auto simp: puzzle_ok_def seam_score_rgb_def)
  then show ?thesis using m(1) assms(2) by (simp add: second_scores_def)
qed

lemma map_update_same: "f x = f (xs ! i) \<Longrightarrow> map f (xs[i := x]) = map f xs"
  by (cases "i < length xs") (simp_all add: map_update list_update_same_conv list_update_beyond)

lemma put_scores_keeps:
  "map g_index (put_scores s gs) = map g_index gs \<and> map g_swaps (put_scores s gs) = map g_swaps gs
   \<and> length (put_scores s gs) = length gs"
  by (simp add: put_scores_def map_update_same split: prod.splits)

lemma fold_put_scores_keeps:
  "map g_index (fold put_scores ss gs) = map g_index gs \<and> map g_swaps (fold put_scores ss gs) = map g_swaps gs
    \<and> length (fold put_scores ss gs) = length gs"
  by (induction ss arbitrary: gs) (simp_all add: put_scores_keeps)

lemma g_with_rank [simp]:
  "g_index (with_rank a b c n i x) = g_index x" "g_swaps (with_rank a b c n i x) = g_swaps x"
  by (simp_all add: with_rank_def)

text \<open>
  On an image with a pixel and steps inside of the grid the ranking succeeds: no sample lies outside of
  the image, also when the grid has more tiles than the image has pixels, and every guess is in the
  result once, with the steps up to its number.
\<close>

theorem rank_guesses_complete:
  assumes ok: "puzzle_ok img g swaps"
  shows "\<exists>gs. rank_guesses text_score zero img g swaps = Inr gs
    \<and> mset (map g_index gs) = mset [1..<Suc (length swaps div 2)]
    \<and> (\<forall>x \<in> set gs. g_swaps x = take (2 * g_index x) swaps)
    \<and> sorted (map (\<lambda>x. (consensus_rank x, score_luma x, g_index x)) gs)"
proof -
  let ?n = "length swaps div 2" and ?is = "[1..<Suc (length swaps div 2)]"
  have "swaps \<noteq> []" and "even (length swaps)" using ok by (simp_all add: puzzle_ok_def)
  then have n: "?n \<noteq> 0" by (metis even_two_times_div_two length_0_conv mult_0_right)
  obtain gs0 where gs0: "each_res (first_guess img g swaps zero) ?is = Inr gs0"
    using each_res_ok [of ?is "first_guess img g swaps zero"] first_guess_ok [OF ok] by metis
  have len: "length gs0 = ?n" using each_res_nth [OF gs0] by simp
  have each: "g_index (gs0 ! i) = Suc i \<and> g_swaps (gs0 ! i) = take (2 * Suc i) swaps" if "i < ?n" for i
  proof -
    have "first_guess img g swaps zero (Suc i) = Inr (gs0 ! i)"
      using each_res_nth [OF gs0] that by (simp del: upt_Suc)
    then show ?thesis using first_guess_ok [OF ok, of zero "Suc i"] by auto
  qed
  define luma_order where "luma_order = sort_key (\<lambda>i. (score_luma (gs0 ! i), g_index (gs0 ! i))) [0..<?n]"
  define stage where "stage = take (min ?n 12) luma_order"
  have "i < ?n" if "i \<in> set stage" for i
    using that by (auto simp: stage_def luma_order_def dest: in_set_takeD)
  then have "\<exists>y. second_scores img g text_score gs0 i = Inr y" if "i \<in> set stage" for i
    using that second_scores_ok [OF ok, of gs0 i "Suc i" text_score] each [of i] by blast
  then obtain computed where computed: "each_res (second_scores img g text_score gs0) stage = Inr computed"
    using each_res_ok [of stage] by blast
  define gs1 where "gs1 = fold put_scores computed gs0"
  have same: "g_index (gs1 ! i) = g_index (gs0 ! i) \<and> g_swaps (gs1 ! i) = g_swaps (gs0 ! i)" if "i < ?n" for i
    using that fold_put_scores_keeps [of computed gs0] len unfolding gs1_def by (metis nth_map)
  obtain ranked where ranked: "rank_guesses text_score zero img g swaps
      = Inr (sort_key (\<lambda>x. (consensus_rank x, score_luma x, g_index x)) ranked)"
    and form: "\<exists>a b c. ranked = map (\<lambda>i. with_rank a b c ?n i (gs1 ! i)) [0..<?n]"
    using n gs0 computed by (auto simp: rank_guesses_def Let_def luma_order_def stage_def gs1_def simp del: upt_Suc)
  have "map g_index ranked = ?is"
    using form same each by (auto intro!: nth_equalityI simp del: upt_Suc)
  moreover have "\<forall>x \<in> set ranked. g_swaps x = take (2 * g_index x) swaps"
    using form same each by auto
  moreover have "mset (map g_index (sort_key (\<lambda>x. (consensus_rank x, score_luma x, g_index x)) ranked))
      = mset (map g_index ranked)" by (simp only: mset_map mset_sort)
  ultimately show ?thesis using ranked by (simp del: upt_Suc mset_upt mset_map)
qed

end
