(* ===== verification/Captcha.thy ===== *)
theory Captcha
  imports VkAuth SliderPuzzle
begin

text \<open>
  \<^verbatim>\<open>backend/captcha.rs\<close>: the order in which the ways to an answer are tried, the dialog with the host,
  the reading of the page and of checks, the proof of work, and the form encoding. What the service
  and the host answer is an input, and so are the regular expressions and the hash function.
\<close>

unbundle bit_operations_syntax

section \<open>Ways to an answer\<close>

datatype captcha_mode = WebviewMode | RustMode | AutoMode

definition captcha_mode_of :: "str_text \<Rightarrow> captcha_mode" where
  "captcha_mode_of s =
     (let m = to_ascii_lowercase (trim s) in
      if m = lit ''wv'' then WebviewMode else if m = lit ''rjs'' then RustMode else AutoMode)"

datatype captcha_error =
    DataIncomplete | DialogCancelled | DialogTimedOut | DialogClosed | EmptyResult | HostFailed str_text
  | NoSessionToken | RateLimited | AttemptFailed | AttemptsCancelled | NoAttempts
  | NotAnObject | BotDetected | TypeMismatch str_text | UnsupportedType str_text | PageUnreadable
  | NoPowSettings | PowUnsolved | RequestRefused | InvalidCheck | StatusMissing | Rejected str_text | NoSuccessToken
  | InvalidContent | NotOk str_text | ImageMissing | StepsMissing | InvalidNumber | ImageUnreadable
  | PuzzleFailed puzzle_error | NoGuesses | GuessesExhausted

text \<open>A dialog empties the channel of results, announces itself and waits for the host.\<close>

datatype dialog_end = HostPosted str_text | HostSilent | HostCancelled | HostGone

definition read_host_result :: "str_text \<Rightarrow> (captcha_error, str_text) res" where
  "read_host_result posted =
     (let result = trim posted; lower = to_ascii_lowercase result in
      if result = [] then Inl (Fail EmptyResult)
      else if lower = lit ''error:timeout'' then Inl (Fail DialogTimedOut)
      else if starts_with lower (lit ''error:'') then Inl (Fail (HostFailed result))
      else Inr result)"

text \<open>The dialogs that were opened, with the seconds they wait.\<close>

type_synonym dialog = "string \<times> nat"

record captcha_task =
  redirect_uri :: str_text
  session_token :: str_text

definition webview :: "captcha_task \<Rightarrow> string \<Rightarrow> nat \<Rightarrow> dialog_end \<Rightarrow> (captcha_error, str_text) res \<times> dialog list" where
  "webview task mode seconds answer =
     (if redirect_uri task = [] \<or> session_token task = [] then (Inl (Fail DataIncomplete), [])
      else
        (case answer of
           HostCancelled \<Rightarrow> Inl (Fail DialogCancelled)
         | HostSilent \<Rightarrow> Inl (Fail DialogTimedOut)
         | HostGone \<Rightarrow> Inl (Fail DialogClosed)
         | HostPosted r \<Rightarrow> read_host_result r,
         [(mode, seconds)]))"

text \<open>
  An attempt of the program itself: its result and, when it failed, the draw of the pause and
  whether the cancellation came during it. The result has the milliseconds slept.
\<close>

datatype attempt_result = GotToken str_text | HitLimit | HitError

fun attempt_loop ::
  "(attempt_result \<times> nat \<times> bool) list \<Rightarrow> captcha_error option \<Rightarrow> nat \<Rightarrow> (captcha_error, str_text) res \<times> nat" where
  "attempt_loop [] err slept = (Inl (Fail (case err of None \<Rightarrow> NoAttempts | Some e \<Rightarrow> e)), slept)"
| "attempt_loop ((GotToken t, _, _) # rest) err slept = (Inr t, slept)"
| "attempt_loop ((HitLimit, _, cancelled) # rest) err slept =
     (if cancelled then (Inl (Fail AttemptsCancelled), slept) else attempt_loop rest (Some RateLimited) (slept + 5000))"
| "attempt_loop ((HitError, draw, cancelled) # rest) err slept =
     (if cancelled then (Inl (Fail AttemptsCancelled), slept)
      else attempt_loop rest (Some AttemptFailed) (slept + 1500 + draw mod 1200))"

definition solve_attempts ::
  "captcha_task \<Rightarrow> nat \<Rightarrow> (nat \<Rightarrow> attempt_result \<times> nat \<times> bool) \<Rightarrow> (captcha_error, str_text) res \<times> nat" where
  "solve_attempts task attempts tries =
     (if session_token task = [] then (Inl (Fail NoSessionToken), 0)
      else attempt_loop (map tries [1..<Suc attempts]) None 0)"

definition solve_auto ::
  "captcha_task \<Rightarrow> (nat \<Rightarrow> attempt_result \<times> nat \<times> bool) \<Rightarrow> (nat \<Rightarrow> dialog_end) \<Rightarrow>
     (captcha_error, str_text) res \<times> dialog list" where
  "solve_auto task tries answers =
     (case fst (solve_attempts task 1 tries) of
        Inr t \<Rightarrow> (Inr t, [])
      | Inl _ \<Rightarrow>
          (case webview task ''auto'' 45 (answers 0) of
             (Inr t, ds) \<Rightarrow> (Inr t, ds)
           | (Inl _, ds) \<Rightarrow> (let (r, ds') = webview task ''manual'' 60 (answers 1) in (r, ds @ ds'))))"

definition captcha_solve ::
  "captcha_mode \<Rightarrow> captcha_task \<Rightarrow> (nat \<Rightarrow> attempt_result \<times> nat \<times> bool) \<Rightarrow> (nat \<Rightarrow> dialog_end) \<Rightarrow>
     (captcha_error, str_text) res \<times> dialog list" where
  "captcha_solve mode task tries answers =
     (case mode of
        WebviewMode \<Rightarrow> webview task ''selected'' 120 (answers 0)
      | RustMode \<Rightarrow>
          (case fst (solve_attempts task 2 tries) of
             Inr t \<Rightarrow> (Inr t, [])
           | Inl _ \<Rightarrow> webview task ''auto'' 45 (answers 0))
      | AutoMode \<Rightarrow> solve_auto task tries answers)"

section \<open>The state of the page\<close>

text \<open>Depth, inside a string, after a backslash. A brace that closes nothing would underflow.\<close>

datatype page_error = NoInitToken | NoStartBrace | Unbalanced

record page_scan =
  brace_depth :: nat
  in_string :: bool
  after_backslash :: bool

definition scan_start :: page_scan where
  "scan_start = \<lparr>brace_depth = 0, in_string = False, after_backslash = False\<rparr>"

definition scan_char :: "nat \<Rightarrow> page_scan \<Rightarrow> (page_error, page_scan) res" where
  "scan_char c s =
     (if in_string s then
        (if after_backslash s then Inr (s\<lparr>after_backslash := False\<rparr>)
         else if c = 92 then Inr (s\<lparr>after_backslash := True\<rparr>)
         else if c = 34 then Inr (s\<lparr>in_string := False\<rparr>)
         else Inr s)
      else if c = 34 then Inr (s\<lparr>in_string := True\<rparr>)
      else if c = 123 then Inr (s\<lparr>brace_depth := brace_depth s + 1\<rparr>)
      else if c = 125 then
        (if brace_depth s = 0 then Inl Panic else Inr (s\<lparr>brace_depth := brace_depth s - 1\<rparr>))
      else Inr s)"

definition closing_char :: "nat \<Rightarrow> page_scan \<Rightarrow> bool" where
  "closing_char c s = (\<not> in_string s \<and> c = 125)"

fun scan_init :: "str_text \<Rightarrow> page_scan \<Rightarrow> (page_error, str_text) res" where
  "scan_init [] s = Inl (Fail Unbalanced)"
| "scan_init (c # cs) s =
     and_then (scan_char c s) (\<lambda>s1.
     if closing_char c s \<and> brace_depth s1 = 0 then Inr [c]
     else and_then (scan_init cs s1) (\<lambda>rest. Inr (c # rest)))"

definition extract_window_init :: "str_text \<Rightarrow> (page_error, str_text) res" where
  "extract_window_init html =
     and_then (ok_or (find_sub html (lit ''window.init'')) NoInitToken) (\<lambda>token.
     let tail = drop (token + 11) html in
     and_then (ok_or (find_char (\<lambda>c. c = 123) tail) NoStartBrace) (\<lambda>offset.
     scan_init (drop offset tail) scan_start))"

section \<open>The error that asks for a captcha\<close>

text \<open>The rendering of a value that is no string (serde) and the query of a URL are parameters.\<close>

definition string_value :: "(json \<Rightarrow> str_text) \<Rightarrow> json option \<Rightarrow> str_text" where
  "string_value render v =
     (case v of None \<Rightarrow> [] | Some JNull \<Rightarrow> [] | Some (JString s) \<Rightarrow> s | Some w \<Rightarrow> render w)"

definition query_value :: "(str_text \<Rightarrow> (str_text \<times> str_text) list option) \<Rightarrow> str_text \<Rightarrow> str_text \<Rightarrow> str_text option" where
  "query_value query_pairs url key = Option.bind (query_pairs url) (\<lambda>ps. map_of ps key)"

record vk_captcha_error =
  error_code :: int
  error_msg :: str_text
  captcha_sid :: str_text
  captcha_img :: str_text
  captcha_redirect :: str_text
  captcha_session :: str_text
  captcha_timestamp :: str_text
  captcha_attempt :: str_text

definition captcha_from_json ::
  "(json \<Rightarrow> str_text) \<Rightarrow> (str_text \<Rightarrow> (str_text \<times> str_text) list option) \<Rightarrow> json \<Rightarrow> (captcha_error, vk_captcha_error) res" where
  "captcha_from_json render query_pairs raw =
     (case raw of
        JObject _ \<Rightarrow>
          (let field = (\<lambda>key. string_value render (json_get key raw)); uri = field (lit ''redirect_uri'') in
           Inr \<lparr>error_code = error_code_of (json_get (lit ''error_code'') raw),
             error_msg = field (lit ''error_msg''), captcha_sid = field (lit ''captcha_sid''),
             captcha_img = field (lit ''captcha_img''), captcha_redirect = uri,
             captcha_session = (case query_value query_pairs uri (lit ''session_token'') of Some t \<Rightarrow> t | None \<Rightarrow> []),
             captcha_timestamp = field (lit ''captcha_ts''), captcha_attempt = field (lit ''captcha_attempt'')\<rparr>)
      | _ \<Rightarrow> Inl (Fail NotAnObject))"

definition task_of :: "vk_captcha_error \<Rightarrow> captcha_task" where
  "task_of e = \<lparr>redirect_uri = captcha_redirect e, session_token = captcha_session e\<rparr>"

section \<open>Reading the page\<close>

text \<open>
  What the regular expressions of the file match in the page, and the JSON reader of the state, are
  parameters: the captured texts.
\<close>

record captcha_setting =
  setting_kind :: str_text
  setting_settings :: str_text
  setting_key :: str_text

record captcha_init =
  init_show_type :: str_text
  init_settings :: "captcha_setting list"

record page_matches =
  window_init_match :: "captcha_init option"
  debug_match :: "str_text option"
  script_match :: "str_text option"
  pow_input_match :: "str_text option"
  pow_difficulty_match :: "str_text option"
  pow_obfuscated_match :: "(str_text \<times> str_text) option"

record captcha_page =
  pow_input :: str_text
  pow_difficulty :: nat
  script_url :: str_text
  page_init :: "captcha_init option"
  debug_info :: str_text

definition parse_usize :: "str_text \<Rightarrow> nat option" where
  "parse_usize s =
     (let ds = (if s \<noteq> [] \<and> hd s = 43 then tl s else s)
      in if ds = [] then None
         else Option.bind (digits_value ds 0) (\<lambda>n. if n < 2 ^ 64 then Some (nat n) else None))"

definition or_empty :: "str_text option \<Rightarrow> str_text" where
  "or_empty t = (case t of Some s \<Rightarrow> s | None \<Rightarrow> [])"

text \<open>A state that is there but cannot be read is an error; a page without one is searched again.\<close>

definition page_state ::
  "(str_text \<Rightarrow> captcha_init option) \<Rightarrow> page_matches \<Rightarrow> str_text \<Rightarrow> (captcha_error, captcha_init option) res" where
  "page_state parse_init m html =
     (case extract_window_init html of
        Inr raw \<Rightarrow> (case parse_init raw of Some i \<Rightarrow> Inr (Some i) | None \<Rightarrow> Inl (Fail PageUnreadable))
      | Inl Panic \<Rightarrow> Inl Panic
      | Inl (Fail _) \<Rightarrow> Inr (window_init_match m))"

text \<open>Three places for the input of the proof of work, in this order.\<close>

definition pow_of_matches :: "page_matches \<Rightarrow> str_text \<times> nat" where
  "pow_of_matches m =
     (let inp = or_empty (pow_input_match m);
          difficulty = (case Option.bind (pow_difficulty_match m) parse_usize of Some d \<Rightarrow> d | None \<Rightarrow> 0)
      in case pow_obfuscated_match m of
           Some (i, d) \<Rightarrow>
             if inp = [] then (i, case parse_usize d of Some n \<Rightarrow> n | None \<Rightarrow> 4) else (inp, difficulty)
         | None \<Rightarrow> (inp, difficulty))"

definition pow_of_init :: "captcha_init option \<Rightarrow> str_text" where
  "pow_of_init i =
     (case i of
        None \<Rightarrow> []
      | Some i \<Rightarrow>
          (case find (\<lambda>s. setting_kind s = lit ''pow'') (init_settings i) of
             None \<Rightarrow> []
           | Some s \<Rightarrow> if setting_settings s = [] then setting_key s else setting_settings s))"

definition default_script :: str_text where
  "default_script = lit ''https://id.vk.com/js/api/oauth.js''"

definition page_pow :: "page_matches \<Rightarrow> captcha_init option \<Rightarrow> str_text \<times> nat" where
  "page_pow m init =
     (let found = pow_of_matches m;
          inp = (if fst found = [] then pow_of_init init else fst found)
      in (inp, if inp \<noteq> [] \<and> snd found = 0 then 4 else snd found))"

definition parse_page ::
  "(str_text \<Rightarrow> captcha_init option) \<Rightarrow> page_matches \<Rightarrow> str_text \<Rightarrow> (captcha_error, captcha_page) res" where
  "parse_page parse_init m html =
     and_then (page_state parse_init m html) (\<lambda>init.
     Inr \<lparr>pow_input = fst (page_pow m init), pow_difficulty = snd (page_pow m init),
       script_url = (case script_match m of Some u \<Rightarrow> u | None \<Rightarrow> default_script),
       page_init = init, debug_info = or_empty (debug_match m)\<rparr>)"

text \<open>The type to show and the settings of the last slider.\<close>

definition initial_captcha_state :: "captcha_init option \<Rightarrow> str_text \<times> str_text" where
  "initial_captcha_state i =
     (case i of
        None \<Rightarrow> ([], [])
      | Some i \<Rightarrow>
          (init_show_type i,
           fold (\<lambda>s found. if setting_kind s = lit ''slider'' then setting_settings s else found) (init_settings i) []))"

section \<open>Checks\<close>

record captcha_check =
  check_status :: str_text
  check_token :: str_text
  check_show_type :: str_text

definition read_check :: "(json \<Rightarrow> str_text) \<Rightarrow> json option \<Rightarrow> (captcha_error, captcha_check) res" where
  "read_check render response =
     and_then (ok_or response RequestRefused) (\<lambda>response.
     and_then (ok_or (json_get (lit ''response'') response) InvalidCheck) (\<lambda>raw.
     let c = \<lparr>check_status = string_value render (json_get (lit ''status'') raw),
              check_token = string_value render (json_get (lit ''success_token'') raw),
              check_show_type = string_value render (json_get (lit ''show_captcha_type'') raw)\<rparr>
     in if check_status c = [] then Inl (Fail StatusMissing) else Inr c))"

definition checkbox_verdict :: "captcha_check \<Rightarrow> (captcha_error, str_text) res" where
  "checkbox_verdict c =
     (if check_show_type c \<noteq> [] \<and> \<not> eq_ignore_case (check_show_type c) (lit ''checkbox'')
      then Inl (Fail (TypeMismatch (check_show_type c)))
      else if eq_ignore_case (check_status c) (lit ''error_limit'') then Inl (Fail RateLimited)
      else if eq_ignore_case (check_status c) (lit ''bot'') then Inl (Fail BotDetected)
      else if \<not> eq_ignore_case (check_status c) (lit ''ok'') then Inl (Fail (Rejected (check_status c)))
      else if check_token c = [] then Inl (Fail NoSuccessToken)
      else Inr (check_token c))"

text \<open>The answers of the service to the two requests, and whether the cancellation came in the pause between them.\<close>

record checkbox_answers =
  component_done :: bool
  pause_cancelled :: bool
  check_answer :: "json option"

definition solve_checkbox :: "(json \<Rightarrow> str_text) \<Rightarrow> checkbox_answers \<Rightarrow> (captcha_error, str_text) res" where
  "solve_checkbox render a =
     (if \<not> component_done a then Inl (Fail RequestRefused)
      else if pause_cancelled a then Inl (Fail AttemptsCancelled)
      else and_then (read_check render (check_answer a)) checkbox_verdict)"

section \<open>The proof of work\<close>

datatype pow_error = PowFailed | PowTooHard | PowCancelled

definition MAX_POW_DIFFICULTY :: nat where "MAX_POW_DIFFICULTY = 8"
definition MAX_NONCE :: nat where "MAX_NONCE = 10000000"

definition hash_meets_target :: "bytes \<Rightarrow> nat \<Rightarrow> (pow_error, bool) res" where
  "hash_meets_target digest difficulty =
     (let full = difficulty div 2 in
      if length digest < full then Inl Panic
      else if list_ex (\<lambda>b. b \<noteq> 0) (take full digest) then Inr False
      else if even difficulty then Inr True
      else if length digest \<le> full then Inl Panic
      else Inr (digest ! full AND 0xF0 = 0))"

text \<open>The search from a nonce on; the cancellation is looked at every 4096 nonces.\<close>

function pow_from ::
  "(bytes \<Rightarrow> bytes) \<Rightarrow> bytes \<Rightarrow> nat \<Rightarrow> (nat \<Rightarrow> bool) \<Rightarrow> nat \<Rightarrow> (pow_error, bytes) res" where
  "pow_from sha input difficulty cancelled nonce =
     (if MAX_NONCE < nonce then Inl (Fail PowFailed)
      else if nonce mod 4096 = 0 \<and> cancelled nonce then Inl (Fail PowCancelled)
      else
        let digest = sha (input @ map of_nat (text_decimal nonce)) in
        and_then (hash_meets_target digest difficulty) (\<lambda>ok.
        if ok then Inr digest else pow_from sha input difficulty cancelled (nonce + 1)))"
  by pat_completeness auto
termination by (relation "measure (\<lambda>(_, _, _, _, n). MAX_NONCE + 1 - n)") auto

declare pow_from.simps [simp del]

definition solve_pow ::
  "(bytes \<Rightarrow> bytes) \<Rightarrow> bytes \<Rightarrow> nat \<Rightarrow> (nat \<Rightarrow> bool) \<Rightarrow> (pow_error, bytes) res" where
  "solve_pow sha input difficulty cancelled =
     (if input = [] \<or> difficulty = 0 then Inl (Fail PowFailed)
      else if difficulty > MAX_POW_DIFFICULTY then Inl (Fail PowTooHard)
      else pow_from sha input difficulty cancelled 0)"

section \<open>Forms\<close>

definition base_values :: "str_text \<Rightarrow> (str_text \<times> str_text) list" where
  "base_values token =
     [(lit ''session_token'', token), (lit ''domain'', lit ''vk.com''), (lit ''adFp'', []), (lit ''access_token'', [])]"

text \<open>The escape is that of \<^verbatim>\<open>auth.rs\<close>, written once more.\<close>

definition encode_component :: "str_text \<Rightarrow> str_text" where
  "encode_component = query_escape"

fun encode_form :: "(str_text \<times> str_text) list \<Rightarrow> str_text" where
  "encode_form [] = []"
| "encode_form [(k, v)] = encode_component k @ 61 # encode_component v"
| "encode_form ((k, v) # x # rest) = encode_component k @ 61 # encode_component v @ 38 # encode_form (x # rest)"

definition decode_field :: "str_text \<Rightarrow> (bytes \<times> bytes) option" where
  "decode_field s = map_option (\<lambda>(k, v). (form_decode k, form_decode v)) (split_once 61 s)"

section \<open>Properties\<close>

text \<open>At most two dialogs are opened, none when the task is incomplete; a token is never empty nor an error
  of the host when it comes from a dialog.\<close>

lemma webview_token:
  "webview task m n a = (Inr t, ds) \<Longrightarrow> t \<noteq> [] \<and> \<not> starts_with (to_ascii_lowercase t) (lit ''error:'') \<and> ds = [(m, n)]"
  by (auto simp: webview_def read_host_result_def Let_def split: if_splits dialog_end.splits)

lemma captcha_dialogs:
  assumes "captcha_solve mode task tries answers = (r, ds)"
  shows "length ds \<le> 2" and "sum_list (map snd ds) \<le> 120"
    and "redirect_uri task = [] \<or> session_token task = [] \<Longrightarrow> ds = []"
  using assms
  by (auto simp: captcha_solve_def solve_auto_def webview_def Let_def
      split: captcha_mode.splits sum.splits if_splits prod.splits)

lemma attempt_loop_slept:
  "attempt_loop xs e s = (r, t) \<Longrightarrow> s \<le> t \<and> t \<le> s + length xs * 5000"
proof (induction xs e s rule: attempt_loop.induct)
  case (4 draw cancelled rest err slept)
  have "draw mod 1200 < 1200" by simp
  then show ?case using 4 by (auto split: if_splits)
qed (auto split: if_splits)

text \<open>
  What is taken from the page begins where the first brace after the token is, is balanced outside of
  strings, is as short as that allows, and the scan never closes a brace that is not open.
\<close>

fun scan_all :: "str_text \<Rightarrow> page_scan \<Rightarrow> page_scan" where
  "scan_all [] s = s"
| "scan_all (c # cs) s = (case scan_char c s of Inl _ \<Rightarrow> s | Inr s1 \<Rightarrow> scan_all cs s1)"

definition scanned :: "str_text \<Rightarrow> page_scan \<Rightarrow> str_text \<Rightarrow> bool" where
  "scanned cs s r \<longleftrightarrow> (\<exists>post. cs = r @ post) \<and> r \<noteq> [] \<and> brace_depth (scan_all r s) = 0
     \<and> (\<forall>k < length r. 0 < k \<longrightarrow> 0 < brace_depth (scan_all (take k r) s))"

lemma scan_char_step:
  assumes "0 < brace_depth s \<or> c = 123 \<and> \<not> in_string s"
  shows "\<exists>s1. scan_char c s = Inr s1 \<and> (brace_depth s1 = 0 \<longrightarrow> closing_char c s)"
proof (cases "in_string s")
  case True
  then have "0 < brace_depth s" using assms by simp
  then show ?thesis using True
    by (cases "after_backslash s"; cases "c = 92"; cases "c = 34") (simp_all add: scan_char_def)
next
  case False
  then show ?thesis using assms
    by (cases "c = 34"; cases "c = 123"; cases "c = 125") (simp_all add: scan_char_def closing_char_def)
qed

lemma scanned_step:
  assumes "scan_char c s = Inr s1" and "0 < brace_depth s1" and "scanned cs s1 r"
  shows "scanned (c # cs) s (c # r)"
  unfolding scanned_def
proof (intro conjI allI impI)
  fix k assume k: "k < length (c # r)" "0 < k"
  then obtain j where j: "k = Suc j" "j < length r" by (cases k) auto
  then show "0 < brace_depth (scan_all (take k (c # r)) s)"
    using assms by (cases "j = 0") (simp_all add: scanned_def)
next
  from assms(3) obtain post where "cs = r @ post" by (auto simp: scanned_def)
  then show "\<exists>post. c # cs = (c # r) @ post" by simp
  show "brace_depth (scan_all (c # r) s) = 0" using assms by (simp add: scanned_def)
qed simp

lemma scan_init_ok:
  assumes "0 < brace_depth s \<or> (cs \<noteq> [] \<and> hd cs = 123) \<and> \<not> in_string s"
  shows "scan_init cs s \<noteq> Inl Panic \<and> (\<forall>r. scan_init cs s = Inr r \<longrightarrow> scanned cs s r)"
  using assms
proof (induction cs arbitrary: s)
  case (Cons c cs)
  have "0 < brace_depth s \<or> c = 123 \<and> \<not> in_string s" using Cons.prems by simp
  from scan_char_step [OF this] obtain s1 where
    s1_zero: "scan_char c s = Inr s1 \<and> (brace_depth s1 = 0 \<longrightarrow> closing_char c s)" ..
  note s1 = conjunct1 [OF s1_zero] and zero = conjunct2 [OF s1_zero]
  show ?case
  proof (cases "brace_depth s1 = 0")
    case True
    then have "scan_init (c # cs) s = Inr [c]" using zero s1 by simp
    then show ?thesis using True s1 by (simp add: scanned_def)
  next
    case False
    then have ih: "scan_init cs s1 \<noteq> Inl Panic \<and> (\<forall>r. scan_init cs s1 = Inr r \<longrightarrow> scanned cs s1 r)"
      by (intro Cons.IH) simp
    have step: "scan_init (c # cs) s = and_then (scan_init cs s1) (\<lambda>rest. Inr (c # rest))"
      using s1 False by simp
    show ?thesis
    proof (cases "scan_init cs s1")
      case (Inl e)
      then show ?thesis using ih step by simp
    next
      case (Inr r)
      then show ?thesis using ih step scanned_step [OF s1] False by simp
    qed
  qed
qed simp

lemma find_char_Some:
  "find_char P s = Some i \<Longrightarrow> i < length s \<and> P (s ! i) \<and> (\<forall>j < i. \<not> P (s ! j))"
  by (induction s arbitrary: i) (auto split: if_splits simp: less_Suc_eq_0_disj nth_Cons split: nat.splits)

theorem window_init_balanced:
  "extract_window_init html \<noteq> Inl Panic
   \<and> (\<forall>r. extract_window_init html = Inr r \<longrightarrow>
        (\<exists>k. scanned (drop k html) scan_start r \<and> html ! k = 123 \<and> contains html (lit ''window.init'')))"
proof (cases "find_sub html (lit ''window.init'')")
  case None
  then show ?thesis by (simp add: extract_window_init_def)
next
  case (Some token)
  define tail where "tail = drop (token + 11) html"
  have token: "contains html (lit ''window.init'')" using Some find_sub_None by (metis option.distinct(1))
  show ?thesis
  proof (cases "find_char (\<lambda>c. c = 123) tail")
    case None
    then show ?thesis using Some by (simp add: extract_window_init_def tail_def Let_def)
  next
    case offset: (Some offset)
    have f: "offset < length tail" "tail ! offset = 123" using find_char_Some [OF offset] by simp_all
    have e: "extract_window_init html = scan_init (drop offset tail) scan_start"
      using Some offset by (simp add: extract_window_init_def tail_def Let_def)
    have "scan_init (drop offset tail) scan_start \<noteq> Inl Panic
      \<and> (\<forall>r. scan_init (drop offset tail) scan_start = Inr r \<longrightarrow> scanned (drop offset tail) scan_start r)"
      by (rule scan_init_ok) (use f in \<open>simp add: scan_start_def hd_drop_conv_nth\<close>)
    moreover have "drop offset tail = drop (token + 11 + offset) html" by (simp add: tail_def add.commute)
    moreover have "html ! (token + 11 + offset) = 123" using f by (simp add: tail_def)
    ultimately show ?thesis using e token by metis
  qed
qed

text \<open>The proof of work always ends; what it finds is the hash of the first nonce that meets the target.\<close>

lemma hash_meets_total: "length digest = 32 \<Longrightarrow> d \<le> MAX_POW_DIFFICULTY \<Longrightarrow> \<exists>b. hash_meets_target digest d = Inr b"
  by (auto simp: hash_meets_target_def MAX_POW_DIFFICULTY_def Let_def)

lemma pow_from_runs:
  "pow_from sha input d cancelled n = Inr digest \<Longrightarrow> \<not> MAX_NONCE < n \<and> \<not> (n mod 4096 = 0 \<and> cancelled n)"
  by (subst (asm) pow_from.simps) (auto simp del: not_less split: if_splits)

lemma pow_from_first:
  assumes "pow_from sha input d cancelled n = Inr digest"
  shows "\<exists>m\<ge>n. m \<le> MAX_NONCE \<and> digest = sha (input @ map of_nat (text_decimal m))
    \<and> hash_meets_target digest d = Inr True
    \<and> (\<forall>j. n \<le> j \<and> j < m \<longrightarrow> hash_meets_target (sha (input @ map of_nat (text_decimal j))) d = Inr False)"
  using assms
proof (induction sha input d cancelled n rule: pow_from.induct)
  case (1 sha input d cancelled n)
  let ?h = "\<lambda>m. sha (input @ map of_nat (text_decimal m))"
  note run = conjunct1 [OF pow_from_runs [OF "1.prems"]] conjunct2 [OF pow_from_runs [OF "1.prems"]]
  have eq: "pow_from sha input d cancelled n = and_then (hash_meets_target (?h n) d)
      (\<lambda>ok. if ok then Inr (?h n) else pow_from sha input d cancelled (n + 1))"
    unfolding pow_from.simps [of sha input d cancelled n] by (simp only: if_not_P [OF run(1)] if_not_P [OF run(2)] Let_def)
  show ?case
  proof (cases "hash_meets_target (?h n) d")
    case (Inl e)
    then show ?thesis using "1.prems" eq by simp
  next
    case (Inr ok)
    show ?thesis
    proof (cases ok)
      case True
      then show ?thesis using "1.prems" eq Inr run by (intro exI [of _ n]) auto
    next
      case False
      then have "pow_from sha input d cancelled (n + 1) = Inr digest" using "1.prems" eq Inr by simp
      from "1.IH" [OF run refl False this] obtain m where m: "n + 1 \<le> m" "m \<le> MAX_NONCE" "digest = ?h m"
        "hash_meets_target digest d = Inr True"
        "\<And>j. n + 1 \<le> j \<Longrightarrow> j < m \<Longrightarrow> hash_meets_target (?h j) d = Inr False" by blast
      moreover have "hash_meets_target (?h j) d = Inr False" if "n \<le> j" "j < m" for j
        using that m(5) [of j] Inr False by (cases "j = n") simp_all
      ultimately show ?thesis by (intro exI [of _ m]) simp
    qed
  qed
qed

text \<open>A form is read back field by field by the decoder of the URL standard, whatever the values contain.\<close>

lemma encode_component_free: "38 \<notin> set (encode_component s)" "61 \<notin> set (encode_component s)"
  using query_escape_roundtrip [of s] by (auto simp: encode_component_def list_all_iff unreserved_def)

lemma split_on_field: "p \<notin> set a \<Longrightarrow> split_on p (a @ p # s) = a # split_on p s"
  by (induction a) auto

lemma split_on_whole: "p \<notin> set a \<Longrightarrow> split_on p a = [a]"
  by (induction a) auto

lemma field_roundtrip:
  "decode_field (encode_component k @ 61 # encode_component v) = Some (utf8_encode k, utf8_encode v)"
  using query_escape_roundtrip
  by (simp add: decode_field_def split_once_first encode_component_free(2)) (simp add: encode_component_def)

theorem form_roundtrip:
  "fs \<noteq> [] \<Longrightarrow> map decode_field (split_on 38 (encode_form fs)) = map (\<lambda>(k, v). Some (utf8_encode k, utf8_encode v)) fs"
proof (induction fs rule: encode_form.induct)
  case (2 k v)
  have "38 \<notin> set (encode_component k @ 61 # encode_component v)" using encode_component_free by simp
  then show ?case by (simp add: split_on_whole field_roundtrip)
next
  case (3 k v x rest)
  have "38 \<notin> set (encode_component k @ 61 # encode_component v)" using encode_component_free by simp
  from split_on_field [OF this] have
    "split_on 38 (encode_form ((k, v) # x # rest))
      = (encode_component k @ 61 # encode_component v) # split_on 38 (encode_form (x # rest))" by simp
  then show ?case using "3.IH" by (simp add: field_roundtrip)
qed simp

text \<open>A page that gives a state and an input for the proof of work has a difficulty of at least one.\<close>

lemma page_pow_difficulty: "fst (page_pow m init) \<noteq> [] \<Longrightarrow> 0 < snd (page_pow m init)"
  by (simp add: page_pow_def Let_def split: if_split_asm)

lemma parse_page_difficulty:
  assumes "parse_page parse_init m html = Inr p" and "pow_input p \<noteq> []"
  shows "0 < pow_difficulty p"
proof -
  obtain init where "pow_input p = fst (page_pow m init)" "pow_difficulty p = snd (page_pow m init)"
    using assms(1) by (cases "page_state parse_init m html") (auto simp: parse_page_def)
  then show ?thesis using assms(2) page_pow_difficulty by metis
qed

lemma checkbox_token:
  assumes "checkbox_verdict c = Inr t"
  shows "t \<noteq> [] \<and> t = check_token c \<and> eq_ignore_case (check_status c) (lit ''ok'')"
proof -
  have "eq_ignore_case (check_status c) (lit ''ok'')"
    using assms unfolding checkbox_verdict_def by (metis sum.distinct(1))
  moreover from this have "check_token c \<noteq> [] \<and> t = check_token c"
    using assms unfolding checkbox_verdict_def by (metis sum.distinct(1) sum.inject(2))
  ultimately show ?thesis by simp
qed

lemma verdict_mismatch:
  assumes "checkbox_verdict c = Inl (Fail (TypeMismatch m))"
  shows "m = check_show_type c \<and> m \<noteq> [] \<and> \<not> eq_ignore_case m (lit ''checkbox'')"
proof (cases "check_show_type c \<noteq> [] \<and> \<not> eq_ignore_case (check_show_type c) (lit ''checkbox'')")
  case True
  then show ?thesis using assms by (simp add: checkbox_verdict_def)
next
  case False
  then show ?thesis using assms by (simp only: checkbox_verdict_def if_False split: if_splits) simp_all
qed

lemma read_check_errors:
  "read_check render r = Inl e \<Longrightarrow> e \<in> {Fail RequestRefused, Fail InvalidCheck, Fail StatusMissing}"
  unfolding read_check_def Let_def
  by (cases r; simp; cases "json_get (lit ''response'') (the r)"; simp split: if_splits)

lemma solve_checkbox_mismatch:
  assumes "solve_checkbox render a = Inl (Fail (TypeMismatch m))"
  shows "m \<noteq> [] \<and> \<not> eq_ignore_case m (lit ''checkbox'')"
proof (cases "read_check render (check_answer a)")
  case (Inl e)
  then show ?thesis using assms read_check_errors [OF Inl] by (auto simp: solve_checkbox_def split: if_splits)
next
  case (Inr c)
  then show ?thesis using assms verdict_mismatch [of c m] by (auto simp: solve_checkbox_def split: if_splits)
qed

end
