(* ===== verification/CaptchaAttempt.thy ===== *)
theory CaptchaAttempt
  imports Captcha
begin

text \<open>
  One attempt of the program at a captcha (\<^verbatim>\<open>solve_once\<close> of \<^verbatim>\<open>backend/captcha.rs\<close> and \<^verbatim>\<open>solve_slider\<close> of
  \<^verbatim>\<open>backend/captcha_slider.rs\<close>): the page, the proof of work, and the rounds of checkbox and slider.
  What the service answers is an input.
\<close>

section \<open>The slider\<close>

definition parse_number :: "json \<Rightarrow> (captcha_error, nat) res" where
  "parse_number v =
     (case v of
        JInt n \<Rightarrow> if 0 \<le> n \<and> n < 2 ^ 64 then Inr (nat n) else Inl (Fail InvalidNumber)
      | JString s \<Rightarrow> ok_or (parse_usize (trim s)) InvalidNumber
      | _ \<Rightarrow> Inl (Fail InvalidNumber))"

definition of_puzzle :: "(puzzle_error, 'a) res \<Rightarrow> (captcha_error, 'a) res" where
  "of_puzzle r = (case r of Inr x \<Rightarrow> Inr x | Inl Panic \<Rightarrow> Inl Panic | Inl (Fail e) \<Rightarrow> Inl (Fail (PuzzleFailed e)))"

record puzzle =
  puzzle_image :: image
  puzzle_size :: nat
  puzzle_swaps :: "nat list"
  puzzle_attempts :: nat

text \<open>The decoder of the image (base64 and the image library) is a parameter.\<close>

definition puzzle_of ::
  "(json \<Rightarrow> str_text) \<Rightarrow> (str_text \<Rightarrow> image option) \<Rightarrow> json \<Rightarrow> (captcha_error, puzzle) res" where
  "puzzle_of render decode response =
     (let status = string_value render (json_get (lit ''status'') response);
          raw = string_value render (json_get (lit ''image'') response) in
      and_then (ensure (eq_ignore_case status (lit ''ok'')) (NotOk status)) (\<lambda>_.
      and_then (ensure (raw \<noteq> []) ImageMissing) (\<lambda>_.
      and_then (ok_or (Option.bind (json_get (lit ''steps'') response) as_array) StepsMissing) (\<lambda>raw_steps.
      and_then (each_res parse_number raw_steps) (\<lambda>steps.
      and_then (of_puzzle (split_steps steps)) (\<lambda>(size, swaps, attempts).
      and_then (ok_or (decode raw) ImageUnreadable) (\<lambda>img.
      Inr \<lparr>puzzle_image = img, puzzle_size = size, puzzle_swaps = swaps, puzzle_attempts = attempts\<rparr>)))))))"

definition parse_puzzle ::
  "(json \<Rightarrow> str_text) \<Rightarrow> (str_text \<Rightarrow> image option) \<Rightarrow> json \<Rightarrow> (captcha_error, puzzle) res" where
  "parse_puzzle render decode raw =
     (case json_get (lit ''response'') raw of
        Some (JObject m) \<Rightarrow> puzzle_of render decode (JObject m)
      | _ \<Rightarrow> Inl (Fail InvalidContent))"

text \<open>The guesses in their order, the answer to the check of each.\<close>

fun slider_attempts ::
  "(json \<Rightarrow> str_text) \<Rightarrow> (nat \<Rightarrow> json option) \<Rightarrow> nat list list \<Rightarrow> nat \<Rightarrow> (captcha_error, str_text) res" where
  "slider_attempts render answer [] k = Inl (Fail GuessesExhausted)"
| "slider_attempts render answer (g # gs) k =
     and_then (read_check render (answer k)) (\<lambda>c.
     if eq_ignore_case (check_status c) (lit ''ok'') then
       (if check_token c = [] then Inl (Fail NoSuccessToken) else Inr (check_token c))
     else if eq_ignore_case (check_status c) (lit ''error_limit'') then Inl (Fail RateLimited)
     else slider_attempts render answer gs (k + 1))"

record slider_answers =
  content_answer :: "json option"
  slider_done :: bool
  slider_check :: "nat \<Rightarrow> json option"

definition solve_slider ::
  "(json \<Rightarrow> str_text) \<Rightarrow> (str_text \<Rightarrow> image option) \<Rightarrow> (nat list \<Rightarrow> 'f :: linorder) \<Rightarrow> 'f \<Rightarrow> slider_answers \<Rightarrow>
     (captcha_error, str_text) res" where
  "solve_slider render decode text_score zero a =
     and_then (ok_or (content_answer a) RequestRefused) (\<lambda>response.
     and_then (parse_puzzle render decode response) (\<lambda>p.
     and_then (of_puzzle (rank_guesses text_score zero (puzzle_image p) (puzzle_size p) (puzzle_swaps p))) (\<lambda>guesses.
     let limit = min (puzzle_attempts p) (length guesses) in
     if limit = 0 then Inl (Fail NoGuesses)
     else if \<not> slider_done a then Inl (Fail RequestRefused)
     else slider_attempts render (slider_check a) (take limit (map g_swaps guesses)) 0)))"

section \<open>The rounds\<close>

record round_answers =
  of_checkbox :: checkbox_answers
  of_slider :: slider_answers

definition round_result ::
  "(json \<Rightarrow> str_text) \<Rightarrow> (str_text \<Rightarrow> image option) \<Rightarrow> (nat list \<Rightarrow> 'f :: linorder) \<Rightarrow> 'f \<Rightarrow> round_answers \<Rightarrow>
     str_text \<Rightarrow> (captcha_error, str_text) res option" where
  "round_result render decode text_score zero a show_type =
     (if show_type = lit ''slider'' then Some (solve_slider render decode text_score zero (of_slider a))
      else if show_type = lit ''checkbox'' \<or> show_type = [] then Some (solve_checkbox render (of_checkbox a))
      else None)"

text \<open>The type of the next round, when there is one.\<close>

definition next_type :: "str_text \<Rightarrow> str_text \<Rightarrow> (captcha_error, str_text) res \<Rightarrow> str_text option" where
  "next_type show_type slider_settings result =
     (case result of
        Inl (Fail BotDetected) \<Rightarrow>
          if show_type \<noteq> lit ''slider'' \<and> slider_settings \<noteq> [] then Some (lit ''slider'') else None
      | Inl (Fail (TypeMismatch m)) \<Rightarrow> if m \<noteq> [] then Some m else None
      | _ \<Rightarrow> None)"

partial_function (option) solve_rounds ::
  "(json \<Rightarrow> str_text) \<Rightarrow> (str_text \<Rightarrow> image option) \<Rightarrow> (nat list \<Rightarrow> 'f :: linorder) \<Rightarrow> 'f \<Rightarrow> (nat \<Rightarrow> round_answers) \<Rightarrow>
     str_text \<Rightarrow> nat \<Rightarrow> str_text \<Rightarrow> (captcha_error, str_text) res option" where
  "solve_rounds render decode text_score zero rounds slider_settings k show_type =
     (case round_result render decode text_score zero (rounds k) show_type of
        None \<Rightarrow> Some (Inl (Fail (UnsupportedType show_type)))
      | Some result \<Rightarrow>
          (case next_type show_type slider_settings result of
             Some t \<Rightarrow> solve_rounds render decode text_score zero rounds slider_settings (k + 1) t
           | None \<Rightarrow> Some result))"

section \<open>An attempt\<close>

definition content_settings :: "json \<Rightarrow> json list" where
  "content_settings v =
     (case Option.bind (Option.bind (json_get (lit ''response'') v) (json_get (lit ''content_settings''))) as_array of
        Some l \<Rightarrow> l | None \<Rightarrow> [])"

definition setting_value :: "(json \<Rightarrow> str_text) \<Rightarrow> json \<Rightarrow> str_text" where
  "setting_value render setting =
     (let s = string_value render (json_get (lit ''settings'') setting)
      in if s = [] then string_value render (json_get (lit ''settings_key'') setting) else s)"

definition has_kind :: "(json \<Rightarrow> str_text) \<Rightarrow> str_text \<Rightarrow> json \<Rightarrow> bool" where
  "has_kind render kind setting = (string_value render (json_get (lit ''type'') setting) = kind)"

definition take_pow_setting :: "(json \<Rightarrow> str_text) \<Rightarrow> json \<Rightarrow> str_text \<times> nat \<Rightarrow> str_text \<times> nat" where
  "take_pow_setting render setting found =
     (if has_kind render (lit ''pow'') setting then
        (let inp = setting_value render setting
         in (inp, if inp \<noteq> [] \<and> snd found = 0 then 4 else snd found))
      else found)"

text \<open>The service is asked for the settings when the page had none; a failure of the request leaves none.\<close>

definition pow_settings :: "(json \<Rightarrow> str_text) \<Rightarrow> captcha_page \<Rightarrow> json option \<Rightarrow> str_text \<times> nat" where
  "pow_settings render page answer =
     (if pow_input page \<noteq> [] then (pow_input page, pow_difficulty page)
      else case answer of
        None \<Rightarrow> (pow_input page, pow_difficulty page)
      | Some v \<Rightarrow> fold (take_pow_setting render) (content_settings v) (pow_input page, pow_difficulty page))"

definition take_slider_setting :: "(json \<Rightarrow> str_text) \<Rightarrow> json \<Rightarrow> str_text \<Rightarrow> str_text" where
  "take_slider_setting render setting found =
     (if has_kind render (lit ''slider'') setting then setting_value render setting else found)"

definition type_settings ::
  "(json \<Rightarrow> str_text) \<Rightarrow> captcha_page \<Rightarrow> json option \<Rightarrow> str_text \<times> str_text" where
  "type_settings render page answer =
     (let (show_type, slider) = initial_captcha_state (page_init page) in
      if show_type \<noteq> [] then (show_type, slider)
      else case answer of
        None \<Rightarrow> (show_type, slider)
      | Some v \<Rightarrow>
          (case json_get (lit ''response'') v of
             None \<Rightarrow> (show_type, slider)
           | Some r \<Rightarrow> (string_value render (json_get (lit ''show_captcha_type'') r),
                        fold (take_slider_setting render) (content_settings v) slider)))"

definition of_pow :: "(pow_error, 'a) res \<Rightarrow> (captcha_error, 'a) res" where
  "of_pow r = (case r of Inr x \<Rightarrow> Inr x | Inl Panic \<Rightarrow> Inl Panic | Inl (Fail _) \<Rightarrow> Inl (Fail PowUnsolved))"

text \<open>
  The answers of the service to one attempt. The first \<^verbatim>\<open>initSession\<close> is asked for the proof of work, the
  second for the type. The address of the script and the debug information only go into log lines
  and requests.
\<close>

record attempt_answers =
  only_print :: bool
  page_html :: "str_text option"
  page_found :: page_matches
  pow_session :: "json option"
  pow_cancelled :: "nat \<Rightarrow> bool"
  settings_accepted :: bool
  type_session :: "json option"
  round_answer :: "nat \<Rightarrow> round_answers"

definition prepare_attempt ::
  "(json \<Rightarrow> str_text) \<Rightarrow> (str_text \<Rightarrow> captcha_init option) \<Rightarrow> (bytes \<Rightarrow> bytes) \<Rightarrow> attempt_answers \<Rightarrow>
     (captcha_error, str_text \<times> str_text) res" where
  "prepare_attempt render parse_init sha a =
     and_then (ensure (\<not> only_print a) AttemptFailed) (\<lambda>_.
     and_then (ok_or (page_html a) RequestRefused) (\<lambda>html.
     and_then (parse_page parse_init (page_found a) html) (\<lambda>page.
     let (inp, difficulty) = pow_settings render page (pow_session a) in
     and_then (ensure (inp \<noteq> []) NoPowSettings) (\<lambda>_.
     and_then (of_pow (solve_pow sha (utf8_encode inp) difficulty (pow_cancelled a))) (\<lambda>hash.
     and_then (ensure (settings_accepted a) RequestRefused) (\<lambda>_.
     Inr (type_settings render page (type_session a))))))))"

definition solve_once ::
  "(json \<Rightarrow> str_text) \<Rightarrow> (str_text \<Rightarrow> captcha_init option) \<Rightarrow> (str_text \<Rightarrow> image option) \<Rightarrow> (bytes \<Rightarrow> bytes) \<Rightarrow>
     (nat list \<Rightarrow> 'f :: linorder) \<Rightarrow> 'f \<Rightarrow> attempt_answers \<Rightarrow> (captcha_error, str_text) res option" where
  "solve_once render parse_init decode sha text_score zero a =
     (case prepare_attempt render parse_init sha a of
        Inl e \<Rightarrow> Some (Inl e)
      | Inr (show_type, slider_settings) \<Rightarrow>
          solve_rounds render decode text_score zero (round_answer a) slider_settings 0 show_type)"

section \<open>Properties\<close>

text \<open>No answer of the slider asks for another type, and its token is one the service gave with the status \<^verbatim>\<open>ok\<close>.\<close>

lemma slider_attempts_result:
  "case slider_attempts render answer gs k of
     Inr t \<Rightarrow> t \<noteq> [] | Inl Panic \<Rightarrow> False
   | Inl (Fail e) \<Rightarrow> e \<in> {RequestRefused, InvalidCheck, StatusMissing, NoSuccessToken, RateLimited, GuessesExhausted}"
proof (induction gs arbitrary: k)
  case (Cons g gs)
  show ?case
  proof (cases "read_check render (answer k)")
    case (Inl e)
    then show ?thesis using read_check_errors [OF Inl] by auto
  next
    case (Inr c)
    then show ?thesis using Cons [of "k + 1"] by simp
  qed
qed simp

definition stays :: "(captcha_error, str_text) res \<Rightarrow> bool" where
  "stays r = (case r of Inr t \<Rightarrow> t \<noteq> [] | Inl Panic \<Rightarrow> True
     | Inl (Fail e) \<Rightarrow> e \<noteq> BotDetected \<and> (\<forall>m. e \<noteq> TypeMismatch m))"

lemma stays_simps [simp]:
  "stays (Inr t) = (t \<noteq> [])" "stays (Inl Panic)" "stays (Inl (Fail e)) = (e \<noteq> BotDetected \<and> (\<forall>m. e \<noteq> TypeMismatch m))"
  by (simp_all add: stays_def)

text \<open>Errors of a step that are none of the two pass through.\<close>

definition plain :: "(captcha_error, 'a) res \<Rightarrow> bool" where
  "plain r = (case r of Inl (Fail e) \<Rightarrow> e \<noteq> BotDetected \<and> (\<forall>m. e \<noteq> TypeMismatch m) | _ \<Rightarrow> True)"

lemma plain_Inr [simp]: "plain (Inr x)" by (simp add: plain_def)
lemma plain_Fail [simp]: "plain (Inl (Fail e)) = (e \<noteq> BotDetected \<and> (\<forall>m. e \<noteq> TypeMismatch m))" by (simp add: plain_def)

lemma plain_ensure [simp]: "plain (Inl (Fail e) :: (captcha_error, unit) res) \<Longrightarrow> plain (ensure b e)"
  by (cases b) simp_all

lemma plain_ok_or [simp]: "plain (Inl (Fail e) :: (captcha_error, unit) res) \<Longrightarrow> plain (ok_or x e)"
  by (cases x) simp_all

lemma plain_and_then: "plain r \<Longrightarrow> (\<And>x. r = Inr x \<Longrightarrow> plain (f x)) \<Longrightarrow> plain (and_then r f)"
  by (cases r) (auto simp: plain_def split: fault.splits)

lemma stays_and_then: "plain r \<Longrightarrow> (\<And>x. r = Inr x \<Longrightarrow> stays (f x)) \<Longrightarrow> stays (and_then r f)"
  by (cases r) (auto simp: plain_def stays_def split: fault.splits)

lemma plain_of_puzzle [simp]: "plain (of_puzzle r)"
  by (auto simp: plain_def of_puzzle_def split: sum.splits fault.splits)

lemma plain_parse_number [simp]: "plain (parse_number v)"
  by (simp add: parse_number_def split: json.split)

lemma plain_each_res: "(\<And>x. plain (f x)) \<Longrightarrow> plain (each_res f xs)"
  by (induction xs) (auto intro!: plain_and_then)

lemma plain_parse_puzzle: "plain (parse_puzzle render decode v)"
proof -
  have "plain (puzzle_of render decode w)" for w
    unfolding puzzle_of_def Let_def
    by (intro plain_and_then; simp add: plain_each_res split: prod.split) (intro allI impI plain_and_then; simp)
  then show ?thesis by (simp add: parse_puzzle_def split: option.split json.split)
qed

lemma solve_slider_stays: "stays (solve_slider render decode text_score zero a)"
proof -
  have attempts: "stays (slider_attempts render answer gs k)" for answer gs k
    using slider_attempts_result [of render answer gs k] by (auto simp: stays_def split: sum.splits fault.splits)
  show ?thesis
    unfolding solve_slider_def Let_def
    by (intro stays_and_then plain_parse_puzzle; simp add: attempts)
qed

lemma next_type_stays: "stays r \<Longrightarrow> next_type t s r = None"
  by (auto simp: next_type_def stays_def split: sum.splits fault.splits captcha_error.splits)

text \<open>
  An attempt always ends, in at most two rounds: what the checkbox asks for is the slider, which asks
  for nothing, or a type that ends it.
\<close>

lemma rounds_slider:
  "solve_rounds render decode text_score zero rounds settings k (lit ''slider'')
   = Some (solve_slider render decode text_score zero (of_slider (rounds k)))"
  by (subst solve_rounds.simps) (simp add: round_result_def next_type_stays solve_slider_stays)

lemma rounds_unsupported:
  "t \<noteq> lit ''slider'' \<Longrightarrow> t \<noteq> lit ''checkbox'' \<Longrightarrow> t \<noteq> [] \<Longrightarrow>
   solve_rounds render decode text_score zero rounds settings k t = Some (Inl (Fail (UnsupportedType t)))"
  by (subst solve_rounds.simps) (simp add: round_result_def)

lemma rounds_checkbox:
  assumes "t = lit ''checkbox'' \<or> t = []"
  shows "solve_rounds render decode text_score zero rounds settings k t
    = (let r = solve_checkbox render (of_checkbox (rounds k)) in
       case next_type t settings r of
         Some t' \<Rightarrow> solve_rounds render decode text_score zero rounds settings (k + 1) t' | None \<Rightarrow> Some r)"
proof -
  have "t \<noteq> lit ''slider''" using assms by (auto simp: lit_def)
  then show ?thesis using assms by (subst solve_rounds.simps) (simp add: round_result_def Let_def)
qed

lemma solve_checkbox_token: "solve_checkbox render a = Inr t \<Longrightarrow> t \<noteq> []"
  using checkbox_token by (auto simp: solve_checkbox_def and_then_Inr_conv split: if_splits)

lemma rounds_end:
  "\<exists>r. solve_rounds render decode text_score zero rounds settings k t = Some r \<and> (\<forall>x. r = Inr x \<longrightarrow> x \<noteq> [])"
proof -
  have other: "\<exists>r. solve_rounds render decode text_score zero rounds settings k t = Some r \<and> (\<forall>x. r = Inr x \<longrightarrow> x \<noteq> [])"
    if "\<not> (t = lit ''checkbox'' \<or> t = [])" for k t
  proof (cases "t = lit ''slider''")
    case True
    have "stays (solve_slider render decode text_score zero (of_slider (rounds k)))" by (rule solve_slider_stays)
    then show ?thesis using True rounds_slider by (metis stays_simps(1))
  next
    case False
    then show ?thesis using that rounds_unsupported by blast
  qed
  show ?thesis
  proof (cases "t = lit ''checkbox'' \<or> t = []")
    case True
    let ?r = "solve_checkbox render (of_checkbox (rounds k))"
    show ?thesis
    proof (cases "next_type t settings ?r")
      case None
      then have "solve_rounds render decode text_score zero rounds settings k t = Some ?r"
        using rounds_checkbox [OF True, of render decode text_score zero rounds settings k] by (simp add: Let_def)
      then show ?thesis using solve_checkbox_token by blast
    next
      case (Some t')
      have "t' = lit ''slider'' \<or> ?r = Inl (Fail (TypeMismatch t')) \<and> t' \<noteq> []"
        using Some by (auto simp: next_type_def split: sum.splits fault.splits captcha_error.splits if_splits)
      moreover have "eq_ignore_case (lit ''checkbox'') (lit ''checkbox'')" by (simp add: eq_ignore_case_def)
      moreover have "lit ''slider'' \<noteq> lit ''checkbox''" "lit ''slider'' \<noteq> []" by (simp_all add: lit_def)
      ultimately have "\<not> (t' = lit ''checkbox'' \<or> t' = [])" using solve_checkbox_mismatch [of render "of_checkbox (rounds k)" t'] by metis
      from other [OF this] show ?thesis using rounds_checkbox [OF True, of render decode text_score zero rounds settings k] Some by (simp add: Let_def)
    qed
  qed (rule other)
qed

theorem captcha_attempt_ends:
  "\<exists>r. solve_once render parse_init decode sha text_score zero a = Some r \<and> (\<forall>t. r = Inr t \<longrightarrow> t \<noteq> [])"
  using rounds_end by (auto simp: solve_once_def split: sum.split)

end
