(* ===== verification/BrowserProfiles.thy ===== *)
theory BrowserProfiles
  imports Strings
begin

text \<open>
  The browser a request pretends to come from, \<^verbatim>\<open>backend/profiles.rs\<close>, and the name a caller gives,
  \<^verbatim>\<open>backend/namegen.rs\<close>. Browsers and systems are constants of the HTTP library; what the random
  generator draws is an input.
\<close>

section \<open>Profiles\<close>

datatype browser = ChromeV nat | FirefoxV nat | SafariV nat nat | EdgeV nat | OperaV nat

datatype browser_os = OsAndroid | OsWindows | OsMac | OsLinux | OsIos

type_synonym weighted_profile = "browser \<times> browser_os \<times> nat"

definition weighted_browser_pool ::
  "(browser \<times> nat) list \<Rightarrow> (browser_os \<times> nat) list \<Rightarrow> weighted_profile list" where
  "weighted_browser_pool versions systems =
     concat (map (\<lambda>(v, vw). map (\<lambda>(os, ow). (v, os, vw * ow)) systems) versions)"

definition desktop_and_phone :: "(browser_os \<times> nat) list" where
  "desktop_and_phone = [(OsAndroid, 55), (OsWindows, 20), (OsMac, 10), (OsLinux, 10), (OsIos, 5)]"

definition mostly_phone :: "(browser_os \<times> nat) list" where
  "mostly_phone = [(OsAndroid, 60), (OsWindows, 20), (OsMac, 8), (OsLinux, 7), (OsIos, 5)]"

definition chrome_pool :: "weighted_profile list" where
  "chrome_pool = weighted_browser_pool
     [(ChromeV 148, 35), (ChromeV 147, 25), (ChromeV 146, 18), (ChromeV 145, 12), (ChromeV 144, 10)]
     desktop_and_phone"

definition firefox_pool :: "weighted_profile list" where
  "firefox_pool = weighted_browser_pool
     [(FirefoxV 148, 40), (FirefoxV 147, 28), (FirefoxV 146, 20), (FirefoxV 140, 12)] desktop_and_phone"

definition safari_pool :: "weighted_profile list" where
  "safari_pool = weighted_browser_pool
     [(SafariV 26 3, 40), (SafariV 26 0, 35), (SafariV 18 5, 25)] [(OsIos, 70), (OsMac, 30)]"

definition edge_pool :: "weighted_profile list" where
  "edge_pool = weighted_browser_pool
     [(EdgeV 148, 35), (EdgeV 147, 25), (EdgeV 146, 18), (EdgeV 145, 12), (EdgeV 144, 10)] mostly_phone"

definition opera_pool :: "weighted_profile list" where
  "opera_pool = weighted_browser_pool
     [(OperaV 131, 30), (OperaV 130, 24), (OperaV 129, 18), (OperaV 128, 13), (OperaV 127, 9), (OperaV 126, 6)]
     mostly_phone"

definition pool_weight :: "weighted_profile list \<Rightarrow> nat" where
  "pool_weight pool = sum_list (map (\<lambda>(_, _, w). w) pool)"

fun pick_loop :: "weighted_profile list \<Rightarrow> nat \<Rightarrow> (browser \<times> browser_os) option" where
  "pick_loop [] roll = None"
| "pick_loop ((b, os, w) # rest) roll = (if roll < w then Some (b, os) else pick_loop rest (roll - w))"

text \<open>The draw is uniform below the sum of the weights; an empty range panics.\<close>

definition pick_weighted :: "weighted_profile list \<Rightarrow> nat \<Rightarrow> (unit, browser \<times> browser_os) res" where
  "pick_weighted pool draw =
     (if pool_weight pool = 0 then Inl Panic
      else case pick_loop pool (draw mod pool_weight pool) of
        Some p \<Rightarrow> Inr p
      | None \<Rightarrow> if pool = [] then Inl Panic else Inr (fst (last pool), fst (snd (last pool))))"

definition pool_of :: "str_text \<Rightarrow> weighted_profile list" where
  "pool_of fingerprint =
     (if fingerprint = lit ''safari'' then safari_pool
      else if fingerprint = lit ''firefox'' then firefox_pool
      else if fingerprint = lit ''edge'' then edge_pool
      else if fingerprint = lit ''opera'' then opera_pool
      else chrome_pool)"

definition random_profile :: "str_text \<Rightarrow> nat \<Rightarrow> (unit, browser \<times> browser_os) res" where
  "random_profile fingerprint draw = pick_weighted (pool_of fingerprint) draw"

section \<open>Names\<close>

text \<open>The code points of the names in Cyrillic.\<close>

definition MALE :: "str_text list" where
  "MALE =
    [[1040, 1083, 1077, 1082, 1089, 1072, 1085, 1076, 1088], [1040, 1083, 1077, 1082, 1089, 1077, 1081],
     [1040, 1085, 1076, 1088, 1077, 1081], [1040, 1085, 1090, 1086, 1085],
     [1040, 1088, 1089, 1077, 1085, 1080, 1081], [1040, 1088, 1090, 1091, 1088],
     [1040, 1088, 1090, 1105, 1084], [1041, 1086, 1075, 1076, 1072, 1085],
     [1042, 1072, 1083, 1077, 1088, 1080, 1081], [1042, 1072, 1089, 1080, 1083, 1080, 1081],
     [1042, 1080, 1082, 1090, 1086, 1088], [1042, 1083, 1072, 1076, 1080, 1089, 1083, 1072, 1074],
     [1043, 1083, 1077, 1073], [1043, 1088, 1080, 1075, 1086, 1088, 1080, 1081],
     [1044, 1072, 1085, 1080, 1080, 1083], [1044, 1077, 1085, 1080, 1089],
     [1044, 1084, 1080, 1090, 1088, 1080, 1081], [1045, 1074, 1075, 1077, 1085, 1080, 1081],
     [1045, 1075, 1086, 1088], [1048, 1074, 1072, 1085], [1048, 1075, 1086, 1088, 1100],
     [1048, 1083, 1100, 1103], [1050, 1080, 1088, 1080, 1083, 1083], [1051, 1077, 1086, 1085, 1080, 1076],
     [1052, 1072, 1082, 1089, 1080, 1084], [1052, 1072, 1088, 1082], [1052, 1072, 1090, 1074, 1077, 1081],
     [1052, 1080, 1093, 1072, 1080, 1083], [1053, 1080, 1082, 1080, 1090, 1072],
     [1053, 1080, 1082, 1086, 1083, 1072, 1081], [1054, 1083, 1077, 1075], [1055, 1072, 1074, 1077, 1083],
     [1055, 1105, 1090, 1088], [1056, 1086, 1084, 1072, 1085], [1056, 1091, 1089, 1083, 1072, 1085],
     [1057, 1077, 1088, 1075, 1077, 1081], [1057, 1090, 1072, 1085, 1080, 1089, 1083, 1072, 1074],
     [1058, 1080, 1084, 1086, 1092, 1077, 1081], [1060, 1105, 1076, 1086, 1088]]"

definition FEMALE :: "str_text list" where
  "FEMALE =
    [[1040, 1083, 1080, 1085, 1072], [1040, 1083, 1105, 1085, 1072],
     [1040, 1085, 1072, 1089, 1090, 1072, 1089, 1080, 1103],
     [1040, 1085, 1075, 1077, 1083, 1080, 1085, 1072], [1040, 1085, 1085, 1072], [1042, 1077, 1088, 1072],
     [1042, 1077, 1088, 1086, 1085, 1080, 1082, 1072], [1042, 1080, 1082, 1090, 1086, 1088, 1080, 1103],
     [1044, 1072, 1088, 1100, 1103], [1045, 1074, 1072],
     [1045, 1082, 1072, 1090, 1077, 1088, 1080, 1085, 1072], [1045, 1083, 1077, 1085, 1072],
     [1045, 1083, 1080, 1079, 1072, 1074, 1077, 1090, 1072], [1048, 1088, 1080, 1085, 1072],
     [1050, 1080, 1088, 1072], [1050, 1088, 1080, 1089, 1090, 1080, 1085, 1072],
     [1050, 1089, 1077, 1085, 1080, 1103], [1051, 1102, 1073, 1086, 1074, 1100],
     [1052, 1072, 1088, 1075, 1072, 1088, 1080, 1090, 1072], [1052, 1072, 1088, 1080, 1085, 1072],
     [1052, 1072, 1088, 1080, 1103], [1052, 1080, 1083, 1072, 1085, 1072],
     [1053, 1072, 1076, 1077, 1078, 1076, 1072], [1053, 1072, 1090, 1072, 1083, 1100, 1103],
     [1054, 1083, 1100, 1075, 1072], [1055, 1086, 1083, 1080, 1085, 1072],
     [1057, 1074, 1077, 1090, 1083, 1072, 1085, 1072], [1057, 1086, 1092, 1080, 1103],
     [1058, 1072, 1090, 1100, 1103, 1085, 1072], [1070, 1083, 1080, 1103], [1071, 1085, 1072]]"

definition LAST :: "str_text list" where
  "LAST =
    [[1040, 1083, 1077, 1082, 1089, 1077, 1077, 1074], [1040, 1085, 1076, 1088, 1077, 1077, 1074],
     [1040, 1085, 1090, 1086, 1085, 1086, 1074], [1041, 1072, 1088, 1072, 1085, 1086, 1074],
     [1041, 1077, 1083, 1086, 1074], [1041, 1077, 1083, 1099, 1081],
     [1041, 1077, 1083, 1100, 1089, 1082, 1080, 1081], [1041, 1077, 1083, 1103, 1077, 1074],
     [1041, 1086, 1088, 1080, 1089, 1086, 1074], [1042, 1072, 1089, 1080, 1083, 1100, 1077, 1074],
     [1042, 1077, 1083, 1080, 1082, 1080, 1081], [1042, 1086, 1083, 1082, 1086, 1074],
     [1042, 1086, 1088, 1086, 1073, 1100, 1105, 1074],
     [1043, 1088, 1080, 1075, 1086, 1088, 1100, 1077, 1074], [1044, 1072, 1074, 1099, 1076, 1086, 1074],
     [1045, 1075, 1086, 1088, 1086, 1074], [1046, 1091, 1082, 1086, 1074],
     [1047, 1072, 1081, 1094, 1077, 1074], [1047, 1072, 1093, 1072, 1088, 1086, 1074],
     [1048, 1074, 1072, 1085, 1086, 1074], [1050, 1072, 1083, 1080, 1085, 1080, 1085],
     [1050, 1086, 1074, 1072, 1083, 1105, 1074], [1050, 1086, 1079, 1083, 1086, 1074],
     [1050, 1086, 1084, 1072, 1088, 1086, 1074], [1050, 1088, 1072, 1084, 1089, 1082, 1086, 1081],
     [1050, 1091, 1079, 1085, 1077, 1094, 1086, 1074], [1050, 1091, 1079, 1100, 1084, 1080, 1085],
     [1051, 1077, 1073, 1077, 1076, 1077, 1074], [1052, 1072, 1082, 1072, 1088, 1086, 1074],
     [1052, 1077, 1076, 1074, 1077, 1076, 1077, 1074], [1052, 1080, 1093, 1072, 1081, 1083, 1086, 1074],
     [1052, 1086, 1088, 1086, 1079, 1086, 1074], [1053, 1080, 1082, 1080, 1090, 1080, 1085],
     [1053, 1080, 1082, 1086, 1083, 1072, 1077, 1074], [1053, 1086, 1074, 1080, 1082, 1086, 1074],
     [1054, 1088, 1083, 1086, 1074], [1054, 1089, 1090, 1088, 1086, 1074, 1089, 1082, 1080, 1081],
     [1055, 1072, 1074, 1083, 1086, 1074], [1055, 1077, 1090, 1088, 1086, 1074],
     [1055, 1086, 1082, 1088, 1086, 1074, 1089, 1082, 1080, 1081], [1055, 1086, 1087, 1086, 1074],
     [1056, 1072, 1077, 1074, 1089, 1082, 1080, 1081], [1056, 1086, 1084, 1072, 1085, 1086, 1074],
     [1057, 1077, 1084, 1105, 1085, 1086, 1074], [1057, 1077, 1088, 1075, 1077, 1077, 1074],
     [1057, 1084, 1080, 1088, 1085, 1086, 1074], [1057, 1086, 1082, 1086, 1083, 1086, 1074],
     [1057, 1086, 1083, 1086, 1074, 1100, 1105, 1074], [1057, 1090, 1077, 1087, 1072, 1085, 1086, 1074],
     [1058, 1072, 1088, 1072, 1089, 1086, 1074], [1058, 1080, 1090, 1086, 1074],
     [1058, 1086, 1083, 1089, 1090, 1086, 1081], [1058, 1088, 1091, 1073, 1077, 1094, 1082, 1086, 1081],
     [1060, 1080, 1083, 1080, 1087, 1087, 1086, 1074], [1060, 1088, 1086, 1083, 1086, 1074],
     [1060, 1105, 1076, 1086, 1088, 1086, 1074],
     [1063, 1072, 1081, 1082, 1086, 1074, 1089, 1082, 1080, 1081], [1063, 1077, 1088, 1085, 1099, 1081],
     [1071, 1082, 1086, 1074, 1083, 1077, 1074]]"

definition strip_suffix :: "str_text \<Rightarrow> str_text \<Rightarrow> str_text option" where
  "strip_suffix s suffix = map_option rev (strip_prefix (rev s) (rev suffix))"

definition adjective_endings :: "str_text list" where
  "adjective_endings = [[1080, 1081], [1099, 1081], [1086, 1081]]"

definition noun_endings :: "str_text list" where
  "noun_endings = [[1086, 1074], [1077, 1074], [1080, 1085], [1099, 1085], [1105, 1074]]"

fun first_stem :: "str_text \<Rightarrow> str_text list \<Rightarrow> str_text option" where
  "first_stem s [] = None"
| "first_stem s (e # es) = (case strip_suffix s e of Some stem \<Rightarrow> Some stem | None \<Rightarrow> first_stem s es)"

definition female_surname :: "str_text \<Rightarrow> str_text" where
  "female_surname s =
     (case first_stem s adjective_endings of
        Some stem \<Rightarrow> stem @ [1072, 1103]
      | None \<Rightarrow> if list_ex (\<lambda>e. strip_suffix s e \<noteq> None) noun_endings then s @ [1072] else s)"

record name_draws =
  draw_female :: bool
  draw_first :: nat
  draw_single :: bool
  draw_last :: nat

definition pick_name :: "str_text list \<Rightarrow> nat \<Rightarrow> str_text" where
  "pick_name names draw = names ! (draw mod length names)"

definition generate_name :: "name_draws \<Rightarrow> str_text" where
  "generate_name d =
     (let first = pick_name (if draw_female d then FEMALE else MALE) (draw_first d) in
      if draw_single d then first
      else
        let surname = pick_name LAST (draw_last d)
        in first @ 32 # (if draw_female d then female_surname surname else surname))"

section \<open>Properties\<close>

text \<open>
  An entry is drawn for exactly as many rolls as its weight, those between the sums of the weights
  before it and with it; no roll is left over for the fallback, and no fingerprint panics.
\<close>

lemma pool_weight_simps [simp]:
  "pool_weight [] = 0" "pool_weight (e # rest) = snd (snd e) + pool_weight rest"
  by (simp_all add: pool_weight_def split_beta)

lemma pick_loop_at:
  "i < length pool \<Longrightarrow> pool_weight (take i pool) \<le> roll \<Longrightarrow> roll < pool_weight (take (Suc i) pool) \<Longrightarrow>
   pick_loop pool roll = Some (fst (pool ! i), fst (snd (pool ! i)))"
proof (induction pool arbitrary: i roll)
  case (Cons e rest)
  obtain b os w where e: "e = (b, os, w)" by (cases e)
  show ?case
  proof (cases i)
    case 0
    then show ?thesis using Cons.prems e by simp
  next
    case (Suc j)
    have "pick_loop rest (roll - w) = Some (fst (rest ! j), fst (snd (rest ! j)))"
      using Cons.prems Suc e by (intro Cons.IH) auto
    then show ?thesis using Cons.prems Suc e by simp
  qed
qed simp

lemma pick_loop_total: "roll < pool_weight pool \<Longrightarrow> pick_loop pool roll \<noteq> None"
  by (induction pool roll rule: pick_loop.induct) auto

lemma pools_weigh:
  "pool_weight chrome_pool = 10000 \<and> pool_weight firefox_pool = 10000 \<and> pool_weight safari_pool = 10000
   \<and> pool_weight edge_pool = 10000 \<and> pool_weight opera_pool = 10000"
  by (simp add: chrome_pool_def firefox_pool_def safari_pool_def edge_pool_def opera_pool_def
      weighted_browser_pool_def desktop_and_phone_def mostly_phone_def)

theorem random_profile_exact:
  "random_profile fingerprint draw \<noteq> Inl Panic
   \<and> (\<forall>i < length (pool_of fingerprint).
        pool_weight (take i (pool_of fingerprint)) \<le> draw mod 10000
        \<and> draw mod 10000 < pool_weight (take (Suc i) (pool_of fingerprint)) \<longrightarrow>
        random_profile fingerprint draw
          = Inr (fst (pool_of fingerprint ! i), fst (snd (pool_of fingerprint ! i))))"
proof -
  have w: "pool_weight (pool_of fingerprint) = 10000" using pools_weigh by (simp add: pool_of_def)
  have "pick_loop (pool_of fingerprint) (draw mod 10000) \<noteq> None" by (rule pick_loop_total) (simp add: w)
  then show ?thesis using w pick_loop_at [of _ "pool_of fingerprint" "draw mod 10000"]
    by (auto simp: random_profile_def pick_weighted_def split: option.splits)
qed

text \<open>Apple's browser is never claimed to run on another system.\<close>

lemma safari_on_apple: "\<forall>(b, os, w) \<in> set safari_pool. os = OsIos \<or> os = OsMac"
  by (simp add: safari_pool_def weighted_browser_pool_def)

text \<open>Every surname of the table has a feminine form that differs and ends as one.\<close>

theorem female_surnames:
  "list_all (\<lambda>s. female_surname s \<noteq> s \<and> last (female_surname s) \<in> {1072, 1103}) LAST"
  by (simp add: LAST_def female_surname_def adjective_endings_def noun_endings_def strip_suffix_def
      strip_prefix_def starts_with_def)

lemma generate_name_nonempty: "generate_name d \<noteq> []"
proof -
  have "[] \<notin> set MALE" "[] \<notin> set FEMALE" "MALE \<noteq> []" "FEMALE \<noteq> []" by (simp_all add: MALE_def FEMALE_def)
  then have "pick_name (if draw_female d then FEMALE else MALE) (draw_first d) \<noteq> []"
    by (metis length_greater_0_conv mod_less_divisor nth_mem pick_name_def)
  then show ?thesis by (simp add: generate_name_def Let_def)
qed

end
