(* ===== verification/LegacyAuth.thy ===== *)
theory LegacyAuth
  imports Captcha
begin

text \<open>
  The two longer conversations with the service: the legacy login of \<^verbatim>\<open>backend/auth.rs\<close> with its captchas,
  and the call of an account that \<^verbatim>\<open>backend/vk_js_calls.rs\<close> starts and ends. Requests go into a log; the
  answer to a request is given by its place in it.
\<close>

section \<open>The legacy login\<close>

text \<open>A request: where it goes and the form it carries.\<close>

type_synonym form_request = "str_text \<times> str_text"

record legacy_env =
  le_answer :: "nat \<Rightarrow> (auth_error, json) res"
  le_solve :: "nat \<Rightarrow> captcha_task \<Rightarrow> (captcha_error, str_text) res"
  le_render :: "json \<Rightarrow> str_text"
  le_query :: "str_text \<Rightarrow> (str_text \<times> str_text) list option"

definition ask :: "legacy_env \<Rightarrow> form_request \<Rightarrow> form_request list \<Rightarrow> form_request list \<times> (auth_error, json) res" where
  "ask env r log = (log @ [r], le_answer env (length log))"

definition LOGIN_URL :: str_text where "LOGIN_URL = lit ''https://login.vk.ru/?act=get_anonym_token''"
definition OK_URL :: str_text where "OK_URL = lit ''https://calls.okcdn.ru/fb.do''"

definition preview_url :: "str_text \<Rightarrow> str_text" where
  "preview_url client_id = lit ''https://api.vk.ru/method/calls.getCallPreview?v=5.275&client_id='' @ client_id"

definition anonymous_url :: "str_text \<Rightarrow> str_text" where
  "anonymous_url client_id = lit ''https://api.vk.ru/method/calls.getAnonymousToken?v=5.275&client_id='' @ client_id"

definition token_form :: "str_text \<times> str_text \<Rightarrow> str_text" where
  "token_form credential =
     lit ''client_id='' @ fst credential @ lit ''&token_type=messages&client_secret='' @ snd credential
     @ lit ''&version=1&app_id='' @ fst credential"

definition join_link :: "str_text \<Rightarrow> str_text" where
  "join_link link = lit ''vk_join_link=https://vk.com/call/join/'' @ link"

definition preview_form :: "str_text \<Rightarrow> str_text \<Rightarrow> str_text" where
  "preview_form link token = join_link link @ lit ''&fields=photo_200&access_token='' @ token"

definition anonymous_form :: "str_text \<Rightarrow> str_text \<Rightarrow> str_text \<Rightarrow> str_text" where
  "anonymous_form link name token =
     join_link link @ lit ''&name='' @ query_escape name @ lit ''&access_token='' @ token"

definition attempt_number :: "str_text \<Rightarrow> str_text" where
  "attempt_number a = (if a = [] \<or> a = lit ''0'' then lit ''1'' else a)"

definition solved_form :: "str_text \<Rightarrow> str_text \<Rightarrow> str_text \<Rightarrow> vk_captcha_error \<Rightarrow> str_text \<Rightarrow> str_text" where
  "solved_form link name token c success =
     join_link link @ lit ''&name='' @ query_escape name @ lit ''&captcha_key=&captcha_sid='' @ captcha_sid c
     @ lit ''&is_sound_captcha=0&success_token='' @ query_escape success @ lit ''&captcha_ts='' @ captcha_timestamp c
     @ lit ''&captcha_attempt='' @ attempt_number (captcha_attempt c) @ lit ''&access_token='' @ token"

text \<open>A string of the session's JSON.\<close>

definition in_quotes :: "str_text \<Rightarrow> str_text" where "in_quotes t = 34 # t @ [34]"

definition session_data :: "str_text \<Rightarrow> str_text" where
  "session_data device =
     123 # in_quotes (lit ''version'') @ lit '':2,'' @ in_quotes (lit ''device_id'') @ 58 # in_quotes device @ 44
     # in_quotes (lit ''client_version'') @ lit '':1.1,'' @ in_quotes (lit ''client_type'') @ 58 # in_quotes (lit ''SDK_JS'') @ [125]"

definition login_form :: "str_text \<Rightarrow> str_text" where
  "login_form device =
     lit ''session_data='' @ query_escape (session_data device)
     @ lit ''&method=auth.anonymLogin&format=JSON&application_key=CGMMEJLGDIHBABABA''"

definition join_form :: "str_text \<Rightarrow> str_text \<Rightarrow> str_text \<Rightarrow> str_text" where
  "join_form link token key =
     lit ''joinLink='' @ link @ lit ''&isVideo=false&protocolVersion=5&capabilities=2F7F&anonymToken='' @ token
     @ lit ''&method=vchat.joinConversationByLink&format=JSON&application_key=CGMMEJLGDIHBABABA&session_key='' @ key"

text \<open>What is done about an error in the answer: give up, or send the form with a solved captcha.\<close>

definition answer_captcha ::
  "legacy_env \<Rightarrow> str_text \<Rightarrow> str_text \<Rightarrow> str_text \<Rightarrow> nat \<Rightarrow> json \<Rightarrow> json \<Rightarrow> (auth_error, str_text) res" where
  "answer_captcha env link name token k response e =
     and_then (check_fatal_call response) (\<lambda>_.
     case captcha_from_json (le_render env) (le_query env) e of
       Inl _ \<Rightarrow> Inl (Fail (RequestFailed (lit ''invalid VK captcha response'')))
     | Inr c \<Rightarrow>
         if captcha_redirect c = [] \<or> captcha_session c = [] then Inl (Fail (RequestFailed (lit ''VK API error'')))
         else if 3 \<le> k then Inl (Fail (RequestFailed CAPTCHA_WAIT))
         else case le_solve env k (task_of c) of
           Inl _ \<Rightarrow> Inl (Fail (RequestFailed CAPTCHA_WAIT))
         | Inr success \<Rightarrow> Inr (solved_form link name token c success))"

lemma answer_captcha_limit: "answer_captcha env link name token k r e = Inr f \<Longrightarrow> k < 3"
  by (auto simp: answer_captcha_def and_then_Inr_conv Let_def split: sum.splits if_splits)

function token_loop ::
  "legacy_env \<Rightarrow> str_text \<Rightarrow> str_text \<Rightarrow> str_text \<Rightarrow> str_text \<Rightarrow> str_text \<Rightarrow> nat \<Rightarrow> form_request list \<Rightarrow>
     form_request list \<times> (auth_error, str_text) res" where
  "token_loop env url link name token form k log =
     (case ask env (url, form) log of
        (log1, Inl e) \<Rightarrow> (log1, Inl e)
      | (log1, Inr response) \<Rightarrow>
          (case json_get (lit ''error'') response of
             None \<Rightarrow> (log1, json_string response (path2 ''response'' ''token''))
           | Some e \<Rightarrow>
               (case answer_captcha env link name token k response e of
                  Inl err \<Rightarrow> (log1, Inl err)
                | Inr form1 \<Rightarrow> token_loop env url link name token form1 (k + 1) log1)))"
  by pat_completeness auto
termination
  by (relation "measure (\<lambda>(env, url, link, name, token, form, k, log). 3 - k)") (auto dest: answer_captcha_limit)

declare token_loop.simps [simp del]

definition legacy_path ::
  "legacy_env \<Rightarrow> str_text \<Rightarrow> str_text \<times> str_text \<Rightarrow> str_text \<Rightarrow> str_text \<Rightarrow> form_request list \<times> (auth_error, turn_credentials) res" where
  "legacy_path env link credential name device =
     (case ask env (LOGIN_URL, token_form credential) [] of
        (log1, r1) \<Rightarrow>
     (case and_then r1 (\<lambda>v. json_string v (path2 ''data'' ''access_token'')) of
        Inl e \<Rightarrow> (log1, Inl e)
      | Inr token1 \<Rightarrow>
     (case ask env (preview_url (fst credential), preview_form link token1) log1 of
        (log2, r2) \<Rightarrow>
     (case (case r2 of Inr v \<Rightarrow> check_fatal_call v | Inl _ \<Rightarrow> Inr ()) of
        Inl e \<Rightarrow> (log2, Inl e)
      | Inr _ \<Rightarrow>
     (case token_loop env (anonymous_url (fst credential)) link name token1 (anonymous_form link name token1) 0 log2 of
        (log3, Inl e) \<Rightarrow> (log3, Inl e)
      | (log3, Inr token2) \<Rightarrow>
     (case ask env (OK_URL, login_form device) log3 of
        (log4, r4) \<Rightarrow>
     (case and_then r4 (\<lambda>v. json_string v [lit ''session_key'']) of
        Inl e \<Rightarrow> (log4, Inl e)
      | Inr key \<Rightarrow>
     (case ask env (OK_URL, join_form link token2 key) log4 of
        (log5, r5) \<Rightarrow> (log5, and_then r5 parse_turn_credentials)))))))))"

text \<open>Every hash is checked, in its order.\<close>

definition check_vk_hashes ::
  "(str_text \<Rightarrow> (auth_error, hash_check) res list) \<Rightarrow> str_text list \<Rightarrow> (str_text \<times> hash_check) list" where
  "check_vk_hashes attempts hashes = map (\<lambda>h. (h, check_vk_hash (attempts h))) hashes"

lemma token_loop_requests:
  "k \<le> 3 \<Longrightarrow> length (fst (token_loop env url link name token form k log)) \<le> length log + (4 - k)
    \<and> take (length log) (fst (token_loop env url link name token form k log)) = log"
proof (induction env url link name token form k log rule: token_loop.induct)
  case (1 env url link name token form k log)
  have log1: "ask env (url, form) log = (log @ [(url, form)], le_answer env (length log))" by (simp add: ask_def)
  note step = token_loop.simps [of env url link name token form k log]
  show ?case
  proof (cases "le_answer env (length log)")
    case (Inl e)
    then show ?thesis using "1.prems" by (simp add: step log1)
  next
    case (Inr response)
    show ?thesis
    proof (cases "json_get (lit ''error'') response")
      case None
      then show ?thesis using Inr "1.prems" by (simp add: step log1)
    next
      case (Some e)
      show ?thesis
      proof (cases "answer_captcha env link name token k response e")
        case (Inl err)
        then show ?thesis using Inr Some "1.prems" by (simp add: step log1)
      next
        case form1: (Inr form1)
        let ?log = "log @ [(url, form)]"
        have k: "k < 3" by (rule answer_captcha_limit [OF form1])
        have "token_loop env url link name token form k log = token_loop env url link name token form1 (k + 1) ?log"
          using Inr Some form1 by (simp add: step log1)
        moreover have "length (fst (token_loop env url link name token form1 (k + 1) ?log)) \<le> length ?log + (4 - (k + 1))
            \<and> take (length ?log) (fst (token_loop env url link name token form1 (k + 1) ?log)) = ?log"
          using k Inr by (intro "1.IH" [OF log1 [symmetric] _ Some form1]) simp_all
        ultimately show ?thesis using k by (auto simp: take_Suc_conv_app_nth dest: arg_cong [of _ _ "take (length log)"])
      qed
    qed
  qed
qed

text \<open>
  A login takes at most eight requests, four of them for the token with at most three captchas between
  them, and ends, whatever the service answers.
\<close>

lemma ask_length [simp]: "ask env r log = (log', a) \<Longrightarrow> length log' = Suc (length log)"
  by (auto simp: ask_def)

theorem legacy_path_bounded: "length (fst (legacy_path env link credential name device)) \<le> 8"
proof -
  obtain log1 r1 where a1: "ask env (LOGIN_URL, token_form credential) [] = (log1, r1)" by fastforce
  have l1: "length log1 = 1" using ask_length [OF a1] by simp
  show ?thesis
  proof (cases "and_then r1 (\<lambda>v. json_string v (path2 ''data'' ''access_token''))")
    case (Inl e)
    then show ?thesis using l1 by (simp add: legacy_path_def a1)
  next
    case t1: (Inr token1)
    obtain log2 r2 where a2: "ask env (preview_url (fst credential), preview_form link token1) log1 = (log2, r2)" by fastforce
    have l2: "length log2 = 2" using ask_length [OF a2] l1 by simp
    show ?thesis
    proof (cases "case r2 of Inr v \<Rightarrow> check_fatal_call v | Inl _ \<Rightarrow> Inr ()")
      case (Inl e)
      then show ?thesis using l2 by (simp add: legacy_path_def a1 t1 a2)
    next
      case p: (Inr u)
      obtain log3 r3 where a3: "token_loop env (anonymous_url (fst credential)) link name token1
          (anonymous_form link name token1) 0 log2 = (log3, r3)" by fastforce
      have l3: "length log3 \<le> 6"
        using token_loop_requests [of 0 env "anonymous_url (fst credential)" link name token1
          "anonymous_form link name token1" log2] a3 l2 by simp
      show ?thesis
      proof (cases r3)
        case (Inl e)
        then show ?thesis using l3 by (simp add: legacy_path_def a1 t1 a2 p a3)
      next
        case t2: (Inr token2)
        obtain log4 r4 where a4: "ask env (OK_URL, login_form device) log3 = (log4, r4)" by fastforce
        have l4: "length log4 \<le> 7" using ask_length [OF a4] l3 by simp
        show ?thesis
        proof (cases "and_then r4 (\<lambda>v. json_string v [lit ''session_key''])")
          case (Inl e)
          then show ?thesis using l4 by (simp add: legacy_path_def a1 t1 a2 p a3 t2 a4)
        next
          case key: (Inr key)
          obtain log5 r5 where a5: "ask env (OK_URL, join_form link token2 key) log4 = (log5, r5)" by fastforce
          have "length log5 \<le> 8" using ask_length [OF a5] l4 by simp
          then show ?thesis by (simp add: legacy_path_def a1 t1 a2 p a3 t2 a4 key a5)
        qed
      qed
    qed
  qed
qed

section \<open>The call of an account\<close>

text \<open>\<open>retry_all\<close>: the result of the first attempt that succeeds, or of the last.\<close>

definition retry_all :: "nat \<Rightarrow> (nat \<Rightarrow> (broker_error, json) res) \<Rightarrow> nat \<times> (broker_error, json) res" where
  "retry_all n f =
     (case retry_delays n 0 (map f [0..<n]) of
        Some (r, delays) \<Rightarrow> (length delays + 1, r)
      | None \<Rightarrow> (0, Inl (Fail BrokerRequest)))"

datatype call_event = AskInfo | StartConversation | HangUp | ForceFinish

record started_call =
  call_hash :: str_text
  call_conversation :: str_text

definition checked :: "(broker_error, json) res \<Rightarrow> (broker_error, json) res" where
  "checked r = and_then r (\<lambda>v. and_then (check_api_error v) (\<lambda>_. Inr v))"

text \<open>The creator leaves in the background; its answers are not looked at beyond the count.\<close>

definition leave_creator :: "(nat \<Rightarrow> (broker_error, json) res) \<Rightarrow> call_event list \<times> bool" where
  "leave_creator answers =
     (case retry_all 3 (\<lambda>i. checked (answers i)) of (n, r) \<Rightarrow> (replicate n HangUp, is_ok r))"

definition finish_call :: "(nat \<Rightarrow> (broker_error, json) res) \<Rightarrow> call_event list \<times> bool" where
  "finish_call answers =
     (case retry_all 3 (\<lambda>i. checked (answers i)) of (n, r) \<Rightarrow> (replicate n ForceFinish, is_ok r))"

definition hash_of_call :: "(broker_error, json) res \<Rightarrow> (broker_error, str_text) res" where
  "hash_of_call call =
     and_then call (\<lambda>v. and_then (check_api_error v) (\<lambda>_.
     ok_or (Option.bind (Option.bind (json_get (lit ''join_link'') v) as_str) join_hash) (MissingField (lit ''join_link''))))"

definition start_calls ::
  "str_text \<Rightarrow> (broker_error, parsed_url \<times> str_text) res \<Rightarrow> (broker_error, json) res \<Rightarrow> (nat \<Rightarrow> (broker_error, json) res) \<Rightarrow>
     (nat \<Rightarrow> (broker_error, json) res) \<Rightarrow> str_text \<Rightarrow> call_event list \<times> (broker_error, started_call) res" where
  "start_calls account_token session info starts hangups conversation =
     (if trim account_token = [] then ([], Inl (Fail (MissingField (lit ''token''))))
      else case session of
        Inl e \<Rightarrow> ([], Inl e)
      | Inr _ \<Rightarrow>
     (case checked info of
        Inl e \<Rightarrow> ([AskInfo], Inl e)
      | Inr v \<Rightarrow>
          if json_get (lit ''serverTime'') v = None then ([AskInfo], Inl (Fail (MissingField (lit ''serverTime''))))
          else (case retry_all 3 starts of
             (n, call) \<Rightarrow>
               (case hash_of_call call of
                  Inr hash \<Rightarrow> (AskInfo # replicate n StartConversation,
                    Inr \<lparr>call_hash = hash, call_conversation = conversation\<rparr>)
                | Inl e \<Rightarrow> (AskInfo # replicate n StartConversation @ fst (leave_creator hangups), Inl e)))))"

lemma retry_all_tries:
  assumes "0 < n"
  shows "\<exists>k r. retry_all n f = (k, r) \<and> 0 < k \<and> k \<le> n"
proof -
  have "\<exists>r ds. retry_delays n k (map f [i..<i + n]) = Some (r, ds)" if "0 < n" for n k i
    using that
  proof (induction n arbitrary: k i)
    case (Suc n)
    show ?case
    proof (cases "is_ok (f i) \<or> n = 0")
      case True
      then show ?thesis by (simp add: upt_conv_Cons del: upt_Suc)
    next
      case False
      then obtain r ds where "retry_delays n (k + 1) (map f [Suc i..<Suc i + n]) = Some (r, ds)"
        using Suc.IH [of "k + 1" "Suc i"] by auto
      then show ?thesis using False by (simp add: upt_conv_Cons del: upt_Suc)
    qed
  qed simp
  from this [OF assms, of 0 0] obtain r ds where d: "retry_delays n 0 (map f [0..<n]) = Some (r, ds)" by auto
  then show ?thesis using retry_at_most [OF d] by (simp add: retry_all_def Suc_leI)
qed

text \<open>
  A call that may have been started is hung up when its link is not known, and one whose link is known
  is kept: the service is never left with a call nobody ends.
\<close>

theorem started_call_ended:
  assumes "start_calls account_token session info starts hangups conversation = (events, r)"
  shows "StartConversation \<in> set events \<longrightarrow> is_ok r \<or> HangUp \<in> set events"
proof -
  obtain n call where n: "retry_all 3 starts = (n, call)" by fastforce
  obtain m h where h: "retry_all 3 (\<lambda>i. checked (hangups i)) = (m, h)" "0 < m"
    using retry_all_tries [of 3 "\<lambda>i. checked (hangups i)"] by auto
  show "StartConversation \<in> set events \<longrightarrow> is_ok r \<or> HangUp \<in> set events"
    using assms h by (auto simp: start_calls_def n leave_creator_def split: if_splits sum.splits)
qed

end
