(* ===== verification/Spec2Isabelle.thy ===== *)
theory Spec2Isabelle
  imports Packet FlowFrame Reassembly ReassemblyWindow Striped SelectiveFec StunCodec
    StunMessage StunRoundtrip TurnCore TurnInvariant TurnSafety Protocol Repair Wakeup
    TurnEndpoint Obfs Replay PacketQueue Scheduler ReturnPath EndToEnd TunIo
    Shutdown SessionTransport Session SessionReader SessionLife
    UdpBatch TurnWire TurnDriver TurnDriverSafety TurnDriverReceive TurnAllocation TurnConnect
    StreamWriter DispatcherStart WintunLoops
    Strings Credentials ConfigFlight WorkerGates WorkerRetry WorkerLoop WorkerGroups
    Dns Logging TunAddress TunRoutes TunDevice WinDevice WinRoutes ClientEvents ClientSetup VkAuth
    SliderPuzzle Captcha CaptchaAttempt BrowserProfiles LegacyAuth
begin

text \<open>
  A model of the Rust backend of the tunnel, the sources under \<^verbatim>\<open>src/backend/\<close>, and what makes it correct.

  \<^bold>\<open>The program.\<close> It carries the IP packets of a local tunnel device through many TURN relayed paths at
  once. Every path is a worker with a TURN allocation on the servers of a call service; the allocations
  are paid with credentials that the service gives for a call. A packet read from the device (or from a
  local UDP client) sits in a pooled buffer, is classified by its size and protocol, possibly sent
  twice, framed with a number per TCP flow, striped over the workers, dressed as an RTP packet and put
  into a ChannelData message. On the way back the same layers are taken off, replayed packets are
  dropped, and the order of each flow is restored. Around that are control messages in the tunnel, the
  routes and addresses of the device, the events for the host application, and the start and end of a
  client.

  \<^bold>\<open>Conventions.\<close> A function of the code is a definition of the same name where HOL allows it; a mutable
  object is a record that is passed on; an error or a panic is a value of \<open>('e, 'a) res\<close> of \<open>Prelude\<close>,
  where \<open>Inl (Fail e)\<close> is an error and \<open>Inl Panic\<close> a panic. \<^verbatim>\<open>usize\<close> is \<open>nat\<close>, with its wrap-around
  written out where it matters; the other integers are words. Release builds have no overflow checks,
  so word arithmetic wraps. Strings are lists of Unicode scalar values (\<open>str_text\<close>) or of bytes. Code
  that several threads or tasks run at once is a step function or relation, one step for every atomic
  access or locked section, and the theorems are about every interleaving. What is not in the
  repository is an argument: the kernel as a script of answers, one for each call, ciphers, hashes, the
  random generator, clocks, the answers of servers.

  \<^bold>\<open>Shared parts.\<close> \<open>Prelude\<close> has results, checked reads and arithmetic, \<open>Bytes\<close> the encodings of integers
  and the interface of a codec, \<open>Machine\<close> runs of step functions and reachable states with the two
  interfaces through which the invariants are proved, \<open>Tables\<close> maps and vectors, \<open>Strings\<close> the string
  functions of the standard library. The interfaces are locales: \<open>wire_codec\<close> (interpreted for the
  integers and the frame header), \<open>machine\<close> (pool, sequencer, reassembler, budget, packet channel,
  TURN core, shutdown), \<open>transition_system\<close> (the shared pool, repair, path validation, the log gate,
  logger, events), \<open>keyed_store\<close> and \<open>driver_loop\<close> (both TURN drivers).

  \<^bold>\<open>Packets and flows.\<close> \<open>Packet\<close> is \<^verbatim>\<open>packet.rs\<close>: buffers with a live range refine byte strings, and the
  pool keeps its limit under every interleaving. \<open>FlowFrame\<close>, \<open>Reassembly\<close> and \<open>ReassemblyWindow\<close> are
  \<^verbatim>\<open>shared/flow_frame.rs\<close>: the frame header, the numbers a flow gets, and the reassembler, which only
  goes forward whatever arrives, and within its window (96 frames ahead, 12 ms for a gap) delivers the
  longest prefix without a gap. The results on all inputs hold while at most 4096 flows are tracked, the number at which the code begins
  to forget flows. \<open>Striped\<close> and \<open>SelectiveFec\<close> are the classification and the budget of duplicates.
  \<open>EndToEnd\<close> puts the two ends together.

  \<^bold>\<open>TURN.\<close> \<open>StunCodec\<close>, \<open>StunMessage\<close> and \<open>StunRoundtrip\<close> are the messages (\<^verbatim>\<open>stun_codec.rs\<close>, \<^verbatim>\<open>turn_core.rs\<close>):
  decoding never leaves the datagram, and what the core builds is read back. \<open>TurnCore\<close> has every
  handler of the client core, \<open>TurnInvariant\<close> its invariant over all calls, \<open>TurnSafety\<close> what it
  promises against hostile traffic. \<open>TurnDriver\<close>, \<open>TurnDriverSafety\<close> and \<open>TurnDriverReceive\<close> are the task
  that drives it (\<^verbatim>\<open>turn.rs\<close>), over \<open>UdpBatch\<close> (\<^verbatim>\<open>udp_batch.rs\<close>), \<open>TurnWire\<close> and \<open>StreamWriter\<close>
  (\<^verbatim>\<open>turn_stream.rs\<close>): a burst accounts for every datagram and buffer, a cleanup ends within 35 seconds,
  the first failure is the one reported. Reports of a failure are one step there; their single atomic
  accesses are the last section of \<open>TurnDriverSafety\<close>. \<open>TurnAllocation\<close> and \<open>TurnConnect\<close> are the side of its users,
  \<open>TurnEndpoint\<close> the URIs.

  \<^bold>\<open>Sessions.\<close> \<open>Obfs\<close> and \<open>Replay\<close> dress and undress packets and refuse what was seen before; the bitmap
  window is proved equal to the full history. \<open>SessionTransport\<close> joins two ends: what is flushed arrives
  exactly once. \<open>Session\<close> is the handshake, \<open>SessionReader\<close> tells control messages from packets,
  \<open>SessionLife\<close> runs a session step by step with the guards it holds, through errors, panics and
  aborts at any await, and shows that all it took is given back. \<open>Shutdown\<close> coordinates the farewell.
  \<open>Protocol\<close> has the control messages, \<open>Repair\<close> and \<open>Wakeup\<close> the notifications of single workers.

  \<^bold>\<open>Workers.\<close> \<open>Credentials\<close> leases a credential to at most 18 attempts, \<open>WorkerGates\<close> paces the starts,
  \<open>WorkerRetry\<close> classifies errors and draws the delays, \<open>WorkerLoop\<close> is the loop with its supervisor
  and the account of its leases, of which a panic loses one,
  \<open>WorkerGroups\<close> the hashes and the numbering, \<open>ConfigFlight\<close> the one who asks for the configuration.

  \<^bold>\<open>Dispatcher.\<close> \<open>PacketQueue\<close>, \<open>Scheduler\<close>, \<open>ReturnPath\<close>, \<open>TunIo\<close>, \<open>WintunLoops\<close> and \<open>DispatcherStart\<close> are
  \<^verbatim>\<open>dispatcher.rs\<close>: channels with epochs, the round robin over the workers, the way back in batches, the
  loops of the device and the local socket, and their start.

  \<^bold>\<open>Host and client.\<close> \<open>TunAddress\<close>, \<open>TunRoutes\<close> and \<open>TunDevice\<close> are \<^verbatim>\<open>tun_linux.rs\<close>: addresses, the
  routes of a session over a kernel as rtnetlink documents it, and the ioctls of the device; \<open>WinDevice\<close> and
  \<open>WinRoutes\<close> are the parts of \<^verbatim>\<open>tun_win.rs\<close> that decide; \<open>Dns\<close> is the resolver, \<open>Logging\<close> the logger,
  \<open>ClientEvents\<close> the events, \<open>ClientSetup\<close> the life of a client (\<^verbatim>\<open>lib.rs\<close>, \<^verbatim>\<open>wrap.rs\<close>), \<open>VkAuth\<close> and
  \<open>LegacyAuth\<close> the credential service (\<^verbatim>\<open>auth.rs\<close>, \<^verbatim>\<open>vk_js_calls.rs\<close>), \<open>Captcha\<close>, \<open>SliderPuzzle\<close> and \<open>CaptchaAttempt\<close> the captchas,
  \<open>BrowserProfiles\<close> the claimed browsers and names.

  \<^bold>\<open>Bounds and fuel.\<close> Loops of the code that end by themselves are recursive functions with a measure.
  Two that need not end are \<open>partial_function (option)\<close>: the walk over netlink answers, for which a
  lemma shows the input on which it hangs, and the rounds of a captcha, for which it is proved that
  they end. Loops over the events of the outside (drivers, workers, readers) consume a script, and the
  theorems quantify over all scripts.

  \<^bold>\<open>Where the code does not do what it means to.\<close> Some theorems and lemmas state a defect as it is:
  \<open>full_window_strands_frame\<close>, \<open>rebind_exhausted_keeps_polling\<close>, \<open>repair_lost_wakeup\<close>,
  \<open>config_flight_stale_drop\<close>, \<open>reader_reason_lost\<close>, \<open>shutdown_strands_line\<close>, \<open>scan_netlink_stuck\<close>,
  \<open>suspicion_twice\<close>, \<open>failed_dispatcher_leaves\<close>, \<open>dead_link_missed\<close>, \<open>auto_js_hides_dead_call\<close>,
  \<open>stream_writer_order\<close>, \<open>dead_device_unnoticed\<close>, \<open>ioctl_writes_behind\<close>, \<open>descriptors_lost\<close>,
  \<open>win_early_hosts_forgotten\<close>, \<open>early_panic_loses_lease\<close>, \<open>late_reason\<close>.

  \<^bold>\<open>Not modelled.\<close> System and library calls themselves: sockets, TLS, the HTTP client and its headers,
  the Wintun adapter and the IP helper of Windows, the ciphers, image decoding, regular expressions.
  Arithmetic in floating point: the third score of a slider guess and the pretended paths of the
  cursor. The spawning and joining of the tasks of a group, the validation of hashes at the start, and
  the counters (\<^verbatim>\<open>stats.rs\<close>, \<^verbatim>\<open>client_perf.rs\<close>, \<^verbatim>\<open>cpu_task.rs\<close>), which decide nothing. The bridge to the
  Flutter interface, which is generated or forwards calls. Timing is only modelled where the code reads
  a clock; fairness of the scheduler is not assumed anywhere.
\<close>

end
